(* ===== verification/Prelude.thy ===== *)
theory Prelude
  imports Main "HOL-Library.Word" "HOL-Library.Monad_Syntax"
begin

text \<open>
  Vocabulary shared by every component: the C integer types at their x86-64 widths, the
  errno values the code returns, undefined behaviour as the value \<open>None\<close> of the
  option monad, blocks of memory as lists with checked reads and writes, and the
  lemmas about options, lists and words that the component proofs use.

  A C function whose execution has undefined behaviour (a NULL or dangling pointer, an
  access outside a block), fails an \<open>assert\<close> or never returns has the value
  \<open>None\<close>; a function that returns has a value \<open>Some r\<close>, where \<open>r\<close>
  holds the C return value and the new state.
\<close>

unbundle bit_operations_syntax

section \<open>Machine integers and error numbers\<close>

type_synonym u8 = "8 word"
type_synonym u16 = "16 word"
type_synonym u32 = "32 word"
type_synonym u64 = "64 word"

text \<open>A C \<open>int\<close> result of a function is an \<open>int\<close>; errors are negative.\<close>

type_synonym c_int = int

abbreviation (input) EPERM :: c_int where "EPERM \<equiv> 1"
abbreviation (input) ENOENT :: c_int where "ENOENT \<equiv> 2"
abbreviation (input) ENOMEM :: c_int where "ENOMEM \<equiv> 12"
abbreviation (input) EIO :: c_int where "EIO \<equiv> 5"
abbreviation (input) EBUSY :: c_int where "EBUSY \<equiv> 16"
abbreviation (input) EEXIST :: c_int where "EEXIST \<equiv> 17"
abbreviation (input) ENODEV :: c_int where "ENODEV \<equiv> 19"
abbreviation (input) EINVAL :: c_int where "EINVAL \<equiv> 22"
abbreviation (input) ENOSPC :: c_int where "ENOSPC \<equiv> 28"
abbreviation (input) ENAMETOOLONG :: c_int where "ENAMETOOLONG \<equiv> 36"
abbreviation (input) EOVERFLOW :: c_int where "EOVERFLOW \<equiv> 75"
abbreviation (input) ENOTSUP :: c_int where "ENOTSUP \<equiv> 95"
abbreviation (input) ENOBUFS :: c_int where "ENOBUFS \<equiv> 105"

section \<open>The option monad as C execution\<close>

text \<open>\<open>guard b\<close> stops the execution (undefined behaviour, failed assert) unless \<open>b\<close>.\<close>

definition guard :: "bool \<Rightarrow> unit option" where
  "guard b = (if b then Some () else None)"

lemma guard_simps [simp]:
  "guard True = Some ()" "guard False = None"
  "guard b = Some u \<longleftrightarrow> b" "guard b = None \<longleftrightarrow> \<not> b"
  by (auto simp: guard_def)

lemma bind_guard [simp]: "(guard b \<bind> f) = (if b then f () else None)"
  by (simp add: guard_def)

lemma case_guard [simp]: "(case guard b of None \<Rightarrow> x | Some u \<Rightarrow> f u) = (if b then f () else x)"
  by (simp add: guard_def)

lemma bind_case_option: "(m \<bind> f) = (case m of None \<Rightarrow> None | Some x \<Rightarrow> f x)"
  by (cases m) auto

text \<open>Rules that step through a \<open>do\<close> block in a hypothesis.\<close>

named_theorems exec_simps \<open>one step of a component's operation\<close>
named_theorems rep_simps \<open>how an abstraction reads a component's state\<close>

lemmas bind_SomeD = bind_eq_Some_conv [THEN iffD1]

section \<open>Blocks of memory\<close>

text \<open>
  A heap maps the address of a live block to its cells. Reading or writing a cell checks
  that the block is live and that the index is inside it.
\<close>

type_synonym 'a blocks = "nat \<rightharpoonup> 'a list"

definition blk_read :: "'a blocks \<Rightarrow> nat \<Rightarrow> nat \<Rightarrow> 'a option" where
  "blk_read h a i =
     (case h a of None \<Rightarrow> None | Some xs \<Rightarrow> if i < length xs then Some (xs ! i) else None)"

definition blk_write :: "'a blocks \<Rightarrow> nat \<Rightarrow> nat \<Rightarrow> 'a \<Rightarrow> 'a blocks option" where
  "blk_write h a i v =
     (case h a of None \<Rightarrow> None
      | Some xs \<Rightarrow> if i < length xs then Some (h(a \<mapsto> xs[i := v])) else None)"

definition blk_free :: "'a blocks \<Rightarrow> nat \<Rightarrow> 'a blocks option" where
  "blk_free h a = (case h a of None \<Rightarrow> None | Some xs \<Rightarrow> Some (h(a := None)))"

lemma blk_write_Some:
  "blk_write h a i v = Some h' \<longleftrightarrow>
     (\<exists>xs. h a = Some xs \<and> i < length xs \<and> h' = h(a \<mapsto> xs[i := v]))"
  by (auto simp: blk_write_def split: option.splits if_splits)

lemma blk_read_Some:
  "blk_read h a i = Some v \<longleftrightarrow> (\<exists>xs. h a = Some xs \<and> i < length xs \<and> v = xs ! i)"
  by (auto simp: blk_read_def split: option.splits if_splits)

lemma blk_free_Some:
  "blk_free h a = Some h' \<longleftrightarrow> a \<in> dom h \<and> h' = h(a := None)"
  by (auto simp: blk_free_def split: option.splits)

text \<open>A read after a write: the written cell has the new value, every other cell its old one.\<close>

lemma blk_read_write:
  assumes "blk_write h a i v = Some h'"
  shows "blk_read h' b j = (if a = b \<and> i = j then Some v else blk_read h b j)"
  using assms by (auto simp: blk_write_Some blk_read_def)

section \<open>Words\<close>

lemma word_of_nat_unat_mult:
  fixes a b :: "'a::len word"
  assumes "unat a * unat b < 2 ^ LENGTH('a)"
  shows "unat (a * b) = unat a * unat b"
  using assms by (simp add: unat_word_ariths)

lemma unat_add_no_overflow:
  fixes a b :: "'a::len word"
  assumes "unat a + unat b < 2 ^ LENGTH('a)"
  shows "unat (a + b) = unat a + unat b"
  using assms by (simp add: unat_word_ariths)

lemma unat_sub_le:
  fixes a b :: "'a::len word"
  assumes "b \<le> a"
  shows "unat (a - b) = unat a - unat b"
  using assms by (rule unat_sub)

lemma unat_lt2p: "unat (x :: 'a::len word) < 2 ^ LENGTH('a)"
  by (fact unsigned_less)

lemma unat_ucast_up:
  fixes x :: "'a::len word"
  assumes "LENGTH('a) \<le> LENGTH('b::len)"
  shows "unat (ucast x :: 'b word) = unat x"
proof -
  have "unat x < 2 ^ LENGTH('b)"
    by (rule less_le_trans [OF unat_lt2p]) (simp add: assms)
  then show ?thesis by (simp add: unsigned_ucast_eq take_bit_nat_eq_self)
qed

text \<open>Row-major indices: inside the rectangle, below the area, and injective.\<close>

lemma row_major_bound:
  fixes x y w h :: nat
  assumes "x < w" "y < h"
  shows "y * w + x < w * h"
proof -
  have "y * w + x < (y + 1) * w" using assms(1) by simp
  also have "\<dots> \<le> h * w" using assms(2) by (intro mult_le_mono1) simp
  finally show ?thesis by (simp add: mult.commute)
qed

lemma row_major_inj:
  fixes x y x' y' w :: nat
  assumes "x < w" "x' < w"
  shows "y * w + x = y' * w + x' \<longleftrightarrow> x = x' \<and> y = y'"
proof
  assume eq: "y * w + x = y' * w + x'"
  have "(y * w + x) mod w = (y' * w + x') mod w" using eq by simp
  then have "x = x'" using assms by simp
  with eq assms show "x = x' \<and> y = y'" by auto
qed simp

section \<open>Numerals\<close>

text \<open>What \<open>%d\<close> prints of a number that is not negative.\<close>

fun dec :: "nat \<Rightarrow> string" where
  "dec n = (if n < 10 then [char_of (48 + n)] else dec (n div 10) @ [char_of (48 + n mod 10)])"

declare dec.simps [simp del]

section \<open>Lists\<close>

lemma nth_list_update_cases:
  "i < length xs \<Longrightarrow> xs[j := v] ! i = (if i = j then v else xs ! i)"
  by auto

lemma list_update_beyond_id: "length xs \<le> i \<Longrightarrow> xs[i := v] = xs"
  by (rule list_update_beyond)

end
