(* ===== verification/FifoContract.thy ===== *)
theory FifoContract
  imports Prelude
begin

text \<open>
  What the work queues rely on from the intrusive list: a queue of entries, appended at
  the end and taken from the front. \<open>rep h l es\<close> reads list \<open>l\<close> of heap \<open>h\<close> as the
  sequence \<open>es\<close>; \<open>live h e\<close> says that the memory of entry \<open>e\<close> is allocated.
\<close>

locale fifo_list =
  fixes rep :: "'h \<Rightarrow> 'l \<Rightarrow> 'e list \<Rightarrow> bool"
    and live :: "'h \<Rightarrow> 'e \<Rightarrow> bool"
    and is_empty :: "'h \<Rightarrow> 'l \<Rightarrow> bool option"
    and first :: "'h \<Rightarrow> 'l \<Rightarrow> 'e option option"
    and append :: "'h \<Rightarrow> 'l \<Rightarrow> 'e \<Rightarrow> 'h option"
    and remove :: "'h \<Rightarrow> 'e \<Rightarrow> 'h option"
  assumes is_empty_rep: "rep h l es \<Longrightarrow> is_empty h l = Some (es = [])"
    and first_rep: "rep h l (e # es) \<Longrightarrow> first h l = Some (Some e)"
    and append_rep: "rep h l es \<Longrightarrow> live h e \<Longrightarrow> e \<notin> set es \<Longrightarrow>
           \<exists>h'. append h l e = Some h' \<and> rep h' l (es @ [e]) \<and> live h' = live h"
    and remove_rep: "rep h l (e # es) \<Longrightarrow>
           \<exists>h'. remove h e = Some h' \<and> rep h' l es \<and> live h' = live h"
    and append_other: "rep h l es \<Longrightarrow> append h l e = Some h' \<Longrightarrow> live h e \<Longrightarrow> e \<notin> set es \<Longrightarrow>
           rep h l2 es2 \<Longrightarrow> l2 \<noteq> l \<Longrightarrow> e \<notin> set es2 \<Longrightarrow> rep h' l2 es2"
    and remove_other: "rep h l (e # es) \<Longrightarrow> remove h e = Some h' \<Longrightarrow>
           rep h l2 es2 \<Longrightarrow> l2 \<noteq> l \<Longrightarrow> rep h' l2 es2"
    and rep_live: "rep h l es \<Longrightarrow> e \<in> set es \<Longrightarrow> live h e"
    and rep_distinct: "rep h l es \<Longrightarrow> distinct es"
begin

text \<open>Taking the first entry, as both loops of the work queue do.\<close>

lemma pop_first:
  assumes "rep h l (e # es)"
  obtains h' where "is_empty h l = Some False" "first h l = Some (Some e)"
    "remove h e = Some h'" "rep h' l es" "live h' = live h" "e \<notin> set es"
proof -
  have "is_empty h l = Some False" using is_empty_rep [OF assms] by simp
  moreover have "e \<notin> set es" using rep_distinct [OF assms] by simp
  ultimately show thesis
    using first_rep [OF assms] remove_rep [OF assms] that by blast
qed

lemma empty_stops: "rep h l [] \<Longrightarrow> is_empty h l = Some True"
  by (simp add: is_empty_rep)

text \<open>
  A family of lists, one for each address in \<open>A\<close>: an append or a removal on one of them
  changes that member only.
\<close>

lemma append_family:
  assumes "\<forall>l \<in> A. rep h l (f l)" "l \<in> A" "live h e" "\<forall>l \<in> A. e \<notin> set (f l)"
  shows "\<exists>h'. append h l e = Some h' \<and> (\<forall>k \<in> A. rep h' k ((f(l := f l @ [e])) k)) \<and> live h' = live h"
proof -
  obtain h' where h': "append h l e = Some h'" "rep h' l (f l @ [e])" "live h' = live h"
    using append_rep assms by blast
  have "rep h' k (f k)" if "k \<in> A" "k \<noteq> l" for k
    using append_other [OF _ h'(1) assms(3)] assms that by blast
  with h' show ?thesis by auto
qed

lemma remove_family:
  assumes "\<forall>l \<in> A. rep h l (f l)" "l \<in> A" "f l = e # es"
  shows "\<exists>h'. remove h e = Some h' \<and> (\<forall>k \<in> A. rep h' k ((f(l := es)) k)) \<and> live h' = live h"
proof -
  have r: "rep h l (e # es)" using assms by force
  obtain h' where h': "remove h e = Some h'" "rep h' l es" "live h' = live h"
    using remove_rep [OF r] by blast
  have "rep h' k (f k)" if "k \<in> A" "k \<noteq> l" for k
    using remove_other [OF r h'(1)] assms that by blast
  with h' show ?thesis by auto
qed

end

end
