(* ===== verification/LList.thy ===== *)
theory LList
  imports Prelude FifoContract
begin

text \<open>
  The intrusive doubly linked list of \<open>llist.h\<close> and \<open>llist.c\<close> on an explicit heap.
  An \<open>llist_entry\<close> is embedded in the structure it links, so it is known by its
  address only; a list head holds the first and the last entry and a mutex. The
  operations run in the option monad: \<open>None\<close> is a NULL or dangling pointer, a failed
  \<open>assert\<close>, or a mutex that is already held (a lock that never returns).

  \<open>llist_rep h l es\<close> says that list \<open>l\<close> links exactly the entries \<open>es\<close>, in
  this order. Every operation is proved to act on \<open>es\<close> as the list operation of the
  same meaning, and to leave every other list alone.
\<close>

section \<open>State\<close>

type_synonym eaddr = nat
type_synonym laddr = nat

record llist_entry =
  e_next :: "eaddr option"
  e_prev :: "eaddr option"
  e_list :: "laddr option"

record llist =
  l_head :: "eaddr option"
  l_tail :: "eaddr option"
  l_lock :: bool

record lheap =
  entries :: "eaddr \<rightharpoonup> llist_entry"
  llists :: "laddr \<rightharpoonup> llist"

definition LLIST_ENTRY_INIT :: llist_entry where
  "LLIST_ENTRY_INIT = \<lparr>e_next = None, e_prev = None, e_list = None\<rparr>"

text \<open>Stores through a pointer: undefined unless the structure is allocated.\<close>

definition upd_entry :: "(llist_entry \<Rightarrow> llist_entry) \<Rightarrow> eaddr \<Rightarrow> lheap \<Rightarrow> lheap option" where
  "upd_entry f e h =
     (case entries h e of None \<Rightarrow> None
      | Some E \<Rightarrow> Some (h\<lparr>entries := (entries h)(e \<mapsto> f E)\<rparr>))"

definition upd_list :: "(llist \<Rightarrow> llist) \<Rightarrow> laddr \<Rightarrow> lheap \<Rightarrow> lheap option" where
  "upd_list f l h =
     (case llists h l of None \<Rightarrow> None
      | Some L \<Rightarrow> Some (h\<lparr>llists := (llists h)(l \<mapsto> f L)\<rparr>))"

section \<open>Operations\<close>

definition llist_lock :: "laddr \<Rightarrow> lheap \<Rightarrow> lheap option" where
  "llist_lock l h = do {
     L \<leftarrow> llists h l;
     _ \<leftarrow> guard (\<not> l_lock L);
     upd_list (l_lock_update (\<lambda>_. True)) l h }"

definition llist_unlock :: "laddr \<Rightarrow> lheap \<Rightarrow> lheap option" where
  "llist_unlock l h = upd_list (l_lock_update (\<lambda>_. False)) l h"

definition llist_is_empty :: "lheap \<Rightarrow> laddr \<Rightarrow> bool option" where
  "llist_is_empty h l = do { L \<leftarrow> llists h l; Some (l_head L = None) }"

definition llist_init :: "lheap \<Rightarrow> laddr \<Rightarrow> lheap option" where
  "llist_init h l = upd_list (\<lambda>_. \<lparr>l_head = None, l_tail = None, l_lock = False\<rparr>) l h"

definition llist_entry_init :: "lheap \<Rightarrow> eaddr \<Rightarrow> lheap option" where
  "llist_entry_init h e = do {
     h \<leftarrow> upd_entry (e_next_update (\<lambda>_. None)) e h;
     h \<leftarrow> upd_entry (e_prev_update (\<lambda>_. None)) e h;
     upd_entry (e_list_update (\<lambda>_. None)) e h }"

text \<open>
  \<open>m\<close> is the result of \<open>malloc\<close>: NULL, or a fresh address with undetermined contents
  \<open>junk\<close>. The result is the return value, the pointer stored in \<open>*ret\<close> and the heap.
\<close>

definition llist_alloc ::
    "laddr option \<Rightarrow> llist \<Rightarrow> lheap \<Rightarrow> (c_int \<times> laddr option \<times> lheap) option" where
  "llist_alloc m junk h =
     (case m of None \<Rightarrow> Some (- ENOMEM, None, h)
      | Some l \<Rightarrow> do {
          h \<leftarrow> llist_init (h\<lparr>llists := (llists h)(l \<mapsto> junk)\<rparr>) l;
          Some (0, Some l, h) })"

definition llist_free :: "lheap \<Rightarrow> laddr \<Rightarrow> lheap option" where
  "llist_free h l = do {
     _ \<leftarrow> guard (l \<in> dom (llists h));
     Some (h\<lparr>llists := (llists h)(l := None)\<rparr>) }"

definition llist_append :: "lheap \<Rightarrow> laddr \<Rightarrow> eaddr \<Rightarrow> lheap option" where
  "llist_append h l e = do {
     h \<leftarrow> llist_lock l h;
     h \<leftarrow> upd_entry (e_list_update (\<lambda>_. Some l)) e h;
     L \<leftarrow> llists h l;
     h \<leftarrow> (if l_head L = None \<or> l_tail L = None then do {
              _ \<leftarrow> guard (l_tail L = None);
              h \<leftarrow> upd_entry (e_next_update (\<lambda>_. None)) e h;
              h \<leftarrow> upd_entry (e_prev_update (\<lambda>_. None)) e h;
              h \<leftarrow> upd_list (l_head_update (\<lambda>_. Some e)) l h;
              upd_list (l_tail_update (\<lambda>_. Some e)) l h }
           else do {
              h \<leftarrow> upd_entry (e_next_update (\<lambda>_. None)) e h;
              t \<leftarrow> l_tail L;
              h \<leftarrow> upd_entry (e_next_update (\<lambda>_. Some e)) t h;
              h \<leftarrow> upd_entry (e_prev_update (\<lambda>_. Some t)) e h;
              upd_list (l_tail_update (\<lambda>_. Some e)) l h });
     llist_unlock l h }"

definition llist_remove :: "lheap \<Rightarrow> eaddr \<Rightarrow> lheap option" where
  "llist_remove h e = do {
     E \<leftarrow> entries h e;
     l \<leftarrow> e_list E;
     h \<leftarrow> llist_lock l h;
     L \<leftarrow> llists h l;
     h \<leftarrow> (if l_head L = Some e then upd_list (l_head_update (\<lambda>_. e_next E)) l h else Some h);
     L \<leftarrow> llists h l;
     h \<leftarrow> (if l_tail L = Some e then upd_list (l_tail_update (\<lambda>_. e_prev E)) l h else Some h);
     h \<leftarrow> (case e_next E of None \<Rightarrow> Some h
           | Some n \<Rightarrow> upd_entry (e_prev_update (\<lambda>_. e_prev E)) n h);
     E \<leftarrow> entries h e;
     h \<leftarrow> (case e_prev E of None \<Rightarrow> Some h
           | Some p \<Rightarrow> upd_entry (e_next_update (\<lambda>_. e_next E)) p h);
     h \<leftarrow> upd_entry (e_next_update (\<lambda>_. None)) e h;
     h \<leftarrow> upd_entry (e_prev_update (\<lambda>_. None)) e h;
     h \<leftarrow> upd_entry (e_list_update (\<lambda>_. None)) e h;
     llist_unlock l h }"

text \<open>
  The loop macro \<open>llist_for_each\<close>: the body gets the cursor and may stop the loop with
  a result (\<open>Inr\<close>, a \<open>break\<close> or \<open>return\<close>); \<open>cursor->next\<close> is read
  from the heap the body left behind, \<open>hp s\<close>. A loop around a cycle does not return.
\<close>

partial_function (option) llist_for_each ::
    "('s \<Rightarrow> lheap) \<Rightarrow> ('s \<Rightarrow> eaddr \<Rightarrow> ('s + 'r) option) \<Rightarrow> eaddr option \<Rightarrow> 's \<Rightarrow> ('s + 'r) option" where
  "llist_for_each hp body cursor s =
     (case cursor of None \<Rightarrow> Some (Inl s)
      | Some e \<Rightarrow>
          Option.bind (body s e) (\<lambda>r. case r of
            Inr x \<Rightarrow> Some (Inr x)
          | Inl s' \<Rightarrow> Option.bind (entries (hp s') e) (\<lambda>E. llist_for_each hp body (e_next E) s')))"

definition llist_length :: "lheap \<Rightarrow> laddr \<Rightarrow> u64 option" where
  "llist_length h ls = do {
     L \<leftarrow> llists h ls;
     r \<leftarrow> llist_for_each (\<lambda>_. h) (\<lambda>len _. Some (Inl (len + 1) :: u64 + u64)) (l_head L) 0;
     Some (case r of Inl len \<Rightarrow> len | Inr len \<Rightarrow> len) }"

definition llist_get_entry :: "lheap \<Rightarrow> laddr \<Rightarrow> u32 \<Rightarrow> eaddr option option" where
  "llist_get_entry h ls index = do {
     L \<leftarrow> llists h ls;
     r \<leftarrow> llist_for_each (\<lambda>_. h)
           (\<lambda>index cursor. Some (if index = 0 then Inr cursor else Inl (index - 1 :: u32)))
           (l_head L) index;
     Some (case r of Inl _ \<Rightarrow> None | Inr cursor \<Rightarrow> Some cursor) }"


section \<open>What a list links\<close>

text \<open>
  \<open>ptr_first es n\<close> and \<open>ptr_last es p\<close> are the first and last entry of \<open>es\<close>, or the
  pointer beyond the segment when it is empty; \<open>dll m l p es n\<close> is a doubly linked
  segment of list \<open>l\<close> between the entries \<open>p\<close> and \<open>n\<close>.
\<close>

fun ptr_first :: "eaddr list \<Rightarrow> eaddr option \<Rightarrow> eaddr option" where
  "ptr_first [] n = n"
| "ptr_first (e # es) n = Some e"

fun ptr_last :: "eaddr list \<Rightarrow> eaddr option \<Rightarrow> eaddr option" where
  "ptr_last [] p = p"
| "ptr_last (e # es) p = ptr_last es (Some e)"

fun dll :: "(eaddr \<rightharpoonup> llist_entry) \<Rightarrow> laddr \<Rightarrow> eaddr option \<Rightarrow> eaddr list \<Rightarrow> eaddr option \<Rightarrow> bool" where
  "dll m l p [] n = True"
| "dll m l p (e # es) n =
     (m e = Some \<lparr>e_next = ptr_first es n, e_prev = p, e_list = Some l\<rparr> \<and>
      dll m l (Some e) es n)"

definition llist_rep :: "lheap \<Rightarrow> laddr \<Rightarrow> eaddr list \<Rightarrow> bool" where
  "llist_rep h l es \<longleftrightarrow>
     llists h l = Some \<lparr>l_head = ptr_first es None, l_tail = ptr_last es None, l_lock = False\<rparr> \<and>
     distinct es \<and> dll (entries h) l None es None"

lemma ptr_first_append [simp]: "ptr_first (xs @ ys) n = ptr_first xs (ptr_first ys n)"
  by (cases xs) auto

lemma ptr_last_append [simp]: "ptr_last (xs @ ys) p = ptr_last ys (ptr_last xs p)"
  by (induction xs arbitrary: p) auto

lemma ptr_first_None [simp]: "ptr_first es None = None \<longleftrightarrow> es = []"
  by (cases es) auto

lemma ptr_last_conv: "ptr_last es p = (if es = [] then p else Some (last es))"
  by (induction es arbitrary: p) auto

lemma ptr_first_Some: "ptr_first es (Some x) = Some (if es = [] then x else hd es)"
  by (cases es) auto

lemma ptr_last_mem: "ptr_last es p = Some e \<Longrightarrow> e \<in> set es \<or> p = Some e"
  by (auto simp: ptr_last_conv split: if_splits)

lemma dll_append [simp]:
  "dll m l p (xs @ ys) n \<longleftrightarrow> dll m l p xs (ptr_first ys n) \<and> dll m l (ptr_last xs p) ys n"
  by (induction xs arbitrary: p) auto

lemma dll_frame:
  "\<forall>e \<in> set es. m' e = m e \<Longrightarrow> dll m' l p es n = dll m l p es n"
  by (induction es arbitrary: p) auto

lemma dll_upd_other [simp]: "e \<notin> set es \<Longrightarrow> dll (m(e := v)) l p es n = dll m l p es n"
  by (rule dll_frame) auto

lemma dll_owner: "dll m l p es n \<Longrightarrow> e \<in> set es \<Longrightarrow> \<exists>E. m e = Some E \<and> e_list E = Some l"
  by (induction es arbitrary: p) auto

text \<open>An entry is in one list only, because it names its list.\<close>

lemma rep_disjoint:
  "llist_rep h l es \<Longrightarrow> llist_rep h l' es' \<Longrightarrow> l \<noteq> l' \<Longrightarrow> set es \<inter> set es' = {}"
  by (fastforce simp: llist_rep_def dest: dll_owner)

lemma llist_repI:
  assumes "llists h l = Some \<lparr>l_head = ptr_first es None, l_tail = ptr_last es None, l_lock = False\<rparr>"
    and "distinct es" and "dll (entries h) l None es None"
  shows "llist_rep h l es"
  using assms by (simp add: llist_rep_def)

text \<open>What an operation on list \<open>l\<close> and the entries \<open>A\<close> leaves alone.\<close>

definition llist_frame :: "laddr \<Rightarrow> eaddr set \<Rightarrow> lheap \<Rightarrow> lheap \<Rightarrow> bool" where
  "llist_frame l A h h' \<longleftrightarrow>
     (\<forall>l'. l' \<noteq> l \<longrightarrow> llists h' l' = llists h l') \<and> (\<forall>e. e \<notin> A \<longrightarrow> entries h' e = entries h e) \<and>
     dom (entries h') = dom (entries h)"

lemma rep_frame:
  assumes "llist_frame l A h h'" and "llist_rep h l' es'" and "l' \<noteq> l" and "A \<inter> set es' = {}"
  shows "llist_rep h' l' es'"
proof -
  have "dll (entries h') l' None es' None = dll (entries h) l' None es' None"
    using assms(1,4) by (intro dll_frame) (auto simp: llist_frame_def)
  with assms show ?thesis by (auto simp: llist_rep_def llist_frame_def)
qed

section \<open>Initialisation, append, remove\<close>

lemma init_rep:
  "l \<in> dom (llists h) \<Longrightarrow> \<exists>h'. llist_init h l = Some h' \<and> llist_rep h' l [] \<and> llist_frame l {} h h'"
  by (auto simp: llist_init_def upd_list_def llist_rep_def llist_frame_def)

lemma alloc_rep:
  "\<exists>h'. llist_alloc (Some l) junk h = Some (0, Some l, h') \<and> llist_rep h' l [] \<and>
        llist_frame l {} h h'"
  by (auto simp: llist_alloc_def llist_init_def upd_list_def llist_rep_def llist_frame_def)

lemmas llist_op_simps =
  llist_lock_def llist_unlock_def upd_list_def upd_entry_def bind_case_option

lemma llist_append_rep:
  assumes rep: "llist_rep h l es" and e: "e \<in> dom (entries h)" "e \<notin> set es"
  shows "\<exists>h'. llist_append h l e = Some h' \<and> llist_rep h' l (es @ [e]) \<and>
              llist_frame l (insert e (set es)) h h'"
proof (cases es rule: rev_cases)
  case Nil
  with rep e show ?thesis
    by (auto simp: llist_append_def llist_op_simps llist_rep_def llist_frame_def)
next
  case (snoc xs x)
  with rep e show ?thesis
    by (auto simp: llist_append_def llist_op_simps llist_rep_def llist_frame_def ptr_first_Some)
qed

lemma llist_remove_rep:
  assumes rep: "llist_rep h l (xs @ e # ys)"
  shows "\<exists>h'. llist_remove h e = Some h' \<and> llist_rep h' l (xs @ ys) \<and>
              entries h' e = Some LLIST_ENTRY_INIT \<and>
              llist_frame l (set (xs @ e # ys)) h h'"
proof (cases xs rule: rev_cases)
  case Nil
  then show ?thesis using rep
    by (cases ys)
       (auto simp: llist_remove_def llist_op_simps llist_rep_def llist_frame_def LLIST_ENTRY_INIT_def
             dest: ptr_last_mem)
next
  case (snoc zs z)
  then show ?thesis using rep
    by (cases ys)
       (auto simp: llist_remove_def llist_op_simps llist_rep_def llist_frame_def LLIST_ENTRY_INIT_def
             ptr_first_Some dest: ptr_last_mem)
qed

section \<open>Loops over a list\<close>

text \<open>The loop over the entries in order, which \<open>llist_for_each\<close> is proved to be.\<close>

fun run_entries :: "('s \<Rightarrow> eaddr \<Rightarrow> ('s + 'r) option) \<Rightarrow> eaddr list \<Rightarrow> 's \<Rightarrow> ('s + 'r) option" where
  "run_entries body [] s = Some (Inl s)"
| "run_entries body (e # es) s =
     (case body s e of None \<Rightarrow> None
      | Some (Inr x) \<Rightarrow> Some (Inr x)
      | Some (Inl s') \<Rightarrow> run_entries body es s')"

text \<open>
  A body that leaves the entries of the list alone is run once for each entry, in order,
  and the loop returns.
\<close>

lemma for_each_entries:
  assumes "dll m l p es None" and "entries (hp s) = m"
    and "\<And>s e s'. entries (hp s) = m \<Longrightarrow> e \<in> set es \<Longrightarrow> body s e = Some (Inl s') \<Longrightarrow> entries (hp s') = m"
  shows "llist_for_each hp body (ptr_first es None) s = run_entries body es s"
  using assms
proof (induction es arbitrary: p s)
  case Nil
  show ?case by (subst llist_for_each.simps) simp
next
  case (Cons e es)
  show ?case
  proof (cases "body s e")
    case None
    then show ?thesis by (subst llist_for_each.simps) simp
  next
    case (Some r)
    show ?thesis
    proof (cases r)
      case (Inl s')
      have hp: "entries (hp s') = m"
        using Some Inl by (intro Cons.prems(3) [OF Cons.prems(2), of e]) auto
      then have "entries (hp s') e = Some \<lparr>e_next = ptr_first es None, e_prev = p, e_list = Some l\<rparr>"
        using Cons.prems(1) by simp
      moreover have "llist_for_each hp body (ptr_first es None) s' = run_entries body es s'"
      proof (rule Cons.IH [of "Some e"])
        show "dll m l (Some e) es None" using Cons.prems(1) by simp
        show "entries (hp s') = m" by (rule hp)
        show "entries (hp u') = m"
          if "entries (hp u) = m" "c \<in> set es" "body u c = Some (Inl u')" for u c u'
          by (rule Cons.prems(3) [OF that(1) _ that(3)]) (simp add: that(2))
      qed
      ultimately show ?thesis
        using Some Inl by (subst llist_for_each.simps) simp
    next
      case (Inr x)
      with Some show ?thesis by (subst llist_for_each.simps) simp
    qed
  qed
qed

lemma for_each_rep:
  assumes "llist_rep h l es" and "entries (hp s) = entries h"
    and "\<And>s e s'. entries (hp s) = entries h \<Longrightarrow> e \<in> set es \<Longrightarrow> body s e = Some (Inl s') \<Longrightarrow>
           entries (hp s') = entries h"
  shows "llist_for_each hp body (ptr_first es None) s = run_entries body es s"
  using assms by (intro for_each_entries [where m = "entries h"]) (auto simp: llist_rep_def)

lemma llist_head_rep: "llist_rep h l es \<Longrightarrow> \<exists>L. llists h l = Some L \<and> l_head L = ptr_first es None"
  by (auto simp: llist_rep_def)

lemma llist_is_empty_rep: "llist_rep h l es \<Longrightarrow> llist_is_empty h l = Some (es = [])"
  by (auto simp: llist_is_empty_def dest!: llist_head_rep)

lemma run_length:
  "run_entries (\<lambda>len _. Some (Inl (len + 1) :: u64 + u64)) es n = Some (Inl (n + of_nat (length es)))"
  by (induction es arbitrary: n) (auto simp: algebra_simps)

lemma llist_length_rep:
  assumes "llist_rep h l es"
  shows "llist_length h l = Some (of_nat (length es))"
  using llist_head_rep [OF assms]
  by (auto simp: llist_length_def run_length for_each_rep [OF assms])

lemma unat_pred: "(x :: 'a::len word) \<noteq> 0 \<Longrightarrow> unat (x - 1) = unat x - 1"
  by (metis unat_minus_one)

lemma run_get_entry:
  "run_entries (\<lambda>i c. Some (if i = 0 then Inr c else Inl (i - 1 :: u32))) es i =
     Some (if unat i < length es then Inr (es ! unat i) else Inl (i - of_nat (length es)))"
proof (induction es arbitrary: i)
  case Nil
  then show ?case by simp
next
  case (Cons e es)
  show ?case
  proof (cases "i = 0")
    case True
    then show ?thesis by simp
  next
    case False
    then have "unat i > 0" by (simp add: unat_gt_0)
    with False Cons.IH [of "i - 1"] show ?thesis
      by (auto simp: unat_pred nth_Cons' algebra_simps)
  qed
qed

lemma llist_get_entry_rep:
  assumes "llist_rep h l es"
  shows "llist_get_entry h l i = Some (if unat i < length es then Some (es ! unat i) else None)"
  using llist_head_rep [OF assms]
  by (auto simp: llist_get_entry_def run_get_entry for_each_rep [OF assms])

section \<open>The list as a queue\<close>

definition entry_live :: "lheap \<Rightarrow> eaddr \<Rightarrow> bool" where
  "entry_live h e \<longleftrightarrow> e \<in> dom (entries h)"

lemma frame_live: "llist_frame l A h h' \<Longrightarrow> entry_live h' = entry_live h"
  by (simp add: llist_frame_def entry_live_def fun_eq_iff)

lemma llist_append_other:
  assumes "llist_rep h l es" "llist_append h l e = Some h'" "entry_live h e" "e \<notin> set es"
    "llist_rep h l2 es2" "l2 \<noteq> l" "e \<notin> set es2"
  shows "llist_rep h' l2 es2"
proof -
  have "llist_frame l (insert e (set es)) h h'"
    using llist_append_rep [OF assms(1), of e] assms(2,3,4) by (auto simp: entry_live_def)
  then show ?thesis
    using rep_frame [OF _ assms(5,6)] rep_disjoint [OF assms(1,5)] assms(6,7) by auto
qed

lemma llist_remove_other:
  assumes "llist_rep h l (xs @ e # ys)" "llist_remove h e = Some h'" "llist_rep h l2 es2" "l2 \<noteq> l"
  shows "llist_rep h' l2 es2"
proof -
  have "llist_frame l (set (xs @ e # ys)) h h'"
    using llist_remove_rep [OF assms(1)] assms(2) by auto
  then show ?thesis
    using rep_frame [OF _ assms(3,4)] rep_disjoint [OF assms(1,3)] assms(4) by auto
qed

interpretation lq: fifo_list llist_rep entry_live llist_is_empty
  "\<lambda>h l. llist_get_entry h l 0" llist_append llist_remove
proof unfold_locales
  fix h h' l l2 es es2 e
  show "llist_rep h l es \<Longrightarrow> llist_is_empty h l = Some (es = [])"
    by (rule llist_is_empty_rep)
  show "llist_rep h l (e # es) \<Longrightarrow> llist_get_entry h l 0 = Some (Some e)"
    by (simp add: llist_get_entry_rep)
  show "\<exists>h'. llist_append h l e = Some h' \<and> llist_rep h' l (es @ [e]) \<and> entry_live h' = entry_live h"
    if "llist_rep h l es" "entry_live h e" "e \<notin> set es"
    using llist_append_rep [OF that(1) _ that(3)] that(2) frame_live by (fastforce simp: entry_live_def)
  show "\<exists>h'. llist_remove h e = Some h' \<and> llist_rep h' l es \<and> entry_live h' = entry_live h"
    if "llist_rep h l (e # es)"
    using llist_remove_rep [of h l "[]" e es] that frame_live by fastforce
  show "llist_rep h' l2 es2"
    if "llist_rep h l es" "llist_append h l e = Some h'" "entry_live h e" "e \<notin> set es"
      "llist_rep h l2 es2" "l2 \<noteq> l" "e \<notin> set es2"
    using that by (rule llist_append_other)
  show "llist_rep h' l2 es2"
    if "llist_rep h l (e # es)" "llist_remove h e = Some h'" "llist_rep h l2 es2" "l2 \<noteq> l"
    using llist_remove_other [of h l "[]" e es] that by simp
  show "llist_rep h l es \<Longrightarrow> e \<in> set es \<Longrightarrow> entry_live h e"
    by (auto simp: llist_rep_def entry_live_def dest!: dll_owner)
  show "llist_rep h l es \<Longrightarrow> distinct es" by (simp add: llist_rep_def)
qed

section \<open>Scripts of list operations\<close>

datatype list_cmd = AppendCmd eaddr | RemoveCmd eaddr

fun exec_list_cmd :: "laddr \<Rightarrow> lheap \<Rightarrow> list_cmd \<Rightarrow> lheap option" where
  "exec_list_cmd l h (AppendCmd e) = llist_append h l e"
| "exec_list_cmd l h (RemoveCmd e) = llist_remove h e"

fun exec_list_cmds :: "laddr \<Rightarrow> lheap \<Rightarrow> list_cmd list \<Rightarrow> lheap option" where
  "exec_list_cmds l h [] = Some h"
| "exec_list_cmds l h (c # cs) = (case exec_list_cmd l h c of None \<Rightarrow> None | Some h \<Rightarrow> exec_list_cmds l h cs)"

text \<open>The same script on the sequence of entries.\<close>

fun seq_cmd :: "eaddr list \<Rightarrow> list_cmd \<Rightarrow> eaddr list" where
  "seq_cmd es (AppendCmd e) = es @ [e]"
| "seq_cmd es (RemoveCmd e) = remove1 e es"

fun cmds_ok :: "eaddr set \<Rightarrow> eaddr list \<Rightarrow> list_cmd list \<Rightarrow> bool" where
  "cmds_ok A es [] = True"
| "cmds_ok A es (AppendCmd e # cs) = (e \<in> A \<and> e \<notin> set es \<and> cmds_ok A (es @ [e]) cs)"
| "cmds_ok A es (RemoveCmd e # cs) = (e \<in> set es \<and> cmds_ok A (remove1 e es) cs)"

lemma exec_list_cmd_rep:
  assumes rep: "llist_rep h l es" and ok: "cmds_ok A es (c # cs)" and A: "A \<subseteq> dom (entries h)"
  shows "\<exists>h'. exec_list_cmd l h c = Some h' \<and> llist_rep h' l (seq_cmd es c) \<and> dom (entries h') = dom (entries h) \<and>
           (\<forall>l2 es2. l2 \<noteq> l \<longrightarrow> A \<inter> set es2 = {} \<longrightarrow> llist_rep h l2 es2 \<longrightarrow> llist_rep h' l2 es2)"
proof (cases c)
  case (AppendCmd e)
  have e: "e \<in> dom (entries h)" "e \<notin> set es" "e \<in> A" using ok A AppendCmd by auto
  obtain h' where h': "llist_append h l e = Some h'" "llist_rep h' l (es @ [e])"
    "llist_frame l (insert e (set es)) h h'"
    using llist_append_rep [OF rep e(1,2)] by blast
  have "llist_rep h' l2 es2" if "l2 \<noteq> l" "A \<inter> set es2 = {}" "llist_rep h l2 es2" for l2 es2
    using llist_append_other [OF rep h'(1) _ e(2) that(3,1)] e that(2) by (auto simp: entry_live_def)
  then show ?thesis using AppendCmd h' by (auto simp: llist_frame_def)
next
  case (RemoveCmd e)
  then obtain xs ys where es: "es = xs @ e # ys" "e \<notin> set xs" using ok by (auto dest: split_list_first)
  obtain h' where h': "llist_remove h e = Some h'" "llist_rep h' l (xs @ ys)"
    "llist_frame l (set (xs @ e # ys)) h h'"
    using llist_remove_rep [OF rep [unfolded es(1)]] by blast
  have "llist_rep h' l2 es2" if "l2 \<noteq> l" "llist_rep h l2 es2" for l2 es2
    using llist_remove_other [OF rep [unfolded es(1)] h'(1) that(2,1)] .
  moreover have "remove1 e es = xs @ ys" using es by (simp add: remove1_append)
  ultimately show ?thesis using RemoveCmd h' by (auto simp: llist_frame_def)
qed

lemma exec_list_cmds_rep:
  "llist_rep h l es \<Longrightarrow> cmds_ok A es cs \<Longrightarrow> A \<subseteq> dom (entries h) \<Longrightarrow>
     \<exists>h'. exec_list_cmds l h cs = Some h' \<and> llist_rep h' l (foldl seq_cmd es cs) \<and>
          (\<forall>l2 es2. l2 \<noteq> l \<longrightarrow> A \<inter> set es2 = {} \<longrightarrow> llist_rep h l2 es2 \<longrightarrow> llist_rep h' l2 es2)"
proof (induction cs arbitrary: h es)
  case (Cons c cs)
  obtain h1 where h1: "exec_list_cmd l h c = Some h1" "llist_rep h1 l (seq_cmd es c)" "dom (entries h1) = dom (entries h)"
    and frame: "\<forall>l2 es2. l2 \<noteq> l \<longrightarrow> A \<inter> set es2 = {} \<longrightarrow> llist_rep h l2 es2 \<longrightarrow> llist_rep h1 l2 es2"
    using exec_list_cmd_rep [OF Cons.prems] by blast
  have "cmds_ok A (seq_cmd es c) cs" using Cons.prems(2) by (cases c) auto
  from Cons.IH [OF h1(2) this] h1(1,3) Cons.prems(3) frame show ?case by auto
qed simp

section \<open>Properties\<close>

text \<open>Three entries in no list, and an empty list.\<close>

definition list_sample :: lheap where
  "list_sample = \<lparr>entries = [1 \<mapsto> LLIST_ENTRY_INIT, 2 \<mapsto> LLIST_ENTRY_INIT, 3 \<mapsto> LLIST_ENTRY_INIT],
                 llists = [0 \<mapsto> \<lparr>l_head = None, l_tail = None, l_lock = False\<rparr>]\<rparr>"


text \<open>
  C26: A list refines the sequence of its entries. Any script of \<open>llist_append\<close> and
  \<open>llist_remove\<close> calls that appends allocated entries not in the list and removes entries of
  it returns, leaves the list with the sequence the script computes, so that
  \<open>llist_length\<close> and \<open>llist_get_entry\<close> read that sequence, and does not change any list
  that has none of the entries the script may touch.
\<close>
theorem llist_script_refines:
  assumes "llist_rep h l es" "cmds_ok A es cs" "A \<subseteq> dom (entries h)"
  shows "\<exists>h'. exec_list_cmds l h cs = Some h' \<and> llist_rep h' l (foldl seq_cmd es cs) \<and>
     llist_length h' l = Some (of_nat (length (foldl seq_cmd es cs))) \<and>
     (\<forall>i. llist_get_entry h' l i = Some (if unat i < length (foldl seq_cmd es cs)
                                        then Some (foldl seq_cmd es cs ! unat i) else None)) \<and>
     (\<forall>l2 es2. l2 \<noteq> l \<longrightarrow> A \<inter> set es2 = {} \<longrightarrow> llist_rep h l2 es2 \<longrightarrow> llist_rep h' l2 es2)"
  using exec_list_cmds_rep [OF assms] llist_length_rep llist_get_entry_rep by blast

theorem llist_script_refines_witness:
  "\<exists>h'. exec_list_cmds 0 list_sample [AppendCmd 1, AppendCmd 2, AppendCmd 3, RemoveCmd 2, AppendCmd 2] = Some h' \<and>
     llist_rep h' 0 [1, 3, 2]"
  using llist_script_refines [of list_sample 0 "[]" "{1, 2, 3}"
    "[AppendCmd 1, AppendCmd 2, AppendCmd 3, RemoveCmd 2, AppendCmd 2]"]
  by (auto simp: list_sample_def llist_rep_def)

end
