(* ===== verification/PixelStore.thy ===== *)
theory PixelStore
  imports Prelude
begin

text \<open>
  The contract between the packet parsers and the memory they draw into: a store of
  \<open>width * height\<close> pixels of 32 bits, written with one pixel command at a time. The DPDK
  server draws into the frame buffer of \<open>framebuffer.c\<close>, the XDP program into a BPF
  array map; both are interpretations of \<open>pixel_store\<close>. The lemmas about sequences of
  commands (the last command for a pixel wins, commands outside are dropped) are proved
  once, here.
\<close>

section \<open>Sequences of pixel commands\<close>

type_synonym pixel_cmd = "u32 \<times> u32 \<times> u32"

fun put_all ::
    "('s \<Rightarrow> u32 \<Rightarrow> u32 \<Rightarrow> u32 \<Rightarrow> 's option) \<Rightarrow> 's \<Rightarrow> pixel_cmd list \<Rightarrow> 's option" where
  "put_all put s [] = Some s"
| "put_all put s ((x, y, rgb) # cs) =
     (case put s x y rgb of None \<Rightarrow> None | Some s' \<Rightarrow> put_all put s' cs)"

text \<open>The colour that the last command for pixel \<open>(x, y)\<close> asks for.\<close>

fun last_cmd :: "pixel_cmd list \<Rightarrow> u32 \<Rightarrow> u32 \<Rightarrow> u32 option" where
  "last_cmd [] x y = None"
| "last_cmd ((x', y', rgb) # cs) x y =
     (case last_cmd cs x y of Some c \<Rightarrow> Some c
      | None \<Rightarrow> if x' = x \<and> y' = y then Some rgb else None)"

definition in_range :: "u32 \<times> u32 \<Rightarrow> u32 \<Rightarrow> u32 \<Rightarrow> bool" where
  "in_range d x y \<longleftrightarrow> x < fst d \<and> y < snd d"

definition count_in_range :: "u32 \<times> u32 \<Rightarrow> pixel_cmd list \<Rightarrow> nat" where
  "count_in_range d cs = length (filter (\<lambda>(x, y, _). in_range d x y) cs)"

lemma put_all_append:
  "put_all put s (cs @ ds) = (case put_all put s cs of None \<Rightarrow> None | Some s' \<Rightarrow> put_all put s' ds)"
  by (induction put s cs rule: put_all.induct) (auto split: option.splits)

section \<open>The contract\<close>

locale pixel_store =
  fixes wf :: "'s \<Rightarrow> bool"
    and dim :: "'s \<Rightarrow> u32 \<times> u32"
    and put :: "'s \<Rightarrow> u32 \<Rightarrow> u32 \<Rightarrow> u32 \<Rightarrow> 's option"
    and get :: "'s \<Rightarrow> u32 \<Rightarrow> u32 \<Rightarrow> u32 option"
  assumes put_total: "wf s \<Longrightarrow> \<exists>s'. put s x y c = Some s'"
    and put_wf: "wf s \<Longrightarrow> put s x y c = Some s' \<Longrightarrow> wf s' \<and> dim s' = dim s"
    and get_put: "wf s \<Longrightarrow> put s x y c = Some s' \<Longrightarrow> in_range (dim s) x' y' \<Longrightarrow>
                    get s' x' y' = (if x' = x \<and> y' = y then Some c else get s x' y')"
    and put_outside: "wf s \<Longrightarrow> \<not> in_range (dim s) x y \<Longrightarrow> put s x y c = Some s"
begin

lemma put_all_total:
  "wf s \<Longrightarrow> \<exists>s'. put_all put s cs = Some s' \<and> wf s' \<and> dim s' = dim s"
proof (induction cs arbitrary: s)
  case Nil
  then show ?case by simp
next
  case (Cons c cs)
  obtain x y rgb where c: "c = (x, y, rgb)" by (cases c)
  obtain s' where s': "put s x y rgb = Some s'" using put_total [OF Cons.prems] by blast
  with put_wf [OF Cons.prems s'] Cons.IH [of s'] c show ?case by auto
qed

lemma put_all_get:
  "wf s \<Longrightarrow> put_all put s cs = Some s' \<Longrightarrow> in_range (dim s) x y \<Longrightarrow>
     get s' x y = (case last_cmd cs x y of Some c \<Rightarrow> Some c | None \<Rightarrow> get s x y)"
proof (induction cs arbitrary: s)
  case Nil
  then show ?case by simp
next
  case (Cons c cs)
  obtain x' y' rgb where c: "c = (x', y', rgb)" by (cases c)
  obtain s1 where s1: "put s x' y' rgb = Some s1" using put_total [OF Cons.prems(1)] by blast
  note w = put_wf [OF Cons.prems(1) s1] and g = get_put [OF Cons.prems(1) s1 Cons.prems(3)]
  have "get s' x y = (case last_cmd cs x y of Some c \<Rightarrow> Some c | None \<Rightarrow> get s1 x y)"
    using Cons.prems w c s1 by (intro Cons.IH) auto
  with g c show ?case by (auto split: option.splits)
qed

lemma put_all_outside:
  "wf s \<Longrightarrow> \<forall>(x, y, _) \<in> set cs. \<not> in_range (dim s) x y \<Longrightarrow> put_all put s cs = Some s"
  by (induction cs) (auto simp: put_outside)

end

end
