(* ===== verification/Framebuffer.thy ===== *)
theory Framebuffer
  imports LList PixelStore
begin

text \<open>
  The frame buffer of \<open>framebuffer.h\<close> and \<open>framebuffer.c\<close>. The memory holds the pixel
  blocks, the \<open>struct fb\<close> objects and the list entries embedded in them; a
  \<open>struct fb\<close> is known by the address of its list entry, so \<open>container_of\<close> is the
  identity. Sizes are \<open>unsigned int\<close>: products of a width and a height wrap at 32 bits
  before they are used as an index or widened to \<open>size_t\<close>, as in the C code.

  The results of \<open>malloc\<close> and \<open>calloc\<close> are arguments (\<open>None\<close> is NULL), and so is the
  NUMA node the kernel reports.
\<close>

section \<open>State\<close>

record fb_size =
  width :: u32
  height :: u32

record fb =
  size_of :: fb_size
  pixels :: nat
  numa_node :: u32
  pixelCounter :: u64
  bytesCounter :: u64

record fbmem =
  pxs :: "u32 blocks"
  fbs :: "eaddr \<rightharpoonup> fb"
  links :: lheap

abbreviation fb_width :: "fb \<Rightarrow> u32" where "fb_width F \<equiv> width (size_of F)"
abbreviation fb_height :: "fb \<Rightarrow> u32" where "fb_height F \<equiv> height (size_of F)"

section \<open>Operations\<close>

text \<open>
  \<open>calloc (width * height, 4)\<close>: the first argument is a 32-bit product, then widened.
  The embedded entry of a new \<open>struct fb\<close> is \<open>LLIST_ENTRY_INIT\<close>.
\<close>

definition fb_alloc ::
    "eaddr option \<Rightarrow> nat option \<Rightarrow> u32 \<Rightarrow> u32 \<Rightarrow> u32 \<Rightarrow> fbmem \<Rightarrow> c_int \<times> eaddr option \<times> fbmem" where
  "fb_alloc m_fb m_px node w h mem =
     (case m_fb of None \<Rightarrow> (- ENOMEM, None, mem)
      | Some f \<Rightarrow>
         (case m_px of None \<Rightarrow> (- ENOMEM, None, mem)
          | Some a \<Rightarrow>
             (0, Some f,
              mem\<lparr>pxs := (pxs mem)(a \<mapsto> replicate (unat (w * h)) 0),
                  fbs := (fbs mem)(f \<mapsto> \<lparr>size_of = \<lparr>width = w, height = h\<rparr>, pixels = a,
                            numa_node = node, pixelCounter = 0, bytesCounter = 0\<rparr>),
                  links := (links mem)\<lparr>entries := (entries (links mem))(f \<mapsto> LLIST_ENTRY_INIT)\<rparr>\<rparr>)))"

definition fb_get_size :: "fbmem \<Rightarrow> eaddr \<Rightarrow> fb_size option" where
  "fb_get_size mem f = do { F \<leftarrow> fbs mem f; Some (size_of F) }"

text \<open>\<open>free (fb)\<close>: the structure and the list entry in it are gone.\<close>

definition free_fb :: "eaddr \<Rightarrow> fbmem \<Rightarrow> fbmem option" where
  "free_fb f mem = do {
     _ \<leftarrow> guard (f \<in> dom (fbs mem));
     Some (mem\<lparr>fbs := (fbs mem)(f := None),
               links := (links mem)\<lparr>entries := (entries (links mem))(f := None)\<rparr>\<rparr>) }"

definition fb_free :: "fbmem \<Rightarrow> eaddr \<Rightarrow> fbmem option" where
  "fb_free mem f = do {
     F \<leftarrow> fbs mem f;
     p \<leftarrow> blk_free (pxs mem) (pixels F);
     free_fb f (mem\<lparr>pxs := p\<rparr>) }"

definition fb_free_all :: "fbmem \<Rightarrow> laddr \<Rightarrow> fbmem option" where
  "fb_free_all mem l = do {
     L \<leftarrow> llists (links mem) l;
     r \<leftarrow> llist_for_each links
           (\<lambda>mem cursor. map_option Inl (free_fb cursor mem) :: (fbmem + fbmem) option) (l_head L) mem;
     Some (case r of Inl mem \<Rightarrow> mem | Inr mem \<Rightarrow> mem) }"

definition fb_get_fb_on_node :: "fbmem \<Rightarrow> laddr \<Rightarrow> u32 \<Rightarrow> eaddr option option" where
  "fb_get_fb_on_node mem l node = do {
     L \<leftarrow> llists (links mem) l;
     r \<leftarrow> llist_for_each (\<lambda>_. links mem)
           (\<lambda>_ cursor. do { F \<leftarrow> fbs mem cursor;
                            Some (if numa_node F = node then Inr cursor else Inl ()) }) (l_head L) ();
     Some (case r of Inl _ \<Rightarrow> None | Inr f \<Rightarrow> Some f) }"

definition fb_set_pixel :: "fbmem \<Rightarrow> eaddr \<Rightarrow> u32 \<Rightarrow> u32 \<Rightarrow> u32 \<Rightarrow> fbmem option" where
  "fb_set_pixel mem f x y pixel = do {
     F \<leftarrow> fbs mem f;
     if x \<ge> fb_width F \<or> y \<ge> fb_height F then Some mem
     else do {
       p \<leftarrow> blk_write (pxs mem) (pixels F) (unat (y * fb_width F + x)) pixel;
       Some (mem\<lparr>pxs := p,
                 fbs := (fbs mem)(f \<mapsto> F\<lparr>pixelCounter := pixelCounter F + 1\<rparr>)\<rparr>) } }"

definition fb_get_pixel :: "fbmem \<Rightarrow> eaddr \<Rightarrow> u32 \<Rightarrow> u32 \<Rightarrow> u32 option" where
  "fb_get_pixel mem f x y = do {
     F \<leftarrow> fbs mem f;
     _ \<leftarrow> guard (x < fb_width F);
     _ \<leftarrow> guard (y < fb_height F);
     blk_read (pxs mem) (pixels F) (unat (y * fb_width F + x)) }"

definition fb_set_size :: "eaddr \<Rightarrow> u32 \<Rightarrow> u32 \<Rightarrow> fbmem \<Rightarrow> fbmem option" where
  "fb_set_size f w h mem = do {
     F \<leftarrow> fbs mem f;
     Some (mem\<lparr>fbs := (fbs mem)(f \<mapsto> F\<lparr>size_of := \<lparr>width = w, height = h\<rparr>\<rparr>)\<rparr>) }"

definition fb_set_pixels :: "eaddr \<Rightarrow> nat \<Rightarrow> fbmem \<Rightarrow> fbmem option" where
  "fb_set_pixels f a mem = do {
     F \<leftarrow> fbs mem f;
     Some (mem\<lparr>fbs := (fbs mem)(f \<mapsto> F\<lparr>pixels := a\<rparr>)\<rparr>) }"

text \<open>
  The byte sizes are \<open>size_t\<close> products of a 32-bit product and 4. \<open>malloc (memsize)\<close>
  and the \<open>memset\<close> of all of it give a block of \<open>memsize / 4\<close> zero cells.
\<close>

definition fb_memsize :: "u32 \<Rightarrow> u32 \<Rightarrow> u64" where
  "fb_memsize w h = ucast (w * h) * 4"

definition fb_resize :: "nat option \<Rightarrow> fbmem \<Rightarrow> eaddr \<Rightarrow> u32 \<Rightarrow> u32 \<Rightarrow> (c_int \<times> fbmem) option" where
  "fb_resize m_px mem f w h = do {
     oldsize \<leftarrow> fb_get_size mem f;
     let memsize = fb_memsize w h;
     let oldmemsize = fb_memsize (width oldsize) (height oldsize);
     case m_px of None \<Rightarrow> Some (- ENOMEM, mem)
     | Some fbmem \<Rightarrow> do {
         let mem = mem\<lparr>pxs := (pxs mem)(fbmem \<mapsto> replicate (unat memsize div 4) 0)\<rparr>;
         F \<leftarrow> fbs mem f;
         let oldmem = pixels F;
         mem \<leftarrow> (if oldmemsize > memsize
                 then do { mem \<leftarrow> fb_set_size f w h mem; fb_set_pixels f fbmem mem }
                 else do { mem \<leftarrow> fb_set_pixels f fbmem mem; fb_set_size f w h mem });
         p \<leftarrow> blk_free (pxs mem) oldmem;
         Some (0, mem\<lparr>pxs := p\<rparr>) } }"

section \<open>A frame buffer with memory for its size\<close>

text \<open>
  \<open>fb_wf mem f\<close>: frame buffer \<open>f\<close> is allocated, and its pixel block is live and has
  exactly \<open>width * height\<close> cells, the product taken without wrap-around.
\<close>

definition fb_wf :: "fbmem \<Rightarrow> eaddr \<Rightarrow> bool" where
  "fb_wf mem f \<longleftrightarrow>
     (\<exists>F xs. fbs mem f = Some F \<and> pxs mem (pixels F) = Some xs \<and>
             length xs = unat (fb_width F) * unat (fb_height F) \<and> length xs < 2 ^ 32)"

definition fb_dim :: "fbmem \<Rightarrow> eaddr \<Rightarrow> u32 \<times> u32" where
  "fb_dim mem f = (case fbs mem f of None \<Rightarrow> (0, 0) | Some F \<Rightarrow> (fb_width F, fb_height F))"

lemma fb_wfE:
  assumes "fb_wf mem f"
  obtains F xs where "fbs mem f = Some F" "pxs mem (pixels F) = Some xs"
    "length xs = unat (fb_width F) * unat (fb_height F)" "length xs < 2 ^ 32"
  using assms by (auto simp: fb_wf_def)

text \<open>The 32-bit index of a pixel inside the frame buffer is the row-major index.\<close>

lemma pixel_index:
  fixes x y w h :: u32
  assumes "x < w" "y < h" "unat w * unat h < 2 ^ 32"
  shows "unat (y * w + x) = unat y * unat w + unat x"
    and "unat y * unat w + unat x < unat w * unat h"
proof -
  show b: "unat y * unat w + unat x < unat w * unat h"
    using assms(1,2) by (intro row_major_bound) (auto simp: word_less_nat_alt)
  then have "unat y * unat w + unat x < 2 ^ 32" using assms(3) by simp
  then show "unat (y * w + x) = unat y * unat w + unat x"
    by (simp add: unat_word_ariths)
qed

lemma pixel_index_inj:
  fixes x y x' y' w h :: u32
  assumes "x < w" "y < h" "x' < w" "y' < h" "unat w * unat h < 2 ^ 32"
  shows "y * w + x = y' * w + x' \<longleftrightarrow> x = x' \<and> y = y'"
proof -
  have "unat (y * w + x) = unat (y' * w + x') \<longleftrightarrow> unat x = unat x' \<and> unat y = unat y'"
    using assms row_major_inj [of "unat x" "unat w" "unat x'" "unat y" "unat y'"]
    by (simp add: pixel_index word_less_nat_alt)
  then show ?thesis by (simp add: word_unat_eq_iff)
qed

lemma fb_set_pixel_outside:
  "fb_wf mem f \<Longrightarrow> \<not> in_range (fb_dim mem f) x y \<Longrightarrow> fb_set_pixel mem f x y c = Some mem"
  by (auto simp: fb_wf_def fb_dim_def in_range_def fb_set_pixel_def bind_case_option)

lemma fb_set_pixel_inside:
  assumes "fb_wf mem f" "in_range (fb_dim mem f) x y"
  shows "\<exists>F xs. fbs mem f = Some F \<and> pxs mem (pixels F) = Some xs \<and>
           fb_set_pixel mem f x y c =
             Some (mem\<lparr>pxs := (pxs mem)(pixels F \<mapsto> xs[unat (y * fb_width F + x) := c]),
                       fbs := (fbs mem)(f \<mapsto> F\<lparr>pixelCounter := pixelCounter F + 1\<rparr>)\<rparr>)"
  using assms pixel_index
  by (auto elim!: fb_wfE simp: fb_dim_def in_range_def fb_set_pixel_def bind_case_option
        blk_write_def)

lemma fb_set_pixel_total: "fb_wf mem f \<Longrightarrow> \<exists>mem'. fb_set_pixel mem f x y c = Some mem'"
  using fb_set_pixel_inside fb_set_pixel_outside by blast

lemma fb_set_pixel_wf:
  assumes "fb_wf mem f" "fb_set_pixel mem f x y c = Some mem'"
  shows "fb_wf mem' f \<and> fb_dim mem' f = fb_dim mem f"
proof (cases "in_range (fb_dim mem f) x y")
  case True
  with assms fb_set_pixel_inside [OF assms(1) True, of c] show ?thesis
    by (auto simp: fb_wf_def fb_dim_def)
next
  case False
  with assms fb_set_pixel_outside [OF assms(1) False, of c] show ?thesis by simp
qed

lemma fb_get_pixel_wf:
  assumes "fb_wf mem f" "in_range (fb_dim mem f) x y"
  shows "\<exists>F xs. fbs mem f = Some F \<and> pxs mem (pixels F) = Some xs \<and>
           fb_get_pixel mem f x y = Some (xs ! unat (y * fb_width F + x))"
  using assms pixel_index
  by (auto elim!: fb_wfE simp: fb_dim_def in_range_def fb_get_pixel_def bind_case_option blk_read_def)

lemma fb_get_set_pixel:
  assumes wf: "fb_wf mem f" and set: "fb_set_pixel mem f x y c = Some mem'"
    and r': "in_range (fb_dim mem f) x' y'"
  shows "fb_get_pixel mem' f x' y' =
           (if x' = x \<and> y' = y then Some c else fb_get_pixel mem f x' y')"
proof (cases "in_range (fb_dim mem f) x y")
  case False
  with fb_set_pixel_outside [OF wf False, of c] set r' show ?thesis by auto
next
  case True
  from wf obtain F xs where F: "fbs mem f = Some F" "pxs mem (pixels F) = Some xs"
    "length xs = unat (fb_width F) * unat (fb_height F)" "length xs < 2 ^ 32"
    by (rule fb_wfE)
  have b: "x < fb_width F" "y < fb_height F" "x' < fb_width F" "y' < fb_height F"
    using True r' F(1) by (auto simp: fb_dim_def in_range_def)
  have area: "unat (fb_width F) * unat (fb_height F) < 2 ^ 32" using F(3,4) by simp
  have i: "unat (y * fb_width F + x) < length xs" "unat (y' * fb_width F + x') < length xs"
    using pixel_index b F(3) area by auto
  have eq: "unat (y * fb_width F + x) = unat (y' * fb_width F + x') \<longleftrightarrow> x = x' \<and> y = y'"
    using pixel_index_inj [OF b area] by (simp add: word_unat_eq_iff)
  have mem': "mem' = mem\<lparr>pxs := (pxs mem)(pixels F \<mapsto> xs[unat (y * fb_width F + x) := c]),
                          fbs := (fbs mem)(f \<mapsto> F\<lparr>pixelCounter := pixelCounter F + 1\<rparr>)\<rparr>"
    using fb_set_pixel_inside [OF wf True, of c] set F(1,2) by auto
  show ?thesis
    unfolding mem' using F(1,2) b i eq
    by (auto simp: fb_get_pixel_def bind_case_option blk_read_def)
qed

interpretation fbst: pixel_store "\<lambda>mem. fb_wf mem f" "\<lambda>mem. fb_dim mem f"
  "\<lambda>mem. fb_set_pixel mem f" "\<lambda>mem. fb_get_pixel mem f" for f
  by unfold_locales
    (erule fb_set_pixel_total fb_set_pixel_wf fb_get_set_pixel fb_set_pixel_outside; assumption?)+

text \<open>The pixel counter counts the commands inside the frame buffer, modulo \<open>2 ^ 64\<close>.\<close>

definition fb_counter :: "fbmem \<Rightarrow> eaddr \<Rightarrow> u64" where
  "fb_counter mem f = (case fbs mem f of None \<Rightarrow> 0 | Some F \<Rightarrow> pixelCounter F)"

definition fb_bytes :: "fbmem \<Rightarrow> eaddr \<Rightarrow> u64" where
  "fb_bytes mem f = (case fbs mem f of None \<Rightarrow> 0 | Some F \<Rightarrow> bytesCounter F)"

lemma fb_set_pixel_counters:
  assumes "fb_wf mem f" "fb_set_pixel mem f x y c = Some mem'"
  shows "fb_counter mem' f = fb_counter mem f + of_bool (in_range (fb_dim mem f) x y)"
    and "fb_bytes mem' f = fb_bytes mem f"
    and "links mem' = links mem"
proof -
  have "fb_counter mem' f = fb_counter mem f + of_bool (in_range (fb_dim mem f) x y) \<and>
        fb_bytes mem' f = fb_bytes mem f \<and> links mem' = links mem"
  proof (cases "in_range (fb_dim mem f) x y")
    case True
    with assms fb_set_pixel_inside [OF assms(1) True, of c] show ?thesis
      by (auto simp: fb_counter_def fb_bytes_def)
  next
    case False
    with assms fb_set_pixel_outside [OF assms(1) False, of c] show ?thesis by simp
  qed
  then show "fb_counter mem' f = fb_counter mem f + of_bool (in_range (fb_dim mem f) x y)"
    and "fb_bytes mem' f = fb_bytes mem f" and "links mem' = links mem" by auto
qed

lemma put_all_counters:
  "fb_wf mem f \<Longrightarrow> put_all (\<lambda>m. fb_set_pixel m f) mem cs = Some mem' \<Longrightarrow>
     fb_counter mem' f = fb_counter mem f + of_nat (count_in_range (fb_dim mem f) cs) \<and>
     fb_bytes mem' f = fb_bytes mem f \<and> links mem' = links mem"
proof (induction cs arbitrary: mem)
  case Nil
  then show ?case by (simp add: count_in_range_def)
next
  case (Cons c cs)
  obtain x y rgb where c: "c = (x, y, rgb)" by (cases c)
  obtain m1 where m1: "fb_set_pixel mem f x y rgb = Some m1"
    using fb_set_pixel_total [OF Cons.prems(1)] by blast
  note w = fb_set_pixel_wf [OF Cons.prems(1) m1] and k = fb_set_pixel_counters [OF Cons.prems(1) m1]
  have "fb_counter mem' f = fb_counter m1 f + of_nat (count_in_range (fb_dim m1 f) cs) \<and>
     fb_bytes mem' f = fb_bytes m1 f \<and> links mem' = links m1"
    using Cons.prems(2) m1 c w by (intro Cons.IH) auto
  with w k c show ?case by (auto simp: count_in_range_def)
qed

section \<open>Allocation and resizing\<close>

lemma unat_area_mod: "unat ((w :: u32) * h) = (unat w * unat h) mod 2 ^ 32"
  by (simp add: unat_word_ariths)

lemma unat_memsize: "unat (fb_memsize w h) div 4 = unat (w * h)"
proof -
  have "unat (ucast (w * h) :: u64) = unat (w * h)" by (rule unat_ucast_up) simp
  moreover have "unat (w * h) * 4 < 2 ^ 64" using unat_lt2p [of "w * h"] by simp
  ultimately have "unat (fb_memsize w h) = unat (w * h) * 4"
    by (simp add: fb_memsize_def unat_word_ariths)
  then show ?thesis by simp
qed

lemma fb_alloc_wf:
  assumes "fb_alloc (Some f) (Some a) node w h mem = (err, r, mem')" "unat w * unat h < 2 ^ 32"
  shows "err = 0 \<and> r = Some f \<and> fb_wf mem' f \<and> fb_dim mem' f = (w, h)"
  using assms by (auto simp: fb_alloc_def fb_wf_def fb_dim_def unat_area_mod)

lemma fb_alloc_zero:
  assumes "fb_alloc (Some f) (Some a) node w h mem = (err, r, mem')" "unat w * unat h < 2 ^ 32"
    "x < w" "y < h"
  shows "fb_get_pixel mem' f x y = Some 0"
  using assms pixel_index [of x w y h]
  by (auto simp: fb_alloc_def fb_get_pixel_def blk_read_def unat_area_mod)

text \<open>
  When the product wraps, the block is smaller than the frame buffer, and some pixel inside
  the frame buffer has an index behind the end of the block.
\<close>

lemma overflow_index:
  fixes w h :: u32
  assumes "2 ^ 32 \<le> unat w * unat h"
  shows "\<exists>x y. x < w \<and> y < h \<and> unat (y * w + x) = unat (w * h)"
proof -
  let ?i = "unat (w * h)"
  have w0: "0 < unat w" using assms by (cases "unat w") auto
  have i: "?i < 2 ^ 32" using unat_lt2p [of "w * h"] by simp
  define x y :: u32 where "x = of_nat (?i mod unat w)" and "y = of_nat (?i div unat w)"
  have ux: "unat x = ?i mod unat w" and uy: "unat y = ?i div unat w"
    using i unat_lt2p [of w] w0
    by (auto simp: x_def y_def unat_of_nat intro!: mod_less
          intro: le_less_trans [OF mod_le_divisor] le_less_trans [OF div_le_dividend])
  have "?i div unat w < unat h"
    using i assms w0 by (simp add: less_mult_imp_div_less mult.commute)
  then have "x < w" "y < h" using ux uy w0 by (simp_all add: word_less_nat_alt)
  moreover have "unat (y * w + x) = (unat y * unat w + unat x) mod 2 ^ 32"
    by (simp add: unat_word_ariths mod_simps)
  then have "unat (y * w + x) = ?i"
    using i ux uy by simp
  ultimately show ?thesis by blast
qed

lemma fb_alloc_overflow:
  assumes "fb_alloc (Some f) (Some a) node w h mem = (err, r, mem')" "2 ^ 32 \<le> unat w * unat h"
  shows "\<exists>x y. in_range (fb_dim mem' f) x y \<and> fb_set_pixel mem' f x y c = None"
proof -
  obtain x y where xy: "x < w" "y < h" "unat (y * w + x) = unat (w * h)"
    using overflow_index [OF assms(2)] by blast
  with assms(1) have "in_range (fb_dim mem' f) x y" "fb_set_pixel mem' f x y c = None"
    by (auto simp: fb_alloc_def fb_dim_def in_range_def fb_set_pixel_def blk_write_def not_le [symmetric])
  then show ?thesis by blast
qed

lemma fb_resize_nomem: "f \<in> dom (fbs mem) \<Longrightarrow> fb_resize None mem f w h = Some (- ENOMEM, mem)"
  by (auto simp: fb_resize_def fb_get_size_def)

text \<open>Both orders of the stores in \<open>fb_resize\<close> give the same final state.\<close>

lemma fb_update_comm: "(F :: fb)\<lparr>pixels := a, size_of := s\<rparr> = F\<lparr>size_of := s, pixels := a\<rparr>"
  by simp

lemma fb_resize_exec:
  assumes "fbs mem f = Some F" "pixels F \<in> dom (pxs mem)" "a \<notin> dom (pxs mem)"
  shows "fb_resize (Some a) mem f w h =
     Some (0, mem\<lparr>pxs := ((pxs mem)(a \<mapsto> replicate (unat (w * h)) 0))(pixels F := None),
                  fbs := (fbs mem)(f \<mapsto> F\<lparr>size_of := \<lparr>width = w, height = h\<rparr>, pixels := a\<rparr>)\<rparr>)"
  using assms
  by (auto simp: fb_resize_def fb_get_size_def fb_set_size_def fb_set_pixels_def blk_free_def
        unat_memsize Let_def fb_update_comm intro!: fbmem.equality)

lemma fb_wf_blk:
  assumes "fb_wf mem f" "fbs mem f = Some F"
  shows "pixels F \<in> dom (pxs mem)"
  using assms by (auto simp: fb_wf_def)

lemma fb_resize_wf:
  assumes wf: "fb_wf mem f" and a: "a \<notin> dom (pxs mem)" and area: "unat w * unat h < 2 ^ 32"
  shows "\<exists>mem'. fb_resize (Some a) mem f w h = Some (0, mem') \<and> fb_wf mem' f \<and>
           fb_dim mem' f = (w, h) \<and>
           (\<forall>x y. x < w \<longrightarrow> y < h \<longrightarrow> fb_get_pixel mem' f x y = Some 0)"
proof -
  obtain F where F: "fbs mem f = Some F" using wf by (auto simp: fb_wf_def)
  note blk = fb_wf_blk [OF wf F]
  then have ne: "a \<noteq> pixels F" using a by auto
  let ?mem = "mem\<lparr>pxs := ((pxs mem)(a \<mapsto> replicate (unat (w * h)) 0))(pixels F := None),
                  fbs := (fbs mem)(f \<mapsto> F\<lparr>size_of := \<lparr>width = w, height = h\<rparr>, pixels := a\<rparr>)\<rparr>"
  have "fb_wf ?mem f" "fb_dim ?mem f = (w, h)"
    using ne area by (auto simp: fb_wf_def fb_dim_def unat_area_mod)
  moreover have "fb_get_pixel ?mem f x y = Some 0" if "x < w" "y < h" for x y
    using that ne area pixel_index [OF that area]
    by (auto simp: fb_get_pixel_def blk_read_def unat_area_mod)
  ultimately show ?thesis using fb_resize_exec [OF F blk a, of w h] by blast
qed

text \<open>
  The block the frame buffer had before is freed, so a pointer kept elsewhere (the VNC
  server keeps one) is dangling.
\<close>

lemma fb_resize_frees:
  assumes "fb_wf mem f" "fbs mem f = Some F" "a \<notin> dom (pxs mem)"
    "fb_resize (Some a) mem f w h = Some (err, mem')"
  shows "pxs mem' (pixels F) = None"
  using fb_resize_exec [OF assms(2) fb_wf_blk [OF assms(1,2)] assms(3), of w h] assms(4) by auto

lemma fb_free_wf:
  assumes "fb_wf mem f"
  shows "\<exists>mem'. fb_free mem f = Some mem' \<and> f \<notin> dom (fbs mem')"
  using assms by (auto simp: fb_wf_def fb_free_def blk_free_def free_fb_def domIff)

section \<open>Lists of frame buffers\<close>

lemma run_on_node:
  assumes "\<forall>e \<in> set es. e \<in> dom b"
  shows "run_entries (\<lambda>_ c. do { F \<leftarrow> b c; Some (if numa_node F = n then Inr c else Inl ()) }) es () =
     Some (case find (\<lambda>e. \<exists>F. b e = Some F \<and> numa_node F = n) es of None \<Rightarrow> Inl () | Some e \<Rightarrow> Inr e)"
  using assms by (induction es) auto

lemma fb_get_fb_on_node_rep:
  assumes "llist_rep (links mem) l es" "set es \<subseteq> dom (fbs mem)"
  shows "fb_get_fb_on_node mem l n =
           Some (find (\<lambda>e. \<exists>F. fbs mem e = Some F \<and> numa_node F = n) es)"
proof -
  have "\<forall>e \<in> set es. e \<in> dom (fbs mem)" using assms(2) by blast
  from run_on_node [OF this, of n] show ?thesis
    using llist_head_rep [OF assms(1)]
    by (auto simp: fb_get_fb_on_node_def for_each_rep [OF assms(1)] split: option.splits)
qed

text \<open>
  \<open>fb_free_all\<close> frees the structure that holds the cursor, and the loop then reads
  \<open>cursor->next\<close> from it.
\<close>

lemma fb_free_all_empty: "llist_rep (links mem) l [] \<Longrightarrow> fb_free_all mem l = Some mem"
  using llist_head_rep [of "links mem" l "[]"]
  by (auto simp: fb_free_all_def llist_for_each.simps)

lemma fb_free_all_uaf:
  assumes "llist_rep (links mem) l (e # es)"
  shows "fb_free_all mem l = None"
proof -
  obtain L where L: "llists (links mem) l = Some L" "l_head L = Some e"
    using llist_head_rep [OF assms] by auto
  have "llist_for_each links
          (\<lambda>mem cursor. map_option Inl (free_fb cursor mem) :: (fbmem + fbmem) option) (Some e) mem = None"
    by (subst llist_for_each.simps) (auto simp: free_fb_def bind_case_option)
  with L show ?thesis by (simp add: fb_free_all_def)
qed

section \<open>Properties\<close>

text \<open>
  A frame buffer of 2 by 2 pixels at address 3, alone in the list at address 0.
\<close>

definition fb_sample :: fbmem where
  "fb_sample = \<lparr>pxs = [7 \<mapsto> [10, 11, 12, 13]],
     fbs = [3 \<mapsto> \<lparr>size_of = \<lparr>width = 2, height = 2\<rparr>, pixels = 7, numa_node = 0, pixelCounter = 0, bytesCounter = 0\<rparr>],
     links = \<lparr>entries = [3 \<mapsto> \<lparr>e_next = None, e_prev = None, e_list = Some 0\<rparr>],
              llists = [0 \<mapsto> \<lparr>l_head = Some 3, l_tail = Some 3, l_lock = False\<rparr>]\<rparr>\<rparr>"

lemma fb_sample_wf: "fb_wf fb_sample 3" "fb_dim fb_sample 3 = (2, 2)" "8 \<notin> dom (pxs fb_sample)"
  by (simp_all add: fb_sample_def fb_wf_def fb_dim_def)

text \<open>
  C14: Drawing. In a frame buffer with memory for its size any sequence of \<open>fb_set_pixel\<close>
  calls, with coordinates inside and outside, runs without an access outside the pixels;
  afterwards every pixel has the colour of the last call for it, or the colour it had; the
  size is unchanged, and the pixel counter has grown by the number of calls inside the frame
  buffer (modulo \<open>2 ^ 64\<close>).
\<close>
theorem drawing_last_write_wins:
  assumes "fb_wf mem f"
  shows "\<exists>mem'. put_all (\<lambda>m. fb_set_pixel m f) mem cs = Some mem' \<and> fb_wf mem' f \<and>
     fb_dim mem' f = fb_dim mem f \<and>
     (\<forall>x y. in_range (fb_dim mem f) x y \<longrightarrow>
        fb_get_pixel mem' f x y = (case last_cmd cs x y of Some c \<Rightarrow> Some c | None \<Rightarrow> fb_get_pixel mem f x y)) \<and>
     fb_counter mem' f = fb_counter mem f + of_nat (count_in_range (fb_dim mem f) cs)"
  using fbst.put_all_total [OF assms] fbst.put_all_get [OF assms] put_all_counters [OF assms] by blast

theorem drawing_last_write_wins_witness:
  "\<exists>mem'. put_all (\<lambda>m. fb_set_pixel m 3) fb_sample [(1, 0, 5), (9, 0, 6), (1, 0, 7)] = Some mem' \<and>
     fb_get_pixel mem' 3 1 0 = Some 7"
proof -
  have "in_range (fb_dim fb_sample 3) 1 0" by (simp add: fb_sample_wf in_range_def)
  then show ?thesis
    using drawing_last_write_wins [OF fb_sample_wf(1), of "[(1, 0, 5), (9, 0, 6), (1, 0, 7)]"] by force
qed

text \<open>
  C27: Allocation. \<open>fb_alloc\<close> with both allocations successful gives a frame buffer in which
  every coordinate the bounds check lets through can be written if and only if the area
  \<open>width * height\<close>, taken without wrap-around, is below \<open>2 ^ 32\<close>; then it is all black.
\<close>
theorem fb_alloc_safe_iff:
  assumes "fb_alloc (Some f) (Some a) node w h mem = (err, r, mem')"
  shows "((\<forall>x y c. in_range (fb_dim mem' f) x y \<longrightarrow> fb_set_pixel mem' f x y c \<noteq> None) \<longleftrightarrow> unat w * unat h < 2 ^ 32) \<and>
     (unat w * unat h < 2 ^ 32 \<longrightarrow> fb_dim mem' f = (w, h) \<and> (\<forall>x y. x < w \<longrightarrow> y < h \<longrightarrow> fb_get_pixel mem' f x y = Some 0))"
proof (cases "unat w * unat h < 2 ^ 32")
  case True
  note ok = fb_alloc_wf [OF assms True]
  have "fb_set_pixel mem' f x y c \<noteq> None" for x y c using fb_set_pixel_total [of mem' f x y c] ok by auto
  then show ?thesis using True ok fb_alloc_zero [OF assms True] by simp
next
  case False
  then have "\<exists>x y. in_range (fb_dim mem' f) x y \<and> fb_set_pixel mem' f x y 0 = None"
    using fb_alloc_overflow [OF assms] by (simp only: not_less)
  then show ?thesis using False by blast
qed

theorem fb_alloc_safe_iff_witness:
  "\<exists>x y c. in_range (0x10000, 0x10000) x y \<and>
     fb_set_pixel (snd (snd (fb_alloc (Some 3) (Some 7) 0 0x10000 0x10000 fb_sample))) 3 x y c = None"
proof -
  obtain err r mem' where run: "fb_alloc (Some 3) (Some 7) 0 0x10000 0x10000 fb_sample = (err, r, mem')"
    by (cases "fb_alloc (Some 3) (Some 7) 0 0x10000 0x10000 fb_sample")
  have dim: "fb_dim mem' 3 = (0x10000, 0x10000)" using run by (auto simp: fb_alloc_def fb_dim_def)
  show ?thesis unfolding run snd_conv using fb_alloc_safe_iff [OF run] unfolding dim by force
qed

text \<open>
  C28: Resizing. With a new block and an area below \<open>2 ^ 32\<close>, \<open>fb_resize\<close> returns 0 and the
  frame buffer has memory for exactly the new size, all black, whatever the two sizes are; the
  old block is freed and every other block, frame buffer and list is as it was. Without a new
  block it returns \<open>-ENOMEM\<close> and changes nothing.
\<close>
theorem fb_resize_correct:
  assumes "fb_wf mem f" "a \<notin> dom (pxs mem)" "unat w * unat h < 2 ^ 32"
  shows "\<exists>mem'. fb_resize (Some a) mem f w h = Some (0, mem') \<and> fb_wf mem' f \<and> fb_dim mem' f = (w, h) \<and>
       (\<forall>x y. x < w \<longrightarrow> y < h \<longrightarrow> fb_get_pixel mem' f x y = Some 0) \<and>
       pxs mem' (pixels (the (fbs mem f))) = None \<and>
       (\<forall>b. b \<noteq> a \<longrightarrow> b \<noteq> pixels (the (fbs mem f)) \<longrightarrow> pxs mem' b = pxs mem b) \<and>
       (\<forall>g. g \<noteq> f \<longrightarrow> fbs mem' g = fbs mem g) \<and> links mem' = links mem \<and>
     fb_resize None mem f w h = Some (- ENOMEM, mem)"
proof -
  obtain F where F: "fbs mem f = Some F" "pixels F \<in> dom (pxs mem)"
    using assms(1) by (auto simp: fb_wf_def)
  show ?thesis using fb_resize_wf [OF assms] fb_resize_nomem [of f mem w h] F
    by (auto simp: fb_resize_exec [OF F assms(2)])
qed

theorem fb_resize_correct_witness:
  "\<exists>mem'. fb_resize (Some 8) fb_sample 3 5 1 = Some (0, mem') \<and> fb_dim mem' 3 = (5, 1) \<and> fb_wf mem' 3"
  using fb_resize_correct [OF fb_sample_wf(1,3), of 5 1] by auto

text \<open>
  \<open>fb_free_all\<close> on a list with a frame buffer in it reads \<open>cursor->next\<close> from the frame
  buffer it has just freed; only the empty list is handled.
\<close>
theorem fb_free_all_use_after_free:
  assumes "llist_rep (links mem) l es"
  shows "fb_free_all mem l = (if es = [] then Some mem else None)"
  using assms fb_free_all_empty fb_free_all_uaf by (cases es) auto

theorem fb_free_all_use_after_free_witness: "fb_free_all fb_sample 0 = None"
  using fb_free_all_use_after_free [of fb_sample 0 "[3]"] by (simp add: llist_rep_def fb_sample_def)

end
