(* ===== verification/FramebufferRace.thy ===== *)
theory FramebufferRace
  imports Framebuffer
begin

text \<open>
  \<open>fb_set_pixel\<close> runs on the DPDK thread and \<open>fb_resize\<close> on a frontend or work queue
  thread, with no lock between them. This theory cuts both into their single loads and
  stores and runs them under an explicit schedule. Run without interleaving the pieces
  are the functions of \<open>Framebuffer\<close>; the ordering of stores by which \<open>fb_resize\<close>
  tries to prevent out-of-bounds writes does not cover the \<open>free\<close> at its end.
\<close>

section \<open>The writer: one load or store at a time\<close>

datatype set_pc =
    SCheckX
  | SCheckY
  | SPixels
  | SIndex nat
  | SStore nat nat
  | SCount
  | SDone

definition set_pixel_step ::
    "eaddr \<Rightarrow> u32 \<Rightarrow> u32 \<Rightarrow> u32 \<Rightarrow> set_pc \<times> fbmem \<Rightarrow> (set_pc \<times> fbmem) option" where
  "set_pixel_step f x y pixel = (\<lambda>(pc, mem). do {
     F \<leftarrow> fbs mem f;
     (case pc of
        SCheckX \<Rightarrow> Some (if x \<ge> fb_width F then SDone else SCheckY, mem)
      | SCheckY \<Rightarrow> Some (if y \<ge> fb_height F then SDone else SPixels, mem)
      | SPixels \<Rightarrow> Some (SIndex (pixels F), mem)
      | SIndex a \<Rightarrow> Some (SStore a (unat (y * fb_width F + x)), mem)
      | SStore a i \<Rightarrow> do { p \<leftarrow> blk_write (pxs mem) a i pixel; Some (SCount, mem\<lparr>pxs := p\<rparr>) }
      | SCount \<Rightarrow> Some (SDone, mem\<lparr>fbs := (fbs mem)(f \<mapsto> F\<lparr>pixelCounter := pixelCounter F + 1\<rparr>)\<rparr>)
      | SDone \<Rightarrow> Some (SDone, mem)) })"

section \<open>The resizer: the stores of \<open>fb_resize\<close> after its \<open>malloc\<close>\<close>

datatype resize_act =
    SetWidth u32
  | SetHeight u32
  | SetPixels nat
  | FreeOld nat

definition resize_acts :: "nat \<Rightarrow> u32 \<Rightarrow> u32 \<Rightarrow> fb \<Rightarrow> resize_act list" where
  "resize_acts fbmem w h F =
     (if fb_memsize (fb_width F) (fb_height F) > fb_memsize w h
      then [SetWidth w, SetHeight h, SetPixels fbmem]
      else [SetPixels fbmem, SetWidth w, SetHeight h]) @ [FreeOld (pixels F)]"

definition resize_malloc :: "nat \<Rightarrow> u32 \<Rightarrow> u32 \<Rightarrow> fbmem \<Rightarrow> fbmem" where
  "resize_malloc a w h mem =
     mem\<lparr>pxs := (pxs mem)(a \<mapsto> replicate (unat (fb_memsize w h) div 4) 0)\<rparr>"

fun do_act :: "eaddr \<Rightarrow> resize_act \<Rightarrow> fbmem \<Rightarrow> fbmem option" where
  "do_act f (SetWidth w) mem = do { F \<leftarrow> fbs mem f;
     Some (mem\<lparr>fbs := (fbs mem)(f \<mapsto> F\<lparr>size_of := (size_of F)\<lparr>width := w\<rparr>\<rparr>)\<rparr>) }"
| "do_act f (SetHeight h) mem = do { F \<leftarrow> fbs mem f;
     Some (mem\<lparr>fbs := (fbs mem)(f \<mapsto> F\<lparr>size_of := (size_of F)\<lparr>height := h\<rparr>\<rparr>)\<rparr>) }"
| "do_act f (SetPixels a) mem = fb_set_pixels f a mem"
| "do_act f (FreeOld a) mem = do { p \<leftarrow> blk_free (pxs mem) a; Some (mem\<lparr>pxs := p\<rparr>) }"

section \<open>Schedules\<close>

text \<open>
  One entry of the schedule per step: \<open>True\<close> lets the writer run, \<open>False\<close> the resizer;
  a thread that has finished stays where it is.
\<close>

fun race_run ::
    "eaddr \<Rightarrow> u32 \<Rightarrow> u32 \<Rightarrow> u32 \<Rightarrow> bool list \<Rightarrow> set_pc \<times> resize_act list \<times> fbmem \<Rightarrow>
     (set_pc \<times> resize_act list \<times> fbmem) option" where
  "race_run f x y c [] s = Some s"
| "race_run f x y c (True # sched) (pc, acts, mem) =
     (case set_pixel_step f x y c (pc, mem) of None \<Rightarrow> None
      | Some (pc', mem') \<Rightarrow> race_run f x y c sched (pc', acts, mem'))"
| "race_run f x y c (False # sched) (pc, [], mem) = race_run f x y c sched (pc, [], mem)"
| "race_run f x y c (False # sched) (pc, a # acts, mem) =
     (case do_act f a mem of None \<Rightarrow> None
      | Some mem' \<Rightarrow> race_run f x y c sched (pc, acts, mem'))"

lemma race_run_append:
  "race_run f x y c (s1 @ s2) st =
     (case race_run f x y c s1 st of None \<Rightarrow> None | Some st' \<Rightarrow> race_run f x y c s2 st')"
  by (induction f x y c s1 st rule: race_run.induct) (auto split: option.splits prod.splits)

abbreviation writer :: "nat \<Rightarrow> bool list" where "writer n \<equiv> replicate n True"
abbreviation resizer :: "nat \<Rightarrow> bool list" where "resizer n \<equiv> replicate n False"

lemma replicate_4: "replicate 4 b = [b, b, b, b]" and replicate_6: "replicate 6 b = [b, b, b, b, b, b]"
  by (simp_all add: numeral_eq_Suc)

lemmas race_simps = replicate_4 replicate_6 set_pixel_step_def

text \<open>The writer alone is \<open>fb_set_pixel\<close>, the resizer alone is \<open>fb_resize\<close>.\<close>

lemma writer_alone:
  "f \<in> dom (fbs mem) \<Longrightarrow>
   map_option (\<lambda>(pc, acts, m). (pc = SDone, m)) (race_run f x y c (writer 6) (SCheckX, acts, mem)) =
   map_option (Pair True) (fb_set_pixel mem f x y c)"
  by (auto simp: race_simps fb_set_pixel_def blk_write_def bind_case_option split: option.splits)

lemma set_both_sizes: "(S :: fb_size)\<lparr>width := w, height := h\<rparr> = \<lparr>width = w, height = h\<rparr>"
  by simp

lemma resizer_alone:
  assumes "fbs mem f = Some F" "pixels F \<in> dom (pxs mem)" "a \<notin> dom (pxs mem)"
  shows "map_option (\<lambda>(pc, acts, m). (acts = [], 0 :: c_int, m))
           (race_run f x y c (resizer 4) (pc, resize_acts a w h F, resize_malloc a w h mem)) =
         map_option (Pair True) (fb_resize (Some a) mem f w h)"
  using assms
  by (auto simp: race_simps fb_resize_exec resize_acts_def resize_malloc_def fb_set_pixels_def
        blk_free_def unat_memsize set_both_sizes fb_update_comm intro!: fbmem.equality)

text \<open>
  The writer that has computed its target before the resizer runs stores into the freed
  block: whatever the old and the new size, and for every pixel inside the frame buffer.
\<close>

lemma writer_to_store:
  assumes "fb_wf mem f" "in_range (fb_dim mem f) x y" "fbs mem f = Some F"
  shows "race_run f x y c (writer 4) (SCheckX, acts, mem) =
           Some (SStore (pixels F) (unat (y * fb_width F + x)), acts, mem)"
  using assms by (auto simp: race_simps fb_dim_def in_range_def)

lemma resizer_frees:
  assumes "fbs mem f = Some F" "pixels F \<in> dom (pxs mem)" "a \<notin> dom (pxs mem)"
  shows "\<exists>mem'. race_run f x y c (resizer 4) (pc, resize_acts a w h F, resize_malloc a w h mem) =
            Some (pc, [], mem') \<and> pxs mem' (pixels F) = None"
  using assms
  by (auto simp: race_simps resize_acts_def resize_malloc_def fb_set_pixels_def blk_free_def)

lemma resize_race:
  assumes wf: "fb_wf mem f" and r: "in_range (fb_dim mem f) x y" and F: "fbs mem f = Some F"
    and a: "a \<notin> dom (pxs mem)"
  shows "race_run f x y c (writer 4 @ resizer 4 @ writer 1)
           (SCheckX, resize_acts a w h F, resize_malloc a w h mem) = None"
proof -
  let ?mem = "resize_malloc a w h mem"
  note blk = fb_wf_blk [OF wf F]
  have wf': "fb_wf ?mem f" "in_range (fb_dim ?mem f) x y" "fbs ?mem f = Some F"
    using wf r F a blk by (auto simp: fb_wf_def fb_dim_def resize_malloc_def)
  obtain mem' where m: "race_run f x y c (resizer 4)
      (SStore (pixels F) (unat (y * fb_width F + x)), resize_acts a w h F, ?mem) =
      Some (SStore (pixels F) (unat (y * fb_width F + x)), [], mem')" "pxs mem' (pixels F) = None"
    using resizer_frees [OF F blk a, of x y c] by blast
  from m(2) have "race_run f x y c (writer 1)
      (SStore (pixels F) (unat (y * fb_width F + x)), [], mem') = None"
    by (auto simp: set_pixel_step_def blk_write_def bind_case_option split: option.splits)
  with m(1) show ?thesis by (simp only: race_run_append writer_to_store [OF wf'] option.case)
qed

section \<open>Properties\<close>

text \<open>
  C29: The resize race. Run on its own the sequence of loads and stores of the writer is
  \<open>fb_set_pixel\<close> and that of the resizer is \<open>fb_resize\<close>; but when the resizer runs
  between the writer's load of the pixel pointer and its store, the store goes into a freed
  block, for every pixel inside the frame buffer and whatever the two sizes are.
\<close>
theorem resize_race_use_after_free:
  assumes "fb_wf mem f" "fbs mem f = Some F" "a \<notin> dom (pxs mem)" "in_range (fb_dim mem f) x y"
  shows "map_option (\<lambda>(pc, acts, m). (pc = SDone, m)) (race_run f x y c (writer 6) (SCheckX, acts, mem)) =
       map_option (Pair True) (fb_set_pixel mem f x y c) \<and>
     map_option (\<lambda>(pc, acts, m). (acts = [], 0 :: c_int, m))
       (race_run f x y c (resizer 4) (SCheckX, resize_acts a w h F, resize_malloc a w h mem)) =
       map_option (Pair True) (fb_resize (Some a) mem f w h) \<and>
     race_run f x y c (writer 4 @ resizer 4 @ writer 1)
       (SCheckX, resize_acts a w h F, resize_malloc a w h mem) = None"
  using writer_alone [of f mem x y c acts] resizer_alone [OF assms(2) fb_wf_blk [OF assms(1,2)] assms(3), of x y c SCheckX w h]
    resize_race [OF assms(1,4,2,3), of c w h] assms(2) by blast

theorem resize_race_use_after_free_witness:
  "race_run 3 1 1 5 (writer 4 @ resizer 4 @ writer 1)
     (SCheckX, resize_acts 8 4 4 (the (fbs fb_sample 3)), resize_malloc 8 4 4 fb_sample) = None"
proof -
  have F: "fbs fb_sample 3 = Some (the (fbs fb_sample 3))" and r: "in_range (fb_dim fb_sample 3) 1 1"
    by (simp add: fb_sample_def) (simp add: fb_sample_wf in_range_def)
  show ?thesis using resize_race_use_after_free [OF fb_sample_wf(1) F fb_sample_wf(3) r] by blast
qed

end
