(* ===== verification/WorkqueueThreads.thy ===== *)
theory WorkqueueThreads
  imports Prelude
begin

text \<open>
  The threads around one work queue of \<open>workqueue.c\<close>: the worker (\<open>work_thread\<close>), any
  number of clients (\<open>workqueue_enqueue\<close>) and the thread that stops the queue
  (\<open>stop_workqueue\<close>). A step is what a thread does between two synchronisation points; the
  mutex, the condition variable and \<open>pthread_join\<close> have their POSIX meaning: a broadcast
  wakes a worker that is waiting and is lost otherwise, and a wait may end spuriously.
  Entries are numbers; what a callback does is the business of \<open>Workqueue\<close>, here it may
  end the worker (\<open>goto fail\<close>) or not.
\<close>

section \<open>State\<close>

datatype owner = Worker | Client nat

datatype worker_pc =
    WLock      \<comment> \<open>before \<open>pthread_mutex_lock\<close>\<close>
  | WTest      \<comment> \<open>holds the mutex, before \<open>while (!wqueue->do_exit)\<close>\<close>
  | WWait      \<comment> \<open>holds the mutex, before \<open>pthread_cond_wait\<close>\<close>
  | WSleep     \<comment> \<open>in \<open>pthread_cond_wait\<close>\<close>
  | WWoken     \<comment> \<open>woken, before it has the mutex again\<close>
  | WInner     \<comment> \<open>holds the mutex, before the test of the inner loop\<close>
  | WEnd       \<comment> \<open>returned\<close>

datatype client_pc = CIdle | CHold nat | CUnlock | CSignal

datatype stop_pc = SIdle | SSignal | SJoin | SDrain | SDone

record wqm =
  m_queue :: "nat list"
  m_enqueued :: "nat list"
  m_done :: "nat list"
  m_dropped :: "nat list"
  m_exit :: bool
  m_lock :: "owner option"
  m_worker :: worker_pc
  m_client :: "nat \<Rightarrow> client_pc"
  m_stop :: stop_pc

definition wqm_init :: wqm where
  "wqm_init = \<lparr>m_queue = [], m_enqueued = [], m_done = [], m_dropped = [], m_exit = False,
     m_lock = None, m_worker = WLock, m_client = (\<lambda>_. CIdle), m_stop = SIdle\<rparr>"

text \<open>\<open>pthread_cond_broadcast\<close>: a sleeping worker wakes, otherwise nothing happens.\<close>

definition broadcast :: "wqm \<Rightarrow> wqm" where
  "broadcast s = (if m_worker s = WSleep then s\<lparr>m_worker := WWoken\<rparr> else s)"

section \<open>Steps\<close>

datatype actor = AWorker | AClient nat | AStop | ASpurious

inductive work_thread_step :: "wqm \<Rightarrow> wqm \<Rightarrow> bool" where
  w_lock: "m_worker s = WLock \<Longrightarrow> m_lock s = None \<Longrightarrow>
     work_thread_step s (s\<lparr>m_lock := Some Worker, m_worker := WTest\<rparr>)"
| w_leave: "m_worker s = WTest \<Longrightarrow> m_exit s \<Longrightarrow> work_thread_step s (s\<lparr>m_worker := WEnd\<rparr>)"
| w_stay: "m_worker s = WTest \<Longrightarrow> \<not> m_exit s \<Longrightarrow> work_thread_step s (s\<lparr>m_worker := WWait\<rparr>)"
| w_wait: "m_worker s = WWait \<Longrightarrow> work_thread_step s (s\<lparr>m_lock := None, m_worker := WSleep\<rparr>)"
| w_woken: "m_worker s = WWoken \<Longrightarrow> m_lock s = None \<Longrightarrow>
     work_thread_step s (s\<lparr>m_lock := Some Worker, m_worker := WInner\<rparr>)"
| w_item: "m_worker s = WInner \<Longrightarrow> m_queue s = x # xs \<Longrightarrow> \<not> m_exit s \<Longrightarrow>
     work_thread_step s (s\<lparr>m_queue := xs, m_done := m_done s @ [x]\<rparr>)"
| w_item_fails: "m_worker s = WInner \<Longrightarrow> m_queue s = x # xs \<Longrightarrow> \<not> m_exit s \<Longrightarrow>
     work_thread_step s (s\<lparr>m_queue := xs, m_done := m_done s @ [x], m_lock := None, m_worker := WEnd\<rparr>)"
| w_inner_end: "m_worker s = WInner \<Longrightarrow> m_queue s = [] \<or> m_exit s \<Longrightarrow>
     work_thread_step s (s\<lparr>m_worker := WTest\<rparr>)"

inductive enqueue_step :: "nat \<Rightarrow> wqm \<Rightarrow> wqm \<Rightarrow> bool" where
  c_lock: "m_client s c = CIdle \<Longrightarrow> m_lock s = None \<Longrightarrow>
     enqueue_step c s (s\<lparr>m_lock := Some (Client c), m_client := (m_client s)(c := CHold x)\<rparr>)"
| c_append: "m_client s c = CHold x \<Longrightarrow>
     enqueue_step c s (s\<lparr>m_queue := m_queue s @ [x], m_enqueued := m_enqueued s @ [x],
                         m_client := (m_client s)(c := CUnlock)\<rparr>)"
| c_unlock: "m_client s c = CUnlock \<Longrightarrow>
     enqueue_step c s (s\<lparr>m_lock := None, m_client := (m_client s)(c := CSignal)\<rparr>)"
| c_signal: "m_client s c = CSignal \<Longrightarrow>
     enqueue_step c s (broadcast (s\<lparr>m_client := (m_client s)(c := CIdle)\<rparr>))"

inductive stop_step :: "wqm \<Rightarrow> wqm \<Rightarrow> bool" where
  s_exit: "m_stop s = SIdle \<Longrightarrow> stop_step s (s\<lparr>m_exit := True, m_stop := SSignal\<rparr>)"
| s_signal: "m_stop s = SSignal \<Longrightarrow> stop_step s (broadcast (s\<lparr>m_stop := SJoin\<rparr>))"
| s_join: "m_stop s = SJoin \<Longrightarrow> m_worker s = WEnd \<Longrightarrow> stop_step s (s\<lparr>m_stop := SDrain\<rparr>)"
| s_drain: "m_stop s = SDrain \<Longrightarrow> m_queue s = x # xs \<Longrightarrow>
     stop_step s (s\<lparr>m_queue := xs, m_dropped := m_dropped s @ [x]\<rparr>)"
| s_done: "m_stop s = SDrain \<Longrightarrow> m_queue s = [] \<Longrightarrow> stop_step s (s\<lparr>m_stop := SDone\<rparr>)"

inductive wq_step :: "actor \<Rightarrow> wqm \<Rightarrow> wqm \<Rightarrow> bool" where
  worker: "work_thread_step s t \<Longrightarrow> wq_step AWorker s t"
| client: "enqueue_step c s t \<Longrightarrow> wq_step (AClient c) s t"
| stopper: "stop_step s t \<Longrightarrow> wq_step AStop s t"
| spurious: "m_worker s = WSleep \<Longrightarrow> wq_step ASpurious s (s\<lparr>m_worker := WWoken\<rparr>)"

inductive_cases worker_stepE: "wq_step AWorker s t"
inductive_cases client_stepE: "wq_step (AClient c) s t"
inductive_cases stop_stepE: "wq_step AStop s t"

text \<open>States reached by steps of the actors in \<open>A\<close>.\<close>

inductive wq_reach :: "actor set \<Rightarrow> wqm \<Rightarrow> bool" for A where
  start: "wq_reach A wqm_init"
| step: "wq_reach A s \<Longrightarrow> a \<in> A \<Longrightarrow> wq_step a s t \<Longrightarrow> wq_reach A t"

section \<open>Order and mutual exclusion\<close>

text \<open>
  The entries enqueued so far are those the worker took, those dropped while stopping and
  those still queued, in this order; whoever is in a critical section owns the mutex; and
  the stopping thread touches the queue only after the worker has returned.
\<close>

definition fifo_inv :: "wqm \<Rightarrow> bool" where
  "fifo_inv s \<longleftrightarrow> m_enqueued s = m_done s @ m_dropped s @ m_queue s"

definition stop_inv :: "wqm \<Rightarrow> bool" where
  "stop_inv s \<longleftrightarrow> (m_stop s \<in> {SDrain, SDone} \<longrightarrow> m_worker s = WEnd) \<and>
     (m_dropped s \<noteq> [] \<longrightarrow> m_stop s \<in> {SDrain, SDone}) \<and> (m_exit s \<longleftrightarrow> m_stop s \<noteq> SIdle)"

fun worker_crit :: "worker_pc \<Rightarrow> bool" where
  "worker_crit WTest = True"
| "worker_crit WWait = True"
| "worker_crit WInner = True"
| "worker_crit _ = False"

fun client_crit :: "client_pc \<Rightarrow> bool" where
  "client_crit (CHold x) = True"
| "client_crit CUnlock = True"
| "client_crit _ = False"

definition lock_inv :: "wqm \<Rightarrow> bool" where
  "lock_inv s \<longleftrightarrow> (worker_crit (m_worker s) \<longrightarrow> m_lock s = Some Worker) \<and>
     (\<forall>c. client_crit (m_client s c) \<longrightarrow> m_lock s = Some (Client c))"

lemmas inv_defs = fifo_inv_def stop_inv_def lock_inv_def broadcast_def

lemma invs_init: "fifo_inv wqm_init" "stop_inv wqm_init" "lock_inv wqm_init"
  by (auto simp: inv_defs wqm_init_def)

lemma worker_invs:
  assumes "work_thread_step s t" "fifo_inv s" "stop_inv s" "lock_inv s"
  shows "fifo_inv t \<and> stop_inv t \<and> lock_inv t"
  using assms by (induction rule: work_thread_step.induct) (auto simp: inv_defs)

lemma enqueue_invs:
  assumes "enqueue_step c s t" "fifo_inv s" "stop_inv s" "lock_inv s"
  shows "fifo_inv t \<and> stop_inv t \<and> lock_inv t"
  using assms
proof (induction rule: enqueue_step.induct)
  case (c_append s c x)
  then have "client_crit (m_client s c)" by simp
  with c_append have "m_lock s = Some (Client c)" by (auto simp: lock_inv_def)
  with c_append show ?case by (auto simp: inv_defs)
next
  case (c_unlock s c)
  then have "client_crit (m_client s c)" by simp
  with c_unlock have "m_lock s = Some (Client c)" by (auto simp: lock_inv_def)
  with c_unlock show ?case by (auto simp: inv_defs)
qed (auto simp: inv_defs)

lemma stop_invs:
  assumes "stop_step s t" "fifo_inv s" "stop_inv s" "lock_inv s"
  shows "fifo_inv t \<and> stop_inv t \<and> lock_inv t"
  using assms by (induction rule: stop_step.induct) (auto simp: inv_defs)

lemma wq_step_invs:
  assumes "wq_step a s t" "fifo_inv s" "stop_inv s" "lock_inv s"
  shows "fifo_inv t \<and> stop_inv t \<and> lock_inv t"
  using assms(1)
proof cases
  case worker
  from worker_invs [OF this(2) assms(2-4)] show ?thesis .
next
  case (client c)
  from enqueue_invs [OF this(2) assms(2-4)] show ?thesis .
next
  case stopper
  from stop_invs [OF this(2) assms(2-4)] show ?thesis .
next
  case spurious
  with assms show ?thesis by (auto simp: inv_defs)
qed

lemma reach_invs: "wq_reach A s \<Longrightarrow> fifo_inv s \<and> stop_inv s \<and> lock_inv s"
  by (induction rule: wq_reach.induct) (use invs_init wq_step_invs in blast)+

section \<open>Runs\<close>

text \<open>Steps of the actors in \<open>A\<close> from \<open>s\<close> on.\<close>

inductive wq_steps :: "actor set \<Rightarrow> wqm \<Rightarrow> wqm \<Rightarrow> bool" for A where
  none: "wq_steps A s s"
| more: "wq_steps A s t \<Longrightarrow> a \<in> A \<Longrightarrow> wq_step a t u \<Longrightarrow> wq_steps A s u"

lemma reach_mono:
  assumes "wq_reach B s" "B \<subseteq> A"
  shows "wq_reach A s"
  using assms(1)
proof (induction rule: wq_reach.induct)
  case (step s a t)
  then show ?case using assms(2) by (intro wq_reach.step [of A s a t]) auto
qed (rule wq_reach.start)

lemma reach_steps: "wq_steps A s t \<Longrightarrow> wq_reach A s \<Longrightarrow> wq_reach A t"
  by (induction rule: wq_steps.induct) (auto intro: wq_reach.step)

section \<open>Lost wake-ups\<close>

text \<open>A thread is blocked when it has no step; a spurious wake-up is not a step of its own.\<close>

definition blocked :: "actor \<Rightarrow> wqm \<Rightarrow> bool" where
  "blocked a s \<longleftrightarrow> (\<nexists>t. wq_step a s t)"

lemma asleep_blocked:
  assumes "m_worker s = WSleep"
  shows "blocked AWorker s"
  using assms unfolding blocked_def by (auto elim!: worker_stepE work_thread_step.cases)

lemma join_blocked:
  assumes "m_stop s = SJoin" "m_worker s \<noteq> WEnd"
  shows "blocked AStop s"
  using assms unfolding blocked_def by (auto elim!: stop_stepE stop_step.cases)

text \<open>
  The worker waits before it has looked at the queue: an entry enqueued before that is
  left in the queue, its broadcast has found nobody.
\<close>

definition lost_entry :: "nat \<Rightarrow> wqm" where
  "lost_entry x = wqm_init\<lparr>m_queue := [x], m_enqueued := [x], m_worker := WSleep\<rparr>"

text \<open>
  The stopping thread sets \<open>do_exit\<close> and broadcasts without the mutex, between the
  worker's test and its wait.
\<close>

definition lost_stop :: wqm where
  "lost_stop = wqm_init\<lparr>m_exit := True, m_worker := WSleep, m_stop := SJoin\<rparr>"

lemma reach_client:
  "wq_reach A s \<Longrightarrow> AClient c \<in> A \<Longrightarrow> enqueue_step c s t \<Longrightarrow> wq_reach A t"
  by (rule wq_reach.step) (auto intro: wq_step.client)

lemma reach_worker:
  "wq_reach A s \<Longrightarrow> AWorker \<in> A \<Longrightarrow> work_thread_step s t \<Longrightarrow> wq_reach A t"
  by (rule wq_reach.step) (auto intro: wq_step.worker)

lemma reach_stop:
  "wq_reach A s \<Longrightarrow> AStop \<in> A \<Longrightarrow> stop_step s t \<Longrightarrow> wq_reach A t"
  by (rule wq_reach.step) (auto intro: wq_step.stopper)

lemma reach_one_enqueue:
  assumes "AClient c \<in> A"
  shows "wq_reach A (wqm_init\<lparr>m_queue := [x], m_enqueued := [x]\<rparr>)"
proof -
  let ?s1 = "wqm_init\<lparr>m_lock := Some (Client c), m_client := (m_client wqm_init)(c := CHold x)\<rparr>"
  let ?s2 = "?s1\<lparr>m_queue := m_queue ?s1 @ [x], m_enqueued := m_enqueued ?s1 @ [x],
                 m_client := (m_client ?s1)(c := CUnlock)\<rparr>"
  let ?s3 = "?s2\<lparr>m_lock := None, m_client := (m_client ?s2)(c := CSignal)\<rparr>"
  let ?s4 = "broadcast (?s3\<lparr>m_client := (m_client ?s3)(c := CIdle)\<rparr>)"
  have "wq_reach A ?s1"
    by (rule reach_client [OF wq_reach.start assms]) (rule enqueue_step.c_lock, simp_all add: wqm_init_def)
  then have "wq_reach A ?s2" by (rule reach_client [OF _ assms]) (rule enqueue_step.c_append, simp)
  then have "wq_reach A ?s3" by (rule reach_client [OF _ assms]) (rule enqueue_step.c_unlock, simp)
  then have "wq_reach A ?s4" by (rule reach_client [OF _ assms]) (rule enqueue_step.c_signal, simp)
  moreover have "?s4 = wqm_init\<lparr>m_queue := [x], m_enqueued := [x]\<rparr>"
    by (simp add: broadcast_def wqm_init_def fun_eq_iff)
  ultimately show ?thesis by simp
qed

lemma reach_lost_entry:
  assumes "AClient c \<in> A" "AWorker \<in> A"
  shows "wq_reach A (lost_entry x)"
proof -
  let ?s = "wqm_init\<lparr>m_queue := [x], m_enqueued := [x]\<rparr>"
  let ?s1 = "?s\<lparr>m_lock := Some Worker, m_worker := WTest\<rparr>"
  let ?s2 = "?s1\<lparr>m_worker := WWait\<rparr>"
  let ?s3 = "?s2\<lparr>m_lock := None, m_worker := WSleep\<rparr>"
  have "wq_reach A ?s1"
    by (rule reach_worker [OF reach_one_enqueue [OF assms(1)] assms(2)])
       (rule work_thread_step.w_lock, simp_all add: wqm_init_def)
  then have "wq_reach A ?s2"
    by (rule reach_worker [OF _ assms(2)]) (rule work_thread_step.w_stay, simp_all add: wqm_init_def)
  then have "wq_reach A ?s3"
    by (rule reach_worker [OF _ assms(2)]) (rule work_thread_step.w_wait, simp)
  then show ?thesis by (simp add: lost_entry_def wqm_init_def)
qed

lemma reach_lost_stop:
  assumes "AStop \<in> A" "AWorker \<in> A"
  shows "wq_reach A lost_stop"
proof -
  let ?s1 = "wqm_init\<lparr>m_lock := Some Worker, m_worker := WTest\<rparr>"
  let ?s2 = "?s1\<lparr>m_worker := WWait\<rparr>"
  let ?s3 = "?s2\<lparr>m_exit := True, m_stop := SSignal\<rparr>"
  let ?s4 = "broadcast (?s3\<lparr>m_stop := SJoin\<rparr>)"
  let ?s5 = "?s4\<lparr>m_lock := None, m_worker := WSleep\<rparr>"
  have "wq_reach A ?s1"
    by (rule reach_worker [OF wq_reach.start assms(2)])
       (rule work_thread_step.w_lock, simp_all add: wqm_init_def)
  then have "wq_reach A ?s2"
    by (rule reach_worker [OF _ assms(2)]) (rule work_thread_step.w_stay, simp_all add: wqm_init_def)
  then have "wq_reach A ?s3"
    by (rule reach_stop [OF _ assms(1)]) (rule stop_step.s_exit, simp add: wqm_init_def)
  then have "wq_reach A ?s4"
    by (rule reach_stop [OF _ assms(1)]) (rule stop_step.s_signal, simp)
  then have "wq_reach A ?s5"
    by (rule reach_worker [OF _ assms(2)]) (rule work_thread_step.w_wait, simp add: broadcast_def)
  then show ?thesis by (simp add: lost_stop_def broadcast_def wqm_init_def)
qed

lemma lost_entry_blocked: "blocked AWorker (lost_entry x)"
  by (rule asleep_blocked) (simp add: lost_entry_def)

lemma lost_stop_blocked: "blocked AWorker lost_stop \<and> blocked AStop lost_stop"
  by (intro conjI asleep_blocked join_blocked) (simp_all add: lost_stop_def)

text \<open>
  A sleeping worker is woken by a broadcast, which comes at the end of a call of \<open>workqueue_enqueue\<close> or after \<open>do_exit\<close> is set. While
  neither happens, and no wake-up is spurious, whatever else the threads do leaves the worker asleep and the queue as it is.
\<close>

definition nobody_signals :: "wqm \<Rightarrow> bool" where
  "nobody_signals s \<longleftrightarrow> m_worker s = WSleep \<and> m_stop s \<in> {SIdle, SJoin} \<and> (\<forall>c. m_client s c \<notin> {CUnlock, CSignal})"

definition sleeps_like :: "wqm \<Rightarrow> wqm \<Rightarrow> bool" where
  "sleeps_like s t \<longleftrightarrow> length (m_enqueued s) \<le> length (m_enqueued t) \<and> (m_exit s \<longrightarrow> m_exit t) \<and>
     (m_enqueued t = m_enqueued s \<and> m_exit t = m_exit s \<longrightarrow> nobody_signals t \<and> m_queue t = m_queue s \<and> m_stop t = m_stop s)"

lemma worker_keeps:
  "work_thread_step s t \<Longrightarrow> m_enqueued t = m_enqueued s \<and> m_exit t = m_exit s \<and> m_worker s \<noteq> WSleep"
  by (auto elim: work_thread_step.cases)

lemma sleeps_like_frame:
  assumes "sleeps_like s t" "m_enqueued u = m_enqueued t" "m_exit u = m_exit t"
    "nobody_signals t \<Longrightarrow> nobody_signals u \<and> m_queue u = m_queue t \<and> m_stop u = m_stop t"
  shows "sleeps_like s u"
  using assms unfolding sleeps_like_def by metis

lemma enqueue_sleeps:
  assumes "enqueue_step c t u" "sleeps_like s t"
  shows "sleeps_like s u"
  using assms(1)
proof cases
  case (c_append x)
  have "length (m_enqueued s) < length (m_enqueued u)" "m_exit u = m_exit t" using assms(2) c_append by (simp_all add: sleeps_like_def)
  then show ?thesis using assms(2) by (auto simp: sleeps_like_def)
next
  case c_lock
  then show ?thesis by (intro sleeps_like_frame [OF assms(2)]) (simp_all add: nobody_signals_def)
next
  case c_unlock
  then have "\<not> nobody_signals t" by (auto simp: nobody_signals_def)
  then show ?thesis using c_unlock by (intro sleeps_like_frame [OF assms(2)]) simp_all
next
  case c_signal
  then have "\<not> nobody_signals t" by (auto simp: nobody_signals_def)
  then show ?thesis using c_signal by (intro sleeps_like_frame [OF assms(2)]) (simp_all add: broadcast_def)
qed

lemma stop_sleeps:
  assumes "stop_step t u" "sleeps_like s t" "stop_inv t"
  shows "sleeps_like s u"
  using assms(1)
proof cases
  case s_exit
  then have "\<not> m_exit t" using assms(3) by (simp add: stop_inv_def)
  then have "\<not> m_exit s" "m_exit u" using assms(2) s_exit by (simp_all add: sleeps_like_def)
  then show ?thesis using assms(2) s_exit by (simp add: sleeps_like_def)
next
  case s_signal
  then have "\<not> nobody_signals t" by (simp add: nobody_signals_def)
  then show ?thesis using s_signal by (intro sleeps_like_frame [OF assms(2)]) (simp_all add: broadcast_def)
qed (rule sleeps_like_frame [OF assms(2)]; simp add: nobody_signals_def)+

lemma sleeps_on:
  assumes "wq_steps A s t" "ASpurious \<notin> A" "wq_reach B s" "nobody_signals s"
  shows "sleeps_like s t \<and> wq_reach (A \<union> B) t"
  using assms
proof (induction rule: wq_steps.induct)
  case (none s)
  have "wq_reach (A \<union> B) s" by (rule reach_mono [OF none.prems(2)]) simp
  then show ?case using none.prems by (simp add: sleeps_like_def)
next
  case (more s t a u)
  have t: "sleeps_like s t" "wq_reach (A \<union> B) t" using more by auto
  have u: "wq_reach (A \<union> B) u" using t(2) more.hyps(2,3) by (auto intro: wq_reach.step)
  have inv: "stop_inv t" using t(2) reach_invs by blast
  from more.hyps(3) have "sleeps_like s u"
  proof cases
    case worker
    have "\<not> nobody_signals t" using worker_keeps [OF worker(2)] by (simp add: nobody_signals_def)
    with worker_keeps [OF worker(2)] show ?thesis by (intro sleeps_like_frame [OF t(1)]) simp_all
  next
    case (client c)
    from enqueue_sleeps [OF this(2) t(1)] show ?thesis .
  next
    case stopper
    from stop_sleeps [OF this(2) t(1) inv] show ?thesis .
  next
    case spurious
    then show ?thesis using more.hyps(2) more.prems(1) by simp
  qed
  with u show ?case by blast
qed

lemma lost_entry_signals: "nobody_signals (lost_entry x)" "nobody_signals lost_stop"
  by (simp_all add: nobody_signals_def lost_entry_def lost_stop_def wqm_init_def)

section \<open>A worker that left the loop keeps the mutex\<close>

definition left_locked :: "wqm \<Rightarrow> bool" where
  "left_locked s \<longleftrightarrow> m_worker s = WEnd \<and> m_lock s = Some Worker"

lemma left_locked_client:
  assumes "left_locked s" "lock_inv s" "enqueue_step c s t"
  shows "left_locked t \<and> m_enqueued t = m_enqueued s"
proof -
  have "\<not> client_crit (m_client s c)"
    using assms(1,2) by (auto simp: left_locked_def lock_inv_def)
  with assms(3,1) show ?thesis
    by (induction rule: enqueue_step.induct) (auto simp: left_locked_def broadcast_def)
qed

lemma left_locked_step:
  assumes "left_locked s" "lock_inv s" "wq_step a s t"
  shows "left_locked t \<and> m_enqueued t = m_enqueued s"
  using assms(3)
proof cases
  case worker
  with assms(1) show ?thesis by (auto simp: left_locked_def elim: work_thread_step.cases)
next
  case (client c)
  from left_locked_client [OF assms(1,2) this(2)] show ?thesis .
next
  case stopper
  with assms(1) show ?thesis
    by (auto simp: left_locked_def broadcast_def elim!: stop_step.cases)
next
  case spurious
  with assms(1) show ?thesis by (auto simp: left_locked_def)
qed

section \<open>A woken worker empties the queue\<close>

text \<open>Steps of the worker alone, counted.\<close>

inductive worker_run :: "nat \<Rightarrow> wqm \<Rightarrow> wqm \<Rightarrow> bool" where
  refl: "worker_run 0 s s"
| step: "worker_run n s t \<Longrightarrow> work_thread_step t u \<Longrightarrow> worker_run (Suc n) s u"

text \<open>
  Where the worker can be \<open>n\<close> steps after it was woken in \<open>s\<close>: it has taken the first entries in order; it is out of the inner loop with the
  queue empty, and then goes to sleep; or it has ended, after an entry that failed, with the mutex free.
\<close>

definition woken_place :: "wqm \<Rightarrow> nat \<Rightarrow> wqm \<Rightarrow> bool" where
  "woken_place s n t \<longleftrightarrow> \<not> m_exit t \<and> m_done t @ m_queue t = m_done s @ m_queue s \<and>
     (let k = length (m_queue s) - length (m_queue t) in length (m_queue t) \<le> length (m_queue s) \<and>
      (case m_worker t of
         WWoken \<Rightarrow> n = 0 \<and> k = 0 \<and> m_lock t = None
       | WInner \<Rightarrow> n = Suc k
       | WTest \<Rightarrow> n = k + 2 \<and> m_queue t = []
       | WWait \<Rightarrow> n = k + 3 \<and> m_queue t = []
       | WSleep \<Rightarrow> n = k + 4 \<and> m_queue t = [] \<and> m_lock t = None
       | WEnd \<Rightarrow> n = Suc k \<and> 0 < k \<and> m_lock t = None
       | WLock \<Rightarrow> False))"

lemma woken_place_step:
  assumes "work_thread_step t u" "woken_place s n t"
  shows "woken_place s (Suc n) u"
  using assms by (induction rule: work_thread_step.induct) (auto simp: woken_place_def Let_def)

lemma woken_place_run:
  assumes "worker_run n s t" "m_worker s = WWoken" "m_lock s = None" "\<not> m_exit s"
  shows "woken_place s n t"
  using assms
proof (induction rule: worker_run.induct)
  case (refl s)
  then show ?case by (simp add: woken_place_def)
next
  case (step n s t u)
  from woken_place_step [OF step.hyps(2) step.IH [OF step.prems]] show ?case .
qed

lemma woken_place_steps:
  assumes "woken_place s n t" "m_worker t \<notin> {WSleep, WEnd}"
  shows "\<exists>u. work_thread_step t u"
proof (cases "m_worker t")
  case WWoken
  then show ?thesis using assms(1) by (auto simp: woken_place_def Let_def intro: w_woken)
next
  case WInner
  show ?thesis
  proof (cases "m_queue t")
    case Nil
    then show ?thesis using w_inner_end [OF WInner] by blast
  next
    case (Cons x xs)
    have "\<not> m_exit t" using assms(1) by (simp add: woken_place_def)
    from w_item [OF WInner Cons this] show ?thesis by blast
  qed
next
  case WTest
  have "\<not> m_exit t" using assms(1) by (simp add: woken_place_def)
  from w_stay [OF WTest this] show ?thesis by blast
qed (use assms in \<open>auto simp: woken_place_def Let_def intro: w_wait\<close>)

section \<open>Properties\<close>

text \<open>
  C16: Order and mutual exclusion under every interleaving. In every state reached by steps of
  any set of threads, the entries enqueued are those the worker took, then those dropped while
  stopping, then those in the queue, in this order; no two threads are in a critical section at
  once; and entries are dropped only after the worker has returned.
\<close>
theorem queue_threads_invariant:
  assumes "wq_reach A s"
  shows "m_enqueued s = m_done s @ m_dropped s @ m_queue s \<and>
     (client_crit (m_client s c) \<longrightarrow> \<not> worker_crit (m_worker s) \<and> (\<forall>d. client_crit (m_client s d) \<longrightarrow> d = c)) \<and>
     (m_dropped s \<noteq> [] \<longrightarrow> m_worker s = WEnd \<and> m_exit s)"
proof -
  have inv: "fifo_inv s" "stop_inv s" "lock_inv s" using reach_invs [OF assms] by auto
  have "\<not> worker_crit (m_worker s) \<and> (\<forall>d. client_crit (m_client s d) \<longrightarrow> d = c)" if "client_crit (m_client s c)"
    using inv(3) that unfolding lock_inv_def by (metis option.inject owner.distinct(1) owner.inject)
  then show ?thesis using inv(1,2) unfolding fifo_inv_def stop_inv_def by auto
qed

theorem queue_threads_invariant_witness: "m_queue (lost_entry 4) = m_enqueued (lost_entry 4)"
  using queue_threads_invariant [OF reach_lost_entry [of 0 UNIV 4]] by (simp add: lost_entry_def wqm_init_def)

text \<open>
  C39: Lost wake-ups. With one client and the worker there is a reachable state in which an entry is queued, the mutex is free, the client
  has returned and the worker sleeps; from then on, through all that the worker, any clients and the stopping thread may do without a
  spurious wake-up, as long as nobody has enqueued another entry or set \<open>do_exit\<close>, the worker sleeps and the entry stays queued. With the
  stopping thread there is a reachable state in which the worker has been told to exit and sleeps, and the stopping thread waits for
  it: on every continuation without a spurious wake-up in which nobody enqueues an entry, both wait for ever and neither has a step.
\<close>
theorem wake_ups_get_lost:
  "(\<exists>s. wq_reach {AClient c, AWorker} s \<and> m_queue s = [x] \<and> m_lock s = None \<and> m_client s c = CIdle \<and> m_worker s = WSleep \<and>
      (\<forall>t. wq_steps (- {ASpurious}) s t \<longrightarrow> m_enqueued t = m_enqueued s \<longrightarrow> \<not> m_exit t \<longrightarrow>
         m_worker t = WSleep \<and> m_queue t = [x] \<and> blocked AWorker t)) \<and>
   (\<exists>s. wq_reach {AStop, AWorker} s \<and> m_exit s \<and> m_stop s = SJoin \<and> m_worker s = WSleep \<and> m_enqueued s = [] \<and>
      (\<forall>t. wq_steps (- {ASpurious}) s t \<longrightarrow> m_enqueued t = [] \<longrightarrow>
         m_worker t = WSleep \<and> m_stop t = SJoin \<and> blocked AWorker t \<and> blocked AStop t))"
proof
  have l: "m_queue (lost_entry x) = [x] \<and> m_lock (lost_entry x) = None \<and> m_client (lost_entry x) c = CIdle \<and> m_worker (lost_entry x) = WSleep \<and>
      \<not> m_exit (lost_entry x)" by (simp add: lost_entry_def wqm_init_def)
  have r: "wq_reach {AClient c, AWorker} (lost_entry x)" by (rule reach_lost_entry [of c]) simp_all
  have "m_worker t = WSleep \<and> m_queue t = [x] \<and> blocked AWorker t"
    if "wq_steps (- {ASpurious}) (lost_entry x) t" "m_enqueued t = m_enqueued (lost_entry x)" "\<not> m_exit t" for t
    using sleeps_on [OF that(1) _ r lost_entry_signals(1)] that(2,3) l asleep_blocked by (auto simp: sleeps_like_def nobody_signals_def)
  with l r show "\<exists>s. wq_reach {AClient c, AWorker} s \<and> m_queue s = [x] \<and> m_lock s = None \<and> m_client s c = CIdle \<and> m_worker s = WSleep \<and>
      (\<forall>t. wq_steps (- {ASpurious}) s t \<longrightarrow> m_enqueued t = m_enqueued s \<longrightarrow> \<not> m_exit t \<longrightarrow>
         m_worker t = WSleep \<and> m_queue t = [x] \<and> blocked AWorker t)" by blast
next
  have l: "m_exit lost_stop \<and> m_stop lost_stop = SJoin \<and> m_worker lost_stop = WSleep \<and> m_enqueued lost_stop = []"
    by (simp add: lost_stop_def wqm_init_def)
  have r: "wq_reach {AStop, AWorker} lost_stop" by (rule reach_lost_stop) simp_all
  have "m_worker t = WSleep \<and> m_stop t = SJoin \<and> blocked AWorker t \<and> blocked AStop t"
    if "wq_steps (- {ASpurious}) lost_stop t" "m_enqueued t = []" for t
    using sleeps_on [OF that(1) _ r lost_entry_signals(2)] that(2) l asleep_blocked join_blocked
    by (auto simp: sleeps_like_def nobody_signals_def)
  with l r show "\<exists>s. wq_reach {AStop, AWorker} s \<and> m_exit s \<and> m_stop s = SJoin \<and> m_worker s = WSleep \<and> m_enqueued s = [] \<and>
      (\<forall>t. wq_steps (- {ASpurious}) s t \<longrightarrow> m_enqueued t = [] \<longrightarrow>
         m_worker t = WSleep \<and> m_stop t = SJoin \<and> blocked AWorker t \<and> blocked AStop t)" by blast
qed

theorem wake_ups_get_lost_witness:
  "\<exists>s t. wq_reach {AClient 2, AWorker} s \<and> wq_step (AClient 2) s t \<and> m_client t 2 = CHold 6 \<and> m_worker t = WSleep \<and> m_queue t = [5]"
proof -
  obtain s where s: "wq_reach {AClient 2, AWorker} s" "m_queue s = [5]" "m_lock s = None" "m_client s 2 = CIdle"
     "\<forall>t. wq_steps (- {ASpurious}) s t \<longrightarrow> m_enqueued t = m_enqueued s \<longrightarrow> \<not> m_exit t \<longrightarrow>
         m_worker t = WSleep \<and> m_queue t = [5] \<and> blocked AWorker t"
    using wake_ups_get_lost [of 2 5] by blast
  let ?t = "s\<lparr>m_lock := Some (Client 2), m_client := (m_client s)(2 := CHold 6)\<rparr>"
  have t: "wq_step (AClient 2) s ?t" by (rule wq_step.client [OF c_lock [OF s(4,3)]])
  then have "wq_steps (- {ASpurious}) s ?t" by (intro wq_steps.more [OF wq_steps.none]) simp_all
  moreover have "\<not> m_exit s"
  proof -
    have "wq_reach A s \<Longrightarrow> AStop \<notin> A \<Longrightarrow> m_stop s = SIdle" for A
      by (induction rule: wq_reach.induct)
        (auto simp: wqm_init_def broadcast_def elim!: wq_step.cases work_thread_step.cases enqueue_step.cases)
    from this [OF s(1)] show ?thesis using reach_invs [OF s(1)] by (simp add: stop_inv_def)
  qed
  ultimately have "m_worker ?t = WSleep \<and> m_queue ?t = [5]" using s(5) by fastforce
  then show ?thesis using s(1) t by (intro exI [of _ s] exI [of _ ?t]) simp
qed

lemma left_locked_steps:
  "wq_steps A s t \<Longrightarrow> wq_reach A s \<Longrightarrow> left_locked s \<Longrightarrow> left_locked t \<and> m_enqueued t = m_enqueued s"
proof (induction rule: wq_steps.induct)
  case (more s t a u)
  have "lock_inv t" using reach_steps [OF more.hyps(1) more.prems(1)] reach_invs by blast
  with left_locked_step [OF _ this more.hyps(3)] more.IH more.prems show ?case by simp
qed simp

text \<open>
  A worker that has left its outer loop with the mutex held keeps it for good: from such a
  reachable state on, whatever the threads do, no entry is ever enqueued again, and a client
  before its lock has no step.
\<close>
theorem returned_worker_keeps_mutex:
  assumes "wq_reach A s" "left_locked s" "wq_steps A s t"
  shows "m_lock t = Some Worker \<and> m_worker t = WEnd \<and> m_enqueued t = m_enqueued s \<and>
     (m_client t c = CIdle \<longrightarrow> blocked (AClient c) t)"
  using left_locked_steps [OF assms(3,1,2)]
  by (auto simp: left_locked_def blocked_def elim!: client_stepE enqueue_step.cases)

definition ended_locked :: wqm where
  "ended_locked = wqm_init\<lparr>m_exit := True, m_stop := SSignal, m_lock := Some Worker, m_worker := WEnd\<rparr>"

lemma reach_ended_locked: "wq_reach UNIV ended_locked"
proof -
  let ?s1 = "wqm_init\<lparr>m_exit := True, m_stop := SSignal\<rparr>"
  let ?s2 = "?s1\<lparr>m_lock := Some Worker, m_worker := WTest\<rparr>"
  have "wq_reach UNIV ?s1" by (rule reach_stop [OF wq_reach.start _ s_exit]) (simp_all add: wqm_init_def)
  moreover have "work_thread_step ?s1 ?s2" by (rule w_lock) (simp_all add: wqm_init_def)
  moreover have "work_thread_step ?s2 (?s2\<lparr>m_worker := WEnd\<rparr>)" by (rule w_leave) simp_all
  ultimately have "wq_reach UNIV (?s2\<lparr>m_worker := WEnd\<rparr>)" by (metis UNIV_I reach_worker)
  then show ?thesis by (simp add: ended_locked_def)
qed

theorem returned_worker_keeps_mutex_witness: "blocked (AClient 3) ended_locked"
  using returned_worker_keeps_mutex [OF reach_ended_locked _ wq_steps.none, of 3]
  by (simp add: left_locked_def ended_locked_def wqm_init_def)

text \<open>
  C40: A worker that has been woken empties the queue. Take any run of \<open>n\<close> steps of the worker from a state in which it waits for the
  free mutex after its wait and is not told to exit. The entries it has taken and those still queued are those there were, in
  order. It is asleep again exactly after \<open>length + 4\<close> steps, with the queue empty, all entries taken and the mutex free; no run is longer. It has
  ended only after an entry that failed, the last one taken, with the mutex free. Anywhere else it has another step; so every
  run goes on until one of the two.
\<close>
theorem woken_worker_drains:
  assumes "worker_run n s t" "m_worker s = WWoken" "m_lock s = None" "\<not> m_exit s"
  shows "m_done t @ m_queue t = m_done s @ m_queue s \<and> n \<le> length (m_queue s) + 4 \<and>
     (m_worker t = WSleep \<longleftrightarrow> n = length (m_queue s) + 4) \<and>
     (m_worker t = WSleep \<longrightarrow> m_queue t = [] \<and> m_done t = m_done s @ m_queue s \<and> m_lock t = None) \<and>
     (m_worker t = WEnd \<longrightarrow> m_lock t = None \<and> 2 \<le> n \<and> m_done t = m_done s @ take (n - 1) (m_queue s)) \<and>
     (m_worker t \<notin> {WSleep, WEnd} \<longrightarrow> (\<exists>u. work_thread_step t u))"
proof -
  note p = woken_place_run [OF assms]
  have o: "m_done t @ m_queue t = m_done s @ m_queue s" using p by (simp add: woken_place_def)
  have n: "n \<le> length (m_queue s) + 4 \<and> (m_worker t = WSleep \<longleftrightarrow> n = length (m_queue s) + 4)"
    using p by (cases "m_worker t") (auto simp: woken_place_def Let_def)
  have w: "m_worker t = WSleep \<longrightarrow> m_queue t = [] \<and> m_lock t = None"
    using p by (auto simp: woken_place_def Let_def)
  have e: "m_worker t = WEnd \<longrightarrow> m_lock t = None \<and> 2 \<le> n \<and> m_done t = m_done s @ take (n - 1) (m_queue s)"
  proof
    assume "m_worker t = WEnd"
    then have k: "m_lock t = None" "n = Suc (length (m_queue s) - length (m_queue t))" "0 < length (m_queue s) - length (m_queue t)"
        "length (m_queue t) \<le> length (m_queue s)" using p by (simp_all add: woken_place_def Let_def)
    have "take (length (m_done s @ m_queue s) - length (m_queue t)) (m_done s @ m_queue s) = m_done t"
      unfolding o [symmetric] by simp
    then show "m_lock t = None \<and> 2 \<le> n \<and> m_done t = m_done s @ take (n - 1) (m_queue s)" using k by simp
  qed
  show ?thesis using o n w e woken_place_steps [OF p] by auto
qed

theorem woken_worker_drains_witness:
  "\<exists>t. worker_run 6 (wqm_init\<lparr>m_queue := [4, 5], m_worker := WWoken\<rparr>) t \<and> m_worker t = WSleep \<and> m_queue t = [] \<and> m_done t = [4, 5]"
proof -
  let ?s = "wqm_init\<lparr>m_queue := [4, 5], m_worker := WWoken\<rparr>"
  let ?s1 = "?s\<lparr>m_lock := Some Worker, m_worker := WInner\<rparr>"
  let ?s2 = "?s1\<lparr>m_queue := [5], m_done := m_done ?s1 @ [4]\<rparr>"
  let ?s3 = "?s2\<lparr>m_queue := [], m_done := m_done ?s2 @ [5]\<rparr>"
  let ?s4 = "?s3\<lparr>m_worker := WTest\<rparr>"
  let ?s5 = "?s4\<lparr>m_worker := WWait\<rparr>"
  let ?s6 = "?s5\<lparr>m_lock := None, m_worker := WSleep\<rparr>"
  have "worker_run (Suc 0) ?s ?s1" by (rule step [OF refl w_woken]) (simp_all add: wqm_init_def)
  then have "worker_run (Suc (Suc 0)) ?s ?s2" by (rule step [OF _ w_item]) (simp_all add: wqm_init_def)
  then have "worker_run (Suc (Suc (Suc 0))) ?s ?s3" by (rule step [OF _ w_item]) (simp_all add: wqm_init_def)
  then have "worker_run (Suc (Suc (Suc (Suc 0)))) ?s ?s4" by (rule step [OF _ w_inner_end]) simp_all
  then have "worker_run (Suc (Suc (Suc (Suc (Suc 0))))) ?s ?s5" by (rule step [OF _ w_stay]) (simp_all add: wqm_init_def)
  then have "worker_run (Suc (Suc (Suc (Suc (Suc (Suc 0)))))) ?s ?s6" by (rule step [OF _ w_wait]) simp
  then have r: "worker_run 6 ?s ?s6" by (simp add: eval_nat_numeral)
  from woken_worker_drains [OF r] have "m_queue ?s6 = [] \<and> m_done ?s6 = [4, 5]" by (simp add: wqm_init_def)
  with r show ?thesis by (intro exI [of _ ?s6]) simp
qed

end
