(* ===== verification/Workqueue.thy ===== *)
theory Workqueue
  imports LList
begin

text \<open>
  The work queues of \<open>workqueue.h\<close> and \<open>workqueue.c\<close>: one queue and one worker thread
  for each NUMA node the code counts. This theory has the code between two scheduling
  points as state transformers: initialisation, enqueueing, the worker's inner loop, the
  processing of one entry, stopping. \<open>WorkqueueThreads\<close> has the interleaving of the worker
  with the rest of the program.

  A callback gets the \<open>priv\<close> pointer of its entry and the rest of the program's state
  (the \<open>world\<close>); as every C function it may fail to return (\<open>None\<close>). The queue of
  \<open>workqueues[i]\<close> is the list with address \<open>i\<close>; the addresses of entries are those of
  the list entries in them. Results of \<open>calloc\<close>, of libnuma and of \<open>pthread_create\<close>
  are arguments.
\<close>

section \<open>State\<close>

record ('p, 'w) workqueue_entry =
  wq_cb :: "'p \<Rightarrow> 'w \<Rightarrow> (c_int \<times> 'w) option"
  wq_err :: "(c_int \<Rightarrow> 'p \<Rightarrow> 'w \<Rightarrow> (c_int \<times> 'w) option) option"
  wq_cleanup :: "(c_int \<Rightarrow> 'p \<Rightarrow> 'w \<Rightarrow> 'w option) option"
  wq_priv :: 'p

record workqueue =
  wq_node :: u32
  wq_do_exit :: bool
  wq_lock :: bool

text \<open>The pointer \<open>workqueues\<close>: NULL, dangling after \<open>free\<close>, or the array.\<close>

datatype wq_array = WNull | WFreed | WLive "workqueue list"

record ('p, 'w) wq_state =
  workqueues :: wq_array
  num_workqueues :: c_int
  num_workqueue_items :: c_int
  wheap :: lheap
  wents :: "eaddr \<rightharpoonup> ('p, 'w) workqueue_entry"
  world :: 'w

fun get_wq :: "wq_array \<Rightarrow> nat \<Rightarrow> workqueue option" where
  "get_wq (WLive ws) i = (if i < length ws then Some (ws ! i) else None)"
| "get_wq _ i = None"

fun set_wq :: "wq_array \<Rightarrow> nat \<Rightarrow> workqueue \<Rightarrow> wq_array" where
  "set_wq (WLive ws) i W = WLive (ws[i := W])"
| "set_wq a i W = a"

definition wq_mutex_lock :: "nat \<Rightarrow> ('p, 'w) wq_state \<Rightarrow> ('p, 'w) wq_state option" where
  "wq_mutex_lock i st = do {
     W \<leftarrow> get_wq (workqueues st) i;
     _ \<leftarrow> guard (\<not> wq_lock W);
     Some (st\<lparr>workqueues := set_wq (workqueues st) i (W\<lparr>wq_lock := True\<rparr>)\<rparr>) }"

definition wq_mutex_unlock :: "nat \<Rightarrow> ('p, 'w) wq_state \<Rightarrow> ('p, 'w) wq_state option" where
  "wq_mutex_unlock i st = do {
     W \<leftarrow> get_wq (workqueues st) i;
     Some (st\<lparr>workqueues := set_wq (workqueues st) i (W\<lparr>wq_lock := False\<rparr>)\<rparr>) }"

definition free_entry :: "eaddr \<Rightarrow> ('p, 'w) wq_state \<Rightarrow> ('p, 'w) wq_state option" where
  "free_entry e st = do {
     _ \<leftarrow> guard (e \<in> dom (wents st));
     Some (st\<lparr>wents := (wents st)(e := None),
              wheap := (wheap st)\<lparr>entries := (entries (wheap st))(e := None)\<rparr>\<rparr>) }"

definition run_cleanup ::
    "(c_int \<Rightarrow> 'p \<Rightarrow> 'w \<Rightarrow> 'w option) option \<Rightarrow> c_int \<Rightarrow> 'p \<Rightarrow> 'w \<Rightarrow> 'w option" where
  "run_cleanup c err p w = (case c of None \<Rightarrow> Some w | Some f \<Rightarrow> f err p w)"

section \<open>The worker\<close>

text \<open>
  One iteration of the inner loop. The result says whether the loop goes on
  (\<open>False\<close>: \<open>goto fail\<close>, the thread ends after unlocking).
\<close>

definition work_item :: "nat \<Rightarrow> ('p, 'w) wq_state \<Rightarrow> (bool \<times> ('p, 'w) wq_state) option" where
  "work_item i st = do {
     r \<leftarrow> llist_get_entry (wheap st) i 0;
     e \<leftarrow> r;
     E \<leftarrow> wents st e;
     h \<leftarrow> llist_remove (wheap st) e;
     let st = st\<lparr>wheap := h, num_workqueue_items := num_workqueue_items st - 1\<rparr>;
     (err, w) \<leftarrow> wq_cb E (wq_priv E) (world st);
     if err \<noteq> 0 then
       (case wq_err E of
          None \<Rightarrow> do {
            w \<leftarrow> run_cleanup (wq_cleanup E) err (wq_priv E) w;
            st \<leftarrow> free_entry e (st\<lparr>world := w\<rparr>);
            Some (True, st) }
        | Some err_cb \<Rightarrow> do {
            (r, w) \<leftarrow> err_cb err (wq_priv E) w;
            if r \<noteq> 0 then do {
              w \<leftarrow> run_cleanup (wq_cleanup E) err (wq_priv E) w;
              st \<leftarrow> wq_mutex_unlock i (st\<lparr>world := w\<rparr>);
              st \<leftarrow> free_entry e st;
              Some (False, st) }
            else do {
              st \<leftarrow> free_entry e (st\<lparr>world := w\<rparr>);
              Some (True, st) } })
     else do {
       st \<leftarrow> free_entry e (st\<lparr>world := w\<rparr>);
       Some (True, st) } }"

partial_function (option) work_drain ::
    "nat \<Rightarrow> ('p, 'w) wq_state \<Rightarrow> (bool \<times> ('p, 'w) wq_state) option" where
  "work_drain i st =
     Option.bind (get_wq (workqueues st) i) (\<lambda>W.
     Option.bind (llist_is_empty (wheap st) i) (\<lambda>empty.
       if empty \<or> wq_do_exit W then Some (True, st)
       else Option.bind (work_item i st) (\<lambda>(cont, st').
              if cont then work_drain i st' else Some (False, st'))))"

section \<open>Stopping\<close>

partial_function (option) stop_drain :: "nat \<Rightarrow> ('p, 'w) wq_state \<Rightarrow> ('p, 'w) wq_state option" where
  "stop_drain i st =
     Option.bind (llist_is_empty (wheap st) i) (\<lambda>empty.
       if empty then Some st
       else
         Option.bind (llist_get_entry (wheap st) i 0) (\<lambda>r.
         Option.bind r (\<lambda>e.
         Option.bind (wents st e) (\<lambda>E.
         Option.bind (llist_remove (wheap st) e) (\<lambda>h.
         Option.bind (run_cleanup (wq_cleanup E) 0 (wq_priv E) (world st)) (\<lambda>w.
         Option.bind (free_entry e (st\<lparr>wheap := h, world := w\<rparr>)) (\<lambda>st'.
           stop_drain i st')))))))"

text \<open>
  \<open>join i\<close> stands for what happens from the call of \<open>pthread_cond_broadcast\<close> on until \<open>pthread_join\<close> has returned for
  the worker of queue \<open>i\<close>: the worker and other threads run on the state; \<open>None\<close> when the worker never ends, so that
  the join waits for ever. \<open>WorkqueueThreads\<close> has the steps behind it, and shows that both happen.
\<close>

type_synonym ('p, 'w) wq_join = "nat \<Rightarrow> ('p, 'w) wq_state \<Rightarrow> ('p, 'w) wq_state option"

definition stop_workqueue :: "('p, 'w) wq_join \<Rightarrow> nat \<Rightarrow> ('p, 'w) wq_state \<Rightarrow> ('p, 'w) wq_state option" where
  "stop_workqueue join i st = do {
     W \<leftarrow> get_wq (workqueues st) i;
     st \<leftarrow> join i (st\<lparr>workqueues := set_wq (workqueues st) i (W\<lparr>wq_do_exit := True\<rparr>)\<rparr>);
     stop_drain i st }"

fun free_workqueues :: "('p, 'w) wq_state \<Rightarrow> ('p, 'w) wq_state option" where
  "free_workqueues st =
     (case workqueues st of WNull \<Rightarrow> Some st | WFreed \<Rightarrow> None
      | WLive _ \<Rightarrow> Some (st\<lparr>workqueues := WFreed\<rparr>))"

text \<open>\<open>while (i-- > 0) stop_workqueue (&workqueues[i])\<close>.\<close>

fun stop_down :: "('p, 'w) wq_join \<Rightarrow> nat \<Rightarrow> ('p, 'w) wq_state \<Rightarrow> ('p, 'w) wq_state option" where
  "stop_down join 0 st = Some st"
| "stop_down join (Suc i) st = do { st \<leftarrow> stop_workqueue join i st; stop_down join i st }"

text \<open>\<open>for (i = 0; i < n; i++) stop_workqueue (&workqueues[i])\<close>, the first \<open>k\<close> iterations.\<close>

fun stop_up :: "('p, 'w) wq_join \<Rightarrow> nat \<Rightarrow> ('p, 'w) wq_state \<Rightarrow> ('p, 'w) wq_state option" where
  "stop_up join 0 st = Some st"
| "stop_up join (Suc k) st = do { st \<leftarrow> stop_up join k st; stop_workqueue join k st }"

definition workqueue_deinit :: "('p, 'w) wq_join \<Rightarrow> ('p, 'w) wq_state \<Rightarrow> ('p, 'w) wq_state option" where
  "workqueue_deinit join st = do {
     st \<leftarrow> stop_up join (nat (num_workqueues st)) st;
     free_workqueues (st\<lparr>num_workqueues := 0\<rparr>) }"

section \<open>Initialisation and enqueueing\<close>

text \<open>
  The loop over \<open>i\<close> from \<open>i\<close> on, \<open>k\<close> iterations left. \<open>create i\<close> is what
  \<open>pthread_create\<close> returns for queue \<open>i\<close>.
\<close>

fun init_loop ::
    "('p, 'w) wq_join \<Rightarrow> (nat \<Rightarrow> c_int) \<Rightarrow> nat \<Rightarrow> nat \<Rightarrow> ('p, 'w) wq_state \<Rightarrow> (c_int \<times> ('p, 'w) wq_state) option" where
  "init_loop join create i 0 st = Some (0, st)"
| "init_loop join create i (Suc k) st = do {
     W \<leftarrow> get_wq (workqueues st) i;
     let st = st\<lparr>workqueues := set_wq (workqueues st) i (W\<lparr>wq_node := of_nat i, wq_lock := False\<rparr>)\<rparr>;
     h \<leftarrow> llist_init (wheap st) i;
     let st = st\<lparr>wheap := h\<rparr>;
     let err = - create i;
     if err \<noteq> 0 then do {
       st \<leftarrow> stop_down join i st;
       st \<leftarrow> free_workqueues st;
       Some (err, st) }
     else init_loop join create (Suc i) k st }"

text \<open>
  \<open>numa_available ()\<close> is \<open>avail\<close>, \<open>numa_max_node ()\<close> is \<open>max_node\<close>; \<open>ok\<close> says
  whether \<open>calloc\<close> succeeds. A negative count is a \<open>size_t\<close> near \<open>2 ^ 64\<close>, which
  \<open>calloc\<close> refuses.
\<close>

definition wq_zero :: workqueue where
  "wq_zero = \<lparr>wq_node = 0, wq_do_exit = False, wq_lock = False\<rparr>"

definition workqueue_init ::
    "('p, 'w) wq_join \<Rightarrow> c_int \<Rightarrow> c_int \<Rightarrow> bool \<Rightarrow> (nat \<Rightarrow> c_int) \<Rightarrow> ('p, 'w) wq_state \<Rightarrow> (c_int \<times> ('p, 'w) wq_state) option" where
  "workqueue_init join avail max_node ok create st = do {
     let n = (if avail \<noteq> 0 then max_node else 1);
     let st = st\<lparr>num_workqueues := n\<rparr>;
     if \<not> ok \<or> n < 0 then Some (- ENOMEM, st\<lparr>workqueues := WNull\<rparr>)
     else do {
       let zero = \<lparr>l_head = None, l_tail = None, l_lock = False\<rparr>;
       let h = wheap st;
       let h = h\<lparr>llists := (\<lambda>l. if l < nat n then Some zero else llists h l)\<rparr>;
       init_loop join create 0 (nat n)
         (st\<lparr>workqueues := WLive (replicate (nat n) wq_zero), wheap := h\<rparr>) } }"

text \<open>
  The comparison \<open>numa_node >= num_workqueues\<close> is done in \<open>unsigned int\<close>. \<open>m\<close> is
  the result of \<open>calloc\<close>.
\<close>

definition workqueue_enqueue ::
    "u32 \<Rightarrow> ('p, 'w) workqueue_entry \<Rightarrow> eaddr option \<Rightarrow> ('p, 'w) wq_state \<Rightarrow>
     (c_int \<times> ('p, 'w) wq_state) option" where
  "workqueue_enqueue numa_node E m st =
     (if numa_node \<ge> word_of_int (num_workqueues st) then Some (- EINVAL, st)
      else case m of None \<Rightarrow> Some (- ENOMEM, st)
      | Some e \<Rightarrow> do {
          let i = unat numa_node;
          let st = st\<lparr>wents := (wents st)(e \<mapsto> E),
                      wheap := (wheap st)\<lparr>entries := (entries (wheap st))(e \<mapsto> LLIST_ENTRY_INIT)\<rparr>\<rparr>;
          st \<leftarrow> wq_mutex_lock i st;
          h \<leftarrow> llist_append (wheap st) i e;
          let st = st\<lparr>wheap := h, num_workqueue_items := num_workqueue_items st + 1\<rparr>;
          st \<leftarrow> wq_mutex_unlock i st;
          Some (0, st) })"

section \<open>What the queues hold\<close>

text \<open>
  \<open>wq_rep st ws Q\<close>: the array is live, its length is the count, and queue \<open>i\<close> links the
  entries \<open>Q i\<close>, each of them an allocated work queue entry.
\<close>

definition wq_rep :: "('p, 'w) wq_state \<Rightarrow> workqueue list \<Rightarrow> (nat \<Rightarrow> eaddr list) \<Rightarrow> bool" where
  "wq_rep st ws Q \<longleftrightarrow>
     workqueues st = WLive ws \<and> num_workqueues st = int (length ws) \<and> length ws < 2 ^ 31 \<and>
     (\<forall>i \<in> {..<length ws}. llist_rep (wheap st) i (Q i)) \<and>
     (\<forall>i \<in> {..<length ws}. \<forall>e \<in> set (Q i). e \<in> dom (wents st))"

text \<open>The work of the entries at \<open>es\<close>, in order.\<close>

definition works :: "('p, 'w) wq_state \<Rightarrow> eaddr list \<Rightarrow> ('p, 'w) workqueue_entry list" where
  "works st es = map (\<lambda>e. the (wents st e)) es"

lemma wq_rep_disjoint:
  "wq_rep st ws Q \<Longrightarrow> i < length ws \<Longrightarrow> j < length ws \<Longrightarrow> i \<noteq> j \<Longrightarrow> set (Q i) \<inter> set (Q j) = {}"
  unfolding wq_rep_def using rep_disjoint by (metis lessThan_iff)

lemma rep_entries_cong:
  assumes "llist_rep h l es" "e \<notin> set es"
  shows "llist_rep (h\<lparr>entries := (entries h)(e := v)\<rparr>) l es"
  using assms by (simp add: llist_rep_def)

lemma free_entry_rep:
  assumes rep: "wq_rep st ws Q" and e: "e \<in> dom (wents st)" "\<forall>i < length ws. e \<notin> set (Q i)"
  shows "\<exists>st'. free_entry e st = Some st' \<and> wq_rep st' ws Q \<and> world st' = world st \<and>
           (\<forall>x. x \<noteq> e \<longrightarrow> wents st' x = wents st x) \<and>
           num_workqueue_items st' = num_workqueue_items st"
  using rep e by (auto simp: free_entry_def wq_rep_def intro!: rep_entries_cong split: if_splits)

text \<open>Taking the first entry off queue \<open>i\<close>.\<close>

lemma wq_pop:
  assumes rep: "wq_rep st ws Q" and i: "i < length ws" and Q: "Q i = e # es"
  obtains h E where "llist_is_empty (wheap st) i = Some False"
    "llist_get_entry (wheap st) i 0 = Some (Some e)" "llist_remove (wheap st) e = Some h"
    "wents st e = Some E" "\<And>n w. wq_rep (st\<lparr>wheap := h, num_workqueue_items := n, world := w\<rparr>) ws (Q(i := es))"
    "\<forall>j < length ws. e \<notin> set ((Q(i := es)) j)"
proof -
  have fam: "\<forall>l \<in> {..<length ws}. llist_rep (wheap st) l (Q l)" using rep by (simp add: wq_rep_def)
  have "llist_rep (wheap st) i (Q i)" using rep i by (simp add: wq_rep_def)
  then have r: "llist_rep (wheap st) i (e # es)" using Q by simp
  obtain h where h: "llist_is_empty (wheap st) i = Some False"
    "llist_get_entry (wheap st) i 0 = Some (Some e)" "llist_remove (wheap st) e = Some h" "e \<notin> set es"
    using lq.pop_first [OF r] by blast
  have "\<forall>k \<in> {..<length ws}. llist_rep h k ((Q(i := es)) k)"
    using lq.remove_family [OF fam _ Q] i h(3) by auto
  then have "wq_rep (st\<lparr>wheap := h, num_workqueue_items := n, world := w\<rparr>) ws (Q(i := es))" for n w
    using rep Q i by (auto simp: wq_rep_def)
  moreover have "\<forall>x \<in> set (Q i). x \<in> dom (wents st)" using rep i by (simp add: wq_rep_def)
  then obtain E where "wents st e = Some E" using Q by auto
  moreover have "\<forall>j < length ws. e \<notin> set ((Q(i := es)) j)"
  proof (intro allI impI)
    fix j assume j: "j < length ws"
    show "e \<notin> set ((Q(i := es)) j)"
      using wq_rep_disjoint [OF rep i j] Q h(4) by (cases "j = i") auto
  qed
  ultimately show thesis using h that by blast
qed

section \<open>Enqueueing\<close>

lemma node_in_range:
  fixes node :: u32
  assumes "wq_rep st ws Q"
  shows "node \<ge> word_of_int (num_workqueues st) \<longleftrightarrow> length ws \<le> unat node"
proof -
  have "num_workqueues st = int (length ws)" "length ws < 2 ^ 32" using assms by (auto simp: wq_rep_def)
  then show ?thesis by (simp add: word_le_nat_alt unat_of_nat)
qed

lemma enqueue_einval:
  assumes "wq_rep st ws Q" "length ws \<le> unat node"
  shows "workqueue_enqueue node E m st = Some (- EINVAL, st)"
  using assms node_in_range [OF assms(1), of node] by (simp add: workqueue_enqueue_def)

lemma enqueue_enomem:
  assumes "wq_rep st ws Q" "unat node < length ws"
  shows "workqueue_enqueue node E None st = Some (- ENOMEM, st)"
  using assms node_in_range [OF assms(1), of node] by (simp add: workqueue_enqueue_def)

lemma wq_set_rep:
  "wq_rep st ws Q \<Longrightarrow> i < length ws \<Longrightarrow>
   wq_rep (st\<lparr>workqueues := set_wq (workqueues st) i W\<rparr>) (ws[i := W]) Q"
  by (auto simp: wq_rep_def)

text \<open>
  The entry goes to the end of its queue, the other queues and the entries in them stay
  as they are, and the mutex is free again.
\<close>

lemma enqueue_rep:
  assumes rep: "wq_rep st ws Q" and i: "unat node < length ws" and free: "\<not> wq_lock (ws ! unat node)"
    and e: "e \<notin> dom (wents st)" "e \<notin> dom (entries (wheap st))"
  shows "\<exists>st'. workqueue_enqueue node E (Some e) st = Some (0, st') \<and>
           wq_rep st' ws (Q(unat node := Q (unat node) @ [e])) \<and>
           wents st' = (wents st)(e \<mapsto> E) \<and> world st' = world st \<and>
           num_workqueue_items st' = num_workqueue_items st + 1"
proof -
  let ?i = "unat node" and ?h = "(wheap st)\<lparr>entries := (entries (wheap st))(e \<mapsto> LLIST_ENTRY_INIT)\<rparr>"
  have lv: "\<forall>l \<in> {..<length ws}. e \<notin> set (Q l)"
    using rep e(1) by (fastforce simp: wq_rep_def)
  have "\<forall>l \<in> {..<length ws}. llist_rep ?h l (Q l)"
    using rep lv by (auto simp: wq_rep_def intro!: rep_entries_cong)
  from lq.append_family [OF this, of ?i e] i lv obtain h where
    h: "llist_append ?h ?i e = Some h" "\<forall>k \<in> {..<length ws}. llist_rep h k ((Q(?i := Q ?i @ [e])) k)"
    by (auto simp: entry_live_def)
  have ws: "workqueues st = WLive ws" using rep by (simp add: wq_rep_def)
  have lock: "ws[?i := (ws ! ?i)\<lparr>wq_lock := False\<rparr>] = ws" using free i by (simp add: list_eq_iff_nth_eq nth_list_update)
  have "workqueue_enqueue node E (Some e) st =
      Some (0, st\<lparr>wents := (wents st)(e \<mapsto> E), wheap := h,
                  num_workqueue_items := num_workqueue_items st + 1\<rparr>)"
    using node_in_range [OF rep, of node] i ws free h(1) lock
    by (auto simp: workqueue_enqueue_def wq_mutex_lock_def wq_mutex_unlock_def Let_def
          intro!: wq_state.equality)
  moreover have "wq_rep (st\<lparr>wents := (wents st)(e \<mapsto> E), wheap := h,
      num_workqueue_items := num_workqueue_items st + 1\<rparr>) ws (Q(?i := Q ?i @ [e]))"
    using rep h(2) i by (auto simp: wq_rep_def)
  ultimately show ?thesis by auto
qed

lemma enqueue_entries_heap:
  assumes "workqueue_enqueue node E (Some e) st = Some (0, st')" "wq_rep st ws Q" "unat node < length ws"
    "e \<notin> dom (wents st)"
  shows "dom (entries (wheap st')) = insert e (dom (entries (wheap st)))"
proof -
  let ?h = "(wheap st)\<lparr>entries := (entries (wheap st))(e \<mapsto> LLIST_ENTRY_INIT)\<rparr>"
  obtain h where h: "llist_append ?h (unat node) e = Some h" "wheap st' = h"
    using assms(1) node_in_range [OF assms(2), of node] assms(3)
    by (auto simp: workqueue_enqueue_def Let_def wq_mutex_lock_def wq_mutex_unlock_def
          bind_eq_Some_conv split: if_splits)
  have q: "e \<notin> set (Q (unat node))" using assms(2-4) by (fastforce simp: wq_rep_def)
  then have "llist_rep ?h (unat node) (Q (unat node))"
    using assms(2,3) by (auto simp: wq_rep_def intro!: rep_entries_cong)
  from llist_append_rep [OF this _ q] h show ?thesis by (auto simp: llist_frame_def)
qed

section \<open>What a worker does with its queue\<close>

text \<open>
  The contract of an entry: the callback runs once; on an error the error handler decides
  (without one the entry is cleaned up and the loop goes on), and a handler that fails
  ends the worker after the clean-up. The clean-up handler never runs when the callback
  succeeds, nor when the error handler returns 0.
\<close>

definition item_spec :: "('p, 'w) workqueue_entry \<Rightarrow> 'w \<Rightarrow> (bool \<times> 'w) option" where
  "item_spec E w =
     Option.bind (wq_cb E (wq_priv E) w) (\<lambda>(err, w).
       if err = 0 then Some (True, w)
       else (case wq_err E of
         None \<Rightarrow> map_option (Pair True) (run_cleanup (wq_cleanup E) err (wq_priv E) w)
       | Some f \<Rightarrow> Option.bind (f err (wq_priv E) w) (\<lambda>(r, w).
           if r = 0 then Some (True, w)
           else map_option (Pair False) (run_cleanup (wq_cleanup E) err (wq_priv E) w))))"

text \<open>The whole queue, first in first out: does the worker go on, how many entries were taken.\<close>

fun drain_spec :: "('p, 'w) workqueue_entry list \<Rightarrow> 'w \<Rightarrow> (bool \<times> nat \<times> 'w) option" where
  "drain_spec [] w = Some (True, 0, w)"
| "drain_spec (E # Es) w =
     (case item_spec E w of None \<Rightarrow> None
      | Some (False, w') \<Rightarrow> Some (False, 1, w')
      | Some (True, w') \<Rightarrow> map_option (\<lambda>(b, n, w). (b, Suc n, w)) (drain_spec Es w'))"

definition unlocked_if :: "bool \<Rightarrow> nat \<Rightarrow> workqueue list \<Rightarrow> workqueue list" where
  "unlocked_if b i ws = (if b then ws[i := (ws ! i)\<lparr>wq_lock := False\<rparr>] else ws)"

lemma unlocked_if_simps [simp]:
  "length (unlocked_if b i ws) = length ws"
  "unlocked_if False i ws = ws"
  by (auto simp: unlocked_if_def)

lemma free_entry_step:
  assumes "wq_rep st ws Q" "wents st e = Some E" "\<forall>j < length ws. e \<notin> set (Q j)"
  shows "\<exists>st'. free_entry e st = Some st' \<and> wq_rep st' ws Q \<and> world st' = world st \<and>
           (\<forall>x. x \<noteq> e \<longrightarrow> wents st' x = wents st x)"
  using free_entry_rep [OF assms(1) _ assms(3)] assms(2) by blast

lemma wq_rep_world: "wq_rep (st\<lparr>world := w\<rparr>) ws Q = wq_rep st ws Q"
  by (simp add: wq_rep_def)

lemma mutex_unlock_rep:
  assumes "wq_rep st ws Q" "i < length ws"
  shows "\<exists>st'. wq_mutex_unlock i st = Some st' \<and> wq_rep st' (unlocked_if True i ws) Q \<and>
           world st' = world st \<and> wents st' = wents st"
  using assms by (auto simp: wq_mutex_unlock_def wq_rep_def unlocked_if_def)

definition item_post ::
    "('p, 'w) wq_state \<Rightarrow> workqueue list \<Rightarrow> (nat \<Rightarrow> eaddr list) \<Rightarrow> nat \<Rightarrow> eaddr \<Rightarrow> eaddr list \<Rightarrow>
     bool \<Rightarrow> 'w \<Rightarrow> ('p, 'w) wq_state \<Rightarrow> bool" where
  "item_post st ws Q i e es cont w st' \<longleftrightarrow>
     wq_rep st' (unlocked_if (\<not> cont) i ws) (Q(i := es)) \<and> world st' = w \<and>
     (\<forall>x. x \<noteq> e \<longrightarrow> wents st' x = wents st x)"

lemma work_item_rep:
  assumes rep: "wq_rep st ws Q" and i: "i < length ws" and Q: "Q i = e # es"
  shows "(case item_spec (the (wents st e)) (world st) of
            None \<Rightarrow> work_item i st = None
          | Some (cont, w) \<Rightarrow> \<exists>st'. work_item i st = Some (cont, st') \<and> item_post st ws Q i e es cont w st')"
proof -
  obtain h E where p: "llist_get_entry (wheap st) i 0 = Some (Some e)" "llist_remove (wheap st) e = Some h"
    "wents st e = Some E"
    and r: "\<And>n w. wq_rep (st\<lparr>wheap := h, num_workqueue_items := n, world := w\<rparr>) ws (Q(i := es))"
    and out: "\<forall>j < length ws. e \<notin> set ((Q(i := es)) j)"
    using wq_pop [OF rep i Q] by metis
  let ?st = "\<lambda>w. st\<lparr>wheap := h, num_workqueue_items := num_workqueue_items st - 1, world := w\<rparr>"
  have fin: "\<exists>st'. free_entry e (?st w) = Some st' \<and> item_post st ws Q i e es True w st'" for w
  proof -
    have E': "wents (?st w) e = Some E" using p(3) by simp
    then show ?thesis using free_entry_step [where Q = "Q(i := es)", OF r E' out] by (simp add: item_post_def)
  qed
  have fail: "\<exists>st'' st'. wq_mutex_unlock i (?st w) = Some st'' \<and> free_entry e st'' = Some st' \<and>
      item_post st ws Q i e es False w st'" for w
  proof -
    obtain st'' where u: "wq_mutex_unlock i (?st w) = Some st''"
      "wq_rep st'' (unlocked_if True i ws) (Q(i := es))" "world st'' = w" "wents st'' = wents st"
      using mutex_unlock_rep [OF r i] by force
    have E': "wents st'' e = Some E" using p(3) u(4) by simp
    have "\<forall>j < length (unlocked_if True i ws). e \<notin> set ((Q(i := es)) j)" using out by simp
    then show ?thesis
      using free_entry_step [where Q = "Q(i := es)", OF u(2) E'] u by (simp add: item_post_def)
  qed
  obtain F where F: "\<And>w. free_entry e (?st w) = Some (F w)" "\<And>w. item_post st ws Q i e es True w (F w)"
    using fin by metis
  obtain U G where U: "\<And>w. wq_mutex_unlock i (?st w) = Some (U w)" "\<And>w. free_entry e (U w) = Some (G w)"
    "\<And>w. item_post st ws Q i e es False w (G w)"
    using fail by metis
  show ?thesis
    using p(1-3) F U
    by (auto simp: work_item_def item_spec_def bind_case_option Let_def
          split: option.split prod.split)
qed

lemma works_simps [simp]:
  "works st [] = []" "works st (e # es) = the (wents st e) # works st es"
  by (simp_all add: works_def)

lemma works_frame:
  "\<forall>x. x \<noteq> e \<longrightarrow> wents st' x = wents st x \<Longrightarrow> e \<notin> set es \<Longrightarrow> works st' es = works st es"
  by (auto simp: works_def)

lemma wq_rep_get: "wq_rep st ws Q \<Longrightarrow> i < length ws \<Longrightarrow> get_wq (workqueues st) i = Some (ws ! i)"
  by (simp add: wq_rep_def)

lemma wq_rep_empty: "wq_rep st ws Q \<Longrightarrow> i < length ws \<Longrightarrow> llist_is_empty (wheap st) i = Some (Q i = [])"
  by (rule lq.is_empty_rep) (simp add: wq_rep_def)

lemma wq_rep_distinct: "wq_rep st ws Q \<Longrightarrow> i < length ws \<Longrightarrow> distinct (Q i)"
  by (rule lq.rep_distinct [of "wheap st" i]) (simp add: wq_rep_def)

lemma work_drain_rep:
  assumes "wq_rep st ws Q" "i < length ws" "\<not> wq_do_exit (ws ! i)"
  shows "(case drain_spec (works st (Q i)) (world st) of
            None \<Rightarrow> work_drain i st = None
          | Some (ok, k, w) \<Rightarrow> \<exists>st'. work_drain i st = Some (ok, st') \<and>
              wq_rep st' (unlocked_if (\<not> ok) i ws) (Q(i := drop k (Q i))) \<and> world st' = w)"
  using assms
proof (induction "Q i" arbitrary: st Q)
  case Nil
  then show ?case
    by (subst work_drain.simps) (auto simp: wq_rep_get wq_rep_empty fun_upd_idem)
next
  case (Cons e es)
  note rep = Cons.prems(1) and Q = Cons.hyps(2) [symmetric]
  have d: "e \<notin> set es" using wq_rep_distinct [OF rep Cons.prems(2)] Q by simp
  have unf: "work_drain i st = Option.bind (work_item i st) (\<lambda>(cont, st').
      if cont then work_drain i st' else Some (False, st'))"
    using Q Cons.prems(3) by (subst work_drain.simps) (simp add: wq_rep_get [OF rep Cons.prems(2)]
        wq_rep_empty [OF rep Cons.prems(2)])
  note item = work_item_rep [OF rep Cons.prems(2) Q]
  show ?case
  proof (cases "item_spec (the (wents st e)) (world st)")
    case None
    with item unf Q show ?thesis by simp
  next
    case (Some r)
    then obtain cont w where r: "item_spec (the (wents st e)) (world st) = Some (cont, w)" by (cases r) auto
    obtain st' where st': "work_item i st = Some (cont, st')" "item_post st ws Q i e es cont w st'"
      using item r by auto
    show ?thesis
    proof (cases cont)
      case False
      with st' unf Q r show ?thesis by (auto simp: item_post_def)
    next
      case True
      then have rep': "wq_rep st' ws (Q(i := es))" using st'(2) by (simp add: item_post_def)
      have w: "works st' es = works st es" "world st' = w"
        using st'(2) d by (auto simp: item_post_def intro!: works_frame)
      have "(case drain_spec (works st' es) (world st') of
            None \<Rightarrow> work_drain i st' = None
          | Some (ok, k, w) \<Rightarrow> \<exists>st''. work_drain i st' = Some (ok, st'') \<and>
              wq_rep st'' (unlocked_if (\<not> ok) i ws) (Q(i := drop k es)) \<and> world st'' = w)"
        using Cons.hyps(1) [of "Q(i := es)", OF _ rep' Cons.prems(2,3)]
        unfolding fun_upd_upd fun_upd_same by simp
      then show ?thesis
        using True st'(1) unf Q r w by (auto split: option.splits)
    qed
  qed
qed

section \<open>What stopping does\<close>

fun cleanup_spec :: "('p, 'w) workqueue_entry list \<Rightarrow> 'w \<Rightarrow> 'w option" where
  "cleanup_spec [] w = Some w"
| "cleanup_spec (E # Es) w = Option.bind (run_cleanup (wq_cleanup E) 0 (wq_priv E) w) (cleanup_spec Es)"

lemma cleanup_spec_append:
  "cleanup_spec (Es @ Fs) w = Option.bind (cleanup_spec Es w) (cleanup_spec Fs)"
  by (induction Es arbitrary: w) (auto simp: bind_assoc bind_case_option split: option.split)

definition stop_post ::
    "('p, 'w) wq_state \<Rightarrow> workqueue list \<Rightarrow> (nat \<Rightarrow> eaddr list) \<Rightarrow> nat \<Rightarrow> 'w \<Rightarrow> ('p, 'w) wq_state \<Rightarrow> bool" where
  "stop_post st ws Q i w st' \<longleftrightarrow>
     wq_rep st' ws (Q(i := [])) \<and> world st' = w \<and>
     (\<forall>x. wents st' x = (if x \<in> set (Q i) then None else wents st x))"

lemma free_entry_None: "free_entry e st = Some st' \<Longrightarrow> wents st' e = None"
  by (auto simp: free_entry_def split: if_splits)

lemma stop_drain_rep:
  assumes "wq_rep st ws Q" "i < length ws"
  shows "(case cleanup_spec (works st (Q i)) (world st) of
            None \<Rightarrow> stop_drain i st = None
          | Some w \<Rightarrow> \<exists>st'. stop_drain i st = Some st' \<and> stop_post st ws Q i w st')"
  using assms
proof (induction "Q i" arbitrary: st Q)
  case Nil
  then show ?case
    by (subst stop_drain.simps) (auto simp: wq_rep_empty stop_post_def fun_upd_idem)
next
  case (Cons e es)
  note rep = Cons.prems(1) and Q = Cons.hyps(2) [symmetric]
  have d: "e \<notin> set es" using wq_rep_distinct [OF rep Cons.prems(2)] Q by simp
  obtain h E where p: "llist_get_entry (wheap st) i 0 = Some (Some e)" "llist_remove (wheap st) e = Some h"
    "wents st e = Some E" "llist_is_empty (wheap st) i = Some False"
    and r: "\<And>n w. wq_rep (st\<lparr>wheap := h, num_workqueue_items := n, world := w\<rparr>) ws (Q(i := es))"
    and out: "\<forall>j < length ws. e \<notin> set ((Q(i := es)) j)"
    using wq_pop [OF rep Cons.prems(2) Q] by metis
  show ?case
  proof (cases "run_cleanup (wq_cleanup E) 0 (wq_priv E) (world st)")
    case None
    with p Q show ?thesis by (subst stop_drain.simps) simp
  next
    case (Some w)
    have r': "wq_rep (st\<lparr>wheap := h, world := w\<rparr>) ws (Q(i := es))"
      using r [where n = "num_workqueue_items st" and w = w] by simp
    have E': "wents (st\<lparr>wheap := h, world := w\<rparr>) e = Some E" using p(3) by simp
    obtain st' where st': "free_entry e (st\<lparr>wheap := h, world := w\<rparr>) = Some st'"
      "wq_rep st' ws (Q(i := es))" "world st' = w" "\<forall>x. x \<noteq> e \<longrightarrow> wents st' x = wents st x"
      using free_entry_step [where Q = "Q(i := es)", OF r' E' out] by auto
    have unf: "stop_drain i st = stop_drain i st'"
      using p Some st'(1) by (subst stop_drain.simps) simp
    have "works st' es = works st es" using st'(4) d by (intro works_frame) auto
    moreover have "(case cleanup_spec (works st' es) (world st') of
            None \<Rightarrow> stop_drain i st' = None
          | Some w \<Rightarrow> \<exists>st''. stop_drain i st' = Some st'' \<and> stop_post st' ws (Q(i := es)) i w st'')"
      using Cons.hyps(1) [of "Q(i := es)", OF _ st'(2) Cons.prems(2)]
      unfolding fun_upd_same by simp
    ultimately show ?thesis
      using st'(3,4) unf Some p(3) Q free_entry_None [OF st'(1)]
      by (auto simp: stop_post_def split: option.splits)
  qed
qed

text \<open>Workers that have nothing to do any more end, when they end, without touching the state; \<open>ends\<close> says which of them do.\<close>

definition quiet_join :: "(nat \<Rightarrow> bool) \<Rightarrow> ('p, 'w) wq_join" where
  "quiet_join ends i st = (if ends i then Some st else None)"

abbreviation idle_join :: "('p, 'w) wq_join" where
  "idle_join \<equiv> quiet_join (\<lambda>_. True)"

lemma stop_workqueue_rep:
  assumes rep: "wq_rep st ws Q" and i: "i < length ws" and join: "\<And>s. join i s = Some s"
  shows "(case cleanup_spec (works st (Q i)) (world st) of
            None \<Rightarrow> stop_workqueue join i st = None
          | Some w \<Rightarrow> \<exists>st' ws'. stop_workqueue join i st = Some st' \<and> length ws' = length ws \<and>
              stop_post st ws' Q i w st')"
proof -
  let ?W = "(ws ! i)\<lparr>wq_do_exit := True\<rparr>"
  let ?st = "st\<lparr>workqueues := set_wq (workqueues st) i ?W\<rparr>"
  have unf: "stop_workqueue join i st = stop_drain i ?st"
    by (simp add: stop_workqueue_def wq_rep_get [OF rep i] join)
  have "works ?st (Q i) = works st (Q i)" by (simp add: works_def)
  moreover have "stop_post ?st = stop_post st" by (simp add: stop_post_def fun_eq_iff)
  ultimately show ?thesis
    using stop_drain_rep [OF wq_set_rep [OF rep i, of ?W], of i] i unf
    by (auto split: option.splits) (metis length_list_update)
qed

lemma works_other:
  assumes "stop_post st ws Q i w st'" "set es \<inter> set (Q i) = {}"
  shows "works st' es = works st es"
  using assms by (auto simp: stop_post_def works_def disjoint_iff)

definition cleared :: "nat \<Rightarrow> (nat \<Rightarrow> eaddr list) \<Rightarrow> nat \<Rightarrow> eaddr list" where
  "cleared k Q = (\<lambda>j. if j < k then [] else Q j)"

lemma stop_up_rep:
  assumes "wq_rep st ws Q" "k \<le> length ws" "\<And>i s. i < k \<Longrightarrow> join i s = Some s"
  shows "(case cleanup_spec (concat (map (\<lambda>j. works st (Q j)) [0..<k])) (world st) of
            None \<Rightarrow> stop_up join k st = None
          | Some w \<Rightarrow> \<exists>st' ws'. stop_up join k st = Some st' \<and> length ws' = length ws \<and>
              wq_rep st' ws' (cleared k Q) \<and> world st' = w \<and>
              (\<forall>x. wents st' x = (if \<exists>j < k. x \<in> set (Q j) then None else wents st x)))"
  using assms
proof (induction k)
  case 0
  then show ?case by (auto simp: cleared_def)
next
  case (Suc k)
  have k: "k < length ws" using Suc.prems(2) by simp
  have joins: "\<And>i s. i < k \<Longrightarrow> join i s = Some s" "\<And>s. join k s = Some s" using Suc.prems(3) by simp_all
  note IH = Suc.IH [OF Suc.prems(1) less_imp_le [OF k] joins(1)]
  let ?pre = "cleanup_spec (concat (map (\<lambda>j. works st (Q j)) [0..<k])) (world st)"
  show ?case
  proof (cases ?pre)
    case None
    with IH show ?thesis by (simp add: cleanup_spec_append)
  next
    case (Some w)
    then obtain s1 ws1 where s1: "stop_up join k st = Some s1" "length ws1 = length ws"
      "wq_rep s1 ws1 (cleared k Q)" "world s1 = w"
      "\<forall>x. wents s1 x = (if \<exists>j < k. x \<in> set (Q j) then None else wents st x)"
      using IH by auto
    have "x \<notin> set (Q j)" if "x \<in> set (Q k)" "j < k" for x j
      using wq_rep_disjoint [OF Suc.prems(1), of j k] that k by auto
    then have wk: "works s1 (cleared k Q k) = works st (Q k)"
      using s1(5) by (auto simp: works_def cleared_def)
    have clr: "(cleared k Q)(k := []) = cleared (Suc k) Q"
      by (auto simp: cleared_def fun_eq_iff less_Suc_eq)
    have k1: "k < length ws1" using k s1(2) by simp
    note stop = stop_workqueue_rep [OF s1(3) k1, of join, OF joins(2)]
    show ?thesis
    proof (cases "cleanup_spec (works st (Q k)) w")
      case None
      with stop wk s1(1,4) Some show ?thesis by (simp add: cleanup_spec_append)
    next
      case (Some w')
      then obtain s2 ws2 where s2: "stop_workqueue join k s1 = Some s2" "length ws2 = length ws1"
        "stop_post s1 ws2 (cleared k Q) k w' s2"
        using stop wk s1(4) by auto
      have "\<forall>x. wents s2 x = (if \<exists>j < Suc k. x \<in> set (Q j) then None else wents st x)"
        using s2(3) s1(5) by (auto simp: stop_post_def cleared_def less_Suc_eq)
      then show ?thesis
        using Some \<open>?pre = Some w\<close> s1 s2 clr by (auto simp: cleanup_spec_append stop_post_def)
    qed
  qed
qed

lemma deinit_rep:
  assumes "wq_rep st ws Q" "\<And>i s. i < length ws \<Longrightarrow> join i s = Some s"
  shows "(case cleanup_spec (concat (map (\<lambda>j. works st (Q j)) [0..<length ws])) (world st) of
            None \<Rightarrow> workqueue_deinit join st = None
          | Some w \<Rightarrow> \<exists>st'. workqueue_deinit join st = Some st' \<and> num_workqueues st' = 0 \<and>
              workqueues st' = WFreed \<and> world st' = w \<and>
              (\<forall>x. wents st' x = (if \<exists>j < length ws. x \<in> set (Q j) then None else wents st x)))"
proof -
  have n: "nat (num_workqueues st) = length ws" using assms(1) by (simp add: wq_rep_def)
  show ?thesis
    using stop_up_rep [OF assms(1) order_refl, of join] assms(2)
    by (auto simp: workqueue_deinit_def n wq_rep_def split: option.splits)
qed

text \<open>A worker that does not end keeps the stopping thread.\<close>

lemma stop_up_hangs: "k < n \<Longrightarrow> (\<And>s. join k s = None) \<Longrightarrow> stop_up join n st = None"
proof (induction n)
  case (Suc n)
  show ?case
  proof (cases "k < n")
    case True
    then show ?thesis using Suc by simp
  next
    case False
    then have "k = n" using Suc.prems(1) by simp
    then have "stop_workqueue join n s = None" for s
      using Suc.prems(2) by (cases "get_wq (workqueues s) n") (simp_all add: stop_workqueue_def)
    then show ?thesis by (cases "stop_up join n st") simp_all
  qed
qed simp

lemma deinit_hangs:
  assumes "wq_rep st ws Q" "k < length ws" "\<And>s. join k s = None"
  shows "workqueue_deinit join st = None"
proof -
  have "nat (num_workqueues st) = length ws" using assms(1) by (simp add: wq_rep_def)
  then show ?thesis using stop_up_hangs [OF assms(2), of join, OF assms(3)] by (simp add: workqueue_deinit_def)
qed

section \<open>What initialisation leaves\<close>

lemma init_enomem:
  "workqueue_init join avail max_node False create st =
     Some (- ENOMEM, st\<lparr>num_workqueues := if avail \<noteq> 0 then max_node else 1, workqueues := WNull\<rparr>)"
  by (simp add: workqueue_init_def Let_def)

text \<open>
  After a failed \<open>calloc\<close> the count is still positive, so \<open>workqueue_deinit\<close>, which
  \<open>main\<close> calls on every error, follows the NULL pointer.
\<close>

lemma stop_up_dead:
  "workqueues st \<in> {WNull, WFreed} \<Longrightarrow> stop_up join (Suc k) st = None"
  by (induction k) (auto simp: stop_workqueue_def)

lemma deinit_dead:
  assumes "workqueues st \<in> {WNull, WFreed}" "num_workqueues st > 0"
  shows "workqueue_deinit join st = None"
proof -
  obtain k where "nat (num_workqueues st) = Suc k" using assms(2) by (cases "nat (num_workqueues st)") auto
  then show ?thesis using stop_up_dead [OF assms(1)] by (simp add: workqueue_deinit_def)
qed

definition wq_fresh :: "workqueue list \<Rightarrow> bool" where
  "wq_fresh ws \<longleftrightarrow> (\<forall>i < length ws. wq_node (ws ! i) = of_nat i \<and> \<not> wq_lock (ws ! i) \<and> \<not> wq_do_exit (ws ! i))"

lemma init_loop_rep:
  assumes "workqueues st = WLive ws" "i + k = length ws" "\<forall>j. create j = 0"
    "\<forall>j < length ws. j \<in> dom (llists (wheap st))" "\<forall>j < length ws. \<not> wq_do_exit (ws ! j)"
    "\<forall>j < i. wq_node (ws ! j) = of_nat j \<and> \<not> wq_lock (ws ! j) \<and> llist_rep (wheap st) j []"
  shows "\<exists>st' ws'. init_loop join create i k st = Some (0, st') \<and> workqueues st' = WLive ws' \<and>
           length ws' = length ws \<and> wq_fresh ws' \<and> (\<forall>j < length ws. llist_rep (wheap st') j []) \<and>
           num_workqueues st' = num_workqueues st \<and> world st' = world st \<and> wents st' = wents st"
  using assms
proof (induction k arbitrary: i st ws)
  case 0
  then show ?case by (auto simp: wq_fresh_def)
next
  case (Suc k)
  have i: "i < length ws" using Suc.prems(2) by simp
  let ?W = "(ws ! i)\<lparr>wq_node := of_nat i, wq_lock := False\<rparr>"
  obtain h where h: "llist_init (wheap st) i = Some h" "llist_rep h i []" "llist_frame i {} (wheap st) h"
    using init_rep [of i "wheap st"] Suc.prems(4) i by blast
  have other: "llist_rep h j []" if "j < i" for j
    using rep_frame [OF h(3), of j "[]"] Suc.prems(6) that by auto
  have dom: "\<forall>j < length ws. j \<in> dom (llists h)"
    using Suc.prems(4) h(2,3) by (auto simp: llist_frame_def llist_rep_def) (metis domD domI option.exhaust)
  have step: "init_loop join create i (Suc k) st =
      init_loop join create (Suc i) k (st\<lparr>workqueues := WLive (ws[i := ?W]), wheap := h\<rparr>)"
    using Suc.prems(1,3) i h(1) by (simp add: Let_def)
  let ?st = "st\<lparr>workqueues := WLive (ws[i := ?W]), wheap := h\<rparr>"
  have "\<forall>j < Suc i. wq_node (ws[i := ?W] ! j) = of_nat j \<and> \<not> wq_lock (ws[i := ?W] ! j) \<and>
      llist_rep (wheap ?st) j []"
    using Suc.prems(6) h(2) other i by (auto simp: less_Suc_eq nth_list_update)
  moreover have "\<forall>j < length (ws[i := ?W]). \<not> wq_do_exit (ws[i := ?W] ! j)"
    using Suc.prems(5) i by (simp add: nth_list_update)
  moreover have "workqueues ?st = WLive (ws[i := ?W])" "Suc i + k = length (ws[i := ?W])"
    "\<forall>j < length (ws[i := ?W]). j \<in> dom (llists (wheap ?st))"
    using Suc.prems(2) dom by auto
  ultimately show ?case
    unfolding step using Suc.IH [of ?st "ws[i := ?W]" "Suc i", OF _ _ Suc.prems(3)] by simp
qed

lemma workqueue_init_rep:
  fixes avail max_node :: c_int
  defines "n \<equiv> (if avail \<noteq> 0 then max_node else 1)"
  assumes "0 \<le> n" "n < 2 ^ 31" "\<forall>j. create j = 0"
  shows "\<exists>st' ws. workqueue_init join avail max_node True create st = Some (0, st') \<and>
           wq_rep st' ws (\<lambda>_. []) \<and> wq_fresh ws \<and> length ws = nat n \<and>
           world st' = world st \<and> wents st' = wents st"
proof -
  let ?zero = "\<lparr>l_head = None, l_tail = None, l_lock = False\<rparr>"
  let ?h = "(wheap st)\<lparr>llists := (\<lambda>l. if l < nat n then Some ?zero else llists (wheap st) l)\<rparr>"
  let ?st = "st\<lparr>num_workqueues := n, workqueues := WLive (replicate (nat n) wq_zero), wheap := ?h\<rparr>"
  have "workqueue_init join avail max_node True create st = init_loop join create 0 (nat n) ?st"
    using assms(2) by (simp add: workqueue_init_def Let_def n_def)
  moreover have "\<exists>st' ws'. init_loop join create 0 (nat n) ?st = Some (0, st') \<and> workqueues st' = WLive ws' \<and>
           length ws' = length (replicate (nat n) wq_zero) \<and> wq_fresh ws' \<and>
           (\<forall>j < length (replicate (nat n) wq_zero). llist_rep (wheap st') j []) \<and>
           num_workqueues st' = num_workqueues ?st \<and> world st' = world ?st \<and> wents st' = wents ?st"
    using assms(4) by (intro init_loop_rep) (auto simp: wq_zero_def)
  ultimately show ?thesis
    using assms(2,3) by (auto simp: wq_rep_def)
qed

text \<open>
  When a thread cannot be created the error is returned with the array freed and the count
  still set; a later \<open>workqueue_deinit\<close> then walks the freed array.
\<close>

lemma init_loop_create_fails:
  assumes "workqueues st = WLive ws" "ws \<noteq> []" "create 0 \<noteq> 0" "0 \<in> dom (llists (wheap st))"
  shows "\<exists>st'. init_loop join create 0 (length ws) st = Some (- create 0, st') \<and> workqueues st' = WFreed \<and>
           num_workqueues st' = num_workqueues st"
proof -
  obtain k where k: "length ws = Suc k" using assms(2) by (cases ws) auto
  obtain h where "llist_init (wheap st) 0 = Some h" using init_rep [OF assms(4)] by blast
  with assms k show ?thesis by (simp add: Let_def)
qed

text \<open>Initialisation touches no entry.\<close>

lemma stop_down_dead: "workqueues st \<in> {WNull, WFreed} \<Longrightarrow> stop_down join (Suc k) st = None"
  by (auto simp: stop_workqueue_def)

lemma init_loop_entries:
  "init_loop join create i k st = Some (0, st') \<Longrightarrow> entries (wheap st') = entries (wheap st)"
proof (induction k arbitrary: i st)
  case (Suc k)
  from Suc.prems obtain W h where "get_wq (workqueues st) i = Some W" "llist_init (wheap st) i = Some h" "create i = 0"
    and rest: "init_loop join create (Suc i) k (st\<lparr>workqueues := set_wq (workqueues st) i (W\<lparr>wq_node := of_nat i, wq_lock := False\<rparr>), wheap := h\<rparr>) = Some (0, st')"
    by (auto simp: Let_def bind_eq_Some_conv split: if_splits)
  moreover from this(2) have "entries h = entries (wheap st)"
    by (auto simp: llist_init_def upd_list_def split: option.splits)
  ultimately show ?case using Suc.IH [OF rest] by simp
qed simp

lemma init_entries:
  "workqueue_init join avail max_node ok create st = Some (0, st') \<Longrightarrow> dom (entries (wheap st')) = dom (entries (wheap st))"
  unfolding workqueue_init_def Let_def
  by (simp split: if_split_asm del: init_loop.simps add: init_loop_entries)

section \<open>Properties\<close>

text \<open>
  What \<open>workqueue_enqueue\<close> returns. On queues that hold \<open>Q\<close> with the mutexes free: a
  node without a queue gives \<open>-EINVAL\<close>, a failed allocation \<open>-ENOMEM\<close>, both without a
  change of state; otherwise the entry is at the end of the node's queue, every other queue is
  as it was, the counter has grown by one and the mutex is free again.
\<close>
theorem enqueue_outcomes:
  assumes "wq_rep st ws Q" "\<forall>i < length ws. \<not> wq_lock (ws ! i)" "e \<notin> dom (wents st)" "e \<notin> dom (entries (wheap st))"
  shows "if length ws \<le> unat node then workqueue_enqueue node E (Some e) st = Some (- EINVAL, st)
     else workqueue_enqueue node E None st = Some (- ENOMEM, st) \<and>
       (\<exists>st'. workqueue_enqueue node E (Some e) st = Some (0, st') \<and>
          wq_rep st' ws (Q(unat node := Q (unat node) @ [e])) \<and> wents st' = (wents st)(e \<mapsto> E) \<and>
          world st' = world st \<and> num_workqueue_items st' = num_workqueue_items st + 1)"
  using enqueue_einval [OF assms(1)] enqueue_enomem [OF assms(1)] enqueue_rep [OF assms(1) _ _ assms(3,4)] assms(2)
  by (simp add: not_le)

text \<open>A machine with two queues, created by \<open>workqueue_init\<close>.\<close>

definition wq_none :: "(nat, nat list) wq_state" where
  "wq_none = \<lparr>workqueues = WNull, num_workqueues = 0, num_workqueue_items = 0,
     wheap = \<lparr>entries = Map.empty, llists = Map.empty\<rparr>, wents = Map.empty, world = []\<rparr>"

definition wq_sample :: "(nat, nat list) wq_state" where
  "wq_sample = snd (the (workqueue_init idle_join 1 2 True (\<lambda>_. 0) wq_none))"

definition log_entry :: "nat \<Rightarrow> c_int \<Rightarrow> (nat, nat list) workqueue_entry" where
  "log_entry n err = \<lparr>wq_cb = (\<lambda>p w. Some (err, w @ [p])), wq_err = None,
     wq_cleanup = Some (\<lambda>err p w. Some (w @ [100 + p])), wq_priv = n\<rparr>"

lemma wq_sample_state:
  "wq_sample = \<lparr>workqueues = WLive [\<lparr>wq_node = 0, wq_do_exit = False, wq_lock = False\<rparr>,
       \<lparr>wq_node = 1, wq_do_exit = False, wq_lock = False\<rparr>], num_workqueues = 2, num_workqueue_items = 0,
     wheap = \<lparr>entries = Map.empty, llists = (\<lambda>l. if l < 2 then Some \<lparr>l_head = None, l_tail = None, l_lock = False\<rparr> else None)\<rparr>,
     wents = Map.empty, world = []\<rparr>"
  by (auto simp: wq_sample_def workqueue_init_def wq_none_def Let_def numeral_2_eq_2 llist_init_def upd_list_def
      wq_zero_def fun_eq_iff)

lemma wq_sample_rep:
  "wq_rep wq_sample [\<lparr>wq_node = 0, wq_do_exit = False, wq_lock = False\<rparr>, \<lparr>wq_node = 1, wq_do_exit = False, wq_lock = False\<rparr>] (\<lambda>_. [])"
  by (simp add: wq_rep_def wq_sample_state llist_rep_def)

theorem enqueue_outcomes_witness:
  "\<exists>st'. workqueue_enqueue 1 (log_entry 5 0) (Some 9) wq_sample = Some (0, st') \<and> num_workqueue_items st' = 1"
  using enqueue_outcomes [OF wq_sample_rep, of 9 1 "log_entry 5 0"]
  by (fastforce simp: wq_sample_state less_Suc_eq)

text \<open>
  Jobs for queues: the node, the entry and the address \<open>calloc\<close> gives it. A job succeeds when
  its node has a queue.
\<close>

type_synonym ('p, 'w) wq_job = "u32 \<times> ('p, 'w) workqueue_entry \<times> eaddr"

fun enqueue_jobs :: "('p, 'w) wq_job list \<Rightarrow> ('p, 'w) wq_state \<Rightarrow> ('p, 'w) wq_state option" where
  "enqueue_jobs [] st = Some st"
| "enqueue_jobs ((node, E, e) # js) st = do {
     (_, st) \<leftarrow> workqueue_enqueue node E (Some e) st;
     enqueue_jobs js st }"

definition jobs_of :: "nat \<Rightarrow> ('p, 'w) wq_job list \<Rightarrow> ('p, 'w) workqueue_entry list" where
  "jobs_of i js = map (\<lambda>(_, E, _). E) (filter (\<lambda>(node, _, _). unat node = i) js)"

definition job_addrs :: "nat \<Rightarrow> ('p, 'w) wq_job list \<Rightarrow> eaddr list" where
  "job_addrs i js = map (\<lambda>(_, _, e). e) (filter (\<lambda>(node, _, _). unat node = i) js)"

definition jobs_fresh :: "('p, 'w) wq_job list \<Rightarrow> ('p, 'w) wq_state \<Rightarrow> bool" where
  "jobs_fresh js st \<longleftrightarrow> distinct (map (\<lambda>(_, _, e). e) js) \<and>
     (\<forall>(_, _, e) \<in> set js. e \<notin> dom (wents st) \<and> e \<notin> dom (entries (wheap st)))"

lemma jobs_fresh_step:
  assumes "jobs_fresh ((node, E, e) # js) st" "wents st1 = (wents st)(e \<mapsto> E)"
    "dom (entries (wheap st1)) = insert e (dom (entries (wheap st)))"
  shows "jobs_fresh js st1"
proof -
  have "x \<noteq> e \<and> x \<notin> dom (wents st) \<and> x \<notin> dom (entries (wheap st))" if "(n, F, x) \<in> set js" for n F x
    using assms(1) that by (force simp: jobs_fresh_def image_iff)
  then show ?thesis using assms by (fastforce simp: jobs_fresh_def)
qed

lemma enqueue_jobs_rep:
  "wq_rep st ws Q \<Longrightarrow> \<forall>i < length ws. \<not> wq_lock (ws ! i) \<Longrightarrow> jobs_fresh js st \<Longrightarrow>
     \<exists>st' Q'. enqueue_jobs js st = Some st' \<and> wq_rep st' ws Q' \<and> world st' = world st \<and>
        (\<forall>i < length ws. Q' i = Q i @ job_addrs i js \<and> works st' (Q' i) = works st (Q i) @ jobs_of i js)"
proof (induction js arbitrary: st Q)
  case Nil
  then show ?case by (auto simp: job_addrs_def jobs_of_def)
next
  case (Cons j js)
  obtain node E e where j: "j = (node, E, e)" by (cases j)
  have e: "e \<notin> dom (wents st)" "e \<notin> dom (entries (wheap st))" using Cons.prems(3) j by (auto simp: jobs_fresh_def)
  show ?case
  proof (cases "length ws \<le> unat node")
    case True
    have "jobs_fresh js st" using Cons.prems(3) j by (auto simp: jobs_fresh_def)
    from Cons.IH [OF Cons.prems(1,2) this] show ?thesis
      using enqueue_einval [OF Cons.prems(1) True] True j by (auto simp: job_addrs_def jobs_of_def)
  next
    case False
    then have n: "unat node < length ws" by simp
    obtain st1 where s1: "workqueue_enqueue node E (Some e) st = Some (0, st1)"
      "wq_rep st1 ws (Q(unat node := Q (unat node) @ [e]))" "wents st1 = (wents st)(e \<mapsto> E)" "world st1 = world st"
      using enqueue_rep [OF Cons.prems(1) n _ e] Cons.prems(2) n by blast
    have "jobs_fresh js st1" by (rule jobs_fresh_step [OF Cons.prems(3) [unfolded j] s1(3)
        enqueue_entries_heap [OF s1(1) Cons.prems(1) n e(1)]])
    from Cons.IH [OF s1(2) Cons.prems(2) this] obtain st' Q' where s2:
      "enqueue_jobs js st1 = Some st'" "wq_rep st' ws Q'" "world st' = world st"
      "\<forall>i < length ws. Q' i = (Q(unat node := Q (unat node) @ [e])) i @ job_addrs i js \<and>
          works st' (Q' i) = works st1 ((Q(unat node := Q (unat node) @ [e])) i) @ jobs_of i js"
      using s1(4) by auto
    have "works st1 (Q i) = works st (Q i)" if "i < length ws" for i
    proof -
      have "e \<notin> set (Q i)" using Cons.prems(1) e(1) that by (auto simp: wq_rep_def)
      then show ?thesis using s1(3) by (auto simp: works_def)
    qed
    then have "\<forall>i < length ws. Q' i = Q i @ job_addrs i (j # js) \<and> works st' (Q' i) = works st (Q i) @ jobs_of i (j # js)"
      using s2(4) j s1(3) by (auto simp: job_addrs_def jobs_of_def works_def)
    with s1(1) s2 j show ?thesis by auto
  qed
qed

text \<open>
  C15: First in, first out, from initialisation to the last callback. After a successful
  \<open>workqueue_init\<close> any jobs may be enqueued; the worker of queue \<open>i\<close> then does exactly what
  \<open>drain_spec\<close> says of the jobs enqueued for node \<open>i\<close>, in their order: each callback once, the
  error handler on an error, the clean-up only where \<open>item_spec\<close> has it, and nothing after a
  handler that fails. Jobs for a node without a queue never run.
\<close>
theorem queues_run_fifo:
  fixes avail max_node :: c_int
  assumes "0 \<le> (if avail \<noteq> 0 then max_node else 1)" "(if avail \<noteq> 0 then max_node else 1) < 2 ^ 31"
    "\<forall>j. create j = 0" "i < nat (if avail \<noteq> 0 then max_node else 1)" "jobs_fresh js st"
  shows "\<exists>st1 st2. workqueue_init join avail max_node True create st = Some (0, st1) \<and> enqueue_jobs js st1 = Some st2 \<and>
     (case drain_spec (jobs_of i js) (world st) of
        None \<Rightarrow> work_drain i st2 = None
      | Some (ok, k, w) \<Rightarrow> \<exists>st3 ws Q. work_drain i st2 = Some (ok, st3) \<and> world st3 = w \<and> wq_rep st3 ws Q \<and>
          Q i = drop k (job_addrs i js))"
proof -
  obtain st1 ws where s1: "workqueue_init join avail max_node True create st = Some (0, st1)" "wq_rep st1 ws (\<lambda>_. [])"
    "wq_fresh ws" "length ws = nat (if avail \<noteq> 0 then max_node else 1)" "world st1 = world st" "wents st1 = wents st"
    using workqueue_init_rep [OF assms(1-3)] by blast
  have e: "dom (entries (wheap st1)) = dom (entries (wheap st))" using s1(1) init_entries by blast
  have "jobs_fresh js st1" using assms(5) s1(6) e by (auto simp: jobs_fresh_def)
  moreover have "\<forall>i < length ws. \<not> wq_lock (ws ! i)" using s1(3) by (simp add: wq_fresh_def)
  ultimately obtain st2 Q where s2: "enqueue_jobs js st1 = Some st2" "wq_rep st2 ws Q" "world st2 = world st"
    "Q i = job_addrs i js" "works st2 (Q i) = jobs_of i js"
    using enqueue_jobs_rep [OF s1(2)] s1(4,5) assms(4) by fastforce
  have "\<not> wq_do_exit (ws ! i)" using s1(3,4) assms(4) by (simp add: wq_fresh_def)
  from work_drain_rep [OF s2(2) _ this] s2 s1(1,4) assms(4) show ?thesis
    by (fastforce split: option.splits)
qed

theorem queues_run_fifo_witness:
  "\<exists>st1 st2 st3. workqueue_init idle_join 1 2 True (\<lambda>_. 0) wq_none = Some (0, st1) \<and>
     enqueue_jobs [(1, log_entry 5 0, 9), (0, log_entry 6 0, 10), (1, log_entry 7 (- 1), 11)] st1 = Some st2 \<and>
     work_drain 1 st2 = Some (True, st3) \<and> world st3 = [5, 7, 107]"
  using queues_run_fifo [of 1 2 "\<lambda>_. 0" 1 "[(1, log_entry 5 0, 9), (0, log_entry 6 0, 10), (1, log_entry 7 (- 1), 11)]" wq_none]
  by (force simp: jobs_fresh_def wq_none_def jobs_of_def log_entry_def item_spec_def run_cleanup_def)

text \<open>
  \<open>workqueue_deinit\<close> on live queues whose workers have nothing to do. When every worker ends, it runs the clean-up of every
  entry that is still queued, queue by queue and in order, frees exactly these entries, frees the array and sets the count
  to 0, and returns if the clean-ups return. When one worker does not end (it may miss the broadcast and sleep for ever) the join waits for
  it and \<open>workqueue_deinit\<close> never returns. On an array that is NULL with the count
  still positive, which is what a failed \<open>calloc\<close> in \<open>workqueue_init\<close> leaves, it is undefined.
\<close>
theorem deinit_cleans_up:
  assumes "wq_rep st ws Q"
  shows "(if \<forall>i < length ws. ends i then
       (case cleanup_spec (concat (map (\<lambda>j. works st (Q j)) [0..<length ws])) (world st) of
          None \<Rightarrow> workqueue_deinit (quiet_join ends) st = None
        | Some w \<Rightarrow> \<exists>st'. workqueue_deinit (quiet_join ends) st = Some st' \<and> num_workqueues st' = 0 \<and> workqueues st' = WFreed \<and> world st' = w \<and>
            (\<forall>x. wents st' x = (if \<exists>j < length ws. x \<in> set (Q j) then None else wents st x)))
     else workqueue_deinit (quiet_join ends) st = None) \<and>
     (\<forall>join avail max_node create st'. workqueue_init join avail max_node False create st = Some (- ENOMEM, st') \<longrightarrow>
        0 < num_workqueues st' \<longrightarrow> workqueue_deinit join st' = None)"
proof
  show "\<forall>join avail max_node create st'. workqueue_init join avail max_node False create st = Some (- ENOMEM, st') \<longrightarrow>
        0 < num_workqueues st' \<longrightarrow> workqueue_deinit join st' = None"
    by (auto simp: init_enomem intro!: deinit_dead)
next
  show "if \<forall>i < length ws. ends i then
       (case cleanup_spec (concat (map (\<lambda>j. works st (Q j)) [0..<length ws])) (world st) of
          None \<Rightarrow> workqueue_deinit (quiet_join ends) st = None
        | Some w \<Rightarrow> \<exists>st'. workqueue_deinit (quiet_join ends) st = Some st' \<and> num_workqueues st' = 0 \<and> workqueues st' = WFreed \<and> world st' = w \<and>
            (\<forall>x. wents st' x = (if \<exists>j < length ws. x \<in> set (Q j) then None else wents st x)))
     else workqueue_deinit (quiet_join ends) st = None"
  proof (cases "\<forall>i < length ws. ends i")
    case True
    then have "\<And>i s. i < length ws \<Longrightarrow> quiet_join ends i s = Some s" by (simp add: quiet_join_def)
    then show ?thesis unfolding if_P [OF True] by (rule deinit_rep [OF assms])
  next
    case False
    then obtain k where "k < length ws" "\<not> ends k" by blast
    then have "workqueue_deinit (quiet_join ends) st = None"
      by (intro deinit_hangs [OF assms]) (simp_all add: quiet_join_def)
    then show ?thesis unfolding if_not_P [OF False] .
  qed
qed

theorem deinit_cleans_up_witness:
  "(\<exists>st'. workqueue_deinit idle_join wq_sample = Some st' \<and> workqueues st' = WFreed) \<and>
   workqueue_deinit (quiet_join (\<lambda>i. i \<noteq> 1)) wq_sample = None"
proof
  show "\<exists>st'. workqueue_deinit idle_join wq_sample = Some st' \<and> workqueues st' = WFreed"
    using deinit_cleans_up [OF wq_sample_rep, of "\<lambda>_. True"] by (auto simp: wq_sample_state)
  show "workqueue_deinit (quiet_join (\<lambda>i. i \<noteq> 1)) wq_sample = None"
    using deinit_cleans_up [OF wq_sample_rep, of "\<lambda>i. i \<noteq> 1"] by (simp add: All_less_Suc)
qed

end
