(* ===== verification/ResizeJob.thy ===== *)
theory ResizeJob
  imports Framebuffer Workqueue
begin

text \<open>
  The resize jobs of \<open>main.c\<close>: what the callbacks of a job do (\<open>resize_wq_cb\<close>,
  \<open>resize_wq_err\<close>, \<open>resize_wq_cleanup\<close>) and how \<open>resize_cb\<close> queues one job for
  each frame buffer of a list, on the queue of the frame buffer's node. The world of the
  work queues is the memory of the frame buffers, the flag \<open>do_exit\<close> of \<open>main.c\<close> and the
  allocated \<open>struct resize_wq_priv\<close>.
\<close>

section \<open>State\<close>

record resize_wq_priv =
  rp_fb :: eaddr
  rp_size :: fb_size

record main_world =
  mw_mem :: fbmem
  mw_exit :: bool
  mw_privs :: "nat \<rightharpoonup> resize_wq_priv"

type_synonym resize_state = "(nat, main_world) wq_state"

text \<open>Results of the three allocations a frame buffer's job needs: its data, its entry, its pixels.\<close>

record job_allocs =
  ja_priv :: "nat option"
  ja_entry :: "eaddr option"
  ja_pixels :: "nat option"

section \<open>Operations\<close>

definition doshutdown :: "main_world \<Rightarrow> main_world" where
  "doshutdown w = w\<lparr>mw_exit := True\<rparr>"

definition resize_wq_cb :: "nat option \<Rightarrow> nat \<Rightarrow> main_world \<Rightarrow> (c_int \<times> main_world) option" where
  "resize_wq_cb m_px priv w = do {
     R \<leftarrow> mw_privs w priv;
     (err, mem) \<leftarrow> fb_resize m_px (mw_mem w) (rp_fb R) (width (rp_size R)) (height (rp_size R));
     Some (err, w\<lparr>mw_mem := mem\<rparr>) }"

definition resize_wq_err :: "c_int \<Rightarrow> nat \<Rightarrow> main_world \<Rightarrow> (c_int \<times> main_world) option" where
  "resize_wq_err err priv w = Some (err, doshutdown w)"

definition resize_wq_cleanup :: "c_int \<Rightarrow> nat \<Rightarrow> main_world \<Rightarrow> main_world option" where
  "resize_wq_cleanup err priv w = do {
     _ \<leftarrow> guard (priv \<in> dom (mw_privs w));
     Some (w\<lparr>mw_privs := (mw_privs w)(priv := None)\<rparr>) }"

definition resize_entry :: "nat option \<Rightarrow> nat \<Rightarrow> (nat, main_world) workqueue_entry" where
  "resize_entry m_px priv = \<lparr>wq_cb = resize_wq_cb m_px, wq_err = Some resize_wq_err,
     wq_cleanup = Some resize_wq_cleanup, wq_priv = priv\<rparr>"

text \<open>One iteration of the loop in \<open>resize_cb\<close>.\<close>

definition resize_body ::
    "(eaddr \<Rightarrow> job_allocs) \<Rightarrow> u32 \<Rightarrow> u32 \<Rightarrow> resize_state \<Rightarrow> eaddr \<Rightarrow>
     (resize_state + c_int \<times> resize_state) option" where
  "resize_body al w h st cursor =
     (case ja_priv (al cursor) of None \<Rightarrow> Some (Inr (- ENOMEM, st))
      | Some p \<Rightarrow> do {
          F \<leftarrow> fbs (mw_mem (world st)) cursor;
          let R = \<lparr>rp_fb = cursor, rp_size = \<lparr>width = w, height = h\<rparr>\<rparr>;
          let st = st\<lparr>world := (world st)\<lparr>mw_privs := (mw_privs (world st))(p \<mapsto> R)\<rparr>\<rparr>;
          (err, st) \<leftarrow> workqueue_enqueue (numa_node F) (resize_entry (ja_pixels (al cursor)) p)
                         (ja_entry (al cursor)) st;
          if err \<noteq> 0 then do {
            w \<leftarrow> resize_wq_cleanup 0 p (world st);
            Some (Inr (err, st\<lparr>world := w\<rparr>)) }
          else Some (Inl st) })"

definition resize_cb ::
    "(eaddr \<Rightarrow> job_allocs) \<Rightarrow> laddr \<Rightarrow> u32 \<Rightarrow> u32 \<Rightarrow> resize_state \<Rightarrow> (c_int \<times> resize_state) option" where
  "resize_cb al fb_list w h st = do {
     L \<leftarrow> llists (links (mw_mem (world st))) fb_list;
     r \<leftarrow> llist_for_each (\<lambda>st. links (mw_mem (world st))) (resize_body al w h) (l_head L) st;
     Some (case r of Inl st \<Rightarrow> (0, st) | Inr x \<Rightarrow> x) }"

section \<open>Queueing the jobs\<close>

definition node_of :: "main_world \<Rightarrow> eaddr \<Rightarrow> nat" where
  "node_of w f = unat (numa_node (the (fbs (mw_mem w) f)))"

abbreviation job_entry :: "(eaddr \<Rightarrow> job_allocs) \<Rightarrow> eaddr \<Rightarrow> eaddr" where
  "job_entry al f \<equiv> the (ja_entry (al f))"

abbreviation job_priv :: "(eaddr \<Rightarrow> job_allocs) \<Rightarrow> eaddr \<Rightarrow> nat" where
  "job_priv al f \<equiv> the (ja_priv (al f))"

text \<open>
  The allocations for the frame buffers \<open>fs\<close> succeed and give addresses that are not in
  use and differ from one another.
\<close>

definition allocs_ok :: "(eaddr \<Rightarrow> job_allocs) \<Rightarrow> eaddr list \<Rightarrow> resize_state \<Rightarrow> bool" where
  "allocs_ok al fs st \<longleftrightarrow>
     (\<forall>f \<in> set fs. ja_priv (al f) \<noteq> None \<and> ja_entry (al f) \<noteq> None \<and>
        job_entry al f \<notin> dom (wents st) \<and> job_entry al f \<notin> dom (entries (wheap st))) \<and>
     distinct (map (job_entry al) fs) \<and> distinct (map (job_priv al) fs)"

definition job_queues :: "(eaddr \<Rightarrow> job_allocs) \<Rightarrow> main_world \<Rightarrow> eaddr list \<Rightarrow> (nat \<Rightarrow> eaddr list) \<Rightarrow> nat \<Rightarrow> eaddr list" where
  "job_queues al w fs Q i = Q i @ map (job_entry al) (filter (\<lambda>f. node_of w f = i) fs)"

fun with_privs :: "(eaddr \<Rightarrow> job_allocs) \<Rightarrow> u32 \<Rightarrow> u32 \<Rightarrow> eaddr list \<Rightarrow> (nat \<rightharpoonup> resize_wq_priv) \<Rightarrow> (nat \<rightharpoonup> resize_wq_priv)" where
  "with_privs al w h [] m = m"
| "with_privs al w h (f # fs) m =
     with_privs al w h fs (m(job_priv al f \<mapsto> \<lparr>rp_fb = f, rp_size = \<lparr>width = w, height = h\<rparr>\<rparr>))"

fun with_entries :: "(eaddr \<Rightarrow> job_allocs) \<Rightarrow> eaddr list \<Rightarrow> (eaddr \<rightharpoonup> (nat, main_world) workqueue_entry) \<Rightarrow>
    (eaddr \<rightharpoonup> (nat, main_world) workqueue_entry)" where
  "with_entries al [] m = m"
| "with_entries al (f # fs) m =
     with_entries al fs (m(job_entry al f \<mapsto> resize_entry (ja_pixels (al f)) (job_priv al f)))"

lemma with_entries_other: "e \<notin> job_entry al ` set fs \<Longrightarrow> with_entries al fs m e = m e"
  by (induction fs arbitrary: m) auto

lemma with_entries_at:
  "f \<in> set fs \<Longrightarrow> distinct (map (job_entry al) fs) \<Longrightarrow>
     with_entries al fs m (job_entry al f) = Some (resize_entry (ja_pixels (al f)) (job_priv al f))"
  by (induction fs arbitrary: m) (auto simp: with_entries_other image_iff)

lemma with_privs_other: "p \<notin> job_priv al ` set fs \<Longrightarrow> with_privs al w h fs m p = m p"
  by (induction fs arbitrary: m) auto

lemma with_privs_at:
  "f \<in> set fs \<Longrightarrow> distinct (map (job_priv al) fs) \<Longrightarrow>
     with_privs al w h fs m (job_priv al f) = Some \<lparr>rp_fb = f, rp_size = \<lparr>width = w, height = h\<rparr>\<rparr>"
  by (induction fs arbitrary: m) (auto simp: with_privs_other image_iff)

lemma run_resize_body:
  assumes "wq_rep st ws Q" "\<forall>i < length ws. \<not> wq_lock (ws ! i)" "allocs_ok al fs st"
    "\<forall>f \<in> set fs. f \<in> dom (fbs (mw_mem (world st))) \<and> node_of (world st) f < length ws"
  shows "\<exists>st'. run_entries (resize_body al w h) fs st = Some (Inl st') \<and>
           wq_rep st' ws (job_queues al (world st) fs Q) \<and>
           wents st' = with_entries al fs (wents st) \<and>
           world st' = (world st)\<lparr>mw_privs := with_privs al w h fs (mw_privs (world st))\<rparr>"
  using assms
proof (induction fs arbitrary: st Q)
  case Nil
  have "job_queues al (world st) [] Q = Q" by (simp add: job_queues_def fun_eq_iff)
  with Nil show ?case by simp
next
  case (Cons f fs)
  obtain F where F: "fbs (mw_mem (world st)) f = Some F" using Cons.prems(4) by auto
  have a: "ja_priv (al f) \<noteq> None" "ja_entry (al f) \<noteq> None"
    "job_entry al f \<notin> dom (wents st)" "job_entry al f \<notin> dom (entries (wheap st))"
    using Cons.prems(3) by (simp_all add: allocs_ok_def)
  then obtain p e where pe0: "ja_priv (al f) = Some p" "ja_entry (al f) = Some e" by blast
  have pe: "ja_priv (al f) = Some p" "ja_entry (al f) = Some e"
    "e \<notin> dom (wents st)" "e \<notin> dom (entries (wheap st))"
    using a pe0 by simp_all
  let ?i = "unat (numa_node F)" and ?E = "resize_entry (ja_pixels (al f)) p"
  let ?R = "\<lparr>rp_fb = f, rp_size = \<lparr>width = w, height = h\<rparr>\<rparr>"
  let ?st = "st\<lparr>world := (world st)\<lparr>mw_privs := (mw_privs (world st))(p \<mapsto> ?R)\<rparr>\<rparr>"
  have i: "?i < length ws" using Cons.prems(4) F by (simp add: node_of_def)
  have rep: "wq_rep ?st ws Q" using Cons.prems(1) by (simp add: wq_rep_world)
  obtain s1 where s1: "workqueue_enqueue (numa_node F) ?E (Some e) ?st = Some (0, s1)"
    "wq_rep s1 ws (Q(?i := Q ?i @ [e]))" "wents s1 = (wents st)(e \<mapsto> ?E)"
    "world s1 = (world st)\<lparr>mw_privs := (mw_privs (world st))(p \<mapsto> ?R)\<rparr>"
    using enqueue_rep [OF rep i, of e ?E] Cons.prems(2) i pe(3,4) by auto
  have heap: "dom (entries (wheap s1)) = insert e (dom (entries (wheap st)))"
    using enqueue_entries_heap [OF s1(1) rep i] pe(3) by simp
  have body: "resize_body al w h st f = Some (Inl s1)"
    using F pe s1(1) by (simp add: resize_body_def Let_def)
  have ok: "allocs_ok al fs s1"
    using Cons.prems(3) heap pe s1(3) unfolding allocs_ok_def
    by (auto simp: image_iff)
  have nodes: "node_of (world s1) = node_of (world st)" by (simp add: node_of_def s1(4) fun_eq_iff)
  have dom: "\<forall>f \<in> set fs. f \<in> dom (fbs (mw_mem (world s1))) \<and> node_of (world s1) f < length ws"
    using Cons.prems(4) nodes s1(4) by simp
  obtain st' where st': "run_entries (resize_body al w h) fs s1 = Some (Inl st')"
    "wq_rep st' ws (job_queues al (world s1) fs (Q(?i := Q ?i @ [e])))"
    "wents st' = with_entries al fs (wents s1)"
    "world st' = (world s1)\<lparr>mw_privs := with_privs al w h fs (mw_privs (world s1))\<rparr>"
    using Cons.IH [OF s1(2) Cons.prems(2) ok dom] by blast
  have "job_queues al (world s1) fs (Q(?i := Q ?i @ [e])) = job_queues al (world st) (f # fs) Q"
    using nodes F pe by (auto simp: job_queues_def fun_eq_iff node_of_def)
  with st' body s1 pe show ?case by simp
qed

lemma resize_body_mem:
  assumes "resize_body al w h st e = Some (Inl st')"
  shows "mw_mem (world st') = mw_mem (world st)"
  using assms
  by (auto simp: resize_body_def workqueue_enqueue_def wq_mutex_lock_def wq_mutex_unlock_def Let_def
        bind_eq_Some_conv resize_wq_cleanup_def split: option.splits if_splits prod.splits)

lemma resize_cb_rep:
  assumes "wq_rep st ws Q" "\<forall>i < length ws. \<not> wq_lock (ws ! i)" "allocs_ok al fs st"
    "\<forall>f \<in> set fs. f \<in> dom (fbs (mw_mem (world st))) \<and> node_of (world st) f < length ws"
    "llist_rep (links (mw_mem (world st))) l fs"
  shows "\<exists>st'. resize_cb al l w h st = Some (0, st') \<and>
           wq_rep st' ws (job_queues al (world st) fs Q) \<and>
           wents st' = with_entries al fs (wents st) \<and>
           world st' = (world st)\<lparr>mw_privs := with_privs al w h fs (mw_privs (world st))\<rparr>"
proof -
  obtain L where L: "llists (links (mw_mem (world st))) l = Some L" "l_head L = ptr_first fs None"
    using llist_head_rep [OF assms(5)] by blast
  have "llist_for_each (\<lambda>st. links (mw_mem (world st))) (resize_body al w h) (ptr_first fs None) st =
      run_entries (resize_body al w h) fs st"
    by (rule for_each_rep [OF assms(5)]) (auto dest: resize_body_mem)
  with run_resize_body [OF assms(1-4), of w h] L show ?thesis by (auto simp: resize_cb_def)
qed

section \<open>Running the jobs\<close>

text \<open>
  A job whose pixels could be allocated resizes its frame buffer; its \<open>priv\<close> stays
  allocated, because the clean-up handler is for errors only. Without memory the error
  handler shuts the program down and ends the worker.
\<close>

lemma item_resize_ok:
  assumes "mw_privs w p = Some R" "fb_wf (mw_mem w) (rp_fb R)" "a \<notin> dom (pxs (mw_mem w))"
    "unat (width (rp_size R)) * unat (height (rp_size R)) < 2 ^ 32"
  shows "\<exists>mem'. item_spec (resize_entry (Some a) p) w = Some (True, w\<lparr>mw_mem := mem'\<rparr>) \<and>
           fb_resize (Some a) (mw_mem w) (rp_fb R) (width (rp_size R)) (height (rp_size R)) = Some (0, mem')"
proof -
  obtain mem' where
    "fb_resize (Some a) (mw_mem w) (rp_fb R) (width (rp_size R)) (height (rp_size R)) = Some (0, mem')"
    using fb_resize_wf [OF assms(2,3,4)] by blast
  with assms(1) show ?thesis by (simp add: item_spec_def resize_entry_def resize_wq_cb_def)
qed

lemma item_resize_nomem:
  assumes "mw_privs w p = Some R" "rp_fb R \<in> dom (fbs (mw_mem w))"
  shows "item_spec (resize_entry None p) w =
           Some (False, (doshutdown w)\<lparr>mw_privs := (mw_privs w)(p := None)\<rparr>)"
  using assms fb_resize_nomem [OF assms(2)]
  by (auto simp: item_spec_def resize_entry_def resize_wq_cb_def resize_wq_err_def run_cleanup_def
        resize_wq_cleanup_def doshutdown_def)

text \<open>Frame buffers that do not share pixels, and what a resize of one leaves of the others.\<close>

definition fbs_ok :: "fbmem \<Rightarrow> eaddr list \<Rightarrow> bool" where
  "fbs_ok mem fs \<longleftrightarrow> (\<forall>f \<in> set fs. fb_wf mem f) \<and>
     inj_on (\<lambda>f. pixels (the (fbs mem f))) (set fs) \<and> distinct fs"

lemma fb_resize_others:
  assumes ok: "fbs_ok mem fs" and f: "f \<in> set fs" and a: "a \<notin> dom (pxs mem)"
    and area: "unat w * unat h < 2 ^ 32" and res: "fb_resize (Some a) mem f w h = Some (0, mem')"
  shows "fbs_ok mem' fs" "\<forall>g. g \<noteq> f \<longrightarrow> fbs mem' g = fbs mem g"
    "dom (pxs mem') \<subseteq> insert a (dom (pxs mem))" "fb_dim mem' f = (w, h)"
proof -
  have wf: "fb_wf mem f" using ok f by (auto simp: fbs_ok_def)
  obtain F where F: "fbs mem f = Some F" using wf by (auto simp: fb_wf_def)
  have mem': "mem' = mem\<lparr>pxs := ((pxs mem)(a \<mapsto> replicate (unat (w * h)) 0))(pixels F := None),
                  fbs := (fbs mem)(f \<mapsto> F\<lparr>size_of := \<lparr>width = w, height = h\<rparr>, pixels := a\<rparr>)\<rparr>"
    using fb_resize_exec [OF F fb_wf_blk [OF wf F] a, of w h] res by simp
  show oth: "\<forall>g. g \<noteq> f \<longrightarrow> fbs mem' g = fbs mem g" by (simp add: mem')
  show "dom (pxs mem') \<subseteq> insert a (dom (pxs mem))" by (auto simp: mem')
  have w1: "fb_wf mem' f" "fb_dim mem' f = (w, h)"
    using fb_resize_wf [OF wf a area] res by auto
  then show "fb_dim mem' f = (w, h)" by simp
  have i: "inj_on (\<lambda>f. pixels (the (fbs mem f))) (set fs)" using ok unfolding fbs_ok_def by blast
  have px: "pixels (the (fbs mem g)) \<noteq> pixels F" "pixels (the (fbs mem g)) \<noteq> a"
    if "g \<in> set fs" "g \<noteq> f" for g
  proof -
    have g: "fb_wf mem g" using ok that by (auto simp: fbs_ok_def)
    show "pixels (the (fbs mem g)) \<noteq> pixels F" using inj_onD [OF i, of g f] that f F by auto
    show "pixels (the (fbs mem g)) \<noteq> a" using g a by (auto simp: fb_wf_def)
  qed
  have "fb_wf mem' g" if "g \<in> set fs" "g \<noteq> f" for g
    using ok that px [OF that] by (fastforce simp: fbs_ok_def mem' fb_wf_def)
  moreover have "inj_on (\<lambda>f. pixels (the (fbs mem' f))) (set fs)"
  proof (rule inj_onI)
    fix x y assume xy: "x \<in> set fs" "y \<in> set fs"
      "pixels (the (fbs mem' x)) = pixels (the (fbs mem' y))"
    show "x = y"
      using xy px inj_onD [OF i, of x y] by (auto simp: mem' split: if_splits)
  qed
  ultimately show "fbs_ok mem' fs" using w1(1) ok unfolding fbs_ok_def by metis
qed

lemma drain_jobs:
  assumes "fbs_ok (mw_mem w) gs" "set fs \<subseteq> set gs" "unat wd * unat ht < 2 ^ 32"
    "\<forall>f \<in> set fs. mw_privs w (P f) = Some \<lparr>rp_fb = f, rp_size = \<lparr>width = wd, height = ht\<rparr>\<rparr>"
    "\<forall>f \<in> set fs. px f \<notin> dom (pxs (mw_mem w))" "distinct (map px fs)"
  shows "\<exists>w'. drain_spec (map (\<lambda>f. resize_entry (Some (px f)) (P f)) fs) w = Some (True, length fs, w') \<and>
           fbs_ok (mw_mem w') gs \<and> mw_privs w' = mw_privs w \<and>
           (\<forall>g. fb_dim (mw_mem w') g = (if g \<in> set fs then (wd, ht) else fb_dim (mw_mem w) g))"
  using assms
proof (induction fs arbitrary: w)
  case Nil
  then show ?case by auto
next
  case (Cons f fs)
  let ?R = "\<lparr>rp_fb = f, rp_size = \<lparr>width = wd, height = ht\<rparr>\<rparr>"
  have R: "mw_privs w (P f) = Some ?R" and f: "f \<in> set gs" and a: "px f \<notin> dom (pxs (mw_mem w))"
    using Cons.prems by auto
  have wf: "fb_wf (mw_mem w) (rp_fb ?R)" using Cons.prems(1) f by (auto simp: fbs_ok_def)
  obtain mem where mem: "item_spec (resize_entry (Some (px f)) (P f)) w = Some (True, w\<lparr>mw_mem := mem\<rparr>)"
    "fb_resize (Some (px f)) (mw_mem w) f wd ht = Some (0, mem)"
    using item_resize_ok [OF R wf a] Cons.prems(3) by auto
  note o = fb_resize_others [OF Cons.prems(1) f a Cons.prems(3) mem(2)]
  let ?w = "w\<lparr>mw_mem := mem\<rparr>"
  have fresh: "\<forall>f \<in> set fs. px f \<notin> dom (pxs (mw_mem ?w))"
    using Cons.prems(5,6) o(3) by (auto simp: image_iff dest!: subsetD)
  obtain w' where w': "drain_spec (map (\<lambda>f. resize_entry (Some (px f)) (P f)) fs) ?w = Some (True, length fs, w')"
    "fbs_ok (mw_mem w') gs" "mw_privs w' = mw_privs ?w"
    "\<forall>g. fb_dim (mw_mem w') g = (if g \<in> set fs then (wd, ht) else fb_dim (mw_mem ?w) g)"
    using Cons.IH [of ?w] o(1) Cons.prems fresh by auto
  have "fb_dim mem g = (if g = f then (wd, ht) else fb_dim (mw_mem w) g)" for g
    using o(2,4) by (auto simp: fb_dim_def)
  with w' mem(1) show ?case by auto
qed

text \<open>
  All together, on a machine with one queue: the jobs of a resize event, run by the worker,
  give every frame buffer of the list the new size; the data of the jobs is never freed.
\<close>

lemma job_queue_one:
  assumes "\<forall>f \<in> set fs. node_of w f < 1"
  shows "job_queues al w fs (\<lambda>_. []) 0 = map (job_entry al) fs"
  using assms by (simp add: job_queues_def)

definition px_ok :: "(eaddr \<Rightarrow> job_allocs) \<Rightarrow> eaddr list \<Rightarrow> fbmem \<Rightarrow> bool" where
  "px_ok al fs mem \<longleftrightarrow>
     (\<forall>f \<in> set fs. ja_pixels (al f) \<noteq> None \<and> the (ja_pixels (al f)) \<notin> dom (pxs mem)) \<and>
     distinct (map (\<lambda>f. the (ja_pixels (al f))) fs)"

section \<open>Properties\<close>

text \<open>
  C23: A resize from the event to the pixels. On a machine with one queue, whose allocations
  succeed, \<open>resize_cb\<close> queues a job for every frame buffer of the list and returns 0; the worker
  then runs them all, after which every frame buffer of the list has the new size and memory for
  exactly that size, every other one its old size, and the queue is empty. The data of every
  job stays allocated: nothing frees it when the job succeeds.
\<close>
theorem resize_event_resizes_all:
  assumes "wq_rep st [W] (\<lambda>_. [])" "\<not> wq_lock W" "\<not> wq_do_exit W" "allocs_ok al fs st"
    "llist_rep (links (mw_mem (world st))) l fs" "fbs_ok (mw_mem (world st)) fs"
    "\<forall>f \<in> set fs. node_of (world st) f = 0" "px_ok al fs (mw_mem (world st))"
    "unat w * unat h < 2 ^ 32"
  shows "\<exists>st1 st2. resize_cb al l w h st = Some (0, st1) \<and> work_drain 0 st1 = Some (True, st2) \<and>
           fbs_ok (mw_mem (world st2)) fs \<and>
           (\<forall>g. fb_dim (mw_mem (world st2)) g = (if g \<in> set fs then (w, h) else fb_dim (mw_mem (world st)) g)) \<and>
           (\<forall>f \<in> set fs. mw_privs (world st2) (job_priv al f) \<noteq> None) \<and>
           wq_rep st2 [W] (\<lambda>_. [])"
proof -
  have dom: "\<forall>f \<in> set fs. f \<in> dom (fbs (mw_mem (world st))) \<and> node_of (world st) f < length [W]"
    using assms(6,7) by (auto simp: fbs_ok_def fb_wf_def)
  obtain st1 where st1: "resize_cb al l w h st = Some (0, st1)"
    "wq_rep st1 [W] (job_queues al (world st) fs (\<lambda>_. []))" "wents st1 = with_entries al fs (wents st)"
    "world st1 = (world st)\<lparr>mw_privs := with_privs al w h fs (mw_privs (world st))\<rparr>"
    using resize_cb_rep [OF assms(1) _ assms(4) dom assms(5), of w h] assms(2) by auto
  have dp: "distinct (map (job_priv al) fs)" "distinct (map (job_entry al) fs)"
    using assms(4) by (auto simp: allocs_ok_def)
  let ?Q = "job_queues al (world st) fs (\<lambda>_. [])"
  have q: "?Q 0 = map (job_entry al) fs" using assms(7) by (intro job_queue_one) simp
  have ws: "works st1 (?Q 0) = map (\<lambda>f. resize_entry (Some (the (ja_pixels (al f)))) (job_priv al f)) fs"
    using assms(8) with_entries_at [OF _ dp(2), of _ "wents st"] st1(3)
    by (auto simp: works_def q px_ok_def)
  have pr: "\<forall>f \<in> set fs. mw_privs (world st1) (job_priv al f) =
      Some \<lparr>rp_fb = f, rp_size = \<lparr>width = w, height = h\<rparr>\<rparr>"
    using with_privs_at [OF _ dp(1)] st1(4) by simp
  obtain w' where w': "drain_spec (works st1 (?Q 0)) (world st1) = Some (True, length fs, w')"
    "fbs_ok (mw_mem w') fs" "mw_privs w' = mw_privs (world st1)"
    "\<forall>g. fb_dim (mw_mem w') g = (if g \<in> set fs then (w, h) else fb_dim (mw_mem (world st1)) g)"
    unfolding ws
    using drain_jobs [OF _ order_refl assms(9) pr, of "\<lambda>f. the (ja_pixels (al f))"] assms(6,8) st1(4)
    by (auto simp: px_ok_def)
  have rep2: "wq_rep s [W] (?Q(0 := [])) = wq_rep s [W] (\<lambda>_. [])" for s :: resize_state
    by (simp add: wq_rep_def)
  obtain st2 where "work_drain 0 st1 = Some (True, st2)" "wq_rep st2 [W] (\<lambda>_. [])" "world st2 = w'"
    using work_drain_rep [OF st1(2), of 0] assms(3) w'(1) q rep2 by auto
  with st1 w' pr show ?thesis by auto
qed

definition resize_sample :: resize_state where
  "resize_sample = \<lparr>workqueues = WLive [\<lparr>wq_node = 0, wq_do_exit = False, wq_lock = False\<rparr>], num_workqueues = 1,
     num_workqueue_items = 0, wheap = \<lparr>entries = Map.empty, llists = [0 \<mapsto> \<lparr>l_head = None, l_tail = None, l_lock = False\<rparr>]\<rparr>,
     wents = Map.empty, world = \<lparr>mw_mem = fb_sample, mw_exit = False, mw_privs = Map.empty\<rparr>\<rparr>"

theorem resize_event_resizes_all_witness:
  "\<exists>st1 st2. resize_cb (\<lambda>_. \<lparr>ja_priv = Some 60, ja_entry = Some 61, ja_pixels = Some 8\<rparr>) 0 5 4 resize_sample = Some (0, st1) \<and>
     work_drain 0 st1 = Some (True, st2) \<and> fb_dim (mw_mem (world st2)) 3 = (5, 4) \<and> mw_privs (world st2) 60 \<noteq> None"
proof -
  let ?W = "\<lparr>wq_node = 0, wq_do_exit = False, wq_lock = False\<rparr>"
  let ?al = "\<lambda>_. \<lparr>ja_priv = Some 60, ja_entry = Some 61, ja_pixels = Some 8\<rparr>"
  have 1: "wq_rep resize_sample [?W] (\<lambda>_. [])" by (simp add: wq_rep_def resize_sample_def llist_rep_def)
  have 2: "allocs_ok ?al [3] resize_sample" by (simp add: allocs_ok_def resize_sample_def)
  have 3: "llist_rep (links (mw_mem (world resize_sample))) 0 [3]"
    by (simp add: resize_sample_def fb_sample_def llist_rep_def)
  have 4: "fbs_ok (mw_mem (world resize_sample)) [3]" using fb_sample_wf(1) by (simp add: fbs_ok_def resize_sample_def)
  have 5: "\<forall>f \<in> set [3]. node_of (world resize_sample) f = 0" by (simp add: node_of_def resize_sample_def fb_sample_def)
  have 6: "px_ok ?al [3] (mw_mem (world resize_sample))" using fb_sample_wf(3) by (simp add: px_ok_def resize_sample_def)
  show ?thesis using resize_event_resizes_all [OF 1 _ _ 2 3 4 5 6, of 5 4] by force
qed

end
