(* ===== verification/Sdl.thy ===== *)
theory Sdl
  imports Framebuffer
begin

text \<open>
  The SDL front end (\<open>sdl.h\<close>, \<open>sdl.c\<close>). The SDL library is the set of objects it has handed
  out; the results of its functions and of \<open>malloc\<close> are arguments, an event carries what
  the calls made for it return. A texture is known by its size, because
  \<open>SDL_UpdateTexture\<close> reads as many rows of pixels as the texture has. \<open>'cb\<close> is the type
  of resize callbacks, run by \<open>call_cb\<close> on the frame buffers and the rest \<open>'q\<close> of the
  program.
\<close>

section \<open>State\<close>

record 'cb sdl =
  sdl_window :: nat
  sdl_renderer :: nat
  sdl_texture :: nat
  sdl_fb :: eaddr
  sdl_resize_cb :: "'cb option"

record 'cb sdl_world =
  sdls :: "eaddr \<rightharpoonup> 'cb sdl"
  sdl_inited :: bool
  sdl_windows :: "nat set"
  sdl_renderers :: "nat set"
  sdl_textures :: "nat \<rightharpoonup> (c_int \<times> c_int)"

record sdl_results =
  r_malloc :: "eaddr option"
  r_init :: c_int
  r_window :: "nat option"
  r_renderer :: "nat option"
  r_texture :: "nat option"

text \<open>An event with the results of the calls in its handler: window, size, texture, pixels.\<close>

datatype sdl_ev =
    SDL_RESIZED nat c_int c_int "nat option" "nat option"
  | SDL_QUIT_EVENT
  | SDL_OTHER

section \<open>Library calls\<close>

definition SDL_Quit :: "'cb sdl_world \<Rightarrow> 'cb sdl_world" where
  "SDL_Quit s = s\<lparr>sdl_inited := False\<rparr>"

definition SDL_DestroyWindow :: "nat \<Rightarrow> 'cb sdl_world \<Rightarrow> 'cb sdl_world option" where
  "SDL_DestroyWindow i s = do {
     _ \<leftarrow> guard (i \<in> sdl_windows s); Some (s\<lparr>sdl_windows := sdl_windows s - {i}\<rparr>) }"

definition SDL_DestroyRenderer :: "nat \<Rightarrow> 'cb sdl_world \<Rightarrow> 'cb sdl_world option" where
  "SDL_DestroyRenderer i s = do {
     _ \<leftarrow> guard (i \<in> sdl_renderers s); Some (s\<lparr>sdl_renderers := sdl_renderers s - {i}\<rparr>) }"

definition SDL_DestroyTexture :: "nat \<Rightarrow> 'cb sdl_world \<Rightarrow> 'cb sdl_world option" where
  "SDL_DestroyTexture i s = do {
     _ \<leftarrow> guard (i \<in> dom (sdl_textures s)); Some (s\<lparr>sdl_textures := (sdl_textures s)(i := None)\<rparr>) }"

definition free_sdl :: "eaddr \<Rightarrow> 'cb sdl_world \<Rightarrow> 'cb sdl_world option" where
  "free_sdl a s = do { _ \<leftarrow> guard (a \<in> dom (sdls s)); Some (s\<lparr>sdls := (sdls s)(a := None)\<rparr>) }"

text \<open>A size of the frame buffer as the \<open>int\<close> the library takes.\<close>

definition c_int_of :: "u32 \<Rightarrow> c_int" where
  "c_int_of w = sint w"

section \<open>Operations\<close>

text \<open>The error ladder: every label releases what was acquired before the failing call.\<close>

definition sdl_alloc ::
    "sdl_results \<Rightarrow> 'cb option \<Rightarrow> fbmem \<Rightarrow> eaddr \<Rightarrow> 'cb sdl_world \<Rightarrow> (c_int \<times> eaddr option \<times> 'cb sdl_world) option" where
  "sdl_alloc r param mem f s =
     (case r_malloc r of None \<Rightarrow> Some (- ENOMEM, None, s)
      | Some a \<Rightarrow> do {
          size \<leftarrow> fb_get_size mem f;
          let D = \<lparr>sdl_window = 0, sdl_renderer = 0, sdl_texture = 0, sdl_fb = f, sdl_resize_cb = param\<rparr>;
          let s = s\<lparr>sdls := (sdls s)(a \<mapsto> D)\<rparr>;
          let w = c_int_of (width size); let h = c_int_of (height size);
          if r_init r \<noteq> 0 then do { s \<leftarrow> free_sdl a s; Some (-1, None, s) }
          else let s = s\<lparr>sdl_inited := True\<rparr> in
          (case r_window r of
             None \<Rightarrow> do { s \<leftarrow> free_sdl a (SDL_Quit s); Some (-1, None, s) }
           | Some win \<Rightarrow>
          (let D = D\<lparr>sdl_window := win\<rparr>;
               s = s\<lparr>sdl_windows := insert win (sdl_windows s), sdls := (sdls s)(a \<mapsto> D)\<rparr> in
          (case r_renderer r of
             None \<Rightarrow> do { s \<leftarrow> SDL_DestroyWindow (sdl_window D) s;
                          s \<leftarrow> free_sdl a (SDL_Quit s); Some (-1, None, s) }
           | Some ren \<Rightarrow>
          (let D = D\<lparr>sdl_renderer := ren\<rparr>;
               s = s\<lparr>sdl_renderers := insert ren (sdl_renderers s), sdls := (sdls s)(a \<mapsto> D)\<rparr> in
          (case r_texture r of
             None \<Rightarrow> do { s \<leftarrow> SDL_DestroyRenderer (sdl_renderer D) s;
                          s \<leftarrow> SDL_DestroyWindow (sdl_window D) s;
                          s \<leftarrow> free_sdl a (SDL_Quit s); Some (-1, None, s) }
           | Some tex \<Rightarrow>
               Some (0, Some a, s\<lparr>sdl_textures := (sdl_textures s)(tex \<mapsto> (w, h)),
                                  sdls := (sdls s)(a \<mapsto> D\<lparr>sdl_texture := tex\<rparr>)\<rparr>)))))) })"

definition sdl_free :: "eaddr \<Rightarrow> 'cb sdl_world \<Rightarrow> 'cb sdl_world option" where
  "sdl_free a s = do {
     D \<leftarrow> sdls s a;
     s \<leftarrow> SDL_DestroyTexture (sdl_texture D) s;
     s \<leftarrow> SDL_DestroyRenderer (sdl_renderer D) s;
     s \<leftarrow> SDL_DestroyWindow (sdl_window D) s;
     free_sdl a (SDL_Quit s) }"

text \<open>
  One event. The result says whether the function returns (\<open>Some err\<close>). The value of
  \<open>fb_resize\<close> is not looked at.
\<close>

fun sdl_event ::
    "('cb \<Rightarrow> eaddr \<Rightarrow> u32 \<Rightarrow> u32 \<Rightarrow> fbmem \<times> 'q \<Rightarrow> (c_int \<times> fbmem \<times> 'q) option) \<Rightarrow> eaddr \<Rightarrow> sdl_ev \<Rightarrow>
     'cb sdl_world \<Rightarrow> fbmem \<times> 'q \<Rightarrow> (c_int option \<times> 'cb sdl_world \<times> fbmem \<times> 'q) option" where
  "sdl_event call_cb a (SDL_RESIZED window wd ht tex m_px) s mq = do {
     D \<leftarrow> sdls s a;
     _ \<leftarrow> guard (window = sdl_window D);
     _ \<leftarrow> guard (0 \<le> wd);
     _ \<leftarrow> guard (0 \<le> ht);
     (err, mq) \<leftarrow> (case sdl_resize_cb D of None \<Rightarrow> Some (0, mq)
                   | Some cb \<Rightarrow> call_cb cb a (word_of_int wd) (word_of_int ht) mq);
     if err \<noteq> 0 then Some (Some err, s, mq)
     else (case tex of None \<Rightarrow> Some (None, s, mq)
           | Some texture \<Rightarrow> do {
               let s = s\<lparr>sdl_textures := (sdl_textures s)(texture \<mapsto> (wd, ht))\<rparr>;
               s \<leftarrow> SDL_DestroyTexture (sdl_texture D) s;
               let s = s\<lparr>sdls := (sdls s)(a \<mapsto> D\<lparr>sdl_texture := texture\<rparr>)\<rparr>;
               (_, mem) \<leftarrow> fb_resize m_px (fst mq) (sdl_fb D) (word_of_int wd) (word_of_int ht);
               Some (None, s, (mem, snd mq)) }) }"
| "sdl_event call_cb a SDL_QUIT_EVENT s mq = Some (Some 1, s, mq)"
| "sdl_event call_cb a SDL_OTHER s mq = Some (None, s, mq)"

fun sdl_events ::
    "('cb \<Rightarrow> eaddr \<Rightarrow> u32 \<Rightarrow> u32 \<Rightarrow> fbmem \<times> 'q \<Rightarrow> (c_int \<times> fbmem \<times> 'q) option) \<Rightarrow> eaddr \<Rightarrow> sdl_ev list \<Rightarrow>
     'cb sdl_world \<Rightarrow> fbmem \<times> 'q \<Rightarrow> (c_int option \<times> 'cb sdl_world \<times> fbmem \<times> 'q) option" where
  "sdl_events call_cb a [] s mq = Some (None, s, mq)"
| "sdl_events call_cb a (ev # evs) s mq =
     (case sdl_event call_cb a ev s mq of None \<Rightarrow> None
      | Some (Some err, s, mq) \<Rightarrow> Some (Some err, s, mq)
      | Some (None, s, mq) \<Rightarrow> sdl_events call_cb a evs s mq)"

text \<open>
  \<open>SDL_UpdateTexture (t, NULL, pixels, pitch)\<close> with a pitch of \<open>cols\<close> pixels reads the first
  \<open>wd\<close> pixels of each of \<open>ht\<close> rows, so the last one is at \<open>(ht - 1) * cols + wd - 1\<close>.
\<close>

definition rows_readable :: "'a list \<Rightarrow> nat \<Rightarrow> c_int \<Rightarrow> c_int \<Rightarrow> bool" where
  "rows_readable xs cols wd ht \<longleftrightarrow>
     wd \<le> 0 \<or> ht \<le> 0 \<or> (nat ht - 1) * cols + nat wd \<le> length xs"

definition SDL_UpdateTexture :: "nat \<Rightarrow> nat \<Rightarrow> u32 \<Rightarrow> 'cb sdl_world \<Rightarrow> fbmem \<Rightarrow> unit option" where
  "SDL_UpdateTexture texture px cols s mem = do {
     (wd, ht) \<leftarrow> sdl_textures s texture;
     xs \<leftarrow> pxs mem px;
     guard (rows_readable xs (unat cols) wd ht) }"

definition sdl_update ::
    "('cb \<Rightarrow> eaddr \<Rightarrow> u32 \<Rightarrow> u32 \<Rightarrow> fbmem \<times> 'q \<Rightarrow> (c_int \<times> fbmem \<times> 'q) option) \<Rightarrow> eaddr \<Rightarrow> sdl_ev list \<Rightarrow>
     'cb sdl_world \<Rightarrow> fbmem \<times> 'q \<Rightarrow> (c_int \<times> 'cb sdl_world \<times> fbmem \<times> 'q) option" where
  "sdl_update call_cb a evs s mq = do {
     (r, s, mq) \<leftarrow> sdl_events call_cb a evs s mq;
     case r of Some err \<Rightarrow> Some (err, s, mq)
     | None \<Rightarrow> do {
         D \<leftarrow> sdls s a;
         F \<leftarrow> fbs (fst mq) (sdl_fb D);
         _ \<leftarrow> SDL_UpdateTexture (sdl_texture D) (pixels F) (fb_width F) s (fst mq);
         Some (0, s, mq) } }"

section \<open>The error ladder\<close>

text \<open>A failed allocation leaves nothing behind, and the error is one of two.\<close>

definition fresh_results :: "sdl_results \<Rightarrow> 'cb sdl_world \<Rightarrow> bool" where
  "fresh_results r s \<longleftrightarrow>
     (\<forall>a. r_malloc r = Some a \<longrightarrow> a \<notin> dom (sdls s)) \<and>
     (\<forall>i. r_window r = Some i \<longrightarrow> i \<notin> sdl_windows s) \<and>
     (\<forall>i. r_renderer r = Some i \<longrightarrow> i \<notin> sdl_renderers s) \<and>
     (\<forall>i. r_texture r = Some i \<longrightarrow> i \<notin> dom (sdl_textures s)) \<and> \<not> sdl_inited s"

definition results_good :: "sdl_results \<Rightarrow> bool" where
  "results_good r \<longleftrightarrow> r_malloc r \<noteq> None \<and> r_init r = 0 \<and> r_window r \<noteq> None \<and> r_renderer r \<noteq> None \<and>
     r_texture r \<noteq> None"

lemmas sdl_call_defs = SDL_Quit_def SDL_DestroyWindow_def SDL_DestroyRenderer_def
  SDL_DestroyTexture_def free_sdl_def

lemma dom_None: "a \<notin> dom m \<Longrightarrow> m(a := None) = m"
  by (auto simp: domIff)

lemma sdl_alloc_fails:
  assumes "fresh_results r s" "f \<in> dom (fbs mem)" "\<not> results_good r"
  shows "sdl_alloc r param mem f s = Some (if r_malloc r = None then - ENOMEM else -1, None, s)"
proof -
  obtain F where F: "fbs mem f = Some F" using assms(2) by blast
  show ?thesis
  proof (cases "r_malloc r")
    case None
    then show ?thesis by (simp add: sdl_alloc_def)
  next
    case (Some a)
    have a: "sdls s a = None" using assms(1) Some by (auto simp: fresh_results_def)
    then have A: "(sdls s)(a := None) = sdls s" by auto
    have i: "\<not> sdl_inited s" using assms(1) by (simp add: fresh_results_def)
    show ?thesis
    proof (cases "r_init r = 0 \<and> r_window r \<noteq> None")
      case False
      with F Some A i show ?thesis
        by (auto simp: sdl_alloc_def fb_get_size_def sdl_call_defs Let_def)
    next
      case True
      then obtain win where win: "r_window r = Some win" "r_init r = 0" by blast
      have W: "insert win (sdl_windows s) - {win} = sdl_windows s" "win \<notin> sdl_windows s"
        using assms(1) win by (auto simp: fresh_results_def)
      show ?thesis
      proof (cases "r_renderer r")
        case None
        with F Some A W win i show ?thesis
          by (simp add: sdl_alloc_def fb_get_size_def sdl_call_defs Let_def)
      next
        case (Some ren)
        then have R: "insert ren (sdl_renderers s) - {ren} = sdl_renderers s" "ren \<notin> sdl_renderers s"
          and t: "r_texture r = None"
          using assms(1,3) win \<open>r_malloc r = Some a\<close> by (auto simp: fresh_results_def results_good_def)
        from F Some A W R win i t \<open>r_malloc r = Some a\<close> show ?thesis
          by (simp add: sdl_alloc_def fb_get_size_def sdl_call_defs Let_def)
      qed
    qed
  qed
qed

text \<open>
  A front end that is set up: its window, renderer and texture are live, and the texture has
  the size of the frame buffer.
\<close>

definition sdl_ok :: "'cb sdl_world \<Rightarrow> eaddr \<Rightarrow> fbmem \<Rightarrow> bool" where
  "sdl_ok s a mem \<longleftrightarrow>
     (\<exists>D. sdls s a = Some D \<and> sdl_window D \<in> sdl_windows s \<and> sdl_renderer D \<in> sdl_renderers s \<and>
          fb_wf mem (sdl_fb D) \<and>
          sdl_textures s (sdl_texture D) =
            Some (c_int_of (fst (fb_dim mem (sdl_fb D))), c_int_of (snd (fb_dim mem (sdl_fb D)))))"

lemma sdl_alloc_ok:
  assumes "results_good r" "fb_wf mem f"
  shows "\<exists>a s'. sdl_alloc r param mem f s = Some (0, Some a, s') \<and> sdl_ok s' a mem \<and> sdl_inited s'"
proof -
  obtain F where F: "fbs mem f = Some F" using assms(2) by (auto simp: fb_wf_def)
  with assms show ?thesis
    by (auto simp: sdl_alloc_def results_good_def fb_get_size_def sdl_ok_def fb_dim_def)
qed

text \<open>Freeing what was allocated gives the state before the allocation.\<close>

lemma sdl_alloc_free:
  assumes "results_good r" "fresh_results r s" "fb_wf mem f"
    "sdl_alloc r param mem f s = Some (err, Some a, s')"
  shows "sdl_free a s' = Some s"
proof -
  obtain F where F: "fbs mem f = Some F" using assms(3) by (auto simp: fb_wf_def)
  obtain win ren tex where r: "r_malloc r = Some a" "r_init r = 0" "r_window r = Some win"
    "r_renderer r = Some ren" "r_texture r = Some tex"
    using assms(1,4) F by (auto simp: results_good_def sdl_alloc_def fb_get_size_def)
  have u: "sdls s a = None" "win \<notin> sdl_windows s" "ren \<notin> sdl_renderers s" "sdl_textures s tex = None"
    "\<not> sdl_inited s"
    using assms(2) r by (auto simp: fresh_results_def)
  then have e: "(sdls s)(a := None) = sdls s" "(sdl_textures s)(tex := None) = sdl_textures s"
    "insert win (sdl_windows s) - {win} = sdl_windows s" "insert ren (sdl_renderers s) - {ren} = sdl_renderers s"
    by auto
  from assms(4) F r show ?thesis
    by (auto simp: sdl_alloc_def fb_get_size_def sdl_free_def sdl_call_defs e u)
qed

section \<open>Updating\<close>

lemma c_int_of_small: "0 \<le> w \<Longrightarrow> w < 2 ^ 31 \<Longrightarrow> c_int_of (word_of_int w) = w"
  unfolding c_int_of_def by (subst sint_sbintrunc') (simp add: signed_take_bit_int_eq_self)

lemma nat_sint_pos:
  fixes v :: u32
  assumes "0 < sint v"
  shows "nat (sint v) = unat v"
proof -
  have r: "0 \<le> uint v" "uint v < 2 ^ 32" using uint_lt2p [of v] by simp_all
  then have "take_bit 32 (uint v) = uint v" by (simp add: take_bit_int_eq_self)
  then have "sint v = uint v - 2 ^ 32 * of_bool (bit (uint v) 31)"
    using signed_take_bit_eq_take_bit_minus [of 31 "uint v"] by (simp add: sint_uint)
  with assms r show ?thesis by (cases "bit (uint v) 31") auto
qed

lemma rows_of_frame:
  fixes w h :: u32
  assumes "length xs = unat w * unat h"
  shows "rows_readable xs (unat w) (c_int_of w) (c_int_of h)"
proof (cases "0 < sint w \<and> 0 < sint h")
  case False
  then show ?thesis by (auto simp: rows_readable_def c_int_of_def)
next
  case True
  then have n: "nat (sint w) = unat w" "nat (sint h) = unat h" "0 < unat h"
    using nat_sint_pos by (auto simp flip: nat_sint_pos)
  then have "(unat h - 1) * unat w + unat w = unat w * unat h"
    by (cases "unat h") auto
  then show ?thesis using n assms by (simp add: rows_readable_def c_int_of_def)
qed

text \<open>One event with a texture and pixels of the new size keeps the front end set up.\<close>

definition event_good :: "'cb sdl_world \<Rightarrow> eaddr \<Rightarrow> fbmem \<Rightarrow> sdl_ev \<Rightarrow> bool" where
  "event_good s a mem ev =
     (case ev of SDL_RESIZED window wd ht tex m_px \<Rightarrow>
        window = sdl_window (the (sdls s a)) \<and> 0 \<le> wd \<and> 0 \<le> ht \<and> wd < 2 ^ 31 \<and> ht < 2 ^ 31 \<and> wd * ht < 2 ^ 32 \<and>
        (\<exists>t x. tex = Some t \<and> t \<notin> dom (sdl_textures s) \<and> m_px = Some x \<and> x \<notin> dom (pxs mem))
      | _ \<Rightarrow> True)"

lemma event_ok:
  assumes ok: "sdl_ok s a mem" and ev: "event_good s a mem ev"
    and cb: "sdl_resize_cb (the (sdls s a)) = None"
  shows "\<exists>r s' mem'. sdl_event call_cb a ev s (mem, q) = Some (r, s', mem', q) \<and> sdl_ok s' a mem' \<and>
           sdl_resize_cb (the (sdls s' a)) = None \<and> sdl_window (the (sdls s' a)) = sdl_window (the (sdls s a))"
proof (cases ev)
  case (SDL_RESIZED window wd ht tex m_px)
  obtain D where D: "sdls s a = Some D" "fb_wf mem (sdl_fb D)" "sdl_window D \<in> sdl_windows s"
    "sdl_renderer D \<in> sdl_renderers s" "sdl_texture D \<in> dom (sdl_textures s)"
    using ok by (auto simp: sdl_ok_def)
  obtain t x where tx: "tex = Some t" "t \<notin> dom (sdl_textures s)" "m_px = Some x" "x \<notin> dom (pxs mem)"
    and rng: "window = sdl_window D" "0 \<le> wd" "0 \<le> ht" "wd < 2 ^ 31" "ht < 2 ^ 31" "wd * ht < 2 ^ 32"
    using ev SDL_RESIZED D by (auto simp: event_good_def)
  let ?w = "word_of_int wd :: u32" and ?h = "word_of_int ht :: u32"
  have "unat ?w = nat wd" "unat ?h = nat ht"
    using rng by (auto simp: unat_eq_nat_uint uint_word_of_int)
  then have "unat ?w * unat ?h = nat (wd * ht)" using rng by (simp add: nat_mult_distrib)
  then have area: "unat ?w * unat ?h < 2 ^ 32" using rng by simp
  obtain mem' where mem': "fb_resize (Some x) mem (sdl_fb D) ?w ?h = Some (0, mem')"
    "fb_wf mem' (sdl_fb D)" "fb_dim mem' (sdl_fb D) = (?w, ?h)"
    using fb_resize_wf [OF D(2) tx(4) area] by blast
  have ne: "t \<noteq> sdl_texture D" using tx(2) D(5) by auto
  let ?s = "s\<lparr>sdl_textures := ((sdl_textures s)(t \<mapsto> (wd, ht)))(sdl_texture D := None),
             sdls := (sdls s)(a \<mapsto> D\<lparr>sdl_texture := t\<rparr>)\<rparr>"
  have "sdl_event call_cb a ev s (mem, q) = Some (None, ?s, mem', q)"
    using SDL_RESIZED D tx rng cb mem'(1) by (simp add: SDL_DestroyTexture_def Let_def)
  moreover have "sdl_ok ?s a mem'"
    using D mem' ne rng by (simp add: sdl_ok_def c_int_of_small)
  ultimately show ?thesis using D(1) cb by auto
qed (use ok cb in auto)

text \<open>
  While every resize gets its memory, an update stays inside the pixels and keeps the front
  end set up. Without the memory for the new pixels the texture has the new size and the
  frame buffer the old one, and the copy reads beyond the pixels.
\<close>

lemma update_texture_ok:
  assumes "sdl_ok s a mem" "sdls s a = Some D" "fbs mem (sdl_fb D) = Some F"
  shows "SDL_UpdateTexture (sdl_texture D) (pixels F) (fb_width F) s mem = Some ()"
  using assms rows_of_frame
  by (auto simp: sdl_ok_def fb_dim_def SDL_UpdateTexture_def fb_wf_def)

lemma sdl_update_quiet:
  assumes "sdl_ok s a mem" "\<forall>ev \<in> set evs. ev = SDL_OTHER"
  shows "sdl_update call_cb a evs s (mem, q) = Some (0, s, (mem, q))"
proof -
  have evs: "sdl_events call_cb a evs s (mem, q) = Some (None, s, mem, q)"
    using assms(2) by (induction evs) auto
  obtain D F where D: "sdls s a = Some D" "fbs mem (sdl_fb D) = Some F"
    using assms(1) by (auto simp: sdl_ok_def fb_wf_def)
  show ?thesis using evs D update_texture_ok [OF assms(1) D] by (simp add: sdl_update_def)
qed

lemma sdl_update_resize:
  assumes "sdl_ok s a mem" "event_good s a mem ev" "sdl_resize_cb (the (sdls s a)) = None"
    "\<forall>e \<in> set evs. e = SDL_OTHER"
  shows "\<exists>err s' mem'. sdl_update call_cb a (ev # evs) s (mem, q) = Some (err, s', mem', q) \<and>
           sdl_ok s' a mem' \<and> sdl_resize_cb (the (sdls s' a)) = None"
proof -
  obtain r s' mem' where r: "sdl_event call_cb a ev s (mem, q) = Some (r, s', mem', q)"
    "sdl_ok s' a mem'" "sdl_resize_cb (the (sdls s' a)) = None"
    using event_ok [OF assms(1-3)] by metis
  have "sdl_update call_cb a evs s' (mem', q) = Some (0, s', (mem', q))"
    by (rule sdl_update_quiet [OF r(2) assms(4)])
  then have "sdl_update call_cb a (ev # evs) s (mem, q) =
      (case r of None \<Rightarrow> Some (0, s', mem', q) | Some err \<Rightarrow> Some (err, s', mem', q))"
    using r(1) by (auto simp: sdl_update_def split: option.splits)
  with r show ?thesis by (cases r) auto
qed

lemma sdl_update_nomem:
  assumes "sdls s a = Some D" "sdl_resize_cb D = None" "sdl_texture D \<in> dom (sdl_textures s)"
    "t \<noteq> sdl_texture D" "fbs mem (sdl_fb D) = Some F" "pxs mem (pixels F) = Some xs"
    "0 < wd" "0 < ht" "length xs < (nat ht - 1) * unat (fb_width F) + nat wd"
  shows "sdl_update call_cb a [SDL_RESIZED (sdl_window D) wd ht (Some t) None] s (mem, q) = None"
proof -
  have "fb_resize None mem (sdl_fb D) w h = Some (- ENOMEM, mem)" for w h
    using assms(5) by (intro fb_resize_nomem) auto
  with assms show ?thesis
    by (simp add: sdl_update_def SDL_DestroyTexture_def SDL_UpdateTexture_def rows_readable_def)
qed

section \<open>Properties\<close>

text \<open>
  C37: The error ladder of \<open>sdl_alloc\<close>. Whichever call fails, the function returns a
  negative number and leaves SDL, its objects and the allocations exactly as they were; when
  all succeed the front end is set up with a texture of the frame buffer's size, and
  \<open>sdl_free\<close> takes everything back.
\<close>
theorem sdl_alloc_all_or_nothing:
  assumes "fresh_results r s" "fb_wf mem f"
  shows "if results_good r
     then \<exists>a s'. sdl_alloc r param mem f s = Some (0, Some a, s') \<and> sdl_ok s' a mem \<and> sdl_inited s' \<and> sdl_free a s' = Some s
     else \<exists>err < 0. sdl_alloc r param mem f s = Some (err, None, s)"
proof (cases "results_good r")
  case True
  then show ?thesis using sdl_alloc_ok [OF True assms(2), of param s] sdl_alloc_free [OF True assms] by auto
next
  case False
  have "f \<in> dom (fbs mem)" using assms(2) by (auto simp: fb_wf_def)
  with False show ?thesis using sdl_alloc_fails [OF assms(1) _ False, of f mem param] by auto
qed

definition sdl_sample :: "nat sdl_world" where
  "sdl_sample = \<lparr>sdls = [40 \<mapsto> \<lparr>sdl_window = 41, sdl_renderer = 42, sdl_texture = 43, sdl_fb = 3, sdl_resize_cb = None\<rparr>],
     sdl_inited = True, sdl_windows = {41}, sdl_renderers = {42}, sdl_textures = [43 \<mapsto> (2, 2)]\<rparr>"

lemma sdl_sample_ok: "sdl_ok sdl_sample 40 fb_sample"
  using fb_sample_wf by (simp add: sdl_ok_def sdl_sample_def c_int_of_def)

theorem sdl_alloc_all_or_nothing_witness:
  "\<exists>err < 0. sdl_alloc \<lparr>r_malloc = Some 50, r_init = 0, r_window = Some 51, r_renderer = Some 52, r_texture = None\<rparr> None
     fb_sample 3 (sdl_sample\<lparr>sdl_inited := False\<rparr>) = Some (err, None, sdl_sample\<lparr>sdl_inited := False\<rparr>)"
  using sdl_alloc_all_or_nothing [OF _ fb_sample_wf(1), of
      "\<lparr>r_malloc = Some 50, r_init = 0, r_window = Some 51, r_renderer = Some 52, r_texture = None\<rparr>"
      "sdl_sample\<lparr>sdl_inited := False\<rparr>" None]
  by (simp add: fresh_results_def results_good_def sdl_sample_def)

text \<open>
  A resized SDL window. When the memory for the new pixels is there, \<open>sdl_update\<close> returns
  with texture and frame buffer of the same size, and copies inside the pixels; when it is not, the
  failure of \<open>fb_resize\<close> is not looked at, the texture has the new size and the frame buffer
  the old one, and for a larger window the copy reads beyond the pixels.
\<close>
theorem sdl_resize_needs_memory:
  assumes "sdl_ok s a mem" "event_good s a mem (SDL_RESIZED window wd ht (Some t) (Some x))"
    "sdls s a = Some D" "sdl_resize_cb D = None" "fbs mem (sdl_fb D) = Some F"
  shows "(\<exists>err s' mem'. sdl_update call_cb a [SDL_RESIZED window wd ht (Some t) (Some x)] s (mem, q) = Some (err, s', mem', q) \<and>
       sdl_ok s' a mem') \<and>
     (0 < wd \<longrightarrow> 0 < ht \<longrightarrow> unat (fb_width F) * unat (fb_height F) < (nat ht - 1) * unat (fb_width F) + nat wd \<longrightarrow>
       sdl_update call_cb a [SDL_RESIZED window wd ht (Some t) None] s (mem, q) = None)"
proof
  show "\<exists>err s' mem'. sdl_update call_cb a [SDL_RESIZED window wd ht (Some t) (Some x)] s (mem, q) = Some (err, s', mem', q) \<and>
      sdl_ok s' a mem'"
    using sdl_update_resize [OF assms(1,2), of "[]" call_cb q] assms(3,4) by auto
  obtain xs where px: "pxs mem (pixels F) = Some xs" "length xs = unat (fb_width F) * unat (fb_height F)"
    and tx: "sdl_texture D \<in> dom (sdl_textures s)"
    using assms(1,3,5) by (auto simp: sdl_ok_def fb_wf_def)
  have "window = sdl_window D" "t \<noteq> sdl_texture D" using assms(2,3) tx by (auto simp: event_good_def)
  then show "0 < wd \<longrightarrow> 0 < ht \<longrightarrow> unat (fb_width F) * unat (fb_height F) < (nat ht - 1) * unat (fb_width F) + nat wd \<longrightarrow>
      sdl_update call_cb a [SDL_RESIZED window wd ht (Some t) None] s (mem, q) = None"
    using sdl_update_nomem [OF assms(3,4) tx _ assms(5) px(1), of t wd ht call_cb q] px(2) by simp
qed

theorem sdl_resize_needs_memory_witness:
  "sdl_update (\<lambda>_ _ _ _ _. None) 40 [SDL_RESIZED 41 3 3 (Some 44) None] sdl_sample (fb_sample, ()) = None"
proof -
  have F: "sdls sdl_sample 40 = Some \<lparr>sdl_window = 41, sdl_renderer = 42, sdl_texture = 43, sdl_fb = 3, sdl_resize_cb = None\<rparr>"
    "fbs fb_sample 3 = Some \<lparr>size_of = \<lparr>width = 2, height = 2\<rparr>, pixels = 7, numa_node = 0, pixelCounter = 0, bytesCounter = 0\<rparr>"
    by (simp_all add: sdl_sample_def fb_sample_def)
  have "event_good sdl_sample 40 fb_sample (SDL_RESIZED 41 3 3 (Some 44) (Some 8))"
    using fb_sample_wf(3) by (simp add: event_good_def sdl_sample_def)
  from sdl_resize_needs_memory [OF sdl_sample_ok this F(1), simplified, OF F(2), where call_cb = "\<lambda>_ _ _ _ _. None" and q = "()"]
  show ?thesis by simp
qed

end
