(* ===== verification/Frontend.thy ===== *)
theory Frontend
  imports Prelude
begin

text \<open>
  Front ends by name and their options: \<open>frontend.h\<close> and \<open>frontend.c\<close>. A C string is the
  list of its characters before the NUL; a pointer into it is a suffix, and writing a NUL
  at a separator splits it. A front end definition has an optional array of options that
  ends with an option of empty name; \<open>'f\<close> is the state an option's \<open>configure\<close> changes.
  Also here, because options need it, is \<open>atoi\<close> with the behaviour of glibc.
\<close>

section \<open>C strings\<close>

fun strchr :: "string \<Rightarrow> char \<Rightarrow> nat option" where
  "strchr [] c = None"
| "strchr (d # s) c = (if d = c then Some 0 else map_option Suc (strchr s c))"

lemma strchr_None [simp]: "strchr s c = None \<longleftrightarrow> c \<notin> set s"
  by (induction s) auto

lemma strchr_Some_bound: "strchr s c = Some i \<Longrightarrow> i < length s"
  by (induction s arbitrary: i) (auto split: if_splits)

lemma strchr_append: "c \<notin> set s \<Longrightarrow> strchr (s @ c # t) c = Some (length s)"
  by (induction s) auto

lemma strchr_Some_split:
  "strchr s c = Some i \<Longrightarrow> c \<notin> set (take i s) \<and> s = take i s @ c # drop (Suc i) s"
  by (induction s arbitrary: i) (auto split: if_splits)

text \<open>
  \<open>atoi\<close>: white space, an optional sign, digits; \<open>strtol\<close> saturates at the 64-bit
  \<open>long\<close>, the result is converted to \<open>int\<close> by dropping the upper half.
\<close>

definition is_space :: "char \<Rightarrow> bool" where
  "is_space c \<longleftrightarrow> of_char c = (32 :: nat) \<or> (9 \<le> (of_char c :: nat) \<and> of_char c \<le> (13 :: nat))"

definition is_digit :: "char \<Rightarrow> bool" where
  "is_digit c \<longleftrightarrow> 48 \<le> (of_char c :: nat) \<and> of_char c \<le> (57 :: nat)"

definition digit_val :: "char \<Rightarrow> nat" where
  "digit_val c = of_char c - 48"

fun digits_val :: "string \<Rightarrow> nat \<Rightarrow> nat" where
  "digits_val [] acc = acc"
| "digits_val (c # s) acc = (if is_digit c then digits_val s (10 * acc + digit_val c) else acc)"

definition strtol10 :: "string \<Rightarrow> int" where
  "strtol10 s =
     (let s = dropWhile is_space s;
          (neg, s) = (case s of c # t \<Rightarrow> if c = CHR ''-'' then (True, t)
                                     else if c = CHR ''+'' then (False, t) else (False, s)
                      | [] \<Rightarrow> (False, s));
          v = int (digits_val s 0);
          v = (if neg then - v else v)
      in max (- (2 ^ 63)) (min (2 ^ 63 - 1) v))"

definition atoi :: "string \<Rightarrow> c_int" where
  "atoi s = signed_take_bit 31 (strtol10 s)"

section \<open>Definitions of front ends\<close>

record 'f frontend_arg =
  arg_name :: string
  arg_configure :: "'f \<Rightarrow> string option \<Rightarrow> (c_int \<times> 'f) option"

record 'f frontend_def =
  def_name :: string
  handles_signals :: bool
  def_args :: "'f frontend_arg list option"

text \<open>The table \<open>frontends\<close>: the entries before the terminator.\<close>

definition frontend_get_def :: "(string \<times> 'd) list \<Rightarrow> string \<Rightarrow> 'd option" where
  "frontend_get_def frontends ident = map_option snd (find (\<lambda>(n, _). ident = n) frontends)"

text \<open>The specification is cut at the first comma; the result is the string after it.\<close>

definition frontend_spec_extract_name :: "string \<Rightarrow> string \<times> string option" where
  "frontend_spec_extract_name spec =
     (case strchr spec CHR '','' of
        Some sep \<Rightarrow> (take sep spec,
                     if sep + 1 < length spec then Some (drop (sep + 1) spec) else None)
      | None \<Rightarrow> (spec, None))"

section \<open>Options\<close>

text \<open>
  The search over the argument array: undefined beyond its end, so the array must have a
  terminator or the name.
\<close>

fun find_arg ::
    "'f frontend_arg list \<Rightarrow> string \<Rightarrow> string option \<Rightarrow> 'f \<Rightarrow> (c_int \<times> 'f) option" where
  "find_arg [] option_name value front = None"
| "find_arg (a # args) option_name value front =
     (if arg_name a = [] then Some (- ENOENT, front)
      else if option_name = arg_name a then arg_configure a front value
      else find_arg args option_name value front)"

definition frontend_configure_option ::
    "'f frontend_arg list option \<Rightarrow> 'f \<Rightarrow> string \<Rightarrow> (c_int \<times> 'f) option" where
  "frontend_configure_option args front opt =
     (let sep = strchr opt CHR ''='';
          sep_limit = strchr opt CHR '','';
          (opt, value) =
            (case sep of
               Some i \<Rightarrow> if (case sep_limit of Some l \<Rightarrow> i < l | None \<Rightarrow> True)
                         then (take i opt, if i + 1 < length opt then Some (drop (i + 1) opt) else None)
                         else (opt, None)
             | None \<Rightarrow> (opt, None))
      in case args of None \<Rightarrow> Some (- ENOENT, front)
         | Some as \<Rightarrow> find_arg as opt value front)"

function frontend_configure ::
    "'f frontend_arg list option \<Rightarrow> 'f \<Rightarrow> string \<Rightarrow> (c_int \<times> 'f) option" where
  "frontend_configure args front options =
     (if options = [] then Some (0, front)
      else case strchr options CHR '','' of
        Some sep \<Rightarrow>
          (case frontend_configure_option args front (take sep options) of
             None \<Rightarrow> None
           | Some (err, front) \<Rightarrow>
               if err \<noteq> 0 then Some (err, front)
               else frontend_configure args front (drop (sep + 1) options))
      | None \<Rightarrow> frontend_configure_option args front options)"
  by pat_completeness auto
termination
  by (relation "measure (\<lambda>(args, front, options). length options)") auto

declare frontend_configure.simps [simp del]

section \<open>Properties of the parsers\<close>

lemma get_def_found:
  "frontend_get_def ((n, d) # t) ident = (if ident = n then Some d else frontend_get_def t ident)"
  by (simp add: frontend_get_def_def)

lemma get_def_iff:
  "distinct (map fst t) \<Longrightarrow> frontend_get_def t ident = Some d \<longleftrightarrow> (ident, d) \<in> set t"
  by (induction t) (force simp: get_def_found frontend_get_def_def)+

lemma get_def_none: "frontend_get_def t ident = None \<longleftrightarrow> ident \<notin> fst ` set t"
  by (induction t) (auto simp: get_def_found frontend_get_def_def split: if_splits)

text \<open>A name and options, put together with a comma, come apart again.\<close>

lemma extract_name_join:
  assumes "CHR '','' \<notin> set n"
  shows "frontend_spec_extract_name (n @ CHR '','' # opts) = (n, if opts = [] then None else Some opts)"
  using strchr_append [OF assms, of opts] by (simp add: frontend_spec_extract_name_def)

lemma extract_name_plain:
  assumes "CHR '','' \<notin> set n"
  shows "frontend_spec_extract_name n = (n, None)"
proof -
  have "strchr n CHR '','' = None" using assms by simp
  then show ?thesis unfolding frontend_spec_extract_name_def by (simp only: option.case)
qed

text \<open>The reference: options are run one after the other, up to the first error.\<close>

fun run_options ::
    "('f \<Rightarrow> 'o \<Rightarrow> (c_int \<times> 'f) option) \<Rightarrow> 'f \<Rightarrow> 'o list \<Rightarrow> (c_int \<times> 'f) option" where
  "run_options f front [] = Some (0, front)"
| "run_options f front (x # xs) =
     (case f front x of None \<Rightarrow> None
      | Some (err, front) \<Rightarrow> if err \<noteq> 0 then Some (err, front) else run_options f front xs)"

fun join_options :: "string list \<Rightarrow> string" where
  "join_options [] = []"
| "join_options [x] = x"
| "join_options (x # y # xs) = x @ CHR '','' # join_options (y # xs)"

text \<open>The pieces between commas; an empty piece at the very end is not an option.\<close>

function split_options :: "string \<Rightarrow> string list" where
  "split_options s =
     (if s = [] then []
      else case strchr s CHR '','' of
        Some i \<Rightarrow> take i s # split_options (drop (i + 1) s)
      | None \<Rightarrow> [s])"
  by pat_completeness auto
termination
  by (relation "measure length") auto

declare split_options.simps [simp del]

lemma configure_split:
  "frontend_configure args front options =
     run_options (frontend_configure_option args) front (split_options options)"
proof (induction args front options rule: frontend_configure.induct)
  case (1 args front options)
  show ?case
  proof (cases "options = []")
    case True
    then show ?thesis
      by (simp add: frontend_configure.simps [of _ _ "[]"] split_options.simps [of "[]"])
  next
    case ne: False
    show ?thesis
    proof (cases "strchr options CHR '',''")
      case None
      then show ?thesis using ne
        by (simp add: frontend_configure.simps [of _ _ options] split_options.simps [of options]
              del: strchr_None split: option.splits)
    next
      case (Some i)
      then show ?thesis using ne 1
        by (simp add: frontend_configure.simps [of _ _ options] split_options.simps [of options]
              split: option.splits)
    qed
  qed
qed

lemma split_join:
  assumes "\<forall>x \<in> set xs. CHR '','' \<notin> set x" "xs = [] \<or> last xs \<noteq> []"
  shows "split_options (join_options xs) = xs"
  using assms
proof (induction xs rule: join_options.induct)
  case 1
  then show ?case by (simp add: split_options.simps [of "[]"])
next
  case (2 x)
  then have "strchr x CHR '','' = None" by simp
  with 2 show ?case by (simp add: split_options.simps [of x] del: strchr_None)
next
  case (3 x y xs)
  then have "strchr (x @ CHR '','' # join_options (y # xs)) CHR '','' = Some (length x)"
    by (intro strchr_append) simp
  with 3 show ?case by (simp add: split_options.simps [of "x @ _"])
qed

section \<open>Settings\<close>

text \<open>One setting as text: \<open>name\<close> or \<open>name=value\<close>.\<close>

fun render_setting :: "string \<times> string option \<Rightarrow> string" where
  "render_setting (n, None) = n"
| "render_setting (n, Some v) = n @ CHR ''='' # v"

definition plain_setting :: "string \<times> string option \<Rightarrow> bool" where
  "plain_setting s \<longleftrightarrow> fst s \<noteq> [] \<and> CHR '','' \<notin> set (fst s) \<and> CHR ''='' \<notin> set (fst s) \<and>
     (\<forall>v. snd s = Some v \<longrightarrow> v \<noteq> [] \<and> CHR '','' \<notin> set v)"

text \<open>What setting a name means: the \<open>configure\<close> of the first argument of that name.\<close>

definition apply_setting ::
    "'f frontend_arg list \<Rightarrow> 'f \<Rightarrow> string \<times> string option \<Rightarrow> (c_int \<times> 'f) option" where
  "apply_setting args front s =
     (case find (\<lambda>a. arg_name a = fst s) args of
        None \<Rightarrow> Some (- ENOENT, front)
      | Some a \<Rightarrow> arg_configure a front (snd s))"

definition args_ok :: "'f frontend_arg list \<Rightarrow> 'f frontend_arg list \<Rightarrow> bool" where
  "args_ok all args \<longleftrightarrow> (\<exists>t. all = args @ [t] \<and> arg_name t = []) \<and> (\<forall>a \<in> set args. arg_name a \<noteq> [])"

lemma find_arg_apply:
  assumes "args_ok all args" "n \<noteq> []"
  shows "find_arg all n v front = apply_setting args front (n, v)"
proof -
  obtain t where t: "all = args @ [t]" "arg_name t = []" "\<forall>a \<in> set args. arg_name a \<noteq> []"
    using assms(1) by (auto simp: args_ok_def)
  have "find_arg (args @ [t]) n v front = apply_setting args front (n, v)"
    using t(3) assms(2) t(2) by (induction args) (auto simp: apply_setting_def)
  with t show ?thesis by simp
qed

lemma configure_option_render:
  assumes "plain_setting s" "args_ok all args"
  shows "frontend_configure_option (Some all) front (render_setting s) = apply_setting args front s"
proof -
  obtain n v where s: "s = (n, v)" by (cases s)
  have n: "n \<noteq> []" "CHR '','' \<notin> set n" "CHR ''='' \<notin> set n"
    and v: "\<And>x. v = Some x \<Longrightarrow> x \<noteq> [] \<and> CHR '','' \<notin> set x"
    using assms(1) s by (auto simp: plain_setting_def)
  show ?thesis
  proof (cases v)
    case None
    have "strchr n CHR ''='' = None" using n by simp
    then show ?thesis
      using s None find_arg_apply [OF assms(2) n(1)]
      by (simp add: frontend_configure_option_def del: strchr_None)
  next
    case (Some x)
    have "strchr (n @ CHR ''='' # x) CHR ''='' = Some (length n)" by (rule strchr_append [OF n(3)])
    moreover have "strchr (n @ CHR ''='' # x) CHR '','' = None" using n v [OF Some] by simp
    ultimately show ?thesis
      using s Some v [OF Some] find_arg_apply [OF assms(2) n(1)]
      by (simp add: frontend_configure_option_def del: strchr_None)
  qed
qed

lemma run_options_cong:
  "(\<And>x front. x \<in> set xs \<Longrightarrow> f front (r x) = g front x) \<Longrightarrow>
     run_options f front (map r xs) = run_options g front xs"
  by (induction xs arbitrary: front) (auto split: option.splits prod.splits)

lemma render_plain:
  "plain_setting s \<Longrightarrow> CHR '','' \<notin> set (render_setting s) \<and> render_setting s \<noteq> []"
  by (cases s; cases "snd s") (auto simp: plain_setting_def)

lemma configure_render:
  assumes "\<forall>s \<in> set ss. plain_setting s" "args_ok all args"
  shows "frontend_configure (Some all) front (join_options (map render_setting ss)) =
           run_options (apply_setting args) front ss"
proof -
  have "split_options (join_options (map render_setting ss)) = map render_setting ss"
  proof (rule split_join)
    show "\<forall>x \<in> set (map render_setting ss). CHR '','' \<notin> set x"
      using assms(1) render_plain by auto
    show "map render_setting ss = [] \<or> last (map render_setting ss) \<noteq> []"
      using assms(1) render_plain [of "last ss"] last_in_set [of ss] by (cases ss) (auto simp: last_map)
  qed
  moreover have "run_options (frontend_configure_option (Some all)) front (map render_setting ss) =
      run_options (apply_setting args) front ss"
    using assms by (intro run_options_cong) (simp add: configure_option_render)
  ultimately show ?thesis by (simp add: configure_split)
qed

section \<open>Numbers\<close>

lemma digit_char:
  assumes "d < 10"
  shows "is_digit (char_of (48 + d))" "digit_val (char_of (48 + d)) = d"
  using assms by (auto simp: is_digit_def digit_val_def)

lemma digits_val_append:
  "\<forall>c \<in> set s. is_digit c \<Longrightarrow> digits_val (s @ t) acc = digits_val t (digits_val s acc)"
  by (induction s arbitrary: acc) auto

lemma dec_digits: "\<forall>c \<in> set (dec n). is_digit c"
proof (induction n rule: dec.induct)
  case (1 n)
  then show ?case
    using digit_char(1) [of n] digit_char(1) [of "n mod 10"] by (subst dec.simps) auto
qed

lemma dec_val: "digits_val (dec n) 0 = n"
proof (induction n rule: dec.induct)
  case (1 n)
  show ?case
  proof (cases "n < 10")
    case True
    then show ?thesis using digit_char [of n] by (subst dec.simps) simp
  next
    case False
    have "n mod 10 < 10" by simp
    with False 1 digit_char [of "n mod 10"] dec_digits [of "n div 10"] show ?thesis
      by (subst dec.simps) (simp add: digits_val_append)
  qed
qed

lemma dec_nonempty: "dec n \<noteq> []"
  by (subst dec.simps) simp

lemma strtol_digits:
  assumes "s \<noteq> []" "\<forall>c \<in> set s. is_digit c"
  shows "strtol10 s = min (2 ^ 63 - 1) (int (digits_val s 0))"
proof -
  obtain c t where s: "s = c # t" using assms(1) by (cases s) auto
  have d: "is_digit c" using assms(2) s by simp
  then have "\<not> is_space c" by (auto simp: is_digit_def is_space_def)
  moreover have "c \<noteq> CHR ''-''" "c \<noteq> CHR ''+''" using d by (auto simp: is_digit_def)
  ultimately show ?thesis using s by (simp add: strtol10_def)
qed

lemma atoi_dec:
  assumes "n < 2 ^ 63"
  shows "atoi (dec n) = signed_take_bit 31 (int n)"
  using strtol_digits [OF dec_nonempty dec_digits, of n] assms by (simp add: atoi_def dec_val)

lemma atoi_dec_small:
  assumes "n < 2 ^ 31"
  shows "atoi (dec n) = int n"
proof -
  have "n < 2 ^ 63" using assms by simp
  moreover have "signed_take_bit 31 (int n) = int n"
    using assms by (intro signed_take_bit_int_eq_self) auto
  ultimately show ?thesis by (simp add: atoi_dec)
qed

section \<open>Properties\<close>

text \<open>
  C35: A front end's specification survives the way through text. A name without commas and
  settings whose names have no comma and no equal sign and whose values have no comma, joined
  to \<open>name,option=value,option,...\<close>, are taken apart into the same name and settings:
  \<open>frontend_spec_extract_name\<close> gives the name and the text of the options, and
  \<open>frontend_configure\<close> runs the \<open>configure\<close> of each setting's option in order, with its value
  or NULL, up to the first error, an unknown option being \<open>-ENOENT\<close>.
\<close>
theorem front_spec_round_trip:
  assumes "\<forall>s \<in> set ss. plain_setting s" "args_ok all args" "CHR '','' \<notin> set n" "ss \<noteq> []"
  shows "\<exists>opts. frontend_spec_extract_name (n @ CHR '','' # join_options (map render_setting ss)) = (n, Some opts) \<and>
     frontend_configure (Some all) front opts = run_options (apply_setting args) front ss"
proof -
  obtain s ss' where ss: "ss = s # ss'" "render_setting s \<noteq> []" using assms(1,4) render_plain by (cases ss) auto
  then have "join_options (map render_setting ss) \<noteq> []" by (cases ss') auto
  then show ?thesis using configure_render [OF assms(1,2)] extract_name_join [OF assms(3)] by simp
qed

theorem front_spec_round_trip_witness:
  "\<exists>opts. frontend_spec_extract_name ''x,a=1,a'' = (''x'', Some opts) \<and>
     frontend_configure (Some [\<lparr>arg_name = ''a'', arg_configure = (\<lambda>s v. Some (0, s @ [v]))\<rparr>,
       \<lparr>arg_name = [], arg_configure = (\<lambda>_ _. None)\<rparr>]) [] opts = Some (0, [Some ''1'', None])"
  using front_spec_round_trip [where ss = "[(''a'', Some ''1''), (''a'', None)]" and n = "''x''" and front = "[]"
      and args = "[\<lparr>arg_name = ''a'', arg_configure = (\<lambda>s v. Some (0, s @ [v]))\<rparr>]"
      and all = "[\<lparr>arg_name = ''a'', arg_configure = (\<lambda>s v. Some (0, s @ [v]))\<rparr>, \<lparr>arg_name = [], arg_configure = (\<lambda>_ _. None)\<rparr>]"]
  by (simp add: plain_setting_def args_ok_def apply_setting_def)

end
