(* ===== verification/Vnc.thy ===== *)
theory Vnc
  imports Framebuffer Frontend
begin

text \<open>
  The VNC front end (\<open>vnc.h\<close>, \<open>vnc.c\<close>) over libvncserver. The library's screens are records
  of the fields the code sets; the results of the library calls are arguments, what the
  calls draw is recorded in the screen.
\<close>

section \<open>State\<close>

datatype rfb_draw =
    FillRect c_int c_int c_int c_int u32
  | DrawString nat c_int c_int string u32
  | Modified c_int c_int c_int c_int

record rfb_screen =
  rfb_width :: c_int
  rfb_height :: c_int
  bitsPerPixel :: nat
  depth :: nat
  fmt_depth :: nat
  redMax :: nat
  greenMax :: nat
  blueMax :: nat
  redShift :: nat
  greenShift :: nat
  blueShift :: nat
  frameBuffer :: "nat option"
  desktopName :: string
  alwaysShared :: bool
  rfb_port :: c_int
  ipv6port :: c_int
  autoPort :: bool
  rfb_running :: bool
  rfb_drawn :: "rfb_draw list"

record vnc =
  vnc_server :: nat
  vnc_font :: "nat option"
  vnc_fb :: eaddr

record vnc_world =
  vncs :: "eaddr \<rightharpoonup> vnc"
  screens :: "nat \<rightharpoonup> rfb_screen"

definition VNC_FONT_HEIGHT :: u32 where "VNC_FONT_HEIGHT = 16"

section \<open>Operations\<close>

definition with_screen ::
    "eaddr \<Rightarrow> (rfb_screen \<Rightarrow> rfb_screen) \<Rightarrow> vnc_world \<Rightarrow> vnc_world option" where
  "with_screen a f s = do {
     V \<leftarrow> vncs s a;
     S \<leftarrow> screens s (vnc_server V);
     Some (s\<lparr>screens := (screens s)(vnc_server V \<mapsto> f S)\<rparr>) }"

text \<open>
  \<open>m\<close> is the result of \<open>calloc\<close>; \<open>scr\<close> that of \<open>rfbGetScreen\<close>, a screen address with the
  library's defaults.
\<close>

definition vnc_alloc ::
    "eaddr option \<Rightarrow> (nat \<times> rfb_screen) option \<Rightarrow> fbmem \<Rightarrow> eaddr \<Rightarrow> vnc_world \<Rightarrow>
     (c_int \<times> eaddr option \<times> vnc_world) option" where
  "vnc_alloc m scr mem f s =
     (case m of None \<Rightarrow> Some (- ENOMEM, None, s)
      | Some a \<Rightarrow> do {
          size \<leftarrow> fb_get_size mem f;
          (case scr of None \<Rightarrow> Some (- ENOMEM, None, s)
           | Some (sa, S) \<Rightarrow> do {
               F \<leftarrow> fbs mem f;
               let S = S\<lparr>rfb_width := sint (width size), rfb_height := sint (height size),
                         bitsPerPixel := 32, depth := 24, fmt_depth := 24, redMax := 255, greenMax := 255,
                         blueMax := 255, redShift := 24, greenShift := 16, blueShift := 8,
                         frameBuffer := Some (pixels F), desktopName := ''shoreline'', alwaysShared := True\<rparr>;
               Some (0, Some a, s\<lparr>vncs := (vncs s)(a \<mapsto> \<lparr>vnc_server = sa, vnc_font = None, vnc_fb = f\<rparr>),
                                  screens := (screens s)(sa \<mapsto> S)\<rparr>) }) })"

definition vnc_start :: "eaddr \<Rightarrow> vnc_world \<Rightarrow> (c_int \<times> vnc_world) option" where
  "vnc_start a s = do {
     s \<leftarrow> with_screen a (rfb_running_update (\<lambda>_. True)) s;
     Some (0, s) }"

definition vnc_free :: "eaddr \<Rightarrow> vnc_world \<Rightarrow> vnc_world option" where
  "vnc_free a s = do {
     V \<leftarrow> vncs s a;
     _ \<leftarrow> guard (vnc_server V \<in> dom (screens s));
     Some (s\<lparr>screens := (screens s)(vnc_server V := None), vncs := (vncs s)(a := None)\<rparr>) }"

definition vnc_update :: "bool \<Rightarrow> eaddr \<Rightarrow> fbmem \<Rightarrow> vnc_world \<Rightarrow> (c_int \<times> vnc_world) option" where
  "vnc_update active a mem s = do {
     V \<leftarrow> vncs s a;
     F \<leftarrow> fbs mem (vnc_fb V);
     s \<leftarrow> with_screen a (\<lambda>S. S\<lparr>rfb_drawn := rfb_drawn S @
            [Modified 0 0 (sint (fb_width F)) (sint (fb_height F))]\<rparr>) s;
     Some (if active then 0 else 1, s) }"

text \<open>
  Text on a black box. \<open>widthOf\<close> is \<open>rfbWidthOfString\<close>. The coordinates are sums of
  \<open>unsigned\<close> values, converted to \<open>int\<close> for the library.
\<close>

definition vnc_draw_string ::
    "(nat \<Rightarrow> string \<Rightarrow> c_int) \<Rightarrow> eaddr \<Rightarrow> u32 \<Rightarrow> u32 \<Rightarrow> string \<Rightarrow> vnc_world \<Rightarrow> (c_int \<times> vnc_world) option" where
  "vnc_draw_string widthOf a x y str s = do {
     V \<leftarrow> vncs s a;
     case vnc_font V of None \<Rightarrow> Some (0, s)
     | Some font \<Rightarrow> do {
         let space = word_of_int (widthOf font '' '');
         let w = word_of_int (widthOf font str);
         s \<leftarrow> with_screen a (\<lambda>S. S\<lparr>rfb_drawn := rfb_drawn S @
                [FillRect (sint x) (sint (y + 8)) (sint (x + w + 2 * space)) (sint (y + VNC_FONT_HEIGHT + 6)) 0,
                 DrawString font (sint (x + space)) (sint (y + VNC_FONT_HEIGHT + 2)) str 0xffffffff]\<rparr>) s;
         Some (0, s) } }"

definition vnc_configure_port :: "eaddr \<Rightarrow> vnc_world \<Rightarrow> string option \<Rightarrow> (c_int \<times> vnc_world) option" where
  "vnc_configure_port a s value =
     (case value of None \<Rightarrow> Some (- EINVAL, s)
      | Some v \<Rightarrow>
          let port = atoi v in
          if port < 0 \<or> port > 65535 then Some (- EINVAL, s)
          else do {
            s \<leftarrow> with_screen a (\<lambda>S. S\<lparr>rfb_port := port, ipv6port := port, autoPort := False\<rparr>) s;
            Some (0, s) })"

text \<open>\<open>load\<close> is \<open>rfbLoadConsoleFont\<close>. The font is stored before it is tested.\<close>

definition vnc_configure_font ::
    "(string \<Rightarrow> nat option) \<Rightarrow> eaddr \<Rightarrow> vnc_world \<Rightarrow> string option \<Rightarrow> (c_int \<times> vnc_world) option" where
  "vnc_configure_font load a s value =
     (case value of None \<Rightarrow> Some (- EINVAL, s)
      | Some v \<Rightarrow> do {
          V \<leftarrow> vncs s a;
          let s = s\<lparr>vncs := (vncs s)(a \<mapsto> V\<lparr>vnc_font := load v\<rparr>)\<rparr>;
          Some (if load v = None then - EINVAL else 0, s) })"

definition vnc_fargs :: "(string \<Rightarrow> nat option) \<Rightarrow> eaddr \<Rightarrow> vnc_world frontend_arg list" where
  "vnc_fargs load a =
     [\<lparr>arg_name = ''port'', arg_configure = vnc_configure_port a\<rparr>,
      \<lparr>arg_name = ''font'', arg_configure = vnc_configure_font load a\<rparr>,
      \<lparr>arg_name = [], arg_configure = (\<lambda>_ _. None)\<rparr>]"

section \<open>Life of a front end\<close>

definition vnc_ok :: "vnc_world \<Rightarrow> eaddr \<Rightarrow> bool" where
  "vnc_ok s a \<longleftrightarrow> (\<exists>V. vncs s a = Some V \<and> vnc_server V \<in> dom (screens s))"

text \<open>The byte order on the wire is that of the pixels: red in the highest byte, then green, blue.\<close>

lemma vnc_alloc_ok:
  assumes "fbs mem f = Some F"
  shows "\<exists>s'. vnc_alloc (Some a) (Some (sa, S)) mem f s = Some (0, Some a, s') \<and> vnc_ok s' a \<and>
           (\<exists>S'. screens s' sa = Some S' \<and> frameBuffer S' = Some (pixels F) \<and>
                 redShift S' = 24 \<and> greenShift S' = 16 \<and> blueShift S' = 8)"
  using assms by (simp add: vnc_alloc_def fb_get_size_def vnc_ok_def)

lemma vnc_alloc_free:
  assumes "f \<in> dom (fbs mem)" "a \<notin> dom (vncs s)" "sa \<notin> dom (screens s)"
    "vnc_alloc (Some a) (Some (sa, S)) mem f s = Some (0, Some a, s')"
  shows "vnc_free a s' = Some s"
  using assms by (auto simp: vnc_alloc_def fb_get_size_def vnc_free_def Let_def fun_upd_idem domIff
      intro!: vnc_world.equality)

lemma vnc_start_ok: "vnc_ok s a \<Longrightarrow> \<exists>s'. vnc_start a s = Some (0, s') \<and> vnc_ok s' a"
  by (auto simp: vnc_start_def vnc_ok_def with_screen_def)

text \<open>
  \<open>fb_resize\<close> frees the pixels the server has in \<open>frameBuffer\<close>; nothing sets the pointer
  again.
\<close>

lemma vnc_frame_dangling:
  assumes "fb_wf mem f" "vnc_alloc (Some a) (Some (sa, S)) mem f s = Some (0, Some a, s')"
    "x \<notin> dom (pxs mem)" "fb_resize (Some x) mem f w h = Some (err, mem')"
  shows "\<exists>S' p. screens s' sa = Some S' \<and> frameBuffer S' = Some p \<and> pxs mem' p = None"
proof -
  obtain F where F: "fbs mem f = Some F" using assms(1) by (auto simp: fb_wf_def)
  obtain S' where "screens s' sa = Some S'" "frameBuffer S' = Some (pixels F)"
    using assms(2) F by (auto simp: vnc_alloc_def fb_get_size_def)
  with fb_resize_frees [OF assms(1) F assms(3,4)] show ?thesis by blast
qed

section \<open>Configuration\<close>

lemma vnc_args_ok:
  "args_ok (vnc_fargs load a) [\<lparr>arg_name = ''port'', arg_configure = vnc_configure_port a\<rparr>,
      \<lparr>arg_name = ''font'', arg_configure = vnc_configure_font load a\<rparr>]"
  by (auto simp: args_ok_def vnc_fargs_def)

lemma dec_chars: "c \<in> set (dec n) \<Longrightarrow> 48 \<le> (of_char c :: nat) \<and> of_char c \<le> (57 :: nat)"
  using dec_digits [of n] by (auto simp: is_digit_def)

lemma port_setting_plain: "plain_setting (''port'', Some (dec n))"
  using dec_nonempty [of n] dec_chars [of "CHR '',''" n] by (auto simp: plain_setting_def)

lemma configure_port_dec:
  assumes "vnc_ok s a" "n < 2 ^ 63"
  shows "\<exists>V S. vncs s a = Some V \<and> screens s (vnc_server V) = Some S \<and>
     vnc_configure_port a s (Some (dec n)) =
       (let port = signed_take_bit 31 (int n) in
        if port < 0 \<or> port > 65535 then Some (- EINVAL, s)
        else Some (0, s\<lparr>screens := (screens s)(vnc_server V \<mapsto>
               S\<lparr>rfb_port := port, ipv6port := port, autoPort := False\<rparr>)\<rparr>))"
  using assms by (auto simp: vnc_configure_port_def vnc_ok_def with_screen_def atoi_dec Let_def)

text \<open>
  An option \<open>port=n\<close>: numbers up to 65535 set the port, larger ones are refused, but only
  up to \<open>2 ^ 32\<close>, where the conversion to \<open>int\<close> starts over.
\<close>

lemma vnc_port_option:
  assumes "vnc_ok s a" "n < 2 ^ 31"
  shows "\<exists>err s'. frontend_configure (Some (vnc_fargs load a)) s (''port='' @ dec n) = Some (err, s') \<and>
     (if n \<le> 65535
      then err = 0 \<and> (\<exists>V S. vncs s' a = Some V \<and> screens s' (vnc_server V) = Some S \<and>
                            rfb_port S = int n \<and> ipv6port S = int n \<and> \<not> autoPort S)
      else err = - EINVAL \<and> s' = s)"
proof -
  let ?o = "(''port'', Some (dec n))"
  have "frontend_configure (Some (vnc_fargs load a)) s (join_options (map render_setting [?o])) =
      run_options (apply_setting [\<lparr>arg_name = ''port'', arg_configure = vnc_configure_port a\<rparr>,
      \<lparr>arg_name = ''font'', arg_configure = vnc_configure_font load a\<rparr>]) s [?o]"
    using vnc_args_ok by (intro configure_render) (simp_all add: port_setting_plain)
  then have "frontend_configure (Some (vnc_fargs load a)) s (''port='' @ dec n) =
      vnc_configure_port a s (Some (dec n))"
    by (auto simp: apply_setting_def split: option.splits prod.splits)
  moreover have "signed_take_bit 31 (int n) = int n"
    using assms(2) by (intro signed_take_bit_int_eq_self) auto
  ultimately show ?thesis
    using configure_port_dec [OF assms(1), of n] assms(2)
    by (cases "n \<le> 65535") (auto simp: Let_def)
qed

lemma port_wraps:
  assumes "n \<le> 65535"
  shows "atoi (dec (n + 2 ^ 32)) = int n"
proof -
  have lt: "n + 2 ^ 32 < (2 :: nat) ^ 63" using assms by simp
  have "signed_take_bit 31 (int (n + 2 ^ 32)) = signed_take_bit 31 (take_bit 32 (int n + 2 ^ 32))"
    by (simp add: signed_take_bit_take_bit del: numeral_plus_numeral)
  also have "take_bit 32 (int n + 2 ^ 32 :: int) = int n"
    using assms by (simp add: take_bit_eq_mod)
  also have "signed_take_bit 31 (int n) = int n"
    using assms by (intro signed_take_bit_int_eq_self) auto
  finally show ?thesis using atoi_dec [OF lt] by simp
qed

lemma vnc_port_wraps:
  assumes "vnc_ok s a" "n \<le> 65535"
  shows "\<exists>s'. vnc_configure_port a s (Some (dec (n + 2 ^ 32))) = Some (0, s')"
  using assms port_wraps [OF assms(2)]
  by (auto simp: vnc_configure_port_def vnc_ok_def with_screen_def Let_def)

section \<open>Properties\<close>

text \<open>
  The \<open>port\<close> option from its text. For a decimal number below \<open>2 ^ 31\<close> the server's
  ports are set if the number is at most 65535, and otherwise the option is refused and
  nothing changes; but 65536 numbers from \<open>2 ^ 32\<close> on are accepted too and set port 0, 1, and
  so on, because \<open>atoi\<close> drops the upper half.
\<close>
theorem vnc_port_range:
  assumes "vnc_ok s a" "n < 2 ^ 31"
  shows "(\<exists>err s'. frontend_configure (Some (vnc_fargs load a)) s (''port='' @ dec n) = Some (err, s') \<and>
       (if n \<le> 65535
        then err = 0 \<and> (\<exists>V S. vncs s' a = Some V \<and> screens s' (vnc_server V) = Some S \<and>
                              rfb_port S = int n \<and> ipv6port S = int n \<and> \<not> autoPort S)
        else err = - EINVAL \<and> s' = s)) \<and>
     (\<forall>k \<le> 65535. \<exists>s'. vnc_configure_port a s (Some (dec (k + 2 ^ 32))) = Some (0, s'))"
  using vnc_port_option [OF assms] vnc_port_wraps [OF assms(1)] by blast

definition screen_sample :: rfb_screen where
  "screen_sample = \<lparr>rfb_width = 0, rfb_height = 0, bitsPerPixel = 0, depth = 0, fmt_depth = 0, redMax = 0, greenMax = 0,
     blueMax = 0, redShift = 0, greenShift = 0, blueShift = 0, frameBuffer = None, desktopName = [], alwaysShared = False,
     rfb_port = 5900, ipv6port = 5900, autoPort = True, rfb_running = False, rfb_drawn = []\<rparr>"

definition vnc_sample :: vnc_world where
  "vnc_sample = \<lparr>vncs = [20 \<mapsto> \<lparr>vnc_server = 21, vnc_font = None, vnc_fb = 3\<rparr>], screens = [21 \<mapsto> screen_sample]\<rparr>"

theorem vnc_port_range_witness:
  "frontend_configure (Some (vnc_fargs (\<lambda>_. None) 20)) vnc_sample (''port='' @ dec 70000) = Some (- EINVAL, vnc_sample)"
  using vnc_port_range [of vnc_sample 20 70000 "\<lambda>_. None"] by (simp add: vnc_ok_def vnc_sample_def)

text \<open>
  A VNC server allocated for a frame buffer reads its pixels with red in the highest byte,
  and is set back by \<open>vnc_free\<close> to the state before; but a resize of the frame buffer frees
  the block the server reads.
\<close>
theorem vnc_frame_buffer_dangles:
  assumes "fb_wf mem f" "fbs mem f = Some F" "a \<notin> dom (vncs s)" "sa \<notin> dom (screens s)" "x \<notin> dom (pxs mem)"
    "unat w * unat h < 2 ^ 32"
  shows "\<exists>s' S' mem'. vnc_alloc (Some a) (Some (sa, S)) mem f s = Some (0, Some a, s') \<and> screens s' sa = Some S' \<and>
     frameBuffer S' = Some (pixels F) \<and> redShift S' = 24 \<and> greenShift S' = 16 \<and> blueShift S' = 8 \<and>
     vnc_free a s' = Some s \<and> fb_resize (Some x) mem f w h = Some (0, mem') \<and> pxs mem' (pixels F) = None"
proof -
  obtain s' S' where 1: "vnc_alloc (Some a) (Some (sa, S)) mem f s = Some (0, Some a, s')" "screens s' sa = Some S'"
    "frameBuffer S' = Some (pixels F)" "redShift S' = 24" "greenShift S' = 16" "blueShift S' = 8"
    using vnc_alloc_ok [OF assms(2), of a sa S s] by blast
  obtain mem' where 2: "fb_resize (Some x) mem f w h = Some (0, mem')" using fb_resize_wf [OF assms(1,5,6)] by blast
  have "vnc_free a s' = Some s" using vnc_alloc_free [OF _ assms(3,4) 1(1)] assms(2) by blast
  with 1 2 vnc_frame_dangling [OF assms(1) 1(1) assms(5) 2] show ?thesis by auto
qed

theorem vnc_frame_buffer_dangles_witness:
  "\<exists>s' mem'. vnc_alloc (Some 30) (Some (31, screen_sample)) fb_sample 3 vnc_sample = Some (0, Some 30, s') \<and>
     map_option frameBuffer (screens s' 31) = Some (Some 7) \<and>
     fb_resize (Some 8) fb_sample 3 5 5 = Some (0, mem') \<and> pxs mem' 7 = None"
proof -
  have F: "fbs fb_sample 3 = Some \<lparr>size_of = \<lparr>width = 2, height = 2\<rparr>, pixels = 7, numa_node = 0, pixelCounter = 0, bytesCounter = 0\<rparr>"
    by (simp add: fb_sample_def)
  have "30 \<notin> dom (vncs vnc_sample)" "31 \<notin> dom (screens vnc_sample)" by (simp_all add: vnc_sample_def)
  from vnc_frame_buffer_dangles [OF fb_sample_wf(1) F this fb_sample_wf(3), of 5 5 screen_sample] show ?thesis by force
qed

end
