(* ===== verification/MainProgram.thy ===== *)
theory MainProgram
  imports ResizeJob Sdl Vnc
begin

text \<open>
  \<open>main.c\<close>: the options, the registration of the front ends, the main loop with its pacing
  and its counters, and the error and exit paths. Results of library calls are arguments:
  \<open>getopt\<close> is the list of options it returns with their arguments, and \<open>main_answers\<close> has
  what the allocators, SDL, libvncserver, libnuma and \<open>net_listen\<close> return. A front end is
  known by the address of the list entry in it. \<open>sdl_param\<close> is a local variable that is
  never assigned, so its callback is an arbitrary pointer, and calling it is undefined.
\<close>

section \<open>Options\<close>

record main_opts =
  o_width :: c_int
  o_height :: c_int
  o_rate :: c_int
  o_fronts :: "string list"
  o_text :: bool

definition MAX_FRONTENDS :: nat where "MAX_FRONTENDS = 16"

definition default_opts :: main_opts where
  "default_opts = \<lparr>o_width = 1024, o_height = 768, o_rate = 60, o_fronts = [], o_text = True\<rparr>"

text \<open>One option; \<open>dup\<close> says whether \<open>strdup\<close> succeeds. \<open>Inl\<close> is \<open>goto fail\<close>.\<close>

definition parse_opt :: "char \<times> string \<times> bool \<Rightarrow> main_opts \<Rightarrow> c_int + main_opts" where
  "parse_opt = (\<lambda>(opt, optarg, dup) os.
     if opt = CHR ''w'' then
       (if atoi optarg \<le> 0 then Inl (- EINVAL) else Inr (os\<lparr>o_width := atoi optarg\<rparr>))
     else if opt = CHR ''h'' then
       (if atoi optarg \<le> 0 then Inl (- EINVAL) else Inr (os\<lparr>o_height := atoi optarg\<rparr>))
     else if opt = CHR ''r'' then
       (if atoi optarg \<le> 0 then Inl (- EINVAL) else Inr (os\<lparr>o_rate := atoi optarg\<rparr>))
     else if opt = CHR ''f'' then
       (if length (o_fronts os) \<ge> MAX_FRONTENDS then Inl (- EINVAL)
        else if \<not> dup then Inl (- ENOMEM)
        else Inr (os\<lparr>o_fronts := o_fronts os @ [optarg]\<rparr>))
     else if opt = CHR ''d'' then Inr (os\<lparr>o_text := False\<rparr>)
     else Inl (- EINVAL))"

fun parse_opts :: "(char \<times> string \<times> bool) list \<Rightarrow> main_opts \<Rightarrow> c_int + main_opts" where
  "parse_opts [] os = Inr os"
| "parse_opts (a # as) os = (case parse_opt a os of Inl err \<Rightarrow> Inl err | Inr os \<Rightarrow> parse_opts as os)"

definition opts_ok :: "main_opts \<Rightarrow> bool" where
  "opts_ok os \<longleftrightarrow> 0 < o_width os \<and> 0 < o_height os \<and> 0 < o_rate os \<and>
     o_width os < 2 ^ 31 \<and> o_height os < 2 ^ 31 \<and> o_rate os < 2 ^ 31 \<and>
     length (o_fronts os) \<le> MAX_FRONTENDS"

lemma atoi_range: "atoi s < 2 ^ 31"
  using signed_take_bit_int_less_exp [of 31 "strtol10 s"] by (simp add: atoi_def)

lemma parse_opt_ok: "opts_ok os \<Longrightarrow> parse_opt a os = Inr os' \<Longrightarrow> opts_ok os'"
  using atoi_range [of "fst (snd a)"]
  by (auto simp: parse_opt_def opts_ok_def split: prod.splits if_splits)

lemma parse_opts_ok_from: "opts_ok os \<Longrightarrow> parse_opts as os = Inr os' \<Longrightarrow> opts_ok os'"
  by (induction as arbitrary: os) (auto split: sum.splits dest: parse_opt_ok)

lemma default_opts_ok: "opts_ok default_opts"
  by (simp add: opts_ok_def default_opts_def)

lemma parse_opt_err: "parse_opt a os = Inl err \<Longrightarrow> err \<in> {- EINVAL, - ENOMEM}"
  by (auto simp: parse_opt_def split: prod.splits if_splits)

lemma parse_opts_err: "parse_opts as os = Inl err \<Longrightarrow> err \<in> {- EINVAL, - ENOMEM}"
  by (induction as arbitrary: os) (auto split: sum.splits dest: parse_opt_err)

section \<open>Time\<close>

record timespec =
  tv_sec :: int
  tv_nsec :: int

text \<open>The fields and the difference are 64 bits wide; a difference outside of them, undefined in C, wraps around.\<close>

definition get_timespec_diff :: "timespec \<Rightarrow> timespec \<Rightarrow> int" where
  "get_timespec_diff a b = sint (word_of_int ((tv_sec a - tv_sec b) * 1000000000 + (tv_nsec a - tv_nsec b)) :: u64)"

text \<open>
  The end of an iteration: \<open>1000000000UL / rate - time_delta\<close> is an \<open>unsigned long\<close>, stored
  in a \<open>long long\<close>; the result is the argument of \<open>usleep\<close>, if it is called.
\<close>

definition frame_delay :: "c_int \<Rightarrow> int \<Rightarrow> int option" where
  "frame_delay rate time_delta =
     (let t = sint (word_of_int (1000000000 div rate - time_delta) :: u64)
      in if t > 0 then Some (t div 1000) else None)"

definition timespec_ok :: "timespec \<Rightarrow> bool" where
  "timespec_ok t \<longleftrightarrow> 0 \<le> tv_sec t \<and> tv_sec t < 2 ^ 32 \<and> 0 \<le> tv_nsec t \<and> tv_nsec t < 1000000000"

lemma sint64_small: "\<bar>k\<bar> < 2 ^ 63 \<Longrightarrow> sint (word_of_int k :: u64) = k"
  by (subst sint_sbintrunc') (auto intro!: signed_take_bit_int_eq_self)

lemma timespec_diff_range:
  assumes "timespec_ok a" "timespec_ok b"
  shows "get_timespec_diff a b = (tv_sec a - tv_sec b) * 1000000000 + (tv_nsec a - tv_nsec b)"
    "\<bar>get_timespec_diff a b\<bar> < 2 ^ 63 - 1000000000"
proof -
  have r: "\<bar>(tv_sec a - tv_sec b) * 1000000000 + (tv_nsec a - tv_nsec b)\<bar> < 2 ^ 63 - 1000000000"
    using assms by (auto simp: timespec_ok_def)
  then show d: "get_timespec_diff a b = (tv_sec a - tv_sec b) * 1000000000 + (tv_nsec a - tv_nsec b)"
    unfolding get_timespec_diff_def by (intro sint64_small) simp
  show "\<bar>get_timespec_diff a b\<bar> < 2 ^ 63 - 1000000000" unfolding d by (rule r)
qed

lemma frame_delay_spec:
  assumes "0 < rate" "\<bar>d\<bar> < 2 ^ 63 - 1000000000"
  shows "frame_delay rate d =
           (if d < 1000000000 div rate then Some ((1000000000 div rate - d) div 1000) else None)"
proof -
  have "0 \<le> 1000000000 div rate" using assms(1) by (simp add: pos_imp_zdiv_nonneg_iff)
  moreover have "1000000000 div rate \<le> 1000000000"
    using assms(1) div_le_dividend [of "1000000000" "nat rate"]
    by (smt (verit) pos_imp_zdiv_neg_iff zdiv_mono2 div_by_1)
  ultimately have "\<bar>1000000000 div rate - d\<bar> < 2 ^ 63" using assms(2) by linarith
  from sint64_small [OF this] show ?thesis by (auto simp: frame_delay_def Let_def)
qed

section \<open>Counters\<close>

record stats =
  fpsCounter :: u32
  actualFps :: u32
  fpsSnapshot :: timespec
  pixelCounterPreviousSecond :: u64
  actualPixelPerS :: u64
  bytesCounterPreviousSecond :: u64
  actualBytesPerS :: u64

definition tick_stats :: "timespec \<Rightarrow> fb \<Rightarrow> stats \<Rightarrow> stats" where
  "tick_stats after F s =
     (let s = s\<lparr>fpsCounter := fpsCounter s + 1\<rparr> in
      if get_timespec_diff after (fpsSnapshot s) > 1000000000 then
        let s = s\<lparr>actualFps := fpsCounter s, fpsCounter := 0\<rparr>;
            s = s\<lparr>actualPixelPerS := pixelCounter F - pixelCounterPreviousSecond s\<rparr>;
            s = s\<lparr>pixelCounterPreviousSecond := pixelCounter F\<rparr>;
            s = s\<lparr>actualBytesPerS := bytesCounter F - bytesCounterPreviousSecond s\<rparr>;
            s = s\<lparr>bytesCounterPreviousSecond := bytesCounter F\<rparr>
        in s\<lparr>fpsSnapshot := after\<rparr>
      else s)"

fun run_stats :: "(timespec \<times> fb) list \<Rightarrow> stats \<Rightarrow> stats list" where
  "run_stats [] s = []"
| "run_stats ((t, F) # fs) s = tick_stats t F s # run_stats fs (tick_stats t F s)"

text \<open>
  The pixel rates shown add up to the pixels counted: a new rate is shown when the snapshot
  is taken, and it is the difference of two snapshots of the counter.
\<close>

fun shown :: "(timespec \<times> fb) list \<Rightarrow> stats \<Rightarrow> u64 list" where
  "shown [] s = []"
| "shown ((t, F) # fs) s =
     (let s' = tick_stats t F s in
      if get_timespec_diff t (fpsSnapshot s) > 1000000000 then actualPixelPerS s' # shown fs s'
      else shown fs s')"

fun last_stats :: "(timespec \<times> fb) list \<Rightarrow> stats \<Rightarrow> stats" where
  "last_stats [] s = s"
| "last_stats ((t, F) # fs) s = last_stats fs (tick_stats t F s)"

lemma tick_pixels:
  "pixelCounterPreviousSecond (tick_stats t F s) = pixelCounterPreviousSecond s +
     (if get_timespec_diff t (fpsSnapshot s) > 1000000000 then actualPixelPerS (tick_stats t F s) else 0)"
  by (simp add: tick_stats_def Let_def)

lemma shown_total:
  "sum_list (shown fs s) = pixelCounterPreviousSecond (last_stats fs s) - pixelCounterPreviousSecond s"
  by (induction fs s rule: shown.induct) (auto simp: tick_pixels Let_def)

lemma tick_bytes:
  assumes "bytesCounter F = 0" "bytesCounterPreviousSecond s = 0" "actualBytesPerS s = 0"
  shows "bytesCounterPreviousSecond (tick_stats t F s) = 0 \<and> actualBytesPerS (tick_stats t F s) = 0"
  using assms by (simp add: tick_stats_def Let_def)

lemma bytes_shown:
  assumes "\<forall>(t, F) \<in> set fs. bytesCounter F = 0" "bytesCounterPreviousSecond s = 0" "actualBytesPerS s = 0"
  shows "actualBytesPerS (last_stats fs s) = 0"
  using assms tick_bytes by (induction fs s rule: last_stats.induct) auto

section \<open>Front ends\<close>

datatype front_def = front_sdl | front_vnc

definition frontends :: "(string \<times> front_def) list" where
  "frontends = [(''sdl'', front_sdl), (''vnc'', front_vnc)]"

fun front_name :: "front_def \<Rightarrow> string" where
  "front_name front_sdl = ''SDL2 Frontend''"
| "front_name front_vnc = ''VNC server frontend''"

fun front_signals :: "front_def \<Rightarrow> bool" where
  "front_signals front_sdl = False"
| "front_signals front_vnc = True"

record main_state =
  ms_wq :: resize_state
  ms_fronts :: lheap
  ms_defs :: "eaddr \<rightharpoonup> front_def"
  ms_sdl :: "unit sdl_world"
  ms_vnc :: vnc_world

abbreviation main_mem :: "main_state \<Rightarrow> fbmem" where
  "main_mem st \<equiv> mw_mem (world (ms_wq st))"

definition set_mem :: "fbmem \<Rightarrow> main_state \<Rightarrow> main_state" where
  "set_mem mem st = st\<lparr>ms_wq := (ms_wq st)\<lparr>world := (world (ms_wq st))\<lparr>mw_mem := mem\<rparr>\<rparr>\<rparr>"

definition main_shutdown_flag :: "main_state \<Rightarrow> main_state" where
  "main_shutdown_flag st = st\<lparr>ms_wq := (ms_wq st)\<lparr>world := doshutdown (world (ms_wq st))\<rparr>\<rparr>"

text \<open>The list \<open>fronts\<close> is a local variable of \<open>main\<close>.\<close>

definition fronts_list :: laddr where "fronts_list = 0"

record front_answers =
  an_sdl :: sdl_results
  an_vnc :: "eaddr option"
  an_screen :: "(nat \<times> rfb_screen) option"
  an_entry :: llist_entry

record main_answers =
  an_available :: c_int
  an_max_node :: c_int
  an_calloc :: bool
  an_create :: "nat \<Rightarrow> c_int"
  an_join :: "nat \<Rightarrow> resize_state \<Rightarrow> resize_state option"
  an_fb :: "eaddr option"
  an_pixels :: "nat option"
  an_node :: u32
  an_param :: "unit option"
  an_front :: "nat \<Rightarrow> front_answers"
  an_font :: "string \<Rightarrow> nat option"
  an_net :: c_int

text \<open>The operations through the definition's table; a missing one is \<open>None\<close>.\<close>

definition call_alloc ::
    "front_answers \<Rightarrow> unit option \<Rightarrow> front_def \<Rightarrow> eaddr \<Rightarrow> main_state \<Rightarrow> (c_int \<times> eaddr option \<times> main_state) option" where
  "call_alloc an param d f st =
     (case d of
        front_sdl \<Rightarrow> do { (err, r, s) \<leftarrow> sdl_alloc (an_sdl an) param (main_mem st) f (ms_sdl st);
                        Some (err, r, st\<lparr>ms_sdl := s\<rparr>) }
      | front_vnc \<Rightarrow> do { (err, r, s) \<leftarrow> vnc_alloc (an_vnc an) (an_screen an) (main_mem st) f (ms_vnc st);
                        Some (err, r, st\<lparr>ms_vnc := s\<rparr>) })"

definition call_configure ::
    "(string \<Rightarrow> nat option) \<Rightarrow> front_def \<Rightarrow> eaddr \<Rightarrow> string option \<Rightarrow> main_state \<Rightarrow> (c_int \<times> main_state) option" where
  "call_configure load d a options st =
     (case (d, options) of
        (front_vnc, Some opts) \<Rightarrow> do {
          (err, s) \<leftarrow> frontend_configure (Some (vnc_fargs load a)) (ms_vnc st) opts;
          Some (err, st\<lparr>ms_vnc := s\<rparr>) }
      | _ \<Rightarrow> Some (0, st))"

definition call_start :: "front_def \<Rightarrow> eaddr \<Rightarrow> main_state \<Rightarrow> (c_int \<times> main_state) option" where
  "call_start d a st =
     (case d of front_sdl \<Rightarrow> Some (0, st)
      | front_vnc \<Rightarrow> do { (err, s) \<leftarrow> vnc_start a (ms_vnc st); Some (err, st\<lparr>ms_vnc := s\<rparr>) })"

definition FONT :: string where "FONT = ''./zap-vga16.psf''"

definition call_font :: "(string \<Rightarrow> nat option) \<Rightarrow> front_def \<Rightarrow> eaddr \<Rightarrow> main_state \<Rightarrow> (c_int \<times> main_state) option" where
  "call_font load d a st =
     (if front_name d = ''VNC server frontend'' then do {
        (err, s) \<leftarrow> vnc_configure_font load a (ms_vnc st) (Some FONT);
        Some (err, st\<lparr>ms_vnc := s\<rparr>) }
      else Some (0, st))"

text \<open>The structure of the front end goes, and with it the list entry in it.\<close>

definition call_free :: "eaddr \<Rightarrow> main_state \<Rightarrow> main_state option" where
  "call_free a st = do {
     d \<leftarrow> ms_defs st a;
     st \<leftarrow> (case d of
         front_sdl \<Rightarrow> do { s \<leftarrow> sdl_free a (ms_sdl st); Some (st\<lparr>ms_sdl := s\<rparr>) }
       | front_vnc \<Rightarrow> do { s \<leftarrow> vnc_free a (ms_vnc st); Some (st\<lparr>ms_vnc := s\<rparr>) });
     Some (st\<lparr>ms_defs := (ms_defs st)(a := None),
             ms_fronts := (ms_fronts st)\<lparr>entries := (entries (ms_fronts st))(a := None)\<rparr>\<rparr>) }"

section \<open>Registration\<close>

text \<open>
  One name. \<open>Inl err\<close> is \<open>goto fail_fronts_free_name\<close> with the value \<open>err\<close> has there: when
  the name is unknown this is the 0 left by the last call that succeeded.
\<close>

definition register_front ::
    "main_answers \<Rightarrow> eaddr \<Rightarrow> nat \<Rightarrow> string \<Rightarrow> main_state \<Rightarrow> ((c_int \<times> main_state) + main_state) option" where
  "register_front an f k frontend_name st =
     (let (frontid, options) = frontend_spec_extract_name frontend_name in
      case frontend_get_def frontends frontid of
        None \<Rightarrow> Some (Inl (0, st))
      | Some d \<Rightarrow> do {
          (err, r, st) \<leftarrow> call_alloc (an_front an k) (an_param an) d f st;
          if err \<noteq> 0 then Some (Inl (err, st)) else do {
          a \<leftarrow> r;
          let st = st\<lparr>ms_defs := (ms_defs st)(a \<mapsto> d),
                      ms_fronts := (ms_fronts st)\<lparr>entries :=
                        (entries (ms_fronts st))(a \<mapsto> an_entry (an_front an k))\<rparr>\<rparr>;
          h \<leftarrow> llist_append (ms_fronts st) fronts_list a;
          let st = st\<lparr>ms_fronts := h\<rparr>;
          (err, st) \<leftarrow> call_configure (an_font an) d a options st;
          if err \<noteq> 0 then Some (Inl (err, st)) else do {
          (err, st) \<leftarrow> call_start d a st;
          if err \<noteq> 0 then Some (Inl (err, st)) else do {
          (err, st) \<leftarrow> call_font (an_font an) d a st;
          if err \<noteq> 0 then Some (Inl (err, st)) else Some (Inr st) }}}})"

text \<open>The loop goes from the last name to the first; the argument is the reversed list.\<close>

fun register_fronts ::
    "main_answers \<Rightarrow> eaddr \<Rightarrow> string list \<Rightarrow> main_state \<Rightarrow> ((c_int \<times> main_state) + main_state) option" where
  "register_fronts an f [] st = Some (Inr st)"
| "register_fronts an f (n # ns) st =
     (case register_front an f (length ns) n st of None \<Rightarrow> None
      | Some (Inl x) \<Rightarrow> Some (Inl x)
      | Some (Inr st) \<Rightarrow> register_fronts an f ns st)"

section \<open>The main loop\<close>

text \<open>
  What one iteration sees: the pixels other threads have drawn since the last one, the
  events and states of the front ends, the lines of text and the clock.
\<close>

record frame_in =
  fi_cmds :: "pixel_cmd list"
  fi_events :: "eaddr \<Rightarrow> sdl_ev list"
  fi_active :: "eaddr \<Rightarrow> bool"
  fi_widths :: "nat \<Rightarrow> string \<Rightarrow> c_int"
  fi_text1 :: string
  fi_text2 :: string
  fi_text3 :: string
  fi_before :: timespec
  fi_after :: timespec

definition call_update :: "frame_in \<Rightarrow> eaddr \<Rightarrow> main_state \<Rightarrow> (c_int \<times> main_state) option" where
  "call_update fi a st = do {
     d \<leftarrow> ms_defs st a;
     case d of
       front_sdl \<Rightarrow> do {
         (err, s, mem, _) \<leftarrow> sdl_update (\<lambda>_ _ _ _ _. None) a (fi_events fi a) (ms_sdl st) (main_mem st, ());
         Some (err, set_mem mem (st\<lparr>ms_sdl := s\<rparr>)) }
     | front_vnc \<Rightarrow> do {
         (err, s) \<leftarrow> vnc_update (fi_active fi a) a (main_mem st) (ms_vnc st);
         Some (err, st\<lparr>ms_vnc := s\<rparr>) } }"

definition draw_text :: "frame_in \<Rightarrow> eaddr \<Rightarrow> main_state \<Rightarrow> main_state option" where
  "draw_text fi a st = do {
     (_, s) \<leftarrow> vnc_draw_string (fi_widths fi) a 10 45 (fi_text3 fi) (ms_vnc st);
     (_, s) \<leftarrow> vnc_draw_string (fi_widths fi) a 10 30 (fi_text2 fi) s;
     (_, s) \<leftarrow> vnc_draw_string (fi_widths fi) a 10 15 (fi_text1 fi) s;
     (_, s) \<leftarrow> vnc_draw_string (fi_widths fi) a 10 0 ''PIXELFLUT: 127.0.0.1:1234 DECT 1234'' s;
     Some (st\<lparr>ms_vnc := s\<rparr>) }"

definition frame_body :: "bool \<Rightarrow> frame_in \<Rightarrow> main_state \<Rightarrow> eaddr \<Rightarrow> (main_state + c_int \<times> main_state) option" where
  "frame_body text fi st a = do {
     d \<leftarrow> ms_defs st a;
     st \<leftarrow> (if text \<and> d = front_vnc then draw_text fi a st else Some st);
     (err, st) \<leftarrow> call_update fi a st;
     Some (if err \<noteq> 0 then Inr (err, main_shutdown_flag st) else Inl st) }"

definition run_frame ::
    "main_opts \<Rightarrow> eaddr \<Rightarrow> frame_in \<Rightarrow> c_int \<times> main_state \<times> stats \<Rightarrow> (c_int \<times> main_state \<times> stats) option" where
  "run_frame os f fi = (\<lambda>(err, st, s). do {
     mem \<leftarrow> put_all (\<lambda>m. fb_set_pixel m f) (main_mem st) (fi_cmds fi);
     let st = set_mem mem st;
     L \<leftarrow> llists (ms_fronts st) fronts_list;
     r \<leftarrow> llist_for_each ms_fronts (frame_body (o_text os) fi) (l_head L) st;
     let (err, st) = (case r of Inl st \<Rightarrow> (if l_head L = None then err else 0, st) | Inr x \<Rightarrow> x);
     F \<leftarrow> fbs (main_mem st) f;
     Some (err, st, tick_stats (fi_after fi) F s) })"

text \<open>
  \<open>while (!do_exit)\<close> over the iterations \<open>fis\<close>; when they run out the program is still
  in the loop (\<open>Inl\<close>).
\<close>

fun main_loop ::
    "main_opts \<Rightarrow> eaddr \<Rightarrow> frame_in list \<Rightarrow> c_int \<times> main_state \<times> stats \<Rightarrow>
     ((c_int \<times> main_state \<times> stats) + c_int \<times> main_state) option" where
  "main_loop os f [] (err, st, s) =
     (if mw_exit (world (ms_wq st)) then Some (Inr (err, st)) else Some (Inl (err, st, s)))"
| "main_loop os f (fi # fis) (err, st, s) =
     (if mw_exit (world (ms_wq st)) then Some (Inr (err, st))
      else case run_frame os f fi (err, st, s) of None \<Rightarrow> None
        | Some x \<Rightarrow> main_loop os f fis x)"

section \<open>The exit paths\<close>

definition main_fail :: "main_answers \<Rightarrow> c_int \<Rightarrow> main_state \<Rightarrow> (c_int \<times> main_state) option" where
  "main_fail an err st = do {
     wq \<leftarrow> workqueue_deinit (an_join an) (ms_wq st);
     Some (err, st\<lparr>ms_wq := wq\<rparr>) }"

definition main_fail_fronts :: "main_answers \<Rightarrow> eaddr \<Rightarrow> c_int \<Rightarrow> main_state \<Rightarrow> (c_int \<times> main_state) option" where
  "main_fail_fronts an f err st = do {
     L \<leftarrow> llists (ms_fronts st) fronts_list;
     r \<leftarrow> llist_for_each ms_fronts
           (\<lambda>st a. map_option Inl (call_free a st) :: (main_state + main_state) option) (l_head L) st;
     let st = (case r of Inl st \<Rightarrow> st | Inr st \<Rightarrow> st);
     mem \<leftarrow> fb_free (main_mem st) f;
     main_fail an err (set_mem mem st) }"

text \<open>
  The program up to the main loop. \<open>Inr\<close> is the value \<open>main\<close> returns on an error, \<open>Inl\<close>
  the state before the loop.
\<close>

definition main_setup ::
    "main_answers \<Rightarrow> (char \<times> string \<times> bool) list \<Rightarrow> main_state \<Rightarrow>
     ((main_opts \<times> eaddr \<times> main_state) + c_int \<times> main_state) option" where
  "main_setup an args st =
     (case parse_opts args default_opts of
        Inl err \<Rightarrow> map_option Inr (main_fail an err st)
      | Inr os \<Rightarrow> do {
          (err, wq) \<leftarrow> workqueue_init (an_join an) (an_available an) (an_max_node an) (an_calloc an) (an_create an) (ms_wq st);
          let st = st\<lparr>ms_wq := wq\<rparr>;
          if err \<noteq> 0 then map_option Inr (main_fail an err st) else
          (case fb_alloc (an_fb an) (an_pixels an) (an_node an) (word_of_int (o_width os))
                  (word_of_int (o_height os)) (main_mem st) of (err, r, mem) \<Rightarrow>
           (if err \<noteq> 0 then map_option Inr (main_fail an err st) else do {
             f \<leftarrow> r;
             let st = set_mem mem st;
             h \<leftarrow> llist_init (ms_fronts st) fronts_list;
             x \<leftarrow> register_fronts an f (rev (o_fronts os)) (st\<lparr>ms_fronts := h\<rparr>);
             case x of
               Inl (err, st) \<Rightarrow> map_option Inr (main_fail_fronts an f err st)
             | Inr st \<Rightarrow>
                 if an_net an \<noteq> 0 then map_option Inr (main_fail an (an_net an) st)
                 else Some (Inl (os, f, st)) })) })"

definition main_prog ::
    "main_answers \<Rightarrow> (char \<times> string \<times> bool) list \<Rightarrow> frame_in list \<Rightarrow> stats \<Rightarrow> main_state \<Rightarrow>
     (main_state + c_int \<times> main_state) option" where
  "main_prog an args fis s st = do {
     x \<leftarrow> main_setup an args st;
     case x of
       Inr r \<Rightarrow> Some (Inr r)
     | Inl (os, f, st) \<Rightarrow> do {
         r \<leftarrow> main_loop os f fis (0, st, s);
         case r of Inl (_, st, _) \<Rightarrow> Some (Inl st)
         | Inr (err, st) \<Rightarrow> map_option Inr (main_fail_fronts an f err st) } }"

section \<open>Exits\<close>

lemma main_bad_option:
  assumes "parse_opts args default_opts = Inl err" "workqueues (ms_wq st) = WNull" "num_workqueues (ms_wq st) = 0"
  shows "\<exists>st'. main_prog an args fis s st = Some (Inr (err, st'))"
  using assms by (simp add: main_prog_def main_setup_def main_fail_def workqueue_deinit_def)

text \<open>
  When the queues cannot be set up, the error path walks the array that was not allocated.
\<close>

lemma main_no_queues:
  assumes "parse_opts args default_opts = Inr os" "\<not> an_calloc an"
    "0 < (if an_available an \<noteq> 0 then an_max_node an else 1)"
  shows "main_prog an args fis s st = None"
proof -
  let ?n = "if an_available an \<noteq> 0 then an_max_node an else 1"
  let ?wq = "(ms_wq st)\<lparr>num_workqueues := ?n, workqueues := WNull\<rparr>"
  have "workqueue_init (an_join an) (an_available an) (an_max_node an) (an_calloc an) (an_create an) (ms_wq st) =
      Some (- ENOMEM, ?wq)"
    using assms(2) init_enomem [of "an_join an" "an_available an" "an_max_node an" "an_create an" "ms_wq st"] by simp
  moreover have "workqueue_deinit (an_join an) ?wq = None" using assms(3) by (intro deinit_dead) auto
  ultimately show ?thesis
    using assms(1) by (simp add: main_prog_def main_setup_def main_fail_def)
qed

lemma deinit_empty:
  assumes "wq_rep st ws (\<lambda>_. [])" "\<And>i s. join i s = Some s"
  shows "\<exists>st'. workqueue_deinit join st = Some st' \<and> world st' = world st"
proof -
  have "concat (map (\<lambda>j. works st []) [0..<length ws]) = []" by (simp add: concat_eq_Nil_conv)
  then have "cleanup_spec (concat (map (\<lambda>j. works st []) [0..<length ws])) (world st) = Some (world st)"
    by (simp only: cleanup_spec.simps)
  then show ?thesis using deinit_rep [OF assms(1), of join] assms(2) by (simp del: works_simps) blast
qed

text \<open>A machine that gives \<open>main\<close> its queue and its frame buffer.\<close>

definition machine_ok :: "main_answers \<Rightarrow> main_state \<Rightarrow> bool" where
  "machine_ok an st \<longleftrightarrow>
     an_available an = 0 \<and> an_calloc an \<and> (\<forall>j. an_create an j = 0) \<and> (\<forall>i s. an_join an i s = Some s) \<and>
     an_fb an \<noteq> None \<and> an_pixels an \<noteq> None \<and> fronts_list \<in> dom (llists (ms_fronts st))"

lemma fb_alloc_free:
  assumes "fb_alloc (Some f) (Some a) node w h mem = (err, r, mem')"
  shows "\<exists>mem''. fb_free mem' f = Some mem''"
  using assms by (auto simp: fb_alloc_def fb_free_def blk_free_def free_fb_def)

lemma main_unknown_front:
  assumes ok: "machine_ok an st" and os: "parse_opts args default_opts = Inr os"
    and fronts: "o_fronts os = names @ [n]" "frontend_get_def frontends (fst (frontend_spec_extract_name n)) = None"
  shows "\<exists>st'. main_prog an args fis s st = Some (Inr (0, st'))"
proof -
  obtain f a where fa: "an_fb an = Some f" "an_pixels an = Some a" using ok by (auto simp: machine_ok_def)
  obtain wq ws where wq: "workqueue_init (an_join an) 0 (an_max_node an) True (an_create an) (ms_wq st) = Some (0, wq)"
    "wq_rep wq ws (\<lambda>_. [])" "world wq = world (ms_wq st)"
    using workqueue_init_rep [of 0 "an_max_node an" "an_create an" "an_join an" "ms_wq st"] ok
    by (auto simp: machine_ok_def)
  let ?w = "word_of_int (o_width os) :: u32" and ?h = "word_of_int (o_height os) :: u32"
  obtain mem where mem: "fb_alloc (Some f) (Some a) (an_node an) ?w ?h (mw_mem (world wq)) = (0, Some f, mem)"
    by (simp add: fb_alloc_def)
  obtain h where h: "llist_init (ms_fronts st) fronts_list = Some h" "llist_rep h fronts_list []"
    using ok init_rep [of fronts_list "ms_fronts st"] by (auto simp: machine_ok_def)
  let ?st = "(set_mem mem (st\<lparr>ms_wq := wq\<rparr>))\<lparr>ms_fronts := h\<rparr>"
  have reg: "register_fronts an f (rev (o_fronts os)) ?st = Some (Inl (0, ?st))"
    using fronts by (cases "frontend_spec_extract_name n") (simp add: register_front_def)
  obtain L where L: "llists h fronts_list = Some L" "l_head L = None"
    using llist_head_rep [OF h(2)] by auto
  obtain mem2 where mem2: "fb_free mem f = Some mem2" using fb_alloc_free [OF mem] by blast
  have rep: "wq_rep (ms_wq (set_mem mem2 ?st)) ws (\<lambda>_. [])"
    using wq(2) by (simp add: set_mem_def wq_rep_world)
  obtain wq' where "workqueue_deinit (an_join an) (ms_wq (set_mem mem2 ?st)) = Some wq'"
    using deinit_empty [OF rep, of "an_join an"] ok by (auto simp: machine_ok_def)
  then have "\<exists>st'. main_fail_fronts an f 0 ?st = Some (0, st')"
    using L mem2 by (simp add: main_fail_fronts_def main_fail_def llist_for_each.simps set_mem_def)
  moreover have "main_prog an args fis s st = map_option Inr (main_fail_fronts an f 0 ?st)"
    using ok os fa wq(1) mem h(1) reg
    by (simp add: main_prog_def main_setup_def machine_ok_def set_mem_def bind_map_option
        map_option_case split: option.split)
  ultimately show ?thesis by auto
qed

text \<open>
  With a front end in the list, the loop that frees the front ends reads \<open>cursor->next\<close> from
  the front end it has just freed: no run of the main loop ends well.
\<close>

lemma shutdown_uaf:
  assumes "llist_rep (ms_fronts st) fronts_list (a # as)"
  shows "main_fail_fronts an f err st = None"
proof -
  obtain L where L: "llists (ms_fronts st) fronts_list = Some L" "l_head L = Some a"
    using llist_head_rep [OF assms] by auto
  have "entries (ms_fronts st') a = None" if "call_free a st = Some st'" for st'
    using that by (auto simp: call_free_def bind_eq_Some_conv)
  then have "llist_for_each ms_fronts
      (\<lambda>st a. map_option Inl (call_free a st) :: (main_state + main_state) option) (Some a) st = None"
    by (subst llist_for_each.simps) (auto simp: bind_case_option split: option.splits)
  with L show ?thesis by (simp add: main_fail_fronts_def)
qed

text \<open>Accepted sizes can have an area of \<open>2 ^ 32\<close> and more.\<close>

lemma main_overflow:
  assumes "opts_ok os" "2 ^ 32 \<le> o_width os * o_height os"
    "fb_alloc (Some f) (Some a) node (word_of_int (o_width os)) (word_of_int (o_height os)) mem = (err, r, mem')"
  shows "\<exists>x y. in_range (fb_dim mem' f) x y \<and> fb_set_pixel mem' f x y c = None"
proof -
  let ?w = "word_of_int (o_width os) :: u32" and ?h = "word_of_int (o_height os) :: u32"
  have u: "unat ?w = nat (o_width os)" "unat ?h = nat (o_height os)"
    using assms(1) by (auto simp: opts_ok_def unat_eq_nat_uint uint_word_of_int)
  have "nat (o_width os) * nat (o_height os) = nat (o_width os * o_height os)"
    using assms(1) by (simp add: nat_mult_distrib opts_ok_def)
  moreover have "(2 :: nat) ^ 32 \<le> nat (o_width os * o_height os)"
    using assms(2) nat_mono [OF assms(2)] by simp
  ultimately have "2 ^ 32 \<le> unat ?w * unat ?h" using u by simp
  from fb_alloc_overflow [OF assms(3) this] show ?thesis .
qed

text \<open>The resize callback is an arbitrary pointer.\<close>

lemma resize_cb_garbage:
  assumes "ms_defs st a = Some front_sdl" "sdls (ms_sdl st) a = Some D" "sdl_resize_cb D = Some cb"
    "fi_events fi a = SDL_RESIZED (sdl_window D) wd ht tex m_px # evs" "0 \<le> wd" "0 \<le> ht"
  shows "call_update fi a st = None"
  using assms by (simp add: call_update_def sdl_update_def)

section \<open>Properties\<close>

text \<open>
  C38: Accepted options are in range: when the option loop ends without an error, width, height
  and frame rate are positive and below \<open>2 ^ 31\<close> and there are at most 16 front ends; but the
  area is not bounded, and for an accepted size of \<open>2 ^ 32\<close> pixels or more the frame buffer has a
  pixel inside it that cannot be written. A refused option makes the program return
  \<open>-EINVAL\<close> or \<open>-ENOMEM\<close> before anything is set up.
\<close>
theorem options_bounds:
  assumes "workqueues (ms_wq st) = WNull" "num_workqueues (ms_wq st) = 0"
  shows "case parse_opts args default_opts of
     Inr os \<Rightarrow> opts_ok os \<and>
       (\<forall>f a node mem. 2 ^ 32 \<le> o_width os * o_height os \<longrightarrow>
          (case fb_alloc (Some f) (Some a) node (word_of_int (o_width os)) (word_of_int (o_height os)) mem of
             (err, r, mem') \<Rightarrow> err = 0 \<and> (\<exists>x y. in_range (fb_dim mem' f) x y \<and> fb_set_pixel mem' f x y c = None)))
   | Inl err \<Rightarrow> err \<in> {- EINVAL, - ENOMEM} \<and> (\<exists>st'. main_prog an args fis s st = Some (Inr (err, st')))"
proof (cases "parse_opts args default_opts")
  case (Inl err)
  then have "\<exists>st'. main_prog an args fis s st = Some (Inr (err, st'))" using main_bad_option [OF Inl assms] by blast
  with Inl parse_opts_err [OF Inl] show ?thesis by simp
next
  case (Inr os)
  have ok: "opts_ok os" using parse_opts_ok_from [OF default_opts_ok Inr] .
  have "err = 0 \<and> (\<exists>x y. in_range (fb_dim mem' f) x y \<and> fb_set_pixel mem' f x y c = None)"
    if "2 ^ 32 \<le> o_width os * o_height os"
      "fb_alloc (Some f) (Some a) node (word_of_int (o_width os)) (word_of_int (o_height os)) mem = (err, r, mem')"
    for f a node mem err r mem'
    using main_overflow [OF ok that] that(2) by (auto simp: fb_alloc_def)
  with ok Inr show ?thesis by (auto split: prod.splits)
qed

definition main_sample :: main_state where
  "main_sample = \<lparr>ms_wq = \<lparr>workqueues = WNull, num_workqueues = 0, num_workqueue_items = 0,
       wheap = \<lparr>entries = Map.empty, llists = Map.empty\<rparr>, wents = Map.empty,
       world = \<lparr>mw_mem = fb_sample, mw_exit = False, mw_privs = Map.empty\<rparr>\<rparr>,
     ms_fronts = \<lparr>entries = Map.empty, llists = [0 \<mapsto> \<lparr>l_head = None, l_tail = None, l_lock = False\<rparr>]\<rparr>,
     ms_defs = Map.empty,
     ms_sdl = \<lparr>sdls = Map.empty, sdl_inited = False, sdl_windows = {}, sdl_renderers = {}, sdl_textures = Map.empty\<rparr>,
     ms_vnc = vnc_sample\<rparr>"

definition answers_sample :: main_answers where
  "answers_sample = \<lparr>an_available = 0, an_max_node = 0, an_calloc = True, an_create = (\<lambda>_. 0), an_join = (\<lambda>_. Some), an_fb = Some 70,
     an_pixels = Some 71, an_node = 0, an_param = None,
     an_front = (\<lambda>_. \<lparr>an_sdl = \<lparr>r_malloc = None, r_init = 0, r_window = None, r_renderer = None, r_texture = None\<rparr>,
       an_vnc = Some 72, an_screen = Some (73, screen_sample), an_entry = LLIST_ENTRY_INIT\<rparr>),
     an_font = (\<lambda>_. Some 74), an_net = 0\<rparr>"

definition stats_sample :: stats where
  "stats_sample = \<lparr>fpsCounter = 0, actualFps = 0, fpsSnapshot = \<lparr>tv_sec = 0, tv_nsec = 0\<rparr>, pixelCounterPreviousSecond = 0,
     actualPixelPerS = 0, bytesCounterPreviousSecond = 0, actualBytesPerS = 0\<rparr>"

lemma atoi_65536: "atoi ''65536'' = 65536"
  by (simp add: atoi_def strtol10_def is_space_def is_digit_def digit_val_def)

lemma atoi_2: "atoi ''2'' = 2"
  by (simp add: atoi_def strtol10_def is_space_def is_digit_def digit_val_def)

lemma parse_large:
  "parse_opts [(CHR ''w'', ''65536'', True), (CHR ''h'', ''65536'', True)] default_opts =
     Inr (default_opts\<lparr>o_width := 65536, o_height := 65536\<rparr>)"
  by (simp add: parse_opt_def atoi_65536)

theorem options_bounds_witness:
  "\<exists>x y. in_range (0x10000, 0x10000) x y \<and>
     fb_set_pixel (snd (snd (fb_alloc (Some 70) (Some 71) 0 0x10000 0x10000 fb_sample))) 70 x y 5 = None"
proof -
  have st: "workqueues (ms_wq main_sample) = WNull" "num_workqueues (ms_wq main_sample) = 0" by (simp_all add: main_sample_def)
  obtain err r mem' where run: "fb_alloc (Some 70) (Some 71) 0 0x10000 0x10000 fb_sample = (err, r, mem')"
    by (cases "fb_alloc (Some 70) (Some 71) 0 0x10000 0x10000 fb_sample")
  have dim: "fb_dim mem' 70 = (0x10000, 0x10000)" using run by (auto simp: fb_alloc_def fb_dim_def)
  note all = options_bounds [OF st, where args = "[(CHR ''w'', ''65536'', True), (CHR ''h'', ''65536'', True)]" and c = 5
      and an = answers_sample and fis = "[]" and s = stats_sample]
  have "\<forall>f a node mem. case fb_alloc (Some f) (Some a) node 65536 65536 mem of
      (err, r, mem') \<Rightarrow> err = 0 \<and> (\<exists>x y. in_range (fb_dim mem' f) x y \<and> fb_set_pixel mem' f x y 5 = None)"
    using all unfolding parse_large by simp
  from this [rule_format, of 70 71 0 fb_sample] show ?thesis unfolding run prod.case snd_conv using dim by simp
qed

text \<open>
  Pacing. For two clock readings and an accepted rate the delay at the end of an iteration
  is what is missing to one period, in microseconds rounded down, and no delay at all when the
  iteration took a period or longer; \<open>usleep\<close> never gets more than the period.
\<close>
theorem frame_pacing:
  assumes "timespec_ok before" "timespec_ok after" "0 < rate"
  defines "d \<equiv> get_timespec_diff after before"
  shows "frame_delay rate d =
       (if d < 1000000000 div rate then Some ((1000000000 div rate - d) div 1000) else None) \<and>
     (\<forall>us. frame_delay rate d = Some us \<longrightarrow> d + 1000 * us \<le> 1000000000 div rate \<and> 1000000000 div rate < d + 1000 * us + 1000)"
proof -
  have "frame_delay rate d = (if d < 1000000000 div rate then Some ((1000000000 div rate - d) div 1000) else None)"
    using frame_delay_spec [OF assms(3) timespec_diff_range(2) [OF assms(2,1)]] by (simp add: d_def)
  then show ?thesis by auto
qed

theorem frame_pacing_witness:
  "frame_delay 60 (get_timespec_diff \<lparr>tv_sec = 5, tv_nsec = 1000000\<rparr> \<lparr>tv_sec = 4, tv_nsec = 999000000\<rparr>) = Some 14666"
  using frame_pacing [of "\<lparr>tv_sec = 4, tv_nsec = 999000000\<rparr>" "\<lparr>tv_sec = 5, tv_nsec = 1000000\<rparr>" 60]
  by (simp add: timespec_ok_def get_timespec_diff_def)

text \<open>
  The rates shown. Over any iterations the pixel rates shown add up (modulo \<open>2 ^ 64\<close>) to
  what the pixel counter counted between the first snapshot and the last, so no pixel is lost or counted twice; the
  byte rate is always 0, as no code counts bytes.
\<close>
theorem shown_rates_total:
  assumes "\<forall>(t, F) \<in> set fs. bytesCounter F = 0" "bytesCounterPreviousSecond s = 0" "actualBytesPerS s = 0"
  shows "sum_list (shown fs s) = pixelCounterPreviousSecond (last_stats fs s) - pixelCounterPreviousSecond s \<and>
     actualBytesPerS (last_stats fs s) = 0"
  using shown_total bytes_shown [OF assms] by blast

theorem shown_rates_total_witness:
  "sum_list (shown [(\<lparr>tv_sec = 2, tv_nsec = 0\<rparr>, the (fbs fb_sample 3)\<lparr>pixelCounter := 30\<rparr>)] stats_sample) = 30"
proof -
  have "\<forall>(t, F) \<in> set [(\<lparr>tv_sec = 2, tv_nsec = 0\<rparr>, (the (fbs fb_sample 3))\<lparr>pixelCounter := 30\<rparr>)]. bytesCounter F = 0"
    by (simp add: fb_sample_def)
  from shown_rates_total [OF this, of stats_sample] show ?thesis
    by (simp add: stats_sample_def tick_stats_def get_timespec_diff_def)
qed

text \<open>
  Two exits. When the queues cannot be allocated, the error path of \<open>main\<close> stops queues that
  do not exist and the run is undefined. When everything is allocated and the last front end named is
  unknown, \<open>main\<close> cleans up and returns 0, as if it had succeeded.
\<close>
theorem main_error_exits:
  assumes "parse_opts args default_opts = Inr os"
  shows "(\<not> an_calloc an \<longrightarrow> 0 < (if an_available an \<noteq> 0 then an_max_node an else 1) \<longrightarrow> main_prog an args fis s st = None) \<and>
     (machine_ok an st \<longrightarrow> o_fronts os \<noteq> [] \<longrightarrow>
        frontend_get_def frontends (fst (frontend_spec_extract_name (last (o_fronts os)))) = None \<longrightarrow>
        (\<exists>st'. main_prog an args fis s st = Some (Inr (0, st'))))"
proof (intro conjI impI)
  assume "\<not> an_calloc an" "0 < (if an_available an \<noteq> 0 then an_max_node an else 1)"
  then show "main_prog an args fis s st = None" by (rule main_no_queues [OF assms])
next
  assume a: "machine_ok an st" "o_fronts os \<noteq> []"
    "frontend_get_def frontends (fst (frontend_spec_extract_name (last (o_fronts os)))) = None"
  show "\<exists>st'. main_prog an args fis s st = Some (Inr (0, st'))"
    by (rule main_unknown_front [OF a(1) assms append_butlast_last_id [OF a(2), symmetric] a(3)])
qed

theorem main_error_exits_witness:
  "\<exists>st'. main_prog answers_sample [(CHR ''f'', ''x11'', True)] [] stats_sample main_sample = Some (Inr (0, st'))"
proof -
  have "parse_opts [(CHR ''f'', ''x11'', True)] default_opts = Inr (default_opts\<lparr>o_fronts := [''x11'']\<rparr>)"
    by (simp add: parse_opt_def default_opts_def MAX_FRONTENDS_def)
  moreover have "machine_ok answers_sample main_sample"
    by (simp add: machine_ok_def answers_sample_def main_sample_def fronts_list_def)
  moreover have "frontend_get_def frontends (fst (frontend_spec_extract_name ''x11'')) = None"
    by (simp add: frontend_spec_extract_name_def frontend_get_def_def frontends_def)
  ultimately show ?thesis
    using main_error_exits [of "[(CHR ''f'', ''x11'', True)]" "default_opts\<lparr>o_fronts := [''x11'']\<rparr>" answers_sample "[]" stats_sample main_sample]
    by simp
qed

text \<open>
  No good end with a front end. Whatever ends the main loop, if a front end is still in the
  list the exit path reads \<open>cursor->next\<close> from the front end it has just freed, and the program's run
  is undefined.
\<close>
theorem shutdown_use_after_free:
  assumes "main_setup an args st = Some (Inl (os, f, st1))" "main_loop os f fis (0, st1, s) = Some (Inr (err, st2))"
    "llist_rep (ms_fronts st2) fronts_list as" "as \<noteq> []"
  shows "main_prog an args fis s st = None"
proof -
  obtain a as' where "as = a # as'" using assms(4) by (cases as) auto
  then have "main_fail_fronts an f err st2 = None" using shutdown_uaf assms(3) by blast
  with assms(1,2) show ?thesis by (simp add: main_prog_def)
qed

text \<open>The program with one VNC front end, told to exit before its main loop starts.\<close>

definition vnc_args :: "(char \<times> string \<times> bool) list" where
  "vnc_args = [(CHR ''w'', ''2'', True), (CHR ''h'', ''2'', True), (CHR ''f'', ''vnc'', True)]"

definition vnc_opts :: main_opts where
  "vnc_opts = \<lparr>o_width = 2, o_height = 2, o_rate = 60, o_fronts = [''vnc''], o_text = True\<rparr>"

lemma parse_vnc: "parse_opts vnc_args default_opts = Inr vnc_opts"
  by (simp add: vnc_args_def vnc_opts_def parse_opt_def atoi_2 MAX_FRONTENDS_def default_opts_def)

definition set_up_with_front :: "(main_opts \<times> eaddr \<times> main_state + c_int \<times> main_state) option \<Rightarrow> bool" where
  "set_up_with_front x =
     (case x of Some (Inl (os, f, st)) \<Rightarrow> mw_exit (world (ms_wq st)) \<and> llist_rep (ms_fronts st) fronts_list [72]
      | _ \<Rightarrow> False)"

lemma vnc_set_up: "set_up_with_front (main_setup answers_sample vnc_args (main_shutdown_flag main_sample))"
  unfolding main_setup_def parse_vnc sum.case by code_simp

theorem shutdown_use_after_free_witness:
  "main_prog answers_sample vnc_args [] stats_sample (main_shutdown_flag main_sample) = None"
proof -
  obtain os f st1 where "main_setup answers_sample vnc_args (main_shutdown_flag main_sample) = Some (Inl (os, f, st1))"
    "mw_exit (world (ms_wq st1))" "llist_rep (ms_fronts st1) fronts_list [72]"
    using vnc_set_up by (auto simp: set_up_with_front_def split: option.split_asm sum.split_asm)
  with shutdown_use_after_free [OF this(1), of "[]" stats_sample 0 st1 "[72]"] show ?thesis by simp
qed

end
