(* ===== verification/CommonBits.thy ===== *)
theory CommonBits
  imports Prelude
begin

text \<open>
  The integer helpers of DPDK's \<open>rte_common.h\<close>: alignment, powers of two, and the position
  of the first and the last set bit. They size the rings and the caches of the packet pools.
  \<open>__builtin_ctz\<close> and \<open>__builtin_clz\<close> are undefined at 0, which is \<open>None\<close> here.
\<close>

section \<open>Operations\<close>

definition RTE_ALIGN_FLOOR :: "'a::len word \<Rightarrow> 'a word \<Rightarrow> 'a word" where
  "RTE_ALIGN_FLOOR val align = val AND NOT (align - 1)"

definition RTE_ALIGN_CEIL :: "'a::len word \<Rightarrow> 'a word \<Rightarrow> 'a word" where
  "RTE_ALIGN_CEIL val align = RTE_ALIGN_FLOOR (val + (align - 1)) align"

definition RTE_ALIGN_MUL_CEIL :: "'a::len word \<Rightarrow> 'a word \<Rightarrow> 'a word" where
  "RTE_ALIGN_MUL_CEIL v mul = ((v + mul - 1) div mul) * mul"

definition RTE_ALIGN_MUL_FLOOR :: "'a::len word \<Rightarrow> 'a word \<Rightarrow> 'a word" where
  "RTE_ALIGN_MUL_FLOOR v mul = (v div mul) * mul"

definition RTE_ALIGN_MUL_NEAR :: "'a::len word \<Rightarrow> 'a word \<Rightarrow> 'a word" where
  "RTE_ALIGN_MUL_NEAR v mul =
     (let ceil = RTE_ALIGN_MUL_CEIL v mul; floor = RTE_ALIGN_MUL_FLOOR v mul
      in if ceil - v > v - floor then floor else ceil)"

definition rte_is_aligned :: "u64 \<Rightarrow> u32 \<Rightarrow> bool" where
  "rte_is_aligned ptr align = ((ptr + ucast (align - 1)) AND NOT (ucast (align - 1)) = ptr)"

definition rte_combine32ms1b :: "u32 \<Rightarrow> u32" where
  "rte_combine32ms1b x =
     (let x = x OR drop_bit 1 x; x = x OR drop_bit 2 x; x = x OR drop_bit 4 x;
          x = x OR drop_bit 8 x in x OR drop_bit 16 x)"

definition rte_combine64ms1b :: "u64 \<Rightarrow> u64" where
  "rte_combine64ms1b v =
     (let v = v OR drop_bit 1 v; v = v OR drop_bit 2 v; v = v OR drop_bit 4 v;
          v = v OR drop_bit 8 v; v = v OR drop_bit 16 v in v OR drop_bit 32 v)"

definition rte_is_power_of_2 :: "u32 \<Rightarrow> bool" where
  "rte_is_power_of_2 n \<longleftrightarrow> n \<noteq> 0 \<and> n AND (n - 1) = 0"

definition rte_align32pow2 :: "u32 \<Rightarrow> u32" where
  "rte_align32pow2 x = rte_combine32ms1b (x - 1) + 1"

definition rte_align32prevpow2 :: "u32 \<Rightarrow> u32" where
  "rte_align32prevpow2 x = (let x = rte_combine32ms1b x in x - drop_bit 1 x)"

definition rte_align64pow2 :: "u64 \<Rightarrow> u64" where
  "rte_align64pow2 v = rte_combine64ms1b (v - 1) + 1"

definition rte_align64prevpow2 :: "u64 \<Rightarrow> u64" where
  "rte_align64prevpow2 v = (let v = rte_combine64ms1b v in v - drop_bit 1 v)"

definition builtin_ctz :: "'a::len word \<Rightarrow> nat option" where
  "builtin_ctz v =
     (if v = 0 then None else Some (length (takeWhile (\<lambda>i. \<not> bit v i) [0..<LENGTH('a)])))"

definition builtin_clz :: "'a::len word \<Rightarrow> nat option" where
  "builtin_clz v =
     (if v = 0 then None else Some (length (takeWhile (\<lambda>i. \<not> bit v i) (rev [0..<LENGTH('a)]))))"

definition rte_bsf32 :: "u32 \<Rightarrow> nat option" where
  "rte_bsf32 v = builtin_ctz v"

text \<open>The result is the return value and what is stored in \<open>*pos\<close>.\<close>

definition rte_bsf32_safe :: "u64 \<Rightarrow> (c_int \<times> nat option) option" where
  "rte_bsf32_safe v =
     (if v = 0 then Some (0, None) else do { p \<leftarrow> rte_bsf32 (ucast v); Some (1, Some p) })"

definition rte_log2_u32 :: "u32 \<Rightarrow> nat option" where
  "rte_log2_u32 v = (if v = 0 then Some 0 else rte_bsf32 (rte_align32pow2 v))"

definition rte_fls_u32 :: "u32 \<Rightarrow> c_int option" where
  "rte_fls_u32 x = (if x = 0 then Some 0 else do { n \<leftarrow> builtin_clz x; Some (32 - int n) })"

definition rte_bsf64 :: "u64 \<Rightarrow> nat option" where
  "rte_bsf64 v = builtin_ctz v"

definition rte_bsf64_safe :: "u64 \<Rightarrow> (c_int \<times> nat option) option" where
  "rte_bsf64_safe v =
     (if v = 0 then Some (0, None) else do { p \<leftarrow> rte_bsf64 v; Some (1, Some p) })"

definition rte_fls_u64 :: "u64 \<Rightarrow> c_int option" where
  "rte_fls_u64 x = (if x = 0 then Some 0 else do { n \<leftarrow> builtin_clz x; Some (64 - int n) })"

definition rte_log2_u64 :: "u64 \<Rightarrow> nat option" where
  "rte_log2_u64 v = (if v = 0 then Some 0 else rte_bsf64 (rte_align64pow2 v))"

section \<open>Bits of a word and its size\<close>

text \<open>\<open>top_bit x m\<close>: \<open>m\<close> is the position of the highest set bit.\<close>

definition top_bit :: "'a::len word \<Rightarrow> nat \<Rightarrow> bool" where
  "top_bit x m \<longleftrightarrow> 2 ^ m \<le> unat x \<and> unat x < 2 ^ Suc m"

lemma top_bit_exists:
  fixes x :: "'a::len word"
  assumes "x \<noteq> 0"
  obtains m where "top_bit x m" "m < LENGTH('a)"
proof -
  have pos: "0 < unat x" using assms by (simp add: unat_gt_0)
  obtain m where m: "2 ^ m \<le> unat x" "unat x < 2 ^ Suc m"
    using ex_power_ivl1 [of 2 "unat x"] pos by auto
  have "(2::nat) ^ m < 2 ^ LENGTH('a)" using m(1) unat_lt2p [of x] by linarith
  then have "m < LENGTH('a)" by simp
  with m that show thesis by (simp add: top_bit_def)
qed

lemma bit_unat_iff: "bit (x :: 'a::len word) i \<longleftrightarrow> bit (unat x) i"
  by (metis bit_unsigned_iff bit_imp_le_length not_le possible_bit_nat)

lemma top_bit_set: "top_bit x m \<Longrightarrow> bit x m"
proof -
  assume "top_bit x m"
  then have "unat x div 2 ^ m = 1" by (intro div_nat_eqI) (auto simp: top_bit_def)
  then show "bit x m" by (simp add: bit_unat_iff bit_iff_odd)
qed

lemma top_bit_above: "top_bit x m \<Longrightarrow> m < i \<Longrightarrow> \<not> bit x i"
proof -
  assume a: "top_bit x m" "m < i"
  have "(2::nat) ^ Suc m \<le> 2 ^ i" using a(2) by (intro power_increasing) auto
  then have "unat x < 2 ^ i" using a(1) unfolding top_bit_def by linarith
  then have "unat x div 2 ^ i = 0" by simp
  then show "\<not> bit x i" by (simp add: bit_unat_iff bit_iff_odd)
qed

section \<open>Smearing the bits downwards\<close>

definition covers :: "nat \<Rightarrow> 'a::len word \<Rightarrow> 'a word \<Rightarrow> bool" where
  "covers k x y \<longleftrightarrow> (\<forall>i. bit y i \<longleftrightarrow> (\<exists>j. i \<le> j \<and> j < i + k \<and> bit x j))"

lemma covers_one: "covers 1 x x"
  by (auto simp: covers_def le_less_Suc_eq)

lemma covers_double:
  assumes "covers k x y"
  shows "covers (2 * k) x (y OR drop_bit k y)"
  unfolding covers_def
proof
  fix i
  have "bit (y OR drop_bit k y) i \<longleftrightarrow>
      (\<exists>j. i \<le> j \<and> j < i + k \<and> bit x j) \<or> (\<exists>j. k + i \<le> j \<and> j < k + i + k \<and> bit x j)"
    using assms by (simp add: bit_or_iff bit_drop_bit_eq covers_def)
  also have "\<dots> \<longleftrightarrow> (\<exists>j. i \<le> j \<and> j < i + 2 * k \<and> bit x j)"
  proof
    assume "(\<exists>j. i \<le> j \<and> j < i + k \<and> bit x j) \<or> (\<exists>j. k + i \<le> j \<and> j < k + i + k \<and> bit x j)"
    then obtain j where "bit x j" "i \<le> j" "j < i + 2 * k" by fastforce
    then show "\<exists>j. i \<le> j \<and> j < i + 2 * k \<and> bit x j" by blast
  next
    show "\<exists>j. i \<le> j \<and> j < i + 2 * k \<and> bit x j \<Longrightarrow>
        (\<exists>j. i \<le> j \<and> j < i + k \<and> bit x j) \<or> (\<exists>j. k + i \<le> j \<and> j < k + i + k \<and> bit x j)"
      by (metis add.commute add.left_commute mult_2 not_less)
  qed
  finally show "bit (y OR drop_bit k y) i \<longleftrightarrow> (\<exists>j. i \<le> j \<and> j < i + 2 * k \<and> bit x j)" .
qed

lemma covers_double': "covers k x y \<Longrightarrow> n = 2 * k \<Longrightarrow> covers n x (y OR drop_bit k y)"
  using covers_double by blast

lemma combine32_covers: "covers 32 x (rte_combine32ms1b x)"
  unfolding rte_combine32ms1b_def Let_def
  by (intro covers_double' [of 16] covers_double' [of 8] covers_double' [of 4] covers_double' [of 2]
        covers_double' [of 1] covers_one) simp_all

lemma combine64_covers: "covers 64 x (rte_combine64ms1b x)"
  unfolding rte_combine64ms1b_def Let_def
  by (intro covers_double' [of 32] covers_double' [of 16] covers_double' [of 8] covers_double' [of 4]
        covers_double' [of 2] covers_double' [of 1] covers_one) simp_all

lemma covers_mask:
  fixes x y :: "'a::len word"
  assumes "covers LENGTH('a) x y" "top_bit x m" "m < LENGTH('a)"
  shows "y = mask (Suc m)"
proof (rule bit_word_eqI)
  fix i assume i: "i < LENGTH('a)"
  have "bit y i \<longleftrightarrow> (\<exists>j. i \<le> j \<and> bit x j)"
    using assms(1) i bit_imp_le_length [of x] by (auto simp: covers_def) (metis le_less_trans trans_less_add2 not_le add.commute trans_less_add1)
  also have "\<dots> \<longleftrightarrow> i \<le> m"
    using top_bit_set [OF assms(2)] top_bit_above [OF assms(2)] by (meson not_le order_less_le_trans)
  finally show "bit y i \<longleftrightarrow> bit (mask (Suc m) :: 'a word) i" using i by (auto simp: bit_mask_iff)
qed

lemma covers_zero: "covers k 0 y \<Longrightarrow> y = 0"
  by (intro bit_word_eqI) (auto simp: covers_def)

lemma mask_plus_one: "(mask n :: 'a::len word) + 1 = 2 ^ n"
  by (simp add: mask_eq_exp_minus_1)

lemma unat_p2:
  assumes "n < LENGTH('a)"
  shows "unat (2 ^ n :: 'a::len word) = 2 ^ n"
proof -
  have "(2 ^ n :: 'a word) = of_nat (2 ^ n)" by simp
  moreover have "(2 :: nat) ^ n < 2 ^ LENGTH('a)" using assms by simp
  ultimately show ?thesis by (simp only: unat_of_nat) simp
qed

text \<open>The common core of the 32-bit and the 64-bit functions.\<close>

lemma align_pow2_core:
  fixes x y :: "'a::len word"
  assumes "covers LENGTH('a) (x - 1) y" "x \<noteq> 0"
  shows "if unat x \<le> 2 ^ (LENGTH('a) - 1)
         then \<exists>k. unat (y + 1) = 2 ^ k \<and> unat x \<le> 2 ^ k \<and> 2 ^ k < 2 * unat x \<and> k < LENGTH('a)
         else y + 1 = 0"
proof -
  have len: "LENGTH('a) = Suc (LENGTH('a) - 1)" using len_gt_0 [where 'a = 'a] by simp
  have u: "unat (x - 1) = unat x - 1" "unat x > 0" using assms(2) by (auto simp: unat_minus_one unat_gt_0)
  show ?thesis
  proof (cases "x = 1")
    case True
    then have "y = 0" using assms(1) by (auto dest: covers_zero)
    with True show ?thesis by (auto intro!: exI [of _ 0])
  next
    case False
    then have "x - 1 \<noteq> 0" by auto
    then obtain m where m: "top_bit (x - 1) m" "m < LENGTH('a)" by (rule top_bit_exists)
    have y: "y + 1 = 2 ^ Suc m" using covers_mask [OF assms(1) m] by (simp only: mask_plus_one)
    have b: "2 ^ m < unat x" "unat x \<le> 2 ^ Suc m" using m(1) u by (auto simp: top_bit_def)
    show ?thesis
    proof (cases "Suc m < LENGTH('a)")
      case True
      then have "unat (y + 1) = 2 ^ Suc m" unfolding y by (rule unat_p2)
      moreover have "unat x \<le> 2 ^ (LENGTH('a) - 1)"
        using b(2) True by (elim order_trans) (intro power_increasing, auto)
      ultimately show ?thesis using b True by (auto intro!: exI [of _ "Suc m"])
    next
      case False
      then have m': "LENGTH('a) = Suc m" using m(2) by simp
      then have "y + 1 = 0" using y by (metis exp_eq_zero_iff order_refl)
      moreover have "\<not> unat x \<le> 2 ^ (LENGTH('a) - 1)" using b(1) m' by simp
      ultimately show ?thesis by simp
    qed
  qed
qed

lemma align_prev_core:
  fixes x y :: "'a::len word"
  assumes "covers LENGTH('a) x y" "x \<noteq> 0"
  shows "\<exists>k. unat (y - drop_bit 1 y) = 2 ^ k \<and> 2 ^ k \<le> unat x \<and> unat x < 2 * 2 ^ k"
proof -
  obtain m where m: "top_bit x m" "m < LENGTH('a)" using top_bit_exists [OF assms(2)] .
  have y: "y = mask (Suc m)" by (rule covers_mask [OF assms(1) m])
  have "drop_bit 1 y = mask m"
    using m(2) by (intro bit_word_eqI) (auto simp: y bit_drop_bit_eq bit_mask_iff)
  then have "y - drop_bit 1 y = 2 ^ m"
    by (simp add: y mask_eq_exp_minus_1)
  then have "unat (y - drop_bit 1 y) = 2 ^ m" using unat_p2 [OF m(2)] by simp
  with m(1) show ?thesis by (auto simp: top_bit_def)
qed

section \<open>The functions\<close>

lemma align32pow2_spec:
  assumes "0 < x" "unat x \<le> 2 ^ 31"
  shows "\<exists>k. unat (rte_align32pow2 x) = 2 ^ k \<and> unat x \<le> 2 ^ k \<and> 2 ^ k < 2 * unat x \<and> k < 32"
  using align_pow2_core [of x "rte_combine32ms1b (x - 1)"] combine32_covers [of "x - 1"] assms
  by (auto simp: rte_align32pow2_def)

lemma align32pow2_wraps:
  assumes "2 ^ 31 < unat x"
  shows "rte_align32pow2 x = 0"
proof -
  have "x \<noteq> 0" using assms by auto
  then show ?thesis
    using align_pow2_core [of x "rte_combine32ms1b (x - 1)"] combine32_covers [of "x - 1"] assms
    by (auto simp: rte_align32pow2_def)
qed

lemma align64pow2_spec:
  assumes "0 < v" "unat v \<le> 2 ^ 63"
  shows "\<exists>k. unat (rte_align64pow2 v) = 2 ^ k \<and> unat v \<le> 2 ^ k \<and> 2 ^ k < 2 * unat v \<and> k < 64"
  using align_pow2_core [of v "rte_combine64ms1b (v - 1)"] combine64_covers [of "v - 1"] assms
  by (auto simp: rte_align64pow2_def)

lemma align64pow2_wraps:
  assumes "2 ^ 63 < unat v"
  shows "rte_align64pow2 v = 0"
proof -
  have "v \<noteq> 0" using assms by auto
  then show ?thesis
    using align_pow2_core [of v "rte_combine64ms1b (v - 1)"] combine64_covers [of "v - 1"] assms
    by (auto simp: rte_align64pow2_def)
qed

lemma align32prevpow2_spec:
  assumes "0 < x"
  shows "\<exists>k. unat (rte_align32prevpow2 x) = 2 ^ k \<and> 2 ^ k \<le> unat x \<and> unat x < 2 * 2 ^ k"
  using align_prev_core [of x "rte_combine32ms1b x"] combine32_covers [of x] assms
  by (auto simp: rte_align32prevpow2_def Let_def)

lemma align64prevpow2_spec:
  assumes "0 < v"
  shows "\<exists>k. unat (rte_align64prevpow2 v) = 2 ^ k \<and> 2 ^ k \<le> unat v \<and> unat v < 2 * 2 ^ k"
  using align_prev_core [of v "rte_combine64ms1b v"] combine64_covers [of v] assms
  by (auto simp: rte_align64prevpow2_def Let_def)

section \<open>Powers of two\<close>

lemma and_pred_power:
  fixes n :: "'a::len word"
  assumes "n \<noteq> 0"
  shows "n AND (n - 1) = 0 \<longleftrightarrow> (\<exists>k. unat n = 2 ^ k)"
proof
  obtain m where m: "top_bit n m" "m < LENGTH('a)" using top_bit_exists [OF assms] .
  assume z: "n AND (n - 1) = 0"
  have "unat n = 2 ^ m"
  proof (rule ccontr)
    assume "unat n \<noteq> 2 ^ m"
    then have "top_bit (n - 1) m" using m(1) assms by (auto simp: top_bit_def unat_minus_one)
    then have "bit (n AND (n - 1)) m"
      using top_bit_set [of n m] top_bit_set [of "n - 1" m] m(1) by (simp add: bit_and_iff)
    with z show False by simp
  qed
  then show "\<exists>k. unat n = 2 ^ k" ..
next
  assume "\<exists>k. unat n = 2 ^ k"
  then obtain k where k: "unat n = 2 ^ k" ..
  have "(2::nat) ^ k < 2 ^ LENGTH('a)" using k unat_lt2p [of n] by simp
  then have kl: "k < LENGTH('a)" by simp
  have "n = 2 ^ k" using k unat_p2 [OF kl] by (metis word_unat_eq_iff)
  then have "n = 2 ^ k" "n - 1 = mask k" by (simp_all add: mask_eq_exp_minus_1)
  then show "n AND (n - 1) = 0"
    by (intro bit_word_eqI) (auto simp: bit_and_iff bit_mask_iff bit_exp_iff)
qed

lemma is_power_of_2_iff: "rte_is_power_of_2 n \<longleftrightarrow> (\<exists>k. unat n = 2 ^ k)"
proof (cases "n = 0")
  case True
  then show ?thesis by (simp add: rte_is_power_of_2_def)
next
  case False
  with and_pred_power [OF False] show ?thesis by (simp add: rte_is_power_of_2_def)
qed

lemma align_floor_spec:
  fixes val :: "'a::len word"
  assumes "k < LENGTH('a)"
  shows "unat (RTE_ALIGN_FLOOR val (2 ^ k)) = unat val - unat val mod 2 ^ k"
proof -
  have "RTE_ALIGN_FLOOR val (2 ^ k) = push_bit k (drop_bit k val)"
    unfolding RTE_ALIGN_FLOOR_def mask_eq_exp_minus_1 [symmetric]
    by (intro bit_word_eqI)
       (auto simp: bit_and_iff bit_not_iff bit_mask_iff bit_push_bit_iff bit_drop_bit_eq)
  also have "\<dots> = val - take_bit k val"
    using bits_ident [of k val] by (simp add: algebra_simps)
  also have "unat \<dots> = unat val - unat (take_bit k val)"
    by (intro unat_sub_le) (simp only: word_le_nat_alt unsigned_take_bit_eq take_bit_nat_less_eq_self)
  finally show ?thesis by (simp only: unsigned_take_bit_eq take_bit_nat_def)
qed

lemma align_ceil_spec:
  fixes val :: "'a::len word"
  assumes "k < LENGTH('a)" "unat val + 2 ^ k \<le> 2 ^ LENGTH('a)"
  shows "unat val \<le> unat (RTE_ALIGN_CEIL val (2 ^ k)) \<and>
         unat (RTE_ALIGN_CEIL val (2 ^ k)) < unat val + 2 ^ k \<and>
         unat (RTE_ALIGN_CEIL val (2 ^ k)) mod 2 ^ k = 0"
proof -
  have m: "unat ((2 :: 'a word) ^ k - 1) = 2 ^ k - 1"
    using unat_p2 [OF assms(1)] assms(1) by (simp add: unat_minus_one)
  then have "unat (val + (2 ^ k - 1)) = unat val + (2 ^ k - 1)"
    using assms(2) zero_less_power [of "2 :: nat" k]
    by (subst unat_add_no_overflow) (simp_all only: m, linarith)
  then have u: "unat (RTE_ALIGN_CEIL val (2 ^ k)) =
      unat val + (2 ^ k - 1) - (unat val + (2 ^ k - 1)) mod 2 ^ k"
    by (simp add: RTE_ALIGN_CEIL_def align_floor_spec [OF assms(1)])
  let ?n = "unat val + (2 ^ k - 1)"
  have l: "?n mod 2 ^ k < 2 ^ k" "?n mod 2 ^ k \<le> ?n" by simp_all
  have d: "(?n - ?n mod 2 ^ k) mod 2 ^ k = 0" by (simp only: minus_mod_eq_mult_div) simp
  have p: "0 < (2 :: nat) ^ k" by simp
  from l p have "unat val \<le> ?n - ?n mod 2 ^ k" "?n - ?n mod 2 ^ k < unat val + 2 ^ k"
    by linarith+
  with d show ?thesis unfolding u by blast
qed

section \<open>The first and the last bit\<close>

lemma takeWhile_upt:
  assumes "n < k" "\<not> P n" "\<forall>i < n. P i"
  shows "takeWhile P [0..<k] = [0..<n]"
proof -
  have "[0..<k] = [0..<n] @ n # [Suc n..<k]"
    using assms(1) by (metis upt_conv_Cons less_imp_le le0 upt_add_eq_append le_add_diff_inverse)
  then show ?thesis using assms(2,3) by (simp add: takeWhile_append)
qed

lemma ctz_unique:
  assumes "bit (v :: 'a::len word) n" "\<forall>i < n. \<not> bit v i"
  shows "builtin_ctz v = Some n"
proof -
  have "n < LENGTH('a)" "v \<noteq> 0" using assms(1) bit_imp_le_length by auto
  then show ?thesis using assms takeWhile_upt [of n "LENGTH('a)" "\<lambda>i. \<not> bit v i"]
    by (simp add: builtin_ctz_def)
qed

lemma ctz_spec:
  fixes v :: "'a::len word"
  assumes "v \<noteq> 0"
  shows "\<exists>n. builtin_ctz v = Some n \<and> bit v n \<and> (\<forall>i < n. \<not> bit v i) \<and> n < LENGTH('a)"
proof -
  obtain m where "bit v m" using top_bit_exists [OF assms] top_bit_set by blast
  then have "bit v (LEAST i. bit v i)" "\<forall>i < (LEAST i. bit v i). \<not> bit v i"
    by (auto intro: LeastI dest: not_less_Least)
  with ctz_unique bit_imp_le_length show ?thesis by blast
qed

lemma ctz_power: "k < LENGTH('a) \<Longrightarrow> unat (v :: 'a::len word) = 2 ^ k \<Longrightarrow> builtin_ctz v = Some k"
  by (rule ctz_unique) (auto simp: bit_unat_iff bit_exp_iff)

lemma clz_spec:
  fixes v :: "'a::len word"
  assumes "top_bit v m" "m < LENGTH('a)"
  shows "builtin_clz v = Some (LENGTH('a) - Suc m)"
proof -
  have "v \<noteq> 0" using assms(1) by (auto simp: top_bit_def)
  have "rev [0..<LENGTH('a)] = rev [Suc m..<LENGTH('a)] @ m # rev [0..<m]"
    using assms(2) by (metis Suc_leI le0 rev_append rev.simps(2) upt_Suc_append upt_add_eq_append
        le_add_diff_inverse append.assoc append_Cons append_Nil)
  moreover have "\<forall>i \<in> set (rev [Suc m..<LENGTH('a)]). \<not> bit v i"
    using top_bit_above [OF assms(1)] by auto
  ultimately have "takeWhile (\<lambda>i. \<not> bit v i) (rev [0..<LENGTH('a)]) = rev [Suc m..<LENGTH('a)]"
    using top_bit_set [OF assms(1)] by (simp add: takeWhile_append)
  with \<open>v \<noteq> 0\<close> show ?thesis by (simp add: builtin_clz_def)
qed

text \<open>
  The rounded-up logarithm. Above \<open>2 ^ 31\<close> the next power of two is 0, and its trailing
  zeros are undefined.
\<close>

lemma log2_u32_spec:
  assumes "0 < v" "unat v \<le> 2 ^ 31"
  shows "\<exists>k. rte_log2_u32 v = Some k \<and> unat v \<le> 2 ^ k \<and> 2 ^ k < 2 * unat v"
proof -
  obtain k where k: "unat (rte_align32pow2 v) = 2 ^ k" "unat v \<le> 2 ^ k" "2 ^ k < 2 * unat v" "k < 32"
    using align32pow2_spec [OF assms] by blast
  then have "builtin_ctz (rte_align32pow2 v) = Some k" by (intro ctz_power) simp_all
  with k assms(1) show ?thesis by (auto simp: rte_log2_u32_def rte_bsf32_def)
qed

lemma log2_u32_undefined:
  assumes "2 ^ 31 < unat v"
  shows "rte_log2_u32 v = None"
  using align32pow2_wraps [OF assms] assms
  by (auto simp: rte_log2_u32_def rte_bsf32_def builtin_ctz_def)

lemma log2_u64_spec:
  assumes "0 < v" "unat v \<le> 2 ^ 63"
  shows "\<exists>k. rte_log2_u64 v = Some k \<and> unat v \<le> 2 ^ k \<and> 2 ^ k < 2 * unat v"
proof -
  obtain k where k: "unat (rte_align64pow2 v) = 2 ^ k" "unat v \<le> 2 ^ k" "2 ^ k < 2 * unat v" "k < 64"
    using align64pow2_spec [OF assms] by blast
  then have "builtin_ctz (rte_align64pow2 v) = Some k" by (intro ctz_power) simp_all
  with k assms(1) show ?thesis by (auto simp: rte_log2_u64_def rte_bsf64_def)
qed

lemma log2_u64_undefined:
  assumes "2 ^ 63 < unat v"
  shows "rte_log2_u64 v = None"
  using align64pow2_wraps [OF assms] assms
  by (auto simp: rte_log2_u64_def rte_bsf64_def builtin_ctz_def)

text \<open>The \<open>safe\<close> search drops the upper half of its argument before it looks for a bit.\<close>

lemma bsf32_safe_spec:
  "rte_bsf32_safe v =
     (if v = 0 then Some (0, None)
      else if (ucast v :: u32) = 0 then None
      else map_option (\<lambda>n. (1, Some n)) (builtin_ctz (ucast v :: u32)))"
  using ctz_spec [of "ucast v :: u32"]
  by (auto simp: rte_bsf32_safe_def rte_bsf32_def builtin_ctz_def)

lemma bsf64_safe_spec:
  assumes "v \<noteq> 0"
  shows "\<exists>n. rte_bsf64_safe v = Some (1, Some n) \<and> bit v n \<and> (\<forall>i < n. \<not> bit v i)"
  using ctz_spec [OF assms] assms by (auto simp: rte_bsf64_safe_def rte_bsf64_def)

lemma fls_u32_spec:
  assumes "x \<noteq> 0"
  shows "\<exists>m. rte_fls_u32 x = Some (int (Suc m)) \<and> 2 ^ m \<le> unat x \<and> unat x < 2 ^ Suc m"
proof -
  obtain m where m: "top_bit x m" "m < 32" using top_bit_exists [OF assms] by auto
  then have "rte_fls_u32 x = Some (int (Suc m))"
    using clz_spec [OF m(1)] assms by (simp add: rte_fls_u32_def of_nat_diff)
  with m(1) show ?thesis unfolding top_bit_def by blast
qed

lemma fls_u64_spec:
  assumes "x \<noteq> 0"
  shows "\<exists>m. rte_fls_u64 x = Some (int (Suc m)) \<and> 2 ^ m \<le> unat x \<and> unat x < 2 ^ Suc m"
proof -
  obtain m where m: "top_bit x m" "m < 64" using top_bit_exists [OF assms] by auto
  then have "rte_fls_u64 x = Some (int (Suc m))"
    using clz_spec [OF m(1)] assms by (simp add: rte_fls_u64_def of_nat_diff)
  with m(1) show ?thesis unfolding top_bit_def by blast
qed

section \<open>Properties\<close>

text \<open>
  The next power of two and the rounded-up logarithm, 32 bits. Up to \<open>2 ^ 31\<close> the aligned value is the
  power of two that is at least the argument and less than twice it, and the logarithm is its
  exponent; above \<open>2 ^ 31\<close> the aligned value wraps to 0 and the logarithm is undefined.
\<close>
theorem align_and_log2:
  assumes "0 < v"
  shows "if unat v \<le> 2 ^ 31
     then \<exists>k < 32. unat (rte_align32pow2 v) = 2 ^ k \<and> rte_log2_u32 v = Some k \<and> unat v \<le> 2 ^ k \<and> 2 ^ k < 2 * unat v
     else rte_align32pow2 v = 0 \<and> rte_log2_u32 v = None"
proof (cases "unat v \<le> 2 ^ 31")
  case True
  obtain k where k: "unat (rte_align32pow2 v) = 2 ^ k" "unat v \<le> 2 ^ k" "2 ^ k < 2 * unat v" "k < 32"
    using align32pow2_spec [OF assms True] by blast
  have "rte_log2_u32 v = Some k"
    using ctz_power [OF _ k(1)] k(4) word_neq_0_conv [of v] assms by (simp add: rte_log2_u32_def rte_bsf32_def)
  with True k show ?thesis by auto
next
  case False
  then show ?thesis using align32pow2_wraps [of v] log2_u32_undefined [of v] by simp
qed

theorem align_and_log2_witness: "rte_log2_u32 0x80000001 = None \<and> rte_align32pow2 0x80000001 = 0"
  using align_and_log2 [of "0x80000001"] by simp

end
