(* ===== verification/Ring.thy ===== *)
theory Ring
  imports CommonBits
begin

text \<open>
  DPDK's lockless ring (\<open>rte_ring.h\<close>, \<open>rte_ring_generic.h\<close>, \<open>rte_ring.c\<close>), the queue in
  which the packet pools keep their free buffers. The four indices are 32-bit words that run
  freely and wrap; a slot is an index masked with \<open>size - 1\<close>. Here every call runs alone:
  the compare-and-set then succeeds and the wait for earlier calls is over at once;
  \<open>RingThreads\<close> has calls of many threads that overlap.

  The table of objects behind the structure is the list \<open>r_tbl\<close>; an access beyond it is
  \<open>None\<close>. The result of a call is the C return value with the ring afterwards.
\<close>

section \<open>State\<close>

record headtail =
  ht_head :: u32
  ht_tail :: u32
  ht_single :: bool

record 'o rte_ring =
  r_name :: string
  r_flags :: u32
  r_memzone :: "nat option"
  r_size :: u32
  r_mask :: u32
  r_capacity :: u32
  r_prod :: headtail
  r_cons :: headtail
  r_tbl :: "'o list"

datatype rte_ring_queue_behavior = RTE_RING_QUEUE_FIXED | RTE_RING_QUEUE_VARIABLE

definition RING_F_SP_ENQ :: u32 where "RING_F_SP_ENQ = 1"
definition RING_F_SC_DEQ :: u32 where "RING_F_SC_DEQ = 2"
definition RING_F_EXACT_SZ :: u32 where "RING_F_EXACT_SZ = 4"
definition RTE_RING_SZ_MASK :: u32 where "RTE_RING_SZ_MASK = 0x7fffffff"
definition RTE_MEMZONE_NAMESIZE :: nat where "RTE_MEMZONE_NAMESIZE = 32"
definition RTE_RING_NAMESIZE :: nat where "RTE_RING_NAMESIZE = RTE_MEMZONE_NAMESIZE - 4 + 1"

section \<open>Copying objects\<close>

definition tbl_put :: "'o list \<Rightarrow> u32 \<Rightarrow> 'o list \<Rightarrow> u32 \<Rightarrow> 'o list option" where
  "tbl_put ring idx objs i =
     (if unat idx < length ring \<and> unat i < length objs
      then Some (ring[unat idx := objs ! unat i]) else None)"

text \<open>
  The unrolled copy: four objects at a time up to \<open>lim\<close>, then the \<open>switch\<close> on the rest. The
  copy works in both directions, from \<open>src\<close> at \<open>j\<close> to \<open>dst\<close> at \<open>i\<close>.
\<close>

partial_function (option) copy_quads ::
    "u32 \<Rightarrow> (u32 \<Rightarrow> u32 \<Rightarrow> 's \<Rightarrow> 's option) \<Rightarrow> u32 \<Rightarrow> u32 \<Rightarrow> 's \<Rightarrow> (u32 \<times> u32 \<times> 's) option" where
  "copy_quads lim step i idx s =
     (if i < lim then
        Option.bind (step idx i s) (\<lambda>s.
        Option.bind (step (idx + 1) (i + 1) s) (\<lambda>s.
        Option.bind (step (idx + 2) (i + 2) s) (\<lambda>s.
        Option.bind (step (idx + 3) (i + 3) s) (\<lambda>s.
        copy_quads lim step (i + 4) (idx + 4) s))))
      else Some (i, idx, s))"

fun copy_rest :: "nat \<Rightarrow> (u32 \<Rightarrow> u32 \<Rightarrow> 's \<Rightarrow> 's option) \<Rightarrow> u32 \<Rightarrow> u32 \<Rightarrow> 's \<Rightarrow> 's option" where
  "copy_rest 0 step i idx s = Some s"
| "copy_rest (Suc k) step i idx s =
     Option.bind (step idx i s) (\<lambda>s. copy_rest k step (i + 1) (idx + 1) s)"

text \<open>The loops \<open>while (idx < size)\<close> and \<open>while (i < n)\<close> of the copy across the end.\<close>

partial_function (option) copy_idx ::
    "u32 \<Rightarrow> (u32 \<Rightarrow> u32 \<Rightarrow> 's \<Rightarrow> 's option) \<Rightarrow> u32 \<Rightarrow> u32 \<Rightarrow> 's \<Rightarrow> (u32 \<times> 's) option" where
  "copy_idx sz step i idx s =
     (if idx < sz then Option.bind (step idx i s) (\<lambda>s. copy_idx sz step (i + 1) (idx + 1) s)
      else Some (i, s))"

partial_function (option) copy_i ::
    "u32 \<Rightarrow> (u32 \<Rightarrow> u32 \<Rightarrow> 's \<Rightarrow> 's option) \<Rightarrow> u32 \<Rightarrow> u32 \<Rightarrow> 's \<Rightarrow> 's option" where
  "copy_i n step i idx s =
     (if i < n then Option.bind (step idx i s) (\<lambda>s. copy_i n step (i + 1) (idx + 1) s)
      else Some s)"

definition copy_ptrs ::
    "u32 \<Rightarrow> u32 \<Rightarrow> u32 \<Rightarrow> (u32 \<Rightarrow> u32 \<Rightarrow> 's \<Rightarrow> 's option) \<Rightarrow> 's \<Rightarrow> 's option" where
  "copy_ptrs sz idx n step s =
     (if idx + n < sz then do {
        (i, idx, s) \<leftarrow> copy_quads (n AND NOT 3) step 0 idx s;
        copy_rest (unat (n AND 3)) step i idx s }
      else do {
        (i, s) \<leftarrow> copy_idx sz step 0 idx s;
        copy_i n step i 0 s })"

definition ENQUEUE_PTRS :: "'o rte_ring \<Rightarrow> u32 \<Rightarrow> 'o list \<Rightarrow> u32 \<Rightarrow> 'o list option" where
  "ENQUEUE_PTRS r prod_head objs n =
     copy_ptrs (r_size r) (prod_head AND r_mask r) n (\<lambda>idx i ring. tbl_put ring idx objs i) (r_tbl r)"

text \<open>The caller's table is a list of the length it has room for.\<close>

definition DEQUEUE_PTRS :: "'o rte_ring \<Rightarrow> u32 \<Rightarrow> 'o list \<Rightarrow> u32 \<Rightarrow> 'o list option" where
  "DEQUEUE_PTRS r cons_head objs n =
     copy_ptrs (r_size r) (cons_head AND r_mask r) n (\<lambda>idx i objs. tbl_put objs i (r_tbl r) idx) objs"

section \<open>Moving heads and tails\<close>

definition rte_atomic32_cmpset :: "u32 \<Rightarrow> u32 \<Rightarrow> u32 \<Rightarrow> bool \<times> u32" where
  "rte_atomic32_cmpset dst ex src = (if dst = ex then (True, src) else (False, dst))"

text \<open>The results are \<open>n\<close>, \<open>old_head\<close>, \<open>new_head\<close>, \<open>free_entries\<close> and the ring.\<close>

partial_function (option) move_prod_head ::
    "'o rte_ring \<Rightarrow> bool \<Rightarrow> u32 \<Rightarrow> rte_ring_queue_behavior \<Rightarrow> (u32 \<times> u32 \<times> u32 \<times> u32 \<times> 'o rte_ring) option" where
  "move_prod_head r is_sp n0 behavior =
     (let old_head = ht_head (r_prod r);
          free_entries = r_capacity r + ht_tail (r_cons r) - old_head;
          n = (if n0 > free_entries
               then (if behavior = RTE_RING_QUEUE_FIXED then 0 else free_entries) else n0)
      in if n = 0 then Some (0, old_head, old_head, free_entries, r)
      else let new_head = old_head + n;
               (success, h) = (if is_sp then (True, new_head)
                               else rte_atomic32_cmpset (ht_head (r_prod r)) old_head new_head);
               r' = r\<lparr>r_prod := (r_prod r)\<lparr>ht_head := h\<rparr>\<rparr>
           in if success then Some (n, old_head, new_head, free_entries, r')
              else move_prod_head r' is_sp n0 behavior)"

partial_function (option) move_cons_head ::
    "'o rte_ring \<Rightarrow> bool \<Rightarrow> u32 \<Rightarrow> rte_ring_queue_behavior \<Rightarrow> (u32 \<times> u32 \<times> u32 \<times> u32 \<times> 'o rte_ring) option" where
  "move_cons_head r is_sc n0 behavior =
     (let old_head = ht_head (r_cons r);
          ents = ht_tail (r_prod r) - old_head;
          n = (if n0 > ents then (if behavior = RTE_RING_QUEUE_FIXED then 0 else ents) else n0)
      in if n = 0 then Some (0, old_head, old_head, ents, r)
      else let new_head = old_head + n;
               (success, h) = (if is_sc then (True, new_head)
                               else rte_atomic32_cmpset (ht_head (r_cons r)) old_head new_head);
               r' = r\<lparr>r_cons := (r_cons r)\<lparr>ht_head := h\<rparr>\<rparr>
           in if success then Some (n, old_head, new_head, ents, r')
              else move_cons_head r' is_sc n0 behavior)"

text \<open>Nobody else moves the tail, so a wait that is not over at once lasts for ever.\<close>

definition update_tail :: "headtail \<Rightarrow> u32 \<Rightarrow> u32 \<Rightarrow> bool \<Rightarrow> headtail option" where
  "update_tail ht old_val new_val single = do {
     _ \<leftarrow> guard (single \<or> ht_tail ht = old_val);
     Some (ht\<lparr>ht_tail := new_val\<rparr>) }"

section \<open>Enqueueing and dequeueing\<close>

definition do_enqueue ::
    "'o rte_ring \<Rightarrow> 'o list \<Rightarrow> u32 \<Rightarrow> rte_ring_queue_behavior \<Rightarrow> bool \<Rightarrow> (u32 \<times> u32 \<times> 'o rte_ring) option" where
  "do_enqueue r objs n behavior is_sp = do {
     (n, prod_head, prod_next, free_entries, r) \<leftarrow> move_prod_head r is_sp n behavior;
     if n = 0 then Some (n, free_entries - n, r)
     else do {
       tbl \<leftarrow> ENQUEUE_PTRS r prod_head objs n;
       ht \<leftarrow> update_tail (r_prod r) prod_head prod_next is_sp;
       Some (n, free_entries - n, r\<lparr>r_tbl := tbl, r_prod := ht\<rparr>) } }"

definition do_dequeue ::
    "'o rte_ring \<Rightarrow> 'o list \<Rightarrow> u32 \<Rightarrow> rte_ring_queue_behavior \<Rightarrow> bool \<Rightarrow>
     (u32 \<times> u32 \<times> 'o list \<times> 'o rte_ring) option" where
  "do_dequeue r objs n behavior is_sc = do {
     (n, cons_head, cons_next, ents, r) \<leftarrow> move_cons_head r is_sc n behavior;
     if n = 0 then Some (n, ents - n, objs, r)
     else do {
       objs \<leftarrow> DEQUEUE_PTRS r cons_head objs n;
       ht \<leftarrow> update_tail (r_cons r) cons_head cons_next is_sc;
       Some (n, ents - n, objs, r\<lparr>r_cons := ht\<rparr>) } }"

definition rte_ring_mp_enqueue_bulk :: "'o rte_ring \<Rightarrow> 'o list \<Rightarrow> u32 \<Rightarrow> (u32 \<times> u32 \<times> 'o rte_ring) option" where
  "rte_ring_mp_enqueue_bulk r objs n = do_enqueue r objs n RTE_RING_QUEUE_FIXED False"

definition rte_ring_sp_enqueue_bulk :: "'o rte_ring \<Rightarrow> 'o list \<Rightarrow> u32 \<Rightarrow> (u32 \<times> u32 \<times> 'o rte_ring) option" where
  "rte_ring_sp_enqueue_bulk r objs n = do_enqueue r objs n RTE_RING_QUEUE_FIXED True"

definition rte_ring_enqueue_bulk :: "'o rte_ring \<Rightarrow> 'o list \<Rightarrow> u32 \<Rightarrow> (u32 \<times> u32 \<times> 'o rte_ring) option" where
  "rte_ring_enqueue_bulk r objs n = do_enqueue r objs n RTE_RING_QUEUE_FIXED (ht_single (r_prod r))"

definition rte_ring_mp_enqueue :: "'o rte_ring \<Rightarrow> 'o \<Rightarrow> (c_int \<times> 'o rte_ring) option" where
  "rte_ring_mp_enqueue r ob = do {
     (n, _, r) \<leftarrow> rte_ring_mp_enqueue_bulk r [ob] 1; Some (if n \<noteq> 0 then 0 else - ENOBUFS, r) }"

definition rte_ring_sp_enqueue :: "'o rte_ring \<Rightarrow> 'o \<Rightarrow> (c_int \<times> 'o rte_ring) option" where
  "rte_ring_sp_enqueue r ob = do {
     (n, _, r) \<leftarrow> rte_ring_sp_enqueue_bulk r [ob] 1; Some (if n \<noteq> 0 then 0 else - ENOBUFS, r) }"

definition rte_ring_enqueue :: "'o rte_ring \<Rightarrow> 'o \<Rightarrow> (c_int \<times> 'o rte_ring) option" where
  "rte_ring_enqueue r ob = do {
     (n, _, r) \<leftarrow> rte_ring_enqueue_bulk r [ob] 1; Some (if n \<noteq> 0 then 0 else - ENOBUFS, r) }"

definition rte_ring_mc_dequeue_bulk :: "'o rte_ring \<Rightarrow> 'o list \<Rightarrow> u32 \<Rightarrow> (u32 \<times> u32 \<times> 'o list \<times> 'o rte_ring) option" where
  "rte_ring_mc_dequeue_bulk r objs n = do_dequeue r objs n RTE_RING_QUEUE_FIXED False"

definition rte_ring_sc_dequeue_bulk :: "'o rte_ring \<Rightarrow> 'o list \<Rightarrow> u32 \<Rightarrow> (u32 \<times> u32 \<times> 'o list \<times> 'o rte_ring) option" where
  "rte_ring_sc_dequeue_bulk r objs n = do_dequeue r objs n RTE_RING_QUEUE_FIXED True"

definition rte_ring_dequeue_bulk :: "'o rte_ring \<Rightarrow> 'o list \<Rightarrow> u32 \<Rightarrow> (u32 \<times> u32 \<times> 'o list \<times> 'o rte_ring) option" where
  "rte_ring_dequeue_bulk r objs n = do_dequeue r objs n RTE_RING_QUEUE_FIXED (ht_single (r_cons r))"

text \<open>One object: \<open>obj_p\<close> holds \<open>x\<close> before the call.\<close>

definition rte_ring_mc_dequeue :: "'o rte_ring \<Rightarrow> 'o \<Rightarrow> (c_int \<times> 'o \<times> 'o rte_ring) option" where
  "rte_ring_mc_dequeue r x = do {
     (n, _, objs, r) \<leftarrow> rte_ring_mc_dequeue_bulk r [x] 1;
     Some (if n \<noteq> 0 then 0 else - ENOENT, hd objs, r) }"

definition rte_ring_sc_dequeue :: "'o rte_ring \<Rightarrow> 'o \<Rightarrow> (c_int \<times> 'o \<times> 'o rte_ring) option" where
  "rte_ring_sc_dequeue r x = do {
     (n, _, objs, r) \<leftarrow> rte_ring_sc_dequeue_bulk r [x] 1;
     Some (if n \<noteq> 0 then 0 else - ENOENT, hd objs, r) }"

definition rte_ring_dequeue :: "'o rte_ring \<Rightarrow> 'o \<Rightarrow> (c_int \<times> 'o \<times> 'o rte_ring) option" where
  "rte_ring_dequeue r x = do {
     (n, _, objs, r) \<leftarrow> rte_ring_dequeue_bulk r [x] 1;
     Some (if n \<noteq> 0 then 0 else - ENOENT, hd objs, r) }"

definition rte_ring_mp_enqueue_burst :: "'o rte_ring \<Rightarrow> 'o list \<Rightarrow> u32 \<Rightarrow> (u32 \<times> u32 \<times> 'o rte_ring) option" where
  "rte_ring_mp_enqueue_burst r objs n = do_enqueue r objs n RTE_RING_QUEUE_VARIABLE False"

definition rte_ring_sp_enqueue_burst :: "'o rte_ring \<Rightarrow> 'o list \<Rightarrow> u32 \<Rightarrow> (u32 \<times> u32 \<times> 'o rte_ring) option" where
  "rte_ring_sp_enqueue_burst r objs n = do_enqueue r objs n RTE_RING_QUEUE_VARIABLE True"

definition rte_ring_enqueue_burst :: "'o rte_ring \<Rightarrow> 'o list \<Rightarrow> u32 \<Rightarrow> (u32 \<times> u32 \<times> 'o rte_ring) option" where
  "rte_ring_enqueue_burst r objs n = do_enqueue r objs n RTE_RING_QUEUE_VARIABLE (ht_single (r_prod r))"

definition rte_ring_mc_dequeue_burst :: "'o rte_ring \<Rightarrow> 'o list \<Rightarrow> u32 \<Rightarrow> (u32 \<times> u32 \<times> 'o list \<times> 'o rte_ring) option" where
  "rte_ring_mc_dequeue_burst r objs n = do_dequeue r objs n RTE_RING_QUEUE_VARIABLE False"

definition rte_ring_sc_dequeue_burst :: "'o rte_ring \<Rightarrow> 'o list \<Rightarrow> u32 \<Rightarrow> (u32 \<times> u32 \<times> 'o list \<times> 'o rte_ring) option" where
  "rte_ring_sc_dequeue_burst r objs n = do_dequeue r objs n RTE_RING_QUEUE_VARIABLE True"

definition rte_ring_dequeue_burst :: "'o rte_ring \<Rightarrow> 'o list \<Rightarrow> u32 \<Rightarrow> (u32 \<times> u32 \<times> 'o list \<times> 'o rte_ring) option" where
  "rte_ring_dequeue_burst r objs n = do_dequeue r objs n RTE_RING_QUEUE_VARIABLE (ht_single (r_cons r))"

section \<open>Counting\<close>

definition rte_ring_count :: "'o rte_ring \<Rightarrow> u32" where
  "rte_ring_count r =
     (let c = (ht_tail (r_prod r) - ht_tail (r_cons r)) AND r_mask r
      in if c > r_capacity r then r_capacity r else c)"

definition rte_ring_free_count :: "'o rte_ring \<Rightarrow> u32" where
  "rte_ring_free_count r = r_capacity r - rte_ring_count r"

definition rte_ring_full :: "'o rte_ring \<Rightarrow> bool" where
  "rte_ring_full r \<longleftrightarrow> rte_ring_free_count r = 0"

definition rte_ring_empty :: "'o rte_ring \<Rightarrow> bool" where
  "rte_ring_empty r \<longleftrightarrow> rte_ring_count r = 0"

definition rte_ring_get_size :: "'o rte_ring \<Rightarrow> u32" where "rte_ring_get_size r = r_size r"
definition rte_ring_get_capacity :: "'o rte_ring \<Rightarrow> u32" where "rte_ring_get_capacity r = r_capacity r"

section \<open>Creation\<close>

definition POWEROF2 :: "u32 \<Rightarrow> bool" where
  "POWEROF2 x \<longleftrightarrow> (x - 1) AND x = 0"

text \<open>\<open>hdr\<close> is \<open>sizeof (struct rte_ring)\<close>; a pointer has 8 bytes, a cache line 64.\<close>

definition rte_ring_get_memsize :: "u64 \<Rightarrow> u32 \<Rightarrow> c_int" where
  "rte_ring_get_memsize hdr count =
     (if \<not> POWEROF2 count \<or> count > RTE_RING_SZ_MASK then - EINVAL
      else sint (RTE_ALIGN_CEIL (hdr + ucast count * 8) 64))"

definition ring_indices_zero :: "bool \<Rightarrow> headtail" where
  "ring_indices_zero single = \<lparr>ht_head = 0, ht_tail = 0, ht_single = single\<rparr>"

text \<open>\<open>strlcpy\<close> returns the length of the name and keeps what fits.\<close>

definition rte_ring_init :: "'o rte_ring \<Rightarrow> string \<Rightarrow> u32 \<Rightarrow> u32 \<Rightarrow> c_int \<times> 'o rte_ring" where
  "rte_ring_init r name count flags =
     (let z = ring_indices_zero False;
          r = \<lparr>r_name = take (RTE_MEMZONE_NAMESIZE - 1) name, r_flags = 0, r_memzone = None, r_size = 0,
               r_mask = 0, r_capacity = 0, r_prod = z, r_cons = z, r_tbl = r_tbl r\<rparr>
      in if length name \<ge> RTE_MEMZONE_NAMESIZE then (- ENAMETOOLONG, r)
      else let r = r\<lparr>r_flags := flags, r_prod := ring_indices_zero (flags AND RING_F_SP_ENQ \<noteq> 0),
                     r_cons := ring_indices_zero (flags AND RING_F_SC_DEQ \<noteq> 0)\<rparr>
      in if flags AND RING_F_EXACT_SZ \<noteq> 0 then
           let size = rte_align32pow2 (count + 1)
           in (0, r\<lparr>r_size := size, r_mask := size - 1, r_capacity := count\<rparr>)
         else if \<not> POWEROF2 count \<or> count > RTE_RING_SZ_MASK then (- EINVAL, r)
         else (0, r\<lparr>r_size := count, r_mask := count - 1, r_capacity := count - 1\<rparr>))"

text \<open>
  The rings of the process: the tail queue lists them by address, each in its memory zone.
  \<open>te\<close> and \<open>mz\<close> are the results of \<open>rte_zmalloc\<close> and of \<open>rte_memzone_reserve_aligned\<close>,
  the latter with the \<open>errno\<close> it sets; \<open>junk\<close> are the \<open>count\<close> objects in the new memory (the
  alignment of the size to a cache line may leave room for a few more after them).
\<close>

record 'o ring_env =
  ring_list :: "nat list"
  rings :: "nat \<rightharpoonup> 'o rte_ring"
  rte_errno :: c_int

definition rte_ring_create ::
    "u64 \<Rightarrow> bool \<Rightarrow> (nat + c_int) \<Rightarrow> 'o \<Rightarrow> string \<Rightarrow> u32 \<Rightarrow> u32 \<Rightarrow> 'o ring_env \<Rightarrow> nat option \<times> 'o ring_env" where
  "rte_ring_create hdr te mz junk name count flags env =
     (let requested_count = count;
          count = (if flags AND RING_F_EXACT_SZ \<noteq> 0 then rte_align32pow2 (count + 1) else count);
          ring_size = rte_ring_get_memsize hdr count
      in if ring_size < 0 then (None, env\<lparr>rte_errno := ring_size\<rparr>)
      else if length name + 3 \<ge> RTE_MEMZONE_NAMESIZE then (None, env\<lparr>rte_errno := ENAMETOOLONG\<rparr>)
      else if \<not> te then (None, env\<lparr>rte_errno := ENOMEM\<rparr>)
      else (case mz of
          Inr e \<Rightarrow> (None, env\<lparr>rte_errno := e\<rparr>)
        | Inl a \<Rightarrow>
            let r = \<lparr>r_name = [], r_flags = 0, r_memzone = None, r_size = 0, r_mask = 0, r_capacity = 0,
                     r_prod = ring_indices_zero False, r_cons = ring_indices_zero False,
                     r_tbl = replicate (unat count) junk\<rparr>;
                r = snd (rte_ring_init r name requested_count flags)
            in (Some a, env\<lparr>rings := (rings env)(a \<mapsto> r\<lparr>r_memzone := Some a\<rparr>),
                            ring_list := ring_list env @ [a]\<rparr>)))"

text \<open>\<open>ok\<close> says whether \<open>rte_memzone_free\<close> succeeds.\<close>

definition rte_ring_free :: "bool \<Rightarrow> nat option \<Rightarrow> 'o ring_env \<Rightarrow> 'o ring_env option" where
  "rte_ring_free ok a env =
     (case a of None \<Rightarrow> Some env
      | Some a \<Rightarrow> do {
          r \<leftarrow> rings env a;
          if r_memzone r = None \<or> \<not> ok then Some env
          else Some (env\<lparr>rings := (rings env)(a := None), ring_list := remove1 a (ring_list env)\<rparr>) })"

definition rte_ring_lookup :: "string \<Rightarrow> 'o ring_env \<Rightarrow> (nat option \<times> 'o ring_env) option" where
  "rte_ring_lookup name env = do {
     _ \<leftarrow> guard (set (ring_list env) \<subseteq> dom (rings env));
     case find (\<lambda>a. take RTE_RING_NAMESIZE (r_name (the (rings env a))) = take RTE_RING_NAMESIZE name) (ring_list env) of
       None \<Rightarrow> Some (None, env\<lparr>rte_errno := ENOENT\<rparr>)
     | Some a \<Rightarrow> Some (Some a, env) }"

section \<open>The copy loops\<close>

text \<open>\<open>copy_rest k\<close> is the plain loop of \<open>k\<close> iterations; the others are proved to be it.\<close>

lemma copy_rest_add:
  "copy_rest (a + b) step i idx s =
     Option.bind (copy_rest a step i idx s) (copy_rest b step (i + of_nat a) (idx + of_nat a))"
  by (induction a arbitrary: i idx s) (auto simp: bind_case_option algebra_simps split: option.split)

lemma word_lt_Suc: "(i :: 'a::len word) < n \<Longrightarrow> unat (i + 1) = unat i + 1"
proof -
  assume "i < n"
  then have "unat i + 1 < 2 ^ LENGTH('a)" using unat_lt2p [of n] unfolding word_less_nat_alt by linarith
  then show ?thesis by (subst unat_add_no_overflow) simp_all
qed

lemma copy_i_rest: "copy_i n step i idx s = copy_rest (unat n - unat i) step i idx s"
proof (induction "unat n - unat i" arbitrary: i idx s)
  case 0
  then show ?case by (subst copy_i.simps) (simp add: word_less_nat_alt)
next
  case (Suc k)
  then have lt: "i < n" by (simp add: word_less_nat_alt)
  have k: "unat n - unat i = Suc k" "k = unat n - unat (i + 1)"
    using Suc.hyps(2) word_lt_Suc [OF lt] by auto
  have "copy_i n step i idx s = Option.bind (step idx i s) (\<lambda>s. copy_i n step (i + 1) (idx + 1) s)"
    using lt by (subst copy_i.simps) simp
  also have "\<dots> = copy_rest (Suc k) step i idx s"
    unfolding Suc.hyps(1) [OF k(2)] k(2) [symmetric] by simp
  finally show ?case unfolding k(1) .
qed

lemma copy_idx_rest:
  "idx \<le> sz \<Longrightarrow> copy_idx sz step i idx s =
     map_option (Pair (i + (sz - idx))) (copy_rest (unat sz - unat idx) step i idx s)"
proof (induction "unat sz - unat idx" arbitrary: i idx s)
  case 0
  then have "idx = sz" by (simp add: word_le_nat_alt word_unat_eq_iff)
  then show ?case by (subst copy_idx.simps) simp
next
  case (Suc k)
  then have lt: "idx < sz" by (simp add: word_less_nat_alt)
  have k: "unat sz - unat idx = Suc k" "k = unat sz - unat (idx + 1)"
    using Suc.hyps(2) word_lt_Suc [OF lt] by auto
  have le: "idx + 1 \<le> sz" using lt word_lt_Suc [OF lt] by (simp add: word_le_nat_alt word_less_nat_alt)
  have e: "i + 1 + (sz - (idx + 1)) = i + (sz - idx)" by simp
  have "copy_idx sz step i idx s = Option.bind (step idx i s) (\<lambda>s. copy_idx sz step (i + 1) (idx + 1) s)"
    using lt by (subst copy_idx.simps) simp
  also have "\<dots> = map_option (Pair (i + (sz - idx)))
      (Option.bind (step idx i s) (\<lambda>s. copy_rest k step (i + 1) (idx + 1) s))"
    unfolding Suc.hyps(1) [OF k(2) le] e k(2) [symmetric]
    by (auto simp: bind_case_option split: option.split)
  finally show ?case using k(1) by simp
qed

lemma copy_quads_rest:
  "i \<le> lim \<Longrightarrow> unat lim - unat i = 4 * q \<Longrightarrow> unat lim + 4 \<le> 2 ^ 32 \<Longrightarrow>
   copy_quads lim step i idx s =
     map_option (\<lambda>s. (lim, idx + of_nat (4 * q), s)) (copy_rest (4 * q) step i idx s)"
proof (induction q arbitrary: i idx s)
  case 0
  then have "i = lim" by (simp add: word_le_nat_alt word_unat_eq_iff)
  then show ?case by (subst copy_quads.simps) simp
next
  case (Suc q)
  have lt: "i < lim" using Suc.prems by (simp add: word_less_nat_alt)
  have u: "unat (i + 4) = unat i + 4"
    using Suc.prems lt by (subst unat_add_no_overflow) (auto simp: word_less_nat_alt)
  have le: "i + 4 \<le> lim" "unat lim - unat (i + 4) = 4 * q"
    using Suc.prems u by (auto simp: word_le_nat_alt)
  have r: "copy_rest (4 * Suc q) step i idx s =
      Option.bind (copy_rest 4 step i idx s) (copy_rest (4 * q) step (i + 4) (idx + 4))"
    using copy_rest_add [of 4 "4 * q" step i idx s] by (simp add: algebra_simps)
  have "(4 :: nat) = Suc (Suc (Suc (Suc 0)))" by simp
  have four: "copy_rest 4 step i idx s =
      Option.bind (step idx i s) (\<lambda>s. Option.bind (step (idx + 1) (i + 1) s) (\<lambda>s.
      Option.bind (step (idx + 2) (i + 2) s) (\<lambda>s. step (idx + 3) (i + 3) s)))"
    unfolding \<open>(4 :: nat) = Suc (Suc (Suc (Suc 0)))\<close> copy_rest.simps by (simp add: add.assoc)
  have "copy_quads lim step i idx s = Option.bind (copy_rest 4 step i idx s) (copy_quads lim step (i + 4) (idx + 4))"
    using lt four by (subst copy_quads.simps) simp
  also have "\<dots> = map_option (\<lambda>s. (lim, idx + of_nat (4 * Suc q), s)) (copy_rest (4 * Suc q) step i idx s)"
    unfolding r using Suc.IH [OF le Suc.prems(3)]
    by (auto simp: bind_case_option algebra_simps split: option.split)
  finally show ?case .
qed

lemma low_two_bits: "unat (n AND 3 :: u32) = unat n mod 4"
proof -
  have "n AND 3 = take_bit 2 n" using take_bit_eq_mask [of 2 n] by (simp add: mask_eq_exp_minus_1)
  then show ?thesis by (simp only: unsigned_take_bit_eq take_bit_nat_def) simp
qed

lemma high_bits: "unat (n AND NOT 3 :: u32) = unat n - unat n mod 4"
  using align_floor_spec [of 2 n] by (simp add: RTE_ALIGN_FLOOR_def)

lemma copy_ptrs_straight:
  assumes "idx + n < sz"
  shows "copy_ptrs sz idx n step s = copy_rest (unat n) step 0 idx s"
proof -
  let ?lim = "n AND NOT 3 :: u32"
  have d: "unat ?lim = 4 * (unat n div 4)" unfolding high_bits by (simp add: minus_mod_eq_mult_div)
  have lim: "unat ?lim + 4 \<le> 2 ^ 32"
    using d unat_lt2p [of n] by simp
  have q: "copy_quads ?lim step 0 idx s =
      map_option (\<lambda>s. (?lim, idx + of_nat (4 * (unat n div 4)), s)) (copy_rest (4 * (unat n div 4)) step 0 idx s)"
    using d lim by (intro copy_quads_rest) auto
  have l: "?lim = of_nat (4 * (unat n div 4))" unfolding d [symmetric] by simp
  have "unat n = 4 * (unat n div 4) + unat n mod 4" by simp
  then have "copy_rest (unat n) step 0 idx s = Option.bind (copy_rest (4 * (unat n div 4)) step 0 idx s)
      (copy_rest (unat n mod 4) step (0 + of_nat (4 * (unat n div 4))) (idx + of_nat (4 * (unat n div 4))))"
    using copy_rest_add [of "4 * (unat n div 4)" "unat n mod 4" step 0 idx s] by argo
  then show ?thesis
    using assms q unfolding copy_ptrs_def low_two_bits l by (auto simp: bind_case_option split: option.split)
qed

lemma copy_ptrs_around:
  assumes "\<not> idx + n < sz" "idx \<le> sz"
  shows "copy_ptrs sz idx n step s =
     Option.bind (copy_rest (unat sz - unat idx) step 0 idx s)
       (copy_rest (unat n - (unat sz - unat idx)) step (sz - idx) 0)"
  using assms
  by (auto simp: copy_ptrs_def copy_idx_rest copy_i_rest bind_case_option unat_sub_le split: option.split)

text \<open>A plain loop that stays inside both tables overwrites a segment.\<close>

definition overwrite :: "'o list \<Rightarrow> nat \<Rightarrow> 'o list \<Rightarrow> nat \<Rightarrow> nat \<Rightarrow> 'o list" where
  "overwrite dst d src s k = take d dst @ take k (drop s src) @ drop (d + k) dst"

lemma overwrite_length: "d + k \<le> length dst \<Longrightarrow> s + k \<le> length src \<Longrightarrow> length (overwrite dst d src s k) = length dst"
  by (simp add: overwrite_def)

lemma overwrite_nth:
  assumes "d + k \<le> length dst" "s + k \<le> length src" "q < length dst"
  shows "overwrite dst d src s k ! q = (if d \<le> q \<and> q < d + k then src ! (s + (q - d)) else dst ! q)"
  using assms by (auto simp: overwrite_def nth_append)

lemma overwrite_step:
  assumes "d + Suc k \<le> length dst" "s + Suc k \<le> length src"
  shows "overwrite (dst[d := src ! s]) (Suc d) src (Suc s) k = overwrite dst d src s (Suc k)"
  using assms
  by (intro nth_equalityI) (auto simp: overwrite_length overwrite_nth nth_list_update Suc_diff_Suc not_less_eq_eq le_Suc_eq less_Suc_eq)

lemma copy_rest_put:
  assumes "unat idx + k \<le> length ring" "unat i + k \<le> length objs" "unat idx + k < 2 ^ 32" "unat i + k < 2 ^ 32"
  shows "copy_rest k (\<lambda>idx i ring. tbl_put ring idx objs i) i idx ring =
           Some (overwrite ring (unat idx) objs (unat i) k)"
  using assms
proof (induction k arbitrary: idx i ring)
  case 0
  then show ?case by (simp add: overwrite_def)
next
  case (Suc k)
  have u: "unat (idx + 1) = Suc (unat idx)" "unat (i + 1) = Suc (unat i)"
    using Suc.prems by (auto simp: unat_add_no_overflow)
  have "copy_rest k (\<lambda>idx i ring. tbl_put ring idx objs i) (i + 1) (idx + 1) (ring[unat idx := objs ! unat i]) =
      Some (overwrite (ring[unat idx := objs ! unat i]) (unat (idx + 1)) objs (unat (i + 1)) k)"
    using Suc.prems u by (intro Suc.IH) auto
  then show ?case using Suc.prems overwrite_step [of "unat idx" k ring "unat i" objs] u
    by (simp add: tbl_put_def)
qed

lemma copy_rest_get:
  assumes "unat idx + k \<le> length tbl" "unat i + k \<le> length objs" "unat idx + k < 2 ^ 32" "unat i + k < 2 ^ 32"
  shows "copy_rest k (\<lambda>idx i objs. tbl_put objs i tbl idx) i idx objs =
           Some (overwrite objs (unat i) tbl (unat idx) k)"
  using assms
proof (induction k arbitrary: idx i objs)
  case 0
  then show ?case by (simp add: overwrite_def)
next
  case (Suc k)
  have u: "unat (idx + 1) = Suc (unat idx)" "unat (i + 1) = Suc (unat i)"
    using Suc.prems by (auto simp: unat_add_no_overflow)
  have "copy_rest k (\<lambda>idx i objs. tbl_put objs i tbl idx) (i + 1) (idx + 1) (objs[unat i := tbl ! unat idx]) =
      Some (overwrite (objs[unat i := tbl ! unat idx]) (unat (i + 1)) tbl (unat (idx + 1)) k)"
    using Suc.prems u by (intro Suc.IH) auto
  then show ?case using Suc.prems overwrite_step [of "unat i" k objs "unat idx" tbl] u
    by (simp add: tbl_put_def)
qed

section \<open>What a ring holds\<close>

definition ring_len :: "'o rte_ring \<Rightarrow> nat" where
  "ring_len r = unat (ht_tail (r_prod r) - ht_tail (r_cons r))"

definition ring_slot :: "'o rte_ring \<Rightarrow> nat \<Rightarrow> nat" where
  "ring_slot r j = (unat (ht_tail (r_cons r)) + j) mod unat (r_size r)"

definition ring_items :: "'o rte_ring \<Rightarrow> 'o list" where
  "ring_items r = map (\<lambda>j. r_tbl r ! ring_slot r j) [0..<ring_len r]"

definition ring_wf :: "'o rte_ring \<Rightarrow> bool" where
  "ring_wf r \<longleftrightarrow>
     (\<exists>b \<le> 31. unat (r_size r) = 2 ^ b) \<and> r_mask r = r_size r - 1 \<and> r_capacity r \<le> r_mask r \<and>
     unat (r_size r) \<le> length (r_tbl r) \<and>
     ht_head (r_prod r) = ht_tail (r_prod r) \<and> ht_head (r_cons r) = ht_tail (r_cons r) \<and>
     ring_len r \<le> unat (r_capacity r)"

text \<open>What never changes in the life of a ring.\<close>

definition same_ring :: "'o rte_ring \<Rightarrow> 'o rte_ring \<Rightarrow> bool" where
  "same_ring r r' \<longleftrightarrow> r_size r' = r_size r \<and> r_mask r' = r_mask r \<and> r_capacity r' = r_capacity r \<and>
     r_name r' = r_name r \<and> r_flags r' = r_flags r \<and> r_memzone r' = r_memzone r \<and>
     length (r_tbl r') = length (r_tbl r) \<and>
     ht_single (r_prod r') = ht_single (r_prod r) \<and> ht_single (r_cons r') = ht_single (r_cons r)"

lemma ring_items_length [simp]: "length (ring_items r) = ring_len r"
  by (simp add: ring_items_def)

lemma and_mask_mod:
  fixes h sz :: u32
  assumes "unat sz = 2 ^ b" "b \<le> 31"
  shows "unat (h AND (sz - 1)) = unat h mod 2 ^ b"
proof -
  have "sz = 2 ^ b" using assms unat_p2 [where 'a = 32, of b] by (simp add: word_unat_eq_iff)
  then have "h AND (sz - 1) = take_bit b h" by (simp add: take_bit_eq_mask mask_eq_exp_minus_1)
  then show ?thesis by (simp only: unsigned_take_bit_eq take_bit_nat_def)
qed

lemma unat_add_mod:
  fixes a c :: u32
  assumes "b \<le> 31"
  shows "unat (a + c) mod 2 ^ b = (unat a + unat c) mod 2 ^ b"
proof -
  have "(2 :: nat) ^ b dvd 2 ^ 32" using assms by (intro le_imp_power_dvd) simp
  then show ?thesis by (simp add: unat_word_ariths mod_mod_cancel)
qed

lemma ring_wf_size:
  assumes "ring_wf r"
  obtains b where "b \<le> 31" "unat (r_size r) = 2 ^ b" "unat (r_mask r) = 2 ^ b - 1" "0 < (2 :: nat) ^ b"
    "ring_len r < 2 ^ b" "unat (r_capacity r) < 2 ^ b"
proof -
  obtain b where b: "b \<le> 31" "unat (r_size r) = 2 ^ b" using assms by (auto simp: ring_wf_def)
  then have "r_size r \<noteq> 0" by auto
  then have m: "unat (r_mask r) = 2 ^ b - 1" using b assms by (simp add: ring_wf_def unat_minus_one)
  have "r_capacity r \<le> r_mask r" and cl: "ring_len r \<le> unat (r_capacity r)"
    using assms unfolding ring_wf_def by blast+
  then have "unat (r_capacity r) \<le> unat (r_mask r)" by (simp only: word_le_nat_alt)
  note this cl
  then have c: "unat (r_capacity r) \<le> 2 ^ b - 1" "ring_len r \<le> 2 ^ b - 1" unfolding m by linarith+
  moreover have p: "0 < (2 :: nat) ^ b" by simp
  ultimately have "unat (r_capacity r) < 2 ^ b" "ring_len r < 2 ^ b" by linarith+
  with b m p that show thesis by blast
qed

text \<open>The copies, slot by slot. \<open>p\<close> is the first slot, \<open>m\<close> the size.\<close>

lemma enqueue_copy:
  fixes sz idx n :: u32
  assumes "unat sz = m" "m \<le> 2 ^ 31" "m \<le> length tbl" "unat idx = p" "p < m" "unat n = k" "k \<le> m" "k \<le> length objs"
  shows "\<exists>tbl'. copy_ptrs sz idx n (\<lambda>idx i ring. tbl_put ring idx objs i) tbl = Some tbl' \<and>
     length tbl' = length tbl \<and>
     (\<forall>q < m. tbl' ! q = (if (q + m - p) mod m < k then objs ! ((q + m - p) mod m) else tbl ! q))"
proof -
  have u: "unat (idx + n) = p + k" using assms by (subst unat_add_no_overflow) auto
  have slot: "(q + m - p) mod m = (if p \<le> q then q - p else q + m - p)" if "q < m" for q
    using that assms(5) by (auto simp: mod_if)
  show ?thesis
  proof (cases "idx + n < sz")
    case True
    then have lt: "p + k < m" using u assms(1) by (simp add: word_less_nat_alt)
    have "copy_rest k (\<lambda>idx i ring. tbl_put ring idx objs i) 0 idx tbl = Some (overwrite tbl p objs 0 k)"
      using copy_rest_put [of idx k tbl 0 objs] assms lt by simp
    then have "copy_ptrs sz idx n (\<lambda>idx i ring. tbl_put ring idx objs i) tbl = Some (overwrite tbl p objs 0 k)"
      using copy_ptrs_straight [OF True] assms(6) by metis
    moreover have "overwrite tbl p objs 0 k ! q = (if (q + m - p) mod m < k then objs ! ((q + m - p) mod m) else tbl ! q)"
      if "q < m" for q
      using that lt assms slot [OF that] by (auto simp: overwrite_nth)
    ultimately show ?thesis using lt assms by (simp add: overwrite_length)
  next
    case False
    then have ge: "m \<le> p + k" using u assms(1) by (simp add: word_less_nat_alt)
    let ?a = "m - p" and ?c = "k - (m - p)"
    let ?t1 = "overwrite tbl p objs 0 ?a"
    have l1: "length ?t1 = length tbl" using assms ge by (intro overwrite_length) auto
    have le: "idx \<le> sz" using assms by (simp add: word_le_nat_alt)
    have s1: "copy_rest ?a (\<lambda>idx i ring. tbl_put ring idx objs i) 0 idx tbl = Some ?t1"
      using copy_rest_put [of idx ?a tbl 0 objs] assms ge by simp
    have us: "unat (sz - idx) = ?a" using le assms by (simp add: unat_sub_le)
    have s2: "copy_rest ?c (\<lambda>idx i ring. tbl_put ring idx objs i) (sz - idx) 0 ?t1 = Some (overwrite ?t1 0 objs ?a ?c)"
      using copy_rest_put [of 0 ?c ?t1 "sz - idx" objs] us assms ge l1 by simp
    have "copy_ptrs sz idx n (\<lambda>idx i ring. tbl_put ring idx objs i) tbl = Some (overwrite ?t1 0 objs ?a ?c)"
      unfolding copy_ptrs_around [OF False le] assms(1,4,6) s1 Option.bind.bind_lunit by (rule s2)
    moreover have "overwrite ?t1 0 objs ?a ?c ! q = (if (q + m - p) mod m < k then objs ! ((q + m - p) mod m) else tbl ! q)"
      if q: "q < m" for q
    proof -
      have "overwrite ?t1 0 objs ?a ?c ! q = (if q < ?c then objs ! (?a + q) else ?t1 ! q)"
        using overwrite_nth [of 0 ?c ?t1 ?a objs q] l1 assms ge q by simp
      moreover have "?t1 ! q = (if p \<le> q then objs ! (q - p) else tbl ! q)"
        using overwrite_nth [of p ?a tbl 0 objs q] assms ge q by simp
      ultimately show ?thesis using slot [OF q] q assms ge by (auto simp: add.commute)
    qed
    moreover have "length (overwrite ?t1 0 objs ?a ?c) = length tbl"
      using l1 assms ge by (subst overwrite_length) auto
    ultimately show ?thesis by blast
  qed
qed

lemma dequeue_copy:
  fixes sz idx n :: u32
  assumes "unat sz = m" "m \<le> 2 ^ 31" "m \<le> length tbl" "unat idx = p" "p < m" "unat n = k" "k \<le> m" "k \<le> length objs"
  shows "copy_ptrs sz idx n (\<lambda>idx i objs. tbl_put objs i tbl idx) objs =
           Some (map (\<lambda>j. tbl ! ((p + j) mod m)) [0..<k] @ drop k objs)"
proof -
  have u: "unat (idx + n) = p + k" using assms by (subst unat_add_no_overflow) auto
  have slot: "(p + j) mod m = (if p + j < m then p + j else p + j - m)" if "j < m" for j
    using that assms(5) by (auto simp: mod_if)
  show ?thesis
  proof (cases "idx + n < sz")
    case True
    then have lt: "p + k < m" using u assms(1) by (simp add: word_less_nat_alt)
    have "copy_rest k (\<lambda>idx i objs. tbl_put objs i tbl idx) 0 idx objs = Some (overwrite objs 0 tbl p k)"
      using copy_rest_get [of idx k tbl 0 objs] assms lt by simp
    moreover have "overwrite objs 0 tbl p k = map (\<lambda>j. tbl ! ((p + j) mod m)) [0..<k] @ drop k objs"
      using assms lt by (intro nth_equalityI) (auto simp: overwrite_length overwrite_nth nth_append)
    ultimately show ?thesis using copy_ptrs_straight [OF True] assms(6) by metis
  next
    case False
    then have ge: "m \<le> p + k" using u assms(1) by (simp add: word_less_nat_alt)
    let ?a = "m - p" and ?c = "k - (m - p)"
    let ?t1 = "overwrite objs 0 tbl p ?a"
    have l1: "length ?t1 = length objs" using assms ge by (intro overwrite_length) auto
    have le: "idx \<le> sz" using assms by (simp add: word_le_nat_alt)
    have s1: "copy_rest ?a (\<lambda>idx i objs. tbl_put objs i tbl idx) 0 idx objs = Some ?t1"
      using copy_rest_get [of idx ?a tbl 0 objs] assms ge by simp
    have us: "unat (sz - idx) = ?a" using le assms by (simp add: unat_sub_le)
    have s2: "copy_rest ?c (\<lambda>idx i objs. tbl_put objs i tbl idx) (sz - idx) 0 ?t1 = Some (overwrite ?t1 ?a tbl 0 ?c)"
      using copy_rest_get [of 0 ?c tbl "sz - idx" ?t1] us assms ge l1 by simp
    have c: "copy_ptrs sz idx n (\<lambda>idx i objs. tbl_put objs i tbl idx) objs = Some (overwrite ?t1 ?a tbl 0 ?c)"
      unfolding copy_ptrs_around [OF False le] assms(1,4,6) s1 Option.bind.bind_lunit by (rule s2)
    have l2: "length (overwrite ?t1 ?a tbl 0 ?c) = length objs"
      using l1 assms ge by (subst overwrite_length) auto
    have "overwrite ?t1 ?a tbl 0 ?c = map (\<lambda>j. tbl ! ((p + j) mod m)) [0..<k] @ drop k objs"
    proof (rule nth_equalityI)
      show "length (overwrite ?t1 ?a tbl 0 ?c) = length (map (\<lambda>j. tbl ! ((p + j) mod m)) [0..<k] @ drop k objs)"
        using l2 assms by simp
      fix q assume q: "q < length (overwrite ?t1 ?a tbl 0 ?c)"
      have "overwrite ?t1 ?a tbl 0 ?c ! q = (if ?a \<le> q \<and> q < ?a + ?c then tbl ! (q - ?a) else ?t1 ! q)"
        using overwrite_nth [of ?a ?c ?t1 0 tbl q] l1 l2 assms ge q by simp
      moreover have "?t1 ! q = (if q < ?a then tbl ! (p + q) else objs ! q)"
        using overwrite_nth [of 0 ?a objs p tbl q] l2 assms ge q by simp
      ultimately show "overwrite ?t1 ?a tbl 0 ?c ! q = (map (\<lambda>j. tbl ! ((p + j) mod m)) [0..<k] @ drop k objs) ! q"
        using slot [of q] q l2 assms ge by (auto simp: nth_append add.commute)
    qed
    with c show ?thesis by simp
  qed
qed

section \<open>A call alone\<close>

definition amount :: "rte_ring_queue_behavior \<Rightarrow> nat \<Rightarrow> nat \<Rightarrow> nat" where
  "amount behavior n room =
     (if n \<le> room then n else if behavior = RTE_RING_QUEUE_FIXED then 0 else room)"

lemma amount_le: "amount behavior n room \<le> n" "amount behavior n room \<le> room"
  by (auto simp: amount_def)

text \<open>The word computed in \<open>move_prod_head\<close> and \<open>move_cons_head\<close> is \<open>amount\<close>.\<close>

lemma amount_word:
  fixes n room :: u32
  shows "unat (if n > room then (if behavior = RTE_RING_QUEUE_FIXED then 0 else room) else n) =
           amount behavior (unat n) (unat room)"
  by (auto simp: amount_def word_less_nat_alt)

definition ring_room :: "'o rte_ring \<Rightarrow> nat" where
  "ring_room r = unat (r_capacity r) - ring_len r"

lemma prod_room:
  assumes "ring_wf r"
  shows "unat (r_capacity r + ht_tail (r_cons r) - ht_head (r_prod r)) = ring_room r"
proof -
  have h: "ht_head (r_prod r) = ht_tail (r_prod r)" and le: "ring_len r \<le> unat (r_capacity r)"
    using assms by (auto simp: ring_wf_def)
  have e: "r_capacity r + ht_tail (r_cons r) - ht_head (r_prod r) =
      r_capacity r - (ht_tail (r_prod r) - ht_tail (r_cons r))" unfolding h by simp
  show ?thesis
    using le unat_sub_le [of "ht_tail (r_prod r) - ht_tail (r_cons r)" "r_capacity r"]
    unfolding e by (simp add: ring_room_def ring_len_def word_le_nat_alt)
qed

lemma move_prod_head_exec:
  assumes "ring_wf r"
  shows "\<exists>nw fe. unat nw = amount behavior (unat n) (ring_room r) \<and> unat fe = ring_room r \<and>
     move_prod_head r is_sp n behavior =
       Some (nw, ht_tail (r_prod r), ht_tail (r_prod r) + nw, fe,
             r\<lparr>r_prod := (r_prod r)\<lparr>ht_head := ht_tail (r_prod r) + nw\<rparr>\<rparr>)"
proof -
  let ?fe = "r_capacity r + ht_tail (r_cons r) - ht_head (r_prod r)"
  let ?nw = "if n > ?fe then (if behavior = RTE_RING_QUEUE_FIXED then 0 else ?fe) else n"
  have h: "ht_head (r_prod r) = ht_tail (r_prod r)" using assms by (simp add: ring_wf_def)
  have fe: "unat ?fe = ring_room r" by (rule prod_room [OF assms(1)])
  have nw: "unat ?nw = amount behavior (unat n) (ring_room r)"
    using amount_word [of ?fe n behavior] fe by (simp only:)
  have z: "r\<lparr>r_prod := (r_prod r)\<lparr>ht_head := ht_tail (r_prod r)\<rparr>\<rparr> = r"
    using h by (auto intro!: rte_ring.equality headtail.equality)
  obtain x where x: "x = ?nw" by blast
  have "move_prod_head r is_sp n behavior =
       Some (?nw, ht_tail (r_prod r), ht_tail (r_prod r) + ?nw, ?fe,
             r\<lparr>r_prod := (r_prod r)\<lparr>ht_head := ht_tail (r_prod r) + ?nw\<rparr>\<rparr>)"
    unfolding x [symmetric]
    by (subst move_prod_head.simps, unfold Let_def x [symmetric])
       (cases is_sp; cases "x = 0"; simp add: rte_atomic32_cmpset_def h z)
  with nw fe show ?thesis by blast
qed

lemma move_cons_head_exec:
  assumes "ring_wf r"
  shows "\<exists>nw en. unat nw = amount behavior (unat n) (ring_len r) \<and> unat en = ring_len r \<and>
     move_cons_head r is_sc n behavior =
       Some (nw, ht_tail (r_cons r), ht_tail (r_cons r) + nw, en,
             r\<lparr>r_cons := (r_cons r)\<lparr>ht_head := ht_tail (r_cons r) + nw\<rparr>\<rparr>)"
proof -
  let ?en = "ht_tail (r_prod r) - ht_head (r_cons r)"
  let ?nw = "if n > ?en then (if behavior = RTE_RING_QUEUE_FIXED then 0 else ?en) else n"
  have h: "ht_head (r_cons r) = ht_tail (r_cons r)" using assms by (simp add: ring_wf_def)
  have en: "unat ?en = ring_len r" by (simp add: h ring_len_def)
  have nw: "unat ?nw = amount behavior (unat n) (ring_len r)"
    using amount_word [of ?en n behavior] en by (simp only:)
  have z: "r\<lparr>r_cons := (r_cons r)\<lparr>ht_head := ht_tail (r_cons r)\<rparr>\<rparr> = r"
    using h by (auto intro!: rte_ring.equality headtail.equality)
  obtain x where x: "x = ?nw" by blast
  have "move_cons_head r is_sc n behavior =
       Some (?nw, ht_tail (r_cons r), ht_tail (r_cons r) + ?nw, ?en,
             r\<lparr>r_cons := (r_cons r)\<lparr>ht_head := ht_tail (r_cons r) + ?nw\<rparr>\<rparr>)"
    unfolding x [symmetric]
    by (subst move_cons_head.simps, unfold Let_def x [symmetric])
       (cases is_sc; cases "x = 0"; simp add: rte_atomic32_cmpset_def h z)
  with nw en show ?thesis by blast
qed

lemma mod_offset:
  fixes a j l m :: nat
  assumes "0 < m" "l \<le> m"
  shows "((a + j) mod m + m - (a + l) mod m) mod m = (m + j - l) mod m"
proof -
  have le: "(a + l) mod m \<le> (a + j) mod m + m"
    using assms(1) mod_less_divisor [of m "a + l"] by linarith
  have "int (((a + j) mod m + m - (a + l) mod m) mod m) =
      ((int a + int j) mod int m + int m - (int a + int l) mod int m) mod int m"
    using le by (simp add: of_nat_diff zmod_int)
  also have "\<dots> = (int a + int j + int m - (int a + int l)) mod int m"
    by (metis mod_add_left_eq mod_diff_left_eq mod_diff_right_eq)
  also have "\<dots> = (int m + int j - int l) mod int m" by (simp add: algebra_simps)
  also have "\<dots> = int ((m + j - l) mod m)" using assms(2) by (simp add: of_nat_diff zmod_int)
  finally show ?thesis by simp
qed

lemma do_enqueue_rep:
  assumes wf: "ring_wf r" and n: "unat n \<le> length objs"
  shows "\<exists>nw fe r'. do_enqueue r objs n behavior is_sp = Some (nw, fe, r') \<and>
     unat nw = amount behavior (unat n) (ring_room r) \<and> unat fe = ring_room r - unat nw \<and>
     ring_wf r' \<and> same_ring r r' \<and> ring_items r' = ring_items r @ take (unat nw) objs"
proof -
  let ?m = "amount behavior (unat n) (ring_room r)"
  let ?pt = "ht_tail (r_prod r)" and ?ct = "ht_tail (r_cons r)"
  obtain nw fe where mv: "unat nw = ?m" "unat fe = ring_room r"
    "move_prod_head r is_sp n behavior = Some (nw, ?pt, ?pt + nw, fe,
       r\<lparr>r_prod := (r_prod r)\<lparr>ht_head := ?pt + nw\<rparr>\<rparr>)"
    using move_prod_head_exec [OF wf, of behavior n is_sp] by blast
  have fe: "unat (fe - nw) = ring_room r - ?m"
    using mv amount_le(2) [of behavior "unat n" "ring_room r"] by (subst unat_sub_le) (auto simp: word_le_nat_alt)
  show ?thesis
  proof (cases "nw = 0")
    case True
    have "r\<lparr>r_prod := (r_prod r)\<lparr>ht_head := ?pt\<rparr>\<rparr> = r"
      using wf by (auto simp: ring_wf_def intro!: rte_ring.equality headtail.equality)
    then show ?thesis
      using mv wf fe True by (auto simp: do_enqueue_def same_ring_def)
  next
    case False
    obtain b where b: "b \<le> 31" "unat (r_size r) = 2 ^ b" "unat (r_mask r) = 2 ^ b - 1" "0 < (2 :: nat) ^ b"
      "ring_len r < 2 ^ b" "unat (r_capacity r) < 2 ^ b"
      using ring_wf_size [OF wf] .
    let ?M = "(2 :: nat) ^ b"
    have mask: "r_mask r = r_size r - 1" and tbl: "?M \<le> length (r_tbl r)" and lc: "ring_len r \<le> unat (r_capacity r)"
      using wf b(2) by (auto simp: ring_wf_def)
    have m: "?m \<le> length objs" "?m \<le> ring_room r" "?m \<le> ?M" "ring_len r + ?m \<le> unat (r_capacity r)"
      using amount_le [of behavior "unat n" "ring_room r"] n b(6) lc by (auto simp: ring_room_def)
    let ?p = "unat ?pt mod ?M"
    have idx: "unat (?pt AND r_mask r) = ?p" unfolding mask by (rule and_mask_mod [OF b(2,1)])
    have M31: "?M \<le> 2 ^ 31" using b(1) by (intro power_increasing) auto
    obtain tbl' where t: "copy_ptrs (r_size r) (?pt AND r_mask r) nw (\<lambda>idx i ring. tbl_put ring idx objs i) (r_tbl r) = Some tbl'"
      "length tbl' = length (r_tbl r)"
      "\<forall>q < ?M. tbl' ! q = (if (q + ?M - ?p) mod ?M < ?m then objs ! ((q + ?M - ?p) mod ?M) else r_tbl r ! q)"
      using enqueue_copy [OF b(2) M31 tbl idx _ mv(1) m(3) m(1)] b(4) by auto
    let ?r = "r\<lparr>r_tbl := tbl', r_prod := (r_prod r)\<lparr>ht_head := ?pt + nw, ht_tail := ?pt + nw\<rparr>\<rparr>"
    have res: "do_enqueue r objs n behavior is_sp = Some (nw, fe - nw, ?r)"
      using mv(3) t(1) False by (simp add: do_enqueue_def ENQUEUE_PTRS_def update_tail_def)
    have len: "ring_len ?r = ring_len r + ?m"
    proof -
      have e: "?pt + nw - ?ct = (?pt - ?ct) + nw" by simp
      have "unat (?pt - ?ct) + unat nw < 2 ^ 32"
        using m(4) b(6) M31 mv(1) unfolding ring_len_def by simp
      then show ?thesis
        using unat_add_no_overflow [of "?pt - ?ct" nw] mv(1) by (simp add: ring_len_def e)
    qed
    have wf': "ring_wf ?r" using wf m(4) t(2) unfolding ring_wf_def len by (auto simp del: ex_simps)
    have p: "?p = (unat ?ct + ring_len r) mod ?M"
    proof -
      have "?pt = ?ct + (?pt - ?ct)" by simp
      then show ?thesis using unat_add_mod [OF b(1), of ?ct "?pt - ?ct"] by (simp add: ring_len_def)
    qed
    have "ring_items ?r = ring_items r @ take ?m objs"
    proof (rule nth_equalityI)
      show "length (ring_items ?r) = length (ring_items r @ take ?m objs)" using len m(1) by simp
      fix j assume "j < length (ring_items ?r)"
      then have j: "j < ring_len r + ?m" using len by simp
      let ?q = "(unat ?ct + j) mod ?M"
      have q: "?q < ?M" using b(4) by simp
      have off: "(?q + ?M - ?p) mod ?M = (if j < ring_len r then ?M + j - ring_len r else j - ring_len r)"
      proof -
        have "(?q + ?M - ?p) mod ?M = (?M + j - ring_len r) mod ?M"
          unfolding p using b by (intro mod_offset) auto
        also have "\<dots> = (if j < ring_len r then ?M + j - ring_len r else j - ring_len r)"
          using j b(5,6) m(4) by (auto simp: mod_if)
        finally show ?thesis .
      qed
      have "ring_items ?r ! j = tbl' ! ?q" using j len b(2) by (simp add: ring_items_def ring_slot_def)
      also have "\<dots> = (if j < ring_len r then r_tbl r ! ?q else objs ! (j - ring_len r))"
        using t(3) q off j m(4) b(6) by auto
      also have "\<dots> = (ring_items r @ take ?m objs) ! j"
        using j b(2) by (auto simp: nth_append ring_items_def ring_slot_def)
      finally show "ring_items ?r ! j = (ring_items r @ take ?m objs) ! j" .
    qed
    then show ?thesis using res mv(1) fe wf' t(2) by (auto simp: same_ring_def)
  qed
qed

lemma do_dequeue_rep:
  assumes wf: "ring_wf r" and n: "unat n \<le> length objs"
  shows "\<exists>nw av objs' r'. do_dequeue r objs n behavior is_sc = Some (nw, av, objs', r') \<and>
     unat nw = amount behavior (unat n) (ring_len r) \<and> unat av = ring_len r - unat nw \<and>
     objs' = take (unat nw) (ring_items r) @ drop (unat nw) objs \<and>
     ring_wf r' \<and> same_ring r r' \<and> ring_items r' = drop (unat nw) (ring_items r)"
proof -
  let ?m = "amount behavior (unat n) (ring_len r)"
  let ?pt = "ht_tail (r_prod r)" and ?ct = "ht_tail (r_cons r)"
  obtain nw en where mv: "unat nw = ?m" "unat en = ring_len r"
    "move_cons_head r is_sc n behavior = Some (nw, ?ct, ?ct + nw, en,
       r\<lparr>r_cons := (r_cons r)\<lparr>ht_head := ?ct + nw\<rparr>\<rparr>)"
    using move_cons_head_exec [OF wf, of behavior n is_sc] by blast
  have av: "unat (en - nw) = ring_len r - ?m"
    using mv amount_le(2) [of behavior "unat n" "ring_len r"] by (subst unat_sub_le) (auto simp: word_le_nat_alt)
  show ?thesis
  proof (cases "nw = 0")
    case True
    have "r\<lparr>r_cons := (r_cons r)\<lparr>ht_head := ?ct\<rparr>\<rparr> = r"
      using wf by (auto simp: ring_wf_def intro!: rte_ring.equality headtail.equality)
    then show ?thesis
      using mv wf av True by (auto simp: do_dequeue_def same_ring_def)
  next
    case False
    obtain b where b: "b \<le> 31" "unat (r_size r) = 2 ^ b" "unat (r_mask r) = 2 ^ b - 1" "0 < (2 :: nat) ^ b"
      "ring_len r < 2 ^ b" "unat (r_capacity r) < 2 ^ b"
      using ring_wf_size [OF wf] .
    let ?M = "(2 :: nat) ^ b"
    have mask: "r_mask r = r_size r - 1" and tbl: "?M \<le> length (r_tbl r)" and lc: "ring_len r \<le> unat (r_capacity r)"
      using wf b(2) by (auto simp: ring_wf_def)
    have m: "?m \<le> length objs" "?m \<le> ring_len r" "?m \<le> ?M"
      using amount_le [of behavior "unat n" "ring_len r"] n b(5) by auto
    let ?p = "unat ?ct mod ?M"
    have idx: "unat (?ct AND r_mask r) = ?p" unfolding mask by (rule and_mask_mod [OF b(2,1)])
    have M31: "?M \<le> 2 ^ 31" using b(1) by (intro power_increasing) auto
    let ?objs = "map (\<lambda>j. r_tbl r ! ((?p + j) mod ?M)) [0..<?m] @ drop ?m objs"
    have c: "copy_ptrs (r_size r) (?ct AND r_mask r) nw (\<lambda>idx i objs. tbl_put objs i (r_tbl r) idx) objs = Some ?objs"
      using dequeue_copy [OF b(2) M31 tbl idx _ mv(1) m(3) m(1)] b(4) by auto
    have o: "?objs = take ?m (ring_items r) @ drop ?m objs"
      using m(2) b(2) by (simp add: ring_items_def ring_slot_def take_map mod_simps)
    let ?r = "r\<lparr>r_cons := (r_cons r)\<lparr>ht_head := ?ct + nw, ht_tail := ?ct + nw\<rparr>\<rparr>"
    have res: "do_dequeue r objs n behavior is_sc = Some (nw, en - nw, ?objs, ?r)"
      using mv(3) c False by (simp add: do_dequeue_def DEQUEUE_PTRS_def update_tail_def)
    have len: "ring_len ?r = ring_len r - ?m"
    proof -
      have e: "?pt - (?ct + nw) = (?pt - ?ct) - nw" by simp
      show ?thesis
        using unat_sub_le [of nw "?pt - ?ct"] mv(1) m(2) by (simp add: ring_len_def word_le_nat_alt e)
    qed
    have wf': "ring_wf ?r" using wf lc unfolding ring_wf_def len by (auto simp del: ex_simps)
    have "ring_items ?r = drop ?m (ring_items r)"
    proof (rule nth_equalityI)
      show "length (ring_items ?r) = length (drop ?m (ring_items r))" using len by simp
      fix j assume "j < length (ring_items ?r)"
      then have j: "j < ring_len r - ?m" using len by simp
      have "(unat (?ct + nw) + j) mod ?M = (unat ?ct + ?m + j) mod ?M"
        using unat_add_mod [OF b(1), of ?ct nw] mv(1) by (metis mod_add_left_eq)
      then show "ring_items ?r ! j = drop ?m (ring_items r) ! j"
        using j len b(2) m(2) by (simp add: ring_items_def ring_slot_def add.assoc nth_upt less_diff_conv)
    qed
    then show ?thesis using res mv(1) av wf' o by (auto simp: same_ring_def)
  qed
qed

section \<open>Counting\<close>

lemma count_rep:
  assumes "ring_wf r"
  shows "unat (rte_ring_count r) = ring_len r"
proof -
  obtain b where b: "b \<le> 31" "unat (r_size r) = 2 ^ b" "unat (r_mask r) = 2 ^ b - 1" "0 < (2 :: nat) ^ b"
    "ring_len r < 2 ^ b" "unat (r_capacity r) < 2 ^ b"
    using ring_wf_size [OF assms] .
  have m: "r_mask r = r_size r - 1" "ring_len r \<le> unat (r_capacity r)"
    using assms unfolding ring_wf_def by blast+
  have "unat ((ht_tail (r_prod r) - ht_tail (r_cons r)) AND r_mask r) = ring_len r"
    unfolding m(1) and_mask_mod [OF b(2,1)] using b(5) by (simp add: ring_len_def)
  with m(2) show ?thesis by (simp add: rte_ring_count_def Let_def word_less_nat_alt)
qed

lemma free_count_rep:
  assumes "ring_wf r"
  shows "unat (rte_ring_free_count r) = ring_room r"
proof -
  have "ring_len r \<le> unat (r_capacity r)" using assms unfolding ring_wf_def by blast
  then show ?thesis
    using count_rep [OF assms] unat_sub_le [of "rte_ring_count r" "r_capacity r"]
    by (simp add: rte_ring_free_count_def ring_room_def word_le_nat_alt)
qed

lemma full_rep: "ring_wf r \<Longrightarrow> rte_ring_full r \<longleftrightarrow> ring_room r = 0"
  using free_count_rep [of r] by (simp add: rte_ring_full_def word_unat_eq_iff)

lemma empty_rep: "ring_wf r \<Longrightarrow> rte_ring_empty r \<longleftrightarrow> ring_items r = []"
  using count_rep [of r] ring_items_length [of r]
  by (simp add: rte_ring_empty_def word_unat_eq_iff flip: length_0_conv del: ring_items_length)

section \<open>Initialisation and the list of rings\<close>

lemma POWEROF2_iff: "POWEROF2 x \<longleftrightarrow> x = 0 \<or> (\<exists>k. unat x = 2 ^ k)"
  using and_pred_power [of x] by (cases "x = 0") (auto simp: POWEROF2_def and.commute)

text \<open>The sizes the functions accept: 0 is one of them.\<close>

lemma size_accepted:
  "POWEROF2 count \<and> count \<le> RTE_RING_SZ_MASK \<longleftrightarrow> count = 0 \<or> (\<exists>k \<le> 30. unat count = 2 ^ k)"
proof (cases "count = 0")
  case True
  then show ?thesis by (simp add: POWEROF2_iff RTE_RING_SZ_MASK_def)
next
  case False
  have u: "unat RTE_RING_SZ_MASK = 2 ^ 31 - 1" by (simp add: RTE_RING_SZ_MASK_def)
  have "(2::nat) ^ k \<le> 2 ^ 31 - 1 \<longleftrightarrow> k \<le> 30" for k
  proof
    assume "(2::nat) ^ k \<le> 2 ^ 31 - 1"
    then have "(2::nat) ^ k < 2 ^ 31" by simp
    then have "k < 31" by (simp only: power_strict_increasing_iff)
    then show "k \<le> 30" by simp
  next
    assume "k \<le> 30"
    then have "(2::nat) ^ k \<le> 2 ^ 30" by (intro power_increasing) auto
    then show "(2::nat) ^ k \<le> 2 ^ 31 - 1" by simp
  qed
  with False u show ?thesis by (auto simp: POWEROF2_iff word_le_nat_alt)
qed

definition fresh_ring :: "'o rte_ring \<Rightarrow> nat \<Rightarrow> bool" where
  "fresh_ring r cap \<longleftrightarrow> ring_wf r \<and> ring_items r = [] \<and> unat (r_capacity r) = cap"

lemma ring_init_rep:
  assumes "length name < RTE_MEMZONE_NAMESIZE" "flags AND RING_F_EXACT_SZ = 0" "unat count = 2 ^ k" "k \<le> 30"
    "2 ^ k \<le> length (r_tbl r)"
  shows "\<exists>r'. rte_ring_init r name count flags = (0, r') \<and> fresh_ring r' (2 ^ k - 1) \<and>
     ht_single (r_prod r') = (flags AND RING_F_SP_ENQ \<noteq> 0) \<and> ht_single (r_cons r') = (flags AND RING_F_SC_DEQ \<noteq> 0)"
proof -
  have acc: "POWEROF2 count" "\<not> count > RTE_RING_SZ_MASK"
    using size_accepted [of count] assms(3,4) by (auto simp: not_less)
  have "count \<noteq> 0" using assms(3) by auto
  then have u: "unat (count - 1) = 2 ^ k - 1" using assms(3) by (simp add: unat_minus_one)
  have "\<exists>b \<le> 31. (2 :: nat) ^ k = 2 ^ b" using assms(4) by (intro exI [of _ k]) simp
  then show ?thesis using assms(1,2,3,5) acc u
    by (simp add: rte_ring_init_def Let_def fresh_ring_def ring_wf_def ring_indices_zero_def ring_len_def
        ring_items_def)
qed

lemma init_exact_rep:
  assumes "length name < RTE_MEMZONE_NAMESIZE" "flags AND RING_F_EXACT_SZ \<noteq> 0" "unat count < 2 ^ 31"
    "unat (rte_align32pow2 (count + 1)) \<le> length (r_tbl r)"
  shows "\<exists>r'. rte_ring_init r name count flags = (0, r') \<and> fresh_ring r' (unat count)"
proof -
  let ?s = "rte_align32pow2 (count + 1)"
  have u1: "unat (count + 1) = unat count + 1" using assms(3) by (subst unat_add_no_overflow) auto
  have "0 < count + 1" "unat (count + 1) \<le> 2 ^ 31" using u1 assms(3) by (auto simp: word_less_nat_alt)
  then obtain k where k: "unat ?s = 2 ^ k" "unat (count + 1) \<le> 2 ^ k" "k < 32"
    using align32pow2_spec by blast
  have "\<exists>b \<le> 31. unat ?s = 2 ^ b" using k by (intro exI [of _ k]) simp
  moreover have "?s \<noteq> 0" using k(1) by auto
  then have "unat (?s - 1) = 2 ^ k - 1" using k(1) by (simp add: unat_minus_one)
  then have "count \<le> ?s - 1" using k(2) u1 by (simp add: word_le_nat_alt)
  ultimately show ?thesis using assms(1,2,4)
    by (simp add: rte_ring_init_def Let_def fresh_ring_def ring_wf_def ring_indices_zero_def ring_len_def
        ring_items_def)
qed

text \<open>
  A size the functions accept although no ring has it: the count 0, or with
  \<open>RING_F_EXACT_SZ\<close> a count above \<open>2 ^ 31\<close>, whose next power of two is 0. The ring has no
  slots and a mask of all ones, and the first object put into it is written beyond it.
\<close>

definition slotless :: "u32 \<Rightarrow> u32 \<Rightarrow> bool" where
  "slotless count flags \<longleftrightarrow>
     (if flags AND RING_F_EXACT_SZ = 0 then count = 0 else 2 ^ 31 \<le> unat count)"

lemma slotless_size:
  assumes "slotless count flags"
  shows "(if flags AND RING_F_EXACT_SZ \<noteq> 0 then rte_align32pow2 (count + 1) else count) = 0"
proof (cases "flags AND RING_F_EXACT_SZ = 0")
  case True
  with assms show ?thesis by (simp add: slotless_def)
next
  case False
  then have c: "2 ^ 31 \<le> unat count" using assms by (simp add: slotless_def)
  show ?thesis
  proof (cases "count + 1 = 0")
    case True
    then show ?thesis using False by (simp add: rte_align32pow2_def rte_combine32ms1b_def)
  next
    case nz: False
    then have "unat (count + 1) = unat count + 1"
      by (metis Suc_eq_plus1 unatSuc add.commute)
    then have "2 ^ 31 < unat (count + 1)" using c by simp
    with False show ?thesis by (simp add: align32pow2_wraps)
  qed
qed

lemma sint_small:
  assumes "unat (x :: u64) < 2 ^ 63"
  shows "sint x = int (unat x)"
proof -
  have "int (unat x) < int (2 ^ 63)" using assms by (simp only: of_nat_less_iff)
  then have "int (unat x) < 2 ^ 63" by (simp only: of_nat_power of_nat_numeral)
  moreover have "- (2 ^ 63) \<le> int (unat x)" by (rule order_trans [of _ 0]) simp_all
  ultimately have "signed_take_bit 63 (int (unat x)) = int (unat x)"
    by (intro signed_take_bit_int_eq_self)
  then show ?thesis by (simp add: sint_uint)
qed

lemma memsize_pos:
  assumes "unat hdr + unat count * 8 < 2 ^ 40" "POWEROF2 count" "count \<le> RTE_RING_SZ_MASK"
  shows "unat hdr + unat count * 8 \<le> nat (rte_ring_get_memsize hdr count) \<and> 0 \<le> rte_ring_get_memsize hdr count"
proof -
  let ?v = "hdr + ucast count * 8"
  have uc: "unat (ucast count :: u64) = unat count" by (rule unat_ucast_up) simp
  have "unat (ucast count * 8 :: u64) = unat count * 8"
    using assms(1) uc by (subst word_of_nat_unat_mult) auto
  then have v: "unat ?v = unat hdr + unat count * 8" using assms(1) by (subst unat_add_no_overflow) auto
  have c: "unat ?v \<le> unat (RTE_ALIGN_CEIL ?v (2 ^ 6)) \<and> unat (RTE_ALIGN_CEIL ?v (2 ^ 6)) < unat ?v + 2 ^ 6"
    using align_ceil_spec [of 6 ?v] v assms(1) by auto
  then have "unat (RTE_ALIGN_CEIL ?v 64) < 2 ^ 63" using v assms(1) by simp
  from sint_small [OF this] c v assms(2,3) show ?thesis by (simp add: rte_ring_get_memsize_def not_less)
qed

lemma create_rep:
  assumes "unat hdr < 2 ^ 20" "length name < 29" "flags AND RING_F_EXACT_SZ = 0" "unat count = 2 ^ k" "k \<le> 30"
  shows "\<exists>env' r. rte_ring_create hdr True (Inl a) junk name count flags env = (Some a, env') \<and>
     rings env' a = Some r \<and> fresh_ring r (2 ^ k - 1) \<and> r_name r = name \<and> r_memzone r = Some a \<and>
     ht_single (r_prod r) = (flags AND RING_F_SP_ENQ \<noteq> 0) \<and> ht_single (r_cons r) = (flags AND RING_F_SC_DEQ \<noteq> 0) \<and>
     ring_list env' = ring_list env @ [a]"
proof -
  let ?r0 = "\<lparr>r_name = [], r_flags = 0, r_memzone = None, r_size = 0, r_mask = 0, r_capacity = 0,
     r_prod = ring_indices_zero False, r_cons = ring_indices_zero False, r_tbl = replicate (unat count) junk\<rparr>"
  have acc: "POWEROF2 count" "count \<le> RTE_RING_SZ_MASK" using size_accepted [of count] assms(4,5) by auto
  have "(2::nat) ^ k \<le> 2 ^ 30" using assms(5) by (intro power_increasing) auto
  then have "unat hdr + unat count * 8 < 2 ^ 40" using assms(1,4) by simp
  then have "0 \<le> rte_ring_get_memsize hdr count" using memsize_pos acc by blast
  moreover obtain r where r: "rte_ring_init ?r0 name count flags = (0, r)" "fresh_ring r (2 ^ k - 1)"
    "ht_single (r_prod r) = (flags AND RING_F_SP_ENQ \<noteq> 0)" "ht_single (r_cons r) = (flags AND RING_F_SC_DEQ \<noteq> 0)"
    using ring_init_rep [of name flags count k ?r0] assms by (auto simp: RTE_MEMZONE_NAMESIZE_def)
  moreover have "r_name r = name"
    using r(1) assms(2,3) acc by (auto simp: rte_ring_init_def Let_def RTE_MEMZONE_NAMESIZE_def not_less split: if_splits)
  moreover have "fresh_ring (r\<lparr>r_memzone := Some a\<rparr>) (2 ^ k - 1)"
    using r(2) by (auto simp: fresh_ring_def ring_wf_def ring_len_def ring_items_def ring_slot_def)
  ultimately show ?thesis using assms(2,3)
    by (simp add: rte_ring_create_def RTE_MEMZONE_NAMESIZE_def not_le)
qed

text \<open>
  A count that is no power of two is refused, but \<open>rte_errno\<close> gets the negative number.
\<close>

lemma create_einval:
  assumes "flags AND RING_F_EXACT_SZ = 0" "count \<noteq> 0" "\<not> (\<exists>k \<le> 30. unat count = 2 ^ k)"
  shows "rte_ring_create hdr te mz junk name count flags env = (None, env\<lparr>rte_errno := - EINVAL\<rparr>)"
  using assms size_accepted [of count] by (auto simp: rte_ring_create_def rte_ring_get_memsize_def not_less)

lemma slotless_enqueue:
  assumes "r_size r = 0" "r_mask r = - 1" "r_tbl r = []"
    "ht_head (r_prod r) = 0" "ht_tail (r_prod r) = 0" "ht_tail (r_cons r) = 0" "r_capacity r \<noteq> 0"
  shows "rte_ring_enqueue r x = None"
proof -
  have "\<not> r_capacity r < 1" using assms(7) by (simp add: word_less_nat_alt Suc_le_eq unat_gt_0 not_less)
  then have mv: "move_prod_head r s 1 RTE_RING_QUEUE_FIXED =
      Some (1, 0, 1, r_capacity r, r\<lparr>r_prod := (r_prod r)\<lparr>ht_head := 1\<rparr>\<rparr>)" for s
    using assms by (subst move_prod_head.simps) (cases s; simp add: Let_def rte_atomic32_cmpset_def)
  have "copy_ptrs 0 0 1 (\<lambda>idx i ring. tbl_put ring idx [x] i) [] = None"
    by (simp add: copy_ptrs_def copy_idx.simps copy_i.simps tbl_put_def)
  then show ?thesis using assms
    by (simp add: rte_ring_enqueue_def rte_ring_enqueue_bulk_def do_enqueue_def ENQUEUE_PTRS_def mv)
qed

lemma create_slotless:
  assumes "slotless count flags" "unat hdr < 2 ^ 20" "length name < 29"
  shows "\<exists>env' r. rte_ring_create hdr True (Inl a) junk name count flags env = (Some a, env') \<and>
     rings env' a = Some r \<and> (\<forall>x. rte_ring_enqueue r x = None)"
proof -
  let ?f = "flags AND RING_F_EXACT_SZ"
  note z = slotless_size [OF assms(1)]
  have p: "POWEROF2 0" "(0 :: u32) \<le> RTE_RING_SZ_MASK" by (simp_all add: POWEROF2_def)
  have "0 \<le> rte_ring_get_memsize hdr 0" using memsize_pos [of hdr 0] p assms(2) by simp
  let ?r0 = "\<lparr>r_name = [], r_flags = 0, r_memzone = None, r_size = 0, r_mask = 0, r_capacity = 0,
     r_prod = ring_indices_zero False, r_cons = ring_indices_zero False, r_tbl = []\<rparr> :: 'a rte_ring"
  let ?r = "snd (rte_ring_init ?r0 name count flags)\<lparr>r_memzone := Some a\<rparr>"
  have create: "rte_ring_create hdr True (Inl a) junk name count flags env =
      (Some a, env\<lparr>rings := (rings env)(a \<mapsto> ?r), ring_list := ring_list env @ [a]\<rparr>)"
    using z \<open>0 \<le> rte_ring_get_memsize hdr 0\<close> assms(3)
    unfolding rte_ring_create_def Let_def by (simp add: RTE_MEMZONE_NAMESIZE_def not_le)
  have nz: "r_capacity ?r \<noteq> 0" and f: "r_size ?r = 0" "r_mask ?r = - 1" "r_tbl ?r = []"
    "ht_head (r_prod ?r) = 0" "ht_tail (r_prod ?r) = 0" "ht_tail (r_cons ?r) = 0"
    using assms z p
    by (auto simp: rte_ring_init_def Let_def RTE_MEMZONE_NAMESIZE_def ring_indices_zero_def slotless_def
        not_le not_less split: if_splits)
  have "rte_ring_enqueue ?r x = None" for x by (rule slotless_enqueue [OF f nz])
  with create show ?thesis by simp
qed

lemma lookup_created:
  assumes "set (ring_list env) \<subseteq> dom (rings env)" "a \<in> set (ring_list env)" "r_name (the (rings env a)) = name"
    "length name < 29" "\<forall>c \<in> set (ring_list env). length (r_name (the (rings env c))) < 29"
  shows "\<exists>c. rte_ring_lookup name env = Some (Some c, env) \<and> c \<in> set (ring_list env) \<and>
     r_name (the (rings env c)) = name"
proof -
  let ?P = "\<lambda>a. take RTE_RING_NAMESIZE (r_name (the (rings env a))) = take RTE_RING_NAMESIZE name"
  have t: "?P c \<longleftrightarrow> r_name (the (rings env c)) = name" if "c \<in> set (ring_list env)" for c
  proof -
    have "length (r_name (the (rings env c))) < 29" using that assms(5) by blast
    with assms(4) show ?thesis by (simp add: RTE_RING_NAMESIZE_def RTE_MEMZONE_NAMESIZE_def)
  qed
  have "find ?P (ring_list env) \<noteq> None" using assms(2,3) by (auto simp: find_None_iff)
  then obtain c where c: "find ?P (ring_list env) = Some c" by blast
  then have "c \<in> set (ring_list env)" "?P c" by (auto simp: find_Some_iff)
  with c t assms(1) show ?thesis by (auto simp: rte_ring_lookup_def)
qed

section \<open>Properties\<close>

text \<open>A script of ring operations: what is enqueued, or how many objects are wanted into a table.\<close>

datatype 'o ring_call =
    EnqueueCall "'o list" u32 rte_ring_queue_behavior bool
  | DequeueCall "'o list" u32 rte_ring_queue_behavior bool

fun ring_exec :: "'o rte_ring \<Rightarrow> 'o ring_call \<Rightarrow> ('o list \<times> 'o rte_ring) option" where
  "ring_exec r (EnqueueCall objs n b s) = map_option (\<lambda>(k, _, r). (take (unat k) objs, r)) (do_enqueue r objs n b s)"
| "ring_exec r (DequeueCall objs n b s) = map_option (\<lambda>(k, _, objs, r). (take (unat k) objs, r)) (do_dequeue r objs n b s)"

fun call_fits :: "'o ring_call \<Rightarrow> bool" where
  "call_fits (EnqueueCall objs n b s) \<longleftrightarrow> unat n \<le> length objs"
| "call_fits (DequeueCall objs n b s) \<longleftrightarrow> unat n \<le> length objs"

text \<open>The results of the calls, one after the other, and the ring at the end.\<close>

fun ring_exec_all :: "'o rte_ring \<Rightarrow> 'o ring_call list \<Rightarrow> ('o list list \<times> 'o rte_ring) option" where
  "ring_exec_all r [] = Some ([], r)"
| "ring_exec_all r (c # cs) =
     (case ring_exec r c of None \<Rightarrow> None
      | Some (out, r) \<Rightarrow> map_option (\<lambda>(outs, r). (out # outs, r)) (ring_exec_all r cs))"

text \<open>The same on a bounded queue \<open>xs\<close> of capacity \<open>cap\<close>.\<close>

fun queue_exec :: "nat \<Rightarrow> 'o list \<Rightarrow> 'o ring_call \<Rightarrow> 'o list \<times> 'o list" where
  "queue_exec cap xs (EnqueueCall objs n b s) =
     (let out = take (amount b (unat n) (cap - length xs)) objs in (out, xs @ out))"
| "queue_exec cap xs (DequeueCall objs n b s) =
     (let k = amount b (unat n) (length xs) in (take k xs, drop k xs))"

fun queue_exec_all :: "nat \<Rightarrow> 'o list \<Rightarrow> 'o ring_call list \<Rightarrow> 'o list list \<times> 'o list" where
  "queue_exec_all cap xs [] = ([], xs)"
| "queue_exec_all cap xs (c # cs) =
     (case queue_exec cap xs c of (out, xs) \<Rightarrow> (case queue_exec_all cap xs cs of (outs, xs) \<Rightarrow> (out # outs, xs)))"

lemma ring_exec_step:
  assumes "ring_wf r" "call_fits c"
  shows "\<exists>out r'. ring_exec r c = Some (out, r') \<and> ring_wf r' \<and> same_ring r r' \<and>
     queue_exec (unat (r_capacity r)) (ring_items r) c = (out, ring_items r')"
proof (cases c)
  case (EnqueueCall objs n b s)
  then obtain k fe r' where "do_enqueue r objs n b s = Some (k, fe, r')" "unat k = amount b (unat n) (ring_room r)"
    "ring_wf r'" "same_ring r r'" "ring_items r' = ring_items r @ take (unat k) objs"
    using do_enqueue_rep [OF assms(1), of n objs b s] assms(2) by auto
  then show ?thesis using EnqueueCall by (simp add: ring_room_def Let_def)
next
  case (DequeueCall objs n b s)
  then obtain k av objs' r' where d: "do_dequeue r objs n b s = Some (k, av, objs', r')" "unat k = amount b (unat n) (ring_len r)"
    "objs' = take (unat k) (ring_items r) @ drop (unat k) objs" "ring_wf r'" "same_ring r r'" "ring_items r' = drop (unat k) (ring_items r)"
    using do_dequeue_rep [OF assms(1), of n objs b s] assms(2) by auto
  moreover have "unat k \<le> ring_len r" using d(2) amount_le by simp
  ultimately show ?thesis using DequeueCall by (simp add: Let_def)
qed

lemma ring_exec_all_rep:
  "ring_wf r \<Longrightarrow> list_all call_fits cs \<Longrightarrow>
     \<exists>outs r'. ring_exec_all r cs = Some (outs, r') \<and> ring_wf r' \<and> same_ring r r' \<and>
        queue_exec_all (unat (r_capacity r)) (ring_items r) cs = (outs, ring_items r')"
proof (induction cs arbitrary: r)
  case (Cons c cs)
  obtain out r1 where 1: "ring_exec r c = Some (out, r1)" "ring_wf r1" "same_ring r r1"
    "queue_exec (unat (r_capacity r)) (ring_items r) c = (out, ring_items r1)"
    using ring_exec_step [OF Cons.prems(1), of c] Cons.prems(2) by auto
  obtain outs r' where 2: "ring_exec_all r1 cs = Some (outs, r')" "ring_wf r'" "same_ring r1 r'"
    "queue_exec_all (unat (r_capacity r1)) (ring_items r1) cs = (outs, ring_items r')"
    using Cons.IH [OF 1(2)] Cons.prems(2) by auto
  have "r_capacity r1 = r_capacity r" "same_ring r r'" using 1(3) 2(3) by (auto simp: same_ring_def)
  with 1 2 show ?case by simp
qed (simp add: same_ring_def)

text \<open>
  C3: A ring refines a bounded queue. Any sequence of enqueues and dequeues, bulk or burst, single or multi,
  of any sizes, on a well-formed ring, wherever its 32-bit indices are and however often they wrap, runs
  without an access outside the tables, gives the results the queue gives, and leaves a well-formed
  ring with the queue's contents and the same capacity; \<open>rte_ring_count\<close> and
  \<open>rte_ring_free_count\<close> are the numbers of objects in it and of free places.
\<close>
theorem ring_refines_queue:
  assumes "ring_wf r" "list_all call_fits cs"
  shows "\<exists>outs r'. ring_exec_all r cs = Some (outs, r') \<and> ring_wf r' \<and> r_capacity r' = r_capacity r \<and>
     queue_exec_all (unat (r_capacity r)) (ring_items r) cs = (outs, ring_items r') \<and>
     unat (rte_ring_count r') = length (ring_items r') \<and>
     unat (rte_ring_free_count r') = unat (r_capacity r) - length (ring_items r')"
  using ring_exec_all_rep [OF assms] count_rep free_count_rep
  by (fastforce simp: same_ring_def ring_room_def)

text \<open>A ring of four slots whose indices are about to wrap.\<close>

definition ring_sample :: "nat rte_ring" where
  "ring_sample = \<lparr>r_name = ''r'', r_flags = 0, r_memzone = None, r_size = 4, r_mask = 3, r_capacity = 3,
     r_prod = \<lparr>ht_head = 0xffffffff, ht_tail = 0xffffffff, ht_single = False\<rparr>,
     r_cons = \<lparr>ht_head = 0xfffffffe, ht_tail = 0xfffffffe, ht_single = False\<rparr>, r_tbl = [1, 2, 3, 4]\<rparr>"

lemma ring_sample_wf: "ring_wf ring_sample" "ring_items ring_sample = [3]"
proof -
  have p: "unat (4 :: u32) = 2 ^ 2" by simp
  show "ring_wf ring_sample" unfolding ring_wf_def
    by (intro conjI exI [of _ 2]) (simp_all add: ring_sample_def ring_len_def p)
  show "ring_items ring_sample = [3]" by (simp add: ring_sample_def ring_items_def ring_len_def ring_slot_def)
qed

theorem ring_refines_queue_witness:
  "\<exists>r'. ring_exec_all ring_sample [EnqueueCall [7, 8, 9] 3 RTE_RING_QUEUE_VARIABLE False,
        DequeueCall [0, 0] 2 RTE_RING_QUEUE_FIXED True] = Some ([[7, 8], [3, 7]], r') \<and> ring_items r' = [8]"
  using ring_refines_queue [OF ring_sample_wf(1), of "[EnqueueCall [7, 8, 9] 3 RTE_RING_QUEUE_VARIABLE False,
      DequeueCall [0, 0] 2 RTE_RING_QUEUE_FIXED True]"]
  unfolding ring_sample_wf by (auto simp: ring_sample_def amount_def Let_def)

text \<open>
  Which rings can be created. Without \<open>RING_F_EXACT_SZ\<close> a count that is a power of two up to \<open>2 ^ 30\<close>
  gives an empty ring for one object less; every other count but 0 is refused, with the negative of
  the documented \<open>EINVAL\<close> in \<open>rte_errno\<close>; and the count 0 is accepted, giving a ring whose first enqueue
  writes outside its table.
\<close>
theorem ring_create_counts:
  assumes "unat hdr < 2 ^ 20" "length name < 29" "flags AND RING_F_EXACT_SZ = 0"
  shows "(\<forall>k \<le> 30. unat count = 2 ^ k \<longrightarrow>
       (\<exists>env' r. rte_ring_create hdr True (Inl a) junk name count flags env = (Some a, env') \<and> rings env' a = Some r \<and>
          ring_wf r \<and> ring_items r = [] \<and> unat (r_capacity r) = 2 ^ k - 1)) \<and>
     (count \<noteq> 0 \<longrightarrow> \<not> (\<exists>k \<le> 30. unat count = 2 ^ k) \<longrightarrow>
       rte_ring_create hdr True (Inl a) junk name count flags env = (None, env\<lparr>rte_errno := - EINVAL\<rparr>)) \<and>
     (count = 0 \<longrightarrow>
       (\<exists>env' r. rte_ring_create hdr True (Inl a) junk name count flags env = (Some a, env') \<and> rings env' a = Some r \<and>
          (\<forall>x. rte_ring_enqueue r x = None)))"
proof (intro conjI allI impI)
  fix k assume "k \<le> 30" "unat count = 2 ^ k"
  then show "\<exists>env' r. rte_ring_create hdr True (Inl a) junk name count flags env = (Some a, env') \<and> rings env' a = Some r \<and>
      ring_wf r \<and> ring_items r = [] \<and> unat (r_capacity r) = 2 ^ k - 1"
    using create_rep [OF assms, of count k a junk env] by (fastforce simp: fresh_ring_def)
next
  assume "count \<noteq> 0" "\<not> (\<exists>k \<le> 30. unat count = 2 ^ k)"
  then show "rte_ring_create hdr True (Inl a) junk name count flags env = (None, env\<lparr>rte_errno := - EINVAL\<rparr>)"
    by (rule create_einval [OF assms(3)])
next
  assume "count = 0"
  then have "slotless count flags" using assms(3) by (simp add: slotless_def)
  then show "\<exists>env' r. rte_ring_create hdr True (Inl a) junk name count flags env = (Some a, env') \<and> rings env' a = Some r \<and>
      (\<forall>x. rte_ring_enqueue r x = None)" by (rule create_slotless [OF _ assms(1,2)])
qed

theorem ring_create_counts_witness:
  "rte_ring_create 384 True (Inl 9) (0 :: nat) ''q'' 24 0 \<lparr>ring_list = [], rings = Map.empty, rte_errno = 0\<rparr> =
     (None, \<lparr>ring_list = [], rings = Map.empty, rte_errno = - 22\<rparr>)"
proof -
  have "\<not> (\<exists>k \<le> 30. unat (24 :: u32) = 2 ^ k)"
  proof
    assume "\<exists>k \<le> 30. unat (24 :: u32) = 2 ^ k"
    then obtain k where k: "(24 :: nat) = 2 ^ k" by auto
    have "k \<noteq> 0" using k by (cases k) auto
    moreover have "k < 5 \<or> 5 \<le> k" by linarith
    ultimately show False using k power_increasing [of 5 k "2 :: nat"]
      by (auto simp: less_Suc_eq numeral_eq_Suc)
  qed
  then show ?thesis
    using ring_create_counts [of 384 "''q''" 0 24 9 "0 :: nat" "\<lparr>ring_list = [], rings = Map.empty, rte_errno = 0\<rparr>"] by simp
qed

end
