(* ===== verification/RingThreads.thy ===== *)
theory RingThreads
  imports Ring
begin

text \<open>
  Many threads on one ring: the multi-producer and multi-consumer calls of \<open>rte_ring_generic.h\<close> and \<open>rte_ring.h\<close>, one load, store or
  compare-and-set at a time, in any interleaving. Loads and stores take effect in program order, as the barriers of the code ask
  for. The fields from \<open>t_log\<close> on are history: the objects places were reserved for, the positions of the four indices as
  numbers that do not wrap, and the effects of the calls in order. No step looks at them.
\<close>

section \<open>Threads\<close>

text \<open>
  Where a thread is. Each state keeps the local variables of the call; the number after \<open>old_head\<close> is the position it had when it
  was read. \<open>Fault\<close> is an access outside the table.
\<close>

datatype 'o ring_pc =
  Idle
| PHead "'o list" rte_ring_queue_behavior
| PTail "'o list" rte_ring_queue_behavior u32 nat
| PMove "'o list" rte_ring_queue_behavior u32 nat u32
| PCopy "'o list" u32 nat u32 nat
| PWait "'o list" u32 nat u32
| PRet u32
| CHead u32 rte_ring_queue_behavior
| CTail u32 rte_ring_queue_behavior u32 nat
| CMove u32 rte_ring_queue_behavior u32 nat u32
| CCopy u32 nat u32 "'o list"
| CWait u32 nat u32 "'o list"
| CRet nat "'o list"
| Fault

text \<open>The effect of a call, with its thread.\<close>

datatype 'o queue_op = Enq (op_thread: nat) "'o list" | Deq (op_thread: nat) "'o list"

record 'o ring_threads =
  t_ring :: "'o rte_ring"
  t_pc :: "nat \<Rightarrow> 'o ring_pc"
  t_log :: "'o list"
  t_pt :: nat
  t_ch :: nat
  t_ct :: nat
  t_ops :: "'o queue_op list"

definition at_pc :: "nat \<Rightarrow> 'o ring_pc \<Rightarrow> 'o ring_threads \<Rightarrow> 'o ring_threads" where
  "at_pc t p s = s\<lparr>t_pc := (t_pc s)(t := p)\<rparr>"

text \<open>How many objects a call moves when \<open>avail\<close> can be.\<close>

definition burst_size :: "u32 \<Rightarrow> u32 \<Rightarrow> rte_ring_queue_behavior \<Rightarrow> u32" where
  "burst_size n avail behavior = (if n > avail then (if behavior = RTE_RING_QUEUE_FIXED then 0 else avail) else n)"

definition prod_head_set :: "u32 \<Rightarrow> 'o rte_ring \<Rightarrow> 'o rte_ring" where
  "prod_head_set v r = r\<lparr>r_prod := (r_prod r)\<lparr>ht_head := v\<rparr>\<rparr>"

definition prod_tail_set :: "u32 \<Rightarrow> 'o rte_ring \<Rightarrow> 'o rte_ring" where
  "prod_tail_set v r = r\<lparr>r_prod := (r_prod r)\<lparr>ht_tail := v\<rparr>\<rparr>"

definition cons_head_set :: "u32 \<Rightarrow> 'o rte_ring \<Rightarrow> 'o rte_ring" where
  "cons_head_set v r = r\<lparr>r_cons := (r_cons r)\<lparr>ht_head := v\<rparr>\<rparr>"

definition cons_tail_set :: "u32 \<Rightarrow> 'o rte_ring \<Rightarrow> 'o rte_ring" where
  "cons_tail_set v r = r\<lparr>r_cons := (r_cons r)\<lparr>ht_tail := v\<rparr>\<rparr>"

inductive ring_enq_step :: "nat \<Rightarrow> 'o ring_threads \<Rightarrow> 'o ring_threads \<Rightarrow> bool" for t where
  p_call: "t_pc s t = Idle \<Longrightarrow> length objs < 2 ^ 32 \<Longrightarrow> ring_enq_step t s (at_pc t (PHead objs behavior) s)"
| p_head: "t_pc s t = PHead objs behavior \<Longrightarrow>
     ring_enq_step t s (at_pc t (PTail objs behavior (ht_head (r_prod (t_ring s))) (length (t_log s))) s)"
| p_tail: "t_pc s t = PTail objs behavior old pos \<Longrightarrow>
     n = burst_size (of_nat (length objs)) (r_capacity (t_ring s) + ht_tail (r_cons (t_ring s)) - old) behavior \<Longrightarrow>
     ring_enq_step t s (at_pc t (if n = 0 then PRet 0 else PMove objs behavior old pos n) s)"
| p_move: "t_pc s t = PMove objs behavior old pos n \<Longrightarrow>
     rte_atomic32_cmpset (ht_head (r_prod (t_ring s))) old (old + n) = (success, h) \<Longrightarrow>
     ring_enq_step t s (if success
       then at_pc t (PCopy objs old (length (t_log s)) n 0)
              (s\<lparr>t_ring := prod_head_set h (t_ring s), t_log := t_log s @ take (unat n) objs\<rparr>)
       else at_pc t (PHead objs behavior) s)"
| p_copy: "t_pc s t = PCopy objs old pos n i \<Longrightarrow> i < unat n \<Longrightarrow>
     ring_enq_step t s (case tbl_put (r_tbl (t_ring s)) ((old + of_nat i) AND r_mask (t_ring s)) objs (of_nat i) of
         None \<Rightarrow> at_pc t Fault s
       | Some tbl \<Rightarrow> at_pc t (PCopy objs old pos n (Suc i)) (s\<lparr>t_ring := (t_ring s)\<lparr>r_tbl := tbl\<rparr>\<rparr>))"
| p_copied: "t_pc s t = PCopy objs old pos n i \<Longrightarrow> i = unat n \<Longrightarrow> ring_enq_step t s (at_pc t (PWait objs old pos n) s)"
| p_publish: "t_pc s t = PWait objs old pos n \<Longrightarrow> ht_tail (r_prod (t_ring s)) = old \<Longrightarrow>
     ring_enq_step t s (at_pc t (PRet n)
       (s\<lparr>t_ring := prod_tail_set (old + n) (t_ring s), t_pt := pos + unat n, t_ops := t_ops s @ [Enq t (take (unat n) objs)]\<rparr>))"
| p_ret: "t_pc s t = PRet n \<Longrightarrow> ring_enq_step t s (at_pc t Idle s)"

inductive ring_deq_step :: "nat \<Rightarrow> 'o ring_threads \<Rightarrow> 'o ring_threads \<Rightarrow> bool" for t where
  c_call: "t_pc s t = Idle \<Longrightarrow> ring_deq_step t s (at_pc t (CHead n behavior) s)"
| c_head: "t_pc s t = CHead n0 behavior \<Longrightarrow>
     ring_deq_step t s (at_pc t (CTail n0 behavior (ht_head (r_cons (t_ring s))) (t_ch s)) s)"
| c_tail: "t_pc s t = CTail n0 behavior old pos \<Longrightarrow> n = burst_size n0 (ht_tail (r_prod (t_ring s)) - old) behavior \<Longrightarrow>
     ring_deq_step t s (at_pc t (if n = 0 then CRet pos [] else CMove n0 behavior old pos n) s)"
| c_move: "t_pc s t = CMove n0 behavior old pos n \<Longrightarrow>
     rte_atomic32_cmpset (ht_head (r_cons (t_ring s))) old (old + n) = (success, h) \<Longrightarrow>
     ring_deq_step t s (if success
       then at_pc t (CCopy old (t_ch s) n [])
              (s\<lparr>t_ring := cons_head_set h (t_ring s), t_ch := t_ch s + unat n,
                 t_ops := t_ops s @ [Deq t (take (unat n) (drop (t_ch s) (t_log s)))]\<rparr>)
       else at_pc t (CHead n0 behavior) s)"
| c_copy: "t_pc s t = CCopy old pos n xs \<Longrightarrow> length xs < unat n \<Longrightarrow> idx = unat ((old + of_nat (length xs)) AND r_mask (t_ring s)) \<Longrightarrow>
     ring_deq_step t s (if idx < length (r_tbl (t_ring s)) then at_pc t (CCopy old pos n (xs @ [r_tbl (t_ring s) ! idx])) s
       else at_pc t Fault s)"
| c_copied: "t_pc s t = CCopy old pos n xs \<Longrightarrow> length xs = unat n \<Longrightarrow> ring_deq_step t s (at_pc t (CWait old pos n xs) s)"
| c_publish: "t_pc s t = CWait old pos n xs \<Longrightarrow> ht_tail (r_cons (t_ring s)) = old \<Longrightarrow>
     ring_deq_step t s (at_pc t (CRet pos xs) (s\<lparr>t_ring := cons_tail_set (old + n) (t_ring s), t_ct := pos + unat n\<rparr>))"
| c_ret: "t_pc s t = CRet pos xs \<Longrightarrow> ring_deq_step t s (at_pc t Idle s)"

definition ring_step :: "'o ring_threads \<Rightarrow> 'o ring_threads \<Rightarrow> bool" where
  "ring_step s s' \<longleftrightarrow> (\<exists>t. ring_enq_step t s s' \<or> ring_deq_step t s s')"

text \<open>
  A thread that sleeps between reading a head and its compare-and-set while exactly \<open>2 ^ 32\<close> objects go by would find the index it has read. In
  a recent state no thread has slept so long.
\<close>

definition recent :: "'o ring_threads \<Rightarrow> bool" where
  "recent s \<longleftrightarrow> (\<forall>t. case t_pc s t of PMove _ _ _ pos _ \<Rightarrow> length (t_log s) < pos + 2 ^ 32 | CMove _ _ _ pos _ \<Rightarrow> t_ch s < pos + 2 ^ 32
     | _ \<Rightarrow> True)"

inductive ring_reach :: "'o ring_threads \<Rightarrow> 'o ring_threads \<Rightarrow> bool" for s0 where
  reach_start: "ring_reach s0 s0"
| reach_step: "ring_reach s0 s \<Longrightarrow> recent s \<Longrightarrow> ring_step s s' \<Longrightarrow> ring_reach s0 s'"

text \<open>A ring that nobody is using.\<close>

definition threads_start :: "'o rte_ring \<Rightarrow> 'o ring_threads" where
  "threads_start r =
     \<lparr>t_ring = r, t_pc = (\<lambda>_. Idle), t_log = replicate (unat (ht_tail (r_cons r))) (hd (r_tbl r)) @ ring_items r,
      t_pt = unat (ht_tail (r_cons r)) + ring_len r, t_ch = unat (ht_tail (r_cons r)), t_ct = unat (ht_tail (r_cons r)), t_ops = []\<rparr>"

text \<open>The bounded queue the effects are checked against.\<close>

fun queue_run :: "nat \<Rightarrow> 'o list \<Rightarrow> 'o queue_op list \<Rightarrow> 'o list option" where
  "queue_run cap q [] = Some q"
| "queue_run cap q (Enq t xs # ops) = (if length q + length xs \<le> cap then queue_run cap (q @ xs) ops else None)"
| "queue_run cap q (Deq t xs # ops) = (if take (length xs) q = xs then queue_run cap (drop (length xs) q) ops else None)"

definition last_op :: "nat \<Rightarrow> 'o queue_op list \<Rightarrow> 'o queue_op option" where
  "last_op t ops = find (\<lambda>op. op_thread op = t) (rev ops)"

section \<open>The invariant\<close>

definition span_p :: "'o ring_pc \<Rightarrow> nat set" where
  "span_p p = (case p of PCopy _ _ pos n _ \<Rightarrow> {pos..<pos + unat n} | PWait _ _ pos n \<Rightarrow> {pos..<pos + unat n} | _ \<Rightarrow> {})"

definition span_c :: "'o ring_pc \<Rightarrow> nat set" where
  "span_c p = (case p of CCopy _ pos n _ \<Rightarrow> {pos..<pos + unat n} | CWait _ pos n _ \<Rightarrow> {pos..<pos + unat n} | _ \<Rightarrow> {})"

definition seg :: "'o list \<Rightarrow> nat \<Rightarrow> nat \<Rightarrow> 'o list" where
  "seg xs p n = take n (drop p xs)"

definition prod_mid :: "'o list \<Rightarrow> nat \<Rightarrow> 'o list \<Rightarrow> nat \<Rightarrow> nat \<Rightarrow> 'o list \<Rightarrow> u32 \<Rightarrow> nat \<Rightarrow> u32 \<Rightarrow> bool" where
  "prod_mid log pt tbl sz i objs old pos n \<longleftrightarrow> old = of_nat pos \<and> n \<noteq> 0 \<and> unat n \<le> length objs \<and> i \<le> unat n \<and> pt \<le> pos \<and>
     pos + unat n \<le> length log \<and> take (unat n) objs = seg log pos (unat n) \<and> (\<forall>j < i. tbl ! ((pos + j) mod sz) = objs ! j)"

definition cons_mid :: "'o list \<Rightarrow> nat \<Rightarrow> nat \<Rightarrow> 'o list \<Rightarrow> u32 \<Rightarrow> nat \<Rightarrow> u32 \<Rightarrow> bool" where
  "cons_mid log ct ch xs old pos n \<longleftrightarrow> old = of_nat pos \<and> n \<noteq> 0 \<and> ct \<le> pos \<and> pos + unat n \<le> ch \<and> length xs \<le> unat n \<and>
     xs = seg log pos (length xs)"

fun pc_ok :: "nat \<Rightarrow> nat \<Rightarrow> 'o list \<Rightarrow> 'o list \<Rightarrow> nat \<Rightarrow> nat \<Rightarrow> nat \<Rightarrow> 'o ring_pc \<Rightarrow> bool" where
  "pc_ok cap sz tbl log pt ch ct Idle = True"
| "pc_ok cap sz tbl log pt ch ct (PHead objs b) = (length objs < 2 ^ 32)"
| "pc_ok cap sz tbl log pt ch ct (PTail objs b old pos) = (length objs < 2 ^ 32 \<and> old = of_nat pos \<and> pos \<le> length log)"
| "pc_ok cap sz tbl log pt ch ct (PMove objs b old pos n) = (length objs < 2 ^ 32 \<and> old = of_nat pos \<and> pos \<le> length log \<and> n \<noteq> 0 \<and>
     unat n \<le> length objs \<and> (pos < length log \<or> pos + unat n \<le> ct + cap))"
| "pc_ok cap sz tbl log pt ch ct (PCopy objs old pos n i) = prod_mid log pt tbl sz i objs old pos n"
| "pc_ok cap sz tbl log pt ch ct (PWait objs old pos n) = prod_mid log pt tbl sz (unat n) objs old pos n"
| "pc_ok cap sz tbl log pt ch ct (PRet n) = True"
| "pc_ok cap sz tbl log pt ch ct (CHead n b) = True"
| "pc_ok cap sz tbl log pt ch ct (CTail n0 b old pos) = (old = of_nat pos \<and> pos \<le> ch)"
| "pc_ok cap sz tbl log pt ch ct (CMove n0 b old pos n) = (old = of_nat pos \<and> pos \<le> ch \<and> n \<noteq> 0 \<and> pos + unat n \<le> pt)"
| "pc_ok cap sz tbl log pt ch ct (CCopy old pos n xs) = cons_mid log ct ch xs old pos n"
| "pc_ok cap sz tbl log pt ch ct (CWait old pos n xs) = (cons_mid log ct ch xs old pos n \<and> length xs = unat n)"
| "pc_ok cap sz tbl log pt ch ct (CRet pos xs) = (pos + length xs \<le> ch \<and> xs = seg log pos (length xs))"
| "pc_ok cap sz tbl log pt ch ct Fault = False"

definition ring_shape :: "'o rte_ring \<Rightarrow> bool" where
  "ring_shape r \<longleftrightarrow> (\<exists>b \<le> 31. unat (r_size r) = 2 ^ b) \<and> r_mask r = r_size r - 1 \<and> r_capacity r \<le> r_mask r \<and> unat (r_size r) \<le> length (r_tbl r)"

definition ring_inv :: "'o ring_threads \<Rightarrow> bool" where
  "ring_inv s \<longleftrightarrow> ring_shape (t_ring s) \<and>
     ht_head (r_prod (t_ring s)) = of_nat (length (t_log s)) \<and> ht_tail (r_prod (t_ring s)) = of_nat (t_pt s) \<and>
     ht_head (r_cons (t_ring s)) = of_nat (t_ch s) \<and> ht_tail (r_cons (t_ring s)) = of_nat (t_ct s) \<and>
     t_ct s \<le> t_ch s \<and> t_ch s \<le> t_pt s \<and> t_pt s \<le> length (t_log s) \<and> length (t_log s) \<le> t_ct s + unat (r_capacity (t_ring s)) \<and>
     (\<forall>p. t_ct s \<le> p \<and> p < t_pt s \<longrightarrow> r_tbl (t_ring s) ! (p mod unat (r_size (t_ring s))) = t_log s ! p) \<and>
     (\<forall>t. pc_ok (unat (r_capacity (t_ring s))) (unat (r_size (t_ring s))) (r_tbl (t_ring s)) (t_log s) (t_pt s) (t_ch s) (t_ct s) (t_pc s t)) \<and>
     (\<forall>t u. t \<noteq> u \<longrightarrow> span_p (t_pc s t) \<inter> span_p (t_pc s u) = {} \<and> span_c (t_pc s t) \<inter> span_c (t_pc s u) = {})"

abbreviation pc_fits :: "'o ring_threads \<Rightarrow> 'o ring_pc \<Rightarrow> bool" where
  "pc_fits s \<equiv> pc_ok (unat (r_capacity (t_ring s))) (unat (r_size (t_ring s))) (r_tbl (t_ring s)) (t_log s) (t_pt s) (t_ch s) (t_ct s)"

lemma at_pc_simps [simp]:
  "t_pc (at_pc t p s) = (t_pc s)(t := p)" "t_ring (at_pc t p s) = t_ring s" "t_log (at_pc t p s) = t_log s" "t_pt (at_pc t p s) = t_pt s"
  "t_ch (at_pc t p s) = t_ch s" "t_ct (at_pc t p s) = t_ct s" "t_ops (at_pc t p s) = t_ops s"
  by (simp_all add: at_pc_def)

lemma head_set_simps [simp]:
  "prod_head_set v r = r\<lparr>r_prod := (r_prod r)\<lparr>ht_head := v\<rparr>\<rparr>" "prod_tail_set v r = r\<lparr>r_prod := (r_prod r)\<lparr>ht_tail := v\<rparr>\<rparr>"
  "cons_head_set v r = r\<lparr>r_cons := (r_cons r)\<lparr>ht_head := v\<rparr>\<rparr>" "cons_tail_set v r = r\<lparr>r_cons := (r_cons r)\<lparr>ht_tail := v\<rparr>\<rparr>"
  by (simp_all add: prod_head_set_def prod_tail_set_def cons_head_set_def cons_tail_set_def)

lemma span_simps [simp]:
  "span_p Idle = {}" "span_p (PHead objs b) = {}" "span_p (PTail objs b old pos) = {}" "span_p (PMove objs b old pos n) = {}"
  "span_p (PCopy objs old pos n i) = {pos..<pos + unat n}" "span_p (PWait objs old pos n) = {pos..<pos + unat n}" "span_p (PRet n) = {}"
  "span_p (CHead n b) = {}" "span_p (CTail n b old pos) = {}" "span_p (CMove m b old pos n) = {}" "span_p (CCopy old pos n xs) = {}"
  "span_p (CWait old pos n xs) = {}" "span_p (CRet pos xs) = {}" "span_p Fault = {}"
  "span_c Idle = {}" "span_c (PHead objs b) = {}" "span_c (PTail objs b old pos) = {}" "span_c (PMove objs b old pos n) = {}"
  "span_c (PCopy objs old pos n i) = {}" "span_c (PWait objs old pos n) = {}" "span_c (PRet n) = {}"
  "span_c (CHead n b) = {}" "span_c (CTail n b old pos) = {}" "span_c (CMove m b old pos n) = {}"
  "span_c (CCopy old pos n xs) = {pos..<pos + unat n}" "span_c (CWait old pos n xs) = {pos..<pos + unat n}" "span_c (CRet pos xs) = {}"
  "span_c Fault = {}"
  by (simp_all add: span_p_def span_c_def)

lemma ring_shape_simps [simp]:
  "ring_shape (r\<lparr>r_prod := h\<rparr>) = ring_shape r" "ring_shape (r\<lparr>r_cons := h\<rparr>) = ring_shape r"
  "length tbl = length (r_tbl r) \<Longrightarrow> ring_shape (r\<lparr>r_tbl := tbl\<rparr>) = ring_shape r"
  by (simp_all add: ring_shape_def)

text \<open>Indices and positions.\<close>

lemma of_nat_close:
  assumes "(of_nat a :: u32) = of_nat b" "a \<le> b" "b < a + 2 ^ 32"
  shows "a = b"
proof -
  have "b mod 2 ^ 32 = a mod 2 ^ 32" using assms(1) by (simp add: word_of_nat_eq_iff take_bit_eq_mod)
  then have "(2 :: nat) ^ 32 dvd b - a" using assms(2) by (metis mod_eq_dvd_iff_nat)
  then show ?thesis using assms(2,3) by (auto dest: dvd_imp_le)
qed

lemma unat_diff_le: "b \<le> a \<Longrightarrow> unat (of_nat a - of_nat b :: u32) \<le> a - b"
proof -
  assume h: "b \<le> a"
  have "(of_nat a - of_nat b :: u32) = of_nat (a - b)" using h by simp
  then show ?thesis by (simp only: unsigned_of_nat take_bit_eq_mod) simp
qed

lemma slots_differ:
  fixes a b l sz :: nat
  assumes "l \<le> a" "a < l + sz" "l \<le> b" "b < l + sz" "a \<noteq> b"
  shows "a mod sz \<noteq> b mod sz"
proof
  assume e: "a mod sz = b mod sz"
  consider "a < b" | "b < a" using assms(5) by linarith
  then show False
  proof cases
    case 1
    then have "sz dvd b - a" using e by (metis less_imp_le mod_eq_dvd_iff_nat)
    then show ?thesis using 1 assms by (auto dest: dvd_imp_le)
  next
    case 2
    then have "sz dvd a - b" using e by (metis less_imp_le mod_eq_dvd_iff_nat)
    then show ?thesis using 2 assms by (auto dest: dvd_imp_le)
  qed
qed

lemma index_slot:
  assumes "ring_shape r"
  shows "unat ((of_nat pos + of_nat j) AND r_mask r) = (pos + j) mod unat (r_size r)" "0 < unat (r_size r)"
    "unat (r_size r) dvd 2 ^ 32" "unat (r_capacity r) < unat (r_size r)"
proof -
  obtain b where b: "b \<le> 31" "unat (r_size r) = 2 ^ b" and m: "r_mask r = r_size r - 1" "r_capacity r \<le> r_mask r"
    using assms by (auto simp: ring_shape_def)
  show d: "unat (r_size r) dvd 2 ^ 32" unfolding b(2) using b(1) by (intro le_imp_power_dvd) simp
  show p: "0 < unat (r_size r)" unfolding b(2) by simp
  have "unat ((of_nat (pos + j) :: u32) AND (r_size r - 1)) = unat (of_nat (pos + j) :: u32) mod 2 ^ b" by (rule and_mask_mod [OF b(2,1)])
  also have "\<dots> = (pos + j) mod 2 ^ b"
    using d unfolding b(2) by (simp add: unsigned_of_nat take_bit_eq_mod mod_mod_cancel del: of_nat_add)
  finally show "unat ((of_nat pos + of_nat j) AND r_mask r) = (pos + j) mod unat (r_size r)" by (simp add: m b(2))
  have "r_size r \<noteq> 0" using p by auto
  then have "unat (r_size r - 1) < unat (r_size r)" using p by (simp add: unat_minus_one)
  then show "unat (r_capacity r) < unat (r_size r)" using m by (simp add: word_le_nat_alt)
qed

section \<open>Steps of others\<close>

lemma seg_append: "p + n \<le> length xs \<Longrightarrow> seg (xs @ ys) p n = seg xs p n"
  by (simp add: seg_def)

lemma seg_nth: "p + n \<le> length xs \<Longrightarrow> j < n \<Longrightarrow> seg xs p n ! j = xs ! (p + j)"
  by (simp add: seg_def)

lemma seg_length: "p + n \<le> length xs \<Longrightarrow> length (seg xs p n) = n"
  by (simp add: seg_def)

lemma pc_ok_log:
  "pc_ok cap sz tbl log pt ch ct p \<Longrightarrow> ch \<le> length log \<Longrightarrow> pc_ok cap sz tbl (log @ xs) pt ch ct p"
  by (cases p) (auto simp: prod_mid_def cons_mid_def seg_append)

lemma pc_ok_pt:
  assumes "pc_ok cap sz tbl log pt ch ct p" "pt \<le> pt'" "span_p p \<inter> {pt..<pt'} = {}"
  shows "pc_ok cap sz tbl log pt' ch ct p"
proof -
  have "pt' \<le> pos" if "prod_mid log pt tbl sz i objs old pos n" "{pos..<pos + unat n} \<inter> {pt..<pt'} = {}" for i objs old pos n
  proof (rule ccontr)
    assume "\<not> pt' \<le> pos"
    moreover have "0 < unat n" using that(1) by (simp add: prod_mid_def unat_gt_0)
    ultimately have "pos \<in> {pos..<pos + unat n} \<inter> {pt..<pt'}" using that(1) by (simp add: prod_mid_def)
    then show False using that(2) by simp
  qed
  then show ?thesis using assms by (cases p) (auto simp: prod_mid_def)
qed

lemma pc_ok_ch: "pc_ok cap sz tbl log pt ch ct p \<Longrightarrow> ch \<le> ch' \<Longrightarrow> pc_ok cap sz tbl log pt ch' ct p"
  by (cases p) (auto simp: cons_mid_def)

lemma pc_ok_ct:
  assumes "pc_ok cap sz tbl log pt ch ct p" "ct \<le> ct'" "span_c p \<inter> {ct..<ct'} = {}"
  shows "pc_ok cap sz tbl log pt ch ct' p"
proof -
  have "ct' \<le> pos" if "cons_mid log ct ch xs old pos n" "{pos..<pos + unat n} \<inter> {ct..<ct'} = {}" for xs old pos n
  proof (rule ccontr)
    assume "\<not> ct' \<le> pos"
    moreover have "0 < unat n" using that(1) by (simp add: cons_mid_def unat_gt_0)
    ultimately have "pos \<in> {pos..<pos + unat n} \<inter> {ct..<ct'}" using that(1) by (simp add: cons_mid_def)
    then show False using that(2) by simp
  qed
  then show ?thesis using assms by (cases p) (auto simp: cons_mid_def)
qed

lemma pc_ok_tbl:
  assumes "pc_ok cap sz tbl log pt ch ct p" "q \<notin> span_p p" "pt \<le> q" "q < length log" "length log \<le> pt + sz"
  shows "pc_ok cap sz (tbl[q mod sz := v]) log pt ch ct p"
proof -
  have "prod_mid log pt (tbl[q mod sz := v]) sz i objs old pos n"
    if h: "prod_mid log pt tbl sz i objs old pos n" "q \<notin> {pos..<pos + unat n}" for i objs old pos n
  proof -
    have "tbl[q mod sz := v] ! ((pos + j) mod sz) = tbl ! ((pos + j) mod sz)" if "j < i" for j
    proof -
      have "(pos + j) mod sz \<noteq> q mod sz"
        using h that assms(3-5) by (intro slots_differ [of pt]) (auto simp: prod_mid_def)
      then show ?thesis by simp
    qed
    then show ?thesis using h(1) by (simp add: prod_mid_def)
  qed
  then show ?thesis using assms(1,2) by (cases p) auto
qed

section \<open>Every step keeps the invariant\<close>

lemma ring_invD:
  assumes "ring_inv s"
  shows "ring_shape (t_ring s)" "ht_head (r_prod (t_ring s)) = of_nat (length (t_log s))" "ht_tail (r_prod (t_ring s)) = of_nat (t_pt s)"
    "ht_head (r_cons (t_ring s)) = of_nat (t_ch s)" "ht_tail (r_cons (t_ring s)) = of_nat (t_ct s)"
    "t_ct s \<le> t_ch s" "t_ch s \<le> t_pt s" "t_pt s \<le> length (t_log s)" "length (t_log s) \<le> t_ct s + unat (r_capacity (t_ring s))"
    "\<And>p. t_ct s \<le> p \<Longrightarrow> p < t_pt s \<Longrightarrow> r_tbl (t_ring s) ! (p mod unat (r_size (t_ring s))) = t_log s ! p"
    "pc_fits s (t_pc s t)" "t \<noteq> u \<Longrightarrow> span_p (t_pc s t) \<inter> span_p (t_pc s u) = {}" "t \<noteq> u \<Longrightarrow> span_c (t_pc s t) \<inter> span_c (t_pc s u) = {}"
    "length (t_log s) \<le> t_pt s + unat (r_size (t_ring s))" "length (t_log s) < t_ct s + 2 ^ 32"
proof -
  show 1: "ring_shape (t_ring s)" "ht_head (r_prod (t_ring s)) = of_nat (length (t_log s))" "ht_tail (r_prod (t_ring s)) = of_nat (t_pt s)"
    "ht_head (r_cons (t_ring s)) = of_nat (t_ch s)" "ht_tail (r_cons (t_ring s)) = of_nat (t_ct s)"
    "t_ct s \<le> t_ch s" "t_ch s \<le> t_pt s" "t_pt s \<le> length (t_log s)" "length (t_log s) \<le> t_ct s + unat (r_capacity (t_ring s))"
    "\<And>p. t_ct s \<le> p \<Longrightarrow> p < t_pt s \<Longrightarrow> r_tbl (t_ring s) ! (p mod unat (r_size (t_ring s))) = t_log s ! p"
    "pc_fits s (t_pc s t)" "t \<noteq> u \<Longrightarrow> span_p (t_pc s t) \<inter> span_p (t_pc s u) = {}" "t \<noteq> u \<Longrightarrow> span_c (t_pc s t) \<inter> span_c (t_pc s u) = {}"
    using assms unfolding ring_inv_def by blast+
  show "length (t_log s) \<le> t_pt s + unat (r_size (t_ring s))" using 1(6,7,9) index_slot(4) [OF 1(1)] by linarith
  show "length (t_log s) < t_ct s + 2 ^ 32" using 1(9) unat_lt2p [of "r_capacity (t_ring s)"] by simp
qed

text \<open>Only the thread moves on.\<close>

lemma ring_inv_at:
  assumes "ring_inv s" "pc_fits s p" "span_p p \<subseteq> span_p (t_pc s t)" "span_c p \<subseteq> span_c (t_pc s t)"
  shows "ring_inv (at_pc t p s)"
proof -
  have "span_p p \<inter> span_p (t_pc s u) = {} \<and> span_c p \<inter> span_c (t_pc s u) = {}" if "t \<noteq> u" for u
    using ring_invD(12,13) [OF assms(1) that] assms(3,4) by blast
  then show ?thesis using assms(1,2) by (auto simp: ring_inv_def Int_commute)
qed

text \<open>The shared state changes too; the others still fit.\<close>

lemma ring_inv_upd:
  assumes inv: "ring_inv s" and pc: "t_pc s' = (t_pc s)(t := p)"
    and ring: "ring_shape (t_ring s')" "ht_head (r_prod (t_ring s')) = of_nat (length (t_log s'))" "ht_tail (r_prod (t_ring s')) = of_nat (t_pt s')"
      "ht_head (r_cons (t_ring s')) = of_nat (t_ch s')" "ht_tail (r_cons (t_ring s')) = of_nat (t_ct s')"
      "t_ct s' \<le> t_ch s'" "t_ch s' \<le> t_pt s'" "t_pt s' \<le> length (t_log s')" "length (t_log s') \<le> t_ct s' + unat (r_capacity (t_ring s'))"
      "\<And>p. t_ct s' \<le> p \<Longrightarrow> p < t_pt s' \<Longrightarrow> r_tbl (t_ring s') ! (p mod unat (r_size (t_ring s'))) = t_log s' ! p"
    and fits: "pc_fits s' p" "\<And>u. u \<noteq> t \<Longrightarrow> pc_fits s' (t_pc s u)"
    and spans: "\<And>u. u \<noteq> t \<Longrightarrow> span_p p \<inter> span_p (t_pc s u) = {}" "\<And>u. u \<noteq> t \<Longrightarrow> span_c p \<inter> span_c (t_pc s u) = {}"
  shows "ring_inv s'"
proof -
  have "pc_fits s' (t_pc s' u)" for u using fits by (simp add: pc)
  moreover have "span_p (t_pc s' u) \<inter> span_p (t_pc s' v) = {} \<and> span_c (t_pc s' u) \<inter> span_c (t_pc s' v) = {}" if "u \<noteq> v" for u v
    using that spans ring_invD(12,13) [OF inv that] by (auto simp: pc Int_commute)
  ultimately show ?thesis using ring unfolding ring_inv_def by blast
qed

text \<open>Where the spans of others are.\<close>

lemma spans_inside:
  assumes "pc_ok cap sz tbl log pt ch ct p"
  shows "span_p p \<subseteq> {pt..<length log}" "span_c p \<subseteq> {ct..<ch}"
  using assms by (cases p; auto simp: prod_mid_def cons_mid_def)+

lemma move_prod_inv:
  assumes inv: "ring_inv s" and rec: "recent s" and pc: "t_pc s t = PMove objs b old pos n"
    and head: "ht_head (r_prod (t_ring s)) = old"
  shows "ring_inv (at_pc t (PCopy objs old (length (t_log s)) n 0)
     (s\<lparr>t_ring := prod_head_set (old + n) (t_ring s), t_log := t_log s @ take (unat n) objs\<rparr>))" (is "ring_inv ?s")
proof (rule ring_inv_upd [OF inv])
  note d = ring_invD [OF inv]
  have o: "length objs < 2 ^ 32" "old = of_nat pos" "pos \<le> length (t_log s)" "n \<noteq> 0" "unat n \<le> length objs"
      "pos < length (t_log s) \<or> pos + unat n \<le> t_ct s + unat (r_capacity (t_ring s))" "length (t_log s) < pos + 2 ^ 32"
    using d(11) [of t] rec [unfolded recent_def, rule_format, of t] by (simp_all add: pc)
  have pos: "pos = length (t_log s)" using o(2,3,7) head d(2) by (intro of_nat_close) simp_all
  show "t_pc ?s = (t_pc s)(t := PCopy objs old (length (t_log s)) n 0)" by simp
  show "ht_head (r_prod (t_ring ?s)) = of_nat (length (t_log ?s))" using o(2,5) pos by simp
  show "length (t_log ?s) \<le> t_ct ?s + unat (r_capacity (t_ring ?s))" using o(5,6) pos by simp
  show "ring_shape (t_ring ?s)" "ht_tail (r_prod (t_ring ?s)) = of_nat (t_pt ?s)" "ht_head (r_cons (t_ring ?s)) = of_nat (t_ch ?s)"
    "ht_tail (r_cons (t_ring ?s)) = of_nat (t_ct ?s)" "t_ct ?s \<le> t_ch ?s" "t_ch ?s \<le> t_pt ?s" "t_pt ?s \<le> length (t_log ?s)"
    using d(1,3-8) by simp_all
  show "r_tbl (t_ring ?s) ! (p mod unat (r_size (t_ring ?s))) = t_log ?s ! p" if "t_ct ?s \<le> p" "p < t_pt ?s" for p
    using that d(8) d(10) [of p] by (simp add: nth_append)
  show "pc_fits ?s (PCopy objs old (length (t_log s)) n 0)" using o(2,4,5) pos d(8) by (simp add: prod_mid_def seg_def)
  show "pc_fits ?s (t_pc s u)" for u using pc_ok_log [OF d(11) [of u]] d(7,8) by simp
  show "span_p (PCopy objs old (length (t_log s)) n 0) \<inter> span_p (t_pc s u) = {}" for u
    using spans_inside(1) [OF d(11) [of u]] by auto
  show "span_c (PCopy objs old (length (t_log s)) n 0) \<inter> span_c (t_pc s u) = {}" for u by simp
qed

lemma copy_in_inv:
  assumes inv: "ring_inv s" and pc: "t_pc s t = PCopy objs old pos n i" and i: "i < unat n"
  shows "\<exists>tbl. tbl_put (r_tbl (t_ring s)) ((old + of_nat i) AND r_mask (t_ring s)) objs (of_nat i) = Some tbl \<and>
     ring_inv (at_pc t (PCopy objs old pos n (Suc i)) (s\<lparr>t_ring := (t_ring s)\<lparr>r_tbl := tbl\<rparr>\<rparr>))"
proof -
  note d = ring_invD [OF inv]
  let ?sz = "unat (r_size (t_ring s))"
  have m: "prod_mid (t_log s) (t_pt s) (r_tbl (t_ring s)) ?sz i objs old pos n" using d(11) [of t] by (simp add: pc)
  then have o: "old = of_nat pos" "unat n \<le> length objs" "t_pt s \<le> pos" "pos + unat n \<le> length (t_log s)"
      "take (unat n) objs = seg (t_log s) pos (unat n)" "\<forall>j < i. r_tbl (t_ring s) ! ((pos + j) mod ?sz) = objs ! j"
    by (simp_all add: prod_mid_def)
  note k = index_slot [OF d(1)]
  have slot: "(pos + i) mod ?sz < length (r_tbl (t_ring s))" using k(2) d(1) by (auto simp: ring_shape_def intro: less_le_trans [OF mod_less_divisor])
  have ui: "unat (of_nat i :: u32) = i" using i unat_lt2p [of n] by (simp add: unsigned_of_nat take_bit_nat_eq_self)
  let ?tbl = "(r_tbl (t_ring s))[(pos + i) mod ?sz := objs ! i]"
  let ?s = "at_pc t (PCopy objs old pos n (Suc i)) (s\<lparr>t_ring := (t_ring s)\<lparr>r_tbl := ?tbl\<rparr>\<rparr>)"
  have put: "tbl_put (r_tbl (t_ring s)) ((old + of_nat i) AND r_mask (t_ring s)) objs (of_nat i) = Some ?tbl"
    using slot i o(1,2) by (simp add: tbl_put_def k(1) ui)
  have q: "t_pt s \<le> pos + i" "pos + i < length (t_log s)" using o(3,4) i by simp_all
  have "ring_inv ?s"
  proof (rule ring_inv_upd [OF inv])
    show "t_pc ?s = (t_pc s)(t := PCopy objs old pos n (Suc i))" by simp
    show "ring_shape (t_ring ?s)" using d(1) by simp
    show "ht_head (r_prod (t_ring ?s)) = of_nat (length (t_log ?s))" "ht_tail (r_prod (t_ring ?s)) = of_nat (t_pt ?s)"
      "ht_head (r_cons (t_ring ?s)) = of_nat (t_ch ?s)" "ht_tail (r_cons (t_ring ?s)) = of_nat (t_ct ?s)"
      "t_ct ?s \<le> t_ch ?s" "t_ch ?s \<le> t_pt ?s" "t_pt ?s \<le> length (t_log ?s)" "length (t_log ?s) \<le> t_ct ?s + unat (r_capacity (t_ring ?s))"
      using d(2-9) by simp_all
    show "r_tbl (t_ring ?s) ! (p mod unat (r_size (t_ring ?s))) = t_log ?s ! p" if "t_ct ?s \<le> p" "p < t_pt ?s" for p
    proof -
      have "p mod ?sz \<noteq> (pos + i) mod ?sz"
        using that q d(9) k(4) by (intro slots_differ [of "t_ct s"]) simp_all
      then show ?thesis using that d(10) [of p] by simp
    qed
    have "?tbl ! ((pos + j) mod ?sz) = objs ! j" if "j < Suc i" for j
    proof (cases "j = i")
      case True
      then show ?thesis using slot by simp
    next
      case False
      then have "(pos + j) mod ?sz \<noteq> (pos + i) mod ?sz"
        using that o(3,4) i d(14) by (intro slots_differ [of "t_pt s"]) simp_all
      then show ?thesis using o(6) that False by simp
    qed
    then show "pc_fits ?s (PCopy objs old pos n (Suc i))" using m i by (simp add: prod_mid_def)
    show "pc_fits ?s (t_pc s u)" if "u \<noteq> t" for u
    proof -
      have "pos + i \<in> span_p (t_pc s t)" using i by (simp add: pc)
      then have "pos + i \<notin> span_p (t_pc s u)" using d(12) [of t u] that by blast
      then show ?thesis using pc_ok_tbl [OF d(11) [of u] _ q d(14)] by simp
    qed
    show "span_p (PCopy objs old pos n (Suc i)) \<inter> span_p (t_pc s u) = {}" if "u \<noteq> t" for u using d(12) [of t u] that by (simp add: pc)
    show "span_c (PCopy objs old pos n (Suc i)) \<inter> span_c (t_pc s u) = {}" for u by simp
  qed
  then show ?thesis using put by blast
qed

lemma publish_prod_inv:
  assumes inv: "ring_inv s" and pc: "t_pc s t = PWait objs old pos n" and tail: "ht_tail (r_prod (t_ring s)) = old"
  shows "pos = t_pt s" "ring_inv (at_pc t (PRet n)
     (s\<lparr>t_ring := prod_tail_set (old + n) (t_ring s), t_pt := pos + unat n, t_ops := ops\<rparr>))" (is "ring_inv ?s")
proof -
  note d = ring_invD [OF inv]
  let ?sz = "unat (r_size (t_ring s))"
  have m: "prod_mid (t_log s) (t_pt s) (r_tbl (t_ring s)) ?sz (unat n) objs old pos n" using d(11) [of t] by (simp add: pc)
  then have o: "old = of_nat pos" "unat n \<le> length objs" "t_pt s \<le> pos" "pos + unat n \<le> length (t_log s)"
      "take (unat n) objs = seg (t_log s) pos (unat n)" "\<forall>j < unat n. r_tbl (t_ring s) ! ((pos + j) mod ?sz) = objs ! j"
    by (simp_all add: prod_mid_def)
  have "t_pt s = pos"
    using tail d(3) o(1,3,4) d(6,7,15) by (intro of_nat_close) simp_all
  then show pos: "pos = t_pt s" by simp
  show "ring_inv ?s"
  proof (rule ring_inv_upd [OF inv])
    show "t_pc ?s = (t_pc s)(t := PRet n)" by simp
    show "ht_tail (r_prod (t_ring ?s)) = of_nat (t_pt ?s)" using o(1) by simp
    show "t_pt ?s \<le> length (t_log ?s)" using o(4) by simp
    show "t_ch ?s \<le> t_pt ?s" using pos d(7) by simp
    show "ring_shape (t_ring ?s)" "ht_head (r_prod (t_ring ?s)) = of_nat (length (t_log ?s))"
      "ht_head (r_cons (t_ring ?s)) = of_nat (t_ch ?s)" "ht_tail (r_cons (t_ring ?s)) = of_nat (t_ct ?s)"
      "t_ct ?s \<le> t_ch ?s" "length (t_log ?s) \<le> t_ct ?s + unat (r_capacity (t_ring ?s))"
      using d(1,2,4-6,9) by simp_all
    show "r_tbl (t_ring ?s) ! (p mod unat (r_size (t_ring ?s))) = t_log ?s ! p" if "t_ct ?s \<le> p" "p < t_pt ?s" for p
    proof (cases "p < t_pt s")
      case True
      then show ?thesis using that d(10) [of p] by simp
    next
      case False
      then have j: "p - pos < unat n" "p = pos + (p - pos)" using that pos by simp_all
      have "objs ! (p - pos) = seg (t_log s) pos (unat n) ! (p - pos)" using j(1) o(5) by (metis nth_take)
      also have "\<dots> = t_log s ! p" using j o(4) by (metis seg_nth)
      finally have "objs ! (p - pos) = t_log s ! p" .
      moreover have "r_tbl (t_ring s) ! ((pos + (p - pos)) mod ?sz) = objs ! (p - pos)" using o(6) j(1) by blast
      ultimately show ?thesis using j(2) by simp
    qed
    show "pc_fits ?s (PRet n)" by simp
    show "pc_fits ?s (t_pc s u)" if "u \<noteq> t" for u
    proof -
      have "span_p (t_pc s u) \<inter> {t_pt s..<pos + unat n} = {}" using d(12) [of t u] that pos by (auto simp: pc)
      then show ?thesis using pc_ok_pt [OF d(11) [of u], of "pos + unat n"] pos by simp
    qed
  qed simp_all
qed

lemma move_cons_inv:
  assumes inv: "ring_inv s" and rec: "recent s" and pc: "t_pc s t = CMove n0 b old pos n"
    and head: "ht_head (r_cons (t_ring s)) = old"
  shows "t_ch s + unat n \<le> t_pt s" "ring_inv (at_pc t (CCopy old (t_ch s) n [])
     (s\<lparr>t_ring := cons_head_set (old + n) (t_ring s), t_ch := t_ch s + unat n, t_ops := ops\<rparr>))" (is "ring_inv ?s")
proof -
  note d = ring_invD [OF inv]
  have o: "old = of_nat pos" "pos \<le> t_ch s" "n \<noteq> 0" "pos + unat n \<le> t_pt s" "t_ch s < pos + 2 ^ 32"
    using d(11) [of t] rec [unfolded recent_def, rule_format, of t] by (simp_all add: pc)
  have pos: "pos = t_ch s" using o(1,2,5) head d(4) by (intro of_nat_close) simp_all
  then show le: "t_ch s + unat n \<le> t_pt s" using o(4) by simp
  show "ring_inv ?s"
  proof (rule ring_inv_upd [OF inv])
    show "t_pc ?s = (t_pc s)(t := CCopy old (t_ch s) n [])" by simp
    show "ht_head (r_cons (t_ring ?s)) = of_nat (t_ch ?s)" using o(1) pos by simp
    show "t_ch ?s \<le> t_pt ?s" using le by simp
    show "t_ct ?s \<le> t_ch ?s" using d(6) by simp
    show "ring_shape (t_ring ?s)" "ht_head (r_prod (t_ring ?s)) = of_nat (length (t_log ?s))" "ht_tail (r_prod (t_ring ?s)) = of_nat (t_pt ?s)"
      "ht_tail (r_cons (t_ring ?s)) = of_nat (t_ct ?s)" "t_pt ?s \<le> length (t_log ?s)" "length (t_log ?s) \<le> t_ct ?s + unat (r_capacity (t_ring ?s))"
      using d(1-3,5,8,9) by simp_all
    show "r_tbl (t_ring ?s) ! (p mod unat (r_size (t_ring ?s))) = t_log ?s ! p" if "t_ct ?s \<le> p" "p < t_pt ?s" for p
      using that d(10) [of p] by simp
    show "pc_fits ?s (CCopy old (t_ch s) n [])" using o(1,3) pos d(6) by (simp add: cons_mid_def seg_def)
    show "pc_fits ?s (t_pc s u)" for u using pc_ok_ch [OF d(11) [of u], of "t_ch s + unat n"] by simp
    show "span_c (CCopy old (t_ch s) n []) \<inter> span_c (t_pc s u) = {}" for u
      using spans_inside(2) [OF d(11) [of u]] by auto
  qed simp_all
qed

lemma copy_out_inv:
  assumes inv: "ring_inv s" and pc: "t_pc s t = CCopy old pos n xs" and i: "length xs < unat n"
    and idx: "idx = unat ((old + of_nat (length xs)) AND r_mask (t_ring s))"
  shows "idx < length (r_tbl (t_ring s))" "ring_inv (at_pc t (CCopy old pos n (xs @ [r_tbl (t_ring s) ! idx])) s)"
proof -
  note d = ring_invD [OF inv]
  have m: "cons_mid (t_log s) (t_ct s) (t_ch s) xs old pos n" using d(11) [of t] by (simp add: pc)
  then have o: "old = of_nat pos" "t_ct s \<le> pos" "pos + unat n \<le> t_ch s" "xs = seg (t_log s) pos (length xs)"
    by (simp_all add: cons_mid_def)
  note k = index_slot [OF d(1)]
  have ix: "idx = (pos + length xs) mod unat (r_size (t_ring s))" unfolding idx o(1) by (rule k(1))
  show "idx < length (r_tbl (t_ring s))" unfolding ix using k(2) d(1)
    by (auto simp: ring_shape_def intro: less_le_trans [OF mod_less_divisor])
  have b: "pos + length xs < length (t_log s)" using o(3) i d(7,8) by simp
  have "r_tbl (t_ring s) ! idx = t_log s ! (pos + length xs)" unfolding ix using d(7,10) o(2,3) i by simp
  then have "xs @ [r_tbl (t_ring s) ! idx] = seg (t_log s) pos (length xs) @ [t_log s ! (pos + length xs)]" using o(4) by simp
  also have "\<dots> = seg (t_log s) pos (Suc (length xs))" using b by (simp add: seg_def take_Suc_conv_app_nth)
  finally have e: "xs @ [r_tbl (t_ring s) ! idx] = seg (t_log s) pos (Suc (length xs))" .
  have "length (seg (t_log s) pos (Suc (length xs))) = Suc (length xs)" using b by (intro seg_length) simp
  then have "pc_fits s (CCopy old pos n (xs @ [r_tbl (t_ring s) ! idx]))" using m i unfolding e by (simp add: cons_mid_def)
  then show "ring_inv (at_pc t (CCopy old pos n (xs @ [r_tbl (t_ring s) ! idx])) s)" by (intro ring_inv_at [OF inv]) (simp_all add: pc)
qed

lemma publish_cons_inv:
  assumes inv: "ring_inv s" and pc: "t_pc s t = CWait old pos n xs" and tail: "ht_tail (r_cons (t_ring s)) = old"
  shows "ring_inv (at_pc t (CRet pos xs) (s\<lparr>t_ring := cons_tail_set (old + n) (t_ring s), t_ct := pos + unat n\<rparr>))" (is "ring_inv ?s")
proof -
  note d = ring_invD [OF inv]
  have m: "cons_mid (t_log s) (t_ct s) (t_ch s) xs old pos n" "length xs = unat n" using d(11) [of t] by (simp_all add: pc)
  then have o: "old = of_nat pos" "t_ct s \<le> pos" "pos + unat n \<le> t_ch s" "xs = seg (t_log s) pos (length xs)"
    by (simp_all add: cons_mid_def)
  have "t_ct s = pos" using tail d(5) o(1-3) d(7,8,15) by (intro of_nat_close) simp_all
  then have pos: "pos = t_ct s" by simp
  show ?thesis
  proof (rule ring_inv_upd [OF inv])
    show "t_pc ?s = (t_pc s)(t := CRet pos xs)" by simp
    show "ht_tail (r_cons (t_ring ?s)) = of_nat (t_ct ?s)" using o(1) by simp
    show "t_ct ?s \<le> t_ch ?s" using o(3) by simp
    show "length (t_log ?s) \<le> t_ct ?s + unat (r_capacity (t_ring ?s))" using d(9) pos by simp
    show "ring_shape (t_ring ?s)" "ht_head (r_prod (t_ring ?s)) = of_nat (length (t_log ?s))" "ht_tail (r_prod (t_ring ?s)) = of_nat (t_pt ?s)"
      "ht_head (r_cons (t_ring ?s)) = of_nat (t_ch ?s)" "t_ch ?s \<le> t_pt ?s" "t_pt ?s \<le> length (t_log ?s)"
      using d(1-4,7,8) by simp_all
    show "r_tbl (t_ring ?s) ! (p mod unat (r_size (t_ring ?s))) = t_log ?s ! p" if "t_ct ?s \<le> p" "p < t_pt ?s" for p
      using that d(10) [of p] pos by simp
    show "pc_fits ?s (CRet pos xs)" using o(3,4) m(2) by simp
    show "pc_fits ?s (t_pc s u)" if "u \<noteq> t" for u
    proof -
      have "span_c (t_pc s u) \<inter> {t_ct s..<pos + unat n} = {}" using d(13) [of t u] that pos by (auto simp: pc)
      then show ?thesis using pc_ok_ct [OF d(11) [of u], of "pos + unat n"] pos by simp
    qed
  qed simp_all
qed

lemma p_tail_fits:
  assumes inv: "ring_inv s" and pc: "t_pc s t = PTail objs b old pos"
    and n: "n = burst_size (of_nat (length objs)) (r_capacity (t_ring s) + ht_tail (r_cons (t_ring s)) - old) b" "n \<noteq> 0"
  shows "pc_fits s (PMove objs b old pos n)"
proof -
  note d = ring_invD [OF inv]
  have o: "length objs < 2 ^ 32" "old = of_nat pos" "pos \<le> length (t_log s)" using d(11) [of t] by (simp_all add: pc)
  let ?free = "r_capacity (t_ring s) + ht_tail (r_cons (t_ring s)) - old"
  have le: "n \<le> of_nat (length objs)" "n \<le> ?free" using n by (auto simp: burst_size_def split: if_splits)
  have "unat (of_nat (length objs) :: u32) = length objs" using o(1) by (simp add: unsigned_of_nat take_bit_nat_eq_self)
  then have len: "unat n \<le> length objs" using le(1) by (simp add: word_le_nat_alt)
  have "pos + unat n \<le> t_ct s + unat (r_capacity (t_ring s))" if "\<not> pos < length (t_log s)"
  proof -
    let ?cap = "unat (r_capacity (t_ring s))"
    have p: "pos = length (t_log s)" using that o(3) by simp
    have b: "t_ct s \<le> pos" "pos \<le> t_ct s + ?cap" using p d(6-9) by simp_all
    have "?free = of_nat (?cap + t_ct s - pos)" using b o(2) d(5) by (simp add: of_nat_diff)
    moreover have "?cap + t_ct s - pos < 2 ^ 32" using b(1) unat_lt2p [of "r_capacity (t_ring s)"] by simp
    ultimately have "unat ?free = ?cap + t_ct s - pos" by (simp add: unsigned_of_nat take_bit_nat_eq_self del: of_nat_add)
    then show ?thesis using le(2) b by (simp add: word_le_nat_alt)
  qed
  then show ?thesis using o n(2) len by (cases "pos < length (t_log s)") simp_all
qed

lemma c_tail_fits:
  assumes inv: "ring_inv s" and pc: "t_pc s t = CTail n0 b old pos"
    and n: "n = burst_size n0 (ht_tail (r_prod (t_ring s)) - old) b" "n \<noteq> 0"
  shows "pc_fits s (CMove n0 b old pos n)"
proof -
  note d = ring_invD [OF inv]
  have o: "old = of_nat pos" "pos \<le> t_ch s" using d(11) [of t] by (simp_all add: pc)
  have "n \<le> of_nat (t_pt s) - of_nat pos" using n o(1) d(3) by (auto simp: burst_size_def split: if_splits)
  then have "unat n \<le> t_pt s - pos" using unat_diff_le [of pos "t_pt s"] o(2) d(7) by (simp add: word_le_nat_alt)
  then show ?thesis using o n(2) d(7) by simp
qed

lemma ring_enq_step_inv:
  assumes "ring_enq_step t s s'" "ring_inv s" "recent s"
  shows "ring_inv s'"
  using assms
proof (cases rule: ring_enq_step.cases)
  case (p_call objs behavior)
  then show ?thesis using assms(2) by (simp add: ring_inv_at)
next
  case (p_head objs behavior)
  then show ?thesis using ring_invD(2) [OF assms(2)] ring_invD(11) [OF assms(2), of t] by (simp add: ring_inv_at [OF assms(2)])
next
  case (p_tail objs behavior old pos n)
  then show ?thesis using p_tail_fits [OF assms(2) p_tail(2,3)] by (auto intro!: ring_inv_at [OF assms(2)])
next
  case (p_move objs behavior old pos n success h)
  show ?thesis
  proof (cases success)
    case True
    then have h: "ht_head (r_prod (t_ring s)) = old" "h = old + n" using p_move(3) by (auto simp: rte_atomic32_cmpset_def split: if_splits)
    show ?thesis using move_prod_inv [OF assms(2,3) p_move(2) h(1)] p_move(1) True h(2) by simp
  next
    case False
    have "length objs < 2 ^ 32" using ring_invD(11) [OF assms(2), of t] p_move(2) by simp
    then show ?thesis using p_move(1) False by (auto intro!: ring_inv_at [OF assms(2)])
  qed
next
  case (p_copy objs old pos n i)
  then show ?thesis using copy_in_inv [OF assms(2) p_copy(2,3)] by auto
next
  case (p_copied objs old pos n i)
  then show ?thesis using ring_invD(11) [OF assms(2), of t] by (auto intro!: ring_inv_at [OF assms(2)])
next
  case (p_publish objs old pos n)
  then show ?thesis using publish_prod_inv(2) [OF assms(2) p_publish(2,3)] by simp
next
  case (p_ret n)
  then show ?thesis using assms(2) by (simp add: ring_inv_at)
qed

lemma ring_deq_step_inv:
  assumes "ring_deq_step t s s'" "ring_inv s" "recent s"
  shows "ring_inv s'"
  using assms
proof (cases rule: ring_deq_step.cases)
  case (c_call n behavior)
  then show ?thesis using assms(2) by (simp add: ring_inv_at)
next
  case (c_head n0 behavior)
  then show ?thesis using ring_invD(4) [OF assms(2)] by (simp add: ring_inv_at [OF assms(2)])
next
  case (c_tail n0 behavior old pos n)
  have "pos \<le> t_ch s" using ring_invD(11) [OF assms(2), of t] c_tail(2) by simp
  then show ?thesis using c_tail c_tail_fits [OF assms(2) c_tail(2,3)] by (auto simp: seg_def intro!: ring_inv_at [OF assms(2)])
next
  case (c_move n0 behavior old pos n success h)
  show ?thesis
  proof (cases success)
    case True
    then have h: "ht_head (r_cons (t_ring s)) = old" "h = old + n" using c_move(3) by (auto simp: rte_atomic32_cmpset_def split: if_splits)
    show ?thesis using move_cons_inv(2) [OF assms(2,3) c_move(2) h(1)] c_move(1) True h(2) by simp
  next
    case False
    then show ?thesis using c_move(1) by (auto intro!: ring_inv_at [OF assms(2)])
  qed
next
  case (c_copy old pos n xs idx)
  then show ?thesis using copy_out_inv [OF assms(2) c_copy(2-4)] by simp
next
  case (c_copied old pos n xs)
  then show ?thesis using ring_invD(11) [OF assms(2), of t] by (auto intro!: ring_inv_at [OF assms(2)])
next
  case (c_publish old pos n xs)
  then show ?thesis using publish_cons_inv [OF assms(2) c_publish(2,3)] by simp
next
  case (c_ret pos xs)
  then show ?thesis using assms(2) by (simp add: ring_inv_at)
qed

lemma ring_step_inv: "ring_step s s' \<Longrightarrow> ring_inv s \<Longrightarrow> recent s \<Longrightarrow> ring_inv s'"
  unfolding ring_step_def using ring_enq_step_inv ring_deq_step_inv by blast

section \<open>The effects are those of a queue\<close>

text \<open>What a new call could take.\<close>

definition visible :: "'o ring_threads \<Rightarrow> 'o list" where
  "visible s = seg (t_log s) (t_ch s) (t_pt s - t_ch s)"

fun result_ok :: "nat \<Rightarrow> 'o queue_op list \<Rightarrow> 'o list \<Rightarrow> 'o ring_pc \<Rightarrow> bool" where
  "result_ok t ops log (CCopy old pos n xs) = (last_op t ops = Some (Deq t (seg log pos (unat n))))"
| "result_ok t ops log (CWait old pos n xs) = (last_op t ops = Some (Deq t (seg log pos (unat n))))"
| "result_ok t ops log (CRet pos xs) = (xs = [] \<or> last_op t ops = Some (Deq t xs))"
| "result_ok t ops log (PRet n) = (n = 0 \<or> (\<exists>xs. length xs = unat n \<and> last_op t ops = Some (Enq t xs)))"
| "result_ok t ops log p = True"

definition effects_ok :: "'o list \<Rightarrow> 'o ring_threads \<Rightarrow> bool" where
  "effects_ok q s \<longleftrightarrow> queue_run (unat (r_capacity (t_ring s))) q (t_ops s) = Some (visible s) \<and>
     (\<forall>t. result_ok t (t_ops s) (t_log s) (t_pc s t)) \<and>
     {t_pt s..<length (t_log s)} \<subseteq> (\<Union>t. span_p (t_pc s t)) \<and> {t_ct s..<t_ch s} \<subseteq> (\<Union>t. span_c (t_pc s t))"

lemma queue_run_snoc:
  "queue_run cap q (ops @ [op]) = (case queue_run cap q ops of None \<Rightarrow> None | Some q \<Rightarrow> queue_run cap q [op])"
  by (induction cap q ops rule: queue_run.induct) auto

lemma last_op_snoc [simp]: "last_op t (ops @ [op]) = (if op_thread op = t then Some op else last_op t ops)"
  by (simp add: last_op_def)

lemma result_ok_other: "result_ok u ops log p \<Longrightarrow> op_thread op \<noteq> u \<Longrightarrow> result_ok u (ops @ [op]) log p"
  by (cases p) auto

lemma result_ok_log:
  "result_ok t ops log p \<Longrightarrow> pc_ok cap sz tbl log pt ch ct p \<Longrightarrow> ch \<le> length log \<Longrightarrow> result_ok t ops (log @ xs) p"
  by (cases p) (auto simp: cons_mid_def seg_append)

lemma UN_upd:
  assumes X: "X \<subseteq> (\<Union>u. f (g u))" and new: "\<And>x. x \<in> X' \<Longrightarrow> x \<in> X \<and> x \<notin> f (g t) \<or> x \<in> f p"
  shows "X' \<subseteq> (\<Union>u. f ((g(t := p)) u))"
proof
  fix x assume "x \<in> X'"
  then consider "x \<in> X" "x \<notin> f (g t)" | "x \<in> f p" using new by blast
  then show "x \<in> (\<Union>u. f ((g(t := p)) u))"
  proof cases
    case 1
    then obtain u where "x \<in> f (g u)" using X by blast
    then show ?thesis using 1(2) by (intro UN_I [of u]) auto
  next
    case 2
    then show ?thesis by (intro UN_I [of t]) simp_all
  qed
qed

lemma effects_at:
  assumes "effects_ok q s" "result_ok t (t_ops s) (t_log s) p" "span_p p = span_p (t_pc s t)" "span_c p = span_c (t_pc s t)"
  shows "effects_ok q (at_pc t p s)"
proof -
  have "visible (at_pc t p s) = visible s" by (simp add: visible_def)
  moreover have "{t_pt s..<length (t_log s)} \<subseteq> (\<Union>u. span_p (((t_pc s)(t := p)) u))"
    using assms(1) by (intro UN_upd [of "{t_pt s..<length (t_log s)}"]) (simp_all add: effects_ok_def assms(3))
  moreover have "{t_ct s..<t_ch s} \<subseteq> (\<Union>u. span_c (((t_pc s)(t := p)) u))"
    using assms(1) by (intro UN_upd [of "{t_ct s..<t_ch s}"]) (simp_all add: effects_ok_def assms(4))
  ultimately show ?thesis using assms(1,2) unfolding effects_ok_def by simp
qed

lemma effects_upd:
  assumes eff: "effects_ok q s" and pc: "t_pc s' = (t_pc s)(t := p)"
    and run: "queue_run (unat (r_capacity (t_ring s'))) q (t_ops s') = Some (visible s')"
    and res: "result_ok t (t_ops s') (t_log s') p" "\<And>u. u \<noteq> t \<Longrightarrow> result_ok u (t_ops s') (t_log s') (t_pc s u)"
    and cov: "\<And>x. t_pt s' \<le> x \<Longrightarrow> x < length (t_log s') \<Longrightarrow> t_pt s \<le> x \<and> x < length (t_log s) \<and> x \<notin> span_p (t_pc s t) \<or> x \<in> span_p p"
      "\<And>x. t_ct s' \<le> x \<Longrightarrow> x < t_ch s' \<Longrightarrow> t_ct s \<le> x \<and> x < t_ch s \<and> x \<notin> span_c (t_pc s t) \<or> x \<in> span_c p"
  shows "effects_ok q s'"
proof -
  have "result_ok u (t_ops s') (t_log s') (t_pc s' u)" for u using res by (simp add: pc)
  moreover have "{t_pt s'..<length (t_log s')} \<subseteq> (\<Union>u. span_p (t_pc s' u))" unfolding pc
    using eff cov(1) by (intro UN_upd [of "{t_pt s..<length (t_log s)}"]) (simp_all add: effects_ok_def)
  moreover have "{t_ct s'..<t_ch s'} \<subseteq> (\<Union>u. span_c (t_pc s' u))" unfolding pc
    using eff cov(2) by (intro UN_upd [of "{t_ct s..<t_ch s}"]) (simp_all add: effects_ok_def)
  ultimately show ?thesis using run unfolding effects_ok_def by blast
qed

lemma effects_keep:
  assumes "effects_ok q s" "t_pc s' = (t_pc s)(t := p)" "t_ops s' = t_ops s" "t_log s' = t_log s" "t_pt s' = t_pt s" "t_ch s' = t_ch s"
    "t_ct s' = t_ct s" "r_capacity (t_ring s') = r_capacity (t_ring s)" "result_ok t (t_ops s) (t_log s) p"
    "span_p p = span_p (t_pc s t)" "span_c p = span_c (t_pc s t)"
  shows "effects_ok q s'"
  using effects_at [OF assms(1,9-11)] assms(2-8) by (simp add: effects_ok_def visible_def)

lemma seg_split: "a \<le> b \<Longrightarrow> b \<le> c \<Longrightarrow> seg xs a (c - a) = seg xs a (b - a) @ seg xs b (c - b)"
proof -
  assume h: "a \<le> b" "b \<le> c"
  have "take (c - a) (drop a xs) = take (b - a) (drop a xs) @ take ((c - a) - (b - a)) (drop (b - a) (drop a xs))"
    using h by (metis diff_le_mono le_add_diff_inverse take_add)
  then show ?thesis using h by (simp add: seg_def)
qed

lemma move_prod_effects:
  assumes inv: "ring_inv s" and eff: "effects_ok q s" and pc: "t_pc s t = PMove objs b old pos n" and n: "unat n \<le> length objs"
  shows "effects_ok q (at_pc t (PCopy objs old (length (t_log s)) n 0)
     (s\<lparr>t_ring := prod_head_set (old + n) (t_ring s), t_log := t_log s @ take (unat n) objs\<rparr>))" (is "effects_ok q ?s")
proof (rule effects_upd [OF eff])
  note d = ring_invD [OF inv]
  have e: "queue_run (unat (r_capacity (t_ring s))) q (t_ops s) = Some (visible s)" "\<And>u. result_ok u (t_ops s) (t_log s) (t_pc s u)"
    using eff by (simp_all add: effects_ok_def)
  show "t_pc ?s = (t_pc s)(t := PCopy objs old (length (t_log s)) n 0)" by simp
  show "queue_run (unat (r_capacity (t_ring ?s))) q (t_ops ?s) = Some (visible ?s)"
    using e(1) d(7,8) by (simp add: visible_def seg_append)
  show "result_ok u (t_ops ?s) (t_log ?s) (t_pc s u)" for u
    using result_ok_log [OF e(2) [of u] d(11) [of u]] d(7,8) by simp
  show "t_pt s \<le> x \<and> x < length (t_log s) \<and> x \<notin> span_p (t_pc s t) \<or> x \<in> span_p (PCopy objs old (length (t_log s)) n 0)"
    if "t_pt ?s \<le> x" "x < length (t_log ?s)" for x using that n by (auto simp: pc)
  show "t_ct s \<le> x \<and> x < t_ch s \<and> x \<notin> span_c (t_pc s t) \<or> x \<in> span_c (PCopy objs old (length (t_log s)) n 0)"
    if "t_ct ?s \<le> x" "x < t_ch ?s" for x using that by (simp add: pc)
qed simp_all

lemma publish_prod_effects:
  assumes inv: "ring_inv s" and eff: "effects_ok q s" and pc: "t_pc s t = PWait objs old pos n" and tail: "ht_tail (r_prod (t_ring s)) = old"
  shows "effects_ok q (at_pc t (PRet n) (s\<lparr>t_ring := prod_tail_set (old + n) (t_ring s), t_pt := pos + unat n,
     t_ops := t_ops s @ [Enq t (take (unat n) objs)]\<rparr>))" (is "effects_ok q ?s")
proof (rule effects_upd [OF eff])
  note d = ring_invD [OF inv]
  have pos: "pos = t_pt s" by (rule publish_prod_inv(1) [OF inv pc tail])
  have e: "queue_run (unat (r_capacity (t_ring s))) q (t_ops s) = Some (visible s)" "\<And>u. result_ok u (t_ops s) (t_log s) (t_pc s u)"
    using eff by (simp_all add: effects_ok_def)
  have o: "unat n \<le> length objs" "pos + unat n \<le> length (t_log s)" "take (unat n) objs = seg (t_log s) pos (unat n)"
    using d(11) [of t] by (simp_all add: pc prod_mid_def)
  show "t_pc ?s = (t_pc s)(t := PRet n)" by simp
  have "visible ?s = visible s @ take (unat n) objs"
    using seg_split [of "t_ch s" "t_pt s" "pos + unat n" "t_log s"] d(7) pos o(3) by (simp add: visible_def)
  moreover have "length (visible s) = t_pt s - t_ch s" unfolding visible_def using d(7,8) by (intro seg_length) simp
  ultimately show "queue_run (unat (r_capacity (t_ring ?s))) q (t_ops ?s) = Some (visible ?s)"
    using e(1) o(1,2) pos d(6,7,9) by (simp add: queue_run_snoc)
  show "result_ok u (t_ops ?s) (t_log ?s) (t_pc s u)" if "u \<noteq> t" for u
    using result_ok_other [OF e(2) [of u], of "Enq t (take (unat n) objs)"] that by simp
  show "result_ok t (t_ops ?s) (t_log ?s) (PRet n)" using o(1) by simp
  show "t_pt s \<le> x \<and> x < length (t_log s) \<and> x \<notin> span_p (t_pc s t) \<or> x \<in> span_p (PRet n)"
    if "t_pt ?s \<le> x" "x < length (t_log ?s)" for x using that pos by (simp add: pc)
  show "t_ct s \<le> x \<and> x < t_ch s \<and> x \<notin> span_c (t_pc s t) \<or> x \<in> span_c (PRet n)"
    if "t_ct ?s \<le> x" "x < t_ch ?s" for x using that by (simp add: pc)
qed

lemma move_cons_effects:
  assumes inv: "ring_inv s" and eff: "effects_ok q s" and pc: "t_pc s t = CMove n0 b old pos n" and le: "t_ch s + unat n \<le> t_pt s"
  shows "effects_ok q (at_pc t (CCopy old (t_ch s) n []) (s\<lparr>t_ring := cons_head_set (old + n) (t_ring s), t_ch := t_ch s + unat n,
     t_ops := t_ops s @ [Deq t (take (unat n) (drop (t_ch s) (t_log s)))]\<rparr>))" (is "effects_ok q ?s")
proof (rule effects_upd [OF eff])
  note d = ring_invD [OF inv]
  have e: "queue_run (unat (r_capacity (t_ring s))) q (t_ops s) = Some (visible s)" "\<And>u. result_ok u (t_ops s) (t_log s) (t_pc s u)"
    using eff by (simp_all add: effects_ok_def)
  let ?xs = "take (unat n) (drop (t_ch s) (t_log s))"
  show "t_pc ?s = (t_pc s)(t := CCopy old (t_ch s) n [])" by simp
  have "visible s = ?xs @ visible ?s"
    using seg_split [of "t_ch s" "t_ch s + unat n" "t_pt s" "t_log s"] le by (simp add: visible_def seg_def)
  moreover have "length ?xs = unat n" using le d(8) by simp
  ultimately show "queue_run (unat (r_capacity (t_ring ?s))) q (t_ops ?s) = Some (visible ?s)"
    using e(1) by (simp add: queue_run_snoc)
  show "result_ok u (t_ops ?s) (t_log ?s) (t_pc s u)" if "u \<noteq> t" for u
    using result_ok_other [OF e(2) [of u], of "Deq t ?xs"] that by simp
  show "result_ok t (t_ops ?s) (t_log ?s) (CCopy old (t_ch s) n [])" by (simp add: seg_def)
  show "t_pt s \<le> x \<and> x < length (t_log s) \<and> x \<notin> span_p (t_pc s t) \<or> x \<in> span_p (CCopy old (t_ch s) n [])"
    if "t_pt ?s \<le> x" "x < length (t_log ?s)" for x using that by (simp add: pc)
  show "t_ct s \<le> x \<and> x < t_ch s \<and> x \<notin> span_c (t_pc s t) \<or> x \<in> span_c (CCopy old (t_ch s) n [])"
    if "t_ct ?s \<le> x" "x < t_ch ?s" for x using that by (auto simp: pc)
qed

lemma publish_cons_effects:
  assumes inv: "ring_inv s" and eff: "effects_ok q s" and pc: "t_pc s t = CWait old pos n xs" and tail: "ht_tail (r_cons (t_ring s)) = old"
  shows "effects_ok q (at_pc t (CRet pos xs) (s\<lparr>t_ring := cons_tail_set (old + n) (t_ring s), t_ct := pos + unat n\<rparr>))" (is "effects_ok q ?s")
proof (rule effects_upd [OF eff])
  note d = ring_invD [OF inv]
  have e: "queue_run (unat (r_capacity (t_ring s))) q (t_ops s) = Some (visible s)" "\<And>u. result_ok u (t_ops s) (t_log s) (t_pc s u)"
    using eff by (simp_all add: effects_ok_def)
  have o: "old = of_nat pos" "t_ct s \<le> pos" "pos + unat n \<le> t_ch s" "xs = seg (t_log s) pos (length xs)" "length xs = unat n"
    using d(11) [of t] unfolding pc pc_ok.simps cons_mid_def by blast+
  have "xs = seg (t_log s) pos (unat n)" using o(4,5) by simp
  then have res: "result_ok t (t_ops s) (t_log s) (CRet pos xs)" using e(2) [of t] by (simp add: pc)
  show "t_pc ?s = (t_pc s)(t := CRet pos xs)" by simp
  show "queue_run (unat (r_capacity (t_ring ?s))) q (t_ops ?s) = Some (visible ?s)" using e(1) by (simp add: visible_def)
  show "result_ok u (t_ops ?s) (t_log ?s) (t_pc s u)" for u using e(2) by simp
  show "result_ok t (t_ops ?s) (t_log ?s) (CRet pos xs)" using res by simp
  show "t_pt s \<le> x \<and> x < length (t_log s) \<and> x \<notin> span_p (t_pc s t) \<or> x \<in> span_p (CRet pos xs)"
    if "t_pt ?s \<le> x" "x < length (t_log ?s)" for x using that by (simp add: pc)
  show "t_ct s \<le> x \<and> x < t_ch s \<and> x \<notin> span_c (t_pc s t) \<or> x \<in> span_c (CRet pos xs)"
    if "t_ct ?s \<le> x" "x < t_ch ?s" for x using that o(2) by (auto simp: pc)
qed

lemma ring_enq_step_effects:
  assumes "ring_enq_step t s s'" "ring_inv s" "effects_ok q s"
  shows "effects_ok q s'"
  using assms
proof (cases rule: ring_enq_step.cases)
  case (p_move objs behavior old pos n success h)
  show ?thesis
  proof (cases success)
    case True
    then have h: "h = old + n" using p_move(3) by (auto simp: rte_atomic32_cmpset_def split: if_splits)
    have "unat n \<le> length objs" using ring_invD(11) [OF assms(2), of t] p_move(2) by simp
    from move_prod_effects [OF assms(2,3) p_move(2) this] show ?thesis using p_move(1) True h by simp
  next
    case False
    then show ?thesis using p_move(1,2) by (auto intro!: effects_at [OF assms(3)])
  qed
next
  case (p_copy objs old pos n i)
  obtain tbl where "tbl_put (r_tbl (t_ring s)) ((old + of_nat i) AND r_mask (t_ring s)) objs (of_nat i) = Some tbl"
    using copy_in_inv [OF assms(2) p_copy(2,3)] by blast
  then show ?thesis using p_copy by (auto intro!: effects_keep [OF assms(3)])
next
  case (p_publish objs old pos n)
  then show ?thesis using publish_prod_effects [OF assms(2,3) p_publish(2,3)] by simp
qed (auto intro!: effects_at [OF assms(3)])

lemma ring_deq_step_effects:
  assumes "ring_deq_step t s s'" "ring_inv s" "effects_ok q s" "recent s"
  shows "effects_ok q s'"
  using assms(1)
proof (cases rule: ring_deq_step.cases)
  case (c_move n0 behavior old pos n success h)
  show ?thesis
  proof (cases success)
    case True
    then have h: "ht_head (r_cons (t_ring s)) = old" "h = old + n" using c_move(3) by (auto simp: rte_atomic32_cmpset_def split: if_splits)
    from move_cons_effects [OF assms(2,3) c_move(2) move_cons_inv(1) [OF assms(2,4) c_move(2) h(1)]] show ?thesis
      using c_move(1) True h by simp
  next
    case False
    then show ?thesis using c_move(1,2) by (auto intro!: effects_at [OF assms(3)])
  qed
next
  case (c_copy old pos n xs idx)
  have "result_ok t (t_ops s) (t_log s) (t_pc s t)" using assms(3) by (simp add: effects_ok_def)
  then show ?thesis using c_copy copy_out_inv(1) [OF assms(2) c_copy(2-4)] by (auto intro!: effects_at [OF assms(3)])
next
  case (c_copied old pos n xs)
  have "result_ok t (t_ops s) (t_log s) (t_pc s t)" using assms(3) by (simp add: effects_ok_def)
  then show ?thesis using c_copied by (auto intro!: effects_at [OF assms(3)])
next
  case (c_publish old pos n xs)
  then show ?thesis using publish_cons_effects [OF assms(2,3) c_publish(2,3)] by simp
qed (auto intro!: effects_at [OF assms(3)])

section \<open>Runs\<close>

lemma threads_start_ok:
  assumes "ring_wf r"
  shows "ring_inv (threads_start r)" "effects_ok (ring_items r) (threads_start r)"
proof -
  let ?c = "unat (ht_tail (r_cons r))" and ?s = "threads_start r"
  have w: "ring_shape r" "ht_head (r_prod r) = ht_tail (r_prod r)" "ht_head (r_cons r) = ht_tail (r_cons r)" "ring_len r \<le> unat (r_capacity r)"
    using assms by (auto simp: ring_wf_def ring_shape_def)
  have len: "length (t_log ?s) = ?c + ring_len r" by (simp add: threads_start_def)
  have tail: "ht_tail (r_prod r) = of_nat (?c + ring_len r)" by (simp add: ring_len_def)
  have slot: "r_tbl r ! (p mod unat (r_size r)) = t_log ?s ! p" if "?c \<le> p" "p < ?c + ring_len r" for p
  proof -
    have "t_log ?s ! p = ring_items r ! (p - ?c)" using that by (simp add: threads_start_def nth_append)
    also have "\<dots> = r_tbl r ! ring_slot r (p - ?c)"
    proof -
      have "p - ?c < ring_len r" using that by simp
      then show ?thesis by (simp add: ring_items_def)
    qed
    finally show ?thesis using that by (simp add: ring_slot_def)
  qed
  have simps: "t_ring ?s = r" "t_pt ?s = ?c + ring_len r" "t_ch ?s = ?c" "t_ct ?s = ?c" "t_pc ?s = (\<lambda>_. Idle)" "t_ops ?s = []"
    by (simp_all add: threads_start_def)
  show "ring_inv ?s" unfolding ring_inv_def simps len using w tail slot by simp
  have "seg (t_log ?s) ?c (ring_len r) = ring_items r" by (simp add: seg_def threads_start_def)
  then show "effects_ok (ring_items r) ?s" unfolding effects_ok_def visible_def simps len by simp
qed

lemma ring_step_capacity: "ring_step s s' \<Longrightarrow> r_capacity (t_ring s') = r_capacity (t_ring s)"
  unfolding ring_step_def
  by (auto elim!: ring_enq_step.cases ring_deq_step.cases split: option.splits)

lemma reach_ok:
  assumes "ring_reach (threads_start r) s" "ring_wf r"
  shows "ring_inv s \<and> effects_ok (ring_items r) s \<and> r_capacity (t_ring s) = r_capacity r"
  using assms(1)
proof (induction rule: ring_reach.induct)
  case reach_start
  then show ?case using threads_start_ok [OF assms(2)] by (simp add: threads_start_def)
next
  case (reach_step s s')
  then have "effects_ok (ring_items r) s'"
    unfolding ring_step_def using ring_enq_step_effects ring_deq_step_effects by blast
  then show ?case using reach_step ring_step_inv ring_step_capacity by metis
qed

lemma quiet_ring:
  assumes inv: "ring_inv s" and eff: "effects_ok q s" and idle: "\<And>t. span_p (t_pc s t) = {} \<and> span_c (t_pc s t) = {}"
  shows "ring_wf (t_ring s)" "ring_items (t_ring s) = visible s"
proof -
  note d = ring_invD [OF inv]
  let ?r = "t_ring s"
  have "{t_pt s..<length (t_log s)} = {}" "{t_ct s..<t_ch s} = {}" using eff idle by (simp_all add: effects_ok_def)
  then have e: "length (t_log s) = t_pt s" "t_ch s = t_ct s" using d(6,8) by simp_all
  have "ht_tail (r_prod ?r) - ht_tail (r_cons ?r) = of_nat (t_pt s - t_ct s)" using d(3,5-7) by (simp add: of_nat_diff)
  moreover have "t_pt s - t_ct s < 2 ^ 32" using d(15) e(1) by simp
  ultimately have len: "ring_len ?r = t_pt s - t_ct s" by (simp add: ring_len_def unsigned_of_nat take_bit_nat_eq_self)
  have "t_pt s - t_ct s \<le> unat (r_capacity ?r)" using d(9) e(1) by simp
  then show "ring_wf ?r" using d(1-5) e len by (auto simp: ring_wf_def ring_shape_def)
  show "ring_items ?r = visible s"
  proof (rule nth_equalityI)
    show l: "length (ring_items ?r) = length (visible s)" using d(7,8) e by (simp add: len visible_def seg_def)
    fix j assume "j < length (ring_items ?r)"
    then have j: "j < t_pt s - t_ct s" by (simp add: len)
    have "ring_slot ?r j = (t_ct s mod 2 ^ 32 + j) mod unat (r_size ?r)"
      by (simp add: ring_slot_def d(5) unsigned_of_nat take_bit_eq_mod)
    also have "\<dots> = (t_ct s mod 2 ^ 32 mod unat (r_size ?r) + j) mod unat (r_size ?r)" by (simp only: mod_add_left_eq)
    also have "\<dots> = (t_ct s + j) mod unat (r_size ?r)" by (simp only: mod_mod_cancel [OF index_slot(3) [OF d(1)]] mod_add_left_eq)
    finally have "ring_slot ?r j = (t_ct s + j) mod unat (r_size ?r)" .
    moreover have "r_tbl ?r ! ((t_ct s + j) mod unat (r_size ?r)) = t_log s ! (t_ct s + j)" using j d(10) [of "t_ct s + j"] by simp
    moreover have "visible s ! j = t_log s ! (t_ct s + j)" using j e d(8) by (simp add: visible_def seg_nth)
    ultimately show "ring_items ?r ! j = visible s ! j" using j by (simp add: ring_items_def len)
  qed
qed

section \<open>Properties\<close>

text \<open>
  C4: Threads on a ring. Start from a ring nobody uses and let any number of threads run multi-producer and multi-consumer calls, with any arguments
  and in any interleaving in which no thread sleeps inside its compare-and-set loop while \<open>2 ^ 32\<close> objects go by. Then no thread leaves the table; the
  effects of the calls, each taking place between its call and its return, are those of a queue of the ring's capacity, first in first out; a
  finished call returns what its effect says; and when every call has returned the ring is well formed and holds exactly the queue.
\<close>

theorem ring_threads_fifo:
  assumes "ring_wf r" "ring_reach (threads_start r) s"
  shows "\<exists>q. queue_run (unat (r_capacity r)) (ring_items r) (t_ops s) = Some q \<and>
     (\<forall>t. t_pc s t \<noteq> Fault \<and>
        (\<forall>pos xs. t_pc s t = CRet pos xs \<longrightarrow> xs \<noteq> [] \<longrightarrow> last_op t (t_ops s) = Some (Deq t xs)) \<and>
        (\<forall>n. t_pc s t = PRet n \<longrightarrow> n \<noteq> 0 \<longrightarrow> (\<exists>xs. length xs = unat n \<and> last_op t (t_ops s) = Some (Enq t xs)))) \<and>
     ((\<forall>t. t_pc s t = Idle) \<longrightarrow> ring_wf (t_ring s) \<and> ring_items (t_ring s) = q)"
proof -
  have ok: "ring_inv s" "effects_ok (ring_items r) s" "r_capacity (t_ring s) = r_capacity r" using reach_ok [OF assms(2,1)] by simp_all
  have res: "result_ok t (t_ops s) (t_log s) (t_pc s t)" for t using ok(2) by (simp add: effects_ok_def)
  have "t_pc s t \<noteq> Fault" for t using ring_invD(11) [OF ok(1), of t] by auto
  moreover have "last_op t (t_ops s) = Some (Deq t xs)" if "t_pc s t = CRet pos xs" "xs \<noteq> []" for t pos xs using res [of t] that by simp
  moreover have "\<exists>xs. length xs = unat n \<and> last_op t (t_ops s) = Some (Enq t xs)" if "t_pc s t = PRet n" "n \<noteq> 0" for t n
    using res [of t] that by simp
  moreover have "ring_wf (t_ring s) \<and> ring_items (t_ring s) = visible s" if "\<forall>t. t_pc s t = Idle"
    using quiet_ring [OF ok(1,2)] that by simp
  ultimately show ?thesis using ok(2,3) by (intro exI [of _ "visible s"]) (auto simp: effects_ok_def)
qed

section \<open>A run\<close>

text \<open>Thread 1 takes the object of a ring while thread 0 has begun to enqueue another.\<close>

definition run_ring :: "nat rte_ring" where
  "run_ring = ring_sample\<lparr>r_prod := \<lparr>ht_head = 1, ht_tail = 1, ht_single = False\<rparr>, r_cons := \<lparr>ht_head = 0, ht_tail = 0, ht_single = False\<rparr>\<rparr>"

definition run_at :: "'o ring_threads \<Rightarrow> 'o ring_pc \<Rightarrow> 'o ring_threads" where
  "run_at s p = at_pc 1 p (at_pc 0 (PHead [] RTE_RING_QUEUE_FIXED) s)"

lemma run_ring_ok: "ring_wf run_ring" "ring_items run_ring = [1]"
proof -
  show "ring_wf run_ring" unfolding ring_wf_def
    by (intro conjI exI [of _ 2]) (simp_all add: run_ring_def ring_sample_def ring_len_def)
  show "ring_items run_ring = [1]" by (simp add: run_ring_def ring_sample_def ring_items_def ring_len_def ring_slot_def)
qed

lemma run_reach:
  "\<exists>s. ring_reach (threads_start run_ring) s \<and> t_pc s 0 = PHead [] RTE_RING_QUEUE_FIXED \<and> t_pc s 1 = CRet 0 [1]"
proof -
  let ?F = RTE_RING_QUEUE_FIXED and ?s = "threads_start run_ring"
  have st: "t_pc ?s = (\<lambda>_. Idle)" "t_ring ?s = run_ring" "t_ch ?s = 0" "t_ct ?s = 0" "t_log ?s = [1]" "t_ops ?s = []" "t_pt ?s = 1"
    by (simp_all add: threads_start_def run_ring_ok(2)) (simp_all add: run_ring_def ring_sample_def ring_len_def)
  have rr: "r_prod run_ring = \<lparr>ht_head = 1, ht_tail = 1, ht_single = False\<rparr>" "r_cons run_ring = \<lparr>ht_head = 0, ht_tail = 0, ht_single = False\<rparr>"
    "r_tbl run_ring = [1, 2, 3, 4]" "r_mask run_ring = 3" by (simp_all add: run_ring_def ring_sample_def)
  have eq: "ring_deq_step 1 s x \<Longrightarrow> x = y \<Longrightarrow> ring_step s y" for s x y :: "nat ring_threads" by (auto simp: ring_step_def)
  let ?a = "at_pc 0 (PHead [] ?F) ?s"
  let ?b = "run_at (?s\<lparr>t_ring := cons_head_set 1 run_ring, t_ch := 1, t_ops := [Deq 1 [1]]\<rparr>)"
  have ra: "recent (run_at s p)" if "t_pc s = (\<lambda>_. Idle)" "case p of CMove _ _ _ pos _ \<Rightarrow> t_ch s < pos + 2 ^ 32 | PMove _ _ _ _ _ \<Rightarrow> False | _ \<Rightarrow> True" for s :: "nat ring_threads" and p
    using that by (auto simp: recent_def run_at_def split: ring_pc.splits)
  have "recent ?s" by (simp add: recent_def st)
  moreover have "ring_step ?s ?a" unfolding ring_step_def using ring_enq_step.p_call [of ?s 0 "[]" ?F] st(1) by auto
  ultimately have r1: "ring_reach ?s ?a" by (rule reach_step [OF reach_start])
  have r2: "ring_reach ?s (run_at ?s (CHead 1 ?F))"
    by (rule reach_step [OF r1], simp add: recent_def st, rule eq, rule ring_deq_step.c_call [where n = 1 and behavior = ?F])
      (simp_all add: st run_at_def)
  have r3: "ring_reach ?s (run_at ?s (CTail 1 ?F 0 0))"
    by (rule reach_step [OF r2], rule ra, simp add: st, simp, rule eq, rule ring_deq_step.c_head [where ?n0.0 = 1 and behavior = ?F])
      (simp_all add: run_at_def st at_pc_def rr)
  have r4: "ring_reach ?s (run_at ?s (CMove 1 ?F 0 0 1))"
    by (rule reach_step [OF r3], rule ra, simp add: st, simp, rule eq, rule ring_deq_step.c_tail [where ?n0.0 = 1 and behavior = ?F and old = 0 and pos = 0 and n = 1])
      (simp_all add: run_at_def st at_pc_def rr burst_size_def)
  have r5: "ring_reach ?s (?b (CCopy 0 0 1 []))"
    by (rule reach_step [OF r4], rule ra, simp add: st, simp add: st, rule eq,
        rule ring_deq_step.c_move [where ?n0.0 = 1 and behavior = ?F and old = 0 and pos = 0 and n = 1 and success = True and h = 1])
      (simp_all add: run_at_def st at_pc_def rr rte_atomic32_cmpset_def)
  have r6: "ring_reach ?s (?b (CCopy 0 0 1 [1]))"
    by (rule reach_step [OF r5], rule ra, simp add: st, simp, rule eq, rule ring_deq_step.c_copy [where old = 0 and pos = 0 and n = 1 and xs = "[]" and idx = 0])
      (simp_all add: run_at_def st at_pc_def rr)
  have r7: "ring_reach ?s (?b (CWait 0 0 1 [1]))"
    by (rule reach_step [OF r6], rule ra, simp add: st, simp, rule eq, rule ring_deq_step.c_copied [where old = 0 and pos = 0 and n = 1 and xs = "[1]"])
      (simp_all add: run_at_def st at_pc_def)
  let ?e = "at_pc 1 (CRet 0 [1]) ((?b (CWait 0 0 1 [1]))\<lparr>t_ring := cons_tail_set 1 (cons_head_set 1 run_ring), t_ct := 1\<rparr>)"
  have r8: "ring_reach ?s ?e"
    by (rule reach_step [OF r7], rule ra, simp add: st, simp, rule eq, rule ring_deq_step.c_publish [where old = 0 and pos = 0 and n = 1 and xs = "[1]"])
      (simp_all add: run_at_def at_pc_def st rr)
  have "t_pc ?e 0 = PHead [] ?F" "t_pc ?e 1 = CRet 0 [1]" by (simp_all add: run_at_def at_pc_def)
  then show ?thesis using r8 by blast
qed

theorem ring_threads_fifo_witness:
  "\<exists>s q. ring_reach (threads_start run_ring) s \<and> t_pc s 1 = CRet 0 [1] \<and> queue_run (unat (r_capacity run_ring)) [1] (t_ops s) = Some q \<and>
     last_op 1 (t_ops s) = Some (Deq 1 [1])"
proof -
  obtain s where s: "ring_reach (threads_start run_ring) s" "t_pc s 1 = CRet 0 [1]" using run_reach by blast
  from ring_threads_fifo [OF run_ring_ok(1) s(1)] s show ?thesis unfolding run_ring_ok(2) by fastforce
qed

end
