(* ===== verification/RingC11.thy ===== *)
theory RingC11
  imports RingThreads
begin

text \<open>
  The variant of the ring for processors other than x86 (\<open>rte_ring_c11_mem.h\<close>), which is chosen at build time. The head is read once before the
  loop, and a compare-and-set that fails leaves the head it has found in \<open>old_head\<close>. Loads and stores take effect in program order here too: what the
  acquire and release orderings allow beyond that is left aside.
\<close>

section \<open>Calls that run alone\<close>

definition atomic_compare_exchange :: "u32 \<Rightarrow> u32 \<Rightarrow> u32 \<Rightarrow> bool \<times> u32 \<times> u32" where
  "atomic_compare_exchange p expected desired = (if p = expected then (True, expected, desired) else (False, p, p))"

text \<open>The loops, with \<open>old_head\<close> as it is at their start. The results are those of \<open>move_prod_head\<close> and \<open>move_cons_head\<close>.\<close>

partial_function (option) c11_prod_loop ::
    "'o rte_ring \<Rightarrow> bool \<Rightarrow> u32 \<Rightarrow> rte_ring_queue_behavior \<Rightarrow> u32 \<Rightarrow> (u32 \<times> u32 \<times> u32 \<times> u32 \<times> 'o rte_ring) option" where
  "c11_prod_loop r is_sp maxn behavior old_head =
     (let free_entries = r_capacity r + ht_tail (r_cons r) - old_head;
          n = (if maxn > free_entries then (if behavior = RTE_RING_QUEUE_FIXED then 0 else free_entries) else maxn)
      in if n = 0 then Some (0, old_head, old_head, free_entries, r)
      else let new_head = old_head + n;
               (success, found, h) = (if is_sp then (True, old_head, new_head) else atomic_compare_exchange (ht_head (r_prod r)) old_head new_head);
               r' = r\<lparr>r_prod := (r_prod r)\<lparr>ht_head := h\<rparr>\<rparr>
           in if success then Some (n, old_head, new_head, free_entries, r') else c11_prod_loop r' is_sp maxn behavior found)"

definition c11_move_prod_head ::
    "'o rte_ring \<Rightarrow> bool \<Rightarrow> u32 \<Rightarrow> rte_ring_queue_behavior \<Rightarrow> (u32 \<times> u32 \<times> u32 \<times> u32 \<times> 'o rte_ring) option" where
  "c11_move_prod_head r is_sp n behavior = c11_prod_loop r is_sp n behavior (ht_head (r_prod r))"

partial_function (option) c11_cons_loop ::
    "'o rte_ring \<Rightarrow> bool \<Rightarrow> u32 \<Rightarrow> rte_ring_queue_behavior \<Rightarrow> u32 \<Rightarrow> (u32 \<times> u32 \<times> u32 \<times> u32 \<times> 'o rte_ring) option" where
  "c11_cons_loop r is_sc maxn behavior old_head =
     (let ents = ht_tail (r_prod r) - old_head;
          n = (if maxn > ents then (if behavior = RTE_RING_QUEUE_FIXED then 0 else ents) else maxn)
      in if n = 0 then Some (0, old_head, old_head, ents, r)
      else let new_head = old_head + n;
               (success, found, h) = (if is_sc then (True, old_head, new_head) else atomic_compare_exchange (ht_head (r_cons r)) old_head new_head);
               r' = r\<lparr>r_cons := (r_cons r)\<lparr>ht_head := h\<rparr>\<rparr>
           in if success then Some (n, old_head, new_head, ents, r') else c11_cons_loop r' is_sc maxn behavior found)"

definition c11_move_cons_head ::
    "'o rte_ring \<Rightarrow> bool \<Rightarrow> u32 \<Rightarrow> rte_ring_queue_behavior \<Rightarrow> (u32 \<times> u32 \<times> u32 \<times> u32 \<times> 'o rte_ring) option" where
  "c11_move_cons_head r is_sc n behavior = c11_cons_loop r is_sc n behavior (ht_head (r_cons r))"

definition c11_update_tail :: "headtail \<Rightarrow> u32 \<Rightarrow> u32 \<Rightarrow> bool \<Rightarrow> headtail option" where
  "c11_update_tail ht old_val new_val single = do {
     _ \<leftarrow> guard (single \<or> ht_tail ht = old_val);
     Some (ht\<lparr>ht_tail := new_val\<rparr>) }"

lemma c11_prod_same: "c11_move_prod_head r is_sp n behavior = move_prod_head r is_sp n behavior"
  unfolding c11_move_prod_head_def
  by (subst c11_prod_loop.simps, subst move_prod_head.simps) (simp add: Let_def atomic_compare_exchange_def rte_atomic32_cmpset_def)

lemma c11_cons_same: "c11_move_cons_head r is_sc n behavior = move_cons_head r is_sc n behavior"
  unfolding c11_move_cons_head_def
  by (subst c11_cons_loop.simps, subst move_cons_head.simps) (simp add: Let_def atomic_compare_exchange_def rte_atomic32_cmpset_def)

lemma c11_tail_same: "c11_update_tail = update_tail"
  by (intro ext) (simp add: c11_update_tail_def update_tail_def)

section \<open>Threads\<close>

text \<open>
  The states and all steps but the compare-and-set are those of \<open>ring_enq_step\<close> and \<open>ring_deq_step\<close>: a thread whose compare-and-set fails goes on with the
  head it has found, and does not read the head again.
\<close>

inductive c11_enq_step :: "nat \<Rightarrow> 'o ring_threads \<Rightarrow> 'o ring_threads \<Rightarrow> bool" for t where
  c11_p_other: "(\<And>objs behavior old pos n. t_pc s t \<noteq> PMove objs behavior old pos n) \<Longrightarrow> ring_enq_step t s s' \<Longrightarrow> c11_enq_step t s s'"
| c11_p_move: "t_pc s t = PMove objs behavior old pos n \<Longrightarrow>
     atomic_compare_exchange (ht_head (r_prod (t_ring s))) old (old + n) = (success, found, h) \<Longrightarrow>
     c11_enq_step t s (if success
       then at_pc t (PCopy objs old (length (t_log s)) n 0)
              (s\<lparr>t_ring := prod_head_set h (t_ring s), t_log := t_log s @ take (unat n) objs\<rparr>)
       else at_pc t (PTail objs behavior found (length (t_log s))) s)"

inductive c11_deq_step :: "nat \<Rightarrow> 'o ring_threads \<Rightarrow> 'o ring_threads \<Rightarrow> bool" for t where
  c11_c_other: "(\<And>n0 behavior old pos n. t_pc s t \<noteq> CMove n0 behavior old pos n) \<Longrightarrow> ring_deq_step t s s' \<Longrightarrow> c11_deq_step t s s'"
| c11_c_move: "t_pc s t = CMove n0 behavior old pos n \<Longrightarrow>
     atomic_compare_exchange (ht_head (r_cons (t_ring s))) old (old + n) = (success, found, h) \<Longrightarrow>
     c11_deq_step t s (if success
       then at_pc t (CCopy old (t_ch s) n [])
              (s\<lparr>t_ring := cons_head_set h (t_ring s), t_ch := t_ch s + unat n,
                 t_ops := t_ops s @ [Deq t (take (unat n) (drop (t_ch s) (t_log s)))]\<rparr>)
       else at_pc t (CTail n0 behavior found (t_ch s)) s)"

inductive c11_reach :: "'o ring_threads \<Rightarrow> 'o ring_threads \<Rightarrow> bool" for s0 where
  c11_start: "c11_reach s0 s0"
| c11_step: "c11_reach s0 s \<Longrightarrow> recent s \<Longrightarrow> (\<exists>t. c11_enq_step t s s' \<or> c11_deq_step t s s') \<Longrightarrow> c11_reach s0 s'"

lemma recent_at:
  assumes "recent s" "\<And>objs b old pos n. p \<noteq> PMove objs b old pos n" "\<And>n0 b old pos n. p \<noteq> CMove n0 b old pos n"
  shows "recent (at_pc t p s)"
  unfolding recent_def
proof
  fix u
  show "case t_pc (at_pc t p s) u of PMove _ _ _ pos _ \<Rightarrow> length (t_log (at_pc t p s)) < pos + 2 ^ 32
      | CMove _ _ _ pos _ \<Rightarrow> t_ch (at_pc t p s) < pos + 2 ^ 32 | _ \<Rightarrow> True"
  proof (cases "u = t")
    case True
    then show ?thesis using assms(2,3) by (auto split: ring_pc.split)
  next
    case False
    then show ?thesis using assms(1) [unfolded recent_def, rule_format, of u]
      by (simp only: at_pc_simps fun_upd_other [OF False])
  qed
qed

lemma at_pc_twice: "at_pc t p (at_pc t q s) = at_pc t p s"
  by (simp add: at_pc_def)

text \<open>A failing compare-and-set is the failing one of the other variant and its reading of the head.\<close>

lemma c11_enq_reach:
  assumes "c11_enq_step t s s'" "ring_reach s0 s" "recent s"
  shows "ring_reach s0 s'"
  using assms(1)
proof cases
  case c11_p_other
  then show ?thesis using assms(2,3) by (meson reach_step ring_step_def)
next
  case (c11_p_move objs b old pos n success found h)
  show ?thesis
  proof (cases "ht_head (r_prod (t_ring s)) = old")
    case True
    then have e: "success" "h = old + n" "rte_atomic32_cmpset (ht_head (r_prod (t_ring s))) old (old + n) = (True, h)"
      using c11_p_move(3) by (auto simp: atomic_compare_exchange_def rte_atomic32_cmpset_def)
    have "ring_enq_step t s s'"
      using p_move [OF c11_p_move(2) e(3)] c11_p_move(1) e(1) by (simp del: head_set_simps)
    then show ?thesis using assms(2,3) by (meson reach_step ring_step_def)
  next
    case False
    let ?s1 = "at_pc t (PHead objs b) s"
    have "ring_enq_step t s ?s1"
      using p_move [OF c11_p_move(2), of False "ht_head (r_prod (t_ring s))"] False by (simp add: rte_atomic32_cmpset_def)
    then have r1: "ring_reach s0 ?s1" using assms(2,3) by (meson reach_step ring_step_def)
    have "ring_enq_step t ?s1 s'"
      using p_head [of ?s1 t objs b] c11_p_move(1,3) False by (simp add: atomic_compare_exchange_def at_pc_twice)
    then show ?thesis using r1 recent_at [OF assms(3), of "PHead objs b" t] by (meson reach_step ring_step_def ring_pc.distinct)
  qed
qed

lemma c11_deq_reach:
  assumes "c11_deq_step t s s'" "ring_reach s0 s" "recent s"
  shows "ring_reach s0 s'"
  using assms(1)
proof cases
  case c11_c_other
  then show ?thesis using assms(2,3) by (meson reach_step ring_step_def)
next
  case (c11_c_move n0 b old pos n success found h)
  show ?thesis
  proof (cases "ht_head (r_cons (t_ring s)) = old")
    case True
    then have e: "success" "h = old + n" "rte_atomic32_cmpset (ht_head (r_cons (t_ring s))) old (old + n) = (True, h)"
      using c11_c_move(3) by (auto simp: atomic_compare_exchange_def rte_atomic32_cmpset_def)
    have "ring_deq_step t s s'"
      using c_move [OF c11_c_move(2) e(3)] c11_c_move(1) e(1) by (simp del: head_set_simps)
    then show ?thesis using assms(2,3) by (meson reach_step ring_step_def)
  next
    case False
    let ?s1 = "at_pc t (CHead n0 b) s"
    have "ring_deq_step t s ?s1"
      using c_move [OF c11_c_move(2), of False "ht_head (r_cons (t_ring s))"] False by (simp add: rte_atomic32_cmpset_def)
    then have r1: "ring_reach s0 ?s1" using assms(2,3) by (meson reach_step ring_step_def)
    have "ring_deq_step t ?s1 s'"
      using c_head [of ?s1 t n0 b] c11_c_move(1,3) False by (simp add: atomic_compare_exchange_def at_pc_twice)
    then show ?thesis using r1 recent_at [OF assms(3), of "CHead n0 b" t] by (meson reach_step ring_step_def ring_pc.distinct)
  qed
qed

lemma c11_reach_ring: "c11_reach s0 s \<Longrightarrow> ring_reach s0 s"
  by (induction rule: c11_reach.induct) (auto intro: reach_start c11_enq_reach c11_deq_reach)

section \<open>Properties\<close>

text \<open>
  C5: The variant behaves as the ring. A call that runs alone moves the head, on any ring and with any arguments, exactly as the call of the other variant does, and
  waits and writes the tail alike. Whatever state threads reach with the variant they can reach with the other one too; so started on a ring nobody uses, their effects are those of a bounded queue, and no thread leaves the table.
\<close>

theorem c11_ring_same:
  assumes "ring_wf r" "c11_reach (threads_start r) s"
  shows "c11_move_prod_head r is_sp n behavior = move_prod_head r is_sp n behavior \<and>
     c11_move_cons_head r is_sp n behavior = move_cons_head r is_sp n behavior \<and> c11_update_tail = update_tail \<and>
     ring_reach (threads_start r) s \<and>
     (\<exists>q. queue_run (unat (r_capacity r)) (ring_items r) (t_ops s) = Some q) \<and> (\<forall>t. t_pc s t \<noteq> Fault)"
proof -
  have r: "ring_reach (threads_start r) s" by (rule c11_reach_ring [OF assms(2)])
  have "ring_inv s" "effects_ok (ring_items r) s" "r_capacity (t_ring s) = r_capacity r" using reach_ok [OF r assms(1)] by auto
  then have q: "\<exists>q. queue_run (unat (r_capacity r)) (ring_items r) (t_ops s) = Some q" by (auto simp: effects_ok_def)
  have "t_pc s t \<noteq> Fault" for t using ring_invD(11) [OF \<open>ring_inv s\<close>, of t] by auto
  then show ?thesis
    using r q by (intro conjI allI c11_prod_same c11_cons_same c11_tail_same) auto
qed

theorem c11_ring_same_witness:
  "\<exists>s. c11_reach (threads_start run_ring) s \<and> t_pc s 0 = PHead [7] RTE_RING_QUEUE_FIXED \<and> ring_reach (threads_start run_ring) s"
proof -
  let ?s = "threads_start run_ring"
  have i: "t_pc ?s 0 = Idle" "recent ?s" by (simp_all add: threads_start_def recent_def)
  have "c11_enq_step 0 ?s (at_pc 0 (PHead [7] RTE_RING_QUEUE_FIXED) ?s)"
    by (rule c11_p_other) (use p_call [OF i(1), of "[7]" RTE_RING_QUEUE_FIXED] i(1) in simp_all)
  then have r: "c11_reach ?s (at_pc 0 (PHead [7] RTE_RING_QUEUE_FIXED) ?s)" using c11_start i(2) c11_step by blast
  show ?thesis using r c11_ring_same [OF run_ring_ok(1) r, of True 0 RTE_RING_QUEUE_FIXED] by auto
qed

end
