(* ===== verification/RingWaits.thy ===== *)
theory RingWaits
  imports RingThreads
begin

text \<open>
  Waiting in \<open>update_tail\<close>: a call that has copied its objects spins until the calls that reserved places before it have published their
  tails (the loop on \<open>rte_pause\<close> of \<open>rte_ring_generic.h\<close>). The steps of \<open>RingThreads\<close> say what can happen next, not what the scheduler
  does; so the theorem says which thread a waiting call waits for, that this thread alone ends the wait, and that while it is not
  scheduled the waiting thread has no step, whatever the others do. That is the restriction the documentation states for preempted
  threads (\<open>env_abstraction_layer.rst\<close>, known issues of \<open>rte_ring\<close>: the second thread spins until the first is scheduled again, which may be a dead lock
  when the first one is preempted by a thread of higher priority).
\<close>

section \<open>The call whose turn it is\<close>

text \<open>A call that has reserved \<open>n\<close> places from the index \<open>tail\<close> on and has not published them.\<close>

definition enq_mid :: "u32 \<Rightarrow> u32 \<Rightarrow> 'o ring_pc \<Rightarrow> bool" where
  "enq_mid tail n p = (case p of PCopy _ old _ m _ \<Rightarrow> old = tail \<and> m = n | PWait _ old _ m \<Rightarrow> old = tail \<and> m = n | _ \<Rightarrow> False)"

definition deq_mid :: "u32 \<Rightarrow> u32 \<Rightarrow> 'o ring_pc \<Rightarrow> bool" where
  "deq_mid tail n p = (case p of CCopy old _ m _ \<Rightarrow> old = tail \<and> m = n | CWait old _ m _ \<Rightarrow> old = tail \<and> m = n | _ \<Rightarrow> False)"

abbreviation prod_tail :: "'o ring_threads \<Rightarrow> u32" where
  "prod_tail s \<equiv> ht_tail (r_prod (t_ring s))"

abbreviation cons_tail :: "'o ring_threads \<Rightarrow> u32" where
  "cons_tail s \<equiv> ht_tail (r_cons (t_ring s))"

text \<open>Steps of all threads but \<open>u\<close>.\<close>

definition step_without :: "nat \<Rightarrow> 'o ring_threads \<Rightarrow> 'o ring_threads \<Rightarrow> bool" where
  "step_without u s s' \<longleftrightarrow> recent s \<and> (\<exists>v. v \<noteq> u \<and> (ring_enq_step v s s' \<or> ring_deq_step v s s'))"

definition no_step :: "nat \<Rightarrow> 'o ring_threads \<Rightarrow> bool" where
  "no_step t s \<longleftrightarrow> (\<nexists>s'. ring_enq_step t s s' \<or> ring_deq_step t s s')"

lemma enq_frame:
  assumes "ring_enq_step v s s'"
  shows "w \<noteq> v \<Longrightarrow> t_pc s' w = t_pc s w" "r_cons (t_ring s') = r_cons (t_ring s)"
    "prod_tail s' = prod_tail s \<or> (\<exists>n. enq_mid (prod_tail s) n (t_pc s v))"
  using assms by (cases; simp add: enq_mid_def split: option.splits)+

lemma deq_frame:
  assumes "ring_deq_step v s s'"
  shows "w \<noteq> v \<Longrightarrow> t_pc s' w = t_pc s w" "r_prod (t_ring s') = r_prod (t_ring s)"
    "cons_tail s' = cons_tail s \<or> (\<exists>n. deq_mid (cons_tail s) n (t_pc s v))"
  using assms by (cases; simp add: deq_mid_def)+

lemma wait_no_step:
  "t_pc s t = PWait objs old pos n \<Longrightarrow> prod_tail s \<noteq> old \<Longrightarrow> no_step t s"
  "t_pc s t = CWait old pos n xs \<Longrightarrow> cons_tail s \<noteq> old \<Longrightarrow> no_step t s"
  unfolding no_step_def by (auto elim!: ring_enq_step.cases ring_deq_step.cases)

text \<open>At most one call is in turn, and while a call waits there is one.\<close>

lemma enq_mid_span:
  assumes inv: "ring_inv s" and m: "enq_mid (prod_tail s) n (t_pc s u)"
  shows "t_pt s \<in> span_p (t_pc s u)"
proof -
  note d = ring_invD [OF inv]
  have at: "pos \<le> t_pt s \<and> t_pt s < pos + unat n" if "prod_mid (t_log s) (t_pt s) tbl sz i objs (prod_tail s) pos n" for tbl sz i objs pos
  proof -
    have o: "(of_nat (t_pt s) :: u32) = of_nat pos" "t_pt s \<le> pos" "pos + unat n \<le> length (t_log s)" "n \<noteq> 0"
      using that d(3) by (simp_all add: prod_mid_def)
    have "t_pt s = pos" using o(1-3) d(6,7,15) by (intro of_nat_close) simp_all
    then show ?thesis using o(4) unat_gt_0 [of n] by simp
  qed
  then show ?thesis using m d(11) [of u] by (cases "t_pc s u") (auto simp: enq_mid_def dest: at)
qed

lemma deq_mid_span:
  assumes inv: "ring_inv s" and m: "deq_mid (cons_tail s) n (t_pc s u)"
  shows "t_ct s \<in> span_c (t_pc s u)"
proof -
  note d = ring_invD [OF inv]
  have at: "pos \<le> t_ct s \<and> t_ct s < pos + unat n" if "cons_mid (t_log s) (t_ct s) (t_ch s) xs (cons_tail s) pos n" for xs pos
  proof -
    have o: "(of_nat (t_ct s) :: u32) = of_nat pos" "t_ct s \<le> pos" "pos + unat n \<le> t_ch s" "n \<noteq> 0"
      using that d(5) by (simp_all add: cons_mid_def)
    have "t_ct s = pos" using o(1-3) d(7,8,15) by (intro of_nat_close) simp_all
    then show ?thesis using o(4) unat_gt_0 [of n] by simp
  qed
  then show ?thesis using m d(11) [of u] by (cases "t_pc s u") (auto simp: deq_mid_def dest: at)
qed

lemma enq_turn_one:
  "ring_inv s \<Longrightarrow> enq_mid (prod_tail s) n (t_pc s u) \<Longrightarrow> enq_mid (prod_tail s) m (t_pc s v) \<Longrightarrow> u = v"
  using enq_mid_span ring_invD(12) by blast

lemma deq_turn_one:
  "ring_inv s \<Longrightarrow> deq_mid (cons_tail s) n (t_pc s u) \<Longrightarrow> deq_mid (cons_tail s) m (t_pc s v) \<Longrightarrow> u = v"
  using deq_mid_span ring_invD(13) by blast

lemma enq_turn:
  assumes inv: "ring_inv s" "effects_ok q s" and t: "t_pc s t = PWait objs old pos n"
  shows "\<exists>u m. enq_mid (prod_tail s) m (t_pc s u)"
proof -
  note d = ring_invD [OF inv(1)]
  have "t_pt s < length (t_log s)" using d(11) [of t] unat_gt_0 [of n] by (simp add: t prod_mid_def)
  then have "t_pt s \<in> (\<Union>t. span_p (t_pc s t))" using inv(2) by (auto simp: effects_ok_def)
  then obtain u where u: "t_pt s \<in> span_p (t_pc s u)" by blast
  have "\<exists>m. enq_mid (prod_tail s) m (t_pc s u)"
    using u d(11) [of u] d(3) by (cases "t_pc s u") (auto simp: enq_mid_def prod_mid_def dest: le_antisym)
  then show ?thesis by blast
qed

lemma deq_turn:
  assumes inv: "ring_inv s" "effects_ok q s" and t: "t_pc s t = CWait old pos n xs"
  shows "\<exists>u m. deq_mid (cons_tail s) m (t_pc s u)"
proof -
  note d = ring_invD [OF inv(1)]
  have "t_ct s < t_ch s" using d(11) [of t] unat_gt_0 [of n] by (simp add: t cons_mid_def)
  then have "t_ct s \<in> (\<Union>t. span_c (t_pc s t))" using inv(2) by (auto simp: effects_ok_def)
  then obtain u where u: "t_ct s \<in> span_c (t_pc s u)" by blast
  have "\<exists>m. deq_mid (cons_tail s) m (t_pc s u)"
    using u d(11) [of u] d(5) by (cases "t_pc s u") (auto simp: deq_mid_def cons_mid_def dest: le_antisym)
  then show ?thesis by blast
qed

section \<open>The thread in turn ends the wait by itself\<close>

lemma enq_alone:
  assumes "ring_inv s" "t_pc s u = PCopy objs old pos n i" "prod_tail s = old"
  shows "\<exists>s'. rtranclp (ring_enq_step u) s s' \<and> t_pc s' u = PRet n \<and> prod_tail s' = old + n"
  using assms
proof (induction "unat n - i" arbitrary: s i)
  case 0
  have "i = unat n" using 0 ring_invD(11) [OF 0(2), of u] by (auto simp: prod_mid_def)
  let ?s1 = "at_pc u (PWait objs old pos n) s"
  let ?s2 = "at_pc u (PRet n) (?s1\<lparr>t_ring := prod_tail_set (old + n) (t_ring ?s1), t_pt := pos + unat n,
      t_ops := t_ops ?s1 @ [Enq u (take (unat n) objs)]\<rparr>)"
  have "ring_enq_step u s ?s1" by (rule p_copied [OF 0(3) \<open>i = unat n\<close>])
  moreover have "ring_enq_step u ?s1 ?s2" by (rule p_publish) (simp_all add: 0(4))
  ultimately have "rtranclp (ring_enq_step u) s ?s2" by (blast intro: converse_rtranclp_into_rtranclp r_into_rtranclp)
  then show ?case by (intro exI [of _ ?s2]) simp
next
  case (Suc k)
  have i: "i < unat n" and k: "k = unat n - Suc i" using Suc.hyps(2) by linarith+
  obtain tbl where tbl: "tbl_put (r_tbl (t_ring s)) ((old + of_nat i) AND r_mask (t_ring s)) objs (of_nat i) = Some tbl"
      "ring_inv (at_pc u (PCopy objs old pos n (Suc i)) (s\<lparr>t_ring := (t_ring s)\<lparr>r_tbl := tbl\<rparr>\<rparr>))" (is "ring_inv ?s1")
    using copy_in_inv [OF Suc.prems(1,2) i] by blast
  have "ring_enq_step u s ?s1" using p_copy [OF Suc.prems(2) i] tbl(1) by simp
  moreover obtain s' where "rtranclp (ring_enq_step u) ?s1 s'" "t_pc s' u = PRet n" "prod_tail s' = old + n"
    using Suc.hyps(1) [OF k tbl(2)] Suc.prems(3) by auto
  ultimately show ?case by (blast intro: converse_rtranclp_into_rtranclp)
qed

lemma deq_alone:
  assumes "ring_inv s" "t_pc s u = CCopy old pos n xs" "cons_tail s = old"
  shows "\<exists>s' ys. rtranclp (ring_deq_step u) s s' \<and> t_pc s' u = CRet pos ys \<and> length ys = unat n \<and> cons_tail s' = old + n"
  using assms
proof (induction "unat n - length xs" arbitrary: s xs)
  case 0
  have "length xs = unat n" using 0 ring_invD(11) [OF 0(2), of u] by (auto simp: cons_mid_def)
  let ?s1 = "at_pc u (CWait old pos n xs) s"
  let ?s2 = "at_pc u (CRet pos xs) (?s1\<lparr>t_ring := cons_tail_set (old + n) (t_ring ?s1), t_ct := pos + unat n\<rparr>)"
  have "ring_deq_step u s ?s1" by (rule c_copied [OF 0(3) \<open>length xs = unat n\<close>])
  moreover have "ring_deq_step u ?s1 ?s2" by (rule c_publish) (simp_all add: 0(4))
  ultimately have "rtranclp (ring_deq_step u) s ?s2" by (blast intro: converse_rtranclp_into_rtranclp r_into_rtranclp)
  then show ?case using \<open>length xs = unat n\<close> by (intro exI [of _ ?s2] exI [of _ xs]) simp
next
  case (Suc k)
  let ?i = "unat ((old + of_nat (length xs)) AND r_mask (t_ring s))"
  have i: "length xs < unat n" and k: "k = unat n - length (xs @ [r_tbl (t_ring s) ! ?i])" using Suc.hyps(2) by simp_all
  let ?s1 = "at_pc u (CCopy old pos n (xs @ [r_tbl (t_ring s) ! ?i])) s"
  note c = copy_out_inv [OF Suc.prems(1,2) i refl]
  have "ring_deq_step u s ?s1" using c_copy [OF Suc.prems(2) i refl] c(1) by simp
  moreover obtain s' ys where "rtranclp (ring_deq_step u) ?s1 s'" "t_pc s' u = CRet pos ys" "length ys = unat n" "cons_tail s' = old + n"
    using Suc.hyps(1) [OF k c(2)] Suc.prems(3) by auto
  ultimately show ?case by (blast intro: converse_rtranclp_into_rtranclp)
qed

lemma enq_turn_ends:
  assumes "ring_inv s" "enq_mid (prod_tail s) m (t_pc s u)"
  shows "\<exists>s'. rtranclp (ring_enq_step u) s s' \<and> t_pc s' u = PRet m \<and> prod_tail s' = prod_tail s + m"
proof (cases "t_pc s u")
  case (PCopy objs old pos n i)
  then show ?thesis using enq_alone [OF assms(1) PCopy] assms(2) by (simp add: enq_mid_def)
next
  case (PWait objs old pos n)
  then have "prod_tail s = old" "m = n" using assms(2) by (simp_all add: enq_mid_def)
  then show ?thesis using r_into_rtranclp [of "ring_enq_step u", OF p_publish [OF PWait]] by fastforce
qed (use assms in \<open>simp_all add: enq_mid_def\<close>)

lemma deq_turn_ends:
  assumes "ring_inv s" "deq_mid (cons_tail s) m (t_pc s u)"
  shows "\<exists>s' pos ys. rtranclp (ring_deq_step u) s s' \<and> t_pc s' u = CRet pos ys \<and> length ys = unat m \<and> cons_tail s' = cons_tail s + m"
proof (cases "t_pc s u")
  case (CCopy old pos n xs)
  then show ?thesis using deq_alone [OF assms(1) CCopy] assms(2) by (fastforce simp: deq_mid_def)
next
  case (CWait old pos n xs)
  then have "cons_tail s = old" "m = n" using assms(2) by (simp_all add: deq_mid_def)
  moreover have "length xs = unat n" using ring_invD(11) [OF assms(1), of u] CWait by simp
  ultimately show ?thesis using r_into_rtranclp [of "ring_deq_step u", OF c_publish [OF CWait]] by fastforce
qed (use assms in \<open>simp_all add: deq_mid_def\<close>)

section \<open>Nobody else does\<close>

lemma enq_spins:
  assumes "ring_wf r" "ring_reach (threads_start r) s" "rtranclp (step_without u) s s'" "u \<noteq> t"
    "enq_mid (prod_tail s) m (t_pc s u)" "t_pc s t = PWait objs old pos n"
  shows "ring_reach (threads_start r) s' \<and> prod_tail s' = prod_tail s \<and> t_pc s' u = t_pc s u \<and> t_pc s' t = PWait objs old pos n \<and> no_step t s'"
  using assms(3)
proof (induction rule: rtranclp_induct)
  case base
  have "ring_inv s" using reach_ok [OF assms(2,1)] by simp
  then have "prod_tail s \<noteq> old" using enq_turn_one [of s m u n t] assms(4-6) by (auto simp: enq_mid_def)
  then show ?case using assms(2,6) wait_no_step(1) by blast
next
  case (step s1 s2)
  obtain v where v: "recent s1" "v \<noteq> u" "ring_enq_step v s1 s2 \<or> ring_deq_step v s1 s2" using step.hyps(2) by (auto simp: step_without_def)
  have inv: "ring_inv s1" using reach_ok [OF _ assms(1)] step.IH by blast
  have turn: "enq_mid (prod_tail s1) m (t_pc s1 u)" using step.IH assms(5) by simp
  have vt: "v \<noteq> t" using step.IH v(3) by (auto simp: no_step_def)
  have tail: "prod_tail s2 = prod_tail s1"
    using v(3) enq_frame(3) [of v s1 s2] deq_frame(2) [of v s1 s2] enq_turn_one [OF inv turn] v(2) by metis
  have pcs: "t_pc s2 u = t_pc s1 u" "t_pc s2 t = t_pc s1 t" using v(2,3) vt enq_frame(1) deq_frame(1) by metis+
  have "ring_reach (threads_start r) s2" using reach_step [OF _ v(1)] step.IH v(3) by (auto simp: ring_step_def)
  moreover have "prod_tail s1 \<noteq> old" using enq_turn_one [OF inv turn, of n t] step.IH assms(4) by (auto simp: enq_mid_def)
  ultimately show ?case using step.IH tail pcs wait_no_step(1) [of s2 t objs old pos n] by simp
qed

lemma deq_spins:
  assumes "ring_wf r" "ring_reach (threads_start r) s" "rtranclp (step_without u) s s'" "u \<noteq> t"
    "deq_mid (cons_tail s) m (t_pc s u)" "t_pc s t = CWait old pos n xs"
  shows "ring_reach (threads_start r) s' \<and> cons_tail s' = cons_tail s \<and> t_pc s' u = t_pc s u \<and> t_pc s' t = CWait old pos n xs \<and> no_step t s'"
  using assms(3)
proof (induction rule: rtranclp_induct)
  case base
  have "ring_inv s" using reach_ok [OF assms(2,1)] by simp
  then have "cons_tail s \<noteq> old" using deq_turn_one [of s m u n t] assms(4-6) by (auto simp: deq_mid_def)
  then show ?case using assms(2,6) wait_no_step(2) by blast
next
  case (step s1 s2)
  obtain v where v: "recent s1" "v \<noteq> u" "ring_enq_step v s1 s2 \<or> ring_deq_step v s1 s2" using step.hyps(2) by (auto simp: step_without_def)
  have inv: "ring_inv s1" using reach_ok [OF _ assms(1)] step.IH by blast
  have turn: "deq_mid (cons_tail s1) m (t_pc s1 u)" using step.IH assms(5) by simp
  have vt: "v \<noteq> t" using step.IH v(3) by (auto simp: no_step_def)
  have tail: "cons_tail s2 = cons_tail s1"
    using v(3) deq_frame(3) [of v s1 s2] enq_frame(2) [of v s1 s2] deq_turn_one [OF inv turn] v(2) by metis
  have pcs: "t_pc s2 u = t_pc s1 u" "t_pc s2 t = t_pc s1 t" using v(2,3) vt enq_frame(1) deq_frame(1) by metis+
  have "ring_reach (threads_start r) s2" using reach_step [OF _ v(1)] step.IH v(3) by (auto simp: ring_step_def)
  moreover have "cons_tail s1 \<noteq> old" using deq_turn_one [OF inv turn, of n t] step.IH assms(4) by (auto simp: deq_mid_def)
  ultimately show ?case using step.IH tail pcs wait_no_step(2) [of s2 t old pos n xs] by simp
qed

section \<open>Property\<close>

text \<open>
  C6: Who waits for whom. When a thread \<open>t\<close> waits in an enqueue, either the tail has reached it and it can publish, or there is exactly one
  other thread in the middle of an enqueue whose places begin at the tail. This thread can end its call by its own steps alone, and the tail then
  moves past its places; so some call always can go on. But nobody else can do it: as long as it takes no step, whatever the others do,
  the tail stays and \<open>t\<close> spins. The same for dequeues. Nothing is said of when a thread is scheduled: a preempted thread in turn
  blocks all that wait.
\<close>

theorem ring_waits_move_on:
  assumes "ring_wf r" "ring_reach (threads_start r) s"
  shows "(\<forall>t objs old pos n. t_pc s t = PWait objs old pos n \<longrightarrow>
      (\<exists>s'. ring_enq_step t s s' \<and> t_pc s' t = PRet n \<and> prod_tail s' = old + n) \<or>
      (\<exists>!u. \<exists>m. u \<noteq> t \<and> enq_mid (prod_tail s) m (t_pc s u) \<and>
        (\<exists>s'. rtranclp (ring_enq_step u) s s' \<and> t_pc s' u = PRet m \<and> prod_tail s' = prod_tail s + m) \<and>
        (\<forall>s'. rtranclp (step_without u) s s' \<longrightarrow> prod_tail s' = prod_tail s \<and> t_pc s' t = PWait objs old pos n \<and> no_step t s'))) \<and>
    (\<forall>t old pos n xs. t_pc s t = CWait old pos n xs \<longrightarrow>
      (\<exists>s'. ring_deq_step t s s' \<and> t_pc s' t = CRet pos xs \<and> cons_tail s' = old + n) \<or>
      (\<exists>!u. \<exists>m. u \<noteq> t \<and> deq_mid (cons_tail s) m (t_pc s u) \<and>
        (\<exists>s' pos' ys. rtranclp (ring_deq_step u) s s' \<and> t_pc s' u = CRet pos' ys \<and> length ys = unat m \<and> cons_tail s' = cons_tail s + m) \<and>
        (\<forall>s'. rtranclp (step_without u) s s' \<longrightarrow> cons_tail s' = cons_tail s \<and> t_pc s' t = CWait old pos n xs \<and> no_step t s')))"
proof (intro conjI allI impI)
  have ok: "ring_inv s" "effects_ok (ring_items r) s" using reach_ok [OF assms(2,1)] by simp_all
  fix t objs old pos n assume t: "t_pc s t = PWait objs old pos n"
  obtain u m where u: "enq_mid (prod_tail s) m (t_pc s u)" using enq_turn [OF ok t] by blast
  show "(\<exists>s'. ring_enq_step t s s' \<and> t_pc s' t = PRet n \<and> prod_tail s' = old + n) \<or>
      (\<exists>!u. \<exists>m. u \<noteq> t \<and> enq_mid (prod_tail s) m (t_pc s u) \<and>
        (\<exists>s'. rtranclp (ring_enq_step u) s s' \<and> t_pc s' u = PRet m \<and> prod_tail s' = prod_tail s + m) \<and>
        (\<forall>s'. rtranclp (step_without u) s s' \<longrightarrow> prod_tail s' = prod_tail s \<and> t_pc s' t = PWait objs old pos n \<and> no_step t s'))"
  proof (cases "u = t")
    case True
    then have tail: "prod_tail s = old" using u t by (simp add: enq_mid_def)
    show ?thesis by (rule disjI1, rule exI, rule conjI, rule p_publish [OF t tail], simp)
  next
    case False
    have e: "\<forall>s'. rtranclp (step_without u) s s' \<longrightarrow> prod_tail s' = prod_tail s \<and> t_pc s' t = PWait objs old pos n \<and> no_step t s'"
      using enq_spins [OF assms _ False u t] by blast
    have one: "v = u" if "enq_mid (prod_tail s) k (t_pc s v)" for v k using enq_turn_one [OF ok(1) u that] by simp
    show ?thesis
      by (rule disjI2, rule ex1I [of _ u]) (use False u e enq_turn_ends [OF ok(1) u] in blast, use one in blast)
  qed
next
  have ok: "ring_inv s" "effects_ok (ring_items r) s" using reach_ok [OF assms(2,1)] by simp_all
  fix t old pos n xs assume t: "t_pc s t = CWait old pos n xs"
  obtain u m where u: "deq_mid (cons_tail s) m (t_pc s u)" using deq_turn [OF ok t] by blast
  show "(\<exists>s'. ring_deq_step t s s' \<and> t_pc s' t = CRet pos xs \<and> cons_tail s' = old + n) \<or>
      (\<exists>!u. \<exists>m. u \<noteq> t \<and> deq_mid (cons_tail s) m (t_pc s u) \<and>
        (\<exists>s' pos' ys. rtranclp (ring_deq_step u) s s' \<and> t_pc s' u = CRet pos' ys \<and> length ys = unat m \<and> cons_tail s' = cons_tail s + m) \<and>
        (\<forall>s'. rtranclp (step_without u) s s' \<longrightarrow> cons_tail s' = cons_tail s \<and> t_pc s' t = CWait old pos n xs \<and> no_step t s'))"
  proof (cases "u = t")
    case True
    then have tail: "cons_tail s = old" using u t by (simp add: deq_mid_def)
    show ?thesis by (rule disjI1, rule exI, rule conjI, rule c_publish [OF t tail], simp)
  next
    case False
    have e: "\<forall>s'. rtranclp (step_without u) s s' \<longrightarrow> cons_tail s' = cons_tail s \<and> t_pc s' t = CWait old pos n xs \<and> no_step t s'"
      using deq_spins [OF assms _ False u t] by blast
    have one: "v = u" if "deq_mid (cons_tail s) k (t_pc s v)" for v k using deq_turn_one [OF ok(1) u that] by simp
    show ?thesis
      by (rule disjI2, rule ex1I [of _ u]) (use False u e deq_turn_ends [OF ok(1) u] in blast, use one in blast)
  qed
qed

section \<open>A thread that waits for another\<close>

text \<open>
  Thread 0 has reserved a place of the ring \<open>run_ring\<close> and is stopped there; thread 1 has reserved the next place, has copied its object and waits.
\<close>

definition two :: "'o ring_pc \<Rightarrow> 'o ring_pc \<Rightarrow> 'o ring_threads \<Rightarrow> 'o ring_threads" where
  "two p q s = s\<lparr>t_pc := (\<lambda>i. if i = 0 then p else if i = 1 then q else Idle)\<rparr>"

lemma two_simps [simp]:
  "t_pc (two p q s) 0 = p" "t_pc (two p q s) (Suc 0) = q" "t_ring (two p q s) = t_ring s" "t_log (two p q s) = t_log s"
  "t_ch (two p q s) = t_ch s" "t_ct (two p q s) = t_ct s" "t_ops (two p q s) = t_ops s" "t_pt (two p q s) = t_pt s"
  "at_pc 0 p' (two p q s) = two p' q s" "at_pc (Suc 0) q' (two p q s) = two p q' s"
  "(two p q s)\<lparr>t_ring := r\<rparr> = two p q (s\<lparr>t_ring := r\<rparr>)"
  "(two p q s)\<lparr>t_log := l\<rparr> = two p q (s\<lparr>t_log := l\<rparr>)"
  "(two p q s)\<lparr>t_ring := r, t_log := l\<rparr> = two p q (s\<lparr>t_ring := r, t_log := l\<rparr>)"
  by (simp_all add: two_def at_pc_def fun_eq_iff)

lemma two_recent:
  "case p of PMove _ _ _ pos _ \<Rightarrow> length (t_log s) < pos + 2 ^ 32 | CMove _ _ _ pos _ \<Rightarrow> False | _ \<Rightarrow> True \<Longrightarrow>
   case q of PMove _ _ _ pos _ \<Rightarrow> length (t_log s) < pos + 2 ^ 32 | CMove _ _ _ pos _ \<Rightarrow> False | _ \<Rightarrow> True \<Longrightarrow> recent (two p q s)"
  by (auto simp: recent_def two_def split: ring_pc.splits)

lemma two_step:
  "ring_reach s0 (two p q s) \<Longrightarrow> recent (two p q s) \<Longrightarrow> ring_enq_step t (two p q s) s' \<Longrightarrow> s' = two p' q' s1 \<Longrightarrow> ring_reach s0 (two p' q' s1)"
  using reach_step unfolding ring_step_def by metis

definition waiting_state :: "nat ring_threads" where
  "waiting_state = two (PCopy [7] 1 1 1 0) (PWait [8] 2 2 1)
     ((threads_start run_ring)\<lparr>t_log := [1, 7, 8], t_ring := (prod_head_set 3 run_ring)\<lparr>r_tbl := [1, 2, 8, 4]\<rparr>\<rparr>)"

lemma waiting_reach: "ring_reach (threads_start run_ring) waiting_state"
proof -
  let ?F = RTE_RING_QUEUE_FIXED and ?s = "threads_start run_ring" and ?c = "PCopy [7] 1 1 1 0 :: nat ring_pc"
  have st: "t_pc ?s = (\<lambda>_. Idle)" "t_ring ?s = run_ring" "t_ch ?s = 0" "t_ct ?s = 0" "t_log ?s = [1]" "t_ops ?s = []" "t_pt ?s = 1"
    by (simp_all add: threads_start_def run_ring_ok(2)) (simp_all add: run_ring_def ring_sample_def ring_len_def)
  have rr: "r_prod run_ring = \<lparr>ht_head = 1, ht_tail = 1, ht_single = False\<rparr>" "r_cons run_ring = \<lparr>ht_head = 0, ht_tail = 0, ht_single = False\<rparr>"
    "r_tbl run_ring = [1, 2, 3, 4]" "r_mask run_ring = 3" "r_capacity run_ring = 3" by (simp_all add: run_ring_def ring_sample_def)
  have s0: "two Idle Idle ?s = ?s" by (simp add: two_def threads_start_def cong: if_cong)
  let ?a = "?s\<lparr>t_ring := prod_head_set 2 run_ring, t_log := [1, 7]\<rparr>"
  let ?b = "?s\<lparr>t_ring := prod_head_set 3 run_ring, t_log := [1, 7, 8]\<rparr>"
  have r0: "ring_reach ?s (two Idle Idle ?s)" unfolding s0 by (rule reach_start)
  have r1: "ring_reach ?s (two (PHead [7] ?F) Idle ?s)"
    by (rule two_step [OF r0 two_recent p_call [where t = 0 and objs = "[7]" and behavior = ?F]]) simp_all
  have r2: "ring_reach ?s (two (PTail [7] ?F 1 1) Idle ?s)"
    by (rule two_step [OF r1 two_recent p_head [where t = 0]]) (simp_all add: st rr)
  have r3: "ring_reach ?s (two (PMove [7] ?F 1 1 1) Idle ?s)"
    by (rule two_step [OF r2 two_recent p_tail [where t = 0 and n = 1]]) (simp_all add: st rr burst_size_def)
  have r4: "ring_reach ?s (two ?c Idle ?a)"
    by (rule two_step [OF r3 two_recent p_move [where t = 0 and objs = "[7]" and behavior = ?F and old = 1 and pos = 1 and n = 1 and success = True and h = 2]]) (simp_all add: st rr rte_atomic32_cmpset_def)
  have r5: "ring_reach ?s (two ?c (PHead [8] ?F) ?a)"
    by (rule two_step [OF r4 two_recent p_call [where t = "Suc 0" and objs = "[8]" and behavior = ?F]]) simp_all
  have r6: "ring_reach ?s (two ?c (PTail [8] ?F 2 2) ?a)"
    by (rule two_step [OF r5 two_recent p_head [where t = "Suc 0"]]) (simp_all add: rr numeral_2_eq_2)
  have r7: "ring_reach ?s (two ?c (PMove [8] ?F 2 2 1) ?a)"
    by (rule two_step [OF r6 two_recent p_tail [where t = "Suc 0" and n = 1]]) (simp_all add: rr burst_size_def)
  have r8: "ring_reach ?s (two ?c (PCopy [8] 2 2 1 0) ?b)"
    by (rule two_step [OF r7 two_recent p_move [where t = "Suc 0" and objs = "[8]" and behavior = ?F and old = 2 and pos = 2 and n = 1 and success = True and h = 3]]) (simp_all add: rr rte_atomic32_cmpset_def numeral_2_eq_2)
  have r9: "ring_reach ?s (two ?c (PCopy [8] 2 2 1 1) (?b\<lparr>t_ring := (t_ring ?b)\<lparr>r_tbl := [1, 2, 8, 4]\<rparr>\<rparr>))"
    by (rule two_step [OF r8 two_recent p_copy [where t = "Suc 0" and objs = "[8]" and old = 2 and pos = 2 and n = 1 and i = 0]]) (simp_all add: rr tbl_put_def)
  have "ring_reach ?s (two ?c (PWait [8] 2 2 1) (?b\<lparr>t_ring := (t_ring ?b)\<lparr>r_tbl := [1, 2, 8, 4]\<rparr>\<rparr>))"
    by (rule two_step [OF r9 two_recent p_copied [where t = "Suc 0" and objs = "[8]" and old = 2 and pos = 2 and n = 1 and i = 1]]) simp_all
  then show ?thesis by (simp add: waiting_state_def)
qed

theorem ring_waits_move_on_witness:
  "\<exists>u. u \<noteq> 1 \<and> enq_mid 1 1 (t_pc waiting_state u) \<and>
     (\<exists>s'. rtranclp (ring_enq_step u) waiting_state s' \<and> t_pc s' u = PRet 1 \<and> prod_tail s' = 2) \<and>
     (\<forall>s'. rtranclp (step_without u) waiting_state s' \<longrightarrow> prod_tail s' = 1 \<and> t_pc s' 1 = PWait [8] 2 2 1 \<and> no_step 1 s')"
proof -
  have w: "t_pc waiting_state 1 = PWait [8] 2 2 1" "prod_tail waiting_state = 1"
    by (simp_all add: waiting_state_def run_ring_def ring_sample_def)
  have stuck: "\<not> (\<exists>s'. ring_enq_step 1 waiting_state s' \<and> t_pc s' 1 = PRet 1 \<and> prod_tail s' = 2 + 1)"
    using wait_no_step(1) [OF w(1)] w(2) by (auto simp: no_step_def)
  obtain u m where u: "u \<noteq> 1" "enq_mid 1 m (t_pc waiting_state u)"
    "\<exists>s'. rtranclp (ring_enq_step u) waiting_state s' \<and> t_pc s' u = PRet m \<and> prod_tail s' = 1 + m"
    "\<forall>s'. rtranclp (step_without u) waiting_state s' \<longrightarrow> prod_tail s' = 1 \<and> t_pc s' 1 = PWait [8] 2 2 1 \<and> no_step 1 s'"
    using ring_waits_move_on [OF run_ring_ok(1) waiting_reach, THEN conjunct1, rule_format, OF w(1)] stuck unfolding w(2) by blast
  have "m = 1" using u(1,2) by (auto simp: waiting_state_def two_def enq_mid_def split: if_splits)
  then show ?thesis using u by auto
qed

end
