(* ===== verification/PoolContract.thy ===== *)
theory PoolContract
  imports Prelude "HOL-Library.Multiset"
begin

text \<open>
  What the packet pools rely on from the store behind them: a bag of objects with a bulk
  insertion that succeeds while there is room (of no objects at all, it changes nothing) and a bulk removal that gives all or nothing.
  A driver is a record of its two operations, each called with a table and a number of
  objects; a removal overwrites the front of the caller's table.
\<close>

record ('o, 'p) pool_ops =
  op_enqueue :: "'p \<Rightarrow> 'o list \<Rightarrow> u32 \<Rightarrow> (c_int \<times> 'p) option"
  op_dequeue :: "'p \<Rightarrow> 'o list \<Rightarrow> u32 \<Rightarrow> (c_int \<times> 'o list \<times> 'p) option"
  op_get_count :: "'p \<Rightarrow> u32 option"

locale bulk_pool =
  fixes ops :: "('o, 'p) pool_ops"
    and pinv :: "'p \<Rightarrow> bool"
    and pitems :: "'p \<Rightarrow> 'o list"
    and pcap :: "'p \<Rightarrow> nat"
  assumes enqueue_ok: "pinv p \<Longrightarrow> 0 < n \<Longrightarrow> unat n \<le> length objs \<Longrightarrow> length (pitems p) + unat n \<le> pcap p \<Longrightarrow>
      \<exists>p'. op_enqueue ops p objs n = Some (0, p') \<and> pinv p' \<and> pcap p' = pcap p \<and>
           mset (pitems p') = mset (pitems p) + mset (take (unat n) objs)"
    and enqueue_none: "pinv p \<Longrightarrow> \<exists>ret. op_enqueue ops p objs 0 = Some (ret, p)"
    and dequeue_ok: "pinv p \<Longrightarrow> 0 < n \<Longrightarrow> unat n \<le> length objs \<Longrightarrow> unat n \<le> length (pitems p) \<Longrightarrow>
      \<exists>out p'. op_dequeue ops p objs n = Some (0, out @ drop (unat n) objs, p') \<and> length out = unat n \<and>
           pinv p' \<and> pcap p' = pcap p \<and> mset (pitems p) = mset out + mset (pitems p')"
    and dequeue_short: "pinv p \<Longrightarrow> unat n \<le> length objs \<Longrightarrow> length (pitems p) < unat n \<Longrightarrow>
      \<exists>err. op_dequeue ops p objs n = Some (err, objs, p) \<and> err < 0"
    and count_ok: "pinv p \<Longrightarrow> \<exists>n. op_get_count ops p = Some n \<and> unat n = length (pitems p)"
    and cap_ok: "pinv p \<Longrightarrow> length (pitems p) \<le> pcap p"

end
