(* ===== verification/Mempool.thy ===== *)
theory Mempool
  imports PoolContract
begin

text \<open>
  Memory pools (\<open>rte_mempool.h\<close>, \<open>rte_mempool.c\<close>): taking objects from a pool and putting
  them back, through the cache of the calling core or around it. The driver behind a pool is
  a record of operations; the lemmas about the caches are proved once, for every driver that
  satisfies \<open>bulk_pool\<close>. The build has no debug cookies and no statistics.

  \<open>lcore\<close> is what \<open>rte_lcore_id\<close> returns. A cache has room for \<open>3 * 512\<close> objects; an access
  beyond them is \<open>None\<close>.
\<close>

section \<open>State\<close>

definition RTE_MEMPOOL_CACHE_MAX_SIZE :: nat where "RTE_MEMPOOL_CACHE_MAX_SIZE = 512"
definition RTE_MAX_LCORE :: nat where "RTE_MAX_LCORE = 128"

record 'o mempool_cache =
  c_size :: u32
  c_flushthresh :: u32
  c_len :: u32
  c_objs :: "'o list"

text \<open>A chunk of memory; \<open>mh_free\<close> says whether it has a callback, run with \<open>mh_opaque\<close>.\<close>

record memhdr =
  mh_addr :: nat
  mh_iova :: u64
  mh_len :: u64
  mh_free :: bool
  mh_opaque :: nat

text \<open>
  The list of the objects' headers has each object with its IO address, and the number of
  chunks is the length of their list. \<open>mp_data\<close> is what the driver keeps behind \<open>pool_data\<close>.
\<close>

record ('o, 'p) mempool =
  mp_size :: u32
  mp_cache_size :: u32
  mp_flags :: u32
  mp_header_size :: u32
  mp_elt_size :: u32
  mp_trailer_size :: u32
  mp_populated_size :: u32
  mp_elts :: "('o \<times> u64) list"
  mp_mems :: "memhdr list"
  mp_data :: 'p
  mp_caches :: "'o mempool_cache list"

section \<open>Operations\<close>

definition rte_mempool_ops_enqueue_bulk ::
    "('o, 'p) pool_ops \<Rightarrow> ('o, 'p) mempool \<Rightarrow> 'o list \<Rightarrow> u32 \<Rightarrow> (c_int \<times> ('o, 'p) mempool) option" where
  "rte_mempool_ops_enqueue_bulk ops mp objs n = do {
     (ret, p) \<leftarrow> op_enqueue ops (mp_data mp) objs n;
     Some (ret, mp\<lparr>mp_data := p\<rparr>) }"

definition rte_mempool_ops_dequeue_bulk ::
    "('o, 'p) pool_ops \<Rightarrow> ('o, 'p) mempool \<Rightarrow> 'o list \<Rightarrow> u32 \<Rightarrow> (c_int \<times> 'o list \<times> ('o, 'p) mempool) option" where
  "rte_mempool_ops_dequeue_bulk ops mp objs n = do {
     (ret, objs, p) \<leftarrow> op_dequeue ops (mp_data mp) objs n;
     Some (ret, objs, mp\<lparr>mp_data := p\<rparr>) }"

definition rte_mempool_default_cache :: "('o, 'p) mempool \<Rightarrow> u32 \<Rightarrow> nat option" where
  "rte_mempool_default_cache mp lcore =
     (if mp_cache_size mp = 0 then None
      else if RTE_MAX_LCORE \<le> unat lcore then None
      else Some (unat lcore))"

text \<open>Copying \<open>n\<close> objects to index \<open>i\<close> of the cache, and the pointer \<open>&cache->objs[i]\<close>.\<close>

definition cache_copy :: "'o list \<Rightarrow> nat \<Rightarrow> 'o list \<Rightarrow> nat \<Rightarrow> 'o list option" where
  "cache_copy cobjs i objs n =
     (if i + n \<le> length cobjs \<and> n \<le> length objs
      then Some (take i cobjs @ take n objs @ drop (i + n) cobjs) else None)"

text \<open>
  The cache is an argument (\<open>None\<close> is NULL) and comes back changed. The result of the
  driver's insertion is not looked at.
\<close>

definition mempool_generic_put ::
    "('o, 'p) pool_ops \<Rightarrow> ('o, 'p) mempool \<Rightarrow> 'o list \<Rightarrow> u32 \<Rightarrow> 'o mempool_cache option \<Rightarrow>
     (('o, 'p) mempool \<times> 'o mempool_cache option) option" where
  "mempool_generic_put ops mp objs n cache =
     (case (if RTE_MEMPOOL_CACHE_MAX_SIZE < unat n then None else cache) of
        None \<Rightarrow> do {
          (_, mp) \<leftarrow> rte_mempool_ops_enqueue_bulk ops mp objs n;
          Some (mp, cache) }
      | Some c \<Rightarrow> do {
          cobjs \<leftarrow> cache_copy (c_objs c) (unat (c_len c)) objs (unat n);
          let c = c\<lparr>c_objs := cobjs, c_len := c_len c + n\<rparr>;
          if c_len c \<ge> c_flushthresh c then do {
            (_, mp) \<leftarrow> rte_mempool_ops_enqueue_bulk ops mp (drop (unat (c_size c)) (c_objs c)) (c_len c - c_size c);
            Some (mp, Some (c\<lparr>c_len := c_size c\<rparr>)) }
          else Some (mp, Some c) })"

text \<open>The response loop: \<open>n\<close> objects from \<open>cache_objs[len]\<close> downwards, into \<open>obj_table\<close> upwards.\<close>

fun cache_take :: "'o list \<Rightarrow> nat \<Rightarrow> u32 \<Rightarrow> 'o list option" where
  "cache_take cobjs 0 len = Some []"
| "cache_take cobjs (Suc n) len =
     (if unat len < length cobjs
      then map_option (Cons (cobjs ! unat len)) (cache_take cobjs n (len - 1)) else None)"

definition mempool_ring_dequeue ::
    "('o, 'p) pool_ops \<Rightarrow> ('o, 'p) mempool \<Rightarrow> 'o list \<Rightarrow> u32 \<Rightarrow> 'o mempool_cache option \<Rightarrow>
     (c_int \<times> 'o list \<times> ('o, 'p) mempool \<times> 'o mempool_cache option) option" where
  "mempool_ring_dequeue ops mp objs n cache = do {
     (ret, objs, mp) \<leftarrow> rte_mempool_ops_dequeue_bulk ops mp objs n;
     Some (ret, objs, mp, cache) }"

definition cache_fill ::
    "'o mempool_cache \<Rightarrow> 'o list \<Rightarrow> u32 \<Rightarrow> ('o, 'p) mempool \<Rightarrow>
     (c_int \<times> 'o list \<times> ('o, 'p) mempool \<times> 'o mempool_cache option) option" where
  "cache_fill c objs n mp = do {
     out \<leftarrow> cache_take (c_objs c) (unat n) (c_len c - 1);
     _ \<leftarrow> guard (unat n \<le> length objs);
     Some (0, out @ drop (unat n) objs, mp, Some (c\<lparr>c_len := c_len c - n\<rparr>)) }"

definition mempool_generic_get ::
    "('o, 'p) pool_ops \<Rightarrow> ('o, 'p) mempool \<Rightarrow> 'o list \<Rightarrow> u32 \<Rightarrow> 'o mempool_cache option \<Rightarrow>
     (c_int \<times> 'o list \<times> ('o, 'p) mempool \<times> 'o mempool_cache option) option" where
  "mempool_generic_get ops mp objs n cache =
     (case cache of None \<Rightarrow> mempool_ring_dequeue ops mp objs n cache
      | Some c \<Rightarrow>
          if n \<ge> c_size c then mempool_ring_dequeue ops mp objs n cache
          else if c_len c < n then do {
            let req = n + (c_size c - c_len c);
            _ \<leftarrow> guard (unat (c_len c) + unat req \<le> length (c_objs c));
            (ret, filled, mp) \<leftarrow> rte_mempool_ops_dequeue_bulk ops mp (drop (unat (c_len c)) (c_objs c)) req;
            let c = c\<lparr>c_objs := take (unat (c_len c)) (c_objs c) @ filled\<rparr>;
            if ret < 0 then mempool_ring_dequeue ops mp objs n (Some c)
            else cache_fill (c\<lparr>c_len := c_len c + req\<rparr>) objs n mp }
          else cache_fill c objs n mp)"

text \<open>The end of \<open>rte_mempool_cache_flush\<close>, for the cache that has been chosen.\<close>

definition flush_cache ::
    "('o, 'p) pool_ops \<Rightarrow> 'o mempool_cache option \<Rightarrow> ('o, 'p) mempool \<Rightarrow>
     (('o, 'p) mempool \<times> 'o mempool_cache option) option" where
  "flush_cache ops cache mp =
     (case cache of None \<Rightarrow> Some (mp, cache)
      | Some c \<Rightarrow>
          if c_len c = 0 then Some (mp, cache)
          else do {
            (_, mp) \<leftarrow> rte_mempool_ops_enqueue_bulk ops mp (c_objs c) (c_len c);
            Some (mp, Some (c\<lparr>c_len := 0\<rparr>)) })"

text \<open>The calls of an application: through the default cache of the core.\<close>

definition get_cache :: "('o, 'p) mempool \<Rightarrow> u32 \<Rightarrow> 'o mempool_cache option option" where
  "get_cache mp lcore =
     (case rte_mempool_default_cache mp lcore of None \<Rightarrow> Some None
      | Some i \<Rightarrow> if i < length (mp_caches mp) then Some (Some (mp_caches mp ! i)) else None)"

definition set_cache :: "u32 \<Rightarrow> 'o mempool_cache option \<Rightarrow> ('o, 'p) mempool \<Rightarrow> ('o, 'p) mempool" where
  "set_cache lcore cache mp =
     (case cache of None \<Rightarrow> mp | Some c \<Rightarrow> mp\<lparr>mp_caches := (mp_caches mp)[unat lcore := c]\<rparr>)"

text \<open>\<open>cache\<close> is a cache of the caller, which is returned; with NULL it is the default cache of the core that is flushed.\<close>

definition rte_mempool_cache_flush ::
    "('o, 'p) pool_ops \<Rightarrow> u32 \<Rightarrow> 'o mempool_cache option \<Rightarrow> ('o, 'p) mempool \<Rightarrow>
     (('o, 'p) mempool \<times> 'o mempool_cache option) option" where
  "rte_mempool_cache_flush ops lcore cache mp =
     (case cache of
        Some c \<Rightarrow> flush_cache ops (Some c) mp
      | None \<Rightarrow> do {
          default \<leftarrow> get_cache mp lcore;
          (mp, default) \<leftarrow> flush_cache ops default mp;
          Some (set_cache lcore default mp, None) })"

definition rte_mempool_put_bulk ::
    "('o, 'p) pool_ops \<Rightarrow> u32 \<Rightarrow> ('o, 'p) mempool \<Rightarrow> 'o list \<Rightarrow> u32 \<Rightarrow> ('o, 'p) mempool option" where
  "rte_mempool_put_bulk ops lcore mp objs n = do {
     cache \<leftarrow> get_cache mp lcore;
     (mp, cache) \<leftarrow> mempool_generic_put ops mp objs n cache;
     Some (set_cache lcore cache mp) }"

definition rte_mempool_put ::
    "('o, 'p) pool_ops \<Rightarrow> u32 \<Rightarrow> ('o, 'p) mempool \<Rightarrow> 'o \<Rightarrow> ('o, 'p) mempool option" where
  "rte_mempool_put ops lcore mp ob = rte_mempool_put_bulk ops lcore mp [ob] 1"

definition rte_mempool_get_bulk ::
    "('o, 'p) pool_ops \<Rightarrow> u32 \<Rightarrow> ('o, 'p) mempool \<Rightarrow> 'o list \<Rightarrow> u32 \<Rightarrow> (c_int \<times> 'o list \<times> ('o, 'p) mempool) option" where
  "rte_mempool_get_bulk ops lcore mp objs n = do {
     cache \<leftarrow> get_cache mp lcore;
     (ret, objs, mp, cache) \<leftarrow> mempool_generic_get ops mp objs n cache;
     Some (ret, objs, set_cache lcore cache mp) }"

definition rte_mempool_get ::
    "('o, 'p) pool_ops \<Rightarrow> u32 \<Rightarrow> ('o, 'p) mempool \<Rightarrow> 'o \<Rightarrow> (c_int \<times> 'o \<times> ('o, 'p) mempool) option" where
  "rte_mempool_get ops lcore mp x = do {
     (ret, objs, mp) \<leftarrow> rte_mempool_get_bulk ops lcore mp [x] 1;
     Some (ret, hd objs, mp) }"

text \<open>Counting. The sum over the caches of all cores is done in 32 bits.\<close>

definition rte_mempool_avail_count :: "('o, 'p) pool_ops \<Rightarrow> ('o, 'p) mempool \<Rightarrow> u32 option" where
  "rte_mempool_avail_count ops mp = do {
     count \<leftarrow> op_get_count ops (mp_data mp);
     if mp_cache_size mp = 0 then Some count
     else do {
       let count = foldl (\<lambda>n c. n + c_len c) count (mp_caches mp);
       Some (if count > mp_size mp then mp_size mp else count) } }"

definition rte_mempool_in_use_count :: "('o, 'p) pool_ops \<Rightarrow> ('o, 'p) mempool \<Rightarrow> u32 option" where
  "rte_mempool_in_use_count ops mp = do { n \<leftarrow> rte_mempool_avail_count ops mp; Some (mp_size mp - n) }"

definition rte_mempool_full :: "('o, 'p) pool_ops \<Rightarrow> ('o, 'p) mempool \<Rightarrow> bool option" where
  "rte_mempool_full ops mp = do { n \<leftarrow> rte_mempool_avail_count ops mp; Some (n = mp_size mp) }"

definition rte_mempool_empty :: "('o, 'p) pool_ops \<Rightarrow> ('o, 'p) mempool \<Rightarrow> bool option" where
  "rte_mempool_empty ops mp = do { n \<leftarrow> rte_mempool_avail_count ops mp; Some (n = 0) }"

section \<open>Caches\<close>

text \<open>The threshold is the size times 1.5, cut to an integer.\<close>

definition CALC_CACHE_FLUSHTHRESH :: "u32 \<Rightarrow> u32" where
  "CALC_CACHE_FLUSHTHRESH c = of_nat (unat c * 3 div 2)"

definition mempool_cache_init :: "'o mempool_cache \<Rightarrow> u32 \<Rightarrow> 'o mempool_cache" where
  "mempool_cache_init c sz =
     c\<lparr>c_size := sz, c_flushthresh := CALC_CACHE_FLUSHTHRESH sz, c_len := 0\<rparr>"

text \<open>\<open>m\<close> says whether \<open>rte_zmalloc_socket\<close> succeeds, \<open>z\<close> is the zeroed cache. \<open>Inl\<close> is \<open>rte_errno\<close>.\<close>

definition rte_mempool_cache_create :: "bool \<Rightarrow> 'o mempool_cache \<Rightarrow> u32 \<Rightarrow> c_int + 'o mempool_cache" where
  "rte_mempool_cache_create m z sz =
     (if sz = 0 \<or> RTE_MEMPOOL_CACHE_MAX_SIZE < unat sz then Inl EINVAL
      else if \<not> m then Inl ENOMEM
      else Inr (mempool_cache_init z sz))"

text \<open>
  The objects in a cache are the first \<open>len\<close>. Between calls a cache is below its threshold,
  or at its size (a cache of one object has threshold 1).
\<close>

definition cache_items :: "'o mempool_cache \<Rightarrow> 'o list" where
  "cache_items c = take (unat (c_len c)) (c_objs c)"

definition cache_ok :: "'o mempool_cache \<Rightarrow> bool" where
  "cache_ok c \<longleftrightarrow>
     0 < unat (c_size c) \<and> unat (c_size c) \<le> RTE_MEMPOOL_CACHE_MAX_SIZE \<and>
     unat (c_flushthresh c) = unat (c_size c) * 3 div 2 \<and>
     length (c_objs c) = RTE_MEMPOOL_CACHE_MAX_SIZE * 3 \<and>
     (unat (c_len c) < unat (c_flushthresh c) \<or> c_len c = c_size c)"

lemma cache_bounds:
  assumes "cache_ok c"
  shows "0 < unat (c_size c)" "unat (c_size c) \<le> 512" "unat (c_size c) \<le> unat (c_flushthresh c)"
    "unat (c_flushthresh c) \<le> 768" "unat (c_len c) \<le> 768" "length (c_objs c) = 1536"
    "unat (c_len c) \<le> unat (c_flushthresh c)"
  using assms by (auto simp: cache_ok_def RTE_MEMPOOL_CACHE_MAX_SIZE_def)

lemma cache_items_length: "cache_ok c \<Longrightarrow> length (cache_items c) = unat (c_len c)"
  using cache_bounds(5,6) by (fastforce simp: cache_items_def)

lemma cache_create_ok:
  assumes "length (c_objs z) = RTE_MEMPOOL_CACHE_MAX_SIZE * 3" "sz \<noteq> 0" "unat sz \<le> RTE_MEMPOOL_CACHE_MAX_SIZE"
  shows "\<exists>c. rte_mempool_cache_create True z sz = Inr c \<and> cache_ok c \<and> cache_items c = [] \<and> c_size c = sz"
proof -
  have "unat (of_nat (unat sz * 3 div 2) :: u32) = unat sz * 3 div 2"
    using assms(3) by (simp add: unat_of_nat RTE_MEMPOOL_CACHE_MAX_SIZE_def)
  moreover have "0 < unat sz" using assms(2) by (simp add: unat_gt_0)
  ultimately show ?thesis using assms
    by (auto simp: rte_mempool_cache_create_def mempool_cache_init_def cache_ok_def cache_items_def
        CALC_CACHE_FLUSHTHRESH_def)
qed

lemma cache_take_rev:
  "n \<le> unat len + 1 \<Longrightarrow> unat len < length cobjs \<Longrightarrow>
     cache_take cobjs n len = Some (rev (take n (drop (unat len + 1 - n) cobjs)))"
proof (induction n arbitrary: len)
  case 0
  then show ?case by simp
next
  case (Suc n)
  show ?case
  proof (cases "n = 0")
    case True
    then show ?thesis using Suc.prems by (simp add: take_Suc_conv_app_nth)
  next
    case False
    then have "0 < unat len" using Suc.prems by simp
    then have u: "unat (len - 1) = unat len - 1" by (simp add: unat_minus_one unat_gt_0)
    have IH: "cache_take cobjs n (len - 1) = Some (rev (take n (drop (unat len - n) cobjs)))"
      using Suc.IH [of "len - 1"] Suc.prems u \<open>0 < unat len\<close> by simp
    have "take (Suc n) (drop (unat len - n) cobjs) = take n (drop (unat len - n) cobjs) @ [cobjs ! unat len]"
      using Suc.prems by (simp add: take_Suc_conv_app_nth)
    then show ?thesis using IH Suc.prems by simp
  qed
qed

section \<open>Conservation\<close>

definition opt_items :: "'o mempool_cache option \<Rightarrow> 'o list" where
  "opt_items c = (case c of None \<Rightarrow> [] | Some c \<Rightarrow> cache_items c)"

definition opt_ok :: "'o mempool_cache option \<Rightarrow> bool" where
  "opt_ok c = (case c of None \<Rightarrow> True | Some c \<Rightarrow> cache_ok c)"

lemma opt_simps [simp]:
  "opt_items None = []" "opt_items (Some c) = cache_items c"
  "opt_ok None = True" "opt_ok (Some c) = cache_ok c"
  by (simp_all add: opt_items_def opt_ok_def)

text \<open>What a call leaves alone: everything but the driver's data.\<close>

definition same_pool :: "('o, 'p) mempool \<Rightarrow> ('o, 'p) mempool \<Rightarrow> bool" where
  "same_pool mp mp' \<longleftrightarrow> mp_size mp' = mp_size mp \<and> mp_cache_size mp' = mp_cache_size mp \<and>
     mp_flags mp' = mp_flags mp \<and> mp_header_size mp' = mp_header_size mp \<and> mp_elt_size mp' = mp_elt_size mp \<and>
     mp_trailer_size mp' = mp_trailer_size mp \<and> mp_populated_size mp' = mp_populated_size mp \<and>
     mp_elts mp' = mp_elts mp \<and> mp_mems mp' = mp_mems mp \<and> mp_caches mp' = mp_caches mp"

lemma same_pool_data: "same_pool mp (mp\<lparr>mp_data := p\<rparr>)"
  by (simp add: same_pool_def)

lemma take_append_items:
  assumes "cache_ok c" "i \<le> unat (c_len c)"
  shows "cache_items c = take i (c_objs c) @ take (unat (c_len c) - i) (drop i (c_objs c))"
  using assms(2) by (simp add: cache_items_def take_add [symmetric])

lemma len_add:
  assumes "cache_ok c" "unat n \<le> 512"
  shows "unat (c_len c + n) = unat (c_len c) + unat n"
  using cache_bounds(5) [OF assms(1)] assms(2) by (subst unat_add_no_overflow) auto

lemma put_copy:
  assumes "cache_ok c" "unat n \<le> 512" "unat n \<le> length objs"
  shows "\<exists>cobjs. cache_copy (c_objs c) (unat (c_len c)) objs (unat n) = Some cobjs \<and> length cobjs = 1536 \<and>
     take (unat (c_len c) + unat n) cobjs = cache_items c @ take (unat n) objs"
  using cache_bounds [OF assms(1)] assms(2,3) by (simp add: cache_copy_def cache_items_def)

context bulk_pool
begin

lemma pool_enqueue:
  assumes "pinv (mp_data mp)" "0 < n" "unat n \<le> length objs" "length (pitems (mp_data mp)) + unat n \<le> pcap (mp_data mp)"
  shows "\<exists>mp'. rte_mempool_ops_enqueue_bulk ops mp objs n = Some (0, mp') \<and> same_pool mp mp' \<and> pinv (mp_data mp') \<and>
     pcap (mp_data mp') = pcap (mp_data mp) \<and>
     mset (pitems (mp_data mp')) = mset (pitems (mp_data mp)) + mset (take (unat n) objs)"
  using enqueue_ok [OF assms] by (auto simp: rte_mempool_ops_enqueue_bulk_def same_pool_def)

lemma pool_dequeue:
  assumes "pinv (mp_data mp)" "0 < n" "unat n \<le> length objs" "unat n \<le> length (pitems (mp_data mp))"
  shows "\<exists>out mp'. rte_mempool_ops_dequeue_bulk ops mp objs n = Some (0, out @ drop (unat n) objs, mp') \<and>
     length out = unat n \<and> same_pool mp mp' \<and> pinv (mp_data mp') \<and> pcap (mp_data mp') = pcap (mp_data mp) \<and>
     mset (pitems (mp_data mp)) = mset out + mset (pitems (mp_data mp'))"
proof -
  obtain out p' where d: "op_dequeue ops (mp_data mp) objs n = Some (0, out @ drop (unat n) objs, p')"
    "length out = unat n" "pinv p'" "pcap p' = pcap (mp_data mp)"
    "mset (pitems (mp_data mp)) = mset out + mset (pitems p')"
    using dequeue_ok [OF assms] by blast
  then show ?thesis
    by (intro exI [of _ out] exI [of _ "mp\<lparr>mp_data := p'\<rparr>"])
       (simp add: rte_mempool_ops_dequeue_bulk_def same_pool_def)
qed

lemma pool_dequeue_short:
  assumes "pinv (mp_data mp)" "unat n \<le> length objs" "length (pitems (mp_data mp)) < unat n"
  shows "\<exists>err. rte_mempool_ops_dequeue_bulk ops mp objs n = Some (err, objs, mp) \<and> err < 0"
  using dequeue_short [OF assms] by (auto simp: rte_mempool_ops_dequeue_bulk_def)

text \<open>A flush may have nothing to flush: a cache of one object has threshold 1.\<close>

lemma pool_flush:
  assumes "pinv (mp_data mp)" "unat n \<le> length objs" "length (pitems (mp_data mp)) + unat n \<le> pcap (mp_data mp)"
  shows "\<exists>ret mp'. rte_mempool_ops_enqueue_bulk ops mp objs n = Some (ret, mp') \<and> same_pool mp mp' \<and> pinv (mp_data mp') \<and>
     pcap (mp_data mp') = pcap (mp_data mp) \<and>
     mset (pitems (mp_data mp')) = mset (pitems (mp_data mp)) + mset (take (unat n) objs)"
proof (cases "n = 0")
  case True
  with enqueue_none [OF assms(1), of objs] assms(1) show ?thesis
    by (auto simp: rte_mempool_ops_enqueue_bulk_def same_pool_def)
next
  case False
  then have "0 < n" by (simp add: word_gt_0)
  with pool_enqueue [OF assms(1) _ assms(2,3)] show ?thesis by blast
qed

text \<open>A put keeps every object: those in the driver, in the cache and put are those in the driver and in the cache.\<close>

lemma generic_put_ok:
  assumes inv: "pinv (mp_data mp)" "opt_ok cache" and n: "0 < n" "unat n \<le> length objs"
    and room: "length (pitems (mp_data mp)) + length (opt_items cache) + unat n \<le> pcap (mp_data mp)"
  shows "\<exists>mp' cache'. mempool_generic_put ops mp objs n cache = Some (mp', cache') \<and> same_pool mp mp' \<and>
     pinv (mp_data mp') \<and> opt_ok cache' \<and> (cache' = None \<longleftrightarrow> cache = None) \<and> pcap (mp_data mp') = pcap (mp_data mp) \<and>
     mset (pitems (mp_data mp')) + mset (opt_items cache') =
       mset (pitems (mp_data mp)) + mset (opt_items cache) + mset (take (unat n) objs)"
proof (cases "cache = None \<or> RTE_MEMPOOL_CACHE_MAX_SIZE < unat n")
  case True
  then have e: "(if RTE_MEMPOOL_CACHE_MAX_SIZE < unat n then None else cache) = None" by auto
  have "length (pitems (mp_data mp)) + unat n \<le> pcap (mp_data mp)" using room by simp
  then obtain mp' where q: "rte_mempool_ops_enqueue_bulk ops mp objs n = Some (0, mp')" "same_pool mp mp'" "pinv (mp_data mp')"
     "pcap (mp_data mp') = pcap (mp_data mp)"
     "mset (pitems (mp_data mp')) = mset (pitems (mp_data mp)) + mset (take (unat n) objs)"
    using pool_enqueue [OF inv(1) n] by blast
  have "mempool_generic_put ops mp objs n cache = Some (mp', cache)"
    unfolding mempool_generic_put_def e by (simp add: q(1))
  with q inv(2) show ?thesis
    by (intro exI [of _ mp'] exI [of _ cache]) simp
next
  case False
  then obtain c where c: "cache = Some c" "unat n \<le> 512" by (auto simp: RTE_MEMPOOL_CACHE_MAX_SIZE_def)
  have ok: "cache_ok c" using inv(2) c by simp
  note b = cache_bounds [OF ok]
  obtain cobjs where cp: "cache_copy (c_objs c) (unat (c_len c)) objs (unat n) = Some cobjs" "length cobjs = 1536"
    "take (unat (c_len c) + unat n) cobjs = cache_items c @ take (unat n) objs"
    using put_copy [OF ok c(2) n(2)] by blast
  note la = len_add [OF ok c(2)]
  have e: "(if RTE_MEMPOOL_CACHE_MAX_SIZE < unat n then None else cache) = Some c"
    using c by (simp add: RTE_MEMPOOL_CACHE_MAX_SIZE_def)
  let ?c = "c\<lparr>c_objs := cobjs, c_len := c_len c + n\<rparr>"
  show ?thesis
  proof (cases "c_len c + n \<ge> c_flushthresh c")
    case False
    then have "unat (c_len c + n) < unat (c_flushthresh c)" by (simp add: not_le word_less_nat_alt)
    then have "cache_ok ?c" using ok cp(2) by (simp add: cache_ok_def RTE_MEMPOOL_CACHE_MAX_SIZE_def)
    moreover have "cache_items ?c = cache_items c @ take (unat n) objs" using cp(3) la by (simp add: cache_items_def)
    ultimately show ?thesis
      using False cp(1) c(1) inv(1) unfolding mempool_generic_put_def e by (simp add: same_pool_def)
  next
    case True
    then have ge: "unat (c_flushthresh c) \<le> unat (c_len c) + unat n" using la by (simp add: word_le_nat_alt)
    let ?m = "c_len c + n - c_size c"
    have m: "unat ?m = unat (c_len c) + unat n - unat (c_size c)"
      using la ge b(3) by (subst unat_sub_le) (auto simp: word_le_nat_alt)
    have room': "length (pitems (mp_data mp)) + unat ?m \<le> pcap (mp_data mp)"
      using room m b(1) c(1) cache_items_length [OF ok] by simp
    have ml: "unat ?m \<le> length (drop (unat (c_size c)) cobjs)" using m b c(2) cp(2) by simp
    obtain ret mp' where q: "rte_mempool_ops_enqueue_bulk ops mp (drop (unat (c_size c)) cobjs) ?m = Some (ret, mp')"
      "same_pool mp mp'" "pinv (mp_data mp')" "pcap (mp_data mp') = pcap (mp_data mp)"
      "mset (pitems (mp_data mp')) = mset (pitems (mp_data mp)) + mset (take (unat ?m) (drop (unat (c_size c)) cobjs))"
      using pool_flush [OF inv(1) ml room'] by blast
    let ?c' = "?c\<lparr>c_len := c_size c\<rparr>"
    have "cache_ok ?c'" using ok cp(2) by (simp add: cache_ok_def RTE_MEMPOOL_CACHE_MAX_SIZE_def)
    moreover have "mset (take (unat ?m) (drop (unat (c_size c)) cobjs)) + mset (cache_items ?c') =
        mset (cache_items c) + mset (take (unat n) objs)"
    proof -
      have "take (unat (c_len c) + unat n) cobjs = take (unat (c_size c)) cobjs @ take (unat ?m) (drop (unat (c_size c)) cobjs)"
        using m ge b(3) take_add [of "unat (c_size c)" "unat ?m" cobjs] by simp
      then have "mset (take (unat (c_len c) + unat n) cobjs) =
          mset (cache_items ?c') + mset (take (unat ?m) (drop (unat (c_size c)) cobjs))"
        by (simp add: cache_items_def)
      then show ?thesis using cp(3) by (simp add: add.commute)
    qed
    moreover have "mempool_generic_put ops mp objs n cache = Some (mp', Some ?c')"
      using True cp(1) q(1) unfolding mempool_generic_put_def e by (simp add: Let_def)
    ultimately show ?thesis using c(1) q(2-5)
      by (intro exI [of _ mp'] exI [of _ "Some ?c'"]) (simp add: add.assoc)
  qed
qed

lemma cache_fill_ok:
  assumes "unat n \<le> unat (c_len c)" "unat (c_len c) \<le> length (c_objs c)" "unat n \<le> length objs" "0 < n"
  shows "\<exists>out. cache_fill c objs n mp = Some (0, out @ drop (unat n) objs, mp, Some (c\<lparr>c_len := c_len c - n\<rparr>)) \<and>
     length out = unat n \<and> mset (cache_items c) = mset out + mset (cache_items (c\<lparr>c_len := c_len c - n\<rparr>))"
proof -
  have pos: "0 < unat n" using assms(4) by (simp add: word_less_nat_alt)
  have "c_len c \<noteq> 0" using pos assms(1) by auto
  then have l1: "unat (c_len c - 1) = unat (c_len c) - 1" by (rule unat_minus_one)
  let ?out = "rev (take (unat n) (drop (unat (c_len c) - unat n) (c_objs c)))"
  have t: "cache_take (c_objs c) (unat n) (c_len c - 1) = Some ?out"
    using cache_take_rev [of "unat n" "c_len c - 1" "c_objs c"] assms(1,2) l1 pos by simp
  have u: "unat (c_len c - n) = unat (c_len c) - unat n"
    using assms(1) by (intro unat_sub_le) (simp add: word_le_nat_alt)
  have "cache_items c = take (unat (c_len c) - unat n) (c_objs c) @ take (unat n) (drop (unat (c_len c) - unat n) (c_objs c))"
    using assms(1) take_add [of "unat (c_len c) - unat n" "unat n" "c_objs c"] by (simp add: cache_items_def)
  then have "mset (cache_items c) = mset ?out + mset (cache_items (c\<lparr>c_len := c_len c - n\<rparr>))"
    by (simp add: cache_items_def u)
  then show ?thesis using t assms(1-3) by (intro exI [of _ ?out]) (simp add: cache_fill_def)
qed

text \<open>
  A get gives \<open>n\<close> objects, which are then gone from driver and cache, or it fails and
  nothing has changed but unused slots of the cache; it fails only when the driver has fewer than \<open>n\<close>.
\<close>

lemma ring_get_ok:
  assumes inv: "pinv (mp_data mp)" "opt_ok cache" and n: "0 < n" "unat n \<le> length objs"
  shows "\<exists>ret objs' mp'. mempool_ring_dequeue ops mp objs n cache = Some (ret, objs', mp', cache) \<and> same_pool mp mp' \<and>
     pinv (mp_data mp') \<and> pcap (mp_data mp') = pcap (mp_data mp) \<and> ret \<le> 0 \<and> length objs' = length objs \<and>
     (if ret = 0 then mset (pitems (mp_data mp)) = mset (take (unat n) objs') + mset (pitems (mp_data mp')) \<and>
                      drop (unat n) objs' = drop (unat n) objs
      else objs' = objs \<and> mp' = mp \<and> length (pitems (mp_data mp)) < unat n)"
proof (cases "unat n \<le> length (pitems (mp_data mp))")
  case True
  obtain out mp' where "rte_mempool_ops_dequeue_bulk ops mp objs n = Some (0, out @ drop (unat n) objs, mp')"
     "length out = unat n" "same_pool mp mp'" "pinv (mp_data mp')" "pcap (mp_data mp') = pcap (mp_data mp)"
     "mset (pitems (mp_data mp)) = mset out + mset (pitems (mp_data mp'))"
    using pool_dequeue [OF inv(1) n True] by blast
  with n(2) show ?thesis by (simp add: mempool_ring_dequeue_def)
next
  case False
  then obtain err where "rte_mempool_ops_dequeue_bulk ops mp objs n = Some (err, objs, mp)" "err < 0"
    using pool_dequeue_short [OF inv(1) n(2)] by auto
  with inv(1) False show ?thesis by (auto simp: mempool_ring_dequeue_def same_pool_def)
qed

definition get_post ::
    "('o, 'p) mempool \<Rightarrow> 'o list \<Rightarrow> u32 \<Rightarrow> 'o mempool_cache option \<Rightarrow> c_int \<Rightarrow> 'o list \<Rightarrow> ('o, 'p) mempool \<Rightarrow>
     'o mempool_cache option \<Rightarrow> bool" where
  "get_post mp objs n cache ret objs' mp' cache' \<longleftrightarrow>
     same_pool mp mp' \<and> pinv (mp_data mp') \<and> opt_ok cache' \<and> (cache' = None \<longleftrightarrow> cache = None) \<and>
     pcap (mp_data mp') = pcap (mp_data mp) \<and> ret \<le> 0 \<and> length objs' = length objs \<and>
     (if ret = 0
      then mset (pitems (mp_data mp)) + mset (opt_items cache) =
             mset (take (unat n) objs') + mset (pitems (mp_data mp')) + mset (opt_items cache')
      else objs' = objs \<and> mp' = mp \<and> opt_items cache' = opt_items cache \<and> length (pitems (mp_data mp)) < unat n)"

lemma ring_get_post:
  assumes "pinv (mp_data mp)" "opt_ok cache" "0 < n" "unat n \<le> length objs"
    "opt_items cache0 = opt_items cache" "cache0 = None \<longleftrightarrow> cache = None"
  shows "\<exists>ret objs' mp' cache'. mempool_ring_dequeue ops mp objs n cache = Some (ret, objs', mp', cache') \<and>
     get_post mp objs n cache0 ret objs' mp' cache'"
  using ring_get_ok [OF assms(1-4)] assms(2,5,6) by (fastforce simp: get_post_def)

lemma generic_get_ok:
  assumes inv: "pinv (mp_data mp)" "opt_ok cache" and n: "0 < n" "unat n \<le> length objs"
  shows "\<exists>ret objs' mp' cache'. mempool_generic_get ops mp objs n cache = Some (ret, objs', mp', cache') \<and>
     get_post mp objs n cache ret objs' mp' cache'"
proof (cases "case cache of None \<Rightarrow> True | Some c \<Rightarrow> n \<ge> c_size c")
  case True
  then have "mempool_generic_get ops mp objs n cache = mempool_ring_dequeue ops mp objs n cache"
    by (auto simp: mempool_generic_get_def split: option.splits)
  with ring_get_post [OF inv n] show ?thesis by simp
next
  case False
  then obtain c where c: "cache = Some c" "\<not> n \<ge> c_size c" by (cases cache) auto
  have ok: "cache_ok c" using inv(2) c by simp
  note b = cache_bounds [OF ok]
  have lt: "unat n < unat (c_size c)" using c(2) by (simp add: not_le word_less_nat_alt)
  show ?thesis
  proof (cases "c_len c < n")
    case False
    then have "unat n \<le> unat (c_len c)" by (simp add: not_less word_le_nat_alt)
    moreover have "unat (c_len c) \<le> length (c_objs c)" using b by simp
    ultimately obtain out where f: "cache_fill c objs n mp = Some (0, out @ drop (unat n) objs, mp, Some (c\<lparr>c_len := c_len c - n\<rparr>))"
      "length out = unat n" "mset (cache_items c) = mset out + mset (cache_items (c\<lparr>c_len := c_len c - n\<rparr>))"
      using cache_fill_ok n by blast
    have "unat (c_len c - n) = unat (c_len c) - unat n" using False by (intro unat_sub_le) (simp add: not_less)
    moreover have "0 < unat n" using n(1) by (simp add: word_less_nat_alt)
    ultimately have "unat (c_len c - n) < unat (c_flushthresh c)" using b(7,1,3) by linarith
    then have "cache_ok (c\<lparr>c_len := c_len c - n\<rparr>)" using ok by (simp add: cache_ok_def)
    with f c False inv n(2) show ?thesis
      by (simp add: mempool_generic_get_def get_post_def same_pool_def)
  next
    case True
    then have ln: "unat (c_len c) < unat n" by (simp add: word_less_nat_alt)
    let ?req = "n + (c_size c - c_len c)"
    have s: "unat (c_size c - c_len c) = unat (c_size c) - unat (c_len c)"
      using ln lt by (intro unat_sub_le) (simp add: word_le_nat_alt)
    have req: "unat ?req = unat n + (unat (c_size c) - unat (c_len c))"
      using s lt b(2) by (subst unat_add_no_overflow) auto
    have fits: "unat (c_len c) + unat ?req \<le> length (c_objs c)" using req ln lt b by simp
    have room: "unat ?req \<le> length (drop (unat (c_len c)) (c_objs c))" using fits by simp
    have rpos: "0 < ?req" using req lt ln by (simp add: word_less_nat_alt)
    have unf: "mempool_generic_get ops mp objs n cache =
      do { (ret, filled, mp) \<leftarrow> rte_mempool_ops_dequeue_bulk ops mp (drop (unat (c_len c)) (c_objs c)) ?req;
           let c = c\<lparr>c_objs := take (unat (c_len c)) (c_objs c) @ filled\<rparr>;
           if ret < 0 then mempool_ring_dequeue ops mp objs n (Some c)
           else cache_fill (c\<lparr>c_len := c_len c + ?req\<rparr>) objs n mp }"
      using c True fits by (simp add: mempool_generic_get_def Let_def)
    show ?thesis
    proof (cases "unat ?req \<le> length (pitems (mp_data mp))")
      case False
      then obtain err where e: "rte_mempool_ops_dequeue_bulk ops mp (drop (unat (c_len c)) (c_objs c)) ?req =
          Some (err, drop (unat (c_len c)) (c_objs c), mp)" "err < 0"
        using pool_dequeue_short [OF inv(1) room] by auto
      then have "mempool_generic_get ops mp objs n cache = mempool_ring_dequeue ops mp objs n (Some c)"
        unfolding unf by (simp add: Let_def)
      with ring_get_post [OF inv n] c(1) show ?thesis by simp
    next
      case en: True
      obtain out mp' where d: "rte_mempool_ops_dequeue_bulk ops mp (drop (unat (c_len c)) (c_objs c)) ?req =
          Some (0, out @ drop (unat ?req) (drop (unat (c_len c)) (c_objs c)), mp')"
        "length out = unat ?req" "same_pool mp mp'" "pinv (mp_data mp')" "pcap (mp_data mp') = pcap (mp_data mp)"
        "mset (pitems (mp_data mp)) = mset out + mset (pitems (mp_data mp'))"
        using pool_dequeue [OF inv(1) rpos room en] by blast
      let ?filled = "out @ drop (unat ?req) (drop (unat (c_len c)) (c_objs c))"
      let ?c = "c\<lparr>c_objs := take (unat (c_len c)) (c_objs c) @ ?filled, c_len := c_len c + ?req\<rparr>"
      have len: "unat (c_len c + ?req) = unat n + unat (c_size c)"
        using req ln lt b by (subst unat_add_no_overflow) auto
      have lobjs: "length (c_objs ?c) = 1536" using d(2) b(5,6) fits by simp
      have le: "unat (c_len c) \<le> 1536" using b(5) by simp
      have "unat n + unat (c_size c) = unat (c_len c) + length out" using d(2) req ln lt by simp
      then have items: "cache_items ?c = cache_items c @ out"
        using le len b(6) by (simp add: cache_items_def min_absorb1)
      have g: "unat n \<le> unat (c_len ?c)" "unat (c_len ?c) \<le> length (c_objs ?c)"
        using len lobjs lt b by simp_all
      obtain out2 where f: "cache_fill ?c objs n mp' = Some (0, out2 @ drop (unat n) objs, mp', Some (?c\<lparr>c_len := c_len ?c - n\<rparr>))"
        "length out2 = unat n" "mset (cache_items ?c) = mset out2 + mset (cache_items (?c\<lparr>c_len := c_len ?c - n\<rparr>))"
        using cache_fill_ok [OF g n(2,1)] by blast
      have cl: "c_len ?c - n = c_size c" by simp
      have ok': "cache_ok (?c\<lparr>c_len := c_len ?c - n\<rparr>)"
        using ok lobjs unfolding cl by (simp add: cache_ok_def RTE_MEMPOOL_CACHE_MAX_SIZE_def)
      have res: "mempool_generic_get ops mp objs n cache =
          Some (0, out2 @ drop (unat n) objs, mp', Some (?c\<lparr>c_len := c_len ?c - n\<rparr>))"
        unfolding unf d(1) using f(1) by (simp add: Let_def)
      have "mset (pitems (mp_data mp)) + mset (cache_items c) = mset (pitems (mp_data mp')) + mset (cache_items ?c)"
        using d(6) items by (simp add: ac_simps)
      then have "mset (pitems (mp_data mp)) + mset (cache_items c) =
          mset out2 + mset (pitems (mp_data mp')) + mset (cache_items (?c\<lparr>c_len := c_len ?c - n\<rparr>))"
        using f(3) by (simp only: ac_simps)
      with res f(2) d ok' c(1) n(2) show ?thesis
        by (intro exI [of _ 0] exI [of _ "out2 @ drop (unat n) objs"] exI [of _ mp']
              exI [of _ "Some (?c\<lparr>c_len := c_len ?c - n\<rparr>)"] conjI) (simp_all add: get_post_def)
    qed
  qed
qed

lemma flush_ok:
  assumes "pinv (mp_data mp)" "opt_ok cache" "length (pitems (mp_data mp)) + length (opt_items cache) \<le> pcap (mp_data mp)"
  shows "\<exists>mp' cache'. flush_cache ops cache mp = Some (mp', cache') \<and> same_pool mp mp' \<and>
     pinv (mp_data mp') \<and> opt_ok cache' \<and> opt_items cache' = [] \<and> (cache' = None \<longleftrightarrow> cache = None) \<and> pcap (mp_data mp') = pcap (mp_data mp) \<and>
     mset (pitems (mp_data mp')) = mset (pitems (mp_data mp)) + mset (opt_items cache)"
proof (cases "case cache of None \<Rightarrow> True | Some c \<Rightarrow> c_len c = 0")
  case True
  then have "flush_cache ops cache mp = Some (mp, cache)" "opt_items cache = []"
    by (auto simp: flush_cache_def cache_items_def split: option.splits)
  with assms show ?thesis by (intro exI [of _ mp] exI [of _ cache]) (simp add: same_pool_def)
next
  case False
  then obtain c where c: "cache = Some c" "c_len c \<noteq> 0" by (cases cache) auto
  have ok: "cache_ok c" using assms(2) c(1) by simp
  have fits: "unat (c_len c) \<le> length (c_objs c)" using cache_bounds [OF ok] by simp
  have "length (pitems (mp_data mp)) + unat (c_len c) \<le> pcap (mp_data mp)"
    using assms(3) c(1) cache_items_length [OF ok] by simp
  then obtain ret mp' where q: "rte_mempool_ops_enqueue_bulk ops mp (c_objs c) (c_len c) = Some (ret, mp')"
    "same_pool mp mp'" "pinv (mp_data mp')" "pcap (mp_data mp') = pcap (mp_data mp)"
    "mset (pitems (mp_data mp')) = mset (pitems (mp_data mp)) + mset (take (unat (c_len c)) (c_objs c))"
    using pool_flush [OF assms(1) fits] by blast
  have "cache_ok (c\<lparr>c_len := 0\<rparr>)" using ok by (auto simp: cache_ok_def)
  with q c show ?thesis
    by (intro exI [of _ mp'] exI [of _ "Some (c\<lparr>c_len := 0\<rparr>)"])
       (simp add: flush_cache_def cache_items_def)
qed

end

section \<open>The whole pool\<close>

definition caches_items :: "'o mempool_cache list \<Rightarrow> 'o multiset" where
  "caches_items cs = sum_list (map (\<lambda>c. mset (cache_items c)) cs)"

text \<open>
  \<open>held\<close> are the objects handed out, \<open>all\<close> the objects the pool was populated with: every object
  is in the driver, in one of the caches, or held.
\<close>

definition pool_ok ::
    "('p \<Rightarrow> bool) \<Rightarrow> ('p \<Rightarrow> 'o list) \<Rightarrow> ('p \<Rightarrow> nat) \<Rightarrow> 'o multiset \<Rightarrow> ('o, 'p) mempool \<Rightarrow> 'o multiset \<Rightarrow> bool" where
  "pool_ok pinv pitems pcap all_objs mp held \<longleftrightarrow>
     pinv (mp_data mp) \<and> list_all cache_ok (mp_caches mp) \<and>
     length (mp_caches mp) = (if mp_cache_size mp = 0 then 0 else RTE_MAX_LCORE) \<and>
     mset (pitems (mp_data mp)) + caches_items (mp_caches mp) + held = all_objs \<and>
     size all_objs \<le> pcap (mp_data mp) \<and> size all_objs = unat (mp_size mp)"

lemma caches_update:
  "i < length cs \<Longrightarrow> caches_items (cs[i := c]) + mset (cache_items (cs ! i)) = caches_items cs + mset (cache_items c)"
  by (induction cs arbitrary: i) (auto simp: caches_items_def ac_simps split: nat.splits)

lemma caches_member: "i < length cs \<Longrightarrow> mset (cache_items (cs ! i)) \<subseteq># caches_items cs"
  using caches_update [of i cs "(cs ! i)\<lparr>c_len := 0\<rparr>"] by (simp add: cache_items_def) (metis mset_subset_eq_add_right)

lemma get_cache_ok:
  assumes "list_all cache_ok (mp_caches mp)" "length (mp_caches mp) = (if mp_cache_size mp = 0 then 0 else RTE_MAX_LCORE)"
  shows "\<exists>cache. get_cache mp lcore = Some cache \<and> opt_ok cache \<and> mset (opt_items cache) \<subseteq># caches_items (mp_caches mp)"
proof (cases "mp_cache_size mp = 0 \<or> RTE_MAX_LCORE \<le> unat lcore")
  case True
  then show ?thesis by (auto simp: get_cache_def rte_mempool_default_cache_def)
next
  case False
  then have l: "unat lcore < length (mp_caches mp)" using assms(2) by simp
  then have "cache_ok (mp_caches mp ! unat lcore)" using assms(1) by (simp add: list_all_length)
  with False l caches_member [OF l] show ?thesis by (simp add: get_cache_def rte_mempool_default_cache_def)
qed

lemma set_cache_ok:
  assumes "list_all cache_ok (mp_caches mp)" "get_cache mp lcore = Some cache" "cache' = None \<longleftrightarrow> cache = None"
    "same_pool mp mp'" "opt_ok cache'"
  shows "list_all cache_ok (mp_caches (set_cache lcore cache' mp'))"
    "length (mp_caches (set_cache lcore cache' mp')) = length (mp_caches mp)"
    "mp_data (set_cache lcore cache' mp') = mp_data mp'" "mp_size (set_cache lcore cache' mp') = mp_size mp"
    "mp_cache_size (set_cache lcore cache' mp') = mp_cache_size mp" "mp_flags (set_cache lcore cache' mp') = mp_flags mp"
    "caches_items (mp_caches (set_cache lcore cache' mp')) + mset (opt_items cache) =
       caches_items (mp_caches mp) + mset (opt_items cache')"
proof -
  have sp: "mp_caches mp' = mp_caches mp" "mp_size mp' = mp_size mp" "mp_cache_size mp' = mp_cache_size mp"
    "mp_flags mp' = mp_flags mp" using assms(4) by (simp_all add: same_pool_def)
  show "mp_data (set_cache lcore cache' mp') = mp_data mp'" "mp_size (set_cache lcore cache' mp') = mp_size mp"
    "mp_cache_size (set_cache lcore cache' mp') = mp_cache_size mp" "mp_flags (set_cache lcore cache' mp') = mp_flags mp"
    "length (mp_caches (set_cache lcore cache' mp')) = length (mp_caches mp)"
    using sp by (simp_all add: set_cache_def split: option.split)
  show "list_all cache_ok (mp_caches (set_cache lcore cache' mp'))"
    using assms(1,5) sp(1) by (auto simp: set_cache_def list_all_length nth_list_update_cases split: option.split)
  show "caches_items (mp_caches (set_cache lcore cache' mp')) + mset (opt_items cache) =
       caches_items (mp_caches mp) + mset (opt_items cache')"
  proof (cases cache)
    case None
    with assms(3) sp(1) show ?thesis by (simp add: set_cache_def)
  next
    case (Some c)
    with assms(2,3) obtain c' where c': "cache' = Some c'" "unat lcore < length (mp_caches mp)" "c = mp_caches mp ! unat lcore"
      by (cases cache') (auto simp: get_cache_def rte_mempool_default_cache_def split: if_splits)
    with Some sp(1) caches_update [of "unat lcore" "mp_caches mp" c'] show ?thesis by (simp add: set_cache_def)
  qed
qed

text \<open>Objects that leave the cache while others enter the driver, and the other way round.\<close>

lemma exchange_put:
  assumes "a' + oc' = a + oc + p" "cs' + oc = cs + oc'"
  shows "a' + cs' = a + cs + (p :: 'o multiset)"
proof (rule multiset_eqI)
  fix x
  have "count (a' + oc') x = count (a + oc + p) x" "count (cs' + oc) x = count (cs + oc') x"
    using assms by simp_all
  then show "count (a' + cs') x = count (a + cs + p) x" by simp
qed

lemma exchange_get:
  assumes "a + oc = g + a' + oc'" "cs' + oc = cs + oc'"
  shows "a + cs = a' + cs' + (g :: 'o multiset)"
proof (rule multiset_eqI)
  fix x
  have "count (a + oc) x = count (g + a' + oc') x" "count (cs' + oc) x = count (cs + oc') x"
    using assms by simp_all
  then show "count (a + cs) x = count (a' + cs' + g) x" by simp
qed

context bulk_pool
begin

lemma put_bulk_ok:
  assumes ok: "pool_ok pinv pitems pcap all_objs mp held" and n: "0 < n" "unat n \<le> length objs"
    and own: "mset (take (unat n) objs) \<subseteq># held"
  shows "\<exists>mp'. rte_mempool_put_bulk ops lcore mp objs n = Some mp' \<and>
     pool_ok pinv pitems pcap all_objs mp' (held - mset (take (unat n) objs))"
proof -
  let ?put = "mset (take (unat n) objs)"
  note okd = ok [unfolded pool_ok_def]
  obtain cache where c: "get_cache mp lcore = Some cache" "opt_ok cache" "mset (opt_items cache) \<subseteq># caches_items (mp_caches mp)"
    using get_cache_ok okd by blast
  have "size (mset (pitems (mp_data mp)) + caches_items (mp_caches mp) + held) \<le> pcap (mp_data mp)"
    using okd by metis
  moreover have "size (mset (opt_items cache)) \<le> size (caches_items (mp_caches mp))" "size ?put \<le> size held"
    using c(3) own by (simp_all only: size_mset_mono)
  ultimately have room: "length (pitems (mp_data mp)) + length (opt_items cache) + unat n \<le> pcap (mp_data mp)"
    using n(2) by simp
  obtain mp' cache' where g: "mempool_generic_put ops mp objs n cache = Some (mp', cache')" "same_pool mp mp'"
     "pinv (mp_data mp')" "opt_ok cache'" "cache' = None \<longleftrightarrow> cache = None" "pcap (mp_data mp') = pcap (mp_data mp)"
     "mset (pitems (mp_data mp')) + mset (opt_items cache') = mset (pitems (mp_data mp)) + mset (opt_items cache) + ?put"
    using generic_put_ok [OF _ c(2) n room] okd by blast
  note sc = set_cache_ok [OF _ c(1) g(5,2,4)]
  let ?mp = "set_cache lcore cache' mp'"
  have lc: "list_all cache_ok (mp_caches mp)" using okd by blast
  have "mset (pitems (mp_data mp')) + caches_items (mp_caches ?mp) = mset (pitems (mp_data mp)) + caches_items (mp_caches mp) + ?put"
    by (rule exchange_put [OF g(7) sc(7) [OF lc]])
  then have "mset (pitems (mp_data mp')) + caches_items (mp_caches ?mp) + (held - ?put) = all_objs"
    using own okd by (metis add.assoc subset_mset.add_diff_inverse)
  with g sc(1-5) [OF lc] okd have "pool_ok pinv pitems pcap all_objs ?mp (held - ?put)"
    by (simp add: pool_ok_def)
  with c(1) g(1) show ?thesis by (simp add: rte_mempool_put_bulk_def)
qed

lemma get_bulk_ok:
  assumes ok: "pool_ok pinv pitems pcap all_objs mp held" and n: "0 < n" "unat n \<le> length objs"
  shows "\<exists>ret objs' mp'. rte_mempool_get_bulk ops lcore mp objs n = Some (ret, objs', mp') \<and> length objs' = length objs \<and>
     (if ret = 0 then pool_ok pinv pitems pcap all_objs mp' (held + mset (take (unat n) objs'))
      else ret < 0 \<and> objs' = objs \<and> length (pitems (mp_data mp)) < unat n \<and> pool_ok pinv pitems pcap all_objs mp' held)"
proof -
  note okd = ok [unfolded pool_ok_def]
  obtain cache where c: "get_cache mp lcore = Some cache" "opt_ok cache" using get_cache_ok okd by blast
  obtain ret objs' mp' cache' where g: "mempool_generic_get ops mp objs n cache = Some (ret, objs', mp', cache')"
    and post: "get_post mp objs n cache ret objs' mp' cache'"
    using generic_get_ok [OF _ c(2) n] okd by blast
  note pd = post [unfolded get_post_def]
  have lc: "list_all cache_ok (mp_caches mp)" using okd by blast
  have ps: "cache' = None \<longleftrightarrow> cache = None" "same_pool mp mp'" "opt_ok cache'" using pd by blast+
  note sc = set_cache_ok [OF lc c(1) ps]
  let ?mp = "set_cache lcore cache' mp'"
  let ?got = "if ret = 0 then mset (take (unat n) objs') else {#}"
  have "mset (pitems (mp_data mp)) + mset (opt_items cache) =
      ?got + mset (pitems (mp_data mp')) + mset (opt_items cache')"
    using pd by (cases "ret = 0") simp_all
  from exchange_get [OF this sc(7)] have ex: "mset (pitems (mp_data mp)) + caches_items (mp_caches mp) =
      mset (pitems (mp_data mp')) + caches_items (mp_caches ?mp) + ?got" .
  have "mset (pitems (mp_data mp)) + caches_items (mp_caches mp) + held = all_objs" using okd by blast
  then have "mset (pitems (mp_data mp')) + caches_items (mp_caches ?mp) + (held + ?got) = all_objs"
    unfolding ex by (simp only: add.assoc add.commute [of ?got])
  with pd sc(1-5) okd have "pool_ok pinv pitems pcap all_objs ?mp (held + ?got)"
    by (simp add: pool_ok_def)
  with c(1) g pd show ?thesis
    by (intro exI [of _ ret] exI [of _ objs'] exI [of _ ?mp]) (auto simp: rte_mempool_get_bulk_def split: if_splits)
qed

text \<open>A flush without a cache of the caller: the objects in the default cache of the core go back to the driver, and the pool stays sound.\<close>

lemma cache_flush_ok:
  assumes ok: "pool_ok pinv pitems pcap all_objs mp held"
  shows "\<exists>mp'. rte_mempool_cache_flush ops lcore None mp = Some (mp', None) \<and> pool_ok pinv pitems pcap all_objs mp' held \<and>
     map_option opt_items (get_cache mp' lcore) = Some []"
proof -
  note okd = ok [unfolded pool_ok_def]
  obtain cache where c: "get_cache mp lcore = Some cache" "opt_ok cache" "mset (opt_items cache) \<subseteq># caches_items (mp_caches mp)"
    using get_cache_ok okd by blast
  have "size (mset (pitems (mp_data mp)) + caches_items (mp_caches mp) + held) \<le> pcap (mp_data mp)" using okd by metis
  moreover have "size (mset (opt_items cache)) \<le> size (caches_items (mp_caches mp))" using c(3) by (simp only: size_mset_mono)
  ultimately have room: "length (pitems (mp_data mp)) + length (opt_items cache) \<le> pcap (mp_data mp)" by simp
  obtain mp' cache' where f: "flush_cache ops cache mp = Some (mp', cache')" "same_pool mp mp'" "pinv (mp_data mp')" "opt_ok cache'"
     "opt_items cache' = []" "cache' = None \<longleftrightarrow> cache = None" "pcap (mp_data mp') = pcap (mp_data mp)"
     "mset (pitems (mp_data mp')) = mset (pitems (mp_data mp)) + mset (opt_items cache)"
    using flush_ok [OF _ c(2) room] okd by blast
  let ?mp = "set_cache lcore cache' mp'"
  have lc: "list_all cache_ok (mp_caches mp)" using okd by blast
  note sc = set_cache_ok [OF lc c(1) f(6,2,4)]
  have "mset (pitems (mp_data mp')) + caches_items (mp_caches ?mp) = mset (pitems (mp_data mp)) + caches_items (mp_caches mp)"
    using sc(7) f(5,8) by (simp add: ac_simps)
  then have "mset (pitems (mp_data mp')) + caches_items (mp_caches ?mp) + held = all_objs" using okd by metis
  with f sc(1-5) okd have "pool_ok pinv pitems pcap all_objs ?mp held" by (simp add: pool_ok_def)
  moreover have "map_option opt_items (get_cache ?mp lcore) = Some []"
  proof (cases cache')
    case None
    then have "rte_mempool_default_cache mp lcore = None" using c(1) f(6) by (auto simp: get_cache_def split: option.splits if_splits)
    then show ?thesis using sc(5) by (simp add: get_cache_def rte_mempool_default_cache_def split: if_splits)
  next
    case (Some d)
    then have "rte_mempool_default_cache mp lcore = Some (unat lcore)" "unat lcore < length (mp_caches mp)"
      using c(1) f(6) by (auto simp: get_cache_def rte_mempool_default_cache_def split: option.splits if_splits)
    then show ?thesis using sc(2,5) f(5) Some f(2)
      by (simp add: get_cache_def rte_mempool_default_cache_def set_cache_def same_pool_def split: if_splits)
  qed
  ultimately show ?thesis using c(1) f(1) by (simp add: rte_mempool_cache_flush_def)
qed

lemma avail_ok:
  assumes "pool_ok pinv pitems pcap all_objs mp held"
  shows "\<exists>n. rte_mempool_avail_count ops mp = Some n \<and> unat n = unat (mp_size mp) - size held"
    "\<exists>n. rte_mempool_in_use_count ops mp = Some n \<and> unat n = size held"
proof -
  note okd = assms [unfolded pool_ok_def]
  have sz: "length (pitems (mp_data mp)) + size (caches_items (mp_caches mp)) + size held = unat (mp_size mp)"
    using okd by (metis size_mset size_union)
  have fold: "list_all cache_ok cs \<Longrightarrow> unat n + size (caches_items cs) < 2 ^ 32 \<Longrightarrow>
      unat (foldl (\<lambda>n c. n + c_len c) n cs) = unat n + size (caches_items cs)" for n and cs :: "'o mempool_cache list"
  proof (induction cs arbitrary: n)
    case (Cons c cs)
    have l: "length (cache_items c) = unat (c_len c)" using Cons.prems(1) cache_items_length [of c] by simp
    have "unat (n + c_len c) = unat n + unat (c_len c)"
      using Cons.prems(2) l by (intro unat_add_no_overflow) (simp add: caches_items_def)
    with Cons l show ?case by (simp add: caches_items_def)
  qed (simp add: caches_items_def)
  obtain m where m: "op_get_count ops (mp_data mp) = Some m" "unat m = length (pitems (mp_data mp))"
    using okd count_ok by blast
  have lt: "unat (mp_size mp) < 2 ^ 32" using unat_lt2p [of "mp_size mp"] by simp
  show a: "\<exists>n. rte_mempool_avail_count ops mp = Some n \<and> unat n = unat (mp_size mp) - size held"
  proof (cases "mp_cache_size mp = 0")
    case True
    then have "caches_items (mp_caches mp) = {#}" using okd by (simp add: caches_items_def)
    with True m sz show ?thesis by (simp add: rte_mempool_avail_count_def)
  next
    case False
    have "list_all cache_ok (mp_caches mp)" using okd by blast
    then have u: "unat (foldl (\<lambda>n c. n + c_len c) m (mp_caches mp)) =
        length (pitems (mp_data mp)) + size (caches_items (mp_caches mp))"
      using fold m sz lt by simp
    then have "\<not> foldl (\<lambda>n c. n + c_len c) m (mp_caches mp) > mp_size mp"
      using sz by (simp add: not_less word_le_nat_alt)
    with False u sz m(1) show ?thesis by (simp add: rte_mempool_avail_count_def)
  qed
  then obtain n where n: "rte_mempool_avail_count ops mp = Some n" "unat n = unat (mp_size mp) - size held" by blast
  have "size held \<le> unat (mp_size mp)" using sz by simp
  then show "\<exists>n. rte_mempool_in_use_count ops mp = Some n \<and> unat n = size held"
    using n unat_sub_le [of n "mp_size mp"] by (simp add: rte_mempool_in_use_count_def word_le_nat_alt)
qed

end

end
