(* ===== verification/Mbuf.thy ===== *)
theory Mbuf
  imports Mempool CommonBits
begin

text \<open>
  Packet buffers: the operations of \<open>rte_mbuf.h\<close> and \<open>rte_mbuf.c\<close>. An mbuf is known by its
  address, which is also the object a memory pool hands out; its own data buffer is the block
  of bytes behind the structure and its private area, and a pointer into a buffer is the
  buffer's address with an offset. The build has atomic reference counts, no debugging and no
  assertions; every call runs alone. Pools are found by their address, each with its driver's
  operations and its private data; \<open>lcore\<close> is what \<open>rte_lcore_id\<close> returns. Fields that no
  modelled function touches (\<open>userdata\<close>, \<open>timesync\<close>, \<open>seqn\<close>) are left out, and the
  union of hashes is 8 bytes.
\<close>

section \<open>State\<close>

definition RTE_PKTMBUF_HEADROOM :: u16 where "RTE_PKTMBUF_HEADROOM = 128"
definition MBUF_INVALID_PORT :: u16 where "MBUF_INVALID_PORT = 0xffff"
definition RTE_MBUF_MAX_NB_SEGS :: nat where "RTE_MBUF_MAX_NB_SEGS = 65535"
definition RTE_MBUF_PRIV_ALIGN :: u16 where "RTE_MBUF_PRIV_ALIGN = 8"
definition EXT_ATTACHED_MBUF :: u64 where "EXT_ATTACHED_MBUF = push_bit 61 1"
definition IND_ATTACHED_MBUF :: u64 where "IND_ATTACHED_MBUF = push_bit 62 1"

text \<open>\<open>sizeof (struct rte_mbuf)\<close>: two cache lines.\<close>

definition sizeof_mbuf :: nat where "sizeof_mbuf = 128"

type_synonym maddr = nat
type_synonym bptr = "nat \<times> nat"

record mbuf =
  mb_buf_addr :: nat
  mb_buf_iova :: u64
  mb_data_off :: u16
  mb_refcnt :: u16
  mb_nb_segs :: u16
  mb_port :: u16
  mb_ol_flags :: u64
  mb_packet_type :: u32
  mb_pkt_len :: u32
  mb_data_len :: u16
  mb_vlan_tci :: u16
  mb_hash :: u64
  mb_vlan_tci_outer :: u16
  mb_buf_len :: u16
  mb_timestamp :: u64
  mb_pool :: nat
  mb_next :: "maddr option"
  mb_tx_offload :: u64
  mb_priv_size :: u16
  mb_shinfo :: nat

record shared_info =
  si_free_cb :: nat
  si_opaque :: nat
  si_refcnt :: u16

record pktmbuf_pool_private =
  mbuf_data_room_size :: u16
  mbuf_priv_size :: u16

record 'p mbuf_pool =
  pl_ops :: "(maddr, 'p) pool_ops"
  pl_mp :: "(maddr, 'p) mempool"
  pl_priv :: pktmbuf_pool_private

text \<open>\<open>mm_freed\<close> records the calls of the free callbacks of external buffers, each with its two arguments.\<close>

record 'p mbuf_mem =
  mm_mbufs :: "maddr \<rightharpoonup> mbuf"
  mm_bufs :: "u8 blocks"
  mm_shinfos :: "nat \<rightharpoonup> shared_info"
  mm_pools :: "nat \<rightharpoonup> 'p mbuf_pool"
  mm_freed :: "(nat \<times> nat \<times> nat) list"

definition upd_mbuf :: "(mbuf \<Rightarrow> mbuf) \<Rightarrow> maddr \<Rightarrow> 'p mbuf_mem \<Rightarrow> 'p mbuf_mem option" where
  "upd_mbuf f m mm = do {
     M \<leftarrow> mm_mbufs mm m;
     Some (mm\<lparr>mm_mbufs := (mm_mbufs mm)(m \<mapsto> f M)\<rparr>) }"

text \<open>Reading and writing \<open>n\<close> bytes behind a pointer, all of them inside its block.\<close>

definition bytes_at :: "u8 blocks \<Rightarrow> bptr \<Rightarrow> nat \<Rightarrow> u8 list option" where
  "bytes_at h = (\<lambda>(a, i) n. do {
     xs \<leftarrow> h a;
     _ \<leftarrow> guard (i + n \<le> length xs);
     Some (take n (drop i xs)) })"

definition bytes_put :: "u8 blocks \<Rightarrow> bptr \<Rightarrow> u8 list \<Rightarrow> u8 blocks option" where
  "bytes_put h = (\<lambda>(a, i) bs. do {
     xs \<leftarrow> h a;
     _ \<leftarrow> guard (i + length bs \<le> length xs);
     Some (h(a \<mapsto> take i xs @ bs @ drop (i + length bs) xs)) })"

section \<open>Flags and offsets\<close>

definition RTE_MBUF_CLONED :: "mbuf \<Rightarrow> bool" where
  "RTE_MBUF_CLONED M \<longleftrightarrow> mb_ol_flags M AND IND_ATTACHED_MBUF \<noteq> 0"

definition RTE_MBUF_HAS_EXTBUF :: "mbuf \<Rightarrow> bool" where
  "RTE_MBUF_HAS_EXTBUF M \<longleftrightarrow> mb_ol_flags M AND EXT_ATTACHED_MBUF \<noteq> 0"

definition RTE_MBUF_DIRECT :: "mbuf \<Rightarrow> bool" where
  "RTE_MBUF_DIRECT M \<longleftrightarrow> mb_ol_flags M AND (IND_ATTACHED_MBUF OR EXT_ATTACHED_MBUF) = 0"

definition rte_mbuf_data_iova :: "mbuf \<Rightarrow> u64" where
  "rte_mbuf_data_iova M = mb_buf_iova M + ucast (mb_data_off M)"

definition rte_mbuf_data_iova_default :: "mbuf \<Rightarrow> u64" where
  "rte_mbuf_data_iova_default M = mb_buf_iova M + ucast RTE_PKTMBUF_HEADROOM"

definition rte_mbuf_from_indirect :: "mbuf \<Rightarrow> maddr" where
  "rte_mbuf_from_indirect M = mb_buf_addr M - (sizeof_mbuf + unat (mb_priv_size M))"

definition rte_pktmbuf_mtod_offset :: "mbuf \<Rightarrow> nat \<Rightarrow> bptr" where
  "rte_pktmbuf_mtod_offset M ofs = (mb_buf_addr M, unat (mb_data_off M) + ofs)"

definition rte_pktmbuf_headroom :: "mbuf \<Rightarrow> u16" where
  "rte_pktmbuf_headroom M = mb_data_off M"

definition rte_pktmbuf_tailroom :: "mbuf \<Rightarrow> u16" where
  "rte_pktmbuf_tailroom M = mb_buf_len M - rte_pktmbuf_headroom M - mb_data_len M"

definition rte_pktmbuf_is_contiguous :: "mbuf \<Rightarrow> bool" where
  "rte_pktmbuf_is_contiguous M \<longleftrightarrow> mb_nb_segs M = 1"

definition rte_pktmbuf_data_room_size :: "'p mbuf_pool \<Rightarrow> u16" where
  "rte_pktmbuf_data_room_size P = mbuf_data_room_size (pl_priv P)"

definition rte_pktmbuf_priv_size :: "'p mbuf_pool \<Rightarrow> u16" where
  "rte_pktmbuf_priv_size P = mbuf_priv_size (pl_priv P)"

definition rte_mbuf_buf_addr :: "maddr \<Rightarrow> 'p mbuf_pool \<Rightarrow> nat" where
  "rte_mbuf_buf_addr m P = m + sizeof_mbuf + unat (rte_pktmbuf_priv_size P)"

definition rte_mbuf_data_addr_default :: "maddr \<Rightarrow> 'p mbuf_mem \<Rightarrow> bptr option" where
  "rte_mbuf_data_addr_default m mm = do {
     M \<leftarrow> mm_mbufs mm m;
     P \<leftarrow> mm_pools mm (mb_pool M);
     Some (rte_mbuf_buf_addr m P, unat RTE_PKTMBUF_HEADROOM) }"

section \<open>Reference counts\<close>

definition rte_mbuf_refcnt_read :: "mbuf \<Rightarrow> u16" where
  "rte_mbuf_refcnt_read M = mb_refcnt M"

definition rte_mbuf_refcnt_set :: "maddr \<Rightarrow> u16 \<Rightarrow> 'p mbuf_mem \<Rightarrow> 'p mbuf_mem option" where
  "rte_mbuf_refcnt_set m new_value = upd_mbuf (\<lambda>M. M\<lparr>mb_refcnt := new_value\<rparr>) m"

text \<open>The increment is an \<open>int16_t\<close>, a 16-bit word here.\<close>

definition mbuf_refcnt_add :: "maddr \<Rightarrow> u16 \<Rightarrow> 'p mbuf_mem \<Rightarrow> (u16 \<times> 'p mbuf_mem) option" where
  "mbuf_refcnt_add m v mm = do {
     M \<leftarrow> mm_mbufs mm m;
     mm \<leftarrow> upd_mbuf (\<lambda>M. M\<lparr>mb_refcnt := mb_refcnt M + v\<rparr>) m mm;
     Some (mb_refcnt M + v, mm) }"

definition rte_mbuf_refcnt_update :: "maddr \<Rightarrow> u16 \<Rightarrow> 'p mbuf_mem \<Rightarrow> (u16 \<times> 'p mbuf_mem) option" where
  "rte_mbuf_refcnt_update m v mm = do {
     M \<leftarrow> mm_mbufs mm m;
     if rte_mbuf_refcnt_read M = 1 then do {
       let v = v + 1;
       mm \<leftarrow> rte_mbuf_refcnt_set m v mm;
       Some (v, mm) }
     else mbuf_refcnt_add m v mm }"

definition rte_mbuf_ext_refcnt_update :: "nat \<Rightarrow> u16 \<Rightarrow> 'p mbuf_mem \<Rightarrow> (u16 \<times> 'p mbuf_mem) option" where
  "rte_mbuf_ext_refcnt_update s v mm = do {
     S \<leftarrow> mm_shinfos mm s;
     let r = (if si_refcnt S = 1 then v + 1 else si_refcnt S + v);
     Some (r, mm\<lparr>mm_shinfos := (mm_shinfos mm)(s \<mapsto> S\<lparr>si_refcnt := r\<rparr>)\<rparr>) }"

section \<open>Allocation\<close>

definition rte_mbuf_raw_alloc :: "u32 \<Rightarrow> nat \<Rightarrow> 'p mbuf_mem \<Rightarrow> (maddr option \<times> 'p mbuf_mem) option" where
  "rte_mbuf_raw_alloc lcore mp mm = do {
     P \<leftarrow> mm_pools mm mp;
     (ret, m, pool) \<leftarrow> rte_mempool_get (pl_ops P) lcore (pl_mp P) 0;
     let mm = mm\<lparr>mm_pools := (mm_pools mm)(mp \<mapsto> P\<lparr>pl_mp := pool\<rparr>)\<rparr>;
     Some (if ret < 0 then (None, mm) else (Some m, mm)) }"

definition rte_mbuf_raw_free :: "u32 \<Rightarrow> maddr \<Rightarrow> 'p mbuf_mem \<Rightarrow> 'p mbuf_mem option" where
  "rte_mbuf_raw_free lcore m mm = do {
     M \<leftarrow> mm_mbufs mm m;
     P \<leftarrow> mm_pools mm (mb_pool M);
     pool \<leftarrow> rte_mempool_put (pl_ops P) lcore (pl_mp P) m;
     Some (mm\<lparr>mm_pools := (mm_pools mm)(mb_pool M \<mapsto> P\<lparr>pl_mp := pool\<rparr>)\<rparr>) }"

definition rte_pktmbuf_reset_headroom :: "mbuf \<Rightarrow> mbuf" where
  "rte_pktmbuf_reset_headroom M = M\<lparr>mb_data_off := min RTE_PKTMBUF_HEADROOM (mb_buf_len M)\<rparr>"

definition rte_pktmbuf_reset :: "mbuf \<Rightarrow> mbuf" where
  "rte_pktmbuf_reset M =
     (rte_pktmbuf_reset_headroom
       (M\<lparr>mb_next := None, mb_pkt_len := 0, mb_tx_offload := 0, mb_vlan_tci := 0, mb_vlan_tci_outer := 0,
          mb_nb_segs := 1, mb_port := MBUF_INVALID_PORT, mb_ol_flags := 0, mb_packet_type := 0\<rparr>))
       \<lparr>mb_data_len := 0\<rparr>"

definition rte_pktmbuf_alloc :: "u32 \<Rightarrow> nat \<Rightarrow> 'p mbuf_mem \<Rightarrow> (maddr option \<times> 'p mbuf_mem) option" where
  "rte_pktmbuf_alloc lcore mp mm = do {
     (r, mm) \<leftarrow> rte_mbuf_raw_alloc lcore mp mm;
     case r of None \<Rightarrow> Some (None, mm)
     | Some m \<Rightarrow> do { mm \<leftarrow> upd_mbuf rte_pktmbuf_reset m mm; Some (Some m, mm) } }"

text \<open>
  The loop unrolled four times that the \<open>switch\<close> enters in its middle: \<open>k\<close> resets, and then four at
  a time while \<open>idx != count\<close>.
\<close>

fun reset_mbufs :: "nat \<Rightarrow> maddr list \<Rightarrow> u32 \<Rightarrow> 'p mbuf_mem \<Rightarrow> (u32 \<times> 'p mbuf_mem) option" where
  "reset_mbufs 0 mbufs idx mm = Some (idx, mm)"
| "reset_mbufs (Suc k) mbufs idx mm = do {
     _ \<leftarrow> guard (unat idx < length mbufs);
     mm \<leftarrow> upd_mbuf rte_pktmbuf_reset (mbufs ! unat idx) mm;
     reset_mbufs k mbufs (idx + 1) mm }"

partial_function (option) reset_loop :: "maddr list \<Rightarrow> u32 \<Rightarrow> u32 \<Rightarrow> 'p mbuf_mem \<Rightarrow> 'p mbuf_mem option" where
  "reset_loop mbufs cnt idx mm =
     (if idx \<noteq> cnt then Option.bind (reset_mbufs 4 mbufs idx mm) (\<lambda>(idx, mm). reset_loop mbufs cnt idx mm)
      else Some mm)"

definition rte_pktmbuf_alloc_bulk ::
    "u32 \<Rightarrow> nat \<Rightarrow> maddr list \<Rightarrow> u32 \<Rightarrow> 'p mbuf_mem \<Rightarrow> (c_int \<times> maddr list \<times> 'p mbuf_mem) option" where
  "rte_pktmbuf_alloc_bulk lcore pool mbufs cnt mm = do {
     P \<leftarrow> mm_pools mm pool;
     (rc, mbufs, mp) \<leftarrow> rte_mempool_get_bulk (pl_ops P) lcore (pl_mp P) mbufs cnt;
     let mm = mm\<lparr>mm_pools := (mm_pools mm)(pool \<mapsto> P\<lparr>pl_mp := mp\<rparr>)\<rparr>;
     if rc \<noteq> 0 then Some (rc, mbufs, mm)
     else do {
       (idx, mm) \<leftarrow> reset_mbufs (unat (cnt mod 4)) mbufs 0 mm;
       mm \<leftarrow> reset_loop mbufs cnt idx mm;
       Some (0, mbufs, mm) } }"

section \<open>External and shared buffers\<close>

text \<open>\<open>RTE_PTR_ALIGN_FLOOR (buf_end - sizeof (*shinfo), 8)\<close>; the shared data has 24 bytes.\<close>

definition rte_pktmbuf_ext_shinfo_init_helper ::
    "nat \<Rightarrow> u16 \<Rightarrow> nat \<Rightarrow> nat \<Rightarrow> 'p mbuf_mem \<Rightarrow> (nat option \<times> u16 \<times> 'p mbuf_mem) option" where
  "rte_pktmbuf_ext_shinfo_init_helper buf_addr buf_len free_cb fcb_opaque mm = do {
     let buf_end = buf_addr + unat buf_len;
     _ \<leftarrow> guard (24 \<le> buf_end);
     let addr = (buf_end - 24) div 8 * 8;
     Some (if addr \<le> buf_addr then (None, buf_len, mm)
           else (Some addr, of_nat (addr - buf_addr),
             mm\<lparr>mm_shinfos := (mm_shinfos mm)(addr \<mapsto> \<lparr>si_free_cb = free_cb, si_opaque = fcb_opaque, si_refcnt = 1\<rparr>)\<rparr>)) }"

definition rte_pktmbuf_attach_extbuf ::
    "maddr \<Rightarrow> nat \<Rightarrow> u64 \<Rightarrow> u16 \<Rightarrow> nat \<Rightarrow> 'p mbuf_mem \<Rightarrow> 'p mbuf_mem option" where
  "rte_pktmbuf_attach_extbuf m buf_addr buf_iova buf_len shinfo =
     upd_mbuf (\<lambda>M. M\<lparr>mb_buf_addr := buf_addr, mb_buf_iova := buf_iova, mb_buf_len := buf_len, mb_data_len := 0,
                   mb_data_off := 0, mb_ol_flags := mb_ol_flags M OR EXT_ATTACHED_MBUF, mb_shinfo := shinfo\<rparr>) m"

definition copy_attached :: "mbuf \<Rightarrow> mbuf \<Rightarrow> mbuf" where
  "copy_attached M I =
     I\<lparr>mb_buf_iova := mb_buf_iova M, mb_buf_addr := mb_buf_addr M, mb_buf_len := mb_buf_len M,
       mb_data_off := mb_data_off M, mb_data_len := mb_data_len M, mb_port := mb_port M, mb_vlan_tci := mb_vlan_tci M,
       mb_vlan_tci_outer := mb_vlan_tci_outer M, mb_tx_offload := mb_tx_offload M, mb_hash := mb_hash M,
       mb_next := None, mb_pkt_len := ucast (mb_data_len M), mb_nb_segs := 1, mb_packet_type := mb_packet_type M,
       mb_timestamp := mb_timestamp M\<rparr>"

definition rte_pktmbuf_attach :: "maddr \<Rightarrow> maddr \<Rightarrow> 'p mbuf_mem \<Rightarrow> 'p mbuf_mem option" where
  "rte_pktmbuf_attach mi m mm = do {
     M \<leftarrow> mm_mbufs mm m;
     mm \<leftarrow> (if RTE_MBUF_HAS_EXTBUF M then do {
              (_, mm) \<leftarrow> rte_mbuf_ext_refcnt_update (mb_shinfo M) 1 mm;
              upd_mbuf (\<lambda>I. I\<lparr>mb_ol_flags := mb_ol_flags M, mb_shinfo := mb_shinfo M\<rparr>) mi mm }
            else do {
              (_, mm) \<leftarrow> rte_mbuf_refcnt_update (rte_mbuf_from_indirect M) 1 mm;
              upd_mbuf (\<lambda>I. I\<lparr>mb_priv_size := mb_priv_size M, mb_ol_flags := mb_ol_flags M OR IND_ATTACHED_MBUF\<rparr>) mi mm });
     upd_mbuf (copy_attached M) mi mm }"

section \<open>Freeing\<close>

definition rte_pktmbuf_free_extbuf :: "maddr \<Rightarrow> 'p mbuf_mem \<Rightarrow> 'p mbuf_mem option" where
  "rte_pktmbuf_free_extbuf m mm = do {
     M \<leftarrow> mm_mbufs mm m;
     (r, mm) \<leftarrow> rte_mbuf_ext_refcnt_update (mb_shinfo M) (- 1) mm;
     if r = 0 then do {
       S \<leftarrow> mm_shinfos mm (mb_shinfo M);
       Some (mm\<lparr>mm_freed := mm_freed mm @ [(si_free_cb S, mb_buf_addr M, si_opaque S)]\<rparr>) }
     else Some mm }"

definition rte_pktmbuf_free_direct :: "u32 \<Rightarrow> maddr \<Rightarrow> 'p mbuf_mem \<Rightarrow> 'p mbuf_mem option" where
  "rte_pktmbuf_free_direct lcore m mm = do {
     M \<leftarrow> mm_mbufs mm m;
     let md = rte_mbuf_from_indirect M;
     (r, mm) \<leftarrow> rte_mbuf_refcnt_update md (- 1) mm;
     if r = 0 then do {
       mm \<leftarrow> upd_mbuf (\<lambda>D. D\<lparr>mb_next := None, mb_nb_segs := 1\<rparr>) md mm;
       mm \<leftarrow> rte_mbuf_refcnt_set md 1 mm;
       rte_mbuf_raw_free lcore md mm }
     else Some mm }"

text \<open>\<open>rte_mempool_virt2iova\<close> reads the header in front of the object.\<close>

definition rte_mempool_virt2iova :: "(nat, 'p) mempool \<Rightarrow> nat \<Rightarrow> u64 option" where
  "rte_mempool_virt2iova mp m = map_of (mp_elts mp) m"

definition rte_pktmbuf_detach :: "u32 \<Rightarrow> maddr \<Rightarrow> 'p mbuf_mem \<Rightarrow> 'p mbuf_mem option" where
  "rte_pktmbuf_detach lcore m mm = do {
     M \<leftarrow> mm_mbufs mm m;
     let mp = mb_pool M;
     mm \<leftarrow> (if RTE_MBUF_HAS_EXTBUF M then rte_pktmbuf_free_extbuf m mm else rte_pktmbuf_free_direct lcore m mm);
     P \<leftarrow> mm_pools mm mp;
     let priv_size = rte_pktmbuf_priv_size P;
     let mbuf_size = of_nat sizeof_mbuf + (ucast priv_size :: u32);
     iova \<leftarrow> rte_mempool_virt2iova (pl_mp P) m;
     upd_mbuf (\<lambda>M. (rte_pktmbuf_reset_headroom
         (M\<lparr>mb_priv_size := priv_size, mb_buf_addr := m + unat mbuf_size, mb_buf_iova := iova + ucast mbuf_size,
            mb_buf_len := rte_pktmbuf_data_room_size P\<rparr>))\<lparr>mb_data_len := 0, mb_ol_flags := 0\<rparr>) m mm }"

definition unlink_seg :: "maddr \<Rightarrow> 'p mbuf_mem \<Rightarrow> 'p mbuf_mem option" where
  "unlink_seg = upd_mbuf (\<lambda>M. if mb_next M \<noteq> None then M\<lparr>mb_next := None, mb_nb_segs := 1\<rparr> else M)"

text \<open>The result says whether the segment is the caller's now.\<close>

definition rte_pktmbuf_prefree_seg :: "u32 \<Rightarrow> maddr \<Rightarrow> 'p mbuf_mem \<Rightarrow> (maddr option \<times> 'p mbuf_mem) option" where
  "rte_pktmbuf_prefree_seg lcore m mm = do {
     M \<leftarrow> mm_mbufs mm m;
     if rte_mbuf_refcnt_read M = 1 then do {
       mm \<leftarrow> (if \<not> RTE_MBUF_DIRECT M then rte_pktmbuf_detach lcore m mm else Some mm);
       mm \<leftarrow> unlink_seg m mm;
       Some (Some m, mm) }
     else do {
       (r, mm) \<leftarrow> mbuf_refcnt_add m (- 1) mm;
       if r = 0 then do {
         mm \<leftarrow> (if \<not> RTE_MBUF_DIRECT M then rte_pktmbuf_detach lcore m mm else Some mm);
         mm \<leftarrow> unlink_seg m mm;
         mm \<leftarrow> rte_mbuf_refcnt_set m 1 mm;
         Some (Some m, mm) }
       else Some (None, mm) } }"

definition rte_pktmbuf_free_seg :: "u32 \<Rightarrow> maddr \<Rightarrow> 'p mbuf_mem \<Rightarrow> 'p mbuf_mem option" where
  "rte_pktmbuf_free_seg lcore m mm = do {
     (r, mm) \<leftarrow> rte_pktmbuf_prefree_seg lcore m mm;
     case r of None \<Rightarrow> Some mm | Some m \<Rightarrow> rte_mbuf_raw_free lcore m mm }"

partial_function (option) rte_pktmbuf_free :: "u32 \<Rightarrow> maddr option \<Rightarrow> 'p mbuf_mem \<Rightarrow> 'p mbuf_mem option" where
  "rte_pktmbuf_free lcore m mm =
     (case m of None \<Rightarrow> Some mm
      | Some a \<Rightarrow> Option.bind (mm_mbufs mm a) (\<lambda>M.
          Option.bind (rte_pktmbuf_free_seg lcore a mm) (\<lambda>mm. rte_pktmbuf_free lcore (mb_next M) mm)))"

section \<open>Clones\<close>

text \<open>
  The loop of \<open>rte_pktmbuf_clone\<close>: \<open>prev\<close> is the mbuf whose \<open>next\<close> is written. The result is the
  last \<open>mi\<close> (\<open>None\<close> when its allocation failed), \<open>prev\<close> and \<open>nseg\<close>.
\<close>

partial_function (option) clone_loop ::
    "u32 \<Rightarrow> nat \<Rightarrow> maddr \<Rightarrow> maddr \<Rightarrow> maddr \<Rightarrow> u16 \<Rightarrow> 'p mbuf_mem \<Rightarrow> (maddr option \<times> maddr \<times> u16 \<times> 'p mbuf_mem) option" where
  "clone_loop lcore mp mi prev md nseg mm = do {
     let nseg = nseg + 1;
     mm \<leftarrow> rte_pktmbuf_attach mi md mm;
     mm \<leftarrow> upd_mbuf (\<lambda>M. M\<lparr>mb_next := Some mi\<rparr>) prev mm;
     let prev = mi;
     M \<leftarrow> mm_mbufs mm md;
     (case mb_next M of None \<Rightarrow> Some (Some mi, prev, nseg, mm)
      | Some md \<Rightarrow> do {
          r \<leftarrow> rte_pktmbuf_alloc lcore mp mm;
          (case fst r of None \<Rightarrow> Some (None, prev, nseg, snd r)
           | Some mi \<Rightarrow> clone_loop lcore mp mi prev md nseg (snd r)) }) }"

definition rte_pktmbuf_clone :: "u32 \<Rightarrow> maddr \<Rightarrow> nat \<Rightarrow> 'p mbuf_mem \<Rightarrow> (maddr option \<times> 'p mbuf_mem) option" where
  "rte_pktmbuf_clone lcore md mp mm = do {
     (r, mm) \<leftarrow> rte_pktmbuf_alloc lcore mp mm;
     (case r of None \<Rightarrow> Some (None, mm)
      | Some mc \<Rightarrow> do {
          D \<leftarrow> mm_mbufs mm md;
          (mi, prev, nseg, mm) \<leftarrow> clone_loop lcore mp mc mc md 0 mm;
          mm \<leftarrow> upd_mbuf (\<lambda>M. M\<lparr>mb_next := None\<rparr>) prev mm;
          mm \<leftarrow> upd_mbuf (\<lambda>M. M\<lparr>mb_nb_segs := nseg, mb_pkt_len := mb_pkt_len D\<rparr>) mc mm;
          if mi = None then do { mm \<leftarrow> rte_pktmbuf_free lcore (Some mc) mm; Some (None, mm) }
          else Some (Some mc, mm) }) }"

partial_function (option) rte_pktmbuf_refcnt_update :: "maddr \<Rightarrow> u16 \<Rightarrow> 'p mbuf_mem \<Rightarrow> 'p mbuf_mem option" where
  "rte_pktmbuf_refcnt_update m v mm = do {
     r \<leftarrow> rte_mbuf_refcnt_update m v mm;
     M \<leftarrow> mm_mbufs (snd r) m;
     (case mb_next M of None \<Rightarrow> Some (snd r) | Some n \<Rightarrow> rte_pktmbuf_refcnt_update n v (snd r)) }"

section \<open>Packet data\<close>

partial_function (option) rte_pktmbuf_lastseg :: "'p mbuf_mem \<Rightarrow> maddr \<Rightarrow> maddr option" where
  "rte_pktmbuf_lastseg mm m = do {
     M \<leftarrow> mm_mbufs mm m;
     (case mb_next M of None \<Rightarrow> Some m | Some n \<Rightarrow> rte_pktmbuf_lastseg mm n) }"

definition rte_pktmbuf_prepend :: "maddr \<Rightarrow> u16 \<Rightarrow> 'p mbuf_mem \<Rightarrow> (bptr option \<times> 'p mbuf_mem) option" where
  "rte_pktmbuf_prepend m len mm = do {
     M \<leftarrow> mm_mbufs mm m;
     if len > rte_pktmbuf_headroom M then Some (None, mm)
     else do {
       mm \<leftarrow> upd_mbuf (\<lambda>M. M\<lparr>mb_data_off := mb_data_off M - len, mb_data_len := mb_data_len M + len,
                              mb_pkt_len := mb_pkt_len M + ucast len\<rparr>) m mm;
       M \<leftarrow> mm_mbufs mm m;
       Some (Some (rte_pktmbuf_mtod_offset M 0), mm) } }"

definition rte_pktmbuf_append :: "maddr \<Rightarrow> u16 \<Rightarrow> 'p mbuf_mem \<Rightarrow> (bptr option \<times> 'p mbuf_mem) option" where
  "rte_pktmbuf_append m len mm = do {
     m_last \<leftarrow> rte_pktmbuf_lastseg mm m;
     L \<leftarrow> mm_mbufs mm m_last;
     if len > rte_pktmbuf_tailroom L then Some (None, mm)
     else do {
       let tail = (mb_buf_addr L, unat (mb_data_off L) + unat (mb_data_len L));
       mm \<leftarrow> upd_mbuf (\<lambda>L. L\<lparr>mb_data_len := mb_data_len L + len\<rparr>) m_last mm;
       mm \<leftarrow> upd_mbuf (\<lambda>M. M\<lparr>mb_pkt_len := mb_pkt_len M + ucast len\<rparr>) m mm;
       Some (Some tail, mm) } }"

definition rte_pktmbuf_adj :: "maddr \<Rightarrow> u16 \<Rightarrow> 'p mbuf_mem \<Rightarrow> (bptr option \<times> 'p mbuf_mem) option" where
  "rte_pktmbuf_adj m len mm = do {
     M \<leftarrow> mm_mbufs mm m;
     if len > mb_data_len M then Some (None, mm)
     else do {
       mm \<leftarrow> upd_mbuf (\<lambda>M. M\<lparr>mb_data_len := mb_data_len M - len, mb_data_off := mb_data_off M + len,
                              mb_pkt_len := mb_pkt_len M - ucast len\<rparr>) m mm;
       M \<leftarrow> mm_mbufs mm m;
       Some (Some (rte_pktmbuf_mtod_offset M 0), mm) } }"

definition rte_pktmbuf_trim :: "maddr \<Rightarrow> u16 \<Rightarrow> 'p mbuf_mem \<Rightarrow> (c_int \<times> 'p mbuf_mem) option" where
  "rte_pktmbuf_trim m len mm = do {
     m_last \<leftarrow> rte_pktmbuf_lastseg mm m;
     L \<leftarrow> mm_mbufs mm m_last;
     if len > mb_data_len L then Some (- 1, mm)
     else do {
       mm \<leftarrow> upd_mbuf (\<lambda>L. L\<lparr>mb_data_len := mb_data_len L - len\<rparr>) m_last mm;
       mm \<leftarrow> upd_mbuf (\<lambda>M. M\<lparr>mb_pkt_len := mb_pkt_len M - ucast len\<rparr>) m mm;
       Some (0, mm) } }"

definition rte_pktmbuf_chain :: "maddr \<Rightarrow> maddr \<Rightarrow> 'p mbuf_mem \<Rightarrow> (c_int \<times> 'p mbuf_mem) option" where
  "rte_pktmbuf_chain head tail mm = do {
     H \<leftarrow> mm_mbufs mm head;
     T \<leftarrow> mm_mbufs mm tail;
     if unat (mb_nb_segs H) + unat (mb_nb_segs T) > RTE_MBUF_MAX_NB_SEGS then Some (- EOVERFLOW, mm)
     else do {
       cur_tail \<leftarrow> rte_pktmbuf_lastseg mm head;
       mm \<leftarrow> upd_mbuf (\<lambda>M. M\<lparr>mb_next := Some tail\<rparr>) cur_tail mm;
       mm \<leftarrow> upd_mbuf (\<lambda>M. M\<lparr>mb_nb_segs := mb_nb_segs M + mb_nb_segs T, mb_pkt_len := mb_pkt_len M + mb_pkt_len T\<rparr>) head mm;
       mm \<leftarrow> upd_mbuf (\<lambda>M. M\<lparr>mb_pkt_len := ucast (mb_data_len M)\<rparr>) tail mm;
       Some (0, mm) } }"

text \<open>What a read returns: NULL, a pointer into the packet, or the caller's buffer, now with the data.\<close>

datatype read_ptr = Read_NULL | Read_mbuf bptr | Read_buf "u8 list"

partial_function (option) read_skip :: "'p mbuf_mem \<Rightarrow> maddr option \<Rightarrow> u32 \<Rightarrow> (maddr \<times> u32) option" where
  "read_skip mm seg off =
     (case seg of None \<Rightarrow> None
      | Some s \<Rightarrow> do {
          M \<leftarrow> mm_mbufs mm s;
          if off \<ge> ucast (mb_data_len M) then read_skip mm (mb_next M) (off - ucast (mb_data_len M))
          else Some (s, off) })"

partial_function (option) read_copy ::
    "'p mbuf_mem \<Rightarrow> maddr option \<Rightarrow> u32 \<Rightarrow> u32 \<Rightarrow> u8 list \<Rightarrow> u32 \<Rightarrow> u8 list option" where
  "read_copy mm seg off len buf buf_off =
     (if len > 0 then
        (case seg of None \<Rightarrow> None
         | Some s \<Rightarrow> do {
             M \<leftarrow> mm_mbufs mm s;
             let copy_len = ucast (mb_data_len M) - off;
             let copy_len = (if copy_len > len then len else copy_len);
             bs \<leftarrow> bytes_at (mm_bufs mm) (rte_pktmbuf_mtod_offset M (unat off)) (unat copy_len);
             _ \<leftarrow> guard (unat buf_off + unat copy_len \<le> length buf);
             read_copy mm (mb_next M) 0 (len - copy_len)
               (take (unat buf_off) buf @ bs @ drop (unat buf_off + unat copy_len) buf) (buf_off + copy_len) })
      else Some buf)"

definition rte_pktmbuf_read_internal :: "'p mbuf_mem \<Rightarrow> maddr \<Rightarrow> u32 \<Rightarrow> u32 \<Rightarrow> u8 list \<Rightarrow> read_ptr option" where
  "rte_pktmbuf_read_internal mm m off len buf = do {
     M \<leftarrow> mm_mbufs mm m;
     if off + len > mb_pkt_len M then Some Read_NULL
     else do {
       (seg, off) \<leftarrow> read_skip mm (Some m) off;
       S \<leftarrow> mm_mbufs mm seg;
       if off + len \<le> ucast (mb_data_len S) then Some (Read_mbuf (rte_pktmbuf_mtod_offset S (unat off)))
       else map_option Read_buf (read_copy mm (Some seg) off len buf 0) } }"

definition rte_pktmbuf_read :: "'p mbuf_mem \<Rightarrow> maddr \<Rightarrow> u32 \<Rightarrow> u32 \<Rightarrow> u8 list \<Rightarrow> read_ptr option" where
  "rte_pktmbuf_read mm m off len buf = do {
     M \<leftarrow> mm_mbufs mm m;
     if off + len \<le> ucast (mb_data_len M) then Some (Read_mbuf (rte_pktmbuf_mtod_offset M (unat off)))
     else rte_pktmbuf_read_internal mm m off len buf }"

text \<open>\<open>size_t\<close> is 64 bits: the subtraction in \<open>copy_len\<close> is done in 32 bits and widened.\<close>

partial_function (option) linearize_loop :: "u32 \<Rightarrow> maddr option \<Rightarrow> bptr \<Rightarrow> 'p mbuf_mem \<Rightarrow> 'p mbuf_mem option" where
  "linearize_loop lcore m buffer mm =
     (case m of None \<Rightarrow> Some mm
      | Some a \<Rightarrow> do {
          M \<leftarrow> mm_mbufs mm a;
          let seg_len = unat (mb_data_len M);
          bs \<leftarrow> bytes_at (mm_bufs mm) (rte_pktmbuf_mtod_offset M 0) seg_len;
          h \<leftarrow> bytes_put (mm_bufs mm) buffer bs;
          mm \<leftarrow> rte_pktmbuf_free_seg lcore a (mm\<lparr>mm_bufs := h\<rparr>);
          linearize_loop lcore (mb_next M) (fst buffer, snd buffer + seg_len) mm })"

definition rte_pktmbuf_linearize :: "u32 \<Rightarrow> maddr \<Rightarrow> 'p mbuf_mem \<Rightarrow> (c_int \<times> 'p mbuf_mem) option" where
  "rte_pktmbuf_linearize lcore m mm = do {
     M \<leftarrow> mm_mbufs mm m;
     if rte_pktmbuf_is_contiguous M then Some (0, mm)
     else do {
       let copy_len = mb_pkt_len M - ucast (mb_data_len M);
       if copy_len > ucast (rte_pktmbuf_tailroom M) then Some (- 1, mm)
       else do {
         let buffer = rte_pktmbuf_mtod_offset M (unat (mb_data_len M));
         mm \<leftarrow> upd_mbuf (\<lambda>M. M\<lparr>mb_data_len := ucast (mb_pkt_len M)\<rparr>) m mm;
         mm \<leftarrow> linearize_loop lcore (mb_next M) buffer mm;
         mm \<leftarrow> upd_mbuf (\<lambda>M. M\<lparr>mb_next := None, mb_nb_segs := 1\<rparr>) m mm;
         Some (0, mm) } } }"

section \<open>Checks and offloads\<close>

text \<open>The loop of \<open>rte_mbuf_check\<close>: the first reason found, or what is left of both counts.\<close>

partial_function (option) check_loop :: "'p mbuf_mem \<Rightarrow> maddr \<Rightarrow> u32 \<Rightarrow> u32 \<Rightarrow> (string + u32 \<times> u32) option" where
  "check_loop mm m nb_segs pkt_len = do {
     M \<leftarrow> mm_mbufs mm m;
     if mb_data_off M > mb_buf_len M then Some (Inl ''data offset too big in mbuf segment'')
     else if unat (mb_data_off M) + unat (mb_data_len M) > unat (mb_buf_len M)
     then Some (Inl ''data length too big in mbuf segment'')
     else do {
       let nb_segs = nb_segs - 1;
       let pkt_len = pkt_len - ucast (mb_data_len M);
       (case mb_next M of None \<Rightarrow> Some (Inr (nb_segs, pkt_len)) | Some n \<Rightarrow> check_loop mm n nb_segs pkt_len) } }"

text \<open>The result is \<open>None\<close> for 0 and the reason for -1.\<close>

definition rte_mbuf_check :: "'p mbuf_mem \<Rightarrow> maddr option \<Rightarrow> bool \<Rightarrow> string option option" where
  "rte_mbuf_check mm m is_header =
     (case m of None \<Rightarrow> Some (Some ''mbuf is NULL'')
      | Some m \<Rightarrow> do {
          M \<leftarrow> mm_mbufs mm m;
          if mb_pool M = 0 then Some (Some ''bad mbuf pool'')
          else if mb_buf_iova M = 0 then Some (Some ''bad IO addr'')
          else if mb_buf_addr M = 0 then Some (Some ''bad virt addr'')
          else if rte_mbuf_refcnt_read M = 0 \<or> rte_mbuf_refcnt_read M = 0xffff then Some (Some ''bad ref cnt'')
          else if \<not> is_header then Some None
          else if (ucast (mb_data_len M) :: u32) > mb_pkt_len M then Some (Some ''bad data_len'')
          else do {
            r \<leftarrow> check_loop mm m (ucast (mb_nb_segs M)) (mb_pkt_len M);
            Some (case r of Inl reason \<Rightarrow> Some reason
                  | Inr (nb_segs, pkt_len) \<Rightarrow>
                      if nb_segs \<noteq> 0 then Some ''bad nb_segs'' else if pkt_len \<noteq> 0 then Some ''bad pkt_len'' else None) } })"

definition rte_mbuf_sanity_check :: "'p mbuf_mem \<Rightarrow> maddr option \<Rightarrow> bool \<Rightarrow> unit option" where
  "rte_mbuf_sanity_check mm m is_header = do { r \<leftarrow> rte_mbuf_check mm m is_header; guard (r = None) }"

definition PKT_TX_OUTER_UDP_CKSUM :: u64 where "PKT_TX_OUTER_UDP_CKSUM = push_bit 41 1"
definition PKT_TX_UDP_SEG :: u64 where "PKT_TX_UDP_SEG = push_bit 42 1"
definition PKT_TX_SEC_OFFLOAD :: u64 where "PKT_TX_SEC_OFFLOAD = push_bit 43 1"
definition PKT_TX_MACSEC :: u64 where "PKT_TX_MACSEC = push_bit 44 1"
definition PKT_TX_TUNNEL_MASK :: u64 where "PKT_TX_TUNNEL_MASK = push_bit 45 0xF"
definition PKT_TX_QINQ_PKT :: u64 where "PKT_TX_QINQ_PKT = push_bit 49 1"
definition PKT_TX_TCP_SEG :: u64 where "PKT_TX_TCP_SEG = push_bit 50 1"
definition PKT_TX_IEEE1588_TMST :: u64 where "PKT_TX_IEEE1588_TMST = push_bit 51 1"
definition PKT_TX_L4_MASK :: u64 where "PKT_TX_L4_MASK = push_bit 52 3"
definition PKT_TX_IP_CKSUM :: u64 where "PKT_TX_IP_CKSUM = push_bit 54 1"
definition PKT_TX_IPV4 :: u64 where "PKT_TX_IPV4 = push_bit 55 1"
definition PKT_TX_IPV6 :: u64 where "PKT_TX_IPV6 = push_bit 56 1"
definition PKT_TX_VLAN_PKT :: u64 where "PKT_TX_VLAN_PKT = push_bit 57 1"
definition PKT_TX_OUTER_IP_CKSUM :: u64 where "PKT_TX_OUTER_IP_CKSUM = push_bit 58 1"
definition PKT_TX_OUTER_IPV4 :: u64 where "PKT_TX_OUTER_IPV4 = push_bit 59 1"
definition PKT_TX_OUTER_IPV6 :: u64 where "PKT_TX_OUTER_IPV6 = push_bit 60 1"
definition PKT_TX_METADATA :: u64 where "PKT_TX_METADATA = push_bit 40 1"

definition PKT_TX_OFFLOAD_MASK :: u64 where
  "PKT_TX_OFFLOAD_MASK =
     PKT_TX_OUTER_IPV6 OR PKT_TX_OUTER_IPV4 OR PKT_TX_OUTER_IP_CKSUM OR PKT_TX_VLAN_PKT OR PKT_TX_IPV6 OR
     PKT_TX_IPV4 OR PKT_TX_IP_CKSUM OR PKT_TX_L4_MASK OR PKT_TX_IEEE1588_TMST OR PKT_TX_TCP_SEG OR
     PKT_TX_QINQ_PKT OR PKT_TX_TUNNEL_MASK OR PKT_TX_MACSEC OR PKT_TX_SEC_OFFLOAD OR PKT_TX_UDP_SEG OR
     PKT_TX_OUTER_UDP_CKSUM OR PKT_TX_METADATA"

text \<open>
  The layout of \<open>tx_offload\<close> on a little-endian machine. Values that are too big for their
  fields spill into the next ones.
\<close>

definition rte_mbuf_tx_offload :: "u64 \<Rightarrow> u64 \<Rightarrow> u64 \<Rightarrow> u64 \<Rightarrow> u64 \<Rightarrow> u64 \<Rightarrow> u64 \<Rightarrow> u64" where
  "rte_mbuf_tx_offload il2 il3 il4 tso ol3 ol2 unused =
     push_bit 0 il2 OR push_bit 7 il3 OR push_bit 16 il4 OR push_bit 24 tso OR push_bit 40 ol3 OR push_bit 49 ol2 OR
     push_bit 56 unused"

definition mb_l2_len :: "u64 \<Rightarrow> u64" where "mb_l2_len t = take_bit 7 t"
definition mb_l3_len :: "u64 \<Rightarrow> u64" where "mb_l3_len t = take_bit 9 (drop_bit 7 t)"
definition mb_l4_len :: "u64 \<Rightarrow> u64" where "mb_l4_len t = take_bit 8 (drop_bit 16 t)"
definition mb_tso_segsz :: "u64 \<Rightarrow> u64" where "mb_tso_segsz t = take_bit 16 (drop_bit 24 t)"
definition mb_outer_l3_len :: "u64 \<Rightarrow> u64" where "mb_outer_l3_len t = take_bit 9 (drop_bit 40 t)"
definition mb_outer_l2_len :: "u64 \<Rightarrow> u64" where "mb_outer_l2_len t = take_bit 7 (drop_bit 49 t)"

definition rte_validate_tx_offload :: "mbuf \<Rightarrow> c_int" where
  "rte_validate_tx_offload M =
     (let ol_flags = mb_ol_flags M;
          set = (\<lambda>f. ol_flags AND f \<noteq> 0)
      in if \<not> set PKT_TX_OFFLOAD_MASK then 0
         else if set PKT_TX_IP_CKSUM \<and> set PKT_TX_IPV6 then - EINVAL
         else if set (PKT_TX_L4_MASK OR PKT_TX_TCP_SEG) \<and> \<not> set (PKT_TX_IPV4 OR PKT_TX_IPV6) then - EINVAL
         else if set PKT_TX_TCP_SEG \<and>
           (mb_tso_segsz (mb_tx_offload M) = 0 \<or> set PKT_TX_IPV4 \<and> \<not> set PKT_TX_IP_CKSUM) then - EINVAL
         else if set PKT_TX_OUTER_IP_CKSUM \<and> \<not> set PKT_TX_OUTER_IPV4 then - EINVAL
         else 0)"

end
