(* ===== verification/MbufPacket.thy ===== *)
theory MbufPacket
  imports Mbuf
begin

text \<open>
  Packets: chains of mbufs and the bytes they hold. A well-formed packet is a chain of different
  segments, each with its data inside its buffer, whose head has the number of segments
  and the number of bytes; its 32-bit length cannot wrap, since a packet has at most 65535
  segments of at most 65535 bytes. The lemmas say what the packet functions of
  \<open>rte_mbuf.h\<close> do to the bytes.
\<close>

section \<open>Segments\<close>

fun seg_chain :: "'p mbuf_mem \<Rightarrow> maddr option \<Rightarrow> maddr list \<Rightarrow> bool" where
  "seg_chain mm p [] \<longleftrightarrow> p = None"
| "seg_chain mm p (s # ss) \<longleftrightarrow>
     p = Some s \<and> (case mm_mbufs mm s of None \<Rightarrow> False | Some M \<Rightarrow> seg_chain mm (mb_next M) ss)"

definition buf_data :: "u8 blocks \<Rightarrow> mbuf \<Rightarrow> u8 list" where
  "buf_data h M =
     (case h (mb_buf_addr M) of None \<Rightarrow> []
      | Some xs \<Rightarrow> take (unat (mb_data_len M)) (drop (unat (mb_data_off M)) xs))"

definition seg_data :: "'p mbuf_mem \<Rightarrow> maddr \<Rightarrow> u8 list" where
  "seg_data mm s = (case mm_mbufs mm s of None \<Rightarrow> [] | Some M \<Rightarrow> buf_data (mm_bufs mm) M)"

definition pkt_bytes :: "'p mbuf_mem \<Rightarrow> maddr list \<Rightarrow> u8 list" where
  "pkt_bytes mm ss = concat (map (seg_data mm) ss)"

definition buf_ok :: "u8 blocks \<Rightarrow> mbuf \<Rightarrow> bool" where
  "buf_ok h M \<longleftrightarrow> unat (mb_data_off M) + unat (mb_data_len M) \<le> unat (mb_buf_len M) \<and>
     map_option length (h (mb_buf_addr M)) = Some (unat (mb_buf_len M))"

definition seg_ok :: "'p mbuf_mem \<Rightarrow> maddr \<Rightarrow> bool" where
  "seg_ok mm s \<longleftrightarrow> (case mm_mbufs mm s of None \<Rightarrow> False | Some M \<Rightarrow> buf_ok (mm_bufs mm) M)"

definition pkt_ok :: "'p mbuf_mem \<Rightarrow> maddr \<Rightarrow> maddr list \<Rightarrow> bool" where
  "pkt_ok mm m ss \<longleftrightarrow> seg_chain mm (Some m) ss \<and> distinct ss \<and> list_all (seg_ok mm) ss \<and>
     (case mm_mbufs mm m of None \<Rightarrow> False
      | Some H \<Rightarrow> unat (mb_nb_segs H) = length ss \<and> unat (mb_pkt_len H) = length (pkt_bytes mm ss))"

lemma upd_mbuf_Some [simp]:
  "mm_mbufs mm m = Some M \<Longrightarrow> upd_mbuf f m mm = Some (mm\<lparr>mm_mbufs := (mm_mbufs mm)(m \<mapsto> f M)\<rparr>)"
  by (simp add: upd_mbuf_def)

lemma seg_chain_cong:
  "(\<And>s. s \<in> set ss \<Longrightarrow> map_option mb_next (mm_mbufs mm' s) = map_option mb_next (mm_mbufs mm s)) \<Longrightarrow>
     seg_chain mm' p ss = seg_chain mm p ss"
proof (induction ss arbitrary: p)
  case (Cons s ss)
  have "map_option mb_next (mm_mbufs mm' s) = map_option mb_next (mm_mbufs mm s)"
    by (simp add: Cons.prems)
  moreover have "seg_chain mm' q ss = seg_chain mm q ss" for q
    by (rule Cons.IH) (simp add: Cons.prems)
  ultimately show ?case by (cases "mm_mbufs mm s"; cases "mm_mbufs mm' s") simp_all
qed simp

lemma seg_chain_head: "seg_chain mm (Some m) ss \<Longrightarrow> \<exists>rest. ss = m # rest"
  by (cases ss) auto

lemma seg_chain_live: "seg_chain mm p ss \<Longrightarrow> s \<in> set ss \<Longrightarrow> \<exists>M. mm_mbufs mm s = Some M"
proof (induction ss arbitrary: p)
  case (Cons t ss)
  then show ?case by (cases "mm_mbufs mm t") auto
qed simp

lemma seg_chain_last:
  "seg_chain mm p ss \<Longrightarrow> ss \<noteq> [] \<Longrightarrow> \<exists>L. mm_mbufs mm (last ss) = Some L \<and> mb_next L = None"
proof (induction ss arbitrary: p)
  case (Cons s ss)
  then show ?case by (cases ss) (auto split: option.splits)
qed simp

lemma seg_chain_append:
  assumes "seg_chain mm p (as @ [l])" "mm_mbufs mm' l = Some L" "seg_chain mm' (mb_next L) bs"
    "\<And>s. s \<in> set as \<Longrightarrow> map_option mb_next (mm_mbufs mm' s) = map_option mb_next (mm_mbufs mm s)"
  shows "seg_chain mm' p (as @ l # bs)"
  using assms(1,4)
proof (induction as arbitrary: p)
  case Nil
  then show ?case using assms(2,3) by simp
next
  case (Cons a as)
  from Cons.prems(1) obtain A where A: "p = Some a" "mm_mbufs mm a = Some A" "seg_chain mm (mb_next A) (as @ [l])"
    by (auto split: option.splits)
  have "map_option mb_next (mm_mbufs mm' a) = Some (mb_next A)" using Cons.prems(2) [of a] A by simp
  then obtain A' where A': "mm_mbufs mm' a = Some A'" "mb_next A' = mb_next A" by auto
  have "seg_chain mm' (mb_next A) (as @ l # bs)" by (rule Cons.IH [OF A(3)]) (simp add: Cons.prems(2))
  then show ?case using A A' by simp
qed

lemma lastseg_spec:
  "seg_chain mm (Some m) ss \<Longrightarrow> rte_pktmbuf_lastseg mm m = Some (last ss)"
proof (induction ss arbitrary: m)
  case (Cons s ss)
  then obtain M where M: "m = s" "mm_mbufs mm s = Some M" "seg_chain mm (mb_next M) ss" by (auto split: option.splits)
  show ?case
  proof (cases "mb_next M")
    case None
    then have "ss = []" using M(3) by (cases ss) auto
    then show ?thesis using M None by (subst rte_pktmbuf_lastseg.simps) simp
  next
    case (Some n)
    then have "ss \<noteq> []" "rte_pktmbuf_lastseg mm n = Some (last ss)" using M(3) Cons.IH [of n] by auto
    then show ?thesis using M Some by (subst rte_pktmbuf_lastseg.simps) simp
  qed
qed simp

section \<open>Bytes\<close>

lemma buf_data_length: "buf_ok h M \<Longrightarrow> length (buf_data h M) = unat (mb_data_len M)"
  by (auto simp: buf_ok_def buf_data_def split: option.splits)

lemma buf_data_short: "length (buf_data h M) \<le> unat (mb_data_len M)"
  by (auto simp: buf_data_def split: option.splits)

lemma seg_data_bound: "length (seg_data mm s) \<le> 65535"
proof (cases "mm_mbufs mm s")
  case (Some M)
  have "unat (mb_data_len M) \<le> 65535" using unat_lt2p [of "mb_data_len M"] by simp
  then show ?thesis using Some buf_data_short [of "mm_bufs mm" M] by (simp add: seg_data_def)
qed (simp add: seg_data_def)

lemma pkt_bytes_bound: "length (pkt_bytes mm ss) \<le> 65535 * length ss"
proof (induction ss)
  case (Cons s ss)
  then show ?case using seg_data_bound [of mm s] by (simp add: pkt_bytes_def)
qed (simp add: pkt_bytes_def)

lemma pkt_bytes_simps [simp]:
  "pkt_bytes mm [] = []" "pkt_bytes mm (s # ss) = seg_data mm s @ pkt_bytes mm ss"
  "pkt_bytes mm (ss @ ts) = pkt_bytes mm ss @ pkt_bytes mm ts"
  by (simp_all add: pkt_bytes_def)

lemma pkt_bytes_cong:
  "(\<And>s. s \<in> set ss \<Longrightarrow> seg_data mm' s = seg_data mm s) \<Longrightarrow> pkt_bytes mm' ss = pkt_bytes mm ss"
  by (simp add: pkt_bytes_def cong: map_cong)

text \<open>A packet of at most 65535 segments is shorter than \<open>2 ^ 32 - 65536\<close> bytes.\<close>

lemma pkt_len_fits:
  assumes "length ss \<le> 65535"
  shows "length (pkt_bytes mm ss) < 2 ^ 32"
proof -
  have "65535 * length ss \<le> 65535 * 65535" using assms by simp
  then show ?thesis using pkt_bytes_bound [of mm ss] by simp
qed

lemma pkt_head:
  assumes "pkt_ok mm m ss"
  obtains H rest where "ss = m # rest" "mm_mbufs mm m = Some H" "unat (mb_nb_segs H) = length ss"
    "unat (mb_pkt_len H) = length (pkt_bytes mm ss)" "length ss \<le> 65535" "buf_ok (mm_bufs mm) H"
proof -
  obtain rest where r: "ss = m # rest" using assms seg_chain_head unfolding pkt_ok_def by blast
  obtain H where H: "mm_mbufs mm m = Some H" "unat (mb_nb_segs H) = length ss" "unat (mb_pkt_len H) = length (pkt_bytes mm ss)"
    using assms by (auto simp: pkt_ok_def split: option.splits)
  have "length ss \<le> 65535" using unat_lt2p [of "mb_nb_segs H"] H(2) by simp
  moreover have "buf_ok (mm_bufs mm) H" using assms H(1) r by (auto simp: pkt_ok_def seg_ok_def)
  ultimately show thesis using that r H by blast
qed

lemma pkt_last:
  assumes "pkt_ok mm m ss"
  obtains as l L where "ss = as @ [l]" "rte_pktmbuf_lastseg mm m = Some l" "mm_mbufs mm l = Some L" "mb_next L = None"
    "l \<notin> set as" "buf_ok (mm_bufs mm) L"
proof -
  have ne: "ss \<noteq> []" using assms by (auto simp: pkt_ok_def)
  then obtain as l where ss: "ss = as @ [l]" by (metis append_butlast_last_id)
  have "rte_pktmbuf_lastseg mm m = Some l" using lastseg_spec [of mm m ss] assms ss by (simp add: pkt_ok_def)
  moreover obtain L where "mm_mbufs mm l = Some L" "mb_next L = None"
    using seg_chain_last [of mm "Some m" ss] assms ss ne by (auto simp: pkt_ok_def)
  moreover have "buf_ok (mm_bufs mm) L" using assms ss calculation by (auto simp: pkt_ok_def seg_ok_def)
  moreover have "l \<notin> set as" using assms ss by (simp add: pkt_ok_def)
  ultimately show thesis using that ss by blast
qed

section \<open>Growing and shrinking\<close>

text \<open>Both functions that work at the end of a packet write the last segment and the head, which may be one mbuf.\<close>

definition end_written :: "maddr \<Rightarrow> mbuf \<Rightarrow> maddr \<Rightarrow> u32 \<Rightarrow> mbuf \<Rightarrow> 'p mbuf_mem \<Rightarrow> 'p mbuf_mem" where
  "end_written l L m p H mm =
     mm\<lparr>mm_mbufs := (mm_mbufs mm)(l \<mapsto> L, m \<mapsto> (if m = l then L else H)\<lparr>mb_pkt_len := p\<rparr>)\<rparr>"

lemma end_written_data:
  "seg_data (end_written l L m p H mm) s =
     (if s = l then buf_data (mm_bufs mm) L else if s = m then buf_data (mm_bufs mm) H else seg_data mm s)"
  by (auto simp: end_written_def seg_data_def buf_data_def cong: option.case_cong)

lemma end_written_ok:
  assumes ok: "pkt_ok mm m (as @ [l])" and L: "mm_mbufs mm l = Some L" and H: "mm_mbufs mm m = Some H"
    and L': "mb_next L' = mb_next L" "mb_nb_segs L' = mb_nb_segs L" "buf_ok (mm_bufs mm) L'"
    and p: "unat p = length (pkt_bytes mm as) + unat (mb_data_len L')"
  shows "pkt_ok (end_written l L' m p H mm) m (as @ [l])"
    "pkt_bytes (end_written l L' m p H mm) (as @ [l]) = pkt_bytes mm as @ buf_data (mm_bufs mm) L'"
proof -
  let ?mm = "end_written l L' m p H mm"
  have d: "distinct (as @ [l])" using ok by (simp add: pkt_ok_def)
  have sd: "seg_data ?mm s = seg_data mm s" if "s \<in> set as" for s
    using that d H by (cases "s = m") (auto simp: end_written_data, simp add: seg_data_def)
  then have as: "pkt_bytes ?mm as = pkt_bytes mm as" by (rule pkt_bytes_cong)
  then show pb: "pkt_bytes ?mm (as @ [l]) = pkt_bytes mm as @ buf_data (mm_bufs mm) L'"
    by (simp add: end_written_data)
  have "seg_chain ?mm (Some m) (as @ [l]) = seg_chain mm (Some m) (as @ [l])"
    by (rule seg_chain_cong) (use L H L' in \<open>auto simp: end_written_def\<close>)
  moreover have "list_all (seg_ok ?mm) (as @ [l])"
    using ok L H L' by (auto simp: pkt_ok_def list_all_iff seg_ok_def end_written_def buf_ok_def split: option.splits)
  moreover have "unat (mb_nb_segs H) = length (as @ [l])" using ok H by (simp add: pkt_ok_def)
  moreover have "m = l \<Longrightarrow> H = L" using L H by simp
  moreover have "length (pkt_bytes ?mm (as @ [l])) = unat p" unfolding pb using p buf_data_length [OF L'(3)] by simp
  moreover have "mm_mbufs ?mm m = Some ((if m = l then L' else H)\<lparr>mb_pkt_len := p\<rparr>)" by (simp add: end_written_def)
  ultimately show "pkt_ok ?mm m (as @ [l])" using ok d L'(2) unfolding pkt_ok_def by auto
qed

lemma tailroom_spec:
  assumes "buf_ok h L"
  shows "unat (rte_pktmbuf_tailroom L) = unat (mb_buf_len L) - unat (mb_data_off L) - unat (mb_data_len L)"
proof -
  have 1: "unat (mb_data_off L) + unat (mb_data_len L) \<le> unat (mb_buf_len L)" using assms by (simp add: buf_ok_def)
  then have a: "unat (mb_buf_len L - mb_data_off L) = unat (mb_buf_len L) - unat (mb_data_off L)"
    by (intro unat_sub_le) (simp add: word_le_nat_alt)
  show ?thesis unfolding rte_pktmbuf_tailroom_def rte_pktmbuf_headroom_def
    by (subst unat_sub_le) (use 1 a in \<open>simp_all add: word_le_nat_alt\<close>)
qed

lemma ucast_len [simp]: "unat (ucast (len :: u16) :: u32) = unat len"
  by (simp add: unat_ucast_up)

text \<open>\<open>buf_room h L\<close> are the bytes after the data of a segment.\<close>

definition buf_room :: "u8 blocks \<Rightarrow> mbuf \<Rightarrow> u8 list" where
  "buf_room h L = (case h (mb_buf_addr L) of None \<Rightarrow> []
     | Some xs \<Rightarrow> drop (unat (mb_data_off L) + unat (mb_data_len L)) xs)"

lemma buf_data_longer:
  assumes "buf_ok h L" "unat (mb_data_off L) + unat (mb_data_len L) + unat len \<le> unat (mb_buf_len L)"
  shows "unat (mb_data_len L + len) = unat (mb_data_len L) + unat len"
    "buf_data h (L\<lparr>mb_data_len := mb_data_len L + len\<rparr>) = buf_data h L @ take (unat len) (buf_room h L)"
    "buf_ok h (L\<lparr>mb_data_len := mb_data_len L + len\<rparr>)"
proof -
  have "unat (mb_buf_len L) < 2 ^ 16" using unat_lt2p [of "mb_buf_len L"] by simp
  then have "unat (mb_data_len L) + unat len < 2 ^ LENGTH(16)" using assms(2) by simp
  then show u: "unat (mb_data_len L + len) = unat (mb_data_len L) + unat len" by (rule unat_add_no_overflow)
  then show "buf_ok h (L\<lparr>mb_data_len := mb_data_len L + len\<rparr>)" using assms by (simp add: buf_ok_def)
  show "buf_data h (L\<lparr>mb_data_len := mb_data_len L + len\<rparr>) = buf_data h L @ take (unat len) (buf_room h L)"
    using assms u by (auto simp: buf_data_def buf_room_def buf_ok_def take_add split: option.splits) (metis add.commute drop_drop)
qed

lemma pkt_end:
  assumes "pkt_ok mm m (as @ [l])" "mm_mbufs mm l = Some L" "mm_mbufs mm m = Some H"
  shows "rte_pktmbuf_lastseg mm m = Some l" "buf_ok (mm_bufs mm) L" "m = l \<Longrightarrow> H = L"
    "unat (mb_pkt_len H) = length (pkt_bytes mm as) + unat (mb_data_len L)" "length (pkt_bytes mm as) \<le> 65535 * 65534"
    "pkt_bytes mm (as @ [l]) = pkt_bytes mm as @ buf_data (mm_bufs mm) L"
proof -
  show "rte_pktmbuf_lastseg mm m = Some l" using pkt_last [OF assms(1)] by (metis last_snoc)
  show L: "buf_ok (mm_bufs mm) L" using assms(1,2) by (auto simp: pkt_ok_def seg_ok_def)
  show "m = l \<Longrightarrow> H = L" using assms(2,3) by simp
  show b: "pkt_bytes mm (as @ [l]) = pkt_bytes mm as @ buf_data (mm_bufs mm) L" using assms(2) by (simp add: seg_data_def)
  then show "unat (mb_pkt_len H) = length (pkt_bytes mm as) + unat (mb_data_len L)"
    using assms(1,3) buf_data_length [OF L] by (simp add: pkt_ok_def del: pkt_bytes_simps)
  have "length (as @ [l]) \<le> 65535" using pkt_head [OF assms(1)] by metis
  then have "65535 * length as \<le> 65535 * 65534" by simp
  then show "length (pkt_bytes mm as) \<le> 65535 * 65534" using pkt_bytes_bound [of mm as] by (rule order_trans [rotated])
qed

lemma append_fits:
  assumes ok: "pkt_ok mm m (as @ [l])" and L: "mm_mbufs mm l = Some L" and H: "mm_mbufs mm m = Some H"
    and sum: "unat (mb_data_off L) + unat (mb_data_len L) + unat len \<le> unat (mb_buf_len L)"
  defines "mm' \<equiv> end_written l (L\<lparr>mb_data_len := mb_data_len L + len\<rparr>) m (mb_pkt_len H + ucast len) H mm"
  shows "rte_pktmbuf_append m len mm = Some (Some (mb_buf_addr L, unat (mb_data_off L) + unat (mb_data_len L)), mm')"
    "pkt_ok mm' m (as @ [l])" "pkt_bytes mm' (as @ [l]) = pkt_bytes mm (as @ [l]) @ take (unat len) (buf_room (mm_bufs mm) L)"
proof -
  let ?L = "L\<lparr>mb_data_len := mb_data_len L + len\<rparr>"
  note e = pkt_end [OF ok L H]
  note longer = buf_data_longer [OF e(2) sum]
  have "unat (mb_pkt_len H) + unat (ucast len :: u32) < 2 ^ LENGTH(32)"
    using e(4,5) longer(1) unat_lt2p [of "mb_data_len L + len"] by simp
  then have p: "unat (mb_pkt_len H + ucast len) = length (pkt_bytes mm as) + unat (mb_data_len ?L)"
    using e(4) longer(1) by (subst unat_add_no_overflow) simp_all
  have "\<not> len > rte_pktmbuf_tailroom L" using sum tailroom_spec [OF e(2)] by (simp add: word_less_nat_alt)
  then show "rte_pktmbuf_append m len mm = Some (Some (mb_buf_addr L, unat (mb_data_off L) + unat (mb_data_len L)), mm')"
    using e(1,3) L H unfolding rte_pktmbuf_append_def mm'_def end_written_def by (cases "m = l") simp_all
  show "pkt_ok mm' m (as @ [l])" unfolding mm'_def by (rule end_written_ok(1) [OF ok L H _ _ longer(3) p]) simp_all
  show "pkt_bytes mm' (as @ [l]) = pkt_bytes mm (as @ [l]) @ take (unat len) (buf_room (mm_bufs mm) L)"
    using end_written_ok(2) [OF ok L H _ _ longer(3) p] e(6) longer(2) unfolding mm'_def by simp
qed

lemma append_full:
  assumes "pkt_ok mm m (as @ [l])" "mm_mbufs mm l = Some L"
    "unat (mb_buf_len L) < unat (mb_data_off L) + unat (mb_data_len L) + unat len"
  shows "rte_pktmbuf_append m len mm = Some (None, mm)"
proof -
  obtain H where "mm_mbufs mm m = Some H" using pkt_head [OF assms(1)] by metis
  note e = pkt_end [OF assms(1,2) this]
  have "len > rte_pktmbuf_tailroom L" using assms(3) e(2) tailroom_spec [OF e(2)] by (auto simp: buf_ok_def word_less_nat_alt)
  then show ?thesis using assms(2) e(1) by (simp add: rte_pktmbuf_append_def)
qed

lemma buf_data_shorter:
  assumes "buf_ok h L" "unat len \<le> unat (mb_data_len L)"
  shows "unat (mb_data_len L - len) = unat (mb_data_len L) - unat len"
    "buf_data h (L\<lparr>mb_data_len := mb_data_len L - len\<rparr>) = take (unat (mb_data_len L) - unat len) (buf_data h L)"
    "buf_ok h (L\<lparr>mb_data_len := mb_data_len L - len\<rparr>)"
proof -
  show u: "unat (mb_data_len L - len) = unat (mb_data_len L) - unat len"
    using assms(2) by (intro unat_sub_le) (simp add: word_le_nat_alt)
  show "buf_ok h (L\<lparr>mb_data_len := mb_data_len L - len\<rparr>)" using assms u by (auto simp: buf_ok_def)
  show "buf_data h (L\<lparr>mb_data_len := mb_data_len L - len\<rparr>) = take (unat (mb_data_len L) - unat len) (buf_data h L)"
    using u by (auto simp: buf_data_def min_def split: option.splits)
qed

lemma trim_fits:
  assumes ok: "pkt_ok mm m (as @ [l])" and L: "mm_mbufs mm l = Some L" and H: "mm_mbufs mm m = Some H"
    and len: "unat len \<le> unat (mb_data_len L)"
  defines "mm' \<equiv> end_written l (L\<lparr>mb_data_len := mb_data_len L - len\<rparr>) m (mb_pkt_len H - ucast len) H mm"
  shows "rte_pktmbuf_trim m len mm = Some (0, mm')" "pkt_ok mm' m (as @ [l])"
    "pkt_bytes mm' (as @ [l]) = take (length (pkt_bytes mm (as @ [l])) - unat len) (pkt_bytes mm (as @ [l]))"
proof -
  let ?L = "L\<lparr>mb_data_len := mb_data_len L - len\<rparr>"
  note e = pkt_end [OF ok L H]
  note shorter = buf_data_shorter [OF e(2) len]
  have "(ucast len :: u32) \<le> mb_pkt_len H" using e(4) len by (simp add: word_le_nat_alt)
  then have p: "unat (mb_pkt_len H - ucast len) = length (pkt_bytes mm as) + unat (mb_data_len ?L)"
    using e(4) shorter(1) len by (subst unat_sub_le) simp_all
  have "\<not> len > mb_data_len L" using len by (simp add: word_less_nat_alt)
  then show "rte_pktmbuf_trim m len mm = Some (0, mm')"
    using e(1,3) L H unfolding rte_pktmbuf_trim_def mm'_def end_written_def by (cases "m = l") simp_all
  show "pkt_ok mm' m (as @ [l])" unfolding mm'_def by (rule end_written_ok(1) [OF ok L H _ _ shorter(3) p]) simp_all
  show "pkt_bytes mm' (as @ [l]) = take (length (pkt_bytes mm (as @ [l])) - unat len) (pkt_bytes mm (as @ [l]))"
    using end_written_ok(2) [OF ok L H _ _ shorter(3) p] e(6) shorter(2) len buf_data_length [OF e(2)] unfolding mm'_def by simp
qed

lemma trim_long:
  assumes "pkt_ok mm m (as @ [l])" "mm_mbufs mm l = Some L" "unat (mb_data_len L) < unat len"
  shows "rte_pktmbuf_trim m len mm = Some (- 1, mm)"
proof -
  obtain H where "mm_mbufs mm m = Some H" using pkt_head [OF assms(1)] by metis
  note e = pkt_end [OF assms(1,2) this]
  show ?thesis using assms e(1) by (simp add: rte_pktmbuf_trim_def word_less_nat_alt)
qed

text \<open>The two functions at the front write the head only.\<close>

definition head_written :: "maddr \<Rightarrow> mbuf \<Rightarrow> 'p mbuf_mem \<Rightarrow> 'p mbuf_mem" where
  "head_written m H mm = mm\<lparr>mm_mbufs := (mm_mbufs mm)(m \<mapsto> H)\<rparr>"

lemma head_written_ok:
  assumes ok: "pkt_ok mm m (m # rest)" and H: "mm_mbufs mm m = Some H"
    and H': "mb_next H' = mb_next H" "mb_nb_segs H' = mb_nb_segs H" "buf_ok (mm_bufs mm) H'"
    and p: "unat (mb_pkt_len H') = unat (mb_data_len H') + length (pkt_bytes mm rest)"
  shows "pkt_ok (head_written m H' mm) m (m # rest)"
    "pkt_bytes (head_written m H' mm) (m # rest) = buf_data (mm_bufs mm) H' @ pkt_bytes mm rest"
proof -
  let ?mm = "head_written m H' mm"
  have d: "m \<notin> set rest" using ok by (simp add: pkt_ok_def)
  have "pkt_bytes ?mm rest = pkt_bytes mm rest"
    by (rule pkt_bytes_cong) (use d in \<open>auto simp: seg_data_def head_written_def cong: option.case_cong\<close>)
  then show pb: "pkt_bytes ?mm (m # rest) = buf_data (mm_bufs mm) H' @ pkt_bytes mm rest"
    by (simp add: seg_data_def head_written_def)
  have "seg_chain ?mm (Some m) (m # rest) = seg_chain mm (Some m) (m # rest)"
    by (rule seg_chain_cong) (use H H'(1) in \<open>auto simp: head_written_def\<close>)
  moreover have "list_all (seg_ok ?mm) (m # rest)"
    using ok d H'(3) by (auto simp: pkt_ok_def list_all_iff seg_ok_def head_written_def split: option.splits)
  moreover have "length (pkt_bytes ?mm (m # rest)) = unat (mb_pkt_len H')"
    unfolding pb using p buf_data_length [OF H'(3)] by simp
  moreover have "mm_mbufs ?mm m = Some H'" by (simp add: head_written_def)
  ultimately show "pkt_ok ?mm m (m # rest)" using ok H H'(2) unfolding pkt_ok_def by auto
qed

lemma pkt_front:
  assumes "pkt_ok mm m (m # rest)" "mm_mbufs mm m = Some H"
  shows "buf_ok (mm_bufs mm) H" "unat (mb_pkt_len H) = unat (mb_data_len H) + length (pkt_bytes mm rest)"
    "length (pkt_bytes mm rest) \<le> 65535 * 65534" "pkt_bytes mm (m # rest) = buf_data (mm_bufs mm) H @ pkt_bytes mm rest"
proof -
  show H: "buf_ok (mm_bufs mm) H" using assms by (auto simp: pkt_ok_def seg_ok_def)
  show b: "pkt_bytes mm (m # rest) = buf_data (mm_bufs mm) H @ pkt_bytes mm rest" using assms(2) by (simp add: seg_data_def)
  then show "unat (mb_pkt_len H) = unat (mb_data_len H) + length (pkt_bytes mm rest)"
    using assms buf_data_length [OF H] by (simp add: pkt_ok_def del: pkt_bytes_simps)
  have "length (m # rest) \<le> 65535" using pkt_head [OF assms(1)] by metis
  then have "65535 * length rest \<le> 65535 * 65534" by simp
  then show "length (pkt_bytes mm rest) \<le> 65535 * 65534" using pkt_bytes_bound [of mm rest] by (rule order_trans [rotated])
qed

text \<open>The bytes before the data of a segment.\<close>

definition buf_front :: "u8 blocks \<Rightarrow> mbuf \<Rightarrow> u8 list" where
  "buf_front h M = (case h (mb_buf_addr M) of None \<Rightarrow> [] | Some xs \<Rightarrow> take (unat (mb_data_off M)) xs)"

lemma prepend_fits:
  assumes ok: "pkt_ok mm m (m # rest)" and H: "mm_mbufs mm m = Some H" and len: "unat len \<le> unat (mb_data_off H)"
  defines "H' \<equiv> H\<lparr>mb_data_off := mb_data_off H - len, mb_data_len := mb_data_len H + len, mb_pkt_len := mb_pkt_len H + ucast len\<rparr>"
  shows "rte_pktmbuf_prepend m len mm =
      Some (Some (mb_buf_addr H, unat (mb_data_off H) - unat len), head_written m H' mm)"
    "pkt_ok (head_written m H' mm) m (m # rest)"
    "pkt_bytes (head_written m H' mm) (m # rest) =
       drop (unat (mb_data_off H) - unat len) (buf_front (mm_bufs mm) H) @ pkt_bytes mm (m # rest)"
proof -
  note e = pkt_front [OF ok H]
  have off: "unat (mb_data_off H - len) = unat (mb_data_off H) - unat len"
    using len by (intro unat_sub_le) (simp add: word_le_nat_alt)
  have b: "unat (mb_data_off H) + unat (mb_data_len H) \<le> unat (mb_buf_len H)" using e(1) by (simp add: buf_ok_def)
  have "unat (mb_buf_len H) < 2 ^ 16" using unat_lt2p [of "mb_buf_len H"] by simp
  then have "unat (mb_data_len H) + unat len < 2 ^ LENGTH(16)" using b len by simp
  then have dl: "unat (mb_data_len H + len) = unat (mb_data_len H) + unat len" by (rule unat_add_no_overflow)
  have "unat (mb_pkt_len H) + unat (ucast len :: u32) < 2 ^ LENGTH(32)"
    using e(2,3) dl unat_lt2p [of "mb_data_len H + len"] by simp
  then have p: "unat (mb_pkt_len H') = unat (mb_data_len H') + length (pkt_bytes mm rest)"
    unfolding H'_def using e(2) dl by (simp add: unat_add_no_overflow)
  have ok': "buf_ok (mm_bufs mm) H'" using e(1) off dl len b by (auto simp: buf_ok_def H'_def)
  have "\<not> len > rte_pktmbuf_headroom H" using len by (simp add: rte_pktmbuf_headroom_def word_less_nat_alt)
  then show "rte_pktmbuf_prepend m len mm =
      Some (Some (mb_buf_addr H, unat (mb_data_off H) - unat len), head_written m H' mm)"
    using H off by (simp add: rte_pktmbuf_prepend_def head_written_def H'_def rte_pktmbuf_mtod_offset_def)
  show "pkt_ok (head_written m H' mm) m (m # rest)"
    by (rule head_written_ok(1) [OF ok H _ _ ok' p]) (simp_all add: H'_def)
  have "buf_data (mm_bufs mm) H' = drop (unat (mb_data_off H) - unat len) (buf_front (mm_bufs mm) H) @ buf_data (mm_bufs mm) H"
  proof -
    obtain xs where xs: "mm_bufs mm (mb_buf_addr H) = Some xs" using e(1) by (auto simp: buf_ok_def)
    have "take (unat (mb_data_len H) + unat len) (drop (unat (mb_data_off H) - unat len) xs) =
        drop (unat (mb_data_off H) - unat len) (take (unat (mb_data_off H)) xs) @ take (unat (mb_data_len H)) (drop (unat (mb_data_off H)) xs)"
      using len by (simp add: take_add drop_take add.commute)
    then show ?thesis using xs off dl by (simp add: buf_data_def buf_front_def H'_def)
  qed
  then show "pkt_bytes (head_written m H' mm) (m # rest) =
       drop (unat (mb_data_off H) - unat len) (buf_front (mm_bufs mm) H) @ pkt_bytes mm (m # rest)"
    using head_written_ok(2) [OF ok H _ _ ok' p] e(4) by (simp add: H'_def)
qed

lemma adj_fits:
  assumes ok: "pkt_ok mm m (m # rest)" and H: "mm_mbufs mm m = Some H" and len: "unat len \<le> unat (mb_data_len H)"
  defines "H' \<equiv> H\<lparr>mb_data_len := mb_data_len H - len, mb_data_off := mb_data_off H + len, mb_pkt_len := mb_pkt_len H - ucast len\<rparr>"
  shows "rte_pktmbuf_adj m len mm = Some (Some (mb_buf_addr H, unat (mb_data_off H) + unat len), head_written m H' mm)"
    "pkt_ok (head_written m H' mm) m (m # rest)"
    "pkt_bytes (head_written m H' mm) (m # rest) = drop (unat len) (pkt_bytes mm (m # rest))"
proof -
  note e = pkt_front [OF ok H]
  have dl: "unat (mb_data_len H - len) = unat (mb_data_len H) - unat len"
    using len by (intro unat_sub_le) (simp add: word_le_nat_alt)
  have b: "unat (mb_data_off H) + unat (mb_data_len H) \<le> unat (mb_buf_len H)" using e(1) by (simp add: buf_ok_def)
  have "unat (mb_buf_len H) < 2 ^ 16" using unat_lt2p [of "mb_buf_len H"] by simp
  then have "unat (mb_data_off H) + unat len < 2 ^ LENGTH(16)" using b len by simp
  then have off: "unat (mb_data_off H + len) = unat (mb_data_off H) + unat len" by (rule unat_add_no_overflow)
  have "(ucast len :: u32) \<le> mb_pkt_len H" using e(2) len by (simp add: word_le_nat_alt)
  then have p: "unat (mb_pkt_len H') = unat (mb_data_len H') + length (pkt_bytes mm rest)"
    unfolding H'_def using e(2) dl len by (simp add: unat_sub_le)
  have ok': "buf_ok (mm_bufs mm) H'" using e(1) off dl len b by (auto simp: buf_ok_def H'_def)
  have "\<not> len > mb_data_len H" using len by (simp add: word_less_nat_alt)
  then show "rte_pktmbuf_adj m len mm = Some (Some (mb_buf_addr H, unat (mb_data_off H) + unat len), head_written m H' mm)"
    using H off by (simp add: rte_pktmbuf_adj_def head_written_def H'_def rte_pktmbuf_mtod_offset_def)
  show "pkt_ok (head_written m H' mm) m (m # rest)"
    by (rule head_written_ok(1) [OF ok H _ _ ok' p]) (simp_all add: H'_def)
  have "buf_data (mm_bufs mm) H' = drop (unat len) (buf_data (mm_bufs mm) H)"
    using dl off len by (auto simp: buf_data_def H'_def drop_take add.commute split: option.splits)
  then show "pkt_bytes (head_written m H' mm) (m # rest) = drop (unat len) (pkt_bytes mm (m # rest))"
    using head_written_ok(2) [OF ok H _ _ ok' p] e(4) len buf_data_length [OF e(1)] by (simp add: H'_def)
qed

lemma front_refused:
  assumes "mm_mbufs mm m = Some H"
  shows "unat (mb_data_off H) < unat len \<Longrightarrow> rte_pktmbuf_prepend m len mm = Some (None, mm)"
    "unat (mb_data_len H) < unat len \<Longrightarrow> rte_pktmbuf_adj m len mm = Some (None, mm)"
  using assms by (simp_all add: rte_pktmbuf_prepend_def rte_pktmbuf_headroom_def rte_pktmbuf_adj_def word_less_nat_alt)

section \<open>Reading\<close>

lemma chain_data:
  assumes "mm_mbufs mm s = Some M" "seg_ok mm s"
  shows "seg_data mm s = buf_data (mm_bufs mm) M" "length (seg_data mm s) = unat (mb_data_len M)"
  using assms buf_data_length [of "mm_bufs mm" M] by (auto simp: seg_data_def seg_ok_def)

lemma read_skip_spec:
  assumes "seg_chain mm p ss" "list_all (seg_ok mm) ss" "unat off < length (pkt_bytes mm ss)"
  shows "\<exists>as s bs off'. ss = as @ s # bs \<and> read_skip mm p off = Some (s, off') \<and>
     unat off = length (pkt_bytes mm as) + unat off' \<and> unat off' < length (seg_data mm s)"
  using assms
proof (induction ss arbitrary: p off)
  case (Cons s ss)
  then obtain M where M: "p = Some s" "mm_mbufs mm s = Some M" "seg_chain mm (mb_next M) ss" by (auto split: option.splits)
  have len: "length (seg_data mm s) = unat (mb_data_len M)" using chain_data(2) [OF M(2)] Cons.prems(2) by simp
  show ?case
  proof (cases "off \<ge> ucast (mb_data_len M)")
    case False
    then have "unat off < length (seg_data mm s)" using len by (simp add: word_le_nat_alt)
    moreover have "read_skip mm p off = Some (s, off)" using M False by (subst read_skip.simps) simp
    ultimately show ?thesis by (intro exI [of _ "[]"] exI [of _ s] exI [of _ ss] exI [of _ off]) simp
  next
    case True
    then have le: "unat (mb_data_len M) \<le> unat off" by (simp add: word_le_nat_alt)
    have sub: "unat (off - ucast (mb_data_len M)) = unat off - unat (mb_data_len M)" using True by (simp add: unat_sub_le)
    have "unat (off - ucast (mb_data_len M)) < length (pkt_bytes mm ss)" using Cons.prems(3) len le sub by simp
    from Cons.IH [OF M(3) _ this] Cons.prems(2) obtain as t bs off' where
      r: "ss = as @ t # bs" "read_skip mm (mb_next M) (off - ucast (mb_data_len M)) = Some (t, off')"
        "unat (off - ucast (mb_data_len M)) = length (pkt_bytes mm as) + unat off'" "unat off' < length (seg_data mm t)" by auto
    have "read_skip mm p off = Some (t, off')" using M True r(2) by (subst read_skip.simps) simp
    then show ?thesis using r sub le len by (intro exI [of _ "s # as"] exI [of _ t] exI [of _ bs] exI [of _ off']) simp
  qed
qed simp

lemma seg_chain_suffix: "seg_chain mm p (as @ s # bs) \<Longrightarrow> seg_chain mm (Some s) (s # bs)"
proof (induction as arbitrary: p)
  case (Cons a as)
  then show ?case by (cases "mm_mbufs mm a") (auto simp del: seg_chain.simps(2) simp: seg_chain.simps(2) [of mm _ a])
qed simp

lemma read_skip_past_end:
  assumes "seg_chain mm p ss" "list_all (seg_ok mm) ss" "length (pkt_bytes mm ss) \<le> unat off"
  shows "read_skip mm p off = None"
  using assms
proof (induction ss arbitrary: p off)
  case Nil
  then show ?case by (subst read_skip.simps) simp
next
  case (Cons s ss)
  then obtain M where M: "p = Some s" "mm_mbufs mm s = Some M" "seg_chain mm (mb_next M) ss" by (auto split: option.splits)
  have len: "length (seg_data mm s) = unat (mb_data_len M)" using chain_data(2) [OF M(2)] Cons.prems(2) by simp
  have True: "off \<ge> ucast (mb_data_len M)" using Cons.prems(3) len by (simp add: word_le_nat_alt)
  have "unat (off - ucast (mb_data_len M)) = unat off - unat (mb_data_len M)" using True by (simp add: unat_sub_le)
  then have "read_skip mm (mb_next M) (off - ucast (mb_data_len M)) = None"
    using Cons.IH [OF M(3)] Cons.prems(2,3) len by simp
  then show ?case using M True by (subst read_skip.simps) simp
qed

text \<open>\<open>n\<close> bytes of one segment, from offset \<open>i\<close> of its data.\<close>

lemma bytes_at_seg:
  assumes "buf_ok h M" "i + n \<le> unat (mb_data_len M)"
  shows "bytes_at h (rte_pktmbuf_mtod_offset M i) n = Some (take n (drop i (buf_data h M)))"
  using assms by (auto simp: bytes_at_def rte_pktmbuf_mtod_offset_def buf_ok_def buf_data_def drop_take min_def add.commute)

lemma read_copy_spec:
  assumes "seg_chain mm p ss" "list_all (seg_ok mm) ss" "unat off + unat len \<le> length (pkt_bytes mm ss)"
    "ss \<noteq> [] \<Longrightarrow> unat off \<le> length (seg_data mm (hd ss))" "unat buf_off + unat len \<le> length buf" "unat buf_off + unat len < 2 ^ 32"
  shows "read_copy mm p off len buf buf_off =
     Some (take (unat buf_off) buf @ take (unat len) (drop (unat off) (pkt_bytes mm ss)) @ drop (unat buf_off + unat len) buf)"
  using assms
proof (induction ss arbitrary: p off len buf buf_off)
  case Nil
  then have "len = 0" by (simp add: unat_eq_0)
  then show ?case by (subst read_copy.simps) simp
next
  case (Cons s ss)
  then obtain M where M: "p = Some s" "mm_mbufs mm s = Some M" "seg_chain mm (mb_next M) ss" by (auto split: option.splits)
  have ok: "buf_ok (mm_bufs mm) M" using Cons.prems(2) M(2) by (simp add: seg_ok_def)
  note sd = chain_data [OF M(2)]
  have seg: "seg_data mm s = buf_data (mm_bufs mm) M" "length (seg_data mm s) = unat (mb_data_len M)"
    using sd Cons.prems(2) by simp_all
  show ?case
  proof (cases "len > 0")
    case False
    then have "len = 0" by (simp add: word_gt_0)
    then show ?thesis by (subst read_copy.simps) simp
  next
    case True
    define c where "c = (if (ucast (mb_data_len M) - off :: u32) > len then len else ucast (mb_data_len M) - off)"
    have off: "off \<le> ucast (mb_data_len M)" using Cons.prems(4) seg(2) by (simp add: word_le_nat_alt)
    have d: "unat (ucast (mb_data_len M) - off :: u32) = unat (mb_data_len M) - unat off" using unat_sub_le [OF off] by simp
    have c: "unat c = min (unat len) (unat (mb_data_len M) - unat off)" using d by (auto simp: c_def word_less_nat_alt)
    have cl: "c \<le> len" using c by (simp add: word_le_nat_alt)
    have lc: "unat (len - c) = unat len - unat c" using cl by (rule unat_sub_le)
    have bc: "unat (buf_off + c) = unat buf_off + unat c" using Cons.prems(6) c by (intro unat_add_no_overflow) simp
    let ?bs = "take (unat c) (drop (unat off) (seg_data mm s))"
    have "unat off \<le> unat (mb_data_len M)" using off by (simp add: word_le_nat_alt)
    then have oc: "unat off + unat c \<le> unat (mb_data_len M)" using c by simp
    have bs: "bytes_at (mm_bufs mm) (rte_pktmbuf_mtod_offset M (unat off)) (unat c) = Some ?bs"
      unfolding seg(1) by (rule bytes_at_seg [OF ok oc])
    have lbs: "length ?bs = unat c" using oc seg(2) by simp
    let ?buf = "take (unat buf_off) buf @ ?bs @ drop (unat buf_off + unat c) buf"
    have fit: "unat buf_off + unat c \<le> length buf" using Cons.prems(5) c by simp
    have IH: "read_copy mm (mb_next M) 0 (len - c) ?buf (buf_off + c) =
       Some (take (unat (buf_off + c)) ?buf @ take (unat (len - c)) (drop (unat (0 :: u32)) (pkt_bytes mm ss)) @
             drop (unat (buf_off + c) + unat (len - c)) ?buf)"
    proof (rule Cons.IH [OF M(3)])
      show "unat (0 :: u32) + unat (len - c) \<le> length (pkt_bytes mm ss)" using Cons.prems(3) seg(2) lc c by auto
    qed (use Cons.prems lbs lc bc c fit in auto)
    have "take (unat (buf_off + c)) ?buf = take (unat buf_off) buf @ ?bs" using fit lbs bc by simp
    moreover have "drop (unat (buf_off + c) + unat (len - c)) ?buf = drop (unat buf_off + unat len) buf"
      using fit lbs bc lc cl by (simp add: word_le_nat_alt add.commute)
    moreover have "take (unat len) (drop (unat off) (pkt_bytes mm (s # ss))) = ?bs @ take (unat (len - c)) (pkt_bytes mm ss)"
      using lc c oc seg(2) by (auto simp: min_def)
    moreover have "read_copy mm p off len buf buf_off = read_copy mm (mb_next M) 0 (len - c) ?buf (buf_off + c)"
      using True M bs fit by (subst read_copy.simps) (simp add: Let_def flip: c_def)
    ultimately show ?thesis using IH by simp
  qed
qed

text \<open>The bytes behind the pointer a read returns.\<close>

definition read_result :: "'p mbuf_mem \<Rightarrow> read_ptr \<Rightarrow> nat \<Rightarrow> u8 list option" where
  "read_result mm r n = (case r of Read_NULL \<Rightarrow> None | Read_mbuf q \<Rightarrow> bytes_at (mm_bufs mm) q n | Read_buf b \<Rightarrow> Some (take n b))"

lemma read_spec:
  assumes ok: "pkt_ok mm m ss" and ov: "unat off + unat len < 2 ^ 32" and buf: "unat len \<le> length buf"
    and le: "unat off + unat len \<le> length (pkt_bytes mm ss)" and ne: "0 < len \<or> unat off < length (pkt_bytes mm ss)"
  shows "\<exists>r. rte_pktmbuf_read mm m off len buf = Some r \<and>
     read_result mm r (unat len) = Some (take (unat len) (drop (unat off) (pkt_bytes mm ss)))"
proof -
  obtain rest H where H: "ss = m # rest" "mm_mbufs mm m = Some H" "unat (mb_pkt_len H) = length (pkt_bytes mm ss)" "buf_ok (mm_bufs mm) H"
    using pkt_head [OF ok] by metis
  have sum: "unat (off + len) = unat off + unat len" using ov by (intro unat_add_no_overflow) simp
  have segs: "seg_chain mm (Some m) ss" "list_all (seg_ok mm) ss" using ok by (auto simp: pkt_ok_def)
  have lt: "unat off < length (pkt_bytes mm ss)" using le ne by (auto simp: word_less_nat_alt)
  obtain as s bs off' where sk: "ss = as @ s # bs" "read_skip mm (Some m) off = Some (s, off')"
      "unat off = length (pkt_bytes mm as) + unat off'" "unat off' < length (seg_data mm s)"
    using read_skip_spec [OF segs lt] by blast
  obtain S where S: "mm_mbufs mm s = Some S" using seg_chain_live [OF segs(1), of s] sk(1) by auto
  have okS: "buf_ok (mm_bufs mm) S" "seg_ok mm s" using segs(2) S sk(1) by (auto simp: seg_ok_def)
  note sd = chain_data [OF S okS(2)]
  have sum': "unat (off' + len) = unat off' + unat len" using ov sk(3) by (intro unat_add_no_overflow) simp
  have bytes: "drop (unat off) (pkt_bytes mm ss) = drop (unat off') (pkt_bytes mm (s # bs))" using sk(1,3) by simp
  show ?thesis
  proof (cases "off + len \<le> ucast (mb_data_len H)")
    case True
    then have fit: "unat off + unat len \<le> unat (mb_data_len H)" using sum by (simp add: word_le_nat_alt)
    have "rte_pktmbuf_read mm m off len buf = Some (Read_mbuf (rte_pktmbuf_mtod_offset H (unat off)))"
      using True H(2) by (simp add: rte_pktmbuf_read_def)
    moreover have "take (unat len) (drop (unat off) (buf_data (mm_bufs mm) H)) = take (unat len) (drop (unat off) (pkt_bytes mm ss))"
      using H fit buf_data_length [OF H(4)] by (simp add: seg_data_def)
    ultimately show ?thesis using bytes_at_seg [OF H(4) fit] by (simp add: read_result_def)
  next
    case False
    then have slow: "rte_pktmbuf_read mm m off len buf =
        (if off' + len \<le> ucast (mb_data_len S) then Some (Read_mbuf (rte_pktmbuf_mtod_offset S (unat off')))
         else map_option Read_buf (read_copy mm (Some s) off' len buf 0))"
      using H(2,3) S sk(2) le sum by (simp add: rte_pktmbuf_read_def rte_pktmbuf_read_internal_def word_less_nat_alt)
    show ?thesis
    proof (cases "off' + len \<le> ucast (mb_data_len S)")
      case True
      then have fit: "unat off' + unat len \<le> unat (mb_data_len S)" using sum' by (simp add: word_le_nat_alt)
      then show ?thesis using slow True bytes_at_seg [OF okS(1) fit] bytes sd by (simp add: read_result_def)
    next
      case False
      have "seg_chain mm (Some s) (s # bs)" using segs(1) unfolding sk(1) by (rule seg_chain_suffix)
      then have "read_copy mm (Some s) off' len buf 0 =
          Some (take (unat len) (drop (unat off') (pkt_bytes mm (s # bs))) @ drop (unat len) buf)"
        by (subst read_copy_spec [where ss = "s # bs"]) (use segs(2) sk le buf ov bytes in auto)
      moreover have "length (take (unat len) (drop (unat off') (pkt_bytes mm (s # bs)))) = unat len"
        using le sk(1,3) by simp
      ultimately show ?thesis using slow False by (simp add: read_result_def bytes del: pkt_bytes_simps)
    qed
  qed
qed

section \<open>Chaining\<close>

text \<open>Two mbufs with the same data.\<close>

definition same_data :: "mbuf \<Rightarrow> mbuf \<Rightarrow> bool" where
  "same_data M M' \<longleftrightarrow> mb_buf_addr M' = mb_buf_addr M \<and> mb_data_off M' = mb_data_off M \<and>
     mb_data_len M' = mb_data_len M \<and> mb_buf_len M' = mb_buf_len M"

lemma seg_same:
  assumes "mm_mbufs mm s = Some M" "mm_mbufs mm' s = Some M'" "same_data M M'" "mm_bufs mm' = mm_bufs mm"
  shows "seg_data mm' s = seg_data mm s \<and> seg_ok mm' s = seg_ok mm s"
  using assms by (simp add: seg_data_def seg_ok_def buf_data_def buf_ok_def same_data_def cong: option.case_cong)

lemma seg_same_eq:
  "mm_mbufs mm' s = mm_mbufs mm s \<Longrightarrow> mm_bufs mm' = mm_bufs mm \<Longrightarrow> seg_data mm' s = seg_data mm s \<and> seg_ok mm' s = seg_ok mm s"
  by (simp add: seg_data_def seg_ok_def cong: option.case_cong)

lemma chain_ok:
  assumes h: "pkt_ok mm head hs" and t: "pkt_ok mm tail ts" and d: "set hs \<inter> set ts = {}"
    and n: "length hs + length ts \<le> 65535"
  shows "\<exists>mm'. rte_pktmbuf_chain head tail mm = Some (0, mm') \<and> pkt_ok mm' head (hs @ ts) \<and>
     pkt_bytes mm' (hs @ ts) = pkt_bytes mm hs @ pkt_bytes mm ts \<and> mm_bufs mm' = mm_bufs mm"
proof -
  obtain hr H where H: "hs = head # hr" "mm_mbufs mm head = Some H" "unat (mb_nb_segs H) = length hs"
      "unat (mb_pkt_len H) = length (pkt_bytes mm hs)"
    using pkt_head [OF h] by metis
  obtain tr T where T: "ts = tail # tr" "mm_mbufs mm tail = Some T" "unat (mb_nb_segs T) = length ts"
      "unat (mb_pkt_len T) = length (pkt_bytes mm ts)"
    using pkt_head [OF t] by metis
  obtain as l L where L: "hs = as @ [l]" "rte_pktmbuf_lastseg mm head = Some l" "mm_mbufs mm l = Some L" "l \<notin> set as"
    using pkt_last [OF h] by metis
  have "l \<in> set hs" unfolding L(1) by simp
  moreover have "head \<in> set hs" "tail \<in> set ts" using H(1) T(1) by simp_all
  ultimately have ne: "tail \<noteq> head" "tail \<noteq> l" using d by auto
  have lh: "head = l \<Longrightarrow> H = L" using L(3) H(2) by simp
  define n' where "n' = mb_nb_segs H + mb_nb_segs T"
  define p' where "p' = mb_pkt_len H + mb_pkt_len T"
  have "unat (mb_nb_segs H) + unat (mb_nb_segs T) < 2 ^ LENGTH(16)" using n H(3) T(3) by simp
  then have nb: "unat n' = length (hs @ ts)" using H(3) T(3) by (simp add: n'_def unat_add_no_overflow)
  have "length (pkt_bytes mm (hs @ ts)) < 2 ^ 32" using n by (intro pkt_len_fits) simp
  then have "unat (mb_pkt_len H) + unat (mb_pkt_len T) < 2 ^ LENGTH(32)" using H(4) T(4) by simp
  then have pl: "unat p' = length (pkt_bytes mm (hs @ ts))" using H(4) T(4) by (simp add: p'_def unat_add_no_overflow)
  define H' where "H' = (if head = l then L\<lparr>mb_next := Some tail\<rparr> else H)\<lparr>mb_nb_segs := n', mb_pkt_len := p'\<rparr>"
  define mm' where "mm' = mm\<lparr>mm_mbufs := (mm_mbufs mm)(l \<mapsto> L\<lparr>mb_next := Some tail\<rparr>, head \<mapsto> H',
                              tail \<mapsto> T\<lparr>mb_pkt_len := ucast (mb_data_len T)\<rparr>)\<rparr>"
  have "\<not> unat (mb_nb_segs H) + unat (mb_nb_segs T) > RTE_MBUF_MAX_NB_SEGS"
    using n H(3) T(3) by (simp add: RTE_MBUF_MAX_NB_SEGS_def)
  then have run: "rte_pktmbuf_chain head tail mm = Some (0, mm')"
    using H(2) T(2) L(2,3) ne by (auto simp: rte_pktmbuf_chain_def n'_def p'_def mm'_def H'_def)
  have H': "mm_mbufs mm' head = Some H'" "same_data H H'" "mb_nb_segs H' = n'" "mb_pkt_len H' = p'"
      "mb_next H' = (if head = l then Some tail else mb_next H)"
    using lh ne by (simp_all add: mm'_def H'_def same_data_def)
  have l': "\<exists>L'. mm_mbufs mm' l = Some L' \<and> mb_next L' = Some tail \<and> same_data L L'"
    using ne H' lh by (cases "head = l") (simp_all add: mm'_def same_data_def)
  have t': "\<exists>T'. mm_mbufs mm' tail = Some T' \<and> mb_next T' = mb_next T \<and> same_data T T'"
    by (simp add: mm'_def same_data_def)
  have other: "mm_mbufs mm' s = mm_mbufs mm s" if "s \<noteq> l" "s \<noteq> head" "s \<noteq> tail" for s using that by (simp add: mm'_def)
  have bufs: "mm_bufs mm' = mm_bufs mm" by (simp add: mm'_def)
  have same: "seg_data mm' s = seg_data mm s \<and> seg_ok mm' s = seg_ok mm s" for s
  proof -
    consider "s = l" | "s = head" | "s = tail" | "s \<noteq> l" "s \<noteq> head" "s \<noteq> tail" by blast
    then show ?thesis
    proof cases
      case 1
      then show ?thesis using l' seg_same [OF L(3) _ _ bufs] by blast
    next
      case 2
      then show ?thesis using seg_same [OF H(2) H'(1,2) bufs] by simp
    next
      case 3
      then show ?thesis using t' seg_same [OF T(2) _ _ bufs] by blast
    next
      case 4
      then show ?thesis using seg_same_eq [OF other bufs] by blast
    qed
  qed
  then have bytes: "pkt_bytes mm' xs = pkt_bytes mm xs" for xs by (intro pkt_bytes_cong) simp
  have nx: "map_option mb_next (mm_mbufs mm' s) = map_option mb_next (mm_mbufs mm s)" if "s \<noteq> l" for s
  proof -
    consider "s = head" | "s = tail" | "s \<noteq> head" "s \<noteq> tail" by blast
    then show ?thesis using that t' H' H(2) T(2) other by cases auto
  qed
  have "l \<notin> set ts" using d \<open>l \<in> set hs\<close> by blast
  then have "seg_chain mm' (Some tail) ts = seg_chain mm (Some tail) ts" by (intro seg_chain_cong nx) blast
  then have tn: "seg_chain mm' (Some tail) ts" using t by (simp add: pkt_ok_def)
  obtain L' where L': "mm_mbufs mm' l = Some L'" "mb_next L' = Some tail" using l' by blast
  have "seg_chain mm' (Some head) (as @ l # ts)"
  proof (rule seg_chain_append [where mm = mm, OF _ L'(1)])
    show "seg_chain mm (Some head) (as @ [l])" using h L(1) by (simp add: pkt_ok_def)
    show "seg_chain mm' (mb_next L') ts" using tn L'(2) by simp
    show "map_option mb_next (mm_mbufs mm' s) = map_option mb_next (mm_mbufs mm s)" if "s \<in> set as" for s
      by (rule nx) (use L(4) that in blast)
  qed
  then have "seg_chain mm' (Some head) (hs @ ts)" by (simp add: L(1))
  moreover have "list_all (seg_ok mm') (hs @ ts)" using h t same by (auto simp: pkt_ok_def list_all_iff)
  moreover have "length (pkt_bytes mm' (hs @ ts)) = unat p'" by (simp only: bytes pl)
  ultimately have "pkt_ok mm' head (hs @ ts)" using h t d H' nb unfolding pkt_ok_def by simp
  then show ?thesis using run bytes bufs by (intro exI [of _ mm']) simp
qed

section \<open>The check\<close>

definition seg_fits :: "'p mbuf_mem \<Rightarrow> maddr \<Rightarrow> bool" where
  "seg_fits mm s \<longleftrightarrow> (case mm_mbufs mm s of None \<Rightarrow> False
     | Some M \<Rightarrow> unat (mb_data_off M) + unat (mb_data_len M) \<le> unat (mb_buf_len M))"

definition data_lens :: "'p mbuf_mem \<Rightarrow> maddr list \<Rightarrow> nat" where
  "data_lens mm ss = sum_list (map (\<lambda>s. case mm_mbufs mm s of None \<Rightarrow> 0 | Some M \<Rightarrow> unat (mb_data_len M)) ss)"

definition hdr_ok :: "mbuf \<Rightarrow> bool" where
  "hdr_ok M \<longleftrightarrow> mb_pool M \<noteq> 0 \<and> mb_buf_iova M \<noteq> 0 \<and> mb_buf_addr M \<noteq> 0 \<and> mb_refcnt M \<noteq> 0 \<and> mb_refcnt M \<noteq> 0xffff"

lemma check_loop_spec:
  assumes "seg_chain mm (Some m) ss"
  shows "\<exists>r. check_loop mm m n p = Some r \<and>
     (case r of Inl _ \<Rightarrow> \<not> list_all (seg_fits mm) ss
      | Inr (n', p') \<Rightarrow> list_all (seg_fits mm) ss \<and> n' = n - of_nat (length ss) \<and> p' = p - of_nat (data_lens mm ss))"
  using assms
proof (induction ss arbitrary: m n p)
  case (Cons s ss)
  then obtain M where M: "m = s" "mm_mbufs mm s = Some M" "seg_chain mm (mb_next M) ss" by (auto split: option.splits)
  show ?case
  proof (cases "seg_fits mm s")
    case False
    then have "check_loop mm m n p = Some (Inl (if mb_data_off M > mb_buf_len M then ''data offset too big in mbuf segment''
          else ''data length too big in mbuf segment''))"
      using M by (subst check_loop.simps) (simp add: seg_fits_def)
    then show ?thesis using False by simp
  next
    case True
    then have fit: "\<not> mb_data_off M > mb_buf_len M" "\<not> unat (mb_data_off M) + unat (mb_data_len M) > unat (mb_buf_len M)"
      using M(2) by (simp_all add: seg_fits_def word_less_nat_alt)
    have d: "data_lens mm (s # ss) = unat (mb_data_len M) + data_lens mm ss" using M(2) by (simp add: data_lens_def)
    have u: "(of_nat (unat (mb_data_len M)) :: u32) = ucast (mb_data_len M)" by simp
    show ?thesis
    proof (cases "mb_next M")
      case None
      then have "ss = []" using M(3) by (cases ss) auto
      then show ?thesis using M fit None True d by (subst check_loop.simps) (simp add: data_lens_def u)
    next
      case (Some k)
      have "seg_chain mm (Some k) ss" using M(3) Some by simp
      from Cons.IH [OF this, of "n - 1" "p - ucast (mb_data_len M)"] obtain r where
        r: "check_loop mm k (n - 1) (p - ucast (mb_data_len M)) = Some r"
          "case r of Inl _ \<Rightarrow> \<not> list_all (seg_fits mm) ss
           | Inr (n', p') \<Rightarrow> list_all (seg_fits mm) ss \<and> n' = n - 1 - of_nat (length ss) \<and>
               p' = p - ucast (mb_data_len M) - of_nat (data_lens mm ss)" by blast
      have "check_loop mm m n p = Some r" using M fit Some r(1) by (subst check_loop.simps) (simp add: Let_def)
      then show ?thesis using r(2) True by (intro exI [of _ r]) (auto simp: d algebra_simps split: sum.splits)
    qed
  qed
qed simp

lemma end_written_back:
  assumes "mm_mbufs mm l = Some L" "mm_mbufs mm m = Some H" "m = l \<Longrightarrow> L'' = L\<lparr>mb_pkt_len := p\<rparr>" "m \<noteq> l \<Longrightarrow> L'' = L"
    "mb_pkt_len H = q"
  shows "end_written l L'' m q (H\<lparr>mb_pkt_len := p\<rparr>) (end_written l L' m p H mm) = mm"
proof (cases "m = l")
  case True
  then have "(L\<lparr>mb_pkt_len := p\<rparr>)\<lparr>mb_pkt_len := q\<rparr> = L" using assms(1,2,5) by simp
  then show ?thesis using True assms(1,3) by (simp add: end_written_def fun_upd_idem)
next
  case False
  have "H\<lparr>mb_pkt_len := q\<rparr> = H" using assms(5) by simp
  moreover have "(mm_mbufs mm)(l \<mapsto> L', m \<mapsto> H\<lparr>mb_pkt_len := p\<rparr>, l \<mapsto> L, m \<mapsto> H) = mm_mbufs mm"
    using False assms(1,2) by (auto simp: fun_eq_iff)
  ultimately show ?thesis using False assms(4) by (simp add: end_written_def)
qed

lemma append_trim_back:
  assumes ok: "pkt_ok mm m (as @ [l])" and L: "mm_mbufs mm l = Some L"
    and sum: "unat (mb_data_off L) + unat (mb_data_len L) + unat len \<le> unat (mb_buf_len L)"
    and run: "rte_pktmbuf_append m len mm = Some (q, mm')"
  shows "rte_pktmbuf_trim m len mm' = Some (0, mm)"
proof -
  obtain H where H: "mm_mbufs mm m = Some H" using pkt_head [OF ok] by metis
  let ?L = "L\<lparr>mb_data_len := mb_data_len L + len\<rparr>"
  let ?p = "mb_pkt_len H + ucast len"
  define L1 where "L1 = (if m = l then ?L\<lparr>mb_pkt_len := ?p\<rparr> else ?L)"
  define H1 where "H1 = (if m = l then ?L else H)\<lparr>mb_pkt_len := ?p\<rparr>"
  note a = append_fits [OF ok L H sum]
  have mm': "mm' = end_written l ?L m ?p H mm" using run a(1) by simp
  have L1: "mm_mbufs mm' l = Some L1" "mm_mbufs mm' m = Some H1" by (auto simp: mm' end_written_def L1_def H1_def)
  have d: "unat len \<le> unat (mb_data_len L1)"
    using buf_data_longer(1) [OF pkt_end(2) [OF ok L H] sum] by (simp add: L1_def)
  have "rte_pktmbuf_trim m len mm' =
      Some (0, end_written l (L1\<lparr>mb_data_len := mb_data_len L1 - len\<rparr>) m (mb_pkt_len H1 - ucast len) H1 mm')"
    by (rule trim_fits(1) [OF a(2) [folded mm'] L1 d])
  moreover have "end_written l (L1\<lparr>mb_data_len := mb_data_len L1 - len\<rparr>) m (mb_pkt_len H1 - ucast len) H1 mm' =
      end_written l (L1\<lparr>mb_data_len := mb_data_len L1 - len\<rparr>) m (mb_pkt_len H) (H\<lparr>mb_pkt_len := ?p\<rparr>) mm'"
    by (simp add: end_written_def H1_def)
  moreover have "\<dots> = mm"
    unfolding mm' by (rule end_written_back [OF L H]) (simp_all add: L1_def)
  ultimately show ?thesis by simp
qed

lemma prepend_adj_back:
  assumes H: "mm_mbufs mm m = Some H" and ok: "pkt_ok mm m (m # rest)" and len: "unat len \<le> unat (mb_data_off H)"
    and run: "rte_pktmbuf_prepend m len mm = Some (q, mm')"
  shows "rte_pktmbuf_adj m len mm' = Some (Some (mb_buf_addr H, unat (mb_data_off H)), mm)"
proof -
  let ?H = "H\<lparr>mb_data_off := mb_data_off H - len, mb_data_len := mb_data_len H + len, mb_pkt_len := mb_pkt_len H + ucast len\<rparr>"
  note p = prepend_fits [OF ok H len]
  have mm': "mm' = head_written m ?H mm" using run p(1) by simp
  have H1: "mm_mbufs mm' m = Some ?H" by (simp add: mm' head_written_def)
  have b: "unat (mb_data_off H) + unat (mb_data_len H) \<le> unat (mb_buf_len H)"
    using pkt_front(1) [OF ok H] by (simp add: buf_ok_def)
  have "unat (mb_buf_len H) < 2 ^ 16" using unat_lt2p [of "mb_buf_len H"] by simp
  then have "unat (mb_data_len H) + unat len < 2 ^ LENGTH(16)" using b len by simp
  then have d: "unat len \<le> unat (mb_data_len ?H)" by (simp add: unat_add_no_overflow)
  have "rte_pktmbuf_adj m len mm' = Some (Some (mb_buf_addr ?H, unat (mb_data_off ?H) + unat len),
      head_written m (?H\<lparr>mb_data_len := mb_data_len ?H - len, mb_data_off := mb_data_off ?H + len,
                         mb_pkt_len := mb_pkt_len ?H - ucast len\<rparr>) mm')"
    by (rule adj_fits(1) [OF p(2) [folded mm'] H1 d])
  moreover have "unat (mb_data_off H - len) + unat len = unat (mb_data_off H)"
    using len unat_sub_le [of len "mb_data_off H"] by (simp add: word_le_nat_alt)
  ultimately show ?thesis using H by (simp add: mm' head_written_def fun_upd_idem)
qed

lemma buf_room_at:
  assumes "buf_ok h L" "unat (mb_data_off L) + unat (mb_data_len L) + n \<le> unat (mb_buf_len L)"
  shows "bytes_at h (mb_buf_addr L, unat (mb_data_off L) + unat (mb_data_len L)) n = Some (take n (buf_room h L))"
  using assms by (auto simp: buf_ok_def bytes_at_def buf_room_def)

lemma buf_front_at:
  assumes "buf_ok h H" "n \<le> unat (mb_data_off H)"
  shows "bytes_at h (mb_buf_addr H, unat (mb_data_off H) - n) n = Some (drop (unat (mb_data_off H) - n) (buf_front h H))"
proof -
  obtain xs where xs: "h (mb_buf_addr H) = Some xs" "length xs = unat (mb_buf_len H)" using assms(1) by (auto simp: buf_ok_def)
  have "unat (mb_data_off H) \<le> length xs" using assms(1) xs by (simp add: buf_ok_def)
  then show ?thesis using xs assms(2) by (simp add: bytes_at_def buf_front_def drop_take)
qed

lemma read_long:
  assumes ok: "pkt_ok mm m ss" and ov: "unat off + unat len < 2 ^ 32" and l: "length (pkt_bytes mm ss) < unat off + unat len"
  shows "rte_pktmbuf_read mm m off len buf = Some Read_NULL"
proof -
  obtain rest H where H: "ss = m # rest" "mm_mbufs mm m = Some H" using pkt_head [OF ok] by metis
  note f = pkt_front [OF ok [unfolded H(1)] H(2)]
  have sum: "unat (off + len) = unat off + unat len" using ov by (intro unat_add_no_overflow) simp
  have p: "unat (mb_pkt_len H) = length (pkt_bytes mm ss)" using f(2,4) buf_data_length [OF f(1)] H(1) by simp
  have "\<not> off + len \<le> ucast (mb_data_len H)" using sum l f(2) p by (simp add: word_le_nat_alt)
  moreover have "off + len > mb_pkt_len H" using sum l p by (simp add: word_less_nat_alt)
  ultimately show ?thesis using H(2) by (simp add: rte_pktmbuf_read_def rte_pktmbuf_read_internal_def)
qed

lemma read_at_end:
  assumes ok: "pkt_ok mm m ss" and H: "mm_mbufs mm m = Some H" and off: "unat off = length (pkt_bytes mm ss)"
  shows "rte_pktmbuf_read mm m off 0 buf =
     (if unat off \<le> unat (mb_data_len H) then Some (Read_mbuf (rte_pktmbuf_mtod_offset H (unat off))) else None)"
proof -
  have p: "unat (mb_pkt_len H) = length (pkt_bytes mm ss)" using ok H by (simp add: pkt_ok_def)
  have "read_skip mm (Some m) off = None" by (rule read_skip_past_end) (use ok off in \<open>auto simp: pkt_ok_def\<close>)
  then show ?thesis using H p off
    by (simp add: rte_pktmbuf_read_def rte_pktmbuf_read_internal_def word_le_nat_alt word_less_nat_alt)
qed

lemma pkt_ok_lens:
  assumes "pkt_ok mm m ss"
  shows "list_all (seg_fits mm) ss" "data_lens mm ss = length (pkt_bytes mm ss)"
proof -
  have ok: "list_all (seg_ok mm) ss" using assms by (simp add: pkt_ok_def)
  then show "list_all (seg_fits mm) ss"
    by (auto simp: list_all_iff seg_ok_def seg_fits_def buf_ok_def split: option.splits)
  have "(case mm_mbufs mm s of None \<Rightarrow> 0 | Some M \<Rightarrow> unat (mb_data_len M)) = length (seg_data mm s)" if "s \<in> set ss" for s
    using ok that chain_data(2) [of mm s] by (auto simp: list_all_iff seg_ok_def split: option.splits)
  then show "data_lens mm ss = length (pkt_bytes mm ss)"
    unfolding data_lens_def pkt_bytes_def by (simp add: length_concat cong: map_cong)
qed

section \<open>Properties\<close>

text \<open>
  C31: The end of a packet. \<open>rte_pktmbuf_append\<close> succeeds exactly when the last buffer has room behind its data; it
  then extends the packet by the \<open>len\<close> bytes behind the pointer it returns and keeps it well formed, and
  \<open>rte_pktmbuf_trim\<close> takes it back. \<open>rte_pktmbuf_trim\<close> succeeds exactly when the last segment has \<open>len\<close> bytes, and cuts them off.
\<close>

theorem packet_append_trim:
  assumes ok: "pkt_ok mm m ss" and L: "mm_mbufs mm (last ss) = Some L"
  shows "(if unat (mb_data_off L) + unat (mb_data_len L) + unat len \<le> unat (mb_buf_len L)
      then \<exists>q bs mm'. rte_pktmbuf_append m len mm = Some (Some q, mm') \<and> pkt_ok mm' m ss \<and>
             bytes_at (mm_bufs mm) q (unat len) = Some bs \<and> pkt_bytes mm' ss = pkt_bytes mm ss @ bs \<and>
             rte_pktmbuf_trim m len mm' = Some (0, mm)
      else rte_pktmbuf_append m len mm = Some (None, mm)) \<and>
    (if unat len \<le> unat (mb_data_len L)
      then \<exists>mm'. rte_pktmbuf_trim m len mm = Some (0, mm') \<and> pkt_ok mm' m ss \<and>
             pkt_bytes mm' ss = take (length (pkt_bytes mm ss) - unat len) (pkt_bytes mm ss)
      else rte_pktmbuf_trim m len mm = Some (- 1, mm))" (is "?A \<and> ?T")
proof
  obtain as l where ss: "ss = as @ [l]" using pkt_last [OF ok] by metis
  note ok' = ok [unfolded ss] and L' = L [unfolded ss last_snoc]
  obtain H where H: "mm_mbufs mm m = Some H" using pkt_head [OF ok] by metis
  note e = pkt_end [OF ok' L' H]
  show ?A
  proof (cases "unat (mb_data_off L) + unat (mb_data_len L) + unat len \<le> unat (mb_buf_len L)")
    case True
    note a = append_fits [OF ok' L' H True]
    show ?thesis unfolding if_P [OF True] ss
      by (intro exI conjI, rule a(1), rule a(2), rule buf_room_at [OF e(2) True], rule a(3),
          rule append_trim_back [OF ok' L' True a(1)])
  next
    case False
    then show ?thesis using append_full [OF ok' L'] by simp
  qed
  show ?T
  proof (cases "unat len \<le> unat (mb_data_len L)")
    case True
    note t = trim_fits [OF ok' L' H True]
    show ?thesis unfolding if_P [OF True] ss by (intro exI conjI, rule t(1), rule t(2), rule t(3))
  next
    case False
    then show ?thesis using trim_long [OF ok' L'] by simp
  qed
qed

text \<open>
  The front of a packet. \<open>rte_pktmbuf_prepend\<close> succeeds exactly when the headroom has \<open>len\<close> bytes, which then are
  the first of the packet, at the pointer it returns, and \<open>rte_pktmbuf_adj\<close> takes it back; \<open>rte_pktmbuf_adj\<close> succeeds
  exactly when the first segment has \<open>len\<close> bytes, and drops them.
\<close>

theorem packet_prepend_adj:
  assumes ok: "pkt_ok mm m ss" and H: "mm_mbufs mm m = Some H"
  shows "(if unat len \<le> unat (mb_data_off H)
      then \<exists>q bs mm' q'. rte_pktmbuf_prepend m len mm = Some (Some q, mm') \<and> pkt_ok mm' m ss \<and>
             bytes_at (mm_bufs mm) q (unat len) = Some bs \<and> pkt_bytes mm' ss = bs @ pkt_bytes mm ss \<and>
             rte_pktmbuf_adj m len mm' = Some (Some q', mm)
      else rte_pktmbuf_prepend m len mm = Some (None, mm)) \<and>
    (if unat len \<le> unat (mb_data_len H)
      then \<exists>q mm'. rte_pktmbuf_adj m len mm = Some (Some q, mm') \<and> pkt_ok mm' m ss \<and>
             pkt_bytes mm' ss = drop (unat len) (pkt_bytes mm ss)
      else rte_pktmbuf_adj m len mm = Some (None, mm))" (is "?P \<and> ?D")
proof
  obtain rest where ss: "ss = m # rest" using pkt_head [OF ok] by metis
  note ok' = ok [unfolded ss]
  show ?P
  proof (cases "unat len \<le> unat (mb_data_off H)")
    case True
    note p = prepend_fits [OF ok' H True]
    show ?thesis unfolding if_P [OF True] ss
      by (intro exI conjI, rule p(1), rule p(2), rule buf_front_at [OF pkt_front(1) [OF ok' H] True], rule p(3),
          rule prepend_adj_back [OF H ok' True p(1)])
  next
    case False
    then show ?thesis using front_refused(1) [OF H] by simp
  qed
  show ?D
  proof (cases "unat len \<le> unat (mb_data_len H)")
    case True
    note d = adj_fits [OF ok' H True]
    show ?thesis unfolding if_P [OF True] ss by (intro exI conjI, rule d(1), rule d(2), rule d(3))
  next
    case False
    then show ?thesis using front_refused(2) [OF H] by simp
  qed
qed

text \<open>
  C30: Reading a packet. \<open>rte_pktmbuf_read\<close> returns NULL when the packet is shorter than \<open>off + len\<close>; otherwise a pointer to
  the \<open>len\<close> bytes at \<open>off\<close>, in the packet or gathered in the caller's buffer. Two cases are not as documented: a
  read of no bytes at the end of a packet whose first segment is not all of it follows the chain past its end, and a length for which
  \<open>off + len\<close> wraps below the first segment's length gets a pointer.
\<close>

theorem packet_read:
  assumes ok: "pkt_ok mm m ss" and H: "mm_mbufs mm m = Some H" and buf: "unat len \<le> length buf"
  shows "if 2 ^ 32 \<le> unat off + unat len
      then unat off + unat len - 2 ^ 32 \<le> unat (mb_data_len H) \<longrightarrow>
        rte_pktmbuf_read mm m off len buf = Some (Read_mbuf (rte_pktmbuf_mtod_offset H (unat off)))
      else if length (pkt_bytes mm ss) < unat off + unat len then rte_pktmbuf_read mm m off len buf = Some Read_NULL
      else if len = 0 \<and> unat off = length (pkt_bytes mm ss) \<and> unat (mb_data_len H) < unat off
      then rte_pktmbuf_read mm m off len buf = None
      else \<exists>r. rte_pktmbuf_read mm m off len buf = Some r \<and>
        read_result mm r (unat len) = Some (take (unat len) (drop (unat off) (pkt_bytes mm ss)))"
proof (cases "2 ^ 32 \<le> unat off + unat len")
  case True
  have "unat (off + len) = unat off + unat len - 2 ^ 32"
    using True unat_lt2p [of off] unat_lt2p [of len] by (simp add: unat_word_ariths mod_if)
  then show ?thesis using True H by (simp add: rte_pktmbuf_read_def word_le_nat_alt)
next
  case ov: False
  then have ov': "unat off + unat len < 2 ^ 32" by simp
  have empty: "bytes_at (mm_bufs mm) (rte_pktmbuf_mtod_offset H n) 0 = Some []" if "n \<le> unat (mb_data_len H)" for n
  proof -
    have "buf_ok (mm_bufs mm) H" using ok H seg_chain_head [of mm m ss] by (auto simp: pkt_ok_def seg_ok_def list_all_iff)
    then show ?thesis using bytes_at_seg [of "mm_bufs mm" H n 0] that by simp
  qed
  show ?thesis
  proof (cases "length (pkt_bytes mm ss) < unat off + unat len")
    case True
    then show ?thesis unfolding if_not_P [OF ov] if_P [OF True] by (rule read_long [OF ok ov'])
  next
    case le: False
    show ?thesis
    proof (cases "0 < len \<or> unat off < length (pkt_bytes mm ss)")
      case True
      then have n: "\<not> (len = 0 \<and> unat off = length (pkt_bytes mm ss) \<and> unat (mb_data_len H) < unat off)" by auto
      show ?thesis unfolding if_not_P [OF ov] if_not_P [OF le] if_not_P [OF n]
        by (rule read_spec [OF ok ov' buf _ True]) (use le in simp)
    next
      case False
      then have z: "len = 0" "unat off = length (pkt_bytes mm ss)" using le by (auto simp: word_gt_0)
      show ?thesis
        using read_at_end [OF ok H z(2), of buf] z le ov empty by (auto simp: read_result_def)
    qed
  qed
qed

text \<open>
  Chaining two packets without a common segment joins their segments and their bytes in order; it is refused with \<open>EOVERFLOW\<close>, and
  nothing changes, exactly when the result would have more than 65535 segments. The length never wraps.
\<close>

theorem packet_chain:
  assumes h: "pkt_ok mm head hs" and t: "pkt_ok mm tail ts" and d: "set hs \<inter> set ts = {}"
  shows "if length hs + length ts \<le> 65535
     then \<exists>mm'. rte_pktmbuf_chain head tail mm = Some (0, mm') \<and> pkt_ok mm' head (hs @ ts) \<and>
       pkt_bytes mm' (hs @ ts) = pkt_bytes mm hs @ pkt_bytes mm ts
     else rte_pktmbuf_chain head tail mm = Some (- EOVERFLOW, mm)"
proof (cases "length hs + length ts \<le> 65535")
  case True
  then show ?thesis using chain_ok [OF h t d True] by auto
next
  case False
  obtain H where H: "mm_mbufs mm head = Some H" "unat (mb_nb_segs H) = length hs" using pkt_head [OF h] by metis
  obtain T where T: "mm_mbufs mm tail = Some T" "unat (mb_nb_segs T) = length ts" using pkt_head [OF t] by metis
  show ?thesis using False H T by (simp add: rte_pktmbuf_chain_def RTE_MBUF_MAX_NB_SEGS_def)
qed

text \<open>
  C32: The sanity check of a packet accepts exactly the headers with a pool, addresses and a possible reference count whose
  segments fit in their buffers and whose counts of segments and bytes are those of the chain; so it
  accepts every well-formed packet with such a header.
\<close>

theorem packet_check_exact:
  assumes c: "seg_chain mm (Some m) ss" and M: "mm_mbufs mm m = Some M"
  shows "(rte_mbuf_check mm (Some m) True = Some None \<longleftrightarrow> hdr_ok M \<and>
      unat (mb_data_len M) \<le> unat (mb_pkt_len M) \<and> list_all (seg_fits mm) ss \<and>
      unat (mb_nb_segs M) = length ss mod 2 ^ 32 \<and> unat (mb_pkt_len M) = data_lens mm ss mod 2 ^ 32) \<and>
    (pkt_ok mm m ss \<and> hdr_ok M \<longrightarrow> rte_mbuf_sanity_check mm (Some m) True = Some ())" (is "?iff \<and> ?ok")
proof
  obtain r where r: "check_loop mm m (ucast (mb_nb_segs M)) (mb_pkt_len M) = Some r"
      "case r of Inl _ \<Rightarrow> \<not> list_all (seg_fits mm) ss
       | Inr (n', p') \<Rightarrow> list_all (seg_fits mm) ss \<and> n' = ucast (mb_nb_segs M) - of_nat (length ss) \<and>
           p' = mb_pkt_len M - of_nat (data_lens mm ss)"
    using check_loop_spec [OF c, of "ucast (mb_nb_segs M)" "mb_pkt_len M"] by blast
  have n: "(ucast (mb_nb_segs M) :: u32) = of_nat (length ss) \<longleftrightarrow> unat (mb_nb_segs M) = length ss mod 2 ^ 32"
    by (simp add: word_unat_eq_iff unat_of_nat)
  have p: "mb_pkt_len M = of_nat (data_lens mm ss) \<longleftrightarrow> unat (mb_pkt_len M) = data_lens mm ss mod 2 ^ 32"
    by (simp add: word_unat_eq_iff unat_of_nat)
  show iff: ?iff
    using M r n p by (auto simp: hdr_ok_def rte_mbuf_check_def rte_mbuf_refcnt_read_def word_less_nat_alt split: sum.splits)
  show ?ok
  proof
    assume "pkt_ok mm m ss \<and> hdr_ok M"
    then have ok: "pkt_ok mm m ss" and h: "hdr_ok M" by simp_all
    from ok obtain rest where ss: "ss = m # rest" and nb: "unat (mb_nb_segs M) = length ss" "length ss \<le> 65535"
        "unat (mb_pkt_len M) = length (pkt_bytes mm ss)"
      using M pkt_head by (metis option.inject)
    have "unat (mb_data_len M) \<le> unat (mb_pkt_len M)" using pkt_front(2) [OF ok [unfolded ss] M] by simp
    then have "rte_mbuf_check mm (Some m) True = Some None"
      using iff h pkt_ok_lens [OF ok] nb pkt_len_fits [OF nb(2), of mm] by simp
    then show "rte_mbuf_sanity_check mm (Some m) True = Some ()" by (simp add: rte_mbuf_sanity_check_def)
  qed
qed

text \<open>A packet of five bytes in two segments, one buffer with room before and behind its data.\<close>

definition mbuf_at :: "nat \<Rightarrow> u16 \<Rightarrow> u16 \<Rightarrow> maddr option \<Rightarrow> u16 \<Rightarrow> u32 \<Rightarrow> mbuf" where
  "mbuf_at buf off n nxt segs bytes =
     \<lparr>mb_buf_addr = buf, mb_buf_iova = of_nat buf, mb_data_off = off, mb_refcnt = 1, mb_nb_segs = segs, mb_port = 0xffff,
      mb_ol_flags = 0, mb_packet_type = 0, mb_pkt_len = bytes, mb_data_len = n, mb_vlan_tci = 0, mb_hash = 0,
      mb_vlan_tci_outer = 0, mb_buf_len = 8, mb_timestamp = 0, mb_pool = 7, mb_next = nxt, mb_tx_offload = 0,
      mb_priv_size = 0, mb_shinfo = 0\<rparr>"

definition packet_sample :: "unit mbuf_mem" where
  "packet_sample =
     \<lparr>mm_mbufs = [3 \<mapsto> mbuf_at 200 2 3 (Some 5) 2 5, 5 \<mapsto> mbuf_at 300 2 2 None 1 2, 9 \<mapsto> mbuf_at 400 4 2 None 1 2],
      mm_bufs = [200 \<mapsto> [0, 0, 10, 11, 12, 0, 0, 0], 300 \<mapsto> [0, 0, 13, 14, 21, 22, 23, 24], 400 \<mapsto> [0, 0, 30, 31, 32, 33, 0, 0]],
      mm_shinfos = Map.empty, mm_pools = Map.empty, mm_freed = []\<rparr>"

lemma packet_sample_ok: "pkt_ok packet_sample 3 [3, 5]" "pkt_ok packet_sample 9 [9]"
  by code_simp+

theorem packet_append_trim_witness:
  "\<exists>q mm'. rte_pktmbuf_append 3 3 packet_sample = Some (Some q, mm') \<and> pkt_bytes mm' [3, 5] = [10, 11, 12, 13, 14, 21, 22, 23] \<and>
     rte_pktmbuf_trim 3 3 mm' = Some (0, packet_sample)"
proof -
  have "mm_mbufs packet_sample (last [3, 5]) = Some (mbuf_at 300 2 2 None 1 2)" by (simp add: packet_sample_def)
  from packet_append_trim [OF packet_sample_ok(1) this, of 3, THEN conjunct1]
  obtain q bs mm' where "rte_pktmbuf_append 3 3 packet_sample = Some (Some q, mm')"
      "bytes_at (mm_bufs packet_sample) q (unat (3 :: u16)) = Some bs" "pkt_bytes mm' [3, 5] = pkt_bytes packet_sample [3, 5] @ bs"
      "rte_pktmbuf_trim 3 3 mm' = Some (0, packet_sample)"
    by (auto simp: mbuf_at_def)
  moreover have "map_option fst (rte_pktmbuf_append 3 3 packet_sample) = Some (Some (300, 4))"
    by (simp add: rte_pktmbuf_append_def packet_sample_def rte_pktmbuf_lastseg.simps mbuf_at_def rte_pktmbuf_tailroom_def rte_pktmbuf_headroom_def)
  moreover have "bytes_at (mm_bufs packet_sample) (300, 4) (unat (3 :: u16)) = Some [21, 22, 23]" by code_simp
  moreover have "pkt_bytes packet_sample [3, 5] = [10, 11, 12, 13, 14]" by code_simp
  ultimately show ?thesis by auto
qed

theorem packet_prepend_adj_witness:
  "\<exists>q mm'. rte_pktmbuf_prepend 3 2 packet_sample = Some (Some q, mm') \<and> pkt_ok mm' 3 [3, 5] \<and>
     (\<exists>q. rte_pktmbuf_adj 3 2 mm' = Some (Some q, packet_sample))"
proof -
  have H: "mm_mbufs packet_sample 3 = Some (mbuf_at 200 2 3 (Some 5) 2 5)" by (simp add: packet_sample_def)
  show ?thesis using packet_prepend_adj [OF packet_sample_ok(1) H, of 2] by (auto simp: mbuf_at_def)
qed

theorem packet_read_witness:
  "(\<exists>r. rte_pktmbuf_read packet_sample 3 1 4 [0, 0, 0, 0] = Some r \<and> read_result packet_sample r 4 = Some [11, 12, 13, 14]) \<and>
   rte_pktmbuf_read packet_sample 3 5 0 [0, 0, 0, 0] = None \<and>
   rte_pktmbuf_read packet_sample 3 2 4 [0, 0, 0, 0] = Some Read_NULL"
proof -
  have H: "mm_mbufs packet_sample 3 = Some (mbuf_at 200 2 3 (Some 5) 2 5)" by (simp add: packet_sample_def)
  have b: "pkt_bytes packet_sample [3, 5] = [10, 11, 12, 13, 14]" by code_simp
  note p = packet_read [OF packet_sample_ok(1) H, of _ "[0, 0, 0, 0]"]
  show ?thesis using p [of 4 1] p [of 0 5] p [of 4 2] by (simp add: b mbuf_at_def del: pkt_bytes_simps)
qed

theorem packet_chain_witness:
  "\<exists>mm'. rte_pktmbuf_chain 3 9 packet_sample = Some (0, mm') \<and> pkt_bytes mm' [3, 5, 9] = [10, 11, 12, 13, 14, 32, 33]"
proof -
  have b: "pkt_bytes packet_sample [3, 5] @ pkt_bytes packet_sample [9] = [10, 11, 12, 13, 14, 32, 33]" by code_simp
  show ?thesis using packet_chain [OF packet_sample_ok] by (auto simp: b simp del: pkt_bytes_simps)
qed

theorem packet_check_exact_witness: "rte_mbuf_sanity_check packet_sample (Some 3) True = Some ()"
proof -
  have "seg_chain packet_sample (Some 3) [3, 5]" by code_simp
  moreover have "mm_mbufs packet_sample 3 = Some (mbuf_at 200 2 3 (Some 5) 2 5)" by (simp add: packet_sample_def)
  ultimately show ?thesis
    by (rule packet_check_exact [THEN conjunct2, THEN mp]) (simp add: mbuf_at_def hdr_ok_def packet_sample_ok)
qed

end
