(* ===== verification/RingPool.thy ===== *)
theory RingPool
  imports Ring Mempool
begin

text \<open>
  The driver behind the packet pools (\<open>drivers/mempool/ring/rte_mempool_ring.c\<close>): a pool's
  objects are kept in a ring. Each of its four tables of operations satisfies \<open>bulk_pool\<close>;
  with it a pool that hands out objects to any number of cores never hands one out twice.
\<close>

section \<open>The driver\<close>

text \<open>The argument is \<open>mp->pool_data\<close>, which is NULL until the ring is allocated.\<close>

definition common_ring_mp_enqueue ::
    "'o rte_ring option \<Rightarrow> 'o list \<Rightarrow> u32 \<Rightarrow> (c_int \<times> 'o rte_ring option) option" where
  "common_ring_mp_enqueue pool_data objs n = do {
     r \<leftarrow> pool_data;
     (k, _, r) \<leftarrow> rte_ring_mp_enqueue_bulk r objs n;
     Some (if k = 0 then - ENOBUFS else 0, Some r) }"

definition common_ring_sp_enqueue ::
    "'o rte_ring option \<Rightarrow> 'o list \<Rightarrow> u32 \<Rightarrow> (c_int \<times> 'o rte_ring option) option" where
  "common_ring_sp_enqueue pool_data objs n = do {
     r \<leftarrow> pool_data;
     (k, _, r) \<leftarrow> rte_ring_sp_enqueue_bulk r objs n;
     Some (if k = 0 then - ENOBUFS else 0, Some r) }"

definition common_ring_mc_dequeue ::
    "'o rte_ring option \<Rightarrow> 'o list \<Rightarrow> u32 \<Rightarrow> (c_int \<times> 'o list \<times> 'o rte_ring option) option" where
  "common_ring_mc_dequeue pool_data objs n = do {
     r \<leftarrow> pool_data;
     (k, _, objs, r) \<leftarrow> rte_ring_mc_dequeue_bulk r objs n;
     Some (if k = 0 then - ENOBUFS else 0, objs, Some r) }"

definition common_ring_sc_dequeue ::
    "'o rte_ring option \<Rightarrow> 'o list \<Rightarrow> u32 \<Rightarrow> (c_int \<times> 'o list \<times> 'o rte_ring option) option" where
  "common_ring_sc_dequeue pool_data objs n = do {
     r \<leftarrow> pool_data;
     (k, _, objs, r) \<leftarrow> rte_ring_sc_dequeue_bulk r objs n;
     Some (if k = 0 then - ENOBUFS else 0, objs, Some r) }"

definition common_ring_get_count :: "'o rte_ring option \<Rightarrow> u32 option" where
  "common_ring_get_count pool_data = do { r \<leftarrow> pool_data; Some (rte_ring_count r) }"

definition MEMPOOL_F_SP_PUT :: u32 where "MEMPOOL_F_SP_PUT = 4"
definition MEMPOOL_F_SC_GET :: u32 where "MEMPOOL_F_SC_GET = 8"

text \<open>
  \<open>name\<close>, \<open>sz\<close> and \<open>flags\<close> are those of the pool. The first component is the address stored
  in \<open>pool_data\<close>; \<open>te\<close> and \<open>mz\<close> are the answers of the allocators in \<open>rte_ring_create\<close>.
\<close>

definition ring_flags :: "u32 \<Rightarrow> u32" where
  "ring_flags flags =
     (let rg_flags = 0;
          rg_flags = (if flags AND MEMPOOL_F_SP_PUT \<noteq> 0 then rg_flags OR RING_F_SP_ENQ else rg_flags)
      in if flags AND MEMPOOL_F_SC_GET \<noteq> 0 then rg_flags OR RING_F_SC_DEQ else rg_flags)"

definition common_ring_alloc ::
    "u64 \<Rightarrow> bool \<Rightarrow> (nat + c_int) \<Rightarrow> 'o \<Rightarrow> string \<Rightarrow> u32 \<Rightarrow> u32 \<Rightarrow> 'o ring_env \<Rightarrow> nat option \<times> c_int \<times> 'o ring_env" where
  "common_ring_alloc hdr te mz junk name sz flags env =
     (if length (''MP_'' @ name) \<ge> RTE_RING_NAMESIZE then (None, - ENAMETOOLONG, env\<lparr>rte_errno := ENAMETOOLONG\<rparr>)
      else (case rte_ring_create hdr te mz junk (''MP_'' @ name) (rte_align32pow2 (sz + 1)) (ring_flags flags) env of
          (None, env) \<Rightarrow> (None, - rte_errno env, env)
        | (Some a, env) \<Rightarrow> (Some a, 0, env)))"

definition common_ring_free :: "bool \<Rightarrow> nat option \<Rightarrow> 'o ring_env \<Rightarrow> 'o ring_env option" where
  "common_ring_free ok a env = rte_ring_free ok a env"

definition ops_mp_mc :: "('o, 'o rte_ring option) pool_ops" where
  "ops_mp_mc = \<lparr>op_enqueue = common_ring_mp_enqueue, op_dequeue = common_ring_mc_dequeue, op_get_count = common_ring_get_count\<rparr>"

definition ops_sp_sc :: "('o, 'o rte_ring option) pool_ops" where
  "ops_sp_sc = \<lparr>op_enqueue = common_ring_sp_enqueue, op_dequeue = common_ring_sc_dequeue, op_get_count = common_ring_get_count\<rparr>"

definition ops_mp_sc :: "('o, 'o rte_ring option) pool_ops" where
  "ops_mp_sc = \<lparr>op_enqueue = common_ring_mp_enqueue, op_dequeue = common_ring_sc_dequeue, op_get_count = common_ring_get_count\<rparr>"

definition ops_sp_mc :: "('o, 'o rte_ring option) pool_ops" where
  "ops_sp_mc = \<lparr>op_enqueue = common_ring_sp_enqueue, op_dequeue = common_ring_mc_dequeue, op_get_count = common_ring_get_count\<rparr>"

text \<open>The tables \<open>rte_mempool_create\<close> picks by name from the pool's flags.\<close>

definition ring_ops_of_flags :: "u32 \<Rightarrow> ('o, 'o rte_ring option) pool_ops" where
  "ring_ops_of_flags flags =
     (if flags AND MEMPOOL_F_SP_PUT \<noteq> 0 \<and> flags AND MEMPOOL_F_SC_GET \<noteq> 0 then ops_sp_sc
      else if flags AND MEMPOOL_F_SP_PUT \<noteq> 0 then ops_sp_mc
      else if flags AND MEMPOOL_F_SC_GET \<noteq> 0 then ops_mp_sc
      else ops_mp_mc)"

section \<open>The driver is a pool\<close>

definition ring_cap :: "'o rte_ring \<Rightarrow> nat" where
  "ring_cap r = unat (r_capacity r)"

definition data_wf :: "'o rte_ring option \<Rightarrow> bool" where
  "data_wf d \<longleftrightarrow> (case d of None \<Rightarrow> False | Some r \<Rightarrow> ring_wf r)"

definition data_items :: "'o rte_ring option \<Rightarrow> 'o list" where
  "data_items d = (case d of None \<Rightarrow> [] | Some r \<Rightarrow> ring_items r)"

definition data_cap :: "'o rte_ring option \<Rightarrow> nat" where
  "data_cap d = (case d of None \<Rightarrow> 0 | Some r \<Rightarrow> ring_cap r)"

lemma data_simps [simp]:
  "data_wf (Some r) = ring_wf r" "data_items (Some r) = ring_items r" "data_cap (Some r) = ring_cap r"
  by (simp_all add: data_wf_def data_items_def data_cap_def)

lemma bulk_enqueue:
  assumes "ring_wf r" "0 < n" "unat n \<le> length objs" "length (ring_items r) + unat n \<le> ring_cap r"
  shows "\<exists>k fe r'. do_enqueue r objs n RTE_RING_QUEUE_FIXED s = Some (k, fe, r') \<and> k \<noteq> 0 \<and> ring_wf r' \<and>
     ring_cap r' = ring_cap r \<and> mset (ring_items r') = mset (ring_items r) + mset (take (unat n) objs)"
proof -
  have "amount RTE_RING_QUEUE_FIXED (unat n) (ring_room r) = unat n"
    using assms(4) by (simp add: amount_def ring_room_def ring_cap_def)
  with do_enqueue_rep [OF assms(1,3), of RTE_RING_QUEUE_FIXED s] obtain k fe r' where
    "do_enqueue r objs n RTE_RING_QUEUE_FIXED s = Some (k, fe, r')" "unat k = unat n" "ring_wf r'" "same_ring r r'"
    "ring_items r' = ring_items r @ take (unat n) objs" by auto
  moreover from \<open>unat k = unat n\<close> assms(2) have "k \<noteq> 0" by (auto simp: word_less_nat_alt)
  ultimately show ?thesis by (simp add: same_ring_def ring_cap_def)
qed

lemma bulk_enqueue_none:
  assumes "ring_wf r"
  shows "\<exists>k fe. do_enqueue r objs 0 RTE_RING_QUEUE_FIXED s = Some (k, fe, r)"
proof -
  obtain nw fe where mv: "unat nw = amount RTE_RING_QUEUE_FIXED (unat (0 :: u32)) (ring_room r)"
    "move_prod_head r s 0 RTE_RING_QUEUE_FIXED = Some (nw, ht_tail (r_prod r), ht_tail (r_prod r) + nw, fe,
       r\<lparr>r_prod := (r_prod r)\<lparr>ht_head := ht_tail (r_prod r) + nw\<rparr>\<rparr>)"
    using move_prod_head_exec [OF assms, of RTE_RING_QUEUE_FIXED 0 s] by blast
  have z: "nw = 0" using mv(1) by (simp add: amount_def word_unat_eq_iff)
  have "ht_head (r_prod r) = ht_tail (r_prod r)" using assms by (simp add: ring_wf_def)
  then have "r\<lparr>r_prod := (r_prod r)\<lparr>ht_head := ht_tail (r_prod r)\<rparr>\<rparr> = r"
    by (auto intro!: rte_ring.equality headtail.equality)
  with mv(2) z show ?thesis by (simp add: do_enqueue_def)
qed

lemma bulk_dequeue:
  assumes "ring_wf r" "0 < n" "unat n \<le> length objs" "unat n \<le> length (ring_items r)"
  shows "\<exists>k av out r'. do_dequeue r objs n RTE_RING_QUEUE_FIXED s = Some (k, av, out @ drop (unat n) objs, r') \<and> k \<noteq> 0 \<and>
     length out = unat n \<and> ring_wf r' \<and> ring_cap r' = ring_cap r \<and> mset (ring_items r) = mset out + mset (ring_items r')"
proof -
  have "amount RTE_RING_QUEUE_FIXED (unat n) (ring_len r) = unat n"
    using assms(4) by (simp add: amount_def)
  with do_dequeue_rep [OF assms(1,3), of RTE_RING_QUEUE_FIXED s] obtain k av objs' r' where d:
    "do_dequeue r objs n RTE_RING_QUEUE_FIXED s = Some (k, av, objs', r')" "unat k = unat n"
    "objs' = take (unat n) (ring_items r) @ drop (unat n) objs" "ring_wf r'" "same_ring r r'"
    "ring_items r' = drop (unat n) (ring_items r)" by auto
  have "mset (ring_items r) = mset (take (unat n) (ring_items r)) + mset (drop (unat n) (ring_items r))"
    by (metis append_take_drop_id mset_append)
  moreover from d(2) assms(2) have "k \<noteq> 0" by (auto simp: word_less_nat_alt)
  ultimately show ?thesis using d assms(4)
    by (intro exI [of _ k] exI [of _ av] exI [of _ "take (unat n) (ring_items r)"] exI [of _ r'])
       (simp add: same_ring_def ring_cap_def)
qed

lemma bulk_dequeue_short:
  assumes "ring_wf r" "length (ring_items r) < unat n"
  shows "\<exists>av. do_dequeue r objs n RTE_RING_QUEUE_FIXED s = Some (0, av, objs, r)"
proof -
  obtain nw en where mv: "unat nw = amount RTE_RING_QUEUE_FIXED (unat n) (ring_len r)"
    "move_cons_head r s n RTE_RING_QUEUE_FIXED = Some (nw, ht_tail (r_cons r), ht_tail (r_cons r) + nw, en,
       r\<lparr>r_cons := (r_cons r)\<lparr>ht_head := ht_tail (r_cons r) + nw\<rparr>\<rparr>)"
    using move_cons_head_exec [OF assms(1), of RTE_RING_QUEUE_FIXED n s] by blast
  have z: "nw = 0" using mv(1) assms(2) by (simp add: amount_def word_unat_eq_iff)
  have "ht_head (r_cons r) = ht_tail (r_cons r)" using assms by (simp add: ring_wf_def)
  then have "r\<lparr>r_cons := (r_cons r)\<lparr>ht_head := ht_tail (r_cons r)\<rparr>\<rparr> = r"
    by (auto intro!: rte_ring.equality headtail.equality)
  with mv(2) z show ?thesis by (simp add: do_dequeue_def)
qed

lemmas ring_driver = common_ring_mp_enqueue_def common_ring_sp_enqueue_def common_ring_mc_dequeue_def
  common_ring_sc_dequeue_def common_ring_get_count_def rte_ring_mp_enqueue_bulk_def rte_ring_sp_enqueue_bulk_def
  rte_ring_mc_dequeue_bulk_def rte_ring_sc_dequeue_bulk_def

lemma ring_bulk_pool:
  assumes "op_enqueue ops = common_ring_mp_enqueue \<or> op_enqueue ops = common_ring_sp_enqueue"
    "op_dequeue ops = common_ring_mc_dequeue \<or> op_dequeue ops = common_ring_sc_dequeue"
    "op_get_count ops = common_ring_get_count"
  shows "bulk_pool ops data_wf data_items data_cap"
proof -
  obtain se where se: "\<And>r objs n. op_enqueue ops (Some r) objs n =
      do { (k, _, r) \<leftarrow> do_enqueue r objs n RTE_RING_QUEUE_FIXED se; Some (if k = 0 then - ENOBUFS else 0, Some r) }"
    using assms(1) by (auto simp: ring_driver)
  obtain sd where sd: "\<And>r objs n. op_dequeue ops (Some r) objs n =
      do { (k, _, objs, r) \<leftarrow> do_dequeue r objs n RTE_RING_QUEUE_FIXED sd; Some (if k = 0 then - ENOBUFS else 0, objs, Some r) }"
    using assms(2) by (auto simp: ring_driver)
  show ?thesis
  proof
    fix d :: "'a rte_ring option" and n :: u32 and objs :: "'a list"
    assume "data_wf d"
    then obtain r where d: "d = Some r" and wf: "ring_wf r" by (cases d) (simp_all add: data_wf_def)
    show "\<exists>m. op_get_count ops d = Some m \<and> unat m = length (data_items d)"
      using count_rep [OF wf] d by (simp add: assms(3) common_ring_get_count_def)
    show "length (data_items d) \<le> data_cap d" using wf d by (simp add: ring_wf_def ring_cap_def)
    show "\<exists>ret. op_enqueue ops d objs 0 = Some (ret, d)"
      using bulk_enqueue_none [OF wf, of objs se] by (auto simp: se d)
    { assume "length (data_items d) < unat n"
      with d bulk_dequeue_short [OF wf, of n objs sd]
      show "\<exists>err. op_dequeue ops d objs n = Some (err, objs, d) \<and> err < 0" by (auto simp: sd) }
    { assume "0 < n" "unat n \<le> length objs" "length (data_items d) + unat n \<le> data_cap d"
      then show "\<exists>p'. op_enqueue ops d objs n = Some (0, p') \<and> data_wf p' \<and> data_cap p' = data_cap d \<and>
          mset (data_items p') = mset (data_items d) + mset (take (unat n) objs)"
        using bulk_enqueue [OF wf, of n objs se] d by (auto simp: se) }
    { assume "0 < n" "unat n \<le> length objs" "unat n \<le> length (data_items d)"
      then obtain k av out r' where "do_dequeue r objs n RTE_RING_QUEUE_FIXED sd = Some (k, av, out @ drop (unat n) objs, r')"
        "k \<noteq> 0" "length out = unat n" "ring_wf r'" "ring_cap r' = ring_cap r" "mset (ring_items r) = mset out + mset (ring_items r')"
        using bulk_dequeue [OF wf, of n objs sd] d by auto
      then show "\<exists>out p'. op_dequeue ops d objs n = Some (0, out @ drop (unat n) objs, p') \<and> length out = unat n \<and>
          data_wf p' \<and> data_cap p' = data_cap d \<and> mset (data_items d) = mset out + mset (data_items p')"
        by (intro exI [of _ out] exI [of _ "Some r'"]) (simp add: sd d) }
  qed
qed

interpretation mp_mc: bulk_pool ops_mp_mc data_wf data_items data_cap
  by (rule ring_bulk_pool) (simp_all add: ops_mp_mc_def)

interpretation of_flags: bulk_pool "ring_ops_of_flags flags" data_wf data_items data_cap for flags
  by (rule ring_bulk_pool) (simp_all add: ring_ops_of_flags_def ops_sp_sc_def ops_sp_mc_def ops_mp_sc_def ops_mp_mc_def)

section \<open>Allocation\<close>

lemma ring_flags_bits:
  "ring_flags flags AND RING_F_EXACT_SZ = 0"
  "(ring_flags flags AND RING_F_SP_ENQ \<noteq> 0) = (flags AND MEMPOOL_F_SP_PUT \<noteq> 0)"
  "(ring_flags flags AND RING_F_SC_DEQ \<noteq> 0) = (flags AND MEMPOOL_F_SC_GET \<noteq> 0)"
  by (simp_all add: ring_flags_def RING_F_EXACT_SZ_def RING_F_SP_ENQ_def RING_F_SC_DEQ_def)

text \<open>A ring for \<open>sz\<close> objects is at least that large.\<close>

lemma alloc_ok:
  assumes "unat hdr < 2 ^ 20" "length name < 26" "0 < unat sz" "unat sz < 2 ^ 30"
  shows "\<exists>env' r. common_ring_alloc hdr True (Inl a) junk name sz flags env = (Some a, 0, env') \<and>
     rings env' a = Some r \<and> ring_wf r \<and> ring_items r = [] \<and> unat sz \<le> ring_cap r \<and>
     ht_single (r_prod r) = (flags AND MEMPOOL_F_SP_PUT \<noteq> 0) \<and> ht_single (r_cons r) = (flags AND MEMPOOL_F_SC_GET \<noteq> 0)"
proof -
  let ?f = "ring_flags flags"
  have u: "unat (sz + 1) = unat sz + 1" using assms(4) by (subst unat_add_no_overflow) auto
  then obtain k where k: "unat (rte_align32pow2 (sz + 1)) = 2 ^ k" "unat (sz + 1) \<le> 2 ^ k" "2 ^ k < 2 * unat (sz + 1)"
    using align32pow2_spec [of "sz + 1"] assms(3,4) by (auto simp: word_less_nat_alt)
  have "(2::nat) ^ k < 2 ^ 31"
  proof (cases "unat (sz + 1) = 2 ^ 30")
    case True
    show ?thesis
    proof (rule ccontr)
      assume "\<not> (2::nat) ^ k < 2 ^ 31"
      with k(3) True show False by simp
    qed
  next
    case False
    with k(3) u assms(4) show ?thesis by simp
  qed
  then have k30: "k \<le> 30" by (simp only: power_strict_increasing_iff)
  note f = ring_flags_bits [of flags]
  have n: "length (''MP_'' @ name) < 29" using assms(2) by simp
  note create_rep [OF assms(1) n f(1) k(1) k30, where env = env and a = a and junk = junk]
  then obtain env' r where c: "rte_ring_create hdr True (Inl a) junk (''MP_'' @ name) (rte_align32pow2 (sz + 1)) ?f env = (Some a, env')"
    "rings env' a = Some r" "fresh_ring r (2 ^ k - 1)"
    "ht_single (r_prod r) = (?f AND RING_F_SP_ENQ \<noteq> 0)" "ht_single (r_cons r) = (?f AND RING_F_SC_DEQ \<noteq> 0)"
    by (elim exE conjE)
  have "common_ring_alloc hdr True (Inl a) junk name sz flags env = (Some a, 0, env')"
    unfolding common_ring_alloc_def Let_def c(1) using assms(2)
    by (simp add: RTE_RING_NAMESIZE_def RTE_MEMZONE_NAMESIZE_def)
  moreover have "unat sz \<le> 2 ^ k - 1" using k(2) u by simp
  ultimately show ?thesis using c(2-5) f(2,3) by (auto simp: fresh_ring_def ring_cap_def)
qed

text \<open>
  Between \<open>2 ^ 30\<close> and \<open>2 ^ 31 - 1\<close> objects the ring is refused, but the value returned is
  positive (\<open>rte_errno\<close> is already negative), and a caller that tests for a negative value
  takes it for success. Above, the size wraps to 0 and the ring made has no slots.
\<close>

lemma alloc_too_many:
  assumes "2 ^ 30 \<le> unat sz" "unat sz < 2 ^ 31" "length name < 26"
  shows "\<exists>env'. common_ring_alloc hdr te mz junk name sz flags env = (None, EINVAL, env')"
proof -
  let ?f = "ring_flags flags"
  have u: "unat (sz + 1) = unat sz + 1" using assms(2) by (subst unat_add_no_overflow) auto
  obtain k where k: "unat (rte_align32pow2 (sz + 1)) = 2 ^ k" "unat (sz + 1) \<le> 2 ^ k"
    using align32pow2_spec [of "sz + 1"] u assms(1,2) by (auto simp: word_less_nat_alt)
  then have "(2::nat) ^ 30 < 2 ^ k" using u assms(1) by simp
  then have k30: "30 < k" by (simp only: power_strict_increasing_iff)
  have "\<not> (\<exists>k' \<le> 30. unat (rte_align32pow2 (sz + 1)) = 2 ^ k')"
    using k(1) k30 by (auto simp only: power_inject_exp)
  moreover have "rte_align32pow2 (sz + 1) \<noteq> 0" using k(1) by auto
  ultimately have "rte_ring_create hdr te mz junk (''MP_'' @ name) (rte_align32pow2 (sz + 1)) ?f env =
      (None, env\<lparr>rte_errno := - EINVAL\<rparr>)"
    by (intro create_einval ring_flags_bits(1))
  then show ?thesis unfolding common_ring_alloc_def Let_def using assms(3)
    by (simp add: RTE_RING_NAMESIZE_def RTE_MEMZONE_NAMESIZE_def)
qed

section \<open>Pools in use\<close>

text \<open>
  The application's calls in any order, from any core: each get names the core and a table,
  each put gives back objects handed out before. The second component is what is handed out.
\<close>

datatype 'o pool_call = PoolGet u32 "'o list" u32 | PoolPut u32 "'o list" u32

fun pool_call_ok :: "'o multiset \<Rightarrow> 'o pool_call \<Rightarrow> bool" where
  "pool_call_ok held (PoolGet lcore objs n) \<longleftrightarrow> 0 < n \<and> unat n \<le> length objs"
| "pool_call_ok held (PoolPut lcore objs n) \<longleftrightarrow> 0 < n \<and> unat n \<le> length objs \<and> mset (take (unat n) objs) \<subseteq># held"

fun pool_run ::
    "('o, 'o rte_ring option) pool_ops \<Rightarrow> ('o, 'o rte_ring option) mempool \<times> 'o multiset \<Rightarrow> 'o pool_call \<Rightarrow>
     (('o, 'o rte_ring option) mempool \<times> 'o multiset) option" where
  "pool_run ops (mp, held) (PoolGet lcore objs n) = do {
     (ret, objs, mp) \<leftarrow> rte_mempool_get_bulk ops lcore mp objs n;
     Some (mp, if ret = 0 then held + mset (take (unat n) objs) else held) }"
| "pool_run ops (mp, held) (PoolPut lcore objs n) = do {
     mp \<leftarrow> rte_mempool_put_bulk ops lcore mp objs n;
     Some (mp, held - mset (take (unat n) objs)) }"

fun pool_runs ::
    "('o, 'o rte_ring option) pool_ops \<Rightarrow> ('o, 'o rte_ring option) mempool \<times> 'o multiset \<Rightarrow> 'o pool_call list \<Rightarrow>
     (('o, 'o rte_ring option) mempool \<times> 'o multiset) option" where
  "pool_runs ops s [] = Some s"
| "pool_runs ops s (x # xs) = (if pool_call_ok (snd s) x then Option.bind (pool_run ops s x) (\<lambda>s. pool_runs ops s xs) else Some s)"

abbreviation ring_pool_ok :: "'o multiset \<Rightarrow> ('o, 'o rte_ring option) mempool \<Rightarrow> 'o multiset \<Rightarrow> bool" where
  "ring_pool_ok \<equiv> pool_ok data_wf data_items data_cap"

lemma pool_run_ok:
  assumes "ring_pool_ok all_objs mp held" "pool_call_ok held x"
  shows "\<exists>mp' held'. pool_run (ring_ops_of_flags flags) (mp, held) x = Some (mp', held') \<and> ring_pool_ok all_objs mp' held'"
proof (cases x)
  case (PoolGet lcore objs n)
  then have n: "0 < n" "unat n \<le> length objs" using assms(2) by simp_all
  obtain ret objs' mp' where "rte_mempool_get_bulk (ring_ops_of_flags flags) lcore mp objs n = Some (ret, objs', mp')"
    "if ret = 0 then ring_pool_ok all_objs mp' (held + mset (take (unat n) objs'))
      else ret < 0 \<and> objs' = objs \<and> length (data_items (mp_data mp)) < unat n \<and> ring_pool_ok all_objs mp' held"
    using of_flags.get_bulk_ok [OF assms(1) n, where flags = flags] by metis
  with PoolGet show ?thesis by (simp split: if_splits)
next
  case (PoolPut lcore objs n)
  then show ?thesis
    using of_flags.put_bulk_ok [OF assms(1), of n objs flags lcore] assms(2) by auto
qed

lemma pool_runs_ok:
  "ring_pool_ok all_objs mp held \<Longrightarrow>
     \<exists>mp' held'. pool_runs (ring_ops_of_flags flags) (mp, held) xs = Some (mp', held') \<and> ring_pool_ok all_objs mp' held'"
proof (induction xs arbitrary: mp held)
  case (Cons x xs)
  show ?case
  proof (cases "pool_call_ok held x")
    case True
    obtain mp' held' where "pool_run (ring_ops_of_flags flags) (mp, held) x = Some (mp', held')" "ring_pool_ok all_objs mp' held'"
      using pool_run_ok [OF Cons.prems True] by blast
    with Cons.IH [of mp' held'] True show ?thesis by simp
  next
    case False
    with Cons.prems show ?thesis by simp
  qed
qed simp

lemma held_subset:
  "pool_ok pinv pitems pcap all_objs mp held \<Longrightarrow> held \<subseteq># all_objs"
  by (auto simp: pool_ok_def)

section \<open>Properties\<close>

text \<open>
  C7: A packet pool never hands an object out twice. From a pool with its objects in the ring,
  the caches and in hands, any sequence of gets and puts from any cores, in which
  only objects handed out are put back, runs without an access outside a table, and at its end every object is
  still in exactly one place; what is handed out is part of the pool's objects, and
  \<open>rte_mempool_avail_count\<close> and \<open>rte_mempool_in_use_count\<close> count what is left and what is handed
  out. A get that fails hands nothing out, leaves the caller's table as it was, and happens only
  when the ring has fewer objects than asked for.
\<close>
theorem pool_hands_out_once:
  assumes "ring_pool_ok all_objs mp held"
  shows "\<exists>mp' held'. pool_runs (ring_ops_of_flags flags) (mp, held) xs = Some (mp', held') \<and>
     ring_pool_ok all_objs mp' held' \<and> held' \<subseteq># all_objs \<and>
     (\<exists>n. rte_mempool_avail_count (ring_ops_of_flags flags) mp' = Some n \<and> unat n = size all_objs - size held') \<and>
     (\<exists>n. rte_mempool_in_use_count (ring_ops_of_flags flags) mp' = Some n \<and> unat n = size held') \<and>
     (\<forall>lcore objs n. 0 < n \<longrightarrow> unat n \<le> length objs \<longrightarrow>
        (\<exists>ret objs' mp2. rte_mempool_get_bulk (ring_ops_of_flags flags) lcore mp' objs n = Some (ret, objs', mp2) \<and>
           (if ret = 0 then ring_pool_ok all_objs mp2 (held' + mset (take (unat n) objs'))
            else ret < 0 \<and> objs' = objs \<and> length (data_items (mp_data mp')) < unat n \<and> ring_pool_ok all_objs mp2 held')))"
proof -
  obtain mp' held' where run: "pool_runs (ring_ops_of_flags flags) (mp, held) xs = Some (mp', held')"
    "ring_pool_ok all_objs mp' held'"
    using pool_runs_ok [OF assms, of flags xs] by blast
  have sz: "size all_objs = unat (mp_size mp')" using run(2) by (simp add: pool_ok_def)
  have avail: "\<exists>n. rte_mempool_avail_count (ring_ops_of_flags flags) mp' = Some n \<and> unat n = size all_objs - size held'"
    "\<exists>n. rte_mempool_in_use_count (ring_ops_of_flags flags) mp' = Some n \<and> unat n = size held'"
    using of_flags.avail_ok [OF run(2), of flags] unfolding sz by blast+
  have get: "\<exists>ret objs' mp2. rte_mempool_get_bulk (ring_ops_of_flags flags) lcore mp' objs n = Some (ret, objs', mp2) \<and>
      (if ret = 0 then ring_pool_ok all_objs mp2 (held' + mset (take (unat n) objs'))
       else ret < 0 \<and> objs' = objs \<and> length (data_items (mp_data mp')) < unat n \<and> ring_pool_ok all_objs mp2 held')"
    if "0 < n" "unat n \<le> length objs" for lcore objs n
    using of_flags.get_bulk_ok [OF run(2) that, of flags lcore] by blast
  show ?thesis using run held_subset [OF run(2)] avail get by blast
qed

text \<open>A pool of one object, in a ring of two slots, without caches.\<close>

definition pool_sample :: "(nat, nat rte_ring option) mempool" where
  "pool_sample = \<lparr>mp_size = 1, mp_cache_size = 0, mp_flags = 0, mp_header_size = 64, mp_elt_size = 64, mp_trailer_size = 0,
     mp_populated_size = 1, mp_elts = [(7, 0)], mp_mems = [],
     mp_data = Some (ring_sample\<lparr>r_size := 2, r_mask := 1, r_capacity := 1, r_tbl := [7, 0]\<rparr>), mp_caches = []\<rparr>"

lemma pool_sample_ok: "ring_pool_ok {#7#} pool_sample {#}"
proof -
  let ?r = "ring_sample\<lparr>r_size := 2, r_mask := 1, r_capacity := 1, r_tbl := [7, 0]\<rparr>"
  have "ring_wf ?r" unfolding ring_wf_def
    by (intro conjI exI [of _ 1]) (simp_all add: ring_sample_def ring_len_def)
  moreover have "ring_items ?r = [7]" by (simp add: ring_sample_def ring_items_def ring_len_def ring_slot_def)
  moreover have "ring_cap ?r = 1" by (simp add: ring_sample_def ring_cap_def)
  ultimately show ?thesis by (simp add: pool_ok_def pool_sample_def caches_items_def)
qed

theorem pool_hands_out_once_witness:
  "\<exists>mp' held'. pool_runs (ring_ops_of_flags 0) (pool_sample, {#}) [PoolGet 3 [0] 1, PoolGet 4 [0] 1] = Some (mp', held') \<and>
     held' \<subseteq># {#7#}"
  using pool_hands_out_once [OF pool_sample_ok, of 0 "[PoolGet 3 [0] 1, PoolGet 4 [0] 1]"] by blast

text \<open>
  What the ring driver's \<open>alloc\<close> answers. For a pool of up to \<open>2 ^ 30 - 1\<close> objects it makes an
  empty ring with room for all of them, single-producer and single-consumer as the pool's flags
  say, and returns 0; from \<open>2 ^ 30\<close> to \<open>2 ^ 31 - 1\<close> objects it makes none and returns the positive 22, which
  callers that test for a negative number take for success.
\<close>
theorem driver_alloc_outcomes:
  assumes "unat hdr < 2 ^ 20" "length name < 26" "0 < sz" "unat sz < 2 ^ 31"
  shows "if unat sz < 2 ^ 30
     then \<exists>env' r. common_ring_alloc hdr True (Inl a) junk name sz flags env = (Some a, 0, env') \<and>
       rings env' a = Some r \<and> ring_wf r \<and> ring_items r = [] \<and> unat sz \<le> ring_cap r \<and>
       ht_single (r_prod r) = (flags AND MEMPOOL_F_SP_PUT \<noteq> 0) \<and> ht_single (r_cons r) = (flags AND MEMPOOL_F_SC_GET \<noteq> 0)
     else \<exists>env'. common_ring_alloc hdr True (Inl a) junk name sz flags env = (None, 22, env')"
proof (cases "unat sz < 2 ^ 30")
  case True
  have "0 < unat sz" using assms(3) by (simp add: word_less_nat_alt)
  from alloc_ok [OF assms(1,2) this True, of a junk flags env] show ?thesis unfolding if_P [OF True] .
next
  case False
  then have "2 ^ 30 \<le> unat sz" by (simp only: not_less)
  from alloc_too_many [OF this assms(4,2)] show ?thesis unfolding if_not_P [OF False] .
qed

theorem driver_alloc_outcomes_witness:
  "\<exists>env'. common_ring_alloc 384 True (Inl 9) (0 :: nat) ''p'' 0x40000000 0 \<lparr>ring_list = [], rings = Map.empty, rte_errno = 0\<rparr> =
     (None, 22, env')"
  using driver_alloc_outcomes [of 384 "''p''" "0x40000000" 9 "0 :: nat" 0 "\<lparr>ring_list = [], rings = Map.empty, rte_errno = 0\<rparr>"]
  by simp

end
