(* ===== verification/MbufPool.thy ===== *)
theory MbufPool
  imports MbufPacket RingPool
begin

text \<open>
  Packet pools: taking mbufs from a pool and giving them back. The mbufs that are not handed out
  are in the state in which \<open>rte_mbuf_raw_alloc\<close> promises them; freeing a packet gives every segment
  that nobody else refers to back to the pool in that state, and lowers the counts of the others.
  The lemmas hold for every driver that satisfies \<open>bulk_pool\<close>, and the pools created
  by \<open>rte_pktmbuf_pool_create\<close> have one.
\<close>

section \<open>Pools of mbufs\<close>

definition own_buf :: "u8 blocks \<Rightarrow> 'p mbuf_pool \<Rightarrow> maddr \<Rightarrow> mbuf \<Rightarrow> bool" where
  "own_buf h P m M \<longleftrightarrow> RTE_MBUF_DIRECT M \<and> mb_buf_addr M = rte_mbuf_buf_addr m P \<and>
     mb_buf_len M = rte_pktmbuf_data_room_size P \<and> map_option length (h (mb_buf_addr M)) = Some (unat (mb_buf_len M))"

definition free_mbuf :: "u8 blocks \<Rightarrow> 'p mbuf_pool \<Rightarrow> nat \<Rightarrow> maddr \<Rightarrow> mbuf \<Rightarrow> bool" where
  "free_mbuf h P mp m M \<longleftrightarrow> mb_pool M = mp \<and> mb_refcnt M = 1 \<and> mb_next M = None \<and> mb_nb_segs M = 1 \<and> own_buf h P m M"

text \<open>\<open>A\<close> are the addresses of the pool's mbufs, \<open>held\<close> those handed out.\<close>

definition pktpool_ok ::
    "(maddr, 'p) pool_ops \<Rightarrow> ('p \<Rightarrow> bool) \<Rightarrow> ('p \<Rightarrow> maddr list) \<Rightarrow> ('p \<Rightarrow> nat) \<Rightarrow> maddr set \<Rightarrow> nat \<Rightarrow> 'p mbuf_mem \<Rightarrow> maddr set \<Rightarrow> bool" where
  "pktpool_ok ops pinv pitems pcap A mp mm held \<longleftrightarrow> finite A \<and> held \<subseteq> A \<and>
     (\<exists>P. mm_pools mm mp = Some P \<and> pl_ops P = ops \<and> pool_ok pinv pitems pcap (mset_set A) (pl_mp P) (mset_set held) \<and>
       (\<forall>m \<in> A - held. \<exists>M. mm_mbufs mm m = Some M \<and> free_mbuf (mm_bufs mm) P mp m M))"

text \<open>A segment that \<open>rte_pktmbuf_free_seg\<close> can give back; a last segment counts as one.\<close>

definition seg_mine :: "u8 blocks \<Rightarrow> 'p mbuf_pool \<Rightarrow> nat \<Rightarrow> maddr \<Rightarrow> mbuf \<Rightarrow> bool" where
  "seg_mine h P mp m M \<longleftrightarrow> mb_pool M = mp \<and> mb_refcnt M \<noteq> 0 \<and> (mb_next M = None \<longrightarrow> mb_nb_segs M = 1) \<and> own_buf h P m M"

lemma reset_simps [simp]:
  "mb_pool (rte_pktmbuf_reset M) = mb_pool M" "mb_refcnt (rte_pktmbuf_reset M) = mb_refcnt M"
  "mb_next (rte_pktmbuf_reset M) = None" "mb_nb_segs (rte_pktmbuf_reset M) = 1" "mb_pkt_len (rte_pktmbuf_reset M) = 0"
  "mb_data_len (rte_pktmbuf_reset M) = 0" "mb_buf_addr (rte_pktmbuf_reset M) = mb_buf_addr M"
  "mb_buf_len (rte_pktmbuf_reset M) = mb_buf_len M" "mb_ol_flags (rte_pktmbuf_reset M) = 0"
  "mb_data_off (rte_pktmbuf_reset M) = min RTE_PKTMBUF_HEADROOM (mb_buf_len M)"
  by (simp_all add: rte_pktmbuf_reset_def rte_pktmbuf_reset_headroom_def)

text \<open>A reset mbuf is an empty packet with the usual headroom.\<close>

lemma reset_empty_packet:
  assumes "mm_mbufs mm m = Some (rte_pktmbuf_reset M)" "own_buf (mm_bufs mm) P m M"
  shows "pkt_ok mm m [m]" "pkt_bytes mm [m] = []" "own_buf (mm_bufs mm) P m (rte_pktmbuf_reset M)"
proof -
  have len: "map_option length (mm_bufs mm (mb_buf_addr M)) = Some (unat (mb_buf_len M))" using assms(2) by (auto simp: own_buf_def)
  have "unat (min RTE_PKTMBUF_HEADROOM (mb_buf_len M)) \<le> unat (mb_buf_len M)" by (simp add: min_def word_le_nat_alt)
  then have "buf_ok (mm_bufs mm) (rte_pktmbuf_reset M)" using len by (simp add: buf_ok_def)
  then show "pkt_ok mm m [m]" "pkt_bytes mm [m] = []"
    using assms(1) buf_data_length [of "mm_bufs mm" "rte_pktmbuf_reset M"] by (simp_all add: pkt_ok_def seg_ok_def seg_data_def)
  show "own_buf (mm_bufs mm) P m (rte_pktmbuf_reset M)" using assms(2) by (auto simp: own_buf_def RTE_MBUF_DIRECT_def)
qed

lemma seg_mine_cong: "rte_pktmbuf_priv_size P' = rte_pktmbuf_priv_size P \<Longrightarrow> rte_pktmbuf_data_room_size P' = rte_pktmbuf_data_room_size P \<Longrightarrow>
    own_buf h P' m M = own_buf h P m M"
  by (simp add: own_buf_def rte_mbuf_buf_addr_def)

lemma own_buf_pool [simp]: "own_buf h (P\<lparr>pl_mp := x\<rparr>) m M = own_buf h P m M"
  by (rule seg_mine_cong) (simp_all add: rte_pktmbuf_priv_size_def rte_pktmbuf_data_room_size_def)

lemma free_mbuf_pool [simp]: "free_mbuf h (P\<lparr>pl_mp := x\<rparr>) mp m M = free_mbuf h P mp m M"
  by (simp add: free_mbuf_def)

lemma seg_mine_pool [simp]: "seg_mine h (P\<lparr>pl_mp := x\<rparr>) mp m M = seg_mine h P mp m M"
  by (simp add: seg_mine_def)

lemma held_more_list:
  assumes "pool_ok pinv pitems pcap (mset_set A) p (mset_set held + mset xs)" "finite A" "held \<subseteq> A"
  shows "distinct xs" "set xs \<subseteq> A - held" "mset_set held + mset xs = mset_set (held \<union> set xs)"
proof -
  have fin: "finite held" using assms(2,3) by (rule rev_finite_subset)
  have "\<exists>r. r + (mset_set held + mset xs) = mset_set A" using assms(1) unfolding pool_ok_def by blast
  then obtain r where r: "r + (mset_set held + mset xs) = mset_set A" by blast
  have c: "count (mset_set held) m + count (mset xs) m \<le> (if m \<in> A then 1 else 0)" for m
  proof -
    have "count (mset_set held) m + count (mset xs) m \<le> count (mset_set A) m"
      using arg_cong [OF r, of "\<lambda>x. count x m"] by simp
    moreover have "count (mset_set A) m = (if m \<in> A then 1 else 0)" using assms(2) by (cases "m \<in> A") simp_all
    ultimately show ?thesis by simp
  qed
  have x1: "count (mset xs) m \<le> 1" for m by (rule order_trans [OF add_leD2 [OF c]]) simp
  then have "count (mset xs) m = (if m \<in> set xs then 1 else 0)" for m
    by (metis count_eq_zero_iff le_antisym le_zero_eq less_one linorder_not_less set_mset_mset)
  then show d: "distinct xs" by (simp add: distinct_count_atmost_1)
  show sub: "set xs \<subseteq> A - held"
  proof
    fix m assume "m \<in> set xs"
    then have "count (mset xs) m > 0" by (simp add: count_greater_zero_iff)
    then show "m \<in> A - held" using c [of m] fin by (cases "m \<in> A"; cases "m \<in> held") auto
  qed
  have "mset xs = mset_set (set xs)" using d by (simp add: mset_set_set)
  moreover have "held \<inter> set xs = {}" using sub by blast
  ultimately show "mset_set held + mset xs = mset_set (held \<union> set xs)" using fin by (simp add: mset_set_Union)
qed

lemma held_more:
  assumes "pool_ok pinv pitems pcap (mset_set A) p (mset_set held + {#m#})" "finite A" "held \<subseteq> A"
  shows "m \<in> A - held" "mset_set held + {#m#} = mset_set (insert m held)"
  using held_more_list [of pinv pitems pcap A p held "[m]"] assms by simp_all

section \<open>Taking and giving back\<close>

text \<open>Only the driver and the caches of pool \<open>mp\<close> move.\<close>

definition pool_moved :: "nat \<Rightarrow> 'p mbuf_mem \<Rightarrow> 'p mbuf_mem \<Rightarrow> bool" where
  "pool_moved mp mm mm' \<longleftrightarrow>
     (\<exists>P p. mm_pools mm mp = Some P \<and> mm_pools mm' = (mm_pools mm)(mp \<mapsto> P\<lparr>pl_mp := p\<rparr>)) \<and> mm_bufs mm' = mm_bufs mm"

lemma pool_moved_trans: "pool_moved mp mm mm' \<Longrightarrow> pool_moved mp mm' mm'' \<Longrightarrow> pool_moved mp mm mm''"
  by (auto simp: pool_moved_def) blast

lemma pool_moved_refl: "mm_pools mm mp = Some P \<Longrightarrow> pool_moved mp mm mm"
  unfolding pool_moved_def by (intro conjI exI [of _ P] exI [of _ "pl_mp P"]) (auto simp: fun_upd_idem)

lemma pool_moved_mine:
  assumes "pool_moved mp mm mm'" "mm_pools mm mp = Some P" "seg_mine (mm_bufs mm) P mp m M"
  shows "\<exists>P'. mm_pools mm' mp = Some P' \<and> seg_mine (mm_bufs mm') P' mp m M"
  using assms by (auto simp: pool_moved_def)

locale mbuf_driver = bulk_pool ops pinv pitems pcap
  for ops :: "(nat, 'p) pool_ops" and pinv :: "'p \<Rightarrow> bool" and pitems :: "'p \<Rightarrow> nat list" and pcap :: "'p \<Rightarrow> nat"
begin

lemma raw_alloc_ok:
  assumes ok: "pktpool_ok ops pinv pitems pcap A mp mm held" and P: "mm_pools mm mp = Some P"
  shows "\<exists>r p. rte_mbuf_raw_alloc lcore mp mm = Some (r, mm\<lparr>mm_pools := (mm_pools mm)(mp \<mapsto> P\<lparr>pl_mp := p\<rparr>)\<rparr>) \<and>
     (case r of None \<Rightarrow> pitems (mp_data (pl_mp P)) = [] \<and> pool_ok pinv pitems pcap (mset_set A) p (mset_set held)
      | Some m \<Rightarrow> m \<in> A - held \<and> pool_ok pinv pitems pcap (mset_set A) p (mset_set (insert m held)))"
proof -
  have pk: "finite A" "held \<subseteq> A" "pl_ops P = ops" "pool_ok pinv pitems pcap (mset_set A) (pl_mp P) (mset_set held)"
    using ok P by (auto simp: pktpool_ok_def)
  obtain ret objs p where g: "rte_mempool_get_bulk ops lcore (pl_mp P) [0] 1 = Some (ret, objs, p)" "length objs = 1"
      "if ret = 0 then pool_ok pinv pitems pcap (mset_set A) p (mset_set held + mset (take (unat (1 :: u32)) objs))
       else ret < 0 \<and> objs = [0] \<and> length (pitems (mp_data (pl_mp P))) < unat (1 :: u32) \<and>
         pool_ok pinv pitems pcap (mset_set A) p (mset_set held)"
    using get_bulk_ok [OF pk(4), of 1 "[0]" lcore] by auto
  obtain m where m: "objs = [m]" using g(2) by (cases objs) auto
  have get: "rte_mempool_get (pl_ops P) lcore (pl_mp P) 0 = Some (ret, m, p)" using g(1) m pk(3) by (simp add: rte_mempool_get_def)
  show ?thesis
  proof (cases "ret = 0")
    case True
    then have "pool_ok pinv pitems pcap (mset_set A) p (mset_set held + {#m#})" using g(3) m by simp
    note h = held_more [OF this pk(1,2)]
    then show ?thesis using P get True \<open>pool_ok pinv pitems pcap (mset_set A) p (mset_set held + {#m#})\<close>
      by (intro exI [of _ "Some m"] exI [of _ p]) (simp add: rte_mbuf_raw_alloc_def)
  next
    case False
    then show ?thesis using P get g(3) by (intro exI [of _ None] exI [of _ p]) (simp add: rte_mbuf_raw_alloc_def)
  qed
qed

text \<open>
  \<open>rte_pktmbuf_alloc\<close> gives an empty packet that nobody else has, or NULL; it gives NULL only when the driver is
  empty.
\<close>

lemma pktmbuf_alloc_ok:
  assumes ok: "pktpool_ok ops pinv pitems pcap A mp mm held" and P: "mm_pools mm mp = Some P"
  shows "\<exists>r mm'. rte_pktmbuf_alloc lcore mp mm = Some (r, mm') \<and> pool_moved mp mm mm' \<and>
     (case r of None \<Rightarrow> pitems (mp_data (pl_mp P)) = [] \<and> mm_mbufs mm' = mm_mbufs mm \<and> pktpool_ok ops pinv pitems pcap A mp mm' held
      | Some m \<Rightarrow> m \<in> A - held \<and> pktpool_ok ops pinv pitems pcap A mp mm' (insert m held) \<and>
          (\<forall>s. s \<noteq> m \<longrightarrow> mm_mbufs mm' s = mm_mbufs mm s) \<and>
          (\<exists>M. mm_mbufs mm' m = Some (rte_pktmbuf_reset M) \<and> free_mbuf (mm_bufs mm') P mp m (rte_pktmbuf_reset M)) \<and> pkt_ok mm' m [m] \<and> pkt_bytes mm' [m] = [])"
proof -
  have pk: "finite A" "held \<subseteq> A" "pl_ops P = ops"
    "\<forall>m \<in> A - held. \<exists>M. mm_mbufs mm m = Some M \<and> free_mbuf (mm_bufs mm) P mp m M"
    using ok P by (auto simp: pktpool_ok_def)
  obtain r p where r: "rte_mbuf_raw_alloc lcore mp mm = Some (r, mm\<lparr>mm_pools := (mm_pools mm)(mp \<mapsto> P\<lparr>pl_mp := p\<rparr>)\<rparr>)"
      "case r of None \<Rightarrow> pitems (mp_data (pl_mp P)) = [] \<and> pool_ok pinv pitems pcap (mset_set A) p (mset_set held)
       | Some m \<Rightarrow> m \<in> A - held \<and> pool_ok pinv pitems pcap (mset_set A) p (mset_set (insert m held))"
    using raw_alloc_ok [OF ok P] by blast
  let ?mm = "mm\<lparr>mm_pools := (mm_pools mm)(mp \<mapsto> P\<lparr>pl_mp := p\<rparr>)\<rparr>"
  show ?thesis
  proof (cases r)
    case None
    then have "pktpool_ok ops pinv pitems pcap A mp ?mm held" using r(2) pk P by (simp add: pktpool_ok_def)
    then show ?thesis using None r P
      by (intro exI [of _ None] exI [of _ ?mm]) (auto simp: rte_pktmbuf_alloc_def pool_moved_def)
  next
    case (Some m)
    then have m: "m \<in> A - held" "pool_ok pinv pitems pcap (mset_set A) p (mset_set (insert m held))" using r(2) by simp_all
    obtain M where M: "mm_mbufs mm m = Some M" "free_mbuf (mm_bufs mm) P mp m M" using pk(4) m(1) by blast
    let ?mm2 = "?mm\<lparr>mm_mbufs := (mm_mbufs mm)(m \<mapsto> rte_pktmbuf_reset M)\<rparr>"
    have own: "own_buf (mm_bufs ?mm2) P m M" using M(2) by (simp add: free_mbuf_def)
    note e = reset_empty_packet [of ?mm2 m M, OF _ own, simplified]
    have free: "free_mbuf (mm_bufs mm) P mp m (rte_pktmbuf_reset M)" using M(2) e(3) by (simp add: free_mbuf_def)
    have "pktpool_ok ops pinv pitems pcap A mp ?mm2 (insert m held)" using m pk P by (auto simp: pktpool_ok_def)
    moreover have "rte_pktmbuf_alloc lcore mp mm = Some (Some m, ?mm2)" using r(1) Some M(1) by (simp add: rte_pktmbuf_alloc_def)
    moreover have "pool_moved mp mm ?mm2" using P by (auto simp: pool_moved_def)
    ultimately show ?thesis using m(1) free e by (intro exI [of _ "Some m"] exI [of _ ?mm2]) auto
  qed
qed

lemma raw_free_ok:
  assumes ok: "pktpool_ok ops pinv pitems pcap A mp mm held" and P: "mm_pools mm mp = Some P"
    and m: "m \<in> held" "mm_mbufs mm m = Some M" "free_mbuf (mm_bufs mm) P mp m M"
  shows "\<exists>p. rte_mbuf_raw_free lcore m mm = Some (mm\<lparr>mm_pools := (mm_pools mm)(mp \<mapsto> P\<lparr>pl_mp := p\<rparr>)\<rparr>) \<and>
     pktpool_ok ops pinv pitems pcap A mp (mm\<lparr>mm_pools := (mm_pools mm)(mp \<mapsto> P\<lparr>pl_mp := p\<rparr>)\<rparr>) (held - {m})"
proof -
  have pk: "finite A" "held \<subseteq> A" "pl_ops P = ops" "pool_ok pinv pitems pcap (mset_set A) (pl_mp P) (mset_set held)"
    "\<forall>m \<in> A - held. \<exists>M. mm_mbufs mm m = Some M \<and> free_mbuf (mm_bufs mm) P mp m M"
    using ok P by (auto simp: pktpool_ok_def)
  have fin: "finite held" using pk(1,2) by (rule rev_finite_subset)
  have "mset (take (unat (1 :: u32)) [m]) \<subseteq># mset_set held" using m(1) fin by simp
  from put_bulk_ok [OF pk(4), of 1 "[m]", OF _ _ this] obtain p where
    p: "rte_mempool_put_bulk ops lcore (pl_mp P) [m] 1 = Some p"
      "pool_ok pinv pitems pcap (mset_set A) p (mset_set held - {#m#})" by auto
  have "mset_set held - {#m#} = mset_set (held - {m})" using fin m(1) by (simp add: mset_set_Diff)
  moreover have "A - (held - {m}) = insert m (A - held)" using m(1) pk(2) by auto
  moreover have "mb_pool M = mp" using m(3) by (simp add: free_mbuf_def)
  ultimately show ?thesis using p pk m P
    by (intro exI [of _ p]) (auto simp: rte_mbuf_raw_free_def rte_mempool_put_def pktpool_ok_def)
qed

text \<open>Writing the mbuf of a held segment does not concern its pool.\<close>

lemma pktpool_write:
  assumes "pktpool_ok ops pinv pitems pcap A mp mm held" "m \<in> held"
  shows "pktpool_ok ops pinv pitems pcap A mp (mm\<lparr>mm_mbufs := (mm_mbufs mm)(m \<mapsto> M)\<rparr>) held"
  using assms by (auto simp: pktpool_ok_def)

lemma free_seg_ok:
  assumes ok: "pktpool_ok ops pinv pitems pcap A mp mm held" and P: "mm_pools mm mp = Some P"
    and m: "m \<in> held" "mm_mbufs mm m = Some M" "seg_mine (mm_bufs mm) P mp m M"
  shows "\<exists>mm'. rte_pktmbuf_free_seg lcore m mm = Some mm' \<and> pool_moved mp mm mm' \<and>
     pktpool_ok ops pinv pitems pcap A mp mm' (if mb_refcnt M = 1 then held - {m} else held) \<and>
     (\<forall>s. s \<noteq> m \<longrightarrow> mm_mbufs mm' s = mm_mbufs mm s) \<and>
     (mb_refcnt M \<noteq> 1 \<longrightarrow> mm_mbufs mm' m = Some (M\<lparr>mb_refcnt := mb_refcnt M - 1\<rparr>))"
proof (cases "mb_refcnt M = 1")
  case True
  define M' where "M' = (if mb_next M \<noteq> None then M\<lparr>mb_next := None, mb_nb_segs := 1\<rparr> else M)"
  let ?mm = "mm\<lparr>mm_mbufs := (mm_mbufs mm)(m \<mapsto> M')\<rparr>"
  have M': "free_mbuf (mm_bufs ?mm) P mp m M'"
    using m(3) True by (auto simp: M'_def free_mbuf_def seg_mine_def own_buf_def RTE_MBUF_DIRECT_def)
  have "pktpool_ok ops pinv pitems pcap A mp ?mm held" by (rule pktpool_write [OF ok m(1)])
  from raw_free_ok [OF this, of P m M' lcore] obtain p where
    p: "rte_mbuf_raw_free lcore m ?mm = Some (?mm\<lparr>mm_pools := (mm_pools mm)(mp \<mapsto> P\<lparr>pl_mp := p\<rparr>)\<rparr>)"
      "pktpool_ok ops pinv pitems pcap A mp (?mm\<lparr>mm_pools := (mm_pools mm)(mp \<mapsto> P\<lparr>pl_mp := p\<rparr>)\<rparr>) (held - {m})"
    using P m(1) M' by auto
  have "RTE_MBUF_DIRECT M" using m(3) by (simp add: seg_mine_def own_buf_def)
  then have "rte_pktmbuf_free_seg lcore m mm = Some (?mm\<lparr>mm_pools := (mm_pools mm)(mp \<mapsto> P\<lparr>pl_mp := p\<rparr>)\<rparr>)"
    using m(2) True p(1) by (simp add: rte_pktmbuf_free_seg_def rte_pktmbuf_prefree_seg_def rte_mbuf_refcnt_read_def unlink_seg_def M'_def)
  moreover have "pool_moved mp mm (?mm\<lparr>mm_pools := (mm_pools mm)(mp \<mapsto> P\<lparr>pl_mp := p\<rparr>)\<rparr>)"
    using P by (auto simp: pool_moved_def)
  ultimately show ?thesis using p(2) True
    by (intro exI [of _ "?mm\<lparr>mm_pools := (mm_pools mm)(mp \<mapsto> P\<lparr>pl_mp := p\<rparr>)\<rparr>"]) simp
next
  case False
  let ?mm = "mm\<lparr>mm_mbufs := (mm_mbufs mm)(m \<mapsto> M\<lparr>mb_refcnt := mb_refcnt M - 1\<rparr>)\<rparr>"
  have "rte_pktmbuf_free_seg lcore m mm = Some ?mm"
    using False m(2) by (simp add: rte_pktmbuf_free_seg_def rte_pktmbuf_prefree_seg_def rte_mbuf_refcnt_read_def mbuf_refcnt_add_def)
  moreover have "pool_moved mp mm ?mm" using P by (auto simp: pool_moved_def fun_upd_idem intro!: exI [of _ "pl_mp P"])
  moreover have "pktpool_ok ops pinv pitems pcap A mp ?mm held" by (rule pktpool_write [OF ok m(1)])
  ultimately show ?thesis using False by (intro exI [of _ ?mm]) simp
qed

text \<open>The segments of a packet whose count is one go back; the others lose one reference.\<close>

lemma pktmbuf_free_ok:
  assumes "pktpool_ok ops pinv pitems pcap A mp mm held" "mm_pools mm mp = Some P" "seg_chain mm p ss" "distinct ss"
    "\<forall>s \<in> set ss. s \<in> held \<and> (\<exists>M. mm_mbufs mm s = Some M \<and> seg_mine (mm_bufs mm) P mp s M)"
  shows "\<exists>mm'. rte_pktmbuf_free lcore p mm = Some mm' \<and> pool_moved mp mm mm' \<and>
     pktpool_ok ops pinv pitems pcap A mp mm' (held - {s \<in> set ss. map_option mb_refcnt (mm_mbufs mm s) = Some 1}) \<and>
     (\<forall>s. s \<notin> set ss \<longrightarrow> mm_mbufs mm' s = mm_mbufs mm s) \<and>
     (\<forall>s \<in> set ss. \<forall>M. mm_mbufs mm s = Some M \<longrightarrow> mb_refcnt M \<noteq> 1 \<longrightarrow>
        mm_mbufs mm' s = Some (M\<lparr>mb_refcnt := mb_refcnt M - 1\<rparr>))"
  using assms
proof (induction ss arbitrary: p mm held P)
  case Nil
  then show ?case using pool_moved_refl by (subst rte_pktmbuf_free.simps) simp
next
  case (Cons s ss)
  obtain M where M: "p = Some s" "mm_mbufs mm s = Some M" "seg_chain mm (mb_next M) ss"
    using Cons.prems(3) by (auto split: option.splits)
  have s: "s \<in> held" "seg_mine (mm_bufs mm) P mp s M" using Cons.prems(5) M(2) by auto
  obtain mm1 where f: "rte_pktmbuf_free_seg lcore s mm = Some mm1" "pool_moved mp mm mm1"
      "pktpool_ok ops pinv pitems pcap A mp mm1 (if mb_refcnt M = 1 then held - {s} else held)"
      "\<And>t. t \<noteq> s \<Longrightarrow> mm_mbufs mm1 t = mm_mbufs mm t" "mb_refcnt M \<noteq> 1 \<Longrightarrow> mm_mbufs mm1 s = Some (M\<lparr>mb_refcnt := mb_refcnt M - 1\<rparr>)"
    using free_seg_ok [OF Cons.prems(1,2) s(1) M(2) s(2)] by blast
  obtain P1 where P1: "mm_pools mm1 mp = Some P1" "\<And>t N. seg_mine (mm_bufs mm1) P1 mp t N = seg_mine (mm_bufs mm) P mp t N"
    using f(2) Cons.prems(2) by (auto simp: pool_moved_def)
  have ns: "s \<notin> set ss" "distinct ss" using Cons.prems(4) by simp_all
  have same: "mm_mbufs mm1 t = mm_mbufs mm t" if "t \<in> set ss" for t by (rule f(4)) (use ns that in blast)
  have "seg_chain mm1 (mb_next M) ss = seg_chain mm (mb_next M) ss" by (rule seg_chain_cong) (simp add: same)
  then have c: "seg_chain mm1 (mb_next M) ss" using M(3) by simp
  let ?held = "if mb_refcnt M = 1 then held - {s} else held"
  have mine: "\<forall>t \<in> set ss. t \<in> ?held \<and> (\<exists>N. mm_mbufs mm1 t = Some N \<and> seg_mine (mm_bufs mm1) P1 mp t N)"
    using Cons.prems(5) same ns(1) by (auto simp: P1(2))
  obtain mm2 where r: "rte_pktmbuf_free lcore (mb_next M) mm1 = Some mm2" "pool_moved mp mm1 mm2"
      "pktpool_ok ops pinv pitems pcap A mp mm2 (?held - {t \<in> set ss. map_option mb_refcnt (mm_mbufs mm1 t) = Some 1})"
      "\<And>t. t \<notin> set ss \<Longrightarrow> mm_mbufs mm2 t = mm_mbufs mm1 t"
      "\<And>t N. t \<in> set ss \<Longrightarrow> mm_mbufs mm1 t = Some N \<Longrightarrow> mb_refcnt N \<noteq> 1 \<Longrightarrow> mm_mbufs mm2 t = Some (N\<lparr>mb_refcnt := mb_refcnt N - 1\<rparr>)"
    using Cons.IH [OF f(3) P1(1) c ns(2) mine] by blast
  have "{t \<in> set ss. map_option mb_refcnt (mm_mbufs mm1 t) = Some 1} = {t \<in> set ss. map_option mb_refcnt (mm_mbufs mm t) = Some 1}"
    using same by auto
  then have held: "?held - {t \<in> set ss. map_option mb_refcnt (mm_mbufs mm1 t) = Some 1} =
      held - {t \<in> set (s # ss). map_option mb_refcnt (mm_mbufs mm t) = Some 1}"
    using M(2) by auto
  have "rte_pktmbuf_free lcore p mm = Some mm2" using M(1,2) f(1) r(1) by (subst rte_pktmbuf_free.simps) simp
  moreover have "\<forall>t. t \<notin> set (s # ss) \<longrightarrow> mm_mbufs mm2 t = mm_mbufs mm t" using r(4) f(4) by simp
  moreover have "\<forall>t \<in> set (s # ss). \<forall>N. mm_mbufs mm t = Some N \<longrightarrow> mb_refcnt N \<noteq> 1 \<longrightarrow>
        mm_mbufs mm2 t = Some (N\<lparr>mb_refcnt := mb_refcnt N - 1\<rparr>)"
    using r(4,5) f(5) same ns(1) M(2) by auto
  ultimately show ?case using r(3) pool_moved_trans [OF f(2) r(2)] held by (intro exI [of _ mm2]) simp
qed

end

section \<open>Bulks\<close>

text \<open>Resetting a set of mbufs; doing it twice changes nothing.\<close>

definition reset_set :: "maddr set \<Rightarrow> 'p mbuf_mem \<Rightarrow> 'p mbuf_mem" where
  "reset_set S mm = mm\<lparr>mm_mbufs := (\<lambda>s. if s \<in> S then map_option rte_pktmbuf_reset (mm_mbufs mm s) else mm_mbufs mm s)\<rparr>"

lemma reset_idem: "rte_pktmbuf_reset (rte_pktmbuf_reset M) = rte_pktmbuf_reset M"
  by (simp add: rte_pktmbuf_reset_def rte_pktmbuf_reset_headroom_def)

lemma reset_set_Un: "reset_set T (reset_set S mm) = reset_set (S \<union> T) mm"
proof -
  have "(\<lambda>s. if s \<in> T then map_option rte_pktmbuf_reset (if s \<in> S then map_option rte_pktmbuf_reset (mm_mbufs mm s) else mm_mbufs mm s)
           else if s \<in> S then map_option rte_pktmbuf_reset (mm_mbufs mm s) else mm_mbufs mm s) =
        (\<lambda>s. if s \<in> S \<union> T then map_option rte_pktmbuf_reset (mm_mbufs mm s) else mm_mbufs mm s)"
    by (rule ext) (simp add: option.map_comp comp_def reset_idem cong: option.map_cong)
  then show ?thesis by (simp add: reset_set_def cong: if_cong)
qed

lemma reset_set_simps [simp]:
  "mm_bufs (reset_set S mm) = mm_bufs mm" "mm_pools (reset_set S mm) = mm_pools mm" "reset_set {} mm = mm"
  by (simp_all add: reset_set_def)

lemma reset_mbufs_spec:
  assumes "unat idx + k \<le> length mbufs" "unat idx + k < 2 ^ 32" "\<forall>i < unat idx + k. mm_mbufs mm (mbufs ! i) \<noteq> None"
  shows "reset_mbufs k mbufs idx mm = Some (idx + of_nat k, reset_set (set (take k (drop (unat idx) mbufs))) mm)"
  using assms
proof (induction k arbitrary: idx mm)
  case 0
  then show ?case by simp
next
  case (Suc k)
  let ?m = "mbufs ! unat idx"
  have lt: "unat idx < length mbufs" using Suc.prems(1) by simp
  have "mm_mbufs mm ?m \<noteq> None" using Suc.prems(3) by simp
  then obtain M where M: "mm_mbufs mm ?m = Some M" by auto
  have idx: "unat (idx + 1) = unat idx + 1" using Suc.prems(2) by (subst unat_add_no_overflow) simp_all
  have one: "mm\<lparr>mm_mbufs := (mm_mbufs mm)(?m \<mapsto> rte_pktmbuf_reset M)\<rparr> = reset_set {?m} mm"
    using M by (auto simp: reset_set_def fun_eq_iff intro!: arg_cong [where f = "\<lambda>x. mm\<lparr>mm_mbufs := x\<rparr>"])
  have live: "\<forall>i < unat idx + Suc k. mm_mbufs (reset_set {?m} mm) (mbufs ! i) \<noteq> None" using Suc.prems(3) by (auto simp: reset_set_def)
  have "reset_mbufs (Suc k) mbufs idx mm = reset_mbufs k mbufs (idx + 1) (reset_set {?m} mm)"
    using lt M by (simp add: one)
  also have "\<dots> = Some (idx + 1 + of_nat k, reset_set (set (take k (drop (unat (idx + 1)) mbufs))) (reset_set {?m} mm))"
    by (rule Suc.IH) (use Suc.prems live idx in simp_all)
  also have "\<dots> = Some (idx + of_nat (Suc k), reset_set (set (take (Suc k) (drop (unat idx) mbufs))) mm)"
    using lt by (simp add: reset_set_Un idx Cons_nth_drop_Suc [symmetric] add.assoc)
  finally show ?case .
qed

lemma reset_loop_spec:
  assumes "unat cnt = unat idx + 4 * n" "unat cnt \<le> length mbufs" "\<forall>i < unat cnt. mm_mbufs mm (mbufs ! i) \<noteq> None"
  shows "reset_loop mbufs cnt idx mm = Some (reset_set (set (take (4 * n) (drop (unat idx) mbufs))) mm)"
  using assms
proof (induction n arbitrary: idx mm)
  case 0
  then have "idx = cnt" by (simp add: word_unat_eq_iff)
  then show ?case by (subst reset_loop.simps) simp
next
  case (Suc n)
  have ne: "idx \<noteq> cnt" using Suc.prems(1) by auto
  have b: "unat idx + 4 < 2 ^ 32" using Suc.prems(1) unat_lt2p [of cnt] by simp
  then have idx: "unat (idx + 4) = unat idx + 4" by (subst unat_add_no_overflow) simp_all
  let ?S = "set (take 4 (drop (unat idx) mbufs))"
  have r: "reset_mbufs 4 mbufs idx mm = Some (idx + 4, reset_set ?S mm)"
    by (subst reset_mbufs_spec) (use Suc.prems b in simp_all)
  have "reset_loop mbufs cnt idx mm = reset_loop mbufs cnt (idx + 4) (reset_set ?S mm)"
    by (subst reset_loop.simps) (simp add: ne r)
  also have "\<dots> = Some (reset_set (set (take (4 * n) (drop (unat (idx + 4)) mbufs))) (reset_set ?S mm))"
    by (rule Suc.IH) (use Suc.prems idx in \<open>auto simp: reset_set_def\<close>)
  also have "reset_set (set (take (4 * n) (drop (unat (idx + 4)) mbufs))) (reset_set ?S mm) =
      reset_set (set (take (4 * Suc n) (drop (unat idx) mbufs))) mm"
  proof -
    have "take (4 * Suc n) (drop (unat idx) mbufs) = take 4 (drop (unat idx) mbufs) @ take (4 * n) (drop (unat (idx + 4)) mbufs)"
      by (simp only: mult_Suc_right take_add drop_drop idx add.commute [of 4 "unat idx"])
    then show ?thesis by (simp only: reset_set_Un set_append)
  qed
  finally show ?case .
qed

lemma reset_bulk:
  assumes "unat cnt \<le> length mbufs" "\<forall>i < unat cnt. mm_mbufs mm (mbufs ! i) \<noteq> None"
  shows "do { (idx, mm) \<leftarrow> reset_mbufs (unat (cnt mod 4)) mbufs 0 mm; reset_loop mbufs cnt idx mm } =
     Some (reset_set (set (take (unat cnt) mbufs)) mm)"
proof -
  have m: "unat (cnt mod 4) = unat cnt mod 4" by (simp add: unat_mod)
  have le: "unat cnt mod 4 \<le> unat cnt" by simp
  let ?i = "of_nat (unat cnt mod 4) :: u32"
  have i: "unat ?i = unat cnt mod 4" by (simp add: unat_of_nat)
  let ?S = "set (take (unat cnt mod 4) mbufs)"
  have r: "reset_mbufs (unat (cnt mod 4)) mbufs 0 mm = Some (?i, reset_set ?S mm)"
    unfolding m by (subst reset_mbufs_spec) (use assms le in \<open>simp_all del: le\<close>)
  have "unat cnt = unat ?i + 4 * (unat cnt div 4)" unfolding i by simp
  then have "reset_loop mbufs cnt ?i (reset_set ?S mm) =
      Some (reset_set (set (take (4 * (unat cnt div 4)) (drop (unat ?i) mbufs))) (reset_set ?S mm))"
    by (rule reset_loop_spec) (use assms in \<open>auto simp: reset_set_def\<close>)
  moreover have "take (unat cnt) mbufs = take (unat cnt mod 4) mbufs @ take (4 * (unat cnt div 4)) (drop (unat cnt mod 4) mbufs)"
    by (simp flip: take_add)
  ultimately show ?thesis using r i by (simp add: reset_set_Un flip: set_append)
qed

context mbuf_driver
begin

lemma alloc_bulk_ok:
  assumes ok: "pktpool_ok ops pinv pitems pcap A mp mm held" and P: "mm_pools mm mp = Some P"
    and n: "0 < cnt" "unat cnt \<le> length mbufs"
  shows "\<exists>rc ms mm'. rte_pktmbuf_alloc_bulk lcore mp mbufs cnt mm = Some (rc, ms, mm') \<and> pool_moved mp mm mm' \<and> length ms = length mbufs \<and>
     (if rc = 0 then distinct (take (unat cnt) ms) \<and> set (take (unat cnt) ms) \<subseteq> A - held \<and>
        pktpool_ok ops pinv pitems pcap A mp mm' (held \<union> set (take (unat cnt) ms)) \<and>
        (\<forall>m \<in> set (take (unat cnt) ms). pkt_ok mm' m [m] \<and> pkt_bytes mm' [m] = [] \<and>
           (\<exists>M. mm_mbufs mm' m = Some (rte_pktmbuf_reset M) \<and> free_mbuf (mm_bufs mm') P mp m (rte_pktmbuf_reset M))) \<and>
        (\<forall>s. s \<notin> set (take (unat cnt) ms) \<longrightarrow> mm_mbufs mm' s = mm_mbufs mm s)
      else rc < 0 \<and> ms = mbufs \<and> length (pitems (mp_data (pl_mp P))) < unat cnt \<and> mm_mbufs mm' = mm_mbufs mm \<and>
        pktpool_ok ops pinv pitems pcap A mp mm' held)"
proof -
  have pk: "finite A" "held \<subseteq> A" "pl_ops P = ops" "pool_ok pinv pitems pcap (mset_set A) (pl_mp P) (mset_set held)"
    "\<forall>m \<in> A - held. \<exists>M. mm_mbufs mm m = Some M \<and> free_mbuf (mm_bufs mm) P mp m M"
    using ok P by (auto simp: pktpool_ok_def)
  obtain rc ms p where g: "rte_mempool_get_bulk ops lcore (pl_mp P) mbufs cnt = Some (rc, ms, p)" "length ms = length mbufs"
      "if rc = 0 then pool_ok pinv pitems pcap (mset_set A) p (mset_set held + mset (take (unat cnt) ms))
       else rc < 0 \<and> ms = mbufs \<and> length (pitems (mp_data (pl_mp P))) < unat cnt \<and> pool_ok pinv pitems pcap (mset_set A) p (mset_set held)"
    using get_bulk_ok [OF pk(4) n] by metis
  let ?mm = "mm\<lparr>mm_pools := (mm_pools mm)(mp \<mapsto> P\<lparr>pl_mp := p\<rparr>)\<rparr>"
  show ?thesis
  proof (cases "rc = 0")
    case False
    then have "pktpool_ok ops pinv pitems pcap A mp ?mm held" using g(3) pk P by (simp add: pktpool_ok_def)
    moreover have "rte_pktmbuf_alloc_bulk lcore mp mbufs cnt mm = Some (rc, ms, ?mm)"
      using False g(1) P pk(3) by (simp add: rte_pktmbuf_alloc_bulk_def)
    moreover have "pool_moved mp mm ?mm" using P by (auto simp: pool_moved_def)
    ultimately show ?thesis using False g by (intro exI [of _ rc] exI [of _ ms] exI [of _ ?mm]) simp
  next
    case True
    let ?xs = "take (unat cnt) ms"
    have po: "pool_ok pinv pitems pcap (mset_set A) p (mset_set held + mset ?xs)" using g(3) True by simp
    note h = held_more_list [OF po pk(1,2)]
    have free: "\<exists>M. mm_mbufs mm m = Some M \<and> free_mbuf (mm_bufs mm) P mp m M" if "m \<in> set ?xs" for m
      using pk(5) h(2) that by blast
    have "\<forall>i < unat cnt. mm_mbufs ?mm (ms ! i) \<noteq> None"
    proof (intro allI impI)
      fix i assume i: "i < unat cnt"
      then have "ms ! i \<in> set ?xs" using n(2) g(2) by (metis length_take min.absorb2 nth_mem nth_take)
      then show "mm_mbufs ?mm (ms ! i) \<noteq> None" using free by fastforce
    qed
    then have r: "do { (idx, mm) \<leftarrow> reset_mbufs (unat (cnt mod 4)) ms 0 ?mm; reset_loop ms cnt idx mm } = Some (reset_set (set ?xs) ?mm)"
      using n(2) g(2) by (intro reset_bulk) simp_all
    let ?mm2 = "reset_set (set ?xs) ?mm"
    have run: "rte_pktmbuf_alloc_bulk lcore mp mbufs cnt mm = Some (0, ms, ?mm2)"
      using True g(1) P pk(3) r by (auto simp: rte_pktmbuf_alloc_bulk_def bind_eq_Some_conv)
    have each: "pkt_ok ?mm2 m [m] \<and> pkt_bytes ?mm2 [m] = [] \<and> (\<exists>M. mm_mbufs ?mm2 m = Some (rte_pktmbuf_reset M) \<and> free_mbuf (mm_bufs ?mm2) P mp m (rte_pktmbuf_reset M))"
      if "m \<in> set ?xs" for m
    proof -
      note mx = that
      obtain M where M: "mm_mbufs mm m = Some M" "free_mbuf (mm_bufs mm) P mp m M" using free [OF mx] by blast
      have "mm_mbufs ?mm2 m = Some (rte_pktmbuf_reset M)" using M(1) mx by (simp add: reset_set_def)
      moreover have "own_buf (mm_bufs ?mm2) P m M" using M(2) by (simp add: free_mbuf_def)
      ultimately show ?thesis using reset_empty_packet [of ?mm2 m M P] M(2) by (auto simp: free_mbuf_def)
    qed
    have others: "mm_mbufs ?mm2 s = mm_mbufs mm s" if "s \<notin> set ?xs" for s using that by (simp add: reset_set_def)
    have "\<forall>m \<in> A - (held \<union> set ?xs). \<exists>M. mm_mbufs ?mm2 m = Some M \<and> free_mbuf (mm_bufs ?mm2) (P\<lparr>pl_mp := p\<rparr>) mp m M"
      using pk(5) others by auto
    then have "pktpool_ok ops pinv pitems pcap A mp ?mm2 (held \<union> set ?xs)"
      using pk h po by (auto simp: pktpool_ok_def)
    moreover have "pool_moved mp mm ?mm2" using P by (auto simp: pool_moved_def)
    ultimately show ?thesis using run h(1,2) each others g(2)
      by (intro exI [of _ 0] exI [of _ ms] exI [of _ ?mm2]) simp
  qed
qed

end

section \<open>Linearizing\<close>

lemma pktpool_bufs:
  assumes "pktpool_ok ops pinv pitems pcap A mp mm held" "\<And>a. map_option length (h a) = map_option length (mm_bufs mm a)"
  shows "pktpool_ok ops pinv pitems pcap A mp (mm\<lparr>mm_bufs := h\<rparr>) held"
  using assms by (simp add: pktpool_ok_def free_mbuf_def own_buf_def)

lemma bytes_put_spec:
  assumes "h a = Some xs" "i + length bs \<le> length xs"
  shows "bytes_put h (a, i) bs = Some (h(a \<mapsto> take i xs @ bs @ drop (i + length bs) xs))"
  using assms by (simp add: bytes_put_def)

definition mine_elsewhere :: "'p mbuf_mem \<Rightarrow> 'p mbuf_pool \<Rightarrow> nat \<Rightarrow> nat \<Rightarrow> maddr \<Rightarrow> bool" where
  "mine_elsewhere mm P mp a s \<longleftrightarrow> (case mm_mbufs mm s of None \<Rightarrow> False
     | Some M \<Rightarrow> seg_mine (mm_bufs mm) P mp s M \<and> buf_ok (mm_bufs mm) M \<and> mb_buf_addr M \<noteq> a)"

lemma mine_elsewhere_cong:
  assumes "mm_mbufs mm' s = mm_mbufs mm s" "\<And>b. b \<noteq> a \<Longrightarrow> mm_bufs mm' b = mm_bufs mm b"
    "rte_pktmbuf_priv_size P' = rte_pktmbuf_priv_size P" "rte_pktmbuf_data_room_size P' = rte_pktmbuf_data_room_size P"
    "mine_elsewhere mm P mp a s"
  shows "mine_elsewhere mm' P' mp a s" "seg_data mm' s = seg_data mm s"
proof -
  obtain M where M: "mm_mbufs mm s = Some M" "seg_mine (mm_bufs mm) P mp s M" "buf_ok (mm_bufs mm) M" "mb_buf_addr M \<noteq> a"
    using assms(5) by (auto simp: mine_elsewhere_def split: option.splits)
  note b = assms(2) [OF M(4)]
  show "mine_elsewhere mm' P' mp a s"
    using M assms(1,3,4) b by (simp add: mine_elsewhere_def seg_mine_def own_buf_def buf_ok_def rte_mbuf_buf_addr_def)
  show "seg_data mm' s = seg_data mm s" using M(1) assms(1) b by (simp add: seg_data_def buf_data_def)
qed

lemma linearized_data:
  assumes "buf_ok h H" "h (mb_buf_addr H) = Some xs" "unat (mb_data_off H) + unat (mb_data_len H) + length bs \<le> unat (mb_buf_len H)"
    "unat d = unat (mb_data_len H) + length bs"
    "h' = h(mb_buf_addr H \<mapsto> take (unat (mb_data_off H) + unat (mb_data_len H)) xs @ bs @
             drop (unat (mb_data_off H) + unat (mb_data_len H) + length bs) xs)"
  shows "buf_ok h' (H\<lparr>mb_data_len := d, mb_next := None, mb_nb_segs := 1\<rparr>)"
    "buf_data h' (H\<lparr>mb_data_len := d, mb_next := None, mb_nb_segs := 1\<rparr>) = buf_data h H @ bs"
proof -
  have xs: "length xs = unat (mb_buf_len H)" using assms(1,2) by (simp add: buf_ok_def)
  then show "buf_ok h' (H\<lparr>mb_data_len := d, mb_next := None, mb_nb_segs := 1\<rparr>)" using assms by (simp add: buf_ok_def)
  show "buf_data h' (H\<lparr>mb_data_len := d, mb_next := None, mb_nb_segs := 1\<rparr>) = buf_data h H @ bs"
    using assms xs by (simp add: buf_data_def drop_take)
qed

context mbuf_driver
begin

lemma linearize_loop_ok:
  assumes "pktpool_ok ops pinv pitems pcap A mp mm held" "mm_pools mm mp = Some P" "seg_chain mm p ss" "distinct ss"
    "\<forall>s \<in> set ss. s \<in> held \<and> mine_elsewhere mm P mp a s"
    "mm_bufs mm a = Some xs" "i + length (pkt_bytes mm ss) \<le> length xs"
  shows "\<exists>mm'. linearize_loop lcore p (a, i) mm = Some mm' \<and>
     mm_bufs mm' = (mm_bufs mm)(a \<mapsto> take i xs @ pkt_bytes mm ss @ drop (i + length (pkt_bytes mm ss)) xs) \<and>
     pktpool_ok ops pinv pitems pcap A mp mm' (held - {s \<in> set ss. map_option mb_refcnt (mm_mbufs mm s) = Some 1}) \<and>
     (\<forall>s. s \<notin> set ss \<longrightarrow> mm_mbufs mm' s = mm_mbufs mm s)"
  using assms
proof (induction ss arbitrary: p mm held P xs i)
  case Nil
  then show ?case by (subst linearize_loop.simps) (auto simp: fun_upd_idem)
next
  case (Cons s ss)
  obtain M where M: "p = Some s" "mm_mbufs mm s = Some M" "seg_chain mm (mb_next M) ss"
    using Cons.prems(3) by (auto split: option.splits)
  have s: "s \<in> held" "seg_mine (mm_bufs mm) P mp s M" "buf_ok (mm_bufs mm) M" "mb_buf_addr M \<noteq> a"
    using Cons.prems(5) M(2) by (auto simp: mine_elsewhere_def)
  let ?n = "unat (mb_data_len M)"
  have sd: "seg_data mm s = buf_data (mm_bufs mm) M" "length (seg_data mm s) = ?n"
    using M(2) buf_data_length [OF s(3)] by (simp_all add: seg_data_def)
  have rd: "bytes_at (mm_bufs mm) (rte_pktmbuf_mtod_offset M 0) ?n = Some (seg_data mm s)"
    using bytes_at_seg [OF s(3), of 0 ?n] buf_data_length [OF s(3)] sd(1) by simp
  let ?xs = "take i xs @ seg_data mm s @ drop (i + ?n) xs"
  have len: "length ?xs = length xs" using Cons.prems(7) sd(2) by simp
  let ?h = "(mm_bufs mm)(a \<mapsto> ?xs)"
  let ?m1 = "mm\<lparr>mm_bufs := ?h\<rparr>"
  have put: "bytes_put (mm_bufs mm) (a, i) (seg_data mm s) = Some ?h"
    using bytes_put_spec [where h = "mm_bufs mm", OF Cons.prems(6), of i "seg_data mm s"] Cons.prems(7) sd(2) by simp
  have ok1: "pktpool_ok ops pinv pitems pcap A mp ?m1 held"
    by (rule pktpool_bufs [OF Cons.prems(1)]) (use Cons.prems(6) len in simp)
  have "mine_elsewhere ?m1 P mp a s" by (rule mine_elsewhere_cong(1) [where mm = mm]) (use Cons.prems(5) in auto)
  then have "seg_mine (mm_bufs ?m1) P mp s M" using M(2) by (simp add: mine_elsewhere_def)
  then obtain m2 where f: "rte_pktmbuf_free_seg lcore s ?m1 = Some m2" "pool_moved mp ?m1 m2"
      "pktpool_ok ops pinv pitems pcap A mp m2 (if mb_refcnt M = 1 then held - {s} else held)"
      "\<And>t. t \<noteq> s \<Longrightarrow> mm_mbufs m2 t = mm_mbufs mm t"
    using free_seg_ok [OF ok1, of P s M lcore] Cons.prems(2) s(1) M(2) by auto
  obtain P2 where P2: "mm_pools m2 mp = Some P2" "rte_pktmbuf_priv_size P2 = rte_pktmbuf_priv_size P"
      "rte_pktmbuf_data_room_size P2 = rte_pktmbuf_data_room_size P"
    using f(2) Cons.prems(2) by (auto simp: pool_moved_def rte_pktmbuf_priv_size_def rte_pktmbuf_data_room_size_def)
  have h2: "mm_bufs m2 = ?h" using f(2) by (simp add: pool_moved_def)
  have ns: "s \<notin> set ss" "distinct ss" using Cons.prems(4) by simp_all
  have same: "mm_mbufs m2 t = mm_mbufs mm t" if "t \<in> set ss" for t by (rule f(4)) (use ns that in blast)
  have else2: "mine_elsewhere m2 P2 mp a t" "seg_data m2 t = seg_data mm t" if "t \<in> set ss" for t
    using mine_elsewhere_cong [OF same [OF that], of a P2 P mp] h2 P2(2,3) Cons.prems(5) that by auto
  have c2: "seg_chain m2 (mb_next M) ss" using M(3) seg_chain_cong [of ss m2 mm] same by simp
  have b2: "pkt_bytes m2 ss = pkt_bytes mm ss" by (rule pkt_bytes_cong) (rule else2)
  let ?held = "if mb_refcnt M = 1 then held - {s} else held"
  have mine2: "\<forall>t \<in> set ss. t \<in> ?held \<and> mine_elsewhere m2 P2 mp a t" using Cons.prems(5) else2 ns(1) by auto
  have room: "i + ?n + length (pkt_bytes m2 ss) \<le> length ?xs" using Cons.prems(7) len b2 sd(2) by simp
  have a2: "mm_bufs m2 a = Some ?xs" by (simp add: h2)
  obtain m3 where r: "linearize_loop lcore (mb_next M) (a, i + ?n) m2 = Some m3"
      "mm_bufs m3 = (mm_bufs m2)(a \<mapsto> take (i + ?n) ?xs @ pkt_bytes m2 ss @ drop (i + ?n + length (pkt_bytes m2 ss)) ?xs)"
      "pktpool_ok ops pinv pitems pcap A mp m3 (?held - {t \<in> set ss. map_option mb_refcnt (mm_mbufs m2 t) = Some 1})"
      "\<forall>t. t \<notin> set ss \<longrightarrow> mm_mbufs m3 t = mm_mbufs m2 t"
    using Cons.IH [OF f(3) P2(1) c2 ns(2) mine2 a2 room] by blast
  have "{t \<in> set ss. map_option mb_refcnt (mm_mbufs m2 t) = Some 1} = {t \<in> set ss. map_option mb_refcnt (mm_mbufs mm t) = Some 1}"
    using same by auto
  then have held: "?held - {t \<in> set ss. map_option mb_refcnt (mm_mbufs m2 t) = Some 1} =
      held - {t \<in> set (s # ss). map_option mb_refcnt (mm_mbufs mm t) = Some 1}"
    using M(2) by auto
  have il: "i + ?n \<le> length xs" using Cons.prems(7) sd(2) by simp
  have "take (i + ?n) ?xs = take i xs @ seg_data mm s" using il sd(2) by simp
  moreover have "drop (i + ?n + length (pkt_bytes mm ss)) ?xs = drop (i + length (pkt_bytes mm (s # ss))) xs"
    using il sd(2) by (simp add: add.commute add.left_commute)
  ultimately have h3: "mm_bufs m3 = (mm_bufs mm)(a \<mapsto> take i xs @ pkt_bytes mm (s # ss) @ drop (i + length (pkt_bytes mm (s # ss))) xs)"
    using r(2) h2 b2 by simp
  have "linearize_loop lcore p (a, i) mm = Some m3" using M(1,2) rd put f(1) r(1) by (subst linearize_loop.simps) simp
  then show ?case using h3 r(3,4) held f(4) by (intro exI [of _ m3]) simp
qed

lemma linearize_ok:
  assumes ok: "pkt_ok mm m (m # rest)" and H: "mm_mbufs mm m = Some H"
    and pool: "pktpool_ok ops pinv pitems pcap A mp mm held" "mm_pools mm mp = Some P"
    and mine: "\<forall>s \<in> set (m # rest). s \<in> held \<and> (\<exists>M. mm_mbufs mm s = Some M \<and> seg_mine (mm_bufs mm) P mp s M)"
    and ne: "rest \<noteq> []" and fits: "unat (mb_data_off H) + length (pkt_bytes mm (m # rest)) \<le> unat (mb_buf_len H)"
  shows "\<exists>mm'. rte_pktmbuf_linearize lcore m mm = Some (0, mm') \<and> pkt_ok mm' m [m] \<and> pkt_bytes mm' [m] = pkt_bytes mm (m # rest) \<and>
     pktpool_ok ops pinv pitems pcap A mp mm' (held - {s \<in> set rest. map_option mb_refcnt (mm_mbufs mm s) = Some 1})"
proof -
  note f = pkt_front [OF ok H]
  obtain xs where xs: "mm_bufs mm (mb_buf_addr H) = Some xs" "length xs = unat (mb_buf_len H)" using f(1) by (auto simp: buf_ok_def)
  let ?bs = "pkt_bytes mm rest"
  let ?i = "unat (mb_data_off H) + unat (mb_data_len H)"
  have tot: "length (pkt_bytes mm (m # rest)) = unat (mb_data_len H) + length ?bs" using f(4) buf_data_length [OF f(1)] by simp
  have d: "unat (ucast (mb_pkt_len H) :: u16) = unat (mb_data_len H) + length ?bs"
  proof -
    have "unat (mb_pkt_len H) < 2 ^ 16" using f(2) fits tot unat_lt2p [of "mb_buf_len H"] by simp
    then show ?thesis using f(2) by (simp add: unsigned_ucast_eq take_bit_eq_mod)
  qed
  have seg: "m \<notin> set rest" "distinct rest" "seg_chain mm (mb_next H) rest" "unat (mb_nb_segs H) = Suc (length rest)"
    using ok H by (auto simp: pkt_ok_def)
  have cont: "\<not> rte_pktmbuf_is_contiguous H"
  proof
    assume "rte_pktmbuf_is_contiguous H"
    then have "unat (mb_nb_segs H) = 1" by (simp add: rte_pktmbuf_is_contiguous_def)
    then show False using seg(4) ne by (cases rest) auto
  qed
  have "unat (mb_pkt_len H - ucast (mb_data_len H)) = length ?bs" using f(2) by (simp add: unat_sub_le word_le_nat_alt)
  then have small: "\<not> mb_pkt_len H - ucast (mb_data_len H) > ucast (rte_pktmbuf_tailroom H)"
    using fits tot tailroom_spec [OF f(1)] by (simp add: word_less_nat_alt)
  let ?H = "H\<lparr>mb_data_len := ucast (mb_pkt_len H)\<rparr>"
  let ?m1 = "mm\<lparr>mm_mbufs := (mm_mbufs mm)(m \<mapsto> ?H)\<rparr>"
  have own: "own_buf (mm_bufs mm) P m H" "m \<in> held" using mine H by (auto simp: seg_mine_def)
  have s1: "mm_mbufs ?m1 s = mm_mbufs mm s" if "s \<in> set rest" for s using that seg(1) by auto
  have okr: "list_all (seg_ok mm) rest" using ok by (simp add: pkt_ok_def)
  have else1: "\<forall>s \<in> set rest. s \<in> held \<and> mine_elsewhere ?m1 P mp (mb_buf_addr H) s"
  proof
    fix s assume s: "s \<in> set rest"
    obtain M where M: "mm_mbufs mm s = Some M" "seg_mine (mm_bufs mm) P mp s M" "s \<in> held" using mine s by auto
    have "s \<noteq> m" using s seg(1) by blast
    then have "mb_buf_addr M \<noteq> mb_buf_addr H" using M(2) own(1) by (simp add: seg_mine_def own_buf_def rte_mbuf_buf_addr_def)
    moreover have "buf_ok (mm_bufs mm) M" using okr s M(1) by (auto simp: list_all_iff seg_ok_def)
    ultimately show "s \<in> held \<and> mine_elsewhere ?m1 P mp (mb_buf_addr H) s" using M s1 [OF s] by (simp add: mine_elsewhere_def)
  qed
  have "seg_chain ?m1 (mb_next H) rest = seg_chain mm (mb_next H) rest" by (rule seg_chain_cong) (simp only: s1)
  then have c1: "seg_chain ?m1 (mb_next H) rest" using seg(3) by simp
  have b1: "pkt_bytes ?m1 rest = ?bs" by (rule pkt_bytes_cong, rule seg_same_eq [THEN conjunct1], rule s1) simp_all
  have room: "?i + length (pkt_bytes ?m1 rest) \<le> length xs" using fits tot xs(2) b1 by simp
  have p1: "mm_pools ?m1 mp = Some P" "mm_bufs ?m1 (mb_buf_addr H) = Some xs" using pool(2) xs(1) by simp_all
  obtain m2 where r: "linearize_loop lcore (mb_next H) (mb_buf_addr H, ?i) ?m1 = Some m2"
      "mm_bufs m2 = (mm_bufs ?m1)(mb_buf_addr H \<mapsto> take ?i xs @ pkt_bytes ?m1 rest @ drop (?i + length (pkt_bytes ?m1 rest)) xs)"
      "pktpool_ok ops pinv pitems pcap A mp m2 (held - {s \<in> set rest. map_option mb_refcnt (mm_mbufs ?m1 s) = Some 1})"
      "\<forall>s. s \<notin> set rest \<longrightarrow> mm_mbufs m2 s = mm_mbufs ?m1 s"
    using linearize_loop_ok [OF pktpool_write [OF pool(1) own(2)] p1(1) c1 seg(2) else1 p1(2) room] by blast
  have S: "{s \<in> set rest. map_option mb_refcnt (mm_mbufs ?m1 s) = Some 1} = {s \<in> set rest. map_option mb_refcnt (mm_mbufs mm s) = Some 1}"
    using seg(1) by auto
  have m2: "mm_mbufs m2 m = Some ?H" using r(4) seg(1) by simp
  let ?H3 = "H\<lparr>mb_data_len := ucast (mb_pkt_len H), mb_next := None, mb_nb_segs := 1\<rparr>"
  let ?m3 = "m2\<lparr>mm_mbufs := (mm_mbufs m2)(m \<mapsto> ?H3)\<rparr>"
  have run: "rte_pktmbuf_linearize lcore m mm = Some (0, ?m3)"
    using H cont small r(1) m2 by (simp add: rte_pktmbuf_linearize_def rte_pktmbuf_mtod_offset_def)
  have sum: "?i + length ?bs \<le> unat (mb_buf_len H)" using fits tot by simp
  have h3: "mm_bufs m2 = (mm_bufs mm)(mb_buf_addr H \<mapsto> take ?i xs @ ?bs @ drop (?i + length ?bs) xs)" using r(2) b1 by simp
  note ld = linearized_data [OF f(1) xs(1) sum d h3]
  have bytes: "pkt_bytes ?m3 [m] = pkt_bytes mm (m # rest)" using ld(2) f(4) by (simp add: seg_data_def)
  have "length (pkt_bytes ?m3 [m]) = unat (mb_pkt_len ?H3)" unfolding bytes using f(2) tot by simp
  then have "pkt_ok ?m3 m [m]" using ld(1) by (simp add: pkt_ok_def seg_ok_def)
  moreover have "pktpool_ok ops pinv pitems pcap A mp ?m3 (held - {s \<in> set rest. map_option mb_refcnt (mm_mbufs mm s) = Some 1})"
    using r(3) S own(2) seg(1) by (intro pktpool_write) auto
  ultimately show ?thesis using run bytes by blast
qed

end

interpretation pkt: mbuf_driver "ring_ops_of_flags flags" data_wf data_items data_cap for flags
  by (simp add: mbuf_driver_def of_flags.bulk_pool_axioms)

section \<open>Properties\<close>

abbreviation ring_pktpool_ok :: "u32 \<Rightarrow> maddr set \<Rightarrow> nat \<Rightarrow> (nat rte_ring option) mbuf_mem \<Rightarrow> maddr set \<Rightarrow> bool" where
  "ring_pktpool_ok flags \<equiv> pktpool_ok (ring_ops_of_flags flags) data_wf data_items data_cap"

text \<open>
  C11: Bulk allocation. \<open>rte_pktmbuf_alloc_bulk\<close> gives \<open>count\<close> different mbufs that nobody else holds, each reset to an empty packet,
  its loop entered at the right place for every count; or, with an error, none, and then every mbuf is as before. It fails only when the
  driver has fewer than \<open>count\<close>.
\<close>

theorem packet_alloc_bulk:
  assumes ok: "ring_pktpool_ok flags A mp mm held" and P: "mm_pools mm mp = Some P"
    and n: "0 < cnt" "unat cnt \<le> length mbufs"
  shows "\<exists>rc ms mm'. rte_pktmbuf_alloc_bulk lcore mp mbufs cnt mm = Some (rc, ms, mm') \<and>
     (if rc = 0 then distinct (take (unat cnt) ms) \<and> set (take (unat cnt) ms) \<subseteq> A - held \<and>
        ring_pktpool_ok flags A mp mm' (held \<union> set (take (unat cnt) ms)) \<and>
        (\<forall>m \<in> set (take (unat cnt) ms). pkt_ok mm' m [m] \<and> pkt_bytes mm' [m] = []) \<and>
        (\<forall>s. s \<notin> set (take (unat cnt) ms) \<longrightarrow> mm_mbufs mm' s = mm_mbufs mm s)
      else rc < 0 \<and> ms = mbufs \<and> length (data_items (mp_data (pl_mp P))) < unat cnt \<and> mm_mbufs mm' = mm_mbufs mm \<and>
        ring_pktpool_ok flags A mp mm' held)"
proof -
  obtain rc ms mm' where "rte_pktmbuf_alloc_bulk lcore mp mbufs cnt mm = Some (rc, ms, mm')"
     "if rc = 0 then distinct (take (unat cnt) ms) \<and> set (take (unat cnt) ms) \<subseteq> A - held \<and>
        ring_pktpool_ok flags A mp mm' (held \<union> set (take (unat cnt) ms)) \<and>
        (\<forall>m \<in> set (take (unat cnt) ms). pkt_ok mm' m [m] \<and> pkt_bytes mm' [m] = [] \<and>
           (\<exists>M. mm_mbufs mm' m = Some (rte_pktmbuf_reset M) \<and> free_mbuf (mm_bufs mm') P mp m (rte_pktmbuf_reset M))) \<and>
        (\<forall>s. s \<notin> set (take (unat cnt) ms) \<longrightarrow> mm_mbufs mm' s = mm_mbufs mm s)
      else rc < 0 \<and> ms = mbufs \<and> length (data_items (mp_data (pl_mp P))) < unat cnt \<and> mm_mbufs mm' = mm_mbufs mm \<and>
        ring_pktpool_ok flags A mp mm' held"
    using pkt.alloc_bulk_ok [OF ok P n, of lcore] by blast
  then show ?thesis by (cases "rc = 0") auto
qed

text \<open>
  C9: Freeing a packet. Of a packet whose segments are held, \<open>rte_pktmbuf_free\<close> puts exactly those back into the pool, once each, that
  have no other reference, ready to be handed out again; of the others it lowers the count by one, and it touches no other mbuf.
\<close>

theorem packet_free:
  assumes "ring_pktpool_ok flags A mp mm held" "mm_pools mm mp = Some P" "pkt_ok mm m ss"
    "\<forall>s \<in> set ss. s \<in> held \<and> (\<exists>M. mm_mbufs mm s = Some M \<and> seg_mine (mm_bufs mm) P mp s M)"
  shows "\<exists>mm'. rte_pktmbuf_free lcore (Some m) mm = Some mm' \<and>
     ring_pktpool_ok flags A mp mm' (held - {s \<in> set ss. map_option mb_refcnt (mm_mbufs mm s) = Some 1}) \<and>
     (\<forall>s. s \<notin> set ss \<longrightarrow> mm_mbufs mm' s = mm_mbufs mm s) \<and>
     (\<forall>s \<in> set ss. \<forall>M. mm_mbufs mm s = Some M \<longrightarrow> mb_refcnt M \<noteq> 1 \<longrightarrow>
        mm_mbufs mm' s = Some (M\<lparr>mb_refcnt := mb_refcnt M - 1\<rparr>))"
proof -
  have c: "seg_chain mm (Some m) ss" "distinct ss" using assms(3) by (simp_all add: pkt_ok_def)
  show ?thesis using pkt.pktmbuf_free_ok [OF assms(1,2) c assms(4), of lcore] by blast
qed

text \<open>
  C10: Linearizing a packet. It succeeds exactly when the packet is one segment or the first buffer has room behind its data for the
  other segments' bytes; then the packet has the same bytes in one segment, and the other segments are freed. Otherwise nothing changes.
\<close>

theorem packet_linearize:
  assumes "ring_pktpool_ok flags A mp mm held" "mm_pools mm mp = Some P" "pkt_ok mm m ss" "mm_mbufs mm m = Some H"
    "\<forall>s \<in> set ss. s \<in> held \<and> (\<exists>M. mm_mbufs mm s = Some M \<and> seg_mine (mm_bufs mm) P mp s M)"
  shows "if length ss = 1 then rte_pktmbuf_linearize lcore m mm = Some (0, mm)
     else if unat (mb_data_off H) + length (pkt_bytes mm ss) \<le> unat (mb_buf_len H)
     then \<exists>mm'. rte_pktmbuf_linearize lcore m mm = Some (0, mm') \<and> pkt_ok mm' m [m] \<and> pkt_bytes mm' [m] = pkt_bytes mm ss \<and>
       ring_pktpool_ok flags A mp mm' (held - {s \<in> set (tl ss). map_option mb_refcnt (mm_mbufs mm s) = Some 1})
     else rte_pktmbuf_linearize lcore m mm = Some (- 1, mm)"
proof -
  obtain rest where ss: "ss = m # rest" using pkt_head [OF assms(3)] by metis
  note ok = assms(3) [unfolded ss]
  note f = pkt_front [OF ok assms(4)]
  have nb: "unat (mb_nb_segs H) = Suc (length rest)" using ok assms(4) by (simp add: pkt_ok_def)
  have cont: "rte_pktmbuf_is_contiguous H \<longleftrightarrow> rest = []"
    using nb by (simp add: rte_pktmbuf_is_contiguous_def word_unat_eq_iff)
  show ?thesis
  proof (cases "rest = []")
    case True
    then show ?thesis using ss assms(4) cont by (simp add: rte_pktmbuf_linearize_def)
  next
    case ne: False
    then have l: "\<not> length ss = 1" using ss by simp
    show ?thesis
    proof (cases "unat (mb_data_off H) + length (pkt_bytes mm ss) \<le> unat (mb_buf_len H)")
      case True
      show ?thesis unfolding if_not_P [OF l] if_P [OF True]
        using pkt.linearize_ok [OF ok assms(4,1,2) assms(5) [unfolded ss] ne True [unfolded ss], of lcore] by (simp add: ss)
    next
      case False
      have "unat (mb_pkt_len H - ucast (mb_data_len H)) = length (pkt_bytes mm rest)" using f(2) by (simp add: unat_sub_le word_le_nat_alt)
      moreover have "length (pkt_bytes mm ss) = unat (mb_data_len H) + length (pkt_bytes mm rest)"
        using f(4) ss buf_data_length [OF f(1)] by simp
      moreover have "unat (mb_data_off H) + unat (mb_data_len H) \<le> unat (mb_buf_len H)" using f(1) by (simp add: buf_ok_def)
      ultimately have "mb_pkt_len H - ucast (mb_data_len H) > ucast (rte_pktmbuf_tailroom H)"
        using False tailroom_spec [OF f(1)] by (simp add: word_less_nat_alt)
      then show ?thesis unfolding if_not_P [OF l] if_not_P [OF False] using assms(4) cont ne by (simp add: rte_pktmbuf_linearize_def)
    qed
  qed
qed

text \<open>A pool of three mbufs: two hold the packet of five bytes, one is in the ring.\<close>

definition pktpool_sample :: "(nat rte_ring option) mbuf_pool" where
  "pktpool_sample =
     \<lparr>pl_ops = ring_ops_of_flags 0,
      pl_mp = \<lparr>mp_size = 3, mp_cache_size = 0, mp_flags = 0, mp_header_size = 64, mp_elt_size = 192, mp_trailer_size = 0,
        mp_populated_size = 3, mp_elts = [(3000, 3000), (4000, 4000), (5000, 5000)], mp_mems = [],
        mp_data = Some (ring_sample\<lparr>r_tbl := [0, 0, 5000, 0]\<rparr>), mp_caches = []\<rparr>,
      pl_priv = \<lparr>mbuf_data_room_size = 8, mbuf_priv_size = 0\<rparr>\<rparr>"

definition pktmem_sample :: "(nat rte_ring option) mbuf_mem" where
  "pktmem_sample =
     \<lparr>mm_mbufs = [3000 \<mapsto> mbuf_at 3128 2 3 (Some 4000) 2 5, 4000 \<mapsto> mbuf_at 4128 2 2 None 1 2, 5000 \<mapsto> mbuf_at 5128 8 0 None 1 0],
      mm_bufs = [3128 \<mapsto> [0, 0, 10, 11, 12, 0, 0, 0], 4128 \<mapsto> [0, 0, 13, 14, 21, 22, 23, 24], 5128 \<mapsto> [0, 0, 0, 0, 0, 0, 0, 0]],
      mm_shinfos = Map.empty, mm_pools = [7 \<mapsto> pktpool_sample], mm_freed = []\<rparr>"

lemma pktmem_sample_ok:
  "ring_pktpool_ok 0 {3000, 4000, 5000} 7 pktmem_sample {3000, 4000}" "pkt_ok pktmem_sample 3000 [3000, 4000]"
  "\<forall>s \<in> set [3000, 4000]. s \<in> {3000, 4000} \<and>
     (\<exists>M. mm_mbufs pktmem_sample s = Some M \<and> seg_mine (mm_bufs pktmem_sample) pktpool_sample 7 s M)"
proof -
  have own: "own_buf (mm_bufs pktmem_sample) pktpool_sample 5000 (mbuf_at 5128 8 0 None 1 0)"
    "own_buf (mm_bufs pktmem_sample) pktpool_sample 3000 (mbuf_at 3128 2 3 (Some 4000) 2 5)"
    "own_buf (mm_bufs pktmem_sample) pktpool_sample 4000 (mbuf_at 4128 2 2 None 1 2)"
    by (simp_all add: own_buf_def pktmem_sample_def pktpool_sample_def mbuf_at_def RTE_MBUF_DIRECT_def rte_mbuf_buf_addr_def
        rte_pktmbuf_priv_size_def rte_pktmbuf_data_room_size_def sizeof_mbuf_def)
  let ?r = "ring_sample\<lparr>r_tbl := [0, 0, 5000, 0]\<rparr>"
  have "ring_wf ?r" unfolding ring_wf_def
    by (intro conjI exI [of _ 2]) (simp_all add: ring_sample_def ring_len_def)
  moreover have "ring_items ?r = [5000]" by (simp add: ring_sample_def ring_items_def ring_len_def ring_slot_def)
  moreover have "ring_cap ?r = 3" by (simp add: ring_sample_def ring_cap_def)
  ultimately have "ring_pool_ok (mset_set {3000, 4000, 5000}) (pl_mp pktpool_sample) (mset_set {3000, 4000})"
    by (simp add: pool_ok_def pktpool_sample_def caches_items_def)
  moreover have "{3000, 4000, 5000} - {3000, 4000} = {5000 :: nat}" by auto
  ultimately show "ring_pktpool_ok 0 {3000, 4000, 5000} 7 pktmem_sample {3000, 4000}"
    using own(1) unfolding pktpool_ok_def
    by (intro conjI exI [of _ pktpool_sample]) (simp_all add: pktmem_sample_def pktpool_sample_def free_mbuf_def mbuf_at_def)
  show "pkt_ok pktmem_sample 3000 [3000, 4000]"
    by (simp add: pkt_ok_def seg_ok_def buf_ok_def seg_data_def buf_data_def pktmem_sample_def mbuf_at_def)
  show "\<forall>s \<in> set [3000, 4000]. s \<in> {3000, 4000} \<and>
     (\<exists>M. mm_mbufs pktmem_sample s = Some M \<and> seg_mine (mm_bufs pktmem_sample) pktpool_sample 7 s M)"
    using own(2,3) by (simp add: seg_mine_def pktmem_sample_def mbuf_at_def)
qed

lemma pktmem_sample_pool: "mm_pools pktmem_sample 7 = Some pktpool_sample"
  by (simp add: pktmem_sample_def)

theorem packet_alloc_bulk_witness:
  "\<exists>rc ms mm'. rte_pktmbuf_alloc_bulk 3 7 [0, 0] 1 pktmem_sample = Some (rc, ms, mm') \<and>
     (if rc = 0 then ring_pktpool_ok 0 {3000, 4000, 5000} 7 mm' ({3000, 4000} \<union> set (take 1 ms))
      else ms = [0, 0])"
proof -
  obtain rc ms mm' where "rte_pktmbuf_alloc_bulk 3 7 [0, 0] 1 pktmem_sample = Some (rc, ms, mm')"
      "if rc = 0 then ring_pktpool_ok 0 {3000, 4000, 5000} 7 mm' ({3000, 4000} \<union> set (take 1 ms)) else ms = [0, 0]"
    using packet_alloc_bulk [OF pktmem_sample_ok(1) pktmem_sample_pool, of 1 "[0, 0]" 3]
    by (auto split: if_splits)
  then show ?thesis by blast
qed

theorem packet_free_witness:
  "\<exists>mm'. rte_pktmbuf_free 3 (Some 3000) pktmem_sample = Some mm' \<and> ring_pktpool_ok 0 {3000, 4000, 5000} 7 mm' {}"
proof -
  have "{s \<in> set [3000, 4000]. map_option mb_refcnt (mm_mbufs pktmem_sample s) = Some 1} = {3000, 4000}"
    by (auto simp: pktmem_sample_def mbuf_at_def)
  then show ?thesis
    using packet_free [OF pktmem_sample_ok(1) pktmem_sample_pool pktmem_sample_ok(2,3), of 3] by auto
qed

theorem packet_linearize_witness:
  "\<exists>mm'. rte_pktmbuf_linearize 3 3000 pktmem_sample = Some (0, mm') \<and> pkt_bytes mm' [3000] = [10, 11, 12, 13, 14]"
proof -
  have H: "mm_mbufs pktmem_sample 3000 = Some (mbuf_at 3128 2 3 (Some 4000) 2 5)" by (simp add: pktmem_sample_def)
  have b: "pkt_bytes pktmem_sample [3000, 4000] = [10, 11, 12, 13, 14]"
    by (simp add: seg_data_def buf_data_def pktmem_sample_def mbuf_at_def)
  show ?thesis
    using packet_linearize [OF pktmem_sample_ok(1) pktmem_sample_pool pktmem_sample_ok(2) H pktmem_sample_ok(3), of 3]
    by (auto simp: b mbuf_at_def simp del: pkt_bytes_simps)
qed

end
