(* ===== verification/MempoolSizes.thy ===== *)
theory MempoolSizes
  imports Mempool CommonBits
begin

text \<open>
  The sizes of a pool (\<open>rte_mempool.c\<close>, \<open>rte_mempool_ops_default.c\<close>): the layout of an object
  with its header and trailer, the padding that spreads objects over memory channels, and
  the memory needed for a number of objects. \<open>nchan\<close> and \<open>nrank\<close> are what EAL reports.
\<close>

definition RTE_MEMPOOL_ALIGN :: u32 where "RTE_MEMPOOL_ALIGN = 64"
definition RTE_MEMPOOL_ALIGN_MASK :: u32 where "RTE_MEMPOOL_ALIGN_MASK = RTE_MEMPOOL_ALIGN - 1"
definition MEMPOOL_F_NO_SPREAD :: u32 where "MEMPOOL_F_NO_SPREAD = 1"
definition MEMPOOL_F_NO_CACHE_ALIGN :: u32 where "MEMPOOL_F_NO_CACHE_ALIGN = 2"

section \<open>Operations\<close>

lemma unat_mod_lt: "(b :: u32) \<noteq> 0 \<Longrightarrow> unat (a mod b) < unat b"
  by (simp add: unat_mod_distrib unat_gt_0)

function gcd_loop :: "u32 \<Rightarrow> u32 \<Rightarrow> u32" where
  "gcd_loop a b = (if b \<noteq> 0 then gcd_loop b (a mod b) else a)"
  by auto
termination by (relation "measure (\<lambda>(a, b). unat b)") (auto simp: unat_mod_lt)

declare gcd_loop.simps [simp del]

definition get_gcd :: "u32 \<Rightarrow> u32 \<Rightarrow> u32" where
  "get_gcd a b =
     (if a = 0 then b else if b = 0 then a
      else let (a, b) = (if a < b then (b, a) else (a, b)) in gcd_loop a b)"

text \<open>The loop that looks for a size prime to the number of banks; it might not end.\<close>

partial_function (option) spread_loop :: "u32 \<Rightarrow> u32 \<Rightarrow> u32 option" where
  "spread_loop banks new_obj_size =
     (if get_gcd new_obj_size banks \<noteq> 1 then spread_loop banks (new_obj_size + 1) else Some new_obj_size)"

definition optimize_object_size :: "u32 \<Rightarrow> u32 \<Rightarrow> u32 \<Rightarrow> u32 option" where
  "optimize_object_size nchan nrank obj_size = do {
     let nchan = (if nchan = 0 then 4 else nchan);
     let nrank = (if nrank = 0 then 1 else nrank);
     new_obj_size \<leftarrow> spread_loop (nrank * nchan) ((obj_size + RTE_MEMPOOL_ALIGN_MASK) div RTE_MEMPOOL_ALIGN);
     Some (new_obj_size * RTE_MEMPOOL_ALIGN) }"

record rte_mempool_objsz =
  sz_elt :: u32
  sz_header :: u32
  sz_trailer :: u32
  sz_total :: u32

text \<open>The header is 24 bytes; without debugging there is no trailer to start with.\<close>

definition rte_mempool_calc_obj_size :: "u32 \<Rightarrow> u32 \<Rightarrow> u32 \<Rightarrow> u32 \<Rightarrow> rte_mempool_objsz option" where
  "rte_mempool_calc_obj_size nchan nrank elt_size flags = do {
     let header = (if flags AND MEMPOOL_F_NO_CACHE_ALIGN = 0 then RTE_ALIGN_CEIL 24 RTE_MEMPOOL_ALIGN else 24);
     let trailer = 0;
     let elt = RTE_ALIGN_CEIL elt_size 8;
     let trailer = (if flags AND MEMPOOL_F_NO_CACHE_ALIGN = 0 then
         (let total = header + elt + trailer
          in trailer + ((RTE_MEMPOOL_ALIGN - (total AND RTE_MEMPOOL_ALIGN_MASK)) AND RTE_MEMPOOL_ALIGN_MASK))
       else trailer);
     trailer \<leftarrow> (if flags AND MEMPOOL_F_NO_SPREAD = 0 then
         do { new_size \<leftarrow> optimize_object_size nchan nrank (header + elt + trailer);
              Some (new_size - header - elt) }
       else Some trailer);
     Some \<lparr>sz_elt = elt, sz_header = header, sz_trailer = trailer, sz_total = header + elt + trailer\<rparr> }"

text \<open>Sizes in bytes, the smallest useful chunk and the alignment.\<close>

definition total_elt_sz :: "('o, 'p) mempool \<Rightarrow> u64" where
  "total_elt_sz mp = ucast (mp_header_size mp + mp_elt_size mp + mp_trailer_size mp)"

definition rte_mempool_op_calc_mem_size_default ::
    "('o, 'p) mempool \<Rightarrow> u32 \<Rightarrow> u32 \<Rightarrow> u64 \<times> u64 \<times> u64" where
  "rte_mempool_op_calc_mem_size_default mp obj_num pg_shift =
     (let pg_sz = push_bit (unat pg_shift) 1;
          mem_size =
            (if total_elt_sz mp = 0 then 0
             else if pg_shift = 0 then total_elt_sz mp * ucast obj_num
             else let obj_per_page = pg_sz div total_elt_sz mp
                  in if obj_per_page = 0 then RTE_ALIGN_CEIL (total_elt_sz mp) pg_sz * ucast obj_num
                     else push_bit (unat pg_shift) ((ucast obj_num + obj_per_page - 1) div obj_per_page))
      in (mem_size, max pg_sz (total_elt_sz mp), max 64 pg_sz))"

section \<open>Greatest common divisor\<close>

lemma gcd_loop_spec: "unat (gcd_loop a b) = gcd (unat a) (unat b)"
proof (induction a b rule: gcd_loop.induct)
  case (1 a b)
  show ?case
  proof (cases "b = 0")
    case True
    then show ?thesis by (subst gcd_loop.simps) simp
  next
    case False
    then have "unat (gcd_loop b (a mod b)) = gcd (unat b) (unat a mod unat b)"
      using 1 by (simp add: unat_mod_distrib)
    with False show ?thesis by (subst gcd_loop.simps) (simp add: gcd_red_nat [symmetric] gcd.commute)
  qed
qed

lemma get_gcd_spec: "unat (get_gcd a b) = gcd (unat a) (unat b)"
  by (auto simp: get_gcd_def gcd_loop_spec gcd.commute)

lemma get_gcd_1: "get_gcd a b = 1 \<longleftrightarrow> coprime (unat a) (unat b)"
proof -
  have "get_gcd a b = 1 \<longleftrightarrow> unat (get_gcd a b) = 1" by (metis unat_1 word_unat_eq_iff)
  then show ?thesis by (simp add: get_gcd_spec coprime_iff_gcd_eq_1)
qed

section \<open>Padding\<close>

lemma coprime_in_range:
  fixes s k :: nat
  assumes "0 < k"
  shows "\<exists>d < k. coprime (s + d) k"
proof -
  let ?d = "(k + 1 - s mod k) mod k"
  have "(s + ?d) mod k = (s + (k + 1 - s mod k)) mod k" by (simp add: mod_simps)
  also have "s + (k + 1 - s mod k) = s - s mod k + (k + 1)"
    using assms mod_less_divisor [OF assms, of s] mod_less_eq_dividend [of s k] by linarith
  also have "(s - s mod k + (k + 1)) mod k = (1 + (s div k + 1) * k) mod k"
    by (simp add: minus_mod_eq_div_mult algebra_simps)
  also have "\<dots> = 1 mod k" by (simp only: mod_mult_self1)
  finally have m: "(s + ?d) mod k = 1 mod k" .
  have "gcd (s + ?d) k = gcd k ((s + ?d) mod k)" by (rule gcd_red_nat)
  also have "\<dots> = gcd k (1 mod k)" unfolding m ..
  also have "\<dots> = gcd 1 k" by (rule gcd_red_nat [symmetric])
  also have "\<dots> = 1" by simp
  finally have "coprime (s + ?d) k" by (simp add: coprime_iff_gcd_eq_1)
  with assms show ?thesis by (intro exI [of _ ?d]) simp
qed

lemma spread_loop_reaches:
  "coprime (unat s + d) (unat banks) \<Longrightarrow> unat s + d < 2 ^ 32 \<Longrightarrow>
     \<exists>r. spread_loop banks s = Some r \<and> coprime (unat r) (unat banks) \<and> unat s \<le> unat r \<and> unat r \<le> unat s + d \<and>
         (\<forall>t. unat s \<le> t \<and> t < unat r \<longrightarrow> \<not> coprime t (unat banks))"
proof (induction d arbitrary: s)
  case 0
  then have "spread_loop banks s = Some s" by (subst spread_loop.simps) (simp add: get_gcd_1)
  with 0 show ?case by auto
next
  case (Suc d)
  show ?case
  proof (cases "coprime (unat s) (unat banks)")
    case True
    then have "spread_loop banks s = Some s" by (subst spread_loop.simps) (simp add: get_gcd_1)
    with True show ?thesis by auto
  next
    case False
    have u: "unat (s + 1) = unat s + 1" using Suc.prems(2) by (subst unat_add_no_overflow) auto
    obtain r where r: "spread_loop banks (s + 1) = Some r" "coprime (unat r) (unat banks)" "unat s + 1 \<le> unat r"
      "unat r \<le> unat s + 1 + d" "\<forall>t. unat s + 1 \<le> t \<and> t < unat r \<longrightarrow> \<not> coprime t (unat banks)"
      using Suc.IH [of "s + 1"] Suc.prems u by auto
    have "\<not> coprime t (unat banks)" if "unat s \<le> t" "t < unat r" for t
      using that False r(5) by (cases "t = unat s") auto
    moreover have "spread_loop banks s = Some r"
      using r(1) False by (subst spread_loop.simps) (simp add: get_gcd_1)
    ultimately show ?thesis using r(2-4) by auto
  qed
qed

lemma spread_loop_ends:
  assumes "0 < unat banks" "unat s + unat banks < 2 ^ 32"
  shows "\<exists>r. spread_loop banks s = Some r \<and> coprime (unat r) (unat banks) \<and> unat s \<le> unat r \<and>
     unat r < unat s + unat banks \<and> (\<forall>t. unat s \<le> t \<and> t < unat r \<longrightarrow> \<not> coprime t (unat banks))"
proof -
  obtain d where d: "d < unat banks" "coprime (unat s + d) (unat banks)"
    using coprime_in_range [OF assms(1)] by blast
  then have "unat s + d < 2 ^ 32" using assms(2) by simp
  from spread_loop_reaches [OF d(2) this] d(1) show ?thesis by fastforce
qed

text \<open>The banks as they are counted: 4 channels and 1 rank where EAL does not know.\<close>

definition banks :: "u32 \<Rightarrow> u32 \<Rightarrow> nat" where
  "banks nchan nrank = (if nrank = 0 then 1 else unat nrank) * (if nchan = 0 then 4 else unat nchan)"

lemma optimize_spec:
  assumes "banks nchan nrank < 2 ^ 16" "unat sz < 2 ^ 31"
  shows "\<exists>r. optimize_object_size nchan nrank sz = Some r \<and> unat sz \<le> unat r \<and> 64 dvd unat r \<and>
     coprime (unat r div 64) (banks nchan nrank) \<and> unat r < unat sz + 64 * (banks nchan nrank + 1)"
proof -
  let ?b = "(if nrank = 0 then 1 else nrank) * (if nchan = 0 then 4 else nchan)"
  let ?s = "(sz + RTE_MEMPOOL_ALIGN_MASK) div RTE_MEMPOOL_ALIGN"
  have b: "unat ?b = banks nchan nrank"
    using assms(1) by (subst word_of_nat_unat_mult) (auto simp: banks_def split: if_splits)
  have pos: "0 < banks nchan nrank" by (auto simp: banks_def unat_gt_0)
  have "unat (sz + 63) = unat sz + 63" using assms(2) by (subst unat_add_no_overflow) auto
  then have s: "unat ?s = (unat sz + 63) div 64"
    by (simp add: RTE_MEMPOOL_ALIGN_MASK_def RTE_MEMPOOL_ALIGN_def unat_div_distrib)
  have bnd: "unat ?s + unat ?b < 2 ^ 32" using s b assms by simp
  obtain r where r: "spread_loop ?b ?s = Some r" "coprime (unat r) (unat ?b)" "unat ?s \<le> unat r" "unat r < unat ?s + unat ?b"
    using spread_loop_ends [of ?b ?s] pos b bnd by auto
  have u: "unat (r * 64) = unat r * 64"
    using r(4) s b assms by (subst word_of_nat_unat_mult) auto
  have lo: "(unat sz + 63) div 64 \<le> unat r" using r(3) by (simp only: s)
  have hi: "unat r < (unat sz + 63) div 64 + banks nchan nrank" using r(4) by (simp only: s b)
  have "unat sz \<le> unat r * 64" using lo by linarith
  moreover have "unat r * 64 < unat sz + 64 * (banks nchan nrank + 1)"
    using hi div_times_less_eq_dividend [of "unat sz + 63" 64] unfolding distrib_left by linarith
  moreover have "optimize_object_size nchan nrank sz = Some (r * 64)"
    using r(1) by (simp add: optimize_object_size_def RTE_MEMPOOL_ALIGN_def)
  ultimately show ?thesis using r(2) u b by (intro exI [of _ "r * 64"]) simp
qed

section \<open>Object sizes\<close>

lemma trailer_pad:
  fixes x :: u32
  assumes "unat x < 2 ^ 31"
  shows "unat ((64 - (x AND 63)) AND 63) < 64 \<and> 64 dvd unat x + unat ((64 - (x AND 63)) AND 63)"
proof -
  have m: "unat (y AND 63) = unat y mod 64" for y :: u32
  proof -
    have "y AND 63 = take_bit 6 y" by (simp add: take_bit_eq_mask mask_eq_exp_minus_1)
    then show ?thesis by (simp only: unsigned_take_bit_eq take_bit_nat_def) simp
  qed
  have "x AND 63 \<le> 64" using m [of x] by (simp add: word_le_nat_alt)
  then have "unat (64 - (x AND 63)) = 64 - unat x mod 64" by (simp add: unat_sub_le m)
  then have e: "unat ((64 - (x AND 63)) AND 63) = (64 - unat x mod 64) mod 64" by (simp only: m)
  have "(unat x + (64 - unat x mod 64) mod 64) mod 64 = (unat x mod 64 + (64 - unat x mod 64)) mod 64"
    by (simp only: mod_simps)
  also have "\<dots> = 0" by simp
  finally show ?thesis unfolding e by (simp add: mod_eq_0_iff_dvd)
qed

lemma elt_ceil:
  assumes "unat (elt_size :: u32) < 2 ^ 30"
  shows "unat elt_size \<le> unat (RTE_ALIGN_CEIL elt_size 8) \<and> unat (RTE_ALIGN_CEIL elt_size 8) < unat elt_size + 8 \<and>
     8 dvd unat (RTE_ALIGN_CEIL elt_size 8)"
  using align_ceil_spec [of 3 elt_size] assms by (auto simp: mod_eq_0_iff_dvd)

text \<open>The sizes before the objects are spread over the banks.\<close>

lemma base_sizes:
  fixes elt_size :: u32
  assumes "unat elt_size < 2 ^ 30"
  defines "elt \<equiv> RTE_ALIGN_CEIL elt_size 8"
  shows "unat (64 + elt + ((64 - ((64 + elt) AND 63)) AND 63)) = 64 + unat elt + unat ((64 - ((64 + elt) AND 63)) AND 63)"
    "64 dvd unat (64 + elt + ((64 - ((64 + elt) AND 63)) AND 63))"
    "unat (64 + elt + ((64 - ((64 + elt) AND 63)) AND 63)) < 2 ^ 31"
    "unat (24 + elt) = 24 + unat elt" "unat elt < 2 ^ 30 + 8" "unat ((64 - ((64 + elt) AND 63)) AND 63) < 64"
proof -
  let ?t = "(64 - ((64 + elt) AND 63)) AND 63"
  show e: "unat elt < 2 ^ 30 + 8" using elt_ceil [OF assms(1)] assms(1) by (simp add: elt_def)
  then have u: "unat (64 + elt) = 64 + unat elt" by (subst unat_add_no_overflow) auto
  show "unat (24 + elt) = 24 + unat elt" using e by (subst unat_add_no_overflow) auto
  have t: "unat ?t < 64" "64 dvd unat (64 + elt) + unat ?t" using trailer_pad [of "64 + elt"] u e by auto
  show "unat ?t < 64" by (rule t(1))
  show s: "unat (64 + elt + ?t) = 64 + unat elt + unat ?t" using u t(1) e by (subst unat_add_no_overflow) auto
  show "64 dvd unat (64 + elt + ?t)" using t(2) u s by simp
  show "unat (64 + elt + ?t) < 2 ^ 31" using s t(1) e by simp
qed

text \<open>Spreading makes the trailer larger and leaves the rest.\<close>

lemma spread_sizes:
  assumes "banks nchan nrank < 2 ^ 16" "unat (h + e + t) = unat h + unat e + unat t" "unat (h + e + t) < 2 ^ 31"
  shows "\<exists>r. optimize_object_size nchan nrank (h + e + t) = Some r \<and> h + e + (r - h - e) = r \<and>
     unat r = unat h + unat e + unat (r - h - e) \<and> 64 dvd unat r \<and> coprime (unat r div 64) (banks nchan nrank) \<and>
     unat r < unat (h + e + t) + 64 * (banks nchan nrank + 1)"
proof -
  obtain r where r: "optimize_object_size nchan nrank (h + e + t) = Some r" "unat (h + e + t) \<le> unat r" "64 dvd unat r"
     "coprime (unat r div 64) (banks nchan nrank)" "unat r < unat (h + e + t) + 64 * (banks nchan nrank + 1)"
    using optimize_spec [OF assms(1,3)] by blast
  have "h \<le> r" using r(2) assms(2) by (simp add: word_le_nat_alt)
  then have u1: "unat (r - h) = unat r - unat h" by (rule unat_sub_le)
  then have "e \<le> r - h" using r(2) assms(2) by (simp add: word_le_nat_alt)
  then have "unat (r - h - e) = unat r - unat h - unat e" using u1 by (simp add: unat_sub_le)
  then have "unat r = unat h + unat e + unat (r - h - e)" using r(2) assms(2) by simp
  with r show ?thesis by simp
qed

definition size_ok :: "u32 \<Rightarrow> u32 \<Rightarrow> u32 \<Rightarrow> u32 \<Rightarrow> rte_mempool_objsz \<Rightarrow> bool" where
  "size_ok nchan nrank elt_size flags sz \<longleftrightarrow>
     unat elt_size \<le> unat (sz_elt sz) \<and> 8 dvd unat (sz_elt sz) \<and> 24 \<le> unat (sz_header sz) \<and>
     unat (sz_total sz) = unat (sz_header sz) + unat (sz_elt sz) + unat (sz_trailer sz) \<and>
     sz_total sz = sz_header sz + sz_elt sz + sz_trailer sz \<and>
     unat (sz_total sz) < unat elt_size + 256 + 64 * (banks nchan nrank + 1) \<and>
     (flags AND MEMPOOL_F_NO_CACHE_ALIGN = 0 \<longrightarrow> 64 dvd unat (sz_header sz) \<and> 64 dvd unat (sz_total sz)) \<and>
     (flags AND MEMPOOL_F_NO_SPREAD = 0 \<longrightarrow>
        64 dvd unat (sz_total sz) \<and> coprime (unat (sz_total sz) div 64) (banks nchan nrank))"

lemma calc_obj_size_ok:
  assumes "unat elt_size < 2 ^ 30" "banks nchan nrank < 2 ^ 16"
  shows "\<exists>sz. rte_mempool_calc_obj_size nchan nrank elt_size flags = Some sz \<and> size_ok nchan nrank elt_size flags sz"
proof -
  let ?elt = "RTE_ALIGN_CEIL elt_size 8"
  let ?a = "flags AND MEMPOOL_F_NO_CACHE_ALIGN = 0" and ?s = "flags AND MEMPOOL_F_NO_SPREAD = 0"
  obtain elt where elt: "elt = ?elt" by blast
  note b = base_sizes [OF assms(1), folded elt] and e = elt_ceil [OF assms(1), folded elt]
  have c24: "RTE_ALIGN_CEIL 24 64 = (64 :: u32)"
    by (simp add: RTE_ALIGN_CEIL_def RTE_ALIGN_FLOOR_def)
  obtain t where t: "t = (64 - ((64 + elt) AND 63)) AND 63" by blast
  define h where "h = (if ?a then 64 else 24 :: u32)"
  define tr where "tr = (if ?a then t else 0 :: u32)"
  have sum: "unat (h + elt + tr) = unat h + unat elt + unat tr" "unat (h + elt + tr) < 2 ^ 31"
    "?a \<Longrightarrow> 64 dvd unat (h + elt + tr)"
    using b by (auto simp: h_def tr_def t)
  have "unat h + unat elt + unat tr < unat elt_size + 256" using b(6) e by (auto simp: h_def tr_def t)
  then have small: "unat (h + elt + tr) < unat elt_size + 256" using sum(1) by simp
  have calc: "rte_mempool_calc_obj_size nchan nrank elt_size flags = do {
     trailer \<leftarrow> (if ?s then do { r \<leftarrow> optimize_object_size nchan nrank (h + elt + tr); Some (r - h - elt) } else Some tr);
     Some \<lparr>sz_elt = elt, sz_header = h, sz_trailer = trailer, sz_total = h + elt + trailer\<rparr> }"
    by (simp add: rte_mempool_calc_obj_size_def Let_def c24 h_def tr_def t elt RTE_MEMPOOL_ALIGN_MASK_def RTE_MEMPOOL_ALIGN_def)
  have h24: "24 \<le> unat h" "?a \<Longrightarrow> 64 dvd unat h" by (simp_all add: h_def)
  show ?thesis
  proof (cases ?s)
    case False
    then show ?thesis using calc sum h24 e small by (simp add: size_ok_def)
  next
    case True
    obtain r where r: "optimize_object_size nchan nrank (h + elt + tr) = Some r" "h + elt + (r - h - elt) = r"
      "unat r = unat h + unat elt + unat (r - h - elt)" "64 dvd unat r" "coprime (unat r div 64) (banks nchan nrank)"
      "unat r < unat (h + elt + tr) + 64 * (banks nchan nrank + 1)"
      using spread_sizes [OF assms(2) sum(1,2)] by blast
    have "unat r < unat elt_size + 256 + 64 * (banks nchan nrank + 1)" using r(6) small by simp
    then show ?thesis using calc True h24 e r(1-5) by (simp add: size_ok_def)
  qed
qed

section \<open>Properties\<close>

text \<open>
  C36: The layout of a pool's objects. For objects below \<open>2 ^ 30\<close> bytes and fewer than \<open>2 ^ 16\<close>
  memory banks \<open>rte_mempool_calc_obj_size\<close> returns (the search for a size prime to the number of banks
  ends), with an object part that is at least as large as asked for and a multiple of 8, a header of at least 24 bytes,
  and a total that is the sum of the parts without wrap-around; the total is a multiple of
  the cache line unless alignment is switched off, and in cache lines it has no common divisor with the number of banks
  unless spreading is switched off.
\<close>
theorem object_layout:
  assumes "unat elt_size < 2 ^ 30" "banks nchan nrank < 2 ^ 16"
  shows "\<exists>sz. rte_mempool_calc_obj_size nchan nrank elt_size flags = Some sz \<and>
     unat elt_size \<le> unat (sz_elt sz) \<and> 8 dvd unat (sz_elt sz) \<and> 24 \<le> unat (sz_header sz) \<and>
     unat (sz_total sz) = unat (sz_header sz) + unat (sz_elt sz) + unat (sz_trailer sz) \<and>
     unat (sz_total sz) < unat elt_size + 256 + 64 * (banks nchan nrank + 1) \<and>
     (flags AND MEMPOOL_F_NO_CACHE_ALIGN = 0 \<longrightarrow> 64 dvd unat (sz_header sz) \<and> 64 dvd unat (sz_total sz)) \<and>
     (flags AND MEMPOOL_F_NO_SPREAD = 0 \<longrightarrow> gcd (unat (sz_total sz) div 64) (banks nchan nrank) = 1)"
  using calc_obj_size_ok [OF assms, of flags] by (fastforce simp: size_ok_def coprime_iff_gcd_eq_1)

theorem object_layout_witness:
  "\<exists>sz. rte_mempool_calc_obj_size 4 2 2176 0 = Some sz \<and> 2176 \<le> unat (sz_elt sz) \<and> gcd (unat (sz_total sz) div 64) 8 = 1"
proof -
  have "banks 4 2 = 8" by (simp add: banks_def)
  with object_layout [of 2176 4 2 0] show ?thesis by force
qed

end
