(* ===== verification/MempoolCreate.thy ===== *)
theory MempoolCreate
  imports MempoolSizes RingPool
begin

text \<open>
  Creating and populating a pool (\<open>rte_mempool.c\<close>, \<open>rte_mempool_ops.c\<close>,
  \<open>rte_mempool_ops_default.c\<close>). Objects are addresses. The memory zones that EAL reserves, the
  IO address of a page and the driver's \<open>alloc\<close> are arguments.
\<close>

definition RTE_BAD_IOVA :: u64 where "RTE_BAD_IOVA = - 1"
definition MEMPOOL_F_POOL_CREATED :: u32 where "MEMPOOL_F_POOL_CREATED = 16"
definition MEMPOOL_F_NO_IOVA_CONTIG :: u32 where "MEMPOOL_F_NO_IOVA_CONTIG = 32"


section \<open>The table of drivers\<close>

text \<open>\<open>ops\<close> is \<open>None\<close> when one of the four callbacks that every driver has is NULL.\<close>

definition RTE_MEMPOOL_MAX_OPS_IDX :: nat where "RTE_MEMPOOL_MAX_OPS_IDX = 16"
definition RTE_MEMPOOL_OPS_NAMESIZE :: nat where "RTE_MEMPOOL_OPS_NAMESIZE = 32"

definition rte_mempool_register_ops :: "string \<Rightarrow> 'ops option \<Rightarrow> (string \<times> 'ops) list \<Rightarrow> c_int \<times> (string \<times> 'ops) list" where
  "rte_mempool_register_ops name ops table =
     (if length table \<ge> RTE_MEMPOOL_MAX_OPS_IDX then (- ENOSPC, table)
      else (case ops of None \<Rightarrow> (- EINVAL, table)
        | Some h \<Rightarrow> if length name \<ge> RTE_MEMPOOL_OPS_NAMESIZE - 1 then (- EEXIST, table)
                   else (int (length table), table @ [(name, h)])))"

fun find_ops :: "string \<Rightarrow> (string \<times> 'ops) list \<Rightarrow> nat \<Rightarrow> nat option" where
  "find_ops name [] i = None"
| "find_ops name ((n, h) # t) i = (if name = n then Some i else find_ops name t (Suc i))"

text \<open>The second component is the new \<open>ops_index\<close>.\<close>

definition rte_mempool_set_ops_byname :: "u32 \<Rightarrow> (string \<times> 'ops) list \<Rightarrow> string \<Rightarrow> c_int \<times> nat option" where
  "rte_mempool_set_ops_byname flags table name =
     (if flags AND MEMPOOL_F_POOL_CREATED \<noteq> 0 then (- EEXIST, None)
      else (case find_ops name table 0 of None \<Rightarrow> (- EINVAL, None) | Some i \<Rightarrow> (0, Some i)))"

section \<open>Objects\<close>

definition mempool_add_elem :: "(nat, 'p) mempool \<Rightarrow> nat \<Rightarrow> u64 \<Rightarrow> (nat, 'p) mempool" where
  "mempool_add_elem mp ob iova =
     mp\<lparr>mp_elts := mp_elts mp @ [(ob, iova)], mp_populated_size := mp_populated_size mp + 1\<rparr>"

function populate_loop ::
    "(nat, 'p) pool_ops \<Rightarrow> u32 \<Rightarrow> nat \<Rightarrow> u64 \<Rightarrow> u64 \<Rightarrow> u64 \<Rightarrow> u64 \<Rightarrow> u32 \<Rightarrow> (nat, 'p) mempool \<Rightarrow>
     (u32 \<times> (nat, 'p) mempool) option" where
  "populate_loop ops max_objs vaddr iova len tsz off i mp =
     (if off + tsz \<le> len \<and> i < max_objs then
        let off = off + ucast (mp_header_size mp);
            ob = vaddr + unat off;
            mp = mempool_add_elem mp ob (if iova = RTE_BAD_IOVA then RTE_BAD_IOVA else iova + off)
        in (case rte_mempool_ops_enqueue_bulk ops mp [ob] 1 of
              None \<Rightarrow> None
            | Some (_, mp) \<Rightarrow>
                populate_loop ops max_objs vaddr iova len tsz (off + ucast (mp_elt_size mp + mp_trailer_size mp)) (i + 1) mp)
      else Some (i, mp))"
  by auto
termination
proof (relation "measure (\<lambda>(ops, max_objs, vaddr, iova, len, tsz, off, i, mp). unat max_objs - unat i)")
  fix ops :: "(nat, 'p) pool_ops" and max_objs :: u32 and vaddr :: nat and iova len tsz off offa :: u64 and i :: u32
    and mp mpa mpb mpc :: "(nat, 'p) mempool" and ob :: nat and ret :: c_int and x
  assume "off + tsz \<le> len \<and> i < max_objs"
  then have "i < max_objs" by simp
  then have "unat (i + 1) = unat i + 1" "unat i < unat max_objs"
    using unat_lt2p [of max_objs] by (auto simp: word_less_nat_alt intro!: unat_add_no_overflow [of i 1, simplified])
  then show "((ops, max_objs, vaddr, iova, len, tsz, offa + ucast (mp_elt_size mpc + mp_trailer_size mpc), i + 1, mpc),
      ops, max_objs, vaddr, iova, len, tsz, off, i, mp)
     \<in> measure (\<lambda>(ops, max_objs, vaddr, iova, len, tsz, off, i, mp). unat max_objs - unat i)" by simp
qed simp

declare populate_loop.simps [simp del]

definition rte_mempool_op_populate_default ::
    "(nat, 'p) pool_ops \<Rightarrow> (nat, 'p) mempool \<Rightarrow> u32 \<Rightarrow> nat \<Rightarrow> u64 \<Rightarrow> u64 \<Rightarrow> (u32 \<times> (nat, 'p) mempool) option" where
  "rte_mempool_op_populate_default ops mp max_objs vaddr iova len =
     populate_loop ops max_objs vaddr iova len (total_elt_sz mp) 0 0 mp"

definition rte_mempool_obj_iter :: "(nat, 'p) mempool \<Rightarrow> (nat \<Rightarrow> 's \<Rightarrow> 's option) \<Rightarrow> 's \<Rightarrow> (u32 \<times> 's) option" where
  "rte_mempool_obj_iter mp obj_cb s =
     (case foldl (\<lambda>s (ob, _). Option.bind s (obj_cb ob)) (Some s) (mp_elts mp) of
        None \<Rightarrow> None | Some s \<Rightarrow> Some (of_nat (length (mp_elts mp)), s))"

section \<open>Chunks\<close>

text \<open>\<open>alloc\<close> is the driver's; it changes \<open>mp_data\<close>.\<close>

definition mempool_ops_alloc_once ::
    "((nat, 'p) mempool \<Rightarrow> c_int \<times> (nat, 'p) mempool) \<Rightarrow> (nat, 'p) mempool \<Rightarrow> c_int \<times> (nat, 'p) mempool" where
  "mempool_ops_alloc_once alloc mp =
     (if mp_flags mp AND MEMPOOL_F_POOL_CREATED = 0 then
        (case alloc mp of (ret, mp) \<Rightarrow>
           if ret \<noteq> 0 then (ret, mp) else (0, mp\<lparr>mp_flags := mp_flags mp OR MEMPOOL_F_POOL_CREATED\<rparr>))
      else (0, mp))"

text \<open>\<open>RTE_PTR_ALIGN_CEIL (vaddr, a) - vaddr\<close>\<close>

definition ptr_pad :: "nat \<Rightarrow> nat \<Rightarrow> nat" where
  "ptr_pad vaddr a = (vaddr + a - 1) div a * a - vaddr"

text \<open>\<open>m\<close> says whether \<open>rte_zmalloc\<close> gives the chunk's header.\<close>

definition rte_mempool_populate_iova ::
    "(nat, 'p) pool_ops \<Rightarrow> ((nat, 'p) mempool \<Rightarrow> c_int \<times> (nat, 'p) mempool) \<Rightarrow> bool \<Rightarrow>
     (nat, 'p) mempool \<Rightarrow> nat \<Rightarrow> u64 \<Rightarrow> u64 \<Rightarrow> bool \<Rightarrow> nat \<Rightarrow> (c_int \<times> (nat, 'p) mempool) option" where
  "rte_mempool_populate_iova ops alloc m mp vaddr iova len free_cb opaque =
     (let (ret, mp) = mempool_ops_alloc_once alloc mp in
      if ret \<noteq> 0 then Some (ret, mp)
      else if mp_populated_size mp \<ge> mp_size mp then Some (- ENOSPC, mp)
      else if \<not> m then Some (- ENOMEM, mp)
      else
        let memhdr = \<lparr>mh_addr = vaddr, mh_iova = iova, mh_len = len, mh_free = free_cb, mh_opaque = opaque\<rparr>;
            off = of_nat (if mp_flags mp AND MEMPOOL_F_NO_CACHE_ALIGN \<noteq> 0 then ptr_pad vaddr 8 else ptr_pad vaddr 64)
        in if off > len then Some (- EINVAL, mp)
           else do {
             (i, mp) \<leftarrow> rte_mempool_op_populate_default ops mp (mp_size mp - mp_populated_size mp) (vaddr + unat off)
                          (if iova = RTE_BAD_IOVA then RTE_BAD_IOVA else iova + off) (len - off);
             if i = 0 then Some (- EINVAL, mp)
             else Some (int (unat i), mp\<lparr>mp_mems := mp_mems mp @ [memhdr]\<rparr>) })"

text \<open>What EAL and the system answer. A zone is reserved by name, length, flag and alignment.\<close>

record memzone =
  mz_id :: nat
  mz_addr :: nat
  mz_iova :: u64
  mz_len :: u64

record pool_env =
  pe_external :: c_int
  pe_iova_va :: bool
  pe_hugepages :: bool
  pe_min_page :: u64
  pe_page :: u64
  pe_virt2iova :: "nat \<Rightarrow> u64"
  pe_header :: bool
  pe_reserve :: "string \<Rightarrow> u64 \<Rightarrow> bool \<Rightarrow> u64 \<Rightarrow> memzone + c_int"

text \<open>\<open>Free callbacks run\<close>: the values of \<open>opaque\<close>, in order; the driver gives one object for each header.\<close>

fun free_elts :: "(nat, 'p) pool_ops \<Rightarrow> nat \<Rightarrow> (nat, 'p) mempool \<Rightarrow> (nat, 'p) mempool option" where
  "free_elts ops 0 mp = Some mp"
| "free_elts ops (Suc k) mp = do {
     (_, _, mp) \<leftarrow> rte_mempool_ops_dequeue_bulk ops mp [0] 1;
     free_elts ops k (mp\<lparr>mp_elts := tl (mp_elts mp), mp_populated_size := mp_populated_size mp - 1\<rparr>) }"

definition rte_mempool_free_memchunks :: "(nat, 'p) pool_ops \<Rightarrow> (nat, 'p) mempool \<Rightarrow> (nat list \<times> (nat, 'p) mempool) option" where
  "rte_mempool_free_memchunks ops mp = do {
     mp \<leftarrow> free_elts ops (length (mp_elts mp)) mp;
     Some (map mh_opaque (filter mh_free (mp_mems mp)), mp\<lparr>mp_mems := []\<rparr>) }"

text \<open>The largest group of contiguous pages from \<open>off\<close>.\<close>

partial_function (option) contig_len :: "(nat \<Rightarrow> u64) \<Rightarrow> nat \<Rightarrow> u64 \<Rightarrow> u64 \<Rightarrow> u64 \<Rightarrow> u64 \<Rightarrow> u64 \<Rightarrow> u64 option" where
  "contig_len v2i addr len pg_sz off iova phys_len =
     (if off + phys_len < len then
        (if v2i (addr + unat (off + phys_len)) \<noteq> iova + phys_len then Some phys_len
         else contig_len v2i addr len pg_sz off iova (phys_len + pg_sz))
      else Some phys_len)"

text \<open>\<open>Inr\<close> is \<open>goto fail\<close>.\<close>

partial_function (option) virt_loop ::
    "(nat, 'p) pool_ops \<Rightarrow> ((nat, 'p) mempool \<Rightarrow> c_int \<times> (nat, 'p) mempool) \<Rightarrow> pool_env \<Rightarrow> nat \<Rightarrow> u64 \<Rightarrow> u64 \<Rightarrow>
     nat \<Rightarrow> bool \<Rightarrow> u64 \<Rightarrow> c_int \<Rightarrow> (nat, 'p) mempool \<Rightarrow> ((c_int + c_int) \<times> (nat, 'p) mempool) option" where
  "virt_loop ops alloc env addr len pg_sz opaque free_cb off cnt mp =
     (if off + pg_sz \<le> len \<and> mp_populated_size mp < mp_size mp then
        (let iova = pe_virt2iova env (addr + unat off) in
         if iova = RTE_BAD_IOVA \<and> pe_hugepages env then Some (Inr (- EINVAL), mp)
         else
           Option.bind (contig_len (pe_virt2iova env) addr len pg_sz off iova pg_sz) (\<lambda>phys_len.
           Option.bind (rte_mempool_populate_iova ops alloc (pe_header env) mp (addr + unat off) iova phys_len free_cb opaque) (\<lambda>(ret, mp).
           if ret < 0 then Some (Inr ret, mp)
           else virt_loop ops alloc env addr len pg_sz opaque False (off + phys_len) (cnt + ret) mp)))
      else Some (Inl cnt, mp))"

definition rte_mempool_populate_virt ::
    "(nat, 'p) pool_ops \<Rightarrow> ((nat, 'p) mempool \<Rightarrow> c_int \<times> (nat, 'p) mempool) \<Rightarrow> pool_env \<Rightarrow> (nat, 'p) mempool \<Rightarrow>
     nat \<Rightarrow> u64 \<Rightarrow> u64 \<Rightarrow> bool \<Rightarrow> nat \<Rightarrow> (c_int \<times> nat list \<times> (nat, 'p) mempool) option" where
  "rte_mempool_populate_virt ops alloc env mp addr len pg_sz free_cb opaque =
     (if RTE_ALIGN_CEIL (of_nat addr) pg_sz \<noteq> (of_nat addr :: u64) then Some (- EINVAL, [], mp)
      else if RTE_ALIGN_CEIL len pg_sz \<noteq> len then Some (- EINVAL, [], mp)
      else if mp_flags mp AND MEMPOOL_F_NO_IOVA_CONTIG \<noteq> 0 then do {
        (ret, mp) \<leftarrow> rte_mempool_populate_iova ops alloc (pe_header env) mp addr RTE_BAD_IOVA len free_cb opaque;
        Some (ret, [], mp) }
      else do {
        (r, mp) \<leftarrow> virt_loop ops alloc env addr len pg_sz opaque free_cb 0 0 mp;
        case r of Inl cnt \<Rightarrow> Some (cnt, [], mp)
        | Inr ret \<Rightarrow> do {
            (freed, mp) \<leftarrow> rte_mempool_free_memchunks ops mp;
            Some (ret, freed, mp) } })"

text \<open>
  The reservation of one zone: a contiguous one if asked for, else page by page, else the
  largest there is. \<open>Inl\<close> is \<open>goto fail\<close>; \<open>try_contig\<close> comes back changed, with the smallest
  useful chunk.
\<close>

definition reserve_zone ::
    "pool_env \<Rightarrow> string \<Rightarrow> (nat, 'p) mempool \<Rightarrow> bool \<Rightarrow> u64 \<Rightarrow> u32 \<Rightarrow> bool \<Rightarrow> nat \<Rightarrow> u32 \<Rightarrow> c_int + memzone \<times> bool \<times> u64" where
  "reserve_zone env name mp no_pageshift pg_sz pg_shift try_contig mz_no n =
     (let (mem_size, min_chunk_size, align) =
            rte_mempool_op_calc_mem_size_default mp n (if try_contig \<or> no_pageshift then 0 else pg_shift);
          mz_name = ''MP_'' @ name @ ''_'' @ dec mz_no
      in if sint mem_size < 0 then Inl (sint (ucast mem_size :: u32))
         else if length mz_name \<ge> RTE_MEMZONE_NAMESIZE then Inl (- ENAMETOOLONG)
         else
           let mz = pe_reserve env mz_name mem_size try_contig align;
               again = (\<not> isl mz \<and> try_contig \<and> min_chunk_size \<le> pg_sz);
               try_contig = (try_contig \<and> \<not> again);
               (mem_size, min_chunk_size, align) =
                 (if again then rte_mempool_op_calc_mem_size_default mp n pg_shift else (mem_size, min_chunk_size, align))
           in if again \<and> sint mem_size < 0 then Inl (sint (ucast mem_size :: u32))
              else
                let mz = (if again then pe_reserve env mz_name mem_size try_contig align else mz);
                    mz = (if min_chunk_size < mem_size \<and> \<not> isl mz
                          then pe_reserve env mz_name 0 try_contig (max pg_sz align) else mz)
                in (case mz of Inr e \<Rightarrow> Inl (- e) | Inl z \<Rightarrow> Inr (z, try_contig, min_chunk_size)))"

text \<open>The result is the value at \<open>fail\<close>, if it is reached, with the zones freed so far.\<close>

partial_function (option) default_loop ::
    "(nat, 'p) pool_ops \<Rightarrow> ((nat, 'p) mempool \<Rightarrow> c_int \<times> (nat, 'p) mempool) \<Rightarrow> pool_env \<Rightarrow> string \<Rightarrow> bool \<Rightarrow> bool \<Rightarrow>
     u64 \<Rightarrow> u32 \<Rightarrow> bool \<Rightarrow> nat \<Rightarrow> u32 \<Rightarrow> nat list \<Rightarrow> (nat, 'p) mempool \<Rightarrow> (c_int option \<times> nat list \<times> (nat, 'p) mempool) option" where
  "default_loop ops alloc env name no_contig no_pageshift pg_sz pg_shift try_contig mz_no n freed mp =
     (if n = 0 then Some (None, freed, mp)
      else (case reserve_zone env name mp no_pageshift pg_sz pg_shift try_contig mz_no n of
          Inl err \<Rightarrow> Some (Some err, freed, mp)
        | Inr (z, try_contig, min_chunk_size) \<Rightarrow>
            if mz_len z < min_chunk_size then Some (Some (- ENOMEM), freed @ [mz_id z], mp)
            else
              Option.bind
                (if no_pageshift \<or> try_contig
                 then map_option (\<lambda>(ret, mp). (ret, [], mp))
                        (rte_mempool_populate_iova ops alloc (pe_header env) mp (mz_addr z)
                           (if no_contig then RTE_BAD_IOVA else mz_iova z) (mz_len z) True (mz_id z))
                 else rte_mempool_populate_virt ops alloc env mp (mz_addr z) (RTE_ALIGN_FLOOR (mz_len z) pg_sz) pg_sz True (mz_id z))
                (\<lambda>(ret, f, mp).
                   if ret < 0 then Some (Some ret, freed @ f @ [mz_id z], mp)
                   else default_loop ops alloc env name no_contig no_pageshift pg_sz pg_shift try_contig (Suc mz_no)
                          (n - word_of_int ret) (freed @ f) mp)))"

definition rte_mempool_populate_default ::
    "(nat, 'p) pool_ops \<Rightarrow> ((nat, 'p) mempool \<Rightarrow> c_int \<times> (nat, 'p) mempool) \<Rightarrow> pool_env \<Rightarrow> string \<Rightarrow> (nat, 'p) mempool \<Rightarrow>
     (c_int \<times> nat list \<times> (nat, 'p) mempool) option" where
  "rte_mempool_populate_default ops alloc env name mp =
     (let (ret, mp) = mempool_ops_alloc_once alloc mp in
      if ret \<noteq> 0 then Some (ret, [], mp)
      else if pe_external env < 0 then Some (- EINVAL, [], mp)
      else if mp_mems mp \<noteq> [] then Some (- EEXIST, [], mp)
      else
        let no_contig = (mp_flags mp AND MEMPOOL_F_NO_IOVA_CONTIG \<noteq> 0);
            external = (pe_external env = 1);
            no_pageshift = (no_contig \<or> (\<not> external \<and> pe_iova_va env));
            try_contig = (\<not> no_contig \<and> \<not> no_pageshift \<and> (pe_hugepages env \<or> external));
            pg_sz = (if no_pageshift then 0 else if try_contig then pe_min_page env else pe_page env)
        in do {
          pg_shift \<leftarrow> (if no_pageshift then Some 0 else rte_bsf32 (ucast pg_sz));
          (err, freed, mp) \<leftarrow> default_loop ops alloc env name no_contig no_pageshift pg_sz (of_nat pg_shift) try_contig 0
                                (mp_size mp) [] mp;
          case err of None \<Rightarrow> Some (int (unat (mp_size mp)), freed, mp)
          | Some ret \<Rightarrow> do {
              (f, mp) \<leftarrow> rte_mempool_free_memchunks ops mp;
              Some (ret, freed @ f, mp) } })"

section \<open>Populating\<close>

definition slots :: "nat \<Rightarrow> nat \<Rightarrow> nat \<Rightarrow> nat list" where
  "slots first step n = map (\<lambda>j. first + j * step) [0..<n]"

lemma slots_Suc: "slots first step (Suc n) = first # slots (first + step) step n"
  by (simp add: slots_def upt_conv_Cons map_Suc_upt [symmetric] add.assoc del: upt_Suc)

lemma slots_distinct: "0 < step \<Longrightarrow> distinct (slots first step n)"
  by (simp add: slots_def distinct_map inj_on_def)

lemma slots_apart:
  assumes "i < n" "j < n" "i \<noteq> j"
  shows "slots first step n ! i + step \<le> slots first step n ! j \<or> slots first step n ! j + step \<le> slots first step n ! i"
proof -
  have "Suc a * step \<le> b * step" if "a < b" for a b :: nat using that by (intro mult_le_mono1) simp
  with assms show ?thesis by (fastforce simp: slots_def nat_neq_iff)
qed

lemma slots_inside:
  assumes "ob \<in> set (slots (a + h) T n)" "h + e \<le> T" "T * n \<le> len"
  shows "a + h \<le> ob \<and> ob + e \<le> a + len"
proof -
  obtain j where j: "j < n" "ob = a + h + j * T" using assms(1) by (auto simp: slots_def)
  have "Suc j * T \<le> n * T" using j(1) by (intro mult_le_mono1) simp
  then show ?thesis using j(2) assms(2,3) by (simp add: mult.commute)
qed

text \<open>Everything but the list of objects, their number and the driver's data stays.\<close>

definition same_shape :: "('o, 'p) mempool \<Rightarrow> ('o, 'p) mempool \<Rightarrow> bool" where
  "same_shape mp mp' \<longleftrightarrow> mp_size mp' = mp_size mp \<and> mp_cache_size mp' = mp_cache_size mp \<and>
     mp_flags mp' = mp_flags mp \<and> mp_header_size mp' = mp_header_size mp \<and> mp_elt_size mp' = mp_elt_size mp \<and>
     mp_trailer_size mp' = mp_trailer_size mp \<and> mp_mems mp' = mp_mems mp \<and> mp_caches mp' = mp_caches mp"

text \<open>
  The objects laid out in a chunk: the \<open>j\<close>-th starts \<open>header + j * total\<close> bytes into it, as many
  as fit and are wanted, and each is put into the driver.
\<close>

definition populated ::
    "('p \<Rightarrow> bool) \<Rightarrow> ('p \<Rightarrow> nat list) \<Rightarrow> ('p \<Rightarrow> nat) \<Rightarrow> (nat, 'p) mempool \<Rightarrow> nat list \<Rightarrow> (nat, 'p) mempool \<Rightarrow> bool" where
  "populated pinv pitems pcap mp objs mp' \<longleftrightarrow>
     same_shape mp mp' \<and> pinv (mp_data mp') \<and> pcap (mp_data mp') = pcap (mp_data mp) \<and>
     mset (pitems (mp_data mp')) = mset (pitems (mp_data mp)) + mset objs \<and>
     map fst (mp_elts mp') = map fst (mp_elts mp) @ objs \<and>
     mp_populated_size mp' = mp_populated_size mp + of_nat (length objs)"

lemma populate_step:
  assumes "bulk_pool ops pinv pitems pcap" "pinv (mp_data mp)" "length (pitems (mp_data mp)) < pcap (mp_data mp)"
  shows "\<exists>ret mp'. rte_mempool_ops_enqueue_bulk ops (mempool_add_elem mp ob iv) [ob] 1 = Some (ret, mp') \<and>
     populated pinv pitems pcap mp [ob] mp'"
proof -
  let ?mp = "mempool_add_elem mp ob iv"
  obtain mp' where q: "rte_mempool_ops_enqueue_bulk ops ?mp [ob] 1 = Some (0, mp')" "same_pool ?mp mp'" "pinv (mp_data mp')"
     "pcap (mp_data mp') = pcap (mp_data ?mp)" "mset (pitems (mp_data mp')) = mset (pitems (mp_data ?mp)) + mset (take (unat (1 :: u32)) [ob])"
    using bulk_pool.pool_enqueue [OF assms(1), of ?mp 1 "[ob]"] assms(2,3) by (auto simp: mempool_add_elem_def)
  then show ?thesis
    by (intro exI [of _ 0] exI [of _ mp'])
       (simp add: populated_def same_shape_def same_pool_def mempool_add_elem_def)
qed

lemma populated_trans:
  "populated pinv pitems pcap mp xs mp1 \<Longrightarrow> populated pinv pitems pcap mp1 ys mp2 \<Longrightarrow>
     populated pinv pitems pcap mp (xs @ ys) mp2"
  by (simp add: populated_def same_shape_def add.assoc)

lemma populate_loop_ok:
  assumes bp: "bulk_pool ops pinv pitems pcap" and t0: "0 < T" and t32: "T < 2 ^ 32" and len: "unat len < 2 ^ 63"
    and tsz: "unat tsz = T"
  shows "pinv (mp_data mp) \<Longrightarrow> T = unat (mp_header_size mp) + unat (mp_elt_size mp) + unat (mp_trailer_size mp) \<Longrightarrow>
     unat off < 2 ^ 63 \<Longrightarrow> k = min (unat max_objs - unat i) ((unat len - unat off) div T) \<Longrightarrow>
     length (pitems (mp_data mp)) + k \<le> pcap (mp_data mp) \<Longrightarrow>
     \<exists>mp'. populate_loop ops max_objs vaddr iova len tsz off i mp = Some (i + of_nat k, mp') \<and>
       populated pinv pitems pcap mp (slots (vaddr + unat off + unat (mp_header_size mp)) T k) mp'"
proof (induction k arbitrary: off i mp)
  case 0
  have "\<not> (off + tsz \<le> len \<and> i < max_objs)"
  proof
    assume c: "off + tsz \<le> len \<and> i < max_objs"
    have "unat (off + tsz) = unat off + T" using 0(3) t32 tsz by (subst unat_add_no_overflow) auto
    then have "unat off + T \<le> unat len" using c by (simp add: word_le_nat_alt)
    then have "T \<le> unat len - unat off" by simp
    then have "T div T \<le> (unat len - unat off) div T" by (rule div_le_mono)
    then have "0 < (unat len - unat off) div T" using t0 by simp
    moreover have "0 < unat max_objs - unat i" using c by (simp add: word_less_nat_alt)
    ultimately show False using 0(4) by simp
  qed
  then have "populate_loop ops max_objs vaddr iova len tsz off i mp = Some (i, mp)"
    by (subst populate_loop.simps) (rule if_not_P)
  with 0(1) show ?case by (simp add: populated_def same_shape_def slots_def)
next
  case (Suc k)
  have d: "0 < (unat len - unat off) div T" "i < max_objs" using Suc.prems(4) by (auto simp: word_less_nat_alt)
  have "T \<le> unat len - unat off" using d(1) t0 by (simp add: div_greater_zero_iff)
  then have room: "unat off + T \<le> unat len" using t0 by simp
  have u: "unat (off + tsz) = unat off + T" using Suc.prems(3) t32 tsz by (subst unat_add_no_overflow) auto
  have c: "off + tsz \<le> len" using u room by (simp add: word_le_nat_alt)
  let ?h = "mp_header_size mp"
  have uh: "unat (ucast ?h :: u64) = unat ?h" by (rule unat_ucast_up) simp
  have oh: "unat (off + ucast ?h) = unat off + unat ?h"
    using Suc.prems(2,3) t32 uh by (subst unat_add_no_overflow) auto
  let ?iv = "if iova = RTE_BAD_IOVA then RTE_BAD_IOVA else iova + (off + ucast ?h)"
  let ?ob = "vaddr + unat (off + ucast ?h)"
  have "length (pitems (mp_data mp)) < pcap (mp_data mp)" using Suc.prems(5) by simp
  then obtain ret mp1 where q: "rte_mempool_ops_enqueue_bulk ops (mempool_add_elem mp ?ob ?iv) [?ob] 1 = Some (ret, mp1)"
    and p1: "populated pinv pitems pcap mp [?ob] mp1"
    using populate_step [OF bp Suc.prems(1)] by blast
  have sh: "mp_header_size mp1 = ?h" "mp_elt_size mp1 = mp_elt_size mp" "mp_trailer_size mp1 = mp_trailer_size mp"
    using p1 by (simp_all add: populated_def same_shape_def)
  let ?off = "off + ucast ?h + ucast (mp_elt_size mp1 + mp_trailer_size mp1)"
  have et: "unat (mp_elt_size mp + mp_trailer_size mp) = unat (mp_elt_size mp) + unat (mp_trailer_size mp)"
    using Suc.prems(2) t32 by (subst unat_add_no_overflow) auto
  have uet: "unat (ucast (mp_elt_size mp + mp_trailer_size mp) :: u64) = unat (mp_elt_size mp) + unat (mp_trailer_size mp)"
    using et by (subst unat_ucast_up) auto
  have uo: "unat ?off = unat off + T"
    using oh uet Suc.prems(2,3) t32 unfolding sh by (subst unat_add_no_overflow) auto
  have ui: "unat (i + 1) = unat i + 1"
    using d(2) unat_lt2p [of max_objs] by (subst unat_add_no_overflow) (auto simp: word_less_nat_alt)
  have "(unat len - unat off) div T = Suc ((unat len - unat ?off) div T)"
    using room uo t0 le_div_geq [of T "unat len - unat off"] by (simp add: diff_diff_left)
  then have k: "k = min (unat max_objs - unat (i + 1)) ((unat len - unat ?off) div T)"
    using Suc.prems(4) ui by simp
  have cnt: "length (pitems (mp_data mp1)) = length (pitems (mp_data mp)) + 1"
    using p1 by (metis populated_def size_mset size_union length_Cons list.size(3) One_nat_def)
  have pd1: "pinv (mp_data mp1)" and cap1: "pcap (mp_data mp1) = pcap (mp_data mp)"
    using p1 by (simp_all add: populated_def)
  have T1: "T = unat (mp_header_size mp1) + unat (mp_elt_size mp1) + unat (mp_trailer_size mp1)"
    using Suc.prems(2) sh by simp
  have o1: "unat ?off < 2 ^ 63" using uo room len by simp
  have "length (pitems (mp_data mp1)) + k \<le> pcap (mp_data mp1)"
    using Suc.prems(5) cnt cap1 by simp
  then obtain mp2 where r: "populate_loop ops max_objs vaddr iova len tsz ?off (i + 1) mp1 = Some (i + 1 + of_nat k, mp2)"
     "populated pinv pitems pcap mp1 (slots (vaddr + unat ?off + unat (mp_header_size mp1)) T k) mp2"
    using Suc.IH [OF pd1 T1 o1 k] by blast
  have addr: "vaddr + unat ?off + unat (mp_header_size mp1) = vaddr + unat off + unat ?h + T"
    "?ob = vaddr + unat off + unat ?h"
    using uo oh sh(1) by simp_all
  have "populate_loop ops max_objs vaddr iova len tsz off i mp = Some (i + 1 + of_nat k, mp2)"
    using c d(2) q r(1) by (subst populate_loop.simps) (simp add: Let_def)
  moreover have "populated pinv pitems pcap mp (slots (vaddr + unat off + unat ?h) T (Suc k)) mp2"
    using populated_trans [OF p1 r(2)] unfolding slots_Suc addr by simp
  ultimately show ?case by (simp add: add.assoc)
qed

section \<open>Creation\<close>

definition RTE_MEMPOOL_NAMESIZE :: nat where "RTE_MEMPOOL_NAMESIZE = RTE_RING_NAMESIZE - 4 + 1"

definition zero_cache :: "nat mempool_cache" where
  "zero_cache = \<lparr>c_size = 0, c_flushthresh = 0, c_len = 0, c_objs = replicate (RTE_MEMPOOL_CACHE_MAX_SIZE * 3) 0\<rparr>"

text \<open>\<open>mp_sz\<close> and \<open>cache_sz\<close> are the sizes of the two structures, \<open>cs\<close> is the size of the caches.\<close>

definition MEMPOOL_HEADER_SIZE :: "u64 \<Rightarrow> u64 \<Rightarrow> u32 \<Rightarrow> u64" where
  "MEMPOOL_HEADER_SIZE mp_sz cache_sz cs = mp_sz + (if cs = 0 then 0 else cache_sz * of_nat RTE_MAX_LCORE)"

text \<open>
  \<open>Inl\<close> has \<open>rte_errno\<close> (\<open>None\<close>: not set) and the zones that were reserved and not freed. \<open>te\<close> and
  \<open>reserve\<close> are the answers of the allocators; the driver's data starts as NULL.
\<close>

definition rte_mempool_create_empty ::
    "u32 \<times> u32 \<Rightarrow> u64 \<times> u64 \<Rightarrow> bool \<Rightarrow> (string \<Rightarrow> u64 \<Rightarrow> nat + c_int) \<Rightarrow> string \<Rightarrow> u32 \<Rightarrow> u32 \<Rightarrow> u32 \<Rightarrow> u32 \<Rightarrow> u32 \<Rightarrow>
     (c_int option \<times> nat list + nat \<times> (nat, nat rte_ring option) mempool) option" where
  "rte_mempool_create_empty mem sizes te reserve name n elt_size cache_size private_data_size flags =
     (if n = 0 then Some (Inl (Some EINVAL, []))
      else if RTE_MEMPOOL_CACHE_MAX_SIZE < unat cache_size \<or> CALC_CACHE_FLUSHTHRESH cache_size > n
      then Some (Inl (Some EINVAL, []))
      else do {
        let flags = (if flags AND MEMPOOL_F_NO_CACHE_ALIGN \<noteq> 0 then flags OR MEMPOOL_F_NO_SPREAD else flags);
        sz \<leftarrow> rte_mempool_calc_obj_size (fst mem) (snd mem) elt_size flags;
        if sz_total sz = 0 then Some (Inl (Some EINVAL, []))
        else if \<not> te then Some (Inl (None, []))
        else do {
          let private_data_size = (private_data_size + RTE_MEMPOOL_ALIGN_MASK) AND NOT RTE_MEMPOOL_ALIGN_MASK;
          let mempool_size = MEMPOOL_HEADER_SIZE (fst sizes) (snd sizes) cache_size + ucast private_data_size;
          let mempool_size = RTE_ALIGN_CEIL mempool_size 64;
          if length (''MP_'' @ name) \<ge> RTE_MEMZONE_NAMESIZE then Some (Inl (Some ENAMETOOLONG, []))
          else (case reserve (''MP_'' @ name) mempool_size of
              Inr e \<Rightarrow> Some (Inl (Some e, []))
            | Inl z \<Rightarrow>
                if length name \<ge> RTE_MEMPOOL_NAMESIZE then Some (Inl (Some ENAMETOOLONG, [z]))
                else Some (Inr (z,
                  \<lparr>mp_size = n, mp_cache_size = cache_size, mp_flags = flags, mp_header_size = sz_header sz,
                   mp_elt_size = sz_elt sz, mp_trailer_size = sz_trailer sz, mp_populated_size = 0, mp_elts = [],
                   mp_mems = [], mp_data = None,
                   mp_caches = (if cache_size = 0 then [] else replicate RTE_MAX_LCORE (mempool_cache_init zero_cache cache_size))\<rparr>))) } })"

text \<open>The ring driver's \<open>alloc\<close>, in the environment \<open>renv\<close> of rings.\<close>

definition ring_alloc ::
    "u64 \<Rightarrow> bool \<Rightarrow> (nat + c_int) \<Rightarrow> string \<Rightarrow> nat ring_env \<Rightarrow> (nat, nat rte_ring option) mempool \<Rightarrow>
     c_int \<times> (nat, nat rte_ring option) mempool" where
  "ring_alloc hdr te mz name renv mp =
     (case common_ring_alloc hdr te mz 0 name (mp_size mp) (mp_flags mp) renv of
        (None, ret, _) \<Rightarrow> (ret, mp)
      | (Some a, ret, renv) \<Rightarrow> (ret, mp\<lparr>mp_data := rings renv a\<rparr>))"

definition ring_ops_name :: "u32 \<Rightarrow> string" where
  "ring_ops_name flags =
     (if flags AND MEMPOOL_F_SP_PUT \<noteq> 0 \<and> flags AND MEMPOOL_F_SC_GET \<noteq> 0 then ''ring_sp_sc''
      else if flags AND MEMPOOL_F_SP_PUT \<noteq> 0 then ''ring_sp_mc''
      else if flags AND MEMPOOL_F_SC_GET \<noteq> 0 then ''ring_mp_sc''
      else ''ring_mp_mc'')"

text \<open>
  \<open>rte_mempool_create\<close> for a pool without \<open>mp_init\<close> and \<open>obj_init\<close> (a pool's users iterate over the
  objects with \<open>rte_mempool_obj_iter\<close>). \<open>None\<close> inside is NULL.
\<close>

definition rte_mempool_create ::
    "(string \<times> (nat, nat rte_ring option) pool_ops) list \<Rightarrow>
     ((nat, nat rte_ring option) mempool \<Rightarrow> c_int \<times> (nat, nat rte_ring option) mempool) \<Rightarrow> pool_env \<Rightarrow>
     u32 \<times> u32 \<Rightarrow> u64 \<times> u64 \<Rightarrow> bool \<Rightarrow> (string \<Rightarrow> u64 \<Rightarrow> nat + c_int) \<Rightarrow> string \<Rightarrow> u32 \<Rightarrow> u32 \<Rightarrow> u32 \<Rightarrow> u32 \<Rightarrow> u32 \<Rightarrow>
     (nat, nat rte_ring option) mempool option option" where
  "rte_mempool_create table alloc env mem sizes te reserve name n elt_size cache_size private_data_size flags = do {
     r \<leftarrow> rte_mempool_create_empty mem sizes te reserve name n elt_size cache_size private_data_size flags;
     case r of Inl _ \<Rightarrow> Some None
     | Inr (z, mp) \<Rightarrow>
         (case rte_mempool_set_ops_byname (mp_flags mp) table (ring_ops_name flags) of
            (ret, None) \<Rightarrow> Some None
          | (ret, Some i) \<Rightarrow> do {
              (ret, freed, mp) \<leftarrow> rte_mempool_populate_default (snd (table ! i)) alloc env name mp;
              if ret < 0 then Some None else Some (Some mp) }) }"

section \<open>The driver chosen\<close>

definition ring_drivers :: "(string \<times> (nat, nat rte_ring option) pool_ops) list" where
  "ring_drivers = [(''ring_mp_mc'', ops_mp_mc), (''ring_sp_sc'', ops_sp_sc), (''ring_mp_sc'', ops_mp_sc), (''ring_sp_mc'', ops_sp_mc)]"

lemma find_ops_Some:
  "(name, h) \<in> set table \<Longrightarrow> distinct (map fst table) \<Longrightarrow>
     \<exists>i. find_ops name table k = Some i \<and> k \<le> i \<and> i - k < length table \<and> table ! (i - k) = (name, h)"
proof (induction table arbitrary: k)
  case (Cons e t)
  show ?case
  proof (cases "fst e = name")
    case True
    with Cons.prems have "e = (name, h)" by (cases e) force
    then show ?thesis by simp
  next
    case False
    with Cons.prems obtain i where "find_ops name t (Suc k) = Some i" "Suc k \<le> i" "i - Suc k < length t" "t ! (i - Suc k) = (name, h)"
      using Cons.IH [of "Suc k"] by auto
    with False show ?thesis by (cases e) (auto simp: nth_Cons' Suc_diff_le)
  qed
qed simp

text \<open>Constructors run in any order; the table is a permutation of the four drivers.\<close>

lemma driver_of_flags:
  assumes "mset table = mset ring_drivers" "flags' AND MEMPOOL_F_POOL_CREATED = 0"
  shows "\<exists>i. rte_mempool_set_ops_byname flags' table (ring_ops_name flags) = (0, Some i) \<and>
     snd (table ! i) = ring_ops_of_flags flags"
proof -
  have m: "mset (map fst table) = mset (map fst ring_drivers)" using assms(1) by (simp add: mset_map)
  have "distinct (map fst ring_drivers)" by (simp add: ring_drivers_def)
  then have d: "distinct (map fst table)" using m by (metis mset_eq_imp_distinct_iff)
  have "(ring_ops_name flags, ring_ops_of_flags flags) \<in> set ring_drivers"
    by (simp add: ring_drivers_def ring_ops_name_def ring_ops_of_flags_def)
  then have "(ring_ops_name flags, ring_ops_of_flags flags) \<in> set table" using assms(1) by (metis mset_eq_setD)
  from find_ops_Some [OF this d, of 0] show ?thesis
    using assms(2) by (auto simp: rte_mempool_set_ops_byname_def)
qed

section \<open>A pool made in one zone\<close>

definition elt_total :: "('o, 'p) mempool \<Rightarrow> nat" where
  "elt_total mp = unat (mp_header_size mp) + unat (mp_elt_size mp) + unat (mp_trailer_size mp)"

lemma total_elt_sz_spec:
  assumes "elt_total mp < 2 ^ 32"
  shows "unat (total_elt_sz mp) = elt_total mp"
proof -
  have a: "unat (mp_header_size mp + mp_elt_size mp) = unat (mp_header_size mp) + unat (mp_elt_size mp)"
    using assms by (subst unat_add_no_overflow) (auto simp: elt_total_def)
  then have "unat (mp_header_size mp + mp_elt_size mp + mp_trailer_size mp) = elt_total mp"
    using assms by (subst unat_add_no_overflow) (auto simp: elt_total_def)
  then show ?thesis by (simp add: total_elt_sz_def unat_ucast_up)
qed

lemma ptr_pad_aligned: "64 dvd vaddr \<Longrightarrow> ptr_pad vaddr 64 = 0 \<and> ptr_pad vaddr 8 = 0"
  by (auto simp: ptr_pad_def dvd_def)

lemma populate_iova_ok:
  assumes bp: "bulk_pool ops pinv pitems pcap" and inv: "pinv (mp_data mp)" and
    cr: "mp_flags mp AND MEMPOOL_F_POOL_CREATED \<noteq> 0" and sz: "mp_populated_size mp < mp_size mp" and
    T: "0 < elt_total mp" "elt_total mp < 2 ^ 32" and len: "unat len < 2 ^ 63" "64 dvd vaddr" and
    k: "k = unat (mp_size mp - mp_populated_size mp)" "k * elt_total mp \<le> unat len" and
    room: "length (pitems (mp_data mp)) + k \<le> pcap (mp_data mp)"
  shows "\<exists>mp' h. rte_mempool_populate_iova ops alloc True mp vaddr iova len free_cb opaque =
      Some (int k, mp'\<lparr>mp_mems := mp_mems mp' @ [h]\<rparr>) \<and>
     populated pinv pitems pcap mp (slots (vaddr + unat (mp_header_size mp)) (elt_total mp) k) mp'"
proof -
  have once: "mempool_ops_alloc_once alloc mp = (0, mp)" using cr by (simp add: mempool_ops_alloc_once_def)
  let ?rest = "mp_size mp - mp_populated_size mp"
  have "k * elt_total mp div elt_total mp \<le> unat len div elt_total mp" using k(2) by (rule div_le_mono)
  then have km: "k = min (unat ?rest - unat (0 :: u32)) ((unat len - unat (0 :: u64)) div elt_total mp)"
    using k(1) T(1) by simp
  obtain mp' where l: "populate_loop ops ?rest vaddr iova len
      (total_elt_sz mp) 0 0 mp = Some (0 + of_nat k, mp')"
    "populated pinv pitems pcap mp (slots (vaddr + unat (0 :: u64) + unat (mp_header_size mp)) (elt_total mp) k) mp'"
    using populate_loop_ok [OF bp T len(1) total_elt_sz_spec [OF T(2)] inv _ _ km room] by (auto simp: elt_total_def)
  have r: "of_nat k = ?rest" using k(1) by simp
  have nz: "?rest \<noteq> 0" using sz by auto
  have notfull: "\<not> mp_size mp \<le> mp_populated_size mp" using sz by (simp add: not_le)
  have "rte_mempool_op_populate_default ops mp ?rest vaddr iova len = Some (?rest, mp')"
    using l(1) r by (simp add: rte_mempool_op_populate_default_def)
  then have "rte_mempool_populate_iova ops alloc True mp vaddr iova len free_cb opaque =
      Some (int k, mp'\<lparr>mp_mems := mp_mems mp' @ [\<lparr>mh_addr = vaddr, mh_iova = iova, mh_len = len, mh_free = free_cb, mh_opaque = opaque\<rparr>]\<rparr>)"
    using notfull nz k(1) ptr_pad_aligned [OF len(2)] unfolding rte_mempool_populate_iova_def once
    by (cases "iova = RTE_BAD_IOVA") (simp_all add: Let_def)
  with l(2) show ?thesis by auto
qed

text \<open>
  What \<open>rte_memzone_reserve_aligned\<close> answers: a zone whose address is a multiple of the alignment and whose length is the one asked for,
  rounded up to cache lines (\<open>mz->len\<close> in \<open>eal_common_memzone.c\<close>), as long as there is memory and no zone of this name. \<open>avail\<close> is the memory there is.
\<close>

definition zone_of :: "pool_env \<Rightarrow> string \<Rightarrow> u64 \<Rightarrow> memzone \<Rightarrow> bool" where
  "zone_of env nm l z \<longleftrightarrow>
     pe_reserve env nm l False 64 = Inl z \<and> 64 dvd mz_addr z \<and> unat (mz_len z) = 64 * ((unat l + 63) div 64)"

definition eal_memory :: "pool_env \<Rightarrow> string \<Rightarrow> nat \<Rightarrow> bool" where
  "eal_memory env nm avail \<longleftrightarrow>
     pe_external env = 0 \<and> pe_iova_va env \<and> pe_header env \<and> avail \<le> 2 ^ 62 \<and>
     (\<forall>l. 0 < l \<and> unat l \<le> avail \<longrightarrow> (\<exists>z. zone_of env nm l z))"

lemma zone_room: "zone_of env nm l z \<Longrightarrow> unat l \<le> 2 ^ 62 \<Longrightarrow> unat l \<le> unat (mz_len z) \<and> unat (mz_len z) < 2 ^ 63"
  by (auto simp: zone_of_def)

lemma calc_mem_flat:
  assumes "elt_total mp < 2 ^ 31"
  shows "unat (fst (rte_mempool_op_calc_mem_size_default mp n 0)) = elt_total mp * unat n"
    "unat (fst (snd (rte_mempool_op_calc_mem_size_default mp n 0))) \<le> max 1 (elt_total mp)"
proof -
  have t: "unat (total_elt_sz mp) = elt_total mp" using assms by (intro total_elt_sz_spec) simp
  have n: "unat (ucast n :: u64) = unat n" by (rule unat_ucast_up) simp
  have "unat n < 2 ^ 32" using unat_lt2p [of n] by simp
  then have "elt_total mp * unat n < 2 ^ 31 * 2 ^ 32" using assms by (intro mult_strict_mono) auto
  then have "unat (total_elt_sz mp * ucast n) = elt_total mp * unat n"
    using t n by (subst word_of_nat_unat_mult) auto
  then show "unat (fst (rte_mempool_op_calc_mem_size_default mp n 0)) = elt_total mp * unat n"
    using t by (auto simp: rte_mempool_op_calc_mem_size_default_def Let_def unat_eq_0)
  show "unat (fst (snd (rte_mempool_op_calc_mem_size_default mp n 0))) \<le> max 1 (elt_total mp)"
    using t by (auto simp: rte_mempool_op_calc_mem_size_default_def Let_def max_def word_le_nat_alt)
qed

lemma calc_mem_size: "0 < elt_total mp \<Longrightarrow> elt_total mp < 2 ^ 31 \<Longrightarrow>
    fst (rte_mempool_op_calc_mem_size_default mp n 0) = total_elt_sz mp * ucast n \<and>
    snd (snd (rte_mempool_op_calc_mem_size_default mp n 0)) = 64"
  using total_elt_sz_spec [of mp] by (auto simp: rte_mempool_op_calc_mem_size_default_def Let_def max_def word_le_nat_alt)

text \<open>The name of the first zone of a pool.\<close>

abbreviation first_zone :: "string \<Rightarrow> string" where "first_zone name \<equiv> ''MP_'' @ name @ ''_'' @ ''0''"

lemma dec_0: "dec 0 = ''0''"
  by code_simp

lemma reserve_one:
  assumes T: "elt_total mp < 2 ^ 31" "0 < elt_total mp" and z: "zone_of env (first_zone name) (total_elt_sz mp * ucast n) z"
    and small: "elt_total mp * unat n \<le> 2 ^ 62" and "length name < 26" "0 < n"
  shows "\<exists>m. reserve_zone env name mp True 0 0 False 0 n = Inr (z, False, m) \<and> \<not> mz_len z < m"
    "elt_total mp * unat n \<le> unat (mz_len z)" "unat (mz_len z) < 2 ^ 63"
proof -
  obtain mem_size m a where c: "rte_mempool_op_calc_mem_size_default mp n 0 = (mem_size, m, a)"
    by (metis prod_cases3)
  have ms: "unat mem_size = elt_total mp * unat n" "unat m \<le> max 1 (elt_total mp)"
    using calc_mem_flat [OF T(1), of n] c by simp_all
  have e: "mem_size = total_elt_sz mp * ucast n" "a = 64" using calc_mem_size [OF T(2,1), of n] c by simp_all
  have zl: "elt_total mp * unat n \<le> unat (mz_len z)" "unat (mz_len z) < 2 ^ 63" "pe_reserve env (first_zone name) mem_size False 64 = Inl z"
    using zone_room [OF z] z ms(1) small by (simp_all add: e zone_of_def)
  show "elt_total mp * unat n \<le> unat (mz_len z)" "unat (mz_len z) < 2 ^ 63" by (rule zl)+
  have n1: "1 \<le> unat n" using assms(6) by (simp add: word_less_nat_alt Suc_le_eq)
  have mx: "max 1 (elt_total mp) = elt_total mp" using T(2) by simp
  have "elt_total mp * 1 \<le> elt_total mp * unat n" using n1 by (intro mult_le_mono2)
  then have "unat m \<le> unat (mz_len z)" using ms(2) [unfolded mx] zl(1) unfolding mult_1_right by (meson order_trans)
  then have le: "\<not> mz_len z < m" by (simp add: not_less word_le_nat_alt)
  have "unat mem_size < 2 ^ 63" using ms(1) zl(1,2) by simp
  from sint_small [OF this] have nn: "\<not> sint mem_size < 0" by simp
  have "length (first_zone name) < RTE_MEMZONE_NAMESIZE"
    using assms(5) by (simp add: RTE_MEMZONE_NAMESIZE_def)
  then have nm: "\<not> length (first_zone name) \<ge> RTE_MEMZONE_NAMESIZE" by (simp only: not_le)
  have "reserve_zone env name mp True 0 0 False 0 n = Inr (z, False, m)"
    unfolding reserve_zone_def if_True simp_thms c Let_def prod.case dec_0 if_not_P [OF nn] if_not_P [OF nm] e(2)
    by (simp add: zl(3) [simplified])
  with le show "\<exists>m. reserve_zone env name mp True 0 0 False 0 n = Inr (z, False, m) \<and> \<not> mz_len z < m" by blast
qed

lemma populate_default_ok:
  assumes bp: "bulk_pool ops pinv pitems pcap" and T: "0 < elt_total mp" "elt_total mp < 2 ^ 31"
    and env: "pe_external env = 0" "pe_iova_va env" "pe_header env"
    and z: "zone_of env (first_zone name) (total_elt_sz mp * ucast (mp_size mp)) z" and small: "elt_total mp * unat (mp_size mp) \<le> 2 ^ 62"
    and nm: "length name < 26" and n: "0 < mp_size mp" "unat (mp_size mp) < 2 ^ 31"
    and al: "mempool_ops_alloc_once alloc mp = (0, mp1)" "mp1 = mp\<lparr>mp_data := d, mp_flags := mp_flags mp OR MEMPOOL_F_POOL_CREATED\<rparr>"
    and d: "pinv d" "pitems d = []" "unat (mp_size mp) \<le> pcap d"
    and fresh: "mp_mems mp = []" "mp_populated_size mp = 0" "mp_elts mp = []"
  shows "\<exists>mp' freed h. rte_mempool_populate_default ops alloc env name mp = Some (int (unat (mp_size mp)), freed, mp'\<lparr>mp_mems := h\<rparr>) \<and>
     populated pinv pitems pcap mp1 (slots (mz_addr z + unat (mp_header_size mp)) (elt_total mp) (unat (mp_size mp))) mp'"
proof -
  have T1: "elt_total mp1 = elt_total mp" "total_elt_sz mp1 = total_elt_sz mp" by (simp_all add: al(2) elt_total_def total_elt_sz_def)
  let ?nc = "mp_flags mp1 AND MEMPOOL_F_NO_IOVA_CONTIG \<noteq> 0"
  have flag: "mp_flags mp1 AND MEMPOOL_F_POOL_CREATED \<noteq> 0"
  proof
    assume "mp_flags mp1 AND MEMPOOL_F_POOL_CREATED = 0"
    then have "bit (mp_flags mp1 AND MEMPOOL_F_POOL_CREATED) 4 = bit (0 :: u32) 4" by (rule arg_cong)
    then show False by (simp add: al(2) bit_and_iff bit_or_iff MEMPOOL_F_POOL_CREATED_def)
  qed
  obtain m where rz: "reserve_zone env name mp1 True 0 0 False 0 (mp_size mp) = Inr (z, False, m)" "\<not> mz_len z < m"
    using reserve_one(1) [of mp1 env name "mp_size mp" z] T z small nm n(1) T1 by auto
  have zl: "64 dvd mz_addr z" "unat (mz_len z) < 2 ^ 63" "unat (mp_size mp) * elt_total mp1 \<le> unat (mz_len z)"
    using reserve_one(2,3) [of mp1 env name "mp_size mp" z] T z small nm n(1) T1 by (auto simp: zone_of_def mult.commute)
  have k: "unat (mp_size mp) = unat (mp_size mp1 - mp_populated_size mp1)" using fresh by (simp add: al(2))
  have i1: "pinv (mp_data mp1)" and room: "length (pitems (mp_data mp1)) + unat (mp_size mp) \<le> pcap (mp_data mp1)"
    and lt: "mp_populated_size mp1 < mp_size mp1"
    using d n(1) fresh(2) by (simp_all add: al(2))
  have t1: "0 < elt_total mp1" "elt_total mp1 < 2 ^ 32" using T T1(1) by simp_all
  obtain mp' h where p: "rte_mempool_populate_iova ops alloc True mp1 (mz_addr z) (if ?nc then RTE_BAD_IOVA else mz_iova z) (mz_len z) True (mz_id z) =
      Some (int (unat (mp_size mp)), mp'\<lparr>mp_mems := mp_mems mp' @ [h]\<rparr>)"
    "populated pinv pitems pcap mp1 (slots (mz_addr z + unat (mp_header_size mp1)) (elt_total mp1) (unat (mp_size mp))) mp'"
    using populate_iova_ok [OF bp i1 flag lt t1 zl(2,1) k zl(3) room] by blast
  have end0: "default_loop ops alloc env name ?nc True 0 0 False (Suc 0) 0 [] q = Some (None, [], q)" for q
    by (subst default_loop.simps) simp
  have "mp_size mp \<noteq> 0" using n(1) by auto
  then have loop: "default_loop ops alloc env name ?nc True 0 0 False 0 (mp_size mp) [] mp1 =
      Some (None, [], mp'\<lparr>mp_mems := mp_mems mp' @ [h]\<rparr>)"
    using rz p(1) env end0 by (subst default_loop.simps) simp
  have e: "\<not> pe_external env < 0" "pe_external env \<noteq> 1" "pe_iova_va env" using env by auto
  have "mp_mems mp1 = []" "mp_size mp1 = mp_size mp" "mp_size mp' = mp_size mp"
    using fresh(1) p(2) by (simp_all add: al(2) populated_def same_shape_def)
  then have "rte_mempool_populate_default ops alloc env name mp =
      Some (int (unat (mp_size mp)), [], mp'\<lparr>mp_mems := mp_mems mp' @ [h]\<rparr>)"
    using e loop unfolding rte_mempool_populate_default_def al(1) by (simp add: Let_def)
  with p(2) T1 show ?thesis by (auto simp: al(2))
qed

lemma sum_list_empties: "sum_list (replicate k {#}) = {#}"
  by (induction k) auto

lemma cache_init_ok:
  assumes "cache_size \<noteq> 0" "unat cache_size \<le> RTE_MEMPOOL_CACHE_MAX_SIZE"
  shows "cache_ok (mempool_cache_init zero_cache cache_size) \<and> cache_items (mempool_cache_init zero_cache cache_size) = []"
  using cache_create_ok [of zero_cache cache_size] assms
  by (simp add: rte_mempool_cache_create_def zero_cache_def)

text \<open>The empty pool.\<close>

lemma create_empty_ok:
  assumes "unat elt_size < 2 ^ 20" "banks (fst mem) (snd mem) < 2 ^ 16" "0 < n" "length name < 26"
    "unat cache_size \<le> RTE_MEMPOOL_CACHE_MAX_SIZE" "CALC_CACHE_FLUSHTHRESH cache_size \<le> n"
    "reserve (''MP_'' @ name) (RTE_ALIGN_CEIL (MEMPOOL_HEADER_SIZE (fst sizes) (snd sizes) cache_size +
        ucast ((private_size + RTE_MEMPOOL_ALIGN_MASK) AND NOT RTE_MEMPOOL_ALIGN_MASK)) 64) = Inl z0"
  shows "\<exists>mp. rte_mempool_create_empty mem sizes True reserve name n elt_size cache_size private_size flags = Some (Inr (z0, mp)) \<and>
     mp_size mp = n \<and> mp_cache_size mp = cache_size \<and> mp_data mp = None \<and> mp_mems mp = [] \<and> mp_populated_size mp = 0 \<and>
     mp_elts mp = [] \<and> mp_flags mp = (if flags AND MEMPOOL_F_NO_CACHE_ALIGN \<noteq> 0 then flags OR MEMPOOL_F_NO_SPREAD else flags) \<and>
     unat elt_size \<le> unat (mp_elt_size mp) \<and> 24 \<le> unat (mp_header_size mp) \<and> elt_total mp < 2 ^ 31 \<and>
     (\<exists>osz. rte_mempool_calc_obj_size (fst mem) (snd mem) elt_size (mp_flags mp) = Some osz \<and>
        mp_header_size mp = sz_header osz \<and> elt_total mp = unat (sz_total osz) \<and> total_elt_sz mp = ucast (sz_total osz)) \<and>
     list_all cache_ok (mp_caches mp) \<and> caches_items (mp_caches mp) = {#} \<and>
     length (mp_caches mp) = (if cache_size = 0 then 0 else RTE_MAX_LCORE)"
proof -
  let ?f = "if flags AND MEMPOOL_F_NO_CACHE_ALIGN \<noteq> 0 then flags OR MEMPOOL_F_NO_SPREAD else flags"
  obtain sz where sz: "rte_mempool_calc_obj_size (fst mem) (snd mem) elt_size ?f = Some sz"
    "size_ok (fst mem) (snd mem) elt_size ?f sz"
    using calc_obj_size_ok [of elt_size "fst mem" "snd mem" ?f] assms(1,2) by auto
  have s: "unat (sz_total sz) = unat (sz_header sz) + unat (sz_elt sz) + unat (sz_trailer sz)" "24 \<le> unat (sz_header sz)"
    "unat elt_size \<le> unat (sz_elt sz)" "unat (sz_total sz) < 2 ^ 31"
    using sz(2) assms(1,2) by (auto simp: size_ok_def)
  then have nz: "sz_total sz \<noteq> 0" by auto
  let ?cs = "if cache_size = 0 then [] else replicate RTE_MAX_LCORE (mempool_cache_init zero_cache cache_size)"
  have cs: "list_all cache_ok ?cs" "caches_items ?cs = {#}" "length ?cs = (if cache_size = 0 then 0 else RTE_MAX_LCORE)"
    using cache_init_ok [of cache_size] assms(5)
    by (auto simp: caches_items_def list_all_iff sum_list_empties map_replicate)
  have g: "n \<noteq> 0" "\<not> (RTE_MEMPOOL_CACHE_MAX_SIZE < unat cache_size \<or> CALC_CACHE_FLUSHTHRESH cache_size > n)"
    "\<not> length (''MP_'' @ name) \<ge> RTE_MEMZONE_NAMESIZE" "\<not> length name \<ge> RTE_MEMPOOL_NAMESIZE"
    using assms(3-6) by (auto simp: RTE_MEMZONE_NAMESIZE_def RTE_MEMPOOL_NAMESIZE_def RTE_RING_NAMESIZE_def)
  let ?mp = "\<lparr>mp_size = n, mp_cache_size = cache_size, mp_flags = ?f, mp_header_size = sz_header sz,
     mp_elt_size = sz_elt sz, mp_trailer_size = sz_trailer sz, mp_populated_size = 0, mp_elts = [],
     mp_mems = [], mp_data = None, mp_caches = ?cs\<rparr> :: (nat, nat rte_ring option) mempool"
  have "rte_mempool_create_empty mem sizes True reserve name n elt_size cache_size private_size flags = Some (Inr (z0, ?mp))"
    unfolding rte_mempool_create_empty_def Let_def sz(1) if_not_P [OF g(1)] if_not_P [OF g(2)] if_not_P [OF g(3)] if_not_P [OF g(4)]
    using nz assms(7) by simp
  moreover have "total_elt_sz ?mp = ucast (sz_total sz)" using sz(2) by (simp add: total_elt_sz_def size_ok_def)
  ultimately show ?thesis using s cs sz(1) by (intro exI [of _ ?mp]) (simp add: elt_total_def)
qed

lemma create_ok:
  assumes table: "mset table = mset ring_drivers" and hdr: "unat hdr < 2 ^ 20"
    and sz: "unat elt_size < 2 ^ 20" "banks (fst mem) (snd mem) < 2 ^ 16" and n: "0 < n" "unat n < 2 ^ 30" and nm: "length name < 26"
    and cs: "unat cache_size \<le> RTE_MEMPOOL_CACHE_MAX_SIZE" "CALC_CACHE_FLUSHTHRESH cache_size \<le> n"
    and res: "\<And>l. reserve (''MP_'' @ name) l = Inl z0" and fl: "flags AND MEMPOOL_F_POOL_CREATED = 0"
    and osz: "rte_mempool_calc_obj_size (fst mem) (snd mem) elt_size
        (if flags AND MEMPOOL_F_NO_CACHE_ALIGN \<noteq> 0 then flags OR MEMPOOL_F_NO_SPREAD else flags) = Some osz"
    and env: "eal_memory env (first_zone name) avail" and room: "unat (sz_total osz) * unat n \<le> avail"
  shows "\<exists>mp z. zone_of env (first_zone name) (ucast (sz_total osz) * ucast n) z \<and> rte_mempool_create table (ring_alloc hdr True (Inl a) name renv) env mem sizes True reserve name n elt_size
       cache_size private_size flags = Some (Some mp) \<and>
     map fst (mp_elts mp) = slots (mz_addr z + unat (sz_header osz)) (unat (sz_total osz)) (unat n) \<and>
     24 \<le> unat (sz_header osz) \<and> unat (sz_header osz) + unat elt_size \<le> unat (sz_total osz) \<and>
     unat (sz_total osz) * unat n \<le> unat (mz_len z) \<and>
     ring_pool_ok (mset (map fst (mp_elts mp))) mp {#} \<and> mp_size mp = n \<and> caches_items (mp_caches mp) = {#}"
proof -
  obtain mp0 where mp0: "rte_mempool_create_empty mem sizes True reserve name n elt_size cache_size private_size flags = Some (Inr (z0, mp0))"
     "mp_size mp0 = n" "mp_cache_size mp0 = cache_size" "mp_mems mp0 = []" "mp_populated_size mp0 = 0" "mp_elts mp0 = []"
     "mp_flags mp0 = (if flags AND MEMPOOL_F_NO_CACHE_ALIGN \<noteq> 0 then flags OR MEMPOOL_F_NO_SPREAD else flags)"
     "unat elt_size \<le> unat (mp_elt_size mp0)" "24 \<le> unat (mp_header_size mp0)" "elt_total mp0 < 2 ^ 31"
     "list_all cache_ok (mp_caches mp0)" "caches_items (mp_caches mp0) = {#}"
     "length (mp_caches mp0) = (if cache_size = 0 then 0 else RTE_MAX_LCORE)"
     "mp_header_size mp0 = sz_header osz" "elt_total mp0 = unat (sz_total osz)" "total_elt_sz mp0 = ucast (sz_total osz)"
    using create_empty_ok [where reserve = reserve and sizes = sizes and private_size = private_size and flags = flags,
        OF sz n(1) nm cs res] osz by fastforce
  have nc: "mp_flags mp0 AND MEMPOOL_F_POOL_CREATED = 0"
    using fl by (simp add: mp0(7) bit.conj_disj_distrib2 MEMPOOL_F_NO_SPREAD_def MEMPOOL_F_POOL_CREATED_def)
  obtain i where i: "rte_mempool_set_ops_byname (mp_flags mp0) table (ring_ops_name flags) = (0, Some i)"
    "snd (table ! i) = ring_ops_of_flags flags"
    using driver_of_flags [OF table nc] by blast
  have n0: "0 < unat n" using n(1) by (simp add: word_less_nat_alt)
  obtain env' r where al: "common_ring_alloc hdr True (Inl a) 0 name (mp_size mp0) (mp_flags mp0) renv = (Some a, 0, env')"
     "rings env' a = Some r" "ring_wf r" "ring_items r = []" "unat n \<le> ring_cap r"
    using alloc_ok [OF hdr nm n0 n(2), of a 0 "mp_flags mp0" renv] mp0(2) by auto
  let ?mp1 = "mp0\<lparr>mp_data := Some r, mp_flags := mp_flags mp0 OR MEMPOOL_F_POOL_CREATED\<rparr>"
  have once: "mempool_ops_alloc_once (ring_alloc hdr True (Inl a) name renv) mp0 = (0, ?mp1)"
    using nc al(1,2) by (simp add: mempool_ops_alloc_once_def ring_alloc_def)
  have T: "0 < elt_total mp0" using mp0(9) by (simp add: elt_total_def)
  have n64: "unat (ucast n :: u64) = unat n" by (rule unat_ucast_up) simp
  have e: "pe_external env = 0" "pe_iova_va env" "pe_header env" "avail \<le> 2 ^ 62"
    using env by (simp_all add: eal_memory_def)
  have small: "elt_total mp0 * unat (mp_size mp0) \<le> 2 ^ 62" using room e(4) mp0(2,15) by simp
  have ask: "unat (total_elt_sz mp0 * ucast n) = elt_total mp0 * unat n"
    using small mp0(2) n64 total_elt_sz_spec [of mp0] mp0(10) by (subst word_of_nat_unat_mult) auto
  have "0 < elt_total mp0 * unat n" using T n0 by simp
  then have "0 < total_elt_sz mp0 * ucast n" using ask by (simp add: word_less_nat_alt)
  then obtain z where z: "zone_of env (first_zone name) (total_elt_sz mp0 * ucast n) z"
    using env ask room mp0(15) unfolding eal_memory_def by auto
  have c: "data_wf (Some r)" "data_items (Some r) = []" "unat (mp_size mp0) \<le> data_cap (Some r)" "0 < mp_size mp0" "unat (mp_size mp0) < 2 ^ 31"
    using al mp0(2) n by simp_all
  obtain mp' freed h where p: "rte_mempool_populate_default (ring_ops_of_flags flags) (ring_alloc hdr True (Inl a) name renv) env name mp0 =
      Some (int (unat n), freed, mp'\<lparr>mp_mems := h\<rparr>)"
    "populated data_wf data_items data_cap ?mp1 (slots (mz_addr z + unat (mp_header_size mp0)) (elt_total mp0) (unat n)) mp'"
    using populate_default_ok [OF of_flags.bulk_pool_axioms [of flags] T mp0(10) e(1-3) z [folded mp0(2)] small nm c(4,5) once refl c(1-3) mp0(4-6)]
    unfolding mp0(2) by blast
  let ?mp = "mp'\<lparr>mp_mems := h\<rparr>"
  have res: "rte_mempool_create table (ring_alloc hdr True (Inl a) name renv) env mem sizes True reserve name n elt_size
       cache_size private_size flags = Some (Some ?mp)"
    by (simp add: rte_mempool_create_def mp0(1) i p(1))
  have pd: "map fst (mp_elts mp') = slots (mz_addr z + unat (mp_header_size mp0)) (elt_total mp0) (unat n)"
    "mset (data_items (mp_data mp')) = mset (slots (mz_addr z + unat (mp_header_size mp0)) (elt_total mp0) (unat n))"
    "mp_header_size mp' = mp_header_size mp0" "mp_caches mp' = mp_caches mp0" "mp_cache_size mp' = cache_size" "mp_size mp' = n"
    "data_wf (mp_data mp')" "data_cap (mp_data mp') = ring_cap r"
    using p(2) mp0(2,3,6) al(4) by (simp_all add: populated_def same_shape_def)
  have "ring_pool_ok (mset (map fst (mp_elts mp'))) ?mp {#}"
    using pd mp0(11-13) al(5) by (simp add: pool_ok_def slots_def)
  moreover have "unat (mp_header_size mp0) + unat elt_size \<le> elt_total mp0" using mp0(8) by (simp add: elt_total_def)
  moreover have "elt_total mp0 * unat n \<le> unat (mz_len z)" using zone_room [OF z] ask small mp0(2) by simp
  ultimately show ?thesis using res pd mp0(9,12,14-16) z by (intro exI [of _ ?mp] exI [of _ z]) simp
qed

text \<open>A name of 26 to 28 characters is refused after its zone has been reserved, and the zone stays.\<close>

lemma create_empty_leak:
  assumes "unat elt_size < 2 ^ 20" "banks (fst mem) (snd mem) < 2 ^ 16" "0 < n" "26 \<le> length name" "length name < 29"
    "unat cache_size \<le> RTE_MEMPOOL_CACHE_MAX_SIZE" "CALC_CACHE_FLUSHTHRESH cache_size \<le> n" "\<And>l. reserve (''MP_'' @ name) l = Inl z0"
  shows "rte_mempool_create_empty mem sizes True reserve name n elt_size cache_size private_size flags = Some (Inl (Some ENAMETOOLONG, [z0]))"
proof -
  let ?f = "if flags AND MEMPOOL_F_NO_CACHE_ALIGN \<noteq> 0 then flags OR MEMPOOL_F_NO_SPREAD else flags"
  obtain sz where sz: "rte_mempool_calc_obj_size (fst mem) (snd mem) elt_size ?f = Some sz"
    "size_ok (fst mem) (snd mem) elt_size ?f sz"
    using calc_obj_size_ok [of elt_size "fst mem" "snd mem" ?f] assms(1,2) by auto
  have nz: "sz_total sz \<noteq> 0" using sz(2) by (auto simp: size_ok_def)
  have g: "n \<noteq> 0" "\<not> (RTE_MEMPOOL_CACHE_MAX_SIZE < unat cache_size \<or> CALC_CACHE_FLUSHTHRESH cache_size > n)"
    "\<not> length (''MP_'' @ name) \<ge> RTE_MEMZONE_NAMESIZE" "length name \<ge> RTE_MEMPOOL_NAMESIZE"
    using assms(3-7) by (auto simp: RTE_MEMZONE_NAMESIZE_def RTE_MEMPOOL_NAMESIZE_def RTE_RING_NAMESIZE_def)
  show ?thesis
    unfolding rte_mempool_create_empty_def Let_def sz(1) if_not_P [OF g(1)] if_not_P [OF g(2)] if_not_P [OF g(3)] if_P [OF g(4)]
    using nz assms(8) by simp
qed

section \<open>Properties\<close>

text \<open>
  C2: A pool from its creation to its use. With enough memory for \<open>n\<close> objects in EAL's answer to the one request for a zone of exactly \<open>n\<close> times the
  size of an object, and the four ring drivers registered in any order, \<open>rte_mempool_create\<close> gives a pool of exactly \<open>n\<close> objects. They
  lie in that zone, one behind the other, each with its header before it and room for its bytes, are all different, and all are in the pool; after any sequence
  of gets and puts every object is still in exactly one place.
\<close>
theorem created_pool_works:
  assumes table: "mset table = mset ring_drivers" and hdr: "unat hdr < 2 ^ 20"
    and sz: "unat elt_size < 2 ^ 20" "banks (fst mem) (snd mem) < 2 ^ 16" and n: "0 < n" "unat n < 2 ^ 30" and nm: "length name < 26"
    and cs: "unat cache_size \<le> RTE_MEMPOOL_CACHE_MAX_SIZE" "CALC_CACHE_FLUSHTHRESH cache_size \<le> n"
    and res: "\<And>l. reserve (''MP_'' @ name) l = Inl z0" and fl: "flags AND MEMPOOL_F_POOL_CREATED = 0"
    and osz: "rte_mempool_calc_obj_size (fst mem) (snd mem) elt_size
        (if flags AND MEMPOOL_F_NO_CACHE_ALIGN \<noteq> 0 then flags OR MEMPOOL_F_NO_SPREAD else flags) = Some osz"
    and env: "eal_memory env (first_zone name) avail" and room: "unat (sz_total osz) * unat n \<le> avail"
  shows "\<exists>mp z. zone_of env (first_zone name) (ucast (sz_total osz) * ucast n) z \<and>
     rte_mempool_create table (ring_alloc hdr True (Inl a) name renv) env mem sizes True reserve name n elt_size
       cache_size private_size flags = Some (Some mp) \<and>
     map fst (mp_elts mp) = slots (mz_addr z + unat (sz_header osz)) (unat (sz_total osz)) (unat n) \<and>
     24 \<le> unat (sz_header osz) \<and> unat (sz_header osz) + unat elt_size \<le> unat (sz_total osz) \<and> distinct (map fst (mp_elts mp)) \<and>
     (\<forall>ob \<in> set (map fst (mp_elts mp)). mz_addr z + unat (sz_header osz) \<le> ob \<and> ob + unat elt_size \<le> mz_addr z + unat (mz_len z)) \<and>
     (\<forall>xs. \<exists>mp' held. pool_runs (ring_ops_of_flags flags) (mp, {#}) xs = Some (mp', held) \<and>
        ring_pool_ok (mset (map fst (mp_elts mp))) mp' held)"
proof -
  obtain mp z where p: "zone_of env (first_zone name) (ucast (sz_total osz) * ucast n) z"
    "rte_mempool_create table (ring_alloc hdr True (Inl a) name renv) env mem sizes True reserve name n elt_size
       cache_size private_size flags = Some (Some mp)"
    "map fst (mp_elts mp) = slots (mz_addr z + unat (sz_header osz)) (unat (sz_total osz)) (unat n)" "24 \<le> unat (sz_header osz)"
    "unat (sz_header osz) + unat elt_size \<le> unat (sz_total osz)" "unat (sz_total osz) * unat n \<le> unat (mz_len z)"
    "ring_pool_ok (mset (map fst (mp_elts mp))) mp {#}"
    using create_ok [where reserve = reserve and env = env and private_size = private_size and a = a and renv = renv
        and sizes = sizes, OF table hdr sz n nm cs res fl osz env room] by blast
  have "0 < unat (sz_total osz)" using p(4,5) by linarith
  then have "distinct (map fst (mp_elts mp))" unfolding p(3) by (rule slots_distinct)
  moreover have "mz_addr z + unat (sz_header osz) \<le> ob \<and> ob + unat elt_size \<le> mz_addr z + unat (mz_len z)"
    if "ob \<in> set (map fst (mp_elts mp))" for ob
    using slots_inside [OF that [unfolded p(3)] p(5,6)] .
  ultimately show ?thesis using p pool_runs_ok [OF p(7)] by blast
qed

text \<open>EAL with memory from 4 GB on.\<close>

definition zone_sample :: "u64 \<Rightarrow> memzone" where
  "zone_sample l = \<lparr>mz_id = 1, mz_addr = 0x100000000, mz_iova = 0x100000000, mz_len = RTE_ALIGN_CEIL l 64\<rparr>"

definition pool_env_sample :: pool_env where
  "pool_env_sample = \<lparr>pe_external = 0, pe_iova_va = True, pe_hugepages = True, pe_min_page = 0x200000, pe_page = 0x1000,
     pe_virt2iova = of_nat, pe_header = True, pe_reserve = (\<lambda>_ l _ _. if unat l \<le> 2 ^ 30 then Inl (zone_sample l) else Inr ENOMEM)\<rparr>"

lemma pool_env_sample_ok: "eal_memory pool_env_sample nm (2 ^ 30)"
proof -
  have "unat (RTE_ALIGN_CEIL l 64) = 64 * ((unat l + 63) div 64)" if "unat l \<le> 2 ^ 30" for l :: u64
  proof -
    have "unat (l + 63) = unat l + 63" using that by (subst unat_add_no_overflow) simp_all
    then show ?thesis using align_floor_spec [of 6 "l + 63"]
      by (simp add: RTE_ALIGN_CEIL_def minus_mod_eq_mult_div)
  qed
  then show ?thesis by (simp add: eal_memory_def pool_env_sample_def zone_of_def zone_sample_def)
qed

theorem created_pool_works_witness:
  "\<exists>mp. rte_mempool_create ring_drivers
      (ring_alloc 384 True (Inl 9) ''MBUF_POOL'' \<lparr>ring_list = [], rings = Map.empty, rte_errno = 0\<rparr>) pool_env_sample (4, 2)
      (192, 12352) True (\<lambda>_ _. Inl 5) ''MBUF_POOL'' 8191 2304 250 64 0 = Some (Some mp) \<and> length (mp_elts mp) = 8191"
proof -
  have c: "CALC_CACHE_FLUSHTHRESH 250 \<le> 8191" "unat (250 :: u32) \<le> RTE_MEMPOOL_CACHE_MAX_SIZE" "banks (fst (4, 2)) (snd (4, 2)) < 2 ^ 16"
    by (simp_all add: CALC_CACHE_FLUSHTHRESH_def RTE_MEMPOOL_CACHE_MAX_SIZE_def banks_def)
  obtain osz where osz: "rte_mempool_calc_obj_size (fst (4, 2 :: u32)) (snd (4 :: u32, 2)) 2304 0 = Some osz" "size_ok 4 2 2304 0 osz"
    using calc_obj_size_ok [of 2304 4 2 0] c(3) by auto
  have "unat (sz_total osz) < unat (2304 :: u32) + 256 + 64 * (banks 4 2 + 1)" using osz(2) unfolding size_ok_def by blast
  then have "unat (sz_total osz) < 4096" by (simp add: banks_def)
  then have room: "unat (sz_total osz) * unat (8191 :: u32) \<le> 2 ^ 30" by simp
  have d: "unat (384 :: u64) < 2 ^ 20" "unat (2304 :: u32) < 2 ^ 20" "0 < (8191 :: u32)" "unat (8191 :: u32) < 2 ^ 30" "length ''MBUF_POOL'' < 26"
    "(0 :: u32) AND MEMPOOL_F_POOL_CREATED = 0" by simp_all
  have osz': "rte_mempool_calc_obj_size (fst (4, 2 :: u32)) (snd (4 :: u32, 2)) 2304
      (if (0 :: u32) AND MEMPOOL_F_NO_CACHE_ALIGN \<noteq> 0 then 0 OR MEMPOOL_F_NO_SPREAD else 0) = Some osz" using osz(1) by simp
  obtain mp and z :: memzone where p: "rte_mempool_create ring_drivers
      (ring_alloc 384 True (Inl 9) ''MBUF_POOL'' \<lparr>ring_list = [], rings = Map.empty, rte_errno = 0\<rparr>) pool_env_sample (4, 2)
      (192, 12352) True (\<lambda>_ _. Inl 5) ''MBUF_POOL'' 8191 2304 250 64 0 = Some (Some mp)"
    "map fst (mp_elts mp) = slots (mz_addr z + unat (sz_header osz)) (unat (sz_total osz)) (unat (8191 :: u32))"
    using created_pool_works [where reserve = "\<lambda>_ _. Inl 5" and hdr = 384 and elt_size = 2304 and name = "''MBUF_POOL''"
        and flags = 0 and a = 9 and renv = "\<lparr>ring_list = [], rings = Map.empty, rte_errno = 0\<rparr>" and sizes = "(192, 12352)"
        and private_size = 64, OF refl d(1,2) c(3) d(3-5) c(2,1) refl d(6) osz' pool_env_sample_ok room] by blast
  have "length (map fst (mp_elts mp)) = 8191" unfolding p(2) by (simp add: slots_def)
  with p(1) show ?thesis by auto
qed

text \<open>
  A pool whose name has 26 to 28 characters is refused with \<open>ENAMETOOLONG\<close> only after its memory
  zone has been reserved, and the zone is not freed; shorter names give a pool, longer ones are refused before.
\<close>
theorem create_empty_name_leak:
  assumes "unat elt_size < 2 ^ 20" "banks (fst mem) (snd mem) < 2 ^ 16" "0 < n"
    "unat cache_size \<le> RTE_MEMPOOL_CACHE_MAX_SIZE" "CALC_CACHE_FLUSHTHRESH cache_size \<le> n" "\<And>l. reserve (''MP_'' @ name) l = Inl z0"
    "length name < 29"
  shows "if length name < 26
     then \<exists>mp. rte_mempool_create_empty mem sizes True reserve name n elt_size cache_size private_size flags = Some (Inr (z0, mp))
     else rte_mempool_create_empty mem sizes True reserve name n elt_size cache_size private_size flags = Some (Inl (Some ENAMETOOLONG, [z0]))"
proof (cases "length name < 26")
  case True
  then show ?thesis using create_empty_ok [where reserve = reserve and sizes = sizes and private_size = private_size and flags = flags,
      OF assms(1-3) True assms(4-6)] by auto
next
  case False
  then have "26 \<le> length name" by simp
  from create_empty_leak [where reserve = reserve, OF assms(1-3) this assms(7,4,5,6)] False show ?thesis by simp
qed

theorem create_empty_name_leak_witness:
  "rte_mempool_create_empty (4, 2) (192, 12352) True (\<lambda>_ _. Inl 5) (replicate 27 CHR ''a'') 8191 2304 250 64 0 =
     Some (Inl (Some 36, [5]))"
proof -
  have c: "CALC_CACHE_FLUSHTHRESH 250 \<le> 8191" "unat (250 :: u32) \<le> RTE_MEMPOOL_CACHE_MAX_SIZE" "banks (fst (4, 2)) (snd (4, 2)) < 2 ^ 16"
    by (simp_all add: CALC_CACHE_FLUSHTHRESH_def RTE_MEMPOOL_CACHE_MAX_SIZE_def banks_def)
  show ?thesis
    using create_empty_name_leak [where elt_size = 2304 and name = "replicate 27 CHR ''a''" and reserve = "\<lambda>_ _. Inl 5"
        and ?z0.0 = 5 and sizes = "(192, 12352)" and private_size = 64 and flags = 0, OF _ c(3) _ c(2,1)] by simp
qed

end
