(* ===== verification/MbufCreate.thy ===== *)
theory MbufCreate
  imports MbufPool MempoolCreate
begin

text \<open>
  Creating a pool of packet buffers (\<open>rte_pktmbuf_pool_create\<close> and the functions of \<open>rte_mbuf.c\<close> it
  is made of): an empty memory pool whose objects have room for an mbuf, its private area and its data, filled
  by the driver, and every object made an mbuf. The pool's address is that of its memory zone; \<open>ram\<close> is what
  the memory holds that becomes the data buffers.
\<close>

section \<open>Definitions\<close>

definition rte_mbuf_best_mempool_ops :: "string option \<Rightarrow> string option \<Rightarrow> string" where
  "rte_mbuf_best_mempool_ops user platform =
     (case user of Some best_ops \<Rightarrow> best_ops
      | None \<Rightarrow> (case platform of Some best_ops \<Rightarrow> best_ops | None \<Rightarrow> ''ring_mp_mc''))"

text \<open>The private data a pool gets, from its element size when the caller gives none.\<close>

definition rte_pktmbuf_pool_init :: "('o, 'p) mempool \<Rightarrow> pktmbuf_pool_private option \<Rightarrow> pktmbuf_pool_private" where
  "rte_pktmbuf_pool_init mp opaque_arg =
     (case opaque_arg of Some user_mbp_priv \<Rightarrow> user_mbp_priv
      | None \<Rightarrow> \<lparr>mbuf_data_room_size = (if mp_elt_size mp > of_nat sizeof_mbuf then ucast (mp_elt_size mp - of_nat sizeof_mbuf) else 0),
                 mbuf_priv_size = 0\<rparr>)"

text \<open>What \<open>memset\<close> leaves.\<close>

definition mbuf_zero :: mbuf where
  "mbuf_zero =
     \<lparr>mb_buf_addr = 0, mb_buf_iova = 0, mb_data_off = 0, mb_refcnt = 0, mb_nb_segs = 0, mb_port = 0, mb_ol_flags = 0,
      mb_packet_type = 0, mb_pkt_len = 0, mb_data_len = 0, mb_vlan_tci = 0, mb_hash = 0, mb_vlan_tci_outer = 0,
      mb_buf_len = 0, mb_timestamp = 0, mb_pool = 0, mb_next = None, mb_tx_offload = 0, mb_priv_size = 0, mb_shinfo = 0\<rparr>"

definition rte_pktmbuf_init :: "(nat \<Rightarrow> u8) \<Rightarrow> nat \<Rightarrow> 'p mbuf_pool \<Rightarrow> maddr \<Rightarrow> 'p mbuf_mem \<Rightarrow> 'p mbuf_mem option" where
  "rte_pktmbuf_init ram mp P m mm = do {
     let priv_size = rte_pktmbuf_priv_size P;
     let mbuf_size = of_nat sizeof_mbuf + (ucast priv_size :: u32);
     let buf_len = rte_pktmbuf_data_room_size P;
     iova \<leftarrow> rte_mempool_virt2iova (pl_mp P) m;
     let buf_addr = m + unat mbuf_size;
     let M = mbuf_zero\<lparr>mb_priv_size := priv_size, mb_buf_addr := buf_addr, mb_buf_iova := iova + ucast mbuf_size,
               mb_buf_len := buf_len, mb_data_off := min RTE_PKTMBUF_HEADROOM buf_len, mb_pool := mp, mb_nb_segs := 1,
               mb_port := MBUF_INVALID_PORT, mb_refcnt := 1, mb_next := None\<rparr>;
     Some (mm\<lparr>mm_mbufs := (mm_mbufs mm)(m \<mapsto> M),
              mm_bufs := (mm_bufs mm)(buf_addr \<mapsto> map ram [buf_addr..<buf_addr + unat buf_len])\<rparr>) }"

text \<open>\<open>Inl\<close> is NULL with \<open>rte_errno\<close> (\<open>None\<close>: not set).\<close>

definition rte_pktmbuf_pool_create_by_ops ::
    "(string \<times> (nat, nat rte_ring option) pool_ops) list \<Rightarrow>
     ((nat, nat rte_ring option) mempool \<Rightarrow> c_int \<times> (nat, nat rte_ring option) mempool) \<Rightarrow> pool_env \<Rightarrow> u32 \<times> u32 \<Rightarrow> u64 \<times> u64 \<Rightarrow>
     bool \<Rightarrow> (string \<Rightarrow> u64 \<Rightarrow> nat + c_int) \<Rightarrow> (nat \<Rightarrow> u8) \<Rightarrow> string \<Rightarrow> string \<Rightarrow> u32 \<Rightarrow> u32 \<Rightarrow> u16 \<Rightarrow> u16 \<Rightarrow> string option \<Rightarrow>
     (nat rte_ring option) mbuf_mem \<Rightarrow> (c_int option + nat \<times> (nat rte_ring option) mbuf_mem) option" where
  "rte_pktmbuf_pool_create_by_ops table alloc env mem sizes te reserve ram best name n cache_size priv_size data_room_size ops_name mm =
     (if RTE_ALIGN_CEIL priv_size RTE_MBUF_PRIV_ALIGN \<noteq> priv_size then Some (Inl (Some EINVAL))
      else do {
        let elt_size = of_nat sizeof_mbuf + ucast priv_size + ucast data_room_size;
        let mbp_priv = \<lparr>mbuf_data_room_size = data_room_size, mbuf_priv_size = priv_size\<rparr>;
        r \<leftarrow> rte_mempool_create_empty mem sizes te reserve name n elt_size cache_size 4 0;
        case r of Inl (e, _) \<Rightarrow> Some (Inl e)
        | Inr (z, mp) \<Rightarrow>
            (case rte_mempool_set_ops_byname (mp_flags mp) table (case ops_name of None \<Rightarrow> best | Some nm \<Rightarrow> nm) of
               (ret, None) \<Rightarrow> Some (Inl (Some (- ret)))
             | (ret, Some i) \<Rightarrow> do {
                 let priv = rte_pktmbuf_pool_init mp (Some mbp_priv);
                 (ret, freed, mp) \<leftarrow> rte_mempool_populate_default (snd (table ! i)) alloc env name mp;
                 if ret < 0 then Some (Inl (Some (- ret)))
                 else do {
                   let P = \<lparr>pl_ops = snd (table ! i), pl_mp = mp, pl_priv = priv\<rparr>;
                   (k, mm) \<leftarrow> rte_mempool_obj_iter mp (rte_pktmbuf_init ram z P) (mm\<lparr>mm_pools := (mm_pools mm)(z \<mapsto> P)\<rparr>);
                   Some (Inr (z, mm)) } }) })"

definition rte_pktmbuf_pool_create ::
    "(string \<times> (nat, nat rte_ring option) pool_ops) list \<Rightarrow>
     ((nat, nat rte_ring option) mempool \<Rightarrow> c_int \<times> (nat, nat rte_ring option) mempool) \<Rightarrow> pool_env \<Rightarrow> u32 \<times> u32 \<Rightarrow> u64 \<times> u64 \<Rightarrow>
     bool \<Rightarrow> (string \<Rightarrow> u64 \<Rightarrow> nat + c_int) \<Rightarrow> (nat \<Rightarrow> u8) \<Rightarrow> string \<Rightarrow> string \<Rightarrow> u32 \<Rightarrow> u32 \<Rightarrow> u16 \<Rightarrow> u16 \<Rightarrow>
     (nat rte_ring option) mbuf_mem \<Rightarrow> (c_int option + nat \<times> (nat rte_ring option) mbuf_mem) option" where
  "rte_pktmbuf_pool_create table alloc env mem sizes te reserve ram best name n cache_size priv_size data_room_size mm =
     rte_pktmbuf_pool_create_by_ops table alloc env mem sizes te reserve ram best name n cache_size priv_size data_room_size None mm"

section \<open>Every object an mbuf\<close>

definition all_free :: "'p mbuf_pool \<Rightarrow> nat \<Rightarrow> maddr set \<Rightarrow> 'p mbuf_mem \<Rightarrow> bool" where
  "all_free P mp A mm \<longleftrightarrow> (\<forall>m \<in> A. \<exists>M. mm_mbufs mm m = Some M \<and> free_mbuf (mm_bufs mm) P mp m M)"

lemma mbuf_size_unat: "unat (of_nat sizeof_mbuf + (ucast (p :: u16) :: u32)) = sizeof_mbuf + unat p"
proof -
  have "unat (ucast p :: u32) = unat p" by (simp add: unat_ucast_up)
  then show ?thesis using unat_lt2p [of p] by (subst unat_add_no_overflow) (simp_all add: sizeof_mbuf_def)
qed

lemma init_ok:
  assumes "map_of (mp_elts (pl_mp P)) m \<noteq> None" "all_free P mp A mm"
  shows "\<exists>mm'. rte_pktmbuf_init ram mp P m mm = Some mm' \<and> all_free P mp (insert m A) mm' \<and> mm_pools mm' = mm_pools mm"
proof -
  obtain iova where i: "rte_mempool_virt2iova (pl_mp P) m = Some iova" using assms(1) by (auto simp: rte_mempool_virt2iova_def)
  let ?a = "m + (sizeof_mbuf + unat (rte_pktmbuf_priv_size P))"
  let ?n = "rte_pktmbuf_data_room_size P"
  define M where "M = mbuf_zero\<lparr>mb_priv_size := rte_pktmbuf_priv_size P, mb_buf_addr := ?a,
      mb_buf_iova := iova + ucast (of_nat sizeof_mbuf + (ucast (rte_pktmbuf_priv_size P) :: u32)),
      mb_buf_len := ?n, mb_data_off := min RTE_PKTMBUF_HEADROOM ?n, mb_pool := mp, mb_nb_segs := 1,
      mb_port := MBUF_INVALID_PORT, mb_refcnt := 1, mb_next := None\<rparr>"
  let ?mm = "mm\<lparr>mm_mbufs := (mm_mbufs mm)(m \<mapsto> M), mm_bufs := (mm_bufs mm)(?a \<mapsto> map ram [?a..<?a + unat ?n])\<rparr>"
  have run: "rte_pktmbuf_init ram mp P m mm = Some ?mm"
    unfolding rte_pktmbuf_init_def i Let_def mbuf_size_unat by (simp add: M_def)
  have this_one: "free_mbuf (mm_bufs ?mm) P mp m M"
    by (simp add: free_mbuf_def own_buf_def M_def mbuf_zero_def RTE_MBUF_DIRECT_def rte_mbuf_buf_addr_def)
  have "free_mbuf (mm_bufs ?mm) P mp s S" if "free_mbuf (mm_bufs mm) P mp s S" "s \<noteq> m" for s S
    using that by (auto simp: free_mbuf_def own_buf_def rte_mbuf_buf_addr_def)
  then have "all_free P mp (insert m A) ?mm" using assms(2) this_one by (auto simp: all_free_def)
  then show ?thesis using run by (intro exI [of _ ?mm]) simp
qed

lemma iter_ok:
  assumes "all_free P mp A mm" "\<forall>x \<in> set xs. map_of (mp_elts (pl_mp P)) (fst x) \<noteq> None"
  shows "\<exists>mm'. foldl (\<lambda>s (ob, _). Option.bind s (rte_pktmbuf_init ram mp P ob)) (Some mm) xs = Some mm' \<and>
     all_free P mp (A \<union> fst ` set xs) mm' \<and> mm_pools mm' = mm_pools mm"
  using assms
proof (induction xs arbitrary: A mm)
  case (Cons x xs)
  obtain m1 where m1: "rte_pktmbuf_init ram mp P (fst x) mm = Some m1" "all_free P mp (insert (fst x) A) m1" "mm_pools m1 = mm_pools mm"
    using init_ok [of P "fst x" mp A mm ram] Cons.prems by auto
  from Cons.IH [OF m1(2)] Cons.prems(2) obtain m2 where
    m2: "foldl (\<lambda>s (ob, _). Option.bind s (rte_pktmbuf_init ram mp P ob)) (Some m1) xs = Some m2"
      "all_free P mp (insert (fst x) A \<union> fst ` set xs) m2" "mm_pools m2 = mm_pools m1" by auto
  then show ?case using m1 by (intro exI [of _ m2]) (cases x, simp)
qed simp

lemma elt_size_fits:
  fixes p d :: u16
  shows "unat (of_nat sizeof_mbuf + ucast p + ucast d :: u32) = sizeof_mbuf + unat p + unat d"
    "unat (of_nat sizeof_mbuf + ucast p + ucast d :: u32) < 2 ^ 20"
proof -
  have "unat (ucast d :: u32) = unat d" by (simp add: unat_ucast_up)
  then show e: "unat (of_nat sizeof_mbuf + ucast p + ucast d :: u32) = sizeof_mbuf + unat p + unat d"
    using mbuf_size_unat [of p] unat_lt2p [of p] unat_lt2p [of d]
    by (subst unat_add_no_overflow) (simp_all add: sizeof_mbuf_def)
  show "unat (of_nat sizeof_mbuf + ucast p + ucast d :: u32) < 2 ^ 20"
    unfolding e using unat_lt2p [of p] unat_lt2p [of d] by (simp add: sizeof_mbuf_def)
qed

text \<open>The pool that \<open>rte_mempool_create\<close> makes for the same arguments is the one inside.\<close>

lemma create_by_ops:
  assumes al: "RTE_ALIGN_CEIL priv_size RTE_MBUF_PRIV_ALIGN = priv_size"
    and c: "rte_mempool_create table alloc env mem sizes te reserve name n
       (of_nat sizeof_mbuf + ucast priv_size + ucast data_room_size) cache_size 4 0 = Some (Some mp)"
    and res: "\<And>l. reserve (''MP_'' @ name) l = Inl z0"
    and table: "mset table = mset ring_drivers"
  shows "\<exists>P. pl_mp P = mp \<and> pl_ops P = ring_ops_of_flags 0 \<and>
     pl_priv P = \<lparr>mbuf_data_room_size = data_room_size, mbuf_priv_size = priv_size\<rparr> \<and>
     rte_pktmbuf_pool_create table alloc env mem sizes te reserve ram (ring_ops_name 0) name n cache_size priv_size data_room_size mm =
       do { (k, mm) \<leftarrow> rte_mempool_obj_iter mp (rte_pktmbuf_init ram z0 P) (mm\<lparr>mm_pools := (mm_pools mm)(z0 \<mapsto> P)\<rparr>); Some (Inr (z0, mm)) }"
proof -
  let ?e = "of_nat sizeof_mbuf + ucast priv_size + ucast data_room_size :: u32"
  note c' = c [unfolded rte_mempool_create_def]
  obtain r where r: "rte_mempool_create_empty mem sizes te reserve name n ?e cache_size 4 0 = Some r" 
    using c' by (auto simp: bind_eq_Some_conv)
  obtain z mp0 where e: "rte_mempool_create_empty mem sizes te reserve name n ?e cache_size 4 0 = Some (Inr (z, mp0))"
    using c' r by (cases r) auto
  have z: "z = z0" using e res by (auto simp: rte_mempool_create_empty_def Let_def bind_eq_Some_conv split: if_splits sum.splits)
  obtain ret oi where so: "rte_mempool_set_ops_byname (mp_flags mp0) table (ring_ops_name 0) = (ret, oi)" by fastforce
  then obtain i where s: "rte_mempool_set_ops_byname (mp_flags mp0) table (ring_ops_name 0) = (ret, Some i)"
    using c' e by (cases oi) auto
  have "\<exists>r f. rte_mempool_populate_default (snd (table ! i)) alloc env name mp0 = Some (r, f, mp) \<and> \<not> r < 0"
    using c' e s by (auto simp: bind_eq_Some_conv split: if_splits)
  then obtain r f where p: "rte_mempool_populate_default (snd (table ! i)) alloc env name mp0 = Some (r, f, mp)" "\<not> r < 0" by blast
  have "mp_flags mp0 AND MEMPOOL_F_POOL_CREATED = 0" using s by (auto simp: rte_mempool_set_ops_byname_def split: if_splits)
  from driver_of_flags [OF table this, of 0] have ops: "snd (table ! i) = ring_ops_of_flags 0" using s by auto
  show ?thesis
    by (intro exI [of _ "\<lparr>pl_ops = snd (table ! i), pl_mp = mp,
        pl_priv = \<lparr>mbuf_data_room_size = data_room_size, mbuf_priv_size = priv_size\<rparr>\<rparr>"])
      (use al e s p z ops in \<open>simp add: rte_pktmbuf_pool_create_def rte_pktmbuf_pool_create_by_ops_def rte_pktmbuf_pool_init_def Let_def\<close>)
qed

lemma pktmbuf_pool_create_ok:
  assumes table: "mset table = mset ring_drivers" and hdr: "unat hdr < 2 ^ 20"
    and al: "RTE_ALIGN_CEIL priv_size RTE_MBUF_PRIV_ALIGN = priv_size" and b: "banks (fst mem) (snd mem) < 2 ^ 16"
    and n: "0 < n" "unat n < 2 ^ 30" and nm: "length name < 26"
    and cs: "unat cache_size \<le> RTE_MEMPOOL_CACHE_MAX_SIZE" "CALC_CACHE_FLUSHTHRESH cache_size \<le> n"
    and res: "\<And>l. reserve (''MP_'' @ name) l = Inl z0" 
    and osz: "rte_mempool_calc_obj_size (fst mem) (snd mem) (of_nat sizeof_mbuf + ucast priv_size + ucast data_room_size) 0 = Some osz"
    and env: "eal_memory env (first_zone name) avail" and room: "unat (sz_total osz) * unat n \<le> avail"
  shows "\<exists>mm' z.
     zone_of env (first_zone name) (ucast (sz_total osz) * ucast n) z \<and>
     rte_pktmbuf_pool_create table (ring_alloc hdr True (Inl a) name renv) env mem sizes True reserve ram (ring_ops_name 0) name n
       cache_size priv_size data_room_size mm = Some (Inr (z0, mm')) \<and>
     24 \<le> unat (sz_header osz) \<and> unat (sz_header osz) + (sizeof_mbuf + unat priv_size + unat data_room_size) \<le> unat (sz_total osz) \<and>
     unat (sz_total osz) * unat n \<le> unat (mz_len z) \<and>
     pktpool_ok (ring_ops_of_flags 0) data_wf data_items data_cap
       (set (slots (mz_addr z + unat (sz_header osz)) (unat (sz_total osz)) (unat n))) z0 mm' {} \<and>
     (\<exists>P. mm_pools mm' z0 = Some P \<and> data_items (mp_data (pl_mp P)) \<noteq> [] \<and>
        pl_priv P = \<lparr>mbuf_data_room_size = data_room_size, mbuf_priv_size = priv_size\<rparr>)"
proof -
  let ?e = "of_nat sizeof_mbuf + ucast priv_size + ucast data_room_size :: u32"
  have f0: "(0 :: u32) AND MEMPOOL_F_POOL_CREATED = 0" by simp
  have osz': "rte_mempool_calc_obj_size (fst mem) (snd mem) ?e
      (if (0 :: u32) AND MEMPOOL_F_NO_CACHE_ALIGN \<noteq> 0 then 0 OR MEMPOOL_F_NO_SPREAD else 0) = Some osz" using osz by simp
  obtain mp z where p: "rte_mempool_create table (ring_alloc hdr True (Inl a) name renv) env mem sizes True reserve name n ?e
       cache_size 4 0 = Some (Some mp)"
    "map fst (mp_elts mp) = slots (mz_addr z + unat (sz_header osz)) (unat (sz_total osz)) (unat n)" "24 \<le> unat (sz_header osz)"
    "unat (sz_header osz) + unat ?e \<le> unat (sz_total osz)" "ring_pool_ok (mset (map fst (mp_elts mp))) mp {#}"
    "caches_items (mp_caches mp) = {#}" "zone_of env (first_zone name) (ucast (sz_total osz) * ucast n) z"
    "unat (sz_total osz) * unat n \<le> unat (mz_len z)"
    using create_ok [where reserve = reserve and env = env and private_size = 4 and a = a and renv = renv
        and sizes = sizes, OF table hdr elt_size_fits(2) b n nm cs res f0 osz' env room] by blast
  let ?xs = "slots (mz_addr z + unat (sz_header osz)) (unat (sz_total osz)) (unat n)"
  let ?A = "set ?xs"
  obtain P where P: "pl_mp P = mp" "pl_ops P = ring_ops_of_flags 0"
      "pl_priv P = \<lparr>mbuf_data_room_size = data_room_size, mbuf_priv_size = priv_size\<rparr>"
      "rte_pktmbuf_pool_create table (ring_alloc hdr True (Inl a) name renv) env mem sizes True reserve ram (ring_ops_name 0) name n
         cache_size priv_size data_room_size mm =
       do { (k, mm) \<leftarrow> rte_mempool_obj_iter mp (rte_pktmbuf_init ram z0 P) (mm\<lparr>mm_pools := (mm_pools mm)(z0 \<mapsto> P)\<rparr>); Some (Inr (z0, mm)) }"
    using create_by_ops [OF al p(1) res table] by blast
  let ?m0 = "mm\<lparr>mm_pools := (mm_pools mm)(z0 \<mapsto> P)\<rparr>"
  have "\<forall>x \<in> set (mp_elts mp). map_of (mp_elts (pl_mp P)) (fst x) \<noteq> None"
    by (simp add: P(1) map_of_eq_None_iff)
  moreover have "all_free P z0 {} ?m0" by (simp add: all_free_def)
  ultimately obtain m1 where m1: "foldl (\<lambda>s (ob, _). Option.bind s (rte_pktmbuf_init ram z0 P ob)) (Some ?m0) (mp_elts mp) = Some m1"
      "all_free P z0 (fst ` set (mp_elts mp)) m1" "mm_pools m1 = mm_pools ?m0"
    using iter_ok [of P z0 "{}" ?m0 "mp_elts mp" ram] by auto
  have A: "fst ` set (mp_elts mp) = ?A" using p(2) by (metis set_map)
  have "0 < unat (sz_total osz)" using p(3,4) by linarith
  then have "distinct ?xs" by (rule slots_distinct)
  then have ms: "mset (map fst (mp_elts mp)) = mset_set ?A" unfolding p(2) by (simp add: mset_set_set)
  have "pktpool_ok (ring_ops_of_flags 0) data_wf data_items data_cap ?A z0 m1 {}"
    using m1(2,3) A p(5) P(1,2) ms by (auto simp: pktpool_ok_def all_free_def)
  moreover have "rte_pktmbuf_pool_create table (ring_alloc hdr True (Inl a) name renv) env mem sizes True reserve ram (ring_ops_name 0) name n
         cache_size priv_size data_room_size mm = Some (Inr (z0, m1))"
    using P(4) m1(1) by (simp add: rte_mempool_obj_iter_def)
  moreover have "unat (sz_header osz) + (sizeof_mbuf + unat priv_size + unat data_room_size) \<le> unat (sz_total osz)"
    using p(4) elt_size_fits(1) [of priv_size data_room_size] by simp
  moreover have "data_items (mp_data mp) \<noteq> []"
  proof -
    have "mset (data_items (mp_data mp)) = mset ?xs" using p(2,5,6) by (simp add: pool_ok_def)
    then have "length (data_items (mp_data mp)) = unat n" by (metis size_mset length_map length_upt minus_nat.diff_0 slots_def)
    then show ?thesis using n(1) by (auto simp: word_less_nat_alt)
  qed
  ultimately show ?thesis using m1(3) P(1,3) p(3,7,8)
    by (intro exI [of _ m1] exI [of _ z]) simp
qed

text \<open>The mbufs of the server fit into 1 GB.\<close>

lemma server_mbuf_size:
  obtains osz where "rte_mempool_calc_obj_size (fst (4, 2 :: u32)) (snd (4 :: u32, 2)) (of_nat sizeof_mbuf + ucast (0 :: u16) + ucast (2176 :: u16)) 0 = Some osz"
    "unat (sz_total osz) * unat (4096 :: u32) \<le> 2 ^ 30"
proof -
  let ?e = "of_nat sizeof_mbuf + ucast (0 :: u16) + ucast (2176 :: u16) :: u32"
  have e: "unat ?e = sizeof_mbuf + 2176" using elt_size_fits(1) [of 0 2176] by simp
  obtain osz where osz: "rte_mempool_calc_obj_size 4 2 ?e 0 = Some osz" "size_ok 4 2 ?e 0 osz"
    using calc_obj_size_ok [of ?e 4 2 0] e by (auto simp: banks_def sizeof_mbuf_def)
  have "unat (sz_total osz) < unat ?e + 256 + 64 * (banks 4 2 + 1)" using osz(2) unfolding size_ok_def by blast
  then have "unat (sz_total osz) < 4096" using e by (simp add: banks_def sizeof_mbuf_def)
  then show ?thesis using osz(1) by (intro that [of osz]) simp_all
qed

section \<open>Properties\<close>

text \<open>
  C8: A packet pool from its creation to a packet. With memory for \<open>n\<close> mbufs in EAL's answer to the request for exactly that much, with the four ring drivers registered
  in any order and the multi-producer, multi-consumer ring as the best driver, \<open>rte_pktmbuf_pool_create\<close> makes \<open>n\<close> mbufs that lie in
  the zone, one behind the other without overlap, all of them free and with their own data buffers; \<open>rte_pktmbuf_alloc\<close> on any core then gives one of them
  as an empty packet.
\<close>

theorem packet_pool_created:
  assumes table: "mset table = mset ring_drivers" and hdr: "unat hdr < 2 ^ 20"
    and al: "RTE_ALIGN_CEIL priv_size RTE_MBUF_PRIV_ALIGN = priv_size" and b: "banks (fst mem) (snd mem) < 2 ^ 16"
    and n: "0 < n" "unat n < 2 ^ 30" and nm: "length name < 26"
    and cs: "unat cache_size \<le> RTE_MEMPOOL_CACHE_MAX_SIZE" "CALC_CACHE_FLUSHTHRESH cache_size \<le> n"
    and res: "\<And>l. reserve (''MP_'' @ name) l = Inl z0"
    and osz: "rte_mempool_calc_obj_size (fst mem) (snd mem) (of_nat sizeof_mbuf + ucast priv_size + ucast data_room_size) 0 = Some osz"
    and env: "eal_memory env (first_zone name) avail" and room: "unat (sz_total osz) * unat n \<le> avail"
  shows "\<exists>mm1 z A.
     zone_of env (first_zone name) (ucast (sz_total osz) * ucast n) z \<and>
     rte_pktmbuf_pool_create table (ring_alloc hdr True (Inl a) name renv) env mem sizes True reserve ram
       (rte_mbuf_best_mempool_ops None None) name n cache_size priv_size data_room_size mm = Some (Inr (z0, mm1)) \<and>
     A = set (slots (mz_addr z + unat (sz_header osz)) (unat (sz_total osz)) (unat n)) \<and> card A = unat n \<and>
     sizeof_mbuf + unat priv_size + unat data_room_size < unat (sz_total osz) \<and>
     (\<forall>m \<in> A. mz_addr z < m \<and> m + (sizeof_mbuf + unat priv_size + unat data_room_size) \<le> mz_addr z + unat (mz_len z)) \<and>
     ring_pktpool_ok 0 A z0 mm1 {} \<and>
     (\<exists>m mm2. rte_pktmbuf_alloc lcore z0 mm1 = Some (Some m, mm2) \<and> m \<in> A \<and> pkt_ok mm2 m [m] \<and> pkt_bytes mm2 [m] = [] \<and>
        ring_pktpool_ok 0 A z0 mm2 {m})"
proof -
  have best: "rte_mbuf_best_mempool_ops None None = ring_ops_name 0"
    by (simp add: rte_mbuf_best_mempool_ops_def ring_ops_name_def)
  obtain mm1 z P where c: "rte_pktmbuf_pool_create table (ring_alloc hdr True (Inl a) name renv) env mem sizes True reserve ram
       (ring_ops_name 0) name n cache_size priv_size data_room_size mm = Some (Inr (z0, mm1))"
     "ring_pktpool_ok 0 (set (slots (mz_addr z + unat (sz_header osz)) (unat (sz_total osz)) (unat n))) z0 mm1 {}"
     "mm_pools mm1 z0 = Some P" "data_items (mp_data (pl_mp P)) \<noteq> []"
     "24 \<le> unat (sz_header osz)" "unat (sz_header osz) + (sizeof_mbuf + unat priv_size + unat data_room_size) \<le> unat (sz_total osz)"
     "unat (sz_total osz) * unat n \<le> unat (mz_len z)" "zone_of env (first_zone name) (ucast (sz_total osz) * ucast n) z"
    using pktmbuf_pool_create_ok [where reserve = reserve and env = env and a = a and renv = renv and sizes = sizes
        and ram = ram and mm = mm and data_room_size = data_room_size, OF table hdr al b n nm cs res osz env room] by blast
  let ?A = "set (slots (mz_addr z + unat (sz_header osz)) (unat (sz_total osz)) (unat n))"
  obtain m mm2 where r: "rte_pktmbuf_alloc lcore z0 mm1 = Some (Some m, mm2)"
      "m \<in> ?A \<and> pkt_ok mm2 m [m] \<and> pkt_bytes mm2 [m] = [] \<and> ring_pktpool_ok 0 ?A z0 mm2 {m}"
    using pkt.pktmbuf_alloc_ok [OF c(2,3), of lcore] c(4) by (auto split: option.splits)
  have "0 < unat (sz_total osz)" using c(5,6) by linarith
  then have "card ?A = unat n" by (simp only: distinct_card [OF slots_distinct]) (simp add: slots_def)
  moreover have "sizeof_mbuf + unat priv_size + unat data_room_size < unat (sz_total osz)" using c(5,6) by linarith
  moreover have "\<forall>m \<in> ?A. mz_addr z < m \<and> m + (sizeof_mbuf + unat priv_size + unat data_room_size) \<le> mz_addr z + unat (mz_len z)"
    using slots_inside [OF _ c(6,7)] c(5) by fastforce
  ultimately show ?thesis unfolding best using c(1,2,8) r by blast
qed

theorem packet_pool_created_witness:
  "\<exists>mm. rte_pktmbuf_pool_create ring_drivers
      (ring_alloc 384 True (Inl 9) ''mbuf_pool'' \<lparr>ring_list = [], rings = Map.empty, rte_errno = 0\<rparr>) pool_env_sample (4, 2)
      (192, 12352) True (\<lambda>_ _. Inl 5) (\<lambda>_. 0) (rte_mbuf_best_mempool_ops None None) ''mbuf_pool'' 4096 128 0 2176
      \<lparr>mm_mbufs = Map.empty, mm_bufs = Map.empty, mm_shinfos = Map.empty, mm_pools = Map.empty, mm_freed = []\<rparr> = Some (Inr (5, mm))"
proof -
  have c: "CALC_CACHE_FLUSHTHRESH 128 \<le> 4096" "unat (128 :: u32) \<le> RTE_MEMPOOL_CACHE_MAX_SIZE" "banks (fst (4, 2)) (snd (4, 2)) < 2 ^ 16"
    by (simp_all add: CALC_CACHE_FLUSHTHRESH_def RTE_MEMPOOL_CACHE_MAX_SIZE_def banks_def)
  have al: "RTE_ALIGN_CEIL 0 RTE_MBUF_PRIV_ALIGN = (0 :: u16)" by code_simp
  obtain osz where osz: "rte_mempool_calc_obj_size (fst (4, 2 :: u32)) (snd (4 :: u32, 2)) (of_nat sizeof_mbuf + ucast (0 :: u16) + ucast (2176 :: u16)) 0 = Some osz"
      "unat (sz_total osz) * unat (4096 :: u32) \<le> 2 ^ 30"
    by (rule server_mbuf_size)
  show ?thesis
    using packet_pool_created [where reserve = "\<lambda>_ _. Inl 5" and hdr = 384 and name = "''mbuf_pool''" and ram = "\<lambda>_. 0"
        and a = 9 and renv = "\<lparr>ring_list = [], rings = Map.empty, rte_errno = 0\<rparr>" and sizes = "(192, 12352)"
        and data_room_size = 2176 and n = 4096
        and mm = "\<lparr>mm_mbufs = Map.empty, mm_bufs = Map.empty, mm_shinfos = Map.empty, mm_pools = Map.empty, mm_freed = []\<rparr>",
        OF refl _ al c(3) _ _ _ c(2,1) refl osz(1) pool_env_sample_ok osz(2)] by fastforce
qed

end
