(* ===== verification/Network.thy ===== *)
theory Network
  imports MbufCreate Framebuffer
begin

text \<open>
  The network thread of the server (\<open>network.c\<close>): it polls the receive queues, draws the pixel that the
  destination address of every IPv6 packet asks for, and frees the packet. What the network card delivers is an
  argument: a receive burst is a function from the packet memory to the mbufs received and the memory with them in it.
  The calls of the Ethernet device layer answer with arguments and are recorded. No length of a packet is looked at:
  reads go to the data buffer behind it, whatever it holds.
\<close>

section \<open>Decoding\<close>

definition RX_BURST_SIZE :: nat where "RX_BURST_SIZE = 2048"
definition ETHER_TYPE_IPv4 :: u16 where "ETHER_TYPE_IPv4 = 0x0800"
definition ETHER_TYPE_IPv6 :: u16 where "ETHER_TYPE_IPv6 = 0x86DD"
definition sizeof_ether_hdr :: nat where "sizeof_ether_hdr = 14"

text \<open>The destination address is 24 bytes into the IPv6 header of 40.\<close>

definition dst_addr_ofs :: nat where "dst_addr_ofs = 24"

definition load16 :: "u8 list \<Rightarrow> u16" where
  "load16 b = ucast (b ! 0) OR push_bit 8 (ucast (b ! 1))"

definition rte_be_to_cpu_16 :: "u16 \<Rightarrow> u16" where
  "rte_be_to_cpu_16 x = push_bit 8 x OR drop_bit 8 x"

text \<open>The coordinates are computed as \<open>int\<close> and cut to 16 bits, the colour to 32 bits.\<close>

definition pixel_command :: "u8 list \<Rightarrow> pixel_cmd" where
  "pixel_command dst =
     (let x = push_bit 8 (ucast (dst ! 8)) + ucast (dst ! 9) :: u16;
          y = push_bit 8 (ucast (dst ! 10)) + ucast (dst ! 11) :: u16;
          rgb = push_bit 24 (ucast (dst ! 12)) + push_bit 16 (ucast (dst ! 13)) + push_bit 8 (ucast (dst ! 14)) :: u32
      in (ucast x, ucast y, rgb))"

section \<open>The thread\<close>

datatype eth_call =
  Dev_info_get | Dev_configure u16 u16 | Rx_queue_setup u16 nat | Tx_queue_setup u16 nat | Promiscuous_enable | Dev_start
| Stats_get nat | Flow_flush | Dev_stop | Dev_close

text \<open>\<open>nw_unknown\<close> are the ethernet types printed as unknown.\<close>

record 'p net_state =
  nw_mm :: "'p mbuf_mem"
  nw_fb :: fbmem
  nw_unknown :: "u16 list"

definition handle_mbuf :: "u32 \<Rightarrow> eaddr \<Rightarrow> maddr \<Rightarrow> 'p net_state \<Rightarrow> 'p net_state option" where
  "handle_mbuf lcore f m st = do {
     M \<leftarrow> mm_mbufs (nw_mm st) m;
     t \<leftarrow> bytes_at (mm_bufs (nw_mm st)) (rte_pktmbuf_mtod_offset M 12) 2;
     st \<leftarrow> (if load16 t = rte_be_to_cpu_16 ETHER_TYPE_IPv6 then do {
              dst \<leftarrow> bytes_at (mm_bufs (nw_mm st)) (rte_pktmbuf_mtod_offset M (sizeof_ether_hdr + dst_addr_ofs)) 16;
              fb \<leftarrow> (case pixel_command dst of (x, y, rgb) \<Rightarrow> fb_set_pixel (nw_fb st) f x y rgb);
              Some (st\<lparr>nw_fb := fb\<rparr>) }
            else if load16 t = rte_be_to_cpu_16 ETHER_TYPE_IPv4 then Some st
            else Some (st\<lparr>nw_unknown := nw_unknown st @ [load16 t]\<rparr>));
     mm \<leftarrow> rte_pktmbuf_free lcore (Some m) (nw_mm st);
     Some (st\<lparr>nw_mm := mm\<rparr>) }"

fun handle_burst :: "u32 \<Rightarrow> eaddr \<Rightarrow> maddr list \<Rightarrow> 'p net_state \<Rightarrow> 'p net_state option" where
  "handle_burst lcore f [] st = Some st"
| "handle_burst lcore f (m # ms) st = do { st \<leftarrow> handle_mbuf lcore f m st; handle_burst lcore f ms st }"

text \<open>\<open>rx i\<close> is \<open>rte_eth_rx_burst\<close> on queue \<open>i\<close>; one round polls every queue, and each element of the list is a round before \<open>force_quit\<close>.\<close>

type_synonym 'p rx_burst = "nat \<Rightarrow> 'p mbuf_mem \<Rightarrow> maddr list \<times> 'p mbuf_mem"

definition nr_queues :: u16 where "nr_queues = 1"

definition poll_queue :: "u32 \<Rightarrow> eaddr \<Rightarrow> 'p rx_burst \<Rightarrow> nat \<Rightarrow> 'p net_state \<Rightarrow> 'p net_state option" where
  "poll_queue lcore f rx i st =
     (let (ms, mm) = rx i (nw_mm st) in handle_burst lcore f ms (st\<lparr>nw_mm := mm\<rparr>))"

fun poll_queues :: "u32 \<Rightarrow> eaddr \<Rightarrow> 'p rx_burst \<Rightarrow> nat list \<Rightarrow> 'p net_state \<Rightarrow> 'p net_state option" where
  "poll_queues lcore f rx [] st = Some st"
| "poll_queues lcore f rx (i # is) st = do { st \<leftarrow> poll_queue lcore f rx i st; poll_queues lcore f rx is st }"

fun dpdk_loop :: "u32 \<Rightarrow> eaddr \<Rightarrow> 'p rx_burst list \<Rightarrow> 'p net_state \<Rightarrow> 'p net_state option" where
  "dpdk_loop lcore f [] st = Some st"
| "dpdk_loop lcore f (rx # rxs) st = do {
     st \<leftarrow> poll_queues lcore f rx [0..<unat nr_queues] st;
     dpdk_loop lcore f rxs st }"

text \<open>\<open>devs\<close> are the ports with a device; the calls at the end are the result's second part.\<close>

definition dpdk_thread ::
    "u32 \<Rightarrow> eaddr \<Rightarrow> nat list \<Rightarrow> 'p rx_burst list \<Rightarrow> 'p net_state \<Rightarrow> ('p net_state \<times> eth_call list) option" where
  "dpdk_thread lcore f devs rxs st = do {
     st \<leftarrow> dpdk_loop lcore f rxs st;
     Some (st, map Stats_get devs @ [Flow_flush, Dev_stop, Dev_close]) }"

section \<open>Starting\<close>

text \<open>\<open>signal_handler\<close>: the new value of \<open>force_quit\<close>.\<close>

definition signal_handler :: "nat \<Rightarrow> bool \<Rightarrow> bool" where
  "signal_handler signum force_quit = (if signum = 2 \<or> signum = 15 then True else force_quit)"

text \<open>
  A call that fails ends the program with the message of \<open>rte_exit\<close>. \<open>ans\<close> is what the device layer answers; the
  calls made are collected in order.
\<close>

fun setup_queues :: "(eth_call \<Rightarrow> c_int) \<Rightarrow> (nat \<Rightarrow> eth_call) \<Rightarrow> string \<Rightarrow> nat list \<Rightarrow> string option \<times> eth_call list" where
  "setup_queues ans call msg [] = (None, [])"
| "setup_queues ans call msg (i # is) =
     (if ans (call i) < 0 then (Some msg, [call i])
      else let (r, cs) = setup_queues ans call msg is in (r, call i # cs))"

definition init_port :: "(eth_call \<Rightarrow> c_int) \<Rightarrow> string option \<times> eth_call list" where
  "init_port ans =
     (let cs = [Dev_info_get, Dev_configure nr_queues nr_queues] in
      if ans (Dev_configure nr_queues nr_queues) < 0 then (Some '':: cannot configure device'', cs)
      else case setup_queues ans (Rx_queue_setup 512) '':: Rx queue setup failed'' [0..<unat nr_queues] of
        (Some e, cs1) \<Rightarrow> (Some e, cs @ cs1)
      | (None, cs1) \<Rightarrow>
          (case setup_queues ans (Tx_queue_setup 512) '':: Tx queue setup failed'' [0..<unat nr_queues] of
             (Some e, cs2) \<Rightarrow> (Some e, cs @ cs1 @ cs2)
           | (None, cs2) \<Rightarrow>
               (let cs = cs @ cs1 @ cs2 @ [Promiscuous_enable, Dev_start] in
                if ans Dev_start < 0 then (Some ''rte_eth_dev_start'', cs) else (None, cs))))"

text \<open>
  \<open>eal\<close>, \<open>nr_ports\<close> and \<open>thread\<close> are what \<open>rte_eal_init\<close>, \<open>rte_eth_dev_count_avail\<close> and \<open>pthread_create\<close>
  answer, \<open>create\<close> is the call of \<open>rte_pktmbuf_pool_create\<close>. \<open>Inl\<close> is the end of the program with a message, \<open>Inr\<close> the value
  returned with the pool's address and the memory; with it come the calls made to the device layer.
\<close>

definition net_listen ::
    "c_int \<Rightarrow> u16 \<Rightarrow> (string \<Rightarrow> u32 \<Rightarrow> u32 \<Rightarrow> u16 \<Rightarrow> u16 \<Rightarrow> (c_int option + nat \<times> 'p mbuf_mem) option) \<Rightarrow> (eth_call \<Rightarrow> c_int) \<Rightarrow> c_int \<Rightarrow>
     ((string + c_int \<times> nat \<times> 'p mbuf_mem) \<times> eth_call list) option" where
  "net_listen eal nr_ports create ans thread =
     (if eal < 0 then Some (Inl '':: invalid EAL arguments'', [])
      else if nr_ports = 0 then Some (Inl '':: no Ethernet ports found'', [])
      else do {
        r \<leftarrow> create ''mbuf_pool'' 4096 128 0 2176;
        case r of Inl _ \<Rightarrow> Some (Inl ''Cannot init mbuf pool'', [])
        | Inr (mbuf_pool, mm) \<Rightarrow>
            (case init_port ans of (Some e, calls) \<Rightarrow> Some (Inl e, calls)
             | (None, calls) \<Rightarrow> Some (Inr (if thread \<noteq> 0 then (- 1) else 0, mbuf_pool, mm), calls)) })"

section \<open>What a packet draws\<close>

text \<open>The first 54 bytes from the start of a packet's data, whether they belong to the packet or not.\<close>

definition frame_view :: "'p mbuf_mem \<Rightarrow> maddr \<Rightarrow> u8 list" where
  "frame_view mm m =
     (case mm_mbufs mm m of None \<Rightarrow> [] | Some M \<Rightarrow>
        (case mm_bufs mm (mb_buf_addr M) of None \<Rightarrow> [] | Some xs \<Rightarrow> take 54 (drop (unat (mb_data_off M)) xs)))"

definition frame_cmds :: "u8 list \<Rightarrow> pixel_cmd list" where
  "frame_cmds b = (if take 2 (drop 12 b) = [0x86, 0xdd] then [pixel_command (take 16 (drop 38 b))] else [])"

lemma load16_bytes: "ucast (load16 [a, b]) = a" "ucast (drop_bit 8 (load16 [a, b])) = b"
  by (rule bit_word_eqI; auto simp: load16_def bit_simps dest: bit_imp_le_length)+

lemma load16_ipv6: "load16 [a, b] = rte_be_to_cpu_16 ETHER_TYPE_IPv6 \<longleftrightarrow> a = 0x86 \<and> b = 0xdd"
proof
  assume h: "load16 [a, b] = rte_be_to_cpu_16 ETHER_TYPE_IPv6"
  have e: "rte_be_to_cpu_16 ETHER_TYPE_IPv6 = 0xDD86" by (simp add: rte_be_to_cpu_16_def ETHER_TYPE_IPv6_def)
  have "a = ucast (0xDD86 :: u16)" "b = ucast (drop_bit 8 (0xDD86 :: u16))"
    using load16_bytes [of a b] h e by simp_all
  then show "a = 0x86 \<and> b = 0xdd" by simp
next
  assume "a = 0x86 \<and> b = 0xdd"
  then show "load16 [a, b] = rte_be_to_cpu_16 ETHER_TYPE_IPv6" by (simp add: load16_def rte_be_to_cpu_16_def ETHER_TYPE_IPv6_def)
qed

lemma two_bytes: "length t = 2 \<Longrightarrow> \<exists>a b. t = [a, b]"
  by (cases t; cases "tl t") auto

text \<open>A received packet that the thread may draw and free: its own, alone, with 54 bytes of its buffer behind the data's start.\<close>

definition rx_mbuf :: "nat \<Rightarrow> 'p mbuf_mem \<Rightarrow> maddr \<Rightarrow> bool" where
  "rx_mbuf mp mm m \<longleftrightarrow> pkt_ok mm m [m] \<and>
     (\<exists>M P. mm_mbufs mm m = Some M \<and> mm_pools mm mp = Some P \<and> seg_mine (mm_bufs mm) P mp m M \<and> mb_refcnt M = 1 \<and>
        unat (mb_data_off M) + 54 \<le> unat (mb_buf_len M))"

lemma frame_reads:
  assumes "buf_ok h M" "h (mb_buf_addr M) = Some xs" "unat (mb_data_off M) + 54 \<le> unat (mb_buf_len M)" "i + n \<le> 54"
  shows "bytes_at h (rte_pktmbuf_mtod_offset M i) n = Some (take n (drop i (take 54 (drop (unat (mb_data_off M)) xs))))"
proof -
  have "length xs = unat (mb_buf_len M)" using assms(1,2) by (simp add: buf_ok_def)
  then show ?thesis using assms(2-4) by (simp add: bytes_at_def rte_pktmbuf_mtod_offset_def drop_take min_def add.commute)
qed

lemma rx_mbuf_other:
  assumes "rx_mbuf mp mm s" "mm_mbufs mm' s = mm_mbufs mm s" "pool_moved mp mm mm'"
  shows "rx_mbuf mp mm' s" "frame_view mm' s = frame_view mm s"
proof -
  have b: "mm_bufs mm' = mm_bufs mm" using assms(3) by (simp add: pool_moved_def)
  obtain M P where M: "mm_mbufs mm s = Some M" "mm_pools mm mp = Some P" "seg_mine (mm_bufs mm) P mp s M" "mb_refcnt M = 1"
      "unat (mb_data_off M) + 54 \<le> unat (mb_buf_len M)" "pkt_ok mm s [s]" using assms(1) by (auto simp: rx_mbuf_def)
  obtain P' where P': "mm_pools mm' mp = Some P'" "seg_mine (mm_bufs mm') P' mp s M"
    using pool_moved_mine [OF assms(3) M(2,3)] by blast
  have "pkt_ok mm' s [s]" using M(1,6) assms(2) b by (simp add: pkt_ok_def seg_ok_def seg_data_def)
  then show "rx_mbuf mp mm' s" using M P' assms(2) by (simp add: rx_mbuf_def)
  show "frame_view mm' s = frame_view mm s" using M(1) assms(2) b by (simp add: frame_view_def)
qed

lemma handle_mbuf_ok:
  assumes pool: "ring_pktpool_ok flags A mp (nw_mm st) held" and m: "m \<in> held" "rx_mbuf mp (nw_mm st) m" and wf: "fb_wf (nw_fb st) f"
  shows "\<exists>st'. handle_mbuf lcore f m st = Some st' \<and> ring_pktpool_ok flags A mp (nw_mm st') (held - {m}) \<and>
     pool_moved mp (nw_mm st) (nw_mm st') \<and> (\<forall>s. s \<noteq> m \<longrightarrow> mm_mbufs (nw_mm st') s = mm_mbufs (nw_mm st) s) \<and>
     put_all (\<lambda>x. fb_set_pixel x f) (nw_fb st) (frame_cmds (frame_view (nw_mm st) m)) = Some (nw_fb st') \<and> fb_wf (nw_fb st') f"
proof -
  let ?mm = "nw_mm st"
  obtain M P where M: "mm_mbufs ?mm m = Some M" "mm_pools ?mm mp = Some P" "seg_mine (mm_bufs ?mm) P mp m M" "mb_refcnt M = 1"
      "unat (mb_data_off M) + 54 \<le> unat (mb_buf_len M)" "pkt_ok ?mm m [m]" using m(2) by (auto simp: rx_mbuf_def)
  have ok: "buf_ok (mm_bufs ?mm) M" using M(1,6) by (simp add: pkt_ok_def seg_ok_def)
  then obtain xs where xs: "mm_bufs ?mm (mb_buf_addr M) = Some xs" "length xs = unat (mb_buf_len M)" by (auto simp: buf_ok_def)
  let ?v = "frame_view ?mm m"
  have v: "?v = take 54 (drop (unat (mb_data_off M)) xs)" "length ?v = 54"
    using M(1,5) xs by (simp_all add: frame_view_def)
  have t: "bytes_at (mm_bufs ?mm) (rte_pktmbuf_mtod_offset M 12) 2 = Some (take 2 (drop 12 ?v))"
    and dst: "bytes_at (mm_bufs ?mm) (rte_pktmbuf_mtod_offset M 38) 16 = Some (take 16 (drop 38 ?v))"
    unfolding v(1) by (rule frame_reads [OF ok xs(1) M(5)]; simp)+
  have "length (take 2 (drop 12 ?v)) = 2" using v(2) by simp
  then obtain a b where ab: "take 2 (drop 12 ?v) = [a, b]" using two_bytes by blast
  obtain mm' where fr: "rte_pktmbuf_free lcore (Some m) ?mm = Some mm'" "pool_moved mp ?mm mm'"
      "ring_pktpool_ok flags A mp mm' (held - {s \<in> set [m]. map_option mb_refcnt (mm_mbufs ?mm s) = Some 1})"
      "\<forall>s. s \<notin> set [m] \<longrightarrow> mm_mbufs mm' s = mm_mbufs ?mm s"
    using pkt.pktmbuf_free_ok [OF pool M(2), of "Some m" "[m]" lcore] M m(1) by (auto simp: pkt_ok_def)
  have held: "held - {s \<in> set [m]. map_option mb_refcnt (mm_mbufs ?mm s) = Some 1} = held - {m}" using M(1,4) by auto
  have sz: "sizeof_ether_hdr + dst_addr_ofs = 38" by (simp add: sizeof_ether_hdr_def dst_addr_ofs_def)
  show ?thesis
  proof (cases "load16 [a, b] = rte_be_to_cpu_16 ETHER_TYPE_IPv6")
    case True
    then have c: "frame_cmds ?v = [pixel_command (take 16 (drop 38 ?v))]" using ab load16_ipv6 [of a b] by (simp add: frame_cmds_def)
    obtain x y rgb where cmd: "pixel_command (take 16 (drop 38 ?v)) = (x, y, rgb)" by (cases "pixel_command (take 16 (drop 38 ?v))")
    obtain fb' where fb': "fb_set_pixel (nw_fb st) f x y rgb = Some fb'" "fb_wf fb' f"
      using fb_set_pixel_total [OF wf] fb_set_pixel_wf [OF wf] by metis
    have "handle_mbuf lcore f m st = Some (st\<lparr>nw_fb := fb', nw_mm := mm'\<rparr>)"
      using M(1) t dst ab True cmd fb'(1) fr(1) by (simp add: handle_mbuf_def sz)
    then show ?thesis using fr held c cmd fb' by (intro exI [of _ "st\<lparr>nw_fb := fb', nw_mm := mm'\<rparr>"]) simp
  next
    case False
    then have c: "frame_cmds ?v = []" using ab load16_ipv6 [of a b] by (simp add: frame_cmds_def)
    let ?st = "if load16 [a, b] = rte_be_to_cpu_16 ETHER_TYPE_IPv4 then st else st\<lparr>nw_unknown := nw_unknown st @ [load16 [a, b]]\<rparr>"
    have "handle_mbuf lcore f m st = Some (?st\<lparr>nw_mm := mm'\<rparr>)"
      using M(1) t ab False fr(1) by (simp add: handle_mbuf_def)
    then show ?thesis using fr held c wf by (intro exI [of _ "?st\<lparr>nw_mm := mm'\<rparr>"]) simp
  qed
qed

lemma handle_burst_ok:
  assumes "ring_pktpool_ok flags A mp (nw_mm st) (nic \<union> set ms)" "nic \<inter> set ms = {}" "distinct ms"
    "\<forall>m \<in> set ms. rx_mbuf mp (nw_mm st) m" "fb_wf (nw_fb st) f"
  shows "\<exists>st'. handle_burst lcore f ms st = Some st' \<and> ring_pktpool_ok flags A mp (nw_mm st') nic \<and>
     put_all (\<lambda>x. fb_set_pixel x f) (nw_fb st) (concat (map (\<lambda>m. frame_cmds (frame_view (nw_mm st) m)) ms)) = Some (nw_fb st') \<and>
     fb_wf (nw_fb st') f \<and> pool_moved mp (nw_mm st) (nw_mm st')"
  using assms
proof (induction ms arbitrary: st)
  case Nil
  then obtain P where "mm_pools (nw_mm st) mp = Some P" by (auto simp: pktpool_ok_def)
  then show ?case using Nil pool_moved_refl by auto
next
  case (Cons m ms)
  obtain st1 where s1: "handle_mbuf lcore f m st = Some st1" "ring_pktpool_ok flags A mp (nw_mm st1) ((nic \<union> set (m # ms)) - {m})"
      "pool_moved mp (nw_mm st) (nw_mm st1)" "\<And>s. s \<noteq> m \<Longrightarrow> mm_mbufs (nw_mm st1) s = mm_mbufs (nw_mm st) s"
      "put_all (\<lambda>x. fb_set_pixel x f) (nw_fb st) (frame_cmds (frame_view (nw_mm st) m)) = Some (nw_fb st1)" "fb_wf (nw_fb st1) f"
    using handle_mbuf_ok [OF Cons.prems(1), of m f lcore] Cons.prems(4,5) by auto
  have "(nic \<union> set (m # ms)) - {m} = nic \<union> set ms" using Cons.prems(2,3) by auto
  then have p1: "ring_pktpool_ok flags A mp (nw_mm st1) (nic \<union> set ms)" using s1(2) by simp
  have other: "rx_mbuf mp (nw_mm st1) s" "frame_view (nw_mm st1) s = frame_view (nw_mm st) s" if "s \<in> set ms" for s
    using rx_mbuf_other [OF _ s1(4) s1(3), of s] Cons.prems(3,4) that by auto
  obtain st2 where s2: "handle_burst lcore f ms st1 = Some st2" "ring_pktpool_ok flags A mp (nw_mm st2) nic"
      "put_all (\<lambda>x. fb_set_pixel x f) (nw_fb st1) (concat (map (\<lambda>m. frame_cmds (frame_view (nw_mm st1) m)) ms)) = Some (nw_fb st2)"
      "fb_wf (nw_fb st2) f" "pool_moved mp (nw_mm st1) (nw_mm st2)"
    using Cons.IH [OF p1] Cons.prems(2,3) other(1) s1(6) by auto
  have eq: "map (\<lambda>m. frame_cmds (frame_view (nw_mm st1) m)) ms = map (\<lambda>m. frame_cmds (frame_view (nw_mm st) m)) ms"
    using other(2) by (intro map_cong) simp_all
  show ?case using s1 s2(1,2,4) s2(3) [unfolded eq] pool_moved_trans [OF s1(3) s2(5)]
    by (intro exI [of _ st2]) (simp add: put_all_append)
qed

section \<open>Runs of the thread\<close>

text \<open>
  What the thread relies on from \<open>rte_eth_rx_burst\<close>, given a sound pool: at most as many packets as there is room for, all
  different, each taken from the pool by the card and now the caller's alone. The card has mbufs of its own (in its receive ring); a burst of a card is described together with the function \<open>own\<close> that says which mbufs
  it has afterwards, given those it had.
\<close>

definition big_room :: "nat \<Rightarrow> 'p mbuf_mem \<Rightarrow> bool" where
  "big_room mp mm \<longleftrightarrow> (\<exists>P. mm_pools mm mp = Some P \<and> 182 \<le> unat (rte_pktmbuf_data_room_size P))"

definition delivers :: "u32 \<Rightarrow> maddr set \<Rightarrow> nat \<Rightarrow> maddr list \<Rightarrow> (nat rte_ring option) mbuf_mem \<Rightarrow> maddr set \<Rightarrow> bool" where
  "delivers flags A mp ms mm nic \<longleftrightarrow> length ms \<le> RX_BURST_SIZE \<and> distinct ms \<and> nic \<inter> set ms = {} \<and>
     ring_pktpool_ok flags A mp mm (nic \<union> set ms) \<and> (\<forall>m \<in> set ms. rx_mbuf mp mm m) \<and> big_room mp mm"

type_synonym card_burst = "(nat rte_ring option) rx_burst \<times> ((nat rte_ring option) mbuf_mem \<Rightarrow> maddr set \<Rightarrow> maddr set)"

definition rx_ok :: "u32 \<Rightarrow> maddr set \<Rightarrow> nat \<Rightarrow> card_burst \<Rightarrow> bool" where
  "rx_ok flags A mp c \<longleftrightarrow> (\<forall>mm nic. ring_pktpool_ok flags A mp mm nic \<longrightarrow> big_room mp mm \<longrightarrow>
     delivers flags A mp (fst (fst c 0 mm)) (snd (fst c 0 mm)) (snd c mm nic))"

text \<open>The mbufs the card has after a run, by its own account.\<close>

fun loop_own :: "u32 \<Rightarrow> eaddr \<Rightarrow> card_burst list \<Rightarrow> (nat rte_ring option) net_state \<Rightarrow> maddr set \<Rightarrow> maddr set" where
  "loop_own lcore f [] st nic = nic"
| "loop_own lcore f (c # cs) st nic =
     (case poll_queue lcore f (fst c) 0 st of None \<Rightarrow> nic | Some st' \<Rightarrow> loop_own lcore f cs st' (snd c (nw_mm st) nic))"

text \<open>The commands in all packets of a run, in the order in which they are received.\<close>

fun loop_cmds :: "u32 \<Rightarrow> eaddr \<Rightarrow> 'p rx_burst list \<Rightarrow> 'p net_state \<Rightarrow> pixel_cmd list" where
  "loop_cmds lcore f [] st = []"
| "loop_cmds lcore f (rx # rxs) st =
     concat (map (\<lambda>m. frame_cmds (frame_view (snd (rx 0 (nw_mm st))) m)) (fst (rx 0 (nw_mm st)))) @
     (case poll_queue lcore f rx 0 st of None \<Rightarrow> [] | Some st \<Rightarrow> loop_cmds lcore f rxs st)"

lemma one_queue: "poll_queues lcore f rx [0..<unat nr_queues] st = poll_queue lcore f rx 0 st"
  by (cases "poll_queue lcore f rx 0 st") (simp_all add: nr_queues_def)

lemma big_room_moved: "pool_moved mp mm mm' \<Longrightarrow> big_room mp mm \<Longrightarrow> big_room mp mm'"
  by (auto simp: pool_moved_def big_room_def rte_pktmbuf_data_room_size_def)

lemma dpdk_loop_ok:
  assumes "ring_pktpool_ok flags A mp (nw_mm st) nic" "big_room mp (nw_mm st)" "fb_wf (nw_fb st) f" "\<forall>c \<in> set cs. rx_ok flags A mp c"
  shows "\<exists>st'. dpdk_loop lcore f (map fst cs) st = Some st' \<and> ring_pktpool_ok flags A mp (nw_mm st') (loop_own lcore f cs st nic) \<and>
     put_all (\<lambda>x. fb_set_pixel x f) (nw_fb st) (loop_cmds lcore f (map fst cs) st) = Some (nw_fb st') \<and> fb_wf (nw_fb st') f"
  using assms
proof (induction cs arbitrary: st nic)
  case Nil
  then show ?case by auto
next
  case (Cons c cs)
  obtain rx own where c: "c = (rx, own)" by (cases c)
  obtain ms mm where r: "rx 0 (nw_mm st) = (ms, mm)" by fastforce
  let ?nic = "own (nw_mm st) nic"
  have d: "delivers flags A mp ms mm ?nic"
    using Cons.prems(1,2,4) r unfolding rx_ok_def c by fastforce
  let ?st = "st\<lparr>nw_mm := mm\<rparr>"
  obtain st1 where s1: "handle_burst lcore f ms ?st = Some st1" "ring_pktpool_ok flags A mp (nw_mm st1) ?nic"
      "put_all (\<lambda>x. fb_set_pixel x f) (nw_fb st) (concat (map (\<lambda>m. frame_cmds (frame_view mm m)) ms)) = Some (nw_fb st1)"
      "fb_wf (nw_fb st1) f" "pool_moved mp mm (nw_mm st1)"
    using handle_burst_ok [of flags A mp ?st ?nic ms f lcore] d Cons.prems(3) by (auto simp: delivers_def)
  have "big_room mp (nw_mm st1)" using big_room_moved [OF s1(5)] d by (simp add: delivers_def)
  from Cons.IH [OF s1(2) this s1(4)] Cons.prems(4) obtain st2 where
    s2: "dpdk_loop lcore f (map fst cs) st1 = Some st2" "ring_pktpool_ok flags A mp (nw_mm st2) (loop_own lcore f cs st1 ?nic)"
      "put_all (\<lambda>x. fb_set_pixel x f) (nw_fb st1) (loop_cmds lcore f (map fst cs) st1) = Some (nw_fb st2)" "fb_wf (nw_fb st2) f"
    by auto
  have "poll_queue lcore f rx 0 st = Some st1" using s1(1) r by (simp add: poll_queue_def)
  then show ?case using s1(3) s2 r
    by (intro exI [of _ st2]) (simp add: c put_all_append one_queue del: upt_rec_numeral upt_Suc)
qed

text \<open>A card that has no mbufs between bursts and puts one empty packet of the pool into each, while there are any.\<close>

definition rx_alloc :: "u32 \<Rightarrow> nat \<Rightarrow> 'p rx_burst" where
  "rx_alloc lcore mp i mm =
     (case rte_pktmbuf_alloc lcore mp mm of Some (Some m, mm') \<Rightarrow> ([m], mm') | Some (None, mm') \<Rightarrow> ([], mm') | None \<Rightarrow> ([], mm))"

lemma rx_alloc_ok: "rx_ok flags A mp (rx_alloc lcore mp, \<lambda>_ nic. nic)"
  unfolding rx_ok_def
proof (intro allI impI)
  fix mm :: "(nat rte_ring option) mbuf_mem" and nic
  assume p: "ring_pktpool_ok flags A mp mm nic" and b: "big_room mp mm"
  obtain P where P: "mm_pools mm mp = Some P" "182 \<le> unat (rte_pktmbuf_data_room_size P)" using b by (auto simp: big_room_def)
  obtain r mm' where r: "rte_pktmbuf_alloc lcore mp mm = Some (r, mm')" "pool_moved mp mm mm'"
     "case r of None \<Rightarrow> data_items (mp_data (pl_mp P)) = [] \<and> mm_mbufs mm' = mm_mbufs mm \<and> ring_pktpool_ok flags A mp mm' nic
      | Some m \<Rightarrow> m \<in> A - nic \<and> ring_pktpool_ok flags A mp mm' (insert m nic) \<and>
          (\<forall>s. s \<noteq> m \<longrightarrow> mm_mbufs mm' s = mm_mbufs mm s) \<and>
          (\<exists>M. mm_mbufs mm' m = Some (rte_pktmbuf_reset M) \<and> free_mbuf (mm_bufs mm') P mp m (rte_pktmbuf_reset M)) \<and>
          pkt_ok mm' m [m] \<and> pkt_bytes mm' [m] = []"
    using pkt.pktmbuf_alloc_ok [OF p P(1), of lcore] by blast
  have b': "big_room mp mm'" by (rule big_room_moved [OF r(2) b])
  have "delivers flags A mp (fst (rx_alloc lcore mp 0 mm)) (snd (rx_alloc lcore mp 0 mm)) nic"
  proof (cases r)
    case None
    then show ?thesis using r b' by (simp add: delivers_def rx_alloc_def)
  next
    case (Some m)
    then obtain M where M: "mm_mbufs mm' m = Some (rte_pktmbuf_reset M)" "free_mbuf (mm_bufs mm') P mp m (rte_pktmbuf_reset M)"
        "pkt_ok mm' m [m]" "ring_pktpool_ok flags A mp mm' (nic \<union> {m})" "m \<notin> nic"
      using r(3) by auto
    obtain P' where P': "mm_pools mm' mp = Some P'" "free_mbuf (mm_bufs mm') P' mp m (rte_pktmbuf_reset M)"
      using r(2) P(1) M(2) by (auto simp: pool_moved_def)
    have len: "182 \<le> unat (mb_buf_len M)" using M(2) P(2) by (simp add: free_mbuf_def own_buf_def)
    then have "min RTE_PKTMBUF_HEADROOM (mb_buf_len M) = 128"
      by (simp add: RTE_PKTMBUF_HEADROOM_def min_def word_le_nat_alt)
    then have "rx_mbuf mp mm' m"
      using M(1,3) P' len by (simp add: rx_mbuf_def free_mbuf_def seg_mine_def)
    then show ?thesis using Some r(1) b' M(4,5)
      by (simp add: delivers_def rx_alloc_def RX_BURST_SIZE_def)
  qed
  then show "delivers flags A mp (fst (fst (rx_alloc lcore mp, \<lambda>_ nic. nic) 0 mm)) (snd (fst (rx_alloc lcore mp, \<lambda>_ nic. nic) 0 mm))
      (snd (rx_alloc lcore mp, \<lambda>_ nic. nic) mm nic)" by simp
qed

lemma loop_own_id: "\<forall>c \<in> set cs. snd c = (\<lambda>_ nic. nic) \<Longrightarrow> loop_own lcore f cs st nic = nic"
  by (induction cs arbitrary: st) (auto split: option.split)

section \<open>Properties\<close>

text \<open>
  C1: The network thread. Whatever the card delivers, as long as every packet is an mbuf of the pool with 54 bytes of buffer behind
  its data's start, the thread runs until it is told to stop; every pixel of the frame buffer then has the colour of the last IPv6 packet
  received for it, or the colour it had, packets outside the frame buffer and of other types draw nothing, and every mbuf of the pool is back in the pool
  unless the card has it by its own account. At the end the flow rules are flushed and the device is stopped and closed.
\<close>

theorem server_draws:
  assumes "ring_pktpool_ok flags A mp (nw_mm st) nic" "big_room mp (nw_mm st)" "fb_wf (nw_fb st) f" "\<forall>c \<in> set cs. rx_ok flags A mp c"
  shows "\<exists>st'. dpdk_thread lcore f devs (map fst cs) st = Some (st', map Stats_get devs @ [Flow_flush, Dev_stop, Dev_close]) \<and>
     ring_pktpool_ok flags A mp (nw_mm st') (loop_own lcore f cs st nic) \<and> fb_wf (nw_fb st') f \<and>
     (\<forall>x y. in_range (fb_dim (nw_fb st) f) x y \<longrightarrow>
        fb_get_pixel (nw_fb st') f x y = (case last_cmd (loop_cmds lcore f (map fst cs) st) x y of Some c \<Rightarrow> Some c
                                          | None \<Rightarrow> fb_get_pixel (nw_fb st) f x y))"
proof -
  obtain st' where r: "dpdk_loop lcore f (map fst cs) st = Some st'" "ring_pktpool_ok flags A mp (nw_mm st') (loop_own lcore f cs st nic)"
     "put_all (\<lambda>x. fb_set_pixel x f) (nw_fb st) (loop_cmds lcore f (map fst cs) st) = Some (nw_fb st')" "fb_wf (nw_fb st') f"
    using dpdk_loop_ok [OF assms] by blast
  have "dpdk_thread lcore f devs (map fst cs) st = Some (st', map Stats_get devs @ [Flow_flush, Dev_stop, Dev_close])"
    using r(1) by (simp add: dpdk_thread_def)
  then show ?thesis using r(2,4) fbst.put_all_get [OF assms(3) r(3)] by blast
qed

text \<open>
  C33: Starting the server's network. With an EAL, a port, and memory for 4096 mbufs in EAL's answer to the request for exactly that much, \<open>net_listen\<close> returns 0 exactly when every
  device call and the creation of the thread succeed; the thread then starts with a sound pool of 4096 free mbufs of 2176 bytes that lie in the zone. The device
  calls are made in order up to the first that fails, which ends the program; a failed thread creation returns -1 with the device started.
\<close>

theorem net_listen_starts:
  assumes table: "mset table = mset ring_drivers" and hdr: "unat hdr < 2 ^ 20" and b: "banks (fst mem) (snd mem) < 2 ^ 16"
    and res: "\<And>l. reserve (''MP_mbuf_pool'') l = Inl z0"
    and osz: "rte_mempool_calc_obj_size (fst mem) (snd mem) (of_nat sizeof_mbuf + ucast (0 :: u16) + ucast (2176 :: u16)) 0 = Some osz"
    and env: "eal_memory env ''MP_mbuf_pool_0'' avail" and room: "unat (sz_total osz) * 4096 \<le> avail"
    and eal: "0 \<le> eal" "nr_ports \<noteq> 0"
  shows "\<exists>mm1 z A. zone_of env ''MP_mbuf_pool_0'' (ucast (sz_total osz) * 4096) z \<and>
     A = set (slots (mz_addr z + unat (sz_header osz)) (unat (sz_total osz)) 4096) \<and> card A = 4096 \<and>
     (\<forall>m \<in> A. mz_addr z < m \<and> m + (sizeof_mbuf + 2176) \<le> mz_addr z + unat (mz_len z)) \<and>
     ring_pktpool_ok 0 A z0 mm1 {} \<and> big_room z0 mm1 \<and>
     net_listen eal nr_ports (\<lambda>name n cache_size priv_size data_room_size.
         rte_pktmbuf_pool_create table (ring_alloc hdr True (Inl a) name renv) env mem sizes True reserve ram
           (rte_mbuf_best_mempool_ops None None) name n cache_size priv_size data_room_size mm) ans thread =
       Some (case find (\<lambda>c. ans c < 0) [Dev_configure 1 1, Rx_queue_setup 512 0, Tx_queue_setup 512 0, Dev_start] of
         None \<Rightarrow> (Inr (if thread = 0 then 0 else - 1, z0, mm1),
                 [Dev_info_get, Dev_configure 1 1, Rx_queue_setup 512 0, Tx_queue_setup 512 0, Promiscuous_enable, Dev_start])
       | Some (Dev_configure _ _) \<Rightarrow> (Inl '':: cannot configure device'', [Dev_info_get, Dev_configure 1 1])
       | Some (Rx_queue_setup _ _) \<Rightarrow> (Inl '':: Rx queue setup failed'', [Dev_info_get, Dev_configure 1 1, Rx_queue_setup 512 0])
       | Some (Tx_queue_setup _ _) \<Rightarrow>
           (Inl '':: Tx queue setup failed'', [Dev_info_get, Dev_configure 1 1, Rx_queue_setup 512 0, Tx_queue_setup 512 0])
       | Some _ \<Rightarrow> (Inl ''rte_eth_dev_start'',
                    [Dev_info_get, Dev_configure 1 1, Rx_queue_setup 512 0, Tx_queue_setup 512 0, Promiscuous_enable, Dev_start]))"
proof -
  have best: "rte_mbuf_best_mempool_ops None None = ring_ops_name 0"
    by (simp add: rte_mbuf_best_mempool_ops_def ring_ops_name_def)
  have al: "RTE_ALIGN_CEIL 0 RTE_MBUF_PRIV_ALIGN = (0 :: u16)" by code_simp
  have c: "CALC_CACHE_FLUSHTHRESH 128 \<le> 4096" "unat (128 :: u32) \<le> RTE_MEMPOOL_CACHE_MAX_SIZE"
    by (simp_all add: CALC_CACHE_FLUSHTHRESH_def RTE_MEMPOOL_CACHE_MAX_SIZE_def)
  have n: "0 < (4096 :: u32)" "unat (4096 :: u32) < 2 ^ 30" "length ''mbuf_pool'' < 26" "unat (4096 :: u32) = 4096" by simp_all
  have env': "eal_memory env (first_zone ''mbuf_pool'') avail" "unat (sz_total osz) * unat (4096 :: u32) \<le> avail" using env room by simp_all
  have res': "\<And>l. reserve (''MP_'' @ ''mbuf_pool'') l = Inl z0" using res by simp
  obtain mm1 z P where p: "rte_pktmbuf_pool_create table (ring_alloc hdr True (Inl a) ''mbuf_pool'' renv) env mem sizes True reserve ram
       (ring_ops_name 0) ''mbuf_pool'' 4096 128 0 2176 mm = Some (Inr (z0, mm1))"
     "24 \<le> unat (sz_header osz)" "unat (sz_header osz) + (sizeof_mbuf + unat (0 :: u16) + unat (2176 :: u16)) \<le> unat (sz_total osz)"
     "ring_pktpool_ok 0 (set (slots (mz_addr z + unat (sz_header osz)) (unat (sz_total osz)) (unat (4096 :: u32)))) z0 mm1 {}"
     "mm_pools mm1 z0 = Some P" "pl_priv P = \<lparr>mbuf_data_room_size = 2176, mbuf_priv_size = 0\<rparr>"
     "unat (sz_total osz) * unat (4096 :: u32) \<le> unat (mz_len z)" "zone_of env (first_zone ''mbuf_pool'') (ucast (sz_total osz) * ucast (4096 :: u32)) z"
    using pktmbuf_pool_create_ok [where reserve = reserve and env = env and a = a and renv = renv and sizes = sizes
        and ram = ram and mm = mm and data_room_size = 2176, OF table hdr al b n(1-3) c(2,1) res' osz env'] by blast
  let ?A = "set (slots (mz_addr z + unat (sz_header osz)) (unat (sz_total osz)) 4096)"
  have A: "ring_pktpool_ok 0 ?A z0 mm1 {}" using p(4) by simp
  have "0 < unat (sz_total osz)" using p(2,3) by linarith
  then have card: "card ?A = 4096" by (simp only: distinct_card [OF slots_distinct]) (simp add: slots_def)
  have "unat (sz_header osz) + (sizeof_mbuf + 2176) \<le> unat (sz_total osz)" "unat (sz_total osz) * 4096 \<le> unat (mz_len z)" using p(3,7) by simp_all
  then have inside: "\<forall>m \<in> ?A. mz_addr z < m \<and> m + (sizeof_mbuf + 2176) \<le> mz_addr z + unat (mz_len z)"
    using slots_inside [of _ "mz_addr z" "unat (sz_header osz)" "unat (sz_total osz)" 4096] p(2) by fastforce
  have zone: "zone_of env ''MP_mbuf_pool_0'' (ucast (sz_total osz) * 4096) z" using p(8) by simp
  have big: "big_room z0 mm1" using p(5,6) by (simp add: big_room_def rte_pktmbuf_data_room_size_def)
  have one: "[0..<unat nr_queues] = [0]" by (simp add: nr_queues_def)
  have run: "rte_pktmbuf_pool_create table (ring_alloc hdr True (Inl a) ''mbuf_pool'' renv) env mem sizes True reserve ram
       (rte_mbuf_best_mempool_ops None None) ''mbuf_pool'' 4096 128 0 2176 mm = Some (Inr (z0, mm1))" unfolding best by (rule p(1))
  show ?thesis
    by (intro exI conjI, rule zone, rule refl, rule card, rule inside, rule A, rule big)
      (use eal run in \<open>simp add: net_listen_def init_port_def one Let_def nr_queues_def\<close>)
qed

text \<open>A pool of one mbuf, in the ring, for the frame buffer of two by two pixels.\<close>

definition net_sample :: "(nat rte_ring option) net_state" where
  "net_sample =
     \<lparr>nw_mm = \<lparr>mm_mbufs = [7 \<mapsto> (mbuf_at 135 128 0 None 1 0)\<lparr>mb_buf_len := 256, mb_pool := 9\<rparr>],
               mm_bufs = [135 \<mapsto> replicate 256 0], mm_shinfos = Map.empty,
               mm_pools = [9 \<mapsto> \<lparr>pl_ops = ring_ops_of_flags 0, pl_mp = pool_sample, pl_priv = \<lparr>mbuf_data_room_size = 256, mbuf_priv_size = 0\<rparr>\<rparr>],
               mm_freed = []\<rparr>,
      nw_fb = fb_sample, nw_unknown = []\<rparr>"

lemma net_sample_ok: "ring_pktpool_ok 0 {7} 9 (nw_mm net_sample) {}" "big_room 9 (nw_mm net_sample)" "fb_wf (nw_fb net_sample) 3"
proof -
  show "ring_pktpool_ok 0 {7} 9 (nw_mm net_sample) {}"
    using pool_sample_ok
    by (simp add: pktpool_ok_def net_sample_def free_mbuf_def own_buf_def mbuf_at_def RTE_MBUF_DIRECT_def rte_mbuf_buf_addr_def
        rte_pktmbuf_priv_size_def rte_pktmbuf_data_room_size_def sizeof_mbuf_def)
  show "big_room 9 (nw_mm net_sample)" by (simp add: big_room_def net_sample_def rte_pktmbuf_data_room_size_def)
  show "fb_wf (nw_fb net_sample) 3" using fb_sample_wf(1) by (simp add: net_sample_def)
qed

text \<open>Two packets pass through the one mbuf, which is in the pool at the end.\<close>

theorem server_draws_witness:
  "\<exists>st'. dpdk_thread 3 3 [0] [rx_alloc 3 9, rx_alloc 3 9] net_sample = Some (st', [Stats_get 0, Flow_flush, Dev_stop, Dev_close]) \<and>
     ring_pktpool_ok 0 {7} 9 (nw_mm st') {}"
proof -
  let ?cs = "[(rx_alloc 3 9, \<lambda>_ nic. nic), (rx_alloc 3 9, \<lambda>_ nic. nic)] :: card_burst list"
  have "\<forall>c \<in> set ?cs. rx_ok 0 {7} 9 c" using rx_alloc_ok by simp
  from server_draws [OF net_sample_ok this, of 3 "[0]"] obtain st' where
    "dpdk_thread 3 3 [0] (map fst ?cs) net_sample = Some (st', map Stats_get [0] @ [Flow_flush, Dev_stop, Dev_close])"
    "ring_pktpool_ok 0 {7} 9 (nw_mm st') (loop_own 3 3 ?cs net_sample {})" by blast
  moreover have "loop_own 3 3 ?cs net_sample {} = {}" by (rule loop_own_id) simp
  ultimately show ?thesis by auto
qed

theorem net_listen_starts_witness:
  "\<exists>mm. net_listen 0 1 (\<lambda>name n cache_size priv_size data_room_size.
         rte_pktmbuf_pool_create ring_drivers (ring_alloc 384 True (Inl 9) name \<lparr>ring_list = [], rings = Map.empty, rte_errno = 0\<rparr>)
           pool_env_sample (4, 2) (192, 12352) True (\<lambda>_ _. Inl 5) (\<lambda>_. 0)
           (rte_mbuf_best_mempool_ops None None) name n cache_size priv_size data_room_size
           \<lparr>mm_mbufs = Map.empty, mm_bufs = Map.empty, mm_shinfos = Map.empty, mm_pools = Map.empty, mm_freed = []\<rparr>) (\<lambda>_. 0) 0 =
       Some (Inr (0, 5, mm), [Dev_info_get, Dev_configure 1 1, Rx_queue_setup 512 0, Tx_queue_setup 512 0, Promiscuous_enable, Dev_start])"
proof -
  have b: "unat (384 :: u64) < 2 ^ 20" "banks (fst (4, 2)) (snd (4, 2)) < 2 ^ 16" "(0 :: c_int) \<le> 0" "(1 :: u16) \<noteq> 0" by (simp_all add: banks_def)
  obtain osz where osz: "rte_mempool_calc_obj_size (fst (4, 2 :: u32)) (snd (4 :: u32, 2)) (of_nat sizeof_mbuf + ucast (0 :: u16) + ucast (2176 :: u16)) 0 = Some osz"
      "unat (sz_total osz) * unat (4096 :: u32) \<le> 2 ^ 30"
    by (rule server_mbuf_size)
  have room: "unat (sz_total osz) * 4096 \<le> 2 ^ 30" using osz(2) by simp
  from net_listen_starts [where reserve = "\<lambda>_ _. Inl 5" and ram = "\<lambda>_. 0" and a = 9 and sizes = "(192, 12352)"
        and renv = "\<lparr>ring_list = [], rings = Map.empty, rte_errno = 0\<rparr>" and ans = "\<lambda>_. 0" and thread = 0
        and mm = "\<lparr>mm_mbufs = Map.empty, mm_bufs = Map.empty, mm_shinfos = Map.empty, mm_pools = Map.empty, mm_freed = []\<rparr>",
        OF refl b(1,2) refl osz(1) pool_env_sample_ok room b(3,4)]
  show ?thesis by (elim exE conjE) (intro exI, simp)
qed

end
