(* ===== verification/Xdp.thy ===== *)
theory Xdp
  imports Network
begin

text \<open>
  The XDP program (\<open>src/XDP/xdp_pixelflut.c\<close>), which draws the same packets into a BPF array map before the
  network stack sees them, and the user program beside it. A packet is the list of its bytes, so the verifier's bounds are
  the list's length. The map belongs to the kernel: its helper is an argument of the program, and the locale \<open>bpf_array\<close>
  states what is documented of array maps. Such a map is the second store behind \<open>pixel_store\<close>.
\<close>

section \<open>The program\<close>

definition WIDTH :: u32 where "WIDTH = 1280"
definition HEIGHT :: u32 where "HEIGHT = 720"

datatype xdp_action = XDP_ABORTED | XDP_DROP | XDP_PASS | XDP_TX | XDP_REDIRECT

text \<open>The entries of the map \<open>framebuffer\<close>.\<close>

definition max_entries :: u32 where "max_entries = WIDTH * HEIGHT"

text \<open>\<open>update\<close> is \<open>bpf_map_update_elem\<close> on the map, with index and value.\<close>

definition xdp_put :: "(u32 \<Rightarrow> u32 \<Rightarrow> 'm \<Rightarrow> 'm) \<Rightarrow> u32 \<Rightarrow> u32 \<Rightarrow> u32 \<Rightarrow> 'm \<Rightarrow> 'm" where
  "xdp_put update x y rgb mp =
     (if x \<ge> WIDTH \<or> y \<ge> HEIGHT then mp
      else let index = x + y * WIDTH in update index rgb mp)"

definition xdp_pixelflut :: "(u32 \<Rightarrow> u32 \<Rightarrow> 'm \<Rightarrow> 'm) \<Rightarrow> u8 list \<Rightarrow> 'm \<Rightarrow> xdp_action \<times> 'm" where
  "xdp_pixelflut update data mp =
     (let nh_off = 14 in
      if nh_off > length data then (XDP_DROP, mp)
      else if load16 (take 2 (drop 12 data)) = rte_be_to_cpu_16 ETHER_TYPE_IPv6 then
        (if nh_off + 40 > length data then (XDP_DROP, mp)
         else
           let dst = take 16 (drop (nh_off + 24) data);
               x = push_bit 8 (ucast (dst ! 8)) OR ucast (dst ! 9);
               y = push_bit 8 (ucast (dst ! 10)) OR ucast (dst ! 11);
               rgb = push_bit 24 (ucast (dst ! 12)) OR push_bit 16 (ucast (dst ! 13)) OR push_bit 8 (ucast (dst ! 14))
           in (XDP_DROP, xdp_put update x y rgb mp))
      else (XDP_DROP, mp))"

text \<open>
  The user program: \<open>fd\<close> is what \<open>bpf_obj_get\<close> answers. The look-up in its loop is commented out, so \<open>rgb\<close> stays 0.
  The result is the exit status and the colours printed.
\<close>

definition xdp_user_main :: "c_int \<Rightarrow> c_int \<times> u32 list" where
  "xdp_user_main fd =
     (if fd \<le> 0 then (1, [])
      else (0, let rgb = 0 in concat (map (\<lambda>x. concat (map (\<lambda>y. if rgb \<noteq> 0 then [rgb] else []) [0..<unat HEIGHT])) [0..<unat WIDTH])))"

section \<open>The array map as a pixel store\<close>

lemma xdp_index:
  assumes "x < WIDTH" "y < HEIGHT"
  shows "unat (x + y * WIDTH) = unat y * 1280 + unat x" "unat y * 1280 + unat x < unat max_entries"
proof -
  have x: "unat x < 1280" "unat y < 720" using assms by (simp_all add: WIDTH_def HEIGHT_def word_less_nat_alt)
  then show "unat y * 1280 + unat x < unat max_entries" by (simp add: max_entries_def WIDTH_def HEIGHT_def)
  have m: "unat (y * WIDTH) = unat y * 1280" using x(2) by (subst word_of_nat_unat_mult) (simp_all add: WIDTH_def)
  then show "unat (x + y * WIDTH) = unat y * 1280 + unat x" using x by (subst unat_add_no_overflow) simp_all
qed

lemma xdp_index_inj:
  assumes "in_range (WIDTH, HEIGHT) x y" "in_range (WIDTH, HEIGHT) x' y'"
  shows "x' + y' * WIDTH = x + y * WIDTH \<longleftrightarrow> x' = x \<and> y' = y"
proof -
  have i: "unat (x + y * WIDTH) = unat y * 1280 + unat x" "unat (x' + y' * WIDTH) = unat y' * 1280 + unat x'"
    using assms by (simp_all add: xdp_index in_range_def)
  have "unat x < 1280" "unat x' < 1280" using assms by (simp_all add: in_range_def WIDTH_def word_less_nat_alt)
  then show ?thesis unfolding word_unat_eq_iff i
    using row_major_inj [of "unat x'" 1280 "unat x" "unat y'" "unat y"] by auto
qed

lemma xdp_put_outside: "\<not> in_range (WIDTH, HEIGHT) x y \<Longrightarrow> xdp_put update x y c mp = mp"
  by (auto simp: xdp_put_def in_range_def)

lemma xdp_put_inside: "in_range (WIDTH, HEIGHT) x y \<Longrightarrow> xdp_put update x y c mp = update (x + y * WIDTH) c mp"
  by (auto simp: xdp_put_def in_range_def Let_def not_le)

text \<open>An array map has every index below \<open>max_entries\<close>, and refuses an update at any other.\<close>

locale bpf_array =
  fixes lookup :: "u32 \<Rightarrow> 'm \<Rightarrow> u32 option"
    and update :: "u32 \<Rightarrow> u32 \<Rightarrow> 'm \<Rightarrow> 'm"
    and ok :: "'m \<Rightarrow> bool"
  assumes update_ok: "ok mp \<Longrightarrow> ok (update i v mp)"
    and lookup_entries: "ok mp \<Longrightarrow> (lookup i mp \<noteq> None) = (unat i < unat max_entries)"
    and lookup_update: "ok mp \<Longrightarrow> unat i < unat max_entries \<Longrightarrow> lookup j (update i v mp) = (if j = i then Some v else lookup j mp)"
    and update_outside: "ok mp \<Longrightarrow> \<not> unat i < unat max_entries \<Longrightarrow> update i v mp = mp"
begin

lemma put_ok: "ok mp \<Longrightarrow> ok (xdp_put update x y c mp)"
  by (simp add: xdp_put_def update_ok Let_def)

lemma get_put_pixel:
  assumes "ok mp" "in_range (WIDTH, HEIGHT) x' y'"
  shows "lookup (x' + y' * WIDTH) (xdp_put update x y c mp) = (if x' = x \<and> y' = y then Some c else lookup (x' + y' * WIDTH) mp)"
proof (cases "in_range (WIDTH, HEIGHT) x y")
  case True
  then have "unat (x + y * WIDTH) < unat max_entries" by (simp add: xdp_index in_range_def)
  then show ?thesis using assms True by (simp add: xdp_put_inside lookup_update xdp_index_inj)
qed (use assms(2) in \<open>auto simp: xdp_put_outside\<close>)

end

sublocale bpf_array \<subseteq> px: pixel_store ok "\<lambda>_. (WIDTH, HEIGHT)" "\<lambda>mp x y c. Some (xdp_put update x y c mp)" "\<lambda>mp x y. lookup (x + y * WIDTH) mp"
  by unfold_locales (auto simp: put_ok get_put_pixel xdp_put_outside)

section \<open>The same packets\<close>

lemma word_fields:
  fixes a b :: u8
  shows "(ucast (push_bit 8 (ucast a) + ucast b :: u16) :: u32) = push_bit 8 (ucast a) OR ucast b"
proof -
  have "(push_bit 8 (ucast a) + ucast b :: u16) = push_bit 8 (ucast a) OR ucast b"
    by (rule disjunctive_add) (auto simp: bit_simps dest: bit_imp_le_length)
  then show ?thesis by (simp only:) (rule bit_word_eqI, auto simp: bit_simps dest: bit_imp_le_length)
qed

lemma colour_fields:
  fixes a b c :: u8
  shows "(push_bit 24 (ucast a) + push_bit 16 (ucast b) + push_bit 8 (ucast c) :: u32) =
     push_bit 24 (ucast a) OR push_bit 16 (ucast b) OR push_bit 8 (ucast c)"
proof -
  have 1: "(push_bit 24 (ucast a) + push_bit 16 (ucast b) :: u32) = push_bit 24 (ucast a) OR push_bit 16 (ucast b)"
    by (rule disjunctive_add) (auto simp: bit_simps dest: bit_imp_le_length)
  show ?thesis unfolding 1
    by (subst disjunctive_add) (auto simp: bit_simps or.assoc dest: bit_imp_le_length)
qed

text \<open>A packet with a whole IPv6 header draws what the server draws; a shorter one draws nothing.\<close>

lemma xdp_cmds:
  "xdp_pixelflut update data mp =
     (XDP_DROP, if length data < 54 then mp else the (put_all (\<lambda>mp x y c. Some (xdp_put update x y c mp)) mp (frame_cmds (take 54 data))))"
proof (cases "length data < 14")
  case True
  then show ?thesis by (simp add: xdp_pixelflut_def)
next
  case False
  then have "length (take 2 (drop 12 data)) = 2" by simp
  then obtain a b where ab: "take 2 (drop 12 data) = [a, b]" using two_bytes by blast
  show ?thesis
  proof (cases "length data < 54")
    case True
    then show ?thesis using False by (simp add: xdp_pixelflut_def)
  next
    case full: False
    have t: "take 2 (drop 12 (take 54 data)) = [a, b]" using ab by (simp add: drop_take)
    have d: "take 16 (drop 38 (take 54 data)) = take 16 (drop 38 data)" by (simp add: drop_take)
    show ?thesis using full False ab t d load16_ipv6 [of a b]
      by (simp add: xdp_pixelflut_def frame_cmds_def pixel_command_def Let_def word_fields colour_fields)
  qed
qed

section \<open>Runs\<close>

text \<open>The kernel calls the program once for every packet received.\<close>

fun xdp_run :: "(u32 \<Rightarrow> u32 \<Rightarrow> 'm \<Rightarrow> 'm) \<Rightarrow> u8 list list \<Rightarrow> 'm \<Rightarrow> xdp_action list \<times> 'm" where
  "xdp_run update [] mp = ([], mp)"
| "xdp_run update (p # ps) mp =
     (let (a, mp) = xdp_pixelflut update p mp; (as, mp) = xdp_run update ps mp in (a # as, mp))"

definition xdp_draw_cmds :: "u8 list \<Rightarrow> pixel_cmd list" where
  "xdp_draw_cmds p = (if length p < 54 then [] else frame_cmds (take 54 p))"

context bpf_array
begin

lemma run_cmds:
  assumes "ok mp"
  shows "xdp_run update ps mp = (replicate (length ps) XDP_DROP,
           the (put_all (\<lambda>mp x y c. Some (xdp_put update x y c mp)) mp (concat (map xdp_draw_cmds ps))))"
  using assms
proof (induction ps arbitrary: mp)
  case (Cons p ps)
  obtain mp1 where mp1: "put_all (\<lambda>mp x y c. Some (xdp_put update x y c mp)) mp (xdp_draw_cmds p) = Some mp1" "ok mp1"
    using px.put_all_total [OF Cons.prems] by blast
  have "xdp_pixelflut update p mp = (XDP_DROP, mp1)" using mp1(1) by (auto simp: xdp_cmds xdp_draw_cmds_def)
  then show ?case using Cons.IH [OF mp1(2)] mp1(1) by (simp add: put_all_append)
qed simp

lemma run_pictures:
  assumes "ok mp"
  shows "\<exists>mp'. xdp_run update ps mp = (replicate (length ps) XDP_DROP, mp') \<and> ok mp' \<and>
     (\<forall>x y. in_range (WIDTH, HEIGHT) x y \<longrightarrow>
        lookup (x + y * WIDTH) mp' \<noteq> None \<and>
        lookup (x + y * WIDTH) mp' = (case last_cmd (concat (map xdp_draw_cmds ps)) x y of Some c \<Rightarrow> Some c | None \<Rightarrow> lookup (x + y * WIDTH) mp))"
proof -
  obtain mp' where mp': "put_all (\<lambda>mp x y c. Some (xdp_put update x y c mp)) mp (concat (map xdp_draw_cmds ps)) = Some mp'" "ok mp'"
    using px.put_all_total [OF assms] by blast
  have "lookup (x + y * WIDTH) mp' \<noteq> None" if "in_range (WIDTH, HEIGHT) x y" for x y
    using that unfolding lookup_entries [OF mp'(2)] by (simp add: xdp_index in_range_def)
  then show ?thesis using mp' run_cmds [OF assms, of ps] px.put_all_get [OF assms mp'(1)] by simp
qed

end

lemma last_cmd_append:
  "last_cmd (a @ b) x y = (case last_cmd b x y of Some c \<Rightarrow> Some c | None \<Rightarrow> last_cmd a x y)"
  by (induction a x y rule: last_cmd.induct) (auto split: option.splits)

lemma last_cmd_None: "last_cmd cs x y = None \<longleftrightarrow> (\<forall>c. (x, y, c) \<notin> set cs)"
  by (induction cs x y rule: last_cmd.induct) (auto split: option.splits)

text \<open>Commands may be left out where they are for other pixels.\<close>

lemma last_cmd_skips:
  "(\<And>m. m \<in> set ms \<Longrightarrow> g m = f m \<or> g m = [] \<and> (\<forall>c. (x, y, c) \<notin> set (f m))) \<Longrightarrow>
     last_cmd (concat (map g ms)) x y = last_cmd (concat (map f ms)) x y"
proof (induction ms)
  case (Cons m ms)
  have "last_cmd (g m) x y = last_cmd (f m) x y" using Cons.prems [of m] by (auto simp: last_cmd_None [THEN iffD2])
  then show ?case using Cons by (simp add: last_cmd_append split: option.splits)
qed simp

lemma frame_view_data:
  assumes "rx_mbuf mp mm m" "54 \<le> length (pkt_bytes mm [m])"
  shows "frame_view mm m = take 54 (pkt_bytes mm [m])"
  using assms by (auto simp: rx_mbuf_def frame_view_def pkt_bytes_def seg_data_def buf_data_def split: option.splits)

section \<open>Properties\<close>

text \<open>
  The XDP program. Every packet is dropped; every pixel of the array map then has the colour of the last packet of at least 54 bytes
  that carries the IPv6 type and names the pixel, or the word it had, and the map keeps its size. No index outside the map is ever used.
\<close>

theorem xdp_draws:
  assumes "bpf_array lookup update ok" "ok mp"
  shows "\<exists>mp'. xdp_run update ps mp = (replicate (length ps) XDP_DROP, mp') \<and> ok mp' \<and>
     (\<forall>x y. in_range (WIDTH, HEIGHT) x y \<longrightarrow>
        lookup (x + y * WIDTH) mp' \<noteq> None \<and>
        lookup (x + y * WIDTH) mp' =
          (case last_cmd (concat (map frame_cmds (filter (\<lambda>p. 54 \<le> length p) ps))) x y of Some c \<Rightarrow> Some c
           | None \<Rightarrow> lookup (x + y * WIDTH) mp))"
proof -
  have t: "frame_cmds (take 54 p) = frame_cmds p" if "54 \<le> length p" for p
    by (simp add: frame_cmds_def drop_take)
  have "concat (map frame_cmds (filter (\<lambda>p. 54 \<le> length p) ps)) = concat (map xdp_draw_cmds ps)"
    by (induction ps) (auto simp: xdp_draw_cmds_def t)
  then show ?thesis using bpf_array.run_pictures [OF assms] by simp
qed

text \<open>
  C12: The server and the XDP program side by side. From equal pictures, and for the same burst of packets, the two pictures are equal
  afterwards in every pixel, except those that a packet shorter than 54 bytes names by bytes which are not part of it: the server reads these
  from its buffer and draws, the XDP program drops the packet.
\<close>

theorem xdp_matches_server:
  assumes arr: "bpf_array lookup update ok" "ok pix"
    and pool: "ring_pktpool_ok flags A mp (nw_mm st) (nic \<union> set ms)" "nic \<inter> set ms = {}" "distinct ms"
    and rx: "\<forall>m \<in> set ms. rx_mbuf mp (nw_mm st) m"
    and fb: "fb_wf (nw_fb st) f" "fb_dim (nw_fb st) f = (WIDTH, HEIGHT)"
    and eq: "\<And>x y. in_range (WIDTH, HEIGHT) x y \<Longrightarrow> fb_get_pixel (nw_fb st) f x y = lookup (x + y * WIDTH) pix"
  shows "\<exists>st' acts pix'. handle_burst lcore f ms st = Some st' \<and>
     xdp_run update (map (\<lambda>m. pkt_bytes (nw_mm st) [m]) ms) pix = (acts, pix') \<and>
     (\<forall>x y. in_range (WIDTH, HEIGHT) x y \<longrightarrow>
        fb_get_pixel (nw_fb st') f x y = lookup (x + y * WIDTH) pix' \<or>
        (\<exists>m \<in> set ms. length (pkt_bytes (nw_mm st) [m]) < 54 \<and> (\<exists>c. (x, y, c) \<in> set (frame_cmds (frame_view (nw_mm st) m)))))"
proof -
  let ?f = "\<lambda>m. frame_cmds (frame_view (nw_mm st) m)" and ?g = "\<lambda>m. xdp_draw_cmds (pkt_bytes (nw_mm st) [m])"
  obtain st' where st': "handle_burst lcore f ms st = Some st'"
      "put_all (\<lambda>x. fb_set_pixel x f) (nw_fb st) (concat (map ?f ms)) = Some (nw_fb st')"
    using handle_burst_ok [OF pool rx fb(1)] by blast
  have g: "concat (map xdp_draw_cmds (map (\<lambda>m. pkt_bytes (nw_mm st) [m]) ms)) = concat (map ?g ms)" by (simp add: comp_def)
  obtain pix' where pix': "xdp_run update (map (\<lambda>m. pkt_bytes (nw_mm st) [m]) ms) pix = (replicate (length ms) XDP_DROP, pix')"
      "\<And>x y. in_range (WIDTH, HEIGHT) x y \<Longrightarrow> lookup (x + y * WIDTH) pix' =
         (case last_cmd (concat (map ?g ms)) x y of Some c \<Rightarrow> Some c | None \<Rightarrow> lookup (x + y * WIDTH) pix)"
    using bpf_array.run_pictures [OF arr, of "map (\<lambda>m. pkt_bytes (nw_mm st) [m]) ms", unfolded g length_map] by blast
  have "fb_get_pixel (nw_fb st') f x y = lookup (x + y * WIDTH) pix'"
    if r: "in_range (WIDTH, HEIGHT) x y" and
       n: "\<not> (\<exists>m \<in> set ms. length (pkt_bytes (nw_mm st) [m]) < 54 \<and> (\<exists>c. (x, y, c) \<in> set (?f m)))" for x y
  proof -
    have "last_cmd (concat (map ?g ms)) x y = last_cmd (concat (map ?f ms)) x y"
    proof (rule last_cmd_skips)
      fix m assume m: "m \<in> set ms"
      show "?g m = ?f m \<or> ?g m = [] \<and> (\<forall>c. (x, y, c) \<notin> set (?f m))"
        using n m rx frame_view_data [of mp "nw_mm st" m] by (cases "length (pkt_bytes (nw_mm st) [m]) < 54") (auto simp: xdp_draw_cmds_def)
    qed
    then show ?thesis
      using fbst.put_all_get [OF fb(1) st'(2)] pix'(2) [OF r] r eq [OF r] fb(2) by (simp split: option.splits)
  qed
  then show ?thesis using st'(1) pix'(1) by blast
qed

text \<open>The user program never prints a colour: the colour it tests is never read from the map.\<close>

lemma xdp_user_main_silent: "snd (xdp_user_main fd) = []"
  by (simp add: xdp_user_main_def)

section \<open>A short packet\<close>

text \<open>A list of words is an array map.\<close>

definition arr_update :: "u32 \<Rightarrow> u32 \<Rightarrow> u32 list \<Rightarrow> u32 list" where
  "arr_update index v mp = (if unat index < length mp then mp[unat index := v] else mp)"

definition arr_lookup :: "u32 \<Rightarrow> u32 list \<Rightarrow> u32 option" where
  "arr_lookup index mp = (if unat index < length mp then Some (mp ! unat index) else None)"

definition arr_ok :: "u32 list \<Rightarrow> bool" where
  "arr_ok mp \<longleftrightarrow> length mp = unat max_entries"

definition framebuffer :: "u32 list" where
  "framebuffer = replicate (unat max_entries) 0"

interpretation arr: bpf_array arr_lookup arr_update arr_ok
  by unfold_locales (auto simp: arr_lookup_def arr_update_def arr_ok_def nth_list_update word_unat_eq_iff)

text \<open>
  An IPv6 type without a header behind it: 14 bytes of packet in a buffer that still holds an older packet's destination address. The
  frame buffer and the array map are black.
\<close>

definition short_frame :: "u8 list" where
  "short_frame = [1, 2, 3, 4, 5, 6, 7, 8, 9, 10, 11, 12, 0x86, 0xdd]"

definition stale_bytes :: "u8 list" where
  "stale_bytes = replicate 24 0 @ [0x40, 0, 0, 0x42, 0, 0, 0, 0, 0, 1, 0, 2, 0xff, 0xee, 0xdd, 0]"

definition short_state :: "(nat rte_ring option) net_state" where
  "short_state =
     \<lparr>nw_mm = \<lparr>mm_mbufs = [7 \<mapsto> (mbuf_at 135 128 14 None 1 14)\<lparr>mb_buf_len := 256, mb_pool := 9\<rparr>],
               mm_bufs = [135 \<mapsto> replicate 128 0 @ short_frame @ stale_bytes @ replicate 74 0], mm_shinfos = Map.empty,
               mm_pools = [9 \<mapsto> \<lparr>pl_ops = ring_ops_of_flags 0,
                  pl_mp = pool_sample\<lparr>mp_data := Some (ring_sample\<lparr>r_size := 2, r_mask := 1, r_capacity := 1, r_tbl := [7, 0],
                     r_cons := r_prod ring_sample\<rparr>)\<rparr>,
                  pl_priv = \<lparr>mbuf_data_room_size = 256, mbuf_priv_size = 0\<rparr>\<rparr>],
               mm_freed = []\<rparr>,
      nw_fb = \<lparr>pxs = [11 \<mapsto> framebuffer],
        fbs = [3 \<mapsto> \<lparr>size_of = \<lparr>width = 1280, height = 720\<rparr>, pixels = 11, numa_node = 0, pixelCounter = 0, bytesCounter = 0\<rparr>],
        links = \<lparr>entries = Map.empty, llists = Map.empty\<rparr>\<rparr>,
      nw_unknown = []\<rparr>"

lemma framebuffer_wf: "arr_ok framebuffer" "length framebuffer = 921600" "i < 921600 \<Longrightarrow> framebuffer ! i = 0"
  by (simp_all add: arr_ok_def framebuffer_def max_entries_def WIDTH_def HEIGHT_def)

lemma short_state_ok:
  "ring_pktpool_ok 0 {7} 9 (nw_mm short_state) ({} \<union> set [7])" "rx_mbuf 9 (nw_mm short_state) 7"
  "fb_wf (nw_fb short_state) 3" "fb_dim (nw_fb short_state) 3 = (WIDTH, HEIGHT)"
proof -
  let ?r = "ring_sample\<lparr>r_size := 2, r_mask := 1, r_capacity := 1, r_tbl := [7, 0], r_cons := r_prod ring_sample\<rparr>"
  have "ring_wf ?r" unfolding ring_wf_def
    by (intro conjI exI [of _ 1]) (simp_all add: ring_sample_def ring_len_def)
  moreover have "ring_items ?r = []" by (simp add: ring_sample_def ring_items_def ring_len_def ring_slot_def)
  moreover have "ring_cap ?r = 1" by (simp add: ring_sample_def ring_cap_def)
  ultimately have "ring_pool_ok {#7#} (pool_sample\<lparr>mp_data := Some ?r\<rparr>) {#7#}"
    by (simp add: pool_ok_def pool_sample_def caches_items_def)
  then show "ring_pktpool_ok 0 {7} 9 (nw_mm short_state) ({} \<union> set [7])"
    by (simp add: pktpool_ok_def short_state_def)
  show "rx_mbuf 9 (nw_mm short_state) 7"
    by (simp add: rx_mbuf_def short_state_def pkt_ok_def seg_ok_def buf_ok_def seg_data_def buf_data_def mbuf_at_def seg_mine_def own_buf_def
        short_frame_def stale_bytes_def RTE_MBUF_DIRECT_def rte_mbuf_buf_addr_def
        rte_pktmbuf_priv_size_def rte_pktmbuf_data_room_size_def sizeof_mbuf_def)
  show "fb_wf (nw_fb short_state) 3" by (simp add: fb_wf_def short_state_def framebuffer_wf)
  show "fb_dim (nw_fb short_state) 3 = (WIDTH, HEIGHT)" by (simp add: fb_dim_def short_state_def WIDTH_def HEIGHT_def)
qed

lemma short_state_black:
  assumes "in_range (WIDTH, HEIGHT) x y"
  shows "fb_get_pixel (nw_fb short_state) 3 x y = Some 0" "arr_lookup (x + y * WIDTH) framebuffer = Some 0"
proof -
  have i: "unat (x + y * WIDTH) < 921600" using assms xdp_index [of x y] by (simp add: in_range_def max_entries_def WIDTH_def HEIGHT_def)
  then show "arr_lookup (x + y * WIDTH) framebuffer = Some 0" by (simp add: arr_lookup_def framebuffer_wf)
  have "unat (y * 1280 + x) < 921600" using i by (simp add: WIDTH_def add.commute)
  then show "fb_get_pixel (nw_fb short_state) 3 x y = Some 0"
    using assms by (simp add: fb_get_pixel_def short_state_def in_range_def WIDTH_def HEIGHT_def blk_read_def framebuffer_wf)
qed

lemma short_state_cmds:
  "pkt_bytes (nw_mm short_state) [7] = short_frame" "length short_frame = 14"
  "frame_cmds (frame_view (nw_mm short_state) 7) = [(1, 2, 0xffeedd00)]"
proof -
  show "pkt_bytes (nw_mm short_state) [7] = short_frame" "length short_frame = 14"
    by (simp_all add: seg_data_def buf_data_def short_state_def mbuf_at_def short_frame_def)
  have v: "frame_view (nw_mm short_state) 7 = short_frame @ stale_bytes"
    by (simp add: frame_view_def short_state_def mbuf_at_def short_frame_def stale_bytes_def)
  show "frame_cmds (frame_view (nw_mm short_state) 7) = [(1, 2, 0xffeedd00)]"
    unfolding v by (simp add: frame_cmds_def short_frame_def stale_bytes_def pixel_command_def)
qed

theorem xdp_draws_witness:
  "\<exists>mp'. xdp_run arr_update [short_frame, short_frame @ stale_bytes] framebuffer = ([XDP_DROP, XDP_DROP], mp') \<and>
     arr_lookup (1 + 2 * WIDTH) mp' = Some 0xffeedd00"
proof -
  have r: "in_range (WIDTH, HEIGHT) 1 2" by (simp add: in_range_def WIDTH_def HEIGHT_def)
  have c: "concat (map frame_cmds (filter (\<lambda>p. 54 \<le> length p) [short_frame, short_frame @ stale_bytes])) = [(1, 2, 0xffeedd00)]"
    by (simp add: frame_cmds_def short_frame_def stale_bytes_def pixel_command_def)
  show ?thesis
    using xdp_draws [OF arr.bpf_array_axioms framebuffer_wf(1), of "[short_frame, short_frame @ stale_bytes]", unfolded c] r by fastforce
qed

theorem xdp_matches_server_witness:
  "\<exists>st' acts pix'. handle_burst 3 3 [7] short_state = Some st' \<and> xdp_run arr_update [short_frame] framebuffer = (acts, pix') \<and>
     (\<forall>x y. in_range (WIDTH, HEIGHT) x y \<longrightarrow> (x, y) \<noteq> (1, 2) \<longrightarrow>
        fb_get_pixel (nw_fb st') 3 x y = arr_lookup (x + y * WIDTH) pix')"
proof -
  have "\<forall>m \<in> set [7]. rx_mbuf 9 (nw_mm short_state) m" using short_state_ok(2) by simp
  from xdp_matches_server [OF arr.bpf_array_axioms framebuffer_wf(1) short_state_ok(1) _ _ this short_state_ok(3,4), of 3] short_state_black
  obtain st' acts pix' where "handle_burst 3 3 [7] short_state = Some st'"
      "xdp_run arr_update (map (\<lambda>m. pkt_bytes (nw_mm short_state) [m]) [7]) framebuffer = (acts, pix')"
      "\<And>x y. in_range (WIDTH, HEIGHT) x y \<Longrightarrow> fb_get_pixel (nw_fb st') 3 x y = arr_lookup (x + y * WIDTH) pix' \<or>
        (\<exists>m \<in> set [7]. \<exists>c. (x, y, c) \<in> set (frame_cmds (frame_view (nw_mm short_state) m)))"
    by (simp del: handle_burst.simps xdp_run.simps) blast
  then show ?thesis
    by (intro exI [of _ st'] exI [of _ acts] exI [of _ pix'])
      (auto simp: short_state_cmds simp del: handle_burst.simps xdp_run.simps pkt_bytes_simps)
qed

text \<open>The short packet does draw on the server, and not in the array map.\<close>

lemma short_frame_diverges:
  "\<exists>st'. handle_burst 3 3 [7] short_state = Some st' \<and> fb_get_pixel (nw_fb st') 3 1 2 = Some 0xffeedd00 \<and>
     xdp_run arr_update [short_frame] framebuffer = ([XDP_DROP], framebuffer)"
proof -
  have "\<forall>m \<in> set [7]. rx_mbuf 9 (nw_mm short_state) m" using short_state_ok(2) by simp
  from handle_burst_ok [OF short_state_ok(1) _ _ this short_state_ok(3), of 3] obtain st' where
    st': "handle_burst 3 3 [7] short_state = Some st'" "put_all (\<lambda>x. fb_set_pixel x 3) (nw_fb short_state) [(1, 2, 0xffeedd00)] = Some (nw_fb st')"
    by (auto simp: short_state_cmds)
  have "in_range (fb_dim (nw_fb short_state) 3) 1 2" unfolding short_state_ok(4) by (simp add: in_range_def WIDTH_def HEIGHT_def)
  from fbst.put_all_get [OF short_state_ok(3) st'(2) this] st'(1) show ?thesis
    by (simp add: xdp_cmds short_state_cmds)
qed

end
