(* ===== verification/Clients.thy ===== *)
theory Clients
  imports Xdp
begin

text \<open>
  The programs that send pixels to the server: the socket client (\<open>pixelflut_v6_client/foo.c\<close>), the DPDK client
  (\<open>pixelflut_v6_client_dpdk/basicfwd.c\<close>) and an unfinished one (\<open>pixelflut_client_v42/basicfwd.c\<close>). A pixel is the
  destination address of an IPv6 packet. Random numbers, and what the socket and device calls answer, are arguments; the
  endless loops are cut off at the end of a list of rounds.
\<close>

section \<open>The socket client\<close>

definition PORT :: u16 where "PORT = 1234"

text \<open>The address \<open>colorPixel\<close> fills in, and the datagram it sends: port, address and no data. \<open>Inl\<close> is an exit with a message.\<close>

definition sin6_addr :: "c_int \<Rightarrow> c_int \<Rightarrow> u32 \<Rightarrow> u8 list" where
  "sin6_addr x y rgb =
     [0x40, 0x00, 0x00, 0x42, 0, 0, 0, 0,
      word_of_int (x div 256), word_of_int x, word_of_int (y div 256), word_of_int y,
      ucast (drop_bit 24 rgb), ucast (drop_bit 16 rgb), ucast (drop_bit 8 rgb), ucast rgb]"

type_synonym datagram = "u16 \<times> u8 list \<times> u8 list"

definition colorPixel :: "c_int \<times> c_int \<Rightarrow> c_int \<Rightarrow> c_int \<Rightarrow> u32 \<Rightarrow> string + datagram" where
  "colorPixel answers x y rgb =
     (case answers of (socket, sendto) \<Rightarrow>
        if socket = - 1 then Inl ''Can not open socket''
        else if sendto = - 1 then Inl ''Can not send packet''
        else Inr (PORT, sin6_addr x y rgb, []))"

text \<open>\<open>ans k\<close> is what the two calls answer for the pixel number \<open>k\<close>.\<close>

fun color_pixels :: "(nat \<Rightarrow> c_int \<times> c_int) \<Rightarrow> nat \<Rightarrow> (c_int \<times> c_int \<times> u32) list \<Rightarrow> string option \<times> datagram list" where
  "color_pixels ans k [] = (None, [])"
| "color_pixels ans k ((x, y, rgb) # ps) =
     (case colorPixel (ans k) x y rgb of Inl e \<Rightarrow> (Some e, [])
      | Inr d \<Rightarrow> let (e, ds) = color_pixels ans (Suc k) ps in (e, d # ds))"

definition foo_square :: "c_int \<times> c_int \<times> c_int \<Rightarrow> (c_int \<times> c_int \<times> u32) list" where
  "foo_square = (\<lambda>(r1, r2, r3).
     let startX = r1 mod 700; startY = r2 mod 500; rgb = word_of_int r3
     in concat (map (\<lambda>x. map (\<lambda>y. (x, y, rgb)) [startY..startY + 49]) [startX..startX + 49]))"

text \<open>A round is the three numbers \<open>rand\<close> gives, which are not negative.\<close>

fun foo_main :: "(nat \<Rightarrow> c_int \<times> c_int) \<Rightarrow> nat \<Rightarrow> (c_int \<times> c_int \<times> c_int) list \<Rightarrow> string option \<times> datagram list" where
  "foo_main ans k [] = (None, [])"
| "foo_main ans k (r # rs) =
     (case color_pixels ans k (foo_square r) of (Some e, ds) \<Rightarrow> (Some e, ds)
      | (None, ds) \<Rightarrow> let (e, ds') = foo_main ans (k + length ds) rs in (e, ds @ ds'))"

section \<open>The DPDK client\<close>

definition BURST_SIZE :: nat where "BURST_SIZE = 32"
definition NUM_MBUFS :: u32 where "NUM_MBUFS = 8191"
definition MBUF_CACHE_SIZE :: u32 where "MBUF_CACHE_SIZE = 250"
definition RX_RING_SIZE :: u16 where "RX_RING_SIZE = 1024"
definition TX_RING_SIZE :: u16 where "TX_RING_SIZE = 1024"
definition RTE_MBUF_DEFAULT_BUF_SIZE :: u16 where "RTE_MBUF_DEFAULT_BUF_SIZE = 2048 + RTE_PKTMBUF_HEADROOM"

definition client_daddr :: "u8 list" where "client_daddr = [0xf8, 0xb1, 0x56, 0xc0, 0x37, 0xba]"
definition client_saddr :: "u8 list" where "client_saddr = [0x28, 0xf1, 0x0e, 0x26, 0x3d, 0xc7]"

definition store16 :: "u16 \<Rightarrow> u8 list" where
  "store16 v = [ucast v, ucast (drop_bit 8 v)]"

text \<open>A 32-bit word in network byte order.\<close>

definition store_be32 :: "u32 \<Rightarrow> u8 list" where
  "store_be32 v = [ucast (drop_bit 24 v), ucast (drop_bit 16 v), ucast (drop_bit 8 v), ucast v]"

definition client_dst :: "c_int \<Rightarrow> c_int \<Rightarrow> u32 \<Rightarrow> u8 list" where
  "client_dst x y rgb =
     [0x40, 0x00, 0x42, 0x00, 0, 0, 0, 0,
      word_of_int (x div 256), word_of_int x, word_of_int (y div 256), word_of_int y,
      ucast (drop_bit 24 rgb), ucast (drop_bit 16 rgb), ucast (drop_bit 8 rgb), 0]"

abbreviation (input) ptr_plus :: "bptr \<Rightarrow> nat \<Rightarrow> bptr" where
  "ptr_plus p n \<equiv> (fst p, snd p + n)"

text \<open>Headers and destination of one packet. \<open>rte_pktmbuf_append\<close> answers NULL when there is no room, and the store then goes through NULL.\<close>

definition write_pixel :: "maddr \<Rightarrow> c_int \<Rightarrow> c_int \<Rightarrow> u32 \<Rightarrow> 'p mbuf_mem \<Rightarrow> 'p mbuf_mem option" where
  "write_pixel m x y rgb mm = do {
     (tail, mm) \<leftarrow> rte_pktmbuf_append m 54 mm;
     eth_hdr \<leftarrow> tail;
     h \<leftarrow> bytes_put (mm_bufs mm) (ptr_plus eth_hdr 12) (store16 (rte_be_to_cpu_16 ETHER_TYPE_IPv6));
     h \<leftarrow> bytes_put h (ptr_plus eth_hdr 6) client_saddr;
     h \<leftarrow> bytes_put h eth_hdr client_daddr;
     M \<leftarrow> mm_mbufs mm m;
     let ipv6_hdr = rte_pktmbuf_mtod_offset M sizeof_ether_hdr;
     h \<leftarrow> bytes_put h ipv6_hdr (store_be32 (push_bit 28 6));
     h \<leftarrow> bytes_put h (ptr_plus ipv6_hdr dst_addr_ofs) (client_dst x y rgb);
     Some (mm\<lparr>mm_bufs := h\<rparr>) }"

text \<open>The position of the pen, the colour, and how many numbers \<open>rand\<close> has given; \<open>rnd n\<close> is the number \<open>n\<close>.\<close>

record pen =
  pen_x :: c_int
  pen_y :: c_int
  pen_rgb :: u32
  pen_rands :: nat

definition pen_start :: "(nat \<Rightarrow> u32) \<Rightarrow> pen" where
  "pen_start rnd = \<lparr>pen_x = 100, pen_y = 100, pen_rgb = rnd 0, pen_rands = 1\<rparr>"

definition next_pixel :: "(nat \<Rightarrow> u32) \<Rightarrow> pen \<Rightarrow> pen" where
  "next_pixel rnd p =
     (let p = p\<lparr>pen_x := pen_x p + 1\<rparr> in
      if pen_x p > 900 then
        (let p = p\<lparr>pen_x := 100, pen_y := pen_y p + 1\<rparr> in
         if pen_y p > 700 then p\<lparr>pen_y := 100, pen_rgb := rnd (pen_rands p), pen_rands := pen_rands p + 1\<rparr> else p)
      else p)"

fun fill_burst :: "(nat \<Rightarrow> u32) \<Rightarrow> maddr list \<Rightarrow> pen \<Rightarrow> 'p mbuf_mem \<Rightarrow> (pen \<times> 'p mbuf_mem) option" where
  "fill_burst rnd [] p mm = Some (p, mm)"
| "fill_burst rnd (m # ms) p mm = do {
     mm \<leftarrow> write_pixel m (pen_x p) (pen_y p) (pen_rgb p) mm;
     fill_burst rnd ms (next_pixel rnd p) mm }"

fun free_unsent :: "u32 \<Rightarrow> maddr list \<Rightarrow> 'p mbuf_mem \<Rightarrow> 'p mbuf_mem option" where
  "free_unsent lcore [] mm = Some mm"
| "free_unsent lcore (m # ms) mm = do { mm \<leftarrow> rte_pktmbuf_free lcore (Some m) mm; free_unsent lcore ms mm }"

text \<open>
  One burst on one port. \<open>tx\<close> is \<open>rte_eth_tx_burst\<close>: how many mbufs the card takes, and the memory then. \<open>cl_head\<close> is the array
  \<open>m_head\<close>, \<open>cl_alloc_fails\<close> counts the messages; after a failed allocation the array still holds the old mbufs. \<open>cl_sent\<close> is the bytes of the packets
  the card has taken.
\<close>

type_synonym 'p tx_burst = "maddr list \<Rightarrow> 'p mbuf_mem \<Rightarrow> nat \<times> 'p mbuf_mem"

record 'p client =
  cl_mm :: "'p mbuf_mem"
  cl_head :: "maddr list"
  cl_pen :: pen
  cl_alloc_fails :: nat
  cl_sent :: "u8 list list"

definition client_burst :: "u32 \<Rightarrow> nat \<Rightarrow> (nat \<Rightarrow> u32) \<Rightarrow> 'p tx_burst \<Rightarrow> 'p client \<Rightarrow> 'p client option" where
  "client_burst lcore mbuf_pool rnd tx c = do {
     (rc, m_head, mm) \<leftarrow> rte_pktmbuf_alloc_bulk lcore mbuf_pool (cl_head c) (of_nat BURST_SIZE) (cl_mm c);
     let c = c\<lparr>cl_head := m_head, cl_alloc_fails := cl_alloc_fails c + (if rc \<noteq> 0 then 1 else 0)\<rparr>;
     (p, mm) \<leftarrow> fill_burst rnd (take BURST_SIZE m_head) (cl_pen c) mm;
     let (nb_tx, mm') = tx (take BURST_SIZE m_head) mm;
     mm' \<leftarrow> (if nb_tx < BURST_SIZE then free_unsent lcore (drop nb_tx (take BURST_SIZE m_head)) mm' else Some mm');
     Some (c\<lparr>cl_mm := mm', cl_pen := p, cl_sent := cl_sent c @ map (\<lambda>m. pkt_bytes mm [m]) (take nb_tx (take BURST_SIZE m_head))\<rparr>) }"

text \<open>Each element is a burst: the rounds of the endless loop, and in each the ports, one after the other.\<close>

fun lcore_main :: "u32 \<Rightarrow> nat \<Rightarrow> (nat \<Rightarrow> u32) \<Rightarrow> 'p tx_burst list \<Rightarrow> 'p client \<Rightarrow> 'p client option" where
  "lcore_main lcore mbuf_pool rnd [] c = Some c"
| "lcore_main lcore mbuf_pool rnd (tx # txs) c = do {
     c \<leftarrow> client_burst lcore mbuf_pool rnd tx c;
     lcore_main lcore mbuf_pool rnd txs c }"

text \<open>Setting up a port: the result is the first error, else 0, with the calls made.\<close>

datatype port_call =
  Port_valid | Port_info | Port_configure u16 u16 | Port_adjust u16 u16 | Port_rx_queue u16 nat | Port_tx_queue u16 nat | Port_start
| Port_macaddr | Port_promiscuous

fun port_calls :: "(port_call \<Rightarrow> c_int) \<Rightarrow> (port_call \<times> (c_int \<Rightarrow> bool)) list \<Rightarrow> c_int \<times> port_call list" where
  "port_calls ans [] = (0, [])"
| "port_calls ans ((call, fails) # cs) =
     (if fails (ans call) then (ans call, [call])
      else let (r, ds) = port_calls ans cs in (r, call # ds))"

definition port_init :: "(port_call \<Rightarrow> c_int) \<Rightarrow> u16 \<Rightarrow> u16 \<Rightarrow> c_int \<times> port_call list" where
  "port_init ans nb_rxd nb_txd =
     (if ans Port_valid = 0 then (- 1, [Port_valid])
      else let (r, cs) = port_calls ans
        [(Port_info, \<lambda>_. False), (Port_configure 1 1, \<lambda>r. r \<noteq> 0), (Port_adjust RX_RING_SIZE TX_RING_SIZE, \<lambda>r. r \<noteq> 0),
         (Port_rx_queue nb_rxd 0, \<lambda>r. r < 0), (Port_tx_queue nb_txd 0, \<lambda>r. r < 0), (Port_start, \<lambda>r. r < 0),
         (Port_macaddr, \<lambda>_. False), (Port_promiscuous, \<lambda>_. False)]
      in (r, Port_valid # cs))"

text \<open>
  Up to \<open>lcore_main\<close>: \<open>Inl\<close> is the end of the program with a message. \<open>create\<close> is the call of \<open>rte_pktmbuf_pool_create\<close>,
  \<open>ports\<close> are the ports with what their calls answer and the descriptor numbers the device adjusts.
\<close>

definition client_main ::
    "c_int \<Rightarrow> u32 \<Rightarrow> (string \<Rightarrow> u32 \<Rightarrow> u32 \<Rightarrow> u16 \<Rightarrow> u16 \<Rightarrow> (c_int option + nat \<times> 'p mbuf_mem) option) \<Rightarrow>
     ((port_call \<Rightarrow> c_int) \<times> u16 \<times> u16) list \<Rightarrow> (string + nat \<times> 'p mbuf_mem) option" where
  "client_main eal nb_ports create ports =
     (if eal < 0 then Some (Inl ''Error with EAL initialization'')
      else do {
        r \<leftarrow> create ''MBUF_POOL'' (NUM_MBUFS * nb_ports) MBUF_CACHE_SIZE 0 RTE_MBUF_DEFAULT_BUF_SIZE;
        case r of Inl _ \<Rightarrow> Some (Inl ''Cannot create mbuf pool'')
        | Inr (mbuf_pool, mm) \<Rightarrow>
            (if list_ex (\<lambda>(ans, nb_rxd, nb_txd). fst (port_init ans nb_rxd nb_txd) \<noteq> 0) ports then Some (Inl ''Cannot init port'')
             else Some (Inr (mbuf_pool, mm))) })"

section \<open>The unfinished client\<close>

text \<open>One mbuf for each port in every round, which is never sent or freed; \<open>True\<close>: the function has returned.\<close>

fun v42_ports :: "u32 \<Rightarrow> nat \<Rightarrow> nat \<Rightarrow> 'p mbuf_mem \<Rightarrow> (bool \<times> 'p mbuf_mem) option" where
  "v42_ports lcore mbuf_pool 0 mm = Some (False, mm)"
| "v42_ports lcore mbuf_pool (Suc n) mm = do {
     (created_pkt, mm) \<leftarrow> rte_pktmbuf_alloc lcore mbuf_pool mm;
     case created_pkt of None \<Rightarrow> Some (True, mm) | Some _ \<Rightarrow> v42_ports lcore mbuf_pool n mm }"

fun v42_main_loop :: "nat \<Rightarrow> u32 \<Rightarrow> nat \<Rightarrow> nat \<Rightarrow> 'p mbuf_mem \<Rightarrow> (bool \<times> 'p mbuf_mem) option" where
  "v42_main_loop 0 lcore mbuf_pool ports mm = Some (False, mm)"
| "v42_main_loop (Suc rounds) lcore mbuf_pool ports mm = do {
     (returned, mm) \<leftarrow> v42_ports lcore mbuf_pool ports mm;
     if returned then Some (True, mm) else v42_main_loop rounds lcore mbuf_pool ports mm }"

section \<open>Addresses and pixels\<close>

lemma coord_bytes:
  "(push_bit 8 (ucast (word_of_int (x div 256) :: u8)) + ucast (word_of_int x :: u8) :: u16) = word_of_int x"
proof -
  have u: "(ucast (word_of_int k :: u8) :: u16) = word_of_int (k mod 256)" for k
    by (simp add: unsigned_of_int take_bit_eq_mod)
  have "x mod 65536 = 256 * (x div 256 mod 256) + x mod 256" using zmod_zmult2_eq [of 256 x 256] by simp
  then have "(word_of_int (x mod 65536) :: u16) = word_of_int (256 * (x div 256 mod 256) + x mod 256)" by simp
  moreover have "(word_of_int (x mod 65536) :: u16) = word_of_int x" by (simp add: word_of_int_eq_iff take_bit_eq_mod)
  ultimately show ?thesis unfolding u by (simp add: push_bit_eq_mult)
qed

lemma colour_bytes:
  fixes c :: u32
  shows "push_bit 24 (ucast (ucast (drop_bit 24 c) :: u8)) + push_bit 16 (ucast (ucast (drop_bit 16 c) :: u8)) +
     push_bit 8 (ucast (ucast (drop_bit 8 c) :: u8)) = c AND NOT (mask 8)"
  unfolding colour_fields
proof (rule bit_word_eqI)
  fix n assume "n < LENGTH(32)"
  then consider "n < 16" | "16 \<le> n" "n < 24" | "24 \<le> n" "n < 32" by fastforce
  then show "bit (push_bit 24 (ucast (ucast (drop_bit 24 c) :: u8)) OR push_bit 16 (ucast (ucast (drop_bit 16 c) :: u8)) OR
      push_bit 8 (ucast (ucast (drop_bit 8 c) :: u8)) :: u32) n = bit (c AND NOT (mask 8)) n"
    by cases (auto simp: bit_simps)
qed

lemma wide_coord: "(ucast (word_of_int x :: u16) :: u32) = word_of_int (x mod 65536)"
  by (simp add: unsigned_of_int take_bit_eq_mod)

lemma address_pixel:
  "pixel_command (sin6_addr x y rgb) = (word_of_int (x mod 65536), word_of_int (y mod 65536), rgb AND NOT (mask 8))"
  "pixel_command (client_dst x y rgb) = (word_of_int (x mod 65536), word_of_int (y mod 65536), rgb AND NOT (mask 8))"
  by (simp_all add: pixel_command_def sin6_addr_def client_dst_def coord_bytes colour_bytes wide_coord Let_def)

lemma frame_of_address:
  "length hdr = 38 \<Longrightarrow> take 2 (drop 12 hdr) = [0x86, 0xdd] \<Longrightarrow> length dst = 16 \<Longrightarrow> frame_cmds (hdr @ dst) = [pixel_command dst]"
  unfolding frame_cmds_def
proof -
  assume l: "length hdr = 38" and t: "take 2 (drop 12 hdr) = [0x86, 0xdd]" and d: "length dst = 16"
  have "take 2 (drop 12 (hdr @ dst)) = take 2 (drop 12 hdr)"
    by (simp only: drop_append take_append length_drop l) simp
  moreover have "take 16 (drop 38 (hdr @ dst)) = dst" using l d by (simp only: drop_append) simp
  ultimately show "(if take 2 (drop 12 (hdr @ dst)) = [0x86, 0xdd] then [pixel_command (take 16 (drop 38 (hdr @ dst)))] else []) =
      [pixel_command dst]" by (simp only: t refl if_True)
qed

section \<open>What the socket client draws\<close>

lemma last_cmd_in: "last_cmd cs x y = Some c \<Longrightarrow> (x, y, c) \<in> set cs"
  by (induction cs x y rule: last_cmd.induct) (auto split: option.splits if_splits)

lemma last_cmd_const:
  "(\<And>x y c'. (x, y, c') \<in> set cs \<Longrightarrow> c' = c) \<Longrightarrow> last_cmd cs x y = (if (x, y, c) \<in> set cs then Some c else None)"
  using last_cmd_in [of cs x y] last_cmd_None [of cs x y] by (cases "last_cmd cs x y") (simp, metis)

lemma find_append: "find P (xs @ ys) = (case find P xs of Some x \<Rightarrow> Some x | None \<Rightarrow> find P ys)"
  by (induction xs) auto

definition in_square :: "u32 \<Rightarrow> u32 \<Rightarrow> c_int \<times> c_int \<times> c_int \<Rightarrow> bool" where
  "in_square x y = (\<lambda>(r1, r2, _). uint x \<in> {r1 mod 700..r1 mod 700 + 49} \<and> uint y \<in> {r2 mod 500..r2 mod 500 + 49})"

definition kept_colour :: "c_int \<Rightarrow> u32" where
  "kept_colour r = word_of_int r AND NOT (mask 8)"

lemma color_pixels_all:
  assumes "\<And>k. fst (ans k) \<noteq> - 1 \<and> snd (ans k) \<noteq> - 1"
  shows "color_pixels ans k ps = (None, map (\<lambda>(x, y, rgb). (PORT, sin6_addr x y rgb, [])) ps)"
proof (induction ps arbitrary: k)
  case (Cons p ps)
  then show ?case using assms [of k] by (cases p; cases "ans k") (simp add: colorPixel_def)
qed simp

lemma square_range: "(a :: c_int) \<in> {r mod n..r mod n + 49} \<Longrightarrow> 0 < n \<Longrightarrow> n \<le> 700 \<Longrightarrow> 0 \<le> a \<and> a < 65536"
proof -
  assume h: "a \<in> {r mod n..r mod n + 49}" "0 < n" "n \<le> 700"
  have "0 \<le> r mod n" "r mod n < n" using h(2) by simp_all
  then show ?thesis using h(1,3) unfolding atLeastAtMost_iff by linarith
qed

lemma uint_square:
  fixes x :: u32
  assumes "0 < n" "n \<le> 700"
  shows "(\<exists>a \<in> {r mod n..r mod n + 49}. word_of_int (a mod 65536) = x) \<longleftrightarrow> uint x \<in> {r mod n..r mod n + 49}"
proof -
  have "word_of_int (a mod 65536) = x \<longleftrightarrow> a = uint x" if "a \<in> {r mod n..r mod n + 49}" for a
    using square_range [OF that assms] by (auto simp: word_of_int_eq_iff word_uint_eq_iff uint_word_of_int)
  then show ?thesis by auto
qed

lemma square_cmds:
  "last_cmd (map (\<lambda>(x, y, rgb). pixel_command (sin6_addr x y rgb)) (foo_square r)) x y =
     (if in_square x y r then Some (kept_colour (snd (snd r))) else None)"
proof -
  obtain r1 r2 r3 where r: "r = (r1, r2, r3)" by (cases r)
  let ?cs = "map (\<lambda>(x, y, rgb). pixel_command (sin6_addr x y rgb)) (foo_square r)"
  have s: "set ?cs = (\<lambda>(a, b). (word_of_int (a mod 65536), word_of_int (b mod 65536), kept_colour r3)) `
      ({r1 mod 700..r1 mod 700 + 49} \<times> {r2 mod 500..r2 mod 500 + 49})"
    by (force simp: r foo_square_def address_pixel kept_colour_def Let_def)
  have "last_cmd ?cs x y = (if (x, y, kept_colour r3) \<in> set ?cs then Some (kept_colour r3) else None)"
    by (rule last_cmd_const, unfold s) auto
  also have "(x, y, kept_colour r3) \<in> set ?cs \<longleftrightarrow> in_square x y r"
  proof -
    have "(x, y, kept_colour r3) \<in> set ?cs \<longleftrightarrow> (\<exists>a \<in> {r1 mod 700..r1 mod 700 + 49}. word_of_int (a mod 65536) = x) \<and>
        (\<exists>b \<in> {r2 mod 500..r2 mod 500 + 49}. word_of_int (b mod 65536) = y)"
      unfolding s by force
    then show ?thesis using uint_square [of 700 r1 x] uint_square [of 500 r2 y] by (simp add: r in_square_def)
  qed
  finally show ?thesis by (simp add: r)
qed

lemma foo_square_length: "length (foo_square r) = 2500"
proof -
  have c: "sum_list (map (\<lambda>x. 50) xs) = 50 * length xs" for xs :: "c_int list" by (induction xs) auto
  show ?thesis by (cases r) (simp add: foo_square_def Let_def length_concat comp_def c)
qed

lemma foo_main_all:
  assumes "\<And>k. fst (ans k) \<noteq> - 1 \<and> snd (ans k) \<noteq> - 1"
  shows "foo_main ans k rs = (None, map (\<lambda>(x, y, rgb). (PORT, sin6_addr x y rgb, [])) (concat (map foo_square rs)))"
  by (induction rs arbitrary: k) (simp_all add: color_pixels_all [OF assms])

lemma foo_frames:
  assumes "\<And>d. length (hdr d) = 38 \<and> take 2 (drop 12 (hdr d)) = [0x86, 0xdd]"
  shows "concat (map (\<lambda>d. frame_cmds (hdr d @ fst (snd d))) (map (\<lambda>(x, y, rgb). (PORT, sin6_addr x y rgb, [])) ps)) =
     map (\<lambda>(x, y, rgb). pixel_command (sin6_addr x y rgb)) ps"
proof (induction ps)
  case (Cons p ps)
  obtain x y rgb where p: "p = (x, y, rgb)" by (cases p)
  have "frame_cmds (hdr (PORT, sin6_addr x y rgb, []) @ sin6_addr x y rgb) = [pixel_command (sin6_addr x y rgb)]"
    using assms by (intro frame_of_address) (simp_all add: sin6_addr_def)
  then show ?case using Cons by (simp add: p)
qed simp

lemma foo_last_cmd:
  "last_cmd (map (\<lambda>(x, y, rgb). pixel_command (sin6_addr x y rgb)) (concat (map foo_square rs))) x y =
     map_option (\<lambda>r. kept_colour (snd (snd r))) (find (in_square x y) (rev rs))"
  by (induction rs) (simp_all add: last_cmd_append square_cmds find_append split: option.splits)

section \<open>The pen of the DPDK client\<close>

text \<open>Row by row over 801 by 601 pixels; every full screen has a colour of its own.\<close>

lemma pen_position:
  "\<exists>a b c. k = a + 801 * b + 481401 * c \<and> a < 801 \<and> b < 601 \<and>
     (next_pixel rnd ^^ k) (pen_start rnd) = \<lparr>pen_x = 100 + int a, pen_y = 100 + int b, pen_rgb = rnd c, pen_rands = Suc c\<rparr>"
proof (induction k)
  case 0
  show ?case by (intro exI [of _ 0]) (simp add: pen_start_def)
next
  case (Suc k)
  then obtain a b c where k: "k = a + 801 * b + 481401 * c" "a < 801" "b < 601"
     "(next_pixel rnd ^^ k) (pen_start rnd) = \<lparr>pen_x = 100 + int a, pen_y = 100 + int b, pen_rgb = rnd c, pen_rands = Suc c\<rparr>" by blast
  have next_p: "(next_pixel rnd ^^ Suc k) (pen_start rnd) = next_pixel rnd \<lparr>pen_x = 100 + int a, pen_y = 100 + int b, pen_rgb = rnd c, pen_rands = Suc c\<rparr>"
    by (simp add: k(4))
  consider "a < 800" | "a = 800" "b < 600" | "a = 800" "b = 600" using k by linarith
  then have "\<exists>a' b' c'. Suc k = a' + 801 * b' + 481401 * c' \<and> a' < 801 \<and> b' < 601 \<and>
     next_pixel rnd \<lparr>pen_x = 100 + int a, pen_y = 100 + int b, pen_rgb = rnd c, pen_rands = Suc c\<rparr> =
       \<lparr>pen_x = 100 + int a', pen_y = 100 + int b', pen_rgb = rnd c', pen_rands = Suc c'\<rparr>"
  proof cases
    case 1
    then show ?thesis using k(1-3) by (intro exI [of _ "Suc a"] exI [of _ b] exI [of _ c]) (simp add: next_pixel_def)
  next
    case 2
    then show ?thesis using k(1-3) by (intro exI [of _ 0] exI [of _ "Suc b"] exI [of _ c]) (simp add: next_pixel_def)
  next
    case 3
    then show ?thesis using k(1-3) by (intro exI [of _ 0] exI [of _ 0] exI [of _ "Suc c"]) (simp add: next_pixel_def)
  qed
  then show ?case by (simp only: next_p)
qed

lemma pen_closed:
  "(next_pixel rnd ^^ k) (pen_start rnd) =
     \<lparr>pen_x = 100 + int (k mod 801), pen_y = 100 + int (k div 801 mod 601), pen_rgb = rnd (k div 481401), pen_rands = Suc (k div 481401)\<rparr>"
proof -
  obtain a b c where k: "k = a + 801 * b + 481401 * c" "a < 801" "b < 601"
     "(next_pixel rnd ^^ k) (pen_start rnd) = \<lparr>pen_x = 100 + int a, pen_y = 100 + int b, pen_rgb = rnd c, pen_rands = Suc c\<rparr>"
    using pen_position by blast
  have r: "k = a + 801 * (b + 601 * c)" using k(1) by simp
  have "k mod 801 = a" unfolding r by (simp only: mod_mult_self2) (simp add: k(2))
  moreover have "k div 801 = b + 601 * c" unfolding r using k(2) by (subst div_mult_self2) simp_all
  moreover have "k div 481401 = k div 801 div 601" by (simp add: div_mult2_eq [symmetric])
  ultimately show ?thesis using k(3,4) by simp
qed

text \<open>The command in the packet drawn at a position of the pen.\<close>

definition pen_cmd :: "pen \<Rightarrow> pixel_cmd" where
  "pen_cmd p = (word_of_int (pen_x p mod 65536), word_of_int (pen_y p mod 65536), pen_rgb p AND NOT (mask 8))"

lemma pen_packet: "pixel_command (client_dst (pen_x p) (pen_y p) (pen_rgb p)) = pen_cmd p"
  by (simp add: address_pixel pen_cmd_def)

section \<open>Writing packets\<close>

definition put_list :: "nat \<Rightarrow> 'a list \<Rightarrow> 'a list \<Rightarrow> 'a list" where
  "put_list i bs xs = take i xs @ bs @ drop (i + length bs) xs"

lemma put_list_length [simp]: "i + length bs \<le> length xs \<Longrightarrow> length (put_list i bs xs) = length xs"
  by (simp add: put_list_def)

lemma put_list_same: "i + length bs \<le> length xs \<Longrightarrow> n = length bs \<Longrightarrow> take n (drop i (put_list i bs xs)) = bs"
  by (simp add: put_list_def)

lemma put_list_nth:
  assumes "i + length bs \<le> length xs" "k < i \<or> i + length bs \<le> k"
  shows "put_list i bs xs ! k = xs ! k"
proof (cases "k < i")
  case True
  then show ?thesis using assms(1) by (simp add: put_list_def nth_append)
next
  case False
  then have k: "i + length bs \<le> k" using assms(2) by simp
  have "min (length xs) i = i" using assms(1) by simp
  then have "put_list i bs xs ! k = (bs @ drop (i + length bs) xs) ! (k - i)" using False by (simp add: put_list_def nth_append)
  also have "\<dots> = drop (i + length bs) xs ! (k - i - length bs)" using k by (simp add: nth_append [of bs] not_less [THEN iffD2] le_diff_conv2)
  also have "\<dots> = xs ! k" using k assms(1) by (subst nth_drop) simp_all
  finally show ?thesis .
qed

lemma put_list_other:
  assumes "i + length bs \<le> length xs" "j + n \<le> i \<or> i + length bs \<le> j"
  shows "take n (drop j (put_list i bs xs)) = take n (drop j xs)"
proof (rule nth_equalityI)
  show "length (take n (drop j (put_list i bs xs))) = length (take n (drop j xs))" using assms(1) by simp
  fix k assume k: "k < length (take n (drop j (put_list i bs xs)))"
  then have "j + k < i \<or> i + length bs \<le> j + k" "k < n" "j \<le> length xs" using assms by auto
  then show "take n (drop j (put_list i bs xs)) ! k = take n (drop j xs) ! k"
    using put_list_nth [OF assms(1), of "j + k"] assms(1) by simp
qed

lemma put_list_put:
  "h a = Some xs \<Longrightarrow> i + length bs \<le> length xs \<Longrightarrow> bytes_put h (a, i) bs = Some (h(a \<mapsto> put_list i bs xs))"
  by (simp add: bytes_put_spec put_list_def)

text \<open>An empty packet of the pool with room for the headers, and a written one.\<close>

definition fresh_mbuf :: "'p mbuf_pool \<Rightarrow> nat \<Rightarrow> 'p mbuf_mem \<Rightarrow> maddr \<Rightarrow> bool" where
  "fresh_mbuf P mp mm m \<longleftrightarrow> (\<exists>M. mm_mbufs mm m = Some (rte_pktmbuf_reset M) \<and> free_mbuf (mm_bufs mm) P mp m (rte_pktmbuf_reset M) \<and>
     182 \<le> unat (rte_pktmbuf_data_room_size P))"

definition written_mbuf :: "'p mbuf_pool \<Rightarrow> nat \<Rightarrow> 'p mbuf_mem \<Rightarrow> maddr \<Rightarrow> pixel_cmd \<Rightarrow> bool" where
  "written_mbuf P mp mm m c \<longleftrightarrow> (\<exists>M. mm_mbufs mm m = Some M \<and> seg_mine (mm_bufs mm) P mp m M \<and> mb_refcnt M = 1 \<and>
     unat (mb_data_off M) + 54 \<le> unat (mb_buf_len M)) \<and>
     pkt_ok mm m [m] \<and> length (pkt_bytes mm [m]) = 54 \<and> frame_cmds (pkt_bytes mm [m]) = [c]"

lemma mbuf_cong:
  assumes "mm_mbufs mm' m = mm_mbufs mm m" "mm_bufs mm' (rte_mbuf_buf_addr m P) = mm_bufs mm (rte_mbuf_buf_addr m P)"
  shows "fresh_mbuf P mp mm m \<Longrightarrow> fresh_mbuf P mp mm' m" "written_mbuf P mp mm m c \<Longrightarrow> written_mbuf P mp mm' m c"
proof -
  have o: "own_buf (mm_bufs mm') P m M = own_buf (mm_bufs mm) P m M" for M using assms(2) by (auto simp: own_buf_def)
  show "fresh_mbuf P mp mm m \<Longrightarrow> fresh_mbuf P mp mm' m" using assms(1) by (auto simp: fresh_mbuf_def free_mbuf_def o)
  show "written_mbuf P mp mm' m c" if w: "written_mbuf P mp mm m c"
  proof -
    obtain M where M: "mm_mbufs mm m = Some M" "own_buf (mm_bufs mm) P m M" using w by (auto simp: written_mbuf_def seg_mine_def)
    have a: "mb_buf_addr M = rte_mbuf_buf_addr m P" using M(2) by (simp add: own_buf_def)
    have d: "seg_data mm' m = seg_data mm m" using assms M(1) a by (simp add: seg_data_def buf_data_def)
    have k: "seg_ok mm' m = seg_ok mm m" using assms M(1) a by (simp add: seg_ok_def buf_ok_def)
    show ?thesis using w assms(1) M(1) by (auto simp: written_mbuf_def seg_mine_def o d k pkt_ok_def)
  qed
qed

lemma buf_addr_inj: "rte_mbuf_buf_addr m P = rte_mbuf_buf_addr m' P \<longleftrightarrow> m = m'"
  by (simp add: rte_mbuf_buf_addr_def)

lemma written_rx: "written_mbuf P mp mm m c \<Longrightarrow> mm_pools mm mp = Some P \<Longrightarrow> rx_mbuf mp mm m"
  by (auto simp: written_mbuf_def rx_mbuf_def)

lemma write_pixel_ok:
  assumes "fresh_mbuf P mp mm m"
  shows "\<exists>M xs. write_pixel m x y rgb mm = Some (mm\<lparr>mm_mbufs := (mm_mbufs mm)(m \<mapsto> M), mm_bufs := (mm_bufs mm)(rte_mbuf_buf_addr m P \<mapsto> xs)\<rparr>) \<and>
     map_option length (mm_bufs mm (rte_mbuf_buf_addr m P)) = Some (length xs) \<and>
     written_mbuf P mp (mm\<lparr>mm_mbufs := (mm_mbufs mm)(m \<mapsto> M), mm_bufs := (mm_bufs mm)(rte_mbuf_buf_addr m P \<mapsto> xs)\<rparr>) m
       (word_of_int (x mod 65536), word_of_int (y mod 65536), rgb AND NOT (mask 8))"
proof -
  obtain N where "mm_mbufs mm m = Some (rte_pktmbuf_reset N)" "free_mbuf (mm_bufs mm) P mp m (rte_pktmbuf_reset N)"
      "182 \<le> unat (rte_pktmbuf_data_room_size P)" using assms by (auto simp: fresh_mbuf_def)
  then obtain M where M: "mm_mbufs mm m = Some M" "free_mbuf (mm_bufs mm) P mp m M" "182 \<le> unat (mb_buf_len M)"
     "mb_data_len M = 0" "mb_pkt_len M = 0" "mb_data_off M = min RTE_PKTMBUF_HEADROOM (mb_buf_len M)" "M = rte_pktmbuf_reset N"
    by (auto simp: free_mbuf_def own_buf_def)
  have off: "mb_data_off M = 128" using M(3,6) by (simp add: RTE_PKTMBUF_HEADROOM_def min_def word_le_nat_alt)
  have pk: "pkt_ok mm m ([] @ [m])" using reset_empty_packet(1) [of mm m "rte_pktmbuf_reset N" P] M(1,2,7) by (simp add: free_mbuf_def reset_idem)
  let ?M = "M\<lparr>mb_data_len := 54, mb_pkt_len := 54\<rparr>" and ?b = "rte_mbuf_buf_addr m P"
  have b: "mb_buf_addr M = ?b" using M(2) by (simp add: free_mbuf_def own_buf_def)
  obtain xs where xs: "mm_bufs mm ?b = Some xs" "length xs = unat (mb_buf_len M)" using M(2) b by (auto simp: free_mbuf_def own_buf_def)
  have ap: "rte_pktmbuf_append m 54 mm = Some (Some (?b, 128), mm\<lparr>mm_mbufs := (mm_mbufs mm)(m \<mapsto> ?M)\<rparr>)"
    using append_fits(1) [OF pk M(1) M(1), of 54] M(3-5) off b by (simp add: end_written_def)
  let ?t = "[0x86, 0xdd] :: u8 list"
  have t: "store16 (rte_be_to_cpu_16 ETHER_TYPE_IPv6) = ?t" by (simp add: store16_def rte_be_to_cpu_16_def ETHER_TYPE_IPv6_def)
  let ?v = "store_be32 (push_bit 28 6)" and ?d = "client_dst x y rgb"
  have l: "length client_saddr = 6" "length client_daddr = 6" "length ?v = 4" "length ?d = 16"
    by (simp_all add: client_saddr_def client_daddr_def store_be32_def client_dst_def)
  let ?x1 = "put_list 140 ?t xs"
  let ?x2 = "put_list 134 client_saddr ?x1"
  let ?x3 = "put_list 128 client_daddr ?x2"
  let ?x4 = "put_list 142 ?v ?x3"
  let ?x5 = "put_list 166 ?d ?x4"
  have lx: "length ?x1 = length xs" "length ?x2 = length xs" "length ?x3 = length xs" "length ?x4 = length xs" "length ?x5 = length xs"
    using M(3) xs(2) l by simp_all
  let ?mm = "mm\<lparr>mm_mbufs := (mm_mbufs mm)(m \<mapsto> ?M), mm_bufs := (mm_bufs mm)(?b \<mapsto> ?x5)\<rparr>"
  have run: "write_pixel m x y rgb mm = Some ?mm"
    using M(3) xs l lx b off
    by (simp add: write_pixel_def ap t put_list_put rte_pktmbuf_mtod_offset_def sizeof_ether_hdr_def dst_addr_ofs_def)
  have d: "seg_data ?mm m = take 54 (drop 128 ?x5)" using b off by (simp add: seg_data_def buf_data_def)
  have len: "length (take 54 (drop 128 ?x5)) = 54" using lx(5) xs(2) M(3) by simp
  have c: "frame_cmds (take 54 (drop 128 ?x5)) = [pixel_command ?d]"
  proof -
    have "take 2 (drop 140 ?x5) = ?t" "take 16 (drop 166 ?x5) = ?d"
      using M(3) xs(2) l lx(1-4) by (simp_all add: put_list_other put_list_same)
    then show ?thesis by (simp add: frame_cmds_def drop_take l)
  qed
  have "written_mbuf P mp ?mm m (word_of_int (x mod 65536), word_of_int (y mod 65536), rgb AND NOT (mask 8))"
    using M(2,3) off b xs(2) lx(5) d len c
    by (simp add: written_mbuf_def free_mbuf_def seg_mine_def own_buf_def pkt_ok_def seg_ok_def buf_ok_def address_pixel RTE_MBUF_DIRECT_def)
  then show ?thesis using run xs(1) lx(5) by (intro exI [of _ ?M] exI [of _ ?x5]) simp
qed

lemma fill_burst_ok:
  assumes "ring_pktpool_ok flags A mp mm held" "mm_pools mm mp = Some P" "distinct ms" "set ms \<subseteq> held" "\<forall>m \<in> set ms. fresh_mbuf P mp mm m"
  shows "\<exists>mm'. fill_burst rnd ms p mm = Some ((next_pixel rnd ^^ length ms) p, mm') \<and> mm_pools mm' = mm_pools mm \<and>
     ring_pktpool_ok flags A mp mm' held \<and>
     (\<forall>i < length ms. written_mbuf P mp mm' (ms ! i) (pen_cmd ((next_pixel rnd ^^ i) p))) \<and>
     (\<forall>s. s \<notin> set ms \<longrightarrow> mm_mbufs mm' s = mm_mbufs mm s \<and>
        mm_bufs mm' (rte_mbuf_buf_addr s P) = mm_bufs mm (rte_mbuf_buf_addr s P))"
  using assms
proof (induction ms arbitrary: mm p)
  case (Cons m ms)
  obtain M xs where w: "write_pixel m (pen_x p) (pen_y p) (pen_rgb p) mm =
       Some (mm\<lparr>mm_mbufs := (mm_mbufs mm)(m \<mapsto> M), mm_bufs := (mm_bufs mm)(rte_mbuf_buf_addr m P \<mapsto> xs)\<rparr>)"
     "map_option length (mm_bufs mm (rte_mbuf_buf_addr m P)) = Some (length xs)"
     "written_mbuf P mp (mm\<lparr>mm_mbufs := (mm_mbufs mm)(m \<mapsto> M), mm_bufs := (mm_bufs mm)(rte_mbuf_buf_addr m P \<mapsto> xs)\<rparr>) m (pen_cmd p)"
    using write_pixel_ok [of P mp mm m "pen_x p" "pen_y p" "pen_rgb p"] Cons.prems(5) unfolding pen_cmd_def by auto
  let ?mm = "mm\<lparr>mm_mbufs := (mm_mbufs mm)(m \<mapsto> M), mm_bufs := (mm_bufs mm)(rte_mbuf_buf_addr m P \<mapsto> xs)\<rparr>"
  have "ring_pktpool_ok flags A mp (mm\<lparr>mm_mbufs := (mm_mbufs mm)(m \<mapsto> M)\<rparr>) held"
    using Cons.prems(1,4) by (intro pkt.pktpool_write) simp_all
  from pktpool_bufs [OF this, of "(mm_bufs mm)(rte_mbuf_buf_addr m P \<mapsto> xs)"]
  have ok: "ring_pktpool_ok flags A mp ?mm held" using w(2) by auto
  have other: "mm_mbufs ?mm s = mm_mbufs mm s" "mm_bufs ?mm (rte_mbuf_buf_addr s P) = mm_bufs mm (rte_mbuf_buf_addr s P)" if "s \<noteq> m" for s
    using that by (simp_all add: buf_addr_inj)
  have fresh: "\<forall>s \<in> set ms. fresh_mbuf P mp ?mm s"
  proof
    fix s assume s: "s \<in> set ms"
    then have "s \<noteq> m" using Cons.prems(3) by auto
    from mbuf_cong(1) [OF other [OF this]] show "fresh_mbuf P mp ?mm s" using Cons.prems(5) s by simp
  qed
  obtain mm' where mm': "fill_burst rnd ms (next_pixel rnd p) ?mm = Some ((next_pixel rnd ^^ length ms) (next_pixel rnd p), mm')"
     "mm_pools mm' = mm_pools ?mm" "ring_pktpool_ok flags A mp mm' held"
     "\<forall>i < length ms. written_mbuf P mp mm' (ms ! i) (pen_cmd ((next_pixel rnd ^^ i) (next_pixel rnd p)))"
     "\<forall>s. s \<notin> set ms \<longrightarrow> mm_mbufs mm' s = mm_mbufs ?mm s \<and> mm_bufs mm' (rte_mbuf_buf_addr s P) = mm_bufs ?mm (rte_mbuf_buf_addr s P)"
    using Cons.IH [OF ok _ _ _ fresh, of "next_pixel rnd p"] Cons.prems(2-4) by auto
  have m: "m \<notin> set ms" using Cons.prems(3) by simp
  have "written_mbuf P mp mm' m (pen_cmd p)" using mbuf_cong(2) [OF _ _ w(3)] mm'(5) m by blast
  then have "\<forall>i < length (m # ms). written_mbuf P mp mm' ((m # ms) ! i) (pen_cmd ((next_pixel rnd ^^ i) p))"
    using mm'(4) by (auto simp: less_Suc_eq_0_disj funpow_swap1)
  moreover have "\<forall>s. s \<notin> set (m # ms) \<longrightarrow> mm_mbufs mm' s = mm_mbufs mm s \<and>
        mm_bufs mm' (rte_mbuf_buf_addr s P) = mm_bufs mm (rte_mbuf_buf_addr s P)"
    using mm'(5) other by simp
  ultimately show ?case using w(1) mm'(1-3) by (intro exI [of _ mm']) (simp add: funpow_swap1)
qed auto

section \<open>Bursts\<close>

text \<open>Unsent packets that are the client's own go back to the pool.\<close>

lemma free_unsent_ok:
  assumes "ring_pktpool_ok flags A mp mm (nic \<union> set ms)" "nic \<inter> set ms = {}" "distinct ms" "\<forall>m \<in> set ms. rx_mbuf mp mm m"
  shows "\<exists>mm'. free_unsent lcore ms mm = Some mm' \<and> ring_pktpool_ok flags A mp mm' nic"
  using assms
proof (induction ms arbitrary: mm)
  case (Cons m ms)
  obtain M P where M: "mm_mbufs mm m = Some M" "mm_pools mm mp = Some P" "seg_mine (mm_bufs mm) P mp m M" "mb_refcnt M = 1"
      "pkt_ok mm m [m]" using Cons.prems(4) by (auto simp: rx_mbuf_def)
  have c: "seg_chain mm (Some m) [m]" using M(5) by (simp add: pkt_ok_def)
  have mine: "\<forall>s \<in> set [m]. s \<in> nic \<union> set (m # ms) \<and> (\<exists>M. mm_mbufs mm s = Some M \<and> seg_mine (mm_bufs mm) P mp s M)"
    using M(1,3) by simp
  have one: "{s \<in> set [m]. map_option mb_refcnt (mm_mbufs mm s) = Some 1} = {m}" using M(1,4) by auto
  obtain mm1 where mm1: "rte_pktmbuf_free lcore (Some m) mm = Some mm1" "pool_moved mp mm mm1"
      "ring_pktpool_ok flags A mp mm1 (nic \<union> set (m # ms) - {m})" "\<forall>s. s \<noteq> m \<longrightarrow> mm_mbufs mm1 s = mm_mbufs mm s"
    using pkt.pktmbuf_free_ok [OF Cons.prems(1) M(2) c _ mine, of lcore, unfolded one] by auto
  have e: "nic \<union> set (m # ms) - {m} = nic \<union> set ms" using Cons.prems(2,3) by auto
  have "\<forall>s \<in> set ms. rx_mbuf mp mm1 s"
  proof
    fix s assume s: "s \<in> set ms"
    then have "s \<noteq> m" using Cons.prems(3) by auto
    then show "rx_mbuf mp mm1 s" using rx_mbuf_other(1) [of mp mm s mm1] Cons.prems(4) s mm1(2,4) by simp
  qed
  then obtain mm' where "free_unsent lcore ms mm1 = Some mm'" "ring_pktpool_ok flags A mp mm' nic"
    using Cons.IH [of mm1] mm1(3) e Cons.prems(2,3) by auto
  then show ?case using mm1(1) by simp
qed simp

text \<open>
  What the client relies on from \<open>rte_eth_tx_burst\<close>: it takes the first packets and may give them, and others it has, back to the pool at any time;
  the rest is left to the caller as it was. A transmit burst is described together with the function \<open>own\<close> that says which mbufs the card
  has afterwards, given the array, the memory and those it had.
\<close>

type_synonym card_tx =
  "(nat rte_ring option) tx_burst \<times> (maddr list \<Rightarrow> (nat rte_ring option) mbuf_mem \<Rightarrow> maddr set \<Rightarrow> maddr set)"

definition takes :: "u32 \<Rightarrow> maddr set \<Rightarrow> nat \<Rightarrow> maddr list \<Rightarrow> (nat rte_ring option) mbuf_mem \<Rightarrow> nat \<times> (nat rte_ring option) mbuf_mem \<Rightarrow>
    maddr set \<Rightarrow> bool" where
  "takes flags A mp ms mm r nic \<longleftrightarrow> (case r of (n, mm') \<Rightarrow> n \<le> BURST_SIZE \<and> nic \<inter> set (drop n ms) = {} \<and>
     ring_pktpool_ok flags A mp mm' (nic \<union> set (drop n ms)) \<and> pool_moved mp mm mm' \<and>
     (\<forall>m \<in> set (drop n ms). mm_mbufs mm' m = mm_mbufs mm m))"

definition tx_ok :: "u32 \<Rightarrow> maddr set \<Rightarrow> nat \<Rightarrow> card_tx \<Rightarrow> bool" where
  "tx_ok flags A mp c \<longleftrightarrow> (\<forall>mm nic ms. length ms = BURST_SIZE \<longrightarrow> distinct ms \<longrightarrow> nic \<inter> set ms = {} \<longrightarrow>
     ring_pktpool_ok flags A mp mm (nic \<union> set ms) \<longrightarrow> (\<forall>m \<in> set ms. rx_mbuf mp mm m) \<longrightarrow>
     takes flags A mp ms mm (fst c ms mm) (snd c ms mm nic))"

text \<open>A card that keeps the first \<open>k\<close> packets.\<close>

definition tx_keep :: "nat \<Rightarrow> card_tx" where
  "tx_keep k = (\<lambda>ms mm. (min k BURST_SIZE, mm), \<lambda>ms mm nic. nic \<union> set (take (min k BURST_SIZE) ms))"

lemma tx_keep_ok: "tx_ok flags A mp (tx_keep k)"
  unfolding tx_ok_def
proof (intro allI impI)
  fix mm :: "(nat rte_ring option) mbuf_mem" and nic and ms :: "maddr list"
  assume h: "length ms = BURST_SIZE" "distinct ms" "nic \<inter> set ms = {}" "ring_pktpool_ok flags A mp mm (nic \<union> set ms)"
  let ?n = "min k BURST_SIZE"
  have s: "set (take ?n ms) \<union> set (drop ?n ms) = set ms" by (metis append_take_drop_id set_append)
  have "set (take ?n ms) \<inter> set (drop ?n ms) = {}" using h(2) by (simp add: set_take_disj_set_drop_if_distinct)
  moreover have "nic \<inter> set (drop ?n ms) = {}" using h(3) s by blast
  moreover have "nic \<union> set ms = (nic \<union> set (take ?n ms)) \<union> set (drop ?n ms)" using s by blast
  moreover have "\<exists>P. mm_pools mm mp = Some P" using h(4) by (auto simp: pktpool_ok_def)
  ultimately show "takes flags A mp ms mm (fst (tx_keep k) ms mm) (snd (tx_keep k) ms mm nic)"
    using h(4) by (auto simp: takes_def tx_keep_def intro: pool_moved_refl)
qed

lemma bulk_fresh:
  assumes "ring_pktpool_ok flags A mp mm nic" "mm_pools mm mp = Some P" "big_room mp mm"
    "BURST_SIZE \<le> length (data_items (mp_data (pl_mp P)))" "length m_head = BURST_SIZE"
  shows "\<exists>ms mm1 P1. rte_pktmbuf_alloc_bulk lcore mp m_head (of_nat BURST_SIZE) mm = Some (0, ms, mm1) \<and>
     length ms = BURST_SIZE \<and> distinct ms \<and> nic \<inter> set ms = {} \<and> set ms \<subseteq> A \<and> mm_pools mm1 mp = Some P1 \<and>
     ring_pktpool_ok flags A mp mm1 (nic \<union> set ms) \<and> (\<forall>m \<in> set ms. fresh_mbuf P1 mp mm1 m)"
proof -
  have n: "0 < (of_nat BURST_SIZE :: u32)" "unat (of_nat BURST_SIZE :: u32) = BURST_SIZE" by (simp_all add: BURST_SIZE_def)
  obtain rc ms mm1 where a': "rte_pktmbuf_alloc_bulk lcore mp m_head (of_nat BURST_SIZE) mm = Some (rc, ms, mm1)" "pool_moved mp mm mm1"
      "length ms = length m_head"
      "if rc = 0 then distinct (take BURST_SIZE ms) \<and> set (take BURST_SIZE ms) \<subseteq> A - nic \<and> ring_pktpool_ok flags A mp mm1 (nic \<union> set (take BURST_SIZE ms)) \<and>
         (\<forall>m \<in> set (take BURST_SIZE ms). pkt_ok mm1 m [m] \<and> pkt_bytes mm1 [m] = [] \<and>
           (\<exists>M. mm_mbufs mm1 m = Some (rte_pktmbuf_reset M) \<and> free_mbuf (mm_bufs mm1) P mp m (rte_pktmbuf_reset M))) \<and>
         (\<forall>s. s \<notin> set (take BURST_SIZE ms) \<longrightarrow> mm_mbufs mm1 s = mm_mbufs mm s)
       else rc < 0 \<and> ms = m_head \<and> length (data_items (mp_data (pl_mp P))) < BURST_SIZE \<and> mm_mbufs mm1 = mm_mbufs mm \<and>
         ring_pktpool_ok flags A mp mm1 nic"
    using pkt.alloc_bulk_ok [OF assms(1,2) n(1), of m_head lcore] assms(5) unfolding n(2) by auto
  have "take BURST_SIZE ms = ms" using a'(3) assms(5) by simp
  note a = a' [unfolded this]
  have rc: "rc = 0" using a(4) assms(4) by (cases "rc = 0") simp_all
  obtain p where P1: "mm_pools mm1 mp = Some (P\<lparr>pl_mp := p\<rparr>)" using a(2) assms(2) by (auto simp: pool_moved_def)
  have room: "182 \<le> unat (rte_pktmbuf_data_room_size P)" using assms(2,3) by (simp add: big_room_def)
  have "fresh_mbuf (P\<lparr>pl_mp := p\<rparr>) mp mm1 m" if "m \<in> set ms" for m
    using a(4) rc room that unfolding fresh_mbuf_def free_mbuf_pool by (auto simp: rte_pktmbuf_data_room_size_def)
  then show ?thesis using a rc P1 assms(5) by (intro exI [of _ ms] exI [of _ mm1] exI [of _ "P\<lparr>pl_mp := p\<rparr>"]) auto
qed

section \<open>The unfinished client runs out of packets\<close>

lemma v42_ports_ok:
  assumes "ring_pktpool_ok flags A mp mm held"
  shows "\<exists>ret mm' held'. v42_ports lcore mp n mm = Some (ret, mm') \<and> ring_pktpool_ok flags A mp mm' held' \<and> held \<subseteq> held' \<and>
     (ret \<or> card held' = card held + n)"
  using assms
proof (induction n arbitrary: mm held)
  case (Suc n)
  obtain P where P: "mm_pools mm mp = Some P" using Suc.prems by (auto simp: pktpool_ok_def)
  obtain r mm1 where r: "rte_pktmbuf_alloc lcore mp mm = Some (r, mm1)"
     "case r of None \<Rightarrow> ring_pktpool_ok flags A mp mm1 held | Some m \<Rightarrow> m \<in> A - held \<and> ring_pktpool_ok flags A mp mm1 (insert m held)"
    using pkt.pktmbuf_alloc_ok [OF Suc.prems P, of lcore] by (auto split: option.splits)
  show ?case
  proof (cases r)
    case None
    then show ?thesis using r by (intro exI [of _ True] exI [of _ mm1] exI [of _ held]) simp
  next
    case (Some m)
    then have m: "m \<in> A - held" "ring_pktpool_ok flags A mp mm1 (insert m held)" using r(2) by simp_all
    have "finite held" using Suc.prems by (auto simp: pktpool_ok_def intro: finite_subset)
    then have "card (insert m held) = Suc (card held)" using m(1) by simp
    moreover obtain ret mm' held' where "v42_ports lcore mp n mm1 = Some (ret, mm')" "ring_pktpool_ok flags A mp mm' held'" "insert m held \<subseteq> held'"
        "ret \<or> card held' = card (insert m held) + n" using Suc.IH [OF m(2)] by blast
    ultimately show ?thesis using r(1) Some by (intro exI [of _ ret] exI [of _ mm'] exI [of _ held']) auto
  qed
qed auto

lemma v42_loop_ok:
  assumes "ring_pktpool_ok flags A mp mm held" "0 < ports"
  shows "\<exists>ret mm' held'. v42_main_loop rounds lcore mp ports mm = Some (ret, mm') \<and> ring_pktpool_ok flags A mp mm' held' \<and> held \<subseteq> held' \<and>
     (ret \<or> card held + rounds \<le> card held')"
  using assms(1)
proof (induction rounds arbitrary: mm held)
  case (Suc rounds)
  obtain ret mm1 held1 where r: "v42_ports lcore mp ports mm = Some (ret, mm1)" "ring_pktpool_ok flags A mp mm1 held1" "held \<subseteq> held1"
      "ret \<or> card held1 = card held + ports" using v42_ports_ok [OF Suc.prems] by blast
  show ?case
  proof (cases ret)
    case True
    then show ?thesis using r by (intro exI [of _ True] exI [of _ mm1] exI [of _ held1]) simp
  next
    case False
    obtain ret2 mm2 held2 where "v42_main_loop rounds lcore mp ports mm1 = Some (ret2, mm2)" "ring_pktpool_ok flags A mp mm2 held2" "held1 \<subseteq> held2"
        "ret2 \<or> card held1 + rounds \<le> card held2" using Suc.IH [OF r(2)] by blast
    then show ?thesis using r False assms(2) by (intro exI [of _ ret2] exI [of _ mm2] exI [of _ held2]) auto
  qed
qed auto

section \<open>Properties\<close>

text \<open>
  The socket client. When no call fails, every round sends 2500 datagrams to port 1234, without data; and behind whatever headers the
  packets travel, a receiver that takes them in order draws, in every pixel, the colour of the last square of 50 by 50 pixels over it, without its lowest
  byte, and nothing outside the squares.
\<close>

theorem foo_client_draws:
  assumes "\<And>k. fst (ans k) \<noteq> - 1 \<and> snd (ans k) \<noteq> - 1" and "\<And>d. length (hdr d) = 38 \<and> take 2 (drop 12 (hdr d)) = [0x86, 0xdd]"
  shows "\<exists>ds. foo_main ans k rs = (None, ds) \<and> length ds = 2500 * length rs \<and> (\<forall>d \<in> set ds. fst d = PORT \<and> snd (snd d) = []) \<and>
     (\<forall>x y. last_cmd (concat (map (\<lambda>d. frame_cmds (hdr d @ fst (snd d))) ds)) x y =
        map_option (\<lambda>(_, _, r). word_of_int r AND NOT (mask 8))
          (find (\<lambda>(r1, r2, _). uint x \<in> {r1 mod 700..r1 mod 700 + 49} \<and> uint y \<in> {r2 mod 500..r2 mod 500 + 49}) (rev rs)))"
proof -
  let ?ds = "map (\<lambda>(x, y, rgb). (PORT, sin6_addr x y rgb, [])) (concat (map foo_square rs))"
  have "length ?ds = 2500 * length rs" by (induction rs) (simp_all add: foo_square_length)
  moreover have k: "(\<lambda>r. kept_colour (snd (snd r))) = (\<lambda>(_ :: c_int, _ :: c_int, r). word_of_int r AND NOT (mask 8))"
    by (auto simp: kept_colour_def)
  have "last_cmd (concat (map (\<lambda>d. frame_cmds (hdr d @ fst (snd d))) ?ds)) x y =
        map_option (\<lambda>(_, _, r). word_of_int r AND NOT (mask 8))
          (find (\<lambda>(r1, r2, _). uint x \<in> {r1 mod 700..r1 mod 700 + 49} \<and> uint y \<in> {r2 mod 500..r2 mod 500 + 49}) (rev rs))" for x y
    unfolding foo_frames [where hdr = hdr, OF assms(2)] foo_last_cmd k in_square_def by (rule refl)
  moreover have "\<forall>d \<in> set ?ds. fst d = PORT \<and> snd (snd d) = []" by auto
  ultimately show ?thesis
    using foo_main_all [where ans = ans and k = k and rs = rs, OF assms(1)] by blast
qed

lemma screen_cmds:
  "last_cmd (map (\<lambda>i. pen_cmd ((next_pixel rnd ^^ i) (pen_start rnd))) [481401 * c..<481401 * Suc c]) x y =
     (if 100 \<le> x \<and> x \<le> 900 \<and> 100 \<le> y \<and> y \<le> 700 then Some (rnd c AND NOT (mask 8)) else None)"
proof -
  let ?c = "rnd c AND NOT (mask 8)" and ?l = "map (\<lambda>i. pen_cmd ((next_pixel rnd ^^ i) (pen_start rnd))) [481401 * c..<481401 * Suc c]"
  have at: "pen_cmd ((next_pixel rnd ^^ (481401 * c + 801 * b + a)) (pen_start rnd)) = (of_nat (100 + a), of_nat (100 + b), ?c)"
    if "a < 801" "b < 601" for a b
  proof -
    let ?k = "481401 * c + 801 * b + a"
    have r: "?k = a + 801 * (b + 601 * c)" by simp
    have "?k mod 801 = a" unfolding r using that(1) by (simp only: mod_mult_self2) simp
    moreover have d: "?k div 801 = b + 601 * c" unfolding r using that(1) by (subst div_mult_self2) simp_all
    moreover have "?k div 801 mod 601 = b" unfolding d using that(2) by simp
    moreover have "?k div 481401 = c"
    proof -
      have "?k div 481401 = ?k div 801 div 601" by (simp add: div_mult2_eq [symmetric])
      then show ?thesis unfolding d using that(2) by simp
    qed
    moreover have "(100 + int a) mod 65536 = int (100 + a)" "(100 + int b) mod 65536 = int (100 + b)" using that by simp_all
    ultimately show ?thesis unfolding pen_closed pen_cmd_def by (simp only: pen.simps of_int_of_nat_eq)
  qed
  have idx: "\<exists>a b. a < 801 \<and> b < 601 \<and> i = 481401 * c + 801 * b + a" if "i \<in> set [481401 * c..<481401 * Suc c]" for i
  proof -
    have j: "i - 481401 * c < 481401" "i = 481401 * c + (i - 481401 * c)" using that by auto
    have "(i - 481401 * c) div 801 < 601" using j(1) by (simp add: div_less_iff_less_mult)
    moreover have "i = 481401 * c + 801 * ((i - 481401 * c) div 801) + (i - 481401 * c) mod 801"
      using j(2) mult_div_mod_eq [of 801 "i - 481401 * c"] by linarith
    ultimately show ?thesis by (intro exI [of _ "(i - 481401 * c) mod 801"] exI [of _ "(i - 481401 * c) div 801"]) simp
  qed
  have colour: "c' = ?c" if "(x, y, c') \<in> set ?l" for x y c' using that idx at by fastforce
  have "(x, y, ?c) \<in> set ?l \<longleftrightarrow> 100 \<le> x \<and> x \<le> 900 \<and> 100 \<le> y \<and> y \<le> 700"
  proof
    assume "(x, y, ?c) \<in> set ?l"
    then obtain i where i: "i \<in> set [481401 * c..<481401 * Suc c]" "pen_cmd ((next_pixel rnd ^^ i) (pen_start rnd)) = (x, y, ?c)" by auto
    obtain a b where "a < 801" "b < 601" "i = 481401 * c + 801 * b + a" using idx [OF i(1)] by blast
    then have ab: "a < 801" "b < 601" "x = of_nat (100 + a)" "y = of_nat (100 + b)" using at i(2) by auto
    have "unat x = 100 + a" "unat y = 100 + b" using ab by (simp_all add: unsigned_of_nat take_bit_nat_eq_self del: of_nat_add)
    then show "100 \<le> x \<and> x \<le> 900 \<and> 100 \<le> y \<and> y \<le> 700" using ab(1,2) by (simp add: word_le_nat_alt)
  next
    assume r: "100 \<le> x \<and> x \<le> 900 \<and> 100 \<le> y \<and> y \<le> 700"
    then have u: "100 \<le> unat x" "unat x \<le> 900" "100 \<le> unat y" "unat y \<le> 700" by (simp_all add: word_le_nat_alt)
    let ?i = "481401 * c + 801 * (unat y - 100) + (unat x - 100)"
    have "?i \<in> set [481401 * c..<481401 * Suc c]" using u by auto
    moreover have "pen_cmd ((next_pixel rnd ^^ ?i) (pen_start rnd)) = (x, y, ?c)"
      using at [of "unat x - 100" "unat y - 100"] u by simp
    ultimately show "(x, y, ?c) \<in> set ?l" by (metis (mono_tags, lifting) image_eqI set_map)
  qed
  then show ?thesis using last_cmd_const [of ?l ?c x y] colour by presburger
qed

text \<open>
  The picture of the DPDK client. The pen goes over the pixels from 100 to 900 and from 100 to 700 row by row and stays there; what the server
  reads from the destination addresses of the 481401 packets of one screen draws each of these pixels, in one colour, the next random
  number without its lowest byte, and no other pixel.
\<close>

theorem client_screen:
  "last_cmd (map (\<lambda>i. let p = (next_pixel rnd ^^ i) (pen_start rnd) in pixel_command (client_dst (pen_x p) (pen_y p) (pen_rgb p)))
       [481401 * c..<481401 * Suc c]) x y =
     (if 100 \<le> x \<and> x \<le> 900 \<and> 100 \<le> y \<and> y \<le> 700 then Some (rnd c AND NOT (mask 8)) else None)"
  unfolding Let_def pen_packet by (rule screen_cmds)

text \<open>
  C13: A burst of the DPDK client. From a sound pool with 32 mbufs in its driver, the client gets 32 different packets that nobody has, and
  writes into the packet number \<open>i\<close> 54 bytes which draw the pixel the pen is on after \<open>i\<close> steps. It gives the whole array to the card; the
  bytes of exactly the first \<open>n\<close> packets, as many as the card takes, go out in this order. The others are back in the pool: by the account of
  the card, nobody else has an mbuf. The pen is 32 pixels further, so the pixels of packets that were not taken are left out.
\<close>

theorem client_burst_sends:
  assumes "ring_pktpool_ok flags A mp (cl_mm c) nic" "mm_pools (cl_mm c) mp = Some P" "big_room mp (cl_mm c)"
    "BURST_SIZE \<le> length (data_items (mp_data (pl_mp P)))" "length (cl_head c) = BURST_SIZE" "tx_ok flags A mp dev"
  shows "\<exists>c' ms mm n mm'. client_burst lcore mp rnd (fst dev) c = Some c' \<and> cl_head c' = ms \<and>
     length ms = 32 \<and> distinct ms \<and> set ms \<subseteq> A - nic \<and>
     (\<forall>i < 32. length (pkt_bytes mm [ms ! i]) = 54 \<and> frame_cmds (pkt_bytes mm [ms ! i]) = [pen_cmd ((next_pixel rnd ^^ i) (cl_pen c))]) \<and>
     fst dev ms mm = (n, mm') \<and> n \<le> 32 \<and> cl_sent c' = cl_sent c @ map (\<lambda>m. pkt_bytes mm [m]) (take n ms) \<and>
     ring_pktpool_ok flags A mp (cl_mm c') (snd dev ms mm nic) \<and>
     cl_alloc_fails c' = cl_alloc_fails c \<and> cl_pen c' = (next_pixel rnd ^^ 32) (cl_pen c)"
proof -
  obtain tx own where dev: "dev = (tx, own)" by (cases dev)
  obtain ms mm1 P1 where a: "rte_pktmbuf_alloc_bulk lcore mp (cl_head c) (of_nat BURST_SIZE) (cl_mm c) = Some (0, ms, mm1)"
     "length ms = BURST_SIZE" "distinct ms" "nic \<inter> set ms = {}" "set ms \<subseteq> A" "mm_pools mm1 mp = Some P1"
     "ring_pktpool_ok flags A mp mm1 (nic \<union> set ms)" "\<forall>m \<in> set ms. fresh_mbuf P1 mp mm1 m"
    using bulk_fresh [OF assms(1-5)] by blast
  obtain mm2 where f: "fill_burst rnd ms (cl_pen c) mm1 = Some ((next_pixel rnd ^^ length ms) (cl_pen c), mm2)" "mm_pools mm2 = mm_pools mm1"
     "ring_pktpool_ok flags A mp mm2 (nic \<union> set ms)"
     "\<forall>i < length ms. written_mbuf P1 mp mm2 (ms ! i) (pen_cmd ((next_pixel rnd ^^ i) (cl_pen c)))"
    using fill_burst_ok [OF a(7,6,3) _ a(8)] by blast
  have rx: "\<forall>m \<in> set ms. rx_mbuf mp mm2 m" using f(2,4) a(6) written_rx by (metis in_set_conv_nth)
  obtain n mm3 where t: "tx ms mm2 = (n, mm3)" by fastforce
  have "takes flags A mp ms mm2 (n, mm3) (own ms mm2 nic)"
    using assms(6) a(2-4) f(3) rx t unfolding tx_ok_def dev by (metis fst_conv snd_conv)
  then have k: "n \<le> BURST_SIZE" "own ms mm2 nic \<inter> set (drop n ms) = {}" "ring_pktpool_ok flags A mp mm3 (own ms mm2 nic \<union> set (drop n ms))"
      "pool_moved mp mm2 mm3" "\<forall>m \<in> set (drop n ms). mm_mbufs mm3 m = mm_mbufs mm2 m" by (simp_all add: takes_def)
  have "\<forall>m \<in> set (drop n ms). rx_mbuf mp mm3 m"
    using rx_mbuf_other(1) [of mp mm2 _ mm3] rx k(4,5) by (meson in_set_dropD)
  then obtain mm4 where u: "free_unsent lcore (drop n ms) mm3 = Some mm4" "ring_pktpool_ok flags A mp mm4 (own ms mm2 nic)"
    using free_unsent_ok [OF k(3,2)] a(3) by auto
  let ?frames = "map (\<lambda>m. pkt_bytes mm2 [m]) (take n ms)"
  have all: "(if n < BURST_SIZE then free_unsent lcore (drop n ms) mm3 else Some mm3) = Some mm4" using u(1) k(1) a(2) by auto
  let ?c = "c\<lparr>cl_head := ms, cl_mm := mm4, cl_pen := (next_pixel rnd ^^ BURST_SIZE) (cl_pen c), cl_sent := cl_sent c @ ?frames\<rparr>"
  have run: "client_burst lcore mp rnd (fst dev) c = Some ?c"
  proof -
    have take: "take BURST_SIZE ms = ms" using a(2) by simp
    show ?thesis unfolding client_burst_def dev fst_conv
      by (simp only: a(1) Option.bind.simps prod.case Let_def take client.simps f(1) a(2) t all) (simp add: f(1) a(2) t all)
  qed
  have b: "BURST_SIZE = 32" by (simp add: BURST_SIZE_def)
  have w: "\<forall>i < 32. length (pkt_bytes mm2 [ms ! i]) = 54 \<and> frame_cmds (pkt_bytes mm2 [ms ! i]) = [pen_cmd ((next_pixel rnd ^^ i) (cl_pen c))]"
    using f(4) a(2) b by (simp add: written_mbuf_def)
  show ?thesis
    by (rule exI [of _ ?c], rule exI [of _ ms], rule exI [of _ mm2], rule exI [of _ n], rule exI [of _ mm3])
      (use run w t k(1) u(2) a(2-5) b in \<open>auto simp: dev\<close>)
qed

text \<open>
  C34: The unfinished client never frees a packet: with at least one port it returns, after at most one round more than the pool has mbufs,
  and it holds all it has taken.
\<close>

theorem v42_client_ends:
  assumes "ring_pktpool_ok flags A mp mm held" "0 < ports"
  shows "\<exists>mm' held'. v42_main_loop (Suc (card A)) lcore mp ports mm = Some (True, mm') \<and> ring_pktpool_ok flags A mp mm' held' \<and> held \<subseteq> held'"
proof -
  obtain ret mm' held' where r: "v42_main_loop (Suc (card A)) lcore mp ports mm = Some (ret, mm')" "ring_pktpool_ok flags A mp mm' held'"
      "held \<subseteq> held'" "ret \<or> card held + Suc (card A) \<le> card held'" using v42_loop_ok [OF assms] by blast
  have "card held' \<le> card A" using r(2) by (auto simp: pktpool_ok_def intro: card_mono)
  then have "ret = True" using r(4) by auto
  then show ?thesis using r(1-3) by blast
qed

text \<open>The set-up of a port succeeds exactly when every call does, and stops at the first that fails.\<close>

lemma port_init_ok:
  "fst (port_init ans nb_rxd nb_txd) = 0 \<longleftrightarrow> ans Port_valid \<noteq> 0 \<and> ans (Port_configure 1 1) = 0 \<and> ans (Port_adjust 1024 1024) = 0 \<and>
     0 \<le> ans (Port_rx_queue nb_rxd 0) \<and> 0 \<le> ans (Port_tx_queue nb_txd 0) \<and> 0 \<le> ans Port_start"
  by (auto simp: port_init_def RX_RING_SIZE_def TX_RING_SIZE_def split: prod.splits if_splits)

section \<open>A client with a pool of 63 packets\<close>

definition client_ring :: "nat rte_ring" where
  "client_ring = ring_sample\<lparr>r_size := 64, r_mask := 63, r_capacity := 63,
     r_prod := \<lparr>ht_head = 32, ht_tail = 32, ht_single = False\<rparr>, r_cons := \<lparr>ht_head = 0, ht_tail = 0, ht_single = False\<rparr>,
     r_tbl := map (\<lambda>i. 1000 * i + 1000) [0..<64]\<rparr>"

definition client_pool :: "(nat rte_ring option) mbuf_pool" where
  "client_pool = \<lparr>pl_ops = ring_ops_of_flags 0, pl_mp = pool_sample\<lparr>mp_size := 32, mp_data := Some client_ring\<rparr>,
     pl_priv = \<lparr>mbuf_data_room_size = 256, mbuf_priv_size = 0\<rparr>\<rparr>"

definition client_mem :: "(nat rte_ring option) mbuf_mem" where
  "client_mem =
     \<lparr>mm_mbufs = (\<lambda>m. if m \<in> (\<lambda>i. 1000 * i + 1000) ` {0..<32} then Some ((mbuf_at (m + sizeof_mbuf) 128 0 None 1 0)\<lparr>mb_buf_len := 256, mb_pool := 9\<rparr>) else None),
      mm_bufs = (\<lambda>a. Some (replicate 256 0)), mm_shinfos = Map.empty, mm_pools = [9 \<mapsto> client_pool], mm_freed = []\<rparr>"

definition client_sample :: "(nat rte_ring option) client" where
  "client_sample = \<lparr>cl_mm = client_mem, cl_head = replicate BURST_SIZE 0, cl_pen = pen_start (\<lambda>n. of_nat n), cl_alloc_fails = 0, cl_sent = []\<rparr>"

lemma client_ring_ok: "ring_wf client_ring" "ring_items client_ring = map (\<lambda>i. 1000 * i + 1000) [0..<32]" "ring_cap client_ring = 63"
proof -
  show "ring_wf client_ring" unfolding ring_wf_def
    by (intro conjI exI [of _ 6]) (simp_all add: client_ring_def ring_sample_def ring_len_def)
  show "ring_cap client_ring = 63" by (simp add: client_ring_def ring_cap_def)
  have l: "ring_len client_ring = 32" by (simp add: client_ring_def ring_len_def)
  have "r_tbl client_ring ! ring_slot client_ring j = 1000 * j + 1000" if "j \<in> set [0..<32]" for j
    using that by (simp add: client_ring_def ring_slot_def del: upt_rec_numeral)
  then show "ring_items client_ring = map (\<lambda>i. 1000 * i + 1000) [0..<32]"
    unfolding ring_items_def l by (intro map_cong refl)
qed

lemma client_sample_ok:
  "ring_pktpool_ok 0 ((\<lambda>i. 1000 * i + 1000) ` {0..<32}) 9 (cl_mm client_sample) {}" "mm_pools (cl_mm client_sample) 9 = Some client_pool"
  "big_room 9 (cl_mm client_sample)" "BURST_SIZE \<le> length (data_items (mp_data (pl_mp client_pool)))"
  "length (cl_head client_sample) = BURST_SIZE"
proof -
  let ?A = "(\<lambda>i. 1000 * i + 1000 :: nat) ` {0..<32}"
  have inj: "inj_on (\<lambda>i. 1000 * i + 1000 :: nat) {0..<32}" by (simp add: inj_on_def)
  have ms: "mset_set ?A = mset (map (\<lambda>i. 1000 * i + 1000) [0..<32])"
    by (simp only: image_mset_mset_set [OF inj, symmetric] mset_map mset_upt)
  have d: "mp_data (pl_mp client_pool) = Some client_ring" by (simp add: client_pool_def)
  have own: "own_buf (mm_bufs client_mem) client_pool m ((mbuf_at (m + sizeof_mbuf) 128 0 None 1 0)\<lparr>mb_buf_len := 256, mb_pool := 9\<rparr>)" for m
    by (simp add: own_buf_def client_mem_def client_pool_def mbuf_at_def RTE_MBUF_DIRECT_def rte_mbuf_buf_addr_def
        rte_pktmbuf_priv_size_def rte_pktmbuf_data_room_size_def)
  have p: "ring_pool_ok (mset_set ?A) (pl_mp client_pool) {#}"
    using client_ring_ok unfolding ms by (simp add: pool_ok_def client_pool_def pool_sample_def caches_items_def del: upt_rec_numeral)
  have free: "\<exists>M. mm_mbufs client_mem m = Some M \<and> free_mbuf (mm_bufs client_mem) client_pool 9 m M" if "m \<in> ?A" for m
    using own [of m] that by (simp add: free_mbuf_def client_mem_def mbuf_at_def del: image_iff)
  show pool: "mm_pools (cl_mm client_sample) 9 = Some client_pool" by (simp add: client_sample_def client_mem_def)
  show "ring_pktpool_ok 0 ?A 9 (cl_mm client_sample) {}"
    using p free pool by (simp add: pktpool_ok_def client_sample_def client_pool_def)
  show "big_room 9 (cl_mm client_sample)"
    using pool by (simp add: big_room_def rte_pktmbuf_data_room_size_def client_pool_def)
  show "BURST_SIZE \<le> length (data_items (mp_data (pl_mp client_pool)))"
    using client_ring_ok(2) by (simp add: d BURST_SIZE_def del: upt_rec_numeral)
  show "length (cl_head client_sample) = BURST_SIZE" by (simp add: client_sample_def)
qed

theorem foo_client_draws_witness:
  "\<exists>ds. foo_main (\<lambda>_. (3, 0)) 0 [(0, 0, 0x1020304), (710, 10, 0x5060708)] = (None, ds) \<and> length ds = 5000 \<and>
     last_cmd (concat (map (\<lambda>d. frame_cmds ((replicate 12 0 @ [0x86, 0xdd] @ replicate 24 0) @ fst (snd d))) ds)) 12 12 = Some 0x5060700"
proof -
  obtain ds where ds: "foo_main (\<lambda>_. (3, 0)) 0 [(0, 0, 0x1020304), (710, 10, 0x5060708)] = (None, ds)" "length ds = 2500 * 2"
    "\<And>x y. last_cmd (concat (map (\<lambda>d. frame_cmds ((replicate 12 0 @ [0x86, 0xdd] @ replicate 24 0) @ fst (snd d))) ds)) x y =
        map_option (\<lambda>(_, _, r). word_of_int r AND NOT (mask 8))
          (find (\<lambda>(r1, r2, _). uint x \<in> {r1 mod 700..r1 mod 700 + 49} \<and> uint y \<in> {r2 mod 500..r2 mod 500 + 49})
            (rev [(0, 0, 0x1020304), (710, 10, 0x5060708)]))"
    using foo_client_draws [where ans = "\<lambda>_. (3, 0)" and hdr = "\<lambda>_. replicate 12 0 @ [0x86, 0xdd] @ replicate 24 0" and k = 0
        and rs = "[(0, 0, 0x1020304), (710, 10, 0x5060708)]"] by auto
  have "(word_of_int 0x5060708 :: u32) AND NOT (mask 8) = 0x5060700" by (simp add: mask_eq_exp_minus_1)
  then have "last_cmd (concat (map (\<lambda>d. frame_cmds ((replicate 12 0 @ [0x86, 0xdd] @ replicate 24 0) @ fst (snd d))) ds)) 12 12 =
      Some 0x5060700" unfolding ds(3) by simp
  moreover have "length ds = 5000" using ds(2) by simp
  ultimately show ?thesis using ds(1) by blast
qed

theorem client_screen_witness:
  "last_cmd (map (\<lambda>i. let p = (next_pixel (\<lambda>n. 0x1020300 * of_nat n) ^^ i) (pen_start (\<lambda>n. 0x1020300 * of_nat n))
       in pixel_command (client_dst (pen_x p) (pen_y p) (pen_rgb p))) [481401 * 1..<481401 * Suc 1]) 900 700 = Some 0x1020300"
  unfolding client_screen by (simp add: mask_eq_exp_minus_1)

theorem client_burst_sends_witness:
  "\<exists>c'. client_burst 3 9 (\<lambda>n. of_nat n) (fst (tx_keep 20)) client_sample = Some c' \<and> length (cl_sent c') = 20 \<and>
     ring_pktpool_ok 0 ((\<lambda>i. 1000 * i + 1000) ` {0..<32}) 9 (cl_mm c') (set (take 20 (cl_head c'))) \<and>
     card (set (take 20 (cl_head c'))) = 20 \<and> frame_cmds (cl_sent c' ! 19) = [(119, 100, 0)]"
proof -
  obtain c' ms mm n mm' where r: "client_burst 3 9 (\<lambda>n. of_nat n) (fst (tx_keep 20)) client_sample = Some c'" "cl_head c' = ms"
     "length ms = 32" "distinct ms"
     "\<forall>i < 32. length (pkt_bytes mm [ms ! i]) = 54 \<and> frame_cmds (pkt_bytes mm [ms ! i]) = [pen_cmd ((next_pixel (\<lambda>n. of_nat n) ^^ i) (cl_pen client_sample))]"
     "fst (tx_keep 20) ms mm = (n, mm')" "cl_sent c' = cl_sent client_sample @ map (\<lambda>m. pkt_bytes mm [m]) (take n ms)"
     "ring_pktpool_ok 0 ((\<lambda>i. 1000 * i + 1000) ` {0..<32}) 9 (cl_mm c') (snd (tx_keep 20) ms mm {})"
    using client_burst_sends [OF client_sample_ok tx_keep_ok [of _ _ _ 20], where rnd = "\<lambda>n. of_nat n" and lcore = 3] by blast
  have n: "n = 20" using r(6) by (simp add: tx_keep_def BURST_SIZE_def)
  have s: "cl_sent c' = map (\<lambda>m. pkt_bytes mm [m]) (take 20 ms)" using r(7) by (simp add: client_sample_def n)
  have "frame_cmds (cl_sent c' ! 19) = [pen_cmd ((next_pixel (\<lambda>n. of_nat n) ^^ 19) (pen_start (\<lambda>n. of_nat n)))]"
    using r(3,5) by (simp add: s client_sample_def)
  then have "frame_cmds (cl_sent c' ! 19) = [(119, 100, 0)]" by (simp add: pen_closed pen_cmd_def)
  moreover have "card (set (take 20 ms)) = 20" using r(3,4) by (simp add: distinct_card)
  ultimately show ?thesis using r(1-3,8) s by (simp add: tx_keep_def BURST_SIZE_def)
qed

theorem v42_client_ends_witness:
  "\<exists>mm' held'. v42_main_loop (Suc (card {3000 :: nat, 4000, 5000})) 3 7 1 pktmem_sample = Some (True, mm') \<and>
     ring_pktpool_ok 0 {3000, 4000, 5000} 7 mm' held'"
  using v42_client_ends [OF pktmem_sample_ok(1) zero_less_one, of 3] by blast

end
