(* ===== verification/Ethdev.thy ===== *)
theory Ethdev
  imports Mbuf
begin

text \<open>
  The Ethernet device layer of DPDK (\<open>rte_ethdev.c\<close>), as far as the server and the clients call it: configuring a port and
  its queues, starting, stopping and closing it. A driver is a table of callbacks (\<open>struct eth_dev_ops\<close>), some of them NULL, and an
  argument of every operation. \<open>None\<close> is an execution without defined behaviour, such as a division by an alignment of 0. The
  queue pointers are of type \<open>'q\<close>, the driver's own data of type \<open>'d\<close>.
\<close>

section \<open>Data\<close>

datatype eth_dev_state = RTE_ETH_DEV_UNUSED | RTE_ETH_DEV_ATTACHED | RTE_ETH_DEV_REMOVED

definition RTE_MAX_ETHPORTS :: nat where "RTE_MAX_ETHPORTS = 32"
definition RTE_MAX_QUEUES_PER_PORT :: u16 where "RTE_MAX_QUEUES_PER_PORT = 1024"
definition ETHER_MIN_LEN :: u32 where "ETHER_MIN_LEN = 64"
definition ETHER_MAX_LEN :: u32 where "ETHER_MAX_LEN = 1518"
definition DEV_RX_OFFLOAD_JUMBO_FRAME :: u64 where "DEV_RX_OFFLOAD_JUMBO_FRAME = 0x800"
definition RTE_ETH_DEV_CLOSE_REMOVE :: u32 where "RTE_ETH_DEV_CLOSE_REMOVE = 1"
definition RTE_ETH_DEV_INTR_LSC :: u32 where "RTE_ETH_DEV_INTR_LSC = 2"
definition RTE_ETH_DEV_INTR_RMV :: u32 where "RTE_ETH_DEV_INTR_RMV = 8"
definition RTE_ETH_DEV_NOLIVE_MAC_ADDR :: u32 where "RTE_ETH_DEV_NOLIVE_MAC_ADDR = 0x20"
definition RTE_ETH_DEV_CAPA_RUNTIME_RX_QUEUE_SETUP :: u64 where "RTE_ETH_DEV_CAPA_RUNTIME_RX_QUEUE_SETUP = 1"
definition RTE_ETH_DEV_CAPA_RUNTIME_TX_QUEUE_SETUP :: u64 where "RTE_ETH_DEV_CAPA_RUNTIME_TX_QUEUE_SETUP = 2"
definition RTE_ETH_QUEUE_STATE_STOPPED :: u8 where "RTE_ETH_QUEUE_STATE_STOPPED = 0"
definition RTE_ETH_DEV_FALLBACK_RX_RINGSIZE :: u16 where "RTE_ETH_DEV_FALLBACK_RX_RINGSIZE = 512"
definition RTE_ETH_DEV_FALLBACK_TX_RINGSIZE :: u16 where "RTE_ETH_DEV_FALLBACK_TX_RINGSIZE = 512"
definition RTE_ETH_DEV_FALLBACK_RX_NBQUEUES :: u16 where "RTE_ETH_DEV_FALLBACK_RX_NBQUEUES = 1"
definition RTE_ETH_DEV_FALLBACK_TX_NBQUEUES :: u16 where "RTE_ETH_DEV_FALLBACK_TX_NBQUEUES = 1"
definition RTE_ETH_DEV_NO_OWNER :: u64 where "RTE_ETH_DEV_NO_OWNER = 0"

text \<open>Of the configuration structures, the members that this code or a program here reads or writes.\<close>

record eth_conf =
  cf_max_rx_pkt_len :: u32
  cf_split_hdr_size :: u16
  cf_rx_offloads :: u64
  cf_tx_offloads :: u64
  cf_rss_hf :: u64
  cf_lsc :: bool
  cf_rmv :: bool

definition conf_zero :: eth_conf where
  "conf_zero = \<lparr>cf_max_rx_pkt_len = 0, cf_split_hdr_size = 0, cf_rx_offloads = 0, cf_tx_offloads = 0, cf_rss_hf = 0,
     cf_lsc = False, cf_rmv = False\<rparr>"

record eth_rxconf =
  rxc_free_thresh :: u16
  rxc_drop_en :: u8
  rxc_deferred_start :: u8
  rxc_offloads :: u64

record eth_txconf =
  txc_rs_thresh :: u16
  txc_free_thresh :: u16
  txc_deferred_start :: u8
  txc_offloads :: u64

record eth_desc_lim =
  nb_max :: u16
  nb_min :: u16
  nb_align :: u16

record eth_portconf =
  pc_burst_size :: u16
  pc_ring_size :: u16
  pc_nb_queues :: u16

text \<open>\<open>di_flags_set\<close>: the pointer \<open>dev_flags\<close> points to the flags of the device; it is NULL when the driver has no \<open>dev_infos_get\<close>.\<close>

record rte_eth_dev_info =
  di_flags_set :: bool
  di_min_mtu :: u16
  di_max_mtu :: u16
  di_min_rx_bufsize :: u32
  di_max_rx_pktlen :: u32
  di_max_rx_queues :: u16
  di_max_tx_queues :: u16
  di_max_mac_addrs :: u32
  di_rx_offload_capa :: u64
  di_tx_offload_capa :: u64
  di_rx_queue_offload_capa :: u64
  di_tx_queue_offload_capa :: u64
  di_flow_type_rss_offloads :: u64
  di_default_rxconf :: eth_rxconf
  di_default_txconf :: eth_txconf
  di_rx_desc_lim :: eth_desc_lim
  di_tx_desc_lim :: eth_desc_lim
  di_nb_rx_queues :: u16
  di_nb_tx_queues :: u16
  di_default_rxportconf :: eth_portconf
  di_default_txportconf :: eth_portconf
  di_dev_capa :: u64

text \<open>A port with its shared data. \<open>ed_rx_queues\<close> is the array of queue pointers, or NULL.\<close>

record ('d, 'q) eth_dev =
  ed_state :: eth_dev_state
  ed_private :: 'd
  ed_rx_queues :: "'q option list option"
  ed_tx_queues :: "'q option list option"
  ed_nb_rx_queues :: u16
  ed_nb_tx_queues :: u16
  ed_conf :: eth_conf
  ed_min_rx_buf_size :: u32
  ed_mac_addrs :: "u8 list list"
  ed_mac_pool_sel :: "u64 list"
  ed_promiscuous :: bool
  ed_all_multicast :: bool
  ed_started :: bool
  ed_rx_queue_state :: "u8 list"
  ed_tx_queue_state :: "u8 list"
  ed_flags :: u32
  ed_owner :: u64
  ed_link_up :: bool

text \<open>
  The callbacks. Those that get the device return it changed; a queue's release gets the queue alone and changes the driver's
  data; the pool is its address.
\<close>

record ('d, 'q) eth_dev_ops =
  op_dev_infos_get :: "(('d, 'q) eth_dev \<Rightarrow> rte_eth_dev_info \<Rightarrow> rte_eth_dev_info) option"
  op_dev_configure :: "(('d, 'q) eth_dev \<Rightarrow> c_int \<times> ('d, 'q) eth_dev) option"
  op_dev_start :: "(('d, 'q) eth_dev \<Rightarrow> c_int \<times> ('d, 'q) eth_dev) option"
  op_dev_stop :: "(('d, 'q) eth_dev \<Rightarrow> ('d, 'q) eth_dev) option"
  op_dev_close :: "(('d, 'q) eth_dev \<Rightarrow> ('d, 'q) eth_dev) option"
  op_is_removed :: "(('d, 'q) eth_dev \<Rightarrow> c_int) option"
  op_rx_queue_setup :: "(('d, 'q) eth_dev \<Rightarrow> u16 \<Rightarrow> u16 \<Rightarrow> u32 \<Rightarrow> eth_rxconf \<Rightarrow> nat \<Rightarrow> (c_int \<times> ('d, 'q) eth_dev) option) option"
  op_tx_queue_setup :: "(('d, 'q) eth_dev \<Rightarrow> u16 \<Rightarrow> u16 \<Rightarrow> u32 \<Rightarrow> eth_txconf \<Rightarrow> (c_int \<times> ('d, 'q) eth_dev) option) option"
  op_rx_queue_release :: "('q option \<Rightarrow> 'd \<Rightarrow> 'd) option"
  op_tx_queue_release :: "('q option \<Rightarrow> 'd \<Rightarrow> 'd) option"
  op_promiscuous_enable :: "(('d, 'q) eth_dev \<Rightarrow> ('d, 'q) eth_dev) option"
  op_promiscuous_disable :: "(('d, 'q) eth_dev \<Rightarrow> ('d, 'q) eth_dev) option"
  op_allmulticast_enable :: "(('d, 'q) eth_dev \<Rightarrow> ('d, 'q) eth_dev) option"
  op_allmulticast_disable :: "(('d, 'q) eth_dev \<Rightarrow> ('d, 'q) eth_dev) option"
  op_link_update :: "(('d, 'q) eth_dev \<Rightarrow> c_int \<times> ('d, 'q) eth_dev) option"
  op_mac_addr_set :: "(('d, 'q) eth_dev \<Rightarrow> u8 list \<Rightarrow> c_int \<times> ('d, 'q) eth_dev) option"
  op_mac_addr_add :: "(('d, 'q) eth_dev \<Rightarrow> u8 list \<Rightarrow> u32 \<Rightarrow> u32 \<Rightarrow> c_int \<times> ('d, 'q) eth_dev) option"

section \<open>Ports\<close>

definition rte_eth_dev_is_valid_port :: "('d, 'q) eth_dev list \<Rightarrow> u16 \<Rightarrow> bool" where
  "rte_eth_dev_is_valid_port devs port_id \<longleftrightarrow>
     \<not> (unat port_id \<ge> RTE_MAX_ETHPORTS \<or> ed_state (devs ! unat port_id) = RTE_ETH_DEV_UNUSED)"

text \<open>The loop over the ports from \<open>port_id\<close> on, counted by the ports left.\<close>

function find_next_from :: "('d, 'q) eth_dev list \<Rightarrow> nat \<Rightarrow> nat" where
  "find_next_from devs port_id =
     (if port_id < RTE_MAX_ETHPORTS \<and> ed_state (devs ! port_id) = RTE_ETH_DEV_UNUSED then find_next_from devs (port_id + 1)
      else if port_id \<ge> RTE_MAX_ETHPORTS then RTE_MAX_ETHPORTS else port_id)"
  by auto
termination by (relation "measure (\<lambda>(devs, port_id). RTE_MAX_ETHPORTS - port_id)") auto

declare find_next_from.simps [simp del]

definition rte_eth_find_next :: "('d, 'q) eth_dev list \<Rightarrow> u16 \<Rightarrow> u16" where
  "rte_eth_find_next devs port_id = of_nat (find_next_from devs (unat port_id))"

function find_next_owned :: "('d, 'q) eth_dev list \<Rightarrow> u64 \<Rightarrow> nat \<Rightarrow> nat" where
  "find_next_owned devs owner_id port_id =
     (if port_id < RTE_MAX_ETHPORTS \<and> ed_owner (devs ! port_id) \<noteq> owner_id then
        find_next_owned devs owner_id (find_next_from devs (port_id + 1))
      else port_id)"
  by auto

lemma find_next_ge: "port_id \<le> RTE_MAX_ETHPORTS \<Longrightarrow> port_id \<le> find_next_from devs port_id \<and> find_next_from devs port_id \<le> RTE_MAX_ETHPORTS"
  by (induction devs port_id rule: find_next_from.induct) (subst (1 2) find_next_from.simps, fastforce)

termination find_next_owned
proof (relation "measure (\<lambda>(devs, owner_id, port_id). RTE_MAX_ETHPORTS - port_id)")
  fix devs :: "('d, 'q) eth_dev list" and owner_id :: u64 and port_id :: nat
  assume "port_id < RTE_MAX_ETHPORTS \<and> ed_owner (devs ! port_id) \<noteq> owner_id"
  then show "((devs, owner_id, find_next_from devs (port_id + 1)), devs, owner_id, port_id) \<in> measure (\<lambda>(devs, owner_id, port_id). RTE_MAX_ETHPORTS - port_id)"
    using find_next_ge [of "port_id + 1" devs] by auto
qed simp

declare find_next_owned.simps [simp del]

definition rte_eth_find_next_owned_by :: "('d, 'q) eth_dev list \<Rightarrow> u16 \<Rightarrow> u64 \<Rightarrow> u64" where
  "rte_eth_find_next_owned_by devs port_id owner_id =
     of_nat (find_next_owned devs owner_id (unat (rte_eth_find_next devs port_id)))"

text \<open>\<open>RTE_ETH_FOREACH_DEV\<close>: the loop goes on until the next port is \<open>RTE_MAX_ETHPORTS\<close>.\<close>

function count_from :: "('d, 'q) eth_dev list \<Rightarrow> nat \<Rightarrow> u16 \<Rightarrow> u16" where
  "count_from devs p n =
     (if p < RTE_MAX_ETHPORTS then
        count_from devs (find_next_owned devs RTE_ETH_DEV_NO_OWNER (find_next_from devs (p + 1))) (n + 1)
      else n)"
  by auto

lemma find_next_owned_ge:
  "port_id \<le> RTE_MAX_ETHPORTS \<Longrightarrow> port_id \<le> find_next_owned devs owner_id port_id \<and> find_next_owned devs owner_id port_id \<le> RTE_MAX_ETHPORTS"
proof (induction devs owner_id port_id rule: find_next_owned.induct)
  case (1 devs owner_id port_id)
  then show ?case
    using find_next_ge [of "port_id + 1" devs] by (subst (1 2) find_next_owned.simps) fastforce
qed

termination count_from
proof (relation "measure (\<lambda>(devs, p, n). RTE_MAX_ETHPORTS - p)")
  fix devs :: "('d, 'q) eth_dev list" and p :: nat and n :: u16
  assume "p < RTE_MAX_ETHPORTS"
  then show "((devs, find_next_owned devs RTE_ETH_DEV_NO_OWNER (find_next_from devs (p + 1)), n + 1), devs, p, n)
      \<in> measure (\<lambda>(devs, p, n). RTE_MAX_ETHPORTS - p)"
    using find_next_ge [of "p + 1" devs] find_next_owned_ge [of "find_next_from devs (p + 1)" devs RTE_ETH_DEV_NO_OWNER] by auto
qed simp

declare count_from.simps [simp del]

definition rte_eth_dev_count_avail :: "('d, 'q) eth_dev list \<Rightarrow> u16" where
  "rte_eth_dev_count_avail devs = count_from devs (find_next_owned devs RTE_ETH_DEV_NO_OWNER (find_next_from devs 0)) 0"

text \<open>The ports that the application may use, and what the searches find.\<close>

definition port_avail :: "('d, 'q) eth_dev list \<Rightarrow> nat \<Rightarrow> bool" where
  "port_avail devs p \<longleftrightarrow> ed_state (devs ! p) \<noteq> RTE_ETH_DEV_UNUSED \<and> ed_owner (devs ! p) = RTE_ETH_DEV_NO_OWNER"

lemma find_next_is:
  assumes "p \<le> RTE_MAX_ETHPORTS"
  shows "\<forall>i. p \<le> i \<and> i < find_next_from devs p \<longrightarrow> ed_state (devs ! i) = RTE_ETH_DEV_UNUSED"
    and "find_next_from devs p < RTE_MAX_ETHPORTS \<Longrightarrow> ed_state (devs ! find_next_from devs p) \<noteq> RTE_ETH_DEV_UNUSED"
proof -
  have "(\<forall>i. p \<le> i \<and> i < find_next_from devs p \<longrightarrow> ed_state (devs ! i) = RTE_ETH_DEV_UNUSED) \<and>
      (find_next_from devs p < RTE_MAX_ETHPORTS \<longrightarrow> ed_state (devs ! find_next_from devs p) \<noteq> RTE_ETH_DEV_UNUSED)"
    using assms
  proof (induction devs p rule: find_next_from.induct)
    case (1 devs p)
    show ?case
    proof (cases "p < RTE_MAX_ETHPORTS \<and> ed_state (devs ! p) = RTE_ETH_DEV_UNUSED")
      case True
      moreover have "p \<le> i \<Longrightarrow> p + 1 \<le> i \<or> i = p" for i by auto
      ultimately show ?thesis using 1 by (metis Suc_eq_plus1 Suc_leI find_next_from.simps)
    next
      case False
      then have "find_next_from devs p = p" using 1(2) by (subst find_next_from.simps) auto
      then show ?thesis using False by auto
    qed
  qed
  then show "\<forall>i. p \<le> i \<and> i < find_next_from devs p \<longrightarrow> ed_state (devs ! i) = RTE_ETH_DEV_UNUSED"
    "find_next_from devs p < RTE_MAX_ETHPORTS \<Longrightarrow> ed_state (devs ! find_next_from devs p) \<noteq> RTE_ETH_DEV_UNUSED" by auto
qed
lemma find_next_owned_is:
  assumes "p \<le> RTE_MAX_ETHPORTS" "p < RTE_MAX_ETHPORTS \<Longrightarrow> ed_state (devs ! p) \<noteq> RTE_ETH_DEV_UNUSED"
  shows "(\<forall>i. p \<le> i \<and> i < find_next_owned devs RTE_ETH_DEV_NO_OWNER p \<longrightarrow> \<not> port_avail devs i) \<and>
     (find_next_owned devs RTE_ETH_DEV_NO_OWNER p < RTE_MAX_ETHPORTS \<longrightarrow> port_avail devs (find_next_owned devs RTE_ETH_DEV_NO_OWNER p))"
  using assms
proof (induction devs RTE_ETH_DEV_NO_OWNER p rule: find_next_owned.induct)
  case (1 devs p)
  show ?case
  proof (cases "p < RTE_MAX_ETHPORTS \<and> ed_owner (devs ! p) \<noteq> RTE_ETH_DEV_NO_OWNER")
    case True
    let ?q = "find_next_from devs (p + 1)"
    have q: "p + 1 \<le> ?q" "?q \<le> RTE_MAX_ETHPORTS" using find_next_ge [of "p + 1" devs] True by auto
    have skip: "\<not> port_avail devs i" if "p \<le> i" "i < ?q" for i
      using find_next_is(1) [of "p + 1" devs] True that by (cases "i = p") (auto simp: port_avail_def)
    have step: "find_next_owned devs RTE_ETH_DEV_NO_OWNER p = find_next_owned devs RTE_ETH_DEV_NO_OWNER ?q"
      using True by (subst find_next_owned.simps) auto
    have p1: "p + 1 \<le> RTE_MAX_ETHPORTS" using True by simp
    note IH = 1(1) [OF True q(2) find_next_is(2) [OF p1, of devs]]
    have "\<not> port_avail devs i" if i: "p \<le> i" "i < find_next_owned devs RTE_ETH_DEV_NO_OWNER ?q" for i
    proof (cases "i < ?q")
      case True
      then show ?thesis using skip i by simp
    next
      case False
      then show ?thesis using IH i by simp
    qed
    then show ?thesis unfolding step using IH by blast
  next
    case False
    then have "find_next_owned devs RTE_ETH_DEV_NO_OWNER p = p" by (subst find_next_owned.simps) auto
    then show ?thesis using False 1(3) by (auto simp: port_avail_def)
  qed
qed

lemma next_avail_is:
  fixes devs :: "('d, 'q) eth_dev list"
  assumes "p \<le> RTE_MAX_ETHPORTS"
  defines "q \<equiv> find_next_owned devs RTE_ETH_DEV_NO_OWNER (find_next_from devs p)"
  shows "p \<le> q" "q \<le> RTE_MAX_ETHPORTS" "\<And>i. p \<le> i \<Longrightarrow> i < q \<Longrightarrow> \<not> port_avail devs i" "q < RTE_MAX_ETHPORTS \<Longrightarrow> port_avail devs q"
proof -
  let ?r = "find_next_from devs p"
  have r: "p \<le> ?r" "?r \<le> RTE_MAX_ETHPORTS" using find_next_ge [OF assms(1)] by auto
  have q: "?r \<le> q" "q \<le> RTE_MAX_ETHPORTS" unfolding q_def using find_next_owned_ge [OF r(2)] by auto
  have o: "\<And>i. ?r \<le> i \<Longrightarrow> i < q \<Longrightarrow> \<not> port_avail devs i" "q < RTE_MAX_ETHPORTS \<Longrightarrow> port_avail devs q"
    unfolding q_def using find_next_owned_is [OF r(2)] find_next_is(2) [OF assms(1)] by auto
  show "p \<le> q" "q \<le> RTE_MAX_ETHPORTS" using r q by auto
  show "\<And>i. p \<le> i \<Longrightarrow> i < q \<Longrightarrow> \<not> port_avail devs i"
    using o(1) find_next_is(1) [OF assms(1)] by (metis not_le port_avail_def)
  show "q < RTE_MAX_ETHPORTS \<Longrightarrow> port_avail devs q" by (rule o(2))
qed

lemma count_from_is:
  assumes "p \<le> RTE_MAX_ETHPORTS" "p < RTE_MAX_ETHPORTS \<Longrightarrow> port_avail devs p"
  shows "count_from devs p n = n + of_nat (card {i. p \<le> i \<and> i < RTE_MAX_ETHPORTS \<and> port_avail devs i})"
  using assms
proof (induction devs p n rule: count_from.induct)
  case (1 devs p n)
  show ?case
  proof (cases "p < RTE_MAX_ETHPORTS")
    case True
    let ?q = "find_next_owned devs RTE_ETH_DEV_NO_OWNER (find_next_from devs (p + 1))"
    have p1: "p + 1 \<le> RTE_MAX_ETHPORTS" using True by simp
    note q = next_avail_is [where devs = devs, OF p1]
    have set: "{i. p \<le> i \<and> i < RTE_MAX_ETHPORTS \<and> port_avail devs i} = insert p {i. ?q \<le> i \<and> i < RTE_MAX_ETHPORTS \<and> port_avail devs i}"
    proof (intro set_eqI iffI)
      fix i assume "i \<in> {i. p \<le> i \<and> i < RTE_MAX_ETHPORTS \<and> port_avail devs i}"
      then show "i \<in> insert p {i. ?q \<le> i \<and> i < RTE_MAX_ETHPORTS \<and> port_avail devs i}" using q(3) [of i] by fastforce
    next
      fix i assume "i \<in> insert p {i. ?q \<le> i \<and> i < RTE_MAX_ETHPORTS \<and> port_avail devs i}"
      then show "i \<in> {i. p \<le> i \<and> i < RTE_MAX_ETHPORTS \<and> port_avail devs i}" using 1(3) True q(1) by auto
    qed
    have card: "card {i. p \<le> i \<and> i < RTE_MAX_ETHPORTS \<and> port_avail devs i} = Suc (card {i. ?q \<le> i \<and> i < RTE_MAX_ETHPORTS \<and> port_avail devs i})"
      unfolding set using q(1) by (subst card_insert_disjoint) auto
    have "count_from devs p n = count_from devs ?q (n + 1)" using True by (subst count_from.simps) simp
    then show ?thesis using 1(1) [OF True q(2) q(4)] card by simp
  next
    case False
    then have none: "{i. p \<le> i \<and> i < RTE_MAX_ETHPORTS \<and> port_avail devs i} = {}" by auto
    show ?thesis unfolding none using False by (subst count_from.simps) simp
  qed
qed

lemma count_avail_is:
  "unat (rte_eth_dev_count_avail devs) = card {p. p < RTE_MAX_ETHPORTS \<and> port_avail devs p}"
proof -
  let ?q = "find_next_owned devs RTE_ETH_DEV_NO_OWNER (find_next_from devs 0)"
  note q = next_avail_is [where devs = devs and p = 0, OF le0]
  have set: "{i. ?q \<le> i \<and> i < RTE_MAX_ETHPORTS \<and> port_avail devs i} = {p. p < RTE_MAX_ETHPORTS \<and> port_avail devs p}"
    using q(3) by (meson le0 not_le)
  have "card {p. p < RTE_MAX_ETHPORTS \<and> port_avail devs p} \<le> card {..<RTE_MAX_ETHPORTS}" by (rule card_mono) auto
  then have le: "card {p. p < RTE_MAX_ETHPORTS \<and> port_avail devs p} \<le> 32" by (simp add: RTE_MAX_ETHPORTS_def)
  have "rte_eth_dev_count_avail devs = 0 + of_nat (card {i. ?q \<le> i \<and> i < RTE_MAX_ETHPORTS \<and> port_avail devs i})"
    unfolding rte_eth_dev_count_avail_def by (rule count_from_is [OF q(2)]) (rule q(4))
  then show ?thesis using le unfolding set by (simp add: unsigned_of_nat take_bit_nat_eq_self)
qed

section \<open>Operations on one device\<close>

text \<open>The port's number is looked up first; \<open>err\<close> is the answer when it has no device.\<close>

definition on_port :: "'r \<Rightarrow> u16 \<Rightarrow> (('d, 'q) eth_dev \<Rightarrow> ('r \<times> ('d, 'q) eth_dev) option) \<Rightarrow> ('d, 'q) eth_dev list \<Rightarrow> ('r \<times> ('d, 'q) eth_dev list) option" where
  "on_port err port_id f devs =
     (if \<not> rte_eth_dev_is_valid_port devs port_id then Some (err, devs)
      else do { (r, dev) \<leftarrow> f (devs ! unat port_id); Some (r, devs[unat port_id := dev]) })"

definition rte_eth_dev_is_removed :: "('d, 'q) eth_dev_ops \<Rightarrow> ('d, 'q) eth_dev \<Rightarrow> c_int \<times> ('d, 'q) eth_dev" where
  "rte_eth_dev_is_removed ops dev =
     (if ed_state dev = RTE_ETH_DEV_UNUSED then (0, dev)
      else if ed_state dev = RTE_ETH_DEV_REMOVED then (1, dev)
      else case op_is_removed ops of None \<Rightarrow> (0, dev)
      | Some f \<Rightarrow> (f dev, if f dev \<noteq> 0 then dev\<lparr>ed_state := RTE_ETH_DEV_REMOVED\<rparr> else dev))"

definition eth_err :: "('d, 'q) eth_dev_ops \<Rightarrow> c_int \<times> ('d, 'q) eth_dev \<Rightarrow> c_int \<times> ('d, 'q) eth_dev" where
  "eth_err ops = (\<lambda>(ret, dev).
     if ret = 0 then (0, dev)
     else let (removed, dev) = rte_eth_dev_is_removed ops dev in (if removed \<noteq> 0 then - EIO else ret, dev))"

definition desc_lim_default :: eth_desc_lim where
  "desc_lim_default = \<lparr>nb_max = 65535, nb_min = 0, nb_align = 1\<rparr>"

definition info_zero :: rte_eth_dev_info where
  "info_zero = \<lparr>di_flags_set = False, di_min_mtu = 0, di_max_mtu = 0, di_min_rx_bufsize = 0, di_max_rx_pktlen = 0, di_max_rx_queues = 0,
     di_max_tx_queues = 0, di_max_mac_addrs = 0, di_rx_offload_capa = 0, di_tx_offload_capa = 0, di_rx_queue_offload_capa = 0,
     di_tx_queue_offload_capa = 0, di_flow_type_rss_offloads = 0,
     di_default_rxconf = \<lparr>rxc_free_thresh = 0, rxc_drop_en = 0, rxc_deferred_start = 0, rxc_offloads = 0\<rparr>,
     di_default_txconf = \<lparr>txc_rs_thresh = 0, txc_free_thresh = 0, txc_deferred_start = 0, txc_offloads = 0\<rparr>,
     di_rx_desc_lim = \<lparr>nb_max = 0, nb_min = 0, nb_align = 0\<rparr>, di_tx_desc_lim = \<lparr>nb_max = 0, nb_min = 0, nb_align = 0\<rparr>,
     di_nb_rx_queues = 0, di_nb_tx_queues = 0, di_default_rxportconf = \<lparr>pc_burst_size = 0, pc_ring_size = 0, pc_nb_queues = 0\<rparr>,
     di_default_txportconf = \<lparr>pc_burst_size = 0, pc_ring_size = 0, pc_nb_queues = 0\<rparr>, di_dev_capa = 0\<rparr>"

text \<open>The device of \<open>rte_eth_dev_info_get\<close> is a valid one.\<close>

definition rte_eth_dev_info_get :: "('d, 'q) eth_dev_ops \<Rightarrow> ('d, 'q) eth_dev \<Rightarrow> rte_eth_dev_info" where
  "rte_eth_dev_info_get ops dev =
     (let info = info_zero\<lparr>di_rx_desc_lim := desc_lim_default, di_tx_desc_lim := desc_lim_default,
                           di_min_mtu := 68, di_max_mtu := 65535\<rparr>
      in case op_dev_infos_get ops of None \<Rightarrow> info
         | Some f \<Rightarrow> (f dev info)\<lparr>di_nb_rx_queues := ed_nb_rx_queues dev, di_nb_tx_queues := ed_nb_tx_queues dev, di_flags_set := True\<rparr>)"
section \<open>Queues and configuration\<close>

text \<open>
  The body that \<open>rte_eth_dev_rx_queue_config\<close> and \<open>rte_eth_dev_tx_queue_config\<close> share, on the array, its number of queues and the driver's
  data: the first configuration, a new number of queues, and none any more. \<open>alloc\<close>: the allocation succeeds.
\<close>

definition queue_array_config ::
    "('q option \<Rightarrow> 'd \<Rightarrow> 'd) option \<Rightarrow> bool \<Rightarrow> u16 \<Rightarrow> 'q option list option \<times> u16 \<times> 'd \<Rightarrow> (c_int \<times> 'q option list option \<times> u16 \<times> 'd) option" where
  "queue_array_config release alloc nb_queues = (\<lambda>(queues, old_nb_queues, d).
     case queues of
       None \<Rightarrow>
         if nb_queues \<noteq> 0 then
           (if alloc then Some (0, Some (replicate (unat nb_queues) None), nb_queues, d) else Some (- ENOMEM, None, 0, d))
         else Some (0, None, nb_queues, d)
     | Some q \<Rightarrow>
         (case release of None \<Rightarrow> Some (- ENOTSUP, Some q, old_nb_queues, d)
          | Some rel \<Rightarrow> do {
              guard (unat old_nb_queues \<le> length q);
              let d = fold rel (drop (unat nb_queues) (take (unat old_nb_queues) q)) d;
              if nb_queues \<noteq> 0 then
                (if alloc then Some (0, Some (take (unat nb_queues) (take (unat old_nb_queues) q @
                                       replicate (unat (nb_queues - old_nb_queues)) None)), nb_queues, d)
                 else Some (- ENOMEM, Some q, old_nb_queues, d))
              else Some (0, None, nb_queues, d) }))"

definition rte_eth_dev_rx_queue_config ::
    "('d, 'q) eth_dev_ops \<Rightarrow> bool \<Rightarrow> u16 \<Rightarrow> ('d, 'q) eth_dev \<Rightarrow> (c_int \<times> ('d, 'q) eth_dev) option" where
  "rte_eth_dev_rx_queue_config ops alloc nb_queues dev = do {
     (r, q, n, d) \<leftarrow> queue_array_config (op_rx_queue_release ops) alloc nb_queues (ed_rx_queues dev, ed_nb_rx_queues dev, ed_private dev);
     Some (r, dev\<lparr>ed_rx_queues := q, ed_nb_rx_queues := n, ed_private := d\<rparr>) }"

definition rte_eth_dev_tx_queue_config ::
    "('d, 'q) eth_dev_ops \<Rightarrow> bool \<Rightarrow> u16 \<Rightarrow> ('d, 'q) eth_dev \<Rightarrow> (c_int \<times> ('d, 'q) eth_dev) option" where
  "rte_eth_dev_tx_queue_config ops alloc nb_queues dev = do {
     (r, q, n, d) \<leftarrow> queue_array_config (op_tx_queue_release ops) alloc nb_queues (ed_tx_queues dev, ed_nb_tx_queues dev, ed_private dev);
     Some (r, dev\<lparr>ed_tx_queues := q, ed_nb_tx_queues := n, ed_private := d\<rparr>) }"

text \<open>Numbers of queues of 0 and 0 ask for what the driver prefers.\<close>

definition requested_queues :: "rte_eth_dev_info \<Rightarrow> u16 \<Rightarrow> u16 \<Rightarrow> u16 \<times> u16" where
  "requested_queues info nb_rx_q nb_tx_q =
     (if nb_rx_q = 0 \<and> nb_tx_q = 0 then
        (if pc_nb_queues (di_default_rxportconf info) = 0 then RTE_ETH_DEV_FALLBACK_RX_NBQUEUES else pc_nb_queues (di_default_rxportconf info),
         if pc_nb_queues (di_default_txportconf info) = 0 then RTE_ETH_DEV_FALLBACK_TX_NBQUEUES else pc_nb_queues (di_default_txportconf info))
      else (nb_rx_q, nb_tx_q))"

text \<open>The checks of the numbers of queues, the interrupts, the packet length, the offloads and the hash functions.\<close>

definition conf_refused :: "rte_eth_dev_info \<Rightarrow> u32 \<Rightarrow> u16 \<Rightarrow> u16 \<Rightarrow> eth_conf \<Rightarrow> bool" where
  "conf_refused info flags nb_rx_q nb_tx_q conf \<longleftrightarrow>
     nb_rx_q > RTE_MAX_QUEUES_PER_PORT \<or> nb_tx_q > RTE_MAX_QUEUES_PER_PORT \<or>
     nb_rx_q > di_max_rx_queues info \<or> nb_tx_q > di_max_tx_queues info \<or>
     (cf_lsc conf \<and> flags AND RTE_ETH_DEV_INTR_LSC = 0) \<or>
     (cf_rmv conf \<and> flags AND RTE_ETH_DEV_INTR_RMV = 0) \<or>
     (cf_rx_offloads conf AND DEV_RX_OFFLOAD_JUMBO_FRAME \<noteq> 0 \<and>
        (cf_max_rx_pkt_len conf > di_max_rx_pktlen info \<or> cf_max_rx_pkt_len conf < ETHER_MIN_LEN)) \<or>
     cf_rx_offloads conf AND di_rx_offload_capa info \<noteq> cf_rx_offloads conf \<or>
     cf_tx_offloads conf AND di_tx_offload_capa info \<noteq> cf_tx_offloads conf \<or>
     di_flow_type_rss_offloads info OR cf_rss_hf conf \<noteq> di_flow_type_rss_offloads info"

text \<open>Without jumbo frames a length that is no Ethernet frame's becomes the largest one.\<close>

definition conf_clamped :: "eth_conf \<Rightarrow> eth_conf" where
  "conf_clamped conf =
     (if cf_rx_offloads conf AND DEV_RX_OFFLOAD_JUMBO_FRAME = 0 \<and> (cf_max_rx_pkt_len conf < ETHER_MIN_LEN \<or> cf_max_rx_pkt_len conf > ETHER_MAX_LEN)
      then conf\<lparr>cf_max_rx_pkt_len := ETHER_MAX_LEN\<rparr> else conf)"

definition queues_config ::
    "('d, 'q) eth_dev_ops \<Rightarrow> bool \<times> bool \<Rightarrow> u16 \<Rightarrow> u16 \<Rightarrow> ('d, 'q) eth_dev \<Rightarrow> (c_int \<times> ('d, 'q) eth_dev) option" where
  "queues_config ops alloc nb_rx_q nb_tx_q dev = do {
     (diag, dev) \<leftarrow> rte_eth_dev_rx_queue_config ops (fst alloc) nb_rx_q dev;
     if diag \<noteq> 0 then Some (diag, dev) else do {
       (diag, dev) \<leftarrow> rte_eth_dev_tx_queue_config ops (snd alloc) nb_tx_q dev;
       if diag \<noteq> 0 then do { (r, dev) \<leftarrow> rte_eth_dev_rx_queue_config ops True 0 dev; Some (diag, dev) }
       else Some (0, dev) } }"

text \<open>
  \<open>alloc\<close> says whether the allocation for the receive and the one for the transmit queues succeed. The profiling hook answers 0: it is not
  built (\<open>CONFIG_RTE_ETHDEV_PROFILE_WITH_VTUNE=n\<close>).
\<close>

definition configure_dev ::
    "('d, 'q) eth_dev_ops \<Rightarrow> bool \<times> bool \<Rightarrow> u16 \<Rightarrow> u16 \<Rightarrow> eth_conf \<Rightarrow> ('d, 'q) eth_dev \<Rightarrow> (c_int \<times> ('d, 'q) eth_dev) option" where
  "configure_dev ops alloc nb_rx_q nb_tx_q dev_conf dev =
     (case (op_dev_infos_get ops, op_dev_configure ops) of
        (Some _, Some drv_configure) \<Rightarrow>
          if ed_started dev then Some (- EBUSY, dev)
          else
            (let orig_conf = ed_conf dev; dev = dev\<lparr>ed_conf := dev_conf\<rparr>; info = rte_eth_dev_info_get ops dev;
                 (nb_rx_q, nb_tx_q) = requested_queues info nb_rx_q nb_tx_q;
                 rollback = (\<lambda>ret dev. Some (ret, dev\<lparr>ed_conf := orig_conf\<rparr>))
             in if conf_refused info (ed_flags dev) nb_rx_q nb_tx_q dev_conf then rollback (- EINVAL) dev
                else do {
                  (diag, dev) \<leftarrow> queues_config ops alloc nb_rx_q nb_tx_q (dev\<lparr>ed_conf := conf_clamped dev_conf\<rparr>);
                  if diag \<noteq> 0 then rollback diag dev
                  else (case drv_configure dev of (diag, dev) \<Rightarrow>
                    if diag \<noteq> 0 then do {
                      (r, dev) \<leftarrow> rte_eth_dev_rx_queue_config ops True 0 dev;
                      (r, dev) \<leftarrow> rte_eth_dev_tx_queue_config ops True 0 dev;
                      let (ret, dev) = eth_err ops (diag, dev);
                      rollback ret dev }
                    else Some (0, dev)) })
      | _ \<Rightarrow> Some (- ENOTSUP, dev))"

definition rte_eth_dev_configure ::
    "(u16 \<Rightarrow> ('d, 'q) eth_dev_ops) \<Rightarrow> bool \<times> bool \<Rightarrow> u16 \<Rightarrow> u16 \<Rightarrow> u16 \<Rightarrow> eth_conf \<Rightarrow> ('d, 'q) eth_dev list \<Rightarrow> (c_int \<times> ('d, 'q) eth_dev list) option" where
  "rte_eth_dev_configure ops alloc port_id nb_rx_q nb_tx_q dev_conf =
     on_port (- EINVAL) port_id (configure_dev (ops port_id) alloc nb_rx_q nb_tx_q dev_conf)"

text \<open>\<open>None\<close>: the remainder by an alignment of 0.\<close>

definition desc_refused :: "u16 \<Rightarrow> eth_desc_lim \<Rightarrow> bool option" where
  "desc_refused nb_desc lim =
     (if nb_desc > nb_max lim \<or> nb_desc < nb_min lim then Some True
      else do { guard (nb_align lim \<noteq> 0); Some (nb_desc mod nb_align lim \<noteq> 0) })"

definition requested_desc :: "u16 \<Rightarrow> eth_portconf \<Rightarrow> u16 \<Rightarrow> u16" where
  "requested_desc nb_desc conf fallback =
     (if nb_desc = 0 then if pc_ring_size conf = 0 then fallback else pc_ring_size conf else nb_desc)"

text \<open>A setup while the device runs needs the capability and a stopped queue.\<close>

definition queue_busy :: "bool \<Rightarrow> u64 \<Rightarrow> u8 list \<Rightarrow> u16 \<Rightarrow> bool option" where
  "queue_busy started capa states queue_id =
     (if started \<and> capa = 0 then Some True
      else if started then do { guard (unat queue_id < length states); Some (states ! unat queue_id \<noteq> RTE_ETH_QUEUE_STATE_STOPPED) }
      else Some False)"

text \<open>The queue that is already set up is released and its entry cleared; \<open>None\<close> inside: \<open>-ENOTSUP\<close>.\<close>

definition queue_drop ::
    "('q option \<Rightarrow> 'd \<Rightarrow> 'd) option \<Rightarrow> u16 \<Rightarrow> 'q option list option \<times> 'd \<Rightarrow> ('q option list option \<times> 'd) option option" where
  "queue_drop release queue_id = (\<lambda>(queues, d). do {
     q \<leftarrow> queues;
     guard (unat queue_id < length q);
     case q ! unat queue_id of None \<Rightarrow> Some (Some (queues, d))
     | Some p \<Rightarrow> (case release of None \<Rightarrow> Some None
         | Some rel \<Rightarrow> Some (Some (Some (q[unat queue_id := None]), rel (Some p) d))) })"
text \<open>What the receive queue's setup reads of a packet pool: the size of its private data, and the room for data in that.\<close>

record rx_pool =
  rp_addr :: nat
  rp_private_data_size :: u32
  rp_data_room :: u16

definition sizeof_pktmbuf_pool_private :: u32 where "sizeof_pktmbuf_pool_private = 4"

text \<open>The pool's room for data without the headroom, in 32 bits, must hold the smallest receive buffer.\<close>

definition pool_refused :: "u16 \<Rightarrow> rte_eth_dev_info \<Rightarrow> bool" where
  "pool_refused data_room info \<longleftrightarrow> (ucast data_room :: u32) - ucast RTE_PKTMBUF_HEADROOM < di_min_rx_bufsize info"

definition rx_queue_setup_dev ::
    "('d, 'q) eth_dev_ops \<Rightarrow> u16 \<Rightarrow> u16 \<Rightarrow> u32 \<Rightarrow> eth_rxconf option \<Rightarrow> rx_pool \<Rightarrow> ('d, 'q) eth_dev \<Rightarrow> (c_int \<times> ('d, 'q) eth_dev) option" where
  "rx_queue_setup_dev ops rx_queue_id nb_rx_desc socket_id rx_conf mp dev =
     (if rx_queue_id \<ge> ed_nb_rx_queues dev then Some (- EINVAL, dev)
      else case (op_dev_infos_get ops, op_rx_queue_setup ops) of
        (Some _, Some drv_setup) \<Rightarrow>
          (let info = rte_eth_dev_info_get ops dev; mbp_buf_size = ucast (rp_data_room mp) :: u32;
               nb_rx_desc = requested_desc nb_rx_desc (di_default_rxportconf info) RTE_ETH_DEV_FALLBACK_RX_RINGSIZE
           in if rp_private_data_size mp < sizeof_pktmbuf_pool_private then Some (- ENOSPC, dev)
              else if pool_refused (rp_data_room mp) info then Some (- EINVAL, dev)
              else do {
                bad \<leftarrow> desc_refused nb_rx_desc (di_rx_desc_lim info);
                if bad then Some (- EINVAL, dev) else do {
                  busy \<leftarrow> queue_busy (ed_started dev) (di_dev_capa info AND RTE_ETH_DEV_CAPA_RUNTIME_RX_QUEUE_SETUP) (ed_rx_queue_state dev) rx_queue_id;
                  if busy then Some (- EBUSY, dev) else do {
                    dropped \<leftarrow> queue_drop (op_rx_queue_release ops) rx_queue_id (ed_rx_queues dev, ed_private dev);
                    case dropped of None \<Rightarrow> Some (- ENOTSUP, dev)
                    | Some (q, d) \<Rightarrow>
                        (let dev = dev\<lparr>ed_rx_queues := q, ed_private := d\<rparr>;
                             rx_conf = (case rx_conf of None \<Rightarrow> di_default_rxconf info | Some c \<Rightarrow> c);
                             local_conf = rx_conf\<lparr>rxc_offloads := rxc_offloads rx_conf AND NOT (cf_rx_offloads (ed_conf dev))\<rparr>
                         in if rxc_offloads local_conf AND di_rx_queue_offload_capa info \<noteq> rxc_offloads local_conf then Some (- EINVAL, dev)
                            else do {
                              (ret, dev) \<leftarrow> drv_setup dev rx_queue_id nb_rx_desc socket_id local_conf (rp_addr mp);
                              let dev = (if ret = 0 \<and> (ed_min_rx_buf_size dev = 0 \<or> ed_min_rx_buf_size dev > mbp_buf_size)
                                         then dev\<lparr>ed_min_rx_buf_size := mbp_buf_size\<rparr> else dev);
                              Some (eth_err ops (ret, dev)) }) } } })
      | _ \<Rightarrow> Some (- ENOTSUP, dev))"

definition rte_eth_rx_queue_setup ::
    "(u16 \<Rightarrow> ('d, 'q) eth_dev_ops) \<Rightarrow> u16 \<Rightarrow> u16 \<Rightarrow> u16 \<Rightarrow> u32 \<Rightarrow> eth_rxconf option \<Rightarrow> rx_pool \<Rightarrow> ('d, 'q) eth_dev list \<Rightarrow> (c_int \<times> ('d, 'q) eth_dev list) option" where
  "rte_eth_rx_queue_setup ops port_id rx_queue_id nb_rx_desc socket_id rx_conf mp =
     on_port (- EINVAL) port_id (rx_queue_setup_dev (ops port_id) rx_queue_id nb_rx_desc socket_id rx_conf mp)"

definition tx_queue_setup_dev ::
    "('d, 'q) eth_dev_ops \<Rightarrow> u16 \<Rightarrow> u16 \<Rightarrow> u32 \<Rightarrow> eth_txconf option \<Rightarrow> ('d, 'q) eth_dev \<Rightarrow> (c_int \<times> ('d, 'q) eth_dev) option" where
  "tx_queue_setup_dev ops tx_queue_id nb_tx_desc socket_id tx_conf dev =
     (if tx_queue_id \<ge> ed_nb_tx_queues dev then Some (- EINVAL, dev)
      else case (op_dev_infos_get ops, op_tx_queue_setup ops) of
        (Some _, Some drv_setup) \<Rightarrow>
          (let info = rte_eth_dev_info_get ops dev;
               nb_tx_desc = requested_desc nb_tx_desc (di_default_txportconf info) RTE_ETH_DEV_FALLBACK_TX_RINGSIZE
           in do {
                bad \<leftarrow> desc_refused nb_tx_desc (di_tx_desc_lim info);
                if bad then Some (- EINVAL, dev) else do {
                  busy \<leftarrow> queue_busy (ed_started dev) (di_dev_capa info AND RTE_ETH_DEV_CAPA_RUNTIME_TX_QUEUE_SETUP) (ed_tx_queue_state dev) tx_queue_id;
                  if busy then Some (- EBUSY, dev) else do {
                    dropped \<leftarrow> queue_drop (op_tx_queue_release ops) tx_queue_id (ed_tx_queues dev, ed_private dev);
                    case dropped of None \<Rightarrow> Some (- ENOTSUP, dev)
                    | Some (q, d) \<Rightarrow>
                        (let dev = dev\<lparr>ed_tx_queues := q, ed_private := d\<rparr>;
                             tx_conf = (case tx_conf of None \<Rightarrow> di_default_txconf info | Some c \<Rightarrow> c);
                             local_conf = tx_conf\<lparr>txc_offloads := txc_offloads tx_conf AND NOT (cf_tx_offloads (ed_conf dev))\<rparr>
                         in if txc_offloads local_conf AND di_tx_queue_offload_capa info \<noteq> txc_offloads local_conf then Some (- EINVAL, dev)
                            else do {
                              r \<leftarrow> drv_setup dev tx_queue_id nb_tx_desc socket_id local_conf;
                              Some (eth_err ops r) }) } } })
      | _ \<Rightarrow> Some (- ENOTSUP, dev))"

definition rte_eth_tx_queue_setup ::
    "(u16 \<Rightarrow> ('d, 'q) eth_dev_ops) \<Rightarrow> u16 \<Rightarrow> u16 \<Rightarrow> u16 \<Rightarrow> u32 \<Rightarrow> eth_txconf option \<Rightarrow> ('d, 'q) eth_dev list \<Rightarrow> (c_int \<times> ('d, 'q) eth_dev list) option" where
  "rte_eth_tx_queue_setup ops port_id tx_queue_id nb_tx_desc socket_id tx_conf =
     on_port (- EINVAL) port_id (tx_queue_setup_dev (ops port_id) tx_queue_id nb_tx_desc socket_id tx_conf)"

section \<open>Starting and stopping\<close>

text \<open>Each set bit of a MAC address's mask is a pool to add it to.\<close>

function restore_pools ::
    "(u8 list \<Rightarrow> u32 \<Rightarrow> u32 \<Rightarrow> 's \<Rightarrow> 's) \<Rightarrow> u8 list \<Rightarrow> u32 \<Rightarrow> u64 \<Rightarrow> u32 \<Rightarrow> 's \<Rightarrow> 's" where
  "restore_pools add addr i pool_mask pool s =
     (let s = (if pool_mask AND 1 \<noteq> 0 then add addr i pool s else s); pool_mask = drop_bit 1 pool_mask
      in if pool_mask \<noteq> 0 then restore_pools add addr i pool_mask (pool + 1) s else s)"
  by auto

lemma drop_bit_smaller:
  fixes x :: "'a::len word"
  assumes "x \<noteq> 0"
  shows "unat (drop_bit 1 x) < unat x"
proof -
  have "unat (drop_bit 1 x) = unat x div 2" unfolding unat_drop_bit_eq by (simp add: drop_bit_eq_div)
  moreover have "0 < unat x" using assms by (simp add: unat_gt_0)
  ultimately show ?thesis by simp
qed

termination restore_pools
proof (relation "measure (\<lambda>(add, addr, i, pool_mask, pool, s). unat pool_mask)")
  fix add :: "u8 list \<Rightarrow> u32 \<Rightarrow> u32 \<Rightarrow> 's \<Rightarrow> 's" and addr i pool_mask pool s x xa
  assume "xa = drop_bit 1 (pool_mask :: u64)" "xa \<noteq> 0"
  then show "((add, addr, i, xa, pool + 1, x), add, addr, i, pool_mask, pool, s) \<in> measure (\<lambda>(add, addr, i, pool_mask, pool, s). unat pool_mask)"
    using drop_bit_smaller [of pool_mask] by (cases "pool_mask = 0") auto
qed simp

declare restore_pools.simps [simp del]

fun restore_macs :: "(u8 list \<Rightarrow> u32 \<Rightarrow> u32 \<Rightarrow> ('d, 'q) eth_dev \<Rightarrow> ('d, 'q) eth_dev) \<Rightarrow> nat list \<Rightarrow> ('d, 'q) eth_dev \<Rightarrow> ('d, 'q) eth_dev option" where
  "restore_macs add [] dev = Some dev"
| "restore_macs add (i # is) dev = do {
     guard (i < length (ed_mac_addrs dev));
     let addr = ed_mac_addrs dev ! i;
     if list_all (\<lambda>b. b = 0) addr then restore_macs add is dev
     else do {
       guard (i < length (ed_mac_pool_sel dev));
       restore_macs add is (restore_pools add addr (of_nat i) (ed_mac_pool_sel dev ! i) 0 dev) } }"

text \<open>The loop's counter has 16 bits and the number of addresses 32, so that the loop ends only below \<open>2 ^ 16\<close>.\<close>

definition rte_eth_dev_mac_restore :: "('d, 'q) eth_dev_ops \<Rightarrow> rte_eth_dev_info \<Rightarrow> ('d, 'q) eth_dev \<Rightarrow> ('d, 'q) eth_dev option" where
  "rte_eth_dev_mac_restore ops info dev = do {
     guard (ed_mac_addrs dev \<noteq> []);
     let addr = ed_mac_addrs dev ! 0;
     let dev = (case op_mac_addr_set ops of Some f \<Rightarrow> snd (f dev addr)
                | None \<Rightarrow> (case op_mac_addr_add ops of Some f \<Rightarrow> snd (f dev addr 0 0) | None \<Rightarrow> dev));
     case op_mac_addr_add ops of None \<Rightarrow> Some dev
     | Some f \<Rightarrow> do {
         guard (unat (di_max_mac_addrs info) < 2 ^ 16);
         restore_macs (\<lambda>addr i pool dev. snd (f dev addr i pool)) [1..<unat (di_max_mac_addrs info)] dev } }"

definition promiscuous_enable_dev :: "('d, 'q) eth_dev_ops \<Rightarrow> ('d, 'q) eth_dev \<Rightarrow> ('d, 'q) eth_dev" where
  "promiscuous_enable_dev ops dev =
     (case op_promiscuous_enable ops of None \<Rightarrow> dev | Some f \<Rightarrow> (f dev)\<lparr>ed_promiscuous := True\<rparr>)"

definition promiscuous_disable_dev :: "('d, 'q) eth_dev_ops \<Rightarrow> ('d, 'q) eth_dev \<Rightarrow> ('d, 'q) eth_dev" where
  "promiscuous_disable_dev ops dev =
     (case op_promiscuous_disable ops of None \<Rightarrow> dev | Some f \<Rightarrow> f (dev\<lparr>ed_promiscuous := False\<rparr>))"

definition allmulticast_enable_dev :: "('d, 'q) eth_dev_ops \<Rightarrow> ('d, 'q) eth_dev \<Rightarrow> ('d, 'q) eth_dev" where
  "allmulticast_enable_dev ops dev =
     (case op_allmulticast_enable ops of None \<Rightarrow> dev | Some f \<Rightarrow> (f dev)\<lparr>ed_all_multicast := True\<rparr>)"

definition allmulticast_disable_dev :: "('d, 'q) eth_dev_ops \<Rightarrow> ('d, 'q) eth_dev \<Rightarrow> ('d, 'q) eth_dev" where
  "allmulticast_disable_dev ops dev =
     (case op_allmulticast_disable ops of None \<Rightarrow> dev | Some f \<Rightarrow> f (dev\<lparr>ed_all_multicast := False\<rparr>))"
text \<open>What was asked for while the device was stopped is asked of the driver again. \<open>*dev_info->dev_flags\<close> reads the device's flags.\<close>

definition info_flags :: "rte_eth_dev_info \<Rightarrow> ('d, 'q) eth_dev \<Rightarrow> u32 option" where
  "info_flags info dev = (if di_flags_set info then Some (ed_flags dev) else None)"

definition rte_eth_dev_config_restore :: "('d, 'q) eth_dev_ops \<Rightarrow> rte_eth_dev_info \<Rightarrow> ('d, 'q) eth_dev \<Rightarrow> ('d, 'q) eth_dev option" where
  "rte_eth_dev_config_restore ops info dev = do {
     flags \<leftarrow> info_flags info dev;
     dev \<leftarrow> (if flags AND RTE_ETH_DEV_NOLIVE_MAC_ADDR = 0 then rte_eth_dev_mac_restore ops info dev else Some dev);
     let dev = (if ed_promiscuous dev then promiscuous_enable_dev ops dev else promiscuous_disable_dev ops dev);
     Some (if ed_all_multicast dev then allmulticast_enable_dev ops dev else allmulticast_disable_dev ops dev) }"

definition start_dev :: "('d, 'q) eth_dev_ops \<Rightarrow> ('d, 'q) eth_dev \<Rightarrow> (c_int \<times> ('d, 'q) eth_dev) option" where
  "start_dev ops dev =
     (case op_dev_start ops of None \<Rightarrow> Some (- ENOTSUP, dev)
      | Some drv_start \<Rightarrow>
          if ed_started dev then Some (0, dev)
          else do {
            let info = rte_eth_dev_info_get ops dev;
            flags \<leftarrow> info_flags info dev;
            dev \<leftarrow> (if flags AND RTE_ETH_DEV_NOLIVE_MAC_ADDR \<noteq> 0 then rte_eth_dev_mac_restore ops info dev else Some dev);
            case drv_start dev of (diag, dev) \<Rightarrow>
              if diag \<noteq> 0 then Some (eth_err ops (diag, dev))
              else do {
                dev \<leftarrow> rte_eth_dev_config_restore ops info (dev\<lparr>ed_started := True\<rparr>);
                if cf_lsc (ed_conf dev) then Some (0, dev)
                else (case op_link_update ops of None \<Rightarrow> Some (- ENOTSUP, dev)
                      | Some f \<Rightarrow> Some (0, snd (f dev))) } })"

definition stop_dev :: "('d, 'q) eth_dev_ops \<Rightarrow> ('d, 'q) eth_dev \<Rightarrow> ('d, 'q) eth_dev" where
  "stop_dev ops dev =
     (case op_dev_stop ops of None \<Rightarrow> dev
      | Some f \<Rightarrow> if \<not> ed_started dev then dev else f (dev\<lparr>ed_started := False\<rparr>))"

text \<open>\<open>rte_eth_dev_release_port\<close> in the primary process: the arrays are freed and the shared data cleared, the driver's data as \<open>nil\<close>.\<close>

definition rte_eth_dev_release_port :: "'d \<Rightarrow> ('d, 'q) eth_dev \<Rightarrow> ('d, 'q) eth_dev" where
  "rte_eth_dev_release_port nil dev =
     \<lparr>ed_state = RTE_ETH_DEV_UNUSED, ed_private = nil, ed_rx_queues = None, ed_tx_queues = None, ed_nb_rx_queues = 0, ed_nb_tx_queues = 0,
      ed_conf = conf_zero, ed_min_rx_buf_size = 0, ed_mac_addrs = [], ed_mac_pool_sel = map (\<lambda>_. 0) (ed_mac_pool_sel dev),
      ed_promiscuous = False, ed_all_multicast = False, ed_started = False, ed_rx_queue_state = map (\<lambda>_. 0) (ed_rx_queue_state dev),
      ed_tx_queue_state = map (\<lambda>_. 0) (ed_tx_queue_state dev), ed_flags = 0, ed_owner = 0, ed_link_up = False\<rparr>"

definition close_dev :: "'d \<Rightarrow> ('d, 'q) eth_dev_ops \<Rightarrow> ('d, 'q) eth_dev \<Rightarrow> ('d, 'q) eth_dev" where
  "close_dev nil ops dev =
     (case op_dev_close ops of None \<Rightarrow> dev
      | Some f \<Rightarrow>
          (let dev = f (dev\<lparr>ed_started := False\<rparr>)
           in if ed_flags dev AND RTE_ETH_DEV_CLOSE_REMOVE \<noteq> 0 then rte_eth_dev_release_port nil dev
              else dev\<lparr>ed_nb_rx_queues := 0, ed_rx_queues := None, ed_nb_tx_queues := 0, ed_tx_queues := None\<rparr>))"

definition dev_reset :: "('d, 'q) eth_dev_ops \<Rightarrow> ('d, 'q) eth_dev \<Rightarrow> ('d, 'q) eth_dev option" where
  "dev_reset ops dev =
     (if ed_started dev then Some dev
      else do {
        (r, dev) \<leftarrow> rte_eth_dev_rx_queue_config ops True 0 dev;
        (r, dev) \<leftarrow> rte_eth_dev_tx_queue_config ops True 0 dev;
        Some (dev\<lparr>ed_conf := conf_zero\<rparr>) })"

definition rte_eth_dev_start :: "(u16 \<Rightarrow> ('d, 'q) eth_dev_ops) \<Rightarrow> u16 \<Rightarrow> ('d, 'q) eth_dev list \<Rightarrow> (c_int \<times> ('d, 'q) eth_dev list) option" where
  "rte_eth_dev_start ops port_id = on_port (- EINVAL) port_id (start_dev (ops port_id))"

definition rte_eth_dev_stop :: "(u16 \<Rightarrow> ('d, 'q) eth_dev_ops) \<Rightarrow> u16 \<Rightarrow> ('d, 'q) eth_dev list \<Rightarrow> (unit \<times> ('d, 'q) eth_dev list) option" where
  "rte_eth_dev_stop ops port_id = on_port () port_id (\<lambda>dev. Some ((), stop_dev (ops port_id) dev))"

definition rte_eth_dev_close :: "'d \<Rightarrow> (u16 \<Rightarrow> ('d, 'q) eth_dev_ops) \<Rightarrow> u16 \<Rightarrow> ('d, 'q) eth_dev list \<Rightarrow> (unit \<times> ('d, 'q) eth_dev list) option" where
  "rte_eth_dev_close nil ops port_id = on_port () port_id (\<lambda>dev. Some ((), close_dev nil (ops port_id) dev))"

definition rte_eth_promiscuous_enable :: "(u16 \<Rightarrow> ('d, 'q) eth_dev_ops) \<Rightarrow> u16 \<Rightarrow> ('d, 'q) eth_dev list \<Rightarrow> (unit \<times> ('d, 'q) eth_dev list) option" where
  "rte_eth_promiscuous_enable ops port_id = on_port () port_id (\<lambda>dev. Some ((), promiscuous_enable_dev (ops port_id) dev))"

definition rte_eth_promiscuous_disable :: "(u16 \<Rightarrow> ('d, 'q) eth_dev_ops) \<Rightarrow> u16 \<Rightarrow> ('d, 'q) eth_dev list \<Rightarrow> (unit \<times> ('d, 'q) eth_dev list) option" where
  "rte_eth_promiscuous_disable ops port_id = on_port () port_id (\<lambda>dev. Some ((), promiscuous_disable_dev (ops port_id) dev))"

definition rte_eth_promiscuous_get :: "u16 \<Rightarrow> ('d, 'q) eth_dev list \<Rightarrow> c_int" where
  "rte_eth_promiscuous_get port_id devs =
     (if \<not> rte_eth_dev_is_valid_port devs port_id then - EINVAL else if ed_promiscuous (devs ! unat port_id) then 1 else 0)"

section \<open>Descriptor numbers\<close>

definition rte_eth_dev_adjust_nb_desc :: "u16 \<Rightarrow> eth_desc_lim \<Rightarrow> u16" where
  "rte_eth_dev_adjust_nb_desc nb_desc lim =
     (let nb_desc = (if nb_align lim \<noteq> 0 then RTE_ALIGN_CEIL nb_desc (nb_align lim) else nb_desc);
          nb_desc = (if nb_max lim \<noteq> 0 then min nb_desc (nb_max lim) else nb_desc)
      in max nb_desc (nb_min lim))"

text \<open>The numbers are passed by reference, or not at all.\<close>

definition rte_eth_dev_adjust_nb_rx_tx_desc ::
    "(u16 \<Rightarrow> ('d, 'q) eth_dev_ops) \<Rightarrow> u16 \<Rightarrow> u16 option \<Rightarrow> u16 option \<Rightarrow> ('d, 'q) eth_dev list \<Rightarrow> c_int \<times> u16 option \<times> u16 option" where
  "rte_eth_dev_adjust_nb_rx_tx_desc ops port_id nb_rx_desc nb_tx_desc devs =
     (if \<not> rte_eth_dev_is_valid_port devs port_id then (- ENODEV, nb_rx_desc, nb_tx_desc)
      else if op_dev_infos_get (ops port_id) = None then (- ENOTSUP, nb_rx_desc, nb_tx_desc)
      else let info = rte_eth_dev_info_get (ops port_id) (devs ! unat port_id)
           in (0, map_option (\<lambda>n. rte_eth_dev_adjust_nb_desc n (di_rx_desc_lim info)) nb_rx_desc,
                  map_option (\<lambda>n. rte_eth_dev_adjust_nb_desc n (di_tx_desc_lim info)) nb_tx_desc))"
end
