(* ===== verification/EthContract.thy ===== *)
theory EthContract
  imports Ethdev
begin

text \<open>
  What the Ethernet device layer relies on from a driver, as the locale \<open>eth_driver\<close>, and what it then guarantees: the arrays of queues
  always have as many entries as the port has queues, no operation leaves defined behaviour, and a configuration that fails is undone.
\<close>

section \<open>Well-formed ports\<close>

definition queues_ok :: "'q option list option \<Rightarrow> u16 \<Rightarrow> bool" where
  "queues_ok q n \<longleftrightarrow> (case q of None \<Rightarrow> n = 0 | Some xs \<Rightarrow> length xs = unat n)"

text \<open>The queue with number \<open>i\<close>; there is none before it is set up.\<close>

definition queue_ptr :: "'q option list option \<Rightarrow> nat \<Rightarrow> 'q option" where
  "queue_ptr q i = (case q of None \<Rightarrow> None | Some xs \<Rightarrow> if i < length xs then xs ! i else None)"

definition eth_wf :: "('d, 'q) eth_dev \<Rightarrow> bool" where
  "eth_wf dev \<longleftrightarrow> queues_ok (ed_rx_queues dev) (ed_nb_rx_queues dev) \<and> queues_ok (ed_tx_queues dev) (ed_nb_tx_queues dev) \<and>
     ed_nb_rx_queues dev \<le> RTE_MAX_QUEUES_PER_PORT \<and> ed_nb_tx_queues dev \<le> RTE_MAX_QUEUES_PER_PORT \<and>
     length (ed_rx_queue_state dev) = unat RTE_MAX_QUEUES_PER_PORT \<and> length (ed_tx_queue_state dev) = unat RTE_MAX_QUEUES_PER_PORT \<and>
     ed_mac_addrs dev \<noteq> [] \<and> length (ed_mac_pool_sel dev) = 128"

text \<open>A callback's frame: the driver may change its own data, the states of the queues, the link and the contents of tables.\<close>

definition dev_frame :: "('d, 'q) eth_dev \<Rightarrow> ('d, 'q) eth_dev \<Rightarrow> bool" where
  "dev_frame dev dev' \<longleftrightarrow> ed_rx_queues dev' = ed_rx_queues dev \<and> ed_tx_queues dev' = ed_tx_queues dev \<and>
     ed_nb_rx_queues dev' = ed_nb_rx_queues dev \<and> ed_nb_tx_queues dev' = ed_nb_tx_queues dev \<and> ed_conf dev' = ed_conf dev \<and>
     ed_started dev' = ed_started dev \<and> ed_state dev' = ed_state dev \<and> ed_promiscuous dev' = ed_promiscuous dev \<and>
     length (ed_rx_queue_state dev') = length (ed_rx_queue_state dev) \<and> length (ed_tx_queue_state dev') = length (ed_tx_queue_state dev) \<and>
     length (ed_mac_addrs dev') = length (ed_mac_addrs dev) \<and> length (ed_mac_pool_sel dev') = length (ed_mac_pool_sel dev)"

lemma dev_frame_refl [simp]: "dev_frame dev dev"
  by (simp add: dev_frame_def)

lemma dev_frame_trans: "dev_frame a b \<Longrightarrow> dev_frame b c \<Longrightarrow> dev_frame a c"
  by (simp add: dev_frame_def)

lemma dev_frame_wf: "dev_frame dev dev' \<Longrightarrow> eth_wf dev' = eth_wf dev"
  by (auto simp: dev_frame_def eth_wf_def simp flip: length_greater_0_conv)

section \<open>Drivers\<close>

locale eth_driver =
  fixes ops :: "('d, 'q) eth_dev_ops"
  assumes infos: "op_dev_infos_get ops \<noteq> None"
    and info_align: "\<And>f dev i. op_dev_infos_get ops = Some f \<Longrightarrow> nb_align (di_rx_desc_lim i) \<noteq> 0 \<Longrightarrow> nb_align (di_tx_desc_lim i) \<noteq> 0 \<Longrightarrow>
        nb_align (di_rx_desc_lim (f dev i)) \<noteq> 0 \<and> nb_align (di_tx_desc_lim (f dev i)) \<noteq> 0"
    and info_macs: "\<And>f dev i. op_dev_infos_get ops = Some f \<Longrightarrow> eth_wf dev \<Longrightarrow> di_max_mac_addrs i = 0 \<Longrightarrow>
        unat (di_max_mac_addrs (f dev i)) \<le> min 128 (length (ed_mac_addrs dev))"
    and configure_frame: "\<And>f dev. op_dev_configure ops = Some f \<Longrightarrow> dev_frame dev (snd (f dev))"
    and start_frame: "\<And>f dev. op_dev_start ops = Some f \<Longrightarrow> dev_frame dev (snd (f dev))"
    and stop_frame: "\<And>f dev. op_dev_stop ops = Some f \<Longrightarrow> dev_frame dev (f dev)"
    and close_frame: "\<And>f dev. op_dev_close ops = Some f \<Longrightarrow> dev_frame dev (f dev)"
    and promiscuous_enable_frame: "\<And>f dev. op_promiscuous_enable ops = Some f \<Longrightarrow> dev_frame dev (f dev)"
    and promiscuous_disable_frame: "\<And>f dev. op_promiscuous_disable ops = Some f \<Longrightarrow> dev_frame dev (f dev)"
    and allmulticast_enable_frame: "\<And>f dev. op_allmulticast_enable ops = Some f \<Longrightarrow> dev_frame dev (f dev)"
    and allmulticast_disable_frame: "\<And>f dev. op_allmulticast_disable ops = Some f \<Longrightarrow> dev_frame dev (f dev)"
    and link_update_frame: "\<And>f dev. op_link_update ops = Some f \<Longrightarrow> dev_frame dev (snd (f dev))"
    and mac_addr_set_frame: "\<And>f dev addr. op_mac_addr_set ops = Some f \<Longrightarrow> dev_frame dev (snd (f dev addr))"
    and mac_addr_add_frame: "\<And>f dev addr i pool. op_mac_addr_add ops = Some f \<Longrightarrow> dev_frame dev (snd (f dev addr i pool))"
    and rx_setup: "\<And>f dev xs i n s c mp. op_rx_queue_setup ops = Some f \<Longrightarrow> ed_rx_queues dev = Some xs \<Longrightarrow> unat i < length xs \<Longrightarrow>
        \<exists>r p dev'. f dev i n s c mp = Some (r, dev') \<and> (r = 0 \<longrightarrow> p \<noteq> None) \<and> dev_frame (dev\<lparr>ed_rx_queues := Some (xs[unat i := p])\<rparr>) dev'"
    and tx_setup: "\<And>f dev xs i n s c. op_tx_queue_setup ops = Some f \<Longrightarrow> ed_tx_queues dev = Some xs \<Longrightarrow> unat i < length xs \<Longrightarrow>
        \<exists>r p dev'. f dev i n s c = Some (r, dev') \<and> (r = 0 \<longrightarrow> p \<noteq> None) \<and> dev_frame (dev\<lparr>ed_tx_queues := Some (xs[unat i := p])\<rparr>) dev'"

section \<open>Numbers of queues\<close>

text \<open>The first \<open>nb\<close> queues are kept, and those from there on are not set up.\<close>

definition kept_queues :: "'q option list option \<Rightarrow> u16 \<Rightarrow> 'q option list option \<Rightarrow> bool" where
  "kept_queues q nb q' \<longleftrightarrow> (\<forall>i. queue_ptr q' i = (if i < unat nb then queue_ptr q i else None))"

lemma queue_array_config_ok:
  assumes "queues_ok q n"
  shows "\<exists>r q' n' d'. queue_array_config rel alloc nb (q, n, d) = Some (r, q', n', d') \<and> queues_ok q' n' \<and>
     (n' = nb \<or> n' = n \<or> n' = 0) \<and> (nb = 0 \<and> r \<noteq> 0 \<longrightarrow> n' = n) \<and>
     (r = 0 \<longrightarrow> n' = nb \<and> kept_queues q nb q')"
proof (cases q)
  case None
  then show ?thesis using assms by (auto simp: queue_array_config_def queues_ok_def queue_ptr_def kept_queues_def)
next
  case (Some xs)
  then have len: "length xs = unat n" using assms by (simp add: queues_ok_def)
  show ?thesis
  proof (cases rel)
    case None
    then show ?thesis using Some len by (auto simp: queue_array_config_def queues_ok_def)
  next
    case (Some f)
    let ?ys = "take (unat nb) (xs @ replicate (unat (nb - n)) None)"
    have grow: "unat nb \<le> unat n + unat (nb - n)"
      by (cases "n \<le> nb") (auto simp: unat_sub_le word_le_nat_alt)
    then have "length ?ys = unat nb" using len by simp
    moreover have "queue_ptr (Some ?ys) i = (if i < unat nb then queue_ptr (Some xs) i else None)" for i
      using grow len by (auto simp: queue_ptr_def nth_append)
    ultimately show ?thesis
      using Some \<open>q = Some xs\<close> len by (auto simp: queue_array_config_def queues_ok_def queue_ptr_def kept_queues_def Let_def)
  qed
qed
text \<open>The rest of a port, which the configuration of the queues leaves alone.\<close>

definition rest_frame :: "('d, 'q) eth_dev \<Rightarrow> ('d, 'q) eth_dev \<Rightarrow> bool" where
  "rest_frame dev dev' \<longleftrightarrow> ed_conf dev' = ed_conf dev \<and> ed_started dev' = ed_started dev \<and> ed_state dev' = ed_state dev \<and>
     ed_promiscuous dev' = ed_promiscuous dev \<and>
     length (ed_rx_queue_state dev') = length (ed_rx_queue_state dev) \<and> length (ed_tx_queue_state dev') = length (ed_tx_queue_state dev) \<and>
     length (ed_mac_addrs dev') = length (ed_mac_addrs dev) \<and> length (ed_mac_pool_sel dev') = length (ed_mac_pool_sel dev)"

lemma rx_config_ok:
  assumes "eth_wf dev" "nb \<le> RTE_MAX_QUEUES_PER_PORT"
  shows "\<exists>r dev'. rte_eth_dev_rx_queue_config ops alloc nb dev = Some (r, dev') \<and> eth_wf dev' \<and> rest_frame dev dev' \<and>
     ed_tx_queues dev' = ed_tx_queues dev \<and> ed_nb_tx_queues dev' = ed_nb_tx_queues dev \<and>
     (r = 0 \<longrightarrow> ed_nb_rx_queues dev' = nb \<and> kept_queues (ed_rx_queues dev) nb (ed_rx_queues dev'))"
proof -
  have ok: "queues_ok (ed_rx_queues dev) (ed_nb_rx_queues dev)" using assms(1) by (simp add: eth_wf_def)
  obtain r q n d where q: "queue_array_config (op_rx_queue_release ops) alloc nb (ed_rx_queues dev, ed_nb_rx_queues dev, ed_private dev) = Some (r, q, n, d)"
    "queues_ok q n" "n = nb \<or> n = ed_nb_rx_queues dev \<or> n = 0" "r = 0 \<longrightarrow> n = nb \<and> kept_queues (ed_rx_queues dev) nb q"
    using queue_array_config_ok [OF ok, of "op_rx_queue_release ops" alloc nb "ed_private dev"] by (elim exE conjE) (rule that)
  have n: "n \<le> RTE_MAX_QUEUES_PER_PORT" using q(3) assms by (auto simp: eth_wf_def)
  show ?thesis unfolding rte_eth_dev_rx_queue_config_def q(1) using assms(1) q(2,4) n by (simp add: eth_wf_def rest_frame_def)
qed

lemma tx_config_ok:
  assumes "eth_wf dev" "nb \<le> RTE_MAX_QUEUES_PER_PORT"
  shows "\<exists>r dev'. rte_eth_dev_tx_queue_config ops alloc nb dev = Some (r, dev') \<and> eth_wf dev' \<and> rest_frame dev dev' \<and>
     ed_rx_queues dev' = ed_rx_queues dev \<and> ed_nb_rx_queues dev' = ed_nb_rx_queues dev \<and>
     (r = 0 \<longrightarrow> ed_nb_tx_queues dev' = nb \<and> kept_queues (ed_tx_queues dev) nb (ed_tx_queues dev'))"
proof -
  have ok: "queues_ok (ed_tx_queues dev) (ed_nb_tx_queues dev)" using assms(1) by (simp add: eth_wf_def)
  obtain r q n d where q: "queue_array_config (op_tx_queue_release ops) alloc nb (ed_tx_queues dev, ed_nb_tx_queues dev, ed_private dev) = Some (r, q, n, d)"
    "queues_ok q n" "n = nb \<or> n = ed_nb_tx_queues dev \<or> n = 0" "r = 0 \<longrightarrow> n = nb \<and> kept_queues (ed_tx_queues dev) nb q"
    using queue_array_config_ok [OF ok, of "op_tx_queue_release ops" alloc nb "ed_private dev"] by (elim exE conjE) (rule that)
  have n: "n \<le> RTE_MAX_QUEUES_PER_PORT" using q(3) assms by (auto simp: eth_wf_def)
  show ?thesis unfolding rte_eth_dev_tx_queue_config_def q(1) using assms(1) q(2,4) n by (simp add: eth_wf_def rest_frame_def)
qed

lemma rest_frame_trans: "rest_frame a b \<Longrightarrow> rest_frame b c \<Longrightarrow> rest_frame a c"
  by (simp add: rest_frame_def)

lemma zero_queues [simp]: "0 \<le> RTE_MAX_QUEUES_PER_PORT"
  by simp

lemma queues_config_ok:
  assumes wf: "eth_wf dev" and nb: "rx \<le> RTE_MAX_QUEUES_PER_PORT" "tx \<le> RTE_MAX_QUEUES_PER_PORT"
  shows "\<exists>r dev'. queues_config ops alloc rx tx dev = Some (r, dev') \<and> eth_wf dev' \<and> rest_frame dev dev' \<and>
     (r = 0 \<longrightarrow> ed_nb_rx_queues dev' = rx \<and> ed_nb_tx_queues dev' = tx \<and>
        kept_queues (ed_rx_queues dev) rx (ed_rx_queues dev') \<and> kept_queues (ed_tx_queues dev) tx (ed_tx_queues dev'))"
proof -
  obtain r1 d1 where 1: "rte_eth_dev_rx_queue_config ops (fst alloc) rx dev = Some (r1, d1)" "eth_wf d1" "rest_frame dev d1"
    "ed_tx_queues d1 = ed_tx_queues dev" "r1 = 0 \<Longrightarrow> ed_nb_rx_queues d1 = rx \<and> kept_queues (ed_rx_queues dev) rx (ed_rx_queues d1)"
    using rx_config_ok [OF wf nb(1)] by blast
  obtain r2 d2 where 2: "rte_eth_dev_tx_queue_config ops (snd alloc) tx d1 = Some (r2, d2)" "eth_wf d2" "rest_frame d1 d2"
    "ed_rx_queues d2 = ed_rx_queues d1" "ed_nb_rx_queues d2 = ed_nb_rx_queues d1"
    "r2 = 0 \<Longrightarrow> ed_nb_tx_queues d2 = tx \<and> kept_queues (ed_tx_queues d1) tx (ed_tx_queues d2)"
    using tx_config_ok [OF 1(2) nb(2)] by blast
  obtain r3 d3 where 3: "rte_eth_dev_rx_queue_config ops True 0 d2 = Some (r3, d3)" "eth_wf d3" "rest_frame d2 d3"
    using rx_config_ok [OF 2(2) zero_queues] by blast
  have f: "rest_frame dev d2" "rest_frame dev d3" using 1(3) 2(3) 3(3) rest_frame_trans by blast+
  show ?thesis
  proof (cases "r1 = 0")
    case True
    then show ?thesis using 1 2 3 f by (cases "r2 = 0") (simp_all add: queues_config_def)
  next
    case False
    then show ?thesis using 1 by (simp add: queues_config_def)
  qed
qed

lemma eth_err_frame:
  shows "\<exists>r' s. eth_err ops (r, dev) = (r', dev\<lparr>ed_state := s\<rparr>) \<and> (r' = 0 \<longleftrightarrow> r = 0) \<and> (s = ed_state dev \<or> s = RTE_ETH_DEV_REMOVED)"
proof (intro exI conjI)
  show "eth_err ops (r, dev) = (fst (eth_err ops (r, dev)), dev\<lparr>ed_state := ed_state (snd (eth_err ops (r, dev)))\<rparr>)"
    by (auto simp: eth_err_def rte_eth_dev_is_removed_def Let_def split: option.splits)
qed (auto simp: eth_err_def rte_eth_dev_is_removed_def Let_def split: option.splits)

lemma wf_state [simp]: "eth_wf (dev\<lparr>ed_state := s\<rparr>) = eth_wf dev"
  by (simp add: eth_wf_def)

lemma wf_conf [simp]: "eth_wf (dev\<lparr>ed_conf := c\<rparr>) = eth_wf dev"
  by (simp add: eth_wf_def)

lemma wf_started [simp]: "eth_wf (dev\<lparr>ed_started := b\<rparr>) = eth_wf dev"
  by (simp add: eth_wf_def)

lemma wf_promiscuous [simp]: "eth_wf (dev\<lparr>ed_promiscuous := b\<rparr>) = eth_wf dev"
  by (simp add: eth_wf_def)

lemma wf_all_multicast [simp]: "eth_wf (dev\<lparr>ed_all_multicast := b\<rparr>) = eth_wf dev"
  by (simp add: eth_wf_def)
lemma requested_max:
  assumes "\<not> conf_refused info flags rx tx c"
  shows "rx \<le> RTE_MAX_QUEUES_PER_PORT" "tx \<le> RTE_MAX_QUEUES_PER_PORT"
  using assms by (auto simp: conf_refused_def not_less)

lemma queue_present:
  assumes "queues_ok q n" "i < n"
  obtains xs where "q = Some xs" "unat i < length xs"
  using assms by (auto simp: queues_ok_def word_less_nat_alt split: option.splits)

lemma queue_drop_ok:
  assumes "q = Some xs" "unat i < length xs"
  shows "queue_drop rel i (q, d) = Some None \<or> (\<exists>d'. queue_drop rel i (q, d) = Some (Some (Some (xs[unat i := None]), d')))"
proof (cases "xs ! unat i")
  case None
  then have "xs[unat i := None] = xs" by (metis list_update_id)
  then show ?thesis using assms None by (simp add: queue_drop_def)
next
  case (Some p)
  then show ?thesis using assms by (simp add: queue_drop_def split: option.splits)
qed

lemma queue_busy_ok:
  assumes "unat i < length states"
  shows "\<exists>b. queue_busy started capa states i = Some b"
  using assms by (simp add: queue_busy_def) blast

lemma desc_refused_total:
  assumes "nb_align lim \<noteq> 0"
  shows "\<exists>b. desc_refused n lim = Some b"
  using assms by (simp add: desc_refused_def) blast

lemma queue_ptr_update: "unat i < length xs \<Longrightarrow> queue_ptr (Some (xs[unat i := p])) j = (if j = unat i then p else queue_ptr (Some xs) j)"
  by (auto simp: queue_ptr_def nth_list_update)

text \<open>What may have changed after a call that sets up one queue: its entry.\<close>

definition rx_changed :: "u16 \<Rightarrow> ('d, 'q) eth_dev \<Rightarrow> ('d, 'q) eth_dev \<Rightarrow> bool" where
  "rx_changed i dev dev' \<longleftrightarrow> ed_conf dev' = ed_conf dev \<and> ed_started dev' = ed_started dev \<and> ed_promiscuous dev' = ed_promiscuous dev \<and>
     ed_state dev' \<in> {ed_state dev, RTE_ETH_DEV_REMOVED} \<and> ed_nb_rx_queues dev' = ed_nb_rx_queues dev \<and> ed_nb_tx_queues dev' = ed_nb_tx_queues dev \<and>
     ed_tx_queues dev' = ed_tx_queues dev \<and> (\<forall>j. j \<noteq> unat i \<longrightarrow> queue_ptr (ed_rx_queues dev') j = queue_ptr (ed_rx_queues dev) j)"

definition tx_changed :: "u16 \<Rightarrow> ('d, 'q) eth_dev \<Rightarrow> ('d, 'q) eth_dev \<Rightarrow> bool" where
  "tx_changed i dev dev' \<longleftrightarrow> ed_conf dev' = ed_conf dev \<and> ed_started dev' = ed_started dev \<and> ed_promiscuous dev' = ed_promiscuous dev \<and>
     ed_state dev' \<in> {ed_state dev, RTE_ETH_DEV_REMOVED} \<and> ed_nb_rx_queues dev' = ed_nb_rx_queues dev \<and> ed_nb_tx_queues dev' = ed_nb_tx_queues dev \<and>
     ed_rx_queues dev' = ed_rx_queues dev \<and> (\<forall>j. j \<noteq> unat i \<longrightarrow> queue_ptr (ed_tx_queues dev') j = queue_ptr (ed_tx_queues dev) j)"

lemma rx_changed_refl [simp]: "rx_changed i dev dev" by (simp add: rx_changed_def)
lemma tx_changed_refl [simp]: "tx_changed i dev dev" by (simp add: tx_changed_def)

lemma wf_rx_update:
  assumes "eth_wf dev" "ed_rx_queues dev = Some xs" "length ys = length xs"
  shows "eth_wf (dev\<lparr>ed_rx_queues := Some ys, ed_private := d\<rparr>)"
  using assms by (simp add: eth_wf_def queues_ok_def)

lemma wf_tx_update:
  assumes "eth_wf dev" "ed_tx_queues dev = Some xs" "length ys = length xs"
  shows "eth_wf (dev\<lparr>ed_tx_queues := Some ys, ed_private := d\<rparr>)"
  using assms by (simp add: eth_wf_def queues_ok_def)

section \<open>What a driver's contract gives\<close>

context eth_driver
begin

lemma info_descs:
  "nb_align (di_rx_desc_lim (rte_eth_dev_info_get ops dev)) \<noteq> 0 \<and> nb_align (di_tx_desc_lim (rte_eth_dev_info_get ops dev)) \<noteq> 0"
proof (cases "op_dev_infos_get ops")
  case (Some f)
  then show ?thesis using info_align [OF Some] by (simp add: rte_eth_dev_info_get_def desc_lim_default_def Let_def)
qed (simp add: rte_eth_dev_info_get_def desc_lim_default_def)

lemma configure_total:
  assumes wf: "eth_wf dev"
  shows "\<exists>r dev'. configure_dev ops alloc rx tx conf dev = Some (r, dev') \<and> eth_wf dev' \<and> ed_started dev' = ed_started dev \<and>
     ed_promiscuous dev' = ed_promiscuous dev \<and> ed_state dev' \<in> {ed_state dev, RTE_ETH_DEV_REMOVED} \<and>
     (if r = 0
      then \<not> ed_started dev \<and> ed_conf dev' = conf_clamped conf \<and>
           (ed_nb_rx_queues dev', ed_nb_tx_queues dev') = requested_queues (rte_eth_dev_info_get ops (dev\<lparr>ed_conf := conf\<rparr>)) rx tx \<and>
           kept_queues (ed_rx_queues dev) (ed_nb_rx_queues dev') (ed_rx_queues dev') \<and>
           kept_queues (ed_tx_queues dev) (ed_nb_tx_queues dev') (ed_tx_queues dev')
      else ed_conf dev' = ed_conf dev \<and> (ed_started dev \<longrightarrow> dev' = dev))"
proof (cases "op_dev_infos_get ops = None \<or> op_dev_configure ops = None \<or> ed_started dev")
  case True
  then have "\<exists>r. r \<noteq> 0 \<and> configure_dev ops alloc rx tx conf dev = Some (r, dev)"
    by (auto simp: configure_dev_def split: option.splits)
  then show ?thesis using wf by auto
next
  case False
  then obtain f g where fg: "op_dev_infos_get ops = Some f" "op_dev_configure ops = Some g" "\<not> ed_started dev" by auto
  let ?info = "rte_eth_dev_info_get ops (dev\<lparr>ed_conf := conf\<rparr>)"
  obtain nrx ntx where n: "requested_queues ?info rx tx = (nrx, ntx)" by fastforce
  show ?thesis
  proof (cases "conf_refused ?info (ed_flags dev) nrx ntx conf")
    case True
    then show ?thesis using fg wf n by (simp add: configure_dev_def Let_def)
  next
    case ok: False
    have wf1: "eth_wf (dev\<lparr>ed_conf := conf_clamped conf\<rparr>)" using wf by simp
    obtain r1 d1 where 1: "queues_config ops alloc nrx ntx (dev\<lparr>ed_conf := conf_clamped conf\<rparr>) = Some (r1, d1)" "eth_wf d1"
      "rest_frame (dev\<lparr>ed_conf := conf_clamped conf\<rparr>) d1"
      "r1 = 0 \<longrightarrow> ed_nb_rx_queues d1 = nrx \<and> ed_nb_tx_queues d1 = ntx \<and>
        kept_queues (ed_rx_queues dev) nrx (ed_rx_queues d1) \<and> kept_queues (ed_tx_queues dev) ntx (ed_tx_queues d1)"
      using queues_config_ok [OF wf1 requested_max [OF ok], of ops alloc] by auto
    have d1: "ed_conf d1 = conf_clamped conf" "ed_started d1 = ed_started dev" "ed_state d1 = ed_state dev" "ed_promiscuous d1 = ed_promiscuous dev"
      using 1(3) by (auto simp: rest_frame_def)
    obtain r2 d2 where 2: "g d1 = (r2, d2)" by fastforce
    have d2: "dev_frame d1 d2" using configure_frame [OF fg(2), of d1] 2 by simp
    have wf2: "eth_wf d2" using dev_frame_wf [OF d2] 1(2) by simp
    obtain r3 d3 where 3: "rte_eth_dev_rx_queue_config ops True 0 d2 = Some (r3, d3)" "eth_wf d3" "rest_frame d2 d3"
      using rx_config_ok [OF wf2 zero_queues] by blast
    obtain r4 d4 where 4: "rte_eth_dev_tx_queue_config ops True 0 d3 = Some (r4, d4)" "eth_wf d4" "rest_frame d3 d4"
      using tx_config_ok [OF 3(2) zero_queues] by blast
    obtain r5 s where 5: "eth_err ops (r2, d4) = (r5, d4\<lparr>ed_state := s\<rparr>)" "r5 = 0 \<longleftrightarrow> r2 = 0" "s = ed_state d4 \<or> s = RTE_ETH_DEV_REMOVED"
      using eth_err_frame [of ops r2 d4] by blast
    show ?thesis
    proof (cases "r1 = 0")
      case r1: True
      show ?thesis
      proof (cases "r2 = 0")
        case True
        then show ?thesis using fg ok n 1 2 r1 d1 d2 wf2 by (simp add: configure_dev_def Let_def dev_frame_def)
      next
        case False
        then show ?thesis using fg ok n 1 2 3 4 5 r1 d1 d2 by (simp add: configure_dev_def Let_def dev_frame_def rest_frame_def)
      qed
    next
      case False
      then show ?thesis using fg ok n 1 d1 by (simp add: configure_dev_def Let_def)
    qed
  qed
qed

end
context eth_driver
begin

lemma rx_setup_total:
  assumes wf: "eth_wf dev"
  shows "\<exists>r dev'. rx_queue_setup_dev ops i n s c mp dev = Some (r, dev') \<and> eth_wf dev' \<and> rx_changed i dev dev' \<and>
     (r = 0 \<longrightarrow> i < ed_nb_rx_queues dev \<and> queue_ptr (ed_rx_queues dev') (unat i) \<noteq> None)"
proof (cases "i < ed_nb_rx_queues dev \<and> op_dev_infos_get ops \<noteq> None \<and> op_rx_queue_setup ops \<noteq> None")
  case False
  then have "\<exists>r. r \<noteq> 0 \<and> rx_queue_setup_dev ops i n s c mp dev = Some (r, dev)"
    by (auto simp: rx_queue_setup_dev_def split: option.splits)
  then show ?thesis using wf by auto
next
  case True
  then obtain f g where fg: "i < ed_nb_rx_queues dev" "op_dev_infos_get ops = Some f" "op_rx_queue_setup ops = Some g" by auto
  let ?info = "rte_eth_dev_info_get ops dev" let ?n = "requested_desc n (di_default_rxportconf (rte_eth_dev_info_get ops dev)) RTE_ETH_DEV_FALLBACK_RX_RINGSIZE"
  obtain xs where xs: "ed_rx_queues dev = Some xs" "unat i < length xs"
    using queue_present fg(1) wf unfolding eth_wf_def by metis
  have st: "unat i < length (ed_rx_queue_state dev)"
    using fg(1) wf by (simp add: eth_wf_def word_less_nat_alt word_le_nat_alt)
  have al: "nb_align (di_rx_desc_lim ?info) \<noteq> 0" using info_descs by blast
  obtain b1 where b1: "desc_refused ?n (di_rx_desc_lim ?info) = Some b1" using desc_refused_total [OF al] by blast
  obtain b2 where b2: "queue_busy (ed_started dev) (di_dev_capa ?info AND RTE_ETH_DEV_CAPA_RUNTIME_RX_QUEUE_SETUP) (ed_rx_queue_state dev) i = Some b2"
    using queue_busy_ok [OF st] by blast
  let ?c = "case c of None \<Rightarrow> di_default_rxconf ?info | Some c \<Rightarrow> c"
  let ?l = "?c\<lparr>rxc_offloads := rxc_offloads ?c AND NOT (cf_rx_offloads (ed_conf dev))\<rparr>"
  have ge: "\<not> ed_nb_rx_queues dev \<le> i" using fg(1) by (simp add: not_le)
  note def = rx_queue_setup_dev_def fg(2,3) ge b1 b2 Let_def
  show ?thesis
  proof (cases "rp_private_data_size mp < sizeof_pktmbuf_pool_private \<or> pool_refused (rp_data_room mp) ?info \<or> b1 \<or> b2 \<or>
      queue_drop (op_rx_queue_release ops) i (ed_rx_queues dev, ed_private dev) = Some None")
    case True
    have "\<exists>r. r \<noteq> 0 \<and> rx_queue_setup_dev ops i n s c mp dev = Some (r, dev)"
    proof (intro exI conjI)
      show "rx_queue_setup_dev ops i n s c mp dev =
          Some (if rp_private_data_size mp < sizeof_pktmbuf_pool_private then - ENOSPC
                else if pool_refused (rp_data_room mp) ?info \<or> b1 then - EINVAL else if b2 then - EBUSY else - ENOTSUP, dev)"
        (is "_ = Some (?r, dev)")
      proof -
        consider (a) "rp_private_data_size mp < sizeof_pktmbuf_pool_private"
          | (b) "\<not> rp_private_data_size mp < sizeof_pktmbuf_pool_private" "pool_refused (rp_data_room mp) ?info"
          | (c) "\<not> rp_private_data_size mp < sizeof_pktmbuf_pool_private" "\<not> pool_refused (rp_data_room mp) ?info" "b1"
          | (d) "\<not> rp_private_data_size mp < sizeof_pktmbuf_pool_private" "\<not> pool_refused (rp_data_room mp) ?info" "\<not> b1" "b2"
          | (e) "\<not> rp_private_data_size mp < sizeof_pktmbuf_pool_private" "\<not> pool_refused (rp_data_room mp) ?info" "\<not> b1" "\<not> b2"
              "queue_drop (op_rx_queue_release ops) i (ed_rx_queues dev, ed_private dev) = Some None"
          using True by blast
        then show ?thesis by cases (simp_all add: def)
      qed
      show "?r \<noteq> 0" by simp
    qed
    then show ?thesis using wf by auto
  next
    case ok: False
    then obtain d where d: "queue_drop (op_rx_queue_release ops) i (ed_rx_queues dev, ed_private dev) = Some (Some (Some (xs[unat i := None]), d))"
      using queue_drop_ok [OF xs, of "op_rx_queue_release ops" "ed_private dev"] by (elim disjE exE) simp_all
    let ?dev = "dev\<lparr>ed_rx_queues := Some (xs[unat i := None]), ed_private := d\<rparr>"
    have wf1: "eth_wf ?dev" by (rule wf_rx_update [OF wf xs(1)]) simp
    show ?thesis
    proof (cases "rxc_offloads ?l AND di_rx_queue_offload_capa ?info \<noteq> rxc_offloads ?l")
      case True
      then have "rx_queue_setup_dev ops i n s c mp dev = Some (- EINVAL, ?dev)" using ok fg(1) d by (simp add: def)
      then show ?thesis using wf1 xs by (simp add: rx_changed_def queue_ptr_update)
    next
      case False
      obtain r p e where e: "g ?dev i ?n s ?l (rp_addr mp) = Some (r, e)" "r = 0 \<longrightarrow> p \<noteq> None"
          "dev_frame (?dev\<lparr>ed_rx_queues := Some (xs[unat i := None, unat i := p])\<rparr>) e"
        using rx_setup [OF fg(3), of ?dev "xs[unat i := None]" i ?n s ?l "rp_addr mp"] xs(2) by auto
      obtain m where m: "(if r = 0 \<and> (ed_min_rx_buf_size e = 0 \<or> ed_min_rx_buf_size e > ucast (rp_data_room mp))
          then e\<lparr>ed_min_rx_buf_size := ucast (rp_data_room mp)\<rparr> else e) = e\<lparr>ed_min_rx_buf_size := m\<rparr>"
        by (cases "r = 0 \<and> (ed_min_rx_buf_size e = 0 \<or> ed_min_rx_buf_size e > ucast (rp_data_room mp))") (auto intro: that [of "ed_min_rx_buf_size e"])
      obtain r' s' where s': "eth_err ops (r, e\<lparr>ed_min_rx_buf_size := m\<rparr>) = (r', (e\<lparr>ed_min_rx_buf_size := m\<rparr>)\<lparr>ed_state := s'\<rparr>)" "r' = 0 \<longleftrightarrow> r = 0"
          "s' = ed_state e \<or> s' = RTE_ETH_DEV_REMOVED"
        using eth_err_frame [of ops r "e\<lparr>ed_min_rx_buf_size := m\<rparr>"] by auto
      have res: "rx_queue_setup_dev ops i n s c mp dev = Some (r', (e\<lparr>ed_min_rx_buf_size := m\<rparr>)\<lparr>ed_state := s'\<rparr>)"
        using ok fg(1) d False e(1) by (simp add: def m s'(1))
      have "eth_wf (?dev\<lparr>ed_rx_queues := Some (xs[unat i := None, unat i := p])\<rparr>)" using wf1 xs by (simp add: eth_wf_def queues_ok_def)
      then have "eth_wf e" using dev_frame_wf [OF e(3)] by simp
      then have "eth_wf ((e\<lparr>ed_min_rx_buf_size := m\<rparr>)\<lparr>ed_state := s'\<rparr>)" by (simp add: eth_wf_def)
      moreover have "rx_changed i dev ((e\<lparr>ed_min_rx_buf_size := m\<rparr>)\<lparr>ed_state := s'\<rparr>)"
        using e(3) s'(3) xs by (auto simp: rx_changed_def dev_frame_def queue_ptr_update)
      moreover have "r' = 0 \<longrightarrow> queue_ptr (ed_rx_queues e) (unat i) \<noteq> None"
        using e(2,3) s'(2) xs(2) by (simp add: dev_frame_def queue_ptr_update)
      ultimately show ?thesis unfolding res using fg(1) by simp
    qed
  qed
qed

lemma tx_setup_total:
  assumes wf: "eth_wf dev"
  shows "\<exists>r dev'. tx_queue_setup_dev ops i n s c dev = Some (r, dev') \<and> eth_wf dev' \<and> tx_changed i dev dev' \<and>
     (r = 0 \<longrightarrow> i < ed_nb_tx_queues dev \<and> queue_ptr (ed_tx_queues dev') (unat i) \<noteq> None)"
proof (cases "i < ed_nb_tx_queues dev \<and> op_dev_infos_get ops \<noteq> None \<and> op_tx_queue_setup ops \<noteq> None")
  case False
  then have "\<exists>r. r \<noteq> 0 \<and> tx_queue_setup_dev ops i n s c dev = Some (r, dev)"
    by (auto simp: tx_queue_setup_dev_def split: option.splits)
  then show ?thesis using wf by auto
next
  case True
  then obtain f g where fg: "i < ed_nb_tx_queues dev" "op_dev_infos_get ops = Some f" "op_tx_queue_setup ops = Some g" by auto
  let ?info = "rte_eth_dev_info_get ops dev" let ?n = "requested_desc n (di_default_txportconf (rte_eth_dev_info_get ops dev)) RTE_ETH_DEV_FALLBACK_TX_RINGSIZE"
  obtain xs where xs: "ed_tx_queues dev = Some xs" "unat i < length xs"
    using queue_present fg(1) wf unfolding eth_wf_def by metis
  have st: "unat i < length (ed_tx_queue_state dev)"
    using fg(1) wf by (simp add: eth_wf_def word_less_nat_alt word_le_nat_alt)
  have al: "nb_align (di_tx_desc_lim ?info) \<noteq> 0" using info_descs by blast
  obtain b1 where b1: "desc_refused ?n (di_tx_desc_lim ?info) = Some b1" using desc_refused_total [OF al] by blast
  obtain b2 where b2: "queue_busy (ed_started dev) (di_dev_capa ?info AND RTE_ETH_DEV_CAPA_RUNTIME_TX_QUEUE_SETUP) (ed_tx_queue_state dev) i = Some b2"
    using queue_busy_ok [OF st] by blast
  let ?c = "case c of None \<Rightarrow> di_default_txconf ?info | Some c \<Rightarrow> c"
  let ?l = "?c\<lparr>txc_offloads := txc_offloads ?c AND NOT (cf_tx_offloads (ed_conf dev))\<rparr>"
  have ge: "\<not> ed_nb_tx_queues dev \<le> i" using fg(1) by (simp add: not_le)
  note def = tx_queue_setup_dev_def fg(2,3) ge b1 b2 Let_def
  show ?thesis
  proof (cases "b1 \<or> b2 \<or> queue_drop (op_tx_queue_release ops) i (ed_tx_queues dev, ed_private dev) = Some None")
    case True
    have "\<exists>r. r \<noteq> 0 \<and> tx_queue_setup_dev ops i n s c dev = Some (r, dev)"
    proof (intro exI conjI)
      show "tx_queue_setup_dev ops i n s c dev = Some (if b1 then - EINVAL else if b2 then - EBUSY else - ENOTSUP, dev)"
        (is "_ = Some (?r, dev)")
      proof -
        consider (c) "b1" | (d) "\<not> b1" "b2"
          | (e) "\<not> b1" "\<not> b2" "queue_drop (op_tx_queue_release ops) i (ed_tx_queues dev, ed_private dev) = Some None"
          using True by blast
        then show ?thesis by cases (simp_all add: def)
      qed
      show "?r \<noteq> 0" by simp
    qed
    then show ?thesis using wf by auto
  next
    case ok: False
    then obtain d where d: "queue_drop (op_tx_queue_release ops) i (ed_tx_queues dev, ed_private dev) = Some (Some (Some (xs[unat i := None]), d))"
      using queue_drop_ok [OF xs, of "op_tx_queue_release ops" "ed_private dev"] by (elim disjE exE) simp_all
    let ?dev = "dev\<lparr>ed_tx_queues := Some (xs[unat i := None]), ed_private := d\<rparr>"
    have wf1: "eth_wf ?dev" by (rule wf_tx_update [OF wf xs(1)]) simp
    show ?thesis
    proof (cases "txc_offloads ?l AND di_tx_queue_offload_capa ?info \<noteq> txc_offloads ?l")
      case True
      then have "tx_queue_setup_dev ops i n s c dev = Some (- EINVAL, ?dev)" using ok fg(1) d by (simp add: def)
      then show ?thesis using wf1 xs by (simp add: tx_changed_def queue_ptr_update)
    next
      case False
      obtain r p e where e: "g ?dev i ?n s ?l = Some (r, e)" "r = 0 \<longrightarrow> p \<noteq> None"
          "dev_frame (?dev\<lparr>ed_tx_queues := Some (xs[unat i := None, unat i := p])\<rparr>) e"
        using tx_setup [OF fg(3), of ?dev "xs[unat i := None]" i ?n s ?l] xs(2) by auto
      obtain r' s' where s': "eth_err ops (r, e) = (r', e\<lparr>ed_state := s'\<rparr>)" "r' = 0 \<longleftrightarrow> r = 0" "s' = ed_state e \<or> s' = RTE_ETH_DEV_REMOVED"
        using eth_err_frame [of ops r e] by auto
      have res: "tx_queue_setup_dev ops i n s c dev = Some (r', e\<lparr>ed_state := s'\<rparr>)"
        using ok fg(1) d False e(1) by (simp add: def s'(1))
      have "eth_wf (?dev\<lparr>ed_tx_queues := Some (xs[unat i := None, unat i := p])\<rparr>)" using wf1 xs by (simp add: eth_wf_def queues_ok_def)
      then have "eth_wf (e\<lparr>ed_state := s'\<rparr>)" using dev_frame_wf [OF e(3)] by simp
      moreover have "tx_changed i dev (e\<lparr>ed_state := s'\<rparr>)"
        using e(3) s'(3) xs by (auto simp: tx_changed_def dev_frame_def queue_ptr_update)
      moreover have "r' = 0 \<longrightarrow> queue_ptr (ed_tx_queues e) (unat i) \<noteq> None"
        using e(2,3) s'(2) xs(2) by (simp add: dev_frame_def queue_ptr_update)
      ultimately show ?thesis unfolding res using fg(1) by simp
    qed
  qed
qed

end
section \<open>Starting, stopping and closing\<close>

lemma restore_pools_frame:
  assumes "\<And>addr i pool dev. dev_frame dev (add addr i pool dev)"
  shows "dev_frame dev (restore_pools add addr i pool_mask pool dev)"
  using assms
proof (induction add addr i pool_mask pool dev rule: restore_pools.induct)
  case (1 add addr i pool_mask pool dev)
  let ?dev = "if pool_mask AND 1 \<noteq> 0 then add addr i pool dev else dev" let ?mask = "drop_bit 1 pool_mask"
  have f: "dev_frame dev ?dev" using 1(2) by simp
  show ?case
  proof (cases "?mask = 0")
    case True
    then have "restore_pools add addr i pool_mask pool dev = ?dev" by (subst restore_pools.simps) (simp only: Let_def if_True if_False simp_thms)
    then show ?thesis using f by simp
  next
    case False
    then have "restore_pools add addr i pool_mask pool dev = restore_pools add addr i ?mask (pool + 1) ?dev"
      by (subst restore_pools.simps) (simp only: Let_def if_True if_False simp_thms)
    moreover have "dev_frame ?dev (restore_pools add addr i ?mask (pool + 1) ?dev)" by (rule 1(1) [OF refl refl False]) (rule 1(2))
    ultimately show ?thesis using dev_frame_trans [OF f] by simp
  qed
qed

lemma restore_macs_ok:
  assumes "\<And>addr i pool dev. dev_frame dev (add addr i pool dev)" "\<forall>i \<in> set is. i < length (ed_mac_addrs dev) \<and> i < length (ed_mac_pool_sel dev)"
  shows "\<exists>dev'. restore_macs add is dev = Some dev' \<and> dev_frame dev dev'"
  using assms(2)
proof (induction "is" arbitrary: dev)
  case (Cons i "is")
  let ?addr = "ed_mac_addrs dev ! i" let ?dev = "restore_pools add (ed_mac_addrs dev ! i) (of_nat i) (ed_mac_pool_sel dev ! i) 0 dev"
  have f: "dev_frame dev ?dev" by (rule restore_pools_frame) (rule assms(1))
  then have len: "length (ed_mac_addrs ?dev) = length (ed_mac_addrs dev)" "length (ed_mac_pool_sel ?dev) = length (ed_mac_pool_sel dev)"
    by (simp_all only: dev_frame_def)
  have "\<forall>i \<in> set is. i < length (ed_mac_addrs ?dev) \<and> i < length (ed_mac_pool_sel ?dev)" unfolding len using Cons.prems by simp
  then obtain d1 where d1: "restore_macs add is ?dev = Some d1" "dev_frame ?dev d1" using Cons.IH by blast
  obtain d2 where d2: "restore_macs add is dev = Some d2" "dev_frame dev d2" using Cons by auto
  show ?case using Cons.prems d1(1) d2 dev_frame_trans [OF f d1(2)] by (simp add: Let_def)
qed simp

lemma dev_frame_promiscuous: "dev_frame dev dev' \<Longrightarrow> b = ed_promiscuous dev \<Longrightarrow> dev_frame dev (dev'\<lparr>ed_promiscuous := b\<rparr>)"
  by (simp add: dev_frame_def)

lemma dev_frame_all_multicast [simp]: "dev_frame dev (dev'\<lparr>ed_all_multicast := b\<rparr>) = dev_frame dev dev'" "dev_frame (dev\<lparr>ed_all_multicast := b\<rparr>) dev' = dev_frame dev dev'"
  by (simp_all add: dev_frame_def)

context eth_driver
begin

lemma mac_restore_ok:
  assumes "eth_wf dev" "eth_wf dev0" "length (ed_mac_addrs dev) = length (ed_mac_addrs dev0)"
  shows "\<exists>dev'. rte_eth_dev_mac_restore ops (rte_eth_dev_info_get ops dev0) dev = Some dev' \<and> dev_frame dev dev'"
proof -
  let ?info = "rte_eth_dev_info_get ops dev0"
  have len: "ed_mac_addrs dev \<noteq> []" "length (ed_mac_pool_sel dev) = 128" using assms(1) by (auto simp: eth_wf_def)
  have max: "unat (di_max_mac_addrs ?info) \<le> min 128 (length (ed_mac_addrs dev))"
    using info_macs [of _ dev0] assms(2,3) by (auto simp: rte_eth_dev_info_get_def info_zero_def Let_def split: option.splits)
  let ?d = "case op_mac_addr_set ops of Some f \<Rightarrow> snd (f dev (ed_mac_addrs dev ! 0))
                | None \<Rightarrow> (case op_mac_addr_add ops of Some f \<Rightarrow> snd (f dev (ed_mac_addrs dev ! 0) 0 0) | None \<Rightarrow> dev)"
  have d: "dev_frame dev ?d" by (auto split: option.splits intro: mac_addr_set_frame mac_addr_add_frame)
  show ?thesis
  proof (cases "op_mac_addr_add ops")
    case None
    then show ?thesis using len d by (simp add: rte_eth_dev_mac_restore_def Let_def)
  next
    case (Some f)
    let ?add = "\<lambda>addr i pool dev. snd (f dev addr i pool)"
    have "\<exists>dev'. restore_macs ?add [1..<unat (di_max_mac_addrs ?info)] ?d = Some dev' \<and> dev_frame ?d dev'"
      by (rule restore_macs_ok) (use mac_addr_add_frame [OF Some] max len d in \<open>auto simp: dev_frame_def\<close>)
    then obtain d2 where d2: "restore_macs ?add [1..<unat (di_max_mac_addrs ?info)] ?d = Some d2" "dev_frame ?d d2" by blast
    have "unat (di_max_mac_addrs ?info) < 65536" using max by simp
    then have "rte_eth_dev_mac_restore ops ?info dev = Some d2" using d2(1) len(1) Some by (simp add: rte_eth_dev_mac_restore_def Let_def)
    then show ?thesis using d d2(2) dev_frame_trans by blast
  qed
qed

lemma promiscuous_replay_frame:
  "dev_frame dev (if ed_promiscuous dev then promiscuous_enable_dev ops dev else promiscuous_disable_dev ops dev)"
proof (cases "ed_promiscuous dev")
  case True
  then show ?thesis using promiscuous_enable_frame [of _ dev]
    by (auto simp: promiscuous_enable_dev_def dev_frame_def split: option.splits)
next
  case False
  then have same: "dev\<lparr>ed_promiscuous := False\<rparr> = dev" by simp
  show ?thesis using False promiscuous_disable_frame [of _ dev]
    by (auto simp del: eth_dev.update_convs simp: same promiscuous_disable_dev_def split: option.splits)
qed

lemma allmulticast_replay_frame:
  "dev_frame dev (if ed_all_multicast dev then allmulticast_enable_dev ops dev else allmulticast_disable_dev ops dev)"
proof (cases "ed_all_multicast dev")
  case True
  then show ?thesis using allmulticast_enable_frame [of _ dev]
    by (auto simp: allmulticast_enable_dev_def split: option.splits)
next
  case False
  then have same: "dev\<lparr>ed_all_multicast := False\<rparr> = dev" by simp
  show ?thesis using False allmulticast_disable_frame [of _ dev]
    by (auto simp del: eth_dev.update_convs simp: same allmulticast_disable_dev_def split: option.splits)
qed

lemma config_restore_ok:
  assumes "eth_wf dev" "eth_wf dev0" "op_dev_infos_get ops \<noteq> None" "dev_frame (dev0\<lparr>ed_started := b\<rparr>) dev"
  shows "\<exists>dev'. rte_eth_dev_config_restore ops (rte_eth_dev_info_get ops dev0) dev = Some dev' \<and> dev_frame dev dev'"
proof -
  let ?info = "rte_eth_dev_info_get ops dev0"
  have fl: "info_flags ?info dev = Some (ed_flags dev)" using assms(3) by (auto simp: info_flags_def rte_eth_dev_info_get_def Let_def)
  have "\<exists>d. (if ed_flags dev AND RTE_ETH_DEV_NOLIVE_MAC_ADDR = 0 then rte_eth_dev_mac_restore ops ?info dev else Some dev) = Some d \<and> dev_frame dev d"
    using mac_restore_ok [of dev dev0] assms(1,2,4) by (simp add: dev_frame_def)
  then obtain d where d: "(if ed_flags dev AND RTE_ETH_DEV_NOLIVE_MAC_ADDR = 0 then rte_eth_dev_mac_restore ops ?info dev else Some dev) = Some d" "dev_frame dev d"
    by blast
  let ?p = "if ed_promiscuous d then promiscuous_enable_dev ops d else promiscuous_disable_dev ops d"
  let ?m = "if ed_all_multicast ?p then allmulticast_enable_dev ops ?p else allmulticast_disable_dev ops ?p"
  have "dev_frame d ?p" by (rule promiscuous_replay_frame)
  moreover have "dev_frame ?p ?m" by (rule allmulticast_replay_frame)
  ultimately have "dev_frame dev ?m" using d(2) dev_frame_trans by blast
  then show ?thesis unfolding rte_eth_dev_config_restore_def fl using d(1) by (simp add: Let_def)
qed

end
text \<open>What starting and stopping keep: the configuration and the queues.\<close>

definition port_kept :: "('d, 'q) eth_dev \<Rightarrow> ('d, 'q) eth_dev \<Rightarrow> bool" where
  "port_kept dev dev' \<longleftrightarrow> ed_rx_queues dev' = ed_rx_queues dev \<and> ed_tx_queues dev' = ed_tx_queues dev \<and>
     ed_nb_rx_queues dev' = ed_nb_rx_queues dev \<and> ed_nb_tx_queues dev' = ed_nb_tx_queues dev \<and> ed_conf dev' = ed_conf dev \<and>
     ed_state dev' \<in> {ed_state dev, RTE_ETH_DEV_REMOVED}"

lemma port_kept_refl [simp]: "port_kept dev dev"
  by (simp add: port_kept_def)

lemma dev_frame_kept: "dev_frame dev dev' \<Longrightarrow> port_kept dev dev'"
  by (simp add: dev_frame_def port_kept_def)

context eth_driver
begin

lemma start_total:
  assumes wf: "eth_wf dev"
  shows "\<exists>r dev'. start_dev ops dev = Some (r, dev') \<and> eth_wf dev' \<and> port_kept dev dev' \<and> ed_promiscuous dev' = ed_promiscuous dev \<and>
     (r = 0 \<longrightarrow> ed_started dev')"
proof (cases "op_dev_start ops = None \<or> ed_started dev")
  case True
  then have "\<exists>r. start_dev ops dev = Some (r, dev) \<and> (r = 0 \<longrightarrow> ed_started dev)" by (auto simp: start_dev_def split: option.splits)
  then show ?thesis using wf by auto
next
  case False
  then obtain g where g: "op_dev_start ops = Some g" "\<not> ed_started dev" by auto
  let ?info = "rte_eth_dev_info_get ops dev"
  have fl: "info_flags ?info dev = Some (ed_flags dev)" using infos by (auto simp: info_flags_def rte_eth_dev_info_get_def Let_def)
  have "\<exists>d. (if ed_flags dev AND RTE_ETH_DEV_NOLIVE_MAC_ADDR \<noteq> 0 then rte_eth_dev_mac_restore ops ?info dev else Some dev) = Some d \<and> dev_frame dev d"
    using mac_restore_ok [OF wf wf refl] by simp
  then obtain d1 where d1: "(if ed_flags dev AND RTE_ETH_DEV_NOLIVE_MAC_ADDR \<noteq> 0 then rte_eth_dev_mac_restore ops ?info dev else Some dev) = Some d1"
    "dev_frame dev d1" by blast
  obtain r2 d2 where d2: "g d1 = (r2, d2)" by fastforce
  have "dev_frame d1 d2" using start_frame [OF g(1), of d1] d2 by simp
  then have f2: "dev_frame dev d2" using d1(2) dev_frame_trans by blast
  then have wf2: "eth_wf d2" using dev_frame_wf wf by blast
  have k2: "port_kept dev d2" "ed_promiscuous d2 = ed_promiscuous dev" using f2 by (auto simp: dev_frame_def port_kept_def)
  show ?thesis
  proof (cases "r2 = 0")
    case False
    obtain r' s where e: "eth_err ops (r2, d2) = (r', d2\<lparr>ed_state := s\<rparr>)" "r' = 0 \<longleftrightarrow> r2 = 0" "s = ed_state d2 \<or> s = RTE_ETH_DEV_REMOVED"
      using eth_err_frame [of ops r2 d2] by blast
    have "start_dev ops dev = Some (r', d2\<lparr>ed_state := s\<rparr>)" unfolding start_dev_def using g d1(1) d2 False e(1) by (simp add: Let_def fl)
    then show ?thesis using wf2 k2 e False by (auto simp: port_kept_def)
  next
    case True
    let ?d = "d2\<lparr>ed_started := True\<rparr>"
    have "dev_frame (dev\<lparr>ed_started := True\<rparr>) ?d" using f2 by (simp add: dev_frame_def)
    then obtain d3 where d3: "rte_eth_dev_config_restore ops ?info ?d = Some d3" "dev_frame ?d d3"
      using config_restore_ok [of ?d dev True] wf2 wf infos by auto
    have wf3: "eth_wf d3" using dev_frame_wf [OF d3(2)] wf2 by simp
    have k3: "port_kept dev d3" "ed_promiscuous d3 = ed_promiscuous dev" "ed_started d3" using f2 d3(2) by (auto simp: dev_frame_def port_kept_def)
    have res: "start_dev ops dev = (if cf_lsc (ed_conf d3) then Some (0, d3)
        else case op_link_update ops of None \<Rightarrow> Some (- ENOTSUP, d3) | Some f \<Rightarrow> Some (0, snd (f d3)))"
      unfolding start_dev_def using g d1(1) d2 True d3(1) by (simp add: Let_def fl)
    show ?thesis
    proof (cases "op_link_update ops")
      case None
      then show ?thesis unfolding res using wf3 k3 by simp
    next
      case (Some f)
      have l: "dev_frame d3 (snd (f d3))" by (rule link_update_frame [OF Some])
      then have "eth_wf (snd (f d3))" "port_kept dev (snd (f d3))" "ed_promiscuous (snd (f d3)) = ed_promiscuous dev" "ed_started (snd (f d3))"
        using dev_frame_wf [OF l] wf3 k3 by (auto simp: dev_frame_def port_kept_def)
      then show ?thesis unfolding res using Some wf3 k3 by simp
    qed
  qed
qed

lemma stop_wf: "eth_wf dev \<Longrightarrow> eth_wf (stop_dev ops dev) \<and> port_kept dev (stop_dev ops dev) \<and> (op_dev_stop ops \<noteq> None \<longrightarrow> \<not> ed_started (stop_dev ops dev))"
  using stop_frame [of _ "dev\<lparr>ed_started := False\<rparr>"] dev_frame_wf [of "dev\<lparr>ed_started := False\<rparr>"]
  by (auto simp: stop_dev_def dev_frame_def port_kept_def split: option.splits)

lemma promiscuous_wf:
  assumes "eth_wf dev"
  shows "eth_wf (promiscuous_enable_dev ops dev) \<and> port_kept dev (promiscuous_enable_dev ops dev)"
    "eth_wf (promiscuous_disable_dev ops dev) \<and> port_kept dev (promiscuous_disable_dev ops dev)"
proof -
  show "eth_wf (promiscuous_enable_dev ops dev) \<and> port_kept dev (promiscuous_enable_dev ops dev)"
  proof (cases "op_promiscuous_enable ops")
    case (Some f)
    note fr = promiscuous_enable_frame [OF Some, of dev]
    show ?thesis using Some dev_frame_wf [OF fr] assms dev_frame_kept [OF fr] by (simp add: promiscuous_enable_dev_def port_kept_def)
  qed (simp add: promiscuous_enable_dev_def assms)
  show "eth_wf (promiscuous_disable_dev ops dev) \<and> port_kept dev (promiscuous_disable_dev ops dev)"
  proof (cases "op_promiscuous_disable ops")
    case (Some f)
    note fr = promiscuous_disable_frame [OF Some, of "dev\<lparr>ed_promiscuous := False\<rparr>"]
    show ?thesis using Some dev_frame_wf [OF fr] assms dev_frame_kept [OF fr] by (simp add: promiscuous_disable_dev_def port_kept_def)
  qed (simp add: promiscuous_disable_dev_def assms)
qed

lemma close_wf:
  assumes "eth_wf dev"
  shows "ed_state (close_dev nil ops dev) = RTE_ETH_DEV_UNUSED \<or> eth_wf (close_dev nil ops dev)"
proof (cases "op_dev_close ops")
  case (Some f)
  have "dev_frame (dev\<lparr>ed_started := False\<rparr>) (f (dev\<lparr>ed_started := False\<rparr>))" by (rule close_frame [OF Some])
  then have "eth_wf (f (dev\<lparr>ed_started := False\<rparr>))" using dev_frame_wf assms wf_started by blast
  then show ?thesis by (auto simp: close_dev_def Let_def Some rte_eth_dev_release_port_def eth_wf_def queues_ok_def)
qed (simp add: close_dev_def assms)

end
text \<open>
  Two failures that the layer does not undo: without memory for a smaller array, queues that were released stay in the old one, to be released again by the
  next configuration; and without \<open>dev_infos_get\<close> the start reads the flags through NULL.
\<close>

lemma failed_shrink_keeps_released:
  assumes "length xs = unat n" "nb < n" "nb \<noteq> 0"
  shows "queue_array_config (Some rel) False nb (Some xs, n, d) = Some (- ENOMEM, Some xs, n, fold rel (drop (unat nb) xs) d)"
  using assms by (simp add: queue_array_config_def)

lemma start_without_info:
  assumes "op_dev_infos_get ops = None" "op_dev_start ops = Some g" "\<not> ed_started dev"
  shows "start_dev ops dev = None"
  using assms by (simp add: start_dev_def rte_eth_dev_info_get_def info_flags_def info_zero_def Let_def)

section \<open>Sequences of calls\<close>

definition ports_wf :: "('d, 'q) eth_dev list \<Rightarrow> bool" where
  "ports_wf devs \<longleftrightarrow> length devs = RTE_MAX_ETHPORTS \<and> (\<forall>dev \<in> set devs. ed_state dev = RTE_ETH_DEV_UNUSED \<or> eth_wf dev)"

datatype eth_api =
  Api_configure "bool \<times> bool" u16 u16 u16 eth_conf
| Api_rx_queue_setup u16 u16 u16 u32 "eth_rxconf option" rx_pool
| Api_tx_queue_setup u16 u16 u16 u32 "eth_txconf option"
| Api_start u16
| Api_stop u16
| Api_close u16
| Api_promiscuous_enable u16
| Api_promiscuous_disable u16

text \<open>The calls without a result answer 0 here. \<open>nil\<close> is the driver's data of a port that is released.\<close>

fun api_call :: "'d \<Rightarrow> (u16 \<Rightarrow> ('d, 'q) eth_dev_ops) \<Rightarrow> eth_api \<Rightarrow> ('d, 'q) eth_dev list \<Rightarrow> (c_int \<times> ('d, 'q) eth_dev list) option" where
  "api_call nil ops (Api_configure alloc p rx tx conf) devs = rte_eth_dev_configure ops alloc p rx tx conf devs"
| "api_call nil ops (Api_rx_queue_setup p i n s c mp) devs = rte_eth_rx_queue_setup ops p i n s c mp devs"
| "api_call nil ops (Api_tx_queue_setup p i n s c) devs = rte_eth_tx_queue_setup ops p i n s c devs"
| "api_call nil ops (Api_start p) devs = rte_eth_dev_start ops p devs"
| "api_call nil ops (Api_stop p) devs = map_option (\<lambda>(_, devs). (0, devs)) (rte_eth_dev_stop ops p devs)"
| "api_call nil ops (Api_close p) devs = map_option (\<lambda>(_, devs). (0, devs)) (rte_eth_dev_close nil ops p devs)"
| "api_call nil ops (Api_promiscuous_enable p) devs = map_option (\<lambda>(_, devs). (0, devs)) (rte_eth_promiscuous_enable ops p devs)"
| "api_call nil ops (Api_promiscuous_disable p) devs = map_option (\<lambda>(_, devs). (0, devs)) (rte_eth_promiscuous_disable ops p devs)"

fun api_calls :: "'d \<Rightarrow> (u16 \<Rightarrow> ('d, 'q) eth_dev_ops) \<Rightarrow> eth_api list \<Rightarrow> ('d, 'q) eth_dev list \<Rightarrow> (c_int list \<times> ('d, 'q) eth_dev list) option" where
  "api_calls nil ops [] devs = Some ([], devs)"
| "api_calls nil ops (c # cs) devs = do {
     (r, devs) \<leftarrow> api_call nil ops c devs;
     (rs, devs) \<leftarrow> api_calls nil ops cs devs;
     Some (r # rs, devs) }"

lemma valid_port_wf:
  assumes "ports_wf devs" "rte_eth_dev_is_valid_port devs p"
  shows "eth_wf (devs ! unat p)" "unat p < length devs"
  using assms by (auto simp: ports_wf_def rte_eth_dev_is_valid_port_def not_le)

lemma on_port_ok:
  assumes wf: "ports_wf devs"
    and f: "eth_wf (devs ! unat p) \<Longrightarrow> \<exists>r dev. f (devs ! unat p) = Some (r, dev) \<and> (ed_state dev = RTE_ETH_DEV_UNUSED \<or> eth_wf dev)"
  shows "\<exists>r devs'. on_port err p f devs = Some (r, devs') \<and> ports_wf devs'"
proof (cases "rte_eth_dev_is_valid_port devs p")
  case True
  obtain r dev where d: "f (devs ! unat p) = Some (r, dev)" "ed_state dev = RTE_ETH_DEV_UNUSED \<or> eth_wf dev"
    using f [OF valid_port_wf(1) [OF wf True]] by blast
  have "ports_wf (devs[unat p := dev])" using wf d(2) set_update_subset_insert [of devs "unat p" dev] unfolding ports_wf_def by auto
  then show ?thesis using True d(1) by (simp add: on_port_def)
next
  case False
  then show ?thesis using wf by (simp add: on_port_def)
qed

lemma api_call_ok:
  assumes drv: "\<And>p. eth_driver (ops p)" and wf: "ports_wf devs"
  shows "\<exists>r devs'. api_call nil ops c devs = Some (r, devs') \<and> ports_wf devs'"
proof (cases c)
  case (Api_configure alloc p rx tx conf)
  have "\<exists>r dev. configure_dev (ops p) alloc rx tx conf (devs ! unat p) = Some (r, dev) \<and> (ed_state dev = RTE_ETH_DEV_UNUSED \<or> eth_wf dev)"
    if "eth_wf (devs ! unat p)"
    using eth_driver.configure_total [OF drv that, of p alloc rx tx conf] by blast
  then show ?thesis unfolding Api_configure by (simp only: api_call.simps rte_eth_dev_configure_def) (rule on_port_ok [OF wf])
next
  case (Api_rx_queue_setup p i n s c mp)
  have "\<exists>r dev. rx_queue_setup_dev (ops p) i n s c mp (devs ! unat p) = Some (r, dev) \<and> (ed_state dev = RTE_ETH_DEV_UNUSED \<or> eth_wf dev)"
    if "eth_wf (devs ! unat p)"
    using eth_driver.rx_setup_total [OF drv that, of p i n s c mp] by blast
  then show ?thesis unfolding Api_rx_queue_setup by (simp only: api_call.simps rte_eth_rx_queue_setup_def) (rule on_port_ok [OF wf])
next
  case (Api_tx_queue_setup p i n s c)
  have "\<exists>r dev. tx_queue_setup_dev (ops p) i n s c (devs ! unat p) = Some (r, dev) \<and> (ed_state dev = RTE_ETH_DEV_UNUSED \<or> eth_wf dev)"
    if "eth_wf (devs ! unat p)"
    using eth_driver.tx_setup_total [OF drv that, of p i n s c] by blast
  then show ?thesis unfolding Api_tx_queue_setup by (simp only: api_call.simps rte_eth_tx_queue_setup_def) (rule on_port_ok [OF wf])
next
  case (Api_start p)
  have "\<exists>r dev. start_dev (ops p) (devs ! unat p) = Some (r, dev) \<and> (ed_state dev = RTE_ETH_DEV_UNUSED \<or> eth_wf dev)" if "eth_wf (devs ! unat p)"
    using eth_driver.start_total [OF drv that, of p] by blast
  then show ?thesis unfolding Api_start by (simp only: api_call.simps rte_eth_dev_start_def) (rule on_port_ok [OF wf])
next
  case (Api_stop p)
  have "\<exists>r devs'. on_port () p (\<lambda>dev. Some ((), stop_dev (ops p) dev)) devs = Some (r, devs') \<and> ports_wf devs'"
    by (rule on_port_ok [OF wf]) (simp add: eth_driver.stop_wf [OF drv])
  then show ?thesis unfolding Api_stop by (auto simp: rte_eth_dev_stop_def)
next
  case (Api_close p)
  have "\<exists>r devs'. on_port () p (\<lambda>dev. Some ((), close_dev nil (ops p) dev)) devs = Some (r, devs') \<and> ports_wf devs'"
    by (rule on_port_ok [OF wf]) (simp add: eth_driver.close_wf [OF drv])
  then show ?thesis unfolding Api_close by (auto simp: rte_eth_dev_close_def)
next
  case (Api_promiscuous_enable p)
  have "\<exists>r devs'. on_port () p (\<lambda>dev. Some ((), promiscuous_enable_dev (ops p) dev)) devs = Some (r, devs') \<and> ports_wf devs'"
    by (rule on_port_ok [OF wf]) (simp add: eth_driver.promiscuous_wf [OF drv])
  then show ?thesis unfolding Api_promiscuous_enable by (auto simp: rte_eth_promiscuous_enable_def)
next
  case (Api_promiscuous_disable p)
  have "\<exists>r devs'. on_port () p (\<lambda>dev. Some ((), promiscuous_disable_dev (ops p) dev)) devs = Some (r, devs') \<and> ports_wf devs'"
    by (rule on_port_ok [OF wf]) (simp add: eth_driver.promiscuous_wf [OF drv])
  then show ?thesis unfolding Api_promiscuous_disable by (auto simp: rte_eth_promiscuous_disable_def)
qed

lemma api_calls_ok:
  assumes drv: "\<And>p. eth_driver (ops p)" and wf: "ports_wf devs"
  shows "\<exists>rs devs'. api_calls nil ops cs devs = Some (rs, devs') \<and> ports_wf devs' \<and> length rs = length cs"
  using wf
proof (induction cs arbitrary: devs)
  case (Cons c cs)
  obtain r d1 where 1: "api_call nil ops c devs = Some (r, d1)" "ports_wf d1" using api_call_ok [where ops = ops, OF drv Cons.prems] by blast
  then obtain rs d2 where "api_calls nil ops cs d1 = Some (rs, d2)" "ports_wf d2" "length rs = length cs" using Cons.IH by blast
  then show ?case using 1 by simp
qed simp
end
