(* ===== verification/EthRing.thy ===== *)
theory EthRing
  imports EthContract Ring
begin

text \<open>
  The driver \<open>net_ring\<close> (\<open>drivers/net/ring/rte_eth_ring.c\<close>), an Ethernet port whose queues are DPDK rings, and the burst calls of
  the device layer on it. The rings are in a heap of their own and shared with whoever else has their addresses. Reads through a NULL pointer and outside
  the driver's tables of 16 queues have no defined behaviour.
\<close>

section \<open>Bursts\<close>

text \<open>
  \<open>burst\<close> is the driver's function on a queue pointer, an array of packets and a number; \<open>cbs\<close> are the functions called
  after a receive burst and before a transmit burst, in their order.
\<close>

definition rx_callbacks :: "('o list \<Rightarrow> u16 \<Rightarrow> u16 \<Rightarrow> u16 \<times> 'o list) list \<Rightarrow> u16 \<Rightarrow> u16 \<times> 'o list \<Rightarrow> u16 \<times> 'o list" where
  "rx_callbacks cbs nb_pkts = fold (\<lambda>cb (nb_rx, pkts). cb pkts nb_rx nb_pkts) cbs"

definition tx_callbacks :: "('o list \<Rightarrow> u16 \<Rightarrow> u16 \<times> 'o list) list \<Rightarrow> u16 \<times> 'o list \<Rightarrow> u16 \<times> 'o list" where
  "tx_callbacks cbs = fold (\<lambda>cb (nb_pkts, pkts). cb pkts nb_pkts) cbs"

definition rte_eth_rx_burst ::
    "('q option \<Rightarrow> 'o list \<Rightarrow> u16 \<Rightarrow> 'd \<times> 'h \<Rightarrow> (u16 \<times> 'o list \<times> 'd \<times> 'h) option) \<Rightarrow> ('o list \<Rightarrow> u16 \<Rightarrow> u16 \<Rightarrow> u16 \<times> 'o list) list \<Rightarrow>
     u16 \<Rightarrow> 'o list \<Rightarrow> u16 \<Rightarrow> ('d, 'q) eth_dev \<times> 'h \<Rightarrow> (u16 \<times> 'o list \<times> ('d, 'q) eth_dev \<times> 'h) option" where
  "rte_eth_rx_burst burst cbs queue_id rx_pkts nb_pkts = (\<lambda>(dev, h). do {
     qs \<leftarrow> ed_rx_queues dev;
     guard (unat queue_id < length qs);
     (nb_rx, pkts, d, h) \<leftarrow> burst (qs ! unat queue_id) rx_pkts nb_pkts (ed_private dev, h);
     let (nb_rx, pkts) = rx_callbacks cbs nb_pkts (nb_rx, pkts);
     Some (nb_rx, pkts, dev\<lparr>ed_private := d\<rparr>, h) })"

definition rte_eth_tx_burst ::
    "('q option \<Rightarrow> 'o list \<Rightarrow> u16 \<Rightarrow> 'd \<times> 'h \<Rightarrow> (u16 \<times> 'd \<times> 'h) option) \<Rightarrow> ('o list \<Rightarrow> u16 \<Rightarrow> u16 \<times> 'o list) list \<Rightarrow>
     u16 \<Rightarrow> 'o list \<Rightarrow> u16 \<Rightarrow> ('d, 'q) eth_dev \<times> 'h \<Rightarrow> (u16 \<times> ('d, 'q) eth_dev \<times> 'h) option" where
  "rte_eth_tx_burst burst cbs queue_id tx_pkts nb_pkts = (\<lambda>(dev, h). do {
     let (nb_pkts, pkts) = tx_callbacks cbs (nb_pkts, tx_pkts);
     qs \<leftarrow> ed_tx_queues dev;
     guard (unat queue_id < length qs);
     (nb_tx, d, h) \<leftarrow> burst (qs ! unat queue_id) pkts nb_pkts (ed_private dev, h);
     Some (nb_tx, dev\<lparr>ed_private := d\<rparr>, h) })"

section \<open>The driver\<close>

definition RTE_PMD_RING_MAX_RX_RINGS :: nat where "RTE_PMD_RING_MAX_RX_RINGS = 16"
definition RTE_PMD_RING_MAX_TX_RINGS :: nat where "RTE_PMD_RING_MAX_TX_RINGS = 16"

datatype dev_action = DEV_CREATE | DEV_ATTACH

record ring_queue =
  rq_rng :: "nat option"
  rq_rx_pkts :: u64
  rq_tx_pkts :: u64
  rq_err_pkts :: u64

record pmd_internals =
  pi_max_rx_queues :: u32
  pi_max_tx_queues :: u32
  pi_rx_ring_queues :: "ring_queue list"
  pi_tx_ring_queues :: "ring_queue list"
  pi_action :: dev_action

text \<open>A queue pointer is the address of an entry of one of the two tables.\<close>

datatype ring_qptr = Rx_queue nat | Tx_queue nat

fun ring_queue_at :: "pmd_internals \<Rightarrow> ring_qptr \<Rightarrow> ring_queue option" where
  "ring_queue_at d (Rx_queue i) = (if i < length (pi_rx_ring_queues d) then Some (pi_rx_ring_queues d ! i) else None)"
| "ring_queue_at d (Tx_queue i) = (if i < length (pi_tx_ring_queues d) then Some (pi_tx_ring_queues d ! i) else None)"

fun ring_queue_put :: "pmd_internals \<Rightarrow> ring_qptr \<Rightarrow> ring_queue \<Rightarrow> pmd_internals" where
  "ring_queue_put d (Rx_queue i) r = d\<lparr>pi_rx_ring_queues := (pi_rx_ring_queues d)[i := r]\<rparr>"
| "ring_queue_put d (Tx_queue i) r = d\<lparr>pi_tx_ring_queues := (pi_tx_ring_queues d)[i := r]\<rparr>"

text \<open>The counters are updated atomically when other threads may use the ring's end too; the result is the same.\<close>

definition eth_ring_rx ::
    "ring_qptr option \<Rightarrow> 'o list \<Rightarrow> u16 \<Rightarrow> pmd_internals \<times> (nat \<rightharpoonup> 'o rte_ring) \<Rightarrow> (u16 \<times> 'o list \<times> pmd_internals \<times> (nat \<rightharpoonup> 'o rte_ring)) option" where
  "eth_ring_rx q bufs nb_bufs = (\<lambda>(d, h). do {
     q \<leftarrow> q;
     r \<leftarrow> ring_queue_at d q;
     a \<leftarrow> rq_rng r;
     rng \<leftarrow> h a;
     (n, available, bufs, rng) \<leftarrow> rte_ring_dequeue_burst rng bufs (ucast nb_bufs);
     let nb_rx = (ucast n :: u16);
     Some (nb_rx, bufs, ring_queue_put d q (r\<lparr>rq_rx_pkts := rq_rx_pkts r + ucast nb_rx\<rparr>), h(a \<mapsto> rng)) })"

definition eth_ring_tx ::
    "ring_qptr option \<Rightarrow> 'o list \<Rightarrow> u16 \<Rightarrow> pmd_internals \<times> (nat \<rightharpoonup> 'o rte_ring) \<Rightarrow> (u16 \<times> pmd_internals \<times> (nat \<rightharpoonup> 'o rte_ring)) option" where
  "eth_ring_tx q bufs nb_bufs = (\<lambda>(d, h). do {
     q \<leftarrow> q;
     r \<leftarrow> ring_queue_at d q;
     a \<leftarrow> rq_rng r;
     rng \<leftarrow> h a;
     (n, free_space, rng) \<leftarrow> rte_ring_enqueue_burst rng bufs (ucast nb_bufs);
     let nb_tx = (ucast n :: u16);
     Some (nb_tx, ring_queue_put d q (r\<lparr>rq_tx_pkts := rq_tx_pkts r + ucast nb_tx, rq_err_pkts := rq_err_pkts r + (ucast nb_bufs - ucast nb_tx)\<rparr>),
       h(a \<mapsto> rng)) })"

type_synonym ring_dev = "(pmd_internals, ring_qptr) eth_dev"

definition eth_dev_configure :: "ring_dev \<Rightarrow> c_int \<times> ring_dev" where
  "eth_dev_configure dev = (0, dev)"

definition eth_dev_start :: "ring_dev \<Rightarrow> c_int \<times> ring_dev" where
  "eth_dev_start dev = (0, dev\<lparr>ed_link_up := True\<rparr>)"

definition eth_dev_stop :: "ring_dev \<Rightarrow> ring_dev" where
  "eth_dev_stop dev = dev\<lparr>ed_link_up := False\<rparr>"

definition eth_rx_queue_setup :: "ring_dev \<Rightarrow> u16 \<Rightarrow> u16 \<Rightarrow> u32 \<Rightarrow> eth_rxconf \<Rightarrow> nat \<Rightarrow> (c_int \<times> ring_dev) option" where
  "eth_rx_queue_setup dev rx_queue_id nb_rx_desc socket_id rx_conf pool = do {
     qs \<leftarrow> ed_rx_queues dev;
     guard (unat rx_queue_id < length qs);
     Some (0, dev\<lparr>ed_rx_queues := Some (qs[unat rx_queue_id := Some (Rx_queue (unat rx_queue_id))])\<rparr>) }"

definition eth_tx_queue_setup :: "ring_dev \<Rightarrow> u16 \<Rightarrow> u16 \<Rightarrow> u32 \<Rightarrow> eth_txconf \<Rightarrow> (c_int \<times> ring_dev) option" where
  "eth_tx_queue_setup dev tx_queue_id nb_tx_desc socket_id tx_conf = do {
     qs \<leftarrow> ed_tx_queues dev;
     guard (unat tx_queue_id < length qs);
     Some (0, dev\<lparr>ed_tx_queues := Some (qs[unat tx_queue_id := Some (Tx_queue (unat tx_queue_id))])\<rparr>) }"

definition eth_dev_info :: "ring_dev \<Rightarrow> rte_eth_dev_info \<Rightarrow> rte_eth_dev_info" where
  "eth_dev_info dev info =
     info\<lparr>di_max_mac_addrs := 1, di_max_rx_pktlen := - 1, di_max_rx_queues := ucast (pi_max_rx_queues (ed_private dev)),
          di_max_tx_queues := ucast (pi_max_tx_queues (ed_private dev)), di_min_rx_bufsize := 0\<rparr>"

definition eth_queue_release :: "ring_qptr option \<Rightarrow> pmd_internals \<Rightarrow> pmd_internals" where
  "eth_queue_release q d = d"

definition eth_link_update :: "ring_dev \<Rightarrow> c_int \<times> ring_dev" where
  "eth_link_update dev = (0, dev)"

definition eth_mac_addr_add :: "ring_dev \<Rightarrow> u8 list \<Rightarrow> u32 \<Rightarrow> u32 \<Rightarrow> c_int \<times> ring_dev" where
  "eth_mac_addr_add dev mac_addr index vmdq = (0, dev)"

definition ring_ops :: "(pmd_internals, ring_qptr) eth_dev_ops" where
  "ring_ops = \<lparr>op_dev_infos_get = Some eth_dev_info, op_dev_configure = Some eth_dev_configure, op_dev_start = Some eth_dev_start,
     op_dev_stop = Some eth_dev_stop, op_dev_close = None, op_is_removed = None, op_rx_queue_setup = Some eth_rx_queue_setup,
     op_tx_queue_setup = Some eth_tx_queue_setup, op_rx_queue_release = Some eth_queue_release, op_tx_queue_release = Some eth_queue_release,
     op_promiscuous_enable = None, op_promiscuous_disable = None, op_allmulticast_enable = None, op_allmulticast_disable = None,
     op_link_update = Some eth_link_update, op_mac_addr_set = None, op_mac_addr_add = Some eth_mac_addr_add\<rparr>"

interpretation ring_drv: eth_driver ring_ops
  by unfold_locales
     (auto simp: ring_ops_def eth_dev_info_def eth_dev_configure_def eth_dev_start_def eth_dev_stop_def eth_link_update_def eth_mac_addr_add_def
        eth_rx_queue_setup_def eth_tx_queue_setup_def dev_frame_def eth_wf_def Suc_le_eq)
section \<open>Making a port\<close>

definition ring_queue_zero :: ring_queue where
  "ring_queue_zero = \<lparr>rq_rng = None, rq_rx_pkts = 0, rq_tx_pkts = 0, rq_err_pkts = 0\<rparr>"

text \<open>The loops that put the rings into the driver's table and the entries' addresses into the port's array.\<close>

fun attach_rings :: "nat list \<Rightarrow> (nat \<Rightarrow> ring_qptr) \<Rightarrow> nat list \<Rightarrow> ring_queue list \<times> ring_qptr option list \<Rightarrow> (ring_queue list \<times> ring_qptr option list) option" where
  "attach_rings rngs ptr [] (tbl, qs) = Some (tbl, qs)"
| "attach_rings rngs ptr (i # is) (tbl, qs) = do {
     guard (i < length rngs \<and> i < length tbl \<and> i < length qs);
     attach_rings rngs ptr is (tbl[i := (tbl ! i)\<lparr>rq_rng := Some (rngs ! i)\<rparr>], qs[i := Some (ptr i)]) }"

text \<open>
  \<open>mem\<close>: which of the three allocations succeed; one of no bytes does not. \<open>entry\<close> is the entry that \<open>rte_eth_dev_allocate\<close> gives. The answer is
  \<open>rte_errno\<close> or the port.
\<close>

definition do_eth_dev_ring_create ::
    "bool \<times> bool \<times> bool \<Rightarrow> ring_dev option \<Rightarrow> nat list \<Rightarrow> u32 \<Rightarrow> nat list \<Rightarrow> u32 \<Rightarrow> dev_action \<Rightarrow> (c_int + ring_dev) option" where
  "do_eth_dev_ring_create mem entry rx_queues nb_rx_queues tx_queues nb_tx_queues action =
     (case mem of (rx_mem, tx_mem, internals_mem) \<Rightarrow>
        if \<not> rx_mem \<or> nb_rx_queues = 0 then Some (Inl ENOMEM)
        else if \<not> tx_mem \<or> nb_tx_queues = 0 then Some (Inl ENOMEM)
        else if \<not> internals_mem then Some (Inl ENOMEM)
        else case entry of None \<Rightarrow> Some (Inl ENOSPC)
        | Some dev \<Rightarrow> do {
            (rx_tbl, rx_qs) \<leftarrow> attach_rings rx_queues Rx_queue [0..<unat nb_rx_queues]
              (replicate RTE_PMD_RING_MAX_RX_RINGS ring_queue_zero, replicate (unat nb_rx_queues) None);
            (tx_tbl, tx_qs) \<leftarrow> attach_rings tx_queues Tx_queue [0..<unat nb_tx_queues]
              (replicate RTE_PMD_RING_MAX_TX_RINGS ring_queue_zero, replicate (unat nb_tx_queues) None);
            Some (Inr (dev\<lparr>ed_private := \<lparr>pi_max_rx_queues = nb_rx_queues, pi_max_tx_queues = nb_tx_queues, pi_rx_ring_queues = rx_tbl,
                                           pi_tx_ring_queues = tx_tbl, pi_action = action\<rparr>,
                           ed_rx_queues := Some rx_qs, ed_tx_queues := Some tx_qs, ed_nb_rx_queues := ucast nb_rx_queues,
                           ed_nb_tx_queues := ucast nb_tx_queues, ed_link_up := False, ed_mac_addrs := [replicate 6 0],
                           ed_state := RTE_ETH_DEV_ATTACHED\<rparr>)) })"

text \<open>
  \<open>bus\<close> is what \<open>rte_vdev_init\<close> answers before it calls the driver's probe with the arguments. An array of rings may be NULL.
\<close>

definition rte_eth_from_rings ::
    "c_int \<Rightarrow> bool \<times> bool \<times> bool \<Rightarrow> ring_dev option \<Rightarrow> string \<Rightarrow> nat list option \<Rightarrow> u32 \<Rightarrow> nat list option \<Rightarrow> u32 \<Rightarrow> (c_int + ring_dev) option" where
  "rte_eth_from_rings bus mem entry name rx_queues nb_rx_queues tx_queues nb_tx_queues =
     (if rx_queues = None \<and> nb_rx_queues > 0 then Some (Inl EINVAL)
      else if tx_queues = None \<and> nb_tx_queues > 0 then Some (Inl EINVAL)
      else if unat nb_rx_queues > RTE_PMD_RING_MAX_RX_RINGS then Some (Inl EINVAL)
      else if length (''net_ring_'' @ name) \<ge> RTE_RING_NAMESIZE then Some (Inl ENAMETOOLONG)
      else if bus \<noteq> 0 then Some (Inl EINVAL)
      else do {
        r \<leftarrow> do_eth_dev_ring_create mem entry (case rx_queues of None \<Rightarrow> [] | Some q \<Rightarrow> q) nb_rx_queues
               (case tx_queues of None \<Rightarrow> [] | Some q \<Rightarrow> q) nb_tx_queues DEV_ATTACH;
        Some (case r of Inl e \<Rightarrow> Inl EINVAL | Inr dev \<Rightarrow> Inr dev) })"

definition rte_eth_from_ring :: "c_int \<Rightarrow> bool \<times> bool \<times> bool \<Rightarrow> ring_dev option \<Rightarrow> (nat \<rightharpoonup> 'o rte_ring) \<Rightarrow> nat \<Rightarrow> (c_int + ring_dev) option" where
  "rte_eth_from_ring bus mem entry h a = do {
     r \<leftarrow> h a;
     rte_eth_from_rings bus mem entry (r_name r) (Some [a]) 1 (Some [a]) 1 }"

section \<open>Lemmas\<close>

lemma attach_rings_ok:
  assumes "k + n \<le> length rngs" "k + n \<le> length tbl" "k + n \<le> length qs"
  shows "attach_rings rngs ptr [k..<k + n] (tbl, qs) =
    Some (take k tbl @ map (\<lambda>i. (tbl ! i)\<lparr>rq_rng := Some (rngs ! i)\<rparr>) [k..<k + n] @ drop (k + n) tbl,
          take k qs @ map (\<lambda>i. Some (ptr i)) [k..<k + n] @ drop (k + n) qs)"
  using assms
proof (induction n arbitrary: k tbl qs)
  case (Suc n)
  let ?tbl = "tbl[k := (tbl ! k)\<lparr>rq_rng := Some (rngs ! k)\<rparr>]" let ?qs = "qs[k := Some (ptr k)]"
  have up: "[k..<k + Suc n] = k # [Suc k..<Suc k + n]" by (simp add: upt_conv_Cons)
  have IH: "attach_rings rngs ptr [Suc k..<Suc k + n] (?tbl, ?qs) =
    Some (take (Suc k) ?tbl @ map (\<lambda>i. (?tbl ! i)\<lparr>rq_rng := Some (rngs ! i)\<rparr>) [Suc k..<Suc k + n] @ drop (Suc k + n) ?tbl,
          take (Suc k) ?qs @ map (\<lambda>i. Some (ptr i)) [Suc k..<Suc k + n] @ drop (Suc k + n) ?qs)"
    by (rule Suc.IH) (use Suc.prems in simp_all)
  have t: "take (Suc k) ?tbl = take k tbl @ [(tbl ! k)\<lparr>rq_rng := Some (rngs ! k)\<rparr>]" "take (Suc k) ?qs = take k qs @ [Some (ptr k)]"
    using Suc.prems by (simp_all add: take_Suc_conv_app_nth)
  have m: "map (\<lambda>i. (?tbl ! i)\<lparr>rq_rng := Some (rngs ! i)\<rparr>) [Suc k..<Suc k + n] = map (\<lambda>i. (tbl ! i)\<lparr>rq_rng := Some (rngs ! i)\<rparr>) [Suc k..<Suc k + n]"
    by (rule map_cong) auto
  show ?case using Suc.prems unfolding up attach_rings.simps IH t m by (simp add: drop_update_cancel)
qed simp

text \<open>A port's queue \<open>i\<close> on the ring at \<open>a\<close>.\<close>

definition rx_on :: "nat \<Rightarrow> nat \<Rightarrow> ring_dev \<Rightarrow> bool" where
  "rx_on i a dev \<longleftrightarrow> queue_ptr (ed_rx_queues dev) i = Some (Rx_queue i) \<and> i < length (pi_rx_ring_queues (ed_private dev)) \<and>
     rq_rng (pi_rx_ring_queues (ed_private dev) ! i) = Some a"

definition tx_on :: "nat \<Rightarrow> nat \<Rightarrow> ring_dev \<Rightarrow> bool" where
  "tx_on i a dev \<longleftrightarrow> queue_ptr (ed_tx_queues dev) i = Some (Tx_queue i) \<and> i < length (pi_tx_ring_queues (ed_private dev)) \<and>
     rq_rng (pi_tx_ring_queues (ed_private dev) ! i) = Some a"

lemma queue_ptr_Some:
  "queue_ptr q i = Some p \<longleftrightarrow> (\<exists>qs. q = Some qs \<and> i < length qs \<and> qs ! i = Some p)"
  by (auto simp: queue_ptr_def split: option.splits if_splits)

lemma burst_dequeue:
  assumes "ring_wf R" "unat n \<le> length objs"
  shows "\<exists>nw av objs' R'. rte_ring_dequeue_burst R objs n = Some (nw, av, objs', R') \<and> unat nw = min (unat n) (ring_len R) \<and>
     objs' = take (unat nw) (ring_items R) @ drop (unat nw) objs \<and> ring_wf R' \<and> same_ring R R' \<and> ring_items R' = drop (unat nw) (ring_items R)"
proof -
  have "amount RTE_RING_QUEUE_VARIABLE k m = min k m" for k m by (simp add: amount_def min_def)
  then show ?thesis unfolding rte_ring_dequeue_burst_def
    using do_dequeue_rep [OF assms, of RTE_RING_QUEUE_VARIABLE "ht_single (r_cons R)"] by metis
qed

lemma burst_enqueue:
  assumes "ring_wf R" "unat n \<le> length objs"
  shows "\<exists>nw fe R'. rte_ring_enqueue_burst R objs n = Some (nw, fe, R') \<and> unat nw = min (unat n) (ring_room R) \<and>
     ring_wf R' \<and> same_ring R R' \<and> ring_items R' = ring_items R @ take (unat nw) objs"
proof -
  have "amount RTE_RING_QUEUE_VARIABLE k m = min k m" for k m by (simp add: amount_def min_def)
  then show ?thesis unfolding rte_ring_enqueue_burst_def
    using do_enqueue_rep [OF assms, of RTE_RING_QUEUE_VARIABLE "ht_single (r_prod R)"] by metis
qed

lemma rx_burst_ok:
  assumes on: "rx_on (unat i) a dev" and h: "h a = Some R" "ring_wf R" and n: "unat n \<le> length pkts"
  shows "\<exists>nb pkts' dev' R'. rte_eth_rx_burst eth_ring_rx [] i pkts n (dev, h) = Some (nb, pkts', dev', h(a \<mapsto> R')) \<and>
     unat nb = min (unat n) (length (ring_items R)) \<and> pkts' = take (unat nb) (ring_items R) @ drop (unat nb) pkts \<and>
     ring_wf R' \<and> same_ring R R' \<and> ring_items R' = drop (unat nb) (ring_items R) \<and>
     (\<exists>r. pi_rx_ring_queues (ed_private dev) ! unat i = r \<and>
       dev' = dev\<lparr>ed_private := (ed_private dev)\<lparr>pi_rx_ring_queues := (pi_rx_ring_queues (ed_private dev))[unat i := r\<lparr>rq_rx_pkts := rq_rx_pkts r + ucast nb\<rparr>]\<rparr>\<rparr>)"
proof -
  obtain qs where q: "ed_rx_queues dev = Some qs" "unat i < length qs" "qs ! unat i = Some (Rx_queue (unat i))"
    using on unfolding rx_on_def queue_ptr_Some by blast
  have l: "unat i < length (pi_rx_ring_queues (ed_private dev))" "rq_rng (pi_rx_ring_queues (ed_private dev) ! unat i) = Some a"
    using on by (simp_all add: rx_on_def)
  have nn: "unat (ucast n :: u32) = unat n" by (rule unat_ucast_up) simp
  obtain nw av objs' R' where d: "rte_ring_dequeue_burst R pkts (ucast n) = Some (nw, av, objs', R')" "unat nw = min (unat n) (ring_len R)"
     "objs' = take (unat nw) (ring_items R) @ drop (unat nw) pkts" "ring_wf R'" "same_ring R R'" "ring_items R' = drop (unat nw) (ring_items R)"
    using burst_dequeue [OF h(2), of "ucast n" pkts] n unfolding nn by blast
  have nb: "unat (ucast nw :: u16) = unat nw"
    using d(2) unat_lt2p [of n] by (simp add: unsigned_ucast_eq take_bit_nat_eq_self)
  show ?thesis
    using q l h d nb by (simp add: rte_eth_rx_burst_def rx_callbacks_def eth_ring_rx_def Let_def) blast
qed

lemma tx_burst_ok:
  assumes on: "tx_on (unat i) a dev" and h: "h a = Some R" "ring_wf R" and n: "unat n \<le> length pkts"
  shows "\<exists>nb dev' R'. rte_eth_tx_burst eth_ring_tx [] i pkts n (dev, h) = Some (nb, dev', h(a \<mapsto> R')) \<and>
     unat nb = min (unat n) (ring_room R) \<and> ring_wf R' \<and> same_ring R R' \<and> ring_items R' = ring_items R @ take (unat nb) pkts \<and>
     (\<exists>r. pi_tx_ring_queues (ed_private dev) ! unat i = r \<and>
       dev' = dev\<lparr>ed_private := (ed_private dev)\<lparr>pi_tx_ring_queues := (pi_tx_ring_queues (ed_private dev))[unat i :=
          r\<lparr>rq_tx_pkts := rq_tx_pkts r + ucast nb, rq_err_pkts := rq_err_pkts r + (ucast n - ucast nb)\<rparr>]\<rparr>\<rparr>)"
proof -
  obtain qs where q: "ed_tx_queues dev = Some qs" "unat i < length qs" "qs ! unat i = Some (Tx_queue (unat i))"
    using on unfolding tx_on_def queue_ptr_Some by blast
  have l: "unat i < length (pi_tx_ring_queues (ed_private dev))" "rq_rng (pi_tx_ring_queues (ed_private dev) ! unat i) = Some a"
    using on by (simp_all add: tx_on_def)
  have nn: "unat (ucast n :: u32) = unat n" by (rule unat_ucast_up) simp
  obtain nw fe R' where d: "rte_ring_enqueue_burst R pkts (ucast n) = Some (nw, fe, R')" "unat nw = min (unat n) (ring_room R)"
     "ring_wf R'" "same_ring R R'" "ring_items R' = ring_items R @ take (unat nw) pkts"
    using burst_enqueue [OF h(2), of "ucast n" pkts] n unfolding nn by blast
  have nb: "unat (ucast nw :: u16) = unat nw"
    using d(2) unat_lt2p [of n] by (simp add: unsigned_ucast_eq take_bit_nat_eq_self)
  show ?thesis
    using q l h d nb by (simp add: rte_eth_tx_burst_def tx_callbacks_def eth_ring_tx_def Let_def) blast
qed

text \<open>Bursts on queue 0 of a port: packets to send, or an array to receive into. The result holds the packets taken or delivered.\<close>

datatype 'o burst = Tx_burst "'o list" | Rx_burst "'o list"

fun burst_len :: "'o burst \<Rightarrow> nat" where
  "burst_len (Tx_burst ps) = length ps"
| "burst_len (Rx_burst ps) = length ps"

fun port_burst :: "'o burst \<Rightarrow> ring_dev \<times> (nat \<rightharpoonup> 'o rte_ring) \<Rightarrow> ('o list \<times> ring_dev \<times> (nat \<rightharpoonup> 'o rte_ring)) option" where
  "port_burst (Tx_burst ps) s = do {
     (nb, s) \<leftarrow> rte_eth_tx_burst eth_ring_tx [] 0 ps (of_nat (length ps)) s;
     Some (take (unat nb) ps, s) }"
| "port_burst (Rx_burst ps) s = do {
     (nb, ps, s) \<leftarrow> rte_eth_rx_burst eth_ring_rx [] 0 ps (of_nat (length ps)) s;
     Some (take (unat nb) ps, s) }"

fun port_bursts :: "'o burst list \<Rightarrow> ring_dev \<times> (nat \<rightharpoonup> 'o rte_ring) \<Rightarrow> ('o list list \<times> ring_dev \<times> (nat \<rightharpoonup> 'o rte_ring)) option" where
  "port_bursts [] s = Some ([], s)"
| "port_bursts (b # bs) s = do { (out, s) \<leftarrow> port_burst b s; (outs, s) \<leftarrow> port_bursts bs s; Some (out # outs, s) }"

text \<open>The abstract port: a queue with a capacity.\<close>

fun queue_burst :: "nat \<Rightarrow> 'o burst \<Rightarrow> 'o list \<Rightarrow> 'o list \<times> 'o list" where
  "queue_burst cap (Tx_burst ps) q = (take (cap - length q) ps, q @ take (cap - length q) ps)"
| "queue_burst cap (Rx_burst ps) q = (take (length ps) q, drop (length ps) q)"

fun queue_bursts :: "nat \<Rightarrow> 'o burst list \<Rightarrow> 'o list \<Rightarrow> 'o list list \<times> 'o list" where
  "queue_bursts cap [] q = ([], q)"
| "queue_bursts cap (b # bs) q = (let (out, q) = queue_burst cap b q; (outs, q) = queue_bursts cap bs q in (out # outs, q))"

text \<open>A port whose queues 0 are both on the ring at \<open>a\<close>.\<close>

definition loop_port :: "nat \<Rightarrow> 'o rte_ring \<Rightarrow> ring_dev \<times> (nat \<rightharpoonup> 'o rte_ring) \<Rightarrow> bool" where
  "loop_port a R = (\<lambda>(dev, h). rx_on 0 a dev \<and> tx_on 0 a dev \<and> h a = Some R \<and> ring_wf R)"

lemma small_number: "n < 2 ^ 16 \<Longrightarrow> unat (of_nat n :: u16) = n"
  by (simp add: unsigned_of_nat take_bit_nat_eq_self)

lemma port_burst_ok:
  assumes ok: "loop_port a R s" and b: "burst_len b < 2 ^ 16"
  shows "\<exists>out s' R'. port_burst b s = Some (out, s') \<and> loop_port a R' s' \<and> same_ring R R' \<and>
     queue_burst (unat (r_capacity R)) b (ring_items R) = (out, ring_items R')"
proof -
  obtain dev h where s: "s = (dev, h)" by fastforce
  have ok: "rx_on 0 a dev" "tx_on 0 a dev" "h a = Some R" "ring_wf R" using ok by (simp_all add: loop_port_def s)
  show ?thesis
  proof (cases b)
    case (Tx_burst ps)
    then have n: "unat (of_nat (length ps) :: u16) = length ps" using b by (simp add: small_number)
    have on: "tx_on (unat (0::u16)) a dev" using ok(2) by simp
    obtain nb dev' R' r where t: "rte_eth_tx_burst eth_ring_tx [] 0 ps (of_nat (length ps)) (dev, h) = Some (nb, dev', h(a \<mapsto> R'))"
      "unat nb = min (length ps) (ring_room R)" "ring_wf R'" "same_ring R R'" "ring_items R' = ring_items R @ take (unat nb) ps"
      "dev' = dev\<lparr>ed_private := (ed_private dev)\<lparr>pi_tx_ring_queues := (pi_tx_ring_queues (ed_private dev))[0 :=
          r\<lparr>rq_tx_pkts := rq_tx_pkts r + ucast nb, rq_err_pkts := rq_err_pkts r + (ucast (of_nat (length ps) :: u16) - ucast nb)\<rparr>]\<rparr>\<rparr>"
      "pi_tx_ring_queues (ed_private dev) ! 0 = r"
      using tx_burst_ok [where pkts = ps and n = "of_nat (length ps)" and i = 0 and a = a and dev = dev and h = h and R = R, OF on ok(3,4)] unfolding n by (auto simp: min_def)
    have "loop_port a R' (dev', h(a \<mapsto> R'))"
      using ok t(3,7) unfolding t(6) loop_port_def rx_on_def tx_on_def by (auto simp: nth_list_update)
    moreover have "take (unat nb) ps = take (unat (r_capacity R) - length (ring_items R)) ps"
      unfolding t(2) by (simp add: ring_room_def min_def)
    ultimately show ?thesis unfolding s Tx_burst using t(1,4,5) by simp metis
  next
    case (Rx_burst ps)
    then have n: "unat (of_nat (length ps) :: u16) = length ps" using b by (simp add: small_number)
    have on: "rx_on (unat (0::u16)) a dev" using ok(1) by simp
    obtain nb pkts dev' R' r where t: "rte_eth_rx_burst eth_ring_rx [] 0 ps (of_nat (length ps)) (dev, h) = Some (nb, pkts, dev', h(a \<mapsto> R'))"
      "unat nb = min (length ps) (length (ring_items R))" "pkts = take (unat nb) (ring_items R) @ drop (unat nb) ps"
      "ring_wf R'" "same_ring R R'" "ring_items R' = drop (unat nb) (ring_items R)"
      "dev' = dev\<lparr>ed_private := (ed_private dev)\<lparr>pi_rx_ring_queues := (pi_rx_ring_queues (ed_private dev))[0 := r\<lparr>rq_rx_pkts := rq_rx_pkts r + ucast nb\<rparr>]\<rparr>\<rparr>"
      "pi_rx_ring_queues (ed_private dev) ! 0 = r"
      using rx_burst_ok [where pkts = ps and n = "of_nat (length ps)" and i = 0 and a = a and dev = dev and h = h and R = R, OF on ok(3,4)] unfolding n by auto
    have "loop_port a R' (dev', h(a \<mapsto> R'))"
      using ok t(4,8) unfolding t(7) loop_port_def rx_on_def tx_on_def by (auto simp: nth_list_update)
    moreover have "take (unat nb) pkts = take (length ps) (ring_items R)" "ring_items R' = drop (length ps) (ring_items R)"
      unfolding t(3,6) t(2) by (auto simp: min_def)
    ultimately show ?thesis unfolding s Rx_burst using t(1,5) by simp metis
  qed
qed

lemma port_bursts_ok:
  assumes "loop_port a R s" "\<forall>b \<in> set bs. burst_len b < 2 ^ 16"
  shows "\<exists>outs s' R'. port_bursts bs s = Some (outs, s') \<and> loop_port a R' s' \<and> same_ring R R' \<and>
     queue_bursts (unat (r_capacity R)) bs (ring_items R) = (outs, ring_items R')"
  using assms
proof (induction bs arbitrary: s R)
  case Nil
  then show ?case by (auto simp: same_ring_def)
next
  case (Cons b bs)
  obtain out s1 R1 where 1: "port_burst b s = Some (out, s1)" "loop_port a R1 s1" "same_ring R R1"
     "queue_burst (unat (r_capacity R)) b (ring_items R) = (out, ring_items R1)"
    using port_burst_ok [OF Cons.prems(1), of b] Cons.prems(2) by auto
  obtain outs s2 R2 where 2: "port_bursts bs s1 = Some (outs, s2)" "loop_port a R2 s2" "same_ring R1 R2"
     "queue_bursts (unat (r_capacity R1)) bs (ring_items R1) = (outs, ring_items R2)"
    using Cons.IH [OF 1(2)] Cons.prems(2) by auto
  have "r_capacity R1 = r_capacity R" "same_ring R R2" using 1(3) 2(3) by (auto simp: same_ring_def)
  then show ?case using 1 2 by simp blast
qed
lemma attach_rings_none:
  assumes "k \<le> length tbl" "length tbl < k + n"
  shows "attach_rings rngs ptr [k..<k + n] (tbl, qs) = None"
  using assms
proof (induction n arbitrary: k tbl qs)
  case (Suc n)
  have up: "[k..<k + Suc n] = k # [Suc k..<Suc k + n]" by (simp add: upt_conv_Cons)
  show ?case
  proof (cases "k < length tbl")
    case True
    show ?thesis unfolding up attach_rings.simps using Suc.prems True Suc.IH [of "Suc k" "tbl[k := (tbl ! k)\<lparr>rq_rng := Some (rngs ! k)\<rparr>]" "qs[k := Some (ptr k)]"]
      by simp
  next
    case False
    then show ?thesis unfolding up by simp
  qed
qed simp

text \<open>The entry that \<open>rte_eth_dev_allocate\<close> gives: its tables have their sizes.\<close>

definition free_entry :: "ring_dev \<Rightarrow> bool" where
  "free_entry dev \<longleftrightarrow> length (ed_rx_queue_state dev) = unat RTE_MAX_QUEUES_PER_PORT \<and>
     length (ed_tx_queue_state dev) = unat RTE_MAX_QUEUES_PER_PORT \<and> length (ed_mac_pool_sel dev) = 128 \<and>
     \<not> ed_started dev \<and> \<not> ed_promiscuous dev \<and> ed_min_rx_buf_size dev = 0 \<and> ed_flags dev = 0"

lemma ring_create_ok:
  assumes e: "free_entry e" and rx: "0 < length rx" "length rx \<le> 16" and tx: "0 < length tx" "length tx \<le> 16"
  shows "\<exists>dev. do_eth_dev_ring_create (True, True, True) (Some e) rx (of_nat (length rx)) tx (of_nat (length tx)) act = Some (Inr dev) \<and>
     eth_wf dev \<and> free_entry dev \<and> ed_state dev = RTE_ETH_DEV_ATTACHED \<and> (\<forall>i < length rx. rx_on i (rx ! i) dev) \<and> (\<forall>i < length tx. tx_on i (tx ! i) dev) \<and>
     pi_max_rx_queues (ed_private dev) = of_nat (length rx) \<and> pi_max_tx_queues (ed_private dev) = of_nat (length tx)"
proof -
  have u: "unat (of_nat (length rx) :: u32) = length rx" "unat (of_nat (length tx) :: u32) = length tx"
    using rx tx by (simp_all add: unsigned_of_nat take_bit_nat_eq_self)
  have u16: "unat (of_nat (length rx) :: u16) = length rx" "unat (of_nat (length tx) :: u16) = length tx"
    using rx tx by (simp_all add: small_number)
  have nz: "(of_nat (length rx) :: u32) \<noteq> 0" "(of_nat (length tx) :: u32) \<noteq> 0"
    using u rx(1) tx(1) by (auto simp flip: unat_eq_0)
  have a: "attach_rings rs ptr [0..<length rs] (replicate 16 ring_queue_zero, replicate (length rs) None) =
     Some (map (\<lambda>i. ring_queue_zero\<lparr>rq_rng := Some (rs ! i)\<rparr>) [0..<length rs] @ replicate (16 - length rs) ring_queue_zero,
       map (\<lambda>i. Some (ptr i)) [0..<length rs])" if "length rs \<le> 16" for rs ptr
    using attach_rings_ok [of 0 "length rs" rs "replicate 16 ring_queue_zero" "replicate (length rs) None" ptr] that
    by (simp cong: map_cong)
  have c: "ucast (of_nat (length rx) :: u32) = (of_nat (length rx) :: u16)" "ucast (of_nat (length tx) :: u32) = (of_nat (length tx) :: u16)"
    using u u16 rx tx by (simp_all add: unsigned_ucast_eq take_bit_nat_eq_self word_unat_eq_iff)
  have le: "(of_nat (length rx) :: u16) \<le> RTE_MAX_QUEUES_PER_PORT" "(of_nat (length tx) :: u16) \<le> RTE_MAX_QUEUES_PER_PORT"
    using u16 rx tx by (simp_all add: word_le_nat_alt RTE_MAX_QUEUES_PER_PORT_def)
  let ?dev = "e\<lparr>ed_private := \<lparr>pi_max_rx_queues = of_nat (length rx), pi_max_tx_queues = of_nat (length tx),
        pi_rx_ring_queues = map (\<lambda>i. ring_queue_zero\<lparr>rq_rng := Some (rx ! i)\<rparr>) [0..<length rx] @ replicate (16 - length rx) ring_queue_zero,
        pi_tx_ring_queues = map (\<lambda>i. ring_queue_zero\<lparr>rq_rng := Some (tx ! i)\<rparr>) [0..<length tx] @ replicate (16 - length tx) ring_queue_zero,
        pi_action = act\<rparr>, ed_rx_queues := Some (map (\<lambda>i. Some (Rx_queue i)) [0..<length rx]), ed_tx_queues := Some (map (\<lambda>i. Some (Tx_queue i)) [0..<length tx]),
        ed_nb_rx_queues := of_nat (length rx), ed_nb_tx_queues := of_nat (length tx), ed_link_up := False, ed_mac_addrs := [replicate 6 0],
        ed_state := RTE_ETH_DEV_ATTACHED\<rparr>"
  have "do_eth_dev_ring_create (True, True, True) (Some e) rx (of_nat (length rx)) tx (of_nat (length tx)) act = Some (Inr ?dev)"
    using nz a [OF rx(2)] a [OF tx(2)] unfolding do_eth_dev_ring_create_def u RTE_PMD_RING_MAX_RX_RINGS_def RTE_PMD_RING_MAX_TX_RINGS_def c by simp
  moreover have "eth_wf ?dev" using e le u16 by (simp add: eth_wf_def queues_ok_def free_entry_def)
  moreover have "free_entry ?dev" using e by (simp add: free_entry_def)
  moreover have "\<forall>i < length rx. rx_on i (rx ! i) ?dev" by (simp add: rx_on_def queue_ptr_def nth_append)
  moreover have "\<forall>i < length tx. tx_on i (tx ! i) ?dev" by (simp add: tx_on_def queue_ptr_def nth_append)
  ultimately show ?thesis by simp
qed

lemma ring_create_overrun:
  assumes rx: "0 < length rx" "length rx \<le> 16" and tx: "16 < length tx" "length tx < 2 ^ 32"
  shows "do_eth_dev_ring_create (True, True, True) (Some e) rx (of_nat (length rx)) tx (of_nat (length tx)) act = None"
proof -
  have u: "unat (of_nat (length rx) :: u32) = length rx" "unat (of_nat (length tx) :: u32) = length tx"
    using rx tx by (simp_all add: unsigned_of_nat take_bit_nat_eq_self)
  have nz: "(of_nat (length rx) :: u32) \<noteq> 0" "(of_nat (length tx) :: u32) \<noteq> 0"
    using u rx(1) tx(1) by (auto simp flip: unat_eq_0)
  have "attach_rings tx Tx_queue [0..<0 + length tx] (replicate 16 ring_queue_zero, replicate (length tx) None) = None"
    by (rule attach_rings_none) (use tx in simp_all)
  then show ?thesis using nz unfolding do_eth_dev_ring_create_def u RTE_PMD_RING_MAX_RX_RINGS_def RTE_PMD_RING_MAX_TX_RINGS_def
    by (simp add: bind_eq_None_conv split: option.splits prod.splits)
qed

lemma from_rings_is:
  assumes "length name < 20" "length rx < 2 ^ 32"
  shows "rte_eth_from_rings 0 (True, True, True) (Some e) name (Some rx) (of_nat (length rx)) (Some tx) (of_nat (length tx)) =
     (if length rx > 16 then Some (Inl EINVAL)
      else map_option (case_sum (\<lambda>_. Inl EINVAL) Inr)
        (do_eth_dev_ring_create (True, True, True) (Some e) rx (of_nat (length rx)) tx (of_nat (length tx)) DEV_ATTACH))"
proof -
  have n: "\<not> RTE_RING_NAMESIZE \<le> length (''net_ring_'' @ name)" using assms(1) by (simp add: RTE_RING_NAMESIZE_def RTE_MEMZONE_NAMESIZE_def)
  have u: "unat (of_nat (length rx) :: u32) = length rx" using assms(2) by (simp add: unsigned_of_nat take_bit_nat_eq_self)
  show ?thesis unfolding rte_eth_from_rings_def u using n
    by (simp add: RTE_PMD_RING_MAX_RX_RINGS_def map_conv_bind_option comp_def sum.case_eq_if split: sum.splits)
qed

lemma from_rings_port:
  assumes e: "free_entry e" and name: "length name < 20" and rx: "0 < length rx" "length rx \<le> 16" and tx: "0 < length tx" "length tx \<le> 16"
    and port: "rte_eth_from_rings 0 (True, True, True) (Some e) name (Some rx) (of_nat (length rx)) (Some tx) (of_nat (length tx)) = Some (Inr dev)"
  shows "eth_wf dev" "free_entry dev" "ed_state dev = RTE_ETH_DEV_ATTACHED" "rx_on 0 (rx ! 0) dev" "tx_on 0 (tx ! 0) dev"
    "pi_max_rx_queues (ed_private dev) = of_nat (length rx)" "pi_max_tx_queues (ed_private dev) = of_nat (length tx)"
proof -
  have l: "length rx < 2 ^ 32" using rx by simp
  show "eth_wf dev" "free_entry dev" "ed_state dev = RTE_ETH_DEV_ATTACHED" "rx_on 0 (rx ! 0) dev" "tx_on 0 (tx ! 0) dev"
    "pi_max_rx_queues (ed_private dev) = of_nat (length rx)" "pi_max_tx_queues (ed_private dev) = of_nat (length tx)"
    using port ring_create_ok [OF e rx tx, of DEV_ATTACH] rx tx unfolding from_rings_is [OF name l] by auto
qed

section \<open>Properties\<close>

text \<open>
  C18: A port on a ring is a queue. Whatever bursts are sent and received on a port whose queues are both on one ring, every one of them succeeds, a send takes as many packets
  as there is room for, and packets are received in the order in which they were sent, none lost and none twice.
\<close>

theorem ring_port_refines_queue:
  assumes "loop_port a R s" "\<forall>b \<in> set bs. burst_len b < 2 ^ 16"
  shows "\<exists>outs s' R'. port_bursts bs s = Some (outs, s') \<and> loop_port a R' s' \<and> r_capacity R' = r_capacity R \<and>
     queue_bursts (unat (r_capacity R)) bs (ring_items R) = (outs, ring_items R')"
  using port_bursts_ok [OF assms] by (auto simp: same_ring_def)

text \<open>
  C22: Ports from rings. With memory and a free entry, between 1 and 16 receive rings and between 1 and 16 transmit rings give a port that is stopped, well-formed, and
  has each ring behind the queue of its number. No receive rings, or no transmit rings, are refused for lack of memory. More than 16 transmit rings are not refused, as
  more than 16 receive rings are: the driver writes behind its table.
\<close>

theorem ring_port_created:
  assumes e: "free_entry e" and name: "length name < 20" and rx: "length rx < 2 ^ 32" and tx: "length tx < 2 ^ 32"
  shows "(let r = rte_eth_from_rings 0 (True, True, True) (Some e) name (Some rx) (of_nat (length rx)) (Some tx) (of_nat (length tx)) in
     if length rx > 16 \<or> rx = [] \<or> tx = [] then r = Some (Inl EINVAL)
     else if length tx > 16 then r = None
     else \<exists>dev. r = Some (Inr dev) \<and> eth_wf dev \<and> \<not> ed_started dev \<and> ed_state dev = RTE_ETH_DEV_ATTACHED \<and>
       (\<forall>i < length rx. rx_on i (rx ! i) dev) \<and> (\<forall>i < length tx. tx_on i (tx ! i) dev))"
proof -
  note def = from_rings_is [OF name rx, where e = e and tx = tx]
  show ?thesis
  proof (cases "length rx > 16 \<or> rx = [] \<or> tx = []")
    case True
    then show ?thesis unfolding Let_def def by (auto simp: do_eth_dev_ring_create_def)
  next
    case False
    then show ?thesis
      using ring_create_ok [OF e, of rx tx DEV_ATTACH] ring_create_overrun [of rx tx e DEV_ATTACH] tx unfolding Let_def def
      by (auto simp: free_entry_def)
  qed
qed
text \<open>
  C19: No call of the device layer leaves defined behaviour. With drivers that keep to the contract, any calls in any order, on any ports and queues, with any arguments and any
  failing allocations, return, and afterwards the arrays of every port still have an entry for each of its queues.
\<close>

theorem eth_calls_safe:
  assumes "\<And>p. eth_driver (ops p)" "ports_wf devs"
  shows "\<exists>rs devs'. api_calls nil ops cs devs = Some (rs, devs') \<and> ports_wf devs' \<and> length rs = length cs"
  using api_calls_ok [where ops = ops, OF assms] .

text \<open>
  C20: Configuring is done or undone. A configuration that fails leaves the port with the configuration it had, and one of a running port, which fails, changes nothing
  at all. One that succeeds stores the given configuration, with the packet length corrected, and the numbers of queues asked for or preferred; queues
  below the new number stay set up, and the others are not.
\<close>

theorem configure_done_or_undone:
  assumes drv: "eth_driver (ops p)" and wf: "ports_wf devs" and valid: "rte_eth_dev_is_valid_port devs p"
  shows "\<exists>r dev'. rte_eth_dev_configure ops alloc p rx tx conf devs = Some (r, devs[unat p := dev']) \<and>
     ed_started dev' = ed_started (devs ! unat p) \<and>
     (if r = 0
      then \<not> ed_started (devs ! unat p) \<and> ed_conf dev' = conf_clamped conf \<and>
           (ed_nb_rx_queues dev', ed_nb_tx_queues dev') =
             requested_queues (rte_eth_dev_info_get (ops p) ((devs ! unat p)\<lparr>ed_conf := conf\<rparr>)) rx tx \<and>
           kept_queues (ed_rx_queues (devs ! unat p)) (ed_nb_rx_queues dev') (ed_rx_queues dev') \<and>
           kept_queues (ed_tx_queues (devs ! unat p)) (ed_nb_tx_queues dev') (ed_tx_queues dev')
      else ed_conf dev' = ed_conf (devs ! unat p) \<and> (ed_started (devs ! unat p) \<longrightarrow> dev' = devs ! unat p))"
proof -
  obtain r dev' where c: "configure_dev (ops p) alloc rx tx conf (devs ! unat p) = Some (r, dev')"
      "ed_started dev' = ed_started (devs ! unat p)"
      "if r = 0
      then \<not> ed_started (devs ! unat p) \<and> ed_conf dev' = conf_clamped conf \<and>
           (ed_nb_rx_queues dev', ed_nb_tx_queues dev') =
             requested_queues (rte_eth_dev_info_get (ops p) ((devs ! unat p)\<lparr>ed_conf := conf\<rparr>)) rx tx \<and>
           kept_queues (ed_rx_queues (devs ! unat p)) (ed_nb_rx_queues dev') (ed_rx_queues dev') \<and>
           kept_queues (ed_tx_queues (devs ! unat p)) (ed_nb_tx_queues dev') (ed_tx_queues dev')
      else ed_conf dev' = ed_conf (devs ! unat p) \<and> (ed_started (devs ! unat p) \<longrightarrow> dev' = devs ! unat p)"
    using eth_driver.configure_total [OF drv valid_port_wf(1) [OF wf valid], of alloc rx tx conf] by blast
  have "rte_eth_dev_configure ops alloc p rx tx conf devs = Some (r, devs[unat p := dev'])"
    using valid c(1) by (simp add: rte_eth_dev_configure_def on_port_def)
  then show ?thesis using c(2,3) by blast
qed

section \<open>Witnesses\<close>

definition ring_entry :: ring_dev where
  "ring_entry = \<lparr>ed_state = RTE_ETH_DEV_UNUSED, ed_private = \<lparr>pi_max_rx_queues = 0, pi_max_tx_queues = 0, pi_rx_ring_queues = [], pi_tx_ring_queues = [], pi_action = DEV_ATTACH\<rparr>,
      ed_rx_queues = None, ed_tx_queues = None, ed_nb_rx_queues = 0, ed_nb_tx_queues = 0, ed_conf = conf_zero, ed_min_rx_buf_size = 0,
      ed_mac_addrs = [], ed_mac_pool_sel = replicate 128 0, ed_promiscuous = False, ed_all_multicast = False, ed_started = False,
      ed_rx_queue_state = replicate (unat RTE_MAX_QUEUES_PER_PORT) 0, ed_tx_queue_state = replicate (unat RTE_MAX_QUEUES_PER_PORT) 0, ed_flags = 0,
      ed_owner = 0, ed_link_up = False\<rparr>"

lemma ring_entry_free: "free_entry ring_entry"
  by (simp add: free_entry_def ring_entry_def)

text \<open>The port made from the ring at address 5.\<close>

definition ring_port :: ring_dev where
  "ring_port = (case do_eth_dev_ring_create (True, True, True) (Some ring_entry) [5] 1 [5] 1 DEV_ATTACH of Some (Inr dev) \<Rightarrow> dev | _ \<Rightarrow> ring_entry)"

lemma ring_port_is:
  "eth_wf ring_port" "free_entry ring_port" "ed_state ring_port = RTE_ETH_DEV_ATTACHED" "rx_on 0 5 ring_port" "tx_on 0 5 ring_port"
  "pi_max_rx_queues (ed_private ring_port) = 1" "pi_max_tx_queues (ed_private ring_port) = 1"
  using ring_create_ok [OF ring_entry_free, of "[5]" "[5]" DEV_ATTACH] by (auto simp: ring_port_def)

definition ring_ports :: "ring_dev list" where
  "ring_ports = ring_port # replicate 31 ring_entry"

lemma ring_ports_ok: "ports_wf ring_ports" "rte_eth_dev_is_valid_port ring_ports 0" "ring_ports ! 0 = ring_port"
  using ring_port_is(1,3)
  by (auto simp: ports_wf_def ring_ports_def RTE_MAX_ETHPORTS_def rte_eth_dev_is_valid_port_def ring_entry_def)

theorem ring_port_refines_queue_witness:
  "\<exists>s' R'. port_bursts [Tx_burst [7, 8, 9], Rx_burst [0, 0]] (ring_port, [5 \<mapsto> ring_sample]) = Some ([[7, 8], [3, 7]], s') \<and>
     loop_port 5 R' s' \<and> ring_items R' = [8]"
proof -
  have "loop_port 5 ring_sample (ring_port, [5 \<mapsto> ring_sample])"
    using ring_port_is(4,5) ring_sample_wf(1) by (simp add: loop_port_def)
  from ring_port_refines_queue [OF this, of "[Tx_burst [7, 8, 9], Rx_burst [0, 0]]"] show ?thesis
    unfolding ring_sample_wf by (auto simp: ring_sample_def Let_def)
qed

theorem ring_port_created_witness:
  "(\<exists>dev. rte_eth_from_rings 0 (True, True, True) (Some ring_entry) ''p'' (Some [5, 6]) 2 (Some [7]) 1 = Some (Inr dev) \<and> rx_on 1 6 dev \<and> tx_on 0 7 dev) \<and>
   rte_eth_from_rings 0 (True, True, True) (Some ring_entry) ''p'' (Some [5]) 1 (Some [0..<17]) 17 = None"
proof
  show "\<exists>dev. rte_eth_from_rings 0 (True, True, True) (Some ring_entry) ''p'' (Some [5, 6]) 2 (Some [7]) 1 = Some (Inr dev) \<and> rx_on 1 6 dev \<and> tx_on 0 7 dev"
    using ring_port_created [OF ring_entry_free, of "''p''" "[5, 6]" "[7]"] by (fastforce simp: less_Suc_eq)
  show "rte_eth_from_rings 0 (True, True, True) (Some ring_entry) ''p'' (Some [5]) 1 (Some [0..<17]) 17 = None"
    using ring_port_created [OF ring_entry_free, of "''p''" "[5]" "[0..<17]"] by (simp del: upt_rec_numeral)
qed

theorem eth_calls_safe_witness:
  "\<exists>rs devs'. api_calls (ed_private ring_entry) (\<lambda>_. ring_ops) [Api_start 0, Api_configure (True, False) 0 7 1 conf_zero, Api_stop 40] ring_ports = Some (rs, devs') \<and> length rs = 3"
  using eth_calls_safe [where ops = "\<lambda>_. ring_ops" and nil = "ed_private ring_entry" and devs = ring_ports
      and cs = "[Api_start 0, Api_configure (True, False) 0 7 1 conf_zero, Api_stop 40]", OF ring_drv.eth_driver_axioms ring_ports_ok(1)]
  by (auto simp del: api_calls.simps)

theorem configure_done_or_undone_witness:
  "\<exists>r dev'. rte_eth_dev_configure (\<lambda>_. ring_ops) (True, True) 0 7 1 conf_zero ring_ports = Some (r, ring_ports[0 := dev']) \<and> ed_started dev' = ed_started ring_port"
  using configure_done_or_undone [where ops = "\<lambda>_. ring_ops" and p = 0 and alloc = "(True, True)" and rx = 7 and tx = 1 and conf = conf_zero,
      OF ring_drv.eth_driver_axioms ring_ports_ok(1,2)] unfolding unat_0 ring_ports_ok(3) by blast
end
