(* ===== verification/EthDescs.thy ===== *)
theory EthDescs
  imports Ethdev
begin

text \<open>
  The number of descriptors of a queue: \<open>rte_eth_dev_adjust_nb_rx_tx_desc\<close> turns a request into a number that the
  setup of the queue accepts.
\<close>

section \<open>Limits and requests\<close>

text \<open>Limits as a card has them: an alignment to a power of two that the bounds keep.\<close>

definition lim_ok :: "eth_desc_lim \<Rightarrow> bool" where
  "lim_ok lim \<longleftrightarrow> rte_is_power_of_2 (ucast (nb_align lim)) \<and> nb_min lim \<le> nb_max lim \<and> nb_max lim \<noteq> 0 \<and>
     nb_min lim mod nb_align lim = 0 \<and> nb_max lim mod nb_align lim = 0"

lemma pow2_16:
  fixes a :: u16
  assumes "rte_is_power_of_2 (ucast a)"
  obtains k where "a = 2 ^ k" "k < 16" "unat a = 2 ^ k"
proof -
  obtain k where k: "unat (ucast a :: u32) = 2 ^ k"
    using assms is_power_of_2_iff by blast
  have "unat (ucast a :: u32) = unat a" by (rule unat_ucast_up) simp
  then have u: "unat a = 2 ^ k" using k by simp
  then have "(2::nat) ^ k < 2 ^ 16" using unat_lt2p [of a] by simp
  then have "k < 16" using power_less_imp_less_exp [of 2 k 16] by simp
  moreover have "unat ((2::u16) ^ k) = 2 ^ k" using unat_p2 [where 'a = 16, of k] calculation by simp
  ultimately show ?thesis using that [of k] u by (simp add: word_unat_eq_iff)
qed
lemma align_ceil_wraps:
  fixes val :: "'a::len word"
  assumes "k < LENGTH('a)" "2 ^ LENGTH('a) < unat val + 2 ^ k"
  shows "RTE_ALIGN_CEIL val (2 ^ k) = 0"
proof -
  have m: "unat ((2 :: 'a word) ^ k - 1) = 2 ^ k - 1"
    using unat_p2 [OF assms(1)] assms(1) by (simp add: unat_minus_one)
  have p: "(2::nat) ^ k < 2 ^ LENGTH('a)" using assms(1) by simp
  have "unat (val + (2 ^ k - 1)) = (unat val + (2 ^ k - 1)) mod 2 ^ LENGTH('a)"
    by (simp only: unat_word_ariths m)
  also have "\<dots> = unat val + (2 ^ k - 1) - 2 ^ LENGTH('a)"
  proof -
    have "2 ^ LENGTH('a) \<le> unat val + (2 ^ k - 1)" "unat val + (2 ^ k - 1) - 2 ^ LENGTH('a) < 2 ^ LENGTH('a)"
      using assms(2) unat_lt2p [of val] p by linarith+
    then show ?thesis by (simp only: le_mod_geq mod_less)
  qed
  also have "\<dots> < 2 ^ k" using unat_lt2p [of val] p zero_less_power [of "2::nat" k] by linarith
  finally have "unat (val + (2 ^ k - 1)) < 2 ^ k" .
  then have "unat (RTE_ALIGN_CEIL val (2 ^ k)) = 0"
    by (simp add: RTE_ALIGN_CEIL_def align_floor_spec [OF assms(1)])
  then show ?thesis by (simp add: unat_eq_0)
qed

lemma multiple_below_end:
  assumes "a mod 2 ^ k = 0" "a < 2 ^ n" "k \<le> n"
  shows "a + 2 ^ k \<le> (2 ^ n :: nat)"
proof -
  obtain j where j: "a = 2 ^ k * j" using assms(1) by auto
  obtain i where n: "n = k + i" using assms(3) le_Suc_ex by blast
  have "j < 2 ^ i" using assms(2) unfolding j n power_add by simp
  then have "2 ^ k * (j + 1) \<le> 2 ^ k * 2 ^ i" by (intro mult_le_mono2) simp
  then show ?thesis by (simp add: j n power_add)
qed

lemma multiple_above:
  assumes "c < a + d" "a \<le> b" "b mod d = 0" "c mod d = (0::nat)"
  shows "c \<le> b"
proof (rule ccontr)
  assume "\<not> c \<le> b"
  then have "b < c" by simp
  obtain i j where ij: "b = d * i" "c = d * j" using assms(3,4) by (metis mod_0_imp_dvd dvd_def)
  have "i < j" using \<open>b < c\<close> ij by simp
  then have "d * (i + 1) \<le> d * j" by (intro mult_le_mono2) simp
  then show False using assms(1,2) ij by simp
qed

lemma word_mod_0: "x mod d = 0 \<longleftrightarrow> unat x mod unat d = 0"
  for x d :: "'a::len word"
  by (metis unat_mod unat_eq_0)

lemma desc_refused_ok:
  assumes "nb_align lim \<noteq> 0"
  shows "desc_refused n lim = Some False \<longleftrightarrow> nb_min lim \<le> n \<and> n \<le> nb_max lim \<and> unat n mod unat (nb_align lim) = 0"
  using assms unfolding desc_refused_def by (auto simp: not_less simp flip: word_mod_0)

text \<open>The two cases of a request, without wrap-around and with it.\<close>

lemma adjust_in_range:
  assumes lim: "lim_ok lim" and n: "n \<le> nb_max lim"
  shows "desc_refused (rte_eth_dev_adjust_nb_desc n lim) lim = Some False \<and> n \<le> rte_eth_dev_adjust_nb_desc n lim \<and>
     (\<forall>m. desc_refused m lim = Some False \<and> n \<le> m \<longrightarrow> rte_eth_dev_adjust_nb_desc n lim \<le> m)"
proof -
  obtain k where k: "nb_align lim = 2 ^ k" "k < 16" "unat (nb_align lim) = 2 ^ k"
    using pow2_16 lim unfolding lim_ok_def by blast
  have m: "unat (nb_max lim) mod 2 ^ k = 0" "unat (nb_min lim) mod 2 ^ k = 0" "nb_align lim \<noteq> 0"
    using lim k(3) unfolding lim_ok_def word_mod_0 by auto
  have room: "unat n + 2 ^ k \<le> 2 ^ 16"
    using multiple_below_end [OF m(1), of 16] unat_lt2p [of "nb_max lim"] k(2) n by (simp add: word_le_nat_alt)
  let ?c = "RTE_ALIGN_CEIL n (2 ^ k)"
  have c: "unat n \<le> unat ?c" "unat ?c < unat n + 2 ^ k" "unat ?c mod 2 ^ k = 0"
    using align_ceil_spec [of k n] k(2) room by simp_all
  have le: "unat ?c \<le> unat b" if "unat n \<le> unat b" "unat b mod 2 ^ k = 0" for b :: u16
    by (rule multiple_above [OF c(2) that c(3)])
  have cm: "?c \<le> nb_max lim" using le [of "nb_max lim"] m(1) n by (simp add: word_le_nat_alt)
  have adj: "rte_eth_dev_adjust_nb_desc n lim = max ?c (nb_min lim)"
    using lim m(3) cm unfolding rte_eth_dev_adjust_nb_desc_def lim_ok_def k(1) by (simp add: Let_def min_def)
  have "desc_refused (max ?c (nb_min lim)) lim = Some False"
    unfolding desc_refused_ok [OF m(3)] k(3) using cm lim m(2) c(3) by (auto simp: lim_ok_def max_def)
  moreover have "n \<le> max ?c (nb_min lim)" using c(1) by (simp add: word_le_nat_alt max_def)
  moreover have "max ?c (nb_min lim) \<le> b" if "desc_refused b lim = Some False" "n \<le> b" for b
    using that le [of b] unfolding desc_refused_ok [OF m(3)] k(3) by (simp add: word_le_nat_alt max_def)
  ultimately show ?thesis unfolding adj by blast
qed

lemma adjust_above:
  assumes lim: "lim_ok lim" and n: "nb_max lim < n"
  shows "rte_eth_dev_adjust_nb_desc n lim = (if unat n + unat (nb_align lim) \<le> 2 ^ 16 then nb_max lim else nb_min lim)"
proof -
  obtain k where k: "nb_align lim = 2 ^ k" "k < 16" "unat (nb_align lim) = 2 ^ k"
    using pow2_16 lim unfolding lim_ok_def by blast
  have al: "nb_align lim \<noteq> 0" using k(3) by auto
  show ?thesis
  proof (cases "unat n + 2 ^ k \<le> 2 ^ 16")
    case True
    then have "unat n \<le> unat (RTE_ALIGN_CEIL n (2 ^ k))" using align_ceil_spec [of k n] k(2) by simp
    then have "\<not> RTE_ALIGN_CEIL n (2 ^ k) \<le> nb_max lim" using n by (simp add: word_le_nat_alt word_less_nat_alt)
    moreover have "nb_max lim \<noteq> 0" "nb_min lim \<le> nb_max lim" using lim by (auto simp: lim_ok_def)
    ultimately show ?thesis using True al unfolding rte_eth_dev_adjust_nb_desc_def k(3) unfolding k(1)
      by (simp add: Let_def min_def max_def)
  next
    case False
    then have "RTE_ALIGN_CEIL n (2 ^ k) = 0" using align_ceil_wraps [of k n] k(2) by simp
    then show ?thesis using False al unfolding rte_eth_dev_adjust_nb_desc_def k(3) unfolding k(1)
      by (auto simp: Let_def min_def max_def word_le_nat_alt unat_eq_0)
  qed
qed

text \<open>The room without the headroom is computed in 32 bits without sign: a pool with less room than the headroom passes for every driver.\<close>

lemma small_pool_accepted:
  assumes "data_room < RTE_PKTMBUF_HEADROOM" "unat (di_min_rx_bufsize info) < 2 ^ 31"
  shows "\<not> pool_refused data_room info"
proof -
  have "unat data_room < 128" using assms(1) by (simp add: RTE_PKTMBUF_HEADROOM_def word_less_nat_alt)
  moreover have "unat (ucast data_room :: u32) = unat data_room" by (rule unat_ucast_up) simp
  ultimately have u: "unat (ucast data_room :: u32) < 128" by simp
  have "unat ((ucast data_room :: u32) - 128) = unat (ucast data_room :: u32) + 2 ^ 32 - 128"
    using u by (simp add: unat_sub_if')
  then show ?thesis using assms(2) by (simp add: pool_refused_def RTE_PKTMBUF_HEADROOM_def word_less_nat_alt)
qed

section \<open>Properties\<close>

text \<open>
  C21: Descriptor numbers. For limits whose alignment is a power of two that divides both bounds, whatever number of descriptors is asked for, the adjusted
  number is one that the setup of the queue accepts. A request up to the maximum gives the least acceptable number that is no smaller. A request above it gives the maximum,
  unless rounding it up wraps around in 16 bits: then it gives the minimum.
\<close>

theorem adjusted_descs_accepted:
  assumes "lim_ok lim"
  shows "desc_refused (rte_eth_dev_adjust_nb_desc n lim) lim = Some False \<and>
     (if n \<le> nb_max lim
      then n \<le> rte_eth_dev_adjust_nb_desc n lim \<and>
           (\<forall>m. desc_refused m lim = Some False \<and> n \<le> m \<longrightarrow> rte_eth_dev_adjust_nb_desc n lim \<le> m)
      else rte_eth_dev_adjust_nb_desc n lim = (if unat n + unat (nb_align lim) \<le> 2 ^ 16 then nb_max lim else nb_min lim))"
proof (cases "n \<le> nb_max lim")
  case True
  then show ?thesis using adjust_in_range [OF assms] by simp
next
  case False
  have al: "nb_align lim \<noteq> 0" using assms unfolding lim_ok_def rte_is_power_of_2_def by auto
  have "desc_refused m lim = Some False" if "m = nb_max lim \<or> m = nb_min lim" for m
    using assms that unfolding desc_refused_ok [OF al] lim_ok_def by (auto simp: word_mod_0)
  then show ?thesis using False adjust_above [OF assms] by simp
qed

theorem adjusted_descs_accepted_witness:
  "lim_ok \<lparr>nb_max = 4096, nb_min = 64, nb_align = 32\<rparr> \<and>
   rte_eth_dev_adjust_nb_desc 1000 \<lparr>nb_max = 4096, nb_min = 64, nb_align = 32\<rparr> = 1024 \<and>
   rte_eth_dev_adjust_nb_desc 65535 \<lparr>nb_max = 4096, nb_min = 64, nb_align = 32\<rparr> = 64 \<and>
   desc_refused 1024 \<lparr>nb_max = 4096, nb_min = 64, nb_align = 32\<rparr> = Some False"
proof -
  let ?lim = "\<lparr>nb_max = 4096, nb_min = 64, nb_align = 32\<rparr>"
  have ok: "lim_ok ?lim" by code_simp
  have "rte_eth_dev_adjust_nb_desc 1000 ?lim = 1024" by code_simp
  moreover have "rte_eth_dev_adjust_nb_desc 65535 ?lim = 64" by code_simp
  ultimately show ?thesis using ok adjusted_descs_accepted [OF ok, of 1000] by simp
qed

end
