(* ===== verification/ServerPort.thy ===== *)
theory ServerPort
  imports EthRing EthDescs Network
begin

text \<open>
  The server's calls of the device layer (\<open>init_port\<close> in \<open>network.c\<close>) made on the model of that layer: what
  \<open>Network\<close> takes as the answers of the calls is here what they return.
\<close>

section \<open>The calls\<close>

text \<open>The configuration of \<open>init_port\<close>; its transmit offloads are those of zeroed memory that the device has.\<close>

definition server_conf :: "rte_eth_dev_info \<Rightarrow> eth_conf" where
  "server_conf info = conf_zero\<lparr>cf_max_rx_pkt_len := ETHER_MAX_LEN, cf_tx_offloads := cf_tx_offloads conf_zero AND di_tx_offload_capa info\<rparr>"

definition server_rxconf :: "rte_eth_dev_info \<Rightarrow> eth_rxconf" where
  "server_rxconf info = (di_default_rxconf info)\<lparr>rxc_offloads := cf_rx_offloads (server_conf info)\<rparr>"

definition server_txconf :: "rte_eth_dev_info \<Rightarrow> eth_txconf" where
  "server_txconf info = (di_default_txconf info)\<lparr>txc_offloads := cf_tx_offloads (server_conf info)\<rparr>"

text \<open>A call of \<open>Network\<close> with the arguments \<open>init_port\<close> gives it, on port 0; \<open>Dev_info_get\<close> changes nothing.\<close>

fun server_api :: "rte_eth_dev_info \<Rightarrow> bool \<times> bool \<Rightarrow> u32 \<Rightarrow> rx_pool \<Rightarrow> eth_call \<Rightarrow> eth_api list" where
  "server_api info alloc socket mp (Dev_configure rx tx) = [Api_configure alloc 0 rx tx (server_conf info)]"
| "server_api info alloc socket mp (Rx_queue_setup n i) = [Api_rx_queue_setup 0 (of_nat i) n socket (Some (server_rxconf info)) mp]"
| "server_api info alloc socket mp (Tx_queue_setup n i) = [Api_tx_queue_setup 0 (of_nat i) n socket (Some (server_txconf info))]"
| "server_api info alloc socket mp Promiscuous_enable = [Api_promiscuous_enable 0]"
| "server_api info alloc socket mp Dev_start = [Api_start 0]"
| "server_api info alloc socket mp Dev_stop = [Api_stop 0]"
| "server_api info alloc socket mp Dev_close = [Api_close 0]"
| "server_api info alloc socket mp _ = []"

text \<open>The calls of \<open>init_port\<close> when none fails, and those with an answer.\<close>

definition start_calls :: "eth_call list" where
  "start_calls = [Dev_info_get, Dev_configure 1 1, Rx_queue_setup 512 0, Tx_queue_setup 512 0, Promiscuous_enable, Dev_start]"

lemma init_port_all_ok:
  assumes "ans (Dev_configure 1 1) = 0" "ans (Rx_queue_setup 512 0) = 0" "ans (Tx_queue_setup 512 0) = 0" "ans Dev_start = 0"
  shows "init_port ans = (None, start_calls)"
  using assms by (simp add: init_port_def nr_queues_def start_calls_def upt_rec)

section \<open>On a port with rings\<close>

lemma kept_first:
  assumes "0 < length xs" "length xs = unat n"
  shows "take (Suc 0) (take (unat n) xs @ replicate (unat (1 - n)) y) = [xs ! 0]"
  using assms by (cases xs) auto

text \<open>A stopped port of the ring driver with a first receive and a first transmit queue.\<close>

definition ring_ready :: "nat \<Rightarrow> nat \<Rightarrow> ring_dev \<Rightarrow> bool" where
  "ring_ready a b dev \<longleftrightarrow> eth_wf dev \<and> \<not> ed_started dev \<and> rx_on 0 a dev \<and> tx_on 0 b dev \<and>
     (ucast (pi_max_rx_queues (ed_private dev)) :: u16) \<noteq> 0 \<and> (ucast (pi_max_tx_queues (ed_private dev)) :: u16) \<noteq> 0"

lemma ring_info: "rte_eth_dev_info_get ring_ops dev =
    info_zero\<lparr>di_rx_desc_lim := desc_lim_default, di_tx_desc_lim := desc_lim_default, di_min_mtu := 68, di_max_mtu := 65535,
      di_max_mac_addrs := 1, di_max_rx_pktlen := - 1, di_max_rx_queues := ucast (pi_max_rx_queues (ed_private dev)),
      di_max_tx_queues := ucast (pi_max_tx_queues (ed_private dev)), di_min_rx_bufsize := 0, di_nb_rx_queues := ed_nb_rx_queues dev,
      di_nb_tx_queues := ed_nb_tx_queues dev, di_flags_set := True\<rparr>"
  by (simp add: rte_eth_dev_info_get_def ring_ops_def eth_dev_info_def Let_def)

lemma release_nothing: "fold eth_queue_release qs d = d"
  by (induction qs) (simp_all add: eth_queue_release_def)

lemma ring_queue_config:
  assumes "queues_ok q n" "queue_ptr q 0 = Some x"
  shows "queue_array_config (Some eth_queue_release) True 1 (q, n, d) = Some (0, Some [Some x], 1, d)"
proof -
  obtain xs where q: "q = Some xs" "0 < length xs" "xs ! 0 = Some x" using assms(2) unfolding queue_ptr_Some by auto
  then have l: "length xs = unat n" using assms(1) by (simp add: queues_ok_def)
  show ?thesis using q l kept_first [OF q(2) l] by (simp add: queue_array_config_def release_nothing)
qed

lemma ring_configure:
  assumes "ring_ready a b dev"
  shows "configure_dev ring_ops (True, True) 1 1 (server_conf (rte_eth_dev_info_get ring_ops dev)) dev =
     Some (0, dev\<lparr>ed_conf := server_conf (rte_eth_dev_info_get ring_ops dev), ed_rx_queues := Some [Some (Rx_queue 0)], ed_nb_rx_queues := 1,
                  ed_tx_queues := Some [Some (Tx_queue 0)], ed_nb_tx_queues := 1\<rparr>)"
proof -
  let ?info = "rte_eth_dev_info_get ring_ops dev" let ?conf = "server_conf (rte_eth_dev_info_get ring_ops dev)"
  let ?i2 = "rte_eth_dev_info_get ring_ops (dev\<lparr>ed_conf := ?conf\<rparr>)"
  have r: "eth_wf dev" "\<not> ed_started dev" "rx_on 0 a dev" "tx_on 0 b dev" using assms by (simp_all add: ring_ready_def)
  have ok: "\<not> conf_refused ?i2 (ed_flags dev) 1 1 ?conf"
    using assms by (simp add: conf_refused_def ring_info server_conf_def conf_zero_def RTE_MAX_QUEUES_PER_PORT_def info_zero_def ring_ready_def not_less)
  have req: "requested_queues ?i2 1 1 = (1, 1)" by (simp add: requested_queues_def)
  have clamp: "conf_clamped ?conf = ?conf" by (simp add: conf_clamped_def server_conf_def conf_zero_def ETHER_MAX_LEN_def ETHER_MIN_LEN_def)
  have rx: "queue_array_config (Some eth_queue_release) True 1 (ed_rx_queues dev, ed_nb_rx_queues dev, ed_private dev) =
      Some (0, Some [Some (Rx_queue 0)], 1, ed_private dev)"
    using r by (intro ring_queue_config) (simp_all add: eth_wf_def rx_on_def)
  have tx: "queue_array_config (Some eth_queue_release) True 1 (ed_tx_queues dev, ed_nb_tx_queues dev, ed_private dev) =
      Some (0, Some [Some (Tx_queue 0)], 1, ed_private dev)"
    using r by (intro ring_queue_config) (simp_all add: eth_wf_def tx_on_def)
  have q: "queues_config ring_ops (True, True) 1 1 (dev\<lparr>ed_conf := ?conf\<rparr>) =
     Some (0, dev\<lparr>ed_conf := ?conf, ed_rx_queues := Some [Some (Rx_queue 0)], ed_nb_rx_queues := 1, ed_tx_queues := Some [Some (Tx_queue 0)], ed_nb_tx_queues := 1\<rparr>)"
    using rx tx by (simp add: queues_config_def rte_eth_dev_rx_queue_config_def rte_eth_dev_tx_queue_config_def ring_ops_def)
  have ops: "op_dev_infos_get ring_ops = Some eth_dev_info" "op_dev_configure ring_ops = Some eth_dev_configure" by (simp_all add: ring_ops_def)
  show ?thesis
    using r(2) ok unfolding configure_dev_def ops
    by (simp add: Let_def req q clamp eth_dev_configure_def)
qed
lemma eth_err_zero [simp]: "eth_err ops (0, dev) = (0, dev)"
  by (simp add: eth_err_def)

lemma ring_rx_setup:
  assumes q: "ed_rx_queues dev = Some [Some (Rx_queue 0)]" "ed_nb_rx_queues dev = 1" and c: "cf_rx_offloads (ed_conf dev) = 0"
    and st: "\<not> ed_started dev" and mp: "4 \<le> rp_private_data_size mp" and off: "rxc_offloads rxc = 0"
  shows "\<exists>m. rx_queue_setup_dev ring_ops 0 512 socket (Some rxc) mp dev = Some (0, dev\<lparr>ed_min_rx_buf_size := m\<rparr>)"
proof -
  let ?info = "rte_eth_dev_info_get ring_ops dev"
  have p: "\<not> rp_private_data_size mp < sizeof_pktmbuf_pool_private" "\<not> pool_refused (rp_data_room mp) ?info"
    using mp by (simp_all add: sizeof_pktmbuf_pool_private_def not_less pool_refused_def ring_info)
  have d: "desc_refused (requested_desc 512 (di_default_rxportconf ?info) RTE_ETH_DEV_FALLBACK_RX_RINGSIZE) (di_rx_desc_lim ?info) = Some False"
    by (simp add: ring_info requested_desc_def desc_lim_default_def desc_refused_def)
  have b: "queue_busy False capa states i = Some False" for capa states i by (simp add: queue_busy_def)
  have dr: "queue_drop (op_rx_queue_release ring_ops) 0 (ed_rx_queues dev, ed_private dev) = Some (Some (Some [None], ed_private dev))"
    by (simp add: queue_drop_def q ring_ops_def eth_queue_release_def)
  have ops: "op_dev_infos_get ring_ops = Some eth_dev_info" "op_rx_queue_setup ring_ops = Some eth_rx_queue_setup" by (simp_all add: ring_ops_def)
  have set: "eth_rx_queue_setup (dev\<lparr>ed_rx_queues := Some [None]\<rparr>) 0 n s c' a = Some (0, dev)" for n s c' a
    using q(1) by (simp add: eth_rx_queue_setup_def)
  have nb: "\<not> ed_nb_rx_queues dev \<le> 0" using q(2) by simp
  have rxc: "rxc\<lparr>rxc_offloads := 0\<rparr> = rxc" using off by simp
  show ?thesis
  proof (cases "ed_min_rx_buf_size dev = 0 \<or> ed_min_rx_buf_size dev > ucast (rp_data_room mp)")
    case True
    then have "rx_queue_setup_dev ring_ops 0 512 socket (Some rxc) mp dev = Some (0, dev\<lparr>ed_min_rx_buf_size := ucast (rp_data_room mp)\<rparr>)"
      unfolding rx_queue_setup_dev_def ops using nb st off by (simp add: Let_def p d b dr c set)
    then show ?thesis by blast
  next
    case False
    then have "rx_queue_setup_dev ring_ops 0 512 socket (Some rxc) mp dev = Some (0, dev\<lparr>ed_min_rx_buf_size := ed_min_rx_buf_size dev\<rparr>)"
      unfolding rx_queue_setup_dev_def ops using nb st off by (simp add: Let_def p d b dr c set)
    then show ?thesis by blast
  qed
qed

lemma ring_tx_setup:
  assumes q: "ed_tx_queues dev = Some [Some (Tx_queue 0)]" "ed_nb_tx_queues dev = 1" and c: "cf_tx_offloads (ed_conf dev) = 0"
    and st: "\<not> ed_started dev" and off: "txc_offloads txc = 0"
  shows "tx_queue_setup_dev ring_ops 0 512 socket (Some txc) dev = Some (0, dev)"
proof -
  let ?info = "rte_eth_dev_info_get ring_ops dev"
  have d: "desc_refused (requested_desc 512 (di_default_txportconf ?info) RTE_ETH_DEV_FALLBACK_TX_RINGSIZE) (di_tx_desc_lim ?info) = Some False"
    by (simp add: ring_info requested_desc_def desc_lim_default_def desc_refused_def)
  have b: "queue_busy False capa states i = Some False" for capa states i by (simp add: queue_busy_def)
  have dr: "queue_drop (op_tx_queue_release ring_ops) 0 (ed_tx_queues dev, ed_private dev) = Some (Some (Some [None], ed_private dev))"
    by (simp add: queue_drop_def q ring_ops_def eth_queue_release_def)
  have ops: "op_dev_infos_get ring_ops = Some eth_dev_info" "op_tx_queue_setup ring_ops = Some eth_tx_queue_setup" by (simp_all add: ring_ops_def)
  have set: "eth_tx_queue_setup (dev\<lparr>ed_tx_queues := Some [None]\<rparr>) 0 n s c' = Some (0, dev)" for n s c'
    using q(1) by (simp add: eth_tx_queue_setup_def)
  have nb: "\<not> ed_nb_tx_queues dev \<le> 0" using q(2) by simp
  show ?thesis unfolding tx_queue_setup_dev_def ops using nb st off by (simp add: Let_def d b dr c set)
qed

lemma ring_start:
  assumes wf: "eth_wf dev" and st: "\<not> ed_started dev" and lsc: "\<not> cf_lsc (ed_conf dev)"
  shows "start_dev ring_ops dev = Some (0, dev\<lparr>ed_started := True, ed_link_up := True\<rparr>)"
proof -
  have one: "[1..<Suc 0] = []" by simp
  have macs: "rte_eth_dev_mac_restore ring_ops (rte_eth_dev_info_get ring_ops dev) d = Some d" if "ed_mac_addrs d \<noteq> []" for d
    using that by (simp add: rte_eth_dev_mac_restore_def ring_ops_def ring_info [unfolded ring_ops_def] eth_mac_addr_add_def)
  have ops: "op_dev_start ring_ops = Some eth_dev_start" "op_link_update ring_ops = Some eth_link_update" "op_promiscuous_enable ring_ops = None"
    "op_promiscuous_disable ring_ops = None" "op_allmulticast_enable ring_ops = None" "op_allmulticast_disable ring_ops = None"
    by (simp_all add: ring_ops_def)
  have ne: "ed_mac_addrs dev \<noteq> []" using wf by (simp add: eth_wf_def)
  have fl: "info_flags (rte_eth_dev_info_get ring_ops dev) d = Some (ed_flags d)" for d by (simp add: info_flags_def ring_info)
  show ?thesis
    unfolding start_dev_def ops using st lsc ne
    by (simp add: Let_def fl macs eth_dev_start_def rte_eth_dev_config_restore_def promiscuous_enable_dev_def promiscuous_disable_dev_def
          allmulticast_enable_dev_def allmulticast_disable_dev_def ops eth_link_update_def)
qed

section \<open>Properties\<close>

text \<open>
  C17: Starting the server on a port made from rings. With memory, the calls of \<open>init_port\<close> on such a port all answer 0, so that \<open>init_port\<close> makes them all and ends without an error; the
  port is then running with one receive and one transmit queue, on the first of its receive and of its transmit rings. It is not in promiscuous mode: the driver has none, and the
  call has no answer that would tell.
\<close>

theorem server_starts_on_rings:
  assumes e: "free_entry e" and name: "length name < 20" and rx: "0 < length rx" "length rx \<le> 16" and tx: "0 < length tx" "length tx \<le> 16"
    and port: "rte_eth_from_rings 0 (True, True, True) (Some e) name (Some rx) (of_nat (length rx)) (Some tx) (of_nat (length tx)) = Some (Inr dev)"
    and devs: "ports_wf devs" "devs ! 0 = dev" and mp: "4 \<le> rp_private_data_size mp"
  shows "\<exists>rs dev'. api_calls nil (\<lambda>_. ring_ops) (concat (map (server_api (rte_eth_dev_info_get ring_ops dev) (True, True) socket mp) start_calls)) devs =
       Some (rs, devs[0 := dev']) \<and>
     (\<forall>ans. map ans (tl start_calls) = rs \<longrightarrow> init_port ans = (None, start_calls)) \<and>
     ed_started dev' \<and> ed_nb_rx_queues dev' = 1 \<and> ed_nb_tx_queues dev' = 1 \<and> rx_on 0 (rx ! 0) dev' \<and> tx_on 0 (tx ! 0) dev' \<and>
     \<not> ed_promiscuous dev'"
proof -
  note d = from_rings_port [OF e name rx tx port]
  have ucast: "(ucast (of_nat (length xs) :: u32) :: u16) \<noteq> 0" if "0 < length xs" "length xs \<le> 16" for xs :: "nat list"
  proof -
    have "unat (ucast (of_nat (length xs) :: u32) :: u16) = length xs" using that by (simp add: unsigned_ucast_eq unsigned_of_nat take_bit_nat_eq_self)
    then show ?thesis using that(1) by auto
  qed
  have ready: "ring_ready (rx ! 0) (tx ! 0) dev" using d ucast [OF rx] ucast [OF tx] by (simp add: ring_ready_def free_entry_def)
  let ?info = "rte_eth_dev_info_get ring_ops dev" let ?conf = "server_conf (rte_eth_dev_info_get ring_ops dev)"
  let ?d1 = "dev\<lparr>ed_conf := ?conf, ed_rx_queues := Some [Some (Rx_queue 0)], ed_nb_rx_queues := 1, ed_tx_queues := Some [Some (Tx_queue 0)], ed_nb_tx_queues := 1\<rparr>"
  have zero: "cf_rx_offloads ?conf = 0" "cf_tx_offloads ?conf = 0" "\<not> cf_lsc ?conf" "rxc_offloads (server_rxconf ?info) = 0" "txc_offloads (server_txconf ?info) = 0"
    by (simp_all add: server_conf_def conf_zero_def server_rxconf_def server_txconf_def)
  have st: "\<not> ed_started dev" "\<not> ed_promiscuous dev" using d(2) by (simp_all add: free_entry_def)
  obtain m where m: "rx_queue_setup_dev ring_ops 0 512 socket (Some (server_rxconf ?info)) mp ?d1 = Some (0, ?d1\<lparr>ed_min_rx_buf_size := m\<rparr>)"
    using ring_rx_setup [of ?d1 mp "server_rxconf ?info" socket] zero st(1) mp by auto
  let ?d2 = "?d1\<lparr>ed_min_rx_buf_size := m\<rparr>"
  have t: "tx_queue_setup_dev ring_ops 0 512 socket (Some (server_txconf ?info)) ?d2 = Some (0, ?d2)"
    by (rule ring_tx_setup) (simp_all add: zero st)
  have wf2: "eth_wf ?d2" using d(1) by (simp add: eth_wf_def queues_ok_def RTE_MAX_QUEUES_PER_PORT_def)
  have s: "start_dev ring_ops ?d2 = Some (0, ?d2\<lparr>ed_started := True, ed_link_up := True\<rparr>)"
    by (rule ring_start [OF wf2]) (simp_all add: zero st)
  have len: "0 < length devs" using devs(1) by (simp add: ports_wf_def RTE_MAX_ETHPORTS_def)
  have on: "on_port err 0 f (devs[0 := x]) = map_option (\<lambda>(r, dev). (r, devs[0 := dev])) (f x)" if "ed_state x = RTE_ETH_DEV_ATTACHED" for err f x
    using that len by (simp add: on_port_def rte_eth_dev_is_valid_port_def RTE_MAX_ETHPORTS_def bind_case_option split: option.splits)
  have at: "ed_state ?d1 = RTE_ETH_DEV_ATTACHED" "ed_state ?d2 = RTE_ETH_DEV_ATTACHED" using d(3) by simp_all
  have devs0: "devs = devs[0 := dev]" using devs(2) by (metis list_update_id)
  have run: "api_calls nil (\<lambda>_. ring_ops) (concat (map (server_api ?info (True, True) socket mp) start_calls)) devs =
      Some ([0, 0, 0, 0, 0], devs[0 := ?d2\<lparr>ed_started := True, ed_link_up := True\<rparr>])"
  proof -
    have pr: "promiscuous_enable_dev ring_ops x = x" for x by (simp add: promiscuous_enable_dev_def ring_ops_def)
    have 1: "api_call nil (\<lambda>_. ring_ops) (Api_configure (True, True) 0 1 1 ?conf) devs = Some (0, devs[0 := ?d1])"
      unfolding api_call.simps rte_eth_dev_configure_def by (subst devs0, subst on [OF d(3)]) (simp add: ring_configure [OF ready])
    have 2: "api_call nil (\<lambda>_. ring_ops) (Api_rx_queue_setup 0 0 512 socket (Some (server_rxconf ?info)) mp) (devs[0 := ?d1]) = Some (0, devs[0 := ?d2])"
      unfolding api_call.simps rte_eth_rx_queue_setup_def on [OF at(1)] m by simp
    have 3: "api_call nil (\<lambda>_. ring_ops) (Api_tx_queue_setup 0 0 512 socket (Some (server_txconf ?info))) (devs[0 := ?d2]) = Some (0, devs[0 := ?d2])"
      unfolding api_call.simps rte_eth_tx_queue_setup_def on [OF at(2)] t by simp
    have 4: "api_call nil (\<lambda>_. ring_ops) (Api_promiscuous_enable 0) (devs[0 := ?d2]) = Some (0, devs[0 := ?d2])"
      unfolding api_call.simps rte_eth_promiscuous_enable_def on [OF at(2)] pr by simp
    have 5: "api_call nil (\<lambda>_. ring_ops) (Api_start 0) (devs[0 := ?d2]) = Some (0, devs[0 := ?d2\<lparr>ed_started := True, ed_link_up := True\<rparr>])"
      unfolding api_call.simps rte_eth_dev_start_def on [OF at(2)] s by simp
    show ?thesis by (simp add: start_calls_def 1 2 3 4 5 del: api_call.simps)
  qed
  have all: "\<forall>ans. map ans (tl start_calls) = [0, 0, 0, 0, 0] \<longrightarrow> init_port ans = (None, start_calls)"
    using init_port_all_ok by (simp add: start_calls_def)
  have q: "rx_on 0 (rx ! 0) (?d2\<lparr>ed_started := True, ed_link_up := True\<rparr>)" "tx_on 0 (tx ! 0) (?d2\<lparr>ed_started := True, ed_link_up := True\<rparr>)"
    using d(4,5) by (simp_all add: rx_on_def tx_on_def queue_ptr_def)
  show ?thesis unfolding run using all q st(2)
    by (intro exI [of _ "[0, 0, 0, 0, 0]"] exI [of _ "?d2\<lparr>ed_started := True, ed_link_up := True\<rparr>"] conjI refl) simp_all
qed

theorem server_starts_on_rings_witness:
  "\<exists>rs dev'. api_calls (ed_private ring_entry) (\<lambda>_. ring_ops)
       (concat (map (server_api (rte_eth_dev_info_get ring_ops ring_port) (True, True) 0 \<lparr>rp_addr = 9, rp_private_data_size = 4, rp_data_room = 2176\<rparr>) start_calls)) ring_ports =
       Some (rs, ring_ports[0 := dev']) \<and> ed_started dev' \<and> rx_on 0 5 dev' \<and> tx_on 0 5 dev'"
proof -
  have port: "rte_eth_from_rings 0 (True, True, True) (Some ring_entry) ''p'' (Some [5]) (of_nat (length [5 :: nat])) (Some [5]) (of_nat (length [5 :: nat])) =
      Some (Inr ring_port)"
    using ring_create_ok [OF ring_entry_free, of "[5]" "[5]" DEV_ATTACH] from_rings_is [of "''p''" "[5]" ring_entry "[5]"]
    by (auto simp: ring_port_def)
  show ?thesis
    using server_starts_on_rings [where e = ring_entry and name = "''p''" and rx = "[5]" and tx = "[5]" and dev = ring_port and devs = ring_ports
        and mp = "\<lparr>rp_addr = 9, rp_private_data_size = 4, rp_data_room = 2176\<rparr>" and nil = "ed_private ring_entry" and socket = 0,
        OF ring_entry_free _ _ _ _ _ port ring_ports_ok(1,3)] by (auto simp del: server_api.simps api_calls.simps)
qed

end
