(* ===== verification/MallocElem.thy ===== *)
theory MallocElem
  imports CommonBits
begin

text \<open>
  The elements of DPDK's heap (\<open>malloc_elem.h\<close>, \<open>malloc_elem.c\<close>): headers in front of the blocks, linked to
  their neighbours in memory, with the free ones also in lists by size. The memory of packet pools and rings
  comes from here. A heap has its own store of headers, which stands for the field \<open>heap\<close> of a header; an access to
  an address without a header is undefined. \<open>mh_data\<close> are the bytes of its memory that are no header. \<open>free_head\<close> is a list of addresses for each size (\<open>LIST_INSERT_HEAD\<close> and
  \<open>LIST_REMOVE\<close> are the macros of \<open>sys/queue.h\<close>). Debug cookies are off, as in the default configuration, so trailers are empty.
\<close>

section \<open>Data\<close>

type_synonym eptr = u64

datatype elem_state = ELEM_FREE | ELEM_BUSY | ELEM_PAD

text \<open>What a header says of its block, and its links to the neighbours.\<close>

record elem_block =
  me_msl :: nat
  me_state :: elem_state
  me_pad :: u32
  me_size :: u64
  me_orig_elem :: eptr
  me_orig_size :: u64

record malloc_elem = elem_block +
  me_prev :: eptr
  me_next :: eptr

record malloc_heap =
  mh_elems :: "eptr \<rightharpoonup> malloc_elem"
  mh_free :: "eptr list list"
  mh_first :: eptr
  mh_last :: eptr
  mh_alloc_count :: u32
  mh_socket_id :: u32
  mh_total_size :: u64
  mh_name :: string
  mh_data :: "eptr \<Rightarrow> u8"

text \<open>Lists of memory segments, one page each.\<close>

record memseg =
  sg_addr :: u64
  sg_len :: u64
  sg_flags :: u32
  sg_iova :: u64

record memseg_list =
  ml_base_va :: u64
  ml_page_sz :: u64
  ml_len :: u64
  ml_external :: bool
  ml_segs :: "memseg list"
  ml_socket_id :: c_int

text \<open>The settings the heap depends on; \<open>mc_is_contig\<close> is what \<open>eal_memalloc_is_contig\<close> answers.\<close>

record malloc_conf =
  mc_match_allocations :: bool
  mc_legacy_mem :: bool
  mc_is_contig :: "nat \<Rightarrow> eptr \<Rightarrow> u64 \<Rightarrow> bool"
  mc_msl :: "nat \<Rightarrow> memseg_list"

abbreviation (input) RTE_HEAP_NUM_FREELISTS :: nat where "RTE_HEAP_NUM_FREELISTS \<equiv> 13"
abbreviation (input) MALLOC_ELEM_HEADER_LEN :: u64 where "MALLOC_ELEM_HEADER_LEN \<equiv> 128"
abbreviation (input) MALLOC_ELEM_TRAILER_LEN :: u64 where "MALLOC_ELEM_TRAILER_LEN \<equiv> 0"
abbreviation (input) MALLOC_ELEM_OVERHEAD :: u64 where "MALLOC_ELEM_OVERHEAD \<equiv> 128"
abbreviation (input) MIN_DATA_SIZE :: u64 where "MIN_DATA_SIZE \<equiv> 64"

section \<open>Access\<close>

definition upd_elem :: "eptr \<Rightarrow> (malloc_elem \<Rightarrow> malloc_elem) \<Rightarrow> malloc_heap \<Rightarrow> malloc_heap option" where
  "upd_elem a f h =
     (case mh_elems h a of None \<Rightarrow> None | Some e \<Rightarrow> Some (h\<lparr>mh_elems := (mh_elems h)(a \<mapsto> f e)\<rparr>))"

text \<open>\<open>if (p) p->... = ...\<close>: nothing happens for a NULL pointer.\<close>

definition upd_elem_if :: "eptr \<Rightarrow> (malloc_elem \<Rightarrow> malloc_elem) \<Rightarrow> malloc_heap \<Rightarrow> malloc_heap option" where
  "upd_elem_if a f h = (if a = 0 then Some h else upd_elem a f h)"

text \<open>\<open>memset\<close> to 0: the bytes in the range are zero and the headers in it are gone.\<close>

definition erase_range :: "eptr \<Rightarrow> u64 \<Rightarrow> malloc_heap \<Rightarrow> malloc_heap" where
  "erase_range start len h =
     h\<lparr>mh_elems := (\<lambda>a. if a - start < len then None else mh_elems h a),
       mh_data := (\<lambda>a. if a - start < len then 0 else mh_data h a)\<rparr>"

text \<open>Memory without a header is zero: freed memory is erased.\<close>

definition zero_elem :: malloc_elem where
  "zero_elem = \<lparr>me_msl = 0, me_state = ELEM_FREE, me_pad = 0, me_size = 0, me_orig_elem = 0, me_orig_size = 0,
     me_prev = 0, me_next = 0\<rparr>"

text \<open>The header of the block that has its data at an address. What it reads where there is no header is up to the user's data.\<close>

definition malloc_elem_from_data :: "eptr \<Rightarrow> malloc_heap \<Rightarrow> eptr option" where
  "malloc_elem_from_data data h =
     (if data = 0 then Some 0
      else do {
        let elem = data - MALLOC_ELEM_HEADER_LEN;
        if elem = 0 then Some 0
        else do {
          E \<leftarrow> mh_elems h elem;
          Some (if me_state E \<noteq> ELEM_PAD then elem else elem - ucast (me_pad E)) } })"

section \<open>Elements\<close>

definition malloc_elem_init :: "eptr \<Rightarrow> nat \<Rightarrow> u64 \<Rightarrow> eptr \<Rightarrow> u64 \<Rightarrow> malloc_heap \<Rightarrow> malloc_heap" where
  "malloc_elem_init elem msl sz orig_elem orig_size h =
     h\<lparr>mh_elems := (mh_elems h)(elem \<mapsto>
        \<lparr>me_msl = msl, me_state = ELEM_FREE, me_pad = 0, me_size = sz,
         me_orig_elem = orig_elem, me_orig_size = orig_size, me_prev = 0, me_next = 0\<rparr>)\<rparr>"

partial_function (option) insert_from_start :: "eptr \<Rightarrow> eptr \<Rightarrow> malloc_heap \<Rightarrow> eptr option" where
  "insert_from_start elem prev_elem h = do {
     P \<leftarrow> mh_elems h prev_elem;
     if me_next P < elem then insert_from_start elem (me_next P) h else Some prev_elem }"

partial_function (option) insert_from_end :: "eptr \<Rightarrow> eptr \<Rightarrow> malloc_heap \<Rightarrow> eptr option" where
  "insert_from_end elem next_elem h = do {
     N \<leftarrow> mh_elems h next_elem;
     if me_prev N > elem then insert_from_end elem (me_prev N) h else Some next_elem }"

text \<open>The neighbours between which \<open>elem\<close> goes, and the heap with its ends moved.\<close>

definition insert_place :: "eptr \<Rightarrow> malloc_heap \<Rightarrow> (eptr \<times> eptr \<times> malloc_heap) option" where
  "insert_place elem h =
     (if mh_first h = 0 \<and> mh_last h = 0 then Some (0, 0, h\<lparr>mh_first := elem, mh_last := elem\<rparr>)
      else if elem < mh_first h then Some (0, mh_first h, h\<lparr>mh_first := elem\<rparr>)
      else if elem > mh_last h then Some (mh_last h, 0, h\<lparr>mh_last := elem\<rparr>)
      else do {
        let dist_from_end = mh_last h - elem;
        let dist_from_start = elem - mh_first h;
        if dist_from_start < dist_from_end then do {
          prev_elem \<leftarrow> insert_from_start elem (mh_first h) h;
          P \<leftarrow> mh_elems h prev_elem;
          Some (prev_elem, me_next P, h) }
        else do {
          next_elem \<leftarrow> insert_from_end elem (mh_last h) h;
          N \<leftarrow> mh_elems h next_elem;
          Some (me_prev N, next_elem, h) } })"

definition malloc_elem_insert :: "eptr \<Rightarrow> malloc_heap \<Rightarrow> malloc_heap option" where
  "malloc_elem_insert elem h =
     (if (mh_first h = 0) \<noteq> (mh_last h = 0) then Some h
      else do {
        (prev_elem, next_elem, h) \<leftarrow> insert_place elem h;
        h \<leftarrow> upd_elem elem (\<lambda>E. E\<lparr>me_prev := prev_elem, me_next := next_elem\<rparr>) h;
        h \<leftarrow> upd_elem_if prev_elem (\<lambda>P. P\<lparr>me_next := elem\<rparr>) h;
        upd_elem_if next_elem (\<lambda>N. N\<lparr>me_prev := elem\<rparr>) h })"

text \<open>\<open>RTE_ALIGN_FLOOR\<close> of an address by a 32-bit alignment.\<close>

definition floor_u32 :: "u64 \<Rightarrow> u32 \<Rightarrow> u64" where
  "floor_u32 val align = val AND NOT (ucast (align - 1))"

text \<open>One round of \<open>elem_start_pt\<close>: the start of the data and its end, or nothing when NULL is returned.\<close>

definition start_pt_round :: "eptr \<Rightarrow> u64 \<Rightarrow> u32 \<Rightarrow> u64 \<Rightarrow> u64 \<Rightarrow> (u64 \<times> u64) option" where
  "start_pt_round elem sz align bound elem_size =
     (let bmask = NOT (bound - 1);
          end_pt = elem + elem_size - MALLOC_ELEM_TRAILER_LEN;
          new_data_start = floor_u32 (end_pt - sz) align;
          crosses = (new_data_start AND bmask) \<noteq> ((end_pt - 1) AND bmask);
          end_pt = (if crosses then RTE_ALIGN_FLOOR end_pt bound else end_pt);
          new_data_start = (if crosses then floor_u32 (end_pt - sz) align else new_data_start);
          end_pt = (if crosses then new_data_start + sz else end_pt)
      in if crosses \<and> ((end_pt - 1) AND bmask) \<noteq> (new_data_start AND bmask) then None
         else if new_data_start - MALLOC_ELEM_HEADER_LEN < elem then None
         else Some (new_data_start, end_pt))"

partial_function (option) start_pt_loop ::
    "malloc_conf \<Rightarrow> eptr \<Rightarrow> nat \<Rightarrow> u64 \<Rightarrow> u32 \<Rightarrow> u64 \<Rightarrow> bool \<Rightarrow> u64 \<Rightarrow> eptr option" where
  "start_pt_loop cf elem msl sz align bound contig elem_size =
     (if elem_size \<ge> sz then
        (case start_pt_round elem sz align bound elem_size of
           None \<Rightarrow> Some 0
         | Some (new_data_start, end_pt) \<Rightarrow>
             if contig \<and> \<not> mc_is_contig cf msl new_data_start (end_pt - new_data_start)
             then start_pt_loop cf elem msl sz align bound contig (elem_size - ucast align)
             else Some (new_data_start - MALLOC_ELEM_HEADER_LEN))
      else Some 0)"

definition elem_start_pt ::
    "malloc_conf \<Rightarrow> eptr \<Rightarrow> u64 \<Rightarrow> u32 \<Rightarrow> u64 \<Rightarrow> bool \<Rightarrow> malloc_heap \<Rightarrow> eptr option" where
  "elem_start_pt cf elem sz align bound contig h = do {
     E \<leftarrow> mh_elems h elem;
     start_pt_loop cf elem (me_msl E) sz align bound contig (me_size E) }"

definition malloc_elem_can_hold ::
    "malloc_conf \<Rightarrow> eptr \<Rightarrow> u64 \<Rightarrow> u32 \<Rightarrow> u64 \<Rightarrow> bool \<Rightarrow> malloc_heap \<Rightarrow> bool option" where
  "malloc_elem_can_hold cf elem sz align bound contig h = do {
     p \<leftarrow> elem_start_pt cf elem sz align bound contig h;
     Some (p \<noteq> 0) }"

definition split_elem :: "eptr \<Rightarrow> eptr \<Rightarrow> malloc_heap \<Rightarrow> malloc_heap option" where
  "split_elem elem split_pt h = do {
     E \<leftarrow> mh_elems h elem;
     let next_elem = me_next E;
     let old_elem_size = split_pt - elem;
     let new_elem_size = me_size E - old_elem_size;
     let h = malloc_elem_init split_pt (me_msl E) new_elem_size (me_orig_elem E) (me_orig_size E) h;
     h \<leftarrow> upd_elem split_pt (\<lambda>S. S\<lparr>me_prev := elem, me_next := next_elem\<rparr>) h;
     h \<leftarrow> (if next_elem \<noteq> 0 then upd_elem next_elem (\<lambda>N. N\<lparr>me_prev := split_pt\<rparr>) h
            else Some (h\<lparr>mh_last := split_pt\<rparr>));
     upd_elem elem (\<lambda>E. E\<lparr>me_next := split_pt, me_size := old_elem_size\<rparr>) h }"

definition remove_elem :: "eptr \<Rightarrow> malloc_heap \<Rightarrow> malloc_heap option" where
  "remove_elem elem h = do {
     E \<leftarrow> mh_elems h elem;
     h \<leftarrow> (if me_next E \<noteq> 0 then upd_elem (me_next E) (\<lambda>N. N\<lparr>me_prev := me_prev E\<rparr>) h
            else Some (h\<lparr>mh_last := me_prev E\<rparr>));
     h \<leftarrow> (if me_prev E \<noteq> 0 then upd_elem (me_prev E) (\<lambda>P. P\<lparr>me_next := me_next E\<rparr>) h
            else Some (h\<lparr>mh_first := me_next E\<rparr>));
     upd_elem elem (\<lambda>E. E\<lparr>me_prev := 0, me_next := 0\<rparr>) h }"

definition next_elem_is_adjacent :: "malloc_conf \<Rightarrow> eptr \<Rightarrow> malloc_heap \<Rightarrow> bool option" where
  "next_elem_is_adjacent cf elem h = do {
     E \<leftarrow> mh_elems h elem;
     if me_next E \<noteq> elem + me_size E then Some False
     else do {
       N \<leftarrow> mh_elems h (me_next E);
       Some (me_msl N = me_msl E \<and> (\<not> mc_match_allocations cf \<or> me_orig_elem E = me_orig_elem N)) } }"

definition prev_elem_is_adjacent :: "malloc_conf \<Rightarrow> eptr \<Rightarrow> malloc_heap \<Rightarrow> bool option" where
  "prev_elem_is_adjacent cf elem h = do {
     E \<leftarrow> mh_elems h elem;
     P \<leftarrow> mh_elems h (me_prev E);
     Some (elem = me_prev E + me_size P \<and>
           me_msl P = me_msl E \<and> (\<not> mc_match_allocations cf \<or> me_orig_elem E = me_orig_elem P)) }"

section \<open>Free lists\<close>

definition malloc_elem_free_list_index :: "u64 \<Rightarrow> nat option" where
  "malloc_elem_free_list_index sz =
     (if sz \<le> 256 then Some 0
      else do {
        n \<leftarrow> builtin_clz (sz - 1);
        let log2 = 64 - n;
        let index = (log2 - 8 + 2 - 1) div 2;
        Some (if index \<le> RTE_HEAP_NUM_FREELISTS - 1 then index else RTE_HEAP_NUM_FREELISTS - 1) })"

definition malloc_elem_free_list_insert :: "eptr \<Rightarrow> malloc_heap \<Rightarrow> malloc_heap option" where
  "malloc_elem_free_list_insert elem h = do {
     E \<leftarrow> mh_elems h elem;
     idx \<leftarrow> malloc_elem_free_list_index (me_size E - MALLOC_ELEM_HEADER_LEN);
     h \<leftarrow> upd_elem elem (\<lambda>E. E\<lparr>me_state := ELEM_FREE\<rparr>) h;
     guard (idx < length (mh_free h));
     Some (h\<lparr>mh_free := (mh_free h)[idx := elem # mh_free h ! idx]\<rparr>) }"

text \<open>\<open>LIST_REMOVE\<close> of an element that is in no list goes through its cleared links, which is undefined.\<close>

definition malloc_elem_free_list_remove :: "eptr \<Rightarrow> malloc_heap \<Rightarrow> malloc_heap option" where
  "malloc_elem_free_list_remove elem h = do {
     guard (\<exists>xs \<in> set (mh_free h). elem \<in> set xs);
     Some (h\<lparr>mh_free := map (remove1 elem) (mh_free h)\<rparr>) }"

section \<open>Allocation and release\<close>

definition malloc_elem_alloc ::
    "malloc_conf \<Rightarrow> eptr \<Rightarrow> u64 \<Rightarrow> u32 \<Rightarrow> u64 \<Rightarrow> bool \<Rightarrow> malloc_heap \<Rightarrow> (eptr \<times> malloc_heap) option" where
  "malloc_elem_alloc cf elem sz align bound contig h = do {
     new_elem \<leftarrow> elem_start_pt cf elem sz align bound contig h;
     E \<leftarrow> mh_elems h elem;
     let old_elem_size = new_elem - elem;
     let trailer_size = me_size E - old_elem_size - sz - MALLOC_ELEM_OVERHEAD;
     h \<leftarrow> malloc_elem_free_list_remove elem h;
     h \<leftarrow> (if trailer_size > MALLOC_ELEM_OVERHEAD + MIN_DATA_SIZE then do {
              let new_free_elem = new_elem + (sz + MALLOC_ELEM_OVERHEAD);
              h \<leftarrow> split_elem elem new_free_elem h;
              h \<leftarrow> malloc_elem_free_list_insert new_free_elem h;
              Some (if elem = mh_last h then h\<lparr>mh_last := new_free_elem\<rparr> else h) }
            else Some h);
     if old_elem_size < MALLOC_ELEM_OVERHEAD + MIN_DATA_SIZE then do {
       h \<leftarrow> upd_elem elem (\<lambda>E. E\<lparr>me_state := ELEM_BUSY, me_pad := ucast old_elem_size\<rparr>) h;
       E \<leftarrow> mh_elems h elem;
       Some (new_elem,
         if me_pad E > 0 then
           h\<lparr>mh_elems := (mh_elems h)(new_elem \<mapsto>
              (case mh_elems h new_elem of None \<Rightarrow> zero_elem | Some Z \<Rightarrow> Z)
                \<lparr>me_pad := me_pad E, me_state := ELEM_PAD, me_size := me_size E - ucast (me_pad E)\<rparr>)\<rparr>
         else h) }
     else do {
       h \<leftarrow> split_elem elem new_elem h;
       h \<leftarrow> upd_elem new_elem (\<lambda>N. N\<lparr>me_state := ELEM_BUSY\<rparr>) h;
       h \<leftarrow> malloc_elem_free_list_insert elem h;
       Some (new_elem, h) } }"

definition join_elem :: "eptr \<Rightarrow> eptr \<Rightarrow> malloc_heap \<Rightarrow> malloc_heap option" where
  "join_elem elem1 elem2 h = do {
     E2 \<leftarrow> mh_elems h elem2;
     h \<leftarrow> upd_elem elem1 (\<lambda>E. E\<lparr>me_size := me_size E + me_size E2\<rparr>) h;
     h \<leftarrow> (if me_next E2 \<noteq> 0 then upd_elem (me_next E2) (\<lambda>N. N\<lparr>me_prev := elem1\<rparr>) h
            else Some (h\<lparr>mh_last := elem1\<rparr>));
     upd_elem elem1 (\<lambda>E. E\<lparr>me_next := me_next E2\<rparr>) h }"

text \<open>Whether a neighbour exists, is free and is adjacent.\<close>

definition next_is_free :: "malloc_conf \<Rightarrow> eptr \<Rightarrow> malloc_heap \<Rightarrow> bool option" where
  "next_is_free cf elem h = do {
     E \<leftarrow> mh_elems h elem;
     if me_next E = 0 then Some False
     else do {
       N \<leftarrow> mh_elems h (me_next E);
       if me_state N = ELEM_FREE then next_elem_is_adjacent cf elem h else Some False } }"

definition prev_is_free :: "malloc_conf \<Rightarrow> eptr \<Rightarrow> malloc_heap \<Rightarrow> bool option" where
  "prev_is_free cf elem h = do {
     E \<leftarrow> mh_elems h elem;
     if me_prev E = 0 then Some False
     else do {
       P \<leftarrow> mh_elems h (me_prev E);
       if me_state P = ELEM_FREE then prev_elem_is_adjacent cf elem h else Some False } }"

definition join_next :: "malloc_conf \<Rightarrow> eptr \<Rightarrow> malloc_heap \<Rightarrow> malloc_heap option" where
  "join_next cf elem h = do {
     free \<leftarrow> next_is_free cf elem h;
     if \<not> free then Some h
     else do {
       E \<leftarrow> mh_elems h elem;
       N \<leftarrow> mh_elems h (me_next E);
       let erase = me_next E - MALLOC_ELEM_TRAILER_LEN;
       let erase_len = MALLOC_ELEM_OVERHEAD + ucast (me_pad N);
       h \<leftarrow> malloc_elem_free_list_remove (me_next E) h;
       h \<leftarrow> join_elem elem (me_next E) h;
       Some (erase_range erase erase_len h) } }"

definition join_prev :: "malloc_conf \<Rightarrow> eptr \<Rightarrow> malloc_heap \<Rightarrow> (eptr \<times> malloc_heap) option" where
  "join_prev cf elem h = do {
     free \<leftarrow> prev_is_free cf elem h;
     if \<not> free then Some (elem, h)
     else do {
       E \<leftarrow> mh_elems h elem;
       let erase = elem - MALLOC_ELEM_TRAILER_LEN;
       let erase_len = MALLOC_ELEM_OVERHEAD + ucast (me_pad E);
       let new_elem = me_prev E;
       h \<leftarrow> malloc_elem_free_list_remove new_elem h;
       h \<leftarrow> join_elem new_elem elem h;
       Some (new_elem, erase_range erase erase_len h) } }"

definition malloc_elem_join_adjacent_free ::
    "malloc_conf \<Rightarrow> eptr \<Rightarrow> malloc_heap \<Rightarrow> (eptr \<times> malloc_heap) option" where
  "malloc_elem_join_adjacent_free cf elem h = do {
     h \<leftarrow> join_next cf elem h;
     join_prev cf elem h }"

definition malloc_elem_free :: "malloc_conf \<Rightarrow> eptr \<Rightarrow> malloc_heap \<Rightarrow> (eptr \<times> malloc_heap) option" where
  "malloc_elem_free cf elem h = do {
     let ptr = elem + MALLOC_ELEM_HEADER_LEN;
     E \<leftarrow> mh_elems h elem;
     let data_len = me_size E - MALLOC_ELEM_OVERHEAD;
     (elem, h) \<leftarrow> malloc_elem_join_adjacent_free cf elem h;
     h \<leftarrow> malloc_elem_free_list_insert elem h;
     h \<leftarrow> upd_elem elem (\<lambda>E. E\<lparr>me_pad := 0\<rparr>) h;
     let h = h\<lparr>mh_alloc_count := mh_alloc_count h - 1\<rparr>;
     Some (elem, erase_range ptr data_len h) }"

text \<open>
  Hiding a region: what is behind it is split off first, then what is before it; when either has no room for an
  element, the region stays. The two steps, \<open>Inr\<close> when the function returns there.
\<close>

definition hide_after :: "malloc_conf \<Rightarrow> eptr \<Rightarrow> eptr \<Rightarrow> eptr \<Rightarrow> malloc_heap \<Rightarrow> (malloc_heap + malloc_heap) option" where
  "hide_after cf elem hide_end next h = do {
     adj \<leftarrow> (if next \<noteq> 0 then next_elem_is_adjacent cf elem h else Some False);
     if \<not> adj then Some (Inl h)
     else do {
       let len_after = next - hide_end;
       if len_after \<ge> MALLOC_ELEM_OVERHEAD + MIN_DATA_SIZE then do {
         h \<leftarrow> split_elem elem hide_end h;
         h \<leftarrow> malloc_elem_free_list_insert hide_end h;
         Some (Inl h) }
       else Some (if len_after > 0 then Inr h else Inl h) } }"

definition hide_before ::
    "malloc_conf \<Rightarrow> eptr \<Rightarrow> eptr \<Rightarrow> eptr \<Rightarrow> malloc_heap \<Rightarrow> (eptr \<times> malloc_heap + malloc_heap) option" where
  "hide_before cf elem hide_start prev h = do {
     adj \<leftarrow> (if prev \<noteq> 0 then prev_elem_is_adjacent cf elem h else Some False);
     if \<not> adj then Some (Inl (elem, h))
     else do {
       let len_before = hide_start - elem;
       if len_before \<ge> MALLOC_ELEM_OVERHEAD + MIN_DATA_SIZE then do {
         h \<leftarrow> split_elem elem hide_start h;
         h \<leftarrow> malloc_elem_free_list_insert elem h;
         Some (Inl (hide_start, h)) }
       else Some (if len_before > 0 then Inr h else Inl (elem, h)) } }"

definition malloc_elem_hide_region ::
    "malloc_conf \<Rightarrow> eptr \<Rightarrow> eptr \<Rightarrow> u64 \<Rightarrow> malloc_heap \<Rightarrow> malloc_heap option" where
  "malloc_elem_hide_region cf elem start len h = do {
     let hide_start = start;
     let hide_end = start + len;
     E \<leftarrow> mh_elems h elem;
     r \<leftarrow> hide_after cf elem hide_end (me_next E) h;
     (case r of Inr h \<Rightarrow> Some h
      | Inl h \<Rightarrow> do {
          r \<leftarrow> hide_before cf elem hide_start (me_prev E) h;
          (case r of Inr h \<Rightarrow> Some h | Inl (elem, h) \<Rightarrow> remove_elem elem h) }) }"

definition malloc_elem_resize :: "malloc_conf \<Rightarrow> eptr \<Rightarrow> u64 \<Rightarrow> malloc_heap \<Rightarrow> (c_int \<times> malloc_heap) option" where
  "malloc_elem_resize cf elem sz h = do {
     E \<leftarrow> mh_elems h elem;
     let new_size = sz + ucast (me_pad E) + MALLOC_ELEM_OVERHEAD;
     if me_size E \<ge> new_size then Some (0, h)
     else do {
       free \<leftarrow> next_is_free cf elem h;
       if \<not> free then Some (- 1, h)
       else do {
         N \<leftarrow> mh_elems h (me_next E);
         if me_size E + me_size N < new_size then Some (- 1, h)
         else do {
           h \<leftarrow> malloc_elem_free_list_remove (me_next E) h;
           h \<leftarrow> join_elem elem (me_next E) h;
           E \<leftarrow> mh_elems h elem;
           if me_size E - new_size \<ge> MIN_DATA_SIZE + MALLOC_ELEM_OVERHEAD then do {
             let split_pt = elem + new_size;
             let split_pt = RTE_ALIGN_CEIL split_pt 64;
             h \<leftarrow> split_elem elem split_pt h;
             h \<leftarrow> malloc_elem_free_list_insert split_pt h;
             Some (0, h) }
           else Some (0, h) } } } }"

end
