(* ===== verification/MallocChain.thy ===== *)
theory MallocChain
  imports MallocElem
begin

text \<open>
  The elements of a heap as a list of blocks in the order of their addresses, and what the operations on headers and
  links do to that list: splitting, joining, removing and inserting an element, and updating one in place.
\<close>

section \<open>Linked headers\<close>

type_synonym eblocks = "(eptr \<times> elem_block) list"

definition mk_elem :: "elem_block \<Rightarrow> eptr \<Rightarrow> eptr \<Rightarrow> malloc_elem" where
  "mk_elem b p n = \<lparr>me_msl = me_msl b, me_state = me_state b, me_pad = me_pad b, me_size = me_size b,
     me_orig_elem = me_orig_elem b, me_orig_size = me_orig_size b, me_prev = p, me_next = n\<rparr>"

lemma mk_elem_simps [simp]:
  "me_msl (mk_elem b p n) = me_msl b" "me_state (mk_elem b p n) = me_state b"
  "me_pad (mk_elem b p n) = me_pad b" "me_size (mk_elem b p n) = me_size b"
  "me_orig_elem (mk_elem b p n) = me_orig_elem b" "me_orig_size (mk_elem b p n) = me_orig_size b"
  "me_prev (mk_elem b p n) = p" "me_next (mk_elem b p n) = n"
  "(mk_elem b p n)\<lparr>me_prev := p'\<rparr> = mk_elem b p' n" "(mk_elem b p n)\<lparr>me_next := n'\<rparr> = mk_elem b p n'"
  "(mk_elem b p n)\<lparr>me_size := s\<rparr> = mk_elem (b\<lparr>me_size := s\<rparr>) p n"
  "(mk_elem b p n)\<lparr>me_state := t\<rparr> = mk_elem (b\<lparr>me_state := t\<rparr>) p n"
  "(mk_elem b p n)\<lparr>me_pad := w\<rparr> = mk_elem (b\<lparr>me_pad := w\<rparr>) p n"
  by (simp_all add: mk_elem_def)

lemma mk_elem_fold [simp]:
  "\<lparr>me_msl = m, me_state = t, me_pad = w, me_size = s, me_orig_elem = oe, me_orig_size = os, me_prev = p, me_next = n\<rparr> =
   mk_elem \<lparr>me_msl = m, me_state = t, me_pad = w, me_size = s, me_orig_elem = oe, me_orig_size = os\<rparr> p n"
  by (simp add: mk_elem_def)

fun first_of :: "eblocks \<Rightarrow> eptr \<Rightarrow> eptr" where
  "first_of [] q = q"
| "first_of ((a, b) # xs) q = a"

fun last_of :: "eptr \<Rightarrow> eblocks \<Rightarrow> eptr" where
  "last_of p [] = p"
| "last_of p ((a, b) # xs) = last_of a xs"

fun linked :: "(eptr \<rightharpoonup> malloc_elem) \<Rightarrow> eptr \<Rightarrow> eblocks \<Rightarrow> eptr \<Rightarrow> bool" where
  "linked m p [] q \<longleftrightarrow> True"
| "linked m p ((a, b) # xs) q \<longleftrightarrow> m a = Some (mk_elem b p (first_of xs q)) \<and> linked m a xs q"

lemma first_of_append [simp]: "first_of (xs @ ys) q = first_of xs (first_of ys q)"
  by (cases xs) auto

lemma last_of_append [simp]: "last_of p (xs @ ys) = last_of (last_of p xs) ys"
  by (induction p xs rule: last_of.induct) auto

lemma linked_append [simp]:
  "linked m p (xs @ ys) q \<longleftrightarrow> linked m p xs (first_of ys q) \<and> linked m (last_of p xs) ys q"
  by (induction m p xs q rule: linked.induct) auto

lemma linked_upd [simp]: "a \<notin> fst ` set xs \<Longrightarrow> linked (m(a := v)) p xs q = linked m p xs q"
  by (induction m p xs q rule: linked.induct) auto

lemma linked_cong:
  "(\<And>a. a \<in> fst ` set xs \<Longrightarrow> m a = m' a) \<Longrightarrow> linked m p xs q = linked m' p xs q"
  by (induction m p xs q rule: linked.induct) auto

lemma last_of_in: "last_of p xs \<in> insert p (fst ` set xs)"
  by (induction p xs rule: last_of.induct) auto

lemma first_of_in: "first_of xs q \<in> insert q (fst ` set xs)"
  by (cases xs) auto

text \<open>Addresses of the blocks, and what the chain of a heap is.\<close>

abbreviation addrs :: "eblocks \<Rightarrow> eptr set" where "addrs xs \<equiv> fst ` set xs"

definition heap_links :: "malloc_heap \<Rightarrow> eblocks \<Rightarrow> bool" where
  "heap_links h xs \<longleftrightarrow>
     linked (mh_elems h) 0 xs 0 \<and> mh_first h = first_of xs 0 \<and> mh_last h = last_of 0 xs \<and>
     distinct (map fst xs) \<and> 0 \<notin> addrs xs"

text \<open>What an operation on links leaves alone.\<close>

definition same_rest :: "eptr set \<Rightarrow> malloc_heap \<Rightarrow> malloc_heap \<Rightarrow> bool" where
  "same_rest A h h' \<longleftrightarrow>
     mh_free h' = mh_free h \<and> mh_alloc_count h' = mh_alloc_count h \<and> mh_total_size h' = mh_total_size h \<and>
     mh_socket_id h' = mh_socket_id h \<and> mh_name h' = mh_name h \<and>
     (\<forall>x. x \<notin> A \<longrightarrow> mh_elems h' x = mh_elems h x)"

lemma same_rest_fields:
  assumes "same_rest A h h'"
  shows "mh_free h' = mh_free h" "mh_alloc_count h' = mh_alloc_count h" "mh_total_size h' = mh_total_size h"
    "mh_socket_id h' = mh_socket_id h" "mh_name h' = mh_name h"
  using assms by (simp_all add: same_rest_def)

lemma same_rest_elems: "same_rest A h h' \<Longrightarrow> x \<notin> A \<Longrightarrow> mh_elems h' x = mh_elems h x"
  by (simp add: same_rest_def)

lemma last_of_ne: "xs \<noteq> [] \<Longrightarrow> last_of p xs \<in> addrs xs"
proof (induction p xs rule: last_of.induct)
  case (2 p a b xs)
  then show ?case by (cases xs) auto
qed simp

lemma first_of_ne: "xs \<noteq> [] \<Longrightarrow> first_of xs q \<in> addrs xs"
  by (cases xs) auto

section \<open>Reading and updating\<close>

lemma links_elem:
  "heap_links h (ps @ (a, b) # ss) \<Longrightarrow> mh_elems h a = Some (mk_elem b (last_of 0 ps) (first_of ss 0))"
  by (simp add: heap_links_def)

lemma links_upd:
  assumes "heap_links h (ps @ (a, b) # ss)" "\<And>p n. f (mk_elem b p n) = mk_elem (g b) p n"
  obtains h' where "upd_elem a f h = Some h'" "heap_links h' (ps @ (a, g b) # ss)" "same_rest {a} h h'"
proof
  let ?h = "h\<lparr>mh_elems := (mh_elems h)(a \<mapsto> mk_elem (g b) (last_of 0 ps) (first_of ss 0))\<rparr>"
  show "upd_elem a f h = Some ?h"
    using links_elem [OF assms(1)] by (simp add: upd_elem_def assms(2))
  show "heap_links ?h (ps @ (a, g b) # ss)" using assms(1) by (auto simp: heap_links_def)
  show "same_rest {a} h ?h" by (simp add: same_rest_def)
qed

lemma links_erase:
  assumes "heap_links h xs" "\<And>x. x \<in> addrs xs \<Longrightarrow> \<not> x - start < len"
  shows "heap_links (erase_range start len h) xs"
proof -
  have "linked (\<lambda>a. if a - start < len then None else mh_elems h a) 0 xs 0 = linked (mh_elems h) 0 xs 0"
    by (rule linked_cong) (use assms(2) in auto)
  with assms(1) show ?thesis by (simp add: heap_links_def erase_range_def)
qed

section \<open>Splitting, joining, removing\<close>

abbreviation cut_block :: "elem_block \<Rightarrow> u64 \<Rightarrow> elem_block" where
  "cut_block b old \<equiv> b\<lparr>me_state := ELEM_FREE, me_pad := 0, me_size := me_size b - old\<rparr>"

lemma block_eta:
  "\<lparr>me_msl = me_msl b, me_state = t, me_pad = w, me_size = s, me_orig_elem = me_orig_elem b, me_orig_size = me_orig_size b\<rparr> =
   b\<lparr>me_state := t, me_pad := w, me_size := s\<rparr>"
  by (cases b) simp

lemma links_split:
  assumes L: "heap_links h (ps @ (a, b) # ss)" and s: "s \<notin> addrs (ps @ (a, b) # ss)" "s \<noteq> 0"
  obtains h' where "split_elem a s h = Some h'"
    "heap_links h' (ps @ (a, b\<lparr>me_size := s - a\<rparr>) # (s, cut_block b (s - a)) # ss)"
    "same_rest (insert s (addrs (ps @ (a, b) # ss))) h h'"
proof (cases ss)
  case Nil
  let ?h = "h\<lparr>mh_elems := (mh_elems h)(s \<mapsto> mk_elem (cut_block b (s - a)) a 0,
      a \<mapsto> mk_elem (b\<lparr>me_size := s - a\<rparr>) (last_of 0 ps) s), mh_last := s\<rparr>"
  have m: "mh_elems h a = Some (mk_elem b (last_of 0 ps) 0)" using links_elem [OF L] Nil by simp
  have "split_elem a s h = Some ?h"
    using s by (auto simp: split_elem_def m upd_elem_def malloc_elem_init_def Let_def block_eta fun_upd_twist)
  moreover have "heap_links ?h (ps @ (a, b\<lparr>me_size := s - a\<rparr>) # (s, cut_block b (s - a)) # ss)"
    using L s Nil by (auto simp: heap_links_def)
  moreover have "same_rest (insert s (addrs (ps @ (a, b) # ss))) h ?h"
    by (auto simp: same_rest_def)
  ultimately show ?thesis by (rule that)
next
  case (Cons x xs)
  then obtain n bn where ss: "ss = (n, bn) # xs" by (cases x) auto
  let ?h = "h\<lparr>mh_elems := (mh_elems h)(s \<mapsto> mk_elem (cut_block b (s - a)) a n,
      n \<mapsto> mk_elem bn s (first_of xs 0), a \<mapsto> mk_elem (b\<lparr>me_size := s - a\<rparr>) (last_of 0 ps) s)\<rparr>"
  have m: "mh_elems h a = Some (mk_elem b (last_of 0 ps) n)" using links_elem [OF L] ss by simp
  have mn: "mh_elems h n = Some (mk_elem bn a (first_of xs 0))" "n \<noteq> 0" "n \<noteq> a" "n \<noteq> s"
    using L s ss by (auto simp: heap_links_def)
  have "split_elem a s h = Some ?h"
    using s mn by (auto simp: split_elem_def m upd_elem_def malloc_elem_init_def Let_def block_eta fun_upd_twist)
  moreover have "heap_links ?h (ps @ (a, b\<lparr>me_size := s - a\<rparr>) # (s, cut_block b (s - a)) # ss)"
    using L s ss by (auto simp: heap_links_def image_Un)
  moreover have "same_rest (insert s (addrs (ps @ (a, b) # ss))) h ?h"
    using ss by (auto simp: same_rest_def)
  ultimately show ?thesis by (rule that)
qed

lemma links_join:
  assumes L: "heap_links h (ps @ (a, b) # (c, d) # ss)"
  obtains h' where "join_elem a c h = Some h'"
    "heap_links h' (ps @ (a, b\<lparr>me_size := me_size b + me_size d\<rparr>) # ss)"
    "same_rest (addrs (ps @ (a, b) # ss)) h h'"
proof (cases ss)
  case Nil
  let ?h = "h\<lparr>mh_elems := (mh_elems h)(a \<mapsto> mk_elem (b\<lparr>me_size := me_size b + me_size d\<rparr>) (last_of 0 ps) 0), mh_last := a\<rparr>"
  have m: "mh_elems h a = Some (mk_elem b (last_of 0 ps) c)" "mh_elems h c = Some (mk_elem d a 0)"
    using L Nil by (auto simp: heap_links_def)
  have "join_elem a c h = Some ?h"
    by (simp add: join_elem_def m upd_elem_def)
  moreover have "heap_links ?h (ps @ (a, b\<lparr>me_size := me_size b + me_size d\<rparr>) # ss)"
    using L Nil by (auto simp: heap_links_def)
  moreover have "same_rest (addrs (ps @ (a, b) # ss)) h ?h"
    by (auto simp: same_rest_def)
  ultimately show ?thesis by (rule that)
next
  case (Cons x xs)
  then obtain n bn where ss: "ss = (n, bn) # xs" by (cases x) auto
  let ?h = "h\<lparr>mh_elems := (mh_elems h)(n \<mapsto> mk_elem bn a (first_of xs 0),
      a \<mapsto> mk_elem (b\<lparr>me_size := me_size b + me_size d\<rparr>) (last_of 0 ps) n)\<rparr>"
  have m: "mh_elems h a = Some (mk_elem b (last_of 0 ps) c)" "mh_elems h c = Some (mk_elem d a n)"
    "mh_elems h n = Some (mk_elem bn c (first_of xs 0))" "n \<noteq> 0" "n \<noteq> a" "n \<noteq> c"
    using L ss by (auto simp: heap_links_def)
  have "join_elem a c h = Some ?h"
    using m by (simp add: join_elem_def upd_elem_def fun_upd_twist)
  moreover have "heap_links ?h (ps @ (a, b\<lparr>me_size := me_size b + me_size d\<rparr>) # ss)"
    using L ss by (auto simp: heap_links_def)
  moreover have "same_rest (addrs (ps @ (a, b) # ss)) h ?h"
    using ss by (auto simp: same_rest_def)
  ultimately show ?thesis by (rule that)
qed

text \<open>Writing the link of the element behind, or the end of the heap; and the same on the other side.\<close>

lemma relink_behind:
  assumes "linked (mh_elems h) p ss 0" "distinct (map fst ss)" "0 \<notin> addrs ss" "mh_last h = last_of p ss"
  obtains h' where
    "(if first_of ss 0 \<noteq> 0 then upd_elem (first_of ss 0) (\<lambda>N. N\<lparr>me_prev := x\<rparr>) h else Some (h\<lparr>mh_last := x\<rparr>)) = Some h'"
    "linked (mh_elems h') x ss 0" "mh_last h' = last_of x ss" "mh_first h' = mh_first h" "same_rest (addrs ss) h h'"
proof (cases ss)
  case Nil
  then show ?thesis by (intro that [of "h\<lparr>mh_last := x\<rparr>"]) (auto simp: same_rest_def)
next
  case (Cons y xs)
  then obtain n bn where ss: "ss = (n, bn) # xs" by (cases y) auto
  with assms show ?thesis
    by (intro that [of "h\<lparr>mh_elems := (mh_elems h)(n \<mapsto> mk_elem bn x (first_of xs 0))\<rparr>"])
       (auto simp: same_rest_def upd_elem_def)
qed

lemma relink_before:
  assumes "linked (mh_elems h) 0 ps q" "distinct (map fst ps)" "0 \<notin> addrs ps" "mh_first h = first_of ps q"
  obtains h' where
    "(if last_of 0 ps \<noteq> 0 then upd_elem (last_of 0 ps) (\<lambda>P. P\<lparr>me_next := x\<rparr>) h else Some (h\<lparr>mh_first := x\<rparr>)) = Some h'"
    "linked (mh_elems h') 0 ps x" "mh_first h' = first_of ps x" "mh_last h' = mh_last h" "same_rest (addrs ps) h h'"
proof (cases ps rule: rev_cases)
  case Nil
  then show ?thesis by (intro that [of "h\<lparr>mh_first := x\<rparr>"]) (auto simp: same_rest_def)
next
  case (snoc xs y)
  then obtain l bl where ps: "ps = xs @ [(l, bl)]" by (cases y) auto
  with assms show ?thesis
    by (intro that [of "h\<lparr>mh_elems := (mh_elems h)(l \<mapsto> mk_elem bl (last_of 0 xs) x)\<rparr>"])
       (auto simp: same_rest_def upd_elem_def)
qed

lemma same_rest_trans: "same_rest A h h' \<Longrightarrow> same_rest B h' h'' \<Longrightarrow> same_rest (A \<union> B) h h''"
  by (simp add: same_rest_def)

lemma same_rest_mono: "same_rest A h h' \<Longrightarrow> A \<subseteq> B \<Longrightarrow> same_rest B h h'"
  by (auto simp: same_rest_def)

lemma linked_same_rest:
  "same_rest A h h' \<Longrightarrow> A \<inter> addrs xs = {} \<Longrightarrow> linked (mh_elems h') p xs q = linked (mh_elems h) p xs q"
  by (rule linked_cong) (auto simp: same_rest_def)

lemma links_remove:
  assumes L: "heap_links h (ps @ (a, b) # ss)"
  obtains h' where "remove_elem a h = Some h'" "heap_links h' (ps @ ss)"
    "same_rest (addrs (ps @ (a, b) # ss)) h h'"
proof -
  have D: "a \<notin> addrs ps" "a \<notin> addrs ss" "addrs ps \<inter> addrs ss = {}" "distinct (map fst ps)" "distinct (map fst ss)"
    "0 \<notin> addrs ps" "0 \<notin> addrs ss" "a \<noteq> 0"
    using L by (auto simp: heap_links_def)
  have m: "mh_elems h a = Some (mk_elem b (last_of 0 ps) (first_of ss 0))" by (rule links_elem [OF L])
  obtain h1 where h1: "(if first_of ss 0 \<noteq> 0 then upd_elem (first_of ss 0) (\<lambda>N. N\<lparr>me_prev := last_of 0 ps\<rparr>) h
       else Some (h\<lparr>mh_last := last_of 0 ps\<rparr>)) = Some h1"
    "linked (mh_elems h1) (last_of 0 ps) ss 0" "mh_last h1 = last_of (last_of 0 ps) ss" "mh_first h1 = mh_first h"
    "same_rest (addrs ss) h h1"
    by (rule relink_behind [where h = h and p = a and ss = ss and x = "last_of 0 ps"])
       (use L D in \<open>auto simp: heap_links_def\<close>)
  have l1: "linked (mh_elems h1) 0 ps a"
    using L D linked_same_rest [OF h1(5), of ps] by (auto simp: heap_links_def Int_commute)
  obtain h2 where h2: "(if last_of 0 ps \<noteq> 0 then upd_elem (last_of 0 ps) (\<lambda>P. P\<lparr>me_next := first_of ss 0\<rparr>) h1
       else Some (h1\<lparr>mh_first := first_of ss 0\<rparr>)) = Some h2"
    "linked (mh_elems h2) 0 ps (first_of ss 0)" "mh_first h2 = first_of ps (first_of ss 0)" "mh_last h2 = mh_last h1"
    "same_rest (addrs ps) h1 h2"
    by (rule relink_before [where h = h1 and ps = ps and q = a and x = "first_of ss 0"])
       (use l1 L D h1(4) in \<open>auto simp: heap_links_def\<close>)
  have "mh_elems h2 a = Some (mk_elem b (last_of 0 ps) (first_of ss 0))"
    using m h1(5) h2(5) D by (auto simp: same_rest_def)
  then have "upd_elem a (\<lambda>E. E\<lparr>me_prev := 0, me_next := 0\<rparr>) h2 =
      Some (h2\<lparr>mh_elems := (mh_elems h2)(a \<mapsto> mk_elem b 0 0)\<rparr>)"
    by (simp add: upd_elem_def)
  then have "remove_elem a h = Some (h2\<lparr>mh_elems := (mh_elems h2)(a \<mapsto> mk_elem b 0 0)\<rparr>)"
    by (simp only: remove_elem_def m bind.bind_lunit mk_elem_simps h1(1) h2(1))
  moreover have "linked (mh_elems h2) (last_of 0 ps) ss 0"
    using h1(2) D linked_same_rest [OF h2(5), of ss] by auto
  then have "heap_links (h2\<lparr>mh_elems := (mh_elems h2)(a \<mapsto> mk_elem b 0 0)\<rparr>) (ps @ ss)"
    using h1 h2 L D by (auto simp: heap_links_def)
  moreover have "same_rest (addrs (ps @ (a, b) # ss)) h (h2\<lparr>mh_elems := (mh_elems h2)(a \<mapsto> mk_elem b 0 0)\<rparr>)"
    using h1(5) h2(5) by (auto simp: same_rest_def image_Un)
  ultimately show ?thesis by (rule that)
qed

section \<open>Inserting\<close>

declare insert_from_start.simps [code] insert_from_end.simps [code]

lemma walk_from_start:
  assumes "linked (mh_elems h) p ((c, d) # ys @ ss) q" "\<forall>x \<in> addrs ys. x < a" "\<not> first_of ss q < a"
  shows "insert_from_start a c h = Some (last_of c ys)"
  using assms
proof (induction ys arbitrary: p c d)
  case Nil
  then show ?case by (subst insert_from_start.simps) simp
next
  case (Cons y ys)
  then show ?case by (cases y, subst insert_from_start.simps) simp
qed

lemma walk_from_end:
  assumes "linked (mh_elems h) p (ps @ ys @ [(c, d)]) q" "\<forall>x \<in> addrs ys. a < x" "\<not> a < last_of p ps"
  shows "insert_from_end a c h = Some (first_of ys c)"
  using assms
proof (induction ys arbitrary: q c d rule: rev_induct)
  case Nil
  then show ?case by (subst insert_from_end.simps) simp
next
  case (snoc y ys)
  then show ?case by (cases y, subst insert_from_end.simps) simp
qed

lemma insert_place_ok:
  assumes L: "heap_links h (ps @ ss)" and below: "\<forall>x \<in> addrs ps. x < a" and above: "\<forall>x \<in> addrs ss. a < x"
  shows "insert_place a h = Some (last_of 0 ps, first_of ss 0,
           h\<lparr>mh_first := if ps = [] then a else mh_first h, mh_last := if ss = [] then a else mh_last h\<rparr>)"
proof (cases "ps = [] \<or> ss = []")
  case True
  then show ?thesis
  proof
    assume ps: "ps = []"
    with L above show ?thesis
      by (cases ss) (auto simp: insert_place_def heap_links_def split: if_splits)
  next
    assume ss: "ss = []"
    show ?thesis
    proof (cases ps rule: rev_cases)
      case Nil
      with L ss show ?thesis by (simp add: insert_place_def heap_links_def)
    next
      case (snoc xs y)
      then obtain l d where ps: "ps = xs @ [(l, d)]" by (cases y) auto
      have "first_of ps 0 \<in> addrs ps" by (rule first_of_ne) (simp add: ps)
      then have "first_of ps 0 < a" "first_of ps 0 \<noteq> 0" "mh_first h = first_of ps 0" "mh_last h = l"
        using L below unfolding heap_links_def by (metis UnCI image_Un set_append, metis UnCI image_Un set_append,
          simp add: ss ps, simp add: ss ps)
      with below ps ss show ?thesis by (auto simp: insert_place_def)
    qed
  qed
next
  case False
  then obtain c d ps' where ps: "ps = (c, d) # ps'" by (cases ps) auto
  from False obtain e f ss' where ss: "ss = ss' @ [(e, f)]" by (cases ss rule: rev_cases) auto
  have m: "mh_first h = c" "mh_last h = e" "c < a" "a < e" "c \<noteq> 0"
    using L below above ps ss by (auto simp: heap_links_def)
  obtain n bn xs where n: "ss = (n, bn) # xs" using False by (cases ss) auto
  obtain l bl ys where l: "ps = ys @ [(l, bl)]" using False by (cases ps rule: rev_cases) auto
  have f: "insert_from_start a c h = Some (last_of 0 ps)"
    using walk_from_start [of h 0 c d ps' ss 0 a] L below above ps n by (auto simp: heap_links_def)
  have b: "insert_from_end a e h = Some (first_of ss 0)"
    using walk_from_end [of h 0 ps ss' e f 0 a] L below above ss l by (auto simp: heap_links_def)
  have "mh_elems h l = Some (mk_elem bl (last_of 0 ys) n)" "mh_elems h n = Some (mk_elem bn l (first_of xs 0))"
    using L l n by (auto simp: heap_links_def)
  then show ?thesis
    using m f b l n False by (auto simp: insert_place_def Let_def)
qed

lemma links_insert:
  assumes L: "heap_links h (ps @ ss)" and below: "\<forall>x \<in> addrs ps. x < a" and above: "\<forall>x \<in> addrs ss. a < x"
    and a: "mh_elems h a = Some (mk_elem b 0 0)" "a \<noteq> 0"
  obtains h' where "malloc_elem_insert a h = Some h'" "heap_links h' (ps @ (a, b) # ss)"
    "same_rest (addrs (ps @ (a, b) # ss)) h h'"
proof -
  have D: "a \<notin> addrs ps" "a \<notin> addrs ss" "addrs ps \<inter> addrs ss = {}" "distinct (map fst ps)" "distinct (map fst ss)"
    "0 \<notin> addrs ps" "0 \<notin> addrs ss"
    using L below above by (auto simp: heap_links_def)
  let ?p = "last_of 0 ps" and ?n = "first_of ss 0"
  let ?h0 = "h\<lparr>mh_first := if ps = [] then a else mh_first h, mh_last := if ss = [] then a else mh_last h\<rparr>"
  let ?h1 = "?h0\<lparr>mh_elems := (mh_elems h)(a \<mapsto> mk_elem b ?p ?n)\<rparr>"
  have ends: "(mh_first h = 0) = (mh_last h = 0)"
  proof -
    have "first_of (ps @ ss) 0 = 0 \<longleftrightarrow> ps @ ss = []" "last_of 0 (ps @ ss) = 0 \<longleftrightarrow> ps @ ss = []"
      using first_of_ne [of "ps @ ss" 0] last_of_ne [of "ps @ ss" 0] L by (auto simp: heap_links_def simp del: first_of_append last_of_append)
    then show ?thesis using L by (simp add: heap_links_def)
  qed
  have up: "upd_elem a (\<lambda>E. E\<lparr>me_prev := ?p, me_next := ?n\<rparr>) ?h0 = Some ?h1"
    using a by (simp add: upd_elem_def)
  obtain h2 where h2: "upd_elem_if ?p (\<lambda>P. P\<lparr>me_next := a\<rparr>) ?h1 = Some h2" "linked (mh_elems h2) 0 ps a"
     "same_rest (addrs ps) ?h1 h2" "mh_first h2 = mh_first ?h1" "mh_last h2 = mh_last ?h1"
  proof (cases ps rule: rev_cases)
    case Nil
    then show ?thesis by (intro that [of ?h1]) (simp_all add: upd_elem_if_def same_rest_def)
  next
    case (snoc xs y)
    then obtain l d where ps: "ps = xs @ [(l, d)]" by (cases y) auto
    have "mh_elems h l = Some (mk_elem d (last_of 0 xs) ?n)" "l \<noteq> 0" "l \<noteq> a"
      using L D ps by (auto simp: heap_links_def)
    then show ?thesis
      using L D ps by (intro that [of "?h1\<lparr>mh_elems := (mh_elems ?h1)(l \<mapsto> mk_elem d (last_of 0 xs) a)\<rparr>"])
        (auto simp: upd_elem_if_def upd_elem_def same_rest_def heap_links_def)
  qed
  obtain h3 where h3: "upd_elem_if ?n (\<lambda>N. N\<lparr>me_prev := a\<rparr>) h2 = Some h3" "linked (mh_elems h3) a ss 0"
     "same_rest (addrs ss) h2 h3" "mh_first h3 = mh_first h2" "mh_last h3 = mh_last h2"
  proof (cases ss)
    case Nil
    then show ?thesis by (intro that [of h2]) (simp_all add: upd_elem_if_def same_rest_def)
  next
    case (Cons y xs)
    then obtain n d where ss: "ss = (n, d) # xs" by (cases y) auto
    have "linked (mh_elems h2) ?p ss 0"
      using L D linked_same_rest [OF h2(3), of ss] by (simp add: heap_links_def)
    moreover have "n \<noteq> 0" "n \<notin> addrs xs" using D ss by auto
    ultimately show ?thesis
      using ss by (intro that [of "h2\<lparr>mh_elems := (mh_elems h2)(n \<mapsto> mk_elem d a (first_of xs 0))\<rparr>"])
        (auto simp: upd_elem_if_def upd_elem_def same_rest_def)
  qed
  have ins: "malloc_elem_insert a h = Some h3"
    using ends h2(1) h3(1) up
    by (simp add: malloc_elem_insert_def insert_place_ok [OF L below above])
  have "linked (mh_elems h3) 0 ps a"
    using h2(2) D linked_same_rest [OF h3(3), of ps] by (simp add: Int_commute)
  moreover have "mh_elems h3 a = Some (mk_elem b ?p ?n)"
    using h2(3) h3(3) D by (simp add: same_rest_def)
  moreover have "mh_first h3 = first_of ps a" "mh_last h3 = last_of a ss"
  proof -
    show "mh_first h3 = first_of ps a"
      using h3 h2 L by (cases ps) (auto simp: heap_links_def)
    show "mh_last h3 = last_of a ss"
      using h3 h2 L by (cases ss) (auto simp: heap_links_def)
  qed
  ultimately have "heap_links h3 (ps @ (a, b) # ss)"
    using h3(2) D a(2) by (auto simp: heap_links_def)
  moreover have "same_rest (addrs (ps @ (a, b) # ss)) h h3"
    using h2(3) h3(3) by (auto simp: same_rest_def image_Un)
  ultimately show ?thesis using ins by (rule that [rotated])
qed

end
