(* ===== verification/MallocFit.thy ===== *)
theory MallocFit
  imports MallocChain
begin

text \<open>
  Where \<open>elem_start_pt\<close> puts the data of a request in a free element: at the end, aligned, inside the element and not across
  a boundary. The search ends, although its element size may wrap below 0, because addresses are above 4 GB
  (\<open>baseaddr\<close> of \<open>eal_common_memory.c\<close>); alignments up to 1 GB and boundaries up to 2 GB are covered.
\<close>

section \<open>Alignment\<close>

definition al_ok :: "u32 \<Rightarrow> bool" where
  "al_ok align \<longleftrightarrow> (\<exists>k. 6 \<le> k \<and> k \<le> 30 \<and> unat align = 2 ^ k)"

definition bound_ok :: "u64 \<Rightarrow> u64 \<Rightarrow> bool" where
  "bound_ok bound sz \<longleftrightarrow> bound = 0 \<or> (0 < sz \<and> (\<exists>j \<le> 31. unat bound = 2 ^ j \<and> unat sz \<le> 2 ^ j))"

lemma floor_u32_spec:
  assumes "unat align = 2 ^ k" "k < 32"
  shows "unat (floor_u32 val align) = unat val - unat val mod 2 ^ k"
proof -
  have "align \<noteq> 0" using assms(1) by auto
  then have "unat (align - 1) = 2 ^ k - 1"
    using assms(1) by (simp add: unat_minus_one)
  then have "unat (ucast (align - 1) :: u64) = 2 ^ k - 1" by (simp add: unat_ucast_up)
  moreover have "unat ((2 ^ k :: u64) - 1) = 2 ^ k - 1"
    using assms(2) unat_p2 [where 'a = 64, of k] by (simp add: unat_minus_one)
  ultimately have "(ucast (align - 1) :: u64) = 2 ^ k - 1" by (simp add: word_unat_eq_iff)
  then have "floor_u32 val align = RTE_ALIGN_FLOOR val (2 ^ k)"
    by (simp add: floor_u32_def RTE_ALIGN_FLOOR_def)
  then show ?thesis using align_floor_spec [of k val] assms(2) by simp
qed

lemma same_block_iff:
  fixes x y :: u64
  assumes "unat bound = 2 ^ j" "j < 64"
  shows "x AND NOT (bound - 1) = y AND NOT (bound - 1) \<longleftrightarrow> unat x div 2 ^ j = unat y div 2 ^ j"
proof -
  have b: "bound = 2 ^ j" using assms unat_p2 [where 'a = 64, of j] by (simp add: word_unat_eq_iff)
  have "unat (x AND NOT (bound - 1)) = unat x div 2 ^ j * 2 ^ j" for x :: u64
    using align_floor_spec [of j x] assms(2)
    by (simp add: b RTE_ALIGN_FLOOR_def minus_mod_eq_div_mult)
  then show ?thesis by (simp add: word_unat_eq_iff)
qed

lemma floor_mono_nat:
  fixes x m c :: nat
  assumes "m dvd c" "c \<le> x"
  shows "c \<le> x - x mod m"
proof (cases "m = 0")
  case False
  from assms(1) obtain q where "c = m * q" ..
  with assms(2) False have "q \<le> x div m" by (simp add: less_eq_div_iff_mult_less_eq mult.commute)
  then have "m * q \<le> m * (x div m)" by simp
  then show ?thesis using \<open>c = m * q\<close> by (simp add: minus_mod_eq_mult_div)
qed (use assms in simp)

section \<open>One round\<close>

definition fits :: "eptr \<Rightarrow> nat \<Rightarrow> u64 \<Rightarrow> u32 \<Rightarrow> u64 \<Rightarrow> eptr \<Rightarrow> bool" where
  "fits elem room sz align bound d \<longleftrightarrow>
     unat elem + 128 \<le> unat d \<and> unat d + unat sz \<le> unat elem + room \<and> unat align dvd unat d \<and>
     (bound \<noteq> 0 \<longrightarrow> unat d div unat bound = (unat d + unat sz - 1) div unat bound)"

lemma start_round_ok:
  fixes elem :: eptr
  defines "E es \<equiv> unat (elem + es)"
  assumes al: "al_ok align" and bd: "bound_ok bound sz"
    and room: "unat sz + 3 * 2 ^ 30 \<le> E es"
    and r: "start_pt_round elem sz align bound es = Some (d, e)"
  shows "unat elem + 128 \<le> unat d \<and> unat d + unat sz \<le> unat e \<and> unat e \<le> E es \<and> unat align dvd unat d \<and>
    (bound \<noteq> 0 \<longrightarrow> unat d div unat bound = (unat e - 1) div unat bound)"
proof -
  obtain k where k: "6 \<le> k" "k \<le> 30" "unat align = 2 ^ k" using al by (auto simp: al_ok_def)
  have fl: "unat (floor_u32 v align) = unat v - unat v mod 2 ^ k" for v
    using floor_u32_spec [OF k(3)] k(2) by simp
  have big: "2 ^ k dvd (3 * 2 ^ 30 :: nat)" "2 ^ k dvd (2 ^ 30 :: nat)" "(2 ^ 30 :: nat) < 3 * 2 ^ 30"
    using le_imp_power_dvd [OF k(2), of "2 :: nat"] by (auto dest: dvd_mult [of _ _ 3])
  let ?e = "elem + es" and ?bm = "NOT (bound - 1)"
  let ?d = "floor_u32 (?e - sz) align"
  have es: "unat (?e - sz) = unat ?e - unat sz" using room by (intro unat_sub) (simp add: E_def word_le_nat_alt)
  have flk: "2 ^ k dvd unat (floor_u32 v align)" "unat (floor_u32 v align) \<le> unat v" for v
    by (simp_all add: fl minus_mod_eq_mult_div)
  have D: "3 * 2 ^ 30 \<le> unat ?d" "unat ?d + unat sz \<le> unat ?e" "2 ^ k dvd unat ?d"
    using floor_mono_nat [OF big(1), of "unat (?e - sz)"] room es flk [of "?e - sz"]
    by (auto simp: fl E_def)
  have bk: "unat (v - 128) = unat v - 128" if "2 ^ 30 \<le> unat v" for v :: u64
    using that unat_sub [of 128 v] by (simp add: word_le_nat_alt)
  have start: "unat elem + 128 \<le> unat v" if "\<not> v - 128 < elem" "2 ^ 30 \<le> unat v" for v
    using that bk [of v] by (simp add: word_less_nat_alt)
  show ?thesis
  proof (cases "?d AND ?bm = (?e - 1) AND ?bm")
    case True
    then have de: "d = ?d" "e = ?e" "\<not> ?d - 128 < elem"
      using r by (auto simp: start_pt_round_def Let_def split: if_splits)
    have e1: "unat (?e - 1) = unat ?e - 1" using D(1,2) by (intro unat_minus_one) auto
    have "unat ?d div unat bound = (unat ?e - 1) div unat bound" if "bound \<noteq> 0"
    proof -
      from that bd obtain j where j: "j \<le> 31" "unat bound = 2 ^ j" by (auto simp: bound_ok_def)
      with True same_block_iff [OF j(2), of ?d "?e - 1"] e1 show ?thesis by simp
    qed
    then show ?thesis using de D k start [OF de(3)] big(3) by (auto simp: E_def)
  next
    case crosses: False
    then have "bound \<noteq> 0" by auto
    then obtain j where j: "j \<le> 31" "unat bound = 2 ^ j" "unat sz \<le> 2 ^ j" "0 < sz" using bd by (auto simp: bound_ok_def)
    have b: "bound = 2 ^ j" using j unat_p2 [where 'a = 64, of j] by (simp add: word_unat_eq_iff)
    let ?e1 = "RTE_ALIGN_FLOOR ?e bound"
    let ?d1 = "floor_u32 (?e1 - sz) align"
    have e1: "unat ?e1 = unat ?e - unat ?e mod 2 ^ j" using align_floor_spec [of j ?e] j(1) by (simp add: b)
    have em: "unat (?e - 1) = unat ?e - 1" using D(1,2) by (intro unat_minus_one) auto
    have sz0: "0 < unat sz" using j(4) by (simp add: word_less_nat_alt)
    have "unat ?d div 2 ^ j \<noteq> (unat ?e - 1) div 2 ^ j"
      using crosses same_block_iff [OF j(2), of ?d "?e - 1"] j(1) em by simp
    moreover have "unat ?d div 2 ^ j \<le> (unat ?e - 1) div 2 ^ j"
      using D(2) sz0 by (intro div_le_mono) simp
    ultimately have "unat ?d div 2 ^ j < (unat ?e - 1) div 2 ^ j" by simp
    then have "unat ?d < (unat ?e - 1) div 2 ^ j * 2 ^ j"
      by (metis div_less_iff_less_mult zero_less_numeral zero_less_power)
    also have "\<dots> \<le> unat ?e div 2 ^ j * 2 ^ j" by (intro mult_le_mono1 div_le_mono) simp
    finally have ge: "3 * 2 ^ 30 < unat ?e1" using D(1) by (simp add: e1 minus_mod_eq_div_mult)
    have "(2 :: nat) ^ j \<le> 2 ^ 31" by (rule power_increasing) (use j(1) in auto)
    then have sz31: "unat sz \<le> 2 ^ 31" using j(3) by simp
    then have s1: "unat (?e1 - sz) = unat ?e1 - unat sz" using ge by (intro unat_sub) (simp add: word_le_nat_alt)
    then have "2 ^ 30 \<le> unat (?e1 - sz)" using ge sz31 by simp
    then have D1: "2 ^ 30 \<le> unat ?d1" "unat ?d1 + unat sz \<le> unat ?e1" "2 ^ k dvd unat ?d1"
      using floor_mono_nat [OF big(2), of "unat (?e1 - sz)"] s1 ge sz31 flk [of "?e1 - sz"]
      by (auto simp: fl)
    have e2: "unat (?d1 + sz) = unat ?d1 + unat sz"
      by (rule unat_add_no_overflow) (use D1(2) unat_lt2p [of ?e1] in simp)
    have de: "d = ?d1" "e = ?d1 + sz" "\<not> ?d1 - 128 < elem" "(?d1 + sz - 1) AND ?bm = ?d1 AND ?bm"
      using r crosses by (auto simp: start_pt_round_def Let_def split: if_splits)
    have "unat (?d1 + sz - 1) = unat (?d1 + sz) - 1"
      by (rule unat_minus_one) (use e2 D1(1) in auto)
    with de(4) same_block_iff [OF j(2), of "?d1 + sz - 1" ?d1] j(1)
    have "unat ?d1 div 2 ^ j = (unat (?d1 + sz) - 1) div 2 ^ j" by simp
    moreover have "unat ?e1 \<le> unat ?e" by (simp add: e1)
    ultimately show ?thesis using de D1 k e2 start [OF de(3) D1(1)] j(2) by (auto simp: E_def)
  qed
qed

section \<open>The search\<close>

declare start_pt_loop.simps [code]

definition start_ok :: "malloc_conf \<Rightarrow> eptr \<Rightarrow> nat \<Rightarrow> nat \<Rightarrow> u64 \<Rightarrow> u32 \<Rightarrow> u64 \<Rightarrow> bool \<Rightarrow> eptr \<Rightarrow> bool" where
  "start_ok cf elem msl room sz align bound contig d \<longleftrightarrow>
     fits elem room sz align bound d \<and>
     (contig \<longrightarrow> (\<exists>len. unat sz \<le> unat len \<and> unat d + unat len \<le> unat elem + room \<and> mc_is_contig cf msl d len))"

lemma al_bounds: "al_ok align \<Longrightarrow> 64 \<le> unat align \<and> unat align \<le> 2 ^ 30"
  using power_increasing [of 6 _ "2 :: nat"] power_increasing [of _ 30 "2 :: nat"] by (fastforce simp: al_ok_def)

lemma start_round_fits:
  assumes al: "al_ok align" and bd: "bound_ok bound sz" and sz: "sz \<le> es"
    and A: "2 ^ 32 \<le> unat elem" "unat elem + unat es < 2 ^ 64"
    and r: "start_pt_round elem sz align bound es = Some (d, e)"
  shows "fits elem (unat es) sz align bound d \<and> unat sz \<le> unat (e - d) \<and> unat d + unat (e - d) \<le> unat elem + unat es"
proof -
  have s: "unat sz \<le> unat es" using sz by (simp add: word_le_nat_alt)
  have E: "unat (elem + es) = unat elem + unat es" using A(2) by (simp add: unat_add_no_overflow)
  have R: "unat elem + 128 \<le> unat d" "unat d + unat sz \<le> unat e" "unat e \<le> unat elem + unat es" "unat align dvd unat d"
    "bound \<noteq> 0 \<longrightarrow> unat d div unat bound = (unat e - 1) div unat bound"
    using start_round_ok [OF al bd _ r] s A E by auto
  have ed: "unat (e - d) = unat e - unat d" using R(2) by (intro unat_sub) (simp add: word_le_nat_alt)
  have "unat d div unat bound = (unat d + unat sz - 1) div unat bound" if "bound \<noteq> 0"
  proof (rule antisym)
    have "0 < unat sz" using that bd by (auto simp: bound_ok_def word_less_nat_alt)
    then show "unat d div unat bound \<le> (unat d + unat sz - 1) div unat bound" by (intro div_le_mono) simp
    show "(unat d + unat sz - 1) div unat bound \<le> unat d div unat bound"
      using R(2,5) that by (simp add: div_le_mono)
  qed
  then show ?thesis using R ed by (auto simp: fits_def)
qed

lemma start_round_wrapped:
  assumes al: "al_ok align" and bd: "bound_ok bound sz" and sz: "sz \<le> es" and w: "unat es < unat align"
    and A: "2 ^ 32 \<le> unat elem" "unat elem + unat es < 2 ^ 64"
  shows "start_pt_round elem sz align bound (es - ucast align) = None"
proof (rule ccontr)
  assume "start_pt_round elem sz align bound (es - ucast align) \<noteq> None"
  then obtain d e where r: "start_pt_round elem sz align bound (es - ucast align) = Some (d, e)" by auto
  have u: "unat (ucast align :: u64) = unat align" by (simp add: unat_ucast_up)
  have s: "unat sz \<le> unat es" using sz by (simp add: word_le_nat_alt)
  have eq: "elem + (es - ucast align) = (elem + es) - ucast align" by simp
  have "unat (elem + es) = unat elem + unat es" using A(2) by (simp add: unat_add_no_overflow)
  then have E: "unat (elem + (es - ucast align)) = unat elem + unat es - unat align"
    unfolding eq using unat_sub [of "ucast align :: u64" "elem + es"] al_bounds [OF al] A u
    by (simp add: word_le_nat_alt)
  have "unat elem + 128 \<le> unat d \<and> unat d + unat sz \<le> unat e \<and> unat e \<le> unat (elem + (es - ucast align))"
    using start_round_ok [OF al bd _ r] s A E al_bounds [OF al] by auto
  with E w show False by linarith
qed

lemma fits_more_room: "fits elem room sz align bound d \<Longrightarrow> room \<le> room' \<Longrightarrow> fits elem room' sz align bound d"
  by (simp add: fits_def)

lemma start_pt_loop_ok:
  assumes al: "al_ok align" and bd: "bound_ok bound sz"
    and A: "2 ^ 32 \<le> unat elem" "unat elem + room < 2 ^ 64" and es: "unat es \<le> room"
  shows "\<exists>p. start_pt_loop cf elem msl sz align bound contig es = Some p \<and>
           (p = 0 \<or> (\<exists>d. p = d - 128 \<and> start_ok cf elem msl room sz align bound contig d))"
  using es
proof (induction "unat es" arbitrary: es rule: less_induct)
  case less
  note unf = start_pt_loop.simps [of cf elem msl sz align bound contig es]
  show ?case
  proof (cases "sz \<le> es \<and> start_pt_round elem sz align bound es \<noteq> None")
    case False
    then show ?thesis by (cases "start_pt_round elem sz align bound es") (auto simp: unf)
  next
    case True
    then obtain d e where r: "sz \<le> es" "start_pt_round elem sz align bound es = Some (d, e)" by auto
    have Ae: "unat elem + unat es < 2 ^ 64" using A(2) less(2) by simp
    note f = start_round_fits [OF al bd r(1) A(1) Ae r(2)]
    show ?thesis
    proof (cases "contig \<and> \<not> mc_is_contig cf msl d (e - d)")
      case False
      with f less(2) have "start_ok cf elem msl room sz align bound contig d"
        by (auto simp: start_ok_def intro!: exI [of _ "e - d"] elim: fits_more_room)
      with False r show ?thesis by (auto simp: unf)
    next
      case again: True
      have u: "unat (ucast align :: u64) = unat align" by (simp add: unat_ucast_up)
      have step: "start_pt_loop cf elem msl sz align bound contig es =
          start_pt_loop cf elem msl sz align bound contig (es - ucast align)"
        by (subst unf) (use again r in simp)
      show ?thesis
      proof (cases "unat align \<le> unat es")
        case True
        then have "unat (es - ucast align) = unat es - unat align"
          using unat_sub [of "ucast align :: u64" es] u by (simp add: word_le_nat_alt)
        with True al_bounds [OF al] less(2)
        have "unat (es - ucast align) < unat es" "unat (es - ucast align) \<le> room" by auto
        then show ?thesis using less(1) [of "es - ucast align"] step by simp
      next
        case False
        with start_round_wrapped [OF al bd r(1) _ A(1) Ae]
        have "start_pt_loop cf elem msl sz align bound contig (es - ucast align) = Some 0"
          by (subst start_pt_loop.simps) simp
        with step show ?thesis by simp
      qed
    qed
  qed
qed

text \<open>Without conditions on the pages and boundaries the search is exact: it finds a place whenever there is one.\<close>

lemma start_pt_loop_exact:
  assumes al: "al_ok align" and A: "2 ^ 32 \<le> unat elem" "unat elem + unat es < 2 ^ 64"
  shows "start_pt_loop cf elem msl sz align 0 False es = Some 0 \<longleftrightarrow> \<not> (\<exists>d. fits elem (unat es) sz align 0 d)"
proof
  assume z: "start_pt_loop cf elem msl sz align 0 False es = Some 0"
  show "\<not> (\<exists>d. fits elem (unat es) sz align 0 d)"
  proof
    assume "\<exists>d. fits elem (unat es) sz align 0 d"
    then obtain d where d: "fits elem (unat es) sz align 0 d" ..
    then have s: "unat sz \<le> unat es" by (simp add: fits_def)
    then have sz: "sz \<le> es" by (simp add: word_le_nat_alt)
    obtain k where k: "6 \<le> k" "k \<le> 30" "unat align = 2 ^ k" using al by (auto simp: al_ok_def)
    have E: "unat (elem + es) = unat elem + unat es" using A(2) by (simp add: unat_add_no_overflow)
    have Es: "unat (elem + es - sz) = unat elem + unat es - unat sz"
      using s E unat_sub [of sz "elem + es"] by (simp add: word_le_nat_alt)
    let ?d = "floor_u32 (elem + es - sz) align"
    have "2 ^ k dvd unat d" "unat d \<le> unat (elem + es - sz)" using d k(3) Es by (auto simp: fits_def)
    from floor_mono_nat [OF this] have "unat d \<le> unat ?d"
      using k(2) by (simp add: floor_u32_spec [OF k(3)])
    then have g: "unat elem + 128 \<le> unat ?d" using d by (simp add: fits_def)
    then have "unat (?d - 128) = unat ?d - 128" using unat_sub [of 128 ?d] by (simp add: word_le_nat_alt)
    then have nl: "\<not> ?d - 128 < elem" and nz: "?d - 128 \<noteq> 0"
      using g A(1) by (auto simp: word_less_nat_alt word_unat_eq_iff)
    have "start_pt_round elem sz align 0 es = Some (?d, elem + es)"
      using nl by (simp add: start_pt_round_def Let_def)
    with z sz nz show False by (subst (asm) start_pt_loop.simps) simp
  qed
next
  assume n: "\<not> (\<exists>d. fits elem (unat es) sz align 0 d)"
  show "start_pt_loop cf elem msl sz align 0 False es = Some 0"
    using start_pt_loop_ok [of align 0 sz elem "unat es" es cf msl False] al A n
    by (auto simp: bound_ok_def start_ok_def)
qed

end
