(* ===== verification/MallocInv.thy ===== *)
theory MallocInv
  imports MallocFit
begin

text \<open>
  The invariant of a heap: its blocks are in order, aligned and do not overlap, no two free neighbours could be joined, every
  free block is in the list of its size and nothing else is, and padded blocks have the header that leads back to them.
\<close>

section \<open>Blocks\<close>

abbreviation is_free :: "elem_block \<Rightarrow> bool" where "is_free b \<equiv> me_state b = ELEM_FREE"
abbreviation is_busy :: "elem_block \<Rightarrow> bool" where "is_busy b \<equiv> me_state b = ELEM_BUSY"

definition shape_ok :: "eptr \<Rightarrow> elem_block \<Rightarrow> bool" where
  "shape_ok a b \<longleftrightarrow>
     2 ^ 32 \<le> unat a \<and> 64 dvd unat a \<and> 64 dvd unat (me_size b) \<and> 128 \<le> unat (me_size b) \<and>
     unat a + unat (me_size b) < 2 ^ 64"

definition state_ok :: "elem_block \<Rightarrow> bool" where
  "state_ok b \<longleftrightarrow>
     is_free b \<and> me_pad b = 0 \<or>
     is_busy b \<and> unat (me_pad b) < 192 \<and> 64 dvd unat (me_pad b) \<and> unat (me_pad b) + 128 \<le> unat (me_size b)"

definition in_order :: "eblocks \<Rightarrow> bool" where
  "in_order xs \<longleftrightarrow> sorted_wrt (\<lambda>(a, b) (c, d). unat a + unat (me_size b) \<le> unat c) xs"

definition joinable :: "malloc_conf \<Rightarrow> eptr \<times> elem_block \<Rightarrow> eptr \<times> elem_block \<Rightarrow> bool" where
  "joinable cf x y \<longleftrightarrow>
     fst y = fst x + me_size (snd x) \<and> me_msl (snd y) = me_msl (snd x) \<and>
     (\<not> mc_match_allocations cf \<or> me_orig_elem (snd x) = me_orig_elem (snd y))"

definition no_joinable :: "malloc_conf \<Rightarrow> eblocks \<Rightarrow> bool" where
  "no_joinable cf xs \<longleftrightarrow>
     successively (\<lambda>x y. \<not> (is_free (snd x) \<and> is_free (snd y) \<and> joinable cf x y)) xs"

definition inside :: "eptr \<Rightarrow> eptr \<Rightarrow> elem_block \<Rightarrow> bool" where
  "inside q a b \<longleftrightarrow> unat a \<le> unat q \<and> unat q < unat a + unat (me_size b)"

lemma addrsI: "(a, b) \<in> set xs \<Longrightarrow> a \<in> addrs xs"
  by force

lemma in_order_append:
  "in_order (ps @ ss) \<longleftrightarrow> in_order ps \<and> in_order ss \<and>
     (\<forall>(a, b) \<in> set ps. \<forall>(c, d) \<in> set ss. unat a + unat (me_size b) \<le> unat c)"
  by (auto simp: in_order_def sorted_wrt_append)

lemma in_order_Cons:
  "in_order ((a, b) # ss) \<longleftrightarrow> in_order ss \<and> (\<forall>(c, d) \<in> set ss. unat a + unat (me_size b) \<le> unat c)"
  by (auto simp: in_order_def)

lemma in_order_Nil [simp]: "in_order []"
  by (simp add: in_order_def)

lemma inside_once:
  assumes "in_order xs" "(a, b) \<in> set xs" "(c, d) \<in> set xs" "inside q a b" "inside q c d"
  shows "(a, b) = (c, d)"
  using assms
proof (induction xs)
  case (Cons x xs)
  then show ?case
    by (cases x) (fastforce simp: in_order_Cons inside_def)
qed simp

lemma inside_self: "shape_ok a b \<Longrightarrow> inside a a b"
  by (auto simp: inside_def shape_ok_def)

lemma no_joinable_append:
  "no_joinable cf (ps @ ss) \<longleftrightarrow> no_joinable cf ps \<and> no_joinable cf ss \<and>
     (ps = [] \<or> ss = [] \<or> \<not> (is_free (snd (last ps)) \<and> is_free (snd (hd ss)) \<and> joinable cf (last ps) (hd ss)))"
  by (auto simp: no_joinable_def successively_append_iff)

lemma no_joinable_Cons:
  "no_joinable cf (x # xs) \<longleftrightarrow> no_joinable cf xs \<and>
     (xs = [] \<or> \<not> (is_free (snd x) \<and> is_free (snd (hd xs)) \<and> joinable cf x (hd xs)))"
  by (auto simp: no_joinable_def successively_Cons)

lemma no_joinable_Nil [simp]: "no_joinable cf []"
  by (simp add: no_joinable_def)

section \<open>Free lists\<close>

lemma top_bit_64:
  assumes "(x :: u64) \<noteq> 0"
  obtains m where "top_bit x m" "m < 64"
proof -
  obtain m where "top_bit x m" "m < LENGTH(64)" using assms by (rule top_bit_exists)
  then show ?thesis by (intro that [of m]) simp_all
qed

lemma unat_pred_256: "\<not> sz \<le> 256 \<Longrightarrow> unat ((sz :: u64) - 1) = unat sz - 1 \<and> 256 \<le> unat (sz - 1) \<and> sz - 1 \<noteq> 0"
proof -
  assume n: "\<not> sz \<le> 256"
  then have "sz \<noteq> 0" by auto
  then have "unat (sz - 1) = unat sz - 1" by (rule unat_minus_one)
  with n show ?thesis by (auto simp: word_le_nat_alt)
qed

lemma free_list_index_total: "\<exists>i < 13. malloc_elem_free_list_index sz = Some i"
proof (cases "sz \<le> 256")
  case False
  then have "sz - 1 \<noteq> 0" using unat_pred_256 by blast
  then obtain m where "top_bit (sz - 1) m" "m < 64" by (rule top_bit_64)
  then have "builtin_clz (sz - 1) = Some (64 - Suc m)" using clz_spec [of "sz - 1" m] by simp
  with False show ?thesis by (auto simp: malloc_elem_free_list_index_def Let_def)
qed (simp add: malloc_elem_free_list_index_def)

definition list_index :: "u64 \<Rightarrow> nat" where
  "list_index sz = the (malloc_elem_free_list_index sz)"

lemma free_list_index: "malloc_elem_free_list_index sz = Some (list_index sz)"
  and list_index_bound: "list_index sz < 13"
  using free_list_index_total [of sz] by (auto simp: list_index_def)

lemma list_index_top:
  assumes "\<not> sz \<le> 256" "top_bit (sz - 1) m" "m < 64"
  shows "list_index sz = min ((m - 6) div 2) 12 \<and> 8 \<le> m"
proof -
  have c: "builtin_clz (sz - 1) = Some (64 - Suc m)" using clz_spec [of "sz - 1" m] assms by simp
  have "256 \<le> unat (sz - 1)" using unat_pred_256 [OF assms(1)] by simp
  then have "(2 :: nat) ^ 8 < 2 ^ Suc m" using assms(2) by (simp add: top_bit_def)
  then have "8 < Suc m" by (rule power_less_imp_less_exp [rotated]) simp
  moreover have "64 - (64 - Suc m) - 8 + 2 - 1 = m - 6" using assms(3) calculation by simp
  ultimately show ?thesis
    using assms by (auto simp: list_index_def malloc_elem_free_list_index_def c Let_def)
qed

lemma list_index_mono: "sz \<le> sz' \<Longrightarrow> list_index sz \<le> list_index sz'"
proof (cases "sz \<le> 256")
  case True
  then show ?thesis by (simp add: list_index_def malloc_elem_free_list_index_def)
next
  case False
  assume le: "sz \<le> sz'"
  with False have False': "\<not> sz' \<le> 256" by auto
  note nz = unat_pred_256 [OF False] unat_pred_256 [OF False']
  obtain m where m: "top_bit (sz - 1) m" "m < 64" using nz(1) by (blast intro: top_bit_64)
  obtain m' where m': "top_bit (sz' - 1) m'" "m' < 64" using nz(2) by (blast intro: top_bit_64)
  have "unat (sz - 1) \<le> unat (sz' - 1)" using le nz by (simp add: word_le_nat_alt)
  then have "(2 :: nat) ^ m < 2 ^ Suc m'" using m(1) m'(1) by (simp add: top_bit_def)
  then have "m < Suc m'" by (rule power_less_imp_less_exp [rotated]) simp
  then have "(m - 6) div 2 \<le> (m' - 6) div 2" by (intro div_le_mono) simp
  then show ?thesis using list_index_top [OF False m] list_index_top [OF False' m'] by simp
qed

definition listed :: "eptr list list \<Rightarrow> eblocks \<Rightarrow> bool" where
  "listed fl xs \<longleftrightarrow>
     length fl = 13 \<and> distinct (concat fl) \<and>
     (\<forall>i < 13. set (fl ! i) = {a. \<exists>b. (a, b) \<in> set xs \<and> is_free b \<and> list_index (me_size b - 128) = i})"

text \<open>Only the free blocks count.\<close>

lemma listed_cong:
  "filter (\<lambda>x. is_free (snd x)) xs = filter (\<lambda>x. is_free (snd x)) ys \<Longrightarrow> listed fl xs = listed fl ys"
proof -
  assume e: "filter (\<lambda>x. is_free (snd x)) xs = filter (\<lambda>x. is_free (snd x)) ys"
  have "(a, b) \<in> set xs \<and> is_free b \<longleftrightarrow> (a, b) \<in> set ys \<and> is_free b" for a b
    using arg_cong [OF e, of set] by (auto simp: set_eq_iff)
  then show ?thesis by (simp add: listed_def conj_assoc [symmetric] del: conj_assoc)
qed

lemma listed_skip [simp]: "\<not> is_free b \<Longrightarrow> listed fl (ps @ (a, b) # ss) = listed fl (ps @ ss)"
  by (rule listed_cong) simp

lemma listed_size:
  assumes "is_free b = is_free b'" "me_size b = me_size b'"
  shows "listed fl (ps @ (a, b) # ss) = listed fl (ps @ (a, b') # ss)"
proof -
  have "{c. \<exists>d. (c, d) \<in> set (ps @ (a, b) # ss) \<and> is_free d \<and> list_index (me_size d - 128) = i} =
    {c. \<exists>d. (c, d) \<in> set (ps @ (a, b') # ss) \<and> is_free d \<and> list_index (me_size d - 128) = i}" for i
    using assms by auto
  then show ?thesis by (simp only: listed_def)
qed

lemma listed_in:
  assumes "listed fl xs" "(a, b) \<in> set xs" "is_free b"
  shows "\<exists>ys \<in> set fl. a \<in> set ys"
proof -
  have "a \<in> set (fl ! list_index (me_size b - 128))"
    using assms list_index_bound by (auto simp: listed_def)
  moreover have "fl ! list_index (me_size b - 128) \<in> set fl"
    using assms(1) list_index_bound by (simp add: listed_def)
  ultimately show ?thesis by blast
qed

lemma set_concat_nth: "set (concat fl) = (\<Union>i < length fl. set (fl ! i))"
  by (auto simp: in_set_conv_nth) (metis lessThan_iff nth_mem)+

lemma listed_concat: "listed fl xs \<Longrightarrow> set (concat fl) = {a. \<exists>b. (a, b) \<in> set xs \<and> is_free b}"
  unfolding listed_def set_concat_nth using list_index_bound by (auto simp del: UN_simps)

lemma distinct_concat_update:
  assumes "distinct (concat fl)" "i < length fl" "a \<notin> set (concat fl)"
  shows "distinct (concat (fl[i := a # fl ! i]))"
proof -
  have f: "fl = take i fl @ fl ! i # drop (Suc i) fl" using assms(2) by (rule id_take_nth_drop)
  have g: "fl[i := a # fl ! i] = take i fl @ (a # fl ! i) # drop (Suc i) fl" using assms(2) by (rule upd_conv_take_nth_drop)
  have "distinct (concat (take i fl @ fl ! i # drop (Suc i) fl))"
    "a \<notin> set (concat (take i fl @ fl ! i # drop (Suc i) fl))" using assms f by simp_all
  then show ?thesis unfolding g by auto
qed

lemma listed_insert:
  assumes l: "listed fl (ps @ ss)" and a: "a \<notin> addrs (ps @ ss)" "is_free b" and i: "i = list_index (me_size b - 128)"
  shows "listed (fl[i := a # fl ! i]) (ps @ (a, b) # ss)"
proof -
  have "i < length fl" using l i list_index_bound by (simp add: listed_def)
  moreover have "a \<notin> set (concat fl)" unfolding listed_concat [OF l] using a(1) by (force simp: image_iff)
  ultimately have "distinct (concat (fl[i := a # fl ! i]))"
    using l by (intro distinct_concat_update) (simp_all add: listed_def)
  with l a(2) i \<open>i < length fl\<close> show ?thesis
    by (fastforce simp: listed_def nth_list_update)
qed

lemma listed_remove:
  assumes l: "listed fl (ps @ (a, b) # ss)" and d: "distinct (map fst (ps @ (a, b) # ss))"
  shows "listed (map (remove1 a) fl) (ps @ ss)"
proof -
  have "distinct (concat (map (remove1 a) fl))"
  proof -
    have "distinct (concat fl) \<Longrightarrow> distinct (concat (map (remove1 a) fl)) \<and>
        set (concat (map (remove1 a) fl)) \<subseteq> set (concat fl)" for fl :: "eptr list list"
      by (induction fl) (auto dest: set_remove1_subset [THEN subsetD])
    then show ?thesis using l by (simp add: listed_def)
  qed
  moreover have "set (remove1 a (fl ! i)) = {c. \<exists>d. (c, d) \<in> set (ps @ ss) \<and> is_free d \<and> list_index (me_size d - 128) = i}"
    if "i < 13" for i
  proof -
    have "distinct (fl ! i)" using l that by (auto simp: listed_def distinct_concat_iff)
    then have "set (remove1 a (fl ! i)) = set (fl ! i) - {a}" by simp
    also have "\<dots> = {c. \<exists>d. (c, d) \<in> set (ps @ ss) \<and> is_free d \<and> list_index (me_size d - 128) = i}"
    proof -
      have "set (fl ! i) = {c. \<exists>d. (c, d) \<in> set (ps @ (a, b) # ss) \<and> is_free d \<and> list_index (me_size d - 128) = i}"
        using l that by (simp add: listed_def)
      moreover have "a \<notin> addrs (ps @ ss)" using d by auto
      ultimately show ?thesis by (auto simp: image_Un dest: addrsI)
    qed
    finally show ?thesis .
  qed
  ultimately show ?thesis using l by (simp add: listed_def)
qed

lemma free_list_insert_ok:
  assumes L: "heap_links h (ps @ (a, b) # ss)" and l: "listed (mh_free h) (qs @ rs)" "a \<notin> addrs (qs @ rs)"
  obtains h' where "malloc_elem_free_list_insert a h = Some h'"
    "heap_links h' (ps @ (a, b\<lparr>me_state := ELEM_FREE\<rparr>) # ss)"
    "listed (mh_free h') (qs @ (a, b\<lparr>me_state := ELEM_FREE\<rparr>) # rs)"
    "same_rest {a} h (h'\<lparr>mh_free := mh_free h\<rparr>)"
proof -
  let ?i = "list_index (me_size b - 128)"
  obtain h1 where h1: "upd_elem a (\<lambda>E. E\<lparr>me_state := ELEM_FREE\<rparr>) h = Some h1"
    "heap_links h1 (ps @ (a, b\<lparr>me_state := ELEM_FREE\<rparr>) # ss)" "same_rest {a} h h1"
    by (rule links_upd [OF L, where f = "\<lambda>E. E\<lparr>me_state := ELEM_FREE\<rparr>" and g = "\<lambda>b. b\<lparr>me_state := ELEM_FREE\<rparr>"]) simp_all
  have f: "mh_free h1 = mh_free h" using same_rest_fields [OF h1(3)] by simp
  have i: "?i < length (mh_free h)" using l(1) list_index_bound by (simp add: listed_def)
  let ?h = "h1\<lparr>mh_free := (mh_free h1)[?i := a # mh_free h1 ! ?i]\<rparr>"
  have "malloc_elem_free_list_insert a h = Some ?h"
    by (simp add: malloc_elem_free_list_insert_def links_elem [OF L] free_list_index h1(1) f i)
  moreover have "heap_links ?h (ps @ (a, b\<lparr>me_state := ELEM_FREE\<rparr>) # ss)"
    using h1(2) by (simp add: heap_links_def)
  moreover have "listed (mh_free ?h) (qs @ (a, b\<lparr>me_state := ELEM_FREE\<rparr>) # rs)"
    using listed_insert [OF l, of "b\<lparr>me_state := ELEM_FREE\<rparr>" ?i] f by simp
  moreover have "same_rest {a} h (?h\<lparr>mh_free := mh_free h\<rparr>)"
    using h1(3) by (simp add: same_rest_def)
  ultimately show ?thesis by (rule that)
qed

lemma free_list_insert_free:
  assumes "heap_links h (ps @ (a, b) # ss)" "listed (mh_free h) (qs @ rs)" "a \<notin> addrs (qs @ rs)" "is_free b"
  obtains h' where "malloc_elem_free_list_insert a h = Some h'" "heap_links h' (ps @ (a, b) # ss)"
    "listed (mh_free h') (qs @ (a, b) # rs)" "same_rest {a} h (h'\<lparr>mh_free := mh_free h\<rparr>)"
proof -
  have "b\<lparr>me_state := ELEM_FREE\<rparr> = b" using assms(4) by (cases b) simp
  with free_list_insert_ok [OF assms(1-3)] that show ?thesis by metis
qed

lemma free_list_remove_ok:
  assumes l: "listed (mh_free h) (qs @ (a, b) # rs)" "distinct (map fst (qs @ (a, b) # rs))" and "is_free b"
  shows "malloc_elem_free_list_remove a h = Some (h\<lparr>mh_free := map (remove1 a) (mh_free h)\<rparr>)"
    "listed (map (remove1 a) (mh_free h)) (qs @ rs)"
  using listed_in [OF l(1), of a b] assms(3) listed_remove [OF l]
  by (auto simp: malloc_elem_free_list_remove_def)

lemma links_free [simp]: "heap_links (h\<lparr>mh_free := fl\<rparr>) xs = heap_links h xs"
  by (simp add: heap_links_def)

end
