(* ===== verification/MallocHeap.thy ===== *)
theory MallocHeap
  imports MallocElem
begin

text \<open>
  One heap (\<open>malloc_heap.c\<close>): growing it, finding an element for a request, allocating, freeing with the return of whole
  pages to the system, resizing, statistics, and the life of external heaps. Locks are left out: the operations of one heap
  exclude each other. Notifying other processes and unmapping pages happen outside; \<open>malloc_heap_free\<close> gives the range.
\<close>

section \<open>Finding memory\<close>

abbreviation (input) RTE_MEMZONE_2MB :: u32 where "RTE_MEMZONE_2MB \<equiv> 0x1"
abbreviation (input) RTE_MEMZONE_1GB :: u32 where "RTE_MEMZONE_1GB \<equiv> 0x2"
abbreviation (input) RTE_MEMZONE_SIZE_HINT_ONLY :: u32 where "RTE_MEMZONE_SIZE_HINT_ONLY \<equiv> 0x4"
abbreviation (input) RTE_MEMZONE_16MB :: u32 where "RTE_MEMZONE_16MB \<equiv> 0x100"
abbreviation (input) RTE_MEMZONE_16GB :: u32 where "RTE_MEMZONE_16GB \<equiv> 0x200"
abbreviation (input) RTE_MEMZONE_256KB :: u32 where "RTE_MEMZONE_256KB \<equiv> 0x10000"
abbreviation (input) RTE_MEMZONE_256MB :: u32 where "RTE_MEMZONE_256MB \<equiv> 0x20000"
abbreviation (input) RTE_MEMZONE_512MB :: u32 where "RTE_MEMZONE_512MB \<equiv> 0x40000"
abbreviation (input) RTE_MEMZONE_4GB :: u32 where "RTE_MEMZONE_4GB \<equiv> 0x80000"

definition check_hugepage_sz :: "u32 \<Rightarrow> u64 \<Rightarrow> bool" where
  "check_hugepage_sz flags hugepage_sz =
     (if flags AND NOT RTE_MEMZONE_SIZE_HINT_ONLY = 0 then True
      else
        let check_flag =
          (if hugepage_sz = 0x40000 then RTE_MEMZONE_256KB
           else if hugepage_sz = 0x200000 then RTE_MEMZONE_2MB
           else if hugepage_sz = 0x1000000 then RTE_MEMZONE_16MB
           else if hugepage_sz = 0x10000000 then RTE_MEMZONE_256MB
           else if hugepage_sz = 0x20000000 then RTE_MEMZONE_512MB
           else if hugepage_sz = 0x40000000 then RTE_MEMZONE_1GB
           else if hugepage_sz = 0x100000000 then RTE_MEMZONE_4GB
           else if hugepage_sz = 0x400000000 then RTE_MEMZONE_16GB
           else 0)
        in check_flag AND flags \<noteq> 0)"

definition malloc_heap_add_memory ::
    "malloc_conf \<Rightarrow> nat \<Rightarrow> u64 \<Rightarrow> u64 \<Rightarrow> malloc_heap \<Rightarrow> (eptr \<times> malloc_heap) option" where
  "malloc_heap_add_memory cf msl start len h = do {
     let elem = start;
     let h = malloc_elem_init elem msl len elem len h;
     h \<leftarrow> malloc_elem_insert elem h;
     (elem, h) \<leftarrow> malloc_elem_join_adjacent_free cf elem h;
     h \<leftarrow> malloc_elem_free_list_insert elem h;
     Some (elem, h) }"

text \<open>The inner loop; \<open>Inr\<close> an element to return, \<open>Inl\<close> the alternative found so far.\<close>

fun suitable_in ::
    "malloc_conf \<Rightarrow> u64 \<Rightarrow> u32 \<Rightarrow> u32 \<Rightarrow> u64 \<Rightarrow> bool \<Rightarrow> malloc_heap \<Rightarrow> eptr \<Rightarrow> eptr list \<Rightarrow> (eptr + eptr) option" where
  "suitable_in cf sz flags align bound contig h alt_elem [] = Some (Inl alt_elem)"
| "suitable_in cf sz flags align bound contig h alt_elem (elem # es) = do {
     can \<leftarrow> malloc_elem_can_hold cf elem sz align bound contig h;
     if can then do {
       E \<leftarrow> mh_elems h elem;
       if check_hugepage_sz flags (ml_page_sz (mc_msl cf (me_msl E))) then Some (Inr elem)
       else suitable_in cf sz flags align bound contig h (if alt_elem = 0 then elem else alt_elem) es }
     else suitable_in cf sz flags align bound contig h alt_elem es }"

fun suitable_lists ::
    "malloc_conf \<Rightarrow> u64 \<Rightarrow> u32 \<Rightarrow> u32 \<Rightarrow> u64 \<Rightarrow> bool \<Rightarrow> malloc_heap \<Rightarrow> eptr \<Rightarrow> eptr list list \<Rightarrow> (eptr + eptr) option" where
  "suitable_lists cf sz flags align bound contig h alt_elem [] = Some (Inl alt_elem)"
| "suitable_lists cf sz flags align bound contig h alt_elem (es # ls) = do {
     r \<leftarrow> suitable_in cf sz flags align bound contig h alt_elem es;
     (case r of Inr elem \<Rightarrow> Some (Inr elem)
      | Inl alt_elem \<Rightarrow> suitable_lists cf sz flags align bound contig h alt_elem ls) }"

text \<open>The alignment is a \<open>size_t\<close> here, and an \<open>unsigned\<close> for \<open>malloc_elem_can_hold\<close>.\<close>

definition find_suitable_element ::
    "malloc_conf \<Rightarrow> u64 \<Rightarrow> u32 \<Rightarrow> u64 \<Rightarrow> u64 \<Rightarrow> bool \<Rightarrow> malloc_heap \<Rightarrow> eptr option" where
  "find_suitable_element cf sz flags align bound contig h = do {
     idx \<leftarrow> malloc_elem_free_list_index sz;
     r \<leftarrow> suitable_lists cf sz flags (ucast align) bound contig h 0 (drop idx (mh_free h));
     (case r of Inr elem \<Rightarrow> Some elem
      | Inl alt_elem \<Rightarrow>
          Some (if alt_elem \<noteq> 0 \<and> flags AND RTE_MEMZONE_SIZE_HINT_ONLY \<noteq> 0 then alt_elem else 0)) }"

definition CACHE_LINE_ROUNDUP :: "u64 \<Rightarrow> u64" where
  "CACHE_LINE_ROUNDUP sz = 64 * ((sz + 64 - 1) div 64)"

text \<open>The address of the data, 0 when there is no element.\<close>

definition heap_alloc ::
    "malloc_conf \<Rightarrow> u64 \<Rightarrow> u32 \<Rightarrow> u64 \<Rightarrow> u64 \<Rightarrow> bool \<Rightarrow> malloc_heap \<Rightarrow> (u64 \<times> malloc_heap) option" where
  "heap_alloc cf sz flags align bound contig h = do {
     let sz = CACHE_LINE_ROUNDUP sz;
     let align = CACHE_LINE_ROUNDUP align;
     elem \<leftarrow> find_suitable_element cf sz flags align bound contig h;
     if elem \<noteq> 0 then do {
       (elem, h) \<leftarrow> malloc_elem_alloc cf elem sz (ucast align) bound contig h;
       Some (elem + MALLOC_ELEM_HEADER_LEN, h\<lparr>mh_alloc_count := mh_alloc_count h + 1\<rparr>) }
     else Some (0, h) }"

section \<open>Giving memory back\<close>

definition virt2memseg :: "u64 \<Rightarrow> memseg_list \<Rightarrow> memseg option" where
  "virt2memseg addr msl =
     (if addr < ml_base_va msl \<or> addr \<ge> ml_base_va msl + ml_len msl then None
      else
        let ms_idx = unat ((addr - ml_base_va msl) div ml_page_sz msl)
        in if ms_idx < length (ml_segs msl) then Some (ml_segs msl ! ms_idx) else None)"

abbreviation (input) RTE_MEMSEG_FLAG_DO_NOT_FREE :: u32 where "RTE_MEMSEG_FLAG_DO_NOT_FREE \<equiv> 1"

text \<open>The loop over the segments looks at the one at \<open>aligned_start\<close> each time.\<close>

primrec skip_unfreeable :: "memseg_list \<Rightarrow> nat \<Rightarrow> u64 \<Rightarrow> u64 option" where
  "skip_unfreeable msl 0 aligned_start = Some aligned_start"
| "skip_unfreeable msl (Suc n) aligned_start = do {
     tmp \<leftarrow> virt2memseg aligned_start msl;
     skip_unfreeable msl n
       (if sg_flags tmp AND RTE_MEMSEG_FLAG_DO_NOT_FREE \<noteq> 0 then sg_addr tmp + sg_len tmp else aligned_start) }"

text \<open>
  The last checks: when too little room would be left before or behind the pages, they move by one. The result is the range
  to be hidden, or nothing.
\<close>

definition trim_pages :: "u64 \<Rightarrow> eptr \<Rightarrow> u64 \<Rightarrow> u64 \<Rightarrow> u64 \<Rightarrow> (u64 \<times> u64) option" where
  "trim_pages page_sz elem end_pt aligned_start aligned_end =
     (let aligned_len = aligned_end - aligned_start;
          n_segs = ucast (aligned_len div page_sz) :: u32;
          before_space = ucast (aligned_start - elem) :: u32;
          after_space = ucast (end_pt - aligned_end) :: u32;
          before_small = before_space \<noteq> 0 \<and> before_space < 192;
          after_small = after_space \<noteq> 0 \<and> after_space < 192
      in if n_segs = 0 then None
         else if before_small \<and> n_segs = 1 then None
         else
           let (aligned_start, aligned_len, n_segs) =
             (if before_small then (aligned_start + page_sz, aligned_len - page_sz, n_segs - 1)
              else (aligned_start, aligned_len, n_segs))
           in if after_small \<and> n_segs = 1 then None
              else Some (aligned_start, if after_small then aligned_len - page_sz else aligned_len))"

definition pages_to_free :: "malloc_conf \<Rightarrow> memseg_list \<Rightarrow> eptr \<Rightarrow> malloc_elem \<Rightarrow> (u64 \<times> u64) option option" where
  "pages_to_free cf msl elem E =
     (let page_sz = ml_page_sz msl;
          aligned_start = RTE_ALIGN_CEIL elem page_sz;
          end_pt = elem + me_size E;
          aligned_end = RTE_ALIGN_FLOOR end_pt page_sz;
          aligned_len = aligned_end - aligned_start
      in if mc_legacy_mem cf \<or> ml_external msl then Some None
         else if me_size E < page_sz then Some None
         else if mc_match_allocations cf \<and> me_size E \<noteq> me_orig_size E then Some None
         else if aligned_len < page_sz then Some None
         else do {
           let n_segs = (ucast (aligned_len div page_sz) :: u32);
           aligned_start \<leftarrow> skip_unfreeable msl (unat n_segs) aligned_start;
           Some (trim_pages page_sz elem end_pt aligned_start aligned_end) })"

text \<open>The result is the return value, the pages given back, and the heap.\<close>

definition malloc_heap_free ::
    "malloc_conf \<Rightarrow> eptr \<Rightarrow> malloc_heap \<Rightarrow> (c_int \<times> (u64 \<times> u64) option \<times> malloc_heap) option" where
  "malloc_heap_free cf elem h =
     (if elem = 0 then Some (- 1, None, h)
      else do {
        E \<leftarrow> mh_elems h elem;
        if me_state E \<noteq> ELEM_BUSY then Some (- 1, None, h)
        else do {
          let msl = mc_msl cf (me_msl E);
          h \<leftarrow> upd_elem elem (\<lambda>E. E\<lparr>me_state := ELEM_FREE\<rparr>) h;
          (elem, h) \<leftarrow> malloc_elem_free cf elem h;
          E \<leftarrow> mh_elems h elem;
          pages \<leftarrow> pages_to_free cf msl elem E;
          (case pages of None \<Rightarrow> Some (0, None, h)
           | Some (aligned_start, aligned_len) \<Rightarrow> do {
               h \<leftarrow> malloc_elem_free_list_remove elem h;
               h \<leftarrow> malloc_elem_hide_region cf elem aligned_start aligned_len h;
               Some (0, Some (aligned_start, aligned_len),
                 h\<lparr>mh_total_size := mh_total_size h - aligned_len\<rparr>) }) } })"

definition malloc_heap_resize :: "malloc_conf \<Rightarrow> eptr \<Rightarrow> u64 \<Rightarrow> malloc_heap \<Rightarrow> (c_int \<times> malloc_heap) option" where
  "malloc_heap_resize cf elem sz h =
     (if elem = 0 then Some (- 1, h)
      else do {
        E \<leftarrow> mh_elems h elem;
        if me_state E \<noteq> ELEM_BUSY then Some (- 1, h) else malloc_elem_resize cf elem sz h })"

section \<open>Statistics\<close>

record heap_stats =
  hs_free_count :: u32
  hs_freesz :: u64
  hs_greatest :: u64
  hs_totalsz :: u64
  hs_allocsz :: u64
  hs_alloc_count :: u32

fun stats_loop :: "malloc_heap \<Rightarrow> eptr list \<Rightarrow> u32 \<times> u64 \<times> u64 \<Rightarrow> (u32 \<times> u64 \<times> u64) option" where
  "stats_loop h [] r = Some r"
| "stats_loop h (elem # es) (n, freesz, greatest) = do {
     E \<leftarrow> mh_elems h elem;
     stats_loop h es (n + 1, freesz + me_size E, if me_size E > greatest then me_size E else greatest) }"

definition malloc_heap_get_stats :: "malloc_heap \<Rightarrow> heap_stats option" where
  "malloc_heap_get_stats h = do {
     (n, freesz, greatest) \<leftarrow> stats_loop h (concat (mh_free h)) (0, 0, 0);
     Some \<lparr>hs_free_count = n, hs_freesz = freesz, hs_greatest = greatest, hs_totalsz = mh_total_size h,
       hs_allocsz = mh_total_size h - freesz, hs_alloc_count = mh_alloc_count h\<rparr> }"

end
