(* ===== verification/MallocAlloc.thy ===== *)
theory MallocAlloc
  imports MallocInv MallocHeap
begin

text \<open>
  Allocation: what \<open>malloc_elem_alloc\<close> does to the list of blocks, that it keeps the invariant of the heap, and which
  requests \<open>heap_alloc\<close> serves.
\<close>

section \<open>The invariant\<close>

definition pads_ok :: "malloc_heap \<Rightarrow> eblocks \<Rightarrow> bool" where
  "pads_ok h xs \<longleftrightarrow>
     (\<forall>(a, b) \<in> set xs. is_busy b \<and> me_pad b \<noteq> 0 \<longrightarrow>
        (\<exists>e. mh_elems h (a + ucast (me_pad b)) = Some e \<and> me_state e = ELEM_PAD \<and> me_pad e = me_pad b))"

definition blocks_ok :: "malloc_conf \<Rightarrow> eblocks \<Rightarrow> bool" where
  "blocks_ok cf xs \<longleftrightarrow>
     (\<forall>(a, b) \<in> set xs. shape_ok a b \<and> state_ok b) \<and> in_order xs \<and> no_joinable cf xs"

definition heap_inv :: "malloc_conf \<Rightarrow> malloc_heap \<Rightarrow> eblocks \<Rightarrow> bool" where
  "heap_inv cf h xs \<longleftrightarrow>
     heap_links h xs \<and> blocks_ok cf xs \<and> pads_ok h xs \<and> listed (mh_free h) xs"

text \<open>The blocks that take the place of a free block from which a request is served.\<close>

definition alloc_tail :: "eptr \<Rightarrow> elem_block \<Rightarrow> eptr \<Rightarrow> u64 \<Rightarrow> eblocks" where
  "alloc_tail a b p sz =
     (if me_size b - (p - a) - sz - 128 > 192 then [(p + (sz + 128), cut_block b (p + (sz + 128) - a))] else [])"

definition alloc_room :: "eptr \<Rightarrow> elem_block \<Rightarrow> eptr \<Rightarrow> u64 \<Rightarrow> elem_block" where
  "alloc_room a b p sz =
     (if me_size b - (p - a) - sz - 128 > 192 then b\<lparr>me_size := p + (sz + 128) - a\<rparr> else b)"

text \<open>The element is taken whole, with its front as padding, or its front is split off and stays free.\<close>

definition alloc_elem :: "eptr \<Rightarrow> elem_block \<Rightarrow> eptr \<Rightarrow> eblocks" where
  "alloc_elem a c p =
     (if p - a < 192 then [(a, c\<lparr>me_state := ELEM_BUSY, me_pad := ucast (p - a)\<rparr>)]
      else [(a, c\<lparr>me_size := p - a\<rparr>), (p, (cut_block c (p - a))\<lparr>me_state := ELEM_BUSY\<rparr>)])"

definition alloc_blocks :: "eptr \<Rightarrow> elem_block \<Rightarrow> eptr \<Rightarrow> u64 \<Rightarrow> eblocks" where
  "alloc_blocks a b p sz = alloc_elem a (alloc_room a b p sz) p @ alloc_tail a b p sz"

section \<open>Arithmetic of a split\<close>

lemma ptr_diff: "unat a \<le> unat p \<Longrightarrow> unat (p - a) = unat p - unat (a :: u64)"
  by (intro unat_sub) (simp add: word_le_nat_alt)

lemma unat_le_iff: "x \<le> y \<longleftrightarrow> unat x \<le> unat (y :: 'a::len word)"
  by (simp add: word_le_nat_alt)

lemma unat_less_iff: "x < y \<longleftrightarrow> unat x < unat (y :: 'a::len word)"
  by (simp add: word_less_nat_alt)

text \<open>A place for the header \<open>p\<close> and \<open>sz\<close> bytes of data in a block.\<close>

definition place_ok :: "eptr \<Rightarrow> elem_block \<Rightarrow> eptr \<Rightarrow> u64 \<Rightarrow> bool" where
  "place_ok a b p sz \<longleftrightarrow>
     unat a \<le> unat p \<and> 64 dvd unat p \<and> unat p + 128 + unat sz \<le> unat a + unat (me_size b) \<and> 64 dvd unat sz"

lemma place_numbers:
  assumes "shape_ok a b" "place_ok a b p sz"
  shows "unat (p - a) = unat p - unat a"
    "unat (p + (sz + 128)) = unat p + unat sz + 128"
    "unat (me_size b - (p - a) - sz - 128) = unat (me_size b) - (unat p - unat a) - unat sz - 128"
    "unat (p + (sz + 128) - a) = unat p + unat sz + 128 - unat a"
    "unat (me_size b - (p + (sz + 128) - a)) = unat (me_size b) - (unat p + unat sz + 128 - unat a)"
proof -
  have b: "unat a \<le> unat p" "unat p + 128 + unat sz \<le> unat a + unat (me_size b)" "unat a + unat (me_size b) < 2 ^ 64"
    using assms by (auto simp: shape_ok_def place_ok_def)
  show d: "unat (p - a) = unat p - unat a" using b(1) by (rule ptr_diff)
  have s: "unat (sz + 128) = unat sz + 128" using b by (simp add: unat_add_no_overflow)
  then show e: "unat (p + (sz + 128)) = unat p + unat sz + 128" using b by (simp add: unat_add_no_overflow)
  then show f: "unat (p + (sz + 128) - a) = unat p + unat sz + 128 - unat a"
    using b ptr_diff [of a "p + (sz + 128)"] by simp
  show "unat (me_size b - (p + (sz + 128) - a)) = unat (me_size b) - (unat p + unat sz + 128 - unat a)"
    using b f unat_sub [of "p + (sz + 128) - a" "me_size b"] by (simp add: unat_le_iff)
  have 1: "unat (me_size b - (p - a)) = unat (me_size b) - (unat p - unat a)"
    using b d unat_sub [of "p - a" "me_size b"] by (simp add: unat_le_iff)
  have 2: "unat (me_size b - (p - a) - sz) = unat (me_size b) - (unat p - unat a) - unat sz"
    using b 1 unat_sub [of sz "me_size b - (p - a)"] by (simp add: unat_le_iff)
  show "unat (me_size b - (p - a) - sz - 128) = unat (me_size b) - (unat p - unat a) - unat sz - 128"
    using b 2 unat_sub [of 128 "me_size b - (p - a) - sz"] by (simp add: unat_le_iff)
qed

section \<open>Padding\<close>

lemma unat_pad: "unat (ucast (w :: u32) :: u64) = unat w"
  by (simp add: unat_ucast_up)

lemma pad_addr:
  assumes "shape_ok a b" "state_ok b" "is_busy b" "me_pad b \<noteq> 0"
  shows "unat (a + ucast (me_pad b)) = unat a + unat (me_pad b)" "inside (a + ucast (me_pad b)) a b"
    "a + ucast (me_pad b) \<noteq> a"
proof -
  have "unat a + unat (ucast (me_pad b) :: u64) < 2 ^ 64"
    using assms by (auto simp: shape_ok_def state_ok_def unat_pad)
  then show u: "unat (a + ucast (me_pad b)) = unat a + unat (me_pad b)"
    by (simp add: unat_add_no_overflow unat_pad)
  have "0 < unat (me_pad b)" using assms(4) by (simp add: unat_gt_0)
  with u show "inside (a + ucast (me_pad b)) a b" "a + ucast (me_pad b) \<noteq> a"
    using assms by (auto simp: inside_def state_ok_def)
qed

lemma inside_not_addr:
  assumes "\<forall>(a, b) \<in> set xs. shape_ok a b" "in_order xs" "(a, b) \<in> set xs" "inside q a b" "q \<noteq> a"
  shows "q \<notin> addrs xs"
proof
  assume "q \<in> addrs xs"
  then obtain d where d: "(q, d) \<in> set xs" by force
  then have "inside q q d" using assms(1) by (intro inside_self) auto
  from inside_once [OF assms(2,3) d assms(4) this] assms(5) show False by simp
qed

text \<open>The header in a padding is not the header of a block, and is inside no other block.\<close>

lemma pad_alone:
  assumes "\<forall>(a, b) \<in> set xs. shape_ok a b" "in_order xs" "(a, b) \<in> set xs" "state_ok b" "is_busy b" "me_pad b \<noteq> 0"
  shows "a + ucast (me_pad b) \<notin> addrs xs"
    "(c, d) \<in> set xs \<Longrightarrow> (c, d) \<noteq> (a, b) \<Longrightarrow> \<not> inside (a + ucast (me_pad b)) c d"
proof -
  have s: "shape_ok a b" using assms by auto
  note q = pad_addr [OF s assms(4-6)]
  show "\<not> inside (a + ucast (me_pad b)) c d" if "(c, d) \<in> set xs" "(c, d) \<noteq> (a, b)"
    using inside_once [OF assms(2,3) that(1) q(2)] that(2) by auto
  show "a + ucast (me_pad b) \<notin> addrs xs" by (rule inside_not_addr [OF assms(1-3) q(2,3)])
qed

text \<open>Outside the headers of blocks and one block nothing has changed.\<close>

definition frame_off :: "eblocks \<Rightarrow> eptr \<Rightarrow> elem_block \<Rightarrow> malloc_heap \<Rightarrow> malloc_heap \<Rightarrow> bool" where
  "frame_off xs a b h h' \<longleftrightarrow> (\<forall>x. x \<notin> addrs xs \<longrightarrow> \<not> inside x a b \<longrightarrow> mh_elems h' x = mh_elems h x)"

lemma pads_frame:
  assumes ok: "\<forall>(a, b) \<in> set (ps @ (a, b) # ss). shape_ok a b \<and> state_ok b" "in_order (ps @ (a, b) # ss)"
    and pads: "pads_ok h (ps @ (a, b) # ss)" and f: "frame_off (ps @ (a, b) # ss) a b h h'"
    and off: "a \<notin> addrs (ps @ ss)"
  shows "pads_ok h' ps" "pads_ok h' ss"
proof -
  have "\<exists>e. mh_elems h' (c + ucast (me_pad d)) = Some e \<and> me_state e = ELEM_PAD \<and> me_pad e = me_pad d"
    if c: "(c, d) \<in> set (ps @ ss)" "is_busy d" "me_pad d \<noteq> 0" for c d
  proof -
    let ?xs = "ps @ (a, b) # ss"
    have m: "(c, d) \<in> set ?xs" "(a, b) \<in> set ?xs" "(a, b) \<noteq> (c, d)" using c(1) off by (auto dest: addrsI)
    have k: "\<forall>(a, b) \<in> set ?xs. shape_ok a b" "state_ok d" using ok(1) m(1) by auto
    note n = pad_alone [OF k(1) ok(2) m(1) k(2) c(2,3)]
    from f n(1) n(2) [OF m(2,3)] have "mh_elems h' (c + ucast (me_pad d)) = mh_elems h (c + ucast (me_pad d))"
      unfolding frame_off_def by blast
    with pads m(1) c show ?thesis by (auto simp: pads_ok_def)
  qed
  then show "pads_ok h' ps" "pads_ok h' ss" by (auto simp: pads_ok_def)
qed

section \<open>Allocation of an element\<close>

lemma alloc_step_tail:
  assumes L: "heap_links h (ps @ (a, b) # ss)" and l: "listed (mh_free h) (ps @ ss)"
    and ok: "\<forall>(a, b) \<in> set (ps @ (a, b) # ss). shape_ok a b \<and> state_ok b" "in_order (ps @ (a, b) # ss)"
    and pl: "place_ok a b p sz"
  obtains h' where
    "(if me_size b - (p - a) - sz - 128 > 192 then do {
        h \<leftarrow> split_elem a (p + (sz + 128)) h;
        h \<leftarrow> malloc_elem_free_list_insert (p + (sz + 128)) h;
        Some (if a = mh_last h then h\<lparr>mh_last := p + (sz + 128)\<rparr> else h) }
      else Some h) = Some h'"
    "heap_links h' (ps @ (a, alloc_room a b p sz) # alloc_tail a b p sz @ ss)"
    "listed (mh_free h') (ps @ alloc_tail a b p sz @ ss)"
    "frame_off (ps @ (a, b) # ss) a b h h'" "mh_alloc_count h' = mh_alloc_count h"
proof (cases "me_size b - (p - a) - sz - 128 > 192")
  case False
  then show ?thesis using L l by (intro that [of h]) (auto simp: alloc_room_def alloc_tail_def frame_off_def)
next
  case True
  let ?s = "p + (sz + 128)"
  have sh: "shape_ok a b" using ok(1) by auto
  note N = place_numbers [OF sh pl]
  have T: "192 < unat (me_size b) - (unat p - unat a) - unat sz - 128" using True N(3) by (simp add: unat_less_iff)
  have ins: "inside ?s a b" "?s \<noteq> a" "?s \<noteq> 0"
  proof -
    show "inside ?s a b" using N(2) T pl by (auto simp: inside_def place_ok_def)
    show "?s \<noteq> a" using N(2) pl by (auto simp: place_ok_def)
    show "?s \<noteq> 0" using N(2) by auto
  qed
  have new: "?s \<notin> addrs (ps @ (a, b) # ss)"
    by (rule inside_not_addr [OF _ ok(2) _ ins(1,2)]) (use ok(1) in auto)
  obtain h1 where h1: "split_elem a ?s h = Some h1"
    "heap_links h1 (ps @ (a, b\<lparr>me_size := ?s - a\<rparr>) # (?s, cut_block b (?s - a)) # ss)"
    "same_rest (insert ?s (addrs (ps @ (a, b) # ss))) h h1"
    by (rule links_split [OF L new ins(3)])
  have L1: "heap_links h1 ((ps @ [(a, b\<lparr>me_size := ?s - a\<rparr>)]) @ (?s, cut_block b (?s - a)) # ss)" using h1(2) by simp
  have f1: "mh_free h1 = mh_free h" "mh_alloc_count h1 = mh_alloc_count h" using same_rest_fields [OF h1(3)] by simp_all
  obtain h2 where h2: "malloc_elem_free_list_insert ?s h1 = Some h2"
    "heap_links h2 ((ps @ [(a, b\<lparr>me_size := ?s - a\<rparr>)]) @ (?s, cut_block b (?s - a)) # ss)"
    "listed (mh_free h2) (ps @ (?s, cut_block b (?s - a)) # ss)"
    "same_rest {?s} h1 (h2\<lparr>mh_free := mh_free h1\<rparr>)"
    by (rule free_list_insert_free [OF L1, of ps ss]) (use l f1 new in \<open>auto simp: image_Un\<close>)
  have last: "a \<noteq> mh_last h2"
  proof -
    have "mh_last h2 = last_of ?s ss" using h2(2) by (simp add: heap_links_def)
    moreover have "last_of ?s ss \<in> insert ?s (addrs ss)" by (rule last_of_in)
    ultimately show ?thesis using ins(2) L by (auto simp: heap_links_def)
  qed
  have "frame_off (ps @ (a, b) # ss) a b h h2"
    using h1(3) h2(4) ins(1) by (auto simp: frame_off_def same_rest_def) metis
  moreover have "mh_alloc_count h2 = mh_alloc_count h"
    using h2(4) f1(2) by (simp add: same_rest_def)
  ultimately show ?thesis
    using True h1(1) h2 last by (intro that [of h2]) (simp_all add: alloc_room_def alloc_tail_def)
qed

definition alloc_finish :: "eptr \<Rightarrow> eptr \<Rightarrow> malloc_heap \<Rightarrow> (eptr \<times> malloc_heap) option" where
  "alloc_finish elem new_elem h =
     (if new_elem - elem < 192 then do {
       h \<leftarrow> upd_elem elem (\<lambda>E. E\<lparr>me_state := ELEM_BUSY, me_pad := ucast (new_elem - elem)\<rparr>) h;
       E \<leftarrow> mh_elems h elem;
       Some (new_elem,
         if me_pad E > 0 then
           h\<lparr>mh_elems := (mh_elems h)(new_elem \<mapsto>
              (case mh_elems h new_elem of None \<Rightarrow> zero_elem | Some Z \<Rightarrow> Z)
                \<lparr>me_pad := me_pad E, me_state := ELEM_PAD, me_size := me_size E - ucast (me_pad E)\<rparr>)\<rparr>
         else h) }
     else do {
       h \<leftarrow> split_elem elem new_elem h;
       h \<leftarrow> upd_elem new_elem (\<lambda>N. N\<lparr>me_state := ELEM_BUSY\<rparr>) h;
       h \<leftarrow> malloc_elem_free_list_insert elem h;
       Some (new_elem, h) })"

lemma malloc_elem_alloc_steps:
  assumes "elem_start_pt cf elem sz align bound contig h = Some p" "mh_elems h elem = Some E"
    "malloc_elem_free_list_remove elem h = Some h1"
    "(if me_size E - (p - elem) - sz - 128 > 192 then do {
        h \<leftarrow> split_elem elem (p + (sz + 128)) h1;
        h \<leftarrow> malloc_elem_free_list_insert (p + (sz + 128)) h;
        Some (if elem = mh_last h then h\<lparr>mh_last := p + (sz + 128)\<rparr> else h) }
      else Some h1) = Some h2"
  shows "malloc_elem_alloc cf elem sz align bound contig h = alloc_finish elem p h2"
  using assms by (simp add: malloc_elem_alloc_def alloc_finish_def Let_def cong: if_cong)

lemma small_pad:
  assumes "p - a < (192 :: u64)"
  shows "unat (ucast (p - a) :: u32) = unat (p - a)" "unat (p - a) < 192"
proof -
  show l: "unat (p - a) < 192" using assms by (simp add: unat_less_iff)
  show "unat (ucast (p - a) :: u32) = unat (p - a)"
    using l by (simp add: unsigned_ucast_eq take_bit_nat_eq_self)
qed

lemma alloc_step_pad:
  assumes L: "heap_links h (ps @ (a, c) # ss)" and l: "listed (mh_free h) (ps @ ss)" and f: "is_free c"
    and ok: "\<forall>(a, b) \<in> set (ps @ (a, c) # ss). shape_ok a b" "in_order (ps @ (a, c) # ss)"
    and p: "unat a \<le> unat p" "inside p a c"
    and True: "p - a < 192"
  obtains h' where "alloc_finish a p h = Some (p, h')"
    "heap_links h' (ps @ alloc_elem a c p @ ss)" "listed (mh_free h') (ps @ alloc_elem a c p @ ss)"
    "\<forall>x. x \<notin> addrs (ps @ (a, c) # ss) \<longrightarrow> x \<noteq> p \<longrightarrow> mh_elems h' x = mh_elems h x"
    "p \<noteq> a \<Longrightarrow> \<exists>e. mh_elems h' p = Some e \<and> me_state e = ELEM_PAD \<and> me_pad e = ucast (p - a)"
    "mh_alloc_count h' = mh_alloc_count h"
proof -
  let ?b = "c\<lparr>me_state := ELEM_BUSY, me_pad := ucast (p - a)\<rparr>"
  obtain h1 where h1: "upd_elem a (\<lambda>E. E\<lparr>me_state := ELEM_BUSY, me_pad := ucast (p - a)\<rparr>) h = Some h1"
    "heap_links h1 (ps @ (a, ?b) # ss)" "same_rest {a} h h1"
    by (rule links_upd [OF L, where f = "\<lambda>E. E\<lparr>me_state := ELEM_BUSY, me_pad := ucast (p - a)\<rparr>" and
        g = "\<lambda>b. b\<lparr>me_state := ELEM_BUSY, me_pad := ucast (p - a)\<rparr>"]) simp_all
  have m: "mh_elems h1 a = Some (mk_elem ?b (last_of 0 ps) (first_of ss 0))" by (rule links_elem [OF h1(2)])
  note f1 = same_rest_fields [OF h1(3)]
  have l1: "listed (mh_free h1) (ps @ (a, ?b) # ss)" using l f1(1) by simp
  show ?thesis
  proof (cases "p = a")
    case True
    then have "alloc_finish a p h = Some (p, h1)" using h1(1) m by (simp add: alloc_finish_def)
    then show ?thesis
      using h1 l1 f1 True by (intro that [of h1]) (auto simp: alloc_elem_def same_rest_def)
  next
    case False
    have nz: "(ucast (p - a) :: u32) \<noteq> 0"
      using small_pad [OF True] False ptr_diff [OF p(1)] p(1) by (metis unat_0 right_minus_eq unat_eq_0)
    have np: "p \<notin> addrs (ps @ (a, ?b) # ss)"
      using inside_not_addr [OF ok _ p(2) False] by simp
    let ?e = "(case mh_elems h1 p of None \<Rightarrow> zero_elem | Some Z \<Rightarrow> Z)
        \<lparr>me_pad := ucast (p - a), me_state := ELEM_PAD, me_size := me_size c - ucast (ucast (p - a) :: u32)\<rparr>"
    let ?h = "h1\<lparr>mh_elems := (mh_elems h1)(p \<mapsto> ?e)\<rparr>"
    have "alloc_finish a p h = Some (p, ?h)"
      using h1(1) m True nz by (simp add: alloc_finish_def word_gt_0)
    moreover have "heap_links ?h (ps @ (a, ?b) # ss)"
      using h1(2) np by (auto simp: heap_links_def image_Un)
    ultimately show ?thesis
      using h1 l1 f1 True by (intro that [of ?h]) (auto simp: alloc_elem_def same_rest_def)
  qed
qed

lemma alloc_step_split:
  assumes L: "heap_links h (ps @ (a, c) # ss)" and l: "listed (mh_free h) (ps @ ss)" and f: "is_free c"
    and ok: "\<forall>(a, b) \<in> set (ps @ (a, c) # ss). shape_ok a b" "in_order (ps @ (a, c) # ss)"
    and p: "unat a \<le> unat p" "inside p a c"
    and False: "\<not> p - a < 192"
  obtains h' where "alloc_finish a p h = Some (p, h')"
    "heap_links h' (ps @ alloc_elem a c p @ ss)" "listed (mh_free h') (ps @ alloc_elem a c p @ ss)"
    "\<forall>x. x \<notin> addrs (ps @ (a, c) # ss) \<longrightarrow> x \<noteq> p \<longrightarrow> mh_elems h' x = mh_elems h x"
    "mh_alloc_count h' = mh_alloc_count h"
proof -
  have pa: "p \<noteq> a" "p \<noteq> 0" using False ok(1) p(1) by (auto simp: shape_ok_def)
  have np: "p \<notin> addrs (ps @ (a, c) # ss)"
    by (rule inside_not_addr [OF ok _ p(2) pa(1)]) simp
  let ?n = "cut_block c (p - a)"
  obtain h1 where h1: "split_elem a p h = Some h1"
    "heap_links h1 (ps @ (a, c\<lparr>me_size := p - a\<rparr>) # (p, ?n) # ss)"
    "same_rest (insert p (addrs (ps @ (a, c) # ss))) h h1"
    by (rule links_split [OF L np pa(2)])
  have L1: "heap_links h1 ((ps @ [(a, c\<lparr>me_size := p - a\<rparr>)]) @ (p, ?n) # ss)" using h1(2) by simp
  obtain h2 where h2: "upd_elem p (\<lambda>N. N\<lparr>me_state := ELEM_BUSY\<rparr>) h1 = Some h2"
    "heap_links h2 ((ps @ [(a, c\<lparr>me_size := p - a\<rparr>)]) @ (p, ?n\<lparr>me_state := ELEM_BUSY\<rparr>) # ss)" "same_rest {p} h1 h2"
    by (rule links_upd [OF L1, where f = "\<lambda>E. E\<lparr>me_state := ELEM_BUSY\<rparr>" and g = "\<lambda>b. b\<lparr>me_state := ELEM_BUSY\<rparr>"]) simp_all
  have fr: "mh_free h2 = mh_free h" "mh_alloc_count h2 = mh_alloc_count h"
    using same_rest_fields [OF h1(3)] same_rest_fields [OF h2(3)] by simp_all
  have L2: "heap_links h2 (ps @ (a, c\<lparr>me_size := p - a\<rparr>) # (p, ?n\<lparr>me_state := ELEM_BUSY\<rparr>) # ss)" using h2(2) by simp
  have l2: "listed (mh_free h2) (ps @ (p, ?n\<lparr>me_state := ELEM_BUSY\<rparr>) # ss)"
    using l fr(1) by simp
  obtain h3 where h3: "malloc_elem_free_list_insert a h2 = Some h3"
    "heap_links h3 (ps @ (a, c\<lparr>me_size := p - a\<rparr>) # (p, ?n\<lparr>me_state := ELEM_BUSY\<rparr>) # ss)"
    "listed (mh_free h3) (ps @ (a, c\<lparr>me_size := p - a\<rparr>) # (p, ?n\<lparr>me_state := ELEM_BUSY\<rparr>) # ss)"
    "same_rest {a} h2 (h3\<lparr>mh_free := mh_free h2\<rparr>)"
    by (rule free_list_insert_free [OF L2 l2]) (use L2 f in \<open>auto simp: heap_links_def\<close>)
  have "alloc_finish a p h = Some (p, h3)"
    using False h1(1) h2(1) h3(1) by (simp add: alloc_finish_def)
  moreover have "\<forall>x. x \<notin> addrs (ps @ (a, c) # ss) \<longrightarrow> x \<noteq> p \<longrightarrow> mh_elems h3 x = mh_elems h x"
    using h1(3) h2(3) h3(4) by (simp add: same_rest_def)
  moreover have "mh_alloc_count h3 = mh_alloc_count h"
    using h3(4) fr(2) by (simp add: same_rest_def)
  ultimately show ?thesis
    using False h3 by (intro that [of h3]) (simp_all add: alloc_elem_def)
qed

section \<open>Carving up a block\<close>

text \<open>Blocks that fill the place of a free block and come from it.\<close>

definition carves :: "malloc_conf \<Rightarrow> eptr \<Rightarrow> elem_block \<Rightarrow> eblocks \<Rightarrow> bool" where
  "carves cf a b ms \<longleftrightarrow>
     ms \<noteq> [] \<and> blocks_ok cf ms \<and>
     (\<forall>(c, d) \<in> set ms. unat a \<le> unat c \<and> unat c + unat (me_size d) \<le> unat a + unat (me_size b) \<and>
        me_msl d = me_msl b \<and> me_orig_elem d = me_orig_elem b) \<and>
     fst (hd ms) = a \<and> fst (last ms) + me_size (snd (last ms)) = a + me_size b"

lemma joinable_left: "me_msl d = me_msl b \<Longrightarrow> me_orig_elem d = me_orig_elem b \<Longrightarrow> joinable cf x (a, d) = joinable cf x (a, b)"
  by (simp add: joinable_def)

lemma joinable_right:
  "me_msl d = me_msl b \<Longrightarrow> me_orig_elem d = me_orig_elem b \<Longrightarrow> c + me_size d = a + me_size b \<Longrightarrow>
   joinable cf (c, d) y = joinable cf (a, b) y"
  by (simp add: joinable_def)

lemma in_order_replace:
  assumes o: "in_order (ps @ (a, b) # ss)" and ms: "in_order ms"
    and r: "\<forall>(c, d) \<in> set ms. unat a \<le> unat c \<and> unat c + unat (me_size d) \<le> unat a + unat (me_size b)"
  shows "in_order (ps @ ms @ ss)"
proof -
  have O: "in_order ps" "in_order ss" "\<And>x y. (x, y) \<in> set ps \<Longrightarrow> unat x + unat (me_size y) \<le> unat a"
    "\<And>x y. (x, y) \<in> set ss \<Longrightarrow> unat a + unat (me_size b) \<le> unat x"
    "\<And>x y z w. (x, y) \<in> set ps \<Longrightarrow> (z, w) \<in> set ss \<Longrightarrow> unat x + unat (me_size y) \<le> unat z"
    using o by (auto simp: in_order_append in_order_Cons)
  have "unat x + unat (me_size y) \<le> unat c" if "(x, y) \<in> set ps" "(c, d) \<in> set ms" for x y c d
    using O(3) [OF that(1)] bspec [OF r that(2)] by simp
  moreover have "unat c + unat (me_size d) \<le> unat x" if "(x, y) \<in> set ss" "(c, d) \<in> set ms" for x y c d
    using O(4) [OF that(1)] bspec [OF r that(2)] by simp
  ultimately show ?thesis using O(1,2,5) ms unfolding in_order_append by auto
qed

lemma carves_ok:
  assumes ok: "blocks_ok cf (ps @ (a, b) # ss)" and "is_free b" and c: "carves cf a b ms"
  shows "blocks_ok cf (ps @ ms @ ss)"
proof -
  have ms: "ms \<noteq> []" "blocks_ok cf ms" "fst (hd ms) = a" "fst (last ms) + me_size (snd (last ms)) = a + me_size b"
    and r: "\<And>c d. (c, d) \<in> set ms \<Longrightarrow> unat a \<le> unat c \<and> unat c + unat (me_size d) \<le> unat a + unat (me_size b) \<and>
        me_msl d = me_msl b \<and> me_orig_elem d = me_orig_elem b"
    using c by (auto simp: carves_def)
  obtain d where hd: "hd ms = (a, d)" "(a, d) \<in> set ms" using ms(1,3) by (metis fst_conv hd_in_set surj_pair)
  obtain l e where la: "last ms = (l, e)" "(l, e) \<in> set ms" using ms(1) by (metis last_in_set surj_pair)
  have le: "l + me_size e = a + me_size b" using ms(4) la by simp
  have jl: "joinable cf x (hd ms) = joinable cf x (a, b)" for x
    unfolding hd(1) by (rule joinable_left) (use r [OF hd(2)] in auto)
  have jr: "joinable cf (last ms) y = joinable cf (a, b) y" for y
    unfolding la(1) by (rule joinable_right) (use r [OF la(2)] le in auto)
  have o: "in_order (ps @ ms @ ss)"
    by (rule in_order_replace [of ps a b]) (use ok ms(2) r in \<open>auto simp: blocks_ok_def\<close>)
  have n: "no_joinable cf (ps @ ms @ ss)"
    using ok ms(1,2) \<open>is_free b\<close>
    by (auto simp: blocks_ok_def no_joinable_append no_joinable_Cons jl jr)
  show ?thesis using o n ok ms(2) by (auto simp: blocks_ok_def)
qed

lemma shape_okI:
  "shape_ok a b \<Longrightarrow> unat a \<le> unat c \<Longrightarrow> 64 dvd unat c \<Longrightarrow> unat c + unat (me_size d) \<le> unat a + unat (me_size b) \<Longrightarrow>
   128 \<le> unat (me_size d) \<Longrightarrow> 64 dvd unat (me_size d) \<Longrightarrow> shape_ok c d"
  by (auto simp: shape_ok_def)

lemma alloc_room_ok:
  assumes "shape_ok a b" "place_ok a b p sz" "is_free b" "me_pad b = 0"
  defines "c \<equiv> alloc_room a b p sz"
  shows "shape_ok a c" "is_free c" "me_pad c = 0" "me_msl c = me_msl b" "me_orig_elem c = me_orig_elem b"
    "unat p + 128 + unat sz \<le> unat a + unat (me_size c)" "unat (me_size c) \<le> unat (me_size b)"
proof -
  note N = place_numbers [OF assms(1,2)]
  have d: "64 dvd unat p + unat sz + 128 - unat a"
    using assms(1,2) by (intro dvd_diff_nat dvd_add) (auto simp: shape_ok_def place_ok_def)
  show "shape_ok a c" "is_free c" "me_pad c = 0" "me_msl c = me_msl b" "me_orig_elem c = me_orig_elem b"
    "unat p + 128 + unat sz \<le> unat a + unat (me_size c)" "unat (me_size c) \<le> unat (me_size b)"
    using assms N(4) d unfolding c_def alloc_room_def by (auto simp: shape_ok_def place_ok_def)
qed

lemma alloc_elem_carves:
  assumes c: "shape_ok a c" "is_free c" "me_pad c = 0"
    and p: "unat a \<le> unat p" "64 dvd unat p" "unat p + 128 \<le> unat a + unat (me_size c)"
  shows "carves cf a c (alloc_elem a c p)"
proof (cases "p - a < 192")
  case True
  have d: "unat (p - a) = unat p - unat a" using p(1) by (rule ptr_diff)
  have "64 dvd unat p - unat a" using c(1) p by (intro dvd_diff_nat) (auto simp: shape_ok_def)
  then show ?thesis
    using True small_pad [OF True] d c p
    by (auto simp: carves_def blocks_ok_def alloc_elem_def shape_ok_def state_ok_def in_order_Cons no_joinable_Cons)
next
  case False
  have d: "unat (p - a) = unat p - unat a" using p(1) by (rule ptr_diff)
  have e: "unat (me_size c - (p - a)) = unat (me_size c) - (unat p - unat a)"
    using p d unat_sub [of "p - a" "me_size c"] by (simp add: unat_le_iff)
  have v: "64 dvd unat p - unat a" "64 dvd unat (me_size c) - (unat p - unat a)"
    using c(1) p by (auto intro!: dvd_diff_nat simp: shape_ok_def)
  have g: "192 \<le> unat p - unat a" using False d by (simp add: unat_less_iff)
  have s1: "shape_ok a (c\<lparr>me_size := p - a\<rparr>)"
    by (rule shape_okI [OF c(1)]) (use c(1) p g d v in \<open>auto simp: shape_ok_def\<close>)
  have s2: "shape_ok p ((cut_block c (p - a))\<lparr>me_state := ELEM_BUSY\<rparr>)"
    by (rule shape_okI [OF c(1)]) (use p g e v in auto)
  have h: "128 \<le> unat (me_size c) + unat a - unat p" "unat p - unat a \<le> unat (me_size c)" using p by linarith+
  show ?thesis
    using False s1 s2 d e c p g h unfolding carves_def blocks_ok_def alloc_elem_def
    by (simp add: state_ok_def in_order_Cons no_joinable_Cons)
qed

lemma alloc_blocks_carves:
  assumes b: "shape_ok a b" "is_free b" "me_pad b = 0" and pl: "place_ok a b p sz"
  shows "carves cf a b (alloc_blocks a b p sz)"
proof -
  let ?c = "alloc_room a b p sz"
  note R = alloc_room_ok [OF b(1) pl b(2,3)] and N = place_numbers [OF b(1) pl]
  have e: "carves cf a ?c (alloc_elem a ?c p)"
    by (rule alloc_elem_carves) (use R pl in \<open>auto simp: place_ok_def\<close>)
  show ?thesis
  proof (cases "me_size b - (p - a) - sz - 128 > 192")
    case False
    then show ?thesis using e by (simp add: alloc_blocks_def alloc_tail_def alloc_room_def)
  next
    case True
    let ?s = "p + (sz + 128)"
    have t: "alloc_tail a b p sz = [(?s, cut_block b (?s - a))]" "?c = b\<lparr>me_size := ?s - a\<rparr>"
      using True by (simp_all add: alloc_tail_def alloc_room_def)
    have g: "192 < unat (me_size b) - (unat p - unat a) - unat sz - 128" using True N(3) by (simp add: unat_less_iff)
    have "shape_ok ?s (cut_block b (?s - a))"
      by (rule shape_okI [OF b(1)]) (use b(1) pl N g in \<open>auto intro!: dvd_diff_nat simp: shape_ok_def place_ok_def\<close>)
    moreover have bz: "is_busy (snd (last (alloc_elem a ?c p)))" "alloc_elem a ?c p \<noteq> []" by (auto simp: alloc_elem_def)
    moreover have "unat a + unat (me_size ?c) = unat ?s" using t(2) N pl by (auto simp: place_ok_def)
    ultimately show ?thesis
      using e t b(2,3) N g pl unfolding carves_def blocks_ok_def alloc_blocks_def
      by (fastforce simp: in_order_append in_order_Cons no_joinable_append no_joinable_Cons state_ok_def place_ok_def)
  qed
qed

text \<open>The block that is left in front of the split-off tail, and the tail, are in order as well.\<close>

lemma alloc_room_order:
  assumes b: "shape_ok a b" "is_free b" "me_pad b = 0" and pl: "place_ok a b p sz"
    and o: "in_order (ps @ (a, b) # ss)" and sh: "\<forall>(a, b) \<in> set (ps @ (a, b) # ss). shape_ok a b"
  shows "\<forall>(a, b) \<in> set (ps @ (a, alloc_room a b p sz) # alloc_tail a b p sz @ ss). shape_ok a b"
    "in_order (ps @ (a, alloc_room a b p sz) # alloc_tail a b p sz @ ss)"
    "\<forall>x \<in> addrs (alloc_tail a b p sz). inside x a b"
proof -
  let ?c = "alloc_room a b p sz" and ?t = "alloc_tail a b p sz" and ?s = "p + (sz + 128)"
  note R = alloc_room_ok [OF b(1) pl b(2,3)] and N = place_numbers [OF b(1) pl]
  have cv: "carves undefined a b (alloc_blocks a b p sz)" by (rule alloc_blocks_carves [OF b pl])
  then have t: "\<forall>(c, d) \<in> set ?t. unat a \<le> unat c \<and> unat c + unat (me_size d) \<le> unat a + unat (me_size b) \<and> shape_ok c d"
    by (fastforce simp: carves_def blocks_ok_def alloc_blocks_def)
  have "in_order ((a, ?c) # ?t)"
    using N(2,4) pl by (auto simp: in_order_Cons alloc_tail_def alloc_room_def place_ok_def)
  from in_order_replace [OF o this] t R(7)
  show "in_order (ps @ (a, ?c) # ?t @ ss)" by auto
  show "\<forall>(a, b) \<in> set (ps @ (a, ?c) # ?t @ ss). shape_ok a b" using sh t R(1) by auto
  show "\<forall>x \<in> addrs ?t. inside x a b"
    using t by (fastforce simp: inside_def shape_ok_def)
qed

lemma pads_ok_simps [simp]:
  "pads_ok h []" "pads_ok h (xs @ ys) \<longleftrightarrow> pads_ok h xs \<and> pads_ok h ys"
  "pads_ok h ((a, b) # xs) \<longleftrightarrow>
     (is_busy b \<and> me_pad b \<noteq> 0 \<longrightarrow>
       (\<exists>e. mh_elems h (a + ucast (me_pad b)) = Some e \<and> me_state e = ELEM_PAD \<and> me_pad e = me_pad b)) \<and> pads_ok h xs"
  by (auto simp: pads_ok_def)

lemma alloc_finish_ok:
  assumes L: "heap_links h (ps @ (a, c) # ss)" and l: "listed (mh_free h) (ps @ ss)" and f: "is_free c"
    and ok: "\<forall>(a, b) \<in> set (ps @ (a, c) # ss). shape_ok a b" "in_order (ps @ (a, c) # ss)"
    and p: "unat a \<le> unat p" "inside p a c"
  obtains h' where "alloc_finish a p h = Some (p, h')"
    "heap_links h' (ps @ alloc_elem a c p @ ss)" "listed (mh_free h') (ps @ alloc_elem a c p @ ss)"
    "\<forall>x. x \<notin> addrs (ps @ (a, c) # ss) \<longrightarrow> x \<noteq> p \<longrightarrow> mh_elems h' x = mh_elems h x"
    "pads_ok h' (alloc_elem a c p)" "mh_alloc_count h' = mh_alloc_count h"
proof (cases "p - a < 192")
  case True
  have "(ucast (ucast (p - a) :: u32) :: u64) = p - a"
    using small_pad [OF True] by (simp add: word_unat_eq_iff unat_pad)
  then have q: "a + ucast (ucast (p - a) :: u32) = p" by simp
  have z: "(ucast (p - a) :: u32) \<noteq> 0 \<Longrightarrow> p \<noteq> a" by auto
  show ?thesis
    by (rule alloc_step_pad [OF L l f ok p True]) (rule that, assumption+, auto simp: alloc_elem_def q True z)
next
  case False
  show ?thesis
    by (rule alloc_step_split [OF L l f ok p False]) (rule that, assumption+, auto simp: alloc_elem_def False f)
qed

lemma malloc_elem_alloc_ok:
  assumes I: "heap_inv cf h (ps @ (a, b) # ss)" and f: "is_free b" and pl: "place_ok a b p sz"
    and st: "elem_start_pt cf a sz align bound contig h = Some p"
  obtains h' where "malloc_elem_alloc cf a sz align bound contig h = Some (p, h')"
    "heap_inv cf h' (ps @ alloc_blocks a b p sz @ ss)" "mh_alloc_count h' = mh_alloc_count h"
proof -
  let ?xs = "ps @ (a, b) # ss" and ?c = "alloc_room a b p sz" and ?t = "alloc_tail a b p sz"
  have L: "heap_links h ?xs" and ok: "blocks_ok cf ?xs" and pads: "pads_ok h ?xs" and l: "listed (mh_free h) ?xs"
    using I by (auto simp: heap_inv_def)
  have D: "distinct (map fst ?xs)" using L by (simp add: heap_links_def)
  have geo: "\<forall>(a, b) \<in> set ?xs. shape_ok a b \<and> state_ok b" "in_order ?xs" using ok by (auto simp: blocks_ok_def)
  have b: "shape_ok a b" "me_pad b = 0" using geo(1) f by (auto simp: state_ok_def)
  let ?h1 = "h\<lparr>mh_free := map (remove1 a) (mh_free h)\<rparr>"
  note r = free_list_remove_ok [OF l D f]
  have L1: "heap_links ?h1 ?xs" "listed (mh_free ?h1) (ps @ ss)" using L r(2) by simp_all
  obtain h2 where h2: "(if me_size b - (p - a) - sz - 128 > 192 then do {
        h \<leftarrow> split_elem a (p + (sz + 128)) ?h1;
        h \<leftarrow> malloc_elem_free_list_insert (p + (sz + 128)) h;
        Some (if a = mh_last h then h\<lparr>mh_last := p + (sz + 128)\<rparr> else h) }
      else Some ?h1) = Some h2"
    "heap_links h2 (ps @ (a, ?c) # ?t @ ss)" "listed (mh_free h2) (ps @ ?t @ ss)"
    "frame_off ?xs a b ?h1 h2" "mh_alloc_count h2 = mh_alloc_count ?h1"
    by (rule alloc_step_tail [OF L1 geo pl])
  note R = alloc_room_ok [OF b(1) pl f b(2)]
  have cv: "carves cf a b (alloc_blocks a b p sz)" by (rule alloc_blocks_carves [OF b(1) f b(2) pl])
  have ok2: "blocks_ok cf (ps @ alloc_blocks a b p sz @ ss)" by (rule carves_ok [OF ok f cv])
  have geo0: "\<forall>(a, b) \<in> set ?xs. shape_ok a b" using geo(1) by auto
  note RO = alloc_room_order [OF b(1) f b(2) pl geo(2) geo0]
  have inp: "unat a \<le> unat p" "inside p a ?c" "inside p a b"
    using pl R(6,7) by (auto simp: inside_def place_ok_def)
  have l2: "listed (mh_free h2) (ps @ (?t @ ss))" using h2(3) by simp
  obtain h3 where h3: "alloc_finish a p h2 = Some (p, h3)"
    "heap_links h3 (ps @ alloc_elem a ?c p @ ?t @ ss)" "listed (mh_free h3) (ps @ alloc_elem a ?c p @ ?t @ ss)"
    "\<forall>x. x \<notin> addrs (ps @ (a, ?c) # ?t @ ss) \<longrightarrow> x \<noteq> p \<longrightarrow> mh_elems h3 x = mh_elems h2 x"
    "pads_ok h3 (alloc_elem a ?c p)" "mh_alloc_count h3 = mh_alloc_count h2"
    by (rule alloc_finish_ok [OF h2(2) l2 R(2) RO(1,2) inp(1,2)])
  have fr: "frame_off ?xs a b h h3"
    unfolding frame_off_def
  proof (intro allI impI)
    fix x assume x: "x \<notin> addrs ?xs" "\<not> inside x a b"
    then have "x \<notin> addrs (ps @ (a, ?c) # ?t @ ss)" "x \<noteq> p" using RO(3) inp(3) by (auto simp: image_Un)
    then show "mh_elems h3 x = mh_elems h x" using h3(4) h2(4) x by (simp add: frame_off_def)
  qed
  have "a \<notin> addrs (ps @ ss)" using D by auto
  from pads_frame [OF geo pads fr this] have "pads_ok h3 ps" "pads_ok h3 ss" .
  moreover have "pads_ok h3 ?t" by (simp add: alloc_tail_def f)
  ultimately have "heap_inv cf h3 (ps @ alloc_blocks a b p sz @ ss)"
    using h3 ok2 by (simp add: heap_inv_def alloc_blocks_def)
  moreover have "malloc_elem_alloc cf a sz align bound contig h = Some (p, h3)"
    using malloc_elem_alloc_steps [OF st _ r(1), of "mk_elem b (last_of 0 ps) (first_of ss 0)" h2] links_elem [OF L] h2(1) h3(1)
    by simp
  ultimately show ?thesis using h3(6) h2(5) by (intro that [of h3]) simp_all
qed

end
