(* ===== verification/MallocFree.thy ===== *)
theory MallocFree
  imports MallocAlloc
begin

text \<open>
  Freeing: a block is joined with the free blocks around it, goes into the list of its size and its memory is erased. The invariant
  of the heap is kept, and freeing what was just allocated restores the blocks as they were.
\<close>

section \<open>Joining two blocks\<close>

definition shapes :: "eblocks \<Rightarrow> bool" where
  "shapes xs \<longleftrightarrow> (\<forall>(a, b) \<in> set xs. shape_ok a b) \<and> in_order xs"

abbreviation joined :: "elem_block \<Rightarrow> elem_block \<Rightarrow> elem_block" where
  "joined b d \<equiv> b\<lparr>me_size := me_size b + me_size d\<rparr>"

lemma shapes_simps [simp]:
  "shapes []" "shapes ((a, b) # ss) \<longleftrightarrow> shape_ok a b \<and> shapes ss \<and> (\<forall>(c, d) \<in> set ss. unat a + unat (me_size b) \<le> unat c)"
  "shapes (ps @ ss) \<longleftrightarrow> shapes ps \<and> shapes ss \<and> (\<forall>(a, b) \<in> set ps. \<forall>(c, d) \<in> set ss. unat a + unat (me_size b) \<le> unat c)"
  by (auto simp: shapes_def in_order_Cons in_order_append)

lemma joined_numbers:
  assumes "shape_ok a b" "shape_ok c d" "c = a + me_size b"
  shows "unat c = unat a + unat (me_size b)" "unat (me_size b + me_size d) = unat (me_size b) + unat (me_size d)"
    "shape_ok a (joined b d)"
proof -
  show c: "unat c = unat a + unat (me_size b)"
    using assms by (simp add: shape_ok_def unat_add_no_overflow)
  show s: "unat (me_size b + me_size d) = unat (me_size b) + unat (me_size d)"
    using assms c by (intro unat_add_no_overflow) (simp add: shape_ok_def)
  show "shape_ok a (joined b d)" using assms c s by (auto simp: shape_ok_def)
qed

lemma joined_shapes:
  assumes "shapes (ps @ (a, b) # (c, d) # ss)" "c = a + me_size b"
  shows "shapes (ps @ (a, joined b d) # ss)"
  using assms(1) joined_numbers [of a b c d] assms(2) by fastforce

lemma in_range_inside:
  assumes "x - c < len" "unat len \<le> unat (me_size d)" "shape_ok c d"
  shows "inside x c d"
proof -
  have "unat (c + (x - c)) = unat c + unat (x - c)"
    using assms by (intro unat_add_no_overflow) (auto simp: unat_less_iff shape_ok_def)
  then show ?thesis using assms by (simp add: inside_def unat_less_iff)
qed

lemma other_not_inside:
  assumes "shapes (ps @ (c, d) # ss)" "x \<in> addrs (ps @ ss)"
  shows "\<not> inside x c d"
proof
  assume i: "inside x c d"
  from assms(2) obtain e where e: "(x, e) \<in> set (ps @ ss)" by force
  have s: "shape_ok x e" "in_order (ps @ (c, d) # ss)" using assms(1) e by (auto simp: shapes_def)
  have "(c, d) = (x, e)" using inside_once [OF s(2), of c d x e x] i inside_self [OF s(1)] e by auto
  with assms(1) e have "shape_ok c d" "(c, d) \<in> set (ps @ ss)" by auto
  with assms(1) show False by (fastforce simp: shape_ok_def)
qed

lemma join_erase:
  assumes L: "heap_links h (ps @ (a, b) # (c, d) # ss)" and s: "shapes (ps @ (a, b) # (c, d) # ss)"
    and c: "c = a + me_size b" and len: "unat len \<le> unat (me_size d)"
  obtains h' where "join_elem a c h = Some h'" "heap_links (erase_range c len h') (ps @ (a, joined b d) # ss)"
    "\<forall>x. x \<notin> addrs (ps @ (a, b) # ss) \<longrightarrow> \<not> inside x c d \<longrightarrow> mh_elems (erase_range c len h') x = mh_elems h x"
    "mh_free h' = mh_free h" "mh_alloc_count h' = mh_alloc_count h"
proof -
  obtain h1 where h1: "join_elem a c h = Some h1" "heap_links h1 (ps @ (a, joined b d) # ss)"
    "same_rest (addrs (ps @ (a, b) # ss)) h h1"
    by (rule links_join [OF L])
  have sd: "shape_ok c d" using s by auto
  have "\<not> x - c < len" if "x \<in> addrs (ps @ (a, joined b d) # ss)" for x
    using other_not_inside [of "ps @ [(a, b)]" c d ss x] that s in_range_inside [OF _ len sd] by auto
  then have "heap_links (erase_range c len h1) (ps @ (a, joined b d) # ss)"
    by (rule links_erase [OF h1(2)])
  moreover have "mh_elems (erase_range c len h1) x = mh_elems h x" if "x \<notin> addrs (ps @ (a, b) # ss)" "\<not> inside x c d" for x
    using that h1(3) in_range_inside [OF _ len sd, of x] by (auto simp: erase_range_def same_rest_def)
  ultimately show ?thesis using h1(1) same_rest_fields [OF h1(3)] by (intro that [of h1]) simp_all
qed

section \<open>Neighbours\<close>

lemma next_is_free_eq:
  assumes "heap_links h (ps @ (a, b) # ss)"
  shows "next_is_free cf a h = Some (case ss of [] \<Rightarrow> False | (c, d) # _ \<Rightarrow> is_free d \<and> joinable cf (a, b) (c, d))"
  using assms
  by (cases ss) (auto simp: next_is_free_def next_elem_is_adjacent_def heap_links_def joinable_def split: prod.splits)

lemma prev_is_free_eq:
  assumes "heap_links h (ps @ (a, b) # ss)"
  shows "prev_is_free cf a h = Some (ps \<noteq> [] \<and> is_free (snd (last ps)) \<and> joinable cf (last ps) (a, b))"
  using assms
  by (cases ps rule: rev_cases)
     (auto simp: prev_is_free_def prev_elem_is_adjacent_def heap_links_def joinable_def split: prod.splits)

definition merge_next :: "malloc_conf \<Rightarrow> eptr \<Rightarrow> elem_block \<Rightarrow> eblocks \<Rightarrow> elem_block \<times> eblocks" where
  "merge_next cf a b ss =
     (case ss of [] \<Rightarrow> (b, [])
      | (c, d) # ss' \<Rightarrow> if is_free d \<and> joinable cf (a, b) (c, d) then (joined b d, ss') else (b, ss))"

definition merge_prev :: "malloc_conf \<Rightarrow> eblocks \<Rightarrow> eptr \<Rightarrow> elem_block \<Rightarrow> eblocks \<times> eptr \<times> elem_block" where
  "merge_prev cf ps a b =
     (if ps \<noteq> [] \<and> is_free (snd (last ps)) \<and> joinable cf (last ps) (a, b)
      then (butlast ps, fst (last ps), joined (snd (last ps)) b) else (ps, a, b))"

section \<open>Joining with free neighbours\<close>

lemma merge_next_cases:
  obtains "merge_next cf a b ss = (b, ss)"
      "\<not> (case ss of [] \<Rightarrow> False | (c, d) # _ \<Rightarrow> is_free d \<and> joinable cf (a, b) (c, d))"
  | d ss' where "ss = (a + me_size b, d) # ss'" "is_free d" "joinable cf (a, b) (a + me_size b, d)"
      "merge_next cf a b ss = (joined b d, ss')"
proof (cases "case ss of [] \<Rightarrow> False | (c, d) # _ \<Rightarrow> is_free d \<and> joinable cf (a, b) (c, d)")
  case False
  then show ?thesis by (intro that(1)) (auto simp: merge_next_def split: list.splits)
next
  case True
  then obtain d ss' where "ss = (a + me_size b, d) # ss'" "is_free d" "joinable cf (a, b) (a + me_size b, d)"
    by (auto simp: joinable_def split: list.splits)
  then show ?thesis by (intro that(2)) (simp_all add: merge_next_def)
qed

lemma join_next_ok:
  assumes L: "heap_links h (ps @ (a, b) # ss)" and l: "listed (mh_free h) (ps @ ss)"
    and s: "shapes (ps @ (a, b) # ss)" and st: "\<forall>(c, d) \<in> set ss. state_ok d"
    and m: "merge_next cf a b ss = (b', ss')"
  obtains h' where "join_next cf a h = Some h'" "heap_links h' (ps @ (a, b') # ss')" "listed (mh_free h') (ps @ ss')"
    "shapes (ps @ (a, b') # ss')"
    "\<forall>x. x \<notin> addrs (ps @ (a, b) # ss) \<longrightarrow> \<not> inside x a b' \<longrightarrow> mh_elems h' x = mh_elems h x"
    "mh_alloc_count h' = mh_alloc_count h"
proof (cases rule: merge_next_cases [of cf a b ss])
  case 1
  then have "join_next cf a h = Some h"
    by (simp only: join_next_def next_is_free_eq [OF L]) simp
  then show ?thesis using 1 m L l s by (intro that [of h]) simp_all
next
  case (2 d ss'')
  let ?c = "a + me_size b"
  have sh: "shape_ok a b" "shape_ok ?c d" using s 2(1) by auto
  note N = joined_numbers [OF sh refl]
  have pd: "me_pad d = 0" using st 2(1,2) by (auto simp: state_ok_def)
  have bs: "b' = joined b d" "ss' = ss''" using m 2(4) by auto
  have L0: "heap_links h (ps @ (a, b) # (?c, d) # ss'')" and s0: "shapes (ps @ (a, b) # (?c, d) # ss'')"
    and l0: "listed (mh_free h) (ps @ (?c, d) # ss'')"
    using L s l by (simp_all only: 2(1))
  have D: "distinct (map fst (ps @ (?c, d) # ss''))" using L0 by (simp add: heap_links_def)
  let ?h1 = "h\<lparr>mh_free := map (remove1 ?c) (mh_free h)\<rparr>"
  note r = free_list_remove_ok [OF l0 D 2(2)]
  have L1: "heap_links ?h1 (ps @ (a, b) # (?c, d) # ss'')" using L0 by simp
  have len: "unat (128 :: u64) \<le> unat (me_size d)" using sh(2) by (simp add: shape_ok_def)
  obtain h2 where h2: "join_elem a ?c ?h1 = Some h2" "heap_links (erase_range ?c 128 h2) (ps @ (a, joined b d) # ss'')"
    "\<forall>x. x \<notin> addrs (ps @ (a, b) # ss'') \<longrightarrow> \<not> inside x ?c d \<longrightarrow> mh_elems (erase_range ?c 128 h2) x = mh_elems ?h1 x"
    "mh_free h2 = mh_free ?h1" "mh_alloc_count h2 = mh_alloc_count ?h1"
    by (rule join_erase [OF L1 s0 refl len])
  have "mh_elems h a = Some (mk_elem b (last_of 0 ps) ?c)" "mh_elems h ?c = Some (mk_elem d a (first_of ss'' 0))"
    using L0 by (auto simp: heap_links_def)
  then have "join_next cf a h = Some (erase_range ?c 128 h2)"
    using r(1) h2(1) 2(2,3) pd unfolding join_next_def next_is_free_eq [OF L] by (simp add: 2(1))
  moreover have "\<not> inside x ?c d" if "\<not> inside x a (joined b d)" for x
    using that N by (auto simp: inside_def)
  ultimately show ?thesis
    using h2 r(2) joined_shapes [OF s0 refl] bs 2(1)
    by (intro that [of "erase_range ?c 128 h2"]) (simp_all add: erase_range_def)
qed

lemma merge_prev_cases:
  obtains "merge_prev cf ps a b = (ps, a, b)" "\<not> (ps \<noteq> [] \<and> is_free (snd (last ps)) \<and> joinable cf (last ps) (a, b))"
  | qs l e where "ps = qs @ [(l, e)]" "is_free e" "a = l + me_size e" "joinable cf (l, e) (a, b)"
      "merge_prev cf ps a b = (qs, l, joined e b)"
proof (cases "ps \<noteq> [] \<and> is_free (snd (last ps)) \<and> joinable cf (last ps) (a, b)")
  case False
  then show ?thesis by (intro that(1)) (auto simp only: merge_prev_def if_False)
next
  case True
  then obtain qs l e where "ps = qs @ [(l, e)]" by (cases ps rule: rev_cases) auto
  then show ?thesis using True by (intro that(2)) (auto simp: merge_prev_def joinable_def)
qed

lemma join_prev_ok:
  assumes L: "heap_links h (ps @ (a, b) # ss)" and l: "listed (mh_free h) (ps @ ss)"
    and s: "shapes (ps @ (a, b) # ss)" and pad: "unat (me_pad b) + 128 \<le> unat (me_size b)"
    and m: "merge_prev cf ps a b = (ps', a', b')"
  obtains h' where "join_prev cf a h = Some (a', h')" "heap_links h' (ps' @ (a', b') # ss)" "listed (mh_free h') (ps' @ ss)"
    "shapes (ps' @ (a', b') # ss)"
    "\<forall>x. x \<notin> addrs (ps @ (a, b) # ss) \<longrightarrow> \<not> inside x a' b' \<longrightarrow> mh_elems h' x = mh_elems h x"
    "mh_alloc_count h' = mh_alloc_count h"
proof (cases rule: merge_prev_cases [of cf ps a b])
  case 1
  then have "join_prev cf a h = Some (a, h)"
    by (simp only: join_prev_def prev_is_free_eq [OF L]) simp
  then show ?thesis using 1 m L l s by (intro that [of h]) simp_all
next
  case (2 qs p e)
  have bs: "ps' = qs" "a' = p" "b' = joined e b" using m 2(5) by auto
  have L0: "heap_links h (qs @ (p, e) # (a, b) # ss)" and s0: "shapes (qs @ (p, e) # (a, b) # ss)"
    and l0: "listed (mh_free h) (qs @ (p, e) # ss)"
    using L s l by (simp_all add: 2(1))
  have sh: "shape_ok p e" "shape_ok a b" using s0 by auto
  note N = joined_numbers [OF sh 2(3)]
  have D: "distinct (map fst (qs @ (p, e) # ss))" using L0 by (simp add: heap_links_def)
  let ?h1 = "h\<lparr>mh_free := map (remove1 p) (mh_free h)\<rparr>" and ?len = "128 + ucast (me_pad b) :: u64"
  note r = free_list_remove_ok [OF l0 D 2(2)]
  have L1: "heap_links ?h1 (qs @ (p, e) # (a, b) # ss)" using L0 by simp
  have len: "unat ?len \<le> unat (me_size b)"
    using pad unat_lt2p [of "me_size b"] by (subst unat_add_no_overflow) (simp_all add: unat_pad)
  obtain h2 where h2: "join_elem p a ?h1 = Some h2" "heap_links (erase_range a ?len h2) (qs @ (p, joined e b) # ss)"
    "\<forall>x. x \<notin> addrs (qs @ (p, e) # ss) \<longrightarrow> \<not> inside x a b \<longrightarrow> mh_elems (erase_range a ?len h2) x = mh_elems ?h1 x"
    "mh_free h2 = mh_free ?h1" "mh_alloc_count h2 = mh_alloc_count ?h1"
    by (rule join_erase [OF L1 s0 2(3) len])
  have "mh_elems h a = Some (mk_elem b p (first_of ss 0))"
    using L0 by (auto simp: heap_links_def)
  then have "join_prev cf a h = Some (p, erase_range a ?len h2)"
    using r(1) h2(1) 2(2,4) unfolding join_prev_def prev_is_free_eq [OF L] by (simp add: 2(1))
  moreover have "\<not> inside x a b" if "\<not> inside x p (joined e b)" for x
    using that N by (auto simp: inside_def)
  ultimately show ?thesis
    using h2 r(2) joined_shapes [OF s0 2(3)] bs 2(1)
    by (intro that [of "erase_range a ?len h2"]) (simp_all add: erase_range_def)
qed

section \<open>Freeing an element\<close>

definition free_blocks :: "malloc_conf \<Rightarrow> eblocks \<Rightarrow> eptr \<Rightarrow> elem_block \<Rightarrow> eblocks \<Rightarrow> eblocks" where
  "free_blocks cf ps a b ss =
     (let (b1, ss1) = merge_next cf a b ss; (ps2, a2, b2) = merge_prev cf ps a b1
      in ps2 @ (a2, b2\<lparr>me_state := ELEM_FREE, me_pad := 0\<rparr>) # ss1)"

lemma joinable_merged_right: "joinable cf (a, b) (c, d) \<Longrightarrow> joinable cf (a, joined b d) y = joinable cf (c, d) y"
  by (auto simp: joinable_def add.assoc)

lemma merge_next_facts:
  assumes "merge_next cf a b ss = (b1, ss1)" "shapes ((a, b) # ss)" "no_joinable cf ss" "me_state b = t"
  shows "no_joinable cf ss1 \<and> (ss1 = [] \<or> \<not> (is_free (snd (hd ss1)) \<and> joinable cf (a, b1) (hd ss1))) \<and>
    set ss1 \<subseteq> set ss \<and> me_pad b1 = me_pad b \<and> me_state b1 = t \<and> unat (me_size b) \<le> unat (me_size b1) \<and>
    (\<forall>x. joinable cf x (a, b1) = joinable cf x (a, b))"
proof (cases rule: merge_next_cases [of cf a b ss])
  case 1
  then show ?thesis
    using assms by (auto split: list.splits)
next
  case (2 d ss')
  have "shape_ok a b" "shape_ok (a + me_size b) d" using assms(2) 2(1) by auto
  note N = joined_numbers [OF this refl]
  show ?thesis
    using assms 2 N joinable_merged_right [OF 2(3)] by (auto simp: no_joinable_Cons joinable_def)
qed

lemma merge_prev_facts:
  assumes "merge_prev cf ps a b = (ps2, a2, b2)" "shapes (ps @ [(a, b)])" "no_joinable cf ps" "is_free b"
  shows "no_joinable cf ps2 \<and> (ps2 = [] \<or> \<not> (is_free (snd (last ps2)) \<and> joinable cf (last ps2) (a2, b2))) \<and>
    set ps2 \<subseteq> set ps \<and> is_free b2 \<and> unat a2 \<le> unat a \<and> unat a2 + unat (me_size b2) = unat a + unat (me_size b) \<and>
    (\<forall>y. joinable cf (a2, b2) y = joinable cf (a, b) y) \<and> (a2 = a \<or> a2 \<in> addrs ps)"
proof (cases rule: merge_prev_cases [of cf ps a b])
  case 1
  then show ?thesis
    using assms by auto
next
  case (2 qs p e)
  have "shape_ok p e" "shape_ok a b" using assms(2) 2(1) by auto
  note N = joined_numbers [OF this 2(3)]
  have j: "joinable cf x (p, joined e b) = joinable cf x (p, e)" for x by (simp add: joinable_def)
  show ?thesis
    using assms 2 N j joinable_merged_right [OF 2(4)] by (auto simp: no_joinable_append)
qed

lemma pads_keep:
  assumes "shapes xs" "shapes ys" "(c, d) \<in> set xs" "(c, d) \<in> set ys" "state_ok d" "is_busy d" "me_pad d \<noteq> 0"
    and "(a, b) \<in> set ys" "is_free b"
    and f: "\<forall>x. x \<notin> addrs xs \<longrightarrow> \<not> inside x a b \<longrightarrow> mh_elems h' x = mh_elems h x"
  shows "mh_elems h' (c + ucast (me_pad d)) = mh_elems h (c + ucast (me_pad d))"
proof -
  have x: "\<forall>(a, b) \<in> set xs. shape_ok a b" "in_order xs" and y: "\<forall>(a, b) \<in> set ys. shape_ok a b" "in_order ys"
    using assms(1,2) by (auto simp: shapes_def)
  have "\<not> inside (c + ucast (me_pad d)) a b"
    by (rule pad_alone(2) [OF y assms(4-8)]) (use assms(6,9) in auto)
  with f pad_alone(1) [OF x assms(3,5-7)] show ?thesis by blast
qed

lemma pads_keep_all:
  assumes "pads_ok h zs" "set zs \<subseteq> set xs" "set zs \<subseteq> set ys" "shapes xs" "shapes ys" "\<forall>(c, d) \<in> set zs. state_ok d"
    "(a, b) \<in> set ys" "is_free b"
    "\<forall>x. x \<notin> addrs xs \<longrightarrow> \<not> inside x a b \<longrightarrow> mh_elems h' x = mh_elems h x"
  shows "pads_ok h' zs"
  unfolding pads_ok_def
proof (clarify)
  fix c d assume c: "(c, d) \<in> set zs" "is_busy d" "me_pad d \<noteq> 0"
  then have "mh_elems h' (c + ucast (me_pad d)) = mh_elems h (c + ucast (me_pad d))"
    by (intro pads_keep [OF assms(4,5) _ _ _ _ _ assms(7-9)]) (use assms(2,3,6) in auto)
  with assms(1) c show "\<exists>e. mh_elems h' (c + ucast (me_pad d)) = Some e \<and> me_state e = ELEM_PAD \<and> me_pad e = me_pad d"
    by (auto simp: pads_ok_def)
qed

lemma join_adjacent_ok:
  assumes L: "heap_links h (ps @ (a, b) # ss)" and l: "listed (mh_free h) (ps @ ss)"
    and s: "shapes (ps @ (a, b) # ss)" and st: "\<forall>(c, d) \<in> set (ps @ ss). state_ok d"
    and pad: "unat (me_pad b) + 128 \<le> unat (me_size b)" and f: "is_free b" and n: "no_joinable cf ps" "no_joinable cf ss"
    and m: "merge_next cf a b ss = (b1, ss1)" "merge_prev cf ps a b1 = (ps2, a2, b2)"
  obtains h' where "malloc_elem_join_adjacent_free cf a h = Some (a2, h')"
    "heap_links h' (ps2 @ (a2, b2) # ss1)" "listed (mh_free h') (ps2 @ ss1)" "shapes (ps2 @ (a2, b2) # ss1)"
    "\<forall>x. x \<notin> addrs (ps @ (a, b) # ss) \<longrightarrow> \<not> inside x a2 b2 \<longrightarrow> mh_elems h' x = mh_elems h x"
    "mh_alloc_count h' = mh_alloc_count h"
proof -
  have s0: "shapes ((a, b) # ss)" and st0: "\<forall>(c, d) \<in> set ss. state_ok d" using s st by auto
  note F = merge_next_facts [OF m(1) s0 n(2) f]
  obtain h1 where h1: "join_next cf a h = Some h1" "heap_links h1 (ps @ (a, b1) # ss1)" "listed (mh_free h1) (ps @ ss1)"
    "shapes (ps @ (a, b1) # ss1)"
    "\<forall>x. x \<notin> addrs (ps @ (a, b) # ss) \<longrightarrow> \<not> inside x a b1 \<longrightarrow> mh_elems h1 x = mh_elems h x"
    "mh_alloc_count h1 = mh_alloc_count h"
    by (rule join_next_ok [OF L l s st0 m(1)])
  have pad1: "unat (me_pad b1) + 128 \<le> unat (me_size b1)" using F pad by auto
  obtain h2 where h2: "join_prev cf a h1 = Some (a2, h2)" "heap_links h2 (ps2 @ (a2, b2) # ss1)" "listed (mh_free h2) (ps2 @ ss1)"
    "shapes (ps2 @ (a2, b2) # ss1)"
    "\<forall>x. x \<notin> addrs (ps @ (a, b1) # ss1) \<longrightarrow> \<not> inside x a2 b2 \<longrightarrow> mh_elems h2 x = mh_elems h1 x"
    "mh_alloc_count h2 = mh_alloc_count h1"
    by (rule join_prev_ok [OF h1(2-4) pad1 m(2)])
  have s1: "shapes (ps @ [(a, b1)])" using h1(4) by auto
  have f1: "is_free b1" using F by blast
  note G = merge_prev_facts [OF m(2) s1 n(1) f1]
  have "mh_elems h2 x = mh_elems h x" if x: "x \<notin> addrs (ps @ (a, b) # ss)" "\<not> inside x a2 b2" for x
  proof -
    have ss1: "set ss1 \<subseteq> set ss" using F by blast
    have g: "unat a2 \<le> unat a" "unat a2 + unat (me_size b2) = unat a + unat (me_size b1)" using G by blast+
    have "x \<notin> addrs (ps @ (a, b1) # ss1)" using x(1) ss1 by auto
    then have "mh_elems h2 x = mh_elems h1 x" using h2(5) x(2) by simp
    also have "\<not> inside x a b1" using x(2) g by (simp add: inside_def)
    then have "mh_elems h1 x = mh_elems h x" using h1(5) x(1) by simp
    finally show ?thesis .
  qed
  then have fr: "\<forall>x. x \<notin> addrs (ps @ (a, b) # ss) \<longrightarrow> \<not> inside x a2 b2 \<longrightarrow> mh_elems h2 x = mh_elems h x"
    by blast
  have "malloc_elem_join_adjacent_free cf a h = Some (a2, h2)"
    by (simp add: malloc_elem_join_adjacent_free_def h1(1) h2(1))
  moreover have "mh_alloc_count h2 = mh_alloc_count h" using h1(6) h2(6) by simp
  ultimately show ?thesis using that [OF _ h2(2-4) fr] by blast
qed

lemma free_blocks_ok:
  assumes s: "shapes (ps @ (a, b) # ss)" "shapes (ps2 @ (a2, b2) # ss1)" and st: "\<forall>(c, d) \<in> set (ps @ ss). state_ok d"
    and f: "is_free b" and n: "no_joinable cf ps" "no_joinable cf ss"
    and m: "merge_next cf a b ss = (b1, ss1)" "merge_prev cf ps a b1 = (ps2, a2, b2)" and s1: "shapes (ps @ (a, b1) # ss1)"
  shows "blocks_ok cf (ps2 @ (a2, b2\<lparr>me_pad := 0\<rparr>) # ss1)"
proof -
  have s0: "shapes ((a, b) # ss)" "shapes (ps @ [(a, b1)])" using s s1 by auto
  note F = merge_next_facts [OF m(1) s0(1) n(2) f]
  then have "is_free b1" by simp
  note G = merge_prev_facts [OF m(2) s0(2) n(1) this]
  have j: "joinable cf x (a2, b2\<lparr>me_pad := 0\<rparr>) = joinable cf x (a2, b2)" "joinable cf (a2, b2\<lparr>me_pad := 0\<rparr>) y = joinable cf (a2, b2) y" for x y
    by (auto simp: joinable_def)
  have "no_joinable cf (ps2 @ (a2, b2\<lparr>me_pad := 0\<rparr>) # ss1)"
  proof -
    have N: "no_joinable cf ss1" "no_joinable cf ps2" "ps2 = [] \<or> \<not> (is_free (snd (last ps2)) \<and> joinable cf (last ps2) (a2, b2))"
      using F G by blast+
    have "ss1 = [] \<or> \<not> (is_free (snd (hd ss1)) \<and> joinable cf (a2, b2) (hd ss1))" using F G by metis
    then show ?thesis using N by (auto simp: no_joinable_append no_joinable_Cons j)
  qed
  moreover have "shape_ok a2 (b2\<lparr>me_pad := 0\<rparr>)" using s(2) by (auto simp: shape_ok_def)
  moreover have "state_ok (b2\<lparr>me_pad := 0\<rparr>)" using G by (simp add: state_ok_def)
  moreover have "in_order (ps2 @ (a2, b2\<lparr>me_pad := 0\<rparr>) # ss1)"
    using s(2) by (auto simp: shapes_def in_order_append in_order_Cons)
  ultimately show ?thesis
    using s(2) st F G by (fastforce simp: blocks_ok_def shapes_def)
qed

lemma in_data_inside:
  assumes "x - (a + 128) < me_size b - 128" "shape_ok a b"
  shows "inside x a b" "x \<noteq> a"
proof -
  have "unat (a + 128) = unat a + 128" "unat (me_size b - 128) = unat (me_size b) - 128"
    using assms(2) unat_sub [of 128 "me_size b"] by (auto simp: shape_ok_def unat_add_no_overflow unat_le_iff)
  moreover have "unat ((a + 128) + (x - (a + 128))) = unat (a + 128) + unat (x - (a + 128))"
    using assms calculation by (intro unat_add_no_overflow) (auto simp: unat_less_iff shape_ok_def)
  ultimately have "unat a + 128 \<le> unat x" "unat x < unat a + unat (me_size b)"
    using assms by (auto simp: unat_less_iff)
  then show "inside x a b" "x \<noteq> a" by (auto simp: inside_def)
qed

lemma merge_msl:
  assumes "merge_next cf a b ss = (b1, ss1)" "merge_prev cf ps a b1 = (ps2, a2, b2)"
  shows "me_msl b2 = me_msl b"
proof -
  have "me_msl b1 = me_msl b" using assms(1) by (cases rule: merge_next_cases [of cf a b ss]) auto
  moreover have "me_msl b2 = me_msl b1"
    using assms(2) by (cases rule: merge_prev_cases [of cf ps a b1]) (auto simp: joinable_def)
  ultimately show ?thesis by simp
qed

text \<open>Joining a block with its neighbours and listing the result, which is what freeing a block and adding memory share.\<close>

lemma join_and_list:
  assumes L: "heap_links h (ps @ (a, b) # ss)" and l: "listed (mh_free h) (ps @ ss)"
    and s: "shapes (ps @ (a, b) # ss)" and st: "\<forall>(c, d) \<in> set (ps @ ss). state_ok d"
    and pad: "unat (me_pad b) + 128 \<le> unat (me_size b)" and f: "is_free b" and n: "no_joinable cf ps" "no_joinable cf ss"
  obtains ps2 a2 b2 ss2 h1 h2 where "malloc_elem_join_adjacent_free cf a h = Some (a2, h1)"
    "malloc_elem_free_list_insert a2 h1 = Some h2"
    "heap_links h2 (ps2 @ (a2, b2) # ss2)" "listed (mh_free h2) (ps2 @ (a2, b2) # ss2)" "shapes (ps2 @ (a2, b2) # ss2)"
    "blocks_ok cf (ps2 @ (a2, b2\<lparr>me_pad := 0\<rparr>) # ss2)" "is_free b2" "me_pad b = 0 \<longrightarrow> me_pad b2 = 0" "me_msl b2 = me_msl b"
    "free_blocks cf ps a b ss = ps2 @ (a2, b2\<lparr>me_pad := 0\<rparr>) # ss2"
    "set ps2 \<subseteq> set ps" "set ss2 \<subseteq> set ss" "unat a2 \<le> unat a" "unat a + unat (me_size b) \<le> unat a2 + unat (me_size b2)"
    "\<forall>x. x \<notin> addrs (ps @ (a, b) # ss) \<longrightarrow> \<not> inside x a2 b2 \<longrightarrow> mh_elems h2 x = mh_elems h x"
    "mh_alloc_count h2 = mh_alloc_count h"
proof -
  obtain b1 ss1 where m1: "merge_next cf a b ss = (b1, ss1)" by force
  obtain ps2 a2 b2 where m2: "merge_prev cf ps a b1 = (ps2, a2, b2)" by (metis prod_cases3)
  obtain h1 where h1: "malloc_elem_join_adjacent_free cf a h = Some (a2, h1)"
    "heap_links h1 (ps2 @ (a2, b2) # ss1)" "listed (mh_free h1) (ps2 @ ss1)" "shapes (ps2 @ (a2, b2) # ss1)"
    "\<forall>x. x \<notin> addrs (ps @ (a, b) # ss) \<longrightarrow> \<not> inside x a2 b2 \<longrightarrow> mh_elems h1 x = mh_elems h x"
    "mh_alloc_count h1 = mh_alloc_count h"
    by (rule join_adjacent_ok [OF L l s st pad f n m1 m2])
  have s1: "shapes (ps @ (a, b1) # ss1)"
    by (rule join_next_ok [OF L l s _ m1]) (use st in auto)
  have s0: "shapes ((a, b) # ss)" "shapes (ps @ [(a, b1)])" using s s1 by auto
  note F = merge_next_facts [OF m1 s0(1) n(2) f]
  then have f1: "is_free b1" by simp
  note G = merge_prev_facts [OF m2 s0(2) n(1) f1]
  have ok: "blocks_ok cf (ps2 @ (a2, b2\<lparr>me_pad := 0\<rparr>) # ss1)" by (rule free_blocks_ok [OF s h1(4) st f n m1 m2 s1])
  have D1: "a2 \<notin> addrs (ps2 @ ss1)" using h1(2) by (auto simp: heap_links_def)
  have f2: "is_free b2" using G by blast
  obtain h2 where h2: "malloc_elem_free_list_insert a2 h1 = Some h2" "heap_links h2 (ps2 @ (a2, b2) # ss1)"
    "listed (mh_free h2) (ps2 @ (a2, b2) # ss1)" "same_rest {a2} h1 (h2\<lparr>mh_free := mh_free h1\<rparr>)"
    by (rule free_list_insert_free [OF h1(2,3) D1 f2])
  have sh: "shape_ok a2 b2" using h1(4) by auto
  have g: "unat a2 \<le> unat a" "unat a + unat (me_size b) \<le> unat a2 + unat (me_size b2)"
    using F G by (auto simp: conj_commute)
  have sub: "set ps2 \<subseteq> set ps" "set ss1 \<subseteq> set ss" using F G by blast+
  have fr: "\<forall>x. x \<notin> addrs (ps @ (a, b) # ss) \<longrightarrow> \<not> inside x a2 b2 \<longrightarrow> mh_elems h2 x = mh_elems h x"
  proof (intro allI impI)
    fix x assume x: "x \<notin> addrs (ps @ (a, b) # ss)" "\<not> inside x a2 b2"
    then have "x \<noteq> a2" using inside_self [OF sh] by blast
    then have "mh_elems h2 x = mh_elems h1 x" using h2(4) by (simp add: same_rest_def)
    then show "mh_elems h2 x = mh_elems h x" using h1(5) x by simp
  qed
  have pb: "me_pad b = 0 \<longrightarrow> me_pad b2 = 0"
  proof
    assume "me_pad b = 0"
    then have p1: "me_pad b1 = 0" using F by simp
    show "me_pad b2 = 0"
    proof (cases rule: merge_prev_cases [of cf ps a b1])
      case 1
      then show ?thesis using m2 p1 by simp
    next
      case (2 qs l e)
      then have "state_ok e" using st by auto
      then show ?thesis using 2 m2 by (auto simp: state_ok_def)
    qed
  qed
  show ?thesis
    by (rule that [OF h1(1) h2(1-3) h1(4) ok f2 pb _ _ sub g fr])
       (use merge_msl [OF m1 m2] f2 same_rest_fields [OF h2(4)] h1(6) in \<open>simp_all add: free_blocks_def m1 m2\<close>)
qed

lemma malloc_elem_free_ok:
  assumes L: "heap_links h (ps @ (a, b) # ss)" and l: "listed (mh_free h) (ps @ ss)"
    and s: "shapes (ps @ (a, b) # ss)" and st: "\<forall>(c, d) \<in> set (ps @ ss). state_ok d"
    and pad: "unat (me_pad b) + 128 \<le> unat (me_size b)" and f: "is_free b" and n: "no_joinable cf ps" "no_joinable cf ss"
    and pads: "pads_ok h (ps @ ss)"
  obtains ps2 a2 b2 ss2 h' where "malloc_elem_free cf a h = Some (a2, h')" "heap_inv cf h' (ps2 @ (a2, b2) # ss2)"
    "is_free b2" "free_blocks cf ps a b ss = ps2 @ (a2, b2) # ss2" "mh_alloc_count h' = mh_alloc_count h - 1"
    "me_msl b2 = me_msl b"
proof -
  obtain ps2 a2 b2 ss1 h1 h2 where h2: "malloc_elem_join_adjacent_free cf a h = Some (a2, h1)"
    "malloc_elem_free_list_insert a2 h1 = Some h2"
    "heap_links h2 (ps2 @ (a2, b2) # ss1)" "listed (mh_free h2) (ps2 @ (a2, b2) # ss1)" "shapes (ps2 @ (a2, b2) # ss1)"
    "blocks_ok cf (ps2 @ (a2, b2\<lparr>me_pad := 0\<rparr>) # ss1)" "is_free b2" "me_pad b = 0 \<longrightarrow> me_pad b2 = 0" "me_msl b2 = me_msl b"
    "free_blocks cf ps a b ss = ps2 @ (a2, b2\<lparr>me_pad := 0\<rparr>) # ss1"
    "set ps2 \<subseteq> set ps" "set ss1 \<subseteq> set ss" "unat a2 \<le> unat a" "unat a + unat (me_size b) \<le> unat a2 + unat (me_size b2)"
    "\<forall>x. x \<notin> addrs (ps @ (a, b) # ss) \<longrightarrow> \<not> inside x a2 b2 \<longrightarrow> mh_elems h2 x = mh_elems h x"
    "mh_alloc_count h2 = mh_alloc_count h"
    by (rule join_and_list [OF L l s st pad f n])
  let ?ys = "ps2 @ (a2, b2\<lparr>me_pad := 0\<rparr>) # ss1"
  obtain h3 where h3: "upd_elem a2 (\<lambda>E. E\<lparr>me_pad := 0\<rparr>) h2 = Some h3" "heap_links h3 ?ys" "same_rest {a2} h2 h3"
    by (rule links_upd [OF h2(3), where f = "\<lambda>E. E\<lparr>me_pad := 0\<rparr>" and g = "\<lambda>b. b\<lparr>me_pad := 0\<rparr>"]) simp_all
  let ?h5 = "erase_range (a + 128) (me_size b - 128) (h3\<lparr>mh_alloc_count := mh_alloc_count h3 - 1\<rparr>)"
  have sab: "shape_ok a b" and s2: "shape_ok a2 b2" using s h2(5) by auto
  have sy: "shapes ?ys" using h2(6) by (auto simp: blocks_ok_def shapes_def)
  have erased: "inside x a2 b2" "x \<noteq> a2" if "x - (a + 128) < me_size b - 128" for x
    using in_data_inside [OF that sab] h2(13,14) by (auto simp: inside_def word_unat_eq_iff)
  have "\<not> x - (a + 128) < me_size b - 128" if x: "x \<in> addrs ?ys" for x
    using x erased [of x] other_not_inside [OF h2(5), of x] by auto
  then have L5: "heap_links ?h5 ?ys"
    by (intro links_erase) (use h3(2) in \<open>auto simp: heap_links_def\<close>)
  have fr: "\<forall>x. x \<notin> addrs (ps @ (a, b) # ss) \<longrightarrow> \<not> inside x a2 (b2\<lparr>me_pad := 0\<rparr>) \<longrightarrow> mh_elems ?h5 x = mh_elems h x"
  proof (intro allI impI)
    fix x assume x: "x \<notin> addrs (ps @ (a, b) # ss)" "\<not> inside x a2 (b2\<lparr>me_pad := 0\<rparr>)"
    then have i: "\<not> inside x a2 b2" by (simp add: inside_def)
    then have "x \<noteq> a2" using inside_self [OF s2] by blast
    then have "mh_elems h3 x = mh_elems h x" using h3(3) h2(15) x(1) i by (simp add: same_rest_def)
    then show "mh_elems ?h5 x = mh_elems h x" using erased(1) [of x] i by (auto simp: erase_range_def)
  qed
  have "pads_ok ?h5 (ps2 @ ss1)"
    by (rule pads_keep_all [OF _ _ _ s sy _ _ _ fr])
       (use pads h2(11,12) st h2(7) in \<open>auto simp: pads_ok_def\<close>)
  moreover have "listed (mh_free ?h5) ?ys"
    using h2(4) listed_size [of b2 "b2\<lparr>me_pad := 0\<rparr>"] same_rest_fields [OF h3(3)] by (simp add: erase_range_def)
  ultimately have I: "heap_inv cf ?h5 ?ys" using L5 h2(6,7) by (simp add: heap_inv_def)
  have "malloc_elem_free cf a h = Some (a2, ?h5)"
    by (simp add: malloc_elem_free_def links_elem [OF L] h2(1,2) h3(1))
  then show ?thesis
    by (rule that [OF _ I _ h2(10)])
       (use h2(7,9,16) same_rest_fields [OF h3(3)] in \<open>simp_all add: erase_range_def\<close>)
qed

end
