(* ===== verification/MallocSpec.thy ===== *)
theory MallocSpec
  imports MallocFree
begin

text \<open>
  What users of a heap see: the areas handed out. \<open>heap_alloc\<close> adds one, \<open>malloc_heap_free\<close> takes it away, all areas are apart
  from each other, and an allocation fails only when no free block has room.
\<close>

section \<open>Areas\<close>

definition area :: "eptr \<Rightarrow> elem_block \<Rightarrow> nat \<times> nat" where
  "area a b = (unat a + unat (me_pad b) + 128, unat (me_size b) - unat (me_pad b) - 128)"

definition areas :: "eblocks \<Rightarrow> (nat \<times> nat) set" where
  "areas xs = {area a b | a b. (a, b) \<in> set xs \<and> is_busy b}"

definition heap_ok :: "malloc_conf \<Rightarrow> malloc_heap \<Rightarrow> eblocks \<Rightarrow> bool" where
  "heap_ok cf h xs \<longleftrightarrow> heap_inv cf h xs \<and> mh_alloc_count h = of_nat (length (filter (\<lambda>x. is_busy (snd x)) xs))"

lemma areas_simps [simp]:
  "areas [] = {}" "areas (xs @ ys) = areas xs \<union> areas ys"
  "areas ((a, b) # xs) = (if is_busy b then insert (area a b) (areas xs) else areas xs)"
  by (auto simp: areas_def)

lemma heap_inv_shapes: "heap_inv cf h xs \<Longrightarrow> shapes xs \<and> (\<forall>(a, b) \<in> set xs. state_ok b)"
  by (auto simp: heap_inv_def blocks_ok_def shapes_def)

lemma areas_in_blocks:
  assumes "shapes xs" "\<forall>(a, b) \<in> set xs. state_ok b" "(s, n) \<in> areas xs"
  shows "\<exists>a b. (a, b) \<in> set xs \<and> is_busy b \<and> (s, n) = area a b \<and> unat a + 128 \<le> s \<and> s + n = unat a + unat (me_size b)"
proof -
  obtain a b where ab: "(a, b) \<in> set xs" "is_busy b" "(s, n) = area a b" using assms(3) by (auto simp: areas_def)
  then have "state_ok b" "shape_ok a b" using assms(1,2) by (auto simp: shapes_def)
  then have "unat (me_pad b) + 128 \<le> unat (me_size b)" using ab(2) by (auto simp: state_ok_def)
  with ab show ?thesis by (intro exI [of _ a] exI [of _ b]) (auto simp: area_def)
qed

lemma blocks_apart:
  assumes "in_order xs" "(a, b) \<in> set xs" "(c, d) \<in> set xs" "(a, b) \<noteq> (c, d)"
  shows "unat a + unat (me_size b) \<le> unat c \<or> unat c + unat (me_size d) \<le> unat a"
  using assms
proof (induction xs)
  case (Cons x xs)
  then show ?case by (cases x) (auto simp: in_order_Cons)
qed simp

lemma areas_apart:
  assumes "shapes xs" "\<forall>(a, b) \<in> set xs. state_ok b" "(s, n) \<in> areas xs" "(s', n') \<in> areas xs" "(s, n) \<noteq> (s', n')"
  shows "s + n \<le> s' \<or> s' + n' \<le> s"
proof -
  obtain a b where a: "(a, b) \<in> set xs" "(s, n) = area a b" "unat a + 128 \<le> s" "s + n = unat a + unat (me_size b)"
    using areas_in_blocks [OF assms(1-3)] by blast
  obtain c d where c: "(c, d) \<in> set xs" "(s', n') = area c d" "unat c + 128 \<le> s'" "s' + n' = unat c + unat (me_size d)"
    using areas_in_blocks [OF assms(1,2,4)] by blast
  have "(a, b) \<noteq> (c, d)" using a(2) c(2) assms(5) by auto
  moreover have "in_order xs" using assms(1) by (simp add: shapes_def)
  ultimately have "unat a + unat (me_size b) \<le> unat c \<or> unat c + unat (me_size d) \<le> unat a"
    using a(1) c(1) by (intro blocks_apart)
  with a c show ?thesis by linarith
qed

text \<open>An area belongs to one block only.\<close>

lemma area_once:
  assumes "shapes xs" "\<forall>(a, b) \<in> set xs. state_ok b" "(a, b) \<in> set xs" "(c, d) \<in> set xs" "is_busy b" "is_busy d"
    and e: "area a b = area c d"
  shows "(a, b) = (c, d)"
proof (rule ccontr)
  assume "(a, b) \<noteq> (c, d)"
  moreover have "in_order xs" using assms(1) by (simp add: shapes_def)
  ultimately have "unat a + unat (me_size b) \<le> unat c \<or> unat c + unat (me_size d) \<le> unat a"
    using assms(3,4) by (intro blocks_apart)
  moreover have s: "shape_ok a b" "shape_ok c d" "state_ok b" "state_ok d" using assms(1-4) by (auto simp: shapes_def)
  then have "unat (me_pad b) + 128 \<le> unat (me_size b)" "unat (me_pad d) + 128 \<le> unat (me_size d)"
    using assms(5,6) by (auto simp: state_ok_def)
  then have "unat a + unat (me_size b) = unat c + unat (me_size d)"
    using e by (auto simp: area_def)
  ultimately show False using s by (auto simp: shape_ok_def)
qed

section \<open>Finding an element\<close>

definition holds :: "malloc_conf \<Rightarrow> malloc_heap \<Rightarrow> u64 \<Rightarrow> u32 \<Rightarrow> u64 \<Rightarrow> bool \<Rightarrow> eptr \<Rightarrow> bool" where
  "holds cf h sz align bound contig e \<longleftrightarrow> (\<exists>p. elem_start_pt cf e sz align bound contig h = Some p \<and> p \<noteq> 0)"

definition right_pages :: "malloc_conf \<Rightarrow> malloc_heap \<Rightarrow> u32 \<Rightarrow> eptr \<Rightarrow> bool" where
  "right_pages cf h flags e \<longleftrightarrow>
     (\<exists>E. mh_elems h e = Some E \<and> check_hugepage_sz flags (ml_page_sz (mc_msl cf (me_msl E))))"

lemma suitable_in_ok:
  assumes "\<forall>e \<in> set es. e \<noteq> 0 \<and> mh_elems h e \<noteq> None \<and> elem_start_pt cf e sz align bound contig h \<noteq> None"
  shows "\<exists>r. suitable_in cf sz flags align bound contig h alt es = Some r \<and>
    (case r of
       Inr e \<Rightarrow> e \<in> set es \<and> holds cf h sz align bound contig e
     | Inl alt' \<Rightarrow> (alt' = alt \<or> alt' \<in> set es \<and> holds cf h sz align bound contig alt') \<and>
         (\<forall>e \<in> set es. holds cf h sz align bound contig e \<longrightarrow> \<not> right_pages cf h flags e \<and> alt' \<noteq> 0))"
  using assms
proof (induction es arbitrary: alt)
  case (Cons e es)
  obtain p E where e: "elem_start_pt cf e sz align bound contig h = Some p" "mh_elems h e = Some E" "e \<noteq> 0"
    using Cons.prems by auto
  show ?case
  proof (cases "p \<noteq> 0 \<and> check_hugepage_sz flags (ml_page_sz (mc_msl cf (me_msl E)))")
    case True
    then show ?thesis using e by (auto simp: malloc_elem_can_hold_def holds_def)
  next
    case False
    let ?alt = "if p \<noteq> 0 then if alt = 0 then e else alt else alt"
    have step: "suitable_in cf sz flags align bound contig h alt (e # es) = suitable_in cf sz flags align bound contig h ?alt es"
      using False e by (auto simp: malloc_elem_can_hold_def)
    obtain r where r: "suitable_in cf sz flags align bound contig h ?alt es = Some r"
      "case r of Inr e \<Rightarrow> e \<in> set es \<and> holds cf h sz align bound contig e
       | Inl alt' \<Rightarrow> (alt' = ?alt \<or> alt' \<in> set es \<and> holds cf h sz align bound contig alt') \<and>
         (\<forall>e \<in> set es. holds cf h sz align bound contig e \<longrightarrow> \<not> right_pages cf h flags e \<and> alt' \<noteq> 0)"
      using Cons.IH [of ?alt] Cons.prems by auto
    have h: "holds cf h sz align bound contig e \<longleftrightarrow> p \<noteq> 0" using e by (simp add: holds_def)
    have g: "right_pages cf h flags e \<longleftrightarrow> check_hugepage_sz flags (ml_page_sz (mc_msl cf (me_msl E)))"
      using e by (simp add: right_pages_def)
    have "\<forall>x \<in> set es. x \<noteq> 0" using Cons.prems by auto
    with r(2) h g e(3) False show ?thesis unfolding step r(1) by (cases r) (auto split: if_splits)
  qed
qed simp

lemma suitable_lists_ok:
  assumes "\<forall>e \<in> set (concat ls). e \<noteq> 0 \<and> mh_elems h e \<noteq> None \<and> elem_start_pt cf e sz align bound contig h \<noteq> None"
  shows "\<exists>r. suitable_lists cf sz flags align bound contig h alt ls = Some r \<and>
    (case r of
       Inr e \<Rightarrow> e \<in> set (concat ls) \<and> holds cf h sz align bound contig e
     | Inl alt' \<Rightarrow> (alt' = alt \<or> alt' \<in> set (concat ls) \<and> holds cf h sz align bound contig alt') \<and>
         (\<forall>e \<in> set (concat ls). holds cf h sz align bound contig e \<longrightarrow> \<not> right_pages cf h flags e \<and> alt' \<noteq> 0))"
  using assms
proof (induction ls arbitrary: alt)
  case (Cons es ls)
  obtain r where r: "suitable_in cf sz flags align bound contig h alt es = Some r"
    "case r of Inr e \<Rightarrow> e \<in> set es \<and> holds cf h sz align bound contig e
     | Inl alt' \<Rightarrow> (alt' = alt \<or> alt' \<in> set es \<and> holds cf h sz align bound contig alt') \<and>
         (\<forall>e \<in> set es. holds cf h sz align bound contig e \<longrightarrow> \<not> right_pages cf h flags e \<and> alt' \<noteq> 0)"
    using suitable_in_ok [of es h cf sz align bound contig flags alt] Cons.prems by auto
  show ?case
  proof (cases r)
    case (Inr e)
    then show ?thesis using r by auto
  next
    case (Inl alt')
    obtain r' where r': "suitable_lists cf sz flags align bound contig h alt' ls = Some r'"
      "case r' of Inr e \<Rightarrow> e \<in> set (concat ls) \<and> holds cf h sz align bound contig e
       | Inl alt'' \<Rightarrow> (alt'' = alt' \<or> alt'' \<in> set (concat ls) \<and> holds cf h sz align bound contig alt'') \<and>
         (\<forall>e \<in> set (concat ls). holds cf h sz align bound contig e \<longrightarrow> \<not> right_pages cf h flags e \<and> alt'' \<noteq> 0)"
      using Cons.IH [of alt'] Cons.prems by auto
    have Z: "\<forall>x \<in> set (concat ls). x \<noteq> 0" using Cons.prems by auto
    show ?thesis
    proof (cases r')
      case (Inr e)
      with r r' Inl show ?thesis by simp
    next
      case (Inl alt'')
      have r0: "alt' = alt \<or> alt' \<in> set es \<and> holds cf h sz align bound contig alt'"
        "\<forall>e \<in> set es. holds cf h sz align bound contig e \<longrightarrow> \<not> right_pages cf h flags e \<and> alt' \<noteq> 0"
        using r(2) \<open>r = Inl alt'\<close> by simp_all
      have r1: "alt'' = alt' \<or> alt'' \<in> set (concat ls) \<and> holds cf h sz align bound contig alt''"
        "\<forall>e \<in> set (concat ls). holds cf h sz align bound contig e \<longrightarrow> \<not> right_pages cf h flags e \<and> alt'' \<noteq> 0"
        using r'(2) Inl by simp_all
      have "alt' \<noteq> 0 \<Longrightarrow> alt'' \<noteq> 0" using r1(1) Z by blast
      then have "\<forall>e \<in> set (concat (es # ls)). holds cf h sz align bound contig e \<longrightarrow> \<not> right_pages cf h flags e \<and> alt'' \<noteq> 0"
        using r0(2) r1(2) by auto
      moreover have "alt'' = alt \<or> alt'' \<in> set (concat (es # ls)) \<and> holds cf h sz align bound contig alt''"
        using r0(1) r1(1) by auto
      ultimately show ?thesis using r(1) r'(1) \<open>r = Inl alt'\<close> Inl by simp
    qed
  qed
qed simp

text \<open>In a heap that keeps the invariant every search ends, and only free blocks are found.\<close>

lemma start_pt_ends:
  assumes I: "heap_inv cf h xs" and a: "(a, b) \<in> set xs" and al: "al_ok align" and bd: "bound_ok bound sz"
  shows "\<exists>p. elem_start_pt cf a sz align bound contig h = Some p \<and>
     (p = 0 \<or> (\<exists>d. p = d - 128 \<and> start_ok cf a (me_msl b) (unat (me_size b)) sz align bound contig d))"
proof -
  obtain ps ss where xs: "xs = ps @ (a, b) # ss" using a by (meson split_list)
  have "heap_links h (ps @ (a, b) # ss)" using I xs by (simp add: heap_inv_def)
  note m = links_elem [OF this]
  have "shape_ok a b" using heap_inv_shapes [OF I] a by (auto simp: shapes_def)
  then show ?thesis
    using start_pt_loop_ok [OF al bd, of a "unat (me_size b)" "me_size b" cf "me_msl b" contig]
    by (simp add: elem_start_pt_def m shape_ok_def)
qed

lemma listed_free:
  assumes I: "heap_inv cf h xs"
  shows "set (concat (mh_free h)) = {a. \<exists>b. (a, b) \<in> set xs \<and> is_free b}"
  using I listed_concat by (auto simp: heap_inv_def)

lemma find_suitable_ok:
  assumes I: "heap_inv cf h xs" and al: "al_ok (ucast align)" and bd: "bound_ok bound sz"
  shows "\<exists>e. find_suitable_element cf sz flags align bound contig h = Some e \<and>
     (e \<noteq> 0 \<longrightarrow> (\<exists>b. (e, b) \<in> set xs \<and> is_free b \<and> holds cf h sz (ucast align) bound contig e)) \<and>
     (e = 0 \<longrightarrow> (\<forall>(a, b) \<in> set xs. is_free b \<and> list_index sz \<le> list_index (me_size b - 128) \<and>
        holds cf h sz (ucast align) bound contig a \<longrightarrow> \<not> right_pages cf h flags a))"
proof -
  let ?ls = "drop (list_index sz) (mh_free h)"
  have sub: "set (concat ?ls) \<subseteq> {a. \<exists>b. (a, b) \<in> set xs \<and> is_free b}"
    unfolding listed_free [OF I, symmetric] by (auto dest: in_set_dropD)
  have S: "e \<noteq> 0 \<and> mh_elems h e \<noteq> None \<and> elem_start_pt cf e sz (ucast align) bound contig h \<noteq> None"
    if eb: "(e, b) \<in> set xs" for e b
  proof -
    obtain ps ss where xs: "xs = ps @ (e, b) # ss" using eb by (meson split_list)
    then have L: "heap_links h (ps @ (e, b) # ss)" using I by (simp add: heap_inv_def)
    then have "e \<noteq> 0" by (simp add: heap_links_def)
    with links_elem [OF L] start_pt_ends [OF I eb al bd, of contig] show ?thesis by auto
  qed
  have "\<forall>e \<in> set (concat ?ls). e \<noteq> 0 \<and> mh_elems h e \<noteq> None \<and> elem_start_pt cf e sz (ucast align) bound contig h \<noteq> None"
    using sub S by blast
  from suitable_lists_ok [OF this, of flags 0] obtain r where
    r: "suitable_lists cf sz flags (ucast align) bound contig h 0 ?ls = Some r"
    "case r of Inr e \<Rightarrow> e \<in> set (concat ?ls) \<and> holds cf h sz (ucast align) bound contig e
     | Inl alt' \<Rightarrow> (alt' = 0 \<or> alt' \<in> set (concat ?ls) \<and> holds cf h sz (ucast align) bound contig alt') \<and>
         (\<forall>e \<in> set (concat ?ls). holds cf h sz (ucast align) bound contig e \<longrightarrow> \<not> right_pages cf h flags e \<and> alt' \<noteq> 0)"
    by blast
  have inl: "a \<in> set (concat ?ls)" if "(a, b) \<in> set xs" "is_free b" "list_index sz \<le> list_index (me_size b - 128)" for a b
  proof -
    let ?i = "list_index (me_size b - 128)"
    have l: "listed (mh_free h) xs" using I by (simp add: heap_inv_def)
    then have "a \<in> set (mh_free h ! ?i)" using that list_index_bound by (auto simp: listed_def)
    moreover have "mh_free h ! ?i \<in> set ?ls"
      using l that(3) list_index_bound [of "me_size b - 128"]
      by (auto simp: listed_def in_set_conv_nth intro!: exI [of _ "?i - list_index sz"])
    ultimately show ?thesis by auto
  qed
  let ?e = "case r of Inr e \<Rightarrow> e | Inl alt \<Rightarrow> if alt \<noteq> 0 \<and> flags AND 4 \<noteq> 0 then alt else 0"
  have "find_suitable_element cf sz flags align bound contig h = Some ?e"
    by (simp add: find_suitable_element_def free_list_index r(1) split: sum.splits)
  moreover have "?e \<noteq> 0 \<longrightarrow> (\<exists>b. (?e, b) \<in> set xs \<and> is_free b \<and> holds cf h sz (ucast align) bound contig ?e)"
    using r(2) sub by (auto split: sum.splits)
  moreover have "?e = 0 \<longrightarrow> (\<forall>(a, b) \<in> set xs. is_free b \<and> list_index sz \<le> list_index (me_size b - 128) \<and>
        holds cf h sz (ucast align) bound contig a \<longrightarrow> \<not> right_pages cf h flags a)"
  proof (cases r)
    case (Inr e)
    then have "e \<in> set (concat ?ls)" using r(2) by simp
    then obtain b where "(e, b) \<in> set xs" using sub by blast
    then have "e \<noteq> 0" using S by blast
    with Inr show ?thesis by simp
  next
    case (Inl alt)
    then have "\<forall>e \<in> set (concat ?ls). holds cf h sz (ucast align) bound contig e \<longrightarrow> \<not> right_pages cf h flags e"
      using r(2) by simp
    with inl show ?thesis by blast
  qed
  ultimately show ?thesis by blast
qed

section \<open>Allocation\<close>

lemma cache_line_roundup:
  assumes "unat sz \<le> 2 ^ 64 - 64"
  shows "unat sz \<le> unat (CACHE_LINE_ROUNDUP sz)" "unat (CACHE_LINE_ROUNDUP sz) < unat sz + 64"
    "64 dvd unat (CACHE_LINE_ROUNDUP sz)"
proof -
  have "unat (sz + 63) = unat sz + 63" using assms by (simp add: unat_add_no_overflow)
  moreover have e: "sz + 64 - 1 = sz + 63" by simp
  ultimately have q: "unat ((sz + 64 - 1) div 64) = (unat sz + 63) div 64" unfolding e unat_div_distrib by simp
  have g: "x \<le> 64 * ((x + 63) div 64)" "64 * ((x + 63) div 64) < x + 64" for x :: nat by presburger+
  have "64 * ((unat sz + 63) div 64) \<le> unat sz + 63" by (rule times_div_less_eq_dividend)
  then have "unat (CACHE_LINE_ROUNDUP sz) = 64 * ((unat sz + 63) div 64)"
    unfolding CACHE_LINE_ROUNDUP_def using q assms by (subst word_of_nat_unat_mult) simp_all
  then show "unat sz \<le> unat (CACHE_LINE_ROUNDUP sz)" "unat (CACHE_LINE_ROUNDUP sz) < unat sz + 64"
    "64 dvd unat (CACHE_LINE_ROUNDUP sz)"
    using g [of "unat sz"] by simp_all
qed

text \<open>Near the top of the range the size wraps to 0.\<close>

lemma cache_line_roundup_wraps:
  assumes "2 ^ 64 - 64 < unat sz"
  shows "CACHE_LINE_ROUNDUP sz = 0"
proof -
  have "unat sz + 63 = 2 ^ 64 + (unat sz + 63 - 2 ^ 64)" using assms by simp
  then have "(unat sz + 63) mod 2 ^ 64 = (unat sz + 63 - 2 ^ 64) mod 2 ^ 64" by (metis mod_add_self1)
  also have "\<dots> = unat sz + 63 - 2 ^ 64" using unat_lt2p [of sz] by (intro mod_less) simp
  finally have "unat (sz + 63) = unat sz + 63 - 2 ^ 64" by (simp add: unat_word_ariths)
  then have "unat (sz + 63) < 64" using unat_lt2p [of sz] by simp
  then have "(sz + 63) div 64 = 0" by (simp add: word_unat_eq_iff unat_div_distrib)
  then show ?thesis by (simp add: CACHE_LINE_ROUNDUP_def add.commute)
qed

lemma align_roundup:
  assumes "unat align = 2 ^ k" "k \<le> 30"
  shows "al_ok (ucast (CACHE_LINE_ROUNDUP align))" "unat align dvd unat (ucast (CACHE_LINE_ROUNDUP align) :: u32)"
    "unat (ucast (CACHE_LINE_ROUNDUP align) :: u32) = max 64 (unat align)"
proof -
  have le: "(2 :: nat) ^ k \<le> 2 ^ 30" by (rule power_increasing) (use assms(2) in auto)
  have b: "unat align \<le> 2 ^ 64 - 64" using assms(1) le by simp
  note R = cache_line_roundup [OF b]
  have c: "\<exists>m. 6 \<le> m \<and> m \<le> 30 \<and> unat (CACHE_LINE_ROUNDUP align) = 2 ^ m \<and> k \<le> m \<and> 2 ^ m = max 64 (unat align)"
  proof (cases "k \<le> 6")
    case True
    then have "(2 :: nat) ^ k \<le> 2 ^ 6" by (intro power_increasing) auto
    moreover have "0 < (2 :: nat) ^ k" by simp
    ultimately have "unat (CACHE_LINE_ROUNDUP align) < 128" "0 < unat (CACHE_LINE_ROUNDUP align)"
      using R assms(1) by (simp_all, linarith+)
    then have "unat (CACHE_LINE_ROUNDUP align) = 2 ^ 6" using R(3) by (auto elim!: dvdE)
    then show ?thesis using True \<open>(2 :: nat) ^ k \<le> 2 ^ 6\<close> assms(1) by (intro exI [of _ 6]) auto
  next
    case False
    then have "(2 :: nat) ^ 6 dvd 2 ^ k" by (intro le_imp_power_dvd) simp
    then have "(64 :: nat) dvd unat align" by (simp add: assms(1))
    then have "(64 :: nat) dvd unat (CACHE_LINE_ROUNDUP align) - unat align" using R(3) by (intro dvd_diff_nat)
    then have "unat (CACHE_LINE_ROUNDUP align) = unat align" using R by (auto elim!: dvdE) presburger
    moreover have "(2 :: nat) ^ 6 \<le> 2 ^ k" using False by (intro power_increasing) auto
    ultimately show ?thesis using assms False by (intro exI [of _ k]) auto
  qed
  then obtain m where m: "6 \<le> m" "m \<le> 30" "unat (CACHE_LINE_ROUNDUP align) = 2 ^ m" "k \<le> m"
    "2 ^ m = max 64 (unat align)" by blast
  have "(2 :: nat) ^ m \<le> 2 ^ 30" by (rule power_increasing) (use m(2) in auto)
  then have u: "unat (ucast (CACHE_LINE_ROUNDUP align) :: u32) = 2 ^ m"
    using m(2,3) by (simp add: unsigned_ucast_eq take_bit_nat_eq_self)
  then show "al_ok (ucast (CACHE_LINE_ROUNDUP align))" using m by (auto simp: al_ok_def)
  show "unat align dvd unat (ucast (CACHE_LINE_ROUNDUP align) :: u32)" unfolding u assms(1) by (rule le_imp_power_dvd) (rule m(4))
  show "unat (ucast (CACHE_LINE_ROUNDUP align) :: u32) = max 64 (unat align)" using u m(5) by simp
qed

lemma start_place:
  assumes "start_ok cf a msl (unat (me_size b)) sz align bound contig d" "al_ok align" "shape_ok a b" "64 dvd unat sz"
  shows "place_ok a b (d - 128) sz" "unat (d - 128) = unat d - 128" "d - 128 \<noteq> 0" "2 ^ 32 < unat d"
proof -
  have f: "unat a + 128 \<le> unat d" "unat d + unat sz \<le> unat a + unat (me_size b)" "unat align dvd unat d"
    using assms(1) by (auto simp: start_ok_def fits_def)
  show u: "unat (d - 128) = unat d - 128" using f(1) unat_sub [of 128 d] by (simp add: unat_le_iff)
  obtain k where "6 \<le> k" "unat align = 2 ^ k" using assms(2) by (auto simp: al_ok_def)
  then have "64 dvd unat d" using f(3) le_imp_power_dvd [of 6 k "2 :: nat"] dvd_trans by fastforce
  then show "place_ok a b (d - 128) sz" using f u assms(4) by (auto simp: place_ok_def intro: dvd_diff_nat)
  show "2 ^ 32 < unat d" using f(1) assms(3) by (simp add: shape_ok_def)
  then show "d - 128 \<noteq> 0" using u by auto
qed

lemma alloc_areas:
  assumes "shape_ok a b" "is_free b" "me_pad b = 0" "place_ok a b p sz"
  shows "\<exists>n \<ge> unat sz. areas (alloc_blocks a b p sz) = {(unat p + 128, n)}"
    "length (filter (\<lambda>x. is_busy (snd x)) (alloc_blocks a b p sz)) = 1"
proof -
  note R = alloc_room_ok [OF assms(1,4,2,3)]
  have d: "unat (p - a) = unat p - unat a" using assms(4) by (intro ptr_diff) (simp add: place_ok_def)
  have t: "areas (alloc_tail a b p sz) = {}" "filter (\<lambda>x. is_busy (snd x)) (alloc_tail a b p sz) = []"
    by (simp_all add: alloc_tail_def assms(2))
  let ?c = "alloc_room a b p sz"
  have pa: "unat a \<le> unat p" "unat p + 128 + unat sz \<le> unat a + unat (me_size ?c)"
    using assms(4) R(6) by (auto simp: place_ok_def)
  have e: "unat (me_size ?c - (p - a)) = unat (me_size ?c) - (unat p - unat a)"
    using pa d unat_sub [of "p - a" "me_size ?c"] by (simp add: unat_le_iff)
  show "\<exists>n \<ge> unat sz. areas (alloc_blocks a b p sz) = {(unat p + 128, n)}"
  proof (cases "p - a < 192")
    case True
    then show ?thesis using small_pad [OF True] d pa t
      by (intro exI [of _ "unat (me_size ?c) - (unat p - unat a) - 128"])
         (auto simp: alloc_blocks_def alloc_elem_def area_def)
  next
    case False
    then show ?thesis using d e pa t R(2)
      by (intro exI [of _ "unat (me_size ?c) - (unat p - unat a) - 128"])
         (auto simp: alloc_blocks_def alloc_elem_def area_def)
  qed
  show "length (filter (\<lambda>x. is_busy (snd x)) (alloc_blocks a b p sz)) = 1"
    using t(2) R(2) by (simp add: alloc_blocks_def alloc_elem_def)
qed

text \<open>
  Every request with a power of two as alignment (up to 1 GB) is served or refused. It is served with a new area of at
  least the size asked for, aligned, apart from all other areas, and refused only when no free block of the right pages
  has a place for the size rounded up to cache lines.
\<close>

lemma heap_alloc_ok:
  assumes H: "heap_ok cf h xs" and sz: "unat sz \<le> 2 ^ 64 - 64" and al: "unat align = 2 ^ k" "k \<le> 30"
    and bd: "bound_ok bound (CACHE_LINE_ROUNDUP sz)"
  obtains (refused) "heap_alloc cf sz flags align bound contig h = Some (0, h)"
      "\<forall>(a, b) \<in> set xs. is_free b \<and> right_pages cf h flags a \<longrightarrow>
         \<not> holds cf h (CACHE_LINE_ROUNDUP sz) (ucast (CACHE_LINE_ROUNDUP align)) bound contig a"
  | (served) ps a b ss d n h' where "xs = ps @ (a, b) # ss" "is_free b"
      "heap_alloc cf sz flags align bound contig h = Some (d, h')"
      "start_ok cf a (me_msl b) (unat (me_size b)) (CACHE_LINE_ROUNDUP sz) (ucast (CACHE_LINE_ROUNDUP align)) bound contig d"
      "heap_ok cf h' (ps @ alloc_blocks a b (d - 128) (CACHE_LINE_ROUNDUP sz) @ ss)" "d \<noteq> 0"
      "areas (ps @ alloc_blocks a b (d - 128) (CACHE_LINE_ROUNDUP sz) @ ss) = insert (unat d, n) (areas xs)"
      "unat sz \<le> n" "unat align dvd unat d" "place_ok a b (d - 128) (CACHE_LINE_ROUNDUP sz)"
      "elem_start_pt cf a (CACHE_LINE_ROUNDUP sz) (ucast (CACHE_LINE_ROUNDUP align)) bound contig h = Some (d - 128)"
      "\<exists>h1. malloc_elem_alloc cf a (CACHE_LINE_ROUNDUP sz) (ucast (CACHE_LINE_ROUNDUP align)) bound contig h = Some (d - 128, h1) \<and>
         h' = h1\<lparr>mh_alloc_count := mh_alloc_count h1 + 1\<rparr>"
      "areas (alloc_blocks a b (d - 128) (CACHE_LINE_ROUNDUP sz)) = {(unat (d - 128) + 128, n)}" "unat (d - 128) + 128 = unat d"
proof -
  let ?sz = "CACHE_LINE_ROUNDUP sz" and ?al = "ucast (CACHE_LINE_ROUNDUP align) :: u32"
  have I: "heap_inv cf h xs" using H by (simp add: heap_ok_def)
  note A = align_roundup [OF al] and S = cache_line_roundup [OF sz]
  obtain e where e: "find_suitable_element cf ?sz flags (CACHE_LINE_ROUNDUP align) bound contig h = Some e"
    "e \<noteq> 0 \<Longrightarrow> \<exists>b. (e, b) \<in> set xs \<and> is_free b \<and> holds cf h ?sz ?al bound contig e"
    "e = 0 \<Longrightarrow> \<forall>(a, b) \<in> set xs. is_free b \<and> list_index ?sz \<le> list_index (me_size b - 128) \<and>
        holds cf h ?sz ?al bound contig a \<longrightarrow> \<not> right_pages cf h flags a"
    using find_suitable_ok [OF I A(1) bd] by blast
  have place: "\<exists>d. elem_start_pt cf a ?sz ?al bound contig h = Some (d - 128) \<and> place_ok a b (d - 128) ?sz \<and> unat (d - 128) = unat d - 128 \<and>
      2 ^ 32 < unat d \<and> start_ok cf a (me_msl b) (unat (me_size b)) ?sz ?al bound contig d"
    if "(a, b) \<in> set xs" "holds cf h ?sz ?al bound contig a" for a b
  proof -
    have "shape_ok a b" using heap_inv_shapes [OF I] that(1) by (auto simp: shapes_def)
    with start_pt_ends [OF I that(1) A(1) bd, of contig] that(2) start_place [OF _ A(1) _ S(3), of cf a "me_msl b" b bound contig]
    show ?thesis by (auto simp: holds_def)
  qed
  show ?thesis
  proof (cases "e = 0")
    case True
    have "list_index ?sz \<le> list_index (me_size b - 128)" if ab: "(a, b) \<in> set xs" "holds cf h ?sz ?al bound contig a" for a b
    proof -
      obtain d where d: "place_ok a b (d - 128) ?sz" using place [OF ab] by blast
      have "unat (me_size b - 128) = unat (me_size b) - 128"
        using d unat_sub [of 128 "me_size b"] by (auto simp: place_ok_def unat_le_iff)
      moreover have "unat ?sz \<le> unat (me_size b) - 128" using d unfolding place_ok_def by linarith
      ultimately show ?thesis by (intro list_index_mono) (simp add: unat_le_iff)
    qed
    then have "\<forall>(a, b) \<in> set xs. is_free b \<and> right_pages cf h flags a \<longrightarrow> \<not> holds cf h ?sz ?al bound contig a"
      using e(3) [OF True] by blast
    moreover have "heap_alloc cf sz flags align bound contig h = Some (0, h)"
      using e(1) True by (simp add: heap_alloc_def Let_def)
    ultimately show ?thesis by (rule refused [rotated])
  next
    case False
    then obtain b where b: "(e, b) \<in> set xs" "is_free b" "holds cf h ?sz ?al bound contig e" using e(2) by blast
    obtain d where d: "elem_start_pt cf e ?sz ?al bound contig h = Some (d - 128)" "place_ok e b (d - 128) ?sz"
      "unat (d - 128) = unat d - 128" "2 ^ 32 < unat d" "start_ok cf e (me_msl b) (unat (me_size b)) ?sz ?al bound contig d"
      using place [OF b(1,3)] by blast
    obtain ps ss where xs: "xs = ps @ (e, b) # ss" using b(1) by (meson split_list)
    obtain h' where h': "malloc_elem_alloc cf e ?sz ?al bound contig h = Some (d - 128, h')"
      "heap_inv cf h' (ps @ alloc_blocks e b (d - 128) ?sz @ ss)" "mh_alloc_count h' = mh_alloc_count h"
      by (rule malloc_elem_alloc_ok [OF I [unfolded xs] b(2) d(2,1)])
    have sb: "shape_ok e b" "me_pad b = 0" using heap_inv_shapes [OF I] b(1,2) by (auto simp: shapes_def state_ok_def)
    obtain n where n: "unat ?sz \<le> n" "areas (alloc_blocks e b (d - 128) ?sz) = {(unat (d - 128) + 128, n)}"
      using alloc_areas(1) [OF sb(1) b(2) sb(2) d(2)] by blast
    have "areas (ps @ alloc_blocks e b (d - 128) ?sz @ ss) = insert (unat d, n) (areas xs)"
      using n(2) d(3,4) b(2) by (auto simp: xs)
    moreover have "heap_ok cf (h'\<lparr>mh_alloc_count := mh_alloc_count h' + 1\<rparr>) (ps @ alloc_blocks e b (d - 128) ?sz @ ss)"
      using h'(2,3) H alloc_areas(2) [OF sb(1) b(2) sb(2) d(2)] b(2)
      by (simp add: heap_ok_def heap_inv_def heap_links_def pads_ok_def xs add.assoc)
    moreover have "heap_alloc cf sz flags align bound contig h = Some (d, h'\<lparr>mh_alloc_count := mh_alloc_count h' + 1\<rparr>)"
      using e(1) False h'(1) by (simp add: heap_alloc_def Let_def)
    moreover have "d \<noteq> 0" using d(4) by auto
    moreover have "unat align dvd unat d" using d(5) A(2) by (auto simp: start_ok_def fits_def intro: dvd_trans)
    moreover have "unat (d - 128) + 128 = unat d" using d(3,4) by simp
    ultimately show ?thesis using served [OF xs b(2) _ d(5)] n S(1) d(1,2) h'(1) by simp
  qed
qed

end
