(* ===== verification/MallocRelease.thy ===== *)
theory MallocRelease
  imports MallocSpec
begin

text \<open>
  \<open>malloc_heap_free\<close> on a heap that keeps the invariant: the area is gone, the others stay, the block is joined with its free
  neighbours, and pages inside may go back to the system. Then resizing, and growing a heap.
\<close>

section \<open>Freeing the element\<close>

lemma free_blocks_split:
  assumes m: "merge_next cf a b ss = (b1, ss1)" "merge_prev cf ps a b1 = (ps2, a2, b2)"
  shows "areas ss1 = areas ss" "areas ps2 = areas ps"
    "filter (\<lambda>x. is_busy (snd x)) ss1 = filter (\<lambda>x. is_busy (snd x)) ss"
    "filter (\<lambda>x. is_busy (snd x)) ps2 = filter (\<lambda>x. is_busy (snd x)) ps"
proof -
  show "areas ss1 = areas ss" "filter (\<lambda>x. is_busy (snd x)) ss1 = filter (\<lambda>x. is_busy (snd x)) ss"
    using m(1) by (cases rule: merge_next_cases [of cf a b ss]; simp)+
  show "areas ps2 = areas ps" "filter (\<lambda>x. is_busy (snd x)) ps2 = filter (\<lambda>x. is_busy (snd x)) ps"
    using m(2) by (cases rule: merge_prev_cases [of cf ps a b1]; simp)+
qed

lemma free_elem_ok:
  assumes H: "heap_ok cf h (ps @ (a, b) # ss)" and busy: "is_busy b"
  obtains h1 ps2 a2 b2 ss2 h2 where
    "upd_elem a (\<lambda>E. E\<lparr>me_state := ELEM_FREE\<rparr>) h = Some h1" "malloc_elem_free cf a h1 = Some (a2, h2)"
    "heap_ok cf h2 (ps2 @ (a2, b2) # ss2)" "is_free b2"
    "free_blocks cf ps a (b\<lparr>me_state := ELEM_FREE\<rparr>) ss = ps2 @ (a2, b2) # ss2"
    "areas (ps2 @ (a2, b2) # ss2) = areas (ps @ (a, b) # ss) - {area a b}" "me_msl b2 = me_msl b"
proof -
  let ?b = "b\<lparr>me_state := ELEM_FREE\<rparr>"
  have L: "heap_links h (ps @ (a, b) # ss)" and ok: "blocks_ok cf (ps @ (a, b) # ss)" and pads: "pads_ok h (ps @ (a, b) # ss)"
    and l: "listed (mh_free h) (ps @ (a, b) # ss)" and cnt: "mh_alloc_count h = of_nat (length (filter (\<lambda>x. is_busy (snd x)) (ps @ (a, b) # ss)))"
    using H by (auto simp: heap_ok_def heap_inv_def)
  obtain h1 where h1: "upd_elem a (\<lambda>E. E\<lparr>me_state := ELEM_FREE\<rparr>) h = Some h1" "heap_links h1 (ps @ (a, ?b) # ss)" "same_rest {a} h h1"
    by (rule links_upd [OF L, where f = "\<lambda>E. E\<lparr>me_state := ELEM_FREE\<rparr>" and g = "\<lambda>b. b\<lparr>me_state := ELEM_FREE\<rparr>"]) simp_all
  have s: "shapes (ps @ (a, b) # ss)" and st: "\<forall>(c, d) \<in> set (ps @ (a, b) # ss). state_ok d"
    using ok by (auto simp: blocks_ok_def shapes_def)
  have s1: "shapes (ps @ (a, ?b) # ss)" using s by (auto simp: shape_ok_def)
  have st1: "\<forall>(c, d) \<in> set (ps @ ss). state_ok d" "unat (me_pad ?b) + 128 \<le> unat (me_size ?b)"
    using st busy by (auto simp: state_ok_def)
  have nj: "no_joinable cf ps" "no_joinable cf ss" using ok by (auto simp: blocks_ok_def no_joinable_append no_joinable_Cons)
  have l1: "listed (mh_free h1) (ps @ ss)" using l busy same_rest_fields [OF h1(3)] by simp
  have an: "a \<notin> addrs (ps @ ss)" using L by (auto simp: heap_links_def)
  have pk: "pads_ok h1 (ps @ ss)"
    unfolding pads_ok_def
  proof (clarify)
    fix c d assume c: "(c, d) \<in> set (ps @ ss)" "is_busy d" "me_pad d \<noteq> 0"
    then have m: "(c, d) \<in> set (ps @ (a, b) # ss)" "state_ok d" using st by auto
    have "c + ucast (me_pad d) \<notin> addrs (ps @ (a, b) # ss)"
      by (rule pad_alone(1) [OF _ _ m c(2,3)]) (use s in \<open>auto simp: shapes_def\<close>)
    then have "mh_elems h1 (c + ucast (me_pad d)) = mh_elems h (c + ucast (me_pad d))"
      using h1(3) by (auto simp: same_rest_def)
    with pads c m show "\<exists>e. mh_elems h1 (c + ucast (me_pad d)) = Some e \<and> me_state e = ELEM_PAD \<and> me_pad e = me_pad d"
      by (auto simp: pads_ok_def)
  qed
  have fr: "is_free ?b" by simp
  obtain ps2 a2 b2 ss2 h2 where h2: "malloc_elem_free cf a h1 = Some (a2, h2)" "heap_inv cf h2 (ps2 @ (a2, b2) # ss2)"
    "is_free b2" "free_blocks cf ps a ?b ss = ps2 @ (a2, b2) # ss2" "mh_alloc_count h2 = mh_alloc_count h1 - 1"
    "me_msl b2 = me_msl ?b"
    by (rule malloc_elem_free_ok [OF h1(2) l1 s1 st1 fr nj pk])
  obtain b1 ss1 where m1: "merge_next cf a ?b ss = (b1, ss1)" by force
  obtain ps3 a3 b3 where m2: "merge_prev cf ps a b1 = (ps3, a3, b3)" by (metis prod_cases3)
  note F = free_blocks_split [OF m1 m2]
  have fb: "ps2 @ (a2, b2) # ss2 = ps3 @ (a3, b3\<lparr>me_state := ELEM_FREE, me_pad := 0\<rparr>) # ss1"
    using h2(4) by (simp add: free_blocks_def m1 m2)
  have "areas (ps2 @ (a2, b2) # ss2) = areas (ps @ ss)" unfolding fb using F by simp
  moreover have "area a b \<notin> areas (ps @ ss)"
  proof
    assume "area a b \<in> areas (ps @ ss)"
    then obtain c d where c: "(c, d) \<in> set (ps @ ss)" "is_busy d" "area a b = area c d" by (auto simp: areas_def)
    then have "(a, b) = (c, d)" by (intro area_once [OF s st _ _ busy c(2,3)]) auto
    with c(1) an show False by (auto dest: addrsI)
  qed
  ultimately have ar: "areas (ps2 @ (a2, b2) # ss2) = areas (ps @ (a, b) # ss) - {area a b}" using busy by auto
  have "length (filter (\<lambda>x. is_busy (snd x)) (ps2 @ (a2, b2) # ss2)) = length (filter (\<lambda>x. is_busy (snd x)) (ps @ ss))"
    unfolding fb using F by simp
  then have "heap_ok cf h2 (ps2 @ (a2, b2) # ss2)"
    using h2(2,5) cnt busy same_rest_fields [OF h1(3)] by (simp add: heap_ok_def)
  moreover have "me_msl b2 = me_msl b" using h2(6) by simp
  ultimately show ?thesis using that [OF h1(1) h2(1) _ h2(3,4) ar] by blast
qed

section \<open>Pages\<close>

text \<open>
  A list of segments, one for each page, and a block inside it. The pages a block has a part of are mapped; pages that went back
  to the system have no segment.
\<close>

definition msl_ok :: "memseg_list \<Rightarrow> bool" where
  "msl_ok ml \<longleftrightarrow>
     (\<exists>k. 12 \<le> k \<and> k \<le> 34 \<and> unat (ml_page_sz ml) = 2 ^ k) \<and>
     unat (ml_page_sz ml) dvd unat (ml_base_va ml) \<and>
     unat (ml_len ml) = length (ml_segs ml) * unat (ml_page_sz ml) \<and>
     unat (ml_base_va ml) + unat (ml_len ml) < 2 ^ 64"

abbreviation page_at :: "memseg_list \<Rightarrow> nat \<Rightarrow> nat" where
  "page_at ml i \<equiv> unat (ml_base_va ml) + i * unat (ml_page_sz ml)"

definition mapped :: "memseg_list \<Rightarrow> nat \<Rightarrow> bool" where
  "mapped ml i \<longleftrightarrow>
     i < length (ml_segs ml) \<and> unat (sg_addr (ml_segs ml ! i)) = page_at ml i \<and> sg_len (ml_segs ml ! i) = ml_page_sz ml"

definition in_msl :: "memseg_list \<Rightarrow> eptr \<Rightarrow> elem_block \<Rightarrow> bool" where
  "in_msl ml a b \<longleftrightarrow>
     unat (ml_base_va ml) \<le> unat a \<and> unat a + unat (me_size b) \<le> unat (ml_base_va ml) + unat (ml_len ml) \<and>
     (\<forall>i. page_at ml i < unat a + unat (me_size b) \<and> unat a < page_at ml (Suc i) \<longrightarrow> mapped ml i)"

lemma in_msl_part:
  assumes "in_msl ml a b" "unat a \<le> unat c" "unat c + unat (me_size d) \<le> unat a + unat (me_size b)"
  shows "in_msl ml c d"
  unfolding in_msl_def
proof (intro conjI allI impI)
  fix i
  assume "page_at ml i < unat c + unat (me_size d) \<and> unat c < page_at ml (Suc i)"
  then have "page_at ml i < unat a + unat (me_size b) \<and> unat a < page_at ml (Suc i)" using assms(2,3) by linarith
  then show "mapped ml i" using assms(1) by (simp add: in_msl_def)
qed (use assms in \<open>simp_all add: in_msl_def\<close>)

lemma virt2memseg_ok:
  assumes ml: "msl_ok ml" and s: "unat (ml_base_va ml) \<le> unat s" "unat s < unat (ml_base_va ml) + unat (ml_len ml)"
    and d: "unat (ml_page_sz ml) dvd unat s" and m: "\<And>i. page_at ml i = unat s \<Longrightarrow> mapped ml i"
  obtains g where "virt2memseg s ml = Some g" "unat (sg_addr g + sg_len g) = unat s + unat (ml_page_sz ml)"
proof -
  let ?p = "unat (ml_page_sz ml)" and ?b = "unat (ml_base_va ml)"
  let ?i = "unat ((s - ml_base_va ml) div ml_page_sz ml)"
  have p: "0 < ?p" using ml by (auto simp: msl_ok_def)
  have e: "unat (ml_base_va ml + ml_len ml) = ?b + unat (ml_len ml)"
    using ml by (intro unat_add_no_overflow) (simp add: msl_ok_def)
  have u: "unat (s - ml_base_va ml) = unat s - ?b" using s(1) by (rule ptr_diff)
  have "?p dvd unat s - ?b" using d ml by (intro dvd_diff_nat) (simp_all add: msl_ok_def)
  then obtain i where i: "unat s - ?b = ?p * i" by (elim dvdE)
  then have ii: "?i = i" using p by (simp add: unat_div_distrib u)
  have pi: "page_at ml i = unat s" using i s(1) by (simp add: mult.commute)
  have mi: "mapped ml i" using m [OF pi] .
  let ?g = "ml_segs ml ! i"
  have il: "i < length (ml_segs ml)" using mi by (simp add: mapped_def)
  have "virt2memseg s ml = Some ?g"
    using s e il ii by (simp add: virt2memseg_def Let_def unat_less_iff unat_le_iff)
  moreover have g: "unat (sg_addr ?g) = unat s" "sg_len ?g = ml_page_sz ml" using mi pi by (auto simp: mapped_def)
  moreover have "unat (sg_addr ?g + sg_len ?g) = unat s + ?p"
  proof -
    have "Suc i * ?p \<le> unat (ml_len ml)" using il ml by (metis Suc_leI msl_ok_def mult_le_mono1)
    then have "unat (sg_addr ?g) + ?p < 2 ^ 64" using g(1) pi ml by (simp add: msl_ok_def)
    then show ?thesis using g by (simp add: unat_add_no_overflow)
  qed
  ultimately show ?thesis by (intro that)
qed

lemma skip_unfreeable_ok:
  assumes ml: "msl_ok ml" and s: "unat (ml_base_va ml) \<le> unat s" "unat (ml_page_sz ml) dvd unat s"
    and n: "unat s + n * unat (ml_page_sz ml) \<le> unat (ml_base_va ml) + unat (ml_len ml)"
    and m: "\<And>i. unat s \<le> page_at ml i \<Longrightarrow> page_at ml i < unat s + n * unat (ml_page_sz ml) \<Longrightarrow> mapped ml i"
  shows "\<exists>t. skip_unfreeable ml n s = Some t \<and> unat s \<le> unat t \<and> unat t \<le> unat s + n * unat (ml_page_sz ml) \<and>
    unat (ml_page_sz ml) dvd unat t"
  using s n m
proof (induction n arbitrary: s)
  case (Suc n)
  have p: "0 < unat (ml_page_sz ml)" using ml by (auto simp: msl_ok_def)
  then have "unat s < unat (ml_base_va ml) + unat (ml_len ml)" using Suc.prems(3) by simp
  moreover have "mapped ml i" if "page_at ml i = unat s" for i using that p by (intro Suc.prems(4)) simp_all
  ultimately obtain g where g: "virt2memseg s ml = Some g" "unat (sg_addr g + sg_len g) = unat s + unat (ml_page_sz ml)"
    using virt2memseg_ok [OF ml Suc.prems(1) _ Suc.prems(2)] by blast
  define s' where "s' = (if sg_flags g AND 1 \<noteq> 0 then sg_addr g + sg_len g else s)"
  have s1: "unat s \<le> unat s'" "unat s' \<le> unat s + unat (ml_page_sz ml)" "unat (ml_page_sz ml) dvd unat s'"
    using g(2) Suc.prems(2) by (auto simp: s'_def)
  have m1: "mapped ml i" if "unat s' \<le> page_at ml i" "page_at ml i < unat s' + n * unat (ml_page_sz ml)" for i
    using that s1(1,2) by (intro Suc.prems(4)) simp_all
  have "\<exists>t. skip_unfreeable ml n s' = Some t \<and> unat s' \<le> unat t \<and> unat t \<le> unat s' + n * unat (ml_page_sz ml) \<and>
    unat (ml_page_sz ml) dvd unat t"
    by (rule Suc.IH [OF _ _ _ m1]) (use s1 Suc.prems(1,3) in simp_all)
  with s1 g show ?case by (fastforce simp: s'_def [symmetric])
qed simp

text \<open>What is left of the range is in the block, and leaves no piece too small for an element before or behind it.\<close>

definition range_ok :: "eptr \<Rightarrow> elem_block \<Rightarrow> u64 \<Rightarrow> u64 \<Rightarrow> bool" where
  "range_ok a b start len \<longleftrightarrow>
     unat a \<le> unat start \<and> unat start + unat len \<le> unat a + unat (me_size b) \<and> 0 < unat len \<and>
     64 dvd unat start \<and> 64 dvd unat len \<and>
     (unat start = unat a \<or> unat a + 192 \<le> unat start) \<and>
     (unat start + unat len = unat a + unat (me_size b) \<or> unat start + unat len + 192 \<le> unat a + unat (me_size b))"

lemma ucast_not_small:
  assumes "\<not> ((ucast (x :: u64) :: u32) \<noteq> 0 \<and> (ucast x :: u32) < 192)"
  shows "unat x = 0 \<or> 192 \<le> unat x"
proof -
  have u: "unat (ucast x :: u32) = unat x mod 2 ^ 32" by (simp add: unsigned_ucast_eq take_bit_nat_def)
  from assms have "unat x mod 2 ^ 32 = 0 \<or> 192 \<le> unat x mod 2 ^ 32"
    by (auto simp: unat_less_iff word_unat_eq_iff u)
  moreover have "unat x mod 2 ^ 32 \<le> unat x" by (rule mod_less_eq_dividend)
  moreover have "unat x mod 2 ^ 32 = 0 \<Longrightarrow> unat x = 0 \<or> 192 \<le> unat x"
    using div_mult_mod_eq [of "unat x" "2 ^ 32"] by (cases "unat x div 2 ^ 32") auto
  ultimately show ?thesis by linarith
qed

lemma ucast_quotient:
  assumes "(ucast (x :: u64) :: u32) \<noteq> 0"
  shows "1 \<le> unat x" "(ucast x :: u32) \<noteq> 1 \<Longrightarrow> 2 \<le> unat x" "(ucast x :: u32) \<noteq> 1 \<Longrightarrow> (ucast x :: u32) - 1 \<noteq> 1 \<Longrightarrow> 3 \<le> unat x"
proof -
  have x0: "x \<noteq> 0" using assms by auto
  then show "1 \<le> unat x" by (simp add: Suc_le_eq unat_gt_0)
  have x1: "x \<noteq> 1" if "(ucast x :: u32) \<noteq> 1" using that by auto
  with x0 show g: "2 \<le> unat x" if "(ucast x :: u32) \<noteq> 1"
    using that by (metis One_nat_def Suc_1 Suc_leI \<open>1 \<le> unat x\<close> le_neq_implies_less unat_1 word_unat_eq_iff)
  show "3 \<le> unat x" if "(ucast x :: u32) \<noteq> 1" "(ucast x :: u32) - 1 \<noteq> 1"
  proof -
    have "x \<noteq> 2" using that(2) by auto
    then have "unat x \<noteq> 2" by (auto simp: word_unat_eq_iff)
    with g [OF that(1)] show ?thesis by simp
  qed
qed

lemma trim_pages_cases:
  assumes "trim_pages page elem end_pt st ae = Some (start, len)"
  defines "l \<equiv> ae - st" and "n \<equiv> ucast ((ae - st) div page) :: u32"
    and "B \<equiv> (ucast (st - elem) :: u32) \<noteq> 0 \<and> (ucast (st - elem) :: u32) < 192"
    and "A \<equiv> (ucast (end_pt - ae) :: u32) \<noteq> 0 \<and> (ucast (end_pt - ae) :: u32) < 192"
  shows "n \<noteq> 0 \<and>
    (\<not> B \<and> \<not> A \<and> start = st \<and> len = l \<or>
     B \<and> \<not> A \<and> n \<noteq> 1 \<and> start = st + page \<and> len = l - page \<or>
     \<not> B \<and> A \<and> n \<noteq> 1 \<and> start = st \<and> len = l - page \<or>
     B \<and> A \<and> n \<noteq> 1 \<and> n - 1 \<noteq> 1 \<and> start = st + page \<and> len = l - page - page)"
proof -
  have "trim_pages page elem end_pt st ae =
    (if n = 0 then None else if B \<and> n = 1 then None
     else let (st, l, n) = (if B then (st + page, l - page, n - 1) else (st, l, n))
          in if A \<and> n = 1 then None else Some (st, if A then l - page else l))"
    unfolding trim_pages_def Let_def l_def n_def B_def A_def ..
  with assms(1) show ?thesis by (cases B; cases A) (simp_all split: if_splits)
qed

lemma trim_pages_ok:
  assumes t: "trim_pages page elem end_pt st ae = Some (start, len)"
    and p: "4096 \<le> unat page" "64 dvd unat page"
    and o: "unat elem \<le> unat st" "unat st \<le> unat ae" "unat ae \<le> unat end_pt" "64 dvd unat st" "64 dvd unat ae"
    and e: "unat end_pt = unat elem + unat (me_size b)"
  shows "range_ok elem b start len"
proof -
  let ?l = "ae - st" and ?n = "ucast ((ae - st) div page) :: u32"
  let ?bs = "ucast (st - elem) :: u32" and ?as = "ucast (end_pt - ae) :: u32"
  let ?b = "?bs \<noteq> 0 \<and> ?bs < 192" and ?a = "?as \<noteq> 0 \<and> ?as < 192"
  have l: "unat ?l = unat ae - unat st" using o(2) by (rule ptr_diff)
  have be: "unat (st - elem) = unat st - unat elem" "unat (end_pt - ae) = unat end_pt - unat ae"
    using o(1,3) by (simp_all add: ptr_diff)
  have n0: "?n \<noteq> 0" using trim_pages_cases [OF t] by blast
  have q: "k \<le> unat (?l div page) \<Longrightarrow> k * unat page \<le> unat ae - unat st" for k
    using l by (metis le_trans mult_le_mono1 unat_div_distrib div_times_less_eq_dividend)
  have b64: "64 dvd unat ?l" using l o(4,5) by (simp add: dvd_diff_nat)
  have bsm: "\<not> ?b \<Longrightarrow> unat st = unat elem \<or> unat elem + 192 \<le> unat st"
    using ucast_not_small [of "st - elem"] be(1) o(1) by linarith
  have asm: "\<not> ?a \<Longrightarrow> unat ae = unat end_pt \<or> unat ae + 192 \<le> unat end_pt"
    using ucast_not_small [of "end_pt - ae"] be(2) o(3) by linarith
  consider (none) "\<not> ?b" "\<not> ?a" "start = st" "len = ?l"
    | (front) "?b" "\<not> ?a" "?n \<noteq> 1" "start = st + page" "len = ?l - page"
    | (rear) "\<not> ?b" "?a" "?n \<noteq> 1" "start = st" "len = ?l - page"
    | (both) "?b" "?a" "?n \<noteq> 1" "?n - 1 \<noteq> 1" "start = st + page" "len = ?l - page - page"
    using trim_pages_cases [OF t] by blast
  then show ?thesis
  proof cases
    case none
    have "1 * unat page \<le> unat ae - unat st" by (rule q) (rule ucast_quotient(1) [OF n0])
    then show ?thesis using none l o e p bsm asm b64 by (auto simp: range_ok_def)
  next
    case front
    have g: "2 * unat page \<le> unat ae - unat st" by (rule q) (rule ucast_quotient(2) [OF n0 front(3)])
    have "unat (st + page) = unat st + unat page"
      using g o(2) unat_lt2p [of ae] by (intro unat_add_no_overflow) simp
    moreover have "unat (?l - page) = unat ae - unat st - unat page" using g l by (subst unat_sub) (simp_all add: unat_le_iff)
    ultimately show ?thesis using front g o e p asm by (auto simp: range_ok_def intro!: dvd_diff_nat)
  next
    case rear
    have g: "2 * unat page \<le> unat ae - unat st" by (rule q) (rule ucast_quotient(2) [OF n0 rear(3)])
    have "unat (?l - page) = unat ae - unat st - unat page" using g l by (subst unat_sub) (simp_all add: unat_le_iff)
    then show ?thesis using rear g o e p bsm by (auto simp: range_ok_def intro!: dvd_diff_nat)
  next
    case both
    have g: "3 * unat page \<le> unat ae - unat st" by (rule q) (rule ucast_quotient(3) [OF n0 both(3,4)])
    have "unat (st + page) = unat st + unat page"
      using g o(2) unat_lt2p [of ae] by (intro unat_add_no_overflow) simp
    moreover have l1: "unat (?l - page) = unat ae - unat st - unat page" using g l by (subst unat_sub) (simp_all add: unat_le_iff)
    moreover have "unat (?l - page - page) = unat ae - unat st - unat page - unat page"
      using g l1 by (subst unat_sub) (simp_all add: unat_le_iff)
    ultimately show ?thesis using both g o e p by (auto simp: range_ok_def intro!: dvd_diff_nat)
  qed
qed

lemma pages_to_free_ok:
  assumes b: "shape_ok a b"
    and m: "mc_legacy_mem cf \<or> ml_external ml \<or> msl_ok ml \<and> in_msl ml a b"
  shows "\<exists>r. pages_to_free cf ml a (mk_elem b p n) = Some r \<and> (\<forall>start len. r = Some (start, len) \<longrightarrow> range_ok a b start len)"
proof -
  let ?pg = "ml_page_sz ml"
  consider (no) "mc_legacy_mem cf \<or> ml_external ml \<or> me_size b < ?pg \<or>
      mc_match_allocations cf \<and> me_size b \<noteq> me_orig_size b \<or>
      RTE_ALIGN_FLOOR (a + me_size b) ?pg - RTE_ALIGN_CEIL a ?pg < ?pg"
    | (yes) "\<not> (mc_legacy_mem cf \<or> ml_external ml)" "\<not> me_size b < ?pg"
      "\<not> (mc_match_allocations cf \<and> me_size b \<noteq> me_orig_size b)"
      "\<not> RTE_ALIGN_FLOOR (a + me_size b) ?pg - RTE_ALIGN_CEIL a ?pg < ?pg"
    by blast
  then show ?thesis
  proof cases
    case no
    then have "pages_to_free cf ml a (mk_elem b p n) = Some None"
      by (auto simp: pages_to_free_def Let_def)
    then show ?thesis by simp
  next
    case yes
    then have ml: "msl_ok ml" "in_msl ml a b" using m by auto
    then obtain k where k: "12 \<le> k" "k \<le> 34" "unat ?pg = 2 ^ k" by (auto simp: msl_ok_def)
    then have pg: "?pg = 2 ^ k" using unat_p2 [where 'a = 64, of k] by (simp add: word_unat_eq_iff)
    have P: "4096 \<le> unat ?pg" "64 dvd unat ?pg"
      using power_increasing [of 12 k "2 :: nat"] le_imp_power_dvd [of 6 k "2 :: nat"] k by auto
    let ?as = "RTE_ALIGN_CEIL a ?pg" and ?e = "a + me_size b"
    let ?ae = "RTE_ALIGN_FLOOR ?e ?pg"
    have e: "unat ?e = unat a + unat (me_size b)" using b by (simp add: shape_ok_def unat_add_no_overflow)
    have sz: "unat ?pg \<le> unat (me_size b)" using yes(2) by (simp add: unat_less_iff)
    have as: "unat a \<le> unat ?as" "unat ?as < unat a + unat ?pg" "unat ?pg dvd unat ?as"
    proof -
      have "unat a + 2 ^ k \<le> 2 ^ LENGTH(64)" using b sz k(3) by (simp add: shape_ok_def)
      from align_ceil_spec [OF _ this, folded pg, folded k(3)] k(2)
      show "unat a \<le> unat ?as" "unat ?as < unat a + unat ?pg" "unat ?pg dvd unat ?as" by (simp_all add: dvd_eq_mod_eq_0)
    qed
    have ae: "unat ?ae = unat ?e - unat ?e mod unat ?pg" using align_floor_spec [of k ?e, folded pg, folded k(3)] k(2) by simp
    then have ae_le: "unat ?ae \<le> unat ?e" "unat ?pg dvd unat ?ae" by (simp_all add: minus_mod_eq_mult_div)
    have as_ae: "unat ?as \<le> unat ?ae"
      unfolding ae using as sz e by (intro floor_mono_nat) auto
    let ?n = "unat (ucast ((?ae - ?as) div ?pg) :: u32)"
    have "?n \<le> unat ((?ae - ?as) div ?pg)" by (simp add: unsigned_ucast_eq)
    then have "?n * unat ?pg \<le> unat ((?ae - ?as) div ?pg) * unat ?pg" by (rule mult_le_mono1)
    also have "\<dots> \<le> unat (?ae - ?as)" unfolding unat_div_distrib by (rule div_times_less_eq_dividend)
    finally have "?n * unat ?pg \<le> unat ?ae - unat ?as" using ptr_diff [OF as_ae] by simp
    then have "unat ?as + ?n * unat ?pg \<le> unat ?ae" using as_ae by simp
    moreover from this have "unat ?as + ?n * unat ?pg \<le> unat (ml_base_va ml) + unat (ml_len ml)"
      using ae_le(1) e ml(2) by (simp add: in_msl_def)
    moreover have "unat (ml_base_va ml) \<le> unat ?as" using as(1) ml(2) by (simp add: in_msl_def)
    moreover have "mapped ml i" if "unat ?as \<le> page_at ml i" "page_at ml i < unat ?as + ?n * unat ?pg" for i
    proof -
      have "page_at ml i < unat a + unat (me_size b) \<and> unat a < page_at ml (Suc i)"
        using that as(1) P(1) \<open>unat ?as + ?n * unat ?pg \<le> unat ?ae\<close> ae_le(1) e by simp
      then show ?thesis using ml(2) by (simp add: in_msl_def)
    qed
    ultimately obtain t where t: "skip_unfreeable ml ?n ?as = Some t" "unat ?as \<le> unat t" "unat t \<le> unat ?ae" "unat ?pg dvd unat t"
      using skip_unfreeable_ok [OF ml(1) _ as(3), of ?n] by (meson order_trans)
    have "pages_to_free cf ml a (mk_elem b p n) = Some (trim_pages ?pg a ?e t ?ae)"
      by (simp only: pages_to_free_def Let_def mk_elem_simps yes t(1) if_False bind.bind_lunit)
    moreover have "range_ok a b start len" if "trim_pages ?pg a ?e t ?ae = Some (start, len)" for start len
      by (rule trim_pages_ok [OF that P _ t(3) ae_le(1) _ _ e])
         (use as(1) t(2,4) ae_le(2) P(2) in \<open>auto intro: dvd_trans\<close>)
    ultimately show ?thesis by blast
  qed
qed

section \<open>Hiding a range\<close>

definition hidden_before :: "malloc_conf \<Rightarrow> eblocks \<Rightarrow> eptr \<Rightarrow> elem_block \<Rightarrow> u64 \<Rightarrow> eblocks" where
  "hidden_before cf ps a b start =
     (if ps \<noteq> [] \<and> joinable cf (last ps) (a, b) \<and> start \<noteq> a then [(a, b\<lparr>me_size := start - a\<rparr>)] else [])"

definition hidden_after :: "malloc_conf \<Rightarrow> eptr \<Rightarrow> elem_block \<Rightarrow> eblocks \<Rightarrow> u64 \<Rightarrow> eblocks" where
  "hidden_after cf a b ss end_pt =
     (if ss \<noteq> [] \<and> joinable cf (a, b) (hd ss) \<and> end_pt \<noteq> a + me_size b then [(end_pt, cut_block b (end_pt - a))] else [])"

lemma next_adjacent_eq:
  assumes "heap_links h (ps @ (a, b) # ss)"
  shows "(if first_of ss 0 \<noteq> 0 then next_elem_is_adjacent cf a h else Some False) =
    Some (ss \<noteq> [] \<and> joinable cf (a, b) (hd ss))"
  using assms
  by (cases ss) (auto simp: next_elem_is_adjacent_def heap_links_def joinable_def)

lemma prev_adjacent_eq:
  assumes "heap_links h (ps @ (a, b) # ss)"
  shows "(if last_of 0 ps \<noteq> 0 then prev_elem_is_adjacent cf a h else Some False) =
    Some (ps \<noteq> [] \<and> joinable cf (last ps) (a, b))"
  using assms
  by (cases ps rule: rev_cases) (auto simp: prev_elem_is_adjacent_def heap_links_def joinable_def)

lemma hide_after_ok:
  assumes L: "heap_links h (ps @ (a, b) # ss)" and l: "listed (mh_free h) (ps @ ss)" and f: "is_free b"
    and s: "shapes (ps @ (a, b) # ss)" and r: "range_ok a b start len"
  obtains h' b1 where "hide_after cf a (start + len) (first_of ss 0) h = Some (Inl h')"
    "heap_links h' (ps @ (a, b1) # hidden_after cf a b ss (start + len) @ ss)"
    "listed (mh_free h') (ps @ hidden_after cf a b ss (start + len) @ ss)"
    "\<exists>z. b1 = b\<lparr>me_size := z\<rparr>"
    "\<forall>x. x \<notin> addrs (ps @ (a, b) # ss) \<longrightarrow> \<not> inside x a b \<longrightarrow> mh_elems h' x = mh_elems h x"
    "mh_alloc_count h' = mh_alloc_count h" "mh_total_size h' = mh_total_size h"
proof (cases "ss \<noteq> [] \<and> joinable cf (a, b) (hd ss)")
  case False
  then have "hide_after cf a (start + len) (first_of ss 0) h = Some (Inl h)"
    unfolding hide_after_def next_adjacent_eq [OF L] by simp
  moreover have "hidden_after cf a b ss (start + len) = []" using False by (auto simp: hidden_after_def)
  ultimately show ?thesis using L l by (intro that [of h b]) (auto intro: exI [of _ "me_size b"])
next
  case True
  let ?e = "start + len"
  have sh: "shape_ok a b" using s by auto
  have n: "first_of ss 0 = a + me_size b" using True by (cases ss) (auto simp: joinable_def)
  have e: "unat ?e = unat start + unat len" "unat (a + me_size b) = unat a + unat (me_size b)"
    using r sh by (auto simp: range_ok_def shape_ok_def intro!: unat_add_no_overflow)
  have after: "unat (a + me_size b - ?e) = unat a + unat (me_size b) - (unat start + unat len)"
    using r e ptr_diff [of ?e "a + me_size b"] by (auto simp: range_ok_def)
  show ?thesis
  proof (cases "?e = a + me_size b")
    case eq: True
    then have "hide_after cf a ?e (first_of ss 0) h = Some (Inl h)"
      unfolding hide_after_def next_adjacent_eq [OF L] using True n by simp
    moreover have "hidden_after cf a b ss ?e = []" using eq by (auto simp: hidden_after_def)
    ultimately show ?thesis using L l by (intro that [of h b]) (auto intro: exI [of _ "me_size b"])
  next
    case ne: False
    then have room: "unat start + unat len + 192 \<le> unat a + unat (me_size b)"
      using r e by (auto simp: range_ok_def word_unat_eq_iff)
    then have big: "a + me_size b - ?e \<ge> 192" using after by (simp add: unat_le_iff)
    have i: "inside ?e a b" "?e \<noteq> a" "?e \<noteq> 0" using room r e sh by (auto simp: inside_def range_ok_def word_unat_eq_iff shape_ok_def)
    have new: "?e \<notin> addrs (ps @ (a, b) # ss)"
      by (rule inside_not_addr [OF _ _ _ i(1,2)]) (use s in \<open>auto simp: shapes_def\<close>)
    obtain h1 where h1: "split_elem a ?e h = Some h1"
      "heap_links h1 (ps @ (a, b\<lparr>me_size := ?e - a\<rparr>) # (?e, cut_block b (?e - a)) # ss)"
      "same_rest (insert ?e (addrs (ps @ (a, b) # ss))) h h1"
      by (rule links_split [OF L new i(3)])
    note fr = same_rest_fields [OF h1(3)]
    have L1: "heap_links h1 ((ps @ [(a, b\<lparr>me_size := ?e - a\<rparr>)]) @ (?e, cut_block b (?e - a)) # ss)" using h1(2) by simp
    have l1: "listed (mh_free h1) (ps @ ss)" "?e \<notin> addrs (ps @ ss)" using l fr(1) new by (auto simp: image_Un)
    have fc: "is_free (cut_block b (?e - a))" by simp
    obtain h2 where h2: "malloc_elem_free_list_insert ?e h1 = Some h2"
      "heap_links h2 ((ps @ [(a, b\<lparr>me_size := ?e - a\<rparr>)]) @ (?e, cut_block b (?e - a)) # ss)"
      "listed (mh_free h2) (ps @ (?e, cut_block b (?e - a)) # ss)" "same_rest {?e} h1 (h2\<lparr>mh_free := mh_free h1\<rparr>)"
      by (rule free_list_insert_free [OF L1 l1 fc])
    have ha: "hidden_after cf a b ss ?e = [(?e, cut_block b (?e - a))]" using True ne by (simp add: hidden_after_def)
    have "hide_after cf a ?e (first_of ss 0) h = Some (Inl h2)"
      unfolding hide_after_def next_adjacent_eq [OF L] using True n big h1(1) h2(1) by simp
    moreover have "mh_elems h2 x = mh_elems h x" if "x \<notin> addrs (ps @ (a, b) # ss)" "\<not> inside x a b" for x
      using that h1(3) h2(4) i(1) by (cases "x = ?e") (auto simp: same_rest_def)
    moreover have "mh_alloc_count h2 = mh_alloc_count h" "mh_total_size h2 = mh_total_size h"
      using h2(4) fr by (simp_all add: same_rest_def)
    ultimately show ?thesis using h2(2,3) ha
      by (intro that [of h2 "b\<lparr>me_size := ?e - a\<rparr>"]) auto
  qed
qed

lemma hide_before_ok:
  assumes L: "heap_links h (ps @ (a, b) # ss)" and l: "listed (mh_free h) (ps @ ss)" and f: "is_free b"
    and new: "start \<noteq> a \<Longrightarrow> start \<notin> addrs (ps @ (a, b) # ss)" and sa: "unat a \<le> unat start"
    and gap: "start = a \<or> unat a + 192 \<le> unat start"
  obtains h' c d where "hide_before cf a start (last_of 0 ps) h = Some (Inl (c, h'))"
    "heap_links h' (ps @ hidden_before cf ps a b start @ (c, d) # ss)"
    "listed (mh_free h') (ps @ hidden_before cf ps a b start @ ss)" "c = a \<or> c = start"
    "\<forall>x. x \<notin> addrs (ps @ (a, b) # ss) \<longrightarrow> x \<noteq> start \<longrightarrow> mh_elems h' x = mh_elems h x"
    "mh_alloc_count h' = mh_alloc_count h" "mh_total_size h' = mh_total_size h"
proof (cases "ps \<noteq> [] \<and> joinable cf (last ps) (a, b) \<and> start \<noteq> a")
  case False
  have "hide_before cf a start (last_of 0 ps) h = Some (Inl (a, h))"
    unfolding hide_before_def prev_adjacent_eq [OF L] using False by auto
  moreover have "hidden_before cf ps a b start = []" using False by (auto simp: hidden_before_def)
  ultimately show ?thesis using L l by (intro that [of a h b]) auto
next
  case True
  have big: "start - a \<ge> 192" using True gap ptr_diff [OF sa] by (auto simp: unat_le_iff)
  have nz: "start \<noteq> 0" using True gap by (auto simp: word_unat_eq_iff)
  have nw: "start \<notin> addrs (ps @ (a, b) # ss)" using new True by blast
  obtain h1 where h1: "split_elem a start h = Some h1"
    "heap_links h1 (ps @ (a, b\<lparr>me_size := start - a\<rparr>) # (start, cut_block b (start - a)) # ss)"
    "same_rest (insert start (addrs (ps @ (a, b) # ss))) h h1"
    by (rule links_split [OF L nw nz])
  note fr = same_rest_fields [OF h1(3)]
  have l1: "listed (mh_free h1) (ps @ ss)" "a \<notin> addrs (ps @ ss)" using l fr(1) L by (auto simp: heap_links_def)
  have fb: "is_free (b\<lparr>me_size := start - a\<rparr>)" using f by simp
  obtain h2 where h2: "malloc_elem_free_list_insert a h1 = Some h2"
    "heap_links h2 (ps @ (a, b\<lparr>me_size := start - a\<rparr>) # (start, cut_block b (start - a)) # ss)"
    "listed (mh_free h2) (ps @ (a, b\<lparr>me_size := start - a\<rparr>) # ss)" "same_rest {a} h1 (h2\<lparr>mh_free := mh_free h1\<rparr>)"
    by (rule free_list_insert_free [OF h1(2) l1 fb])
  have hb: "hidden_before cf ps a b start = [(a, b\<lparr>me_size := start - a\<rparr>)]" using True by (simp add: hidden_before_def)
  have "hide_before cf a start (last_of 0 ps) h = Some (Inl (start, h2))"
    unfolding hide_before_def prev_adjacent_eq [OF L] using True big h1(1) h2(1) by simp
  moreover have "\<forall>x. x \<notin> addrs (ps @ (a, b) # ss) \<longrightarrow> x \<noteq> start \<longrightarrow> mh_elems h2 x = mh_elems h x"
    using h1(3) h2(4) by (auto simp: same_rest_def)
  moreover have "mh_alloc_count h2 = mh_alloc_count h" "mh_total_size h2 = mh_total_size h"
    using h2(4) fr by (simp_all add: same_rest_def)
  ultimately show ?thesis using h2(2,3) hb
    by (intro that [of start h2 "cut_block b (start - a)"]) auto
qed

lemma hide_region_ok:
  fixes cf :: malloc_conf
  assumes L: "heap_links h (ps @ (a, b) # ss)" and l: "listed (mh_free h) (ps @ ss)" and f: "is_free b"
    and s: "shapes (ps @ (a, b) # ss)" and r: "range_ok a b start len"
  defines "xs' \<equiv> ps @ hidden_before cf ps a b start @ hidden_after cf a b ss (start + len) @ ss"
  obtains h' where "malloc_elem_hide_region cf a start len h = Some h'"
    "heap_links h' xs'" "listed (mh_free h') xs'"
    "\<forall>x. x \<notin> addrs (ps @ (a, b) # ss) \<longrightarrow> \<not> inside x a b \<longrightarrow> mh_elems h' x = mh_elems h x"
    "mh_alloc_count h' = mh_alloc_count h" "mh_total_size h' = mh_total_size h"
proof -
  let ?e = "start + len" and ?post = "hidden_after cf a b ss (start + len)"
  have sh: "shape_ok a b" using s by auto
  have e: "unat ?e = unat start + unat len"
    using r sh by (auto simp: range_ok_def shape_ok_def intro!: unat_add_no_overflow)
  obtain h1 b1 where h1: "hide_after cf a ?e (first_of ss 0) h = Some (Inl h1)"
    "heap_links h1 (ps @ (a, b1) # ?post @ ss)" "listed (mh_free h1) (ps @ ?post @ ss)" "\<exists>z. b1 = b\<lparr>me_size := z\<rparr>"
    "\<forall>x. x \<notin> addrs (ps @ (a, b) # ss) \<longrightarrow> \<not> inside x a b \<longrightarrow> mh_elems h1 x = mh_elems h x"
    "mh_alloc_count h1 = mh_alloc_count h" "mh_total_size h1 = mh_total_size h"
    by (rule hide_after_ok [OF L l f s r])
  have f1: "is_free b1" using h1(4) f by auto
  have before: "hidden_before cf ps a b1 start = hidden_before cf ps a b start"
    using h1(4) by (auto simp: hidden_before_def joinable_def)
  have i: "inside start a b" using r by (auto simp: range_ok_def inside_def)
  have pe: "addrs ?post \<subseteq> {?e}" by (auto simp: hidden_after_def)
  have se: "start \<noteq> ?e" using r e by (auto simp: range_ok_def word_unat_eq_iff)
  have pi: "inside x a b" if "x \<in> addrs ?post" for x
    using that r e sh by (auto simp: hidden_after_def inside_def range_ok_def word_unat_eq_iff shape_ok_def unat_add_no_overflow split: if_splits)
  have new: "start \<notin> addrs (ps @ (a, b1) # ?post @ ss)" if "start \<noteq> a"
  proof -
    have "start \<notin> addrs (ps @ (a, b) # ss)"
      by (rule inside_not_addr [OF _ _ _ i that]) (use s in \<open>auto simp: shapes_def\<close>)
    then show ?thesis using pe se by auto
  qed
  have g: "unat a \<le> unat start" "start = a \<or> unat a + 192 \<le> unat start" using r by (auto simp: range_ok_def word_unat_eq_iff)
  obtain h2 c d where h2: "hide_before cf a start (last_of 0 ps) h1 = Some (Inl (c, h2))"
    "heap_links h2 (ps @ hidden_before cf ps a b1 start @ (c, d) # ?post @ ss)"
    "listed (mh_free h2) (ps @ hidden_before cf ps a b1 start @ ?post @ ss)" "c = a \<or> c = start"
    "\<forall>x. x \<notin> addrs (ps @ (a, b1) # ?post @ ss) \<longrightarrow> x \<noteq> start \<longrightarrow> mh_elems h2 x = mh_elems h1 x"
    "mh_alloc_count h2 = mh_alloc_count h1" "mh_total_size h2 = mh_total_size h1"
    by (rule hide_before_ok [OF h1(2,3) f1 new g])
  have L2: "heap_links h2 ((ps @ hidden_before cf ps a b start) @ (c, d) # ?post @ ss)" using h2(2) before by simp
  obtain h3 where h3: "remove_elem c h2 = Some h3" "heap_links h3 ((ps @ hidden_before cf ps a b start) @ ?post @ ss)"
    "same_rest (addrs ((ps @ hidden_before cf ps a b start) @ (c, d) # ?post @ ss)) h2 h3"
    by (rule links_remove [OF L2])
  note fr = same_rest_fields [OF h3(3)]
  have "malloc_elem_hide_region cf a start len h = Some h3"
    using h1(1) h2(1) h3(1) by (simp add: malloc_elem_hide_region_def links_elem [OF L])
  moreover have "listed (mh_free h3) xs'" using h2(3) before fr by (simp add: xs'_def)
  moreover have "mh_elems h3 x = mh_elems h x" if x: "x \<notin> addrs (ps @ (a, b) # ss)" "\<not> inside x a b" for x
  proof -
    have x1: "x \<noteq> start" "x \<notin> addrs ?post" "x \<noteq> c" "x \<notin> addrs (hidden_before cf ps a b start)"
      using x i pi h2(4) inside_self [OF sh] by (auto simp: hidden_before_def)
    then have "mh_elems h3 x = mh_elems h2 x" using h3(3) x(1) by (auto simp: same_rest_def)
    also have "\<dots> = mh_elems h1 x" using h2(5) x1 x(1) by auto
    also have "\<dots> = mh_elems h x" using h1(5) x by blast
    finally show ?thesis .
  qed
  ultimately show ?thesis using h3(2) fr h1(6,7) h2(6,7) by (intro that [of h3]) (auto simp: xs'_def)
qed

section \<open>Freeing at the heap\<close>

lemma joinable_addr: "joinable cf (a, b) (c, d) \<Longrightarrow> shape_ok a b \<Longrightarrow> unat c = unat a + unat (me_size b)"
  by (simp add: joinable_def shape_ok_def unat_add_no_overflow)

text \<open>The pieces that stay, before and behind the range.\<close>

lemma hidden_pieces:
  assumes sh: "shape_ok a b" and f: "is_free b" and pb: "me_pad b = 0" and r: "range_ok a b start len"
  shows "(c, d) \<in> set (hidden_before cf ps a b start) \<Longrightarrow>
      shape_ok c d \<and> state_ok d \<and> unat a \<le> unat c \<and> unat c + unat (me_size d) = unat start"
    "(c, d) \<in> set (hidden_after cf a b ss (start + len)) \<Longrightarrow>
      shape_ok c d \<and> state_ok d \<and> unat c = unat (start + len) \<and> unat c + unat (me_size d) = unat a + unat (me_size b)"
    "unat start < unat (start + len)" "unat (start + len) \<le> unat a + unat (me_size b)" "unat a \<le> unat start"
proof -
  let ?e = "start + len"
  have e: "unat ?e = unat start + unat len" "unat (start - a) = unat start - unat a"
    "unat (a + me_size b) = unat a + unat (me_size b)"
    using r sh by (auto simp: range_ok_def shape_ok_def intro!: unat_add_no_overflow ptr_diff)
  have e2: "unat (me_size b - (?e - a)) = unat (me_size b) - (unat start + unat len - unat a)"
    using r e ptr_diff [of a ?e] unat_sub [of "?e - a" "me_size b"] by (auto simp: range_ok_def unat_le_iff)
  show "unat start < unat ?e" "unat ?e \<le> unat a + unat (me_size b)" "unat a \<le> unat start" using r e by (auto simp: range_ok_def)
  show "shape_ok c d \<and> state_ok d \<and> unat a \<le> unat c \<and> unat c + unat (me_size d) = unat start"
    if "(c, d) \<in> set (hidden_before cf ps a b start)"
    using that r e sh f pb by (auto simp: hidden_before_def range_ok_def shape_ok_def state_ok_def word_unat_eq_iff dvd_diff_nat split: if_splits)
  show "shape_ok c d \<and> state_ok d \<and> unat c = unat ?e \<and> unat c + unat (me_size d) = unat a + unat (me_size b)"
    if "(c, d) \<in> set (hidden_after cf a b ss ?e)"
    using that r e e2 sh f pb
    by (auto simp: hidden_after_def range_ok_def shape_ok_def state_ok_def word_unat_eq_iff intro!: dvd_diff_nat split: if_splits)
qed

text \<open>Blocks with a gap between them are not joinable.\<close>

lemma gap_not_joinable: "shape_ok c d \<Longrightarrow> unat c + unat (me_size d) < unat z \<Longrightarrow> \<not> joinable cf (c, d) (z, w)"
  using joinable_addr by fastforce

lemma gap_before:
  assumes s: "shapes (ps @ (a, b) # ss)" and z: "unat a < unat z"
  shows "ps = [] \<or> \<not> joinable cf (last ps) (z, w)"
proof (cases ps rule: rev_cases)
  case (snoc qs x)
  then have "shape_ok (fst x) (snd x)" "unat (fst x) + unat (me_size (snd x)) \<le> unat a"
    using s by (auto simp: shapes_def in_order_append in_order_Cons)
  then show ?thesis using gap_not_joinable [of "fst x" "snd x" z cf w] z snoc by simp
qed simp

lemma gap_behind:
  assumes s: "shapes (ps @ (a, b) # ss)" and c: "shape_ok c d" "unat c + unat (me_size d) < unat a + unat (me_size b)"
  shows "ss = [] \<or> \<not> joinable cf (c, d) (hd ss)"
proof (cases ss)
  case (Cons x xs)
  then have "unat a + unat (me_size b) \<le> unat (fst x)"
    using s by (auto simp: shapes_def in_order_append in_order_Cons)
  then show ?thesis using gap_not_joinable [of c d "fst x" cf "snd x"] c Cons by simp
qed simp

lemma gap_between:
  assumes s: "shapes (ps @ (a, b) # ss)"
  shows "ps = [] \<or> ss = [] \<or> \<not> joinable cf (last ps) (hd ss)"
proof (cases ss)
  case (Cons x xs)
  then have "unat a < unat (fst x)"
    using s by (auto simp: shapes_def in_order_append in_order_Cons shape_ok_def)
  then show ?thesis using gap_before [OF s, of "fst x" cf "snd x"] Cons by simp
qed simp

lemma hidden_no_joinable:
  assumes s: "shapes (ps @ (a, b) # ss)" and nj: "no_joinable cf (ps @ (a, b) # ss)" and f: "is_free b" "me_pad b = 0"
    and r: "range_ok a b start len"
  shows "no_joinable cf (ps @ hidden_before cf ps a b start @ hidden_after cf a b ss (start + len) @ ss)"
proof -
  let ?e = "start + len" and ?pre = "hidden_before cf ps a b start" and ?post = "hidden_after cf a b ss (start + len)"
  have sh: "shape_ok a b" using s by auto
  note P = hidden_pieces [OF sh f r]
  have A: "ps = [] \<or> \<not> (is_free (snd (last ps)) \<and> joinable cf (last ps) (a, b))"
    "ss = [] \<or> \<not> (is_free (snd (hd ss)) \<and> joinable cf (a, b) (hd ss))" "no_joinable cf ps" "no_joinable cf ss"
    using nj f by (auto simp: no_joinable_append no_joinable_Cons)
  have jl: "joinable cf x (a, b\<lparr>me_size := start - a\<rparr>) = joinable cf x (a, b)" for x by (rule joinable_left) simp_all
  have jr: "joinable cf (?e, cut_block b (?e - a)) y = joinable cf (a, b) y" for y by (rule joinable_right) simp_all
  have pp: "\<not> joinable cf (a, b\<lparr>me_size := start - a\<rparr>) (?e, w)"
    "ss = [] \<or> \<not> joinable cf (a, b\<lparr>me_size := start - a\<rparr>) (hd ss)" if "?pre \<noteq> []" for w
    using that P(1) [of a "b\<lparr>me_size := start - a\<rparr>" cf ps] P(3,4)
      gap_not_joinable [of a "b\<lparr>me_size := start - a\<rparr>" ?e cf w] gap_behind [OF s, of a "b\<lparr>me_size := start - a\<rparr>" cf]
    by (auto simp: hidden_before_def split: if_splits)
  have "unat a < unat ?e" using P(3,5) by simp
  note pe = gap_before [OF s this, of cf]
  consider "?pre = []" "?post = []" | "?pre = []" "?post = [(?e, cut_block b (?e - a))]"
    | "?pre = [(a, b\<lparr>me_size := start - a\<rparr>)]" "?post = []"
    | "?pre = [(a, b\<lparr>me_size := start - a\<rparr>)]" "?post = [(?e, cut_block b (?e - a))]"
  proof -
    have "?pre = [] \<or> ?pre = [(a, b\<lparr>me_size := start - a\<rparr>)]" "?post = [] \<or> ?post = [(?e, cut_block b (?e - a))]"
      by (simp_all add: hidden_before_def hidden_after_def)
    with that show ?thesis by blast
  qed
  then show ?thesis
    using A jl jr pe gap_between [OF s, of cf] pp by cases (simp_all add: no_joinable_append no_joinable_Cons f)
qed

lemma hidden_blocks_ok:
  assumes ok: "blocks_ok cf (ps @ (a, b) # ss)" and f: "is_free b" and r: "range_ok a b start len"
  shows "blocks_ok cf (ps @ hidden_before cf ps a b start @ hidden_after cf a b ss (start + len) @ ss)"
proof -
  let ?e = "start + len" and ?pre = "hidden_before cf ps a b start" and ?post = "hidden_after cf a b ss (start + len)"
  have s: "shapes (ps @ (a, b) # ss)" and st: "\<forall>(c, d) \<in> set (ps @ (a, b) # ss). state_ok d"
    and nj: "no_joinable cf (ps @ (a, b) # ss)" using ok by (auto simp: blocks_ok_def shapes_def)
  have sh: "shape_ok a b" and pb: "me_pad b = 0" using s st f by (auto simp: state_ok_def)
  note P = hidden_pieces [OF sh f pb r]
  have "in_order ?pre" "in_order ?post" by (simp_all add: hidden_before_def hidden_after_def in_order_Cons)
  then have o: "in_order (?pre @ ?post)" using P(1) [of _ _ cf ps] P(2) [of _ _ cf ss] P(3) by (fastforce simp: in_order_append)
  have rg: "\<forall>(c, d) \<in> set (?pre @ ?post). unat a \<le> unat c \<and> unat c + unat (me_size d) \<le> unat a + unat (me_size b)"
    using P(1) [of _ _ cf ps] P(2) [of _ _ cf ss] P(3-5) by fastforce
  have "in_order (ps @ (a, b) # ss)" using s by (simp add: shapes_def)
  from in_order_replace [OF this o rg] have "in_order (ps @ ?pre @ ?post @ ss)" by simp
  with hidden_no_joinable [OF s nj f pb r] show ?thesis
    using s st P(1) [of _ _ cf ps] P(2) [of _ _ cf ss] by (fastforce simp: blocks_ok_def shapes_def)
qed

text \<open>Blocks lie in the pages of their segment list, unless pages are never given back.\<close>

definition placed :: "malloc_conf \<Rightarrow> eblocks \<Rightarrow> bool" where
  "placed cf xs \<longleftrightarrow>
     (\<forall>(c, d) \<in> set xs. mc_legacy_mem cf \<or> ml_external (mc_msl cf (me_msl d)) \<or>
        msl_ok (mc_msl cf (me_msl d)) \<and> in_msl (mc_msl cf (me_msl d)) c d)"

lemma placed_simps [simp]:
  "placed cf []" "placed cf (xs @ ys) \<longleftrightarrow> placed cf xs \<and> placed cf ys"
  "placed cf ((c, d) # xs) \<longleftrightarrow> (mc_legacy_mem cf \<or> ml_external (mc_msl cf (me_msl d)) \<or>
     msl_ok (mc_msl cf (me_msl d)) \<and> in_msl (mc_msl cf (me_msl d)) c d) \<and> placed cf xs"
  by (auto simp: placed_def)

lemma placed_joined:
  assumes "shape_ok a b" "shape_ok c d" "joinable cf (a, b) (c, d)" "placed cf [(a, b), (c, d)]"
  shows "placed cf [(a, joined b d)]"
proof -
  have c: "c = a + me_size b" using assms(3) by (simp add: joinable_def)
  note N = joined_numbers [OF assms(1,2) c]
  have "in_msl ml a (joined b d)" if "in_msl ml a b" "in_msl ml c d" for ml
    unfolding in_msl_def
  proof (intro conjI allI impI)
    fix i
    assume i: "page_at ml i < unat a + unat (me_size (joined b d)) \<and> unat a < page_at ml (Suc i)"
    show "mapped ml i"
    proof (cases "page_at ml i < unat a + unat (me_size b)")
      case True
      then show ?thesis using that(1) i by (simp add: in_msl_def)
    next
      case False
      have "0 < unat (ml_page_sz ml)" using i by (cases "unat (ml_page_sz ml)") (use that(1) in \<open>auto simp: in_msl_def\<close>)
      then have "page_at ml i < unat c + unat (me_size d) \<and> unat c < page_at ml (Suc i)" using i False N by simp
      then show ?thesis using that(2) by (simp add: in_msl_def)
    qed
  qed (use that N in \<open>auto simp: in_msl_def\<close>)
  then show ?thesis using assms(3,4) by (auto simp: joinable_def)
qed

lemma placed_free_blocks:
  assumes s: "shapes (ps @ (a, b) # ss)" and p: "placed cf (ps @ (a, b) # ss)"
    and e: "free_blocks cf ps a b ss = ps2 @ (a2, b2) # ss2"
    and n: "no_joinable cf ps" "no_joinable cf ss" "is_free b"
  shows "placed cf (ps2 @ (a2, b2) # ss2)"
proof -
  obtain b1 ss1 where m1: "merge_next cf a b ss = (b1, ss1)" by force
  obtain ps3 a3 b3 where m2: "merge_prev cf ps a b1 = (ps3, a3, b3)" by (metis prod_cases3)
  have 1: "placed cf (ps @ (a, b1) # ss1) \<and> shape_ok a b1"
    using m1
  proof (cases rule: merge_next_cases [of cf a b ss])
    case 1
    then show ?thesis using m1 s p by auto
  next
    case (2 d ss')
    have sh: "shape_ok a b" "shape_ok (a + me_size b) d" using s 2(1) by auto
    show ?thesis using placed_joined [OF sh 2(3)] joined_numbers(3) [OF sh refl] p m1 2 by auto
  qed
  have "placed cf (ps3 @ (a3, b3) # ss1)"
    using m2
  proof (cases rule: merge_prev_cases [of cf ps a b1])
    case 1
    then show ?thesis using m2 \<open>placed cf (ps @ (a, b1) # ss1) \<and> shape_ok a b1\<close> by auto
  next
    case (2 qs l e)
    have sh: "shape_ok l e" "shape_ok a b1" using s 2(1) 1 by (auto simp: shapes_def)
    show ?thesis using placed_joined [OF sh 2(4)] 1 m2 2 by auto
  qed
  then have P: "placed cf (ps3 @ (a3, b3\<lparr>me_state := ELEM_FREE, me_pad := 0\<rparr>) # ss1)" by (simp add: in_msl_def)
  have fb: "free_blocks cf ps a b ss = ps3 @ (a3, b3\<lparr>me_state := ELEM_FREE, me_pad := 0\<rparr>) # ss1"
    by (simp add: free_blocks_def m1 m2)
  show ?thesis using P unfolding e [symmetric] fb .
qed

text \<open>Hiding a range of a free block keeps the invariant and the areas; no block reaches into the range.\<close>

lemma release_range_ok:
  assumes H: "heap_ok cf h (ps @ (a, b) # ss)" and f: "is_free b" and pl: "placed cf (ps @ (a, b) # ss)"
    and rg: "range_ok a b start len"
  obtains h1 h' xs' where "malloc_elem_free_list_remove a h = Some h1" "malloc_elem_hide_region cf a start len h1 = Some h'"
    "heap_ok cf h' xs'" "placed cf xs'" "areas xs' = areas (ps @ (a, b) # ss)"
    "\<forall>(c, d) \<in> set xs'. unat c + unat (me_size d) \<le> unat start \<or> unat start + unat len \<le> unat c"
    "xs' = ps @ hidden_before cf ps a b start @ hidden_after cf a b ss (start + len) @ ss"
proof -
  let ?ys = "ps @ (a, b) # ss"
  have L: "heap_links h ?ys" and l: "listed (mh_free h) ?ys" and ok: "blocks_ok cf ?ys" and pads: "pads_ok h ?ys"
    using H by (auto simp: heap_ok_def heap_inv_def)
  have s: "shapes ?ys" and geo: "\<forall>(a, b) \<in> set ?ys. shape_ok a b \<and> state_ok b" "in_order ?ys"
    using ok by (auto simp: blocks_ok_def shapes_def)
  have sh: "shape_ok a b" and pb: "me_pad b = 0" using s geo(1) f by (auto simp: state_ok_def)
  have D: "distinct (map fst ?ys)" using L by (simp add: heap_links_def)
  let ?h1 = "h\<lparr>mh_free := map (remove1 a) (mh_free h)\<rparr>"
  note rm = free_list_remove_ok [OF l D f]
  have L1: "heap_links ?h1 ?ys" and l1: "listed (mh_free ?h1) (ps @ ss)" using L rm(2) by simp_all
  let ?pre = "hidden_before cf ps a b start" and ?post = "hidden_after cf a b ss (start + len)"
  let ?zs = "ps @ ?pre @ ?post @ ss"
  obtain h2 where h2: "malloc_elem_hide_region cf a start len ?h1 = Some h2" "heap_links h2 ?zs" "listed (mh_free h2) ?zs"
    "\<forall>x. x \<notin> addrs ?ys \<longrightarrow> \<not> inside x a b \<longrightarrow> mh_elems h2 x = mh_elems ?h1 x"
    "mh_alloc_count h2 = mh_alloc_count ?h1" "mh_total_size h2 = mh_total_size ?h1"
    by (rule hide_region_ok [OF L1 l1 f s rg])
  have z: "areas ?zs = areas ?ys" "filter (\<lambda>x. is_busy (snd x)) ?zs = filter (\<lambda>x. is_busy (snd x)) ?ys"
    using f by (simp_all add: hidden_before_def hidden_after_def)
  have okz: "blocks_ok cf ?zs" by (rule hidden_blocks_ok [OF ok f rg])
  have "frame_off ?ys a b h h2" using h2(4) by (simp add: frame_off_def)
  from pads_frame [OF geo pads this] D have "pads_ok h2 ps" "pads_ok h2 ss" by auto
  then have "pads_ok h2 ?zs" using f by (simp add: hidden_before_def hidden_after_def)
  then have "heap_ok cf h2 ?zs"
    using h2 okz H z(2) by (simp add: heap_ok_def heap_inv_def)
  moreover note P = hidden_pieces [OF sh f pb rg]
  have "placed cf ?zs"
    using pl P(1) [of a "b\<lparr>me_size := start - a\<rparr>" cf ps] P(2) [of "start + len" "cut_block b (start + len - a)" cf ss] P(3-5)
    by (auto simp: hidden_before_def hidden_after_def in_msl_def split: if_splits)
  moreover have "unat c + unat (me_size d) \<le> unat start \<or> unat start + unat len \<le> unat c" if cd: "(c, d) \<in> set ?zs" for c d
  proof -
    have e: "unat (start + len) = unat start + unat len" "unat start + unat len \<le> unat a + unat (me_size b)"
      using rg sh by (auto simp: range_ok_def shape_ok_def intro!: unat_add_no_overflow)
    consider "(c, d) \<in> set ps" | "(c, d) \<in> set ?pre" | "(c, d) \<in> set ?post" | "(c, d) \<in> set ss" using cd by auto
    then show ?thesis
    proof cases
      case 1
      then have "unat c + unat (me_size d) \<le> unat a" using s by auto
      then show ?thesis using P(5) by simp
    next
      case 2
      then show ?thesis using P(1) by simp
    next
      case 3
      then show ?thesis using P(2) e by simp
    next
      case 4
      then have "unat a + unat (me_size b) \<le> unat c" using s by auto
      then show ?thesis using e by simp
    qed
  qed
  ultimately show ?thesis using that [OF rm(1) h2(1), of ?zs] z(1) by blast
qed

text \<open>The steps of freeing a block, from heap \<open>h\<close> to heap \<open>h'\<close> with the blocks \<open>xs'\<close>.\<close>

definition free_steps ::
    "malloc_conf \<Rightarrow> eblocks \<Rightarrow> eptr \<Rightarrow> elem_block \<Rightarrow> eblocks \<Rightarrow> (u64 \<times> u64) option \<Rightarrow> malloc_heap \<Rightarrow> malloc_heap \<Rightarrow> eblocks \<Rightarrow> bool" where
  "free_steps cf ps a b ss pages h h' xs' \<longleftrightarrow>
     (\<exists>h1 ps2 a2 b2 ss2 h2. upd_elem a (\<lambda>E. E\<lparr>me_state := ELEM_FREE\<rparr>) h = Some h1 \<and> malloc_elem_free cf a h1 = Some (a2, h2) \<and>
        free_blocks cf ps a (b\<lparr>me_state := ELEM_FREE\<rparr>) ss = ps2 @ (a2, b2) # ss2 \<and> is_free b2 \<and>
        heap_ok cf h2 (ps2 @ (a2, b2) # ss2) \<and>
        (case pages of
           None \<Rightarrow> h' = h2 \<and> xs' = ps2 @ (a2, b2) # ss2
         | Some (start, len) \<Rightarrow> range_ok a2 b2 start len \<and>
             (\<exists>h3 h4. malloc_elem_free_list_remove a2 h2 = Some h3 \<and> malloc_elem_hide_region cf a2 start len h3 = Some h4 \<and>
                h' = h4\<lparr>mh_total_size := mh_total_size h4 - len\<rparr> \<and>
                xs' = ps2 @ hidden_before cf ps2 a2 b2 start @ hidden_after cf a2 b2 ss2 (start + len) @ ss2)))"

text \<open>
  A busy block is freed: the return value is 0, its area is gone and all other areas stay, whether or not pages go back.
  Pages given back hold no part of any block.
\<close>

lemma malloc_heap_free_ok:
  assumes H: "heap_ok cf h (ps @ (a, b) # ss)" and busy: "is_busy b" and pl: "placed cf (ps @ (a, b) # ss)"
  obtains pages h' xs' where "malloc_heap_free cf a h = Some (0, pages, h')" "heap_ok cf h' xs'" "placed cf xs'"
    "areas xs' = areas (ps @ (a, b) # ss) - {area a b}"
    "pages = None \<longrightarrow> xs' = free_blocks cf ps a (b\<lparr>me_state := ELEM_FREE\<rparr>) ss"
    "\<forall>start len. pages = Some (start, len) \<longrightarrow>
       0 < unat len \<and> (\<forall>(c, d) \<in> set xs'. unat c + unat (me_size d) \<le> unat start \<or> unat start + unat len \<le> unat c)"
    "free_steps cf ps a b ss pages h h' xs'"
proof -
  let ?xs = "ps @ (a, b) # ss" and ?b = "b\<lparr>me_state := ELEM_FREE\<rparr>" and ?ml = "mc_msl cf (me_msl b)"
  have L: "heap_links h ?xs" using H by (simp add: heap_ok_def heap_inv_def)
  have an: "a \<noteq> 0" using L by (simp add: heap_links_def)
  obtain h1 ps2 a2 b2 ss2 h2 where h2:
    "upd_elem a (\<lambda>E. E\<lparr>me_state := ELEM_FREE\<rparr>) h = Some h1" "malloc_elem_free cf a h1 = Some (a2, h2)"
    "heap_ok cf h2 (ps2 @ (a2, b2) # ss2)" "is_free b2" "free_blocks cf ps a ?b ss = ps2 @ (a2, b2) # ss2"
    "areas (ps2 @ (a2, b2) # ss2) = areas ?xs - {area a b}" "me_msl b2 = me_msl b"
    by (rule free_elem_ok [OF H busy])
  let ?ys = "ps2 @ (a2, b2) # ss2"
  have ok: "blocks_ok cf ?xs" and I2: "heap_inv cf h2 ?ys" using H h2(3) by (auto simp: heap_ok_def heap_inv_def)
  have s: "shapes (ps @ (a, ?b) # ss)" using ok by (auto simp: blocks_ok_def shapes_def shape_ok_def in_order_append in_order_Cons)
  have nj: "no_joinable cf ps" "no_joinable cf ss" using ok by (auto simp: blocks_ok_def no_joinable_append no_joinable_Cons)
  have "placed cf (ps @ (a, ?b) # ss)" using pl by (simp add: in_msl_def)
  then have pl2: "placed cf ?ys" by (rule placed_free_blocks [OF s _ h2(5) nj]) simp
  have L2: "heap_links h2 ?ys" and sh2: "shape_ok a2 b2" using I2 by (auto simp: heap_inv_def blocks_ok_def)
  have "mc_legacy_mem cf \<or> ml_external ?ml \<or> msl_ok ?ml \<and> in_msl ?ml a2 b2" using pl2 h2(7) by simp
  from pages_to_free_ok [OF sh2 this] obtain r where
    r: "pages_to_free cf ?ml a2 (mk_elem b2 (last_of 0 ps2) (first_of ss2 0)) = Some r"
    "\<forall>start len. r = Some (start, len) \<longrightarrow> range_ok a2 b2 start len" by blast
  have m: "mh_elems h a = Some (mk_elem b (last_of 0 ps) (first_of ss 0))" by (rule links_elem [OF L])
  show ?thesis
  proof (cases r)
    case None
    then have "malloc_heap_free cf a h = Some (0, None, h2)"
      using an busy r(1) h2(1,2) links_elem [OF L2] by (simp add: malloc_heap_free_def m)
    moreover have "free_steps cf ps a b ss None h h2 ?ys" using h2 by (auto simp: free_steps_def)
    ultimately show ?thesis using that [OF _ h2(3) pl2 h2(6)] h2(5) by simp
  next
    case (Some sl)
    then obtain start len where sl: "r = Some (start, len)" by (cases sl) auto
    have rg: "range_ok a2 b2 start len" using r(2) sl by blast
    obtain h3 h4 xs' where h4: "malloc_elem_free_list_remove a2 h2 = Some h3" "malloc_elem_hide_region cf a2 start len h3 = Some h4"
      "heap_ok cf h4 xs'" "placed cf xs'" "areas xs' = areas ?ys"
      "\<forall>(c, d) \<in> set xs'. unat c + unat (me_size d) \<le> unat start \<or> unat start + unat len \<le> unat c"
      "xs' = ps2 @ hidden_before cf ps2 a2 b2 start @ hidden_after cf a2 b2 ss2 (start + len) @ ss2"
      by (rule release_range_ok [OF h2(3,4) pl2 rg])
    let ?h5 = "h4\<lparr>mh_total_size := mh_total_size h4 - len\<rparr>"
    have "malloc_heap_free cf a h = Some (0, Some (start, len), ?h5)"
      using an busy r(1) sl h2(1,2) links_elem [OF L2] h4(1,2) by (simp add: malloc_heap_free_def m)
    moreover have "heap_ok cf ?h5 xs'"
      using h4(3) by (simp add: heap_ok_def heap_inv_def heap_links_def pads_ok_def)
    moreover have "0 < unat len" using rg by (simp add: range_ok_def)
    moreover have "free_steps cf ps a b ss (Some (start, len)) h ?h5 xs'"
      unfolding free_steps_def using h2(1-5) h4(1,2,7) rg by (auto intro!: exI)
    ultimately show ?thesis using that [of "Some (start, len)" ?h5 xs'] h4(4-6) h2(6) by simp
  qed
qed

end
