(* ===== verification/MallocConfig.thy ===== *)
theory MallocConfig
  imports MallocHeap
begin

text \<open>
  All heaps of a process (the rest of \<open>malloc_heap.c\<close>): the one of each NUMA socket and the external ones, lists of memory segments,
  which heap serves a request, and growing a heap by pages. The primary process is modelled. What the system and the
  other processes answer is the record \<open>malloc_env\<close>. Locks are left out, calls exclude each other.
\<close>

section \<open>The state\<close>

text \<open>\<open>struct rte_mem_config\<close>, as far as the heaps need it: \<open>RTE_MAX_HEAPS\<close> heaps and \<open>RTE_MAX_MEMSEG_LISTS\<close> lists.\<close>

record mem_config =
  mg_heaps :: "malloc_heap list"
  mg_memsegs :: "memseg_list list"
  mg_next_socket_id :: c_int

text \<open>
  Settings, the NUMA nodes (\<open>rte_socket_id_by_idx\<close>), the socket of the calling thread (\<open>malloc_get_numa_socket\<close>), \<open>rte_mem_virt2iova\<close>,
  and the system: \<open>en_alloc_segs\<close> maps a number of pages of a size on a socket and answers their list, the index of the first and
  the new lists (\<open>eal_memalloc_alloc_seg_bulk\<close>), \<open>en_free_seg\<close> unmaps one (\<open>eal_memalloc_free_seg\<close>), \<open>en_alloc_allowed\<close>
  is \<open>eal_memalloc_mem_alloc_validate\<close>, \<open>en_dma_ok\<close> the check of the DMA mask, \<open>en_sync_ok\<close> whether the other processes follow,
  \<open>en_fbarray_err\<close> is 0 when arrays in shared memory can be made and removed, and the \<open>rte_errno\<close> otherwise.
\<close>

record malloc_env =
  en_match_allocations :: bool
  en_legacy_mem :: bool
  en_hugepages :: bool
  en_iova_va :: bool
  en_sockets :: "c_int list"
  en_numa_socket :: c_int
  en_virt2iova :: "u64 \<Rightarrow> u64"
  en_alloc_segs :: "memseg_list list \<Rightarrow> nat \<Rightarrow> u64 \<Rightarrow> c_int \<Rightarrow> (nat \<times> nat \<times> memseg_list list) option"
  en_free_seg :: "memseg_list list \<Rightarrow> nat \<Rightarrow> nat \<Rightarrow> memseg_list list"
  en_alloc_allowed :: "c_int \<Rightarrow> u64 \<Rightarrow> bool"
  en_dma_ok :: "memseg_list list \<Rightarrow> bool"
  en_sync_ok :: bool
  en_fbarray_err :: c_int

abbreviation (input) SOCKET_ID_ANY :: c_int where "SOCKET_ID_ANY \<equiv> - 1"
abbreviation (input) RTE_MAX_NUMA_NODES :: c_int where "RTE_MAX_NUMA_NODES \<equiv> 8"
abbreviation (input) RTE_BAD_IOVA :: u64 where "RTE_BAD_IOVA \<equiv> - 1"

definition socket_id_by_idx :: "malloc_env \<Rightarrow> nat \<Rightarrow> c_int" where
  "socket_id_by_idx env idx = (if idx \<ge> length (en_sockets env) then - 1 else en_sockets env ! idx)"

section \<open>Physically contiguous memory\<close>

text \<open>The pages behind the first one, by the page map of the process and by their segments.\<close>

fun contig_by_pagemap :: "malloc_env \<Rightarrow> u64 \<Rightarrow> nat \<Rightarrow> u64 \<Rightarrow> u64 \<Rightarrow> bool" where
  "contig_by_pagemap env pgsz 0 addr expected = True"
| "contig_by_pagemap env pgsz (Suc n) addr expected =
     (if en_virt2iova env addr \<noteq> expected then False
      else contig_by_pagemap env pgsz n (addr + pgsz) (expected + pgsz))"

fun contig_by_segs :: "memseg list \<Rightarrow> u64 \<Rightarrow> nat list \<Rightarrow> u64 \<Rightarrow> bool" where
  "contig_by_segs segs pgsz [] expected = True"
| "contig_by_segs segs pgsz (cur_seg # is) expected =
     (if sg_iova (segs ! cur_seg) \<noteq> expected then False else contig_by_segs segs pgsz is (expected + pgsz))"

text \<open>Only asked for memory inside the list, whose pages have segments.\<close>

definition eal_memalloc_is_contig :: "malloc_env \<Rightarrow> memseg_list \<Rightarrow> u64 \<Rightarrow> u64 \<Rightarrow> bool" where
  "eal_memalloc_is_contig env msl start len =
     (let pgsz = ml_page_sz msl;
          end_pt = start + len;
          aligned_start = RTE_ALIGN_FLOOR start pgsz;
          aligned_end = RTE_ALIGN_CEIL end_pt pgsz
      in if en_iova_va env \<and> \<not> ml_external msl then True
         else if en_legacy_mem env then True
         else if aligned_end - aligned_start = pgsz then True
         else if \<not> en_hugepages env then
           contig_by_pagemap env pgsz (unat ((aligned_end - (aligned_start + pgsz)) div pgsz)) (aligned_start + pgsz)
             (en_virt2iova env aligned_start + pgsz)
         else
           let start_seg = unat ((aligned_start - ml_base_va msl) div pgsz);
               end_seg = unat ((aligned_end - ml_base_va msl) div pgsz);
               cur = sg_iova (ml_segs msl ! start_seg)
           in if cur = RTE_BAD_IOVA then False
              else contig_by_segs (ml_segs msl) pgsz [start_seg + 1..<end_seg] (cur + pgsz))"

text \<open>The settings of a heap's operations in this state.\<close>

definition conf_of :: "malloc_env \<Rightarrow> mem_config \<Rightarrow> malloc_conf" where
  "conf_of env cfg =
     \<lparr>mc_match_allocations = en_match_allocations env, mc_legacy_mem = en_legacy_mem env,
      mc_is_contig = (\<lambda>i. eal_memalloc_is_contig env (mg_memsegs cfg ! i)), mc_msl = (\<lambda>i. mg_memsegs cfg ! i)\<rparr>"

section \<open>The biggest element\<close>

text \<open>The loop over the pages of an element. A start behind the end of the list has no segment; the code reads it through NULL.\<close>

definition seg_index :: "u64 \<Rightarrow> memseg_list \<Rightarrow> nat option" where
  "seg_index addr msl =
     (case virt2memseg addr msl of None \<Rightarrow> None | Some _ \<Rightarrow> Some (unat ((addr - ml_base_va msl) div ml_page_sz msl)))"

partial_function (option) iova_contig_loop ::
    "memseg_list \<Rightarrow> u64 \<Rightarrow> u64 \<Rightarrow> u64 \<Rightarrow> nat \<Rightarrow> u64 \<Rightarrow> u64 \<Rightarrow> u64 \<Rightarrow> u64 option" where
  "iova_contig_loop msl align data_end cur_page ms contig_seg_start expected_iova best =
     (if \<not> cur_page < data_end then Some best
      else do {
        let page_end = cur_page + ml_page_sz msl;
        let cur_seg_end = (if page_end < data_end then page_end else data_end);
        guard (ms < length (ml_segs msl));
        if sg_iova (ml_segs msl ! ms) \<noteq> expected_iova then do {
          let contig_seg_start = RTE_ALIGN_CEIL cur_page align;
          ms \<leftarrow> seg_index contig_seg_start msl;
          let seg = ml_segs msl ! ms;
          iova_contig_loop msl align data_end (sg_addr seg) ms contig_seg_start (sg_iova seg) best }
        else do {
          let cur = cur_seg_end - contig_seg_start;
          iova_contig_loop msl align data_end page_end (ms + 1) contig_seg_start
            (sg_iova (ml_segs msl ! ms) + ml_page_sz msl) (if cur > best then cur else best) } })"

definition malloc_elem_find_max_iova_contig ::
    "malloc_env \<Rightarrow> malloc_conf \<Rightarrow> eptr \<Rightarrow> u64 \<Rightarrow> malloc_heap \<Rightarrow> u64 option" where
  "malloc_elem_find_max_iova_contig env cf elem align h = do {
     E \<leftarrow> mh_elems h elem;
     let msl = mc_msl cf (me_msl E);
     let page_sz = ml_page_sz msl;
     let data_start = elem + MALLOC_ELEM_HEADER_LEN;
     let data_end = elem + (me_size E - MALLOC_ELEM_TRAILER_LEN);
     let contig_seg_start = RTE_ALIGN_CEIL data_start align;
     if contig_seg_start > data_end then Some 0
     else if \<not> ml_external msl \<and> (en_iova_va env \<or> en_legacy_mem env \<and> en_hugepages env) then
       Some (data_end - contig_seg_start)
     else do {
       let cur_page = RTE_ALIGN_FLOOR contig_seg_start page_sz;
       ms \<leftarrow> seg_index cur_page msl;
       let page_end = cur_page + page_sz;
       let cur_seg_end = (if page_end < data_end then page_end else data_end);
       iova_contig_loop msl align data_end page_end (ms + 1) contig_seg_start
         (sg_iova (ml_segs msl ! ms) + page_sz) (cur_seg_end - contig_seg_start - MALLOC_ELEM_TRAILER_LEN) } }"

text \<open>What an element can give, nothing when it is not considered.\<close>

definition elem_room :: "malloc_env \<Rightarrow> malloc_conf \<Rightarrow> u32 \<Rightarrow> u64 \<Rightarrow> bool \<Rightarrow> eptr \<Rightarrow> malloc_heap \<Rightarrow> u64 option option" where
  "elem_room env cf flags align contig elem h = do {
     E \<leftarrow> mh_elems h elem;
     if flags AND RTE_MEMZONE_SIZE_HINT_ONLY = 0 \<and> \<not> check_hugepage_sz flags (ml_page_sz (mc_msl cf (me_msl E)))
     then Some None
     else if contig then do {
       n \<leftarrow> malloc_elem_find_max_iova_contig env cf elem align h;
       Some (Some n) }
     else do {
       let data_start = elem + MALLOC_ELEM_HEADER_LEN;
       let data_end = elem + (me_size E - MALLOC_ELEM_TRAILER_LEN);
       let aligned = RTE_ALIGN_CEIL data_start align;
       Some (if aligned \<ge> data_end then None else Some (data_end - aligned)) } }"

fun biggest_in ::
    "malloc_env \<Rightarrow> malloc_conf \<Rightarrow> u32 \<Rightarrow> u64 \<Rightarrow> bool \<Rightarrow> malloc_heap \<Rightarrow> eptr list \<Rightarrow> eptr \<times> u64 \<Rightarrow> (eptr \<times> u64) option" where
  "biggest_in env cf flags align contig h [] r = Some r"
| "biggest_in env cf flags align contig h (elem # es) (max_elem, max_size) = do {
     room \<leftarrow> elem_room env cf flags align contig elem h;
     biggest_in env cf flags align contig h es
       (case room of None \<Rightarrow> (max_elem, max_size)
        | Some cur_size \<Rightarrow> if cur_size > max_size then (elem, cur_size) else (max_elem, max_size)) }"

definition find_biggest_element ::
    "malloc_env \<Rightarrow> malloc_conf \<Rightarrow> u32 \<Rightarrow> u64 \<Rightarrow> bool \<Rightarrow> malloc_heap \<Rightarrow> (eptr \<times> u64) option" where
  "find_biggest_element env cf flags align contig h =
     biggest_in env cf flags align contig h (concat (mh_free h)) (0, 0)"

definition heap_alloc_biggest ::
    "malloc_env \<Rightarrow> malloc_conf \<Rightarrow> u32 \<Rightarrow> u64 \<Rightarrow> bool \<Rightarrow> malloc_heap \<Rightarrow> (u64 \<times> malloc_heap) option" where
  "heap_alloc_biggest env cf flags align contig h = do {
     let align = CACHE_LINE_ROUNDUP align;
     (elem, sz) \<leftarrow> find_biggest_element env cf flags align contig h;
     if elem \<noteq> 0 then do {
       (elem, h) \<leftarrow> malloc_elem_alloc cf elem sz (ucast align) 0 contig h;
       Some (elem + MALLOC_ELEM_HEADER_LEN, h\<lparr>mh_alloc_count := mh_alloc_count h + 1\<rparr>) }
     else Some (0, h) }"

section \<open>Growing a heap\<close>

fun heap_search :: "(malloc_heap \<Rightarrow> bool) \<Rightarrow> nat \<Rightarrow> malloc_heap list \<Rightarrow> nat option" where
  "heap_search P i [] = None"
| "heap_search P i (h # hs) = (if P h then Some i else heap_search P (i + 1) hs)"

definition malloc_socket_to_heap_id :: "u32 \<Rightarrow> mem_config \<Rightarrow> nat option" where
  "malloc_socket_to_heap_id socket cfg = heap_search (\<lambda>h. mh_socket_id h = socket) 0 (mg_heaps cfg)"

abbreviation set_heap :: "nat \<Rightarrow> malloc_heap \<Rightarrow> mem_config \<Rightarrow> mem_config" where
  "set_heap i h cfg \<equiv> cfg\<lparr>mg_heaps := (mg_heaps cfg)[i := h]\<rparr>"

fun virt2memseg_list :: "u64 \<Rightarrow> nat \<Rightarrow> memseg_list list \<Rightarrow> nat option" where
  "virt2memseg_list addr i [] = None"
| "virt2memseg_list addr i (msl # msls) =
     (if addr \<ge> ml_base_va msl \<and> addr < ml_base_va msl + ml_len msl then Some i
      else virt2memseg_list addr (i + 1) msls)"

text \<open>Memory that comes in at the start: a run of pages of a list that is not external.\<close>

definition malloc_add_seg :: "malloc_env \<Rightarrow> nat \<Rightarrow> memseg \<Rightarrow> u64 \<Rightarrow> mem_config \<Rightarrow> (c_int \<times> mem_config) option" where
  "malloc_add_seg env msl_idx ms len cfg = do {
     let msl = mg_memsegs cfg ! msl_idx;
     if ml_external msl then Some (0, cfg)
     else (case malloc_socket_to_heap_id (word_of_int (ml_socket_id msl)) cfg of
         None \<Rightarrow> Some (- 1, cfg)
       | Some heap_idx \<Rightarrow> do {
           (_, h) \<leftarrow> malloc_heap_add_memory (conf_of env cfg) msl_idx (sg_addr ms) len (mg_heaps cfg ! heap_idx);
           Some (0, set_heap heap_idx (h\<lparr>mh_total_size := mh_total_size h + len\<rparr>) cfg) }) }"

text \<open>Unmapping pages \<open>idx, ..., idx + n - 1\<close> of a list.\<close>

definition free_segs :: "malloc_env \<Rightarrow> nat \<Rightarrow> nat \<Rightarrow> nat \<Rightarrow> memseg_list list \<Rightarrow> memseg_list list" where
  "free_segs env msl idx n segs = fold (\<lambda>i segs. en_free_seg env segs msl i) [idx..<idx + n] segs"

definition rollback_expand_heap ::
    "malloc_env \<Rightarrow> nat \<Rightarrow> nat \<Rightarrow> nat \<Rightarrow> nat \<Rightarrow> eptr \<Rightarrow> u64 \<Rightarrow> u64 \<Rightarrow> mem_config \<Rightarrow> mem_config option" where
  "rollback_expand_heap env i msl idx n_segs elem map_addr map_len cfg = do {
     cfg \<leftarrow> (if elem \<noteq> 0 then do {
         h \<leftarrow> malloc_elem_free_list_remove elem (mg_heaps cfg ! i);
         h \<leftarrow> malloc_elem_hide_region (conf_of env cfg) elem map_addr map_len h;
         Some (set_heap i h cfg) }
       else Some cfg);
     Some (cfg\<lparr>mg_memsegs := free_segs env msl idx n_segs (mg_memsegs cfg)\<rparr>) }"

text \<open>The new element with its first page, nothing when it failed.\<close>

definition alloc_pages_on_heap ::
    "malloc_env \<Rightarrow> nat \<Rightarrow> u64 \<Rightarrow> u64 \<Rightarrow> c_int \<Rightarrow> u32 \<Rightarrow> u64 \<Rightarrow> u64 \<Rightarrow> bool \<Rightarrow> nat \<Rightarrow> mem_config \<Rightarrow>
     ((eptr \<times> nat \<times> nat) option \<times> mem_config) option" where
  "alloc_pages_on_heap env i pg_sz elt_size socket flags align bound contig n_segs cfg = do {
     let alloc_sz = pg_sz * of_nat n_segs;
     if \<not> en_alloc_allowed env socket (mh_total_size (mg_heaps cfg ! i) + alloc_sz) then Some (None, cfg)
     else (case en_alloc_segs env (mg_memsegs cfg) n_segs pg_sz socket of
         None \<Rightarrow> Some (None, cfg)
       | Some (list_idx, idx, segs) \<Rightarrow> do {
           let cfg = cfg\<lparr>mg_memsegs := segs\<rparr>;
           let map_addr = sg_addr (ml_segs (segs ! list_idx) ! idx);
           msl \<leftarrow> virt2memseg_list map_addr 0 segs;
           if contig \<and> \<not> eal_memalloc_is_contig env (segs ! msl) map_addr alloc_sz \<or> \<not> en_dma_ok env segs then do {
             cfg \<leftarrow> rollback_expand_heap env i list_idx idx n_segs 0 map_addr alloc_sz cfg;
             Some (None, cfg) }
           else do {
             (elem, h) \<leftarrow> malloc_heap_add_memory (conf_of env cfg) msl map_addr alloc_sz (mg_heaps cfg ! i);
             let cfg = set_heap i h cfg;
             ret \<leftarrow> find_suitable_element (conf_of env cfg) elt_size flags align bound contig h;
             if ret = 0 then do {
               cfg \<leftarrow> rollback_expand_heap env i list_idx idx n_segs elem map_addr alloc_sz cfg;
               Some (None, cfg) }
             else Some (Some (elem, list_idx, idx), cfg) } }) }"

definition try_expand_heap_primary ::
    "malloc_env \<Rightarrow> nat \<Rightarrow> u64 \<Rightarrow> u64 \<Rightarrow> c_int \<Rightarrow> u32 \<Rightarrow> u64 \<Rightarrow> u64 \<Rightarrow> bool \<Rightarrow> mem_config \<Rightarrow> (c_int \<times> mem_config) option" where
  "try_expand_heap_primary env i pg_sz elt_size socket flags align bound contig cfg = do {
     let alloc_sz = RTE_ALIGN_CEIL (align + elt_size + MALLOC_ELEM_TRAILER_LEN) pg_sz;
     let n_segs = unat (ucast (alloc_sz div pg_sz) :: u32);
     (r, cfg) \<leftarrow> alloc_pages_on_heap env i pg_sz elt_size socket flags align bound contig n_segs cfg;
     (case r of
        None \<Rightarrow> Some (- 1, cfg)
      | Some (elem, list_idx, idx) \<Rightarrow>
          if \<not> en_sync_ok env then do {
            let map_addr = sg_addr (ml_segs (mg_memsegs cfg ! list_idx) ! idx);
            cfg \<leftarrow> rollback_expand_heap env i list_idx idx n_segs elem map_addr alloc_sz cfg;
            Some (- 1, cfg) }
          else
            let h = mg_heaps cfg ! i
            in Some (0, set_heap i (h\<lparr>mh_total_size := mh_total_size h + alloc_sz\<rparr>) cfg)) }"

text \<open>The page sizes of some lists, smallest first (\<open>qsort\<close> of the lists by page size), each once.\<close>

fun page_sizes :: "u64 \<Rightarrow> u64 list \<Rightarrow> u64 list" where
  "page_sizes prev_pg_sz [] = []"
| "page_sizes prev_pg_sz (pg_sz # szs) =
     (if prev_pg_sz \<noteq> pg_sz then pg_sz # page_sizes pg_sz szs else page_sizes prev_pg_sz szs)"

definition requested_msl :: "c_int \<Rightarrow> u32 \<Rightarrow> memseg_list \<Rightarrow> bool" where
  "requested_msl socket size_flags msl \<longleftrightarrow>
     ml_socket_id msl = socket \<and> ml_base_va msl \<noteq> 0 \<and> size_flags \<noteq> 0 \<and> check_hugepage_sz size_flags (ml_page_sz msl)"

definition other_msl :: "c_int \<Rightarrow> u32 \<Rightarrow> bool \<Rightarrow> memseg_list \<Rightarrow> bool" where
  "other_msl socket size_flags size_hint msl \<longleftrightarrow>
     ml_socket_id msl = socket \<and> ml_base_va msl \<noteq> 0 \<and>
     \<not> (size_flags \<noteq> 0 \<and> check_hugepage_sz size_flags (ml_page_sz msl)) \<and> (size_flags = 0 \<or> size_hint)"

text \<open>One page size after the other, until the heap has grown.\<close>

fun try_page_sizes ::
    "malloc_env \<Rightarrow> nat \<Rightarrow> u64 list \<Rightarrow> u64 \<Rightarrow> c_int \<Rightarrow> u32 \<Rightarrow> u64 \<Rightarrow> u64 \<Rightarrow> bool \<Rightarrow> mem_config \<Rightarrow> (c_int \<times> mem_config) option" where
  "try_page_sizes env i [] sz socket flags align bound contig cfg = Some (- 1, cfg)"
| "try_page_sizes env i (pg_sz # szs) sz socket flags align bound contig cfg = do {
     (ret, cfg) \<leftarrow> try_expand_heap_primary env i pg_sz sz socket flags align bound contig cfg;
     if ret = 0 then Some (0, cfg) else try_page_sizes env i szs sz socket flags align bound contig cfg }"

definition alloc_more_mem_on_socket ::
    "malloc_env \<Rightarrow> nat \<Rightarrow> u64 \<Rightarrow> c_int \<Rightarrow> u32 \<Rightarrow> u64 \<Rightarrow> u64 \<Rightarrow> bool \<Rightarrow> mem_config \<Rightarrow> (c_int \<times> mem_config) option" where
  "alloc_more_mem_on_socket env i sz socket flags align bound contig cfg = do {
     let size_hint = flags AND RTE_MEMZONE_SIZE_HINT_ONLY > 0;
     let size_flags = flags AND NOT RTE_MEMZONE_SIZE_HINT_ONLY;
     let requested_pg_sz = page_sizes 0 (sort (map ml_page_sz (filter (requested_msl socket size_flags) (mg_memsegs cfg))));
     let other_pg_sz = page_sizes 0 (sort (map ml_page_sz (filter (other_msl socket size_flags size_hint) (mg_memsegs cfg))));
     (ret, cfg) \<leftarrow> try_page_sizes env i requested_pg_sz sz socket size_flags align bound contig cfg;
     if ret = 0 then Some (0, cfg)
     else if other_pg_sz = [] then Some (- 1, cfg)
     else do {
       found \<leftarrow> find_suitable_element (conf_of env cfg) sz flags align bound contig (mg_heaps cfg ! i);
       if found \<noteq> 0 then Some (0, cfg)
       else try_page_sizes env i other_pg_sz sz socket flags align bound contig cfg } }"

section \<open>Serving a request\<close>

definition heap_alloc_on ::
    "malloc_env \<Rightarrow> nat \<Rightarrow> u64 \<Rightarrow> u32 \<Rightarrow> u64 \<Rightarrow> u64 \<Rightarrow> bool \<Rightarrow> mem_config \<Rightarrow> (u64 \<times> mem_config) option" where
  "heap_alloc_on env i sz flags align bound contig cfg = do {
     guard (i < length (mg_heaps cfg));
     (ret, h) \<leftarrow> heap_alloc (conf_of env cfg) sz flags align bound contig (mg_heaps cfg ! i);
     Some (ret, set_heap i h cfg) }"

definition malloc_heap_alloc_on_heap_id ::
    "malloc_env \<Rightarrow> u64 \<Rightarrow> nat \<Rightarrow> u32 \<Rightarrow> u64 \<Rightarrow> u64 \<Rightarrow> bool \<Rightarrow> mem_config \<Rightarrow> (u64 \<times> mem_config) option" where
  "malloc_heap_alloc_on_heap_id env sz heap_id flags align bound contig cfg = do {
     let align = (if align = 0 then 1 else align);
     if en_legacy_mem env then heap_alloc_on env heap_id sz flags align bound contig cfg
     else do {
       let socket_id = socket_id_by_idx env heap_id;
       let size_flags = flags AND NOT RTE_MEMZONE_SIZE_HINT_ONLY;
       let size_flags = (if socket_id < 0 then size_flags OR RTE_MEMZONE_SIZE_HINT_ONLY else size_flags);
       (ret, cfg) \<leftarrow> heap_alloc_on env heap_id sz size_flags align bound contig cfg;
       if ret \<noteq> 0 then Some (ret, cfg)
       else if socket_id < 0 then Some (0, cfg)
       else do {
         (more, cfg) \<leftarrow> alloc_more_mem_on_socket env heap_id sz socket_id flags align bound contig cfg;
         if more = 0 then heap_alloc_on env heap_id sz flags align bound contig cfg else Some (0, cfg) } } }"

text \<open>The loop over the other heaps.\<close>

fun alloc_on_others ::
    "malloc_env \<Rightarrow> u64 \<Rightarrow> nat \<Rightarrow> u32 \<Rightarrow> u64 \<Rightarrow> u64 \<Rightarrow> bool \<Rightarrow> nat list \<Rightarrow> mem_config \<Rightarrow> (u64 \<times> mem_config) option" where
  "alloc_on_others env sz heap_id flags align bound contig [] cfg = Some (0, cfg)"
| "alloc_on_others env sz heap_id flags align bound contig (i # is) cfg =
     (if i = heap_id then alloc_on_others env sz heap_id flags align bound contig is cfg
      else do {
        (ret, cfg) \<leftarrow> malloc_heap_alloc_on_heap_id env sz i flags align bound contig cfg;
        if ret \<noteq> 0 then Some (ret, cfg) else alloc_on_others env sz heap_id flags align bound contig is cfg })"

definition malloc_heap_alloc ::
    "malloc_env \<Rightarrow> u64 \<Rightarrow> c_int \<Rightarrow> u32 \<Rightarrow> u64 \<Rightarrow> u64 \<Rightarrow> bool \<Rightarrow> mem_config \<Rightarrow> (u64 \<times> mem_config) option" where
  "malloc_heap_alloc env sz socket_arg flags align bound contig cfg = do {
     if sz = 0 \<or> (align \<noteq> 0 \<and> \<not> rte_is_power_of_2 (ucast align)) then Some (0, cfg)
     else do {
       let socket_arg = (if \<not> en_hugepages env \<and> socket_arg < RTE_MAX_NUMA_NODES then SOCKET_ID_ANY else socket_arg);
       let socket = (if socket_arg = SOCKET_ID_ANY then en_numa_socket env else socket_arg);
       (case malloc_socket_to_heap_id (word_of_int socket) cfg of
          None \<Rightarrow> Some (0, cfg)
        | Some heap_id \<Rightarrow> do {
            (ret, cfg) \<leftarrow> malloc_heap_alloc_on_heap_id env sz heap_id flags align bound contig cfg;
            if ret \<noteq> 0 \<or> socket_arg \<noteq> SOCKET_ID_ANY then Some (ret, cfg)
            else alloc_on_others env sz heap_id flags align bound contig [0..<length (en_sockets env)] cfg }) } }"

definition heap_alloc_biggest_on_heap_id ::
    "malloc_env \<Rightarrow> nat \<Rightarrow> u32 \<Rightarrow> u64 \<Rightarrow> bool \<Rightarrow> mem_config \<Rightarrow> (u64 \<times> mem_config) option" where
  "heap_alloc_biggest_on_heap_id env i flags align contig cfg = do {
     guard (i < length (mg_heaps cfg));
     let align = (if align = 0 then 1 else align);
     (ret, h) \<leftarrow> heap_alloc_biggest env (conf_of env cfg) flags align contig (mg_heaps cfg ! i);
     Some (ret, set_heap i h cfg) }"

fun biggest_on_others ::
    "malloc_env \<Rightarrow> c_int \<Rightarrow> u32 \<Rightarrow> u64 \<Rightarrow> bool \<Rightarrow> nat list \<Rightarrow> mem_config \<Rightarrow> (u64 \<times> mem_config) option" where
  "biggest_on_others env socket flags align contig [] cfg = Some (0, cfg)"
| "biggest_on_others env socket flags align contig (i # is) cfg =
     (if socket_id_by_idx env i = socket then biggest_on_others env socket flags align contig is cfg
      else do {
        (ret, cfg) \<leftarrow> heap_alloc_biggest_on_heap_id env i flags align contig cfg;
        if ret \<noteq> 0 then Some (ret, cfg) else biggest_on_others env socket flags align contig is cfg })"

definition malloc_heap_alloc_biggest ::
    "malloc_env \<Rightarrow> c_int \<Rightarrow> u32 \<Rightarrow> u64 \<Rightarrow> bool \<Rightarrow> mem_config \<Rightarrow> (u64 \<times> mem_config) option" where
  "malloc_heap_alloc_biggest env socket_arg flags align contig cfg = do {
     if align \<noteq> 0 \<and> \<not> rte_is_power_of_2 (ucast align) then Some (0, cfg)
     else do {
       let socket_arg = (if \<not> en_hugepages env then SOCKET_ID_ANY else socket_arg);
       let socket = (if socket_arg = SOCKET_ID_ANY then en_numa_socket env else socket_arg);
       (case malloc_socket_to_heap_id (word_of_int socket) cfg of
          None \<Rightarrow> Some (0, cfg)
        | Some heap_id \<Rightarrow> do {
            (ret, cfg) \<leftarrow> heap_alloc_biggest_on_heap_id env heap_id flags align contig cfg;
            if ret \<noteq> 0 \<or> socket_arg \<noteq> SOCKET_ID_ANY then Some (ret, cfg)
            else biggest_on_others env socket flags align contig [0..<length (en_sockets env)] cfg }) } }"

section \<open>Giving pages back\<close>

definition malloc_heap_free_pages :: "malloc_env \<Rightarrow> u64 \<Rightarrow> u64 \<Rightarrow> mem_config \<Rightarrow> c_int \<times> mem_config" where
  "malloc_heap_free_pages env aligned_start aligned_len cfg =
     (case virt2memseg_list aligned_start 0 (mg_memsegs cfg) of
        None \<Rightarrow> (- 1, cfg)
      | Some i \<Rightarrow>
          let msl = mg_memsegs cfg ! i;
              n_segs = unat (ucast (aligned_len div ml_page_sz msl) :: u32);
              seg_idx = unat (ucast ((aligned_start - ml_base_va msl) div ml_page_sz msl) :: u32)
          in (0, cfg\<lparr>mg_memsegs := free_segs env i seg_idx n_segs (mg_memsegs cfg)\<rparr>))"

section \<open>External memory\<close>

text \<open>Errors are \<open>Inl\<close> of \<open>rte_errno\<close>. The array of the IO addresses has \<open>n\<close> entries.\<close>

fun empty_memseg_list :: "nat \<Rightarrow> memseg_list list \<Rightarrow> nat option" where
  "empty_memseg_list i [] = None"
| "empty_memseg_list i (msl # msls) = (if ml_base_va msl = 0 then Some i else empty_memseg_list (i + 1) msls)"

definition external_seg :: "u64 \<Rightarrow> u64 list option \<Rightarrow> u64 \<Rightarrow> nat \<Rightarrow> memseg" where
  "external_seg va_addr iova_addrs page_sz i =
     \<lparr>sg_addr = va_addr + of_nat i * page_sz, sg_len = page_sz, sg_flags = 0,
      sg_iova = (case iova_addrs of None \<Rightarrow> RTE_BAD_IOVA | Some is \<Rightarrow> is ! i)\<rparr>"

definition malloc_heap_create_external_seg ::
    "malloc_env \<Rightarrow> u64 \<Rightarrow> u64 list option \<Rightarrow> u32 \<Rightarrow> u64 \<Rightarrow> u32 \<Rightarrow> mem_config \<Rightarrow> c_int + nat \<times> mem_config" where
  "malloc_heap_create_external_seg env va_addr iova_addrs n_pages page_sz socket_id cfg =
     (case empty_memseg_list 0 (mg_memsegs cfg) of
        None \<Rightarrow> Inl ENOSPC
      | Some i \<Rightarrow>
          if en_fbarray_err env \<noteq> 0 then Inl (en_fbarray_err env)
          else Inr (i, cfg\<lparr>mg_memsegs := (mg_memsegs cfg)[i :=
              \<lparr>ml_base_va = va_addr, ml_page_sz = page_sz, ml_len = ucast n_pages * page_sz, ml_external = True,
               ml_segs = map (external_seg va_addr iova_addrs page_sz) [0..<unat n_pages],
               ml_socket_id = sint socket_id\<rparr>]\<rparr>))"

fun find_external_seg :: "u64 \<Rightarrow> u64 \<Rightarrow> nat \<Rightarrow> memseg_list list \<Rightarrow> nat option" where
  "find_external_seg va_addr len i [] = None"
| "find_external_seg va_addr len i (msl # msls) =
     (if ml_base_va msl \<noteq> 0 \<and> ml_base_va msl = va_addr \<and> ml_len msl = len then Some i
      else find_external_seg va_addr len (i + 1) msls)"

definition zero_msl :: memseg_list where
  "zero_msl = \<lparr>ml_base_va = 0, ml_page_sz = 0, ml_len = 0, ml_external = False, ml_segs = [], ml_socket_id = 0\<rparr>"

definition malloc_heap_destroy_external_seg :: "malloc_env \<Rightarrow> nat \<Rightarrow> mem_config \<Rightarrow> c_int \<times> mem_config" where
  "malloc_heap_destroy_external_seg env i cfg =
     (if en_fbarray_err env \<noteq> 0 then (- 1, cfg) else (0, cfg\<lparr>mg_memsegs := (mg_memsegs cfg)[i := zero_msl]\<rparr>))"

definition malloc_heap_add_external_memory :: "malloc_conf \<Rightarrow> nat \<Rightarrow> malloc_heap \<Rightarrow> malloc_heap option" where
  "malloc_heap_add_external_memory cf msl h = do {
     let ml = mc_msl cf msl;
     let h = erase_range (ml_base_va ml) (ml_len ml) h;
     (_, h) \<leftarrow> malloc_heap_add_memory cf msl (ml_base_va ml) (ml_len ml) h;
     Some (h\<lparr>mh_total_size := mh_total_size h + ml_len ml\<rparr>) }"

text \<open>The walk to the element at an address; nothing when it passes the address.\<close>

partial_function (option) walk_to :: "u64 \<Rightarrow> eptr \<Rightarrow> malloc_heap \<Rightarrow> eptr option option" where
  "walk_to va_addr elem h =
     (if elem \<noteq> 0 \<and> elem \<noteq> va_addr then do {
        E \<leftarrow> mh_elems h elem;
        if me_next E > va_addr then Some None else walk_to va_addr (me_next E) h }
      else Some (Some elem))"

definition destroy_elem :: "malloc_conf \<Rightarrow> eptr \<Rightarrow> u64 \<Rightarrow> malloc_heap \<Rightarrow> malloc_heap option" where
  "destroy_elem cf elem len h = do {
     h \<leftarrow> malloc_elem_free_list_remove elem h;
     h \<leftarrow> malloc_elem_hide_region cf elem elem len h;
     let h = h\<lparr>mh_total_size := mh_total_size h - len\<rparr>;
     Some (erase_range elem MALLOC_ELEM_HEADER_LEN h) }"

definition malloc_heap_remove_external_memory ::
    "malloc_conf \<Rightarrow> u64 \<Rightarrow> u64 \<Rightarrow> malloc_heap \<Rightarrow> (c_int + malloc_heap) option" where
  "malloc_heap_remove_external_memory cf va_addr len h = do {
     r \<leftarrow> walk_to va_addr (mh_first h) h;
     (case r of None \<Rightarrow> Some (Inl ENOENT)
      | Some elem \<Rightarrow>
          if elem = 0 then Some (Inl ENOENT)
          else do {
            E \<leftarrow> mh_elems h elem;
            if ml_len (mc_msl cf (me_msl E)) \<noteq> len then Some (Inl ENOENT)
            else if me_state E = ELEM_BUSY \<or> me_size E \<noteq> len then Some (Inl EBUSY)
            else do {
              h \<leftarrow> destroy_elem cf elem len h;
              Some (Inr h) } }) }"

text \<open>\<open>LIST_INIT\<close> is given the array of the free lists, so it empties the first one. \<open>next_socket_id\<close> is a signed counter.\<close>

definition malloc_heap_create :: "nat \<Rightarrow> string \<Rightarrow> mem_config \<Rightarrow> (c_int + mem_config) option" where
  "malloc_heap_create i name cfg =
     (if (word_of_int (mg_next_socket_id cfg) :: u32) > 0x7fffffff then Some (Inl ENOSPC)
      else do {
        guard (mg_next_socket_id cfg < 0x7fffffff);
        let h = mg_heaps cfg ! i;
        let h = h\<lparr>mh_alloc_count := 0, mh_first := 0, mh_last := 0, mh_free := (mh_free h)[0 := []], mh_total_size := 0,
                  mh_socket_id := word_of_int (mg_next_socket_id cfg), mh_name := name\<rparr>;
        Some (Inr (set_heap i h (cfg\<lparr>mg_next_socket_id := mg_next_socket_id cfg + 1\<rparr>))) })"

definition malloc_heap_destroy :: "malloc_heap \<Rightarrow> c_int + malloc_heap" where
  "malloc_heap_destroy h =
     (if mh_alloc_count h \<noteq> 0 then Inl EBUSY
      else if mh_first h \<noteq> 0 \<or> mh_last h \<noteq> 0 then Inl EBUSY
      else Inr (h\<lparr>mh_alloc_count := 0, mh_first := 0, mh_last := 0, mh_free := replicate RTE_HEAP_NUM_FREELISTS [],
                  mh_total_size := 0, mh_socket_id := 0, mh_name := []\<rparr>))"

end
