(* ===== verification/MallocGrow.thy ===== *)
theory MallocGrow
  imports MallocRelease MallocConfig
begin

text \<open>
  A heap grows by a piece of memory (\<open>malloc_heap_add_memory\<close>), and a block grows into the free block behind it
  (\<open>malloc_heap_resize\<close>): both keep the invariant of the heap, and all areas but the resized one stay as they are.
\<close>

section \<open>Adding memory\<close>

text \<open>The block that new memory makes.\<close>

definition new_block :: "nat \<Rightarrow> eptr \<Rightarrow> u64 \<Rightarrow> elem_block" where
  "new_block msl start len =
     \<lparr>me_msl = msl, me_state = ELEM_FREE, me_pad = 0, me_size = len, me_orig_elem = start, me_orig_size = len\<rparr>"

lemma new_block_simps [simp]:
  "me_msl (new_block msl start len) = msl" "is_free (new_block msl start len)" "me_pad (new_block msl start len) = 0"
  "me_size (new_block msl start len) = len" "me_orig_elem (new_block msl start len) = start"
  by (simp_all add: new_block_def)

lemma free_blocks_areas:
  assumes "is_free b"
  shows "areas (free_blocks cf ps a b ss) = areas (ps @ ss)"
    "length (filter (\<lambda>x. is_busy (snd x)) (free_blocks cf ps a b ss)) = length (filter (\<lambda>x. is_busy (snd x)) (ps @ ss))"
proof -
  obtain b1 ss1 where m1: "merge_next cf a b ss = (b1, ss1)" by force
  obtain ps2 a2 b2 where m2: "merge_prev cf ps a b1 = (ps2, a2, b2)" by (metis prod_cases3)
  have fb: "free_blocks cf ps a b ss = ps2 @ (a2, b2\<lparr>me_state := ELEM_FREE, me_pad := 0\<rparr>) # ss1"
    by (simp add: free_blocks_def m1 m2)
  show "areas (free_blocks cf ps a b ss) = areas (ps @ ss)"
    "length (filter (\<lambda>x. is_busy (snd x)) (free_blocks cf ps a b ss)) = length (filter (\<lambda>x. is_busy (snd x)) (ps @ ss))"
    unfolding fb using free_blocks_split [OF m1 m2] by simp_all
qed

lemma links_new:
  assumes L: "heap_links h (ps @ ss)" and s: "shapes (ps @ (a, b) # ss)" and b: "b = new_block msl a len"
  obtains h' where "malloc_elem_insert a (malloc_elem_init a msl len a len h) = Some h'" "heap_links h' (ps @ (a, b) # ss)"
    "same_rest (addrs (ps @ (a, b) # ss)) h h'"
proof -
  let ?h = "malloc_elem_init a msl len a len h"
  have sh: "\<forall>(c, d) \<in> set (ps @ (a, b) # ss). shape_ok c d" and sa: "shape_ok a b" using s by (auto simp: shapes_def)
  have below: "\<forall>x \<in> addrs ps. x < a"
  proof
    fix x assume "x \<in> addrs ps"
    then obtain d where d: "(x, d) \<in> set ps" by force
    then have "unat x + unat (me_size d) \<le> unat a" "shape_ok x d" using s sh by auto
    then show "x < a" by (simp add: shape_ok_def unat_less_iff)
  qed
  have above: "\<forall>x \<in> addrs ss. a < x"
  proof
    fix x assume "x \<in> addrs ss"
    then obtain d where d: "(x, d) \<in> set ss" by force
    then have "unat a + unat (me_size b) \<le> unat x" using s by auto
    then show "a < x" using sa by (simp add: shape_ok_def unat_less_iff)
  qed
  have an: "a \<noteq> 0" using sa by (auto simp: shape_ok_def)
  have na: "a \<notin> addrs ps" "a \<notin> addrs ss" using below above by blast+
  then have L1: "heap_links ?h (ps @ ss)" using L by (simp add: heap_links_def malloc_elem_init_def)
  have e: "mh_elems ?h a = Some (mk_elem b 0 0)" by (simp add: malloc_elem_init_def b new_block_def)
  obtain h' where h': "malloc_elem_insert a ?h = Some h'" "heap_links h' (ps @ (a, b) # ss)"
    "same_rest (addrs (ps @ (a, b) # ss)) ?h h'"
    by (rule links_insert [OF L1 below above e an])
  have "same_rest (addrs (ps @ (a, b) # ss)) h h'" using h'(3) by (simp add: same_rest_def malloc_elem_init_def)
  then show ?thesis by (rule that [OF h'(1,2)])
qed

lemma malloc_heap_add_memory_ok:
  assumes H: "heap_ok cf h (ps @ ss)" and s: "shapes (ps @ (a, new_block msl a len) # ss)"
  defines "b \<equiv> new_block msl a len"
  obtains ps2 a2 b2 ss2 h' where "malloc_heap_add_memory cf msl a len h = Some (a2, h')" "heap_ok cf h' (ps2 @ (a2, b2) # ss2)"
    "is_free b2" "free_blocks cf ps a b ss = ps2 @ (a2, b2) # ss2" "areas (ps2 @ (a2, b2) # ss2) = areas (ps @ ss)"
    "me_msl b2 = msl" "unat a2 \<le> unat a" "unat a + unat len \<le> unat a2 + unat (me_size b2)"
proof -
  have s: "shapes (ps @ (a, b) # ss)" and f: "is_free b" and pb: "me_pad b = 0" using assms(2) by (simp_all add: b_def)
  have L: "heap_links h (ps @ ss)" and l: "listed (mh_free h) (ps @ ss)" and ok: "blocks_ok cf (ps @ ss)" and pads: "pads_ok h (ps @ ss)"
    using H by (auto simp: heap_ok_def heap_inv_def)
  have st: "\<forall>(c, d) \<in> set (ps @ ss). state_ok d" and n: "no_joinable cf ps" "no_joinable cf ss"
    using ok by (auto simp: blocks_ok_def no_joinable_append)
  have pad: "unat (me_pad b) + 128 \<le> unat (me_size b)" using s pb by (auto simp: shape_ok_def)
  obtain h0 where h0: "malloc_elem_insert a (malloc_elem_init a msl len a len h) = Some h0" "heap_links h0 (ps @ (a, b) # ss)"
    "same_rest (addrs (ps @ (a, b) # ss)) h h0"
    by (rule links_new [OF L s]) (simp add: b_def)
  have l0: "listed (mh_free h0) (ps @ ss)" using l same_rest_fields [OF h0(3)] by simp
  obtain ps2 a2 b2 ss2 h1 h2 where h2: "malloc_elem_join_adjacent_free cf a h0 = Some (a2, h1)"
    "malloc_elem_free_list_insert a2 h1 = Some h2"
    "heap_links h2 (ps2 @ (a2, b2) # ss2)" "listed (mh_free h2) (ps2 @ (a2, b2) # ss2)" "shapes (ps2 @ (a2, b2) # ss2)"
    "blocks_ok cf (ps2 @ (a2, b2\<lparr>me_pad := 0\<rparr>) # ss2)" "is_free b2" "me_pad b = 0 \<longrightarrow> me_pad b2 = 0" "me_msl b2 = me_msl b"
    "free_blocks cf ps a b ss = ps2 @ (a2, b2\<lparr>me_pad := 0\<rparr>) # ss2"
    "set ps2 \<subseteq> set ps" "set ss2 \<subseteq> set ss" "unat a2 \<le> unat a" "unat a + unat (me_size b) \<le> unat a2 + unat (me_size b2)"
    "\<forall>x. x \<notin> addrs (ps @ (a, b) # ss) \<longrightarrow> \<not> inside x a2 b2 \<longrightarrow> mh_elems h2 x = mh_elems h0 x"
    "mh_alloc_count h2 = mh_alloc_count h0"
    by (rule join_and_list [OF h0(2) l0 s st pad f n])
  have p2: "b2\<lparr>me_pad := 0\<rparr> = b2" using h2(8) pb by simp
  have fb: "free_blocks cf ps a b ss = ps2 @ (a2, b2) # ss2" using h2(10) p2 by simp
  have fr: "\<forall>x. x \<notin> addrs (ps @ (a, b) # ss) \<longrightarrow> \<not> inside x a2 b2 \<longrightarrow> mh_elems h2 x = mh_elems h x"
    using h2(15) h0(3) by (simp add: same_rest_def)
  have "pads_ok h2 (ps2 @ ss2)"
    by (rule pads_keep_all [OF _ _ _ s h2(5) _ _ _ fr])
       (use pads h2(7,11,12) st in \<open>auto simp: pads_ok_def\<close>)
  then have I: "heap_inv cf h2 (ps2 @ (a2, b2) # ss2)"
    using h2(3,4,6,7) p2 by (simp add: heap_inv_def)
  have "mh_alloc_count h2 = mh_alloc_count h" using h2(16) same_rest_fields [OF h0(3)] by simp
  then have "heap_ok cf h2 (ps2 @ (a2, b2) # ss2)"
    using I H free_blocks_areas(2) [OF f, of cf ps a ss] fb by (simp add: heap_ok_def)
  moreover have "malloc_heap_add_memory cf msl a len h = Some (a2, h2)"
    by (simp add: malloc_heap_add_memory_def h0(1) h2(1,2))
  ultimately show ?thesis
    using that h2(7,9,13,14) fb free_blocks_areas(1) [OF f, of cf ps a ss] by (simp add: b_def)
qed

section \<open>Resizing a block\<close>

text \<open>The block in its new size, and what is left of the free block behind it.\<close>

definition resize_blocks :: "eptr \<Rightarrow> elem_block \<Rightarrow> u64 \<Rightarrow> eblocks" where
  "resize_blocks a m new_size =
     (if me_size m - new_size \<ge> 192
      then [(a, m\<lparr>me_size := new_size\<rparr>), (a + new_size, cut_block m new_size)] else [(a, m)])"

lemma grown_blocks_ok:
  assumes ok: "blocks_ok cf (ps @ (a, b) # (c, d) # ss)" and busy: "is_busy b" and f: "is_free d" and j: "joinable cf (a, b) (c, d)"
    and n: "unat (me_size b) < unat n" "unat n \<le> unat (me_size b) + unat (me_size d)" "64 dvd unat n"
  shows "blocks_ok cf (ps @ resize_blocks a (joined b d) n @ ss)"
proof -
  have s: "shapes (ps @ (a, b) # (c, d) # ss)" and st: "\<forall>x \<in> set (ps @ (a, b) # ss). state_ok (snd x)"
    and shs: "\<forall>x \<in> set (ps @ ss). shape_ok (fst x) (snd x)"
    and nj: "no_joinable cf ps" "no_joinable cf ss"
    "ss = [] \<or> \<not> (is_free (snd (hd ss)) \<and> joinable cf (c, d) (hd ss))"
    using ok f by (auto simp: blocks_ok_def shapes_def no_joinable_append no_joinable_Cons)
  have c: "c = a + me_size b" using j by (simp add: joinable_def)
  have sab: "shape_ok a b" "shape_ok c d" using s by auto
  note N = joined_numbers [OF sab c]
  note sj = joined_shapes [OF s c]
  have stb: "state_ok b" using st by auto
  note parts = blocks_ok_def shapes_def no_joinable_append no_joinable_Cons case_prod_beta
  show ?thesis
  proof (cases "me_size (joined b d) - n \<ge> 192")
    case False
    have "state_ok (joined b d)" using stb busy N by (auto simp: state_ok_def)
    then show ?thesis
      using False sj st nj busy shs by (simp add: resize_blocks_def parts)
  next
    case True
    let ?m = "joined b d"
    let ?b = "?m\<lparr>me_size := n\<rparr>" and ?s = "a + n" and ?t = "cut_block ?m n"
    have t: "unat (me_size ?m - n) = unat (me_size b) + unat (me_size d) - unat n"
      using n N(2) by (simp add: ptr_diff)
    have t192: "192 \<le> unat (me_size b) + unat (me_size d) - unat n" using True t by (simp add: unat_le_iff)
    have us: "unat ?s = unat a + unat n"
      using N n t192 by (intro unat_add_no_overflow) (simp add: shape_ok_def)
    have so: "shape_ok a ?m" using N(3) .
    have d64: "64 dvd unat (me_size b) + unat (me_size d)" using sab by (simp add: shape_ok_def)
    have sb: "shape_ok a ?b" using so sab n t192 N(2) by (simp add: shape_ok_def)
    have stl: "shape_ok ?s ?t"
      using so sab n t192 N(2) us t d64 by (auto simp: shape_ok_def dvd_diff_nat)
    have "state_ok ?b" using stb busy n by (auto simp: state_ok_def)
    moreover have "state_ok ?t" by (simp add: state_ok_def)
    moreover have "in_order (ps @ [(a, ?b), (?s, ?t)] @ ss)"
      by (rule in_order_replace [of _ a ?m])
         (use sj us t t192 N(2) n in \<open>auto simp: shapes_def in_order_Cons\<close>)
    moreover have "joinable cf (?s, ?t) y = joinable cf (c, d) y" for y
    proof -
      have "joinable cf (?s, ?t) y = joinable cf (a, ?m) y" by (rule joinable_right) simp_all
      then show ?thesis using joinable_merged_right [OF j] by simp
    qed
    ultimately show ?thesis
      using True sb stl st nj busy shs by (auto simp add: resize_blocks_def parts simp del: unat_add_no_overflow)
  qed
qed

text \<open>The headers in paddings outlive a change of headers of blocks and of one address inside a free block.\<close>

lemma pads_kept:
  assumes p: "pads_ok h xs" and s: "shapes xs" "\<forall>(a, b) \<in> set xs. state_ok b" and c: "(c, d) \<in> set xs" "is_free d" "inside q c d"
    and f: "\<forall>x. x \<notin> addrs xs \<longrightarrow> x \<noteq> q \<longrightarrow> mh_elems h' x = mh_elems h x"
  shows "pads_ok h' xs"
  unfolding pads_ok_def
proof (clarify)
  fix a b assume a: "(a, b) \<in> set xs" "is_busy b" "me_pad b \<noteq> 0"
  have x: "\<forall>(a, b) \<in> set xs. shape_ok a b" "in_order xs" and st: "state_ok b" using s a by (auto simp: shapes_def)
  have "a + ucast (me_pad b) \<notin> addrs xs" by (rule pad_alone(1) [OF x a(1) st a(2,3)])
  moreover have "\<not> inside (a + ucast (me_pad b)) c d"
    by (rule pad_alone(2) [OF x a(1) st a(2,3) c(1)]) (use a(2) c(2) in auto)
  then have "a + ucast (me_pad b) \<noteq> q" using c(3) by blast
  ultimately have "mh_elems h' (a + ucast (me_pad b)) = mh_elems h (a + ucast (me_pad b))" using f by blast
  then show "\<exists>e. mh_elems h' (a + ucast (me_pad b)) = Some e \<and> me_state e = ELEM_PAD \<and> me_pad e = me_pad b"
    using p a by (auto simp: pads_ok_def)
qed

text \<open>The last step of resizing: cutting down the block.\<close>

definition resize_cut :: "eptr \<Rightarrow> u64 \<Rightarrow> malloc_heap \<Rightarrow> malloc_heap option" where
  "resize_cut elem new_size h = do {
     E \<leftarrow> mh_elems h elem;
     if me_size E - new_size \<ge> 192 then do {
       h \<leftarrow> split_elem elem (RTE_ALIGN_CEIL (elem + new_size) 64) h;
       malloc_elem_free_list_insert (RTE_ALIGN_CEIL (elem + new_size) 64) h }
     else Some h }"

lemma align_ceil_id:
  assumes "64 dvd unat (x :: u64)"
  shows "RTE_ALIGN_CEIL x 64 = x"
proof -
  obtain k where k: "unat x = 64 * k" using assms by (elim dvdE)
  then have "64 * k < 64 * 2 ^ 58" using unat_lt2p [of x] by simp
  then have "unat x + 64 \<le> 2 ^ 64" unfolding k by simp
  then have "unat x \<le> unat (RTE_ALIGN_CEIL x 64)" "unat (RTE_ALIGN_CEIL x 64) < unat x + 64" "64 dvd unat (RTE_ALIGN_CEIL x 64)"
    using align_ceil_spec [of 6 x] by (simp_all add: dvd_eq_mod_eq_0)
  then have "unat (RTE_ALIGN_CEIL x 64) = unat x" using assms by (auto elim!: dvdE)
  then show ?thesis by (simp add: word_unat_eq_iff)
qed

lemma resize_cut_ok:
  assumes L: "heap_links h (ps @ (a, m) # ss)" and l: "listed (mh_free h) (ps @ ss)" and busy: "is_busy m"
    and s: "shapes (ps @ (a, m) # ss)" and n: "0 < unat n" "64 dvd unat n" "unat n \<le> unat (me_size m)"
  obtains h' where "resize_cut a n h = Some h'" "heap_links h' (ps @ resize_blocks a m n @ ss)"
    "listed (mh_free h') (ps @ resize_blocks a m n @ ss)"
    "\<forall>x. x \<notin> addrs (ps @ (a, m) # ss) \<longrightarrow> \<not> (me_size m - n \<ge> 192 \<and> x = a + n) \<longrightarrow> mh_elems h' x = mh_elems h x" "mh_alloc_count h' = mh_alloc_count h"
proof (cases "me_size m - n \<ge> 192")
  case False
  then have "resize_cut a n h = Some h" by (simp add: resize_cut_def links_elem [OF L])
  then show ?thesis by (rule that) (use False L l busy in \<open>simp_all add: resize_blocks_def\<close>)
next
  case True
  have sa: "shape_ok a m" using s by auto
  have m192: "192 \<le> unat (me_size m) - unat n" using True n(3) by (simp add: unat_le_iff ptr_diff)
  have us: "unat (a + n) = unat a + unat n"
    using sa m192 n(3) by (intro unat_add_no_overflow) (simp add: shape_ok_def)
  have ceil: "RTE_ALIGN_CEIL (a + n) 64 = a + n"
    by (rule align_ceil_id) (use sa n us in \<open>simp add: shape_ok_def\<close>)
  have "inside (a + n) a m" "a + n \<noteq> a" using us m192 n(1) by (auto simp: inside_def word_unat_eq_iff)
  then have off: "a + n \<notin> addrs (ps @ (a, m) # ss)"
    by (intro inside_not_addr [where a = a and b = m]) (use s in \<open>auto simp: shapes_def\<close>)
  have nz: "a + n \<noteq> 0" using us sa by (auto simp: shape_ok_def)
  let ?b = "m\<lparr>me_size := n\<rparr>" and ?t = "cut_block m n"
  obtain h1 where h1: "split_elem a (a + n) h = Some h1" "heap_links h1 (ps @ (a, ?b) # (a + n, ?t) # ss)"
    "same_rest (insert (a + n) (addrs (ps @ (a, m) # ss))) h h1"
    by (rule links_split [OF L off nz]) simp
  have L1: "heap_links h1 ((ps @ [(a, ?b)]) @ (a + n, ?t) # ss)" using h1(2) by simp
  have l1: "listed (mh_free h1) ((ps @ [(a, ?b)]) @ ss)" using l busy same_rest_fields [OF h1(3)] by simp
  obtain h2 where h2: "malloc_elem_free_list_insert (a + n) h1 = Some h2" "heap_links h2 ((ps @ [(a, ?b)]) @ (a + n, ?t) # ss)"
    "listed (mh_free h2) ((ps @ [(a, ?b)]) @ (a + n, ?t) # ss)" "same_rest {a + n} h1 (h2\<lparr>mh_free := mh_free h1\<rparr>)"
    by (rule free_list_insert_free [OF L1 l1]) (use off in auto)
  have "resize_cut a n h = Some h2" using True by (simp add: resize_cut_def links_elem [OF L] ceil h1(1) h2(1))
  then show ?thesis
    by (rule that)
       (use True h2 h1(3) same_rest_fields [OF h1(3)] same_rest_fields [OF h2(4)] in
         \<open>simp_all add: resize_blocks_def same_rest_def\<close>)
qed

lemma malloc_heap_resize_ok:
  assumes H: "heap_ok cf h (ps @ (a, b) # ss)" and busy: "is_busy b" and sz: "64 dvd unat sz" "unat sz + 512 \<le> 2 ^ 64"
  obtains (keeps) "malloc_heap_resize cf a sz h = Some (0, h)" "unat sz \<le> snd (area a b)"
  | (refused) "malloc_heap_resize cf a sz h = Some (- 1, h)" "snd (area a b) < unat sz"
      "\<forall>c d ss'. ss = (c, d) # ss' \<and> is_free d \<and> joinable cf (a, b) (c, d) \<longrightarrow> snd (area a b) + unat (me_size d) < unat sz"
  | (grown) c d ss' n h' where "ss = (c, d) # ss'" "is_free d" "joinable cf (a, b) (c, d)"
      "malloc_heap_resize cf a sz h = Some (0, h')" "heap_ok cf h' (ps @ resize_blocks a (joined b d) n @ ss')"
      "areas (ps @ resize_blocks a (joined b d) n @ ss') =
         insert (area a (snd (hd (resize_blocks a (joined b d) n)))) (areas (ps @ ss))"
      "fst (area a (snd (hd (resize_blocks a (joined b d) n)))) = fst (area a b)"
      "unat sz \<le> snd (area a (snd (hd (resize_blocks a (joined b d) n))))" "snd (area a b) < unat sz"
      "unat n = unat sz + unat (me_pad b) + 128"
proof -
  let ?xs = "ps @ (a, b) # ss" and ?n = "sz + ucast (me_pad b) + 128"
  have L: "heap_links h ?xs" and l: "listed (mh_free h) ?xs" and ok: "blocks_ok cf ?xs" and pads: "pads_ok h ?xs"
    using H by (auto simp: heap_ok_def heap_inv_def)
  have s: "shapes ?xs" and st: "\<forall>(a, b) \<in> set ?xs. state_ok b" using ok by (auto simp: blocks_ok_def shapes_def)
  have an: "a \<noteq> 0" using L by (simp add: heap_links_def)
  have sb: "state_ok b" "shape_ok a b" using st s by auto
  have pb: "unat (me_pad b) < 192" "64 dvd unat (me_pad b)" "unat (me_pad b) + 128 \<le> unat (me_size b)"
    using sb busy by (auto simp: state_ok_def)
  have p1: "unat (sz + ucast (me_pad b)) = unat sz + unat (me_pad b)"
    using sz pb by (simp add: unat_add_no_overflow unat_pad)
  have un: "unat ?n = unat sz + unat (me_pad b) + 128"
    using sz pb p1 by (simp add: unat_add_no_overflow)
  have n64: "64 dvd unat ?n" unfolding un using sz(1) pb(2) by simp
  have m: "mh_elems h a = Some (mk_elem b (last_of 0 ps) (first_of ss 0))" by (rule links_elem [OF L])
  have top: "malloc_heap_resize cf a sz h = malloc_elem_resize cf a sz h"
    using an busy by (simp add: malloc_heap_resize_def m)
  have sa: "snd (area a b) = unat (me_size b) - unat (me_pad b) - 128" by (simp add: area_def)
  show ?thesis
  proof (cases "me_size b \<ge> ?n")
    case True
    then have "malloc_heap_resize cf a sz h = Some (0, h)" by (simp add: top malloc_elem_resize_def m)
    moreover have "unat sz \<le> snd (area a b)" using True un by (simp add: unat_le_iff sa)
    ultimately show ?thesis by (rule keeps)
  next
    case False
    then have small: "unat (me_size b) < unat ?n" by (simp add: unat_le_iff)
    then have lt: "snd (area a b) < unat sz" using un pb by (simp add: sa)
    show ?thesis
    proof (cases "case ss of [] \<Rightarrow> False | (c, d) # _ \<Rightarrow> is_free d \<and> joinable cf (a, b) (c, d)")
      case no: False
      have "malloc_heap_resize cf a sz h = Some (- 1, h)"
        using False by (simp add: top malloc_elem_resize_def m next_is_free_eq [OF L] no)
      then show ?thesis by (rule refused) (use lt no in auto)
    next
      case yes: True
      then obtain c d ss' where ss: "ss = (c, d) # ss'" "is_free d" and j: "joinable cf (a, b) (c, d)"
        by (cases ss) (auto split: prod.splits)
      have c: "c = a + me_size b" using j by (simp add: joinable_def)
      have sd: "shape_ok c d" using s ss by auto
      note N = joined_numbers [OF sb(2) sd c]
      have L': "heap_links h (ps @ (a, b) # (c, d) # ss')" using L ss by simp
      have mc: "mh_elems h c = Some (mk_elem d a (first_of ss' 0))"
        using links_elem [of h "ps @ [(a, b)]" c d ss'] L' by simp
      show ?thesis
      proof (cases "me_size b + me_size d < ?n")
        case less: True
        have "malloc_heap_resize cf a sz h = Some (- 1, h)"
          using False by (simp add: top malloc_elem_resize_def m next_is_free_eq [OF L] ss j mc less)
        moreover have "snd (area a b) + unat (me_size d) < unat sz"
          using less N(2) un pb by (simp add: unat_less_iff sa)
        ultimately show ?thesis by (intro refused) (use lt ss in auto)
      next
        case fits: False
        let ?m = "joined b d" and ?qs = "ps @ [(a, b)]"
        have D: "distinct (map fst (?qs @ (c, d) # ss'))" using L' by (simp add: heap_links_def)
        have lq: "listed (mh_free h) (?qs @ (c, d) # ss')" using l ss by simp
        note rm = free_list_remove_ok [OF lq D ss(2)]
        let ?h1 = "h\<lparr>mh_free := map (remove1 c) (mh_free h)\<rparr>"
        have L1: "heap_links ?h1 (ps @ (a, b) # (c, d) # ss')" using L' by simp
        obtain h2 where h2: "join_elem a c ?h1 = Some h2" "heap_links h2 (ps @ (a, ?m) # ss')"
          "same_rest (addrs (ps @ (a, b) # ss')) ?h1 h2"
          by (rule links_join [OF L1])
        have l2: "listed (mh_free h2) (ps @ ss')" using rm(2) busy same_rest_fields [OF h2(3)] by simp
        have s': "shapes (ps @ (a, b) # (c, d) # ss')" using s ss by simp
        note s2 = joined_shapes [OF s' c]
        have n_le: "unat ?n \<le> unat (me_size ?m)" using fits N(2) by (simp add: unat_less_iff)
        have n0: "0 < unat ?n" using un by simp
        obtain h3 where h3: "resize_cut a ?n h2 = Some h3" "heap_links h3 (ps @ resize_blocks a ?m ?n @ ss')"
          "listed (mh_free h3) (ps @ resize_blocks a ?m ?n @ ss')"
          "\<forall>x. x \<notin> addrs (ps @ (a, ?m) # ss') \<longrightarrow> \<not> (me_size ?m - ?n \<ge> 192 \<and> x = a + ?n) \<longrightarrow> mh_elems h3 x = mh_elems h2 x" "mh_alloc_count h3 = mh_alloc_count h2"
          by (rule resize_cut_ok [OF h2(2) l2 _ s2 n0 n64 n_le]) (use busy in simp_all)
        have run: "malloc_heap_resize cf a sz h = Some (0, h3)"
          using False h3(1) links_elem [OF h2(2)]
          by (auto simp add: top malloc_elem_resize_def m next_is_free_eq [OF L] ss j mc fits rm(1) h2(1) resize_cut_def Let_def
              bind_eq_Some_conv split: if_splits)
        let ?q = "if me_size ?m - ?n \<ge> 192 then a + ?n else c"
        have iq: "inside ?q c d"
        proof (cases "me_size ?m - ?n \<ge> 192")
          case True
          then have big: "192 \<le> unat (me_size b) + unat (me_size d) - unat ?n"
            using n_le N(2) by (simp add: unat_le_iff ptr_diff)
          have "unat (a + ?n) = unat a + unat ?n"
            using N(3) big N(2) n_le by (intro unat_add_no_overflow) (simp add: shape_ok_def)
          then show ?thesis using True small big N(1) by (simp add: inside_def)
        next
          case False
          then show ?thesis using inside_self [OF sd] by simp
        qed
        have fr: "\<forall>x. x \<notin> addrs ?xs \<longrightarrow> x \<noteq> ?q \<longrightarrow> mh_elems h3 x = mh_elems h x"
          using h3(4) h2(3) ss by (auto simp: same_rest_def)
        have "(c, d) \<in> set ?xs" using ss by simp
        from pads_kept [OF pads s st this ss(2) iq fr] have P: "pads_ok h3 ?xs" .
        have B: "blocks_ok cf (ps @ resize_blocks a ?m ?n @ ss')"
          by (rule grown_blocks_ok) (use ok busy ss j small n_le N(2) n64 in simp_all)
        have "pads_ok h3 (ps @ resize_blocks a ?m ?n @ ss')" using P ss busy by (auto simp: resize_blocks_def)
        then have I: "heap_inv cf h3 (ps @ resize_blocks a ?m ?n @ ss')" using h3(2,3) B by (simp add: heap_inv_def)
        have "mh_alloc_count h3 = mh_alloc_count h" using h3(5) same_rest_fields [OF h2(3)] by simp
        then have "heap_ok cf h3 (ps @ resize_blocks a ?m ?n @ ss')"
          using I H ss busy by (simp add: heap_ok_def resize_blocks_def)
        then show ?thesis
          by (rule grown [OF ss j run])
             (use ss busy lt un n_le N(2) in \<open>auto simp: resize_blocks_def area_def\<close>)
      qed
    qed
  qed
qed

end
