(* ===== verification/RteMalloc.thy ===== *)
theory RteMalloc
  imports MallocConfig
begin

text \<open>
  The functions for users of the heaps (\<open>rte_malloc.c\<close>): allocating, zeroing, resizing and freeing memory, what is known of an
  allocation, and external heaps. The block of an address belongs to the heap that has a header there.
\<close>

section \<open>Freeing\<close>

definition elem_heap :: "eptr \<Rightarrow> mem_config \<Rightarrow> nat option" where
  "elem_heap a cfg = heap_search (\<lambda>h. mh_elems h a \<noteq> None) 0 (mg_heaps cfg)"

text \<open>The heap and the header of the block that has its data at an address.\<close>

definition data_elem :: "u64 \<Rightarrow> mem_config \<Rightarrow> (nat \<times> eptr) option" where
  "data_elem addr cfg = do {
     i \<leftarrow> elem_heap (addr - MALLOC_ELEM_HEADER_LEN) cfg;
     elem \<leftarrow> malloc_elem_from_data addr (mg_heaps cfg ! i);
     Some (i, elem) }"

text \<open>\<open>malloc_heap_free\<close> in its heap, with the pages it gives back.\<close>

definition heap_free_on :: "malloc_env \<Rightarrow> nat \<Rightarrow> eptr \<Rightarrow> mem_config \<Rightarrow> (c_int \<times> mem_config) option" where
  "heap_free_on env i elem cfg = do {
     (ret, pages, h) \<leftarrow> malloc_heap_free (conf_of env cfg) elem (mg_heaps cfg ! i);
     let cfg = set_heap i h cfg;
     Some (ret, case pages of None \<Rightarrow> cfg
                | Some (aligned_start, aligned_len) \<Rightarrow> snd (malloc_heap_free_pages env aligned_start aligned_len cfg)) }"

definition rte_free :: "malloc_env \<Rightarrow> u64 \<Rightarrow> mem_config \<Rightarrow> mem_config option" where
  "rte_free env addr cfg =
     (if addr = 0 then Some cfg
      else do {
        (i, elem) \<leftarrow> data_elem addr cfg;
        (_, cfg) \<leftarrow> heap_free_on env i elem cfg;
        Some cfg })"

section \<open>Allocating\<close>

text \<open>Whether a socket belongs to external memory: 1, 0, or - 1 when there is no such socket.\<close>

definition rte_malloc_heap_socket_is_external :: "c_int \<Rightarrow> mem_config \<Rightarrow> c_int" where
  "rte_malloc_heap_socket_is_external socket_id cfg =
     (if socket_id = SOCKET_ID_ANY then 0
      else (case heap_search (\<lambda>h. sint (mh_socket_id h) = socket_id) 0 (mg_heaps cfg) of
          None \<Rightarrow> - 1
        | Some i \<Rightarrow> if mh_socket_id (mg_heaps cfg ! i) \<ge> 8 then 1 else 0))"

definition rte_malloc_socket :: "malloc_env \<Rightarrow> u64 \<Rightarrow> u32 \<Rightarrow> c_int \<Rightarrow> mem_config \<Rightarrow> (u64 \<times> mem_config) option" where
  "rte_malloc_socket env sz align socket_arg cfg =
     (if sz = 0 \<or> align \<noteq> 0 \<and> \<not> rte_is_power_of_2 align then Some (0, cfg)
      else
        let socket_arg =
          (if rte_malloc_heap_socket_is_external socket_arg cfg \<noteq> 1 \<and> \<not> en_hugepages env then SOCKET_ID_ANY
           else socket_arg)
        in malloc_heap_alloc env sz socket_arg 0 (if align = 0 then 1 else ucast align) 0 False cfg)"

definition rte_malloc :: "malloc_env \<Rightarrow> u64 \<Rightarrow> u32 \<Rightarrow> mem_config \<Rightarrow> (u64 \<times> mem_config) option" where
  "rte_malloc env sz align cfg = rte_malloc_socket env sz align SOCKET_ID_ANY cfg"

text \<open>Debugging is off, so the memory is taken to be zero already.\<close>

definition rte_zmalloc_socket :: "malloc_env \<Rightarrow> u64 \<Rightarrow> u32 \<Rightarrow> c_int \<Rightarrow> mem_config \<Rightarrow> (u64 \<times> mem_config) option" where
  "rte_zmalloc_socket env sz align socket cfg = do {
     (ptr, cfg) \<leftarrow> rte_malloc_socket env sz align socket cfg;
     Some (ptr, cfg) }"

definition rte_zmalloc :: "malloc_env \<Rightarrow> u64 \<Rightarrow> u32 \<Rightarrow> mem_config \<Rightarrow> (u64 \<times> mem_config) option" where
  "rte_zmalloc env sz align cfg = rte_zmalloc_socket env sz align SOCKET_ID_ANY cfg"

definition rte_calloc_socket :: "malloc_env \<Rightarrow> u64 \<Rightarrow> u64 \<Rightarrow> u32 \<Rightarrow> c_int \<Rightarrow> mem_config \<Rightarrow> (u64 \<times> mem_config) option" where
  "rte_calloc_socket env num sz align socket cfg = rte_zmalloc_socket env (num * sz) align socket cfg"

definition rte_calloc :: "malloc_env \<Rightarrow> u64 \<Rightarrow> u64 \<Rightarrow> u32 \<Rightarrow> mem_config \<Rightarrow> (u64 \<times> mem_config) option" where
  "rte_calloc env num sz align cfg = rte_zmalloc env (num * sz) align cfg"

section \<open>Resizing\<close>

definition cache_line_roundup_u32 :: "u32 \<Rightarrow> u32" where
  "cache_line_roundup_u32 sz = 64 * ((sz + 64 - 1) div 64)"

text \<open>\<open>rte_memcpy\<close> between the memory of two heaps (or inside one).\<close>

definition copy_data :: "nat \<Rightarrow> nat \<Rightarrow> u64 \<Rightarrow> u64 \<Rightarrow> u64 \<Rightarrow> mem_config \<Rightarrow> mem_config" where
  "copy_data j i dst src n cfg =
     (let h = mg_heaps cfg ! j; from_data = mh_data (mg_heaps cfg ! i)
      in set_heap j (h\<lparr>mh_data := (\<lambda>q. if q - dst < n then from_data (src + (q - dst)) else mh_data h q)\<rparr>) cfg)"

definition rte_realloc_socket ::
    "malloc_env \<Rightarrow> u64 \<Rightarrow> u64 \<Rightarrow> u32 \<Rightarrow> c_int \<Rightarrow> mem_config \<Rightarrow> (u64 \<times> mem_config) option" where
  "rte_realloc_socket env ptr sz align socket cfg =
     (if ptr = 0 then rte_malloc_socket env sz align socket cfg
      else do {
        (i, elem) \<leftarrow> data_elem ptr cfg;
        if elem = 0 then Some (0, cfg)
        else do {
          let sz = CACHE_LINE_ROUNDUP sz;
          let align = cache_line_roundup_u32 align;
          (ret, h) \<leftarrow>
            (if (socket = SOCKET_ID_ANY \<or> word_of_int socket = mh_socket_id (mg_heaps cfg ! i)) \<and> rte_is_aligned ptr align
             then malloc_heap_resize (conf_of env cfg) elem sz (mg_heaps cfg ! i)
             else Some (- 1, mg_heaps cfg ! i));
          if ret = 0 then Some (ptr, set_heap i h cfg)
          else do {
            (new_ptr, cfg) \<leftarrow> rte_malloc_socket env sz align socket (set_heap i h cfg);
            if new_ptr = 0 then Some (0, cfg)
            else do {
              E \<leftarrow> mh_elems (mg_heaps cfg ! i) elem;
              let old_size = (ucast (me_size E - MALLOC_ELEM_OVERHEAD) :: u32);
              (j, _) \<leftarrow> data_elem new_ptr cfg;
              let cfg = copy_data j i new_ptr ptr (if ucast old_size < sz then ucast old_size else sz) cfg;
              cfg \<leftarrow> rte_free env ptr cfg;
              Some (new_ptr, cfg) } } } })"

definition rte_realloc :: "malloc_env \<Rightarrow> u64 \<Rightarrow> u64 \<Rightarrow> u32 \<Rightarrow> mem_config \<Rightarrow> (u64 \<times> mem_config) option" where
  "rte_realloc env ptr sz align cfg = rte_realloc_socket env ptr sz align SOCKET_ID_ANY cfg"

section \<open>What is known of an allocation\<close>

text \<open>The size when the pointer is valid.\<close>

definition rte_malloc_validate :: "u64 \<Rightarrow> mem_config \<Rightarrow> (c_int \<times> u64) option" where
  "rte_malloc_validate ptr cfg =
     (if ptr = 0 then Some (- 1, 0)
      else do {
        (i, elem) \<leftarrow> data_elem ptr cfg;
        if elem = 0 then Some (- 1, 0)
        else do {
          E \<leftarrow> mh_elems (mg_heaps cfg ! i) elem;
          Some (0, me_size E - ucast (me_pad E) - MALLOC_ELEM_OVERHEAD) } })"

definition rte_malloc_virt2iova :: "malloc_env \<Rightarrow> u64 \<Rightarrow> mem_config \<Rightarrow> u64 option" where
  "rte_malloc_virt2iova env addr cfg =
     (if addr = 0 then Some RTE_BAD_IOVA
      else do {
        (i, elem) \<leftarrow> data_elem addr cfg;
        if elem = 0 then Some RTE_BAD_IOVA
        else do {
          E \<leftarrow> mh_elems (mg_heaps cfg ! i) elem;
          let msl = mg_memsegs cfg ! me_msl E;
          if \<not> ml_external msl \<and> en_iova_va env then Some addr
          else (case virt2memseg addr msl of
              None \<Rightarrow> Some RTE_BAD_IOVA
            | Some ms \<Rightarrow>
                if sg_iova ms = RTE_BAD_IOVA then Some RTE_BAD_IOVA
                else Some (sg_iova ms + (addr - sg_addr ms))) } })"

definition rte_malloc_get_socket_stats :: "c_int \<Rightarrow> mem_config \<Rightarrow> (c_int \<times> heap_stats option) option" where
  "rte_malloc_get_socket_stats socket cfg =
     (case malloc_socket_to_heap_id (word_of_int socket) cfg of
        None \<Rightarrow> Some (- 1, None)
      | Some i \<Rightarrow> do {
          st \<leftarrow> malloc_heap_get_stats (mg_heaps cfg ! i);
          Some (0, Some st) })"

section \<open>External heaps\<close>

text \<open>Names have at most 31 characters. Results are \<open>Inl\<close> of \<open>rte_errno\<close> when - 1 is returned.\<close>

abbreviation (input) RTE_HEAP_NAME_MAX_LEN :: nat where "RTE_HEAP_NAME_MAX_LEN \<equiv> 32"

definition bad_heap_name :: "string option \<Rightarrow> bool" where
  "bad_heap_name name = (case name of None \<Rightarrow> True | Some s \<Rightarrow> length s = 0 \<or> length s \<ge> RTE_HEAP_NAME_MAX_LEN)"

definition rte_malloc_heap_get_socket :: "string option \<Rightarrow> mem_config \<Rightarrow> c_int + c_int" where
  "rte_malloc_heap_get_socket name cfg =
     (if bad_heap_name name then Inl EINVAL
      else (case heap_search (\<lambda>h. Some (mh_name h) = name) 0 (mg_heaps cfg) of
          None \<Rightarrow> Inl ENOENT
        | Some i \<Rightarrow> Inr (sint (mh_socket_id (mg_heaps cfg ! i)))))"

definition find_named_heap :: "string option \<Rightarrow> mem_config \<Rightarrow> nat option" where
  "find_named_heap name cfg = heap_search (\<lambda>h. Some (mh_name h) = name) 0 (mg_heaps cfg)"

definition rte_malloc_heap_memory_add ::
    "malloc_env \<Rightarrow> string option \<Rightarrow> u64 \<Rightarrow> u64 \<Rightarrow> u64 list option \<Rightarrow> u32 \<Rightarrow> u64 \<Rightarrow> mem_config \<Rightarrow>
     (c_int + mem_config) option" where
  "rte_malloc_heap_memory_add env name va_addr len iova_addrs n_pages page_sz cfg =
     (if name = None \<or> va_addr = 0 \<or> page_sz = 0 \<or> \<not> rte_is_power_of_2 (ucast page_sz) \<or>
         RTE_ALIGN_CEIL len page_sz \<noteq> len \<or> \<not> rte_is_aligned va_addr (ucast page_sz) \<or>
         (len div page_sz \<noteq> ucast n_pages \<and> iova_addrs \<noteq> None) \<or> bad_heap_name name
      then Some (Inl EINVAL)
      else (case find_named_heap name cfg of
          None \<Rightarrow> Some (Inl ENOENT)
        | Some i \<Rightarrow>
            let h = mg_heaps cfg ! i
            in if mh_socket_id h < 8 then Some (Inl EPERM)
               else if \<not> (case iova_addrs of None \<Rightarrow> True | Some is \<Rightarrow> unat n_pages \<le> length is) then None
               else (case malloc_heap_create_external_seg env va_addr iova_addrs (ucast (len div page_sz)) page_sz
                            (mh_socket_id h) cfg of
                   Inl e \<Rightarrow> Some (Inl e)
                 | Inr (msl, cfg) \<Rightarrow> do {
                     h \<leftarrow> malloc_heap_add_external_memory (conf_of env cfg) msl h;
                     Some (Inr (set_heap i h cfg)) })))"

text \<open>Removing answers 0 or \<open>rte_errno\<close>, since the last step can fail after the heap has changed.\<close>

definition rte_malloc_heap_memory_remove ::
    "malloc_env \<Rightarrow> string option \<Rightarrow> u64 \<Rightarrow> u64 \<Rightarrow> mem_config \<Rightarrow> (c_int \<times> mem_config) option" where
  "rte_malloc_heap_memory_remove env name va_addr len cfg =
     (if name = None \<or> va_addr = 0 \<or> len = 0 \<or> bad_heap_name name then Some (EINVAL, cfg)
      else (case find_named_heap name cfg of
          None \<Rightarrow> Some (ENOENT, cfg)
        | Some i \<Rightarrow>
            let h = mg_heaps cfg ! i
            in if mh_socket_id h < 8 then Some (EPERM, cfg)
               else (case find_external_seg va_addr len 0 (mg_memsegs cfg) of
                   None \<Rightarrow> Some (ENOENT, cfg)
                 | Some msl \<Rightarrow> do {
                     r \<leftarrow> malloc_heap_remove_external_memory (conf_of env cfg) va_addr len h;
                     (case r of
                        Inl e \<Rightarrow> Some (e, cfg)
                      | Inr h \<Rightarrow>
                          let (ret, cfg) = malloc_heap_destroy_external_seg env msl (set_heap i h cfg)
                          in Some (if ret \<noteq> 0 then en_fbarray_err env else 0, cfg)) })))"

text \<open>The search for a slot: it stops at the first empty one.\<close>

fun heap_slot :: "string \<Rightarrow> nat \<Rightarrow> malloc_heap list \<Rightarrow> c_int + nat" where
  "heap_slot name i [] = Inl ENOSPC"
| "heap_slot name i (h # hs) =
     (if mh_name h = name then Inl EEXIST
      else if mh_name h = [] then Inr i
      else heap_slot name (i + 1) hs)"

definition rte_malloc_heap_create :: "string option \<Rightarrow> mem_config \<Rightarrow> (c_int + mem_config) option" where
  "rte_malloc_heap_create name cfg =
     (if bad_heap_name name then Some (Inl EINVAL)
      else (case heap_slot (the name) 0 (mg_heaps cfg) of
          Inl e \<Rightarrow> Some (Inl e)
        | Inr i \<Rightarrow> malloc_heap_create i (the name) cfg))"

definition rte_malloc_heap_destroy :: "string option \<Rightarrow> mem_config \<Rightarrow> c_int + mem_config" where
  "rte_malloc_heap_destroy name cfg =
     (if bad_heap_name name then Inl EINVAL
      else (case find_named_heap name cfg of
          None \<Rightarrow> Inl ENOENT
        | Some i \<Rightarrow>
            if mh_socket_id (mg_heaps cfg ! i) < 8 then Inl EPERM
            else (case malloc_heap_destroy (mg_heaps cfg ! i) of
                Inl e \<Rightarrow> Inl e
              | Inr h \<Rightarrow> Inr (set_heap i h cfg))))"

end
