(* ===== verification/AllocContract.thy ===== *)
theory AllocContract
  imports CommonBits
begin

text \<open>
  What users of an allocator rely on: the locale \<open>allocator\<close>. Areas are handed out zeroed and apart from each other, freeing and
  allocating leave the bytes of other areas alone. From these laws follows that any program sees its allocations as separate
  arrays.
\<close>

section \<open>Areas\<close>

text \<open>An area is the number of its first address and its size.\<close>

type_synonym mem_area = "nat \<times> nat"

definition in_area :: "u64 \<Rightarrow> mem_area \<Rightarrow> bool" where
  "in_area q A \<longleftrightarrow> fst A \<le> unat q \<and> unat q < fst A + snd A"

definition apart :: "mem_area \<Rightarrow> mem_area \<Rightarrow> bool" where
  "apart A B \<longleftrightarrow> fst A + snd A \<le> fst B \<or> fst B + snd B \<le> fst A"

lemma apart_not_in: "apart A B \<Longrightarrow> in_area q A \<Longrightarrow> \<not> in_area q B"
  by (auto simp: apart_def in_area_def)

lemma apart_sym: "apart A B \<Longrightarrow> apart B A"
  by (auto simp: apart_def)

section \<open>Programs\<close>

text \<open>
  A program allocates, frees, writes and reads; it names its allocations by their number. What it would do with an
  allocation it does not have, or outside of one, it does not do.
\<close>

datatype mem_op = MAlloc u64 u32 | MFree nat | MWrite nat nat u8 | MRead nat nat

definition slot :: "'a option list \<Rightarrow> nat \<Rightarrow> 'a option" where
  "slot xs k = (if k < length xs then xs ! k else None)"

text \<open>The bytes it reads when every allocation is an array of its own, zero at the start. \<open>oks\<close> tells which allocations succeed.\<close>

fun array_run :: "mem_op list \<Rightarrow> bool list \<Rightarrow> (u8 list) option list \<Rightarrow> u8 list" where
  "array_run [] oks as = []"
| "array_run (MAlloc sz al # ops) oks as =
     array_run ops (tl oks) (as @ [if oks \<noteq> [] \<and> hd oks then Some (replicate (unat sz) 0) else None])"
| "array_run (MFree k # ops) oks as = array_run ops oks (as[k := None])"
| "array_run (MWrite k i v # ops) oks as =
     array_run ops oks (case slot as k of Some a \<Rightarrow> as[k := Some (a[i := v])] | None \<Rightarrow> as)"
| "array_run (MRead k i # ops) oks as =
     (case slot as k of
        Some a \<Rightarrow> if i < length a then a ! i # array_run ops oks as else array_run ops oks as
      | None \<Rightarrow> array_run ops oks as)"

text \<open>The same program on an allocator: what it reads, and which allocations succeed. It keeps address and size of an allocation.\<close>

fun client_run ::
    "(u64 \<Rightarrow> u32 \<Rightarrow> 'h \<Rightarrow> (u64 \<times> 'h) option) \<Rightarrow> (u64 \<Rightarrow> 'h \<Rightarrow> 'h option) \<Rightarrow> ('h \<Rightarrow> u64 \<Rightarrow> u8) \<Rightarrow> (u64 \<Rightarrow> u8 \<Rightarrow> 'h \<Rightarrow> 'h) \<Rightarrow>
     mem_op list \<Rightarrow> (u64 \<times> nat) option list \<Rightarrow> 'h \<Rightarrow> (u8 list \<times> bool list) option" where
  "client_run alloc free rd wr [] ps h = Some ([], [])"
| "client_run alloc free rd wr (MAlloc sz al # ops) ps h = do {
     (d, h) \<leftarrow> alloc sz al h;
     (out, oks) \<leftarrow> client_run alloc free rd wr ops (ps @ [if d = 0 then None else Some (d, unat sz)]) h;
     Some (out, (d \<noteq> 0) # oks) }"
| "client_run alloc free rd wr (MFree k # ops) ps h =
     (case slot ps k of
        None \<Rightarrow> client_run alloc free rd wr ops ps h
      | Some (d, n) \<Rightarrow> do {
          h \<leftarrow> free d h;
          client_run alloc free rd wr ops (ps[k := None]) h })"
| "client_run alloc free rd wr (MWrite k i v # ops) ps h =
     (case slot ps k of
        None \<Rightarrow> client_run alloc free rd wr ops ps h
      | Some (d, n) \<Rightarrow> client_run alloc free rd wr ops ps (if i < n then wr (d + of_nat i) v h else h))"
| "client_run alloc free rd wr (MRead k i # ops) ps h =
     (case slot ps k of
        None \<Rightarrow> client_run alloc free rd wr ops ps h
      | Some (d, n) \<Rightarrow> do {
          (out, oks) \<leftarrow> client_run alloc free rd wr ops ps h;
          Some (if i < n then rd h (d + of_nat i) # out else out, oks) })"

definition good_ops :: "(u64 \<Rightarrow> u32 \<Rightarrow> bool) \<Rightarrow> mem_op list \<Rightarrow> bool" where
  "good_ops good ops \<longleftrightarrow> (\<forall>sz al. MAlloc sz al \<in> set ops \<longrightarrow> good sz al)"

lemma good_ops_Cons: "good_ops good (x # ops) \<longleftrightarrow> (\<forall>sz al. x = MAlloc sz al \<longrightarrow> good sz al) \<and> good_ops good ops"
  by (auto simp: good_ops_def)

section \<open>The contract\<close>

locale allocator =
  fixes good :: "u64 \<Rightarrow> u32 \<Rightarrow> bool"
    and state :: "'h \<Rightarrow> mem_area set \<Rightarrow> bool"
    and alloc :: "u64 \<Rightarrow> u32 \<Rightarrow> 'h \<Rightarrow> (u64 \<times> 'h) option"
    and free :: "u64 \<Rightarrow> 'h \<Rightarrow> 'h option"
    and rd :: "'h \<Rightarrow> u64 \<Rightarrow> u8"
    and wr :: "u64 \<Rightarrow> u8 \<Rightarrow> 'h \<Rightarrow> 'h"
  assumes areas_apart: "state h As \<Longrightarrow> A \<in> As \<Longrightarrow> B \<in> As \<Longrightarrow> A \<noteq> B \<Longrightarrow> apart A B"
    and areas_fit: "state h As \<Longrightarrow> A \<in> As \<Longrightarrow> fst A + snd A < 2 ^ 64"
    and alloc_law: "state h As \<Longrightarrow> good sz al \<Longrightarrow>
      \<exists>d h'. alloc sz al h = Some (d, h') \<and>
        (d = 0 \<and> h' = h \<or>
         d \<noteq> 0 \<and> (al \<noteq> 0 \<longrightarrow> unat al dvd unat d) \<and> (\<exists>n. unat sz \<le> n \<and> unat d \<notin> fst ` As \<and> state h' (insert (unat d, n) As) \<and>
           (\<forall>q. in_area q (unat d, n) \<longrightarrow> rd h' q = 0) \<and> (\<forall>B \<in> As. \<forall>q. in_area q B \<longrightarrow> rd h' q = rd h q)))"
    and free_law: "state h As \<Longrightarrow> (unat d, n) \<in> As \<Longrightarrow>
      \<exists>h'. free d h = Some h' \<and> state h' (As - {(unat d, n)}) \<and>
        (\<forall>B \<in> As - {(unat d, n)}. \<forall>q. in_area q B \<longrightarrow> rd h' q = rd h q)"
    and write_law: "state h As \<Longrightarrow> B \<in> As \<Longrightarrow> in_area q B \<Longrightarrow> state (wr q v h) As"
    and read_law: "state h As \<Longrightarrow> rd (wr q v h) q' = (if q' = q then v else rd h q')"
begin

text \<open>The allocations of a program in the allocator and as arrays.\<close>

definition seen :: "'h \<Rightarrow> mem_area set \<Rightarrow> (u64 \<times> nat) option \<Rightarrow> u8 list option \<Rightarrow> bool" where
  "seen h As p a \<longleftrightarrow>
     (case (p, a) of
        (None, None) \<Rightarrow> True
      | (Some (d, n), Some xs) \<Rightarrow>
          length xs = n \<and> (\<exists>m \<ge> n. (unat d, m) \<in> As) \<and> (\<forall>i < n. rd h (d + of_nat i) = xs ! i)
      | _ \<Rightarrow> False)"

definition views :: "'h \<Rightarrow> mem_area set \<Rightarrow> (u64 \<times> nat) option list \<Rightarrow> u8 list option list \<Rightarrow> bool" where
  "views h As ps as \<longleftrightarrow>
     state h As \<and> list_all2 (seen h As) ps as \<and>
     (\<forall>j k d n e m. j < length ps \<longrightarrow> k < length ps \<longrightarrow> j \<noteq> k \<longrightarrow> ps ! j = Some (d, n) \<longrightarrow> ps ! k = Some (e, m) \<longrightarrow> d \<noteq> e)"

lemma byte_in:
  assumes "state h As" "(unat d, m) \<in> As" "i < m"
  shows "in_area (d + of_nat i) (unat d, m)"
proof -
  have "unat d + m < 2 ^ 64" using areas_fit [OF assms(1,2)] by simp
  then have "unat (of_nat i :: u64) = i" "unat (d + of_nat i) = unat d + i"
    using assms(3) by (simp_all add: unat_of_nat unat_add_no_overflow)
  then show ?thesis using assms(3) by (simp add: in_area_def)
qed

lemma seen_keep:
  assumes s: "seen h As p a" and st: "state h As"
    and b: "\<And>B q. B \<in> As \<Longrightarrow> B \<in> As' \<Longrightarrow> in_area q B \<Longrightarrow> rd h' q = rd h q"
    and all: "\<And>d m B. p = Some (d, m) \<Longrightarrow> B \<in> As \<Longrightarrow> fst B = unat d \<Longrightarrow> B \<in> As'"
  shows "seen h' As' p a"
proof (cases p)
  case None
  then show ?thesis using s by (simp add: seen_def split: option.splits)
next
  case (Some dn)
  obtain d n where p: "p = Some (d, n)" using Some by (cases dn) auto
  obtain xs m where a: "a = Some xs" "length xs = n" "m \<ge> n" "(unat d, m) \<in> As" "\<forall>i < n. rd h (d + of_nat i) = xs ! i"
    using s p by (auto simp: seen_def split: option.splits)
  have A': "(unat d, m) \<in> As'" using all [OF p a(4)] by simp
  have "rd h' (d + of_nat i) = xs ! i" if "i < n" for i
    using b [OF a(4) A' byte_in [OF st a(4)], of i] a(3,5) that by simp
  then show ?thesis using p a A' by (auto simp: seen_def)
qed

lemma seen_slot:
  assumes v: "views h As ps as" and p: "slot ps k = Some (d, n)"
  obtains a m where "slot as k = Some a" "length a = n" "n \<le> m" "(unat d, m) \<in> As" "k < length ps" "k < length as" "ps ! k = Some (d, n)"
    "\<forall>i < n. rd h (d + of_nat i) = a ! i"
proof -
  have k: "k < length ps" "ps ! k = Some (d, n)" using p by (auto simp: slot_def split: if_splits)
  have l: "list_all2 (seen h As) ps as" using v by (simp add: views_def)
  then have len: "length as = length ps" by (simp add: list_all2_lengthD)
  have "seen h As (ps ! k) (as ! k)" using l k(1) by (simp add: list_all2_conv_all_nth)
  then show ?thesis using that k len by (auto simp: seen_def slot_def split: option.splits)
qed

lemma slot_none:
  assumes v: "views h As ps as" and p: "slot ps k = None"
  shows "slot as k = None" "as[k := None] = as"
proof -
  have l: "list_all2 (seen h As) ps as" using v by (simp add: views_def)
  then have len: "length as = length ps" by (simp add: list_all2_lengthD)
  show n: "slot as k = None"
  proof (cases "k < length ps")
    case True
    then have "seen h As (ps ! k) (as ! k)" "ps ! k = None" using l p by (auto simp: list_all2_conv_all_nth slot_def)
    then show ?thesis by (auto simp: seen_def slot_def split: option.splits)
  qed (simp add: slot_def len)
  show "as[k := None] = as" using n by (cases "k < length as") (auto simp: slot_def list_update_same_conv list_update_beyond)
qed

lemma views_alloc:
  assumes v: "views h As ps as" and g: "good sz al"
  obtains d h' As' where "alloc sz al h = Some (d, h')"
    "views h' As' (ps @ [if d = 0 then None else Some (d, unat sz)]) (as @ [if d \<noteq> 0 then Some (replicate (unat sz) 0) else None])"
proof -
  have st: "state h As" and l: "list_all2 (seen h As) ps as" using v by (auto simp: views_def)
  obtain d h' where a: "alloc sz al h = Some (d, h')"
    "d = 0 \<and> h' = h \<or> d \<noteq> 0 \<and> (\<exists>n. unat sz \<le> n \<and> unat d \<notin> fst ` As \<and> state h' (insert (unat d, n) As) \<and>
       (\<forall>q. in_area q (unat d, n) \<longrightarrow> rd h' q = 0) \<and> (\<forall>B \<in> As. \<forall>q. in_area q B \<longrightarrow> rd h' q = rd h q))"
    using alloc_law [OF st g] by blast
  show ?thesis
  proof (cases "d = 0")
    case True
    then have "views h' As (ps @ [None]) (as @ [None])"
      using v a(2) by (auto simp: views_def seen_def nth_append list_all2_appendI split: if_splits)
    then show ?thesis using that [OF a(1)] True by simp
  next
    case False
    then obtain n where n: "unat sz \<le> n" "unat d \<notin> fst ` As" "state h' (insert (unat d, n) As)"
      "\<forall>q. in_area q (unat d, n) \<longrightarrow> rd h' q = 0" "\<forall>B \<in> As. \<forall>q. in_area q B \<longrightarrow> rd h' q = rd h q"
      using a(2) by blast
    let ?As = "insert (unat d, n) As"
    have "seen h' ?As p x" if "seen h As p x" for p x
      by (rule seen_keep [OF that st]) (use n(5) in auto)
    with l have "list_all2 (seen h' ?As) ps as" by (rule list_all2_mono)
    moreover have "seen h' ?As (Some (d, unat sz)) (Some (replicate (unat sz) 0))"
    proof -
      have "rd h' (d + of_nat i) = 0" if "i < unat sz" for i
        using n(1,4) byte_in [OF n(3), of d n i] that by simp
      then show ?thesis using n(1) by (auto simp: seen_def)
    qed
    moreover have "e \<noteq> d" if "k < length ps" "ps ! k = Some (e, m)" for k e m
    proof -
      have "slot ps k = Some (e, m)" using that by (simp add: slot_def)
      then obtain m' where "(unat e, m') \<in> As" by (rule seen_slot [OF v])
      then show ?thesis using n(2) by force
    qed
    ultimately have "views h' ?As (ps @ [Some (d, unat sz)]) (as @ [Some (replicate (unat sz) 0)])"
      using v n(3) by (auto simp: views_def nth_append list_all2_appendI less_Suc_eq split: if_splits)
    then show ?thesis using that [OF a(1)] False by simp
  qed
qed

lemma views_free:
  assumes v: "views h As ps as" and p: "slot ps k = Some (d, n)"
  obtains h' As' where "free d h = Some h'" "views h' As' (ps[k := None]) (as[k := None])"
proof -
  have st: "state h As" and l: "list_all2 (seen h As) ps as" using v by (auto simp: views_def)
  have len: "length as = length ps" using l by (simp add: list_all2_lengthD)
  obtain a m where s: "(unat d, m) \<in> As" "k < length ps" "ps ! k = Some (d, n)" by (rule seen_slot [OF v p])
  let ?As = "As - {(unat d, m)}"
  obtain h' where h': "free d h = Some h'" "state h' ?As" "\<forall>B \<in> ?As. \<forall>q. in_area q B \<longrightarrow> rd h' q = rd h q"
    using free_law [OF st s(1)] by blast
  have "seen h' ?As (ps[k := None] ! j) (as[k := None] ! j)" if j: "j < length ps" for j
  proof (cases "j = k")
    case True
    then show ?thesis using s(2) len by (simp add: seen_def)
  next
    case False
    have sj: "seen h As (ps ! j) (as ! j)" using l j by (simp add: list_all2_conv_all_nth)
    have ne: "unat e \<noteq> unat d" if "ps ! j = Some (e, m')" for e m'
      using v j s(2,3) False that unfolding views_def word_unat_eq_iff [symmetric] by metis
    have "seen h' ?As (ps ! j) (as ! j)"
    proof (rule seen_keep [OF sj st])
      show "rd h' q = rd h q" if "B \<in> ?As" "in_area q B" for B q using h'(3) that by blast
      show "B \<in> ?As" if "ps ! j = Some (e, m')" "B \<in> As" "fst B = unat e" for e m' B using ne [OF that(1)] that(2,3) by auto
    qed
    then show ?thesis using False by simp
  qed
  then have "list_all2 (seen h' ?As) (ps[k := None]) (as[k := None])" using len by (simp add: list_all2_conv_all_nth)
  moreover have "\<forall>i j d n e m. i < length ps \<longrightarrow> j < length ps \<longrightarrow> i \<noteq> j \<longrightarrow> ps[k := None] ! i = Some (d, n) \<longrightarrow>
      ps[k := None] ! j = Some (e, m) \<longrightarrow> d \<noteq> e"
  proof (intro allI impI)
    fix i j e1 n1 e2 n2
    assume a: "i < length ps" "j < length ps" "i \<noteq> j" "ps[k := None] ! i = Some (e1, n1)" "ps[k := None] ! j = Some (e2, n2)"
    then have "k \<noteq> i" "k \<noteq> j" by auto
    then have "ps ! i = Some (e1, n1)" "ps ! j = Some (e2, n2)" using a by simp_all
    then show "e1 \<noteq> e2" using v a(1-3) unfolding views_def by blast
  qed
  ultimately have "views h' ?As (ps[k := None]) (as[k := None])" using h'(2) by (simp add: views_def)
  then show ?thesis by (rule that [OF h'(1)])
qed

lemma views_write:
  assumes v: "views h As ps as" and p: "slot ps k = Some (d, n)" "slot as k = Some a" and i: "i < n"
  shows "views (wr (d + of_nat i) x h) As ps (as[k := Some (a[i := x])])"
proof -
  have st: "state h As" and l: "list_all2 (seen h As) ps as" using v by (auto simp: views_def)
  have len: "length as = length ps" using l by (simp add: list_all2_lengthD)
  obtain a' m where s: "slot as k = Some a'" "length a' = n" "n \<le> m" "(unat d, m) \<in> As" "k < length ps" "ps ! k = Some (d, n)"
    "\<forall>i < n. rd h (d + of_nat i) = a' ! i"
    by (rule seen_slot [OF v p(1)])
  have a: "length a = n" "\<forall>i < n. rd h (d + of_nat i) = a ! i" using s p(2) by auto
  let ?q = "d + of_nat i" and ?h = "wr (d + of_nat i) x h"
  have iq: "in_area ?q (unat d, m)" by (rule byte_in [OF st s(4)]) (use i s(3) in simp)
  have st': "state ?h As" by (rule write_law [OF st s(4) iq])
  have "seen ?h As (ps ! j) (as[k := Some (a[i := x])] ! j)" if j: "j < length ps" for j
  proof (cases "j = k")
    case True
    have "rd ?h (d + of_nat i') = a[i := x] ! i'" if i': "i' < n" for i'
    proof (cases "i' = i")
      case False
      have "unat (d + of_nat i') \<noteq> unat ?q"
      proof -
        have "unat d + m < 2 ^ 64" using areas_fit [OF st s(4)] by simp
        then have "unat (d + of_nat x) = unat d + x" if "x < n" for x
          using that s(3) by (subst unat_add_no_overflow) (simp_all add: unat_of_nat)
        then show ?thesis using i i' False by simp
      qed
      then show ?thesis using a i' False by (auto simp: read_law [OF st])
    qed (use i a in \<open>simp add: read_law [OF st]\<close>)
    then show ?thesis using True s len a(1) by (auto simp: seen_def)
  next
    case False
    have sj: "seen h As (ps ! j) (as ! j)" using l j by (simp add: list_all2_conv_all_nth)
    have "seen ?h As (ps ! j) (as ! j)"
    proof (cases "ps ! j")
      case None
      then show ?thesis using sj by (simp add: seen_def split: option.splits)
    next
      case (Some en)
      then obtain e m1 where e: "ps ! j = Some (e, m1)" by (cases en) auto
      then have "slot ps j = Some (e, m1)" using j by (simp add: slot_def)
      then obtain b m2 where b: "slot as j = Some b" "length b = m1" "m1 \<le> m2" "(unat e, m2) \<in> As"
        "\<forall>i < m1. rd h (e + of_nat i) = b ! i" by (rule seen_slot [OF v])
      have "e \<noteq> d" using v j s(5,6) e False unfolding views_def by metis
      then have ap: "apart (unat d, m) (unat e, m2)" by (intro areas_apart [OF st s(4) b(4)]) (auto simp: word_unat_eq_iff)
      have "rd ?h (e + of_nat i') = b ! i'" if "i' < m1" for i'
      proof -
        have "in_area (e + of_nat i') (unat e, m2)" by (rule byte_in [OF st b(4)]) (use that b(3) in simp)
        then have "e + of_nat i' \<noteq> ?q" using apart_not_in [OF ap iq] by metis
        then show ?thesis using b(5) that by (simp add: read_law [OF st])
      qed
      moreover have "as ! j = Some b" using b(1) by (auto simp: slot_def split: if_splits)
      ultimately show ?thesis using e b by (auto simp: seen_def)
    qed
    then show ?thesis using False by simp
  qed
  then have "list_all2 (seen ?h As) ps (as[k := Some (a[i := x])])" using len by (simp add: list_all2_conv_all_nth)
  then show ?thesis using v st' by (simp add: views_def)
qed

text \<open>Every program reads from the allocator what it reads from separate arrays.\<close>

lemma reads_as_arrays:
  assumes "views h As ps as" "good_ops good ops"
  shows "\<exists>out oks. client_run alloc free rd wr ops ps h = Some (out, oks) \<and> out = array_run ops oks as"
  using assms
proof (induction ops arbitrary: h As ps as)
  case (Cons x ops)
  have g: "good_ops good ops" using Cons.prems(2) by (simp add: good_ops_Cons)
  show ?case
  proof (cases x)
    case (MAlloc sz al)
    then have "good sz al" using Cons.prems(2) by (simp add: good_ops_Cons)
    from views_alloc [OF Cons.prems(1) this] obtain d h' As' where a: "alloc sz al h = Some (d, h')"
      "views h' As' (ps @ [if d = 0 then None else Some (d, unat sz)])
         (as @ [if d \<noteq> 0 then Some (replicate (unat sz) 0) else None])" .
    from Cons.IH [OF a(2) g] obtain out oks where r: "client_run alloc free rd wr ops (ps @ [if d = 0 then None else Some (d, unat sz)]) h' = Some (out, oks)"
      "out = array_run ops oks (as @ [if d \<noteq> 0 then Some (replicate (unat sz) 0) else None])" by blast
    have "client_run alloc free rd wr (x # ops) ps h = Some (out, (d \<noteq> 0) # oks)" using MAlloc a(1) r(1) by simp
    moreover have "out = array_run (x # ops) ((d \<noteq> 0) # oks) as" using MAlloc r(2) by simp
    ultimately show ?thesis by blast
  next
    case (MFree k)
    show ?thesis
    proof (cases "slot ps k")
      case None
      then show ?thesis using Cons.IH [OF Cons.prems(1) g] MFree slot_none(2) [OF Cons.prems(1) None] by simp
    next
      case (Some dn)
      obtain d n where s: "slot ps k = Some (d, n)" using Some by (cases dn) auto
      obtain h' As' where f: "free d h = Some h'" "views h' As' (ps[k := None]) (as[k := None])"
        by (rule views_free [OF Cons.prems(1) s])
      show ?thesis using Cons.IH [OF f(2) g] MFree s f(1) by simp
    qed
  next
    case (MWrite k i v)
    show ?thesis
    proof (cases "slot ps k")
      case None
      then show ?thesis using Cons.IH [OF Cons.prems(1) g] MWrite slot_none(1) [OF Cons.prems(1) None] by simp
    next
      case (Some dn)
      obtain d n where s: "slot ps k = Some (d, n)" using Some by (cases dn) auto
      obtain a where a: "slot as k = Some a" "length a = n" by (rule seen_slot [OF Cons.prems(1) s])
      show ?thesis
      proof (cases "i < n")
        case True
        show ?thesis using Cons.IH [OF views_write [OF Cons.prems(1) s a(1) True, of v] g] MWrite s a True by simp
      next
        case False
        then have "as[k := Some (a[i := v])] = as" using a by (auto simp: slot_def list_update_same_conv list_update_beyond split: if_splits)
        then show ?thesis using Cons.IH [OF Cons.prems(1) g] MWrite s a False by simp
      qed
    qed
  next
    case (MRead k i)
    show ?thesis
    proof (cases "slot ps k")
      case None
      then show ?thesis using Cons.IH [OF Cons.prems(1) g] MRead slot_none(1) [OF Cons.prems(1) None] by simp
    next
      case (Some dn)
      obtain d n where s: "slot ps k = Some (d, n)" using Some by (cases dn) auto
      obtain a where a: "slot as k = Some a" "length a = n" "\<forall>i < n. rd h (d + of_nat i) = a ! i"
        by (rule seen_slot [OF Cons.prems(1) s])
      from Cons.IH [OF Cons.prems(1) g] obtain out oks where r: "client_run alloc free rd wr ops ps h = Some (out, oks)"
        "out = array_run ops oks as" by blast
      show ?thesis using MRead s a r by simp
    qed
  qed
qed simp

lemma programs:
  assumes "state h {}" "good_ops good ops"
  shows "\<exists>oks. client_run alloc free rd wr ops [] h = Some (array_run ops oks [], oks)"
  using reads_as_arrays [of h "{}" "[]" "[]" ops] assms by (auto simp: views_def)

end

end
