(* ===== verification/MallocClean.thy ===== *)
theory MallocClean
  imports MallocGrow AllocContract
begin

text \<open>
  Free memory is zero: bytes that are not zero are in areas handed out, and no header, current or old, starts in the
  data of a free block. Every operation keeps this, because freeing erases the block and joining erases headers, so an area
  that is handed out is all zero, which \<open>rte_zmalloc\<close> relies on.
\<close>

section \<open>Bytes and headers\<close>

definition in_data :: "eptr \<Rightarrow> eptr \<Rightarrow> elem_block \<Rightarrow> bool" where
  "in_data q a b \<longleftrightarrow> unat a + 128 \<le> unat q \<and> unat q < unat a + unat (me_size b)"

definition clean :: "malloc_heap \<Rightarrow> eblocks \<Rightarrow> bool" where
  "clean h xs \<longleftrightarrow>
     (\<forall>q. mh_data h q \<noteq> 0 \<longrightarrow> (\<exists>A \<in> areas xs. in_area q A)) \<and>
     (\<forall>q. \<forall>(a, b) \<in> set xs. is_free b \<longrightarrow> in_data q a b \<longrightarrow> mh_elems h q = None)"

text \<open>Nothing but zero bytes.\<close>

definition blank :: "malloc_heap \<Rightarrow> mem_area \<Rightarrow> bool" where
  "blank h A \<longleftrightarrow> (\<forall>q. in_area q A \<longrightarrow> mh_data h q = 0 \<and> mh_elems h q = None)"

text \<open>The addresses with headers; operations that change neither these nor the bytes.\<close>

abbreviation heads :: "malloc_heap \<Rightarrow> eptr set" where "heads h \<equiv> dom (mh_elems h)"

definition quiet :: "malloc_heap \<Rightarrow> malloc_heap \<Rightarrow> bool" where
  "quiet h h' \<longleftrightarrow> mh_data h' = mh_data h \<and> heads h' = heads h"

lemma quiet_refl [simp]: "quiet h h"
  by (simp add: quiet_def)

lemma quiet_upd: "upd_elem a f h = Some h' \<Longrightarrow> quiet h h'"
  by (auto simp: upd_elem_def quiet_def split: option.splits if_splits)

lemma quiet_upd_if: "upd_elem_if a f h = Some h' \<Longrightarrow> quiet h h'"
  by (auto simp: upd_elem_if_def quiet_upd split: if_splits)

lemma quiet_trans [trans]: "quiet h h' \<Longrightarrow> quiet h' h'' \<Longrightarrow> quiet h h''"
  by (simp add: quiet_def)

lemma quiet_join: "join_elem a c h = Some h' \<Longrightarrow> quiet h h'"
  unfolding join_elem_def
  by (auto simp: bind_eq_Some_conv split: if_splits dest!: quiet_upd) (auto simp: quiet_def)

lemma quiet_remove: "remove_elem a h = Some h' \<Longrightarrow> quiet h h'"
  unfolding remove_elem_def
  by (auto simp: bind_eq_Some_conv split: if_splits dest!: quiet_upd) (auto simp: quiet_def)

lemma quiet_list_insert: "malloc_elem_free_list_insert a h = Some h' \<Longrightarrow> quiet h h'"
  unfolding malloc_elem_free_list_insert_def
  by (auto simp: bind_eq_Some_conv Let_def split: if_splits dest!: quiet_upd) (auto simp: quiet_def)

lemma quiet_list_remove: "malloc_elem_free_list_remove a h = Some h' \<Longrightarrow> quiet h h'"
  unfolding malloc_elem_free_list_remove_def
  by (auto simp: bind_eq_Some_conv quiet_def split: if_splits)

text \<open>Splitting adds one header.\<close>

lemma split_adds:
  assumes "split_elem a s h = Some h'"
  shows "mh_data h' = mh_data h \<and> heads h' = insert s (heads h)"
proof -
  obtain E where E: "mh_elems h a = Some E" using assms by (auto simp: split_elem_def bind_eq_Some_conv)
  define h0 where "h0 = malloc_elem_init s (me_msl E) (me_size E - (s - a)) (me_orig_elem E) (me_orig_size E) h"
  have 0: "mh_data h0 = mh_data h" "heads h0 = insert s (heads h)" by (auto simp: h0_def malloc_elem_init_def)
  have "quiet h0 h'"
    using assms unfolding split_elem_def E h0_def [symmetric]
    by (auto simp: bind_eq_Some_conv E Let_def h0_def [symmetric] split: if_splits dest!: quiet_upd) (auto simp: quiet_def)
  with 0 show ?thesis by (simp add: quiet_def)
qed

section \<open>Allocation\<close>

lemma alloc_adds:
  assumes st: "elem_start_pt cf a sz align bound contig h = Some p" and E: "mh_elems h a = Some E"
    and run: "malloc_elem_alloc cf a sz align bound contig h = Some (p', h')"
  shows "mh_data h' = mh_data h"
    "heads h' \<subseteq> heads h \<union> {p} \<union> (if me_size E - (p - a) - sz - 128 > 192 then {p + (sz + 128)} else {})"
proof -
  let ?big = "me_size E - (p - a) - sz - 128 > 192"
  obtain h1 where h1: "malloc_elem_free_list_remove a h = Some h1"
    using run by (cases "malloc_elem_free_list_remove a h") (auto simp: malloc_elem_alloc_def st E Let_def)
  have n192: "(128 + 64 :: u64) = 192" by simp
  let ?blk = "if ?big then do {
        h \<leftarrow> split_elem a (p + (sz + 128)) h1;
        h \<leftarrow> malloc_elem_free_list_insert (p + (sz + 128)) h;
        Some (if a = mh_last h then h\<lparr>mh_last := p + (sz + 128)\<rparr> else h) }
      else Some h1"
  obtain h2 where h2: "?blk = Some h2"
  proof (cases ?blk)
    case None
    then have "malloc_elem_alloc cf a sz align bound contig h = None"
      by (simp only: malloc_elem_alloc_def st E h1 Let_def bind.bind_lunit bind.bind_lzero n192)
    with run show ?thesis by simp
  qed
  note rest = malloc_elem_alloc_steps [OF st E h1 h2]
  note q1 = quiet_list_remove [OF h1]
  have 2: "mh_data h2 = mh_data h1" "heads h2 \<subseteq> heads h1 \<union> (if ?big then {p + (sz + 128)} else {})"
    using h2 by (auto simp: bind_eq_Some_conv split: if_splits dest!: quiet_list_insert split_adds)
       (auto simp: quiet_def)
  have "mh_data h' = mh_data h2" "heads h' \<subseteq> insert p (heads h2)"
    using run unfolding rest alloc_finish_def
    by (auto simp: bind_eq_Some_conv split: if_splits dest!: quiet_list_insert split_adds quiet_upd) (auto simp: quiet_def)
  with 2 q1 show "mh_data h' = mh_data h" "heads h' \<subseteq> heads h \<union> {p} \<union> (if ?big then {p + (sz + 128)} else {})"
    unfolding quiet_def by (simp, blast)
qed

lemma clean_heads: "clean h xs \<Longrightarrow> (a, b) \<in> set xs \<Longrightarrow> is_free b \<Longrightarrow> in_data q a b \<Longrightarrow> q \<notin> heads h"
  unfolding clean_def by fastforce

lemma clean_area: "clean h xs \<Longrightarrow> mh_data h q \<noteq> 0 \<Longrightarrow> \<exists>A \<in> areas xs. in_area q A"
  unfolding clean_def by blast

lemma in_data_in: "in_data q a b \<Longrightarrow> inside q a b"
  by (simp add: in_data_def inside_def)

lemma clean_zero:
  assumes c: "clean h xs" and s: "shapes xs" "\<forall>(a, b) \<in> set xs. state_ok b" and a: "(a, b) \<in> set xs" "is_free b" "inside q a b"
  shows "mh_data h q = 0"
proof (rule ccontr)
  assume "mh_data h q \<noteq> 0"
  then obtain s n where A: "(s, n) \<in> areas xs" "s \<le> unat q" "unat q < s + n" using c by (force simp: clean_def in_area_def)
  then obtain c d where d: "(c, d) \<in> set xs" "is_busy d" "unat c + 128 \<le> s" "s + n = unat c + unat (me_size d)"
    using areas_in_blocks [OF s A(1)] by blast
  then have "inside q c d" using A by (simp add: inside_def)
  then have "(a, b) = (c, d)" using inside_once [OF _ a(1) d(1) a(3)] s(1) by (simp add: shapes_def)
  then show False using a(2) d(2) by simp
qed

text \<open>
  The blocks \<open>ms\<close> take the place of a free block. New headers are those of \<open>ms\<close>, and one inside a busy block. Then free memory
  stays clean, and an area in \<open>ms\<close> is blank behind its header.
\<close>

lemma clean_carve:
  assumes c: "clean h (ps @ (a, b) # ss)" and s: "shapes (ps @ (a, b) # ss)" and f: "is_free b"
    and ms: "carves cf a b ms" and d: "mh_data h' = mh_data h" and T: "T \<subseteq> addrs ms"
    and heads: "heads h' \<subseteq> heads h \<union> {p} \<union> T" and p: "(x, y) \<in> set ms" "is_busy y" "inside p x y"
  shows "clean h' (ps @ ms @ ss)"
  unfolding clean_def
proof (intro conjI allI impI)
  fix q assume "mh_data h' q \<noteq> 0"
  then obtain A where "A \<in> areas (ps @ (a, b) # ss)" "in_area q A" using c d unfolding clean_def by metis
  then show "\<exists>A \<in> areas (ps @ ms @ ss). in_area q A" using f by auto
next
  fix q
  have msok: "shapes ms" "\<forall>(c, d) \<in> set ms. unat a \<le> unat c \<and> unat c + unat (me_size d) \<le> unat a + unat (me_size b)"
    using ms by (auto simp: carves_def blocks_ok_def shapes_def)
  have within: "inside q a b" if "(v, w) \<in> set ms" "inside q v w" for q v w
    using that msok(2) by (force simp: inside_def)
  have none: "mh_elems h' q = None" if vw: "(v, w) \<in> set (ps @ ms @ ss)" "is_free w" "in_data q v w" for v w
  proof -
    have iq: "inside q v w" using vw(3) by (rule in_data_in)
    have "q \<notin> heads h \<and> q \<noteq> p \<and> q \<notin> T"
    proof (cases "(v, w) \<in> set ms")
      case True
      have "unat a + 128 \<le> unat q" "unat q < unat a + unat (me_size b)"
        using True vw(3) msok(2) by (force simp: in_data_def)+
      then have "q \<notin> heads h" by (intro clean_heads [OF c _ f]) (auto simp: in_data_def)
      moreover have "q \<noteq> p"
        using inside_once [OF _ True p(1) iq] p(2,3) vw(2) msok(1) by (auto simp: shapes_def)
      moreover have "q \<notin> T"
      proof
        assume "q \<in> T"
        then obtain u where u: "(q, u) \<in> set ms" using T by force
        then have "inside q q u" using msok(1) inside_self by (auto simp: shapes_def)
        then have "(v, w) = (q, u)" using inside_once [OF _ True u iq] msok(1) by (simp add: shapes_def)
        then show False using vw(3) by (simp add: in_data_def)
      qed
      ultimately show ?thesis by simp
    next
      case False
      then have vw1: "(v, w) \<in> set (ps @ ss)" using vw(1) by auto
      then have "q \<notin> heads h" by (intro clean_heads [OF c _ vw(2,3)]) auto
      moreover have off: "\<not> inside q a b"
      proof
        assume "inside q a b"
        then have "(v, w) = (a, b)" using inside_once [OF _ _ _ iq, of "ps @ (a, b) # ss" a b] s vw1 by (auto simp: shapes_def)
        moreover have "a \<notin> addrs (ps @ ss)"
          using other_not_inside [OF s, of a] inside_self [of a b] s by auto
        ultimately show False using vw1 by (auto dest: addrsI)
      qed
      moreover have "q \<noteq> p" using off within p by blast
      moreover have "q \<notin> T"
      proof
        assume "q \<in> T"
        then obtain u where u: "(q, u) \<in> set ms" using T by force
        then have "inside q q u" using msok(1) inside_self by (auto simp: shapes_def)
        then show False using off within u by blast
      qed
      ultimately show ?thesis by simp
    qed
    then show ?thesis using heads by blast
  qed
  show "\<forall>(a, b) \<in> set (ps @ ms @ ss). is_free b \<longrightarrow> in_data q a b \<longrightarrow> mh_elems h' q = None"
    using none by blast
qed

lemma blank_carve:
  assumes c: "clean h (ps @ (a, b) # ss)" and s: "shapes (ps @ (a, b) # ss)" "\<forall>(a, b) \<in> set (ps @ (a, b) # ss). state_ok b"
    and f: "is_free b" and ms: "carves cf a b ms" and d: "mh_data h' = mh_data h" and T: "T \<subseteq> {c. \<exists>d. (c, d) \<in> set ms \<and> is_free d}"
    and heads: "heads h' \<subseteq> heads h \<union> {p} \<union> T" and A: "(unat p + 128, n) \<in> areas ms"
  shows "blank h' (unat p + 128, n)"
  unfolding blank_def
proof (intro allI impI)
  fix q assume q: "in_area q (unat p + 128, n)"
  have msok: "shapes ms" "\<forall>(c, d) \<in> set ms. state_ok d"
    "\<forall>(c, d) \<in> set ms. unat a \<le> unat c \<and> unat c + unat (me_size d) \<le> unat a + unat (me_size b)"
    using ms by (auto simp: carves_def blocks_ok_def shapes_def)
  obtain x y where xy: "(x, y) \<in> set ms" "is_busy y" "unat x + 128 \<le> unat p + 128"
    "unat p + 128 + n = unat x + unat (me_size y)"
    using areas_in_blocks [OF msok(1,2) A] by blast
  have iq: "inside q x y" using q xy by (simp add: in_area_def inside_def)
  have dq: "in_data q a b" using q xy msok(3) by (force simp: in_area_def in_data_def)
  then have "q \<notin> heads h" by (intro clean_heads [OF c _ f]) auto
  moreover have "q \<noteq> p" using q by (auto simp: in_area_def)
  moreover have "q \<notin> T"
  proof
    assume "q \<in> T"
    then obtain u where u: "(q, u) \<in> set ms" "is_free u" using T by force
    then have "inside q q u" using msok(1) inside_self by (auto simp: shapes_def)
    then have "(x, y) = (q, u)" using inside_once [OF _ xy(1) u(1) iq] msok(1) by (simp add: shapes_def)
    then show False using xy(2) u(2) by simp
  qed
  ultimately have "mh_elems h' q = None" using heads by blast
  moreover have "mh_data h q = 0" by (rule clean_zero [OF c s _ f in_data_in [OF dq]]) simp
  ultimately show "mh_data h' q = 0 \<and> mh_elems h' q = None" using d by simp
qed

section \<open>What users see\<close>

text \<open>A heap in a good state, with the areas handed out.\<close>

definition heap_state :: "malloc_conf \<Rightarrow> malloc_heap \<Rightarrow> mem_area set \<Rightarrow> bool" where
  "heap_state cf h As \<longleftrightarrow> (\<exists>xs. heap_ok cf h xs \<and> placed cf xs \<and> clean h xs \<and> As = areas xs)"

lemma heap_stateI: "heap_ok cf h xs \<Longrightarrow> placed cf xs \<Longrightarrow> clean h xs \<Longrightarrow> areas xs = As \<Longrightarrow> heap_state cf h As"
  by (auto simp: heap_state_def)

lemma areas_apart':
  assumes "shapes xs" "\<forall>(a, b) \<in> set xs. state_ok b" "A \<in> areas xs" "B \<in> areas xs" "A \<noteq> B"
  shows "apart A B"
  using areas_apart [OF assms(1,2), of "fst A" "snd A" "fst B" "snd B"] assms(3-5)
  by (simp add: apart_def prod_eq_iff)

lemma heap_state_apart: "heap_state cf h As \<Longrightarrow> A \<in> As \<Longrightarrow> B \<in> As \<Longrightarrow> A \<noteq> B \<Longrightarrow> apart A B"
  unfolding heap_state_def heap_ok_def
  using areas_apart' heap_inv_shapes by blast

lemma placed_carve:
  assumes "placed cf (ps @ (a, b) # ss)" "carves cf a b ms"
  shows "placed cf (ps @ ms @ ss)"
proof -
  have "mc_legacy_mem cf \<or> ml_external (mc_msl cf (me_msl d)) \<or> msl_ok (mc_msl cf (me_msl d)) \<and> in_msl (mc_msl cf (me_msl d)) c d"
    if "(c, d) \<in> set ms" for c d
  proof -
    have c: "unat a \<le> unat c" "unat c + unat (me_size d) \<le> unat a + unat (me_size b)" "me_msl d = me_msl b"
      using assms(2) that by (auto simp: carves_def)
    show ?thesis using assms(1) c(3) in_msl_part [OF _ c(1,2)] by auto
  qed
  then have "placed cf ms" by (auto simp: placed_def)
  then show ?thesis using assms(1) by simp
qed

lemma alloc_contract:
  assumes H: "heap_state cf h As" and sz: "unat sz \<le> 2 ^ 64 - 64" and al: "unat align = 2 ^ k" "k \<le> 30"
    and bd: "bound_ok bound (CACHE_LINE_ROUNDUP sz)"
  shows "\<exists>d h'. heap_alloc cf sz flags align bound contig h = Some (d, h') \<and>
    (d = 0 \<and> h' = h \<or>
     d \<noteq> 0 \<and> (\<exists>n. unat sz \<le> n \<and> unat align dvd unat d \<and> unat d \<notin> fst ` As \<and> heap_state cf h' (insert (unat d, n) As) \<and>
        blank h' (unat d, n) \<and> mh_data h' = mh_data h))"
proof -
  obtain xs where H: "heap_ok cf h xs" "placed cf xs" "clean h xs" and As: "As = areas xs"
    using H by (auto simp: heap_state_def)
  show ?thesis
  proof (cases rule: heap_alloc_ok [OF H(1) sz al bd, of flags contig])
    case 1
    then show ?thesis by blast
  next
    case (2 ps a b ss d n h')
    let ?sz = "CACHE_LINE_ROUNDUP sz" and ?al = "ucast (CACHE_LINE_ROUNDUP align) :: u32" and ?p = "d - 128"
    let ?ms = "alloc_blocks a b ?p ?sz"
    obtain h1 where h1: "malloc_elem_alloc cf a ?sz ?al bound contig h = Some (?p, h1)" "h' = h1\<lparr>mh_alloc_count := mh_alloc_count h1 + 1\<rparr>"
      using 2(12) by blast
    have I: "heap_inv cf h (ps @ (a, b) # ss)" using H(1) 2(1) by (simp add: heap_ok_def)
    note S = heap_inv_shapes [OF I]
    then have s: "shapes (ps @ (a, b) # ss)" "\<forall>(a, b) \<in> set (ps @ (a, b) # ss). state_ok b" by blast+
    have sb: "shape_ok a b" "me_pad b = 0" using s 2(2) by (auto simp: state_ok_def)
    have L: "heap_links h (ps @ (a, b) # ss)" using I by (simp add: heap_inv_def)
    have c: "clean h (ps @ (a, b) # ss)" using H(3) 2(1) by simp
    have ms: "carves cf a b ?ms" by (rule alloc_blocks_carves [OF sb(1) 2(2) sb(2) 2(10)])
    let ?T = "if me_size b - (?p - a) - ?sz - 128 > 192 then {?p + (?sz + 128)} else {}"
    note add = alloc_adds [OF 2(11) links_elem [OF L] h1(1), simplified mk_elem_simps]
    have hd: "mh_data h' = mh_data h" "heads h' \<subseteq> heads h \<union> {?p} \<union> ?T" using add h1(2) by simp_all
    have T: "?T \<subseteq> {c. \<exists>d. (c, d) \<in> set ?ms \<and> is_free d}" by (auto simp: alloc_blocks_def alloc_tail_def)
    then have T2: "?T \<subseteq> addrs ?ms" by (force dest: addrsI)
    have A: "(unat ?p + 128, n) \<in> areas ?ms" using 2(13) by simp
    have msok: "shapes ?ms" "\<forall>(c, d) \<in> set ?ms. state_ok d" using ms by (auto simp: carves_def blocks_ok_def shapes_def)
    obtain x y where xy: "(x, y) \<in> set ?ms" "is_busy y" "(unat ?p + 128, n) = area x y"
      using areas_in_blocks [OF msok A] by blast
    have yok: "state_ok y" using msok(2) xy(1) by auto
    have ip: "inside ?p x y" using xy(2,3) yok by (auto simp: area_def inside_def state_ok_def)
    have "clean h' (ps @ ?ms @ ss)" by (rule clean_carve [OF c s(1) 2(2) ms hd(1) T2 hd(2) xy(1,2) ip])
    moreover have "blank h' (unat d, n)"
      using blank_carve [OF c s 2(2) ms hd(1) T hd(2) A] 2(14) by simp
    moreover have "placed cf (ps @ ?ms @ ss)" by (rule placed_carve [OF _ ms]) (use H(2) 2(1) in simp)
    ultimately have st: "heap_state cf h' (insert (unat d, n) As)" "blank h' (unat d, n)"
      using heap_stateI [OF 2(5)] 2(7) As by auto
    have "unat d \<notin> fst ` As"
    proof
      assume "unat d \<in> fst ` As"
      then obtain n' where "(unat d, n') \<in> As" by auto
      then have "(unat ?p + 128, n') \<in> areas (ps @ (a, b) # ss)" using As 2(1,14) by simp
      then obtain v w where vw: "(v, w) \<in> set (ps @ (a, b) # ss)" "is_busy w" "(unat ?p + 128, n') = area v w"
        using areas_in_blocks [OF s] by blast
      then have "state_ok w" using s(2) by auto
      then have "inside ?p v w" using vw(2,3) by (auto simp: area_def inside_def state_ok_def)
      moreover have "inside ?p a b"
        using ip xy(1) ms by (force simp: carves_def inside_def)
      ultimately have "(v, w) = (a, b)" using inside_once [OF _ vw(1), of a b ?p] s(1) by (simp add: shapes_def)
      then show False using vw(2) 2(2) by simp
    qed
    then show ?thesis using 2(3,6,8,9) st hd(1) by blast
  qed
qed

section \<open>Freeing\<close>

text \<open>The bytes and headers in \<open>R\<close> are gone, everything else is as it was.\<close>

definition wiped :: "eptr set \<Rightarrow> malloc_heap \<Rightarrow> malloc_heap \<Rightarrow> bool" where
  "wiped R h h' \<longleftrightarrow> (\<forall>q. mh_data h' q = (if q \<in> R then 0 else mh_data h q)) \<and> heads h' = heads h - R"

lemma wiped_quiet: "quiet h h' \<Longrightarrow> wiped {} h h'"
  by (simp add: wiped_def quiet_def)

lemma wiped_trans: "wiped R h h' \<Longrightarrow> wiped S h' h'' \<Longrightarrow> wiped (R \<union> S) h h''"
  by (auto simp: wiped_def)

lemma wiped_erase: "wiped {q. q - start < len} h (erase_range start len h)"
  by (auto simp: wiped_def erase_range_def split: if_splits)

lemma wiped_quiet_left: "quiet h h' \<Longrightarrow> wiped R h' h'' \<Longrightarrow> wiped R h h''"
  by (simp add: wiped_def quiet_def)

lemma wiped_quiet_right: "wiped R h h' \<Longrightarrow> quiet h' h'' \<Longrightarrow> wiped R h h''"
  by (simp add: wiped_def quiet_def)

text \<open>The header of a neighbour that is joined is erased.\<close>

lemma join_next_wipes:
  assumes L: "heap_links h (ps @ (a, b) # ss)" and st: "\<forall>(c, d) \<in> set ss. state_ok d" and s: "shapes (ps @ (a, b) # ss)"
    and run: "join_next cf a h = Some h'"
  shows "\<exists>R. wiped R h h' \<and>
    (case ss of [] \<Rightarrow> R = {}
     | (c, d) # _ \<Rightarrow> R = (if is_free d \<and> joinable cf (a, b) (c, d) then {q. q - c < 128} else {}))"
proof (cases "case ss of [] \<Rightarrow> False | (c, d) # _ \<Rightarrow> is_free d \<and> joinable cf (a, b) (c, d)")
  case False
  then have "h' = h" using run by (simp add: join_next_def next_is_free_eq [OF L])
  then show ?thesis using False by (intro exI [of _ "{}"]) (auto simp: wiped_quiet split: list.splits)
next
  case True
  then obtain c d ss' where ss: "ss = (c, d) # ss'" "is_free d" "joinable cf (a, b) (c, d)" by (cases ss) auto
  have L': "heap_links h ((ps @ [(a, b)]) @ (c, d) # ss')" using L ss by simp
  have "me_pad d = 0" using st ss(1,2) by (auto simp: state_ok_def)
  then obtain h1 h2 where r: "malloc_elem_free_list_remove c h = Some h1" "join_elem a c h1 = Some h2" "h' = erase_range c 128 h2"
    using run by (auto simp: join_next_def next_is_free_eq [OF L] ss links_elem [OF L] links_elem [OF L'] bind_eq_Some_conv)
  have "wiped {q. q - c < 128} h h'"
    unfolding r(3)
    by (rule wiped_quiet_left [OF quiet_trans [OF quiet_list_remove [OF r(1)] quiet_join [OF r(2)]] wiped_erase])
  then show ?thesis using ss by auto
qed

lemma join_prev_wipes:
  assumes L: "heap_links h (ps @ (a, b) # ss)" and run: "join_prev cf a h = Some (a', h')"
  shows "\<exists>R. wiped R h h' \<and>
    R = (if ps \<noteq> [] \<and> is_free (snd (last ps)) \<and> joinable cf (last ps) (a, b) then {q. q - a < 128 + ucast (me_pad b)} else {})"
proof (cases "ps \<noteq> [] \<and> is_free (snd (last ps)) \<and> joinable cf (last ps) (a, b)")
  case False
  then have "h' = h" using run by (simp add: join_prev_def prev_is_free_eq [OF L] False)
  then show ?thesis using False by (auto simp: wiped_quiet)
next
  case True
  obtain h1 h2 where r: "malloc_elem_free_list_remove (last_of 0 ps) h = Some h1" "join_elem (last_of 0 ps) a h1 = Some h2"
    "h' = erase_range a (128 + ucast (me_pad b)) h2"
    using run by (auto simp: join_prev_def prev_is_free_eq [OF L] True links_elem [OF L] bind_eq_Some_conv Let_def)
  have "wiped {q. q - a < 128 + ucast (me_pad b)} h h'"
    unfolding r(3)
    by (rule wiped_quiet_left [OF quiet_trans [OF quiet_list_remove [OF r(1)] quiet_join [OF r(2)]] wiped_erase])
  then show ?thesis using True by auto
qed

lemma offsets:
  assumes "shape_ok a b"
  shows "in_data q a b \<Longrightarrow> q - (a + 128) < me_size b - 128" "inside q a b \<Longrightarrow> \<not> in_data q a b \<Longrightarrow> q - a < 128"
proof -
  have a: "unat (a + 128) = unat a + 128" "unat (me_size b - 128) = unat (me_size b) - 128"
    using assms by (auto simp: shape_ok_def unat_add_no_overflow ptr_diff)
  show "q - (a + 128) < me_size b - 128" if "in_data q a b"
    using that a ptr_diff [of "a + 128" q] by (auto simp: in_data_def unat_less_iff)
  show "q - a < 128" if "inside q a b" "\<not> in_data q a b"
    using that ptr_diff [of a q] by (auto simp: in_data_def inside_def unat_less_iff)
qed

definition next_joins :: "malloc_conf \<Rightarrow> eptr \<Rightarrow> elem_block \<Rightarrow> eblocks \<Rightarrow> eptr \<Rightarrow> elem_block \<Rightarrow> bool" where
  "next_joins cf a b ss c d \<longleftrightarrow> (\<exists>ss'. ss = (c, d) # ss') \<and> is_free d \<and> joinable cf (a, b) (c, d)"

definition prev_joins :: "malloc_conf \<Rightarrow> eblocks \<Rightarrow> eptr \<Rightarrow> elem_block \<Rightarrow> bool" where
  "prev_joins cf ps a b \<longleftrightarrow> ps \<noteq> [] \<and> is_free (snd (last ps)) \<and> joinable cf (last ps) (a, b)"

lemma free_wipes:
  assumes L: "heap_links h (ps @ (a, b) # ss)" and l: "listed (mh_free h) (ps @ ss)" and s: "shapes (ps @ (a, b) # ss)"
    and st: "\<forall>(c, d) \<in> set (ps @ ss). state_ok d" and pad: "unat (me_pad b) + 128 \<le> unat (me_size b)" and f: "is_free b"
    and n: "no_joinable cf ss" and run: "malloc_elem_free cf a h = Some (e, h')"
  shows "\<exists>R. wiped R h h' \<and> {q. in_data q a b} \<subseteq> R \<and>
    (\<forall>c d. next_joins cf a b ss c d \<longrightarrow> {q. q - c < 128} \<subseteq> R) \<and> (prev_joins cf ps a b \<longrightarrow> {q. q - a < 128} \<subseteq> R) \<and>
    R \<subseteq> {q. inside q a b \<or> (\<exists>c d. next_joins cf a b ss c d \<and> inside q c d)}"
proof -
  obtain b1 ss1 where m1: "merge_next cf a b ss = (b1, ss1)" by force
  obtain h1 where h1: "join_next cf a h = Some h1" "heap_links h1 (ps @ (a, b1) # ss1)"
    by (rule join_next_ok [OF L l s _ m1]) (use st in auto)
  obtain R1 where R1: "wiped R1 h h1" "case ss of [] \<Rightarrow> R1 = {}
     | (c, d) # _ \<Rightarrow> R1 = (if is_free d \<and> joinable cf (a, b) (c, d) then {q. q - c < 128} else {})"
    using join_next_wipes [OF L _ s h1(1)] st by auto
  have F: "me_pad b1 = me_pad b" "\<forall>x. joinable cf x (a, b1) = joinable cf x (a, b)"
  proof -
    have "shapes ((a, b) # ss)" using s by auto
    from merge_next_facts [OF m1 this n f] show "me_pad b1 = me_pad b" "\<forall>x. joinable cf x (a, b1) = joinable cf x (a, b)" by blast+
  qed
  obtain a2 h2 h3 h4 where r: "join_prev cf a h1 = Some (a2, h2)" "malloc_elem_free_list_insert a2 h2 = Some h3"
    "upd_elem a2 (\<lambda>E. E\<lparr>me_pad := 0\<rparr>) h3 = Some h4"
    "h' = erase_range (a + 128) (me_size b - 128) (h4\<lparr>mh_alloc_count := mh_alloc_count h4 - 1\<rparr>)"
    using run by (auto simp: malloc_elem_free_def malloc_elem_join_adjacent_free_def links_elem [OF L] h1(1) Let_def bind_eq_Some_conv)
  obtain R2 where R2: "wiped R2 h1 h2" "R2 = (if prev_joins cf ps a b then {q. q - a < 128 + ucast (me_pad b)} else {})"
    using join_prev_wipes [OF h1(2) r(1)] unfolding F(1) F(2) [rule_format] prev_joins_def by blast
  let ?R3 = "{q. q - (a + 128) < me_size b - 128}"
  have "quiet h4 (h4\<lparr>mh_alloc_count := mh_alloc_count h4 - 1\<rparr>)" by (simp add: quiet_def)
  then have "quiet h2 (h4\<lparr>mh_alloc_count := mh_alloc_count h4 - 1\<rparr>)"
    using quiet_trans quiet_list_insert [OF r(2)] quiet_upd [OF r(3)] by blast
  from wiped_quiet_left [OF this wiped_erase, of "a + 128" "me_size b - 128", folded r(4)]
  have w3: "wiped ?R3 h2 h'" .
  let ?R = "R1 \<union> R2 \<union> ?R3"
  have w: "wiped ?R h h'" by (rule wiped_trans [OF wiped_trans [OF R1(1) R2(1)] w3])
  have sab: "shape_ok a b" using s by auto
  have p2: "unat (128 + ucast (me_pad b) :: u64) = 128 + unat (me_pad b)"
    using unat_lt2p [of "me_pad b"] by (subst unat_add_no_overflow) (simp_all add: unat_pad)
  have "{q. in_data q a b} \<subseteq> ?R" using offsets(1) [OF sab] by blast
  moreover have "{q. q - c < 128} \<subseteq> ?R" if "next_joins cf a b ss c d" for c d
    using that R1(2) by (auto simp: next_joins_def)
  moreover have "{q. q - a < 128} \<subseteq> ?R" if "prev_joins cf ps a b"
  proof -
    have "q - a < 128 + ucast (me_pad b)" if "q - a < 128" for q
      using that p2 by (simp add: unat_less_iff)
    then show ?thesis using that R2(2) by auto
  qed
  moreover have "R1 \<subseteq> {q. \<exists>c d. next_joins cf a b ss c d \<and> inside q c d}"
  proof (cases ss)
    case (Cons cd ss')
    obtain c d where cd: "cd = (c, d)" by force
    have "shape_ok c d" using s Cons cd by auto
    then have "inside q c d" if "q - c < 128" for q
      using in_range_inside [of q c 128 d] that by (simp add: shape_ok_def)
    then show ?thesis using R1(2) Cons cd by (auto simp: next_joins_def)
  qed (use R1(2) in simp)
  moreover have "R2 \<subseteq> {q. inside q a b}"
    using R2(2) in_range_inside [OF _ _ sab, of _ "128 + ucast (me_pad b)"] p2 pad by (auto split: if_splits)
  moreover have "?R3 \<subseteq> {q. inside q a b}" using in_data_inside(1) [OF _ sab] by blast
  ultimately show ?thesis using w by (intro exI [of _ ?R]) blast
qed

text \<open>The sizes of merged blocks.\<close>

lemma merge_next_size:
  assumes "merge_next cf a b ss = (b1, ss1)" "shapes ((a, b) # ss)"
  shows "b1 = b \<and> ss1 = ss \<or>
    (\<exists>c d. next_joins cf a b ss c d \<and> unat c = unat a + unat (me_size b) \<and> shape_ok c d \<and> (c, d) \<in> set ss \<and>
       unat (me_size b1) = unat (me_size b) + unat (me_size d) \<and> ss = (c, d) # ss1)"
  using assms(1)
proof (cases rule: merge_next_cases [of cf a b ss])
  case (2 d ss')
  have sh: "shape_ok a b" "shape_ok (a + me_size b) d" using assms(2) 2(1) by auto
  show ?thesis
    using joined_numbers [OF sh refl] sh(2) 2 assms(1) by (intro disjI2 exI [of _ "a + me_size b"] exI [of _ d]) (auto simp: next_joins_def)
qed (use assms(1) in auto)

lemma merge_prev_size:
  assumes "merge_prev cf ps a b = (ps2, a2, b2)" "shapes (ps @ [(a, b)])"
  shows "(ps2, a2, b2) = (ps, a, b) \<and> \<not> prev_joins cf ps a b \<or>
    (\<exists>e. prev_joins cf ps a b \<and> ps = ps2 @ [(a2, e)] \<and> is_free e \<and> unat a = unat a2 + unat (me_size e) \<and>
       unat (me_size b2) = unat (me_size e) + unat (me_size b))"
  using assms(1)
proof (cases rule: merge_prev_cases [of cf ps a b])
  case (2 qs l e)
  have sh: "shape_ok l e" "shape_ok a b" using assms(2) 2(1) by auto
  show ?thesis
    using joined_numbers [OF sh 2(3)] 2 assms(1) by (intro disjI2 exI [of _ e]) (auto simp: prev_joins_def)
qed (use assms(1) in \<open>auto simp: prev_joins_def\<close>)

lemma free_clean:
  assumes H: "heap_ok cf h (ps @ (a, b) # ss)" and c: "clean h (ps @ (a, b) # ss)" and busy: "is_busy b"
    and u: "upd_elem a (\<lambda>E. E\<lparr>me_state := ELEM_FREE\<rparr>) h = Some h1" and r: "malloc_elem_free cf a h1 = Some (e, h2)"
  shows "clean h2 (free_blocks cf ps a (b\<lparr>me_state := ELEM_FREE\<rparr>) ss)"
    "A \<in> areas (ps @ ss) \<Longrightarrow> in_area q A \<Longrightarrow> mh_data h2 q = mh_data h q"
proof -
  let ?b = "b\<lparr>me_state := ELEM_FREE\<rparr>" and ?xs = "ps @ (a, b) # ss"
  have L: "heap_links h ?xs" and ok: "blocks_ok cf ?xs" and l: "listed (mh_free h) ?xs"
    using H by (auto simp: heap_ok_def heap_inv_def)
  have s: "shapes ?xs" and st: "\<forall>(a, b) \<in> set ?xs. state_ok b" using ok by (auto simp: blocks_ok_def shapes_def)
  have s1: "shapes (ps @ (a, ?b) # ss)" using s by (auto simp: shape_ok_def)
  have h1: "heap_links h1 (ps @ (a, ?b) # ss)" "same_rest {a} h h1"
    by (rule links_upd [OF L, where f = "\<lambda>E. E\<lparr>me_state := ELEM_FREE\<rparr>" and g = "\<lambda>b. b\<lparr>me_state := ELEM_FREE\<rparr>"]; use u in simp)+
  have l1: "listed (mh_free h1) (ps @ ss)" using l busy same_rest_fields [OF h1(2)] by simp
  have st1: "\<forall>(c, d) \<in> set (ps @ ss). state_ok d" using st by auto
  have sb: "state_ok b" "shape_ok a b" using st s by auto
  have pad: "unat (me_pad ?b) + 128 \<le> unat (me_size ?b)" using sb busy by (auto simp: state_ok_def)
  have n: "no_joinable cf ps" "no_joinable cf ss" using ok by (auto simp: blocks_ok_def no_joinable_append no_joinable_Cons)
  obtain R where R: "wiped R h1 h2" "{q. in_data q a ?b} \<subseteq> R"
    "\<forall>c d. next_joins cf a ?b ss c d \<longrightarrow> {q. q - c < 128} \<subseteq> R" "prev_joins cf ps a ?b \<longrightarrow> {q. q - a < 128} \<subseteq> R"
    "R \<subseteq> {q. inside q a ?b \<or> (\<exists>c d. next_joins cf a ?b ss c d \<and> inside q c d)}"
    using free_wipes [OF h1(1) l1 s1 st1 pad _ n(2) r] by auto
  have w: "wiped R h h2" by (rule wiped_quiet_left [OF quiet_upd [OF u] R(1)])
  obtain b1 ss1 where m1: "merge_next cf a ?b ss = (b1, ss1)" by force
  obtain ps3 a3 b3 where m2: "merge_prev cf ps a b1 = (ps3, a3, b3)" by (metis prod_cases3)
  let ?b3 = "b3\<lparr>me_state := ELEM_FREE, me_pad := 0\<rparr>"
  have fb: "free_blocks cf ps a ?b ss = ps3 @ (a3, ?b3) # ss1" by (simp add: free_blocks_def m1 m2)
  have sx: "shapes ((a, ?b) # ss)" using s1 by auto
  have "shapes (ps @ (a, b1) # ss1)" by (rule join_next_ok [OF h1(1) l1 s1 _ m1]) (use st1 in auto)
  then have sy: "shapes (ps @ [(a, b1)])" by auto
  have f1: "is_free b1" using merge_next_facts [OF m1 sx n(2) refl] by simp
  have j1: "prev_joins cf ps a b1 = prev_joins cf ps a ?b"
    using merge_next_facts [OF m1 sx n(2) refl] unfolding prev_joins_def by blast
  have sub: "set ps3 \<subseteq> set ps" "set ss1 \<subseteq> set ss"
    using merge_next_facts [OF m1 sx n(2) refl] merge_prev_facts [OF m2 sy n(1) f1] by blast+
  note N1 = merge_next_size [OF m1 sx] and N2 = merge_prev_size [OF m2 sy, unfolded j1]
  have in_b: "in_data q a ?b = in_data q a b" "inside q a ?b = inside q a b" for q by (simp_all add: in_data_def inside_def)
  have area_R: "q \<in> R" if "in_area q (area a b)" for q
    using that R(2) sb busy by (auto simp: in_area_def area_def in_data_def state_ok_def)
  have data: "\<exists>A \<in> areas (ps3 @ (a3, ?b3) # ss1). in_area q A" if q: "mh_data h2 q \<noteq> 0" for q
  proof -
    have q': "q \<notin> R" "mh_data h q \<noteq> 0" using q w by (auto simp: wiped_def split: if_splits)
    then obtain A where "A \<in> areas ?xs" "in_area q A" using c unfolding clean_def by metis
    then have "A \<in> areas (ps @ ss)" using q'(1) area_R busy by auto
    then show ?thesis using \<open>in_area q A\<close> free_blocks_areas(1) [of ?b cf ps a ss] fb by auto
  qed
  have heads: "q \<notin> heads h2" if vw: "(v, w) \<in> set (ps3 @ (a3, ?b3) # ss1)" "is_free w" "in_data q v w" for q v w
  proof
    assume "q \<in> heads h2"
    then have q: "q \<in> heads h" "q \<notin> R" using w by (auto simp: wiped_def)
    have old: False if "(x, y) \<in> set (ps @ ss)" "is_free y" "in_data q x y" for x y
      using clean_heads [OF c _ that(2,3)] that(1) q(1) by auto
    consider "(v, w) \<in> set (ps @ ss)" | "v = a3" "w = ?b3" using vw(1) sub by auto
    then show False
    proof cases
      case 1
      then show False using old vw(2,3) by blast
    next
      case 2
      then have d3: "unat a3 + 128 \<le> unat q" "unat q < unat a3 + unat (me_size b3)" using vw(3) by (auto simp: in_data_def)
      consider "unat q < unat a" | "inside q a b" | "unat a + unat (me_size b) \<le> unat q" by (force simp: inside_def)
      then show False
      proof cases
        case 1
        then obtain e where "ps = ps3 @ [(a3, e)]" "is_free e" "unat a = unat a3 + unat (me_size e)" using N2 d3(1) by auto
        then show False using old [of a3 e] d3 1 by (simp add: in_data_def)
      next
        case 2
        have nd: "\<not> in_data q a b" using R(2) q(2) in_b by blast
        then have "q - a < 128" by (rule offsets(2) [OF sb(2) 2])
        then have "\<not> prev_joins cf ps a ?b" using R(4) q(2) by blast
        then have "a3 = a" using N2 by auto
        then show False using nd 2 d3 by (simp add: in_data_def inside_def)
      next
        case 3
        have "unat a3 + unat (me_size b3) = unat a + unat (me_size b1)" using N2 by auto
        then have "unat (me_size b) < unat (me_size b1)" using 3 d3(2) by linarith
        then obtain c d where cd: "next_joins cf a ?b ss c d" "unat c = unat a + unat (me_size b)" "shape_ok c d" "(c, d) \<in> set ss"
          "unat (me_size b1) = unat (me_size b) + unat (me_size d)"
          using N1 by auto
        have "inside q c d" using 3 d3 cd \<open>unat a3 + unat (me_size b3) = unat a + unat (me_size b1)\<close> by (simp add: inside_def)
        moreover have "\<not> q - c < 128" using R(3) cd(1) q(2) by blast
        ultimately have "in_data q c d" using offsets(2) [OF cd(3)] by blast
        then show False using old [of c d] cd(1,4) by (auto simp: next_joins_def)
      qed
    qed
  qed
  show "clean h2 (free_blocks cf ps a ?b ss)"
    unfolding fb clean_def using data heads by blast
  show "mh_data h2 q = mh_data h q" if A: "A \<in> areas (ps @ ss)" "in_area q A" for A q
  proof -
    obtain v w where vw: "(v, w) \<in> set (ps @ ss)" "is_busy w" "inside q v w"
      using A by (force simp: areas_def area_def in_area_def inside_def state_ok_def dest!: st1 [rule_format])
    have "q \<notin> R"
    proof
      assume "q \<in> R"
      then have "inside q a b \<or> (\<exists>c d. next_joins cf a ?b ss c d \<and> inside q c d)" using R(5) in_b by blast
      then have "\<exists>x y. (x, y) \<in> set ?xs \<and> inside q x y \<and> (x = a \<and> y = b \<or> is_free y)"
        by (fastforce simp: next_joins_def)
      then obtain x y where xy: "(x, y) \<in> set ?xs" "inside q x y" "x = a \<and> y = b \<or> is_free y" by blast
      have "(x, y) = (v, w)" using inside_once [OF _ xy(1) _ xy(2) vw(3)] s vw(1) by (auto simp: shapes_def)
      then have "(a, b) \<in> set (ps @ ss)" using xy(3) vw(1,2) by auto
      moreover have "a \<notin> addrs (ps @ ss)" using L by (auto simp: heap_links_def)
      ultimately show False by (auto dest: addrsI)
    qed
    then show ?thesis using w by (simp add: wiped_def)
  qed
qed

section \<open>Giving pages back\<close>

lemma hide_adds:
  assumes run: "malloc_elem_hide_region cf a start len h = Some h'"
  shows "mh_data h' = mh_data h" "heads h' \<subseteq> heads h \<union> {start, start + len}"
proof -
  obtain E where E: "mh_elems h a = Some E" using run by (auto simp: malloc_elem_hide_region_def bind_eq_Some_conv)
  obtain r where r: "hide_after cf a (start + len) (me_next E) h = Some r"
    using run by (auto simp: malloc_elem_hide_region_def E bind_eq_Some_conv Let_def)
  define h1 where "h1 = (case r of Inl h \<Rightarrow> h | Inr h \<Rightarrow> h)"
  have 1: "mh_data h1 = mh_data h \<and> heads h1 \<subseteq> heads h \<union> {start + len}"
    using r unfolding hide_after_def h1_def
    by (auto simp: bind_eq_Some_conv Let_def split: if_splits dest!: split_adds quiet_list_insert) (auto simp: quiet_def)
  have "mh_data h' = mh_data h1 \<and> heads h' \<subseteq> heads h1 \<union> {start}"
  proof (cases r)
    case (Inr g)
    then have "h' = h1" using run by (simp add: malloc_elem_hide_region_def E r h1_def Let_def)
    then show ?thesis by blast
  next
    case (Inl g)
    then have g: "h1 = g" by (simp add: h1_def)
    obtain r2 where r2: "hide_before cf a start (me_prev E) g = Some r2"
      "(case r2 of Inr h \<Rightarrow> Some h | Inl (elem, h) \<Rightarrow> remove_elem elem h) = Some h'"
      using run Inl by (auto simp: malloc_elem_hide_region_def E r bind_eq_Some_conv Let_def)
    define h2 where "h2 = (case r2 of Inl (_, h) \<Rightarrow> h | Inr h \<Rightarrow> h)"
    have "mh_data h2 = mh_data g \<and> heads h2 \<subseteq> heads g \<union> {start}"
      using r2(1) unfolding hide_before_def h2_def
      by (auto simp: bind_eq_Some_conv Let_def split: if_splits dest!: split_adds quiet_list_insert) (auto simp: quiet_def)
    moreover have "quiet h2 h'" using r2(2) quiet_remove by (auto simp: h2_def split: sum.splits)
    ultimately show ?thesis by (simp add: quiet_def g)
  qed
  with 1 show "mh_data h' = mh_data h" "heads h' \<subseteq> heads h \<union> {start, start + len}" by (simp, blast)
qed

lemma hide_clean:
  assumes c: "clean h (ps @ (a, b) # ss)" and s: "shapes (ps @ (a, b) # ss)" and f: "is_free b" and rg: "range_ok a b start len"
    and pb: "me_pad b = 0" and d: "mh_data h' = mh_data h" and hd: "heads h' \<subseteq> heads h \<union> {start, start + len}"
  shows "clean h' (ps @ hidden_before cf ps a b start @ hidden_after cf a b ss (start + len) @ ss)"
proof -
  let ?pre = "hidden_before cf ps a b start" and ?post = "hidden_after cf a b ss (start + len)"
  have sh: "shape_ok a b" using s by auto
  note P = hidden_pieces [OF sh f pb rg]
  have "areas (ps @ ?pre @ ?post @ ss) = areas (ps @ (a, b) # ss)" using f by (simp add: hidden_before_def hidden_after_def)
  moreover have "q \<notin> heads h'" if vw: "(v, w) \<in> set (ps @ ?pre @ ?post @ ss)" "is_free w" "in_data q v w" for q v w
  proof -
    have old: "q \<notin> heads h" if "(x, y) \<in> set (ps @ (a, b) # ss)" "is_free y" "in_data q x y" for x y
      using clean_heads [OF c that] .
    have q: "unat v + 128 \<le> unat q" "unat q < unat v + unat (me_size w)" using vw(3) by (simp_all add: in_data_def)
    consider "(v, w) \<in> set ps" | "(v, w) \<in> set ?pre" | "(v, w) \<in> set ?post" | "(v, w) \<in> set ss" using vw(1) by auto
    then have "q \<notin> heads h \<and> q \<noteq> start \<and> q \<noteq> start + len"
    proof cases
      case 1
      then have "unat v + unat (me_size w) \<le> unat a" using s by auto
      then show ?thesis using old [of v w] vw 1 q P(3-5) by auto
    next
      case 2
      then have "in_data q a b" "unat q < unat start" using P(1) [OF 2] P(3-5) q by (auto simp: in_data_def)
      then show ?thesis using old [of a b] f P(3) by auto
    next
      case 3
      then have "in_data q a b" "unat (start + len) < unat q" using P(2) [OF 3] P(3-5) q by (auto simp: in_data_def)
      then show ?thesis using old [of a b] f P(3) by auto
    next
      case 4
      then have "unat a + unat (me_size b) \<le> unat v" using s by auto
      then show ?thesis using old [of v w] vw 4 q P(3-5) by auto
    qed
    then show ?thesis using hd by blast
  qed
  ultimately have "\<forall>q. mh_data h' q \<noteq> 0 \<longrightarrow> (\<exists>A \<in> areas (ps @ ?pre @ ?post @ ss). in_area q A)"
    "\<forall>q. \<forall>(v, w) \<in> set (ps @ ?pre @ ?post @ ss). is_free w \<longrightarrow> in_data q v w \<longrightarrow> q \<notin> heads h'"
    using c d unfolding clean_def by (simp, blast)
  then show ?thesis unfolding clean_def domIff by simp
qed

text \<open>
  Freeing an area: the address leads to its block, the call returns 0, the area is gone, all others and their bytes stay, and
  pages that go back hold no part of an area.
\<close>

lemma from_data_busy:
  assumes H: "heap_ok cf h xs" and a: "(a, b) \<in> set xs" "is_busy b" and d: "unat d = unat a + unat (me_pad b) + 128"
  shows "malloc_elem_from_data d h = Some a" "d \<noteq> 0" "mh_elems h (d - 128) \<noteq> None" "d - 128 = a + ucast (me_pad b)"
proof -
  have I: "heap_inv cf h xs" using H by (simp add: heap_ok_def)
  note S = heap_inv_shapes [OF I]
  have sb: "shape_ok a b" "state_ok b" using S a(1) by (auto simp: shapes_def)
  obtain ps ss where xs: "xs = ps @ (a, b) # ss" using a(1) by (meson split_list)
  have L: "heap_links h (ps @ (a, b) # ss)" and pads: "pads_ok h xs" using I xs by (auto simp: heap_inv_def)
  have an: "a \<noteq> 0" using L by (simp add: heap_links_def)
  have u: "unat (d - 128) = unat a + unat (me_pad b)" using d by (subst ptr_diff) simp_all
  have u2: "unat (a + ucast (me_pad b)) = unat a + unat (me_pad b)"
  proof (cases "me_pad b = 0")
    case False
    then show ?thesis using pad_addr(1) [OF sb a(2)] by simp
  qed simp
  show e: "d - 128 = a + ucast (me_pad b)" using u u2 by (simp add: word_unat_eq_iff)
  show d0: "d \<noteq> 0" using d by auto
  have e0: "d - 128 \<noteq> 0" using u sb(1) by (auto simp: shape_ok_def)
  show "malloc_elem_from_data d h = Some a" "mh_elems h (d - 128) \<noteq> None"
  proof -
    have "\<exists>E. mh_elems h (d - 128) = Some E \<and> (me_pad b = 0 \<and> me_state E \<noteq> ELEM_PAD \<or> me_pad b \<noteq> 0 \<and> me_state E = ELEM_PAD \<and> me_pad E = me_pad b)"
    proof (cases "me_pad b = 0")
      case True
      then show ?thesis using links_elem [OF L] a(2) e by simp
    next
      case False
      then show ?thesis using pads a e by (auto simp: pads_ok_def)
    qed
    then obtain E where E: "mh_elems h (d - 128) = Some E"
      "me_pad b = 0 \<and> me_state E \<noteq> ELEM_PAD \<or> me_pad b \<noteq> 0 \<and> me_state E = ELEM_PAD \<and> me_pad E = me_pad b" by blast
    then show "malloc_elem_from_data d h = Some a" "mh_elems h (d - 128) \<noteq> None"
      using d0 e0 e by (auto simp: malloc_elem_from_data_def Let_def)
  qed
qed

lemma free_contract:
  assumes H: "heap_state cf h As" and A: "(unat d, n) \<in> As"
  shows "\<exists>a pages h'. malloc_elem_from_data d h = Some a \<and> malloc_heap_free cf a h = Some (0, pages, h') \<and>
    heap_state cf h' (As - {(unat d, n)}) \<and>
    (\<forall>B \<in> As - {(unat d, n)}. \<forall>q. in_area q B \<longrightarrow> mh_data h' q = mh_data h q) \<and>
    (\<forall>start len. pages = Some (start, len) \<longrightarrow> (\<forall>B \<in> As - {(unat d, n)}. apart B (unat start, unat len)))"
proof -
  obtain xs where H: "heap_ok cf h xs" "placed cf xs" "clean h xs" and As: "As = areas xs"
    using H by (auto simp: heap_state_def)
  have I: "heap_inv cf h xs" using H by (simp add: heap_ok_def)
  note S = heap_inv_shapes [OF I]
  obtain a b where ab: "(a, b) \<in> set xs" "is_busy b" "(unat d, n) = area a b" using A As by (auto simp: areas_def)
  obtain ps ss where xs: "xs = ps @ (a, b) # ss" using ab(1) by (meson split_list)
  have fd: "malloc_elem_from_data d h = Some a" by (rule from_data_busy [OF H(1) ab(1,2)]) (use ab(3) in \<open>simp add: area_def\<close>)
  obtain pages h' xs' where f: "malloc_heap_free cf a h = Some (0, pages, h')" "heap_ok cf h' xs'" "placed cf xs'"
    "areas xs' = areas xs - {area a b}"
    "\<forall>start len. pages = Some (start, len) \<longrightarrow>
       0 < unat len \<and> (\<forall>(c, d) \<in> set xs'. unat c + unat (me_size d) \<le> unat start \<or> unat start + unat len \<le> unat c)"
    "free_steps cf ps a b ss pages h h' xs'"
    by (rule malloc_heap_free_ok [of cf h ps a b ss]) (use H(1,2) ab(2) xs in auto)
  have Hx: "heap_ok cf h (ps @ (a, b) # ss)" "clean h (ps @ (a, b) # ss)" using H xs by auto
  have other: "areas xs - {area a b} = areas (ps @ ss)"
  proof -
    have "area a b \<notin> areas (ps @ ss)"
    proof
      assume "area a b \<in> areas (ps @ ss)"
      then obtain v w where vw: "(v, w) \<in> set (ps @ ss)" "is_busy w" "area a b = area v w" by (auto simp: areas_def)
      have "(a, b) = (v, w)" by (rule area_once [of xs]) (use S ab vw xs in auto)
      then have "a \<in> addrs (ps @ ss)" using vw(1) by (auto dest: addrsI)
      then show False using I xs by (auto simp: heap_inv_def heap_links_def)
    qed
    then show ?thesis using ab(2) xs by auto
  qed
  obtain h1 ps2 a2 b2 ss2 h2 where st: "upd_elem a (\<lambda>E. E\<lparr>me_state := ELEM_FREE\<rparr>) h = Some h1" "malloc_elem_free cf a h1 = Some (a2, h2)"
    "free_blocks cf ps a (b\<lparr>me_state := ELEM_FREE\<rparr>) ss = ps2 @ (a2, b2) # ss2" "is_free b2"
    "heap_ok cf h2 (ps2 @ (a2, b2) # ss2)"
    "case pages of
       None \<Rightarrow> h' = h2 \<and> xs' = ps2 @ (a2, b2) # ss2
     | Some (start, len) \<Rightarrow> range_ok a2 b2 start len \<and>
         (\<exists>h3 h4. malloc_elem_free_list_remove a2 h2 = Some h3 \<and> malloc_elem_hide_region cf a2 start len h3 = Some h4 \<and>
            h' = h4\<lparr>mh_total_size := mh_total_size h4 - len\<rparr> \<and>
            xs' = ps2 @ hidden_before cf ps2 a2 b2 start @ hidden_after cf a2 b2 ss2 (start + len) @ ss2)"
    using f(6) unfolding free_steps_def by blast
  note fc = free_clean [OF Hx ab(2) st(1,2)]
  have c2: "clean h2 (ps2 @ (a2, b2) # ss2)" using fc(1) st(3) by simp
  note S2 = heap_inv_shapes [of cf h2 "ps2 @ (a2, b2) # ss2"]
  have s2: "shapes (ps2 @ (a2, b2) # ss2)" "me_pad b2 = 0"
    using S2 st(4,5) by (auto simp: heap_ok_def state_ok_def)
  have fin: "clean h' xs' \<and> mh_data h' = mh_data h2"
  proof (cases pages)
    case None
    then show ?thesis using st(6) c2 by simp
  next
    case (Some sl)
    obtain start len where sl: "sl = (start, len)" by force
    then obtain h3 h4 where t: "range_ok a2 b2 start len" "malloc_elem_free_list_remove a2 h2 = Some h3"
      "malloc_elem_hide_region cf a2 start len h3 = Some h4" "h' = h4\<lparr>mh_total_size := mh_total_size h4 - len\<rparr>"
      "xs' = ps2 @ hidden_before cf ps2 a2 b2 start @ hidden_after cf a2 b2 ss2 (start + len) @ ss2"
      using st(6) Some by auto
    note q = quiet_list_remove [OF t(2)] and ad = hide_adds [OF t(3)]
    have d: "mh_data h' = mh_data h2" "heads h' \<subseteq> heads h2 \<union> {start, start + len}" using q ad t(4) by (auto simp: quiet_def)
    show ?thesis using hide_clean [OF c2 s2(1) st(4) t(1) s2(2) d] d(1) t(5) by simp
  qed
  have keep: "\<forall>B \<in> As - {(unat d, n)}. \<forall>q. in_area q B \<longrightarrow> mh_data h' q = mh_data h q"
    using fc(2) fin other As ab(3) by auto
  have gone: "apart B (unat start, unat len)" if p: "pages = Some (start, len)" "B \<in> As - {(unat d, n)}" for start len B
  proof -
    have "B \<in> areas xs'" using p(2) f(4) As ab(3) by simp
    then obtain v w where vw: "(v, w) \<in> set xs'" "is_busy w" "B = area v w" by (auto simp: areas_def)
    have "state_ok w" using heap_inv_shapes [of cf h' xs'] f(2) vw(1) by (auto simp: heap_ok_def)
    then show ?thesis using f(5) p(1) vw by (auto simp: apart_def area_def state_ok_def)
  qed
  have "heap_state cf h' (As - {(unat d, n)})"
    by (rule heap_stateI [OF f(2,3)]) (use fin f(4) As ab(3) in auto)
  then show ?thesis using fd f(1) keep gone by blast
qed

section \<open>Resizing and writing\<close>

lemma resize_adds:
  assumes run: "malloc_heap_resize cf a sz h = Some (0, h')" and E: "mh_elems h a = Some E"
    and al: "RTE_ALIGN_CEIL (a + n) 64 = a + n" and n: "n = sz + ucast (me_pad E) + 128"
  shows "mh_data h' = mh_data h" "heads h' \<subseteq> heads h \<union> {a + n}"
proof -
  have r: "malloc_elem_resize cf a sz h = Some (0, h')"
    using run by (auto simp: malloc_heap_resize_def E split: if_splits)
  have "mh_data h' = mh_data h \<and> heads h' \<subseteq> heads h \<union> {a + n}"
    using r unfolding malloc_elem_resize_def E
    by (auto simp: bind_eq_Some_conv Let_def n [symmetric] al split: if_splits
        dest!: split_adds quiet_list_insert quiet_list_remove quiet_join) (auto simp: quiet_def)
  then show "mh_data h' = mh_data h" "heads h' \<subseteq> heads h \<union> {a + n}" by blast+
qed

lemma resize_clean:
  assumes c: "clean h (ps @ (a, b) # (c, d) # ss)" and s: "shapes (ps @ (a, b) # (c, d) # ss)" and busy: "is_busy b"
    and f: "is_free d" and j: "joinable cf (a, b) (c, d)" and st: "state_ok b"
    and n: "unat (me_size b) < unat n" "unat n \<le> unat (me_size b) + unat (me_size d)"
    and dt: "mh_data h' = mh_data h" and hd: "heads h' \<subseteq> heads h \<union> {a + n}"
  shows "clean h' (ps @ resize_blocks a (joined b d) n @ ss)"
proof -
  let ?xs = "ps @ (a, b) # (c, d) # ss" and ?m = "joined b d"
  let ?zs = "ps @ resize_blocks a ?m n @ ss"
  have c1: "c = a + me_size b" using j by (simp add: joinable_def)
  have sh: "shape_ok a b" "shape_ok c d" using s by auto
  note N = joined_numbers [OF sh c1]
  have un: "unat (a + n) = unat a + unat n" using N n by (intro unat_add_no_overflow) (simp add: shape_ok_def)
  have "\<exists>A \<in> areas ?zs. in_area q A" if "mh_data h' q \<noteq> 0" for q
  proof -
    have "mh_data h q \<noteq> 0" using that dt by simp
    then obtain A where A: "A \<in> areas ?xs" "in_area q A" using clean_area [OF c] by blast
    have "in_area q (area a ?m)" "in_area q (area a (?m\<lparr>me_size := n\<rparr>))" if "in_area q (area a b)"
      using that N(2) n(1) by (auto simp: in_area_def area_def)
    then show ?thesis using A busy f by (auto simp: resize_blocks_def)
  qed
  moreover have "q \<notin> heads h'" if vw: "(v, w) \<in> set ?zs" "is_free w" "in_data q v w" for q v w
  proof -
    have old: "q \<notin> heads h" if "(x, y) \<in> set ?xs" "is_free y" "in_data q x y" for x y by (rule clean_heads [OF c that])
    have q: "unat v + 128 \<le> unat q" "unat q < unat v + unat (me_size w)" using vw(3) by (simp_all add: in_data_def)
    consider "(v, w) \<in> set ps" | "(v, w) \<in> set (resize_blocks a ?m n)" | "(v, w) \<in> set ss" using vw(1) by auto
    then have "q \<notin> heads h \<and> q \<noteq> a + n"
    proof cases
      case 1
      then have "unat v + unat (me_size w) \<le> unat a" using s by auto
      then show ?thesis using old [of v w] vw 1 q un by auto
    next
      case 2
      then have v: "v = a + n" "me_size w = me_size ?m - n" using vw(2) busy by (auto simp: resize_blocks_def split: if_splits)
      have "unat (me_size w) = unat (me_size b) + unat (me_size d) - unat n" using v(2) N(2) n(2) by (simp add: ptr_diff)
      then have "in_data q c d" using q v(1) un N(1) n by (simp add: in_data_def)
      then show ?thesis using old [of c d] f q v(1) by auto
    next
      case 3
      then have "unat c + unat (me_size d) \<le> unat v" using s by auto
      then show ?thesis using old [of v w] vw 3 q un N(1) n(2) by auto
    qed
    then show ?thesis using hd by blast
  qed
  ultimately show ?thesis unfolding clean_def domIff [symmetric] by blast
qed

lemma placed_resize:
  assumes "placed cf (ps @ (a, b) # (c, d) # ss)" "shapes (ps @ (a, b) # (c, d) # ss)" "joinable cf (a, b) (c, d)"
    and n: "unat n \<le> unat (me_size b) + unat (me_size d)"
  shows "placed cf (ps @ resize_blocks a (joined b d) n @ ss)"
proof -
  have c: "c = a + me_size b" using assms(3) by (simp add: joinable_def)
  have sh: "shape_ok a b" "shape_ok c d" using assms(2) by auto
  note N = joined_numbers [OF sh c]
  have P: "placed cf [(a, joined b d)]" by (rule placed_joined [OF sh assms(3)]) (use assms(1) in simp)
  have un: "unat (a + n) = unat a + unat n" "unat (me_size (joined b d) - n) = unat (me_size b) + unat (me_size d) - unat n"
    using N n by (auto simp: shape_ok_def ptr_diff intro!: unat_add_no_overflow)
  have part: "in_msl ml a (joined b d) \<Longrightarrow> unat a \<le> unat x \<Longrightarrow> unat x + unat (me_size y) \<le> unat a + unat (me_size b) + unat (me_size d) \<Longrightarrow>
     in_msl ml x y" for ml x y
    by (rule in_msl_part [of ml a "joined b d"]) (use N(2) in simp_all)
  have "placed cf (resize_blocks a (joined b d) n)"
    using P part un n by (auto simp: resize_blocks_def)
  then show ?thesis using assms(1) by simp
qed

lemma resize_contract:
  assumes H: "heap_state cf h As" and A: "(unat d, n) \<in> As" and sz: "64 dvd unat sz" "unat sz + 512 \<le> 2 ^ 64"
  shows "\<exists>a. malloc_elem_from_data d h = Some a \<and>
    (malloc_heap_resize cf a sz h = Some (- 1, h) \<and> n < unat sz \<or>
     (\<exists>h' m. malloc_heap_resize cf a sz h = Some (0, h') \<and> n \<le> m \<and> unat sz \<le> m \<and>
        heap_state cf h' (insert (unat d, m) (As - {(unat d, n)})) \<and> mh_data h' = mh_data h))"
proof -
  obtain xs where H: "heap_ok cf h xs" "placed cf xs" "clean h xs" and As: "As = areas xs"
    using H by (auto simp: heap_state_def)
  have I: "heap_inv cf h xs" using H by (simp add: heap_ok_def)
  note S = heap_inv_shapes [OF I]
  obtain a b where ab: "(a, b) \<in> set xs" "is_busy b" "(unat d, n) = area a b" using A As by (auto simp: areas_def)
  obtain ps ss where xs: "xs = ps @ (a, b) # ss" using ab(1) by (meson split_list)
  have fd: "malloc_elem_from_data d h = Some a" by (rule from_data_busy [OF H(1) ab(1,2)]) (use ab(3) in \<open>simp add: area_def\<close>)
  have sn: "snd (area a b) = n" using ab(3) by (metis snd_conv)
  have fn: "fst (area a b) = unat d" using ab(3) by (metis fst_conv)
  have L: "heap_links h (ps @ (a, b) # ss)" using I xs by (simp add: heap_inv_def)
  have other: "areas xs - {area a b} = areas (ps @ ss)"
  proof -
    have "area a b \<notin> areas (ps @ ss)"
    proof
      assume "area a b \<in> areas (ps @ ss)"
      then obtain v w where vw: "(v, w) \<in> set (ps @ ss)" "is_busy w" "area a b = area v w" by (auto simp: areas_def)
      have "(a, b) = (v, w)" by (rule area_once [of xs]) (use S ab vw xs in auto)
      then have "a \<in> addrs (ps @ ss)" using vw(1) by (auto dest: addrsI)
      then show False using L by (auto simp: heap_links_def)
    qed
    then show ?thesis using ab(2) xs by auto
  qed
  have Hx: "heap_ok cf h (ps @ (a, b) # ss)" using H(1) xs by simp
  show ?thesis
  proof (cases rule: malloc_heap_resize_ok [OF Hx ab(2) sz])
    case 1
    have "insert (unat d, n) (As - {(unat d, n)}) = As" using A by blast
    moreover have "heap_state cf h As" using H As by (auto simp: heap_state_def)
    ultimately show ?thesis using fd 1 sn by auto
  next
    case 2
    then show ?thesis using fd sn by auto
  next
    case (3 c g ss' k h')
    have sx: "shapes (ps @ (a, b) # (c, g) # ss')" and stb: "state_ok b" using S xs 3(1) by auto
    let ?zs = "ps @ resize_blocks a (joined b g) k @ ss'"
    have sh: "shape_ok a b" "shape_ok c g" using sx by auto
    have c: "c = a + me_size b" using 3(3) by (simp add: joinable_def)
    note N = joined_numbers [OF sh c]
    have pb: "unat (me_pad b) < 192" "64 dvd unat (me_pad b)" "unat (me_pad b) + 128 \<le> unat (me_size b)"
      using stb ab(2) by (auto simp: state_ok_def)
    have p1: "unat (sz + ucast (me_pad b)) = unat sz + unat (me_pad b)"
      using sz pb by (simp add: unat_add_no_overflow unat_pad)
    have k: "k = sz + ucast (me_pad b) + 128"
      using 3(10) p1 sz pb by (simp add: word_unat_eq_iff unat_add_no_overflow)
    have kn: "unat (me_size b) < unat k" using 3(9,10) sn pb by (simp add: area_def)
    have kle: "unat k \<le> unat (me_size b) + unat (me_size g)"
    proof (rule ccontr)
      assume "\<not> unat k \<le> unat (me_size b) + unat (me_size g)"
      then have "\<not> me_size b + me_size g \<ge> k" using N(2) by (simp add: unat_le_iff)
      moreover have "mh_elems h c = Some (mk_elem g a (first_of ss' 0))"
        using links_elem [of h "ps @ [(a, b)]" c g ss'] L 3(1) by simp
      ultimately show False
        using 3(4) kn by (auto simp: malloc_heap_resize_def malloc_elem_resize_def links_elem [OF L] next_is_free_eq [OF L] 3(1-3)
            k [symmetric] unat_le_iff unat_less_iff bind_eq_Some_conv split: if_splits)
    qed
    have un: "unat (a + k) = unat a + unat k" using N kle by (intro unat_add_no_overflow) (simp add: shape_ok_def)
    have "64 dvd unat (a + k)" using un 3(10) sz(1) pb(2) sh(1) by (simp add: shape_ok_def)
    then have al: "RTE_ALIGN_CEIL (a + k) 64 = a + k" by (rule align_ceil_id)
    have k': "k = sz + ucast (me_pad (mk_elem b (last_of 0 ps) (first_of ss 0))) + 128" using k by simp
    note ad = resize_adds [OF 3(4) links_elem [OF L] al k']
    have cx: "clean h (ps @ (a, b) # (c, g) # ss')" and px: "placed cf (ps @ (a, b) # (c, g) # ss')" using H xs 3(1) by auto
    have cz: "clean h' ?zs" by (rule resize_clean [OF cx sx ab(2) 3(2,3) stb kn kle ad])
    have pz: "placed cf ?zs" by (rule placed_resize [OF px sx 3(3) kle])
    let ?A = "area a (snd (hd (resize_blocks a (joined b g) k)))"
    have A1: "?A = (unat d, snd ?A)" using 3(7) fn by (metis prod.collapse)
    have "areas ?zs = insert (unat d, snd ?A) (As - {(unat d, n)})"
      using 3(6) A1 other As ab(3) by simp
    from heap_stateI [OF 3(5) pz cz this]
    have "heap_state cf h' (insert (unat d, snd ?A) (As - {(unat d, n)}))" .
    moreover have "n \<le> snd ?A" "unat sz \<le> snd ?A" using 3(8,9) sn by simp_all
    ultimately show ?thesis using fd 3(4) ad(1) by blast
  qed
qed

text \<open>Users write only inside their areas.\<close>

definition user_write :: "u64 \<Rightarrow> u8 \<Rightarrow> malloc_heap \<Rightarrow> malloc_heap" where
  "user_write q v h = h\<lparr>mh_data := (mh_data h)(q := v)\<rparr>"

lemma bytes_contract:
  assumes H: "heap_state cf h As" and B: "B \<in> As" "\<forall>q. f q \<noteq> mh_data h q \<longrightarrow> in_area q B"
  shows "heap_state cf (h\<lparr>mh_data := f\<rparr>) As"
proof -
  obtain xs where H: "heap_ok cf h xs" "placed cf xs" "clean h xs" and As: "As = areas xs"
    using H by (auto simp: heap_state_def)
  have "heap_ok cf (h\<lparr>mh_data := f\<rparr>) xs"
    using H(1) by (simp add: heap_ok_def heap_inv_def heap_links_def pads_ok_def)
  moreover have "clean (h\<lparr>mh_data := f\<rparr>) xs" using H(3) B As by (force simp: clean_def)
  ultimately show ?thesis using H(2) As by (auto simp: heap_state_def)
qed

lemma write_contract: "heap_state cf h As \<Longrightarrow> B \<in> As \<Longrightarrow> in_area q B \<Longrightarrow> heap_state cf (user_write q v h) As"
  unfolding user_write_def by (rule bytes_contract) auto

end
