(* ===== verification/MallocUse.thy ===== *)
theory MallocUse
  imports RteMalloc MallocClean
begin

text \<open>
  The functions for users keep the contract \<open>allocator\<close>. The process has one NUMA node and allocates all its pages at the start
  (legacy mode), so its memory is the heap of that node.
\<close>

section \<open>Heaps keep their socket\<close>

abbreviation sid :: "malloc_heap \<Rightarrow> u32" where "sid \<equiv> mh_socket_id"

named_theorems sids

lemma bind_elim: "Option.bind m f = Some r \<Longrightarrow> (\<And>x. m = Some x \<Longrightarrow> f x = Some r \<Longrightarrow> P) \<Longrightarrow> P"
  by (auto simp: bind_eq_Some_conv)

lemma if_elim: "(if c then x else y) = Some r \<Longrightarrow> (c \<Longrightarrow> x = Some r \<Longrightarrow> P) \<Longrightarrow> (\<not> c \<Longrightarrow> y = Some r \<Longrightarrow> P) \<Longrightarrow> P"
  by (simp split: if_splits)

lemma sid_upd [sids]: "upd_elem a f h = Some h' \<Longrightarrow> sid h' = sid h"
  by (auto simp: upd_elem_def split: option.splits)

lemma sid_init [simp]: "sid (malloc_elem_init a m sz oa os h) = sid h"
  by (simp add: malloc_elem_init_def)

lemma sid_erase [simp]: "sid (erase_range s n h) = sid h"
  by (simp add: erase_range_def)

lemma sid_insert [sids]: "malloc_elem_free_list_insert a h = Some h' \<Longrightarrow> sid h' = sid h"
  by (auto simp: malloc_elem_free_list_insert_def bind_eq_Some_conv Let_def split: if_splits dest!: sids)

lemma sid_list_remove [sids]: "malloc_elem_free_list_remove a h = Some h' \<Longrightarrow> sid h' = sid h"
  by (auto simp: malloc_elem_free_list_remove_def bind_eq_Some_conv split: if_splits)

lemma sid_split [sids]: "split_elem a s h = Some h' \<Longrightarrow> sid h' = sid h"
  by (auto simp: split_elem_def bind_eq_Some_conv Let_def split: if_splits dest!: sids)

lemma sid_remove [sids]: "remove_elem a h = Some h' \<Longrightarrow> sid h' = sid h"
  by (auto simp: remove_elem_def bind_eq_Some_conv split: if_splits dest!: sids)

lemma sid_join [sids]: "join_elem a c h = Some h' \<Longrightarrow> sid h' = sid h"
  by (auto simp: join_elem_def bind_eq_Some_conv split: if_splits dest!: sids)

lemma sid_join_next [sids]: "join_next cf a h = Some h' \<Longrightarrow> sid h' = sid h"
  by (auto simp: join_next_def bind_eq_Some_conv Let_def split: if_splits dest!: sids)

lemma sid_join_prev [sids]: "join_prev cf a h = Some (a', h') \<Longrightarrow> sid h' = sid h"
  by (auto simp: join_prev_def bind_eq_Some_conv Let_def split: if_splits dest!: sids)

lemma sid_elem_free [sids]: "malloc_elem_free cf a h = Some (a', h') \<Longrightarrow> sid h' = sid h"
  by (auto simp: malloc_elem_free_def malloc_elem_join_adjacent_free_def bind_eq_Some_conv Let_def split: if_splits dest!: sids)

lemma sid_elem_resize: "malloc_elem_resize cf a sz h = Some (ret, h') \<Longrightarrow> sid h' = sid h"
  unfolding malloc_elem_resize_def Let_def
  by (elim bind_elim if_elim) (auto dest!: sid_insert sid_split sid_join sid_list_remove)

lemma sid_resize: "malloc_heap_resize cf a sz h = Some (ret, h') \<Longrightarrow> sid h' = sid h"
  by (auto simp: malloc_heap_resize_def bind_eq_Some_conv split: if_splits dest!: sid_elem_resize)

lemma sid_elem_alloc [sids]: "malloc_elem_alloc cf a sz al bd c h = Some (p, h') \<Longrightarrow> sid h' = sid h"
  by (auto simp: malloc_elem_alloc_def bind_eq_Some_conv Let_def split: if_splits dest!: sids)

lemma sid_alloc: "heap_alloc cf sz fl al bd c h = Some (d, h') \<Longrightarrow> sid h' = sid h"
  by (auto simp: heap_alloc_def bind_eq_Some_conv Let_def split: if_splits dest!: sids)

text \<open>In legacy mode no pages are given back.\<close>

lemma free_legacy:
  assumes "malloc_heap_free cf a h = Some (ret, pages, h')" "mc_legacy_mem cf"
  shows "pages = None" "sid h' = sid h"
  using assms
  by (auto simp: malloc_heap_free_def pages_to_free_def bind_eq_Some_conv Let_def split: if_splits option.splits dest!: sids)

section \<open>One NUMA node\<close>

definition one_node :: "malloc_env \<Rightarrow> mem_config \<Rightarrow> malloc_heap \<Rightarrow> bool" where
  "one_node env cfg h \<longleftrightarrow>
     en_legacy_mem env \<and>
     (\<exists>s hs. en_sockets env = [s] \<and> en_numa_socket env = s \<and> mg_heaps cfg = h # hs \<and> sid h = word_of_int s \<and>
        (\<forall>x \<in> set hs. mh_elems x = Map.empty))"

lemma one_nodeD:
  assumes "one_node env cfg h"
  shows "mg_heaps cfg ! 0 = h" "0 < length (mg_heaps cfg)" "mc_legacy_mem (conf_of env cfg)"
  using assms by (auto simp: one_node_def conf_of_def)

lemma conf_set_heap [simp]: "conf_of env (set_heap i h cfg) = conf_of env cfg"
  by (simp add: conf_of_def)

lemma one_node_set: "one_node env cfg h \<Longrightarrow> sid h' = sid h \<Longrightarrow> one_node env (set_heap 0 h' cfg) h'"
  by (auto simp: one_node_def)

lemma narrow_back: "ucast (ucast (al :: u32) :: u64) = al"
  by (simp add: ucast_up_ucast_id is_up)

text \<open>A request goes to the heap of the node, and only there.\<close>

lemma rte_malloc_one:
  assumes N: "one_node env cfg h" and sz: "sz \<noteq> 0" and al: "al = 0 \<or> rte_is_power_of_2 al"
    and run: "heap_alloc (conf_of env cfg) sz 0 (if al = 0 then 1 else ucast al) 0 False h = Some (d, h')"
  shows "rte_malloc env sz al cfg = Some (d, set_heap 0 h' cfg)"
proof -
  obtain s hs where s: "en_sockets env = [s]" "en_numa_socket env = s" "mg_heaps cfg = h # hs" "sid h = word_of_int s"
    "en_legacy_mem env" using N by (auto simp: one_node_def)
  let ?al = "if al = 0 then 1 else ucast al :: u64"
  have z: "ucast al \<noteq> (0 :: u64)" if "al \<noteq> 0" using narrow_back [of al] that by auto
  have p: "rte_is_power_of_2 (ucast ?al)" "?al \<noteq> 0"
    using al z by (auto simp: rte_is_power_of_2_def narrow_back)
  have on: "malloc_heap_alloc_on_heap_id env sz 0 0 ?al 0 False cfg = Some (d, set_heap 0 h' cfg)"
    using run p(2) s(3,5) by (simp add: malloc_heap_alloc_on_heap_id_def heap_alloc_on_def)
  have sock: "malloc_socket_to_heap_id (word_of_int s) cfg = Some 0" using s by (simp add: malloc_socket_to_heap_id_def)
  have "malloc_heap_alloc env sz (- 1) 0 ?al 0 False cfg = Some (d, set_heap 0 h' cfg)"
    using sz p(1) s(1,2) sock on by (simp add: malloc_heap_alloc_def Let_def del: of_int_minus)
  then show ?thesis using sz al
    by (cases "al = 0") (simp_all add: rte_malloc_def rte_malloc_socket_def rte_malloc_heap_socket_is_external_def)
qed

lemma data_elem_one:
  assumes N: "one_node env cfg h" and a: "malloc_elem_from_data d h = Some a" "a \<noteq> 0"
  shows "data_elem d cfg = Some (0, a)" "d \<noteq> 0"
proof -
  have d: "d \<noteq> 0" "mh_elems h (d - 128) \<noteq> None"
    using a by (auto simp: malloc_elem_from_data_def bind_eq_Some_conv Let_def split: if_splits)
  have "elem_heap (d - 128) cfg = Some 0" using N d(2) by (auto simp: elem_heap_def one_node_def)
  then show "data_elem d cfg = Some (0, a)" using a(1) one_nodeD(1) [OF N] by (simp add: data_elem_def)
  show "d \<noteq> 0" by (rule d)
qed

lemma rte_free_one:
  assumes N: "one_node env cfg h" and a: "malloc_elem_from_data d h = Some a"
    and f: "malloc_heap_free (conf_of env cfg) a h = Some (0, pages, h')"
  shows "rte_free env d cfg = Some (set_heap 0 h' cfg)"
proof -
  have h0: "mg_heaps cfg ! 0 = h" using N by (rule one_nodeD)
  have pg: "pages = None" by (rule free_legacy [OF f]) (use N in \<open>simp add: one_nodeD\<close>)
  have "a \<noteq> 0" using f by (auto simp: malloc_heap_free_def)
  from data_elem_one [OF N a this] show ?thesis using f h0 pg by (simp add: rte_free_def heap_free_on_def)
qed

section \<open>The contract\<close>

definition node_state :: "malloc_env \<Rightarrow> mem_config \<Rightarrow> mem_area set \<Rightarrow> bool" where
  "node_state env cfg As \<longleftrightarrow> (\<exists>h. one_node env cfg h \<and> heap_state (conf_of env cfg) h As)"

text \<open>Sizes that round up to a size, and an alignment that is not \<open>2 ^ 31\<close>; one that is not a power of two is refused.\<close>

definition good_request :: "u64 \<Rightarrow> u32 \<Rightarrow> bool" where
  "good_request sz al \<longleftrightarrow> sz \<le> - 64 \<and> al \<noteq> 2 ^ 31"

definition read_byte :: "mem_config \<Rightarrow> u64 \<Rightarrow> u8" where
  "read_byte cfg q = mh_data (mg_heaps cfg ! 0) q"

definition write_byte :: "u64 \<Rightarrow> u8 \<Rightarrow> mem_config \<Rightarrow> mem_config" where
  "write_byte q v cfg = set_heap 0 (user_write q v (mg_heaps cfg ! 0)) cfg"

lemma good_alignment:
  assumes "al \<noteq> 2 ^ 31" "al = 0 \<or> rte_is_power_of_2 al"
  obtains k where "unat (if al = 0 then 1 else ucast al :: u64) = 2 ^ k" "k \<le> 30"
proof (cases "al = 0")
  case True
  then show ?thesis using that [of 0] by simp
next
  case False
  then obtain k where k: "unat al = 2 ^ k" using assms(2) is_power_of_2_iff by auto
  have "(2 :: nat) ^ k < 2 ^ 32" using unat_lt2p [of al] k by simp
  then have "k < 32" by (simp only: power_strict_increasing_iff)
  moreover have "k \<noteq> 31" using assms(1) k by (auto simp: word_unat_eq_iff)
  ultimately show ?thesis using that [of k] k False by (simp add: unat_ucast_up)
qed

lemma heap_state_fits:
  assumes "heap_state cf h As" "A \<in> As"
  shows "fst A + snd A < 2 ^ 64"
proof -
  obtain xs where xs: "shapes xs" "\<forall>(a, b) \<in> set xs. state_ok b" "As = areas xs"
    using assms(1) heap_inv_shapes unfolding heap_state_def heap_ok_def by blast
  then obtain a b where ab: "(a, b) \<in> set xs" "fst A + snd A = unat a + unat (me_size b)"
    using areas_in_blocks [of xs "fst A" "snd A"] assms(2) by auto
  then have "shape_ok a b" using xs(1) by (auto simp: shapes_def)
  then show ?thesis using ab(2) by (simp add: shape_ok_def)
qed

lemma node_alloc:
  assumes S: "node_state env cfg As" and g: "good_request sz al"
  shows "\<exists>d cfg'. rte_malloc env sz al cfg = Some (d, cfg') \<and>
    (d = 0 \<and> cfg' = cfg \<or>
     d \<noteq> 0 \<and> (al \<noteq> 0 \<longrightarrow> unat al dvd unat d) \<and> (\<exists>n. unat sz \<le> n \<and> unat d \<notin> fst ` As \<and> node_state env cfg' (insert (unat d, n) As) \<and>
       (\<forall>q. in_area q (unat d, n) \<longrightarrow> read_byte cfg' q = 0) \<and> (\<forall>B \<in> As. \<forall>q. in_area q B \<longrightarrow> read_byte cfg' q = read_byte cfg q)))"
proof (cases "sz = 0 \<or> al \<noteq> 0 \<and> \<not> rte_is_power_of_2 al")
  case True
  then show ?thesis by (auto simp: rte_malloc_def rte_malloc_socket_def)
next
  case False
  obtain h where N: "one_node env cfg h" and H: "heap_state (conf_of env cfg) h As" using S by (auto simp: node_state_def)
  note h0 = one_nodeD [OF N]
  obtain k where k: "unat (if al = 0 then 1 else ucast al :: u64) = 2 ^ k" "k \<le> 30"
    by (rule good_alignment [of al]) (use g False in \<open>auto simp: good_request_def\<close>)
  have sz: "unat sz \<le> 2 ^ 64 - 64" using g by (simp add: good_request_def word_le_nat_alt)
  have bd: "bound_ok 0 (CACHE_LINE_ROUNDUP sz)" by (simp add: bound_ok_def)
  obtain d h' where a: "heap_alloc (conf_of env cfg) sz 0 (if al = 0 then 1 else ucast al) 0 False h = Some (d, h')"
    "d = 0 \<and> h' = h \<or> d \<noteq> 0 \<and> (al \<noteq> 0 \<longrightarrow> unat al dvd unat d) \<and> (\<exists>n. unat sz \<le> n \<and> unat d \<notin> fst ` As \<and>
       heap_state (conf_of env cfg) h' (insert (unat d, n) As) \<and> blank h' (unat d, n) \<and> mh_data h' = mh_data h)"
  proof -
    have u: "al \<noteq> 0 \<longrightarrow> unat (if al = 0 then 1 else ucast al :: u64) = unat al" by (simp add: unat_ucast_up)
    show thesis using that alloc_contract [OF H sz k bd, of 0 False] u by metis
  qed
  have run: "rte_malloc env sz al cfg = Some (d, set_heap 0 h' cfg)"
    by (rule rte_malloc_one [OF N _ _ a(1)]) (use False in auto)
  have same: "set_heap 0 h cfg = cfg" using N by (auto simp: one_node_def)
  have N': "one_node env (set_heap 0 h' cfg) h'" by (rule one_node_set [OF N sid_alloc [OF a(1)]])
  note h1 = one_nodeD(1) [OF N']
  show ?thesis
  proof (cases "d = 0")
    case True
    then show ?thesis using a(2) run same by auto
  next
    case False
    have al: "al \<noteq> 0 \<longrightarrow> unat al dvd unat d" using False a(2) by blast
    from False obtain n where n: "unat sz \<le> n" "unat d \<notin> fst ` As" "heap_state (conf_of env cfg) h' (insert (unat d, n) As)"
      "blank h' (unat d, n)" "mh_data h' = mh_data h" using a(2) by blast
    have "node_state env (set_heap 0 h' cfg) (insert (unat d, n) As)" using N' n(3) by (auto simp: node_state_def)
    moreover have "\<forall>q. in_area q (unat d, n) \<longrightarrow> read_byte (set_heap 0 h' cfg) q = 0"
      using n(4) h1 by (simp add: blank_def read_byte_def)
    moreover have "\<forall>B \<in> As. \<forall>q. in_area q B \<longrightarrow> read_byte (set_heap 0 h' cfg) q = read_byte cfg q"
      using n(5) h0(1) h1 by (simp add: read_byte_def)
    ultimately show ?thesis using run False al n(1,2) by blast
  qed
qed

lemma node_free:
  assumes S: "node_state env cfg As" and A: "(unat d, n) \<in> As"
  shows "\<exists>cfg'. rte_free env d cfg = Some cfg' \<and> node_state env cfg' (As - {(unat d, n)}) \<and>
    (\<forall>B \<in> As - {(unat d, n)}. \<forall>q. in_area q B \<longrightarrow> read_byte cfg' q = read_byte cfg q)"
proof -
  obtain h where N: "one_node env cfg h" and H: "heap_state (conf_of env cfg) h As" using S by (auto simp: node_state_def)
  obtain a pages h' where f: "malloc_elem_from_data d h = Some a" "malloc_heap_free (conf_of env cfg) a h = Some (0, pages, h')"
    "heap_state (conf_of env cfg) h' (As - {(unat d, n)})"
    "\<forall>B \<in> As - {(unat d, n)}. \<forall>q. in_area q B \<longrightarrow> mh_data h' q = mh_data h q"
    using free_contract [OF H A] by blast
  have N': "one_node env (set_heap 0 h' cfg) h'"
    by (rule one_node_set [OF N free_legacy(2) [OF f(2)]]) (use N in \<open>simp add: one_nodeD\<close>)
  have "node_state env (set_heap 0 h' cfg) (As - {(unat d, n)})" using N' f(3) by (auto simp: node_state_def)
  moreover have "\<forall>B \<in> As - {(unat d, n)}. \<forall>q. in_area q B \<longrightarrow> read_byte (set_heap 0 h' cfg) q = read_byte cfg q"
    using f(4) one_nodeD(1) [OF N] one_nodeD(1) [OF N'] by (simp add: read_byte_def)
  ultimately show ?thesis using rte_free_one [OF N f(1,2)] by blast
qed

lemma node_write:
  assumes "node_state env cfg As" "B \<in> As" "in_area q B"
  shows "node_state env (write_byte q v cfg) As"
proof -
  obtain h where N: "one_node env cfg h" and H: "heap_state (conf_of env cfg) h As" using assms(1) by (auto simp: node_state_def)
  have "one_node env (write_byte q v cfg) (user_write q v h)"
    unfolding write_byte_def one_nodeD(1) [OF N] by (rule one_node_set [OF N]) (simp add: user_write_def)
  moreover have "conf_of env (write_byte q v cfg) = conf_of env cfg" by (simp add: write_byte_def)
  ultimately show ?thesis using write_contract [OF H assms(2,3), of v] unfolding node_state_def by metis
qed

interpretation rte: allocator good_request "node_state env" "rte_malloc env" "rte_free env" read_byte write_byte for env
proof unfold_locales
  show "apart A B" if "node_state env h As" "A \<in> As" "B \<in> As" "A \<noteq> B" for h As A B
    using that heap_state_apart unfolding node_state_def by blast
  show "fst A + snd A < 2 ^ 64" if "node_state env h As" "A \<in> As" for h As A
    using that heap_state_fits unfolding node_state_def by blast
  show "read_byte (write_byte q v h) q' = (if q' = q then v else read_byte h q')" if "node_state env h As" for h As q v q'
    using that one_nodeD(2) by (auto simp: node_state_def read_byte_def write_byte_def user_write_def)
qed (fact node_alloc node_free node_write)+

end
