(* ===== verification/MallocStart.thy ===== *)
theory MallocStart
  imports MallocUse
begin

text \<open>
  From the start of the process: the pages come into an empty heap, then users call the functions. Whatever they do, their
  allocations are separate arrays of zero bytes.
\<close>

section \<open>The first memory\<close>

definition no_memory :: "malloc_heap \<Rightarrow> bool" where
  "no_memory h \<longleftrightarrow>
     mh_elems h = Map.empty \<and> mh_free h = replicate RTE_HEAP_NUM_FREELISTS [] \<and> mh_first h = 0 \<and> mh_last h = 0 \<and>
     mh_alloc_count h = 0 \<and> (\<forall>q. mh_data h q = 0)"

lemma no_memory_ok: "no_memory h \<Longrightarrow> heap_ok cf h []"
  by (simp add: no_memory_def heap_ok_def heap_inv_def heap_links_def blocks_ok_def in_order_def no_joinable_def pads_ok_def listed_def)

text \<open>The blocks \<open>xs\<close> of a sound heap: linked, listed and joined as they should be, with every byte outside of the areas in use blank.\<close>

definition heap_good :: "malloc_conf \<Rightarrow> malloc_heap \<Rightarrow> eblocks \<Rightarrow> bool" where
  "heap_good cf h xs \<longleftrightarrow> heap_ok cf h xs \<and> placed cf xs \<and> clean h xs"

lemma first_memory:
  assumes h: "no_memory h" and a: "shape_ok a (new_block msl a len)" and cf: "mc_legacy_mem cf"
  shows "\<exists>h'. malloc_heap_add_memory cf msl a len h = Some (a, h') \<and> heap_good cf h' [(a, new_block msl a len)] \<and>
    heap_state cf h' {} \<and> sid h' = sid h"
proof -
  obtain ps a2 b2 ss h' where r: "malloc_heap_add_memory cf msl a len h = Some (a2, h')" "heap_ok cf h' (ps @ (a2, b2) # ss)"
    "free_blocks cf [] a (new_block msl a len) [] = ps @ (a2, b2) # ss"
    by (rule malloc_heap_add_memory_ok [of cf h "[]" "[]" a msl len]) (use no_memory_ok [OF h] a in \<open>auto simp: shapes_def in_order_def\<close>)
  have "free_blocks cf [] a (new_block msl a len) [] = [(a, new_block msl a len)]"
    by (simp add: free_blocks_def merge_next_def merge_prev_def new_block_def)
  then have b: "ps = []" "a2 = a" "b2 = new_block msl a len" "ss = []" using r(3) by (cases ps; simp)+
  have d: "mh_data h' = mh_data h \<and> heads h' = {a} \<and> sid h' = sid h"
    using r(1) h
    by (simp add: malloc_heap_add_memory_def malloc_elem_init_def malloc_elem_insert_def insert_place_def no_memory_def upd_elem_def
        upd_elem_if_def malloc_elem_join_adjacent_free_def join_next_def next_is_free_def join_prev_def prev_is_free_def
        malloc_elem_free_list_insert_def free_list_index Let_def list_index_bound split: if_splits) (auto split: if_splits)
  have "clean h' [(a, new_block msl a len)]"
  proof -
    have "mh_elems h' q = None" if "in_data q a (new_block msl a len)" for q
    proof -
      have "q \<noteq> a" using that by (auto simp: in_data_def)
      then show ?thesis using d by (auto simp: dom_def set_eq_iff)
    qed
    then show ?thesis using h d by (simp add: clean_def no_memory_def)
  qed
  moreover have "placed cf [(a, new_block msl a len)]" using cf by simp
  ultimately have good: "heap_good cf h' [(a, new_block msl a len)]" using r(2) b by (simp add: heap_good_def)
  then have "heap_state cf h' {}" by (auto simp: heap_state_def heap_good_def)
  then show ?thesis using r(1) b good d by blast
qed

text \<open>The state at the start: the heap of the node is empty, and a run of pages of the list \<open>msl\<close> comes in.\<close>

definition fresh_node :: "malloc_env \<Rightarrow> nat \<Rightarrow> memseg \<Rightarrow> u64 \<Rightarrow> mem_config \<Rightarrow> bool" where
  "fresh_node env msl ms len cfg \<longleftrightarrow>
     en_legacy_mem env \<and> \<not> ml_external (mg_memsegs cfg ! msl) \<and> shape_ok (sg_addr ms) (new_block msl (sg_addr ms) len) \<and>
     (case (en_sockets env, mg_heaps cfg) of
        ([s], h # hs) \<Rightarrow>
          s = en_numa_socket env \<and> s = ml_socket_id (mg_memsegs cfg ! msl) \<and> sid h = word_of_int s \<and> no_memory h \<and>
          list_all (\<lambda>x. mh_elems x = Map.empty) hs
      | _ \<Rightarrow> False)"

lemma heap_state_total [simp]: "heap_state cf (h\<lparr>mh_total_size := t\<rparr>) As = heap_state cf h As"
  by (simp add: heap_state_def heap_ok_def heap_inv_def heap_links_def pads_ok_def clean_def)

lemma heap_good_total [simp]: "heap_good cf (h\<lparr>mh_total_size := t\<rparr>) xs = heap_good cf h xs"
  by (simp add: heap_good_def heap_ok_def heap_inv_def heap_links_def pads_ok_def clean_def)


section \<open>A machine\<close>

text \<open>One NUMA node, one page of 2 MB.\<close>

definition demo_env :: malloc_env where
  "demo_env = \<lparr>en_match_allocations = False, en_legacy_mem = True, en_hugepages = True, en_iova_va = True, en_sockets = [0],
     en_numa_socket = 0, en_virt2iova = (\<lambda>a. a), en_alloc_segs = (\<lambda>_ _ _ _. None), en_free_seg = (\<lambda>ls _ _. ls),
     en_alloc_allowed = (\<lambda>_ _. True), en_dma_ok = (\<lambda>_. True), en_sync_ok = True, en_fbarray_err = 0\<rparr>"

definition demo_heap :: malloc_heap where
  "demo_heap = \<lparr>mh_elems = Map.empty, mh_free = replicate RTE_HEAP_NUM_FREELISTS [], mh_first = 0, mh_last = 0, mh_alloc_count = 0,
     mh_socket_id = 0, mh_total_size = 0, mh_name = ''socket_0'', mh_data = (\<lambda>_. 0)\<rparr>"

definition demo_seg :: memseg where
  "demo_seg = \<lparr>sg_addr = 0x100000000, sg_len = 0x200000, sg_flags = 0, sg_iova = 0x100000000\<rparr>"

definition demo_config :: mem_config where
  "demo_config = \<lparr>mg_heaps = [demo_heap],
     mg_memsegs = [\<lparr>ml_base_va = 0x100000000, ml_page_sz = 0x200000, ml_len = 0x200000, ml_external = False, ml_segs = [demo_seg],
       ml_socket_id = 0\<rparr>], mg_next_socket_id = 8\<rparr>"

lemma demo_fresh: "fresh_node demo_env 0 demo_seg 0x200000 demo_config"
  by (simp add: fresh_node_def demo_env_def demo_config_def demo_heap_def demo_seg_def no_memory_def shape_ok_def new_block_def)

section \<open>Freeing undoes allocating\<close>

lemma merge_none: "no_joinable cf ((a, b) # ss) \<Longrightarrow> is_free b \<Longrightarrow> joinable cf (a, b') = joinable cf (a, b) \<Longrightarrow> merge_next cf a b' ss = (b', ss)"
  by (cases ss) (auto simp: merge_next_def no_joinable_Cons)

lemma merge_prev_none:
  assumes "no_joinable cf (ps @ (a, b) # ss)" "is_free b" "\<And>x. joinable cf x (a, b') = joinable cf x (a, b)"
  shows "merge_prev cf ps a b' = (ps, a, b')"
  using assms by (auto simp: merge_prev_def no_joinable_append)

text \<open>The pieces into which a free block is cut for a request join to the block again.\<close>

lemma free_undoes_alloc:
  assumes nj: "no_joinable cf (ps @ (a, b) # ss)" and f: "is_free b" "me_pad b = 0"
  obtains qs c d rs where "ps @ alloc_blocks a b p sz @ ss = qs @ (c, d) # rs" "is_busy d" "(c, d) \<in> set (alloc_blocks a b p sz)"
    "free_blocks cf qs c (d\<lparr>me_state := ELEM_FREE\<rparr>) rs = ps @ (a, b) # ss"
proof -
  let ?big = "me_size b - (p - a) - sz - 128 > 192" and ?q = "p + (sz + 128)"
  let ?room = "alloc_room a b p sz" and ?tail = "alloc_tail a b p sz"
  have ns: "no_joinable cf ((a, b) # ss)" using nj by (simp add: no_joinable_append)
  have tail: "merge_next cf c d (?tail @ ss) = (d\<lparr>me_size := me_size d + (if ?big then me_size b - (?q - a) else 0)\<rparr>, ss)"
    if "me_msl d = me_msl b" "me_orig_elem d = me_orig_elem b" "c + me_size d = (if ?big then ?q else a + me_size b)" for c d
  proof (cases ?big)
    case True
    then show ?thesis using that f by (simp add: alloc_tail_def merge_next_def joinable_def)
  next
    case False
    have "joinable cf (c, d) = joinable cf (a, b)" using that False by (intro ext) (auto simp: joinable_def)
    then show ?thesis using False ns f by (cases ss) (auto simp: alloc_tail_def merge_next_def no_joinable_Cons)
  qed
  show ?thesis
  proof (cases "p - a < 192")
    case True
    let ?d = "?room\<lparr>me_state := ELEM_BUSY, me_pad := ucast (p - a)\<rparr>"
    let ?e = "?d\<lparr>me_state := ELEM_FREE\<rparr>"
    have m: "merge_next cf a ?e (?tail @ ss) = (?e\<lparr>me_size := me_size b\<rparr>, ss)"
      by (subst tail) (simp_all add: alloc_room_def)
    have mp: "merge_prev cf ps a (?e\<lparr>me_size := me_size b\<rparr>) = (ps, a, ?e\<lparr>me_size := me_size b\<rparr>)"
      by (rule merge_prev_none [OF nj f(1)]) (simp add: joinable_def alloc_room_def)
    have "free_blocks cf ps a ?e (?tail @ ss) = ps @ (a, b) # ss"
      unfolding free_blocks_def m Let_def prod.case mp using f by (cases b) (simp add: alloc_room_def)
    then show ?thesis using True by (intro that [of ps a ?d "?tail @ ss"]) (simp_all add: alloc_blocks_def alloc_elem_def)
  next
    case False
    let ?f = "?room\<lparr>me_size := p - a\<rparr>" and ?d = "(cut_block ?room (p - a))\<lparr>me_state := ELEM_BUSY\<rparr>"
    let ?e = "?d\<lparr>me_state := ELEM_FREE\<rparr>"
    have m: "merge_next cf p ?e (?tail @ ss) = (?e\<lparr>me_size := me_size b - (p - a)\<rparr>, ss)"
      by (subst tail) (simp_all add: alloc_room_def)
    have mp: "merge_prev cf (ps @ [(a, ?f)]) p (?e\<lparr>me_size := me_size b - (p - a)\<rparr>) = (ps, a, ?f\<lparr>me_size := me_size b\<rparr>)"
      using f by (simp add: merge_prev_def joinable_def alloc_room_def)
    have "free_blocks cf (ps @ [(a, ?f)]) p ?e (?tail @ ss) = ps @ (a, b) # ss"
      unfolding free_blocks_def m Let_def prod.case mp using f by (cases b) (simp add: alloc_room_def)
    then show ?thesis using False
      by (intro that [of "ps @ [(a, ?f)]" p ?d "?tail @ ss"]) (simp_all add: alloc_blocks_def alloc_elem_def)
  qed
qed

section \<open>Requests\<close>

text \<open>A place for a request in a block: an aligned address behind the header, with the size in cache lines up to the end.\<close>

definition has_place :: "nat \<Rightarrow> nat \<Rightarrow> eptr \<Rightarrow> elem_block \<Rightarrow> bool" where
  "has_place sz align a b \<longleftrightarrow>
     (\<exists>d. unat a + 128 \<le> d \<and> d + 64 * ((sz + 63) div 64) \<le> unat a + unat (me_size b) \<and> max 64 align dvd d)"

lemma roundup_number:
  assumes "unat sz \<le> 2 ^ 64 - 64"
  shows "unat (CACHE_LINE_ROUNDUP sz) = 64 * ((unat sz + 63) div 64)"
proof -
  obtain j where "unat (CACHE_LINE_ROUNDUP sz) = 64 * j" using cache_line_roundup(3) [OF assms] by (elim dvdE)
  then show ?thesis using cache_line_roundup(1,2) [OF assms] by simp
qed

lemma holds_iff:
  assumes H: "heap_ok cf h xs" and ab: "(a, b) \<in> set xs" and sz: "unat sz \<le> 2 ^ 64 - 64" and al: "unat align = 2 ^ k" "k \<le> 30"
  shows "holds cf h (CACHE_LINE_ROUNDUP sz) (ucast (CACHE_LINE_ROUNDUP align)) 0 False a \<longleftrightarrow> has_place (unat sz) (unat align) a b"
proof -
  let ?sz = "CACHE_LINE_ROUNDUP sz" and ?al = "ucast (CACHE_LINE_ROUNDUP align) :: u32"
  have I: "heap_inv cf h xs" using H by (simp add: heap_ok_def)
  have sb: "shape_ok a b" using heap_inv_shapes [OF I] ab by (auto simp: shapes_def)
  obtain ps ss where xs: "xs = ps @ (a, b) # ss" using ab by (meson split_list)
  have e: "mh_elems h a = Some (mk_elem b (last_of 0 ps) (first_of ss 0))"
    using I xs by (intro links_elem) (simp add: heap_inv_def)
  note A = align_roundup [OF al]
  have A2: "2 ^ 32 \<le> unat a" "unat a + unat (me_size b) < 2 ^ 64" using sb by (auto simp: shape_ok_def)
  obtain p where p: "start_pt_loop cf a (me_msl b) ?sz ?al 0 False (me_size b) = Some p"
    using start_pt_loop_ok [OF A(1) _ A2 order_refl, of 0 ?sz cf "me_msl b" False] by (auto simp: bound_ok_def)
  have "elem_start_pt cf a ?sz ?al 0 False h = Some p" using e p by (simp add: elem_start_pt_def)
  then have "holds cf h ?sz ?al 0 False a \<longleftrightarrow> p \<noteq> 0" by (simp add: holds_def)
  also have "\<dots> \<longleftrightarrow> (\<exists>d. fits a (unat (me_size b)) ?sz ?al 0 d)"
    using start_pt_loop_exact [OF A(1) A2, of cf "me_msl b" ?sz] p by auto
  also have "\<dots> \<longleftrightarrow> has_place (unat sz) (unat align) a b"
  proof
    assume "\<exists>d. fits a (unat (me_size b)) ?sz ?al 0 d"
    then show "has_place (unat sz) (unat align) a b"
      using roundup_number [OF sz] A(3) unfolding has_place_def fits_def by auto
  next
    assume "has_place (unat sz) (unat align) a b"
    then obtain d where d: "unat a + 128 \<le> d" "d + 64 * ((unat sz + 63) div 64) \<le> unat a + unat (me_size b)" "max 64 (unat align) dvd d"
      by (auto simp: has_place_def)
    have "unat (of_nat d :: u64) = d" using d(2) A2(2) by (simp add: unat_of_nat)
    then have "fits a (unat (me_size b)) ?sz ?al 0 (of_nat d)"
      using d roundup_number [OF sz] A(3) by (simp add: fits_def)
    then show "\<exists>d. fits a (unat (me_size b)) ?sz ?al 0 d" by blast
  qed
  finally show ?thesis .
qed

lemma any_pages: "heap_ok cf h xs \<Longrightarrow> (a, b) \<in> set xs \<Longrightarrow> right_pages cf h 0 a"
proof -
  assume H: "heap_ok cf h xs" and ab: "(a, b) \<in> set xs"
  obtain ps ss where "xs = ps @ (a, b) # ss" using ab by (meson split_list)
  then have "mh_elems h a = Some (mk_elem b (last_of 0 ps) (first_of ss 0))"
    using H by (intro links_elem) (simp add: heap_ok_def heap_inv_def)
  then show "right_pages cf h 0 a" by (simp add: right_pages_def check_hugepage_sz_def)
qed

lemma heap_alloc_when:
  assumes H: "heap_good cf h xs" and sz: "unat sz \<le> 2 ^ 64 - 64" and al: "unat align = 2 ^ k" "k \<le> 30"
  shows "\<exists>d h'. heap_alloc cf sz 0 align 0 False h = Some (d, h') \<and>
    (if \<exists>(a, b) \<in> set xs. is_free b \<and> has_place (unat sz) (unat align) a b
     then d \<noteq> 0 \<and> (\<exists>n. unat sz \<le> n \<and> unat align dvd unat d \<and> heap_state cf h' (insert (unat d, n) (areas xs)) \<and>
            (\<forall>B \<in> areas xs. apart B (unat d, n)) \<and> blank h' (unat d, n) \<and> mh_data h' = mh_data h)
     else d = 0 \<and> h' = h)"
proof -
  have ok: "heap_ok cf h xs" and st: "heap_state cf h (areas xs)" using H by (auto simp: heap_good_def heap_state_def)
  have bd: "bound_ok 0 (CACHE_LINE_ROUNDUP sz)" by (simp add: bound_ok_def)
  have hl: "holds cf h (CACHE_LINE_ROUNDUP sz) (ucast (CACHE_LINE_ROUNDUP align)) 0 False a \<longleftrightarrow> has_place (unat sz) (unat align) a b"
    if "(a, b) \<in> set xs" for a b by (rule holds_iff [OF ok that sz al])
  show ?thesis
  proof (cases rule: heap_alloc_ok [OF ok sz al bd, of 0 False])
    case 1
    then have "\<not> (\<exists>(a, b) \<in> set xs. is_free b \<and> has_place (unat sz) (unat align) a b)"
      using hl any_pages [OF ok] by blast
    then show ?thesis using 1(1) by auto
  next
    case (2 ps a b ss d n h')
    have ab: "(a, b) \<in> set xs" by (simp add: 2(1))
    have "shape_ok a b" using ok ab heap_inv_shapes [of cf h xs] by (auto simp: heap_ok_def shapes_def)
    then have p: "d - 128 \<noteq> 0" using 2(10) by (auto simp: place_ok_def shape_ok_def)
    have "holds cf h (CACHE_LINE_ROUNDUP sz) (ucast (CACHE_LINE_ROUNDUP align)) 0 False a"
      using 2(11) p unfolding holds_def by blast
    then have place: "\<exists>(a, b) \<in> set xs. is_free b \<and> has_place (unat sz) (unat align) a b"
      using hl [OF ab] 2(2) ab by blast
    obtain m where m: "unat sz \<le> m" "unat align dvd unat d" "unat d \<notin> fst ` areas xs" "heap_state cf h' (insert (unat d, m) (areas xs))"
      "blank h' (unat d, m)" "mh_data h' = mh_data h"
      using alloc_contract [OF st sz al bd, of 0 False] 2(3,6) by auto
    have "apart B (unat d, m)" if "B \<in> areas xs" for B
    proof (rule heap_state_apart [OF m(4)])
      show "B \<noteq> (unat d, m)" using m(3) that by force
    qed (use that in auto)
    then show ?thesis using place 2(3,6) m by auto
  qed
qed


section \<open>Freeing and resizing\<close>

text \<open>Freeing the area at \<open>d\<close> finds its block, succeeds and takes exactly this area away; all other areas keep their bytes, and the
  pages that go back to the system are outside of them. In legacy mode none go back.\<close>

theorem heap_free_takes_area:
  assumes H: "heap_state cf h As" and A: "(unat d, n) \<in> As"
  shows "\<exists>a pages h'. malloc_elem_from_data d h = Some a \<and> malloc_heap_free cf a h = Some (0, pages, h') \<and>
    heap_state cf h' (As - {(unat d, n)}) \<and>
    (\<forall>B \<in> As - {(unat d, n)}. \<forall>q. in_area q B \<longrightarrow> mh_data h' q = mh_data h q) \<and>
    (case pages of None \<Rightarrow> True
     | Some (start, len) \<Rightarrow> \<not> mc_legacy_mem cf \<and> (\<forall>B \<in> As - {(unat d, n)}. apart B (unat start, unat len)))"
proof -
  obtain a pages h' where f: "malloc_elem_from_data d h = Some a" "malloc_heap_free cf a h = Some (0, pages, h')"
    "heap_state cf h' (As - {(unat d, n)})"
    "\<forall>B \<in> As - {(unat d, n)}. \<forall>q. in_area q B \<longrightarrow> mh_data h' q = mh_data h q"
    "\<forall>start len. pages = Some (start, len) \<longrightarrow> (\<forall>B \<in> As - {(unat d, n)}. apart B (unat start, unat len))"
    using free_contract [OF H A] by blast
  show ?thesis using f free_legacy(1) [OF f(2)] by (intro exI conjI) (auto split: option.split)
qed

text \<open>Allocating and freeing again leaves the blocks of the heap as they were (in legacy mode).\<close>

theorem alloc_free_roundtrip:
  assumes H: "heap_good cf h xs" and leg: "mc_legacy_mem cf" and sz: "unat sz \<le> 2 ^ 64 - 64" and al: "unat align = 2 ^ k" "k \<le> 30"
    and bd: "bound_ok bound (CACHE_LINE_ROUNDUP sz)" and run: "heap_alloc cf sz flags align bound contig h = Some (d, h1)" "d \<noteq> 0"
  shows "\<exists>a h2. malloc_elem_from_data d h1 = Some a \<and> malloc_heap_free cf a h1 = Some (0, None, h2) \<and>
    heap_ok cf h2 xs \<and> heap_state cf h2 (areas xs)"
proof -
  have ok: "heap_ok cf h xs" and pl: "placed cf xs" and st: "heap_state cf h (areas xs)" using H by (auto simp: heap_good_def heap_state_def)
  show ?thesis
  proof (cases rule: heap_alloc_ok [OF ok sz al bd, of flags contig])
    case 1
    then show ?thesis using run by simp
  next
    case (2 ps a b ss d' n h')
    have eq: "d' = d" "h' = h1" using 2(3) run by auto
    let ?sz = "CACHE_LINE_ROUNDUP sz"
    have sb: "shape_ok a b" "me_pad b = 0" "no_joinable cf (ps @ (a, b) # ss)"
      using ok 2(1,2) heap_inv_shapes [of cf h xs] by (auto simp: heap_ok_def heap_inv_def blocks_ok_def shapes_def state_ok_def)
    obtain qs c e rs where c: "ps @ alloc_blocks a b (d - 128) ?sz @ ss = qs @ (c, e) # rs" "is_busy e"
      "(c, e) \<in> set (alloc_blocks a b (d - 128) ?sz)" "free_blocks cf qs c (e\<lparr>me_state := ELEM_FREE\<rparr>) rs = ps @ (a, b) # ss"
      by (rule free_undoes_alloc [OF sb(3) 2(2) sb(2)])
    have ok1: "heap_ok cf h1 (qs @ (c, e) # rs)" using 2(5) c(1) eq by simp
    have "area c e \<in> areas (alloc_blocks a b (d - 128) ?sz)" using c(2,3) by (auto simp: areas_def)
    then have ae: "area c e = (unat d, n)" using 2(13,14) eq by simp
    then have fd: "malloc_elem_from_data d h1 = Some c"
      by (intro from_data_busy(1) [OF ok1 _ c(2)]) (auto simp: area_def)
    have pl1: "placed cf (qs @ (c, e) # rs)" using leg by (auto simp: placed_def)
    obtain pages h2 xs' where f: "malloc_heap_free cf c h1 = Some (0, pages, h2)" "heap_ok cf h2 xs'"
      "pages = None \<longrightarrow> xs' = free_blocks cf qs c (e\<lparr>me_state := ELEM_FREE\<rparr>) rs"
      by (rule malloc_heap_free_ok [OF ok1 c(2) pl1])
    have pn: "pages = None" by (rule free_legacy(1) [OF f(1) leg])
    obtain m where m: "unat d \<notin> fst ` areas xs" "heap_state cf h1 (insert (unat d, m) (areas xs))"
      using alloc_contract [OF st sz al bd, of flags contig] run by auto
    obtain a' pages' h2' where f': "malloc_elem_from_data d h1 = Some a'" "malloc_heap_free cf a' h1 = Some (0, pages', h2')"
      "heap_state cf h2' (insert (unat d, m) (areas xs) - {(unat d, m)})"
      using free_contract [OF m(2), of d m] by blast
    have "insert (unat d, m) (areas xs) - {(unat d, m)} = areas xs" using m(1) by force
    then show ?thesis using fd f f' pn c(4) 2(1) by auto
  qed
qed

text \<open>Resizing an area either fails, which it does only when the area has to grow, and changes nothing, or the area keeps its
  place and bytes and has at least the size asked for; it never gets smaller.\<close>

theorem resize_keeps_area:
  assumes H: "heap_state cf h As" and A: "(unat d, n) \<in> As" and sz: "64 dvd unat sz" "unat sz + 512 \<le> 2 ^ 64"
  shows "\<exists>a ret h'. malloc_elem_from_data d h = Some a \<and> malloc_heap_resize cf a sz h = Some (ret, h') \<and>
    (if ret = 0 then \<exists>m. n \<le> m \<and> unat sz \<le> m \<and> heap_state cf h' (insert (unat d, m) (As - {(unat d, n)})) \<and> mh_data h' = mh_data h
     else ret = - 1 \<and> h' = h \<and> n < unat sz)"
  using resize_contract [OF assms] by fastforce

text \<open>A size above \<open>2 ^ 64 - 64\<close> is rounded up to 0, so the request is served like one of no bytes, also for users: they get
  memory though no memory is that big.\<close>

theorem huge_sizes_wrap:
  assumes "2 ^ 64 - 64 < unat sz"
  shows "heap_alloc cf sz flags align bound contig h = heap_alloc cf 0 flags align bound contig h"
  using cache_line_roundup_wraps [OF assms] by (simp add: heap_alloc_def CACHE_LINE_ROUNDUP_def)

section \<open>Properties\<close>



text \<open>
  C25: When a heap serves a request. In a sound heap a request without conditions on the pages is refused exactly when no free block has a place for it, that is,
  an aligned address behind the header with the size, in cache lines, up to the end of the block; the heap is then unchanged. Otherwise it gets an aligned
  area that is big enough, apart from all other areas, all zero and without old headers; all bytes stay what they are.
\<close>

theorem heap_alloc_exact:
  assumes H: "heap_good cf h xs" and sz: "unat sz \<le> 2 ^ 64 - 64" and al: "unat align = 2 ^ k" "k \<le> 30"
  shows "\<exists>d h'. heap_alloc cf sz 0 align 0 False h = Some (d, h') \<and>
    (if \<exists>(a, b) \<in> set xs. is_free b \<and> has_place (unat sz) (unat align) a b
     then d \<noteq> 0 \<and> (\<exists>n. unat sz \<le> n \<and> unat align dvd unat d \<and> heap_state cf h' (insert (unat d, n) (areas xs)) \<and>
            (\<forall>B \<in> areas xs. apart B (unat d, n)) \<and> blank h' (unat d, n) \<and> mh_data h' = mh_data h)
     else d = 0 \<and> h' = h)"
  by (rule heap_alloc_when [OF assms])

definition demo_conf :: malloc_conf where
  "demo_conf = conf_of demo_env demo_config"

theorem heap_alloc_exact_witness:
  "\<exists>h. malloc_heap_add_memory demo_conf 0 0x100000000 0x200000 demo_heap = Some (0x100000000, h) \<and>
     (\<exists>d h'. heap_alloc demo_conf 100 0 256 0 False h = Some (d, h') \<and> d \<noteq> 0 \<and> 256 dvd unat d \<and> blank h' (unat d, 100)) \<and>
     heap_alloc demo_conf 0x200000 0 256 0 False h = Some (0, h)"
proof -
  let ?b = "new_block 0 0x100000000 0x200000"
  have fresh: "no_memory demo_heap" "shape_ok 0x100000000 ?b" "mc_legacy_mem demo_conf"
    using demo_fresh by (simp_all add: fresh_node_def demo_env_def demo_config_def demo_seg_def demo_conf_def conf_of_def)
  obtain h where h: "malloc_heap_add_memory demo_conf 0 0x100000000 0x200000 demo_heap = Some (0x100000000, h)"
    "heap_good demo_conf h [(0x100000000, ?b)]"
    using first_memory [OF fresh] by blast
  have al: "unat (256 :: u64) = 2 ^ 8" by simp
  have free: "is_free ?b" by (simp add: new_block_def)
  have place: "has_place 100 256 0x100000000 ?b"
    unfolding has_place_def by (rule exI [of _ "0x100000100"]) (simp add: new_block_def)
  obtain d h' where d: "heap_alloc demo_conf 100 0 256 0 False h = Some (d, h')"
    "d \<noteq> 0 \<and> (\<exists>n. 100 \<le> n \<and> 256 dvd unat d \<and> blank h' (unat d, n))"
    using heap_alloc_exact [OF h(2) _ al, where sz = 100] free place by auto
  have "\<not> has_place 0x200000 256 0x100000000 ?b" by (auto simp: has_place_def new_block_def)
  then have "heap_alloc demo_conf 0x200000 0 256 0 False h = Some (0, h)"
    using heap_alloc_exact [OF h(2) _ al, where sz = "0x200000"] by auto
  moreover have "blank h' (unat d, 100)" using d(2) by (auto simp: blank_def in_area_def)
  ultimately show ?thesis using h(1) d by blast
qed

end
