(* ===== verification/Spec2Isabelle.thy ===== *)
theory Spec2Isabelle
  imports FramebufferRace WorkqueueThreads MainProgram RingC11 RingWaits Clients ServerPort MallocGrow MallocStart
begin

text \<open>
  Pixelflut over IPv6: a server that draws a pixel for every packet it receives. The colour and the coordinates are in the
  destination address of the packet. This development models the server
  (\<open>src/DPDK/dpdk-19.05/examples/pixelflut_v6\<close>), the XDP program that does the same in the kernel (\<open>src/XDP\<close>), the clients
  (\<open>examples/pixelflut_v6_client\<close>, \<open>pixelflut_v6_client_dpdk\<close>, \<open>pixelflut_client_v42\<close>), and the part of DPDK under the server's data path:
  packet buffers, memory pools, the lockless ring, the heaps their memory comes from, and the Ethernet device layer with the driver whose queues are rings.

  \<^bold>\<open>The parts and how they interact.\<close> \<open>main\<close> reads the options, makes the frame buffer, starts the work queues and the front ends (SDL or VNC), and
  starts the network thread with \<open>net_listen\<close>. The network thread takes packets from the card into mbufs of a packet pool, reads the
  address, calls \<open>fb_set_pixel\<close> and frees the mbuf. The pool keeps its free mbufs in per-core caches and behind these in a ring. The
  main loop lets every front end show the frame buffer once per period. When a window is resized, \<open>main\<close>'s callback puts one job
  for every frame buffer into the work queue of its NUMA node, whose worker calls \<open>fb_resize\<close>. Front ends, frame buffers and jobs are in
  intrusive lists.

  \<^bold>\<open>Conventions.\<close> C's undefined behaviour (an access through NULL, to freed memory or outside a block, a wait that nobody ends) is the
  value \<open>None\<close> of an option; C's return values and \<open>errno\<close> numbers are ordinary results. Machine words have the width of the code and wrap; sizes of
  objects in memory are numbers. Memory is a map from addresses to blocks or structures, one for each kind of object. What lies outside
  the repository (the operating system, SDL, libvncserver, the card and its driver, the kernel's BPF maps) is an argument: an answer, a function,
  or a list of answers. Loops that never end are cut off at the end of a list of rounds; other loops are recursive functions, and \<open>partial_function\<close>s
  where the recursion follows pointers, which the theorems show to return.

  \<^bold>\<open>The theories,\<close> in the order in which they build on each other, with what they model and show:

  \<^item> \<open>Prelude\<close>: integer types, \<open>errno\<close> values, blocks of memory, lemmas on options, lists and words, and the collections of simplification rules.
  \<^item> \<open>LList\<close> (\<open>llist.h\<close>, \<open>llist.c\<close>): the intrusive list on a heap, with its lock. Every script of operations computes the list operations of the same name. The
    theory interprets the contract \<open>fifo_list\<close> of \<open>FifoContract\<close>, through which the work queues use it.
  \<^item> \<open>PixelStore\<close>: the contract of what packets are drawn into. The last command for a pixel wins, commands outside change nothing. It is
    interpreted by \<open>Framebuffer\<close> and by the array map of \<open>Xdp\<close>.
  \<^item> \<open>Framebuffer\<close> (\<open>framebuffer.h\<close>, \<open>framebuffer.c\<close>): sizes, pixels, counters, resizing and freeing. Drawing never leaves the pixels exactly when
    width times height does not wrap. \<open>FramebufferRace\<close> runs \<open>fb_set_pixel\<close> against \<open>fb_resize\<close> one access at a time and exhibits the
    interleaving that stores into freed memory.
  \<^item> \<open>Workqueue\<close> (\<open>workqueue.c\<close>): initialisation with its error ladder, enqueueing, the worker's loop, stopping, with \<open>pthread_join\<close> as an argument that may never return. \<open>WorkqueueThreads\<close> has the worker, its clients and the stopping thread
    as a step relation: order and mutual exclusion under every interleaving, the wake-ups that get lost and the sleep for ever that follows, and what a woken worker does.
  \<^item> \<open>ResizeJob\<close>: the callbacks of \<open>main.c\<close> around a resize, composed with the queues and the frame buffers.
  \<^item> \<open>Frontend\<close> (\<open>frontend.c\<close>), \<open>Sdl\<close> (\<open>sdl.c\<close>), \<open>Vnc\<close> (\<open>vnc.c\<close>): specifications and options as text, and the two front ends over their libraries' objects.
  \<^item> \<open>MainProgram\<close> (\<open>main.c\<close>, \<open>util.h\<close>): options, counters, pacing, main loop and exit paths.
  \<^item> \<open>CommonBits\<close> (\<open>rte_common.h\<close>): alignment, powers of two, bit positions.
  \<^item> \<open>Ring\<close> (\<open>rte_ring.h\<close>, \<open>rte_ring_generic.h\<close>, \<open>rte_ring.c\<close>): the ring when calls run one after the other refines a bounded queue, whatever its wrapping
    indices are; creation, lookup and freeing. \<open>RingThreads\<close>: the multi-producer and multi-consumer calls of any number of threads, one access at a
    time. Their effects are those of a bounded queue. \<open>RingWaits\<close>: which call a waiting call waits for, and that it spins until that call's thread is
    scheduled, as the documentation says of preempted threads (\<open>doc/guides/prog_guide/env_abstraction_layer.rst\<close>, known issues of \<open>rte_ring\<close>). \<open>RingC11\<close> (\<open>rte_ring_c11_mem.h\<close>): the variant
    for other processors computes the same.
  \<^item> \<open>PoolContract\<close>, \<open>Mempool\<close>, \<open>RingPool\<close> (\<open>rte_mempool.h\<close>, \<open>rte_mempool.c\<close>, \<open>drivers/mempool/ring/rte_mempool_ring.c\<close>): the contract of a pool's driver, the caches in
    front of it, and the ring drivers as interpretations. An object is in the ring, in a cache or handed out, exactly once.
  \<^item> \<open>MempoolSizes\<close>, \<open>MempoolCreate\<close> (\<open>rte_mempool.c\<close>, \<open>rte_mempool_ops.c\<close>, \<open>rte_mempool_ops_default.c\<close>): object layout, the table of drivers, population in chunks,
    creation. Given a memory zone as the environment layer documents it (\<open>eal_memory\<close>: exactly the length asked for, rounded to cache lines, and aligned), a created
    pool has asked for room for all its objects and has them inside the zone at distinct addresses without overlap.
  \<^item> \<open>Mbuf\<close>, \<open>MbufPacket\<close>, \<open>MbufPool\<close>, \<open>MbufCreate\<close> (\<open>rte_mbuf.h\<close>, \<open>rte_mbuf.c\<close>, \<open>rte_mbuf_pool_ops.c\<close>): the operations on packet buffers, what they do to the bytes of
    a packet, taking packets from a pool and giving them back (the locale \<open>mbuf_driver\<close>, interpreted for the ring), and the creation of a packet pool.
  \<^item> \<open>Network\<close> (\<open>network.c\<close>): decoding, the network thread over the packet pool and the frame buffer, start-up. The contract with the card is \<open>rx_ok\<close>,
    with the card's own account of the mbufs it has.
  \<^item> \<open>Xdp\<close> (\<open>xdp_pixelflut.c\<close>, \<open>xdp_pixelflut_user.c\<close>): the kernel program over the locale \<open>bpf_array\<close>, and its comparison with the server.
  \<^item> \<open>Ethdev\<close> (\<open>rte_ethdev.c\<close>): the device layer over a table of driver callbacks: finding ports, configuring with its roll back, setting up queues,
    starting, stopping, closing, numbers of descriptors. \<open>EthContract\<close>: what the layer relies on from a driver (the locale \<open>eth_driver\<close>) and what it then keeps. \<open>EthDescs\<close>:
    adjusted numbers of descriptors are accepted. \<open>EthRing\<close> (\<open>drivers/net/ring/rte_eth_ring.c\<close>): a driver, which interprets the contract, ports made from rings, and
    bursts on them, which are those of a queue. \<open>ServerPort\<close>: the server's start-up calls of \<open>Network\<close> made on this layer and driver.
  \<^item> \<open>Clients\<close>: what the clients send and what a receiver draws of it; bursts of the DPDK client over its packet pool, with the contract \<open>tx_ok\<close> of the card.

  \<^item> \<open>MallocElem\<close>, \<open>MallocHeap\<close>, \<open>MallocConfig\<close>, \<open>RteMalloc\<close> (\<open>malloc_elem.c\<close>, \<open>malloc_heap.c\<close>, \<open>rte_malloc.c\<close> of \<open>lib/librte_eal/common\<close>): the elements of a heap,
    one heap, the heaps of all sockets and the external ones, and the functions for users. \<open>MallocChain\<close> reads the linked headers as a list of blocks; \<open>MallocFit\<close> shows where data is
    placed; \<open>MallocInv\<close> is the invariant; \<open>MallocAlloc\<close>, \<open>MallocFree\<close>, \<open>MallocRelease\<close> and \<open>MallocGrow\<close> show that allocating, freeing, giving pages back, growing and resizing
    keep it; \<open>MallocSpec\<close> states what users see, areas of memory that are apart from each other. \<open>MallocClean\<close> adds the bytes: free memory is zero and holds no old
    headers. \<open>AllocContract\<close> is the contract of an allocator (the locale \<open>allocator\<close>), under which any program sees its allocations as arrays of its own; \<open>MallocUse\<close> interprets
    it with \<open>rte_malloc\<close> and \<open>rte_free\<close> on one node in legacy mode, and \<open>MallocStart\<close> begins with the empty heap of a starting process.

  \<^bold>\<open>What the properties are about.\<close> The pool and its packets: creation, hand-out, freeing, and every operation on packet data. The ring, alone and with
  threads. The device layer: no call leaves defined behaviour, a configuration is done or undone, and a ring port is a queue. The data path from a client's call through the packet to the pixel. The frame buffer's bounds and resizing. The queues: order, wake-ups, stopping. The
  text formats and options. The heap: when a request is served, and that programs see separate arrays. The error paths, where the code has several defects which the theorems state as what the code does.

  \<^bold>\<open>Bounds and fuel.\<close> No theorem assumes a bound that the code does not have, with these exceptions. Object counts of pools are below
  \<open>2 ^ 30\<close>, above which the ring driver fails. A thread on a ring does not sleep inside its compare-and-set loop while \<open>2 ^ 32\<close> objects pass.
  Elements of a heap are at addresses above \<open>2 ^ 32\<close> (the base address of the environment layer), alignments are at most 1 GB and boundaries 2 GB.
  \<open>v42_main_loop\<close> takes a number of rounds; one more than the pool has mbufs is enough for it to return.

  \<^bold>\<open>Not modelled.\<close> Messages on the terminal and the statistics printed there. \<open>print_ether_addr\<close> and
  \<open>print_ip6_addr\<close> are never called. Of DPDK: the environment layer but for the heaps (start-up, memory zones, locks, time), mapping and unmapping of pages, and the drivers of cards are arguments; of the heaps
  the debug build, dumps, attaching memory in other processes, requests of secondary processes and the start are left out; of the device
  layer what the programs here do not call, and of the ring network driver the probing with arguments and the removal; of the ring
  and the pools the dump and audit functions, names of flags, statistics and debug cookies are left out; all other libraries, applications and examples are
  vendored and not called. The weak memory order of other processors than x86 is not modelled: threads interleave at single accesses in program order. The XDP
  kernel module is a stub without effect.
\<close>

end
